(* ===== verification/Prelude.thy ===== *)
theory Prelude
  imports Main "HOL-Library.Word"
begin

unbundle bit_operations_syntax

text \<open>
  Shared vocabulary of the development.

  \<^item> \<open>outcome\<close>: what a kernel routine can do.  \<open>Ok x\<close> is a normal return, \<open>Panic msg\<close> is
    a call of the kernel's \<open>panic(msg)\<close>, \<open>Fault\<close> is an access the C program must never make
    (a null pointer followed, an array index outside its bounds, a division by zero), and
    \<open>Blocked\<close> is a call of \<open>sleep()\<close> or a spinning lock: the caller waits for another
    process or CPU.
  \<^item> \<open>bnd\<close> sequences two steps and stops at the first one that does not return.
  \<^item> \<open>lk_acquire\<close> and \<open>lk_release\<close>: the spin-lock operations as one CPU sees them.
  \<^item> byte-addressed memory with little-endian 16- and 32-bit accesses.

  The collections \<open>outcome_simps\<close> and \<open>mem_simps\<close> gather the rewrite rules the component
  theories use.
\<close>

named_theorems outcome_simps
named_theorems mem_simps

subsection \<open>Outcomes of kernel routines\<close>

datatype 'a outcome = Ok 'a | Panic string | Fault | Blocked

fun bnd :: "'a outcome \<Rightarrow> ('a \<Rightarrow> 'b outcome) \<Rightarrow> 'b outcome" where
  "bnd (Ok x) f = f x"
| "bnd (Panic m) f = Panic m"
| "bnd Fault f = Fault"
| "bnd Blocked f = Blocked"

definition panic_if :: "bool \<Rightarrow> string \<Rightarrow> 'a outcome \<Rightarrow> 'a outcome" where
  "panic_if c m k = (if c then Panic m else k)"

definition fault_if :: "bool \<Rightarrow> 'a outcome \<Rightarrow> 'a outcome" where
  "fault_if c k = (if c then Fault else k)"

lemma bnd_cong [fundef_cong]:
  "m = m' \<Longrightarrow> (\<And>x. m' = Ok x \<Longrightarrow> f x = g x) \<Longrightarrow> bnd m f = bnd m' g"
  by (cases m) auto

lemma bnd_eq_Ok [outcome_simps]:
  "bnd m f = Ok y \<longleftrightarrow> (\<exists>x. m = Ok x \<and> f x = Ok y)"
  by (cases m) auto

lemma panic_if_eq_Ok [outcome_simps]: "panic_if c m k = Ok y \<longleftrightarrow> \<not> c \<and> k = Ok y"
  by (simp add: panic_if_def)

lemma fault_if_eq_Ok [outcome_simps]: "fault_if c k = Ok y \<longleftrightarrow> \<not> c \<and> k = Ok y"
  by (simp add: fault_if_def)

lemma panic_if_simps [simp]:
  "panic_if True m k = Panic m"
  "panic_if False m k = k"
  by (simp_all add: panic_if_def)

lemma fault_if_simps [simp]:
  "fault_if True k = Fault"
  "fault_if False k = k"
  by (simp_all add: fault_if_def)

lemma panic_if_cong [fundef_cong]:
  "c = d \<Longrightarrow> (\<not> d \<Longrightarrow> k = l) \<Longrightarrow> panic_if c m k = panic_if d m l"
  by (simp add: panic_if_def)

lemma fault_if_cong [fundef_cong]:
  "c = d \<Longrightarrow> (\<not> d \<Longrightarrow> k = l) \<Longrightarrow> fault_if c k = fault_if d l"
  by (simp add: fault_if_def)

lemma bnd_assoc: "bnd (bnd m f) g = bnd m (\<lambda>x. bnd (f x) g)"
  by (cases m) auto

lemma bnd_Ok_right [simp]: "bnd m Ok = m"
  by (cases m) auto

subsection \<open>Spin-locks, seen from one CPU\<close>

text \<open>
  Each kernel structure carries its own \<open>struct spinlock\<close>, kept in the model as the flag
  \<open>lock->locked\<close>.  On one CPU a set flag means that this CPU holds the lock, so \<open>acquire\<close>
  of a held lock panics, and so does \<open>release\<close> of a free one.  The theory \<open>Spinlock\<close>
  translates \<open>spinlock.c\<close> with its CPUs and interrupt flags and shows that it refines these
  two operations.
\<close>

definition lk_acquire :: "bool \<Rightarrow> bool outcome" where
  "lk_acquire locked = (if locked then Panic ''acquire'' else Ok True)"

definition lk_release :: "bool \<Rightarrow> bool outcome" where
  "lk_release locked = (if locked then Ok False else Panic ''release'')"

lemma lk_simps [simp]:
  "lk_acquire False = Ok True"
  "lk_acquire True = Panic ''acquire''"
  "lk_release True = Ok False"
  "lk_release False = Panic ''release''"
  by (simp_all add: lk_acquire_def lk_release_def)

lemma lk_acquire_Ok [outcome_simps]: "lk_acquire l = Ok t \<longleftrightarrow> \<not> l \<and> t"
  by (auto simp: lk_acquire_def)

lemma lk_release_Ok [outcome_simps]: "lk_release l = Ok t \<longleftrightarrow> l \<and> \<not> t"
  by (auto simp: lk_release_def)

subsection \<open>Machine integers\<close>

type_synonym u8 = "8 word"
type_synonym u16 = "16 word"
type_synonym u32 = "32 word"

text \<open>A C \<open>int\<close> that is kept as its value: what an increment beyond the largest one leaves.\<close>

definition wrap32 :: "int \<Rightarrow> int" where
  "wrap32 n = (n + 2147483648) mod 4294967296 - 2147483648"

lemma wrap32_small: "- 2147483648 \<le> n \<Longrightarrow> n < 2147483648 \<Longrightarrow> wrap32 n = n"
  by (simp add: wrap32_def)

lemma uint_eq_iff [simp]: "uint a = uint b \<longleftrightarrow> a = b" for a b :: "'a::len word"
  by (simp add: word_uint_eq_iff)

lemma uint_eq_0_iff [simp]: "uint a = 0 \<longleftrightarrow> a = 0" for a :: "'a::len word"
  by (simp add: uint_0_iff)

lemma unat_eq_iff [simp]: "unat a = unat b \<longleftrightarrow> a = b" for a b :: "'a::len word"
  by (simp add: word_unat_eq_iff)

lemma unat_add_lt:
  "unat a + unat b < 2 ^ LENGTH('a) \<Longrightarrow> unat (a + b) = unat a + unat b" for a b :: "'a::len word"
  by (simp add: unat_word_ariths)

lemma unat_of_nat_lt: "n < 2 ^ LENGTH('a) \<Longrightarrow> unat (word_of_nat n :: 'a::len word) = n"
  by (simp add: unsigned_of_nat take_bit_nat_eq_self)

lemma sint_eq_unat:
  fixes a :: u32
  assumes "unat a < 2 ^ 31"
  shows "sint a = int (unat a)"
proof -
  have "int (unat a) < 2 ^ 31"
    using assms by (simp only: of_nat_less_iff [where 'a=int, symmetric] of_nat_power of_nat_numeral)
  moreover have "- (2 ^ 31) \<le> int (unat a)"
    by (rule order_trans [of _ 0]) (simp_all only: of_nat_0_le_iff neg_le_0_iff_le zero_le_power zero_le_numeral)
  ultimately have "signed_take_bit 31 (int (unat a)) = int (unat a)"
    by (simp only: signed_take_bit_int_eq_self)
  moreover have "sint a = signed_take_bit 31 (uint a)"
    by (simp add: sint_uint)
  ultimately show ?thesis
    by (simp only: uint_nat)
qed

lemma take_bit_unat [simp]: "take_bit LENGTH('a) (unat w) = unat w" for w :: "'a::len word"
  by (rule take_bit_nat_eq_self) (rule unsigned_less)

lemma unat_drop: "unat (drop_bit n w) = unat w div 2 ^ n" for w :: "'a::len word"
  by (simp only: unsigned_drop_bit_eq take_bit_unat drop_bit_eq_div [where 'a = nat])

lemma unat_and_mask: "unat (w AND mask n) = unat w mod 2 ^ n" for w :: "'a::len word"
  unfolding take_bit_eq_mask [symmetric] unsigned_take_bit_eq take_bit_eq_mod [where 'a = nat] ..

lemma and_not_mask: "w AND NOT (mask n) = push_bit n (drop_bit n w)" for w :: "'a::len word"
  by (rule bit_word_eqI) (auto simp: bit_simps)

lemma unat_and_not_mask: "unat (w AND NOT (mask n)) = unat w div 2 ^ n * 2 ^ n" for w :: "'a::len word"
proof -
  have "unat w div 2 ^ n * 2 ^ n < 2 ^ LENGTH('a)"
    using unsigned_less [of w] by (metis div_times_less_eq_dividend le_less_trans)
  then show ?thesis
    by (simp only: and_not_mask unsigned_push_bit_eq unat_drop push_bit_eq_mult [where 'a = nat] take_bit_nat_eq_self)
qed

lemma unat_u32_lt [simp]: "unat (w :: u32) < 4294967296"
  using unsigned_less [of w] by simp

subsection \<open>Byte-addressed memory\<close>

text \<open>
  A memory (the kernel's address space, or the 512 data bytes of a disk block) is a function
  from addresses to bytes.  Words are stored little-endian, as on the x86.
\<close>

type_synonym bytes = "nat \<Rightarrow> u8"

definition byte_of :: "u32 \<Rightarrow> nat \<Rightarrow> u8" where
  "byte_of w i = word_of_nat (unat w div 256 ^ i)"

definition rd32 :: "bytes \<Rightarrow> nat \<Rightarrow> u32" where
  "rd32 m a = word_of_nat (unat (m a) + 256 * (unat (m (a + 1)) +
     256 * (unat (m (a + 2)) + 256 * unat (m (a + 3)))))"

definition wr32 :: "bytes \<Rightarrow> nat \<Rightarrow> u32 \<Rightarrow> bytes" where
  "wr32 m a w = m(a := byte_of w 0, a + 1 := byte_of w 1, a + 2 := byte_of w 2,
     a + 3 := byte_of w 3)"

definition rd16 :: "bytes \<Rightarrow> nat \<Rightarrow> u16" where
  "rd16 m a = word_of_nat (unat (m a) + 256 * unat (m (a + 1)))"

definition wr16 :: "bytes \<Rightarrow> nat \<Rightarrow> u16 \<Rightarrow> bytes" where
  "wr16 m a w = m(a := word_of_nat (unat w mod 256), a + 1 := word_of_nat (unat w div 256))"

definition bytes_at :: "bytes \<Rightarrow> nat \<Rightarrow> nat \<Rightarrow> u8 list" where
  "bytes_at m a n = map (\<lambda>i. m (a + i)) [0..<n]"

definition put_bytes :: "bytes \<Rightarrow> nat \<Rightarrow> u8 list \<Rightarrow> bytes" where
  "put_bytes m a xs = (\<lambda>i. if a \<le> i \<and> i < a + length xs then xs ! (i - a) else m i)"

definition fill_bytes :: "bytes \<Rightarrow> nat \<Rightarrow> nat \<Rightarrow> u8 \<Rightarrow> bytes" where
  "fill_bytes m a n v = (\<lambda>i. if a \<le> i \<and> i < a + n then v else m i)"

lemma unat_byte [simp]: "unat (word_of_nat x :: u8) = x mod 256"
  by (simp add: unsigned_of_nat take_bit_eq_mod)

lemma bytes_recombine: "u mod 256 + 256 * (u div 256 mod 256 + 256 * (u div 256 div 256 mod 256 +
     256 * (u div 256 div 256 div 256))) = (u::nat)"
  by (simp only: mod_mult_div_eq)

lemma unat_byte_of:
  "unat (byte_of w 0) = unat w mod 256"
  "unat (byte_of w 1) = unat w div 256 mod 256"
  "unat (byte_of w 2) = unat w div 256 div 256 mod 256"
  "unat (byte_of w 3) = unat w div 256 div 256 div 256"
proof -
  have "unat w < 4294967296"
    using unsigned_less [of w] by simp
  then have "unat w div 16777216 < 256" by (simp add: less_mult_imp_div_less)
  moreover have "unat (byte_of w i) = unat w div 256 ^ i mod 256" for i
    by (simp only: byte_of_def unat_byte)
  ultimately show "unat (byte_of w 0) = unat w mod 256"
    "unat (byte_of w 1) = unat w div 256 mod 256"
    "unat (byte_of w 2) = unat w div 256 div 256 mod 256"
    "unat (byte_of w 3) = unat w div 256 div 256 div 256"
    by (simp_all add: div_mult2_eq [symmetric])
qed

lemma rd32_wr32_same [simp, mem_simps]: "rd32 (wr32 m a w) a = w"
proof -
  have "rd32 (wr32 m a w) a = word_of_nat (unat (byte_of w 0) + 256 * (unat (byte_of w 1) +
     256 * (unat (byte_of w 2) + 256 * unat (byte_of w 3))))"
    unfolding rd32_def wr32_def by (simp only: fun_upd_apply) simp
  also have "\<dots> = word_of_nat (unat w)"
    by (simp only: unat_byte_of bytes_recombine)
  finally show ?thesis by simp
qed

lemma rd32_wr32_other [mem_simps]:
  "a + 4 \<le> b \<or> b + 4 \<le> a \<Longrightarrow> rd32 (wr32 m a w) b = rd32 m b"
  by (auto simp: rd32_def wr32_def)

lemma wr32_outside [mem_simps]: "i < a \<or> a + 4 \<le> i \<Longrightarrow> wr32 m a w i = m i"
  by (auto simp: wr32_def)

lemma rd16_wr16_same [simp, mem_simps]: "rd16 (wr16 m a w) a = w"
proof -
  have "unat w < 65536"
    using unsigned_less [of w] by simp
  then have "unat w div 256 mod 256 = unat w div 256"
    by simp
  moreover have "rd16 (wr16 m a w) a = word_of_nat (unat w mod 256 mod 256 + 256 * (unat w div 256 mod 256))"
    unfolding rd16_def wr16_def by (simp only: fun_upd_apply unat_byte) simp
  ultimately have "rd16 (wr16 m a w) a = word_of_nat (unat w)"
    by (simp only: mod_mod_trivial mod_mult_div_eq)
  then show ?thesis by simp
qed

lemma rd16_wr16_other [mem_simps]:
  "a + 2 \<le> b \<or> b + 2 \<le> a \<Longrightarrow> rd16 (wr16 m a w) b = rd16 m b"
  by (auto simp: rd16_def wr16_def)

lemma rd32_cong: "(\<And>i. a \<le> i \<Longrightarrow> i < a + 4 \<Longrightarrow> m i = m' i) \<Longrightarrow> rd32 m a = rd32 m' a"
  by (simp add: rd32_def)

lemma rd32_zero: "(\<And>i. a \<le> i \<Longrightarrow> i < a + 4 \<Longrightarrow> m i = 0) \<Longrightarrow> rd32 m a = 0"
  by (simp add: rd32_def)

lemma rd32_fill_zero [mem_simps]:
  "a \<le> b \<Longrightarrow> b + 4 \<le> a + n \<Longrightarrow> rd32 (fill_bytes m a n 0) b = 0"
  by (rule rd32_zero) (auto simp: fill_bytes_def)

lemma rd32_fill_other [mem_simps]:
  "b + 4 \<le> a \<or> a + n \<le> b \<Longrightarrow> rd32 (fill_bytes m a n v) b = rd32 m b"
  by (rule rd32_cong) (auto simp: fill_bytes_def)

lemma length_bytes_at [simp]: "length (bytes_at m a n) = n"
  by (simp add: bytes_at_def)

lemma nth_bytes_at [simp]: "i < n \<Longrightarrow> bytes_at m a n ! i = m (a + i)"
  by (simp add: bytes_at_def)

lemma bytes_at_put_bytes [simp]: "bytes_at (put_bytes m a xs) a (length xs) = xs"
  by (rule nth_equalityI) (auto simp: put_bytes_def)

lemma put_bytes_outside [mem_simps]:
  "i < a \<or> a + length xs \<le> i \<Longrightarrow> put_bytes m a xs i = m i"
  by (auto simp: put_bytes_def)

lemma put_bytes_Nil [simp]: "put_bytes m a [] = m"
  by (auto simp: put_bytes_def fun_eq_iff)

end
