(* ===== verification/Param.thy ===== *)
theory Param
  imports Prelude
begin

text \<open>The sizes of \<open>param.h\<close>, \<open>fs.h\<close> and \<open>pipe.c\<close>.\<close>

definition NPROC :: nat where "NPROC = 64"
definition NOFILE :: nat where "NOFILE = 16"
definition NFILE :: nat where "NFILE = 100"
definition NINODE :: nat where "NINODE = 50"
definition NDEV :: nat where "NDEV = 10"
definition ROOTDEV :: u32 where "ROOTDEV = 1"
definition MAXARG :: nat where "MAXARG = 32"
definition MAXOPBLOCKS :: nat where "MAXOPBLOCKS = 10"
definition LOGSIZE :: nat where "LOGSIZE = MAXOPBLOCKS * 3"
definition NBUF :: nat where "NBUF = MAXOPBLOCKS * 3"
definition FSSIZE :: u32 where "FSSIZE = 1000"

definition ROOTINO :: u32 where "ROOTINO = 1"
definition BSIZE :: nat where "BSIZE = 512"
definition NDIRECT :: nat where "NDIRECT = 12"
definition NINDIRECT :: nat where "NINDIRECT = BSIZE div 4"
definition MAXFILE :: nat where "MAXFILE = NDIRECT + NINDIRECT"
definition IPB :: nat where "IPB = BSIZE div 64"
definition BPB :: nat where "BPB = BSIZE * 8"
definition DIRSIZ :: nat where "DIRSIZ = 14"

named_theorems param_defs

lemmas param_values [param_defs] =
  NPROC_def NOFILE_def NFILE_def NINODE_def NDEV_def ROOTDEV_def MAXARG_def MAXOPBLOCKS_def
  LOGSIZE_def NBUF_def FSSIZE_def ROOTINO_def BSIZE_def NDIRECT_def NINDIRECT_def MAXFILE_def
  IPB_def BPB_def DIRSIZ_def

end
