(* ===== verification/Ptypes.thy ===== *)
theory Ptypes
  imports Param
begin

text \<open>
  The process structure shared by the three kernels of the repository (\<open>proc.h\<close>): process
  states, the saved user registers the kernel touches, and \<open>struct proc\<close>.  Pointers into the
  process table are indices into it, a null pointer is \<open>None\<close>; kernel addresses are
  32-bit words with 0 the null pointer.  The lottery kernel and the paging kernel extend \<open>struct
  proc\<close> with their own fields, and so do their theories, by record extension.
\<close>

datatype procstate = UNUSED | EMBRYO | SLEEPING | RUNNABLE | RUNNING | ZOMBIE

text \<open>The part of \<open>struct trapframe\<close> (\<open>x86.h\<close>) that \<open>proc.c\<close>, \<open>trap.c\<close> and \<open>syscall.c\<close> use.\<close>

record trapframe =
  tf_eax :: u32
  tf_trapno :: u32
  tf_eip :: u32
  tf_cs :: u16
  tf_ds :: u16
  tf_es :: u16
  tf_ss :: u16
  tf_eflags :: u32
  tf_esp :: u32

text \<open>
  Where a process resumes when the scheduler switches to it: in \<open>forkret\<close>, or behind the \<open>swtch\<close>
  of \<open>sched\<close>, which has kept \<open>intena\<close> on the kernel stack.
\<close>

datatype resume = Forkret | InKernel bool

text \<open>A sleep channel: an address, named by the object that lies there.\<close>

datatype channel = NullChan | Chan_proc nat | Chan_ticks | Chan_at u32

record proc =
  sz :: u32
  pgdir :: u32
  kstack :: u32
  state :: procstate
  pid :: int
  parent :: "nat option"
  tf :: trapframe
  ctxt :: resume
  chan :: channel
  killed :: bool
  ofile :: "nat option list"
  cwd :: "nat option"
  pname :: string

end
