(* ===== verification/Lottery.thy ===== *)
theory Lottery
  imports Ptypes
begin

text \<open>
  The lottery scheduler of \<open>Offline-03-Xv6-and-Scheduling/xv6-public/proc.c\<close>: the random
  number generator, the tickets of a process, the draw, the accounting of ticks and
  \<open>getpinfo\<close>.  \<open>scheduler_round\<close> is one turn of the \<open>for(;;)\<close> loop of \<open>scheduler\<close>; what
  the chosen process does between the two context switches is its argument \<open>run\<close>.
\<close>

subsection \<open>State\<close>

record lproc = proc +
  ticks1 :: u32
  ticks2 :: u32
  ticks :: u32
  tickets :: u32      \<comment> \<open>a C \<open>int\<close>, read with \<open>sint\<close>\<close>
  inuse :: u32

record lstate =
  ptable_lock :: bool
  procs :: "lproc list"
  tickslock :: bool
  gticks :: u32            \<comment> \<open>the global \<open>ticks\<close> of \<open>trap.c\<close>\<close>
  Q :: "nat \<Rightarrow> u32"
  lfsr :: u32
  lbit :: u32
  have_seeded :: bool
  cproc :: "nat option"    \<comment> \<open>\<open>c->proc\<close>\<close>

subsection \<open>Random numbers\<close>

definition PHI :: u32 where "PHI = 0x9e3779b9"

fun srand_loop :: "nat \<Rightarrow> nat \<Rightarrow> (nat \<Rightarrow> u32) \<Rightarrow> (nat \<Rightarrow> u32)" where
  "srand_loop 0 i q = q"
| "srand_loop (Suc k) i q =
     srand_loop k (Suc i) (q(i := ((q (i - 3) XOR q (i - 2)) XOR PHI) XOR word_of_nat i))"

definition srand :: "u32 \<Rightarrow> lstate \<Rightarrow> lstate" where
  "srand x s = s\<lparr>Q := srand_loop (4096 - 3) 3 ((Q s)(0 := x, 1 := x + PHI, 2 := x + PHI + PHI))\<rparr>"

definition rand :: "lstate \<Rightarrow> u32 \<times> lstate" where
  "rand s =
     (let b = (((drop_bit 0 (lfsr s) XOR drop_bit 2 (lfsr s)) XOR drop_bit 3 (lfsr s))
                 XOR drop_bit 5 (lfsr s)) AND 1;
          l = drop_bit 1 (lfsr s) OR push_bit 15 b
      in (l, s\<lparr>lbit := b, lfsr := l\<rparr>))"

subsection \<open>Tickets\<close>

definition settickets :: "nat \<Rightarrow> u32 \<Rightarrow> lstate \<Rightarrow> (int \<times> lstate) outcome" where
  "settickets p number s =
     (if sint number \<le> 0 then Ok (-1, s)
      else bnd (lk_acquire (ptable_lock s)) (\<lambda>l.
           fault_if (length (procs s) \<le> p)
            (let s1 = s\<lparr>ptable_lock := l, procs := (procs s)[p := (procs s ! p)\<lparr>tickets := number\<rparr>]\<rparr>
             in bnd (lk_release (ptable_lock s1)) (\<lambda>l'. Ok (0, s1\<lparr>ptable_lock := l'\<rparr>)))))"

fun sum_tickets :: "lproc list \<Rightarrow> u32 \<Rightarrow> u32" where
  "sum_tickets [] acc = acc"
| "sum_tickets (p # ps) acc =
     sum_tickets ps (if state p = RUNNABLE then acc + tickets p else acc)"

definition gettotalTickets :: "lstate \<Rightarrow> (u32 \<times> lstate) outcome" where
  "gettotalTickets s =
     bnd (lk_acquire (ptable_lock s)) (\<lambda>l.
       let s1 = s\<lparr>ptable_lock := l\<rparr>; total = sum_tickets (procs s1) 0
       in bnd (lk_release (ptable_lock s1)) (\<lambda>l'. Ok (total, s1\<lparr>ptable_lock := l'\<rparr>)))"

subsection \<open>The draw\<close>

text \<open>The scan of the process table: the index of the process that wins with \<open>win_ticket\<close>.\<close>

fun lottery_scan :: "lproc list \<Rightarrow> nat \<Rightarrow> u32 \<Rightarrow> u32 \<Rightarrow> nat option" where
  "lottery_scan [] i cnt win_ticket = None"
| "lottery_scan (p # ps) i cnt win_ticket =
     (if state p \<noteq> RUNNABLE then lottery_scan ps (Suc i) cnt win_ticket
      else let cnt' = cnt + tickets p
           in if sint win_ticket > sint cnt' then lottery_scan ps (Suc i) cnt' win_ticket
              else Some i)"

definition upd_proc :: "nat \<Rightarrow> (lproc \<Rightarrow> lproc) \<Rightarrow> lstate \<Rightarrow> lstate" where
  "upd_proc i f s = s\<lparr>procs := (procs s)[i := f (procs s ! i)]\<rparr>"

definition scheduler_dispatch :: "(lstate \<Rightarrow> lstate) \<Rightarrow> nat \<Rightarrow> lstate \<Rightarrow> lstate outcome" where
  "scheduler_dispatch run i s =
     (let s1 = upd_proc i (\<lambda>p. p\<lparr>state := RUNNING, inuse := 1\<rparr>) (s\<lparr>cproc := Some i\<rparr>)
      in bnd (lk_acquire (tickslock s1)) (\<lambda>t.
         let s2 = upd_proc i (\<lambda>p. p\<lparr>ticks1 := gticks s1\<rparr>) (s1\<lparr>tickslock := t\<rparr>)
         in bnd (lk_release (tickslock s2)) (\<lambda>t.
            let s3 = run (s2\<lparr>tickslock := t\<rparr>)
            in bnd (lk_acquire (tickslock s3)) (\<lambda>t.
               let s4 = upd_proc i (\<lambda>p. p\<lparr>ticks2 := gticks s3,
                          ticks := ticks p + (gticks s3 - ticks1 p)\<rparr>) (s3\<lparr>tickslock := t\<rparr>)
               in bnd (lk_release (tickslock s4)) (\<lambda>t.
                  Ok (s4\<lparr>tickslock := t, cproc := None\<rparr>))))))"

definition scheduler_init :: "lstate \<Rightarrow> lstate" where
  "scheduler_init s =
     (let s1 = s\<lparr>cproc := None\<rparr>
      in if have_seeded s1 then s1 else (srand 1323 s1)\<lparr>have_seeded := True\<rparr>)"

definition scheduler_round :: "(lstate \<Rightarrow> lstate) \<Rightarrow> lstate \<Rightarrow> (nat option \<times> lstate) outcome" where
  "scheduler_round run s =
     bnd (gettotalTickets s) (\<lambda>(total, s1).
       if total = 0 then Ok (None, s1)
       else let (r, s2) = rand s1 in
         bnd (gettotalTickets s2) (\<lambda>(total2, s3).
           fault_if (total2 = 0)
            (let win_ticket = r mod total2
             in bnd (lk_acquire (ptable_lock s3)) (\<lambda>l.
                let s4 = s3\<lparr>ptable_lock := l\<rparr>
                in case lottery_scan (procs s4) 0 0 win_ticket of
                     None \<Rightarrow> bnd (lk_release (ptable_lock s4)) (\<lambda>l. Ok (None, s4\<lparr>ptable_lock := l\<rparr>))
                   | Some i \<Rightarrow>
                       bnd (scheduler_dispatch run i s4) (\<lambda>s5.
                         bnd (lk_release (ptable_lock s5)) (\<lambda>l. Ok (Some i, s5\<lparr>ptable_lock := l\<rparr>)))))))"

subsection \<open>Process statistics\<close>

record pstat =
  ps_inuse :: "nat \<Rightarrow> u32"
  ps_tickets :: "nat \<Rightarrow> u32"
  ps_pid :: "nat \<Rightarrow> int"
  ps_ticks :: "nat \<Rightarrow> u32"

fun getpinfo_loop :: "lproc list \<Rightarrow> nat \<Rightarrow> pstat \<Rightarrow> pstat" where
  "getpinfo_loop [] index target = target"
| "getpinfo_loop (p # ps) index target =
     getpinfo_loop ps (Suc index)
       (if state p \<noteq> UNUSED
        then target\<lparr>ps_pid := (ps_pid target)(index := pid p),
               ps_ticks := (ps_ticks target)(index := ticks p),
               ps_tickets := (ps_tickets target)(index := tickets p),
               ps_inuse := (ps_inuse target)(index := inuse p)\<rparr>
        else target\<lparr>ps_inuse := (ps_inuse target)(index := 0)\<rparr>)"

definition getpinfo :: "pstat \<Rightarrow> lstate \<Rightarrow> (int \<times> pstat \<times> lstate) outcome" where
  "getpinfo target s =
     bnd (lk_acquire (ptable_lock s)) (\<lambda>l.
       let s1 = s\<lparr>ptable_lock := l\<rparr>; t = getpinfo_loop (procs s1) 0 target
       in bnd (lk_release (ptable_lock s1)) (\<lambda>l. Ok (0, t, s1\<lparr>ptable_lock := l\<rparr>)))"

subsection \<open>The draw, over the natural numbers\<close>

abbreviation runnable :: "lproc \<Rightarrow> bool" where
  "runnable p \<equiv> state p = RUNNABLE"

text \<open>The tickets of the runnable processes of a table, as a natural number.\<close>

fun tsum :: "lproc list \<Rightarrow> nat" where
  "tsum [] = 0"
| "tsum (p # ps) = (if runnable p then unat (tickets p) else 0) + tsum ps"

text \<open>A table the scheduler can draw from: positive tickets, and a sum that fits an \<open>int\<close>.\<close>

definition lottery_ok :: "lproc list \<Rightarrow> bool" where
  "lottery_ok ps \<longleftrightarrow> (\<forall>p \<in> set ps. runnable p \<longrightarrow> 0 < sint (tickets p)) \<and> tsum ps < 2 ^ 31"

lemma tsum_append: "tsum (xs @ ys) = tsum xs + tsum ys"
  by (induction xs) auto

lemma tsum_take_Suc:
  "k < length ps \<Longrightarrow> tsum (take (Suc k) ps) = tsum (take k ps) + (if runnable (ps ! k) then unat (tickets (ps ! k)) else 0)"
  by (simp add: take_Suc_conv_app_nth tsum_append)

lemma tsum_split: "tsum ps = tsum (take k ps) + tsum (drop k ps)"
  using tsum_append [of "take k ps" "drop k ps"] by simp

lemma tsum_zero_iff: "tsum ps = 0 \<longleftrightarrow> (\<forall>p \<in> set ps. runnable p \<longrightarrow> tickets p = 0)"
  by (induction ps) (auto simp: unat_eq_0)

lemma tsum_no_runnable: "\<forall>p \<in> set ps. \<not> runnable p \<Longrightarrow> tsum ps = 0"
  by (induction ps) auto

lemma tsum_mono_take: "j \<le> k \<Longrightarrow> tsum (take j ps) \<le> tsum (take k ps)"
  using tsum_split [of "take k ps" j] by (simp add: min_def)

lemma sum_tickets_unat:
  "unat acc + tsum ps < 2 ^ 32 \<Longrightarrow> unat (sum_tickets ps acc) = unat acc + tsum ps"
proof (induction ps arbitrary: acc)
  case (Cons p ps)
  show ?case
  proof (cases "runnable p")
    case True
    then have "unat (acc + tickets p) = unat acc + unat (tickets p)"
      using Cons.prems by (intro unat_add_lt) simp
    then show ?thesis using Cons True by simp
  qed (use Cons in simp)
qed simp

lemma sint_gt_iff:
  fixes a b :: u32
  shows "unat a < 2 ^ 31 \<Longrightarrow> unat b < 2 ^ 31 \<Longrightarrow> sint b < sint a \<longleftrightarrow> unat b < unat a"
  by (simp add: sint_eq_unat del: of_nat_unat)

text \<open>Which process the scan returns: the first runnable one whose running total reaches the ticket.\<close>

lemma lottery_scan_Some_iff:
  assumes "unat cnt + tsum ps < 2 ^ 31" "unat w < 2 ^ 31"
  shows "lottery_scan ps i cnt w = Some j \<longleftrightarrow>
    (\<exists>k < length ps. j = i + k \<and> runnable (ps ! k) \<and> unat w \<le> unat cnt + tsum (take (Suc k) ps)
       \<and> (\<forall>k' < k. runnable (ps ! k') \<longrightarrow> unat cnt + tsum (take (Suc k') ps) < unat w))"
  using assms
proof (induction ps arbitrary: i cnt)
  case (Cons p ps)
  show ?case
  proof (cases "runnable p")
    case False
    with Cons show ?thesis
      by (simp add: Ex_less_Suc2 All_less_Suc2 del: sum_tickets.simps)
  next
    case True
    have add: "unat (cnt + tickets p) = unat cnt + unat (tickets p)"
      using Cons.prems True by (intro unat_add_lt) simp
    have gt: "sint w > sint (cnt + tickets p) \<longleftrightarrow> unat w > unat cnt + unat (tickets p)"
      using Cons.prems True add by (subst sint_gt_iff) auto
    show ?thesis
    proof (cases "unat w > unat cnt + unat (tickets p)")
      case True': True
      have "unat (cnt + tickets p) + tsum ps < 2 ^ 31"
        using Cons.prems True add by simp
      from Cons.IH [OF this Cons.prems(2), of "Suc i"] show ?thesis
        using True True' gt add by (simp add: Ex_less_Suc2 All_less_Suc2 add.assoc)
    next
      case False
      then have "lottery_scan (p # ps) i cnt w = Some i"
        using True gt by (simp add: Let_def)
      then show ?thesis
        using True False by (auto simp: Ex_less_Suc2 All_less_Suc2)
    qed
  qed
qed simp

definition winner :: "lproc list \<Rightarrow> nat \<Rightarrow> nat option" where
  "winner ps w = lottery_scan ps 0 0 (word_of_nat w)"

lemma below_all_earlier:
  "j \<le> length ps \<Longrightarrow>
   (\<forall>k < j. runnable (ps ! k) \<longrightarrow> tsum (take (Suc k) ps) < w) \<longleftrightarrow>
   (\<forall>k < j. \<not> runnable (ps ! k)) \<or> tsum (take j ps) < w"
proof (induction j)
  case (Suc j)
  then show ?case
    by (auto simp: less_Suc_eq tsum_take_Suc)
qed simp

lemma unat_of_nat_31: "w < 2 ^ 31 \<Longrightarrow> unat (word_of_nat w :: u32) = w"
  by (simp add: unsigned_of_nat take_bit_eq_mod)

lemma winner_iff:
  assumes "lottery_ok ps" "w < tsum ps"
  shows "winner ps w = Some j \<longleftrightarrow> j < length ps \<and> runnable (ps ! j) \<and> w \<le> tsum (take (Suc j) ps)
    \<and> ((\<forall>k < j. \<not> runnable (ps ! k)) \<or> tsum (take j ps) < w)"
proof -
  have w: "w < 2 ^ 31" "tsum ps < 2 ^ 31"
    using assms by (auto simp: lottery_ok_def)
  have "winner ps w = Some j \<longleftrightarrow> j < length ps \<and> runnable (ps ! j) \<and> w \<le> tsum (take (Suc j) ps)
    \<and> (\<forall>k < j. runnable (ps ! k) \<longrightarrow> tsum (take (Suc k) ps) < w)"
    unfolding winner_def using w
    by (subst lottery_scan_Some_iff) (auto simp: unat_of_nat_31)
  then show ?thesis
    using below_all_earlier [of j ps w] by (cases "j < length ps") auto
qed

lemma winner_exists:
  assumes "lottery_ok ps" "w < tsum ps"
  shows "\<exists>j. winner ps w = Some j"
proof -
  define P where "P k \<longleftrightarrow> k < length ps \<and> runnable (ps ! k) \<and> w \<le> tsum (take (Suc k) ps)" for k
  have "\<exists>p \<in> set ps. runnable p"
    using assms(2) tsum_no_runnable [of ps] by fastforce
  then have "\<not> (\<forall>k < length ps. \<not> runnable (ps ! k))"
    by (auto simp: in_set_conv_nth)
  then have "\<not> (\<forall>k < length ps. runnable (ps ! k) \<longrightarrow> tsum (take (Suc k) ps) < w)"
    using assms(2) by (subst below_all_earlier) auto
  then have "\<exists>k. P k"
    by (auto simp: P_def not_less)
  then obtain m where m: "P m" "\<And>k. k < m \<Longrightarrow> \<not> P k"
    by (metis LeastI_ex not_less_Least)
  then have "\<forall>k < m. runnable (ps ! k) \<longrightarrow> tsum (take (Suc k) ps) < w"
    by (auto simp: P_def not_le dest: less_trans)
  then have "(\<forall>k < m. \<not> runnable (ps ! k)) \<or> tsum (take m ps) < w"
    using m(1) by (subst below_all_earlier [symmetric]) (auto simp: P_def)
  then have "winner ps w = Some m"
    using m(1) assms by (subst winner_iff) (auto simp: P_def)
  then show ?thesis ..
qed

text \<open>The number of tickets that a process wins with.\<close>

lemma lottery_share:
  assumes "lottery_ok ps" "j < length ps" "runnable (ps ! j)"
  shows "card {w. w < tsum ps \<and> winner ps w = Some j} =
    unat (tickets (ps ! j)) + (if \<exists>k < j. runnable (ps ! k) then 0 else 1)
      - (if \<exists>k. j < k \<and> k < length ps \<and> runnable (ps ! k) then 0 else 1)"
proof -
  define c t d where "c = tsum (take j ps)" and "t = unat (tickets (ps ! j))"
    and "d = tsum (drop (Suc j) ps)"
  have total: "tsum ps = c + t + d" and upto: "tsum (take (Suc j) ps) = c + t"
    using tsum_split [of ps "Suc j"] assms(2,3) by (simp_all add: c_def t_def d_def tsum_take_Suc)
  have pos: "0 < unat (tickets p)" if "p \<in> set ps" "runnable p" for p
    using that assms(1) by (auto simp: lottery_ok_def unat_gt_0)
  have t: "0 < t"
    using pos assms(2,3) by (simp add: t_def)
  have first: "c = 0" if "\<not> (\<exists>k < j. runnable (ps ! k))"
    using that assms(2) unfolding c_def by (intro tsum_no_runnable) (auto simp: in_set_conv_nth)
  have last: "d = 0 \<longleftrightarrow> \<not> (\<exists>k. j < k \<and> k < length ps \<and> runnable (ps ! k))"
  proof
    assume "d = 0"
    show "\<not> (\<exists>k. j < k \<and> k < length ps \<and> runnable (ps ! k))"
    proof
      assume "\<exists>k. j < k \<and> k < length ps \<and> runnable (ps ! k)"
      then obtain k where k: "j < k" "k < length ps" "runnable (ps ! k)" by blast
      then have "ps ! k = drop (Suc j) ps ! (k - Suc j)" "k - Suc j < length (drop (Suc j) ps)"
        by auto
      then have "ps ! k \<in> set (drop (Suc j) ps)" by (metis nth_mem)
      with \<open>d = 0\<close> k(3) have "tickets (ps ! k) = 0"
        unfolding d_def tsum_zero_iff by blast
      with pos [of "ps ! k"] k show False by simp
    qed
  next
    assume "\<not> (\<exists>k. j < k \<and> k < length ps \<and> runnable (ps ! k))"
    then show "d = 0" unfolding d_def
      by (intro tsum_no_runnable) (auto simp: in_set_conv_nth)
  qed
  have set: "{w. w < tsum ps \<and> winner ps w = Some j} =
      {w. w < c + t + d \<and> w \<le> c + t \<and> ((\<forall>k < j. \<not> runnable (ps ! k)) \<or> c < w)}"
    using winner_iff [OF assms(1)] assms(2,3) by (auto simp: total upto c_def)
  show ?thesis
  proof (cases "\<exists>k < j. runnable (ps ! k)")
    case True
    then have "{w. w < tsum ps \<and> winner ps w = Some j} = {c<..<if d = 0 then c + t else c + t + 1}"
      unfolding set by (auto split: if_splits)
    then show ?thesis using True last t by (auto simp: t_def)
  next
    case False
    then have "{w. w < tsum ps \<and> winner ps w = Some j} = {..<if d = 0 then t else t + 1}"
      unfolding set using first by (auto split: if_splits)
    then show ?thesis using False last t by (auto simp: t_def)
  qed
qed

lemmas winner_facts = winner_iff winner_exists winner_def

subsection \<open>One turn of the scheduler\<close>

text \<open>
  What \<open>proc.c\<close> asks of a process between the two context switches: it comes back with
  \<open>ptable.lock\<close> held (it reacquires the lock it released) and \<open>tickslock\<close> free, and the
  process table keeps its size.  Only the scheduler writes the running process's \<open>ticks\<close> and
  \<open>ticks1\<close>.
\<close>

definition run_ok :: "(lstate \<Rightarrow> lstate) \<Rightarrow> bool" where
  "run_ok run \<longleftrightarrow> (\<forall>s. ptable_lock s \<longrightarrow> \<not> tickslock s \<longrightarrow>
     ptable_lock (run s) \<and> \<not> tickslock (run s) \<and> length (procs (run s)) = length (procs s)
     \<and> (\<forall>i < length (procs s). cproc s = Some i \<longrightarrow> ticks (procs (run s) ! i) = ticks (procs s ! i)
           \<and> ticks1 (procs (run s) ! i) = ticks1 (procs s ! i)))"

lemma run_okD:
  assumes "run_ok run" "ptable_lock s" "\<not> tickslock s"
  shows "ptable_lock (run s)" "\<not> tickslock (run s)" "length (procs (run s)) = length (procs s)"
    and "cproc s = Some i \<Longrightarrow> i < length (procs s) \<Longrightarrow> ticks (procs (run s) ! i) = ticks (procs s ! i)"
    and "cproc s = Some i \<Longrightarrow> i < length (procs s) \<Longrightarrow> ticks1 (procs (run s) ! i) = ticks1 (procs s ! i)"
  using assms by (simp_all add: run_ok_def)

lemma gettotalTickets_eq:
  "\<not> ptable_lock s \<Longrightarrow> gettotalTickets s = Ok (sum_tickets (procs s) 0, s\<lparr>ptable_lock := False\<rparr>)"
  by (simp add: gettotalTickets_def Let_def)

text \<open>The state in which the chosen process starts to run.\<close>

definition dispatched :: "nat \<Rightarrow> lstate \<Rightarrow> lstate" where
  "dispatched i s = upd_proc i (\<lambda>p. p\<lparr>state := RUNNING, inuse := 1, ticks1 := gticks s\<rparr>)
     (s\<lparr>cproc := Some i, tickslock := False\<rparr>)"

lemma scheduler_dispatch_eq:
  assumes "i < length (procs s)" "\<not> tickslock s" "ptable_lock s" "run_ok run"
  defines "r \<equiv> run (dispatched i s)"
  shows "scheduler_dispatch run i s = Ok (upd_proc i (\<lambda>p. p\<lparr>ticks2 := gticks r,
           ticks := ticks p + (gticks r - ticks1 p)\<rparr>) (r\<lparr>tickslock := False, cproc := None\<rparr>))"
proof -
  have "ptable_lock (dispatched i s)" "\<not> tickslock (dispatched i s)"
    using assms by (auto simp: dispatched_def upd_proc_def)
  with assms(4) have r: "\<not> tickslock r" "length (procs r) = length (procs s)"
    using run_okD [of run "dispatched i s"] by (auto simp: r_def dispatched_def upd_proc_def)
  have "upd_proc i (\<lambda>p. p\<lparr>ticks1 := gticks s\<rparr>) (upd_proc i (\<lambda>p. p\<lparr>state := RUNNING, inuse := 1\<rparr>)
      (s\<lparr>cproc := Some i\<rparr>)\<lparr>tickslock := True\<rparr>)\<lparr>tickslock := False\<rparr> = dispatched i s"
    using assms(1) by (simp add: upd_proc_def dispatched_def)
  then show ?thesis
    using assms(1,2) r by (simp add: scheduler_dispatch_def Let_def upd_proc_def r_def)
qed

lemma rand_frame [simp]:
  "procs (snd (rand s)) = procs s" "ptable_lock (snd (rand s)) = ptable_lock s"
  "tickslock (snd (rand s)) = tickslock s" "gticks (snd (rand s)) = gticks s"
  by (simp_all add: rand_def Let_def)


text \<open>A process with a given state and number of tickets, for concrete instances.\<close>

definition lproc_with :: "int \<Rightarrow> procstate \<Rightarrow> u32 \<Rightarrow> lproc" where
  "lproc_with n st t = \<lparr>sz = 4096, pgdir = 4096, kstack = 8192, state = st, pid = n, parent = None,
     tf = \<lparr>tf_eax = 0, tf_trapno = 0, tf_eip = 0, tf_cs = 0, tf_ds = 0, tf_es = 0, tf_ss = 0, tf_eflags = 0, tf_esp = 0\<rparr>,
     ctxt = InKernel True, chan = NullChan, killed = False, ofile = replicate NOFILE None, cwd = None,
     pname = ''p'', ticks1 = 0, ticks2 = 0, ticks = 0, tickets = t, inuse = 0\<rparr>"

definition lstate_with :: "lproc list \<Rightarrow> lstate" where
  "lstate_with ps = \<lparr>ptable_lock = False, procs = ps, tickslock = False, gticks = 7, Q = (\<lambda>_. 0),
     lfsr = 0xACE1, lbit = 0, have_seeded = True, cproc = None\<rparr>"

lemma lproc_with_simps [simp]:
  "state (lproc_with n st t) = st" "tickets (lproc_with n st t) = t" "pid (lproc_with n st t) = n"
  by (simp_all add: lproc_with_def)

lemma lstate_with_simps [simp]:
  "\<not> ptable_lock (lstate_with ps)" "\<not> tickslock (lstate_with ps)" "procs (lstate_with ps) = ps"
  by (simp_all add: lstate_with_def)


subsection \<open>Fairness of the draw\<close>

text \<open>
  C24. The share of each process: of the \<open>total\<close> equally likely winning tickets a runnable
  process wins with as many as it holds, plus one if it is the first runnable process of the
  table, minus one if it is the last.  The draw is proportional up to this shift, which the
  test \<open>win_ticket > cnt\<close> (for \<open>\<ge>\<close>) causes.
\<close>

theorem lottery_share_of_tickets:
  assumes "lottery_ok ps" "j < length ps" "state (ps ! j) = RUNNABLE"
  shows "card {w. w < tsum ps \<and> winner ps w = Some j} =
    unat (tickets (ps ! j)) + (if \<exists>k < j. state (ps ! k) = RUNNABLE then 0 else 1)
      - (if \<exists>k. j < k \<and> k < length ps \<and> state (ps ! k) = RUNNABLE then 0 else 1)"
  using assms by (rule lottery_share)

theorem lottery_share_of_tickets_witness:
  "card {w. w < 10 \<and> winner [lproc_with 1 RUNNABLE 3, lproc_with 2 RUNNABLE 7] w = Some 0} = 4"
proof -
  let ?ps = "[lproc_with 1 RUNNABLE 3, lproc_with 2 RUNNABLE 7]"
  have "lottery_ok ?ps" "tsum ?ps = 10"
    by (simp_all add: lottery_ok_def)
  moreover have "\<exists>k. 0 < k \<and> k < length ?ps \<and> state (?ps ! k) = RUNNABLE"
    by (rule exI [of _ 1]) simp
  ultimately show ?thesis
    using lottery_share_of_tickets [of ?ps 0] by auto
qed

subsection \<open>The generator\<close>

lemma bit_rand:
  "n < 32 \<Longrightarrow> bit (fst (rand s)) n \<longleftrightarrow> (if n = 15 then bit (lfsr s) 16 \<or>
     (((bit (lfsr s) 0 \<noteq> bit (lfsr s) 2) \<noteq> bit (lfsr s) 3) \<noteq> bit (lfsr s) 5)
     else bit (lfsr s) (Suc n))"
  unfolding rand_def Let_def fst_conv
  by (simp only: bit_or_iff bit_drop_bit_eq bit_push_bit_iff bit_and_iff bit_xor_iff bit_1_iff comp_def)
    (auto simp: possible_bit_def numeral_2_eq_2)

lemma lt_2_16_bits: "unat (l :: u32) < 2 ^ 16 \<longleftrightarrow> (\<forall>n. 16 \<le> n \<longrightarrow> \<not> bit l n)"
proof -
  have "unat l < 2 ^ 16 \<longleftrightarrow> take_bit 16 l = l"
    by (metis take_bit_nat_eq_self_iff unsigned_take_bit_eq word_unat_eq_iff)
  also have "\<dots> \<longleftrightarrow> (\<forall>n. 16 \<le> n \<longrightarrow> \<not> bit l n)"
  proof -
    have len: "n < 32" if "bit l n" for n
      using bit_imp_le_length [OF that] by simp
    show ?thesis
      by (auto simp: bit_eq_iff bit_take_bit_iff not_less) (metis len not_less)+
  qed
  finally show ?thesis .
qed

text \<open>
  The generator never gets stuck: from a non-zero 16-bit register \<open>rand\<close> returns its new
  register, which is again non-zero and 16 bits wide, and no two such registers have the same
  successor, so the sequence of draws is a cycle.
\<close>

theorem rand_permutes:
  assumes "unat (lfsr s) < 2 ^ 16" "lfsr s \<noteq> 0"
  shows "fst (rand s) = lfsr (snd (rand s)) \<and> unat (fst (rand s)) < 2 ^ 16 \<and> fst (rand s) \<noteq> 0
    \<and> (\<forall>t. unat (lfsr t) < 2 ^ 16 \<longrightarrow> fst (rand t) = fst (rand s) \<longrightarrow> lfsr t = lfsr s)"
proof -
  have hi: "\<not> bit (lfsr t) n" if "unat (lfsr t) < 2 ^ 16" "16 \<le> n" for t n
    using that lt_2_16_bits [THEN iffD1] by blast
  have inj: "lfsr t = lfsr u"
    if t: "unat (lfsr t) < 2 ^ 16" and u: "unat (lfsr u) < 2 ^ 16" and eq: "fst (rand t) = fst (rand u)" for t u
  proof (rule bit_word_eqI)
    have up: "bit (lfsr t) (Suc n) = bit (lfsr u) (Suc n)" if "n < 31" for n
    proof (cases "n = 15")
      case True
      then show ?thesis using hi [OF t] hi [OF u] by simp
    next
      case False
      then show ?thesis using that bit_rand [of n t] bit_rand [of n u] eq by simp
    qed
    fix n assume "n < LENGTH(32)"
    then show "bit (lfsr t) n = bit (lfsr u) n"
    proof (cases n)
      case 0
      have "bit (lfsr t) 2 = bit (lfsr u) 2" "bit (lfsr t) 3 = bit (lfsr u) 3"
        "bit (lfsr t) 5 = bit (lfsr u) 5"
        using up [of 1] up [of 2] up [of 4] by (simp_all add: numeral_eq_Suc)
      then show ?thesis
        using bit_rand [of 15 t] bit_rand [of 15 u] eq hi [OF t, of 16] hi [OF u, of 16] 0 by auto
    qed (use up in auto)
  qed
  have "\<not> bit (fst (rand s)) n" if "16 \<le> n" for n
    using bit_rand [of n s] hi [OF assms(1), of "Suc n"] that
    by (cases "n < 32") (auto dest: bit_imp_le_length)
  moreover have "fst (rand s) \<noteq> 0"
  proof
    assume z: "fst (rand s) = 0"
    have "lfsr s = lfsr (s\<lparr>lfsr := 0\<rparr>)"
      by (rule inj) (use assms z in \<open>auto simp: rand_def Let_def\<close>)
    with assms(2) show False by simp
  qed
  moreover have "fst (rand s) = lfsr (snd (rand s))"
    by (simp add: rand_def Let_def)
  ultimately show ?thesis
    using inj [OF _ assms(1)] lt_2_16_bits [of "fst (rand s)"] by blast
qed

theorem rand_permutes_witness:
  "fst (rand (lstate_with [])) \<noteq> 0 \<and> unat (fst (rand (lstate_with []))) < 2 ^ 16"
proof -
  have "unat (lfsr (lstate_with [])) < 2 ^ 16" "lfsr (lstate_with []) \<noteq> 0"
    by (simp_all add: lstate_with_def)
  from rand_permutes [OF this] show ?thesis by blast
qed

text \<open>The table \<open>Q\<close> that \<open>srand\<close> fills is never read: the seed does not change the draws.\<close>

lemma srand_no_effect: "fst (rand (srand x s)) = fst (rand s)"
  by (simp add: rand_def srand_def Let_def)

subsection \<open>Setting tickets\<close>

text \<open>
  \<open>settickets\<close> refuses a number below one without touching the table, and otherwise sets
  the tickets of exactly the process it is given; in both cases it returns with
  \<open>ptable.lock\<close> free and a table whose tickets were positive keeps them positive.
\<close>

theorem settickets_positive:
  assumes "\<not> ptable_lock s" "p < length (procs s)" "\<forall>q \<in> set (procs s). 0 < sint (tickets q)"
  shows "\<exists>r t. settickets p n s = Ok (r, t) \<and> \<not> ptable_lock t
    \<and> (if sint n \<le> 0 then r = -1 \<and> t = s
       else r = 0 \<and> procs t = (procs s)[p := (procs s ! p)\<lparr>tickets := n\<rparr>])
    \<and> (\<forall>q \<in> set (procs t). 0 < sint (tickets q))"
proof (cases "sint n \<le> 0")
  case True
  then show ?thesis using assms by (simp add: settickets_def)
next
  case False
  then have "\<forall>q \<in> set ((procs s)[p := (procs s ! p)\<lparr>tickets := n\<rparr>]). 0 < sint (tickets q)"
    using assms(3) set_update_subset_insert [of "procs s" p] by fastforce
  then show ?thesis
    using False assms by (simp add: settickets_def Let_def)
qed

theorem settickets_positive_witness:
  "\<exists>r t. settickets 1 30 (lstate_with [lproc_with 1 RUNNING 1, lproc_with 2 RUNNABLE 5]) = Ok (r, t)
     \<and> r = 0 \<and> \<not> ptable_lock t"
proof -
  let ?s = "lstate_with [lproc_with 1 RUNNING 1, lproc_with 2 RUNNABLE 5]"
  have "\<not> ptable_lock ?s" "1 < length (procs ?s)" "\<forall>q \<in> set (procs ?s). 0 < sint (tickets q)"
    by simp_all
  from settickets_positive [OF this, of 30] show ?thesis by auto
qed

text \<open>
  Tickets have no upper bound, and their sum is a 32-bit number: when the tickets of the
  runnable processes add up to a multiple of \<open>2\<^sup>3\<^sup>2\<close>, the scheduler takes the machine for idle
  and runs none of them, whatever they are.
\<close>

theorem scheduler_overflow_idles:
  assumes "\<not> ptable_lock s" "tsum (procs s) mod 2 ^ 32 = 0"
  shows "scheduler_round run s = Ok (None, s)"
proof -
  have wrap: "sum_tickets ps acc = acc + word_of_nat (tsum ps)" for ps acc
    by (induction ps arbitrary: acc) (auto simp: algebra_simps)
  have "unat (word_of_nat (tsum (procs s)) :: u32) = tsum (procs s) mod 2 ^ 32"
    by (simp add: unsigned_of_nat take_bit_eq_mod)
  then have "sum_tickets (procs s) 0 = 0"
    using assms(2) unfolding wrap by (simp add: unat_eq_0)
  then show ?thesis
    using assms(1) by (simp add: scheduler_round_def gettotalTickets_eq)
qed

theorem scheduler_overflow_idles_witness:
  "scheduler_round (\<lambda>s. s) (lstate_with [lproc_with 1 RUNNABLE 0x7FFFFFFF,
       lproc_with 2 RUNNABLE 0x7FFFFFFF, lproc_with 3 RUNNABLE 2])
     = Ok (None, lstate_with [lproc_with 1 RUNNABLE 0x7FFFFFFF,
       lproc_with 2 RUNNABLE 0x7FFFFFFF, lproc_with 3 RUNNABLE 2])"
  by (rule scheduler_overflow_idles) simp_all

subsection \<open>Process statistics\<close>

lemma getpinfo_loop_spec:
  "(k < index \<or> index + length ps \<le> k \<longrightarrow>
      ps_inuse (getpinfo_loop ps index t) k = ps_inuse t k
      \<and> ps_pid (getpinfo_loop ps index t) k = ps_pid t k
      \<and> ps_tickets (getpinfo_loop ps index t) k = ps_tickets t k
      \<and> ps_ticks (getpinfo_loop ps index t) k = ps_ticks t k)
   \<and> (index \<le> k \<and> k < index + length ps \<longrightarrow>
      (if state (ps ! (k - index)) = UNUSED then ps_inuse (getpinfo_loop ps index t) k = 0
       else ps_inuse (getpinfo_loop ps index t) k = inuse (ps ! (k - index))
         \<and> ps_pid (getpinfo_loop ps index t) k = pid (ps ! (k - index))
         \<and> ps_tickets (getpinfo_loop ps index t) k = tickets (ps ! (k - index))
         \<and> ps_ticks (getpinfo_loop ps index t) k = ticks (ps ! (k - index))))"
proof (induction ps arbitrary: index t)
  case (Cons p ps)
  define t' where "t' = (if state p \<noteq> UNUSED
        then t\<lparr>ps_pid := (ps_pid t)(index := pid p), ps_ticks := (ps_ticks t)(index := ticks p),
               ps_tickets := (ps_tickets t)(index := tickets p),
               ps_inuse := (ps_inuse t)(index := inuse p)\<rparr>
        else t\<lparr>ps_inuse := (ps_inuse t)(index := 0)\<rparr>)"
  have step: "getpinfo_loop (p # ps) index t = getpinfo_loop ps (Suc index) t'"
    by (simp add: t'_def)
  have here: "state p = UNUSED \<Longrightarrow> ps_inuse t' index = 0"
    "state p \<noteq> UNUSED \<Longrightarrow> ps_inuse t' index = inuse p \<and> ps_pid t' index = pid p
       \<and> ps_tickets t' index = tickets p \<and> ps_ticks t' index = ticks p"
    by (simp_all add: t'_def)
  have other: "k \<noteq> index \<Longrightarrow> ps_inuse t' k = ps_inuse t k \<and> ps_pid t' k = ps_pid t k
       \<and> ps_tickets t' k = ps_tickets t k \<and> ps_ticks t' k = ps_ticks t k"
    by (simp add: t'_def)
  note IH = Cons.IH [of "Suc index" t']
  consider "k = index" | "k < index" | "index < k" by linarith
  then show ?case
  proof cases
    case 1
    then show ?thesis unfolding step using IH here by simp
  next
    case 2
    then show ?thesis unfolding step using IH other by simp
  next
    case 3
    then obtain d where k: "k = Suc (index + d)" using less_imp_Suc_add by blast
    show ?thesis unfolding step k using IH other
      by (cases "state (ps ! d) = UNUSED") (simp_all add: k)
  qed
qed auto

text \<open>
  \<open>getpinfo\<close> reports, for every slot of the process table that is in use, the pid, tickets,
  ticks and in-use flag it holds at that moment, marks every unused slot as not in use, leaves
  the process table as it was and returns 0 with the lock free.
\<close>

theorem getpinfo_snapshot:
  assumes "\<not> ptable_lock s"
  shows "\<exists>t. getpinfo target s = Ok (0, t, s) \<and> (\<forall>k < length (procs s).
    if state (procs s ! k) = UNUSED then ps_inuse t k = 0
    else ps_inuse t k = inuse (procs s ! k) \<and> ps_pid t k = pid (procs s ! k)
      \<and> ps_tickets t k = tickets (procs s ! k) \<and> ps_ticks t k = ticks (procs s ! k))"
proof -
  have "getpinfo target s = Ok (0, getpinfo_loop (procs s) 0 target, s)"
    using assms by (simp add: getpinfo_def Let_def)
  then show ?thesis
    using getpinfo_loop_spec [where ps = "procs s" and index = 0 and t = target] by fastforce
qed

definition pstat_zero :: pstat where
  "pstat_zero = \<lparr>ps_inuse = \<lambda>_. 0, ps_tickets = \<lambda>_. 0, ps_pid = \<lambda>_. 0, ps_ticks = \<lambda>_. 0\<rparr>"

theorem getpinfo_snapshot_witness:
  "\<exists>t. getpinfo pstat_zero (lstate_with [lproc_with 4 RUNNABLE 9]) =
     Ok (0, t, lstate_with [lproc_with 4 RUNNABLE 9]) \<and> ps_pid t 0 = 4 \<and> ps_tickets t 0 = 9"
  using getpinfo_snapshot [of "lstate_with [lproc_with 4 RUNNABLE 9]" pstat_zero] by auto

end
