(* ===== verification/Sleeplock.thy ===== *)
theory Sleeplock
  imports Prelude
begin

text \<open>
  Sleep-locks (\<open>sleeplock.c\<close>) as the calling process sees them.  \<open>me\<close> is the pid of the caller,
  \<open>slk\<close> the spin-lock that protects the fields, \<open>sl_wakeups\<close> counts the calls of \<open>wakeup(lk)\<close>
  (what those do to the process table is modelled with the process table).  An \<open>acquiresleep\<close>
  that finds the lock taken sleeps: its outcome is \<open>Blocked\<close>.
\<close>

record sleeplock =
  sl_locked :: bool
  slk :: bool
  sl_name :: string
  sl_pid :: int
  sl_wakeups :: nat

definition initsleeplock :: "string \<Rightarrow> sleeplock \<Rightarrow> sleeplock" where
  "initsleeplock name lk = lk\<lparr>slk := False, sl_name := name, sl_locked := False, sl_pid := 0\<rparr>"

definition acquiresleep :: "int \<Rightarrow> sleeplock \<Rightarrow> sleeplock outcome" where
  "acquiresleep me lk =
     bnd (lk_acquire (slk lk)) (\<lambda>l.
       if sl_locked lk then Blocked
       else let lk1 = lk\<lparr>slk := l, sl_locked := True, sl_pid := me\<rparr>
         in bnd (lk_release (slk lk1)) (\<lambda>l. Ok (lk1\<lparr>slk := l\<rparr>)))"

definition releasesleep :: "sleeplock \<Rightarrow> sleeplock outcome" where
  "releasesleep lk =
     bnd (lk_acquire (slk lk)) (\<lambda>l.
       let lk1 = lk\<lparr>slk := l, sl_locked := False, sl_pid := 0, sl_wakeups := sl_wakeups lk + 1\<rparr>
       in bnd (lk_release (slk lk1)) (\<lambda>l. Ok (lk1\<lparr>slk := l\<rparr>)))"

definition holdingsleep :: "int \<Rightarrow> sleeplock \<Rightarrow> bool outcome" where
  "holdingsleep me lk =
     bnd (lk_acquire (slk lk)) (\<lambda>l.
       let r = (sl_locked lk \<and> sl_pid lk = me)
       in bnd (lk_release l) (\<lambda>_. Ok r))"

text \<open>The lock as its owner needs it: its spin-lock is free between operations.\<close>

definition sl_free :: "sleeplock \<Rightarrow> bool" where
  "sl_free lk \<longleftrightarrow> \<not> slk lk \<and> \<not> sl_locked lk"

definition sl_held :: "int \<Rightarrow> sleeplock \<Rightarrow> bool" where
  "sl_held me lk \<longleftrightarrow> \<not> slk lk \<and> sl_locked lk \<and> sl_pid lk = me"

definition sl_taken :: "int \<Rightarrow> sleeplock \<Rightarrow> sleeplock" where
  "sl_taken me lk = lk\<lparr>sl_locked := True, sl_pid := me\<rparr>"

definition sl_released :: "sleeplock \<Rightarrow> sleeplock" where
  "sl_released lk = lk\<lparr>sl_locked := False, sl_pid := 0, sl_wakeups := sl_wakeups lk + 1\<rparr>"

named_theorems sleeplock_simps

lemma acquiresleep_free [sleeplock_simps]: "sl_free lk \<Longrightarrow> acquiresleep me lk = Ok (sl_taken me lk)"
  by (cases lk) (simp add: sl_free_def acquiresleep_def sl_taken_def)

lemma acquiresleep_held [sleeplock_simps]: "sl_held p lk \<Longrightarrow> acquiresleep me lk = Blocked"
  by (simp add: sl_held_def acquiresleep_def)

lemma releasesleep_eq [sleeplock_simps]: "sl_held me lk \<Longrightarrow> releasesleep lk = Ok (sl_released lk)"
  by (cases lk) (simp add: sl_held_def releasesleep_def sl_released_def)

lemma holdingsleep_eq [sleeplock_simps]:
  "sl_held p lk \<Longrightarrow> holdingsleep me lk = Ok (p = me)"
  "sl_free lk \<Longrightarrow> holdingsleep me lk = Ok False"
  by (auto simp: sl_held_def sl_free_def holdingsleep_def)

lemma sl_taken_held [simp]: "sl_free lk \<Longrightarrow> sl_held me (sl_taken me lk)"
  by (simp add: sl_held_def sl_free_def sl_taken_def)

lemma sl_released_free [simp]: "sl_held me lk \<Longrightarrow> sl_free (sl_released lk)"
  by (simp add: sl_held_def sl_free_def sl_released_def)

lemma sl_held_not_free: "sl_held me lk \<Longrightarrow> \<not> sl_free lk"
  by (simp add: sl_held_def sl_free_def)

lemma initsleeplock_free [simp]: "sl_free (initsleeplock n lk)"
  by (simp add: sl_free_def initsleeplock_def)

end
