(* ===== verification/Ide.thy ===== *)
theory Ide
  imports Param Sleeplock
begin

text \<open>
  The IDE disk driver (\<open>ide.c\<close>) with its request queue.

  \<open>struct buf\<close> (\<open>buf.h\<close>) is the record \<open>buf\<close>; buffers are entries of the list \<open>ibufs\<close> and the
  pointers between them are indices into it.  The drive is the hardware the driver talks to:
  \<open>ports\<close> holds the bytes last written to its task-file registers, \<open>disk\<close> the contents of
  sector \<open>s\<close> of drive \<open>d\<close>, and \<open>ide_err\<close> says whether the drive reports an error (\<open>DF\<close> or
  \<open>ERR\<close>) at the end of a command.  The drive becomes ready (\<open>BSY\<close> clear, \<open>DRDY\<close> set) after
  every command.  \<open>woken\<close> lists the buffers passed to \<open>wakeup\<close>, and \<open>dtrace\<close> the
  sectors written so far, in the order in which the drive received them.  The data of a block is a
  function whose first \<open>BSIZE\<close> values are its bytes; copying a block copies the function.
\<close>

definition B_VALID :: u32 where "B_VALID = 0x2"
definition B_DIRTY :: u32 where "B_DIRTY = 0x4"

record buf =
  flags :: u32
  bdev :: u32
  blockno :: u32
  block_lk :: sleeplock
  refcnt :: u32
  bprev :: nat
  bnext :: nat
  qnext :: "nat option"
  bdata :: bytes

record ide =
  idelk :: bool
  idequeue :: "nat option"
  havedisk1 :: bool
  ibufs :: "buf list"
  ports :: "nat \<Rightarrow> u8"
  disk :: "nat \<Rightarrow> nat \<Rightarrow> bytes"
  ide_err :: bool
  woken :: "nat list"
  dtrace :: "(nat \<times> nat \<times> bytes) list"

definition SECTOR_SIZE :: nat where "SECTOR_SIZE = 512"
definition IDE_CMD_READ :: u8 where "IDE_CMD_READ = 0x20"
definition IDE_CMD_WRITE :: u8 where "IDE_CMD_WRITE = 0x30"
definition IDE_CMD_RDMUL :: u8 where "IDE_CMD_RDMUL = 0xc4"
definition IDE_CMD_WRMUL :: u8 where "IDE_CMD_WRMUL = 0xc5"

subsection \<open>The drive\<close>

definition outb :: "nat \<Rightarrow> u8 \<Rightarrow> ide \<Rightarrow> ide" where
  "outb port v s = s\<lparr>ports := (ports s)(port := v)\<rparr>"

text \<open>The 28-bit sector number and the drive that the task-file registers select.\<close>

definition ata_sector :: "(nat \<Rightarrow> u8) \<Rightarrow> nat" where
  "ata_sector p = unat (p 0x1f3) + 256 * unat (p 0x1f4) + 65536 * unat (p 0x1f5)
     + 16777216 * (unat (p 0x1f6) mod 16)"

definition ata_drive :: "(nat \<Rightarrow> u8) \<Rightarrow> nat" where
  "ata_drive p = unat (p 0x1f6) div 16 mod 2"

definition outsl :: "bytes \<Rightarrow> ide \<Rightarrow> ide" where
  "outsl d s = s\<lparr>disk := (disk s)(ata_drive (ports s) :=
     (disk s (ata_drive (ports s)))(ata_sector (ports s) := d)),
     dtrace := dtrace s @ [(ata_drive (ports s), ata_sector (ports s), d)]\<rparr>"

definition insl :: "ide \<Rightarrow> bytes" where
  "insl s = disk s (ata_drive (ports s)) (ata_sector (ports s))"

subsection \<open>The driver\<close>

definition upd_buf :: "nat \<Rightarrow> (buf \<Rightarrow> buf) \<Rightarrow> ide \<Rightarrow> ide" where
  "upd_buf b f s = s\<lparr>ibufs := (ibufs s)[b := f (ibufs s ! b)]\<rparr>"

definition idewait :: "bool \<Rightarrow> ide \<Rightarrow> int" where
  "idewait checkerr s = (if checkerr \<and> ide_err s then -1 else 0)"

text \<open>\<open>present\<close>: whether the second drive answers within the thousand polls.\<close>

definition ideinit :: "bool \<Rightarrow> ide \<Rightarrow> ide" where
  "ideinit present s =
     (let s1 = outb 0x1f6 (0xe0 OR push_bit 4 1) (s\<lparr>idelk := False\<rparr>);
          s2 = (if present then s1\<lparr>havedisk1 := True\<rparr> else s1)
      in outb 0x1f6 (0xe0 OR push_bit 4 0) s2)"

definition idestart :: "nat option \<Rightarrow> ide \<Rightarrow> ide outcome" where
  "idestart bo s =
    (case bo of None \<Rightarrow> Panic ''idestart''
     | Some i \<Rightarrow> fault_if (length (ibufs s) \<le> i)
       (let b = ibufs s ! i in
        panic_if (FSSIZE \<le> blockno b) ''incorrect blockno''
         (let sector_per_block = BSIZE div SECTOR_SIZE;
              sector = blockno b * word_of_nat sector_per_block;
              read_cmd = (if sector_per_block = 1 then IDE_CMD_READ else IDE_CMD_RDMUL);
              write_cmd = (if sector_per_block = 1 then IDE_CMD_WRITE else IDE_CMD_WRMUL)
          in panic_if (7 < sector_per_block) ''idestart''
           (let s1 = outb 0x3f6 0 s;
                s2 = outb 0x1f2 (word_of_nat sector_per_block) s1;
                s3 = outb 0x1f3 (ucast (sector AND 0xff)) s2;
                s4 = outb 0x1f4 (ucast (drop_bit 8 sector AND 0xff)) s3;
                s5 = outb 0x1f5 (ucast (drop_bit 16 sector AND 0xff)) s4;
                s6 = outb 0x1f6 (ucast (0xe0 OR push_bit 4 (bdev b AND 1) OR (drop_bit 24 sector AND 0x0f))) s5
            in if flags b AND B_DIRTY \<noteq> 0 then Ok (outsl (bdata b) (outb 0x1f7 write_cmd s6))
               else Ok (outb 0x1f7 read_cmd s6)))))"

definition ideintr :: "ide \<Rightarrow> ide outcome" where
  "ideintr s =
     bnd (lk_acquire (idelk s)) (\<lambda>l.
       let s1 = s\<lparr>idelk := l\<rparr> in
       case idequeue s1 of
         None \<Rightarrow> bnd (lk_release (idelk s1)) (\<lambda>l. Ok (s1\<lparr>idelk := l\<rparr>))
       | Some i \<Rightarrow> fault_if (length (ibufs s1) \<le> i)
          (let b = ibufs s1 ! i;
               s2 = s1\<lparr>idequeue := qnext b\<rparr>;
               s3 = (if flags b AND B_DIRTY = 0 \<and> 0 \<le> idewait True s2
                     then upd_buf i (\<lambda>b. b\<lparr>bdata := insl s2\<rparr>) s2 else s2);
               s4 = upd_buf i (\<lambda>b. b\<lparr>flags := (flags b OR B_VALID) AND NOT B_DIRTY\<rparr>) s3;
               s5 = s4\<lparr>woken := woken s4 @ [i]\<rparr>
           in bnd (if idequeue s5 \<noteq> None then idestart (idequeue s5) s5 else Ok s5) (\<lambda>s6.
              bnd (lk_release (idelk s6)) (\<lambda>l. Ok (s6\<lparr>idelk := l\<rparr>)))))"

text \<open>
  The walk to the end of the queue.  The fuel is the number of buffers, which an acyclic queue
  cannot exceed; on a cyclic one the C loop does not end.
\<close>

fun qappend :: "nat \<Rightarrow> nat \<Rightarrow> nat \<Rightarrow> ide \<Rightarrow> ide outcome" where
  "qappend 0 pp b s = Blocked"
| "qappend (Suc n) pp b s =
     fault_if (length (ibufs s) \<le> pp)
      (case qnext (ibufs s ! pp) of
         None \<Rightarrow> Ok (upd_buf pp (\<lambda>c. c\<lparr>qnext := Some b\<rparr>) s)
       | Some q \<Rightarrow> qappend n q b s)"

text \<open>
  \<open>sleep(b, &idelock)\<close>: the lock is given up, the drive finishes a command and raises its
  interrupt, and the lock is taken again.
\<close>

fun ide_wait :: "nat \<Rightarrow> nat \<Rightarrow> ide \<Rightarrow> ide outcome" where
  "ide_wait n b s =
     (if flags (ibufs s ! b) AND (B_VALID OR B_DIRTY) = B_VALID then Ok s
      else case n of 0 \<Rightarrow> Blocked
      | Suc k \<Rightarrow> bnd (lk_release (idelk s)) (\<lambda>l.
          bnd (ideintr (s\<lparr>idelk := l\<rparr>)) (\<lambda>t.
          bnd (lk_acquire (idelk t)) (\<lambda>l. ide_wait k b (t\<lparr>idelk := l\<rparr>)))))"

declare ide_wait.simps [simp del]

definition iderw :: "int \<Rightarrow> nat \<Rightarrow> ide \<Rightarrow> ide outcome" where
  "iderw me b s =
     fault_if (length (ibufs s) \<le> b)
      (bnd (holdingsleep me (block_lk (ibufs s ! b))) (\<lambda>h.
       panic_if (\<not> h) ''iderw: buf not locked''
       (panic_if (flags (ibufs s ! b) AND (B_VALID OR B_DIRTY) = B_VALID) ''iderw: nothing to do''
       (panic_if (bdev (ibufs s ! b) \<noteq> 0 \<and> \<not> havedisk1 s) ''iderw: ide disk 1 not present''
       (bnd (lk_acquire (idelk s)) (\<lambda>l.
         let s1 = upd_buf b (\<lambda>c. c\<lparr>qnext := None\<rparr>) (s\<lparr>idelk := l\<rparr>)
         in bnd (case idequeue s1 of None \<Rightarrow> Ok (s1\<lparr>idequeue := Some b\<rparr>)
                 | Some q \<Rightarrow> qappend (length (ibufs s1)) q b s1) (\<lambda>s2.
            bnd (if idequeue s2 = Some b then idestart (Some b) s2 else Ok s2) (\<lambda>s3.
            bnd (ide_wait (length (ibufs s3)) b s3) (\<lambda>s4.
            bnd (lk_release (idelk s4)) (\<lambda>l. Ok (s4\<lparr>idelk := l\<rparr>)))))))))))"

subsection \<open>What the registers select\<close>

definition bdrive :: "buf \<Rightarrow> nat" where "bdrive b = unat (bdev b) mod 2"
definition bsect :: "buf \<Rightarrow> nat" where "bsect b = unat (blockno b)"

text \<open>What starting a request adds to the trace.\<close>

definition sent :: "buf \<Rightarrow> (nat \<times> nat \<times> bytes) list" where
  "sent b = (if flags b AND B_DIRTY \<noteq> 0 then [(bdrive b, bsect b, bdata b)] else [])"

definition put_block :: "(nat \<Rightarrow> nat \<Rightarrow> bytes) \<Rightarrow> buf \<Rightarrow> (nat \<Rightarrow> nat \<Rightarrow> bytes)" where
  "put_block d b = d(bdrive b := (d (bdrive b))(bsect b := bdata b))"

lemma qnext_simps [simp]:
  "put_block d (b\<lparr>qnext := x\<rparr>) = put_block d b" "bsect (b\<lparr>qnext := x\<rparr>) = bsect b"
  "bdrive (b\<lparr>qnext := x\<rparr>) = bdrive b" "sent (b\<lparr>qnext := x\<rparr>) = sent b"
  by (simp_all add: put_block_def bsect_def bdrive_def sent_def)

lemma unat_low_byte: "unat (ucast (w AND 0xff) :: u8) = unat w mod 256" for w :: u32
proof -
  have "(0xff :: u32) = mask 8" by (simp add: mask_eq_exp_minus_1)
  then have "unat (w AND 0xff) = unat w mod 256"
    by (simp only: unat_and_mask) simp
  then show ?thesis by (simp add: unsigned_ucast_eq take_bit_eq_mod)
qed

lemma dev_bit: "(w AND 1 :: u32) = (if unat w mod 2 = 1 then 1 else 0)"
proof -
  have "unat (w AND 1) = unat w mod 2"
    using unat_and_mask [of w 1] by (simp only: mask_1 power_one_right)
  then have "unat (w AND 1) = unat (if unat w mod 2 = 1 then 1 else 0 :: u32)"
    by auto
  then show ?thesis by (simp only: unat_eq_iff)
qed

lemma dev_register:
  assumes "unat sector < 1000"
  shows "unat (ucast (0xe0 OR push_bit 4 (dev AND 1) OR (drop_bit 24 sector AND 0x0f)) :: u8)
     = 224 + 16 * (unat (dev :: u32) mod 2)"
proof -
  have "unat (drop_bit 24 (sector :: u32)) = 0" using assms by (simp add: unat_drop)
  then have "drop_bit 24 sector = 0" by (simp only: unat_eq_zero)
  moreover have "unat dev mod 2 = 0 \<or> unat dev mod 2 = 1" by auto
  ultimately show ?thesis unfolding dev_bit by (auto simp del: unat_eq_iff)
qed

lemma sector_bytes: "n < 1000 \<Longrightarrow> n mod 256 + 256 * (n div 256 mod 256) + 65536 * (n div 65536 mod 256) = (n::nat)"
proof -
  assume "n < 1000"
  then have "n div 256 < 256" "n div 65536 = 0" by auto
  then show ?thesis by simp
qed

lemma flag_masks [simp]:
  "B_DIRTY AND B_VALID = 0" "B_VALID AND B_DIRTY = 0" "B_VALID \<noteq> 0" "B_DIRTY \<noteq> 0"
  by (simp_all add: B_VALID_def B_DIRTY_def)

lemma idestart_eq:
  assumes "i < length (ibufs s)" "blockno (ibufs s ! i) < FSSIZE"
  shows "\<exists>p. idestart (Some i) s = Ok (s\<lparr>ports := p,
      disk := (if flags (ibufs s ! i) AND B_DIRTY \<noteq> 0 then put_block (disk s) (ibufs s ! i) else disk s),
      dtrace := dtrace s @ sent (ibufs s ! i)\<rparr>)
    \<and> ata_sector p = bsect (ibufs s ! i) \<and> ata_drive p = bdrive (ibufs s ! i)"
proof -
  let ?b = "ibufs s ! i" let ?n = "unat (blockno ?b)"
  have "unat (blockno ?b) < unat (1000 :: u32)"
    using assms(2) unfolding FSSIZE_def by (simp only: word_less_nat_alt)
  then have n: "?n < 1000" by simp
  define p where "p cmd = (ports s)(0x3f6 := 0, 0x1f2 := 1, 0x1f3 := ucast (blockno ?b AND 0xff),
    0x1f4 := ucast (drop_bit 8 (blockno ?b) AND 0xff), 0x1f5 := ucast (drop_bit 16 (blockno ?b) AND 0xff),
    0x1f6 := ucast (0xe0 OR push_bit 4 (bdev ?b AND 1) OR (drop_bit 24 (blockno ?b) AND 0x0f)),
    0x1f7 := (cmd :: u8))" for cmd
  have at: "p cmd 0x1f3 = ucast (blockno ?b AND 0xff)" "p cmd 0x1f4 = ucast (drop_bit 8 (blockno ?b) AND 0xff)"
    "p cmd 0x1f5 = ucast (drop_bit 16 (blockno ?b) AND 0xff)"
    "p cmd 0x1f6 = ucast (0xe0 OR push_bit 4 (bdev ?b AND 1) OR (drop_bit 24 (blockno ?b) AND 0x0f))" for cmd
    by (simp_all add: p_def)
  have r6: "unat (p cmd 0x1f6) = 224 + 16 * (unat (bdev ?b) mod 2)" for cmd
    unfolding at by (rule dev_register [OF n])
  have lo: "unat (p cmd 0x1f3) = ?n mod 256" "unat (p cmd 0x1f4) = ?n div 256 mod 256"
     "unat (p cmd 0x1f5) = ?n div 65536 mod 256" for cmd
    unfolding at unat_low_byte unat_drop by simp_all
  have small: "?n div 65536 mod 256 = 0" "?n mod 256 + 256 * (?n div 256 mod 256) = ?n"
    using n sector_bytes [OF n] by auto
  have "ata_sector (p cmd) = ?n" for cmd
    unfolding ata_sector_def lo r6 small by simp
  moreover have "ata_drive (p cmd) = unat (bdev ?b) mod 2" for cmd
    unfolding ata_drive_def r6 by (simp; presburger)
  moreover have "idestart (Some i) s = Ok (s\<lparr>ports := p (if flags ?b AND B_DIRTY \<noteq> 0 then IDE_CMD_WRITE else IDE_CMD_READ),
      disk := (if flags ?b AND B_DIRTY \<noteq> 0 then (disk s)(ata_drive (p IDE_CMD_WRITE) :=
        (disk s (ata_drive (p IDE_CMD_WRITE)))(ata_sector (p IDE_CMD_WRITE) := bdata ?b)) else disk s),
      dtrace := dtrace s @ (if flags ?b AND B_DIRTY \<noteq> 0
        then [(ata_drive (p IDE_CMD_WRITE), ata_sector (p IDE_CMD_WRITE), bdata ?b)] else [])\<rparr>)"
  proof -
    have "\<not> FSSIZE \<le> blockno ?b" "\<not> length (ibufs s) \<le> i" using assms by auto
    then show ?thesis
      by (simp add: idestart_def Let_def BSIZE_def SECTOR_SIZE_def outb_def outsl_def p_def)
  qed
  ultimately show ?thesis
    by (auto simp: put_block_def bdrive_def bsect_def sent_def)
qed

subsection \<open>The queue\<close>

fun qpath :: "buf list \<Rightarrow> nat option \<Rightarrow> nat list \<Rightarrow> bool" where
  "qpath bs p [] \<longleftrightarrow> p = None"
| "qpath bs p (i # q) \<longleftrightarrow> p = Some i \<and> i < length bs \<and> qpath bs (qnext (bs ! i)) q"

text \<open>
  A queue \<open>q\<close> of requests.  The drive works on the first: its registers select that block, and
  if it is a write the data has been handed over.
\<close>

definition ide_busy :: "ide \<Rightarrow> nat list \<Rightarrow> bool" where
  "ide_busy s q \<longleftrightarrow> qpath (ibufs s) (idequeue s) q \<and> distinct q
     \<and> (\<forall>i \<in> set q. blockno (ibufs s ! i) < FSSIZE)
     \<and> (q \<noteq> [] \<longrightarrow> (let b = ibufs s ! hd q in
          ata_sector (ports s) = bsect b \<and> ata_drive (ports s) = bdrive b
          \<and> (flags b AND B_DIRTY \<noteq> 0 \<longrightarrow> disk s = put_block (disk s) b)))"

text \<open>What a request asks for: a dirty buffer is written to its block, any other is read.\<close>

definition serve :: "bool \<Rightarrow> nat \<Rightarrow> (nat \<Rightarrow> nat \<Rightarrow> bytes) \<times> buf list \<Rightarrow> (nat \<Rightarrow> nat \<Rightarrow> bytes) \<times> buf list" where
  "serve err i = (\<lambda>(d, bs).
     let b = bs ! i; dirty = flags b AND B_DIRTY \<noteq> 0
     in (if dirty then put_block d b else d,
         bs[i := b\<lparr>bdata := (if dirty \<or> err then bdata b else d (bdrive b) (bsect b)),
                   flags := (flags b OR B_VALID) AND NOT B_DIRTY\<rparr>]))"

definition ide_view :: "ide \<Rightarrow> (nat \<Rightarrow> nat \<Rightarrow> bytes) \<times> buf list" where
  "ide_view s = (disk s, map (\<lambda>b. b\<lparr>qnext := None\<rparr>) (ibufs s))"

lemma buf_upd_order:
  "b\<lparr>qnext := x, bdata := d, flags := f\<rparr> = b\<lparr>bdata := d, flags := f, qnext := x\<rparr>"
  "b\<lparr>qnext := x, flags := f\<rparr> = b\<lparr>flags := f, qnext := x\<rparr>"
  by (cases b, simp)+

lemma qpath_cong:
  "length bs = length cs \<Longrightarrow> (\<And>i. i \<in> set q \<Longrightarrow> qnext (bs ! i) = qnext (cs ! i)) \<Longrightarrow> qpath bs p q = qpath cs p q"
  by (induction q arbitrary: p) auto

lemma qpath_bound: "qpath bs p q \<Longrightarrow> i \<in> set q \<Longrightarrow> i < length bs"
  by (induction q arbitrary: p) auto

lemma ideintr_eq:
  assumes "\<not> idelk s" "ide_busy s (i # q)"
  shows "\<exists>t. ideintr s = Ok t \<and> \<not> idelk t \<and> ide_busy t q \<and> woken t = woken s @ [i]
    \<and> ide_err t = ide_err s \<and> havedisk1 t = havedisk1 s
    \<and> fold (serve (ide_err s)) q (ide_view t) = fold (serve (ide_err s)) (i # q) (ide_view s)
    \<and> flags (ibufs t ! i) = (flags (ibufs s ! i) OR B_VALID) AND NOT B_DIRTY
    \<and> (\<forall>k. k \<noteq> i \<longrightarrow> ibufs t ! k = ibufs s ! k) \<and> length (ibufs t) = length (ibufs s)
    \<and> (q = [] \<longrightarrow> dtrace t = dtrace s)"
proof -
  let ?b = "ibufs s ! i" let ?d = "flags ?b AND B_DIRTY \<noteq> 0"
  let ?nb = "?b\<lparr>bdata := (if ?d \<or> ide_err s then bdata ?b else disk s (bdrive ?b) (bsect ?b)),
     flags := (flags ?b OR B_VALID) AND NOT B_DIRTY\<rparr>"
  let ?u = "s\<lparr>idelk := True, idequeue := qnext ?b, ibufs := (ibufs s)[i := ?nb], woken := woken s @ [i]\<rparr>"
  have q: "qpath (ibufs s) (idequeue s) (i # q)" "distinct (i # q)" "\<forall>j \<in> set (i # q). blockno (ibufs s ! j) < FSSIZE"
    "ata_sector (ports s) = bsect ?b" "ata_drive (ports s) = bdrive ?b" "?d \<longrightarrow> disk s = put_block (disk s) ?b"
    using assms(2) by (simp_all add: ide_busy_def Let_def)
  then have i: "i < length (ibufs s)" "idequeue s = Some i" by simp_all
  have rest: "qpath (ibufs ?u) (idequeue ?u) q"
    using q by (auto intro: qpath_cong [THEN iffD1, rotated 2] simp: nth_list_update)
  have same: "ibufs ?u ! j = ibufs s ! j" if "j \<noteq> i" for j using that by simp
  have step: "ideintr s = bnd (if idequeue ?u \<noteq> None then idestart (idequeue ?u) ?u else Ok ?u)
     (\<lambda>s6. bnd (lk_release (idelk s6)) (\<lambda>l. Ok (s6\<lparr>idelk := l\<rparr>)))"
  proof (cases "?d \<or> ide_err s")
    case True
    then show ?thesis using assms(1) i q(4,5)
      by (auto simp: ideintr_def Let_def idewait_def upd_buf_def)
  next
    case False
    then show ?thesis using assms(1) i q(4,5)
      by (simp add: ideintr_def Let_def idewait_def upd_buf_def insl_def)
  qed
  have view: "ide_view ?u = (disk s, (map (\<lambda>b. b\<lparr>qnext := None\<rparr>) (ibufs s))[i := ?nb\<lparr>qnext := None\<rparr>])"
    by (simp add: ide_view_def map_update)
  have serve: "serve (ide_err s) i (ide_view s) = ide_view ?u"
    using i q(6) unfolding view
    by (auto simp: serve_def ide_view_def Let_def put_block_def bdrive_def bsect_def buf_upd_order)
  show ?thesis
  proof (cases q)
    case Nil
    then have "ideintr s = Ok (?u\<lparr>idelk := False\<rparr>)" using step rest by simp
    moreover have "ide_busy (?u\<lparr>idelk := False\<rparr>) q" using Nil rest by (simp add: ide_busy_def)
    moreover have "ide_view (?u\<lparr>idelk := False\<rparr>) = ide_view ?u" by (simp add: ide_view_def)
    ultimately show ?thesis using i serve Nil by auto
  next
    case (Cons j r)
    have j: "j < length (ibufs ?u)" "j \<noteq> i" "idequeue ?u = Some j"
      using rest q(2) Cons by auto
    have jb: "blockno (ibufs ?u ! j) < FSSIZE" "ibufs ?u ! j = ibufs s ! j"
      using q(3) Cons j(2) by auto
    from idestart_eq [OF j(1) jb(1)] obtain p where
      p: "idestart (Some j) ?u = Ok (?u\<lparr>ports := p, disk := (if flags (ibufs ?u ! j) AND B_DIRTY \<noteq> 0
          then put_block (disk ?u) (ibufs ?u ! j) else disk ?u), dtrace := dtrace ?u @ sent (ibufs ?u ! j)\<rparr>)"
        "ata_sector p = bsect (ibufs ?u ! j)" "ata_drive p = bdrive (ibufs ?u ! j)" by blast
    let ?dj = "flags (ibufs s ! j) AND B_DIRTY \<noteq> 0"
    let ?t = "?u\<lparr>ports := p, disk := (if ?dj then put_block (disk s) (ibufs s ! j) else disk s),
       dtrace := dtrace s @ sent (ibufs s ! j), idelk := False\<rparr>"
    have "ideintr s = Ok ?t" using step p(1) j jb(2) by (simp add: ide.defs)
    moreover have "ide_busy ?t q"
      using rest q(2,3) p(2,3) jb Cons j i(1) by (auto simp: ide_busy_def Let_def put_block_def nth_list_update)
    moreover have "serve (ide_err s) j (ide_view ?t) = serve (ide_err s) j (ide_view ?u)"
      using j jb by (auto simp: serve_def ide_view_def Let_def put_block_def bdrive_def bsect_def)
    ultimately show ?thesis using i serve Cons same by (intro exI [of _ ?t]) auto
  qed
qed

lemma flags_done [simp]:
  "((f OR B_VALID) AND NOT B_DIRTY) AND (B_VALID OR B_DIRTY) = B_VALID"
  "((f OR B_VALID) AND NOT B_DIRTY) AND B_VALID = B_VALID"
  "((f OR B_VALID) AND NOT B_DIRTY) AND B_DIRTY = 0"
proof -
  have *: "((f OR B_VALID) AND NOT B_DIRTY) AND m = (f AND (NOT B_DIRTY AND m)) OR (B_VALID AND (NOT B_DIRTY AND m))" for m
    by (simp only: and.assoc bit.conj_disj_distrib2)
  have m: "NOT B_DIRTY AND (B_VALID OR B_DIRTY) = B_VALID" "NOT B_DIRTY AND B_VALID = B_VALID" "NOT B_DIRTY AND B_DIRTY = 0"
    by (simp_all add: B_VALID_def B_DIRTY_def)
  have a: "(f AND B_VALID) OR B_VALID = B_VALID"
    by (rule bit_word_eqI) (auto simp: bit_simps)
  show "((f OR B_VALID) AND NOT B_DIRTY) AND (B_VALID OR B_DIRTY) = B_VALID"
    "((f OR B_VALID) AND NOT B_DIRTY) AND B_VALID = B_VALID"
    "((f OR B_VALID) AND NOT B_DIRTY) AND B_DIRTY = 0"
    unfolding * m by (simp_all add: a)
qed

lemma flags_dirty [simp]:
  "(f OR B_DIRTY) AND B_VALID = f AND B_VALID"
  "(f OR B_DIRTY) AND B_DIRTY = B_DIRTY"
  "(f OR B_DIRTY) AND (B_VALID OR B_DIRTY) \<noteq> B_VALID"
proof -
  have a: "(f AND B_DIRTY) OR B_DIRTY = B_DIRTY"
    by (rule bit_word_eqI) (auto simp: bit_simps)
  show 1: "(f OR B_DIRTY) AND B_VALID = f AND B_VALID" "(f OR B_DIRTY) AND B_DIRTY = B_DIRTY"
    by (simp_all add: bit.conj_disj_distrib2 a)
  show "(f OR B_DIRTY) AND (B_VALID OR B_DIRTY) \<noteq> B_VALID"
  proof
    assume h: "(f OR B_DIRTY) AND (B_VALID OR B_DIRTY) = B_VALID"
    have "((f OR B_DIRTY) AND (B_VALID OR B_DIRTY)) AND B_DIRTY = (f OR B_DIRTY) AND ((B_VALID OR B_DIRTY) AND B_DIRTY)"
      by (simp only: and.assoc)
    also have "(B_VALID OR B_DIRTY) AND B_DIRTY = B_DIRTY"
      by (simp add: B_VALID_def B_DIRTY_def)
    finally show False unfolding h 1 by simp
  qed
qed

lemma flag_bits: "bit B_VALID n \<longleftrightarrow> n = 1" "bit B_DIRTY n \<longleftrightarrow> n = 2"
proof -
  have one: "bit (push_bit k (1 :: u32)) n \<longleftrightarrow> n = k" if "k < 32" for k
    unfolding bit_push_bit_iff bit_1_iff using that by (auto simp: possible_bit_word)
  have "B_VALID = push_bit 1 1" "B_DIRTY = push_bit 2 1"
    by (simp_all add: B_VALID_def B_DIRTY_def)
  with one [of 1] one [of 2] show "bit B_VALID n \<longleftrightarrow> n = 1" "bit B_DIRTY n \<longleftrightarrow> n = 2"
    by (simp_all only:)
qed

lemma flag_set: "f AND B_VALID \<noteq> 0 \<longleftrightarrow> bit f 1" "f AND B_DIRTY \<noteq> 0 \<longleftrightarrow> bit f 2"
proof -
  have v: "bit (f AND B_VALID) n \<longleftrightarrow> bit f 1 \<and> n = 1" "bit (f AND B_DIRTY) n \<longleftrightarrow> bit f 2 \<and> n = 2" for n
    unfolding bit_and_iff flag_bits by auto
  have z: "w \<noteq> 0 \<longleftrightarrow> (\<exists>n. bit w n)" for w :: u32
    by (metis bit_0_eq bit_eq_iff bot_apply bot_bool_def)
  show "f AND B_VALID \<noteq> 0 \<longleftrightarrow> bit f 1" "f AND B_DIRTY \<noteq> 0 \<longleftrightarrow> bit f 2"
    unfolding z v by simp_all
qed

lemma flags_valid_clean: "f AND (B_VALID OR B_DIRTY) = B_VALID \<longleftrightarrow> f AND B_VALID \<noteq> 0 \<and> f AND B_DIRTY = 0"
proof -
  have we: "v = w \<longleftrightarrow> (\<forall>n. bit v n \<longleftrightarrow> bit w n)" for v w :: u32
    by (metis bit_eq_iff)
  have b: "bit (f AND (B_VALID OR B_DIRTY)) n \<longleftrightarrow> bit f n \<and> (n = 1 \<or> n = 2)" for n
    unfolding bit_and_iff bit_or_iff flag_bits by simp
  have "f AND (B_VALID OR B_DIRTY) = B_VALID \<longleftrightarrow> (\<forall>n. bit f n \<and> (n = 1 \<or> n = 2) \<longleftrightarrow> n = 1)"
    unfolding we b flag_bits ..
  also have "\<dots> \<longleftrightarrow> bit f 1 \<and> \<not> bit f 2"
    by (metis one_eq_numeral_iff semiring_norm(85))
  finally show ?thesis using flag_set [of f] by blast
qed

lemma ide_wait_serves:
  "idelk s \<Longrightarrow> ide_busy s (q @ [b]) \<Longrightarrow> (\<forall>i \<in> set (q @ [b]). flags (ibufs s ! i) AND (B_VALID OR B_DIRTY) \<noteq> B_VALID) \<Longrightarrow>
   length q < n \<Longrightarrow>
   \<exists>t. ide_wait n b s = Ok t \<and> idelk t \<and> ide_busy t [] \<and> woken t = woken s @ q @ [b]
     \<and> ide_view t = fold (serve (ide_err s)) (q @ [b]) (ide_view s)
     \<and> ide_err t = ide_err s \<and> havedisk1 t = havedisk1 s \<and> (q = [] \<longrightarrow> dtrace t = dtrace s)"
proof (induction q arbitrary: s n)
  case Nil
  obtain k where n: "n = Suc k" using Nil.prems(4) by (cases n) auto
  have "ide_busy (s\<lparr>idelk := False\<rparr>) (b # [])" using Nil.prems(2) by (simp add: ide_busy_def)
  from ideintr_eq [OF _ this] obtain t where
    t: "ideintr (s\<lparr>idelk := False\<rparr>) = Ok t" "\<not> idelk t" "ide_busy t []" "woken t = woken s @ [b]"
      "ide_view t = serve (ide_err s) b (ide_view s)"
      "flags (ibufs t ! b) = (flags (ibufs s ! b) OR B_VALID) AND NOT B_DIRTY"
      "ide_err t = ide_err s" "havedisk1 t = havedisk1 s" "dtrace t = dtrace s"
    by (auto simp: ide_view_def)
  have "ide_wait n b s = ide_wait k b (t\<lparr>idelk := True\<rparr>)"
    using Nil.prems t(1,2) n by (simp add: ide_wait.simps [of "Suc k"])
  also have "\<dots> = Ok (t\<lparr>idelk := True\<rparr>)"
    using t(6) by (simp add: ide_wait.simps [of k])
  finally show ?case using t by (auto simp: ide_busy_def ide_view_def)
next
  case (Cons i q)
  obtain k where n: "n = Suc k" "length q < k" using Cons.prems(4) by (cases n) auto
  have "ide_busy (s\<lparr>idelk := False\<rparr>) (i # (q @ [b]))" using Cons.prems(2) by (simp add: ide_busy_def)
  from ideintr_eq [OF _ this] obtain t where
    t: "ideintr (s\<lparr>idelk := False\<rparr>) = Ok t" "\<not> idelk t" "ide_busy t (q @ [b])" "woken t = woken s @ [i]"
      "ide_err t = ide_err s"
      "fold (serve (ide_err s)) (q @ [b]) (ide_view t) = fold (serve (ide_err s)) (i # q @ [b]) (ide_view s)"
      "\<forall>k. k \<noteq> i \<longrightarrow> ibufs t ! k = ibufs s ! k" "havedisk1 t = havedisk1 s"
    by (auto simp: ide_view_def)
  have dist: "distinct (i # q @ [b])" using Cons.prems(2) by (auto simp: ide_busy_def)
  let ?t = "t\<lparr>idelk := True\<rparr>"
  have "ide_busy ?t (q @ [b])" using t(3) by (simp add: ide_busy_def)
  moreover have "\<forall>j \<in> set (q @ [b]). flags (ibufs ?t ! j) AND (B_VALID OR B_DIRTY) \<noteq> B_VALID"
    using Cons.prems(3) t(7) dist by auto
  ultimately obtain u where u: "ide_wait k b ?t = Ok u" "idelk u" "ide_busy u []" "woken u = woken ?t @ q @ [b]"
      "ide_view u = fold (serve (ide_err ?t)) (q @ [b]) (ide_view ?t)"
      "ide_err u = ide_err ?t" "havedisk1 u = havedisk1 ?t"
    using Cons.IH [of ?t k] n(2) by auto
  have "ide_wait n b s = ide_wait k b ?t"
    using Cons.prems t(1,2) n by (simp add: ide_wait.simps [of "Suc k"])
  moreover have "ide_view ?t = ide_view t" by (simp add: ide_view_def)
  ultimately show ?case using t u by auto
qed

lemma qappend_eq:
  "qpath (ibufs s) (Some pp) q \<Longrightarrow> q \<noteq> [] \<Longrightarrow> length q \<le> n \<Longrightarrow>
   qappend n pp b s = Ok (upd_buf (last q) (\<lambda>c. c\<lparr>qnext := Some b\<rparr>) s)"
proof (induction q arbitrary: pp n)
  case (Cons i q)
  obtain k where n: "n = Suc k" "length q \<le> k" using Cons.prems(3) by (cases n) auto
  show ?case
  proof (cases q)
    case Nil
    then show ?thesis using Cons.prems n by auto
  next
    case (Cons j r)
    then have "qnext (ibufs s ! i) = Some j" using Cons.prems(1) by auto
    with Cons.IH [of j k] Cons.prems n Cons show ?thesis by auto
  qed
qed simp

lemma qpath_snoc:
  "qpath bs p q \<Longrightarrow> q \<noteq> [] \<Longrightarrow> distinct (q @ [b]) \<Longrightarrow> b < length bs \<Longrightarrow> qnext (bs ! b) = None \<Longrightarrow>
   qpath (bs[last q := (bs ! last q)\<lparr>qnext := Some b\<rparr>]) p (q @ [b])"
proof (induction q arbitrary: p)
  case (Cons i q)
  show ?case
  proof (cases q)
    case Nil
    then show ?thesis using Cons.prems by auto
  next
    case (Cons j r)
    then have "last q \<noteq> i" using Cons.prems(3) by (metis distinct.simps(2) distinct_append last_in_set list.discI append_Cons)
    with Cons.IH [of "qnext (bs ! i)"] Cons.prems Cons show ?thesis by auto
  qed
qed simp

lemma ide_view_qnext: "ide_view (upd_buf i (\<lambda>c. c\<lparr>qnext := x\<rparr>) s) = ide_view s"
proof -
  have "map (\<lambda>b. b\<lparr>qnext := None\<rparr>) ((ibufs s)[i := (ibufs s ! i)\<lparr>qnext := x\<rparr>]) = map (\<lambda>b. b\<lparr>qnext := None\<rparr>) (ibufs s)"
  proof (rule nth_equalityI)
    fix k assume "k < length (map (\<lambda>b. b\<lparr>qnext := None\<rparr>) ((ibufs s)[i := (ibufs s ! i)\<lparr>qnext := x\<rparr>]))"
    then show "map (\<lambda>b. b\<lparr>qnext := None\<rparr>) ((ibufs s)[i := (ibufs s ! i)\<lparr>qnext := x\<rparr>]) ! k
        = map (\<lambda>b. b\<lparr>qnext := None\<rparr>) (ibufs s) ! k"
      by (cases "k = i") auto
  qed simp
  then show ?thesis by (simp add: ide_view_def upd_buf_def)
qed

lemma ide_view_cong: "disk s = disk t \<Longrightarrow> ibufs s = ibufs t \<Longrightarrow> ide_view s = ide_view t"
  by (simp add: ide_view_def)

lemma iderw_eq:
  assumes "\<not> idelk s" "ide_busy s q" "b < length (ibufs s)" "b \<notin> set q"
    "\<forall>i \<in> set (q @ [b]). flags (ibufs s ! i) AND (B_VALID OR B_DIRTY) \<noteq> B_VALID"
    "blockno (ibufs s ! b) < FSSIZE" "bdev (ibufs s ! b) = 0 \<or> havedisk1 s"
    "sl_held me (block_lk (ibufs s ! b))"
  shows "\<exists>t. iderw me b s = Ok t \<and> \<not> idelk t \<and> idequeue t = None \<and> woken t = woken s @ q @ [b]
    \<and> ide_view t = fold (serve (ide_err s)) (q @ [b]) (ide_view s)
    \<and> ide_err t = ide_err s \<and> havedisk1 t = havedisk1 s
    \<and> (q = [] \<longrightarrow> dtrace t = dtrace s @ sent (ibufs s ! b))"
proof -
  let ?s1 = "upd_buf b (\<lambda>c. c\<lparr>qnext := None\<rparr>) (s\<lparr>idelk := True\<rparr>)"
  have q: "qpath (ibufs s) (idequeue s) q" "distinct q" "\<forall>i \<in> set q. blockno (ibufs s ! i) < FSSIZE"
    using assms(2) by (simp_all add: ide_busy_def)
  have len: "length q \<le> length (ibufs s)"
    using q card_mono [of "{..<length (ibufs s)}" "set q"] qpath_bound [OF q(1)]
    by (auto simp: distinct_card)
  have ne: "i \<noteq> b" if "i \<in> set q" for i using that assms(4) by auto
  have buf1: "ibufs ?s1 ! i = (if i = b then (ibufs s ! b)\<lparr>qnext := None\<rparr> else ibufs s ! i)" for i
    using assms(3) by (simp add: upd_buf_def nth_list_update)
  have q1: "qpath (ibufs ?s1) (idequeue ?s1) q"
  proof -
    have "qpath (ibufs ?s1) p q = qpath (ibufs s) p q" for p
      by (rule qpath_cong) (use buf1 ne in \<open>auto simp: upd_buf_def\<close>)
    then show ?thesis using q(1) by (simp add: upd_buf_def)
  qed
  have "\<exists>s2 s3. (case idequeue ?s1 of None \<Rightarrow> Ok (?s1\<lparr>idequeue := Some b\<rparr>)
        | Some qq \<Rightarrow> qappend (length (ibufs ?s1)) qq b ?s1) = Ok s2
      \<and> (if idequeue s2 = Some b then idestart (Some b) s2 else Ok s2) = Ok s3
      \<and> ide_busy s3 (q @ [b]) \<and> idelk s3 \<and> length (ibufs s3) = length (ibufs s)
      \<and> (\<forall>i. flags (ibufs s3 ! i) = flags (ibufs s ! i)) \<and> woken s3 = woken s \<and> ide_err s3 = ide_err s \<and> havedisk1 s3 = havedisk1 s
      \<and> (q = [] \<longrightarrow> dtrace s3 = dtrace s @ sent (ibufs s ! b))
      \<and> fold (serve (ide_err s)) (q @ [b]) (ide_view s3) = fold (serve (ide_err s)) (q @ [b]) (ide_view s)"
  proof (cases q)
    case Nil
    then have none: "idequeue ?s1 = None" using q1 by simp
    let ?s2 = "?s1\<lparr>idequeue := Some b\<rparr>"
    have b2: "b < length (ibufs ?s2)" "ibufs ?s2 ! b = (ibufs s ! b)\<lparr>qnext := None\<rparr>"
      using assms(3) by (simp_all add: upd_buf_def)
    then have "blockno (ibufs ?s2 ! b) < FSSIZE" using assms(6) by simp
    have d2: "disk ?s2 = disk s" by (simp add: upd_buf_def)
    have tr2: "dtrace ?s2 = dtrace s" by (simp add: upd_buf_def)
    from idestart_eq [OF b2(1) \<open>blockno (ibufs ?s2 ! b) < FSSIZE\<close>, unfolded b2(2) d2 tr2 qnext_simps] obtain p where
      p: "idestart (Some b) ?s2 = Ok (?s2\<lparr>ports := p, disk := (if flags (ibufs s ! b) AND B_DIRTY \<noteq> 0
          then put_block (disk s) (ibufs s ! b) else disk s), dtrace := dtrace s @ sent (ibufs s ! b)\<rparr>)"
        "ata_sector p = bsect (ibufs s ! b)" "ata_drive p = bdrive (ibufs s ! b)"
      by auto
    let ?s3 = "?s2\<lparr>ports := p, disk := (if flags (ibufs s ! b) AND B_DIRTY \<noteq> 0
          then put_block (disk s) (ibufs s ! b) else disk s), dtrace := dtrace s @ sent (ibufs s ! b)\<rparr>"
    have b3: "ibufs ?s3 ! b = (ibufs s ! b)\<lparr>qnext := None\<rparr>" using b2 by simp
    have "ide_busy ?s3 (q @ [b])"
      using Nil p(2,3) assms(3,6) b3
      by (auto simp: ide_busy_def Let_def put_block_def bdrive_def bsect_def upd_buf_def)
    moreover have "serve (ide_err s) b (ide_view ?s3) = serve (ide_err s) b (ide_view s)"
    proof -
      have "ide_view ?s3 = (disk ?s3, snd (ide_view s))"
        using ide_view_qnext [of b None "s\<lparr>idelk := True\<rparr>"] by (simp add: ide_view_def upd_buf_def)
      then show ?thesis
        using assms(3) by (auto simp: serve_def ide_view_def Let_def put_block_def bdrive_def bsect_def)
    qed
    ultimately show ?thesis
      using p(1) none buf1 Nil by (intro exI [of _ ?s2] exI [of _ ?s3]) (auto simp: upd_buf_def nth_list_update assms(3))
  next
    case (Cons j r)
    then have some: "idequeue ?s1 = Some j" using q1 by auto
    let ?s2 = "upd_buf (last q) (\<lambda>c. c\<lparr>qnext := Some b\<rparr>) ?s1"
    have lq: "last q \<in> set q" "last q < length (ibufs s)" using Cons qpath_bound [OF q(1), of "last q"] by auto
    have app: "qappend (length (ibufs ?s1)) j b ?s1 = Ok ?s2"
      using q1 some Cons len by (intro qappend_eq) (auto simp: upd_buf_def)
    have head: "idequeue ?s2 = Some j" "j \<noteq> b" "hd (q @ [b]) = j"
      using some Cons assms(4) by (auto simp: upd_buf_def)
    have buf2: "ibufs ?s2 ! i = (if i = last q then (ibufs ?s1 ! i)\<lparr>qnext := Some b\<rparr> else ibufs ?s1 ! i)" for i
      using lq by (simp add: upd_buf_def nth_list_update)
    have path: "qpath (ibufs ?s2) (idequeue ?s2) (q @ [b])"
      using qpath_snoc [OF q1, of b] Cons q(2) assms(3,4) buf1 by (simp add: upd_buf_def)
    have keep: "bsect (ibufs ?s2 ! i) = bsect (ibufs s ! i)" "bdrive (ibufs ?s2 ! i) = bdrive (ibufs s ! i)"
      "flags (ibufs ?s2 ! i) = flags (ibufs s ! i)" "bdata (ibufs ?s2 ! i) = bdata (ibufs s ! i)"
      "blockno (ibufs ?s2 ! i) = blockno (ibufs s ! i)" for i
      by (simp_all add: buf2 buf1 bsect_def bdrive_def)
    have rest: "ports ?s2 = ports s" "disk ?s2 = disk s" "idelk ?s2" "woken ?s2 = woken s" "ide_err ?s2 = ide_err s"
      "havedisk1 ?s2 = havedisk1 s"
      "length (ibufs ?s2) = length (ibufs s)"
      by (simp_all add: upd_buf_def)
    have "ide_busy ?s2 (q @ [b])"
      unfolding ide_busy_def Let_def keep rest put_block_def head(3)
      using path q assms(2,4,6) Cons by (auto simp: ide_busy_def Let_def put_block_def)
    moreover have "ide_view ?s2 = ide_view s"
      unfolding ide_view_qnext by (rule ide_view_cong) simp_all
    ultimately show ?thesis
      using app some head rest keep by (intro exI [of _ ?s2]) auto
  qed
  then obtain s2 s3 where
    s2: "(case idequeue ?s1 of None \<Rightarrow> Ok (?s1\<lparr>idequeue := Some b\<rparr>)
        | Some qq \<Rightarrow> qappend (length (ibufs ?s1)) qq b ?s1) = Ok s2" and
    s3: "(if idequeue s2 = Some b then idestart (Some b) s2 else Ok s2) = Ok s3"
      "ide_busy s3 (q @ [b])" "idelk s3" "length (ibufs s3) = length (ibufs s)"
      "\<forall>i. flags (ibufs s3 ! i) = flags (ibufs s ! i)" "woken s3 = woken s" "ide_err s3 = ide_err s" "havedisk1 s3 = havedisk1 s"
      "q = [] \<longrightarrow> dtrace s3 = dtrace s @ sent (ibufs s ! b)"
      "fold (serve (ide_err s)) (q @ [b]) (ide_view s3) = fold (serve (ide_err s)) (q @ [b]) (ide_view s)"
    by blast
  have "length (q @ [b]) \<le> length (ibufs s)"
    using q assms(3,4) card_mono [of "{..<length (ibufs s)}" "set (q @ [b])"] qpath_bound [OF q(1)]
    by (auto simp: distinct_card card_insert_if)
  then have "length q < length (ibufs s3)" using s3(4) by simp
  from ide_wait_serves [OF s3(3,2) _ this] obtain t where
    t: "ide_wait (length (ibufs s3)) b s3 = Ok t" "idelk t" "ide_busy t []" "woken t = woken s3 @ q @ [b]"
      "ide_view t = fold (serve (ide_err s3)) (q @ [b]) (ide_view s3)"
      "ide_err t = ide_err s3" "havedisk1 t = havedisk1 s3" "q = [] \<longrightarrow> dtrace t = dtrace s3"
    using s3(5) assms(5) by auto
  have "iderw me b s = Ok (t\<lparr>idelk := False\<rparr>)"
    using assms s2 s3(1) t(1,2) by (auto simp: iderw_def Let_def holdingsleep_eq)
  then show ?thesis
    using t s3 by (auto simp: ide_busy_def ide_view_def)
qed

text \<open>
  C37. Disk requests are served in the order they are queued and each exactly once: \<open>iderw\<close>
  called while the requests \<open>q\<close> are outstanding returns once the drive has served \<open>q\<close> and then
  this one; each dirty buffer is written to the block it names and each other buffer is filled
  from its block, all of them end up valid and clean and their waiters are woken in that order,
  and the queue is empty with the driver's lock free.
\<close>

theorem iderw_serves_in_order:
  assumes "\<not> idelk s" "ide_busy s q" "b < length (ibufs s)" "b \<notin> set q"
    "\<forall>i \<in> set (q @ [b]). flags (ibufs s ! i) AND (B_VALID OR B_DIRTY) \<noteq> B_VALID"
    "blockno (ibufs s ! b) < FSSIZE" "bdev (ibufs s ! b) = 0 \<or> havedisk1 s"
    "sl_held me (block_lk (ibufs s ! b))"
  shows "\<exists>t. iderw me b s = Ok t \<and> \<not> idelk t \<and> idequeue t = None \<and> woken t = woken s @ q @ [b]
    \<and> ide_view t = fold (serve (ide_err s)) (q @ [b]) (ide_view s)"
  using iderw_eq [OF assms] by blast

text \<open>The case the buffer cache meets: an idle disk that reports no error.\<close>

lemma iderw_idle:
  assumes "\<not> idelk s" "idequeue s = None" "b < length (ibufs s)" "\<not> ide_err s"
    "flags (ibufs s ! b) AND (B_VALID OR B_DIRTY) \<noteq> B_VALID"
    "blockno (ibufs s ! b) < FSSIZE" "bdev (ibufs s ! b) = 0 \<or> havedisk1 s"
    "sl_held me (block_lk (ibufs s ! b))"
  shows "\<exists>t. iderw me b s = Ok t \<and> \<not> idelk t \<and> idequeue t = None \<and> \<not> ide_err t
    \<and> havedisk1 t = havedisk1 s \<and> length (ibufs t) = length (ibufs s)
    \<and> disk t = (if flags (ibufs s ! b) AND B_DIRTY \<noteq> 0 then put_block (disk s) (ibufs s ! b) else disk s)
    \<and> dtrace t = dtrace s @ sent (ibufs s ! b)
    \<and> (\<forall>k < length (ibufs s). (ibufs t ! k)\<lparr>qnext := None\<rparr> =
        (if k = b then (ibufs s ! b)\<lparr>qnext := None,
           bdata := (if flags (ibufs s ! b) AND B_DIRTY \<noteq> 0 then bdata (ibufs s ! b)
                     else disk s (bdrive (ibufs s ! b)) (bsect (ibufs s ! b))),
           flags := (flags (ibufs s ! b) OR B_VALID) AND NOT B_DIRTY\<rparr>
         else (ibufs s ! k)\<lparr>qnext := None\<rparr>))"
proof -
  have "ide_busy s []" using assms(2) by (simp add: ide_busy_def)
  from iderw_eq [OF assms(1) this assms(3) _ _ assms(6-8)] obtain t where
    t: "iderw me b s = Ok t" "\<not> idelk t" "idequeue t = None" "ide_err t = ide_err s" "havedisk1 t = havedisk1 s"
      "ide_view t = serve (ide_err s) b (ide_view s)" "dtrace t = dtrace s @ sent (ibufs s ! b)"
    using assms(5) by auto
  have v: "disk t = fst (ide_view t)" "map (\<lambda>b. b\<lparr>qnext := None\<rparr>) (ibufs t) = snd (ide_view t)"
    by (simp_all add: ide_view_def)
  have d: "disk t = (if flags (ibufs s ! b) AND B_DIRTY \<noteq> 0 then put_block (disk s) (ibufs s ! b) else disk s)"
    using v(1) assms(3) unfolding t(6) by (simp add: serve_def ide_view_def Let_def del: buf.update_convs)
  have m: "map (\<lambda>b. b\<lparr>qnext := None\<rparr>) (ibufs t) = (map (\<lambda>b. b\<lparr>qnext := None\<rparr>) (ibufs s))[b :=
      (ibufs s ! b)\<lparr>qnext := None,
           bdata := (if flags (ibufs s ! b) AND B_DIRTY \<noteq> 0 then bdata (ibufs s ! b)
                     else disk s (bdrive (ibufs s ! b)) (bsect (ibufs s ! b))),
           flags := (flags (ibufs s ! b) OR B_VALID) AND NOT B_DIRTY\<rparr>]"
    using v(2) assms(3,4) unfolding t(6) by (simp add: serve_def ide_view_def Let_def)
  then have len: "length (ibufs t) = length (ibufs s)" by (metis length_list_update length_map)
  have "(ibufs t ! k)\<lparr>qnext := None\<rparr> = (map (\<lambda>b. b\<lparr>qnext := None\<rparr>) (ibufs t)) ! k" if "k < length (ibufs s)" for k
    using that len by simp
  then have "\<forall>k < length (ibufs s). (ibufs t ! k)\<lparr>qnext := None\<rparr> =
        (if k = b then (ibufs s ! b)\<lparr>qnext := None,
           bdata := (if flags (ibufs s ! b) AND B_DIRTY \<noteq> 0 then bdata (ibufs s ! b)
                     else disk s (bdrive (ibufs s ! b)) (bsect (ibufs s ! b))),
           flags := (flags (ibufs s ! b) OR B_VALID) AND NOT B_DIRTY\<rparr>
         else (ibufs s ! k)\<lparr>qnext := None\<rparr>)"
    unfolding m by (simp add: nth_list_update)
  with t d len assms(4) show ?thesis by blast
qed

definition buf_new :: buf where
  "buf_new = \<lparr>flags = 0, bdev = 0, blockno = 0,
     block_lk = \<lparr>sl_locked = False, slk = False, sl_name = ''buffer'', sl_pid = 0, sl_wakeups = 0\<rparr>,
     refcnt = 0, bprev = 0, bnext = 0, qnext = None, bdata = \<lambda>_. 0\<rparr>"

text \<open>One buffer held by process 3 and marked dirty, on an idle disk.\<close>

definition ide_demo :: ide where
  "ide_demo = \<lparr>idelk = False, idequeue = None, havedisk1 = True,
     ibufs = [buf_new\<lparr>flags := B_DIRTY, bdev := 1, blockno := 7, bdata := \<lambda>_. 9,
       block_lk := sl_taken 3 (block_lk buf_new)\<rparr>],
     ports = \<lambda>_. 0, disk = \<lambda>_ _ _. 0, ide_err = False, woken = [], dtrace = []\<rparr>"

theorem iderw_serves_in_order_witness:
  "\<exists>t. iderw 3 0 ide_demo = Ok t \<and> disk t 1 7 = (\<lambda>_. 9)"
proof -
  have "ide_busy ide_demo []" by (simp add: ide_busy_def ide_demo_def)
  moreover have "sl_held 3 (block_lk (ibufs ide_demo ! 0))"
    by (simp add: ide_demo_def buf_new_def sl_held_def sl_taken_def)
  ultimately obtain t where t: "iderw 3 0 ide_demo = Ok t"
    "ide_view t = fold (serve (ide_err ide_demo)) ([] @ [0]) (ide_view ide_demo)"
    using iderw_serves_in_order [of ide_demo "[]" 0 3]
    by (auto simp: ide_demo_def B_VALID_def B_DIRTY_def FSSIZE_def)
  have "disk t = fst (ide_view t)" by (simp add: ide_view_def)
  then have "disk t 1 7 = (\<lambda>_. 9)"
    using t(2) by (simp add: serve_def ide_view_def ide_demo_def Let_def put_block_def bdrive_def bsect_def)
  with t(1) show ?thesis by blast
qed

text \<open>
  A read that the drive reports as failed still marks the buffer valid: \<open>bread\<close> returns whatever
  the buffer held before, without an error.
\<close>

lemma ide_read_error_ignored:
  assumes "\<not> idelk s" "ide_busy s [i]" "ide_err s" "flags (ibufs s ! i) AND B_DIRTY = 0"
  shows "\<exists>t. ideintr s = Ok t \<and> flags (ibufs t ! i) AND B_VALID \<noteq> 0 \<and> bdata (ibufs t ! i) = bdata (ibufs s ! i)"
proof -
  have i: "i < length (ibufs s)" using assms(2) by (simp add: ide_busy_def)
  from ideintr_eq [OF assms(1,2)] obtain t where
    t: "ideintr s = Ok t" "flags (ibufs t ! i) = (flags (ibufs s ! i) OR B_VALID) AND NOT B_DIRTY"
      "ide_view t = serve (ide_err s) i (ide_view s)" "length (ibufs t) = length (ibufs s)" by auto
  have "bdata (ibufs t ! i) = bdata (snd (ide_view t) ! i)"
    using i t(4) by (simp add: ide_view_def)
  also have "\<dots> = bdata (ibufs s ! i)"
    using t(3) i assms(3) by (simp add: serve_def ide_view_def Let_def)
  finally have "bdata (ibufs t ! i) = bdata (ibufs s ! i)" .
  moreover have "flags (ibufs t ! i) AND B_VALID \<noteq> 0" using t(2) by simp
  ultimately show ?thesis using t(1) by blast
qed

end
