(* ===== verification/Bio.thy ===== *)
theory Bio
  imports Ide
begin

text \<open>
  The buffer cache (\<open>bio.c\<close>).  \<open>bcache.buf[i]\<close> is entry \<open>i < NBUF\<close> of \<open>ibufs\<close> and the list
  head \<open>bcache.head\<close> is entry \<open>NBUF\<close>; \<open>bprev\<close> and \<open>bnext\<close> link them in a ring, most recently
  used first.  The theory shows that the ring is a list \<open>xs\<close> of all buffers, and that through
  \<open>bread\<close>, \<open>bwrite\<close> and \<open>brelse\<close> the cache is an array of blocks: \<open>bio me s V D H K W\<close> says that
  block \<open>n\<close> reads as \<open>V n\<close>, is \<open>D n\<close> on the disk, that the process \<open>me\<close> holds the blocks \<open>H\<close>,
  that the blocks \<open>K\<close> are pinned by the log, and that \<open>W\<close> is the trace of disk writes.
\<close>

record bcache =
  bc_lk :: bool
  ide :: ide

definition HEAD :: nat where "HEAD = NBUF"

definition bufs :: "bcache \<Rightarrow> buf list" where "bufs s = ibufs (ide s)"

definition set_buf :: "nat \<Rightarrow> (buf \<Rightarrow> buf) \<Rightarrow> bcache \<Rightarrow> bcache" where
  "set_buf b f s = s\<lparr>ide := upd_buf b f (ide s)\<rparr>"

subsection \<open>Operations\<close>

text \<open>The four assignments that put \<open>b\<close> at the front of the ring.\<close>

definition ring_push :: "nat \<Rightarrow> bcache \<Rightarrow> bcache" where
  "ring_push b s =
     (let s1 = set_buf b (\<lambda>c. c\<lparr>bnext := bnext (bufs s ! HEAD)\<rparr>) s;
          s2 = set_buf b (\<lambda>c. c\<lparr>bprev := HEAD\<rparr>) s1;
          s3 = set_buf (bnext (bufs s2 ! HEAD)) (\<lambda>c. c\<lparr>bprev := b\<rparr>) s2
      in set_buf HEAD (\<lambda>c. c\<lparr>bnext := b\<rparr>) s3)"

fun binit_from :: "nat \<Rightarrow> nat \<Rightarrow> bcache \<Rightarrow> bcache" where
  "binit_from 0 b s = s"
| "binit_from (Suc n) b s =
     binit_from n (Suc b)
       (ring_push b (set_buf b (\<lambda>c. c\<lparr>block_lk := initsleeplock ''buffer'' (block_lk c)\<rparr>) s))"

definition binit :: "bcache \<Rightarrow> bcache" where
  "binit s =
     binit_from NBUF 0
       (set_buf HEAD (\<lambda>c. c\<lparr>bnext := HEAD\<rparr>) (set_buf HEAD (\<lambda>c. c\<lparr>bprev := HEAD\<rparr>) (s\<lparr>bc_lk := False\<rparr>)))"

text \<open>
  A walk along the ring in one direction until the head, looking for a buffer.  The fuel is one
  more than the number of buffers; on a ring it does not run out.
\<close>

fun ring_find :: "(buf \<Rightarrow> nat) \<Rightarrow> (buf \<Rightarrow> bool) \<Rightarrow> nat \<Rightarrow> nat \<Rightarrow> buf list \<Rightarrow> nat option outcome" where
  "ring_find dir P 0 b bs = Blocked"
| "ring_find dir P (Suc n) b bs =
     (if b = HEAD then Ok None
      else fault_if (length bs \<le> b)
        (if P (bs ! b) then Ok (Some b) else ring_find dir P n (dir (bs ! b)) bs))"

declare ring_find.simps(2) [simp del]

definition buf_lock :: "int \<Rightarrow> nat \<Rightarrow> bcache \<Rightarrow> bcache outcome" where
  "buf_lock me b s =
     bnd (acquiresleep me (block_lk (bufs s ! b))) (\<lambda>lk. Ok (set_buf b (\<lambda>c. c\<lparr>block_lk := lk\<rparr>) s))"

definition bget :: "int \<Rightarrow> u32 \<Rightarrow> u32 \<Rightarrow> bcache \<Rightarrow> (nat \<times> bcache) outcome" where
  "bget me dev bno s =
     bnd (lk_acquire (bc_lk s)) (\<lambda>l.
       let s1 = s\<lparr>bc_lk := l\<rparr> in
       bnd (ring_find bnext (\<lambda>b. bdev b = dev \<and> blockno b = bno) (Suc NBUF) (bnext (bufs s1 ! HEAD)) (bufs s1)) (\<lambda>r.
       case r of
         Some b \<Rightarrow>
           (let s2 = set_buf b (\<lambda>c. c\<lparr>refcnt := refcnt c + 1\<rparr>) s1
            in bnd (lk_release (bc_lk s2)) (\<lambda>l.
               bnd (buf_lock me b (s2\<lparr>bc_lk := l\<rparr>)) (\<lambda>s3. Ok (b, s3))))
       | None \<Rightarrow>
           bnd (ring_find bprev (\<lambda>b. refcnt b = 0 \<and> flags b AND B_DIRTY = 0) (Suc NBUF) (bprev (bufs s1 ! HEAD)) (bufs s1)) (\<lambda>r.
           case r of
             Some b \<Rightarrow>
               (let s2 = set_buf b (\<lambda>c. c\<lparr>bdev := dev, blockno := bno, flags := 0, refcnt := 1\<rparr>) s1
                in bnd (lk_release (bc_lk s2)) (\<lambda>l.
                   bnd (buf_lock me b (s2\<lparr>bc_lk := l\<rparr>)) (\<lambda>s3. Ok (b, s3))))
           | None \<Rightarrow> Panic ''bget: no buffers'')))"

definition bc_iderw :: "int \<Rightarrow> nat \<Rightarrow> bcache \<Rightarrow> bcache outcome" where
  "bc_iderw me b s = bnd (iderw me b (ide s)) (\<lambda>d. Ok (s\<lparr>ide := d\<rparr>))"

definition bread :: "int \<Rightarrow> u32 \<Rightarrow> u32 \<Rightarrow> bcache \<Rightarrow> (nat \<times> bcache) outcome" where
  "bread me dev bno s =
     bnd (bget me dev bno s) (\<lambda>(b, s1).
       if flags (bufs s1 ! b) AND B_VALID = 0
       then bnd (bc_iderw me b s1) (\<lambda>s2. Ok (b, s2)) else Ok (b, s1))"

definition bwrite :: "int \<Rightarrow> nat \<Rightarrow> bcache \<Rightarrow> bcache outcome" where
  "bwrite me b s =
     bnd (holdingsleep me (block_lk (bufs s ! b))) (\<lambda>h.
       panic_if (\<not> h) ''bwrite''
        (bc_iderw me b (set_buf b (\<lambda>c. c\<lparr>flags := flags c OR B_DIRTY\<rparr>) s)))"

definition ring_unlink :: "nat \<Rightarrow> bcache \<Rightarrow> bcache" where
  "ring_unlink b s =
     (let s1 = set_buf (bnext (bufs s ! b)) (\<lambda>c. c\<lparr>bprev := bprev (bufs s ! b)\<rparr>) s
      in set_buf (bprev (bufs s1 ! b)) (\<lambda>c. c\<lparr>bnext := bnext (bufs s1 ! b)\<rparr>) s1)"

definition brelse :: "int \<Rightarrow> nat \<Rightarrow> bcache \<Rightarrow> bcache outcome" where
  "brelse me b s =
     bnd (holdingsleep me (block_lk (bufs s ! b))) (\<lambda>h.
       panic_if (\<not> h) ''brelse''
        (bnd (releasesleep (block_lk (bufs s ! b))) (\<lambda>lk.
         bnd (lk_acquire (bc_lk s)) (\<lambda>l.
           let s1 = set_buf b (\<lambda>c. c\<lparr>block_lk := lk\<rparr>) (s\<lparr>bc_lk := l\<rparr>);
               s2 = set_buf b (\<lambda>c. c\<lparr>refcnt := refcnt c - 1\<rparr>) s1;
               s3 = (if refcnt (bufs s2 ! b) = 0 then ring_push b (ring_unlink b s2) else s2)
           in bnd (lk_release (bc_lk s3)) (\<lambda>l. Ok (s3\<lparr>bc_lk := l\<rparr>))))))"

text \<open>A client's store into the data of a buffer it holds.\<close>

definition put_data :: "nat \<Rightarrow> bytes \<Rightarrow> bcache \<Rightarrow> bcache" where
  "put_data b d s = set_buf b (\<lambda>c. c\<lparr>bdata := d\<rparr>) s"

subsection \<open>Rings as lists\<close>

fun linked :: "(nat \<Rightarrow> nat) \<Rightarrow> (nat \<Rightarrow> nat) \<Rightarrow> nat list \<Rightarrow> bool" where
  "linked nx pv (a # b # r) \<longleftrightarrow> nx a = b \<and> pv b = a \<and> linked nx pv (b # r)"
| "linked nx pv _ \<longleftrightarrow> True"

definition ring :: "(nat \<Rightarrow> nat) \<Rightarrow> (nat \<Rightarrow> nat) \<Rightarrow> nat list \<Rightarrow> bool" where
  "ring nx pv xs \<longleftrightarrow> linked nx pv (HEAD # xs @ [HEAD]) \<and> distinct xs \<and> HEAD \<notin> set xs"

lemma linked_append:
  "linked nx pv (xs @ m # ys) \<longleftrightarrow> linked nx pv (xs @ [m]) \<and> linked nx pv (m # ys)"
proof (induction xs)
  case (Cons a xs)
  then show ?case by (cases xs) auto
qed simp

lemma linked_cong:
  "(\<And>a. a \<in> set (butlast p) \<Longrightarrow> nx a = nx' a) \<Longrightarrow> (\<And>a. a \<in> set (tl p) \<Longrightarrow> pv a = pv' a) \<Longrightarrow>
   linked nx pv p = linked nx' pv' p"
proof (induction p)
  case (Cons a p)
  show ?case
  proof (cases p)
    case (Cons b r)
    have "linked nx pv p = linked nx' pv' p"
      by (rule Cons.IH) (use Cons.prems Cons in \<open>auto split: if_splits dest: in_set_butlastD\<close>)
    then show ?thesis using Cons.prems Cons by auto
  qed simp
qed simp

lemma ring_push_front:
  assumes "ring nx pv ws" "b \<noteq> HEAD" "b \<notin> set ws"
  shows "ring (nx(b := nx HEAD, HEAD := b)) (pv(b := HEAD, nx HEAD := b)) (b # ws)"
proof -
  let ?nx = "nx(b := nx HEAD, HEAD := b)" and ?pv = "pv(b := HEAD, nx HEAD := b)"
  obtain w ws' where w: "ws @ [HEAD] = w # ws'" by (cases ws) auto
  have r: "linked nx pv (HEAD # ws @ [HEAD])" "distinct (ws @ [HEAD])" "HEAD \<notin> set ws"
    using assms(1) by (simp_all add: ring_def)
  have l: "linked nx pv (w # ws')" "nx HEAD = w" using r(1) unfolding w by simp_all
  have d: "distinct (w # ws')" using r(2) unfolding w .
  have "w \<in> set (ws @ [HEAD])" unfolding w by simp
  then have bw: "b \<noteq> w" using assms by auto
  have bl: "butlast (w # ws') = ws" using w by (metis butlast_snoc)
  have "linked ?nx ?pv (w # ws') = linked nx pv (w # ws')"
  proof (rule linked_cong)
    fix a assume "a \<in> set (butlast (w # ws'))"
    then have "a \<in> set ws" unfolding bl .
    then show "?nx a = nx a" using assms(3) r(3) by auto
  next
    fix a assume a: "a \<in> set (tl (w # ws'))"
    then have "a \<in> set (ws @ [HEAD])" unfolding w by simp
    then have "a \<noteq> b" using assms by auto
    moreover have "a \<noteq> w" using a d by auto
    ultimately show "?pv a = pv a" using l(2) by simp
  qed
  then have "linked ?nx ?pv (HEAD # b # w # ws')" using l assms(2) bw by simp
  then have "linked ?nx ?pv (HEAD # (b # ws) @ [HEAD])" using w by simp
  then show ?thesis using assms r by (simp add: ring_def)
qed

lemma ring_unlink_one:
  assumes "ring nx pv (ys @ b # zs)"
  shows "ring (nx(pv b := nx b)) (pv(nx b := pv b)) (ys @ zs)"
proof -
  let ?nx = "nx(pv b := nx b)" and ?pv = "pv(nx b := pv b)"
  have r: "linked nx pv (HEAD # (ys @ b # zs) @ [HEAD])" "distinct (HEAD # ys @ b # zs)"
    using assms by (auto simp: ring_def)
  obtain ps p where ps: "HEAD # ys = ps @ [p]" by (metis list.distinct(1) rev_exhaust)
  obtain n ns where n: "zs @ [HEAD] = n # ns" by (cases zs) auto
  have path: "HEAD # (ys @ b # zs) @ [HEAD] = ps @ p # b # n # ns"
    using arg_cong [OF ps, of "\<lambda>l. l @ b # zs @ [HEAD]"] n by simp
  have l: "linked nx pv (ps @ [p])" "nx p = b" "pv b = p" "nx b = n" "pv n = b" "linked nx pv (n # ns)"
    using r(1) unfolding path linked_append [of nx pv ps p "b # n # ns"] by simp_all
  have dps: "distinct (ps @ [p])" using r(2) unfolding ps [symmetric] by simp
  have tps: "tl (ps @ [p]) = ys" unfolding ps [symmetric] by simp
  have pin: "p \<in> set (HEAD # ys)" unfolding ps by simp
  have nin: "n \<in> set (zs @ [HEAD])" unfolding n by simp
  have "linked ?nx ?pv (ps @ [p]) = linked nx pv (ps @ [p])"
  proof (rule linked_cong)
    fix a assume "a \<in> set (butlast (ps @ [p]))"
    then show "?nx a = nx a" using dps l(3) by auto
  next
    fix a assume "a \<in> set (tl (ps @ [p]))"
    then have "a \<in> set ys" unfolding tps .
    then show "?pv a = pv a" using nin r(2) l(4) by auto
  qed
  moreover have "linked ?nx ?pv (n # ns) = linked nx pv (n # ns)"
  proof (rule linked_cong)
    fix a assume "a \<in> set (butlast (n # ns))"
    then have "a \<in> set zs" unfolding n [symmetric] by simp
    then show "?nx a = nx a" using pin r(2) l(3) by auto
  next
    fix a assume a: "a \<in> set (tl (n # ns))"
    have "distinct (n # ns)" using r(2) unfolding n [symmetric] by simp
    then show "?pv a = pv a" using a l(4) by auto
  qed
  ultimately have "linked ?nx ?pv (ps @ p # n # ns)"
    using l unfolding linked_append [of ?nx ?pv ps p "n # ns"] by simp
  moreover have "HEAD # (ys @ zs) @ [HEAD] = ps @ p # n # ns"
    using arg_cong [OF ps, of "\<lambda>l. l @ zs @ [HEAD]"] n by simp
  ultimately show ?thesis using r(2) unfolding ring_def by auto
qed

lemma linked_rev: "linked pv nx (rev p) = linked nx pv p"
proof (induction p)
  case (Cons a p)
  show ?case
  proof (cases p)
    case (Cons b r)
    then show ?thesis using Cons.IH linked_append [of pv nx "rev r" b "[a]"] by auto
  qed simp
qed simp

lemma ring_rev: "ring nx pv xs \<Longrightarrow> ring pv nx (rev xs)"
  using linked_rev [of pv nx "HEAD # xs @ [HEAD]"] by (simp add: ring_def)

lemma ring_find_linked:
  "linked (\<lambda>i. dir (bs ! i)) pv (a # ys @ [HEAD]) \<Longrightarrow> HEAD \<notin> set ys \<Longrightarrow> (\<forall>y \<in> set ys. y < length bs) \<Longrightarrow>
   length ys < n \<Longrightarrow> ring_find dir P n (dir (bs ! a)) bs = Ok (find (\<lambda>i. P (bs ! i)) ys)"
proof (induction ys arbitrary: a n)
  case Nil
  then show ?case by (cases n) (auto simp: ring_find.simps(2))
next
  case (Cons y ys)
  then obtain k where "n = Suc k" by (cases n) auto
  with Cons show ?case by (auto simp: ring_find.simps(2))
qed

lemma ring_find_ring:
  assumes "ring (\<lambda>i. dir (bs ! i)) pv xs" "\<forall>y \<in> set xs. y < length bs" "length xs \<le> n"
  shows "ring_find dir P (Suc n) (dir (bs ! HEAD)) bs = Ok (find (\<lambda>i. P (bs ! i)) xs)"
  using assms by (intro ring_find_linked [where pv = pv]) (auto simp: ring_def)

subsection \<open>The cache as an array of blocks\<close>

definition nxs :: "bcache \<Rightarrow> nat \<Rightarrow> nat" where "nxs s i = bnext (bufs s ! i)"
definition pvs :: "bcache \<Rightarrow> nat \<Rightarrow> nat" where "pvs s i = bprev (bufs s ! i)"

definition has_block :: "bcache \<Rightarrow> u32 \<Rightarrow> nat \<Rightarrow> bool" where
  "has_block s n i \<longleftrightarrow> i < NBUF \<and> bdev (bufs s ! i) = ROOTDEV \<and> blockno (bufs s ! i) = n"

definition view :: "bcache \<Rightarrow> u32 \<Rightarrow> bytes" where
  "view s n = (case find (has_block s n) [0..<NBUF] of
     Some i \<Rightarrow> bdata (bufs s ! i) | None \<Rightarrow> disk (ide s) 1 (unat n))"

definition holds :: "bcache \<Rightarrow> nat \<Rightarrow> u32 \<Rightarrow> bool" where
  "holds s i n \<longleftrightarrow> has_block s n i \<and> refcnt (bufs s ! i) \<noteq> 0"

text \<open>One buffer's part of the invariant.\<close>

definition buf_ok :: "int \<Rightarrow> (nat \<Rightarrow> nat \<Rightarrow> bytes) \<Rightarrow> buf \<Rightarrow> bool" where
  "buf_ok me d b \<longleftrightarrow>
     (if refcnt b = 0 then sl_free (block_lk b) else refcnt b = 1 \<and> sl_held me (block_lk b))
     \<and> (bdev b = ROOTDEV \<and> blockno b < FSSIZE \<and> flags b AND B_VALID \<noteq> 0
          \<and> (refcnt b = 0 \<longrightarrow> flags b AND B_DIRTY = 0 \<longrightarrow> bdata b = d 1 (unat (blockno b)))
        \<or> bdev b = 0 \<and> refcnt b = 0 \<and> flags b = 0)"

definition bio_inv :: "int \<Rightarrow> nat list \<Rightarrow> bcache \<Rightarrow> bool" where
  "bio_inv me xs s \<longleftrightarrow> \<not> bc_lk s \<and> \<not> idelk (ide s) \<and> idequeue (ide s) = None \<and> havedisk1 (ide s)
     \<and> \<not> ide_err (ide s) \<and> length (bufs s) = Suc NBUF \<and> ring (nxs s) (pvs s) xs \<and> set xs = {..<NBUF}
     \<and> (\<forall>i < NBUF. buf_ok me (disk (ide s)) (bufs s ! i))
     \<and> (\<forall>i j n. has_block s n i \<longrightarrow> has_block s n j \<longrightarrow> i = j)"

type_synonym wtrace = "(nat \<times> nat \<times> bytes) list"

definition bio :: "int \<Rightarrow> bcache \<Rightarrow> (u32 \<Rightarrow> bytes) \<Rightarrow> (u32 \<Rightarrow> bytes) \<Rightarrow> u32 set \<Rightarrow> u32 set \<Rightarrow> wtrace \<Rightarrow> bool" where
  "bio me s V D H K W \<longleftrightarrow> (\<exists>xs. bio_inv me xs s) \<and> V = view s \<and> D = (\<lambda>n. disk (ide s) 1 (unat n))
     \<and> H = {n. \<exists>i. holds s i n} \<and> K = {n. \<exists>i. has_block s n i \<and> flags (bufs s ! i) AND B_DIRTY \<noteq> 0}
     \<and> W = dtrace (ide s)"

lemma bufs_set_buf [simp]: "bufs (set_buf i f s) = (bufs s)[i := f (bufs s ! i)]"
  by (simp add: bufs_def set_buf_def upd_buf_def)

lemma set_buf_simps [simp]:
  "bc_lk (set_buf i f s) = bc_lk s" "disk (ide (set_buf i f s)) = disk (ide s)"
  "idelk (ide (set_buf i f s)) = idelk (ide s)" "idequeue (ide (set_buf i f s)) = idequeue (ide s)"
  "havedisk1 (ide (set_buf i f s)) = havedisk1 (ide s)" "dtrace (ide (set_buf i f s)) = dtrace (ide s)" "ide_err (ide (set_buf i f s)) = ide_err (ide s)"
  "bufs (s\<lparr>bc_lk := l\<rparr>) = bufs s"
  "set_buf i f (s\<lparr>bc_lk := l\<rparr>) = (set_buf i f s)\<lparr>bc_lk := l\<rparr>"
  by (simp_all add: set_buf_def upd_buf_def bufs_def)

lemma unlock_same [simp]: "\<not> bc_lk s \<Longrightarrow> s\<lparr>bc_lk := False\<rparr> = s"
  by (cases s) simp

lemma view_has_block:
  assumes "has_block s n i" "\<And>j. has_block s n j \<Longrightarrow> j = i"
  shows "view s n = bdata (bufs s ! i)"
proof -
  have "find (has_block s n) [0..<NBUF] = Some i"
  proof (unfold find_Some_iff, intro exI conjI)
    show "i < length [0..<NBUF]" "has_block s n ([0..<NBUF] ! i)" "i = [0..<NBUF] ! i"
      using assms(1) by (simp_all add: has_block_def)
    show "\<forall>j < i. \<not> has_block s n ([0..<NBUF] ! j)"
      using assms(2) \<open>i < length [0..<NBUF]\<close> by fastforce
  qed
  then show ?thesis by (simp add: view_def)
qed

lemma view_no_block:
  assumes "\<And>j. \<not> has_block s n j"
  shows "view s n = disk (ide s) 1 (unat n)"
proof -
  have "find (has_block s n) [0..<NBUF] = None" using assms by (simp add: find_None_iff)
  then show ?thesis by (simp add: view_def)
qed

text \<open>\<open>t\<close> is \<open>s\<close> after a change of buffer \<open>b\<close>, of its block on the disk and of the links.\<close>

definition same_key :: "buf \<Rightarrow> buf \<Rightarrow> bool" where
  "same_key c d \<longleftrightarrow> flags c = flags d \<and> bdev c = bdev d \<and> blockno c = blockno d
     \<and> block_lk c = block_lk d \<and> refcnt c = refcnt d \<and> bdata c = bdata d"

definition changed :: "int \<Rightarrow> nat \<Rightarrow> bcache \<Rightarrow> bcache \<Rightarrow> bool" where
  "changed me b s t \<longleftrightarrow> b < NBUF \<and> \<not> bc_lk t \<and> \<not> idelk (ide t) \<and> idequeue (ide t) = None \<and> havedisk1 (ide t)
     \<and> \<not> ide_err (ide t) \<and> length (bufs t) = Suc NBUF
     \<and> (\<exists>xs. ring (nxs t) (pvs t) xs \<and> set xs = {..<NBUF})
     \<and> (\<forall>k < NBUF. k \<noteq> b \<longrightarrow> same_key (bufs t ! k) (bufs s ! k))
     \<and> bdev (bufs t ! b) = ROOTDEV
     \<and> (\<forall>m. m \<noteq> unat (blockno (bufs t ! b)) \<longrightarrow> disk (ide t) 1 m = disk (ide s) 1 m)
     \<and> buf_ok me (disk (ide t)) (bufs t ! b)
     \<and> (\<forall>k. k \<noteq> b \<longrightarrow> \<not> has_block s (blockno (bufs t ! b)) k)"

lemma changed_has_block:
  assumes "changed me b s t"
  shows "has_block t m k \<longleftrightarrow> (if k = b then m = blockno (bufs t ! b) else has_block s m k)"
  using assms by (auto simp: changed_def has_block_def same_key_def)

lemma changed_inv:
  assumes "changed me b s t" "bio_inv me xs s"
  shows "\<exists>xs. bio_inv me xs t"
proof -
  obtain xs where xs: "ring (nxs t) (pvs t) xs" "set xs = {..<NBUF}"
    using assms(1) by (auto simp: changed_def)
  have ok: "buf_ok me (disk (ide t)) (bufs t ! i)" if "i < NBUF" for i
  proof (cases "i = b")
    case True
    then show ?thesis using assms(1) by (simp add: changed_def)
  next
    case False
    have k: "same_key (bufs t ! i) (bufs s ! i)" using assms(1) that False by (simp add: changed_def)
    have o: "buf_ok me (disk (ide s)) (bufs s ! i)" using assms(2) that by (simp add: bio_inv_def)
    show ?thesis
    proof (cases "bdev (bufs s ! i) = ROOTDEV")
      case True
      then have "has_block s (blockno (bufs s ! i)) i" using that by (simp add: has_block_def)
      then have "blockno (bufs s ! i) \<noteq> blockno (bufs t ! b)"
        using assms(1) False by (auto simp: changed_def)
      then have "disk (ide t) 1 (unat (blockno (bufs s ! i))) = disk (ide s) 1 (unat (blockno (bufs s ! i)))"
        using assms(1) by (simp add: changed_def)
      then show ?thesis using o k by (simp add: buf_ok_def same_key_def)
    next
      case False
      then show ?thesis using o k by (simp add: buf_ok_def same_key_def)
    qed
  qed
  have uniq: "i = j" if "has_block t n i" "has_block t n j" for i j n
  proof -
    have u: "has_block s n i \<Longrightarrow> has_block s n j \<Longrightarrow> i = j" using assms(2) by (simp add: bio_inv_def)
    have "\<forall>k. k \<noteq> b \<longrightarrow> \<not> has_block s (blockno (bufs t ! b)) k" using assms(1) by (simp add: changed_def)
    then show ?thesis
      using that u unfolding changed_has_block [OF assms(1)] by (auto split: if_splits)
  qed
  have "bio_inv me xs t"
    unfolding bio_inv_def using assms(1) xs ok uniq by (auto simp: changed_def)
  then show ?thesis by blast
qed

lemma bio_unique: "bio_inv me xs s \<Longrightarrow> has_block s n i \<Longrightarrow> has_block s n j \<Longrightarrow> i = j"
  by (simp add: bio_inv_def)

lemma bio_view: "bio_inv me xs s \<Longrightarrow> has_block s n i \<Longrightarrow> view s n = bdata (bufs s ! i)"
  by (rule view_has_block) (auto dest: bio_unique)

lemma changed_view:
  assumes "changed me b s t" "bio_inv me xs s"
    "bdev (bufs s ! b) = ROOTDEV \<longrightarrow> blockno (bufs s ! b) \<noteq> blockno (bufs t ! b) \<longrightarrow>
       bdata (bufs s ! b) = disk (ide s) 1 (unat (blockno (bufs s ! b)))"
  shows "view t m = (if m = blockno (bufs t ! b) then bdata (bufs t ! b) else view s m)"
proof -
  obtain ys where inv: "bio_inv me ys t" using changed_inv [OF assms(1,2)] by blast
  have b: "b < NBUF" using assms(1) by (simp add: changed_def)
  note hb = changed_has_block [OF assms(1)]
  show ?thesis
  proof (cases "m = blockno (bufs t ! b)")
    case True
    then have "has_block t m b" by (simp add: hb)
    then show ?thesis using True bio_view [OF inv] by simp
  next
    case False
    show ?thesis
    proof (cases "\<exists>k. k \<noteq> b \<and> has_block s m k")
      case True
      then obtain k where k: "k \<noteq> b" "has_block s m k" by blast
      then have "has_block t m k" by (simp add: hb)
      then have "view t m = bdata (bufs t ! k)" using bio_view [OF inv] by simp
      also have "\<dots> = bdata (bufs s ! k)"
        using assms(1) k by (simp add: changed_def has_block_def same_key_def)
      also have "\<dots> = view s m" using bio_view [OF assms(2) k(2)] by simp
      finally show ?thesis using False by simp
    next
      case nk: False
      then have "\<not> has_block t m k" for k using False by (auto simp: hb)
      then have vt: "view t m = disk (ide t) 1 (unat m)" by (rule view_no_block)
      have "unat m \<noteq> unat (blockno (bufs t ! b))" using False by simp
      then have dd: "disk (ide t) 1 (unat m) = disk (ide s) 1 (unat m)"
        using assms(1) by (simp add: changed_def)
      show ?thesis
      proof (cases "has_block s m b")
        case True
        then have "bdata (bufs s ! b) = disk (ide s) 1 (unat m)"
          using assms(3) False by (auto simp: has_block_def)
        then show ?thesis using False vt dd bio_view [OF assms(2) True] by simp
      next
        case nb: False
        then have "\<not> has_block s m k" for k using nk by (cases "k = b") auto
        then have "view s m = disk (ide s) 1 (unat m)" by (rule view_no_block)
        then show ?thesis using False vt dd by simp
      qed
    qed
  qed
qed

text \<open>What a change of one buffer means for the array of blocks.\<close>

lemma bio_changed:
  assumes "changed me b s t" "bio me s V D H K W" "n = blockno (bufs t ! b)"
    "bdev (bufs s ! b) = ROOTDEV \<longrightarrow> blockno (bufs s ! b) \<noteq> n \<longrightarrow>
       refcnt (bufs s ! b) = 0 \<and> flags (bufs s ! b) AND B_DIRTY = 0"
  shows "bio me t (V(n := bdata (bufs t ! b))) (D(n := disk (ide t) 1 (unat n)))
    (if refcnt (bufs t ! b) = 0 then H - {n} else insert n H)
    (if flags (bufs t ! b) AND B_DIRTY = 0 then K - {n} else insert n K) (dtrace (ide t))"
proof -
  obtain xs where inv: "bio_inv me xs s" using assms(2) by (auto simp: bio_def)
  have b: "b < NBUF" using assms(1) by (simp add: changed_def)
  have "buf_ok me (disk (ide s)) (bufs s ! b)" using inv b by (simp add: bio_inv_def)
  then have ev: "bdev (bufs s ! b) = ROOTDEV \<longrightarrow> blockno (bufs s ! b) \<noteq> n \<longrightarrow>
      bdata (bufs s ! b) = disk (ide s) 1 (unat (blockno (bufs s ! b)))"
    using assms(4) by (auto simp: buf_ok_def ROOTDEV_def)
  note hb = changed_has_block [OF assms(1)]
  have key: "refcnt (bufs t ! k) = refcnt (bufs s ! k)" "flags (bufs t ! k) = flags (bufs s ! k)"
    if "k \<noteq> b" "has_block s m k" for k m
    using assms(1) that by (auto simp: changed_def has_block_def same_key_def)
  have nob: "\<not> has_block s n k" if "k \<noteq> b" for k using assms(1,3) that by (simp add: changed_def)
  have old: "has_block s m b \<Longrightarrow> m \<noteq> n \<Longrightarrow> refcnt (bufs s ! b) = 0 \<and> flags (bufs s ! b) AND B_DIRTY = 0" for m
    using assms(4) by (auto simp: has_block_def)
  have V: "view t = (view s)(n := bdata (bufs t ! b))"
    using changed_view [OF assms(1) inv] ev assms(3) by (auto simp: fun_eq_iff)
  have D: "(\<lambda>m. disk (ide t) 1 (unat m)) = (\<lambda>m. disk (ide s) 1 (unat m))(n := disk (ide t) 1 (unat n))"
    using assms(1,3) by (auto simp: changed_def fun_eq_iff)
  have H: "(\<exists>k. holds t k m) \<longleftrightarrow> (if m = n then refcnt (bufs t ! b) \<noteq> 0 else \<exists>k. holds s k m)" for m
    unfolding holds_def hb assms(3) [symmetric] using key nob old by (metis (no_types, lifting))
  have K: "(\<exists>k. has_block t m k \<and> flags (bufs t ! k) AND B_DIRTY \<noteq> 0) \<longleftrightarrow>
      (if m = n then flags (bufs t ! b) AND B_DIRTY \<noteq> 0
       else \<exists>k. has_block s m k \<and> flags (bufs s ! k) AND B_DIRTY \<noteq> 0)" for m
    unfolding hb assms(3) [symmetric] using key nob old by (metis (no_types, lifting))
  have "\<exists>xs. bio_inv me xs t" by (rule changed_inv [OF assms(1) inv])
  then show ?thesis
    using assms(2) unfolding bio_def V D H K by (auto split: if_splits)
qed

lemma changed_holds:
  assumes "changed me b s t" "k \<noteq> b"
  shows "holds t k m = holds s k m"
proof -
  have e: "has_block t m k = has_block s m k"
    using changed_has_block [OF assms(1), of m k] assms(2) by simp
  have "refcnt (bufs t ! k) = refcnt (bufs s ! k)" if "has_block s m k"
    using assms that unfolding changed_def has_block_def same_key_def by blast
  then show ?thesis unfolding holds_def e by auto
qed

lemma changed_holds_self:
  "changed me b s t \<Longrightarrow> holds t b m \<longleftrightarrow> m = blockno (bufs t ! b) \<and> refcnt (bufs t ! b) \<noteq> 0"
  using changed_has_block [of me b s t m b] by (auto simp: holds_def)

lemma nxs_set_buf: "i < length (bufs s) \<Longrightarrow> nxs (set_buf i f s) = (nxs s)(i := bnext (f (bufs s ! i)))"
  by (auto simp: nxs_def fun_eq_iff)

lemma pvs_set_buf: "i < length (bufs s) \<Longrightarrow> pvs (set_buf i f s) = (pvs s)(i := bprev (f (bufs s ! i)))"
  by (auto simp: pvs_def fun_eq_iff)

lemma links_set_buf:
  assumes "\<And>c. bnext (f c) = bnext c" "\<And>c. bprev (f c) = bprev c"
  shows "nxs (set_buf i f s) = nxs s" "pvs (set_buf i f s) = pvs s"
proof -
  have "(bufs s)[i := f (bufs s ! i)] ! k = bufs s ! k \<or> (bufs s)[i := f (bufs s ! i)] ! k = f (bufs s ! k)" for k
    by (cases "i < length (bufs s)"; cases "k = i") (simp_all add: list_update_beyond)
  then have "bnext ((bufs s)[i := f (bufs s ! i)] ! k) = bnext (bufs s ! k)"
    "bprev ((bufs s)[i := f (bufs s ! i)] ! k) = bprev (bufs s ! k)" for k
    using assms by metis+
  then show "nxs (set_buf i f s) = nxs s" "pvs (set_buf i f s) = pvs s"
    by (simp_all add: nxs_def pvs_def fun_eq_iff)
qed

lemma find_unique:
  "P i \<Longrightarrow> i \<in> set xs \<Longrightarrow> (\<And>j. j \<in> set xs \<Longrightarrow> P j \<Longrightarrow> j = i) \<Longrightarrow> find P xs = Some i"
proof (induction xs)
  case (Cons x xs)
  then show ?case by (cases "P x") fastforce+
qed simp

lemma find_SomeD: "find P xs = Some i \<Longrightarrow> i \<in> set xs \<and> P i"
  by (induction xs) (auto split: if_splits)

lemma bio_inv_find:
  assumes "bio_inv me xs s"
  shows "ring_find bnext P (Suc NBUF) (bnext (bufs s ! HEAD)) (bufs s) = Ok (find (\<lambda>i. P (bufs s ! i)) xs)"
    and "ring_find bprev P (Suc NBUF) (bprev (bufs s ! HEAD)) (bufs s) = Ok (find (\<lambda>i. P (bufs s ! i)) (rev xs))"
proof -
  have r: "ring (nxs s) (pvs s) xs" "set xs = {..<NBUF}" "length (bufs s) = Suc NBUF"
    using assms by (simp_all add: bio_inv_def)
  then have len: "length xs \<le> NBUF"
    by (metis card_lessThan distinct_card eq_imp_le ring_def)
  have r1: "ring (\<lambda>i. bnext (bufs s ! i)) (pvs s) xs" "ring (\<lambda>i. bprev (bufs s ! i)) (nxs s) (rev xs)"
    using r(1) ring_rev [OF r(1)] by (simp_all add: nxs_def [abs_def] pvs_def [abs_def])
  show "ring_find bnext P (Suc NBUF) (bnext (bufs s ! HEAD)) (bufs s) = Ok (find (\<lambda>i. P (bufs s ! i)) xs)"
    by (rule ring_find_ring [OF r1(1)]) (use r len in auto)
  show "ring_find bprev P (Suc NBUF) (bprev (bufs s ! HEAD)) (bufs s) = Ok (find (\<lambda>i. P (bufs s ! i)) (rev xs))"
    by (rule ring_find_ring [OF r1(2)]) (use r len in auto)
qed

lemma bget_cached:
  assumes "bio_inv me xs s" "has_block s n i" "refcnt (bufs s ! i) = 0"
  shows "bget me ROOTDEV n s = Ok (i, set_buf i (\<lambda>c. c\<lparr>block_lk := sl_taken me (block_lk c)\<rparr>)
    (set_buf i (\<lambda>c. c\<lparr>refcnt := refcnt c + 1\<rparr>) s))"
proof -
  have i: "i < NBUF" "i < length (bufs s)" "\<not> bc_lk s" "i \<in> set xs" "set xs = {..<NBUF}"
    using assms(1,2) by (auto simp: bio_inv_def has_block_def)
  have f: "find (\<lambda>i. bdev (bufs s ! i) = ROOTDEV \<and> blockno (bufs s ! i) = n) xs = Some i"
    by (rule find_unique) (use assms i bio_unique [OF assms(1)] in \<open>auto simp: has_block_def\<close>)
  have "buf_ok me (disk (ide s)) (bufs s ! i)" using assms(1) i by (simp add: bio_inv_def)
  then have "sl_free (block_lk (bufs s ! i))" using assms(3) by (simp add: buf_ok_def)
  then have a: "acquiresleep me (block_lk (bufs s ! i)) = Ok (sl_taken me (block_lk (bufs s ! i)))"
    by (rule acquiresleep_free)
  show ?thesis
    using i(2,3) f a
    by (simp add: bget_def bio_inv_find [OF assms(1)] Let_def buf_lock_def) (simp add: set_buf_def upd_buf_def bufs_def)
qed

lemma bget_miss:
  assumes "bio_inv me xs s" "\<And>i. \<not> has_block s n i"
    "i < NBUF" "refcnt (bufs s ! i) = 0" "flags (bufs s ! i) AND B_DIRTY = 0"
  shows "\<exists>b < NBUF. refcnt (bufs s ! b) = 0 \<and> flags (bufs s ! b) AND B_DIRTY = 0 \<and>
    bget me ROOTDEV n s = Ok (b, set_buf b (\<lambda>c. c\<lparr>block_lk := sl_taken me (block_lk c)\<rparr>)
      (set_buf b (\<lambda>c. c\<lparr>bdev := ROOTDEV, blockno := n, flags := 0, refcnt := 1\<rparr>) s))"
proof -
  have i: "\<not> bc_lk s" "set xs = {..<NBUF}" "length (bufs s) = Suc NBUF"
    using assms(1) by (auto simp: bio_inv_def)
  have f: "find (\<lambda>i. bdev (bufs s ! i) = ROOTDEV \<and> blockno (bufs s ! i) = n) xs = None"
    using assms(2) i(2) by (auto simp: find_None_iff has_block_def)
  have "find (\<lambda>i. refcnt (bufs s ! i) = 0 \<and> flags (bufs s ! i) AND B_DIRTY = 0) (rev xs) \<noteq> None"
    using assms(3-5) i(2) by (auto simp: find_None_iff)
  then obtain b where fb: "find (\<lambda>i. refcnt (bufs s ! i) = 0 \<and> flags (bufs s ! i) AND B_DIRTY = 0) (rev xs) = Some b"
    by blast
  then have b: "b \<in> set xs" "refcnt (bufs s ! b) = 0" "flags (bufs s ! b) AND B_DIRTY = 0"
    by (auto dest: find_SomeD)
  then have bl: "b < NBUF" "b < length (bufs s)" using i by auto
  have "buf_ok me (disk (ide s)) (bufs s ! b)" using assms(1) bl by (simp add: bio_inv_def)
  then have "sl_free (block_lk (bufs s ! b))" using b by (simp add: buf_ok_def)
  then have a: "acquiresleep me (block_lk (bufs s ! b)) = Ok (sl_taken me (block_lk (bufs s ! b)))"
    by (rule acquiresleep_free)
  have "bget me ROOTDEV n s = Ok (b, set_buf b (\<lambda>c. c\<lparr>block_lk := sl_taken me (block_lk c)\<rparr>)
      (set_buf b (\<lambda>c. c\<lparr>bdev := ROOTDEV, blockno := n, flags := 0, refcnt := 1\<rparr>) s))"
    using bl i f fb a
    by (simp add: bget_def bio_inv_find [OF assms(1)] Let_def buf_lock_def) (simp add: set_buf_def upd_buf_def bufs_def)
  then show ?thesis using b bl by blast
qed

text \<open>\<open>iderw\<close> on one buffer of the cache.\<close>

definition rw_flags :: "u32 \<Rightarrow> u32" where
  "rw_flags f = (f OR B_VALID) AND NOT B_DIRTY"

lemma rw_flags_simps [simp]: "rw_flags f AND B_VALID = B_VALID" "rw_flags f AND B_DIRTY = 0"
  by (simp_all add: rw_flags_def)

lemma bdrive_rootdev: "bdev b = ROOTDEV \<Longrightarrow> bdrive b = 1"
  by (simp add: bdrive_def ROOTDEV_def)

lemma bc_iderw_eq:
  assumes "\<not> idelk (ide s)" "idequeue (ide s) = None" "b < length (bufs s)" "\<not> ide_err (ide s)" "havedisk1 (ide s)"
    "flags (bufs s ! b) AND (B_VALID OR B_DIRTY) \<noteq> B_VALID"
    "blockno (bufs s ! b) < FSSIZE" "bdev (bufs s ! b) = ROOTDEV" "sl_held me (block_lk (bufs s ! b))"
  shows "\<exists>t. bc_iderw me b s = Ok t \<and> bc_lk t = bc_lk s \<and> \<not> idelk (ide t) \<and> idequeue (ide t) = None
    \<and> \<not> ide_err (ide t) \<and> havedisk1 (ide t) \<and> length (bufs t) = length (bufs s)
    \<and> dtrace (ide t) = dtrace (ide s) @ sent (bufs s ! b)
    \<and> (\<forall>m. disk (ide t) 1 m = (if flags (bufs s ! b) AND B_DIRTY \<noteq> 0 \<and> m = unat (blockno (bufs s ! b))
          then bdata (bufs s ! b) else disk (ide s) 1 m))
    \<and> (\<forall>k < length (bufs s). bnext (bufs t ! k) = bnext (bufs s ! k) \<and> bprev (bufs t ! k) = bprev (bufs s ! k)
        \<and> (k \<noteq> b \<longrightarrow> same_key (bufs t ! k) (bufs s ! k)))
    \<and> same_key (bufs t ! b) ((bufs s ! b)\<lparr>flags := rw_flags (flags (bufs s ! b)),
        bdata := (if flags (bufs s ! b) AND B_DIRTY \<noteq> 0 then bdata (bufs s ! b)
                  else disk (ide s) 1 (unat (blockno (bufs s ! b))))\<rparr>)"
proof -
  let ?d = "ide s"
  have "b < length (ibufs ?d)" "flags (ibufs ?d ! b) AND (B_VALID OR B_DIRTY) \<noteq> B_VALID"
    "blockno (ibufs ?d ! b) < FSSIZE" "bdev (ibufs ?d ! b) = 0 \<or> havedisk1 ?d" "sl_held me (block_lk (ibufs ?d ! b))"
    using assms by (simp_all add: bufs_def)
  from iderw_idle [OF assms(1,2) this(1) assms(4) this(2-5)] obtain t where
    t: "iderw me b ?d = Ok t" "\<not> idelk t" "idequeue t = None" "\<not> ide_err t" "havedisk1 t = havedisk1 ?d"
      "length (ibufs t) = length (ibufs ?d)"
      "disk t = (if flags (ibufs ?d ! b) AND B_DIRTY \<noteq> 0 then put_block (disk ?d) (ibufs ?d ! b) else disk ?d)"
      "dtrace t = dtrace ?d @ sent (ibufs ?d ! b)"
      "\<forall>k < length (ibufs ?d). (ibufs t ! k)\<lparr>qnext := None\<rparr> =
        (if k = b then (ibufs ?d ! b)\<lparr>qnext := None,
           bdata := (if flags (ibufs ?d ! b) AND B_DIRTY \<noteq> 0 then bdata (ibufs ?d ! b)
                     else disk ?d (bdrive (ibufs ?d ! b)) (bsect (ibufs ?d ! b))),
           flags := (flags (ibufs ?d ! b) OR B_VALID) AND NOT B_DIRTY\<rparr>
         else (ibufs ?d ! k)\<lparr>qnext := None\<rparr>)" by blast
  have dr: "bdrive (ibufs ?d ! b) = 1" "bsect (ibufs ?d ! b) = unat (blockno (ibufs ?d ! b))"
    using bdrive_rootdev assms(8) by (simp_all add: bufs_def bsect_def)
  have noq: "f (ibufs t ! k) = f ((ibufs t ! k)\<lparr>qnext := None\<rparr>)"
    if "\<And>c. f (c\<lparr>qnext := None\<rparr>) = f c" for f :: "buf \<Rightarrow> 'x" and k
    using that by simp
  have fields: "bnext (ibufs t ! k) = bnext (ibufs ?d ! k) \<and> bprev (ibufs t ! k) = bprev (ibufs ?d ! k)
      \<and> (k \<noteq> b \<longrightarrow> same_key (ibufs t ! k) (ibufs ?d ! k))" if "k < length (ibufs ?d)" for k
  proof -
    have e: "(ibufs t ! k)\<lparr>qnext := None\<rparr> =
        (if k = b then (ibufs ?d ! b)\<lparr>qnext := None,
           bdata := (if flags (ibufs ?d ! b) AND B_DIRTY \<noteq> 0 then bdata (ibufs ?d ! b)
                     else disk ?d (bdrive (ibufs ?d ! b)) (bsect (ibufs ?d ! b))),
           flags := (flags (ibufs ?d ! b) OR B_VALID) AND NOT B_DIRTY\<rparr>
         else (ibufs ?d ! k)\<lparr>qnext := None\<rparr>)" using t(9) that by blast
    have "bnext ((ibufs t ! k)\<lparr>qnext := None\<rparr>) = bnext (ibufs ?d ! k)"
      "bprev ((ibufs t ! k)\<lparr>qnext := None\<rparr>) = bprev (ibufs ?d ! k)"
      "k \<noteq> b \<Longrightarrow> same_key ((ibufs t ! k)\<lparr>qnext := None\<rparr>) (ibufs ?d ! k)"
      unfolding e by (simp_all add: same_key_def)
    then show ?thesis by (simp add: same_key_def)
  qed
  have self: "same_key (ibufs t ! b) ((ibufs ?d ! b)\<lparr>flags := rw_flags (flags (ibufs ?d ! b)),
        bdata := (if flags (ibufs ?d ! b) AND B_DIRTY \<noteq> 0 then bdata (ibufs ?d ! b)
                  else disk ?d 1 (unat (blockno (ibufs ?d ! b))))\<rparr>)"
  proof -
    have e: "(ibufs t ! b)\<lparr>qnext := None\<rparr> = (ibufs ?d ! b)\<lparr>qnext := None,
           bdata := (if flags (ibufs ?d ! b) AND B_DIRTY \<noteq> 0 then bdata (ibufs ?d ! b)
                     else disk ?d 1 (unat (blockno (ibufs ?d ! b)))),
           flags := (flags (ibufs ?d ! b) OR B_VALID) AND NOT B_DIRTY\<rparr>"
      using t(9) assms(3) dr by (simp add: bufs_def)
    have "same_key ((ibufs t ! b)\<lparr>qnext := None\<rparr>) ((ibufs ?d ! b)\<lparr>flags := rw_flags (flags (ibufs ?d ! b)),
        bdata := (if flags (ibufs ?d ! b) AND B_DIRTY \<noteq> 0 then bdata (ibufs ?d ! b)
                  else disk ?d 1 (unat (blockno (ibufs ?d ! b))))\<rparr>)"
      unfolding e by (simp add: same_key_def rw_flags_def)
    then show ?thesis by (simp add: same_key_def)
  qed
  have "bc_iderw me b s = Ok (s\<lparr>ide := t\<rparr>)" using t(1) by (simp add: bc_iderw_def)
  then show ?thesis
    using t(2-8) assms(5) fields self dr by (auto simp: bufs_def put_block_def)
qed

subsection \<open>The operations on the array of blocks\<close>

lemma bioD:
  assumes "bio me s V D H K W"
  obtains xs where "bio_inv me xs s" "V = view s" "D = (\<lambda>n. disk (ide s) 1 (unat n))"
    "H = {n. \<exists>i. holds s i n}" "K = {n. \<exists>i. has_block s n i \<and> flags (bufs s ! i) AND B_DIRTY \<noteq> 0}"
    "W = dtrace (ide s)"
  using assms by (auto simp: bio_def)

lemma bio_inv_links:
  assumes "bio_inv me xs s"
  shows "\<exists>xs. ring (nxs s) (pvs s) xs \<and> set xs = {..<NBUF}"
  using assms by (auto simp: bio_inv_def)

lemma links_cong:
  assumes "bio_inv me xs s" "length (bufs t) = length (bufs s)"
    "\<forall>k < length (bufs s). bnext (bufs t ! k) = bnext (bufs s ! k) \<and> bprev (bufs t ! k) = bprev (bufs s ! k)"
  shows "\<exists>xs. ring (nxs t) (pvs t) xs \<and> set xs = {..<NBUF}"
proof -
  have r: "ring (nxs s) (pvs s) xs" "set xs = {..<NBUF}" "length (bufs s) = Suc NBUF"
    using assms(1) by (simp_all add: bio_inv_def)
  have bl: "butlast (HEAD # xs @ [HEAD]) = HEAD # xs" by (simp add: butlast_append)
  have "a < length (bufs s)" if "a \<in> insert HEAD (set xs)" for a
    using that unfolding r(2,3) HEAD_def by auto
  note bound = this
  have "linked (nxs s) (pvs s) (HEAD # xs @ [HEAD]) = linked (nxs t) (pvs t) (HEAD # xs @ [HEAD])"
  proof (rule linked_cong)
    fix a assume "a \<in> set (butlast (HEAD # xs @ [HEAD]))"
    then have "a < length (bufs s)" unfolding bl by (intro bound) simp
    then show "nxs s a = nxs t a" using assms(3) by (simp add: nxs_def)
  next
    fix a assume "a \<in> set (tl (HEAD # xs @ [HEAD]))"
    then have "a < length (bufs s)" by (intro bound) auto
    then show "pvs s a = pvs t a" using assms(3) by (simp add: pvs_def)
  qed
  then have "ring (nxs t) (pvs t) xs" using r(1) by (simp add: ring_def)
  then show ?thesis using r(2) by blast
qed

lemma bio_trace: "bio me s V D H K W \<Longrightarrow> W = dtrace (ide s)"
  by (simp add: bio_def)

lemma bread_spec:
  assumes "bio me s V D H K W" "n < FSSIZE" "n \<notin> H" "n \<in> K \<or> card (H \<union> K) < NBUF"
  shows "\<exists>b t. bread me ROOTDEV n s = Ok (b, t) \<and> bio me t V D (insert n H) K W \<and> holds t b n
    \<and> (\<forall>k m. holds s k m \<longrightarrow> holds t k m)"
proof -
  obtain xs where inv: "bio_inv me xs s" and V: "V = view s" and D: "D = (\<lambda>n. disk (ide s) 1 (unat n))"
    and H: "H = {n. \<exists>i. holds s i n}" and K: "K = {n. \<exists>i. has_block s n i \<and> flags (bufs s ! i) AND B_DIRTY \<noteq> 0}"
    using bioD [OF assms(1)] .
  have st: "\<not> bc_lk s" "\<not> idelk (ide s)" "idequeue (ide s) = None" "havedisk1 (ide s)" "\<not> ide_err (ide s)"
    "length (bufs s) = Suc NBUF" using inv by (simp_all add: bio_inv_def)
  have ok: "i < NBUF \<Longrightarrow> buf_ok me (disk (ide s)) (bufs s ! i)" for i using inv by (simp add: bio_inv_def)
  show ?thesis
  proof (cases "\<exists>i. has_block s n i")
    case True
    then obtain i where i: "has_block s n i" by blast
    then have r0: "refcnt (bufs s ! i) = 0" using assms(3) H by (auto simp: holds_def)
    have il: "i < NBUF" "bdev (bufs s ! i) = ROOTDEV" "blockno (bufs s ! i) = n" using i by (simp_all add: has_block_def)
    let ?t = "set_buf i (\<lambda>c. c\<lparr>block_lk := sl_taken me (block_lk c)\<rparr>) (set_buf i (\<lambda>c. c\<lparr>refcnt := refcnt c + 1\<rparr>) s)"
    have bt: "bufs ?t ! i = (bufs s ! i)\<lparr>refcnt := 1, block_lk := sl_taken me (block_lk (bufs s ! i))\<rparr>"
      using il st r0 by simp
    have oi: "flags (bufs s ! i) AND B_VALID \<noteq> 0" "sl_free (block_lk (bufs s ! i))"
      using ok [OF il(1)] r0 il(2) by (simp_all add: buf_ok_def ROOTDEV_def)
    have ch: "changed me i s ?t"
      unfolding changed_def
    proof (intro conjI)
      show "\<exists>xs. ring (nxs ?t) (pvs ?t) xs \<and> set xs = {..<NBUF}"
        using bio_inv_links [OF inv] by (simp add: links_set_buf)
      show "buf_ok me (disk (ide ?t)) (bufs ?t ! i)"
        unfolding bt using ok [OF il(1)] oi il by (auto simp: buf_ok_def ROOTDEV_def)
      show "\<forall>k. k \<noteq> i \<longrightarrow> \<not> has_block s (blockno (bufs ?t ! i)) k"
        unfolding bt using bio_unique [OF inv i] il by auto
    qed (use il st in \<open>auto simp: same_key_def\<close>)
    have "bio me ?t (V(n := bdata (bufs ?t ! i))) (D(n := disk (ide ?t) 1 (unat n)))
      (if refcnt (bufs ?t ! i) = 0 then H - {n} else insert n H)
      (if flags (bufs ?t ! i) AND B_DIRTY = 0 then K - {n} else insert n K) (dtrace (ide ?t))"
      using il bt by (intro bio_changed [OF ch assms(1)]) auto
    moreover have "V n = bdata (bufs ?t ! i)" unfolding V bt using bio_view [OF inv i] by simp
    then have "V(n := bdata (bufs ?t ! i)) = V" by (rule fun_upd_idem)
    moreover have "D(n := disk (ide ?t) 1 (unat n)) = D"
      by (rule fun_upd_idem) (simp add: D)
    moreover have "(if flags (bufs ?t ! i) AND B_DIRTY = 0 then K - {n} else insert n K) = K"
    proof -
      have "n \<in> K \<longleftrightarrow> flags (bufs s ! i) AND B_DIRTY \<noteq> 0"
        unfolding K using i bio_unique [OF inv i] by blast
      moreover have "flags (bufs ?t ! i) = flags (bufs s ! i)" unfolding bt by simp
      ultimately show ?thesis by (simp add: insert_absorb)
    qed
    ultimately have "bio me ?t V D (insert n H) K W" using bt by (simp add: bio_trace [OF assms(1)])
    moreover have "bread me ROOTDEV n s = Ok (i, ?t)"
      using bget_cached [OF inv i r0] bt oi by (simp add: bread_def)
    moreover have "holds ?t i n" using changed_holds_self [OF ch] bt il by simp
    moreover have "holds s k m \<longrightarrow> holds ?t k m" for k m
      using changed_holds [OF ch, of k m] r0 by (cases "k = i") (auto simp: holds_def)
    ultimately show ?thesis by blast
  next
    case False
    then have nob: "\<not> has_block s n i" for i by blast
    have "\<exists>i < NBUF. refcnt (bufs s ! i) = 0 \<and> flags (bufs s ! i) AND B_DIRTY = 0"
    proof (rule ccontr)
      assume "\<not> (\<exists>i < NBUF. refcnt (bufs s ! i) = 0 \<and> flags (bufs s ! i) AND B_DIRTY = 0)"
      then have busy: "refcnt (bufs s ! i) \<noteq> 0 \<or> flags (bufs s ! i) AND B_DIRTY \<noteq> 0" if "i < NBUF" for i
        using that by blast
      have root: "has_block s (blockno (bufs s ! i)) i" if "i < NBUF" for i
      proof -
        have "bdev (bufs s ! i) = ROOTDEV"
        proof (rule ccontr)
          assume "bdev (bufs s ! i) \<noteq> ROOTDEV"
          then have "refcnt (bufs s ! i) = 0" "flags (bufs s ! i) = 0"
            using ok [OF that] by (simp_all add: buf_ok_def)
          then show False using busy [OF that] by simp
        qed
        then show ?thesis using that by (simp add: has_block_def)
      qed
      have "inj_on (\<lambda>i. blockno (bufs s ! i)) {..<NBUF}"
      proof (rule inj_onI)
        fix i j assume ij: "i \<in> {..<NBUF}" "j \<in> {..<NBUF}" "blockno (bufs s ! i) = blockno (bufs s ! j)"
        then have "has_block s (blockno (bufs s ! i)) i" "has_block s (blockno (bufs s ! i)) j"
          using root [of i] root [of j] by simp_all
        then show "i = j" by (rule bio_unique [OF inv])
      qed
      then have "card ((\<lambda>i. blockno (bufs s ! i)) ` {..<NBUF}) = NBUF" by (simp add: card_image)
      moreover have "(\<lambda>i. blockno (bufs s ! i)) ` {..<NBUF} \<subseteq> H \<union> K"
        using root busy unfolding H K holds_def by blast
      moreover have "finite (H \<union> K)"
      proof (rule finite_subset)
        show "H \<union> K \<subseteq> (\<lambda>i. blockno (bufs s ! i)) ` {..<NBUF}"
          unfolding H K holds_def has_block_def by auto
      qed simp
      ultimately have "NBUF \<le> card (H \<union> K)" by (metis card_mono)
      moreover have "n \<notin> K" using nob unfolding K by blast
      ultimately show False using assms(4) by simp
    qed
    then obtain i where "i < NBUF" "refcnt (bufs s ! i) = 0" "flags (bufs s ! i) AND B_DIRTY = 0" by blast
    from bget_miss [OF inv nob this] obtain b where
      b: "b < NBUF" "refcnt (bufs s ! b) = 0" "flags (bufs s ! b) AND B_DIRTY = 0"
        "bget me ROOTDEV n s = Ok (b, set_buf b (\<lambda>c. c\<lparr>block_lk := sl_taken me (block_lk c)\<rparr>)
          (set_buf b (\<lambda>c. c\<lparr>bdev := ROOTDEV, blockno := n, flags := 0, refcnt := 1\<rparr>) s))" by blast
    define u where "u = set_buf b (\<lambda>c. c\<lparr>block_lk := sl_taken me (block_lk c)\<rparr>)
          (set_buf b (\<lambda>c. c\<lparr>bdev := ROOTDEV, blockno := n, flags := 0, refcnt := 1\<rparr>) s)"
    have bu: "bufs u = (bufs s)[b := (bufs s ! b)\<lparr>bdev := ROOTDEV, blockno := n, flags := 0, refcnt := 1,
        block_lk := sl_taken me (block_lk (bufs s ! b))\<rparr>]"
      using b st by (simp add: u_def)
    have fr: "sl_free (block_lk (bufs s ! b))" using ok [OF b(1)] b(2) by (simp add: buf_ok_def)
    have ust: "bc_lk u = bc_lk s" "idelk (ide u) = idelk (ide s)" "idequeue (ide u) = idequeue (ide s)"
      "havedisk1 (ide u) = havedisk1 (ide s)" "ide_err (ide u) = ide_err (ide s)" "disk (ide u) = disk (ide s)"
      "dtrace (ide u) = dtrace (ide s)"
      by (simp_all add: u_def)
    have ub: "bufs u ! b = (bufs s ! b)\<lparr>bdev := ROOTDEV, blockno := n, flags := 0, refcnt := 1,
        block_lk := sl_taken me (block_lk (bufs s ! b))\<rparr>" using bu b st by simp
    have "\<exists>t. bc_iderw me b u = Ok t \<and> bc_lk t = bc_lk u \<and> \<not> idelk (ide t) \<and> idequeue (ide t) = None
      \<and> \<not> ide_err (ide t) \<and> havedisk1 (ide t) \<and> length (bufs t) = length (bufs u)
      \<and> dtrace (ide t) = dtrace (ide u) @ sent (bufs u ! b)
      \<and> (\<forall>m. disk (ide t) 1 m = (if flags (bufs u ! b) AND B_DIRTY \<noteq> 0 \<and> m = unat (blockno (bufs u ! b))
          then bdata (bufs u ! b) else disk (ide u) 1 m))
      \<and> (\<forall>k < length (bufs u). bnext (bufs t ! k) = bnext (bufs u ! k) \<and> bprev (bufs t ! k) = bprev (bufs u ! k)
        \<and> (k \<noteq> b \<longrightarrow> same_key (bufs t ! k) (bufs u ! k)))
      \<and> same_key (bufs t ! b) ((bufs u ! b)\<lparr>flags := rw_flags (flags (bufs u ! b)),
        bdata := (if flags (bufs u ! b) AND B_DIRTY \<noteq> 0 then bdata (bufs u ! b)
                  else disk (ide u) 1 (unat (blockno (bufs u ! b))))\<rparr>)"
      by (rule bc_iderw_eq) (use ust st bu b fr assms(2) in \<open>auto simp: flags_valid_clean\<close>)
    then obtain t where t: "bc_iderw me b u = Ok t" "bc_lk t = bc_lk u" "\<not> idelk (ide t)" "idequeue (ide t) = None"
      "\<not> ide_err (ide t)" "havedisk1 (ide t)" "length (bufs t) = length (bufs u)"
      "dtrace (ide t) = dtrace (ide s)" "\<forall>m. disk (ide t) 1 m = disk (ide s) 1 m"
      "\<forall>k < length (bufs u). bnext (bufs t ! k) = bnext (bufs u ! k) \<and> bprev (bufs t ! k) = bprev (bufs u ! k)
        \<and> (k \<noteq> b \<longrightarrow> same_key (bufs t ! k) (bufs u ! k))"
      "same_key (bufs t ! b) ((bufs u ! b)\<lparr>flags := rw_flags 0, bdata := disk (ide s) 1 (unat n)\<rparr>)"
      unfolding ub ust by (auto simp: sent_def)
    have lu: "length (bufs u) = Suc NBUF" using bu st by simp
    have key: "flags (bufs t ! b) = rw_flags 0" "bdev (bufs t ! b) = ROOTDEV" "blockno (bufs t ! b) = n"
      "refcnt (bufs t ! b) = 1" "block_lk (bufs t ! b) = sl_taken me (block_lk (bufs s ! b))"
      "bdata (bufs t ! b) = disk (ide s) 1 (unat n)"
      using t(11) unfolding ub by (simp_all add: same_key_def)
    have ch: "changed me b s t"
      unfolding changed_def
    proof (intro conjI)
      have "bnext (bufs t ! k) = bnext (bufs s ! k) \<and> bprev (bufs t ! k) = bprev (bufs s ! k)" if "k < Suc NBUF" for k
        using t(10) that lu bu b st by (cases "k = b") (auto simp: nth_list_update)
      then show "\<exists>xs. ring (nxs t) (pvs t) xs \<and> set xs = {..<NBUF}"
        using links_cong [OF inv, of t] t(7) lu st(6) by simp
      show "buf_ok me (disk (ide t)) (bufs t ! b)"
        using key fr assms(2) by (simp add: buf_ok_def)
      show "\<forall>k < NBUF. k \<noteq> b \<longrightarrow> same_key (bufs t ! k) (bufs s ! k)"
      proof (intro allI impI)
        fix k assume k: "k < NBUF" "k \<noteq> b"
        then have "same_key (bufs t ! k) (bufs u ! k)" using t(10) lu by simp
        moreover have "bufs u ! k = bufs s ! k" using bu k by simp
        ultimately show "same_key (bufs t ! k) (bufs s ! k)" by simp
      qed
    qed (use b t st lu ust nob key in auto)
    have bk: "bdev (bufs s ! b) = ROOTDEV \<longrightarrow> blockno (bufs s ! b) \<noteq> n \<longrightarrow>
        refcnt (bufs s ! b) = 0 \<and> flags (bufs s ! b) AND B_DIRTY = 0" using b by simp
    have "bio me t (V(n := bdata (bufs t ! b))) (D(n := disk (ide t) 1 (unat n)))
      (if refcnt (bufs t ! b) = 0 then H - {n} else insert n H)
      (if flags (bufs t ! b) AND B_DIRTY = 0 then K - {n} else insert n K) (dtrace (ide t))"
      by (rule bio_changed [OF ch assms(1) key(3) [symmetric] bk])
    moreover have "V(n := bdata (bufs t ! b)) = V"
      by (rule fun_upd_idem) (simp add: V view_no_block [OF nob] key(6))
    moreover have "D(n := disk (ide t) 1 (unat n)) = D"
      by (rule fun_upd_idem) (simp only: D t(9) simp_thms)
    moreover have "n \<notin> K" using nob unfolding K by blast
    ultimately have "bio me t V D (insert n H) K W" using key t(8) by (simp add: bio_trace [OF assms(1)])
    moreover have "bread me ROOTDEV n s = Ok (b, t)"
      using b(4) t(1) ub unfolding u_def [symmetric] by (simp add: bread_def)
    moreover have "holds t b n" using changed_holds_self [OF ch] key by simp
    moreover have "holds s k m \<longrightarrow> holds t k m" for k m
      using changed_holds [OF ch, of k m] b(2) by (cases "k = b") (auto simp: holds_def)
    ultimately show ?thesis by blast
  qed
qed

lemma bio_holdsD:
  assumes "bio_inv me xs s" "holds s b n"
  shows "b < NBUF" "bdev (bufs s ! b) = ROOTDEV" "blockno (bufs s ! b) = n" "refcnt (bufs s ! b) = 1"
    "sl_held me (block_lk (bufs s ! b))" "n < FSSIZE" "flags (bufs s ! b) AND B_VALID \<noteq> 0"
    "k \<noteq> b \<longrightarrow> \<not> has_block s n k" "length (bufs s) = Suc NBUF"
proof -
  have h: "b < NBUF" "bdev (bufs s ! b) = ROOTDEV" "blockno (bufs s ! b) = n" "refcnt (bufs s ! b) \<noteq> 0"
    using assms(2) by (simp_all add: holds_def has_block_def)
  have "buf_ok me (disk (ide s)) (bufs s ! b)" using assms(1) h by (simp add: bio_inv_def)
  then show "b < NBUF" "bdev (bufs s ! b) = ROOTDEV" "blockno (bufs s ! b) = n" "refcnt (bufs s ! b) = 1"
    "sl_held me (block_lk (bufs s ! b))" "n < FSSIZE" "flags (bufs s ! b) AND B_VALID \<noteq> 0"
    using h by (simp_all add: buf_ok_def ROOTDEV_def)
  show "k \<noteq> b \<longrightarrow> \<not> has_block s n k"
    using bio_unique [OF assms(1)] assms(2) by (auto simp: holds_def)
  show "length (bufs s) = Suc NBUF" using assms(1) by (simp add: bio_inv_def)
qed

lemma held_data:
  assumes "bio me s V D H K W" "holds s b n"
  shows "bdata (bufs s ! b) = V n" "n \<in> H"
proof -
  obtain xs where inv: "bio_inv me xs s" "V = view s" "H = {n. \<exists>i. holds s i n}" using bioD [OF assms(1)] .
  show "bdata (bufs s ! b) = V n" using bio_view [OF inv(1), of n b] assms(2) inv(2) by (simp add: holds_def)
  show "n \<in> H" using inv(3) assms(2) by blast
qed

text \<open>A change of the contents or flags of one held buffer.\<close>

lemma changed_in_place:
  assumes "bio_inv me xs s" "holds s b n" "\<And>c. bnext (f c) = bnext c" "\<And>c. bprev (f c) = bprev c"
    "\<And>c. bdev (f c) = bdev c" "\<And>c. blockno (f c) = blockno c" "\<And>c. refcnt (f c) = refcnt c"
    "\<And>c. block_lk (f c) = block_lk c" "flags (f (bufs s ! b)) AND B_VALID \<noteq> 0"
  shows "changed me b s (set_buf b f s)" "holds (set_buf b f s) k m = holds s k m"
proof -
  note h = bio_holdsD [OF assms(1,2)]
  have bt: "bufs (set_buf b f s) ! b = f (bufs s ! b)" using h by simp
  show ch: "changed me b s (set_buf b f s)"
    unfolding changed_def
  proof (intro conjI)
    show "\<exists>xs. ring (nxs (set_buf b f s)) (pvs (set_buf b f s)) xs \<and> set xs = {..<NBUF}"
      using bio_inv_links [OF assms(1)] by (simp add: links_set_buf assms(3,4))
    show "buf_ok me (disk (ide (set_buf b f s))) (bufs (set_buf b f s) ! b)"
      unfolding bt using h assms(5-9) by (simp add: buf_ok_def)
    show "\<forall>k. k \<noteq> b \<longrightarrow> \<not> has_block s (blockno (bufs (set_buf b f s) ! b)) k"
      unfolding bt assms(6) h(3) using bio_holdsD(8) [OF assms(1,2)] by blast
    show "bdev (bufs (set_buf b f s) ! b) = ROOTDEV" unfolding bt assms(5) by (rule h(2))
  qed (use assms(1) h in \<open>simp_all add: bio_inv_def same_key_def\<close>)
  show "holds (set_buf b f s) k m = holds s k m"
  proof (cases "k = b")
    case True
    have "holds (set_buf b f s) b m \<longleftrightarrow> m = n"
      using changed_holds_self [OF ch] bt assms(6,7) h by simp
    moreover have "holds s b m \<longleftrightarrow> m = n"
      using assms(2) by (auto simp: holds_def has_block_def)
    ultimately show ?thesis using True by simp
  qed (rule changed_holds [OF ch])
qed

lemma put_data_spec:
  assumes "bio me s V D H K W" "holds s b n"
  shows "bio me (put_data b d s) (V(n := d)) D H K W" "holds (put_data b d s) k m = holds s k m"
proof -
  obtain xs where inv: "bio_inv me xs s" and D: "D = (\<lambda>n. disk (ide s) 1 (unat n))"
    and K: "K = {n. \<exists>i. has_block s n i \<and> flags (bufs s ! i) AND B_DIRTY \<noteq> 0}" using bioD [OF assms(1)] .
  note h = bio_holdsD [OF inv assms(2)]
  have bt: "bufs (put_data b d s) ! b = (bufs s ! b)\<lparr>bdata := d\<rparr>" using h by (simp add: put_data_def)
  have ch: "changed me b s (put_data b d s)"
    unfolding put_data_def by (rule changed_in_place [OF inv assms(2)]) (use h in simp_all)
  show "holds (put_data b d s) k m = holds s k m"
    unfolding put_data_def by (rule changed_in_place(2) [OF inv assms(2)]) (use h in simp_all)
  have nK: "n \<in> K \<longleftrightarrow> flags (bufs s ! b) AND B_DIRTY \<noteq> 0"
    unfolding K using assms(2) bio_unique [OF inv] by (auto simp: holds_def)
  have "bio me (put_data b d s) (V(n := bdata (bufs (put_data b d s) ! b)))
    (D(n := disk (ide (put_data b d s)) 1 (unat n)))
    (if refcnt (bufs (put_data b d s) ! b) = 0 then H - {n} else insert n H)
    (if flags (bufs (put_data b d s) ! b) AND B_DIRTY = 0 then K - {n} else insert n K) (dtrace (ide (put_data b d s)))"
    by (rule bio_changed [OF ch assms(1)]) (use h bt in simp_all)
  moreover have "D(n := disk (ide (put_data b d s)) 1 (unat n)) = D"
    by (rule fun_upd_idem) (simp add: D put_data_def)
  moreover have "(if flags (bufs s ! b) AND B_DIRTY = 0 then K - {n} else insert n K) = K"
    using nK by (auto simp: insert_absorb)
  moreover have "dtrace (ide (put_data b d s)) = W"
    unfolding bio_trace [OF assms(1)] by (simp add: put_data_def)
  ultimately show "bio me (put_data b d s) (V(n := d)) D H K W"
    using bt h held_data(2) [OF assms] by (simp add: insert_absorb)
qed

text \<open>\<open>log_write\<close> pins a buffer by marking it dirty.\<close>

definition pin_buf :: "nat \<Rightarrow> bcache \<Rightarrow> bcache" where
  "pin_buf b s = set_buf b (\<lambda>c. c\<lparr>flags := flags c OR B_DIRTY\<rparr>) s"

lemma pin_buf_spec:
  assumes "bio me s V D H K W" "holds s b n"
  shows "bio me (pin_buf b s) V D H (insert n K) W" "holds (pin_buf b s) k m = holds s k m"
proof -
  obtain xs where inv: "bio_inv me xs s" and D: "D = (\<lambda>n. disk (ide s) 1 (unat n))" using bioD [OF assms(1)] .
  note h = bio_holdsD [OF inv assms(2)]
  have bt: "bufs (pin_buf b s) ! b = (bufs s ! b)\<lparr>flags := flags (bufs s ! b) OR B_DIRTY\<rparr>"
    using h by (simp add: pin_buf_def)
  have ch: "changed me b s (pin_buf b s)"
    unfolding pin_buf_def by (rule changed_in_place [OF inv assms(2)]) (use h in simp_all)
  show "holds (pin_buf b s) k m = holds s k m"
    unfolding pin_buf_def by (rule changed_in_place(2) [OF inv assms(2)]) (use h in simp_all)
  have "bio me (pin_buf b s) (V(n := bdata (bufs (pin_buf b s) ! b)))
    (D(n := disk (ide (pin_buf b s)) 1 (unat n)))
    (if refcnt (bufs (pin_buf b s) ! b) = 0 then H - {n} else insert n H)
    (if flags (bufs (pin_buf b s) ! b) AND B_DIRTY = 0 then K - {n} else insert n K) (dtrace (ide (pin_buf b s)))"
    by (rule bio_changed [OF ch assms(1)]) (use h bt in simp_all)
  moreover have "D(n := disk (ide (pin_buf b s)) 1 (unat n)) = D"
    by (rule fun_upd_idem) (simp add: D pin_buf_def)
  moreover have "V(n := bdata (bufs (pin_buf b s) ! b)) = V"
    by (rule fun_upd_idem) (simp add: bt held_data(1) [OF assms])
  moreover have "dtrace (ide (pin_buf b s)) = W"
    unfolding bio_trace [OF assms(1)] by (simp add: pin_buf_def)
  ultimately show "bio me (pin_buf b s) V D H (insert n K) W"
    using bt h held_data(2) [OF assms] by (simp add: insert_absorb)
qed

lemma bwrite_spec:
  assumes "bio me s V D H K W" "holds s b n"
  shows "\<exists>t. bwrite me b s = Ok t \<and> bio me t V (D(n := V n)) H (K - {n}) (W @ [(1, unat n, V n)]) \<and> (\<forall>k m. holds t k m = holds s k m)"
proof -
  obtain xs where inv: "bio_inv me xs s" and D: "D = (\<lambda>n. disk (ide s) 1 (unat n))" using bioD [OF assms(1)] .
  note h = bio_holdsD [OF inv assms(2)]
  have pin: "bio me (pin_buf b s) V D H (insert n K) W" "\<And>k m. holds (pin_buf b s) k m = holds s k m"
    using pin_buf_spec [OF assms] by blast+
  let ?u = "pin_buf b s"
  obtain ys where uinv: "bio_inv me ys ?u" using bioD [OF pin(1)] .
  have hu: "holds ?u b n" using pin(2) assms(2) by simp
  note hh = bio_holdsD [OF uinv hu]
  have bu: "flags (bufs ?u ! b) AND B_DIRTY \<noteq> 0" "flags (bufs ?u ! b) AND (B_VALID OR B_DIRTY) \<noteq> B_VALID"
    using h by (simp_all add: pin_buf_def)
  have st: "\<not> bc_lk ?u" "\<not> idelk (ide ?u)" "idequeue (ide ?u) = None" "havedisk1 (ide ?u)" "\<not> ide_err (ide ?u)"
    "length (bufs ?u) = Suc NBUF" using uinv by (simp_all add: bio_inv_def)
  have "b < length (bufs ?u)" "blockno (bufs ?u ! b) < FSSIZE" using hh st by simp_all
  from bc_iderw_eq [OF st(2,3) this(1) st(5,4) bu(2) this(2) hh(2,5)] obtain t where
    t: "bc_iderw me b ?u = Ok t" "bc_lk t = bc_lk ?u" "\<not> idelk (ide t)" "idequeue (ide t) = None"
      "\<not> ide_err (ide t)" "havedisk1 (ide t)" "length (bufs t) = length (bufs ?u)"
      "dtrace (ide t) = dtrace (ide ?u) @ sent (bufs ?u ! b)"
      "\<And>m. disk (ide t) 1 m = (if m = unat n then bdata (bufs ?u ! b) else disk (ide ?u) 1 m)"
      "\<forall>k < length (bufs ?u). bnext (bufs t ! k) = bnext (bufs ?u ! k) \<and> bprev (bufs t ! k) = bprev (bufs ?u ! k)
        \<and> (k \<noteq> b \<longrightarrow> same_key (bufs t ! k) (bufs ?u ! k))"
      "same_key (bufs t ! b) ((bufs ?u ! b)\<lparr>flags := rw_flags (flags (bufs ?u ! b)), bdata := bdata (bufs ?u ! b)\<rparr>)"
    using bu(1) unfolding hh(3) by auto
  have key: "flags (bufs t ! b) = rw_flags (flags (bufs ?u ! b))" "bdev (bufs t ! b) = ROOTDEV" "blockno (bufs t ! b) = n"
    "refcnt (bufs t ! b) = 1" "block_lk (bufs t ! b) = block_lk (bufs ?u ! b)" "bdata (bufs t ! b) = bdata (bufs ?u ! b)"
    using t(11) hh by (simp_all add: same_key_def)
  have dn: "disk (ide t) 1 (unat n) = V n" using t(9) held_data(1) [OF pin(1) hu] by simp
  have ch: "changed me b ?u t"
    unfolding changed_def
  proof (intro conjI)
    show "\<exists>xs. ring (nxs t) (pvs t) xs \<and> set xs = {..<NBUF}"
      using links_cong [OF uinv, of t] t(7,10) by blast
    show "buf_ok me (disk (ide t)) (bufs t ! b)"
      using key hh by (simp add: buf_ok_def)
    show "\<forall>k. k \<noteq> b \<longrightarrow> \<not> has_block ?u (blockno (bufs t ! b)) k"
      unfolding key(3) using bio_holdsD(8) [OF uinv hu] by blast
    show "\<forall>m. m \<noteq> unat (blockno (bufs t ! b)) \<longrightarrow> disk (ide t) 1 m = disk (ide ?u) 1 m"
      unfolding key(3) t(9) by simp
  qed (use t st hh key in simp_all)
  have "bio me t (V(n := bdata (bufs t ! b))) (D(n := disk (ide t) 1 (unat n)))
    (if refcnt (bufs t ! b) = 0 then H - {n} else insert n H)
    (if flags (bufs t ! b) AND B_DIRTY = 0 then insert n K - {n} else insert n (insert n K)) (dtrace (ide t))"
    by (rule bio_changed [OF ch pin(1)]) (use hh key in simp_all)
  moreover have "V(n := bdata (bufs t ! b)) = V"
    by (rule fun_upd_idem) (simp add: key(6) held_data(1) [OF pin(1) hu])
  moreover have "dtrace (ide t) = W @ [(1, unat n, V n)]"
    using t(8) bu(1) hh held_data(1) [OF pin(1) hu] bio_trace [OF pin(1)]
    by (simp add: sent_def bdrive_rootdev bsect_def)
  ultimately have "bio me t V (D(n := V n)) H (K - {n}) (W @ [(1, unat n, V n)])"
    using key held_data(2) [OF assms] unfolding dn by (simp add: insert_absorb)
  moreover have "bwrite me b s = Ok t"
    using t(1) h by (simp add: bwrite_def holdingsleep_eq pin_buf_def)
  moreover have "holds t k m = holds s k m" for k m
  proof (cases "k = b")
    case True
    then show ?thesis using changed_holds_self [OF ch, of m] key assms(2) by (auto simp: holds_def has_block_def)
  next
    case False
    then show ?thesis using changed_holds [OF ch False] pin(2) by simp
  qed
  ultimately show ?thesis by blast
qed

lemma ring_push_links:
  assumes "b < NBUF" "length (bufs s) = Suc NBUF" "nxs s HEAD < Suc NBUF" "nxs s HEAD \<noteq> b"
  shows "nxs (ring_push b s) = (nxs s)(b := nxs s HEAD, HEAD := b)"
    "pvs (ring_push b s) = (pvs s)(b := HEAD, nxs s HEAD := b)"
    "bc_lk (ring_push b s) = bc_lk s" "length (bufs (ring_push b s)) = length (bufs s)"
    "same_key (bufs (ring_push b s) ! k) (bufs s ! k)"
    "disk (ide (ring_push b s)) = disk (ide s)" "idelk (ide (ring_push b s)) = idelk (ide s)"
    "idequeue (ide (ring_push b s)) = idequeue (ide s)" "havedisk1 (ide (ring_push b s)) = havedisk1 (ide s)"
    "ide_err (ide (ring_push b s)) = ide_err (ide s)"
proof -
  let ?w = "bnext (bufs s ! HEAD)"
  have b: "b \<noteq> HEAD" "HEAD < length (bufs s)" "b < length (bufs s)" "?w < length (bufs s)" "?w \<noteq> b"
    using assms by (simp_all add: HEAD_def nxs_def)
  have bf: "bufs (ring_push b s) = (bufs s)[b := (bufs s ! b)\<lparr>bnext := ?w, bprev := HEAD\<rparr>,
     ?w := (bufs s ! ?w)\<lparr>bprev := b\<rparr>,
     HEAD := ((bufs s)[?w := (bufs s ! ?w)\<lparr>bprev := b\<rparr>] ! HEAD)\<lparr>bnext := b\<rparr>]"
    using b by (simp add: ring_push_def Let_def nth_list_update)
  show "nxs (ring_push b s) = (nxs s)(b := nxs s HEAD, HEAD := b)"
    unfolding nxs_def bf using b by (auto simp: fun_eq_iff nth_list_update)
  show "pvs (ring_push b s) = (pvs s)(b := HEAD, nxs s HEAD := b)"
    unfolding nxs_def pvs_def bf using b by (auto simp: fun_eq_iff nth_list_update)
  show "same_key (bufs (ring_push b s) ! k) (bufs s ! k)"
    unfolding bf using b by (auto simp: same_key_def nth_list_update)
qed (simp_all add: ring_push_def Let_def)

lemma ring_unlink_links:
  assumes "b < NBUF" "length (bufs s) = Suc NBUF" "nxs s b < Suc NBUF" "pvs s b < Suc NBUF" "nxs s b \<noteq> b"
  shows "nxs (ring_unlink b s) = (nxs s)(pvs s b := nxs s b)"
    "pvs (ring_unlink b s) = (pvs s)(nxs s b := pvs s b)"
    "bc_lk (ring_unlink b s) = bc_lk s" "length (bufs (ring_unlink b s)) = length (bufs s)"
    "same_key (bufs (ring_unlink b s) ! k) (bufs s ! k)"
    "disk (ide (ring_unlink b s)) = disk (ide s)" "idelk (ide (ring_unlink b s)) = idelk (ide s)"
    "idequeue (ide (ring_unlink b s)) = idequeue (ide s)" "havedisk1 (ide (ring_unlink b s)) = havedisk1 (ide s)"
    "ide_err (ide (ring_unlink b s)) = ide_err (ide s)"
proof -
  let ?n = "bnext (bufs s ! b)" and ?p = "bprev (bufs s ! b)"
  have b: "b < length (bufs s)" "?n < length (bufs s)" "?p < length (bufs s)" "?n \<noteq> b"
    using assms by (simp_all add: nxs_def pvs_def)
  have bf: "bufs (ring_unlink b s) = (bufs s)[?n := (bufs s ! ?n)\<lparr>bprev := ?p\<rparr>,
     ?p := ((bufs s)[?n := (bufs s ! ?n)\<lparr>bprev := ?p\<rparr>] ! ?p)\<lparr>bnext := ?n\<rparr>]"
    using b by (simp add: ring_unlink_def Let_def)
  show "nxs (ring_unlink b s) = (nxs s)(pvs s b := nxs s b)"
    unfolding nxs_def pvs_def bf using b by (auto simp: fun_eq_iff nth_list_update)
  show "pvs (ring_unlink b s) = (pvs s)(nxs s b := pvs s b)"
    unfolding nxs_def pvs_def bf using b by (auto simp: fun_eq_iff nth_list_update)
  show "same_key (bufs (ring_unlink b s) ! k) (bufs s ! k)"
    unfolding bf using b by (auto simp: same_key_def nth_list_update)
qed (simp_all add: ring_unlink_def Let_def)

text \<open>Moving a buffer to the front of the ring.\<close>

lemma ring_neighbours:
  assumes "ring nx pv (ys @ b # zs)"
  shows "nx b \<in> insert HEAD (set zs)" "pv b \<in> insert HEAD (set ys)" "nx HEAD \<in> insert HEAD (set (ys @ b # zs))"
proof -
  have r: "linked nx pv ((HEAD # ys) @ b # zs @ [HEAD])" using assms by (simp add: ring_def)
  then have "linked nx pv (b # zs @ [HEAD])" "linked nx pv ((HEAD # ys) @ [b])"
    using linked_append [of nx pv "HEAD # ys" b "zs @ [HEAD]"] by blast+
  then show "nx b \<in> insert HEAD (set zs)"
    by (cases zs) auto
  obtain ps p where ps: "HEAD # ys = ps @ [p]" by (metis list.distinct(1) rev_exhaust)
  have "linked nx pv (ps @ p # [b])" using \<open>linked nx pv ((HEAD # ys) @ [b])\<close> unfolding ps by simp
  then have "pv b = p" using linked_append [of nx pv ps p "[b]"] by simp
  moreover have "p \<in> set (HEAD # ys)" unfolding ps by simp
  ultimately show "pv b \<in> insert HEAD (set ys)" by simp
  show "nx HEAD \<in> insert HEAD (set (ys @ b # zs))"
    using r by (cases ys) auto
qed

lemma ring_move_front:
  assumes "ring (nxs s) (pvs s) xs" "set xs = {..<NBUF}" "b < NBUF" "length (bufs s) = Suc NBUF"
  shows "\<exists>ys. ring (nxs (ring_push b (ring_unlink b s))) (pvs (ring_push b (ring_unlink b s))) (b # ys)
    \<and> set (b # ys) = {..<NBUF}"
    "bc_lk (ring_push b (ring_unlink b s)) = bc_lk s"
    "length (bufs (ring_push b (ring_unlink b s))) = length (bufs s)"
    "same_key (bufs (ring_push b (ring_unlink b s)) ! k) (bufs s ! k)"
    "disk (ide (ring_push b (ring_unlink b s))) = disk (ide s)"
    "idelk (ide (ring_push b (ring_unlink b s))) = idelk (ide s)"
    "idequeue (ide (ring_push b (ring_unlink b s))) = idequeue (ide s)"
    "havedisk1 (ide (ring_push b (ring_unlink b s))) = havedisk1 (ide s)"
    "ide_err (ide (ring_push b (ring_unlink b s))) = ide_err (ide s)"
proof -
  obtain ys zs where xs: "xs = ys @ b # zs" using assms(2,3) by (metis in_set_conv_decomp lessThan_iff)
  have r: "ring (nxs s) (pvs s) (ys @ b # zs)" using assms(1) xs by simp
  have d: "b \<notin> set ys" "b \<notin> set zs" "set (ys @ zs) \<subseteq> {..<NBUF}" "b \<noteq> HEAD"
    using r assms(2,3) xs by (auto simp: ring_def HEAD_def)
  note nb = ring_neighbours [OF r]
  have nx: "nxs s b < Suc NBUF" "pvs s b < Suc NBUF" "nxs s b \<noteq> b"
    using nb(1,2) d by (auto simp: HEAD_def)
  note u = ring_unlink_links [OF assms(3,4) nx]
  let ?u = "ring_unlink b s"
  have ru: "ring (nxs ?u) (pvs ?u) (ys @ zs)" unfolding u(1,2) by (rule ring_unlink_one [OF r])
  have lu: "length (bufs ?u) = Suc NBUF" using u(4) assms(4) by simp
  have "nxs ?u HEAD \<in> insert HEAD (set (ys @ zs))"
    using ru by (cases "ys @ zs") (auto simp: ring_def)
  then have h: "nxs ?u HEAD < Suc NBUF" "nxs ?u HEAD \<noteq> b"
    using d by (auto simp: HEAD_def)
  note p = ring_push_links [OF assms(3) lu h]
  have "ring (nxs (ring_push b ?u)) (pvs (ring_push b ?u)) (b # ys @ zs)"
    unfolding p(1,2) by (rule ring_push_front [OF ru]) (use d in auto)
  moreover have "set (b # ys @ zs) = {..<NBUF}" using xs assms(2) by auto
  ultimately show "\<exists>ys. ring (nxs (ring_push b ?u)) (pvs (ring_push b ?u)) (b # ys) \<and> set (b # ys) = {..<NBUF}"
    by blast
  show "same_key (bufs (ring_push b ?u) ! k) (bufs s ! k)"
    using p(5) [of k] u(5) [of k] by (simp add: same_key_def)
qed (simp_all add: ring_push_def ring_unlink_def Let_def)

lemma brelse_spec:
  assumes "bio me s V D H K W" "holds s b n" "n \<in> K \<or> V n = D n"
  shows "\<exists>t. brelse me b s = Ok t \<and> bio me t V D (H - {n}) K W \<and> (\<forall>k m. holds t k m \<longleftrightarrow> holds s k m \<and> m \<noteq> n)"
proof -
  obtain xs where inv: "bio_inv me xs s" and D: "D = (\<lambda>n. disk (ide s) 1 (unat n))"
    and K: "K = {n. \<exists>i. has_block s n i \<and> flags (bufs s ! i) AND B_DIRTY \<noteq> 0}" using bioD [OF assms(1)] .
  note h = bio_holdsD [OF inv assms(2)]
  let ?u = "set_buf b (\<lambda>c. c\<lparr>refcnt := refcnt c - 1\<rparr>) (set_buf b (\<lambda>c. c\<lparr>block_lk := sl_released (block_lk c)\<rparr>) s)"
  let ?t = "ring_push b (ring_unlink b ?u)"
  have bu: "bufs ?u ! b = (bufs s ! b)\<lparr>refcnt := 0, block_lk := sl_released (block_lk (bufs s ! b))\<rparr>"
    and lu: "length (bufs ?u) = Suc NBUF" using h by simp_all
  have ru: "ring (nxs ?u) (pvs ?u) xs" "set xs = {..<NBUF}"
    using inv by (simp_all add: links_set_buf bio_inv_def)
  note m = ring_move_front [OF ru h(1) lu]
  have kt: "same_key (bufs ?t ! b) ((bufs s ! b)\<lparr>refcnt := 0, block_lk := sl_released (block_lk (bufs s ! b))\<rparr>)"
    using m(4) [of b] bu by simp
  have key: "flags (bufs ?t ! b) = flags (bufs s ! b)" "bdev (bufs ?t ! b) = ROOTDEV" "blockno (bufs ?t ! b) = n"
    "refcnt (bufs ?t ! b) = 0" "block_lk (bufs ?t ! b) = sl_released (block_lk (bufs s ! b))"
    "bdata (bufs ?t ! b) = bdata (bufs s ! b)"
    using kt h by (simp_all add: same_key_def)
  have dt: "disk (ide ?t) = disk (ide s)" unfolding m(5) by simp
  have nK: "n \<in> K \<longleftrightarrow> flags (bufs s ! b) AND B_DIRTY \<noteq> 0"
    unfolding K using assms(2) bio_unique [OF inv] by (auto simp: holds_def)
  have clean: "flags (bufs s ! b) AND B_DIRTY = 0 \<longrightarrow> bdata (bufs s ! b) = disk (ide s) 1 (unat n)"
    using assms(3) nK held_data(1) [OF assms(1,2)] by (auto simp: D)
  have ch: "changed me b s ?t"
    unfolding changed_def
  proof (intro conjI)
    show "\<exists>xs. ring (nxs ?t) (pvs ?t) xs \<and> set xs = {..<NBUF}" using m(1) by blast
    show "buf_ok me (disk (ide ?t)) (bufs ?t ! b)"
      unfolding dt using key h clean by (simp add: buf_ok_def)
    show "\<forall>k. k \<noteq> b \<longrightarrow> \<not> has_block s (blockno (bufs ?t ! b)) k"
      unfolding key(3) using bio_holdsD(8) [OF inv assms(2)] by blast
    show "\<forall>k < NBUF. k \<noteq> b \<longrightarrow> same_key (bufs ?t ! k) (bufs s ! k)"
    proof (intro allI impI)
      fix k assume "k < NBUF" "k \<noteq> b"
      then have "bufs ?u ! k = bufs s ! k" by simp
      with m(4) [of k] show "same_key (bufs ?t ! k) (bufs s ! k)" by simp
    qed
    show "\<forall>m. m \<noteq> unat (blockno (bufs ?t ! b)) \<longrightarrow> disk (ide ?t) 1 m = disk (ide s) 1 m"
      unfolding dt by simp
    show "bdev (bufs ?t ! b) = ROOTDEV" by (rule key(2))
  qed (use inv h m lu in \<open>simp_all add: bio_inv_def\<close>)
  have "bio me ?t (V(n := bdata (bufs ?t ! b))) (D(n := disk (ide ?t) 1 (unat n)))
    (if refcnt (bufs ?t ! b) = 0 then H - {n} else insert n H)
    (if flags (bufs ?t ! b) AND B_DIRTY = 0 then K - {n} else insert n K) (dtrace (ide ?t))"
    by (rule bio_changed [OF ch assms(1)]) (use h key in simp_all)
  moreover have "V(n := bdata (bufs ?t ! b)) = V"
    by (rule fun_upd_idem) (simp add: key(6) held_data(1) [OF assms(1,2)])
  moreover have "D(n := disk (ide ?t) 1 (unat n)) = D"
    by (rule fun_upd_idem) (simp only: D dt)
  moreover have "(if flags (bufs s ! b) AND B_DIRTY = 0 then K - {n} else insert n K) = K"
    using nK by (auto simp: insert_absorb)
  moreover have "dtrace (ide ?t) = W"
    unfolding bio_trace [OF assms(1)] by (simp add: ring_push_def ring_unlink_def Let_def)
  ultimately have bio: "bio me ?t V D (H - {n}) K W" using key by simp
  have "brelse me b s = Ok ?t"
  proof -
    have "\<not> bc_lk s" "b < length (bufs s)" using inv h by (simp_all add: bio_inv_def)
    moreover have "holdingsleep me (block_lk (bufs s ! b)) = Ok True"
      "releasesleep (block_lk (bufs s ! b)) = Ok (sl_released (block_lk (bufs s ! b)))"
      using h(5) by (simp_all add: sleeplock_simps)
    moreover have "set_buf b (\<lambda>c. c\<lparr>block_lk := sl_released (block_lk (bufs s ! b))\<rparr>) s
        = set_buf b (\<lambda>c. c\<lparr>block_lk := sl_released (block_lk c)\<rparr>) s"
      by (simp add: set_buf_def upd_buf_def bufs_def)
    moreover have "refcnt (bufs ?u ! b) = 0" using bu by simp
    moreover have "ring_push b (ring_unlink b (u\<lparr>bc_lk := l\<rparr>)) = (ring_push b (ring_unlink b u))\<lparr>bc_lk := l\<rparr>" for u l
      by (simp add: ring_push_def ring_unlink_def Let_def)
    moreover have "\<not> bc_lk ?t" using \<open>\<not> bc_lk s\<close> m(2) by simp
    ultimately show ?thesis
      by (simp add: brelse_def Let_def)
  qed
  moreover have "holds ?t k m \<longleftrightarrow> holds s k m \<and> m \<noteq> n" for k m
  proof (cases "k = b")
    case True
    then show ?thesis using changed_holds_self [OF ch, of m] key assms(2) by (auto simp: holds_def has_block_def)
  next
    case False
    have "\<not> holds s k n" using bio_holdsD(8) [OF inv assms(2), of k] False by (auto simp: holds_def)
    then show ?thesis using changed_holds [OF ch False] by auto
  qed
  ultimately show ?thesis using bio by blast
qed

subsection \<open>Initialisation\<close>

text \<open>The zeroed cache of a kernel that has just booted, with its disk present and idle.\<close>

definition fresh_buf :: "buf \<Rightarrow> bool" where
  "fresh_buf b \<longleftrightarrow> bdev b = 0 \<and> refcnt b = 0 \<and> flags b = 0"

definition bio_boot :: "bcache \<Rightarrow> bool" where
  "bio_boot s \<longleftrightarrow> length (bufs s) = Suc NBUF \<and> (\<forall>i < NBUF. fresh_buf (bufs s ! i))
     \<and> \<not> idelk (ide s) \<and> idequeue (ide s) = None \<and> havedisk1 (ide s) \<and> \<not> ide_err (ide s)"

lemma ring_push_trace: "dtrace (ide (ring_push b s)) = dtrace (ide s)"
  by (simp add: ring_push_def Let_def)

lemma binit_from_ok:
  "n + b = NBUF \<Longrightarrow> length (bufs s) = Suc NBUF \<Longrightarrow> ring (nxs s) (pvs s) (rev [0..<b]) \<Longrightarrow>
   (\<forall>i < NBUF. fresh_buf (bufs s ! i)) \<Longrightarrow> (\<forall>i < b. sl_free (block_lk (bufs s ! i))) \<Longrightarrow>
   (let t = binit_from n b s in
     length (bufs t) = Suc NBUF \<and> ring (nxs t) (pvs t) (rev [0..<NBUF])
     \<and> (\<forall>i < NBUF. fresh_buf (bufs t ! i) \<and> sl_free (block_lk (bufs t ! i)))
     \<and> bc_lk t = bc_lk s \<and> disk (ide t) = disk (ide s) \<and> idelk (ide t) = idelk (ide s)
     \<and> idequeue (ide t) = idequeue (ide s) \<and> havedisk1 (ide t) = havedisk1 (ide s) \<and> ide_err (ide t) = ide_err (ide s)
     \<and> dtrace (ide t) = dtrace (ide s))"
proof (induction n arbitrary: b s)
  case (Suc n)
  let ?u = "set_buf b (\<lambda>c. c\<lparr>block_lk := initsleeplock ''buffer'' (block_lk c)\<rparr>) s"
  let ?t = "ring_push b ?u"
  have b: "b < NBUF" "length (bufs ?u) = Suc NBUF" using Suc.prems(1,2) by simp_all
  have ru: "ring (nxs ?u) (pvs ?u) (rev [0..<b])"
    using Suc.prems(3) by (simp add: links_set_buf)
  have "nxs ?u HEAD \<in> insert HEAD {..<b}"
  proof -
    have l: "linked (nxs ?u) (pvs ?u) (HEAD # rev [0..<b] @ [HEAD])" using ru by (simp add: ring_def)
    have "set (rev [0..<b]) = {..<b}" by auto
    then show ?thesis using l by (cases "rev [0..<b]") auto
  qed
  then have h: "nxs ?u HEAD < Suc NBUF" "nxs ?u HEAD \<noteq> b" using b by (auto simp: HEAD_def)
  note p = ring_push_links [OF b h]
  have rt: "ring (nxs ?t) (pvs ?t) (rev [0..<Suc b])"
    unfolding p(1,2) using ring_push_front [OF ru, of b] b by (simp add: HEAD_def)
  have key: "fresh_buf (bufs ?t ! i) = fresh_buf (bufs ?u ! i)"
    "block_lk (bufs ?t ! i) = block_lk (bufs ?u ! i)" for i
    using p(5) [of i] by (simp_all add: same_key_def fresh_buf_def)
  have "fresh_buf (bufs ?u ! i)" if "i < NBUF" for i
    using Suc.prems(2,4) that by (cases "i = b") (simp_all add: fresh_buf_def)
  then have "\<forall>i < NBUF. fresh_buf (bufs ?t ! i)" unfolding key by blast
  moreover have "\<forall>i < Suc b. sl_free (block_lk (bufs ?t ! i))"
  proof (intro allI impI)
    fix i assume "i < Suc b"
    then show "sl_free (block_lk (bufs ?t ! i))"
      unfolding key using Suc.prems(2,5) b by (cases "i = b") simp_all
  qed
  moreover have "n + Suc b = NBUF" "length (bufs ?t) = Suc NBUF" using Suc.prems(1) p(4) b by simp_all
  ultimately show ?case
    using Suc.IH [of "Suc b" ?t] rt p(3,6-10) ring_push_trace [of b ?u] by (simp add: Let_def)
qed (simp add: fresh_buf_def)

lemma binit_ok:
  assumes "bio_boot s"
  shows "bio me (binit s) (\<lambda>n. disk (ide s) 1 (unat n)) (\<lambda>n. disk (ide s) 1 (unat n)) {} {} (dtrace (ide s))"
proof -
  let ?u = "set_buf HEAD (\<lambda>c. c\<lparr>bnext := HEAD\<rparr>) (set_buf HEAD (\<lambda>c. c\<lparr>bprev := HEAD\<rparr>) (s\<lparr>bc_lk := False\<rparr>))"
  let ?t = "binit_from NBUF 0 ?u"
  have len: "length (bufs s) = Suc NBUF" using assms by (simp add: bio_boot_def)
  then have "ring (nxs ?u) (pvs ?u) (rev [0..<0])"
    by (simp add: ring_def nxs_def pvs_def HEAD_def)
  moreover have "\<forall>i < NBUF. fresh_buf (bufs ?u ! i)"
    using assms by (auto simp: bio_boot_def HEAD_def)
  ultimately have t: "length (bufs ?t) = Suc NBUF" "ring (nxs ?t) (pvs ?t) (rev [0..<NBUF])"
     "\<forall>i < NBUF. fresh_buf (bufs ?t ! i) \<and> sl_free (block_lk (bufs ?t ! i))"
     "bc_lk ?t = False" "disk (ide ?t) = disk (ide s)" "idelk (ide ?t) = idelk (ide s)"
     "idequeue (ide ?t) = idequeue (ide s)" "havedisk1 (ide ?t) = havedisk1 (ide s)" "ide_err (ide ?t) = ide_err (ide s)"
     "dtrace (ide ?t) = dtrace (ide s)"
    using binit_from_ok [of NBUF 0 ?u] len by (simp_all add: Let_def)
  have nob: "\<not> has_block ?t n i" for n i
    using t(3) by (auto simp: has_block_def fresh_buf_def ROOTDEV_def)
  have "bio_inv me (rev [0..<NBUF]) ?t"
    using t nob assms by (auto simp: bio_inv_def bio_boot_def buf_ok_def fresh_buf_def)
  moreover have "view ?t = (\<lambda>n. disk (ide s) 1 (unat n))"
    using view_no_block [OF nob] t(5) by (simp add: fun_eq_iff)
  ultimately show ?thesis
    using nob t(5,10) by (auto simp: bio_def binit_def holds_def)
qed

lemma bio_finite: "bio me s V D H K W \<Longrightarrow> finite H \<and> finite K"
proof -
  assume a: "bio me s V D H K W"
  obtain xs where "H = {n. \<exists>i. holds s i n}" "K = {n. \<exists>i. has_block s n i \<and> flags (bufs s ! i) AND B_DIRTY \<noteq> 0}"
    using bioD [OF a] .
  then have "H \<subseteq> (\<lambda>i. blockno (bufs s ! i)) ` {..<NBUF}" "K \<subseteq> (\<lambda>i. blockno (bufs s ! i)) ` {..<NBUF}"
    by (auto simp: holds_def has_block_def)
  then show ?thesis by (meson finite_imageI finite_lessThan finite_subset)
qed

subsection \<open>The interface of the cache\<close>

text \<open>
  What the log relies on: \<open>rd n\<close> returns a buffer with the contents of block \<open>n\<close> as long as
  fewer than \<open>room\<close> buffers are held or pinned, \<open>wr\<close> writes it through, \<open>pin\<close> keeps it in
  the cache, and a buffer may be released once its contents are on the disk or pinned.
\<close>

locale block_cache =
  fixes rd :: "u32 \<Rightarrow> 's \<Rightarrow> (nat \<times> 's) outcome"
    and wr :: "nat \<Rightarrow> 's \<Rightarrow> 's outcome"
    and rel :: "nat \<Rightarrow> 's \<Rightarrow> 's outcome"
    and data :: "nat \<Rightarrow> 's \<Rightarrow> bytes"
    and put :: "nat \<Rightarrow> bytes \<Rightarrow> 's \<Rightarrow> 's"
    and pin :: "nat \<Rightarrow> 's \<Rightarrow> 's"
    and cache :: "'s \<Rightarrow> (u32 \<Rightarrow> bytes) \<Rightarrow> (u32 \<Rightarrow> bytes) \<Rightarrow> u32 set \<Rightarrow> u32 set \<Rightarrow> wtrace \<Rightarrow> bool"
    and held :: "'s \<Rightarrow> nat \<Rightarrow> u32 \<Rightarrow> bool"
    and room :: nat
  assumes rd_ok: "cache s V D H K W \<Longrightarrow> n < FSSIZE \<Longrightarrow> n \<notin> H \<Longrightarrow> n \<in> K \<or> card (H \<union> K) < room \<Longrightarrow>
      \<exists>b t. rd n s = Ok (b, t) \<and> cache t V D (insert n H) K W \<and> held t b n \<and> (\<forall>k m. held s k m \<longrightarrow> held t k m)"
    and data_ok: "cache s V D H K W \<Longrightarrow> held s b n \<Longrightarrow> data b s = V n"
    and put_ok: "cache s V D H K W \<Longrightarrow> held s b n \<Longrightarrow> cache (put b d s) (V(n := d)) D H K W"
    and put_held: "cache s V D H K W \<Longrightarrow> held s b n \<Longrightarrow> held (put b d s) k m = held s k m"
    and pin_ok: "cache s V D H K W \<Longrightarrow> held s b n \<Longrightarrow> cache (pin b s) V D H (insert n K) W"
    and pin_held: "cache s V D H K W \<Longrightarrow> held s b n \<Longrightarrow> held (pin b s) k m = held s k m"
    and wr_ok: "cache s V D H K W \<Longrightarrow> held s b n \<Longrightarrow>
      \<exists>t. wr b s = Ok t \<and> cache t V (D(n := V n)) H (K - {n}) (W @ [(1, unat n, V n)]) \<and> (\<forall>k m. held t k m = held s k m)"
    and rel_ok: "cache s V D H K W \<Longrightarrow> held s b n \<Longrightarrow> n \<in> K \<or> V n = D n \<Longrightarrow>
      \<exists>t. rel b s = Ok t \<and> cache t V D (H - {n}) K W \<and> (\<forall>k m. held t k m \<longleftrightarrow> held s k m \<and> m \<noteq> n)"
    and cache_finite: "cache s V D H K W \<Longrightarrow> finite H \<and> finite K"
begin

lemma read_block:
  assumes "cache s V D H K W" "n < FSSIZE" "n \<notin> H" "n \<in> K \<or> card (H \<union> K) < room" "n \<in> K \<or> V n = D n"
  shows "\<exists>b t u. rd n s = Ok (b, t) \<and> data b t = V n \<and> rel b t = Ok u \<and> cache u V D H K W
    \<and> (\<forall>k m. held s k m \<longrightarrow> m \<noteq> n \<longrightarrow> held u k m)"
proof -
  from rd_ok [OF assms(1-4)] obtain b t where
    t: "rd n s = Ok (b, t)" "cache t V D (insert n H) K W" "held t b n" "\<forall>k m. held s k m \<longrightarrow> held t k m" by blast
  from rel_ok [OF t(2,3) assms(5)] obtain u where
    u: "rel b t = Ok u" "cache u V D (insert n H - {n}) K W" "\<forall>k m. held u k m \<longleftrightarrow> held t k m \<and> m \<noteq> n" by blast
  have "insert n H - {n} = H" using assms(3) by simp
  then show ?thesis using t u data_ok [OF t(2,3)] by auto
qed

lemma write_through:
  assumes "cache s V D H K W" "n < FSSIZE" "n \<notin> H" "n \<in> K \<or> card (H \<union> K) < room"
  shows "\<exists>b t u v. rd n s = Ok (b, t) \<and> data b t = V n \<and> wr b (put b d t) = Ok u \<and> rel b u = Ok v
    \<and> cache v (V(n := d)) (D(n := d)) H (K - {n}) (W @ [(1, unat n, d)])"
proof -
  from rd_ok [OF assms(1-4)] obtain b t where
    t: "rd n s = Ok (b, t)" "cache t V D (insert n H) K W" "held t b n" by blast
  note p = put_ok [OF t(2,3), of d]
  have hp: "held (put b d t) b n" using put_held [OF t(2,3)] t(3) by simp
  from wr_ok [OF p hp] obtain u where
    u: "wr b (put b d t) = Ok u" "cache u (V(n := d)) (D(n := d)) (insert n H) (K - {n}) (W @ [(1, unat n, d)])" "held u b n"
    using hp by auto
  from rel_ok [OF u(2,3)] obtain v where
    "rel b u = Ok v" "cache v (V(n := d)) (D(n := d)) (insert n H - {n}) (K - {n}) (W @ [(1, unat n, d)])" by auto
  then show ?thesis using t u data_ok [OF t(2,3)] assms(3) by auto
qed

text \<open>A modification that goes to the log: the block is pinned instead of written.\<close>

lemma write_pinned:
  assumes "cache s V D H K W" "n < FSSIZE" "n \<notin> H" "n \<in> K \<or> card (H \<union> K) < room"
  shows "\<exists>b t v. rd n s = Ok (b, t) \<and> data b t = V n \<and> held (put b d t) b n
    \<and> rel b (pin b (put b d t)) = Ok v \<and> cache v (V(n := d)) D H (insert n K) W"
proof -
  from rd_ok [OF assms(1-4)] obtain b t where
    t: "rd n s = Ok (b, t)" "cache t V D (insert n H) K W" "held t b n" by blast
  note p = put_ok [OF t(2,3), of d]
  have hp: "held (put b d t) b n" using put_held [OF t(2,3)] t(3) by simp
  note q = pin_ok [OF p hp]
  have hq: "held (pin b (put b d t)) b n" using pin_held [OF p hp] hp by simp
  from rel_ok [OF q hq] obtain v where
    "rel b (pin b (put b d t)) = Ok v" "cache v (V(n := d)) D (insert n H - {n}) (insert n K) W" by auto
  then show ?thesis using t hp data_ok [OF t(2,3)] assms(3) by auto
qed

text \<open>The body of the loops that copy one block over another and write it through.\<close>

lemma copy_block:
  assumes "cache s V D H K W" "a < FSSIZE" "b < FSSIZE" "a \<noteq> b" "a \<notin> H" "b \<notin> H"
    "a \<in> K \<or> card (H \<union> K) < room" "b \<in> K \<or> card (insert a H \<union> K) < room"
    "c = a \<and> e = b \<or> c = b \<and> e = a" "c \<in> K \<or> V c = D c"
  shows "\<exists>x t y u w f g. rd a s = Ok (x, t) \<and> rd b t = Ok (y, u)
    \<and> (let i = (if c = a then x else y); j = (if c = a then y else x) in
       wr j (put j (data i u) u) = Ok w \<and> rel i w = Ok f \<and> rel j f = Ok g
       \<and> cache g (V(e := V c)) (D(e := V c)) H (K - {e}) (W @ [(1, unat e, V c)]))"
proof -
  from rd_ok [OF assms(1,2,5,7)] obtain x t where
    t: "rd a s = Ok (x, t)" "cache t V D (insert a H) K W" "held t x a" by blast
  have "b \<notin> insert a H" using assms(4,6) by auto
  from rd_ok [OF t(2) assms(3) this assms(8)] obtain y u where
    u: "rd b t = Ok (y, u)" "cache u V D (insert b (insert a H)) K W" "held u y b" "held u x a"
    using t(3) by auto
  define i where "i = (if c = a then x else y)"
  define j where "j = (if c = a then y else x)"
  have h: "held u i c" "held u j e" "c \<noteq> e" "insert b (insert a H) = insert c (insert e H)" "c \<notin> H" "e \<notin> H"
    using assms(4-6,9) u by (auto simp: i_def j_def)
  note p = put_ok [OF u(2) h(2), of "data i u"]
  have hp: "held (put j (data i u) u) j e" "held (put j (data i u) u) i c"
    using put_held [OF u(2) h(2)] h by simp_all
  have d: "data i u = V c" by (rule data_ok [OF u(2) h(1)])
  from wr_ok [OF p hp(1)] obtain w where
    w: "wr j (put j (data i u) u) = Ok w"
      "cache w (V(e := V c)) (D(e := V c)) (insert c (insert e H)) (K - {e}) (W @ [(1, unat e, V c)])" "held w j e" "held w i c"
    using hp unfolding d h(4) by auto
  have "c \<in> K - {e} \<or> (V(e := V c)) c = (D(e := V c)) c" using assms(10) h(3) by auto
  from rel_ok [OF w(2,4) this] obtain f where
    f: "rel i w = Ok f" "cache f (V(e := V c)) (D(e := V c)) (insert c (insert e H) - {c}) (K - {e}) (W @ [(1, unat e, V c)])"
      "\<forall>k m. held f k m \<longleftrightarrow> held w k m \<and> m \<noteq> c" by blast
  have fj: "held f j e" using f(3) w(3) h(3) by auto
  have same: "e \<in> K - {e} \<or> (V(e := V c)) e = (D(e := V c)) e" by simp
  from rel_ok [OF f(2) fj same] obtain g where
    g: "rel j f = Ok g" "cache g (V(e := V c)) (D(e := V c)) (insert c (insert e H) - {c} - {e}) (K - {e}) (W @ [(1, unat e, V c)])" by blast
  have "insert c (insert e H) - {c} - {e} = H" using h by auto
  with g t(1) u(1) w(1) f(1) show ?thesis
    unfolding i_def j_def Let_def by metis
qed

end

definition get_data :: "nat \<Rightarrow> bcache \<Rightarrow> bytes" where
  "get_data b s = bdata (bufs s ! b)"

interpretation bc: block_cache "bread me ROOTDEV" "bwrite me" "brelse me" get_data put_data pin_buf "bio me" holds NBUF
  for me
proof unfold_locales
  show "bio me s V D H K W \<Longrightarrow> holds s b n \<Longrightarrow> get_data b s = V n" for s V D H K W b n
    unfolding get_data_def by (rule held_data)
qed (fact bread_spec put_data_spec pin_buf_spec bwrite_spec brelse_spec bio_finite)+

text \<open>
  C28. The cache is coherent: as long as fewer than \<open>NBUF\<close> buffers are held or pinned, reading a
  block, storing data into its buffer, \<open>bwrite\<close> and \<open>brelse\<close> all succeed, leave exactly that
  block changed both on the disk and for later readers, and a following \<open>bread\<close> of any block
  that is not held returns a buffer with the contents last stored in it.
\<close>

theorem bwrite_then_bread:
  assumes "bio me s V D {} K W" "n < FSSIZE" "m < FSSIZE" "card K < NBUF"
  shows "\<exists>b t u v c w. bread me ROOTDEV n s = Ok (b, t) \<and> bdata (bufs t ! b) = V n
    \<and> bwrite me b (put_data b d t) = Ok u \<and> brelse me b u = Ok v
    \<and> disk (ide v) 1 (unat n) = d \<and> (\<forall>k. k \<noteq> n \<longrightarrow> disk (ide v) 1 (unat k) = D k)
    \<and> bread me ROOTDEV m v = Ok (c, w) \<and> bdata (bufs w ! c) = (if m = n then d else V m)
    \<and> bio me w (V(n := d)) (D(n := d)) {m} (K - {n}) (W @ [(1, unat n, d)])"
proof -
  from bc.write_through [OF assms(1,2), of d] assms(4) obtain b t u v where
    t: "bread me ROOTDEV n s = Ok (b, t)" "get_data b t = V n" "bwrite me b (put_data b d t) = Ok u"
      "brelse me b u = Ok v" "bio me v (V(n := d)) (D(n := d)) {} (K - {n}) (W @ [(1, unat n, d)])" by auto
  have "finite K" using bio_finite [OF assms(1)] by simp
  then have "card ({} \<union> (K - {n})) < NBUF"
    using assms(4) by (simp add: card_Diff_singleton_if) linarith
  then have "m \<in> K - {n} \<or> card ({} \<union> (K - {n})) < NBUF" by blast
  from bc.rd_ok [OF t(5) assms(3) _ this] obtain c w where
    w: "bread me ROOTDEV m v = Ok (c, w)" "bio me w (V(n := d)) (D(n := d)) {m} (K - {n}) (W @ [(1, unat n, d)])" "holds w c m"
    by auto
  have "get_data c w = (V(n := d)) m" by (rule bc.data_ok [OF w(2,3)])
  moreover have "disk (ide v) 1 (unat k) = (D(n := d)) k" for k
    using t(5) by (auto simp: bio_def fun_eq_iff)
  ultimately show ?thesis
    using t w(1,2) unfolding get_data_def by (intro exI [of _ b] exI [of _ t] exI [of _ u] exI [of _ v] exI [of _ c] exI [of _ w]) simp
qed

definition bio_demo :: bcache where
  "bio_demo = \<lparr>bc_lk = False, ide = ide_demo\<lparr>ibufs := replicate (Suc NBUF) buf_new\<rparr>\<rparr>"

lemma bio_demo_ok: "bio me (binit bio_demo) (\<lambda>n. \<lambda>_. 0) (\<lambda>n. \<lambda>_. 0) {} {} []"
proof -
  have "bio_boot bio_demo"
    by (simp add: bio_boot_def bio_demo_def bufs_def fresh_buf_def buf_new_def ide_demo_def del: replicate_Suc)
  from binit_ok [OF this, of me] show ?thesis by (simp add: bio_demo_def ide_demo_def)
qed

theorem bwrite_then_bread_witness:
  "\<exists>b t u v. bread 3 ROOTDEV 40 (binit bio_demo) = Ok (b, t) \<and> bwrite 3 b (put_data b (\<lambda>_. 7) t) = Ok u
    \<and> brelse 3 b u = Ok v \<and> disk (ide v) 1 40 = (\<lambda>_. 7)"
  using bwrite_then_bread [OF bio_demo_ok, of 40 41 3 "\<lambda>_. 7"]
  by (auto simp: FSSIZE_def NBUF_def MAXOPBLOCKS_def)

text \<open>With every buffer held or pinned, a block that is not cached cannot be read.\<close>

lemma bread_no_buffers:
  assumes "bio_inv me xs s" "\<And>i. \<not> has_block s n i"
    "\<And>i. i < NBUF \<Longrightarrow> refcnt (bufs s ! i) \<noteq> 0 \<or> flags (bufs s ! i) AND B_DIRTY \<noteq> 0"
  shows "bread me ROOTDEV n s = Panic ''bget: no buffers''"
proof -
  have i: "\<not> bc_lk s" "set xs = {..<NBUF}" using assms(1) by (auto simp: bio_inv_def)
  have "find (\<lambda>i. bdev (bufs s ! i) = ROOTDEV \<and> blockno (bufs s ! i) = n) xs = None"
    using assms(2) i(2) by (auto simp: find_None_iff has_block_def)
  moreover have "find (\<lambda>i. refcnt (bufs s ! i) = 0 \<and> flags (bufs s ! i) AND B_DIRTY = 0) (rev xs) = None"
    using assms(3) i(2) by (auto simp: find_None_iff)
  ultimately show ?thesis
    using i by (simp add: bread_def bget_def bio_inv_find [OF assms(1)] Let_def)
qed

end
