(* ===== verification/Log.thy ===== *)
theory Log
  imports Bio
begin

text \<open>
  The write-ahead log (\<open>log.c\<close>) and \<open>readsb\<close> (\<open>fs.c\<close>), over the buffer cache.  \<open>logst\<close> is
  \<open>struct log\<close> with the cache it works on; \<open>log_wakeups\<close> counts the calls of \<open>wakeup(&log)\<close>.
  The theory shows that a commit makes every logged block durable, and crash safety: however
  many of its disk writes a crash lets through, recovery at the next boot leaves either all of
  the transaction or none of it.
\<close>

record superblock =
  sb_size :: u32
  sb_nblocks :: u32
  sb_ninodes :: u32
  sb_nlog :: u32
  sb_logstart :: u32
  sb_inodestart :: u32
  sb_bmapstart :: u32

definition sb_of :: "bytes \<Rightarrow> superblock" where
  "sb_of d = \<lparr>sb_size = rd32 d 0, sb_nblocks = rd32 d 4, sb_ninodes = rd32 d 8, sb_nlog = rd32 d 12,
     sb_logstart = rd32 d 16, sb_inodestart = rd32 d 20, sb_bmapstart = rd32 d 24\<rparr>"

definition readsb :: "int \<Rightarrow> u32 \<Rightarrow> bcache \<Rightarrow> (superblock \<times> bcache) outcome" where
  "readsb me dev s =
     bnd (bread me dev 1 s) (\<lambda>(bp, s1).
       let sb = sb_of (get_data bp s1)
       in bnd (brelse me bp s1) (\<lambda>s2. Ok (sb, s2)))"

record logst =
  log_lk :: bool
  log_start :: u32
  log_size :: u32
  outstanding :: int
  committing :: bool
  log_dev :: u32
  lh_n :: int
  lh_block :: "u32 list"
  log_wakeups :: nat
  bc :: bcache

subsection \<open>Operations\<close>

definition install_one :: "int \<Rightarrow> nat \<Rightarrow> logst \<Rightarrow> logst outcome" where
  "install_one me tail s =
     bnd (bread me (log_dev s) (log_start s + word_of_nat tail + 1) (bc s)) (\<lambda>(lbuf, c1).
     fault_if (length (lh_block s) \<le> tail)
     (bnd (bread me (log_dev s) (lh_block s ! tail) c1) (\<lambda>(dbuf, c2).
      bnd (bwrite me dbuf (put_data dbuf (get_data lbuf c2) c2)) (\<lambda>c3.
      bnd (brelse me lbuf c3) (\<lambda>c4.
      bnd (brelse me dbuf c4) (\<lambda>c5. Ok (s\<lparr>bc := c5\<rparr>)))))))"

fun install_from :: "int \<Rightarrow> nat \<Rightarrow> nat \<Rightarrow> logst \<Rightarrow> logst outcome" where
  "install_from me 0 tail s = Ok s"
| "install_from me (Suc k) tail s = bnd (install_one me tail s) (install_from me k (Suc tail))"

definition install_trans :: "int \<Rightarrow> logst \<Rightarrow> logst outcome" where
  "install_trans me s = install_from me (nat (lh_n s)) 0 s"

definition read_head :: "int \<Rightarrow> logst \<Rightarrow> logst outcome" where
  "read_head me s =
     bnd (bread me (log_dev s) (log_start s) (bc s)) (\<lambda>(buf, c1).
       let d = get_data buf c1; n = sint (rd32 d 0)
       in fault_if (int LOGSIZE < n)
          (let s1 = s\<lparr>lh_n := n, lh_block :=
                 map (\<lambda>i. if int i < n then rd32 d (4 + 4 * i) else lh_block s ! i) [0..<LOGSIZE]\<rparr>
           in bnd (brelse me buf c1) (\<lambda>c2. Ok (s1\<lparr>bc := c2\<rparr>))))"

fun put_head :: "nat \<Rightarrow> nat \<Rightarrow> u32 list \<Rightarrow> bytes \<Rightarrow> bytes" where
  "put_head 0 i bl d = d"
| "put_head (Suc k) i bl d = put_head k (Suc i) bl (wr32 d (4 + 4 * i) (bl ! i))"

definition write_head :: "int \<Rightarrow> logst \<Rightarrow> logst outcome" where
  "write_head me s =
     bnd (bread me (log_dev s) (log_start s) (bc s)) (\<lambda>(buf, c1).
       fault_if (int LOGSIZE < lh_n s)
       (let d = put_head (nat (lh_n s)) 0 (lh_block s) (wr32 (get_data buf c1) 0 (word_of_int (lh_n s)))
        in bnd (bwrite me buf (put_data buf d c1)) (\<lambda>c2.
           bnd (brelse me buf c2) (\<lambda>c3. Ok (s\<lparr>bc := c3\<rparr>)))))"

definition recover_from_log :: "int \<Rightarrow> logst \<Rightarrow> logst outcome" where
  "recover_from_log me s =
     bnd (read_head me s) (\<lambda>s1.
     bnd (install_trans me s1) (\<lambda>s2.
     write_head me (s2\<lparr>lh_n := 0\<rparr>)))"

definition initlog :: "int \<Rightarrow> u32 \<Rightarrow> logst \<Rightarrow> logst outcome" where
  "initlog me dev s =
     panic_if (BSIZE \<le> 4 + 4 * LOGSIZE) ''initlog: too big logheader''
      (bnd (readsb me dev (bc s)) (\<lambda>(sb, c1).
        recover_from_log me (s\<lparr>log_lk := False, bc := c1, log_start := sb_logstart sb,
          log_size := sb_nlog sb, log_dev := dev\<rparr>)))"

definition begin_op :: "logst \<Rightarrow> logst outcome" where
  "begin_op s =
     bnd (lk_acquire (log_lk s)) (\<lambda>l.
       if committing s then Blocked
       else if int LOGSIZE < lh_n s + (outstanding s + 1) * int MAXOPBLOCKS then Blocked
       else let s1 = s\<lparr>log_lk := l, outstanding := outstanding s + 1\<rparr>
         in bnd (lk_release (log_lk s1)) (\<lambda>l. Ok (s1\<lparr>log_lk := l\<rparr>)))"

definition write_one :: "int \<Rightarrow> nat \<Rightarrow> logst \<Rightarrow> logst outcome" where
  "write_one me tail s =
     bnd (bread me (log_dev s) (log_start s + word_of_nat tail + 1) (bc s)) (\<lambda>(to, c1).
     fault_if (length (lh_block s) \<le> tail)
     (bnd (bread me (log_dev s) (lh_block s ! tail) c1) (\<lambda>(fr, c2).
      bnd (bwrite me to (put_data to (get_data fr c2) c2)) (\<lambda>c3.
      bnd (brelse me fr c3) (\<lambda>c4.
      bnd (brelse me to c4) (\<lambda>c5. Ok (s\<lparr>bc := c5\<rparr>)))))))"

fun write_from :: "int \<Rightarrow> nat \<Rightarrow> nat \<Rightarrow> logst \<Rightarrow> logst outcome" where
  "write_from me 0 tail s = Ok s"
| "write_from me (Suc k) tail s = bnd (write_one me tail s) (write_from me k (Suc tail))"

definition write_log :: "int \<Rightarrow> logst \<Rightarrow> logst outcome" where
  "write_log me s = write_from me (nat (lh_n s)) 0 s"

definition commit :: "int \<Rightarrow> logst \<Rightarrow> logst outcome" where
  "commit me s =
     (if 0 < lh_n s
      then bnd (write_log me s) (\<lambda>s1.
           bnd (write_head me s1) (\<lambda>s2.
           bnd (install_trans me s2) (\<lambda>s3.
           write_head me (s3\<lparr>lh_n := 0\<rparr>))))
      else Ok s)"

definition end_op :: "int \<Rightarrow> logst \<Rightarrow> logst outcome" where
  "end_op me s =
     bnd (lk_acquire (log_lk s)) (\<lambda>l.
       let s1 = s\<lparr>log_lk := l, outstanding := outstanding s - 1\<rparr> in
       panic_if (committing s1) ''log.committing''
       (if outstanding s1 = 0
        then bnd (lk_release (log_lk s1)) (\<lambda>l.
             bnd (commit me (s1\<lparr>committing := True, log_lk := l\<rparr>)) (\<lambda>s2.
             bnd (lk_acquire (log_lk s2)) (\<lambda>l.
               let s3 = s2\<lparr>log_lk := l, committing := False, log_wakeups := log_wakeups s2 + 1\<rparr>
               in bnd (lk_release (log_lk s3)) (\<lambda>l. Ok (s3\<lparr>log_lk := l\<rparr>)))))
        else let s2 = s1\<lparr>log_wakeups := log_wakeups s1 + 1\<rparr>
          in bnd (lk_release (log_lk s2)) (\<lambda>l. Ok (s2\<lparr>log_lk := l\<rparr>))))"

text \<open>The search of the header for a block that is already logged.\<close>

fun log_find :: "nat \<Rightarrow> nat \<Rightarrow> u32 \<Rightarrow> u32 list \<Rightarrow> nat" where
  "log_find 0 i bno bl = i"
| "log_find (Suc k) i bno bl = (if bl ! i = bno then i else log_find k (Suc i) bno bl)"

definition log_write :: "nat \<Rightarrow> logst \<Rightarrow> logst outcome" where
  "log_write b s =
     panic_if (int LOGSIZE \<le> lh_n s \<or> sint (log_size s) - 1 \<le> lh_n s) ''too big a transaction''
     (panic_if (outstanding s < 1) ''log_write outside of trans''
      (bnd (lk_acquire (log_lk s)) (\<lambda>l.
        let i = log_find (nat (lh_n s)) 0 (blockno (bufs (bc s) ! b)) (lh_block s);
            s1 = s\<lparr>log_lk := l, lh_block := (lh_block s)[i := blockno (bufs (bc s) ! b)]\<rparr>;
            s2 = (if int i = lh_n s1 then s1\<lparr>lh_n := lh_n s1 + 1\<rparr> else s1);
            s3 = s2\<lparr>bc := pin_buf b (bc s2)\<rparr>
        in bnd (lk_release (log_lk s3)) (\<lambda>l. Ok (s3\<lparr>log_lk := l\<rparr>)))))"

subsection \<open>Lists of block writes\<close>

definition put_all :: "(u32 \<times> bytes) list \<Rightarrow> (u32 \<Rightarrow> bytes) \<Rightarrow> u32 \<Rightarrow> bytes" where
  "put_all ws V = fold (\<lambda>(m, d) v. v(m := d)) ws V"

definition phys :: "(u32 \<times> bytes) list \<Rightarrow> wtrace" where
  "phys ws = map (\<lambda>(m, d). (1, unat m, d)) ws"

lemma put_all_simps [simp]:
  "put_all [] V = V" "put_all ((m, d) # ws) V = put_all ws (V(m := d))"
  "put_all (ws @ vs) V = put_all vs (put_all ws V)"
  by (simp_all add: put_all_def)

lemma phys_simps [simp]: "phys [] = []" "phys ((m, d) # ws) = (1, unat m, d) # phys ws" "phys (ws @ vs) = phys ws @ phys vs"
  by (simp_all add: phys_def)

lemma put_all_other: "m \<notin> fst ` set ws \<Longrightarrow> put_all ws V m = V m"
  by (induction ws arbitrary: V) auto

lemma put_all_at: "distinct (map fst ws) \<Longrightarrow> (m, d) \<in> set ws \<Longrightarrow> put_all ws V m = d"
proof (induction ws arbitrary: V)
  case (Cons w ws)
  obtain a e where w: "w = (a, e)" by (cases w)
  show ?case
  proof (cases "(m, d) = w")
    case True
    then have "m \<notin> fst ` set ws" using Cons.prems(1) w by auto
    then have "put_all ws (V(m := d)) m = d" by (simp add: put_all_other)
    then show ?thesis using True w by simp
  next
    case False
    then have "put_all ws (V(a := e)) m = d" using Cons.prems by (intro Cons.IH) auto
    then show ?thesis using w by simp
  qed
qed simp

lemma put_all_cong: "V m = V' m \<Longrightarrow> put_all ws V m = put_all ws V' m"
proof (induction ws arbitrary: V V')
  case (Cons w ws)
  obtain a e where w: "w = (a, e)" by (cases w)
  have "put_all ws (V(a := e)) m = put_all ws (V'(a := e)) m"
    by (rule Cons.IH) (simp add: Cons.prems)
  then show ?case by (simp add: w)
qed simp

subsection \<open>The header block\<close>

lemma put_head_other:
  "j + 4 \<le> 4 + 4 * i \<or> 4 + 4 * (i + k) \<le> j \<Longrightarrow> rd32 (put_head k i bl d) j = rd32 d j"
proof (induction k arbitrary: i d)
  case (Suc k)
  have "rd32 (put_head k (Suc i) bl (wr32 d (4 + 4 * i) (bl ! i))) j = rd32 (wr32 d (4 + 4 * i) (bl ! i)) j"
    by (rule Suc.IH) (use Suc.prems in auto)
  also have "\<dots> = rd32 d j" by (rule rd32_wr32_other) (use Suc.prems in auto)
  finally show ?case by simp
qed simp

lemma put_head_at: "i \<le> j \<Longrightarrow> j < i + k \<Longrightarrow> rd32 (put_head k i bl d) (4 + 4 * j) = bl ! j"
proof (induction k arbitrary: i d)
  case (Suc k)
  show ?case
  proof (cases "j = i")
    case True
    have "rd32 (put_head k (Suc i) bl (wr32 d (4 + 4 * i) (bl ! i))) (4 + 4 * j) = rd32 (wr32 d (4 + 4 * i) (bl ! i)) (4 + 4 * j)"
      by (rule put_head_other) (use True in auto)
    then show ?thesis using True by simp
  next
    case False
    then show ?thesis using Suc by simp
  qed
qed simp

text \<open>The contents of the header block for a transaction on the blocks \<open>bl\<close>.\<close>

definition head_of :: "u32 list \<Rightarrow> bytes \<Rightarrow> bytes" where
  "head_of bl d = put_head (length bl) 0 bl (wr32 d 0 (word_of_nat (length bl)))"

lemma head_of_reads:
  assumes "length bl \<le> LOGSIZE"
  shows "sint (rd32 (head_of bl d) 0) = int (length bl)" "i < length bl \<Longrightarrow> rd32 (head_of bl d) (4 + 4 * i) = bl ! i"
proof -
  have "rd32 (head_of bl d) 0 = word_of_nat (length bl)"
    unfolding head_of_def by (subst put_head_other) simp_all
  moreover have "unat (word_of_nat (length bl) :: u32) = length bl"
    using assms by (simp add: unat_of_nat_lt LOGSIZE_def MAXOPBLOCKS_def)
  ultimately show "sint (rd32 (head_of bl d) 0) = int (length bl)"
    using assms sint_eq_unat [of "word_of_nat (length bl)"] by (simp add: LOGSIZE_def MAXOPBLOCKS_def)
  show "i < length bl \<Longrightarrow> rd32 (head_of bl d) (4 + 4 * i) = bl ! i"
    unfolding head_of_def by (rule put_head_at) simp_all
qed

lemma put_head_cong: "(\<And>j. i \<le> j \<Longrightarrow> j < i + k \<Longrightarrow> bl ! j = bl' ! j) \<Longrightarrow> put_head k i bl d = put_head k i bl' d"
  by (induction k arbitrary: i d) auto

subsection \<open>The layout of the log on disk\<close>

definition logblk :: "u32 \<Rightarrow> nat \<Rightarrow> u32" where
  "logblk st i = st + word_of_nat i + 1"

definition in_log :: "u32 \<Rightarrow> u32 \<Rightarrow> u32 \<Rightarrow> bool" where
  "in_log st nl m \<longleftrightarrow> unat st \<le> unat m \<and> unat m < unat st + unat nl"

definition log_geom :: "u32 \<Rightarrow> u32 \<Rightarrow> bool" where
  "log_geom st nl \<longleftrightarrow> 1 < unat st \<and> unat st + unat nl \<le> unat FSSIZE \<and> 1 < unat nl"

lemma logblk_unat:
  assumes "log_geom st nl" "i + 1 < unat nl"
  shows "unat (logblk st i) = unat st + i + 1"
proof -
  have "unat st + (i + 1) < 1000" "i < 1000" using assms by (auto simp: log_geom_def FSSIZE_def)
  then have "unat (word_of_nat (i + 1) :: u32) = i + 1" by (intro unat_of_nat_lt) simp
  moreover have "logblk st i = st + word_of_nat (i + 1)" by (simp add: logblk_def add.commute add.left_commute)
  ultimately show ?thesis
    using unat_add_lt [of st "word_of_nat (i + 1)"] \<open>unat st + (i + 1) < 1000\<close> by simp
qed

lemma logblk_props:
  assumes "log_geom st nl" "i + 1 < unat nl"
  shows "in_log st nl (logblk st i)" "logblk st i \<noteq> st" "logblk st i < FSSIZE"
    "j + 1 < unat nl \<Longrightarrow> logblk st i = logblk st j \<longleftrightarrow> i = j"
proof -
  note u = logblk_unat [OF assms]
  show "in_log st nl (logblk st i)" using u assms by (simp add: in_log_def)
  show "logblk st i \<noteq> st" using u by auto
  show "logblk st i < FSSIZE" using u assms by (auto simp: log_geom_def word_less_nat_alt)
  show "j + 1 < unat nl \<Longrightarrow> logblk st i = logblk st j \<longleftrightarrow> i = j"
    using u logblk_unat [OF assms(1), of j] by (metis add_left_cancel add_right_cancel)
qed

lemma log_start_props:
  assumes "log_geom st nl"
  shows "in_log st nl st" "st < FSSIZE" "1 < FSSIZE" "\<not> in_log st nl 1"
  using assms by (auto simp: log_geom_def in_log_def word_less_nat_alt FSSIZE_def)

subsection \<open>The two copying loops\<close>

text \<open>The blocks \<open>bl\<close> of a transaction fit the log and lie outside it.\<close>

definition tx_ok :: "u32 \<Rightarrow> u32 \<Rightarrow> u32 list \<Rightarrow> bool" where
  "tx_ok st nl bl \<longleftrightarrow> log_geom st nl \<and> length bl + 1 \<le> unat nl \<and> length bl < NBUF \<and> distinct bl
     \<and> (\<forall>b \<in> set bl. b < FSSIZE \<and> \<not> in_log st nl b)"

lemma tx_okD:
  assumes "tx_ok st nl bl" "i < length bl"
  shows "log_geom st nl" "i + 1 < unat nl" "bl ! i < FSSIZE" "\<not> in_log st nl (bl ! i)"
    "logblk st i \<noteq> bl ! i" "logblk st i \<notin> set bl" "logblk st i < FSSIZE" "bl ! i \<noteq> st"
proof -
  show g: "log_geom st nl" "i + 1 < unat nl" "bl ! i < FSSIZE" "\<not> in_log st nl (bl ! i)"
    using assms by (auto simp: tx_ok_def)
  show "logblk st i \<noteq> bl ! i" using logblk_props(1) [OF g(1,2)] g(4) by auto
  show "logblk st i \<notin> set bl" using logblk_props(1) [OF g(1,2)] assms(1) by (auto simp: tx_ok_def)
  show "logblk st i < FSSIZE" by (rule logblk_props(3) [OF g(1,2)])
  show "bl ! i \<noteq> st" using log_start_props(1) [OF g(1)] g(4) by auto
qed

lemma tx_ok_card: "tx_ok st nl bl \<Longrightarrow> card (set bl) < NBUF"
  by (simp add: tx_ok_def distinct_card)

lemma write_one_spec:
  assumes "bio me (bc s) V D {} (set bl) W" "tx_ok (log_start s) nl bl" "tail < length bl"
    "log_dev s = ROOTDEV" "take (length bl) (lh_block s) = bl"
  shows "\<exists>c. write_one me tail s = Ok (s\<lparr>bc := c\<rparr>) \<and>
    bio me c (V(logblk (log_start s) tail := V (bl ! tail))) (D(logblk (log_start s) tail := V (bl ! tail)))
      {} (set bl) (W @ [(1, unat (logblk (log_start s) tail), V (bl ! tail))])"
proof -
  let ?a = "logblk (log_start s) tail" and ?b = "bl ! tail"
  note d = tx_okD [OF assms(2,3)]
  have b: "lh_block s ! tail = ?b" "tail < length (lh_block s)"
    using assms(3,5) by (metis nth_take) (metis assms(3,5) length_take min_less_iff_conj)
  have bk: "?b \<in> set bl" using assms(3) by simp
  have "card ({} \<union> set bl) < NBUF" using tx_ok_card [OF assms(2)] by simp
  then have c1: "?a \<in> set bl \<or> card ({} \<union> set bl) < NBUF"
    and c2: "?b \<in> set bl \<or> card (insert ?a {} \<union> set bl) < NBUF" using bk by auto
  have "?b = ?a \<and> ?a = ?b \<or> ?b = ?b \<and> ?a = ?a" "?b \<in> set bl \<or> V ?b = D ?b" using bk by auto
  from bc.copy_block [OF assms(1) d(7,3,5) _ _ c1 c2 this] obtain x t y u w f g where
    t: "bread me ROOTDEV ?a (bc s) = Ok (x, t)" "bread me ROOTDEV ?b t = Ok (y, u)"
      "bwrite me x (put_data x (get_data y u) u) = Ok w" "brelse me y w = Ok f" "brelse me x f = Ok g"
      "bio me g (V(?a := V ?b)) (D(?a := V ?b)) {} (set bl - {?a}) (W @ [(1, unat ?a, V ?b)])"
    using d(5) by (auto simp: Let_def)
  have "set bl - {?a} = set bl" using d(6) by auto
  moreover have "write_one me tail s = Ok (s\<lparr>bc := g\<rparr>)"
    using t assms(4) b by (simp add: write_one_def logblk_def)
  ultimately show ?thesis using t(6) by auto
qed

lemma install_one_spec:
  assumes "bio me (bc s) V D {} K W" "tx_ok (log_start s) nl bl" "tail < length bl"
    "log_dev s = ROOTDEV" "take (length bl) (lh_block s) = bl" "K \<subseteq> set bl"
    "V (logblk (log_start s) tail) = D (logblk (log_start s) tail)" "card K + 1 < NBUF \<or> bl ! tail \<in> K"
  shows "\<exists>c. install_one me tail s = Ok (s\<lparr>bc := c\<rparr>) \<and>
    bio me c (V(bl ! tail := V (logblk (log_start s) tail))) (D(bl ! tail := V (logblk (log_start s) tail)))
      {} (K - {bl ! tail}) (W @ [(1, unat (bl ! tail), V (logblk (log_start s) tail))])"
proof -
  let ?a = "logblk (log_start s) tail" and ?b = "bl ! tail"
  note d = tx_okD [OF assms(2,3)]
  have b: "lh_block s ! tail = ?b" "tail < length (lh_block s)"
    using assms(3,5) by (metis nth_take) (metis assms(3,5) length_take min_less_iff_conj)
  have fin: "finite K" using bio_finite [OF assms(1)] by simp
  have "card K \<le> length bl" using assms(6) by (metis card_length card_mono finite_set order_trans)
  then have "card ({} \<union> K) < NBUF" using assms(2) by (simp add: tx_ok_def)
  then have c1: "?a \<in> K \<or> card ({} \<union> K) < NBUF" by blast
  have "card (insert ?a {} \<union> K) \<le> card K + 1" using fin by (simp add: card_insert_if)
  then have c2: "?b \<in> K \<or> card (insert ?a {} \<union> K) < NBUF" using assms(8) by auto
  have c3: "?a = ?a \<and> ?b = ?b \<or> ?a = ?b \<and> ?b = ?a" "?a \<in> K \<or> V ?a = D ?a" using assms(7) by auto
  from bc.copy_block [OF assms(1) d(7,3,5) _ _ c1 c2 c3] obtain x t y u w f g where
    t: "bread me ROOTDEV ?a (bc s) = Ok (x, t)" "bread me ROOTDEV ?b t = Ok (y, u)"
      "bwrite me y (put_data y (get_data x u) u) = Ok w" "brelse me x w = Ok f" "brelse me y f = Ok g"
      "bio me g (V(?b := V ?a)) (D(?b := V ?a)) {} (K - {?b}) (W @ [(1, unat ?b, V ?a)])"
    by (auto simp: Let_def)
  moreover have "install_one me tail s = Ok (s\<lparr>bc := g\<rparr>)"
    using t assms(4) b by (simp add: install_one_def logblk_def)
  ultimately show ?thesis by auto
qed

definition log_writes :: "u32 \<Rightarrow> u32 list \<Rightarrow> (u32 \<Rightarrow> bytes) \<Rightarrow> nat \<Rightarrow> (u32 \<times> bytes) list" where
  "log_writes st bl V tail = map (\<lambda>i. (logblk st i, V (bl ! i))) [tail..<length bl]"

definition home_writes :: "u32 \<Rightarrow> u32 list \<Rightarrow> (u32 \<Rightarrow> bytes) \<Rightarrow> nat \<Rightarrow> (u32 \<times> bytes) list" where
  "home_writes st bl V tail = map (\<lambda>i. (bl ! i, V (logblk st i))) [tail..<length bl]"

lemma write_from_spec:
  "bio me (bc s) V D {} (set bl) W \<Longrightarrow> tx_ok (log_start s) nl bl \<Longrightarrow> tail + k = length bl \<Longrightarrow>
   log_dev s = ROOTDEV \<Longrightarrow> take (length bl) (lh_block s) = bl \<Longrightarrow>
   \<exists>c. write_from me k tail s = Ok (s\<lparr>bc := c\<rparr>) \<and>
     bio me c (put_all (log_writes (log_start s) bl V tail) V) (put_all (log_writes (log_start s) bl V tail) D)
       {} (set bl) (W @ phys (log_writes (log_start s) bl V tail))"
proof (induction k arbitrary: tail s V D W)
  case (Suc k)
  let ?st = "log_start s"
  let ?a = "logblk ?st tail" and ?v = "V (bl ! tail)"
  have tl: "tail < length bl" using Suc.prems(3) by simp
  define V1 where "V1 = V(?a := ?v)"
  define D1 where "D1 = D(?a := ?v)"
  from write_one_spec [OF Suc.prems(1,2) tl Suc.prems(4,5)] obtain c where
    c: "write_one me tail s = Ok (s\<lparr>bc := c\<rparr>)" "bio me c V1 D1 {} (set bl) (W @ [(1, unat ?a, ?v)])"
    unfolding V1_def D1_def by blast
  have "V1 a = V a" if "a \<in> set bl" for a using tx_okD(6) [OF Suc.prems(2) tl] that by (auto simp: V1_def)
  then have lw: "log_writes ?st bl V1 (Suc tail) = log_writes ?st bl V (Suc tail)"
    by (simp add: log_writes_def)
  have cons: "log_writes ?st bl V tail = (?a, ?v) # log_writes ?st bl V (Suc tail)"
    using tl by (simp add: log_writes_def upt_conv_Cons)
  let ?ws = "log_writes ?st bl V (Suc tail)"
  have "\<exists>e. write_from me k (Suc tail) (s\<lparr>bc := c\<rparr>) = Ok (s\<lparr>bc := c, bc := e\<rparr>) \<and>
    bio me e (put_all ?ws V1) (put_all ?ws D1) {} (set bl) ((W @ [(1, unat ?a, ?v)]) @ phys ?ws)"
    using Suc.IH [of "s\<lparr>bc := c\<rparr>" V1 D1 "W @ [(1, unat ?a, ?v)]" "Suc tail"] c(2) Suc.prems
    by (simp add: lw)
  then show ?case using c(1) unfolding cons by (auto simp: V1_def D1_def)
next
  case 0
  then have "log_writes (log_start s) bl V tail = []" by (simp add: log_writes_def)
  with 0 show ?case by (intro exI [of _ "bc s"]) simp
qed

lemma install_from_spec:
  "bio me (bc s) V D {} K W \<Longrightarrow> tx_ok (log_start s) nl bl \<Longrightarrow> tail + k = length bl \<Longrightarrow>
   log_dev s = ROOTDEV \<Longrightarrow> take (length bl) (lh_block s) = bl \<Longrightarrow> K = {} \<or> K = set (drop tail bl) \<Longrightarrow>
   (\<forall>i < length bl. V (logblk (log_start s) i) = D (logblk (log_start s) i)) \<Longrightarrow>
   \<exists>c. install_from me k tail s = Ok (s\<lparr>bc := c\<rparr>) \<and>
     bio me c (put_all (home_writes (log_start s) bl V tail) V) (put_all (home_writes (log_start s) bl V tail) D)
       {} {} (W @ phys (home_writes (log_start s) bl V tail))"
proof (induction k arbitrary: tail s V D W K)
  case (Suc k)
  let ?st = "log_start s"
  let ?a = "logblk ?st tail" and ?b = "bl ! tail"
  let ?v = "V ?a"
  have tl: "tail < length bl" using Suc.prems(3) by simp
  have dr: "drop tail bl = ?b # drop (Suc tail) bl" using tl by (simp add: Cons_nth_drop_Suc)
  have K: "K \<subseteq> set bl" "card K + 1 < NBUF \<or> ?b \<in> K"
    using Suc.prems(6) dr set_drop_subset [of tail bl] by (auto simp: NBUF_def MAXOPBLOCKS_def)
  have va: "V ?a = D ?a" using Suc.prems(7) tl by simp
  define V1 where "V1 = V(?b := ?v)"
  define D1 where "D1 = D(?b := ?v)"
  from install_one_spec [OF Suc.prems(1,2) tl Suc.prems(4,5) K(1) va K(2)] obtain c where
    c: "install_one me tail s = Ok (s\<lparr>bc := c\<rparr>)" "bio me c V1 D1 {} (K - {?b}) (W @ [(1, unat ?b, ?v)])"
    unfolding V1_def D1_def by blast
  have nb: "logblk ?st i \<noteq> ?b" if "i < length bl" for i
    using tx_okD(6) [OF Suc.prems(2) that] tl by auto
  have lw: "home_writes ?st bl V1 (Suc tail) = home_writes ?st bl V (Suc tail)"
    using nb by (simp add: home_writes_def V1_def)
  have cons: "home_writes ?st bl V tail = (?b, ?v) # home_writes ?st bl V (Suc tail)"
    using tl by (simp add: home_writes_def upt_conv_Cons)
  have "distinct bl" using Suc.prems(2) by (simp add: tx_ok_def)
  then have "distinct (drop tail bl)" by simp
  then have K1: "K - {?b} = {} \<or> K - {?b} = set (drop (Suc tail) bl)"
    using Suc.prems(6) unfolding dr by auto
  have VD: "\<forall>i < length bl. V1 (logblk ?st i) = D1 (logblk ?st i)"
    using Suc.prems(7) nb by (simp add: V1_def D1_def)
  let ?ws = "home_writes ?st bl V (Suc tail)"
  have "\<exists>e. install_from me k (Suc tail) (s\<lparr>bc := c\<rparr>) = Ok (s\<lparr>bc := c, bc := e\<rparr>) \<and>
    bio me e (put_all ?ws V1) (put_all ?ws D1) {} {} ((W @ [(1, unat ?b, ?v)]) @ phys ?ws)"
    using Suc.IH [of "s\<lparr>bc := c\<rparr>" V1 D1 "K - {?b}" "W @ [(1, unat ?b, ?v)]" "Suc tail"] c(2) Suc.prems(2-5) K1 VD
    by (simp add: lw)
  then show ?case using c(1) unfolding cons by (auto simp: V1_def D1_def)
next
  case 0
  then have "home_writes (log_start s) bl V tail = []" "K = {}" by (auto simp: home_writes_def)
  with 0 show ?case by (intro exI [of _ "bc s"]) simp
qed

lemma write_head_spec:
  assumes "bio me (bc s) V D {} K W" "log_geom (log_start s) nl" "log_dev s = ROOTDEV"
    "lh_n s = int (length bl)" "take (length bl) (lh_block s) = bl" "length bl \<le> LOGSIZE"
    "log_start s \<notin> K" "card K < NBUF"
  shows "\<exists>c. write_head me s = Ok (s\<lparr>bc := c\<rparr>) \<and>
    bio me c (V(log_start s := head_of bl (V (log_start s)))) (D(log_start s := head_of bl (V (log_start s))))
      {} K (W @ [(1, unat (log_start s), head_of bl (V (log_start s)))])"
proof -
  let ?st = "log_start s" let ?h = "head_of bl (V ?st)"
  have st: "?st < FSSIZE" using log_start_props [OF assms(2)] by simp
  have c: "?st \<in> K \<or> card ({} \<union> K) < NBUF" using assms(8) by simp
  from bc.write_through [OF assms(1) st _ c, of ?h] obtain b t u v where
    t: "bread me ROOTDEV ?st (bc s) = Ok (b, t)" "get_data b t = V ?st" "bwrite me b (put_data b ?h t) = Ok u"
      "brelse me b u = Ok v" "bio me v (V(?st := ?h)) (D(?st := ?h)) {} (K - {?st}) (W @ [(1, unat ?st, ?h)])"
    by auto
  have "put_head (length bl) 0 (lh_block s) d = put_head (length bl) 0 bl d" for d
    by (rule put_head_cong) (use assms(5) in \<open>metis add_0 nth_take\<close>)
  then have h: "put_head (nat (lh_n s)) 0 (lh_block s) (wr32 (get_data b t) 0 (word_of_int (lh_n s))) = ?h"
    using assms(4) t(2) by (simp add: head_of_def)
  have "\<not> int LOGSIZE < lh_n s" using assms(4,6) by simp
  then have "write_head me s = Ok (s\<lparr>bc := v\<rparr>)"
    using t(1,3,4) assms(3) h by (simp add: write_head_def Let_def)
  moreover have "K - {?st} = K" using assms(7) by auto
  ultimately show ?thesis using t(5) by auto
qed

definition commit_writes :: "u32 \<Rightarrow> u32 list \<Rightarrow> (u32 \<Rightarrow> bytes) \<Rightarrow> (u32 \<times> bytes) list" where
  "commit_writes st bl V = log_writes st bl V 0 @ (st, head_of bl (V st)) # map (\<lambda>b. (b, V b)) bl
     @ [(st, head_of [] (head_of bl (V st)))]"

lemma log_writes_keys: "fst ` set (log_writes st bl V t) = logblk st ` {t..<length bl}"
  by (simp add: log_writes_def image_image)

lemma log_writes_facts:
  assumes "tx_ok st nl bl"
  shows "i < length bl \<Longrightarrow> put_all (log_writes st bl V 0) X (logblk st i) = V (bl ! i)"
    and "\<not> in_log st nl m \<Longrightarrow> put_all (log_writes st bl V 0) X m = X m"
    and "put_all (log_writes st bl V 0) X st = X st"
proof -
  have k: "in_log st nl (logblk st i)" "logblk st i \<noteq> st" if "i < length bl" for i
    using logblk_props(1,2) tx_okD(1,2) [OF assms that] by blast+
  have "inj_on (logblk st) {0..<length bl}"
  proof (rule inj_onI)
    fix i j assume "i \<in> {0..<length bl}" "j \<in> {0..<length bl}" "logblk st i = logblk st j"
    then show "i = j"
      using logblk_props(4) [OF tx_okD(1,2) [OF assms, of i], of j] tx_okD(2) [OF assms, of j] by simp
  qed
  then have "distinct (map fst (log_writes st bl V 0))"
    by (simp add: log_writes_def distinct_map comp_def)
  then show "i < length bl \<Longrightarrow> put_all (log_writes st bl V 0) X (logblk st i) = V (bl ! i)"
    by (rule put_all_at) (auto simp: log_writes_def)
  show "\<not> in_log st nl m \<Longrightarrow> put_all (log_writes st bl V 0) X m = X m"
    by (rule put_all_other) (use k in \<open>auto simp: log_writes_keys\<close>)
  show "put_all (log_writes st bl V 0) X st = X st"
  proof (rule put_all_other)
    show "st \<notin> fst ` set (log_writes st bl V 0)"
      unfolding log_writes_keys using k(2) by (metis atLeastLessThan_iff imageE)
  qed
qed

lemma home_writes_eq:
  assumes "\<And>i. i < length bl \<Longrightarrow> X (logblk st i) = V (bl ! i)"
  shows "home_writes st bl X 0 = map (\<lambda>b. (b, V b)) bl"
  by (rule nth_equalityI) (simp_all add: home_writes_def assms)

lemma put_all_same: "put_all (map (\<lambda>b. (b, V b)) bl) X m = (if m \<in> set bl then V m else X m)"
  by (induction bl arbitrary: X) auto

lemma commit_spec:
  assumes "bio me (bc s) V D {} (set bl) W" "tx_ok (log_start s) nl bl" "bl \<noteq> []"
    "log_dev s = ROOTDEV" "lh_n s = int (length bl)" "take (length bl) (lh_block s) = bl"
  shows "\<exists>c. commit me s = Ok (s\<lparr>lh_n := 0, bc := c\<rparr>) \<and>
    bio me c (put_all (commit_writes (log_start s) bl V) V) (put_all (commit_writes (log_start s) bl V) D)
      {} {} (W @ phys (commit_writes (log_start s) bl V))"
proof -
  let ?st = "log_start s"
  let ?A = "log_writes ?st bl V 0" let ?h = "head_of bl (V ?st)"
  have n: "nat (lh_n s) = length bl" "0 < lh_n s" using assms(3,5) by simp_all
  have geom: "log_geom ?st nl" and card: "card (set bl) < NBUF" and len: "length bl \<le> LOGSIZE"
    using assms(2) tx_ok_card [OF assms(2)] by (auto simp: tx_ok_def NBUF_def LOGSIZE_def)
  have stK: "?st \<notin> set bl" using assms(2) log_start_props(1) [OF geom] by (auto simp: tx_ok_def)
  from write_from_spec [OF assms(1,2) _ assms(4,6), of 0 "length bl"] obtain c1 where
    c1: "write_log me s = Ok (s\<lparr>bc := c1\<rparr>)"
      "bio me c1 (put_all ?A V) (put_all ?A D) {} (set bl) (W @ phys ?A)"
    using n by (auto simp: write_log_def)
  let ?s1 = "s\<lparr>bc := c1\<rparr>"
  note lw = log_writes_facts [OF assms(2)]
  have "\<exists>c. write_head me ?s1 = Ok (?s1\<lparr>bc := c\<rparr>) \<and>
    bio me c ((put_all ?A V)(?st := ?h)) ((put_all ?A D)(?st := ?h)) {} (set bl) ((W @ phys ?A) @ [(1, unat ?st, ?h)])"
    using write_head_spec [of me ?s1 "put_all ?A V" "put_all ?A D" "set bl" "W @ phys ?A" nl bl]
      c1(2) geom assms(4,5,6) len stK card lw(3) [of V V] by (simp del: fun_upd_apply)
  then obtain c2 where c2: "write_head me ?s1 = Ok (s\<lparr>bc := c2\<rparr>)"
    "bio me c2 ((put_all ?A V)(?st := ?h)) ((put_all ?A D)(?st := ?h)) {} (set bl) ((W @ phys ?A) @ [(1, unat ?st, ?h)])"
    by auto
  let ?s2 = "s\<lparr>bc := c2\<rparr>"
  define V2 where "V2 = (put_all ?A V)(?st := ?h)"
  define D2 where "D2 = (put_all ?A D)(?st := ?h)"
  have lb: "V2 (logblk ?st i) = V (bl ! i)" "D2 (logblk ?st i) = V (bl ! i)" if "i < length bl" for i
    using lw(1) that logblk_props(2) [OF tx_okD(1,2) [OF assms(2) that]] by (simp_all add: V2_def D2_def)
  have hw: "home_writes ?st bl V2 0 = map (\<lambda>b. (b, V b)) bl"
    by (rule home_writes_eq) (rule lb)
  let ?B = "map (\<lambda>b. (b, V b)) bl"
  have "\<exists>c. install_from me (length bl) 0 ?s2 = Ok (?s2\<lparr>bc := c\<rparr>) \<and>
     bio me c (put_all ?B V2) (put_all ?B D2) {} {} (((W @ phys ?A) @ [(1, unat ?st, ?h)]) @ phys ?B)"
    using install_from_spec [of me ?s2 V2 D2 "set bl" "(W @ phys ?A) @ [(1, unat ?st, ?h)]" nl bl 0 "length bl"]
      c2(2) assms(2,4,6) lb unfolding V2_def [symmetric] D2_def [symmetric] by (simp add: hw)
  then obtain c3 where c3: "install_trans me ?s2 = Ok (s\<lparr>bc := c3\<rparr>)"
    "bio me c3 (put_all ?B V2) (put_all ?B D2) {} {} (((W @ phys ?A) @ [(1, unat ?st, ?h)]) @ phys ?B)"
    using n by (auto simp: install_trans_def)
  let ?s3 = "s\<lparr>bc := c3, lh_n := 0\<rparr>" let ?hz = "head_of [] ?h"
  have vst: "put_all ?B V2 ?st = ?h" using stK by (simp add: put_all_same V2_def)
  have "\<exists>c. write_head me ?s3 = Ok (?s3\<lparr>bc := c\<rparr>) \<and>
    bio me c ((put_all ?B V2)(?st := ?hz)) ((put_all ?B D2)(?st := ?hz)) {} {}
      ((((W @ phys ?A) @ [(1, unat ?st, ?h)]) @ phys ?B) @ [(1, unat ?st, ?hz)])"
    using write_head_spec [of me ?s3 "put_all ?B V2" "put_all ?B D2" "{}" "((W @ phys ?A) @ [(1, unat ?st, ?h)]) @ phys ?B" nl "[]"]
      c3(2) geom assms(4) vst by (simp add: NBUF_def MAXOPBLOCKS_def del: fun_upd_apply)
  then obtain c4 where c4: "write_head me ?s3 = Ok (?s3\<lparr>bc := c4\<rparr>)"
    "bio me c4 ((put_all ?B V2)(?st := ?hz)) ((put_all ?B D2)(?st := ?hz)) {} {}
      ((((W @ phys ?A) @ [(1, unat ?st, ?h)]) @ phys ?B) @ [(1, unat ?st, ?hz)])" by blast
  have "commit me s = Ok (s\<lparr>lh_n := 0, bc := c4\<rparr>)"
    using n(2) c1(1) c2(1) c3(1) c4(1) by (simp add: commit_def)
  then show ?thesis
    using c4(2) by (auto simp: commit_writes_def V2_def D2_def)
qed

subsection \<open>Recovery\<close>

text \<open>The header block \<open>d\<close> names the transaction \<open>bl\<close>.\<close>

definition names :: "bytes \<Rightarrow> u32 list \<Rightarrow> bool" where
  "names d bl \<longleftrightarrow> sint (rd32 d 0) = int (length bl) \<and> (\<forall>i < length bl. rd32 d (4 + 4 * i) = bl ! i)"

lemma names_head_of: "length bl \<le> LOGSIZE \<Longrightarrow> names (head_of bl d) bl"
  using head_of_reads by (simp add: names_def)

lemma names_unique:
  assumes "names d bl" "names d cl"
  shows "bl = cl"
proof (rule nth_equalityI)
  show "length bl = length cl" using assms by (simp add: names_def)
  then show "bl ! i = cl ! i" if "i < length bl" for i using assms that by (auto simp: names_def)
qed

definition recovered :: "u32 \<Rightarrow> u32 list \<Rightarrow> (u32 \<Rightarrow> bytes) \<Rightarrow> u32 \<Rightarrow> bytes" where
  "recovered st bl V = (put_all (home_writes st bl V 0) V)(st := head_of [] (V st))"

lemma recover_spec:
  assumes "bio me (bc s) V V {} {} W" "tx_ok (log_start s) nl bl" "log_dev s = ROOTDEV" "names (V (log_start s)) bl"
  shows "\<exists>t W'. recover_from_log me s = Ok t \<and> bio me (bc t) (recovered (log_start s) bl V) (recovered (log_start s) bl V) {} {} W'
    \<and> lh_n t = 0 \<and> log_start t = log_start s \<and> log_size t = log_size s \<and> log_dev t = log_dev s
    \<and> log_lk t = log_lk s \<and> outstanding t = outstanding s \<and> committing t = committing s \<and> length (lh_block t) = LOGSIZE"
proof -
  let ?st = "log_start s" let ?n = "length bl"
  have geom: "log_geom ?st nl" and len: "?n \<le> LOGSIZE"
    using assms(2) by (auto simp: tx_ok_def NBUF_def LOGSIZE_def)
  have st: "?st < FSSIZE" using log_start_props [OF geom] by simp
  have room: "?st \<in> {} \<or> card ({} \<union> {} :: u32 set) < NBUF" by (simp add: NBUF_def MAXOPBLOCKS_def)
  from bc.read_block [OF assms(1) st _ room] obtain b t u where
    t: "bread me ROOTDEV ?st (bc s) = Ok (b, t)" "get_data b t = V ?st" "brelse me b t = Ok u"
      "bio me u V V {} {} W" by auto
  let ?bl = "map (\<lambda>i. if i < ?n then rd32 (V ?st) (4 + 4 * i) else lh_block s ! i) [0..<LOGSIZE]"
  let ?s1 = "s\<lparr>lh_n := int ?n, lh_block := ?bl, bc := u\<rparr>"
  have rh: "read_head me s = Ok ?s1"
    using t assms(3,4) len by (simp add: read_head_def Let_def names_def)
  have tk: "take ?n ?bl = bl"
    using assms(4) len by (intro nth_equalityI) (simp_all add: names_def)
  let ?ws = "home_writes ?st bl V 0"
  have "\<exists>c. install_from me ?n 0 ?s1 = Ok (?s1\<lparr>bc := c\<rparr>) \<and>
     bio me c (put_all ?ws V) (put_all ?ws V) {} {} (W @ phys ?ws)"
    using install_from_spec [of me ?s1 V V "{}" W nl bl 0 ?n] t(4) assms(2,3) tk by simp
  then obtain c where c: "install_trans me ?s1 = Ok (?s1\<lparr>bc := c\<rparr>)"
    "bio me c (put_all ?ws V) (put_all ?ws V) {} {} (W @ phys ?ws)"
    by (auto simp: install_trans_def)
  let ?s2 = "?s1\<lparr>bc := c, lh_n := 0\<rparr>"
  have vst: "put_all ?ws V ?st = V ?st"
  proof (rule put_all_other)
    have "?st \<notin> set bl" using assms(2) log_start_props(1) [OF geom] by (auto simp: tx_ok_def)
    moreover have "fst ` set ?ws \<subseteq> set bl" by (auto simp: home_writes_def)
    ultimately show "?st \<notin> fst ` set ?ws" by blast
  qed
  have "\<exists>e. write_head me ?s2 = Ok (?s2\<lparr>bc := e\<rparr>) \<and>
    bio me e (recovered ?st bl V) (recovered ?st bl V) {} {} ((W @ phys ?ws) @ [(1, unat ?st, head_of [] (V ?st))])"
    using write_head_spec [of me ?s2 "put_all ?ws V" "put_all ?ws V" "{}" "W @ phys ?ws" nl "[]"]
      c(2) geom assms(3) vst by (simp add: recovered_def NBUF_def MAXOPBLOCKS_def del: fun_upd_apply)
  then obtain e where e: "write_head me ?s2 = Ok (?s2\<lparr>bc := e\<rparr>)"
    "bio me e (recovered ?st bl V) (recovered ?st bl V) {} {} ((W @ phys ?ws) @ [(1, unat ?st, head_of [] (V ?st))])"
    by blast
  have "recover_from_log me s = Ok (?s2\<lparr>bc := e\<rparr>)"
    using rh c(1) e(1) by (simp add: recover_from_log_def)
  with e(2) show ?thesis by auto
qed

text \<open>What recovery leaves in the blocks outside the log.\<close>

lemma recovered_home:
  assumes "tx_ok st nl bl" "\<not> in_log st nl m"
  shows "recovered st bl V m = (if m \<in> set bl then put_all (home_writes st bl V 0) V m else V m)"
proof -
  have "m \<noteq> st" using assms log_start_props(1) by (auto simp: tx_ok_def)
  moreover have "put_all (home_writes st bl V 0) V m = V m" if "m \<notin> set bl"
    by (rule put_all_other) (use that in \<open>auto simp: home_writes_def\<close>)
  ultimately show ?thesis by (simp add: recovered_def)
qed

lemma initlog_spec:
  assumes "bio me (bc s) V V {} {} W" "sb_logstart (sb_of (V 1)) = st" "sb_nlog (sb_of (V 1)) = nl"
    "tx_ok st nl bl" "names (V st) bl"
  shows "\<exists>t W'. initlog me ROOTDEV s = Ok t \<and> bio me (bc t) (recovered st bl V) (recovered st bl V) {} {} W'
    \<and> lh_n t = 0 \<and> log_start t = st \<and> log_size t = nl \<and> log_dev t = ROOTDEV \<and> \<not> log_lk t
    \<and> outstanding t = outstanding s \<and> committing t = committing s \<and> length (lh_block t) = LOGSIZE"
proof -
  have geom: "log_geom st nl" using assms(4) by (simp add: tx_ok_def)
  have one: "1 < FSSIZE" using log_start_props [OF geom] by simp
  have room: "1 \<in> {} \<or> card ({} \<union> {} :: u32 set) < NBUF" by (simp add: NBUF_def MAXOPBLOCKS_def)
  from bc.read_block [OF assms(1) one _ room] obtain b t u where
    t: "bread me ROOTDEV 1 (bc s) = Ok (b, t)" "get_data b t = V 1" "brelse me b t = Ok u"
      "bio me u V V {} {} W" by auto
  let ?s = "s\<lparr>log_lk := False, bc := u, log_start := st, log_size := nl, log_dev := ROOTDEV\<rparr>"
  have "initlog me ROOTDEV s = recover_from_log me ?s"
    using t assms(2,3) by (simp add: initlog_def readsb_def Let_def LOGSIZE_def MAXOPBLOCKS_def BSIZE_def)
  then show ?thesis using recover_spec [of me ?s V W nl bl] t(4) assms(4,5) by auto
qed

subsection \<open>Crashes\<close>

text \<open>The disk after the first \<open>k\<close> of the sector writes \<open>ws\<close>.\<close>

definition crash_disk :: "nat \<Rightarrow> wtrace \<Rightarrow> (nat \<Rightarrow> nat \<Rightarrow> bytes) \<Rightarrow> nat \<Rightarrow> nat \<Rightarrow> bytes" where
  "crash_disk k ws d = fold (\<lambda>(dr, m, x) f. f(dr := (f dr)(m := x))) (take k ws) d"

lemma crash_disk_phys:
  "(\<lambda>n. crash_disk k (phys ws) d 1 (unat n)) = put_all (take k ws) (\<lambda>n. d 1 (unat n))"
proof (induction ws arbitrary: k d)
  case (Cons w ws)
  obtain m x where w: "w = (m, x)" by (cases w)
  show ?case
  proof (cases k)
    case (Suc j)
    have e: "crash_disk (Suc j) (phys ((m, x) # ws)) d = crash_disk j (phys ws) (d(1 := (d 1)(unat m := x)))"
      by (simp add: crash_disk_def)
    have upd: "(\<lambda>n. (d(1 := (d 1)(unat m := x))) 1 (unat n)) = (\<lambda>n. d 1 (unat n))(m := x)"
      by (auto simp: fun_eq_iff)
    show ?thesis unfolding w Suc e Cons.IH upd take_Suc_Cons put_all_simps ..
  qed (simp add: crash_disk_def)
qed (simp add: crash_disk_def)

text \<open>
  The log between operations: block \<open>n\<close> reads as \<open>V n\<close> and is \<open>D n\<close> on the disk, the two differ
  only on the logged blocks \<open>bl\<close>, which are pinned, and the header on the disk is empty.
\<close>

definition log_inv :: "int \<Rightarrow> logst \<Rightarrow> u32 list \<Rightarrow> (u32 \<Rightarrow> bytes) \<Rightarrow> (u32 \<Rightarrow> bytes) \<Rightarrow> bool" where
  "log_inv me s bl V D \<longleftrightarrow> bio me (bc s) V D {} (set bl) (dtrace (ide (bc s))) \<and> tx_ok (log_start s) (log_size s) bl
     \<and> log_dev s = ROOTDEV \<and> lh_n s = int (length bl) \<and> length (lh_block s) = LOGSIZE
     \<and> take (length bl) (lh_block s) = bl \<and> names (D (log_start s)) [] \<and> (\<forall>m. m \<notin> set bl \<longrightarrow> V m = D m)
     \<and> sb_logstart (sb_of (D 1)) = log_start s \<and> sb_nlog (sb_of (D 1)) = log_size s
     \<and> \<not> log_lk s \<and> \<not> committing s \<and> 0 \<le> outstanding s \<and> 1 \<notin> set bl"

text \<open>The disk after \<open>k\<close> of the writes of a commit, as seen by the next recovery.\<close>

lemma crash_state:
  assumes "tx_ok st nl bl" "names (D st) []" "\<And>m. m \<notin> set bl \<Longrightarrow> V m = D m" "bl \<noteq> []"
    and X_def: "X = put_all (take k (commit_writes st bl V)) D"
  shows "\<exists>cl. (cl = [] \<or> cl = bl) \<and> names (X st) cl
    \<and> (\<forall>m. \<not> in_log st nl m \<longrightarrow> recovered st cl X m = (if k \<le> length bl then D m else V m))"
proof -
  let ?n = "length bl" let ?A = "log_writes st bl V 0" let ?h = "head_of bl (V st)"
  let ?B = "map (\<lambda>b. (b, V b)) bl"
  have lenA: "length ?A = ?n" by (simp add: log_writes_def)
  have geom: "log_geom st nl" and len: "?n \<le> LOGSIZE" and dist: "distinct bl"
    and out: "\<And>b. b \<in> set bl \<Longrightarrow> \<not> in_log st nl b"
    using assms(1) by (auto simp: tx_ok_def NBUF_def LOGSIZE_def)
  have st: "in_log st nl st" "st \<notin> set bl" using log_start_props(1) [OF geom] out by auto
  note lw = log_writes_facts [OF assms(1)]
  have none: "tx_ok st nl []" using geom by (simp add: tx_ok_def NBUF_def MAXOPBLOCKS_def log_geom_def)
  have empty: "recovered st [] X m = X m" if "\<not> in_log st nl m" for m
    using recovered_home [OF none that] by simp
  have keysA: "fst ` set ?A = logblk st ` {0..<?n}" by (rule log_writes_keys)
  have inA: "in_log st nl (logblk st i)" "logblk st i \<noteq> st" if "i < ?n" for i
    using logblk_props(1,2) tx_okD(1,2) [OF assms(1) that] by blast+
  consider (before) "k \<le> ?n" | (during) "?n < k" "k \<le> ?n + 1 + ?n" | (after) "?n + 1 + ?n < k" by linarith
  then show ?thesis
  proof cases
    case before
    have X: "X = put_all (take k ?A) D" using before lenA by (simp add: X_def commit_writes_def)
    have sub: "fst ` set (take k ?A) \<subseteq> logblk st ` {0..<?n}" using keysA set_take_subset [of k ?A] by blast
    have "X m = D m" if "\<not> in_log st nl m \<or> m = st" for m
      unfolding X
    proof (rule put_all_other)
      show "m \<notin> fst ` set (take k ?A)"
      proof
        assume "m \<in> fst ` set (take k ?A)"
        then obtain i where "i < ?n" "m = logblk st i" using sub by fastforce
        then show False using inA [of i] that by auto
      qed
    qed
    then have "names (X st) []" "\<forall>m. \<not> in_log st nl m \<longrightarrow> recovered st [] X m = D m"
      using assms(2) empty by simp_all
    then show ?thesis using before by (intro exI [of _ "[]"]) simp
  next
    case during
    define j where "j = k - ?n - 1"
    have tk: "take k (commit_writes st bl V) = ?A @ (st, ?h) # take j ?B"
      using during lenA by (simp add: commit_writes_def j_def take_Cons')
    let ?Y = "(put_all ?A D)(st := ?h)"
    have X: "X = put_all (take j ?B) ?Y" by (simp add: X_def tk)
    have tb: "take j ?B = map (\<lambda>b. (b, V b)) (take j bl)" by (simp add: take_map)
    have Xm: "X m = (if m \<in> set (take j bl) then V m else ?Y m)" for m
      unfolding X tb by (rule put_all_same)
    have jb: "set (take j bl) \<subseteq> set bl" by (rule set_take_subset)
    have Xst: "X st = ?h" using st(2) jb by (auto simp: Xm)
    have Xlb: "X (logblk st i) = V (bl ! i)" if "i < ?n" for i
      using tx_okD(6) [OF assms(1) that] jb inA(2) [OF that] lw(1) [OF that, of V D] by (auto simp: Xm)
    have hw: "home_writes st bl X 0 = ?B" by (rule home_writes_eq) (rule Xlb)
    have Xh: "X m = D m \<or> X m = V m" if "\<not> in_log st nl m" for m
      using lw(2) [OF that, of V D] that st(1) by (auto simp: Xm)
    have "recovered st bl X m = V m" if "\<not> in_log st nl m" for m
      unfolding recovered_home [OF assms(1) that] hw put_all_same
      using Xh [OF that] assms(3) [of m] by auto
    moreover have "names (X st) bl" unfolding Xst by (rule names_head_of [OF len])
    ultimately show ?thesis using during by (intro exI [of _ bl]) simp
  next
    case after
    have tk: "take k (commit_writes st bl V) = commit_writes st bl V"
      using after lenA by (simp add: commit_writes_def)
    have X: "X = (put_all ?B ((put_all ?A D)(st := ?h)))(st := head_of [] ?h)"
      by (simp add: X_def tk) (simp add: commit_writes_def)
    have "X m = V m" if "\<not> in_log st nl m" for m
    proof -
      have "m \<noteq> st" using that st(1) by auto
      then show ?thesis using lw(2) [OF that, of V D] assms(3) [of m] by (auto simp: X put_all_same)
    qed
    moreover have "names (X st) []" using names_head_of [of "[]" ?h] by (simp add: X)
    ultimately show ?thesis using after empty by (intro exI [of _ "[]"]) simp
  qed
qed

lemma log_invD:
  assumes "log_inv me s bl V D"
  shows "bio me (bc s) V D {} (set bl) (dtrace (ide (bc s)))" "tx_ok (log_start s) (log_size s) bl"
    "log_dev s = ROOTDEV" "lh_n s = int (length bl)" "take (length bl) (lh_block s) = bl"
    "names (D (log_start s)) []" "m \<notin> set bl \<Longrightarrow> V m = D m" "log_geom (log_start s) (log_size s)"
    "sb_logstart (sb_of (D 1)) = log_start s" "sb_nlog (sb_of (D 1)) = log_size s" "1 \<notin> set bl"
    "D = (\<lambda>n. disk (ide (bc s)) 1 (unat n))"
  using assms by (auto simp: log_inv_def tx_ok_def bio_def)

lemma put_all_commit_home:
  assumes "tx_ok st nl bl" "\<not> in_log st nl m" "m \<notin> set bl \<Longrightarrow> V m = D m"
  shows "put_all (commit_writes st bl V) D m = V m" "put_all (commit_writes st bl V) V m = V m"
proof -
  have "m \<noteq> st" using assms(1,2) log_start_props(1) by (auto simp: tx_ok_def)
  then show "put_all (commit_writes st bl V) D m = V m" "put_all (commit_writes st bl V) V m = V m"
    using log_writes_facts(2) [OF assms(1,2)] assms(3) by (auto simp: commit_writes_def put_all_same)
qed

text \<open>
  C1. Crash safety.  Take any state of the log between operations; \<open>commit\<close> succeeds.  Let the
  machine crash after any number \<open>k\<close> of the disk writes that the commit makes, and boot again
  with an empty cache on the disk the crash left.  Then \<open>initlog\<close> succeeds and leaves in every
  block outside the log area either what it held before the commit (when the crash came before
  the header was written) or what the transaction put there (afterwards): all of the
  transaction or nothing of it.
\<close>

theorem commit_crash_safe:
  assumes "log_inv me s bl V D"
  shows "\<exists>t. commit me s = Ok t \<and> (\<forall>k r. bio_boot (bc r) \<longrightarrow>
    disk (ide (bc r)) = crash_disk k (drop (length (dtrace (ide (bc s)))) (dtrace (ide (bc t)))) (disk (ide (bc s))) \<longrightarrow>
    (\<exists>u. initlog me' ROOTDEV (r\<lparr>bc := binit (bc r)\<rparr>) = Ok u
      \<and> (\<forall>m. \<not> in_log (log_start s) (log_size s) m \<longrightarrow>
          disk (ide (bc u)) 1 (unat m) = (if k \<le> length bl then D m else V m))))"
proof -
  let ?st = "log_start s" and ?nl = "log_size s"
  note i = log_invD [OF assms]
  have boot: "\<exists>u. initlog me' ROOTDEV (r\<lparr>bc := binit (bc r)\<rparr>) = Ok u
      \<and> (\<forall>m. \<not> in_log ?st ?nl m \<longrightarrow> disk (ide (bc u)) 1 (unat m) = recovered ?st cl X m)"
    if r: "bio_boot (bc r)" "(\<lambda>n. disk (ide (bc r)) 1 (unat n)) = X" and cl: "tx_ok ?st ?nl cl" "names (X ?st) cl"
      and one: "X 1 = D 1" for r X cl
  proof -
    have "bio me' (bc (r\<lparr>bc := binit (bc r)\<rparr>)) X X {} {} (dtrace (ide (bc r)))"
      using binit_ok [OF r(1), of me'] r(2) by simp
    from initlog_spec [OF this _ _ cl] i(9,10) one obtain u W' where
      "initlog me' ROOTDEV (r\<lparr>bc := binit (bc r)\<rparr>) = Ok u"
      "bio me' (bc u) (recovered ?st cl X) (recovered ?st cl X) {} {} W'" by auto
    then show ?thesis by (auto simp: bio_def fun_eq_iff)
  qed
  have none: "tx_ok ?st ?nl []" using i(8) by (simp add: tx_ok_def NBUF_def MAXOPBLOCKS_def log_geom_def)
  show ?thesis
  proof (cases "bl = []")
    case True
    have "commit me s = Ok s" using i(4) True by (simp add: commit_def)
    moreover have "\<exists>u. initlog me' ROOTDEV (r\<lparr>bc := binit (bc r)\<rparr>) = Ok u
      \<and> (\<forall>m. \<not> in_log ?st ?nl m \<longrightarrow> disk (ide (bc u)) 1 (unat m) = (if k \<le> length bl then D m else V m))"
      if "bio_boot (bc r)" "disk (ide (bc r)) = crash_disk k (drop (length (dtrace (ide (bc s)))) (dtrace (ide (bc s)))) (disk (ide (bc s)))" for k r
    proof -
      have "(\<lambda>n. disk (ide (bc r)) 1 (unat n)) = D" using that(2) i(12) by (simp add: crash_disk_def)
      from boot [OF that(1) this none i(6)] show ?thesis
        using recovered_home [OF none] i(7) True by auto
    qed
    ultimately show ?thesis by blast
  next
    case False
    let ?ws = "commit_writes ?st bl V"
    from commit_spec [OF i(1,2) False i(3-5)] obtain c where
      c: "commit me s = Ok (s\<lparr>lh_n := 0, bc := c\<rparr>)"
        "bio me c (put_all ?ws V) (put_all ?ws D) {} {} (dtrace (ide (bc s)) @ phys ?ws)" by blast
    have tr: "drop (length (dtrace (ide (bc s)))) (dtrace (ide c)) = phys ?ws"
      using c(2) by (metis append_eq_conv_conj bio_trace)
    have "\<exists>u. initlog me' ROOTDEV (r\<lparr>bc := binit (bc r)\<rparr>) = Ok u
      \<and> (\<forall>m. \<not> in_log ?st ?nl m \<longrightarrow> disk (ide (bc u)) 1 (unat m) = (if k \<le> length bl then D m else V m))"
      if r: "bio_boot (bc r)" "disk (ide (bc r)) = crash_disk k (phys ?ws) (disk (ide (bc s)))" for k r
    proof -
      define X where "X = put_all (take k ?ws) D"
      have X: "(\<lambda>n. disk (ide (bc r)) 1 (unat n)) = X"
        unfolding r(2) X_def crash_disk_phys i(12) ..
      from crash_state [OF i(2,6,7) False X_def] obtain cl where
        cl: "cl = [] \<or> cl = bl" "names (X ?st) cl"
          "\<forall>m. \<not> in_log ?st ?nl m \<longrightarrow> recovered ?st cl X m = (if k \<le> length bl then D m else V m)" by blast
      have ok: "tx_ok ?st ?nl cl" using cl(1) none i(2) by auto
      have one: "X 1 = D 1"
      proof -
        have "1 \<notin> fst ` set ?ws"
          using i(11) log_start_props(1,4) [OF i(8)] logblk_props(1) tx_okD(1,2) [OF i(2)]
          by (fastforce simp: commit_writes_def log_writes_def)
        then have "1 \<notin> fst ` set (take k ?ws)" by (meson image_mono set_take_subset subsetD)
        then show ?thesis unfolding X_def by (rule put_all_other)
      qed
      from boot [OF r(1) X ok cl(2) one] cl(3) show ?thesis by auto
    qed
    then show ?thesis using c(1) tr by (intro exI [of _ "s\<lparr>lh_n := 0, bc := c\<rparr>"]) simp
  qed
qed

subsection \<open>Operations between commits\<close>

lemma log_find_spec:
  "i \<le> log_find k i bno bl \<and> log_find k i bno bl \<le> i + k
   \<and> (log_find k i bno bl < i + k \<longrightarrow> bl ! log_find k i bno bl = bno)
   \<and> (\<forall>j. i \<le> j \<longrightarrow> j < log_find k i bno bl \<longrightarrow> bl ! j \<noteq> bno)"
proof (induction k arbitrary: i)
  case (Suc k)
  show ?case
  proof (cases "bl ! i = bno")
    case False
    have "bl ! j \<noteq> bno" if "i \<le> j" "j < log_find k (Suc i) bno bl" for j
      using Suc.IH [of "Suc i"] False that by (cases "j = i") auto
    then show ?thesis using Suc.IH [of "Suc i"] False by auto
  qed simp
qed simp

text \<open>The blocks of the transaction after a write of block \<open>n\<close>: absorbed when already there.\<close>

definition absorb :: "u32 \<Rightarrow> u32 list \<Rightarrow> u32 list" where
  "absorb n bl = (if n \<in> set bl then bl else bl @ [n])"

lemma log_header_absorbs:
  assumes "take (length bl) hb = bl" "length bl < length hb"
  shows "take (length (absorb n bl)) (hb[log_find (length bl) 0 n hb := n]) = absorb n bl"
    "log_find (length bl) 0 n hb = length bl \<longleftrightarrow> n \<notin> set bl"
proof -
  let ?i = "log_find (length bl) 0 n hb"
  have nth: "hb ! j = bl ! j" if "j < length bl" for j using assms(1) that by (metis nth_take)
  note f = log_find_spec [of 0 "length bl" n hb]
  show iff: "?i = length bl \<longleftrightarrow> n \<notin> set bl"
  proof
    assume "?i = length bl"
    then have "\<forall>j < length bl. bl ! j \<noteq> n" using f nth by auto
    then show "n \<notin> set bl" by (metis in_set_conv_nth)
  next
    assume a: "n \<notin> set bl"
    show "?i = length bl"
    proof (rule ccontr)
      assume "?i \<noteq> length bl"
      then have "?i < length bl" using f by simp
      then have "bl ! ?i = n" using f nth by simp
      then show False using a nth_mem [OF \<open>?i < length bl\<close>] by simp
    qed
  qed
  show "take (length (absorb n bl)) (hb[?i := n]) = absorb n bl"
  proof (cases "n \<in> set bl")
    case True
    then have "?i < length bl" using iff f by linarith
    then have "hb[?i := n] = hb" using f by (metis add_0 list_update_id)
    then show ?thesis using True assms(1) by (simp add: absorb_def)
  next
    case False
    then have "?i = length bl" using iff by simp
    then show ?thesis using False assms by (simp add: absorb_def take_Suc_conv_app_nth take_update_cancel)
  qed
qed

lemma log_write_spec:
  assumes "log_inv me s bl V D" "1 \<le> outstanding s" "n < FSSIZE" "\<not> in_log (log_start s) (log_size s) n" "n \<noteq> 1"
    "length bl + 1 < unat (log_size s)" "length bl + 1 < NBUF"
  shows "\<exists>b c t e. bread me ROOTDEV n (bc s) = Ok (b, c) \<and> get_data b c = V n
    \<and> log_write b (s\<lparr>bc := put_data b d c\<rparr>) = Ok t \<and> brelse me b (bc t) = Ok e
    \<and> outstanding t = outstanding s \<and> log_start t = log_start s \<and> log_size t = log_size s
    \<and> log_inv me (t\<lparr>bc := e\<rparr>) (absorb n bl) (V(n := d)) D"
proof -
  note i = log_invD [OF assms(1)]
  have room: "n \<in> set bl \<or> card ({} \<union> set bl) < NBUF" using tx_ok_card [OF i(2)] by simp
  from bc.write_pinned [OF i(1) assms(3) _ room, of d] obtain b c e where
    c: "bread me ROOTDEV n (bc s) = Ok (b, c)" "get_data b c = V n" "holds (put_data b d c) b n"
      "brelse me b (pin_buf b (put_data b d c)) = Ok e"
      "bio me e (V(n := d)) D {} (insert n (set bl)) (dtrace (ide (bc s)))" by auto
  have bn: "blockno (bufs (put_data b d c) ! b) = n" using c(3) by (simp add: holds_def has_block_def)
  have lk: "\<not> log_lk s" "length (lh_block s) = LOGSIZE" "0 \<le> outstanding s" "\<not> committing s"
    using assms(1) by (simp_all add: log_inv_def)
  have small: "unat (log_size s) < 2 ^ 31"
    using i(8) by (simp add: log_geom_def FSSIZE_def)
  have fits: "\<not> (int LOGSIZE \<le> lh_n s \<or> sint (log_size s) - 1 \<le> lh_n s)"
  proof -
    have "LOGSIZE = NBUF" by (simp add: NBUF_def LOGSIZE_def)
    then show ?thesis using assms(6,7) i(4) unfolding sint_eq_unat [OF small] by linarith
  qed
  let ?i = "log_find (length bl) 0 n (lh_block s)"
  have hl: "length bl < length (lh_block s)" using assms(7) lk(2) by (simp add: NBUF_def LOGSIZE_def)
  note h = log_header_absorbs [OF i(5) hl, of n]
  let ?t = "s\<lparr>bc := pin_buf b (put_data b d c), lh_block := (lh_block s)[?i := n], lh_n := int (length (absorb n bl))\<rparr>"
  have len: "int (length (absorb n bl)) = (if ?i = length bl then lh_n s + 1 else lh_n s)"
    unfolding h(2) using i(4) by (simp add: absorb_def)
  have "log_write b (s\<lparr>bc := put_data b d c\<rparr>) = Ok ?t"
    using fits assms(2) lk(1) bn i(4) len by (cases s) (auto simp: log_write_def Let_def split: if_splits)
  moreover have "log_inv me (?t\<lparr>bc := e\<rparr>) (absorb n bl) (V(n := d)) D"
    unfolding log_inv_def
  proof (intro conjI)
    have sa: "set (absorb n bl) = insert n (set bl)" by (auto simp: absorb_def)
    show "bio me (bc (?t\<lparr>bc := e\<rparr>)) (V(n := d)) D {} (set (absorb n bl)) (dtrace (ide (bc (?t\<lparr>bc := e\<rparr>))))"
      using c(5) bio_trace [OF c(5)] unfolding sa by simp
    have "length (absorb n bl) \<le> length bl + 1" by (simp add: absorb_def)
    then show "tx_ok (log_start (?t\<lparr>bc := e\<rparr>)) (log_size (?t\<lparr>bc := e\<rparr>)) (absorb n bl)"
      using i(2) assms(3,4,6,7) by (auto simp: tx_ok_def absorb_def)
    show "\<forall>m. m \<notin> set (absorb n bl) \<longrightarrow> (V(n := d)) m = D m" unfolding sa using i(7) by simp
    show "1 \<notin> set (absorb n bl)" unfolding sa using i(11) assms(5) by auto
    show "take (length (absorb n bl)) (lh_block (?t\<lparr>bc := e\<rparr>)) = absorb n bl" using h(1) by simp
  qed (use i lk in simp_all)
  ultimately show ?thesis using c by (intro exI [of _ b] exI [of _ c] exI [of _ ?t] exI [of _ e]) simp
qed

lemma put_all_agree: "m \<in> fst ` set ws \<or> V m = D m \<Longrightarrow> put_all ws V m = put_all ws D m"
proof (induction ws arbitrary: V D)
  case (Cons w ws)
  obtain a x where w: "w = (a, x)" by (cases w)
  have "put_all ws (V(a := x)) m = put_all ws (D(a := x)) m"
    by (rule Cons.IH) (use Cons.prems w in auto)
  then show ?case by (simp add: w)
qed simp

lemma end_op_last:
  assumes "log_inv me s bl V D" "outstanding s = 1"
  shows "\<exists>t V'. end_op me s = Ok t \<and> log_inv me t [] V' V' \<and> outstanding t = 0
    \<and> log_start t = log_start s \<and> log_size t = log_size s
    \<and> (\<forall>m. \<not> in_log (log_start s) (log_size s) m \<longrightarrow> V' m = V m)"
proof -
  note i = log_invD [OF assms(1)]
  have lk: "\<not> log_lk s" "\<not> committing s" "length (lh_block s) = LOGSIZE" using assms(1) by (simp_all add: log_inv_def)
  let ?s = "s\<lparr>log_lk := False, outstanding := 0, committing := True\<rparr>"
  have none: "tx_ok (log_start s) (log_size s) []" using i(8) by (simp add: tx_ok_def NBUF_def MAXOPBLOCKS_def log_geom_def)
  have "\<exists>c V'. commit me ?s = Ok (?s\<lparr>lh_n := 0, bc := c\<rparr>) \<and> bio me c V' V' {} {} (dtrace (ide c))
    \<and> names (V' (log_start s)) [] \<and> V' 1 = D 1 \<and> (\<forall>m. \<not> in_log (log_start s) (log_size s) m \<longrightarrow> V' m = V m)"
  proof (cases "bl = []")
    case True
    have "V = D" using i(7) True by (simp add: fun_eq_iff)
    moreover have "?s\<lparr>lh_n := 0, bc := bc s\<rparr> = ?s" using i(4) True by (cases s) simp
    ultimately show ?thesis using i True by (intro exI [of _ "bc s"] exI [of _ V]) (simp add: commit_def)
  next
    case False
    let ?ws = "commit_writes (log_start s) bl V"
    have "\<exists>c. commit me ?s = Ok (?s\<lparr>lh_n := 0, bc := c\<rparr>) \<and>
      bio me c (put_all ?ws V) (put_all ?ws D) {} {} (dtrace (ide (bc s)) @ phys ?ws)"
      using commit_spec [of me ?s V D bl "dtrace (ide (bc s))" "log_size s"] i(1-5) False by simp
    then obtain c where c: "commit me ?s = Ok (?s\<lparr>lh_n := 0, bc := c\<rparr>)"
      "bio me c (put_all ?ws V) (put_all ?ws D) {} {} (dtrace (ide (bc s)) @ phys ?ws)" by blast
    have "put_all ?ws V m = put_all ?ws D m" for m
    proof (rule put_all_agree)
      have "fst ` set (map (\<lambda>b. (b, V b)) bl) = set bl" by (simp add: image_image)
      then show "m \<in> fst ` set ?ws \<or> V m = D m"
        using i(7) by (auto simp: commit_writes_def image_Un)
    qed
    then have eq: "put_all ?ws D = put_all ?ws V" by (simp add: fun_eq_iff)
    have "names (put_all ?ws V (log_start s)) []"
      using names_head_of [of "[]"] by (simp add: commit_writes_def)
    moreover have "put_all ?ws V 1 = D 1"
      using put_all_commit_home [OF i(2) log_start_props(4) [OF i(8)]] i(7,11) by simp
    moreover have "put_all ?ws V m = V m" if "\<not> in_log (log_start s) (log_size s) m" for m
      using put_all_commit_home [OF i(2) that] i(7) by simp
    moreover have "bio me c (put_all ?ws V) (put_all ?ws V) {} {} (dtrace (ide c))"
      using c(2) bio_trace [OF c(2)] unfolding eq by simp
    ultimately show ?thesis using c(1) by blast
  qed
  then obtain c V' where c: "commit me ?s = Ok (?s\<lparr>lh_n := 0, bc := c\<rparr>)" "bio me c V' V' {} {} (dtrace (ide c))"
    "names (V' (log_start s)) []" "V' 1 = D 1" "\<forall>m. \<not> in_log (log_start s) (log_size s) m \<longrightarrow> V' m = V m" by blast
  let ?t = "?s\<lparr>lh_n := 0, bc := c, committing := False, log_wakeups := log_wakeups s + 1\<rparr>"
  have "end_op me s = Ok ?t"
    using lk c(1) assms(2) by (cases s) (simp add: end_op_def Let_def)
  moreover have "log_inv me ?t [] V' V'"
    using c i none lk by (simp add: log_inv_def)
  ultimately show ?thesis using c(5) by (intro exI [of _ ?t] exI [of _ V']) simp
qed

text \<open>A formatted disk: the log is blocks 2 to 31, as \<open>mkfs\<close> lays it out; an operation is running.\<close>

definition log_disk :: "nat \<Rightarrow> nat \<Rightarrow> bytes" where
  "log_disk = (\<lambda>d m. if m = 1 then wr32 (wr32 (\<lambda>_. 0) 12 30) 16 2 else (\<lambda>_. 0))"

definition log_demo :: logst where
  "log_demo = \<lparr>log_lk = False, log_start = 2, log_size = 30, outstanding = 1, committing = False,
     log_dev = ROOTDEV, lh_n = 0, lh_block = replicate LOGSIZE 0, log_wakeups = 0,
     bc = binit (bio_demo\<lparr>ide := ide bio_demo\<lparr>disk := log_disk\<rparr>\<rparr>)\<rparr>"

lemma log_demo_ok: "log_inv me log_demo [] (\<lambda>n. log_disk 1 (unat n)) (\<lambda>n. log_disk 1 (unat n))"
proof -
  have boot: "bio_boot (bio_demo\<lparr>ide := ide bio_demo\<lparr>disk := log_disk\<rparr>\<rparr>)"
    by (simp add: bio_boot_def bio_demo_def bufs_def fresh_buf_def buf_new_def ide_demo_def del: replicate_Suc)
  have b: "bio me (bc log_demo) (\<lambda>n. log_disk 1 (unat n)) (\<lambda>n. log_disk 1 (unat n)) {} {} []"
    using binit_ok [OF boot, of me] by (simp add: bio_demo_def ide_demo_def log_demo_def)
  have "dtrace (ide (bc log_demo)) = []" using bio_trace [OF b] by simp
  moreover have "sb_of (log_disk 1 1) = \<lparr>sb_size = 0, sb_nblocks = 0, sb_ninodes = 0, sb_nlog = 30, sb_logstart = 2,
      sb_inodestart = 0, sb_bmapstart = 0\<rparr>"
    by (simp add: sb_of_def log_disk_def rd32_wr32_other rd32_zero)
  moreover have "names (log_disk 1 2) []" by (simp add: names_def log_disk_def rd32_zero)
  ultimately show ?thesis
    using b by (simp add: log_inv_def tx_ok_def log_geom_def log_demo_def NBUF_def MAXOPBLOCKS_def FSSIZE_def LOGSIZE_def)
qed

lemma log_demo_logged:
  "\<exists>s. log_inv 3 s [40] ((\<lambda>n. log_disk 1 (unat n))(40 := (\<lambda>_. 9))) (\<lambda>n. log_disk 1 (unat n))
    \<and> outstanding s = 1 \<and> log_start s = 2 \<and> log_size s = 30"
proof -
  have f: "log_start log_demo = 2" "log_size log_demo = 30" "outstanding log_demo = 1"
    by (simp_all add: log_demo_def)
  have "\<exists>b c t e. bread 3 ROOTDEV 40 (bc log_demo) = Ok (b, c) \<and> get_data b c = log_disk 1 (unat (40 :: u32))
    \<and> log_write b (log_demo\<lparr>bc := put_data b (\<lambda>_. 9) c\<rparr>) = Ok t \<and> brelse 3 b (bc t) = Ok e
    \<and> outstanding t = outstanding log_demo \<and> log_start t = log_start log_demo \<and> log_size t = log_size log_demo
    \<and> log_inv 3 (t\<lparr>bc := e\<rparr>) (absorb 40 []) ((\<lambda>n. log_disk 1 (unat n))(40 := (\<lambda>_. 9))) (\<lambda>n. log_disk 1 (unat n))"
    by (rule log_write_spec [OF log_demo_ok])
      (simp_all add: f in_log_def FSSIZE_def NBUF_def MAXOPBLOCKS_def)
  then obtain t e where "log_inv 3 (t\<lparr>bc := e\<rparr>) (absorb 40 []) ((\<lambda>n. log_disk 1 (unat n))(40 := (\<lambda>_. 9))) (\<lambda>n. log_disk 1 (unat n))"
    "outstanding t = 1" "log_start t = 2" "log_size t = 30" using f by auto
  then show ?thesis by (intro exI [of _ "t\<lparr>bc := e\<rparr>"]) (simp add: absorb_def)
qed

theorem commit_crash_safe_witness:
  "\<exists>s t. log_inv 3 s [40] ((\<lambda>n. log_disk 1 (unat n))(40 := (\<lambda>_. 9))) (\<lambda>n. log_disk 1 (unat n)) \<and> commit 3 s = Ok t"
proof -
  obtain s where s: "log_inv 3 s [40] ((\<lambda>n. log_disk 1 (unat n))(40 := (\<lambda>_. 9))) (\<lambda>n. log_disk 1 (unat n))"
    using log_demo_logged by blast
  with commit_crash_safe [OF s] show ?thesis by blast
qed

text \<open>
  Durability and group commit: \<open>end_op\<close> by the last running operation commits the
  transaction; afterwards every block outside the log has on the disk the contents last logged
  for it, the log is empty and unlocked and no buffer is pinned.  While other operations run,
  \<open>end_op\<close> only gives up its reservation and wakes the processes that wait for space.
\<close>

theorem end_op_durable:
  assumes "log_inv me s bl V D"
  shows "if outstanding s = 1
    then \<exists>t V'. end_op me s = Ok t \<and> log_inv me t [] V' V' \<and> outstanding t = 0
      \<and> (\<forall>m. \<not> in_log (log_start s) (log_size s) m \<longrightarrow> disk (ide (bc t)) 1 (unat m) = V m)
    else end_op me s = Ok (s\<lparr>outstanding := outstanding s - 1, log_wakeups := log_wakeups s + 1\<rparr>)"
proof (cases "outstanding s = 1")
  case True
  from end_op_last [OF assms True] obtain t V' where
    t: "end_op me s = Ok t" "log_inv me t [] V' V'" "outstanding t = 0"
      "\<forall>m. \<not> in_log (log_start s) (log_size s) m \<longrightarrow> V' m = V m" by blast
  have "V' = (\<lambda>n. disk (ide (bc t)) 1 (unat n))" by (rule log_invD(12) [OF t(2)])
  then have "disk (ide (bc t)) 1 (unat m) = V' m" for m by simp
  with True t show ?thesis by auto
next
  case False
  have "\<not> log_lk s" "\<not> committing s" using assms by (simp_all add: log_inv_def)
  then show ?thesis using False by (cases s) (simp add: end_op_def Let_def)
qed

theorem end_op_durable_witness:
  "\<exists>s t. log_inv 3 s [40] ((\<lambda>n. log_disk 1 (unat n))(40 := (\<lambda>_. 9))) (\<lambda>n. log_disk 1 (unat n))
    \<and> end_op 3 s = Ok t \<and> disk (ide (bc t)) 1 40 = (\<lambda>_. 9)"
proof -
  obtain s where s: "log_inv 3 s [40] ((\<lambda>n. log_disk 1 (unat n))(40 := (\<lambda>_. 9))) (\<lambda>n. log_disk 1 (unat n))"
    "outstanding s = 1" "log_start s = 2" "log_size s = 30" using log_demo_logged by blast
  have home: "\<not> in_log 2 30 40" by (simp add: in_log_def)
  from end_op_durable [OF s(1)] s obtain t where t: "end_op 3 s = Ok t"
    "\<forall>m. \<not> in_log 2 30 m \<longrightarrow> disk (ide (bc t)) 1 (unat m) = ((\<lambda>n. log_disk 1 (unat n))(40 := (\<lambda>_. 9))) m"
    by auto
  have "disk (ide (bc t)) 1 (unat (40 :: u32)) = (\<lambda>_. 9)" using t(2) [rule_format, OF home] by simp
  then have "disk (ide (bc t)) 1 40 = (\<lambda>_. 9)" by simp
  with s(1) t(1) show ?thesis by blast
qed

text \<open>
  C40. The reservation is one block short.  \<open>begin_op\<close> admits operations as long as
  \<open>MAXOPBLOCKS\<close> blocks for each fit \<open>LOGSIZE\<close>, but the log of a file system made by \<open>mkfs\<close> is
  \<open>LOGSIZE\<close> blocks with the header: with three operations admitted the reservation is
  exactly \<open>LOGSIZE\<close>, and the last block of it makes \<open>log_write\<close> panic.
\<close>

theorem log_reservation_short:
  assumes "\<not> log_lk s" "\<not> committing s" "lh_n s = 0" "outstanding s = 2" "log_size s = word_of_nat LOGSIZE"
  shows "\<exists>t. begin_op s = Ok t \<and> outstanding t * int MAXOPBLOCKS = int LOGSIZE
    \<and> (\<forall>u b. log_size u = log_size t \<longrightarrow> lh_n u = outstanding t * int MAXOPBLOCKS - 1 \<longrightarrow>
        log_write b u = Panic ''too big a transaction'')"
proof -
  have "begin_op s = Ok (s\<lparr>outstanding := 3\<rparr>)"
    using assms by (cases s) (simp add: begin_op_def LOGSIZE_def MAXOPBLOCKS_def)
  then show ?thesis
    using assms by (intro exI [of _ "s\<lparr>outstanding := 3\<rparr>"]) (simp add: LOGSIZE_def MAXOPBLOCKS_def log_write_def)
qed

theorem log_reservation_short_witness:
  "\<exists>t. begin_op (log_demo\<lparr>outstanding := 2\<rparr>) = Ok t \<and> outstanding t * int MAXOPBLOCKS = int LOGSIZE"
  using log_reservation_short [of "log_demo\<lparr>outstanding := 2\<rparr>"]
  by (auto simp: log_demo_def LOGSIZE_def MAXOPBLOCKS_def)

end
