(* ===== verification/Inode.thy ===== *)
theory Inode
  imports Log
begin

text \<open>
  The block allocator, the inode cache and the contents of inodes (\<open>fs.c\<close>, first three layers),
  above the log.  \<open>fs\<close> is the state of the file system: the log with its buffer cache,
  \<open>icache\<close> and the superblock; \<open>devs\<close> stands for the state of the character devices, which
  \<open>readi\<close> and \<open>writei\<close> reach through the table \<open>devsw\<close>.  A pointer to a cached inode is its
  index in \<open>icache.inode\<close>.
\<close>

subsection \<open>Types\<close>

definition T_DIR :: u16 where "T_DIR = 1"
definition T_FILE :: u16 where "T_FILE = 2"
definition T_DEV :: u16 where "T_DEV = 3"

record inode =
  idev :: u32
  inum :: u32
  iref :: int
  ilk :: sleeplock
  valid :: bool
  itype :: u16
  major :: u16
  minor :: u16
  nlink :: u16
  isize :: u32
  addrs :: "u32 list"

record 'd fs =
  lg :: logst
  ic_lk :: bool
  inodes :: "inode list"
  fsb :: superblock
  devs :: 'd

text \<open>The device switch: a null function pointer is \<open>None\<close>; the functions take the inode, the data
  or the byte count, and may change the whole file-system state.\<close>

record 'd devsw =
  dev_read :: "(nat \<Rightarrow> u32 \<Rightarrow> 'd fs \<Rightarrow> (int \<times> u8 list \<times> 'd fs) outcome) option"
  dev_write :: "(nat \<Rightarrow> u8 list \<Rightarrow> u32 \<Rightarrow> 'd fs \<Rightarrow> (int \<times> 'd fs) outcome) option"

subsection \<open>The buffer cache and the log, seen from the file system\<close>

definition fs_bread :: "int \<Rightarrow> u32 \<Rightarrow> u32 \<Rightarrow> 'd fs \<Rightarrow> (nat \<times> 'd fs) outcome" where
  "fs_bread me dev n s = bnd (bread me dev n (bc (lg s))) (\<lambda>(b, c). Ok (b, s\<lparr>lg := (lg s)\<lparr>bc := c\<rparr>\<rparr>))"

definition fs_data :: "nat \<Rightarrow> 'd fs \<Rightarrow> bytes" where
  "fs_data b s = get_data b (bc (lg s))"

definition fs_put :: "nat \<Rightarrow> bytes \<Rightarrow> 'd fs \<Rightarrow> 'd fs" where
  "fs_put b d s = s\<lparr>lg := (lg s)\<lparr>bc := put_data b d (bc (lg s))\<rparr>\<rparr>"

definition fs_log_write :: "nat \<Rightarrow> 'd fs \<Rightarrow> 'd fs outcome" where
  "fs_log_write b s = bnd (log_write b (lg s)) (\<lambda>l. Ok (s\<lparr>lg := l\<rparr>))"

definition fs_brelse :: "int \<Rightarrow> nat \<Rightarrow> 'd fs \<Rightarrow> 'd fs outcome" where
  "fs_brelse me b s = bnd (brelse me b (bc (lg s))) (\<lambda>c. Ok (s\<lparr>lg := (lg s)\<lparr>bc := c\<rparr>\<rparr>))"

definition fs_begin_op :: "'d fs \<Rightarrow> 'd fs outcome" where
  "fs_begin_op s = bnd (begin_op (lg s)) (\<lambda>l. Ok (s\<lparr>lg := l\<rparr>))"

definition fs_end_op :: "int \<Rightarrow> 'd fs \<Rightarrow> 'd fs outcome" where
  "fs_end_op me s = bnd (end_op me (lg s)) (\<lambda>l. Ok (s\<lparr>lg := l\<rparr>))"

subsection \<open>Blocks\<close>

definition IBLOCK :: "u32 \<Rightarrow> superblock \<Rightarrow> u32" where
  "IBLOCK i sb = i div word_of_nat IPB + sb_inodestart sb"

definition BBLOCK :: "u32 \<Rightarrow> superblock \<Rightarrow> u32" where
  "BBLOCK b sb = b div word_of_nat BPB + sb_bmapstart sb"

definition bzero :: "int \<Rightarrow> u32 \<Rightarrow> u32 \<Rightarrow> 'd fs \<Rightarrow> 'd fs outcome" where
  "bzero me dev bno s =
     bnd (fs_bread me dev bno s) (\<lambda>(bp, s1).
     bnd (fs_log_write bp (fs_put bp (fill_bytes (fs_data bp s1) 0 BSIZE 0) s1)) (\<lambda>s2.
     fs_brelse me bp s2))"

text \<open>The bit of block \<open>bi\<close> in a bitmap block, and the inner loop of \<open>balloc\<close>: the first clear bit.\<close>

definition bit_mask :: "nat \<Rightarrow> u8" where
  "bit_mask bi = push_bit (bi mod 8) 1"

definition bit_used :: "bytes \<Rightarrow> nat \<Rightarrow> bool" where
  "bit_used d bi \<longleftrightarrow> d (bi div 8) AND bit_mask bi \<noteq> 0"

definition bit_set :: "bytes \<Rightarrow> nat \<Rightarrow> bytes" where
  "bit_set d bi = d(bi div 8 := d (bi div 8) OR bit_mask bi)"

definition bit_clear :: "bytes \<Rightarrow> nat \<Rightarrow> bytes" where
  "bit_clear d bi = d(bi div 8 := d (bi div 8) AND NOT (bit_mask bi))"

fun balloc_scan :: "nat \<Rightarrow> nat \<Rightarrow> nat \<Rightarrow> nat \<Rightarrow> bytes \<Rightarrow> nat option" where
  "balloc_scan 0 bi b nblk d = None"
| "balloc_scan (Suc k) bi b nblk d =
     (if b + bi < nblk
      then if \<not> bit_used d bi then Some bi else balloc_scan k (Suc bi) b nblk d
      else None)"

fun balloc_from :: "nat \<Rightarrow> int \<Rightarrow> u32 \<Rightarrow> nat \<Rightarrow> 'd fs \<Rightarrow> (u32 \<times> 'd fs) outcome" where
  "balloc_from 0 me dev b s = Panic ''balloc: out of blocks''"
| "balloc_from (Suc k) me dev b s =
     (if b < unat (sb_size (fsb s))
      then bnd (fs_bread me dev (BBLOCK (word_of_nat b) (fsb s)) s) (\<lambda>(bp, s1).
        case balloc_scan BPB 0 b (unat (sb_size (fsb s1))) (fs_data bp s1) of
          Some bi \<Rightarrow>
            bnd (fs_log_write bp (fs_put bp (bit_set (fs_data bp s1) bi) s1)) (\<lambda>s2.
            bnd (fs_brelse me bp s2) (\<lambda>s3.
            bnd (bzero me dev (word_of_nat (b + bi)) s3) (\<lambda>s4. Ok (word_of_nat (b + bi), s4))))
        | None \<Rightarrow> bnd (fs_brelse me bp s1) (balloc_from k me dev (b + BPB)))
      else Panic ''balloc: out of blocks'')"

definition balloc :: "int \<Rightarrow> u32 \<Rightarrow> 'd fs \<Rightarrow> (u32 \<times> 'd fs) outcome" where
  "balloc me dev s = balloc_from (Suc (unat (sb_size (fsb s)) div BPB)) me dev 0 s"

definition bfree :: "int \<Rightarrow> u32 \<Rightarrow> u32 \<Rightarrow> 'd fs \<Rightarrow> 'd fs outcome" where
  "bfree me dev b s =
     bnd (fs_bread me dev (BBLOCK b (fsb s)) s) (\<lambda>(bp, s1).
       let bi = unat b mod BPB; d = fs_data bp s1
       in panic_if (\<not> bit_used d bi) ''freeing free block''
          (bnd (fs_log_write bp (fs_put bp (bit_clear d bi) s1)) (\<lambda>s2. fs_brelse me bp s2)))"

subsection \<open>The inode cache\<close>

definition upd_inode :: "nat \<Rightarrow> (inode \<Rightarrow> inode) \<Rightarrow> 'd fs \<Rightarrow> 'd fs" where
  "upd_inode ip f s = s\<lparr>inodes := (inodes s)[ip := f (inodes s ! ip)]\<rparr>"

definition iinit :: "int \<Rightarrow> u32 \<Rightarrow> 'd fs \<Rightarrow> 'd fs outcome" where
  "iinit me dev s =
     (let s1 = s\<lparr>ic_lk := False, inodes := map (\<lambda>i. i\<lparr>ilk := initsleeplock ''inode'' (ilk i)\<rparr>) (inodes s)\<rparr>
      in bnd (readsb me dev (bc (lg s1))) (\<lambda>(sb, c). Ok (s1\<lparr>lg := (lg s1)\<lparr>bc := c\<rparr>, fsb := sb\<rparr>)))"

text \<open>The loop of \<open>iget\<close>: the entry of the inode, or the first free entry.\<close>

fun iget_scan :: "u32 \<Rightarrow> u32 \<Rightarrow> nat \<Rightarrow> nat option \<Rightarrow> inode list \<Rightarrow> nat option \<times> nat option" where
  "iget_scan dev n ip free [] = (None, free)"
| "iget_scan dev n ip free (i # is) =
     (if 0 < iref i \<and> idev i = dev \<and> inum i = n then (Some ip, free)
      else iget_scan dev n (Suc ip) (if free = None \<and> iref i = 0 then Some ip else free) is)"

definition iget :: "u32 \<Rightarrow> u32 \<Rightarrow> 'd fs \<Rightarrow> (nat \<times> 'd fs) outcome" where
  "iget dev n s =
     bnd (lk_acquire (ic_lk s)) (\<lambda>l.
       let s1 = s\<lparr>ic_lk := l\<rparr> in
       case iget_scan dev n 0 None (inodes s1) of
         (Some ip, _) \<Rightarrow>
           (let s2 = upd_inode ip (\<lambda>i. i\<lparr>iref := iref i + 1\<rparr>) s1
            in bnd (lk_release (ic_lk s2)) (\<lambda>l. Ok (ip, s2\<lparr>ic_lk := l\<rparr>)))
       | (None, None) \<Rightarrow> Panic ''iget: no inodes''
       | (None, Some ip) \<Rightarrow>
           (let s2 = upd_inode ip (\<lambda>i. i\<lparr>idev := dev, inum := n, iref := 1, valid := False\<rparr>) s1
            in bnd (lk_release (ic_lk s2)) (\<lambda>l. Ok (ip, s2\<lparr>ic_lk := l\<rparr>))))"

definition idup :: "nat option \<Rightarrow> 'd fs \<Rightarrow> (nat option \<times> 'd fs) outcome" where
  "idup ipo s =
     bnd (lk_acquire (ic_lk s)) (\<lambda>l.
       case ipo of
         None \<Rightarrow> Fault
       | Some ip \<Rightarrow>
           (let s1 = upd_inode ip (\<lambda>i. i\<lparr>iref := iref i + 1\<rparr>) (s\<lparr>ic_lk := l\<rparr>)
            in bnd (lk_release (ic_lk s1)) (\<lambda>l. Ok (Some ip, s1\<lparr>ic_lk := l\<rparr>))))"

subsection \<open>Inodes on disk\<close>

text \<open>\<open>struct dinode\<close> takes 64 bytes: four 16-bit fields, the size and \<open>NDIRECT + 1\<close> addresses.\<close>

definition dinode_off :: "u32 \<Rightarrow> nat" where
  "dinode_off n = 64 * (unat n mod IPB)"

fun put_addrs :: "bytes \<Rightarrow> nat \<Rightarrow> u32 list \<Rightarrow> bytes" where
  "put_addrs d a [] = d"
| "put_addrs d a (x # xs) = put_addrs (wr32 d a x) (a + 4) xs"

definition get_addrs :: "bytes \<Rightarrow> nat \<Rightarrow> nat \<Rightarrow> u32 list" where
  "get_addrs d a n = map (\<lambda>i. rd32 d (a + 4 * i)) [0..<n]"

definition put_dinode :: "inode \<Rightarrow> nat \<Rightarrow> bytes \<Rightarrow> bytes" where
  "put_dinode i o' d =
     put_addrs (wr32 (wr16 (wr16 (wr16 (wr16 d o' (itype i)) (o' + 2) (major i)) (o' + 4) (minor i))
       (o' + 6) (nlink i)) (o' + 8) (isize i)) (o' + 12) (addrs i)"

definition get_dinode :: "bytes \<Rightarrow> nat \<Rightarrow> inode \<Rightarrow> inode" where
  "get_dinode d o' i =
     i\<lparr>itype := rd16 d o', major := rd16 d (o' + 2), minor := rd16 d (o' + 4), nlink := rd16 d (o' + 6),
       isize := rd32 d (o' + 8), addrs := get_addrs d (o' + 12) (NDIRECT + 1)\<rparr>"

fun ialloc_from :: "nat \<Rightarrow> int \<Rightarrow> u32 \<Rightarrow> u16 \<Rightarrow> nat \<Rightarrow> 'd fs \<Rightarrow> (nat \<times> 'd fs) outcome" where
  "ialloc_from 0 me dev typ n s = Panic ''ialloc: no inodes''"
| "ialloc_from (Suc k) me dev typ n s =
     (if n < unat (sb_ninodes (fsb s))
      then bnd (fs_bread me dev (IBLOCK (word_of_nat n) (fsb s)) s) (\<lambda>(bp, s1).
        let d = fs_data bp s1; o' = dinode_off (word_of_nat n) in
        if rd16 d o' = 0
        then bnd (fs_log_write bp (fs_put bp (wr16 (fill_bytes d o' 64 0) o' typ) s1)) (\<lambda>s2.
             bnd (fs_brelse me bp s2) (iget dev (word_of_nat n)))
        else bnd (fs_brelse me bp s1) (ialloc_from k me dev typ (Suc n)))
      else Panic ''ialloc: no inodes'')"

definition ialloc :: "int \<Rightarrow> u32 \<Rightarrow> u16 \<Rightarrow> 'd fs \<Rightarrow> (nat \<times> 'd fs) outcome" where
  "ialloc me dev typ s = ialloc_from (unat (sb_ninodes (fsb s))) me dev typ 1 s"

definition iupdate :: "int \<Rightarrow> nat \<Rightarrow> 'd fs \<Rightarrow> 'd fs outcome" where
  "iupdate me ip s =
     bnd (fs_bread me (idev (inodes s ! ip)) (IBLOCK (inum (inodes s ! ip)) (fsb s)) s) (\<lambda>(bp, s1).
       let i = inodes s1 ! ip
       in bnd (fs_log_write bp (fs_put bp (put_dinode i (dinode_off (inum i)) (fs_data bp s1)) s1)) (\<lambda>s2.
          fs_brelse me bp s2))"

definition ilock :: "int \<Rightarrow> nat \<Rightarrow> 'd fs \<Rightarrow> 'd fs outcome" where
  "ilock me ip s =
     panic_if (iref (inodes s ! ip) < 1) ''ilock''
     (bnd (acquiresleep me (ilk (inodes s ! ip))) (\<lambda>lk.
       let s1 = upd_inode ip (\<lambda>i. i\<lparr>ilk := lk\<rparr>) s in
       if \<not> valid (inodes s1 ! ip)
       then bnd (fs_bread me (idev (inodes s1 ! ip)) (IBLOCK (inum (inodes s1 ! ip)) (fsb s1)) s1) (\<lambda>(bp, s2).
         let i = inodes s2 ! ip;
             s3 = upd_inode ip (get_dinode (fs_data bp s2) (dinode_off (inum i))) s2
         in bnd (fs_brelse me bp s3) (\<lambda>s4.
            let s5 = upd_inode ip (\<lambda>i. i\<lparr>valid := True\<rparr>) s4
            in panic_if (itype (inodes s5 ! ip) = 0) ''ilock: no type'' (Ok s5)))
       else Ok s1))"

definition iunlock :: "int \<Rightarrow> nat \<Rightarrow> 'd fs \<Rightarrow> 'd fs outcome" where
  "iunlock me ip s =
     bnd (holdingsleep me (ilk (inodes s ! ip))) (\<lambda>h.
     panic_if (\<not> h \<or> iref (inodes s ! ip) < 1) ''iunlock''
     (bnd (releasesleep (ilk (inodes s ! ip))) (\<lambda>lk. Ok (upd_inode ip (\<lambda>i. i\<lparr>ilk := lk\<rparr>) s))))"

subsection \<open>Inode content\<close>

definition set_addr :: "nat \<Rightarrow> nat \<Rightarrow> u32 \<Rightarrow> 'd fs \<Rightarrow> 'd fs" where
  "set_addr ip k a = upd_inode ip (\<lambda>i. i\<lparr>addrs := (addrs i)[k := a]\<rparr>)"

definition bmap :: "int \<Rightarrow> nat \<Rightarrow> u32 \<Rightarrow> 'd fs \<Rightarrow> (u32 \<times> 'd fs) outcome" where
  "bmap me ip bn s =
     (let dev = idev (inodes s ! ip) in
      if unat bn < NDIRECT then
        let addr = addrs (inodes s ! ip) ! unat bn in
        if addr = 0 then bnd (balloc me dev s) (\<lambda>(addr, s1). Ok (addr, set_addr ip (unat bn) addr s1))
        else Ok (addr, s)
      else let bn1 = bn - word_of_nat NDIRECT in
      if unat bn1 < NINDIRECT then
        bnd (if addrs (inodes s ! ip) ! NDIRECT = 0
             then bnd (balloc me dev s) (\<lambda>(addr, s1). Ok (addr, set_addr ip NDIRECT addr s1))
             else Ok (addrs (inodes s ! ip) ! NDIRECT, s)) (\<lambda>(ia, s1).
        bnd (fs_bread me dev ia s1) (\<lambda>(bp, s2).
        bnd (if rd32 (fs_data bp s2) (4 * unat bn1) = 0
             then bnd (balloc me dev s2) (\<lambda>(addr, s3).
                  bnd (fs_log_write bp (fs_put bp (wr32 (fs_data bp s3) (4 * unat bn1) addr) s3)) (\<lambda>s4.
                  Ok (addr, s4)))
             else Ok (rd32 (fs_data bp s2) (4 * unat bn1), s2)) (\<lambda>(addr, s4).
        bnd (fs_brelse me bp s4) (\<lambda>s5. Ok (addr, s5)))))
      else Panic ''bmap: out of range'')"

text \<open>The two loops of \<open>itrunc\<close>.\<close>

fun itrunc_direct :: "nat \<Rightarrow> int \<Rightarrow> nat \<Rightarrow> nat \<Rightarrow> 'd fs \<Rightarrow> 'd fs outcome" where
  "itrunc_direct 0 me ip i s = Ok s"
| "itrunc_direct (Suc k) me ip i s =
     (if addrs (inodes s ! ip) ! i \<noteq> 0
      then bnd (bfree me (idev (inodes s ! ip)) (addrs (inodes s ! ip) ! i) s) (\<lambda>s1.
           itrunc_direct k me ip (Suc i) (set_addr ip i 0 s1))
      else itrunc_direct k me ip (Suc i) s)"

fun itrunc_indirect :: "nat \<Rightarrow> int \<Rightarrow> nat \<Rightarrow> nat \<Rightarrow> nat \<Rightarrow> 'd fs \<Rightarrow> 'd fs outcome" where
  "itrunc_indirect 0 me ip bp j s = Ok s"
| "itrunc_indirect (Suc k) me ip bp j s =
     (if rd32 (fs_data bp s) (4 * j) \<noteq> 0
      then bnd (bfree me (idev (inodes s ! ip)) (rd32 (fs_data bp s) (4 * j)) s)
             (itrunc_indirect k me ip bp (Suc j))
      else itrunc_indirect k me ip bp (Suc j) s)"

definition itrunc :: "int \<Rightarrow> nat \<Rightarrow> 'd fs \<Rightarrow> 'd fs outcome" where
  "itrunc me ip s =
     bnd (itrunc_direct NDIRECT me ip 0 s) (\<lambda>s1.
     bnd (if addrs (inodes s1 ! ip) ! NDIRECT \<noteq> 0
          then bnd (fs_bread me (idev (inodes s1 ! ip)) (addrs (inodes s1 ! ip) ! NDIRECT) s1) (\<lambda>(bp, s2).
               bnd (itrunc_indirect NINDIRECT me ip bp 0 s2) (\<lambda>s3.
               bnd (fs_brelse me bp s3) (\<lambda>s4.
               bnd (bfree me (idev (inodes s4 ! ip)) (addrs (inodes s4 ! ip) ! NDIRECT) s4) (\<lambda>s5.
               Ok (set_addr ip NDIRECT 0 s5)))))
          else Ok s1) (\<lambda>s6.
     iupdate me ip (upd_inode ip (\<lambda>i. i\<lparr>isize := 0\<rparr>) s6)))"

definition iput :: "int \<Rightarrow> nat \<Rightarrow> 'd fs \<Rightarrow> 'd fs outcome" where
  "iput me ip s =
     bnd (acquiresleep me (ilk (inodes s ! ip))) (\<lambda>lk.
       let s1 = upd_inode ip (\<lambda>i. i\<lparr>ilk := lk\<rparr>) s in
       bnd (if valid (inodes s1 ! ip) \<and> nlink (inodes s1 ! ip) = 0
            then bnd (lk_acquire (ic_lk s1)) (\<lambda>l.
              let r = iref (inodes s1 ! ip) in
              bnd (lk_release l) (\<lambda>l.
              let s2 = s1\<lparr>ic_lk := l\<rparr> in
              if r = 1
              then bnd (itrunc me ip s2) (\<lambda>s3.
                   bnd (iupdate me ip (upd_inode ip (\<lambda>i. i\<lparr>itype := 0\<rparr>) s3)) (\<lambda>s4.
                   Ok (upd_inode ip (\<lambda>i. i\<lparr>valid := False\<rparr>) s4)))
              else Ok s2))
            else Ok s1) (\<lambda>s5.
       bnd (releasesleep (ilk (inodes s5 ! ip))) (\<lambda>lk.
       let s6 = upd_inode ip (\<lambda>i. i\<lparr>ilk := lk\<rparr>) s5 in
       bnd (lk_acquire (ic_lk s6)) (\<lambda>l.
       let s7 = upd_inode ip (\<lambda>i. i\<lparr>iref := iref i - 1\<rparr>) (s6\<lparr>ic_lk := l\<rparr>) in
       bnd (lk_release (ic_lk s7)) (\<lambda>l. Ok (s7\<lparr>ic_lk := l\<rparr>))))))"

definition iunlockput :: "int \<Rightarrow> nat \<Rightarrow> 'd fs \<Rightarrow> 'd fs outcome" where
  "iunlockput me ip s = bnd (iunlock me ip s) (iput me ip)"

record stat =
  st_type :: u16
  st_dev :: u32
  st_ino :: u32
  st_nlink :: u16
  st_size :: u32

definition stati :: "nat \<Rightarrow> 'd fs \<Rightarrow> stat" where
  "stati ip s = (let i = inodes s ! ip in
     \<lparr>st_type = itype i, st_dev = idev i, st_ino = inum i, st_nlink = nlink i, st_size = isize i\<rparr>)"

text \<open>\<open>devsw[ip->major]\<close>, or nothing when the major number is out of range.\<close>

definition dev_slot :: "'d devsw list \<Rightarrow> u16 \<Rightarrow> 'd devsw option" where
  "dev_slot dv m = (if sint m < 0 \<or> int NDEV \<le> sint m \<or> length dv \<le> unat m then None else Some (dv ! unat m))"

text \<open>
  The copying loops.  Each round copies at least one byte, so \<open>n\<close> rounds are enough.
\<close>

fun readi_from :: "nat \<Rightarrow> int \<Rightarrow> nat \<Rightarrow> u32 \<Rightarrow> u32 \<Rightarrow> u32 \<Rightarrow> u8 list \<Rightarrow> 'd fs \<Rightarrow> (u8 list \<times> 'd fs) outcome" where
  "readi_from 0 me ip tot off n dst s = Ok (dst, s)"
| "readi_from (Suc k) me ip tot off n dst s =
     (if tot < n
      then bnd (bmap me ip (off div word_of_nat BSIZE) s) (\<lambda>(a, s1).
           bnd (fs_bread me (idev (inodes s1 ! ip)) a s1) (\<lambda>(bp, s2).
             let m = min (n - tot) (word_of_nat BSIZE - off mod word_of_nat BSIZE);
                 dst1 = dst @ bytes_at (fs_data bp s2) (unat (off mod word_of_nat BSIZE)) (unat m)
             in bnd (fs_brelse me bp s2) (readi_from k me ip (tot + m) (off + m) n dst1)))
      else Ok (dst, s))"

definition readi :: "'d devsw list \<Rightarrow> int \<Rightarrow> nat \<Rightarrow> u32 \<Rightarrow> u32 \<Rightarrow> 'd fs \<Rightarrow> (int \<times> u8 list \<times> 'd fs) outcome" where
  "readi dv me ip off n s =
     (let i = inodes s ! ip in
      if itype i = T_DEV then
        (case dev_slot dv (major i) of
           None \<Rightarrow> Ok (- 1, [], s)
         | Some d \<Rightarrow> (case dev_read d of None \<Rightarrow> Ok (- 1, [], s) | Some f \<Rightarrow> f ip n s))
      else if isize i < off \<or> off + n < off then Ok (- 1, [], s)
      else let n1 = (if isize i < off + n then isize i - off else n)
        in bnd (readi_from (unat n1) me ip 0 off n1 [] s) (\<lambda>(bs, s1). Ok (sint n1, bs, s1)))"

fun writei_from :: "nat \<Rightarrow> int \<Rightarrow> nat \<Rightarrow> u32 \<Rightarrow> u32 \<Rightarrow> u32 \<Rightarrow> u8 list \<Rightarrow> 'd fs \<Rightarrow> (u32 \<times> 'd fs) outcome" where
  "writei_from 0 me ip tot off n src s = Ok (off, s)"
| "writei_from (Suc k) me ip tot off n src s =
     (if tot < n
      then bnd (bmap me ip (off div word_of_nat BSIZE) s) (\<lambda>(a, s1).
           bnd (fs_bread me (idev (inodes s1 ! ip)) a s1) (\<lambda>(bp, s2).
             let m = min (n - tot) (word_of_nat BSIZE - off mod word_of_nat BSIZE);
                 d = put_bytes (fs_data bp s2) (unat (off mod word_of_nat BSIZE)) (take (unat m) src)
             in bnd (fs_log_write bp (fs_put bp d s2)) (\<lambda>s3.
                bnd (fs_brelse me bp s3) (writei_from k me ip (tot + m) (off + m) n (drop (unat m) src)))))
      else Ok (off, s))"

definition writei :: "'d devsw list \<Rightarrow> int \<Rightarrow> nat \<Rightarrow> u8 list \<Rightarrow> u32 \<Rightarrow> u32 \<Rightarrow> 'd fs \<Rightarrow> (int \<times> 'd fs) outcome" where
  "writei dv me ip src off n s =
     (let i = inodes s ! ip in
      if itype i = T_DEV then
        (case dev_slot dv (major i) of
           None \<Rightarrow> Ok (- 1, s)
         | Some d \<Rightarrow> (case dev_write d of None \<Rightarrow> Ok (- 1, s) | Some f \<Rightarrow> f ip src n s))
      else if isize i < off \<or> off + n < off then Ok (- 1, s)
      else if word_of_nat (MAXFILE * BSIZE) < off + n then Ok (- 1, s)
      else bnd (writei_from (unat n) me ip 0 off n src s) (\<lambda>(off1, s1).
        if 0 < n \<and> isize (inodes s1 ! ip) < off1
        then bnd (iupdate me ip (upd_inode ip (\<lambda>i. i\<lparr>isize := off1\<rparr>) s1)) (\<lambda>s2. Ok (sint n, s2))
        else Ok (sint n, s1)))"

end
