(* ===== verification/Inode_Spec.thy ===== *)
theory Inode_Spec
  imports Inode
begin

text \<open>
  What the block allocator and the inode cache promise.  The state below the log is abstracted
  as in the theory of the log: \<open>fs_tx me s bl V D\<close> says that a transaction on the blocks \<open>bl\<close> is
  running, that block \<open>n\<close> reads as \<open>V n\<close> and is \<open>D n\<close> on the disk.  \<open>content\<close> abstracts the blocks
  of an inode to the bytes of a file; \<open>refs\<close> abstracts the inode cache to the number of
  references held to each inode.
\<close>

definition fs_tx :: "int \<Rightarrow> 'd fs \<Rightarrow> u32 list \<Rightarrow> (u32 \<Rightarrow> bytes) \<Rightarrow> (u32 \<Rightarrow> bytes) \<Rightarrow> bool" where
  "fs_tx me s bl V D \<longleftrightarrow> log_inv me (lg s) bl V D \<and> 1 \<le> outstanding (lg s)"

text \<open>Two states that differ only below the log interface.\<close>

definition same_above :: "'d fs \<Rightarrow> 'd fs \<Rightarrow> bool" where
  "same_above s t \<longleftrightarrow> t = s\<lparr>lg := lg t\<rparr> \<and> log_start (lg t) = log_start (lg s) \<and> log_size (lg t) = log_size (lg s)
     \<and> outstanding (lg t) = outstanding (lg s)"

definition home :: "'d fs \<Rightarrow> u32 \<Rightarrow> bool" where
  "home s n \<longleftrightarrow> n < FSSIZE \<and> \<not> in_log (log_start (lg s)) (log_size (lg s)) n \<and> n \<noteq> 1"

definition room :: "'d fs \<Rightarrow> u32 list \<Rightarrow> nat \<Rightarrow> bool" where
  "room s bl k \<longleftrightarrow> length bl + k < unat (log_size (lg s)) \<and> length bl + k < NBUF"

lemma same_aboveD:
  assumes "same_above s t"
  shows "inodes t = inodes s" "fsb t = fsb s" "ic_lk t = ic_lk s" "devs t = devs s" "home t n = home s n"
    "room t bl k = room s bl k" "outstanding (lg t) = outstanding (lg s)"
  using assms by (simp_all only: same_above_def home_def room_def) (metis fs.ext_inject fs.surjective fs.update_convs(1))+

lemma same_above_refl [simp]: "same_above s s"
  by (simp add: same_above_def)

lemma same_above_trans [trans]: "same_above s t \<Longrightarrow> same_above t u \<Longrightarrow> same_above s u"
  unfolding same_above_def by (cases s; cases t; cases u) simp

lemma room_absorb: "room s bl (Suc k) \<Longrightarrow> room s (absorb n bl) k"
  by (simp add: room_def absorb_def)

lemma room_less: "room s bl k \<Longrightarrow> j \<le> k \<Longrightarrow> room s bl j"
  by (simp add: room_def)

lemma fs_modify:
  assumes "fs_tx me s bl V D" "home s n" "room s bl 1"
  shows "\<exists>b s1 s2 s3. fs_bread me ROOTDEV n s = Ok (b, s1) \<and> fs_data b s1 = V n \<and> same_above s s1
    \<and> fs_log_write b (fs_put b d s1) = Ok s2 \<and> fs_brelse me b s2 = Ok s3 \<and> same_above s s3
    \<and> fs_tx me s3 (absorb n bl) (V(n := d)) D"
proof -
  have i: "log_inv me (lg s) bl V D" "1 \<le> outstanding (lg s)" using assms(1) by (simp_all add: fs_tx_def)
  have r: "length bl + 1 < unat (log_size (lg s))" "length bl + 1 < NBUF" using assms(3) by (simp_all add: room_def)
  have h: "n < FSSIZE" "\<not> in_log (log_start (lg s)) (log_size (lg s)) n" "n \<noteq> 1" using assms(2) by (simp_all add: home_def)
  from log_write_spec [OF i h r, of d] obtain b c t e where
    t: "bread me ROOTDEV n (bc (lg s)) = Ok (b, c)" "get_data b c = V n"
      "log_write b ((lg s)\<lparr>bc := put_data b d c\<rparr>) = Ok t" "brelse me b (bc t) = Ok e"
      "outstanding t = outstanding (lg s)" "log_start t = log_start (lg s)" "log_size t = log_size (lg s)"
      "log_inv me (t\<lparr>bc := e\<rparr>) (absorb n bl) (V(n := d)) D" by blast
  let ?s1 = "s\<lparr>lg := (lg s)\<lparr>bc := c\<rparr>\<rparr>"
  let ?s3 = "s\<lparr>lg := t\<lparr>bc := e\<rparr>\<rparr>"
  have "fs_bread me ROOTDEV n s = Ok (b, ?s1)" "fs_data b ?s1 = V n" "same_above s ?s1"
    using t(1,2) by (simp_all add: fs_bread_def fs_data_def same_above_def)
  moreover have "fs_log_write b (fs_put b d ?s1) = Ok (s\<lparr>lg := t\<rparr>)"
    using t(3) by (simp add: fs_log_write_def fs_put_def)
  moreover have "fs_brelse me b (s\<lparr>lg := t\<rparr>) = Ok ?s3" using t(4) by (simp add: fs_brelse_def)
  moreover have "same_above s ?s3" using t(5-7) by (simp add: same_above_def)
  moreover have "fs_tx me ?s3 (absorb n bl) (V(n := d)) D" using t(5,8) i(2) by (simp add: fs_tx_def)
  ultimately show ?thesis by blast
qed

lemma fs_tx_card: "fs_tx me s bl V D \<Longrightarrow> card (set bl) < NBUF"
  using log_invD(2) tx_ok_card unfolding fs_tx_def by blast

lemma fs_read:
  assumes "fs_tx me s bl V D" "n < FSSIZE"
  shows "\<exists>b s1 s2. fs_bread me ROOTDEV n s = Ok (b, s1) \<and> fs_data b s1 = V n \<and> same_above s s1
    \<and> fs_brelse me b s1 = Ok s2 \<and> same_above s s2 \<and> fs_tx me s2 bl V D"
proof -
  have i: "log_inv me (lg s) bl V D" "1 \<le> outstanding (lg s)" using assms(1) by (simp_all add: fs_tx_def)
  note j = log_invD [OF i(1)]
  have rm: "n \<in> set bl \<or> card ({} \<union> set bl) < NBUF" using fs_tx_card [OF assms(1)] by simp
  have VD: "n \<in> set bl \<or> V n = D n" using j(7) by blast
  from bc.read_block [OF j(1) assms(2) _ rm VD] obtain b t u where
    t: "bread me ROOTDEV n (bc (lg s)) = Ok (b, t)" "get_data b t = V n" "brelse me b t = Ok u"
      "bio me u V D {} (set bl) (dtrace (ide (bc (lg s))))" by blast
  let ?s1 = "s\<lparr>lg := (lg s)\<lparr>bc := t\<rparr>\<rparr>"
  let ?s2 = "s\<lparr>lg := (lg s)\<lparr>bc := u\<rparr>\<rparr>"
  have "fs_bread me ROOTDEV n s = Ok (b, ?s1)" "fs_data b ?s1 = V n" "same_above s ?s1"
    using t(1,2) by (simp_all add: fs_bread_def fs_data_def same_above_def)
  moreover have "fs_brelse me b ?s1 = Ok ?s2" using t(3) by (simp add: fs_brelse_def)
  moreover have "same_above s ?s2" by (simp add: same_above_def)
  moreover have "dtrace (ide u) = dtrace (ide (bc (lg s)))" using bio_trace [OF t(4)] by simp
  then have "fs_tx me ?s2 bl V D" using t(4) i by (simp add: fs_tx_def log_inv_def)
  ultimately show ?thesis by blast
qed


subsection \<open>The block allocator\<close>

lemma bit_mask_word: "push_bit (bi mod 8) 1 = (push_bit (bi mod 8) 1 :: u8)" ..

lemma bit_used_iff: "bit_used d bi \<longleftrightarrow> bit (d (bi div 8)) (bi mod 8)"
proof -
  have "d (bi div 8) AND bit_mask bi = (if bit (d (bi div 8)) (bi mod 8) then bit_mask bi else 0)"
    by (rule bit_word_eqI) (auto simp: bit_mask_def bit_simps)
  moreover have "bit (bit_mask bi) (bi mod 8)" by (simp add: bit_mask_def bit_simps)
  then have "bit_mask bi \<noteq> 0" by auto
  ultimately show ?thesis by (simp add: bit_used_def)
qed

lemma div_mod_8_eq: "i div 8 = j div 8 \<Longrightarrow> i mod 8 = j mod 8 \<Longrightarrow> i = (j::nat)"
  by (metis div_mult_mod_eq)

lemma bit_bit_mask: "bit (bit_mask i) (j mod 8) \<longleftrightarrow> i mod 8 = j mod 8"
proof -
  have "j mod 8 < 8" by simp
  then show ?thesis by (auto simp: bit_mask_def bit_simps)
qed

lemma eq_div_mod_8: "i = j \<longleftrightarrow> i div 8 = j div 8 \<and> i mod 8 = (j mod 8 :: nat)"
  by (metis div_mult_mod_eq)

lemma bit_used_set [simp]: "bit_used (bit_set d i) j \<longleftrightarrow> i = j \<or> bit_used d j"
  unfolding bit_used_iff bit_set_def fun_upd_apply eq_div_mod_8 [of i j]
  by (cases "i div 8 = j div 8") (auto simp: bit_or_iff bit_bit_mask)

lemma bit_used_clear [simp]: "bit_used (bit_clear d i) j \<longleftrightarrow> i \<noteq> j \<and> bit_used d j"
proof -
  have "j mod 8 < 8" by simp
  then have "bit (NOT (bit_mask i)) (j mod 8) \<longleftrightarrow> i mod 8 \<noteq> j mod 8"
    by (simp add: bit_not_iff bit_bit_mask)
  then show ?thesis
    unfolding bit_used_iff bit_clear_def fun_upd_apply eq_div_mod_8 [of i j]
    by (cases "i div 8 = j div 8") (auto simp: bit_and_iff)
qed

lemma bit_clear_set: "\<not> bit_used d i \<Longrightarrow> bit_clear (bit_set d i) i = d"
proof -
  assume "\<not> bit_used d i"
  then have "\<not> bit (d (i div 8)) (i mod 8)" by (simp add: bit_used_iff)
  then have "(d (i div 8) OR bit_mask i) AND NOT (bit_mask i) = d (i div 8)"
    by (intro bit_word_eqI) (auto simp: bit_mask_def bit_simps)
  then show ?thesis by (simp add: bit_clear_def bit_set_def)
qed

lemma balloc_scan_Some:
  "balloc_scan k bi b n d = Some r \<longleftrightarrow>
     bi \<le> r \<and> r < bi + k \<and> b + r < n \<and> \<not> bit_used d r \<and> (\<forall>j. bi \<le> j \<longrightarrow> j < r \<longrightarrow> bit_used d j)"
proof (induction k arbitrary: bi)
  case (Suc k)
  show ?case
  proof (cases "b + bi < n \<and> bit_used d bi")
    case True
    have le: "bi \<le> j \<longleftrightarrow> j = bi \<or> Suc bi \<le> j" for j by auto
    have "balloc_scan (Suc k) bi b n d = balloc_scan k (Suc bi) b n d" using True by simp
    then show ?thesis using Suc.IH [of "Suc bi"] True by (auto simp: le)
  next
    case False
    then have "(\<not> bit_used d r \<and> b + r < n \<and> bi \<le> r \<and> (\<forall>j. bi \<le> j \<longrightarrow> j < r \<longrightarrow> bit_used d j)) \<longleftrightarrow> r = bi \<and> b + r < n \<and> \<not> bit_used d r"
      by (metis add_le_cancel_left le_antisym le_less_trans nat_le_linear not_less)
    then show ?thesis using False by auto
  qed
qed auto

lemma balloc_scan_None:
  "balloc_scan k bi b n d = None \<longleftrightarrow> (\<forall>j. bi \<le> j \<longrightarrow> j < bi + k \<longrightarrow> b + j < n \<longrightarrow> bit_used d j)"
proof (induction k arbitrary: bi)
  case (Suc k)
  show ?case
  proof (cases "b + bi < n \<and> bit_used d bi")
    case True
    have le: "bi \<le> j \<longleftrightarrow> j = bi \<or> Suc bi \<le> j" for j by auto
    have "balloc_scan (Suc k) bi b n d = balloc_scan k (Suc bi) b n d" using True by simp
    then show ?thesis using Suc.IH [of "Suc bi"] True by (auto simp: le)
  next
    case False
    then show ?thesis by auto
  qed
qed auto

text \<open>
  A file system of at most \<open>FSSIZE\<close> blocks, as the disk driver demands: the bitmap is one block,
  outside the log.
\<close>

definition fs_geom :: "'d fs \<Rightarrow> bool" where
  "fs_geom s \<longleftrightarrow> sb_size (fsb s) \<le> FSSIZE \<and> home s (sb_bmapstart (fsb s))"

definition used :: "'d fs \<Rightarrow> (u32 \<Rightarrow> bytes) \<Rightarrow> u32 \<Rightarrow> bool" where
  "used s V b \<longleftrightarrow> bit_used (V (sb_bmapstart (fsb s))) (unat b)"

lemma fs_geomD:
  assumes "fs_geom s" "b < sb_size (fsb s)"
  shows "BBLOCK b (fsb s) = sb_bmapstart (fsb s)" "unat b mod BPB = unat b" "unat b < 1000" "unat (sb_size (fsb s)) \<le> 1000"
proof -
  have le: "unat (sb_size (fsb s)) \<le> 1000" "unat b < unat (sb_size (fsb s))"
    using assms by (auto simp: fs_geom_def FSSIZE_def word_le_nat_alt word_less_nat_alt)
  then show b: "unat b < 1000" "unat (sb_size (fsb s)) \<le> 1000" by simp_all
  then show "unat b mod BPB = unat b" by (simp add: BPB_def BSIZE_def)
  have "b div word_of_nat BPB = 0"
    using b(1) by (subst unat_eq_iff [symmetric]) (simp add: unat_div BPB_def BSIZE_def del: unat_eq_iff)
  then show "BBLOCK b (fsb s) = sb_bmapstart (fsb s)" by (simp add: BBLOCK_def)
qed

lemma same_above_geom: "same_above s t \<Longrightarrow> fs_geom t = fs_geom s"
  by (simp add: fs_geom_def same_aboveD(2,5))

lemma bzero_spec:
  assumes "fs_tx me s bl V D" "home s n" "room s bl 1"
  shows "\<exists>t. bzero me ROOTDEV n s = Ok t \<and> same_above s t
    \<and> fs_tx me t (absorb n bl) (V(n := fill_bytes (V n) 0 BSIZE 0)) D"
proof -
  from fs_modify [OF assms, of "fill_bytes (V n) 0 BSIZE 0"] obtain b s1 s2 s3 where
    t: "fs_bread me ROOTDEV n s = Ok (b, s1)" "fs_data b s1 = V n"
    "fs_log_write b (fs_put b (fill_bytes (V n) 0 BSIZE 0) s1) = Ok s2" "fs_brelse me b s2 = Ok s3" "same_above s s3"
    "fs_tx me s3 (absorb n bl) (V(n := fill_bytes (V n) 0 BSIZE 0)) D" by blast
  then show ?thesis by (simp add: bzero_def)
qed

lemma balloc_spec:
  assumes "fs_tx me s bl V D" "fs_geom s" "room s bl 2" "b < sb_size (fsb s)" "\<not> used s V b"
    "\<And>c. c < b \<Longrightarrow> used s V c" "home s b" "b \<noteq> sb_bmapstart (fsb s)"
  shows "\<exists>t. balloc me ROOTDEV s = Ok (b, t) \<and> same_above s t
    \<and> fs_tx me t (absorb b (absorb (sb_bmapstart (fsb s)) bl))
        (V(sb_bmapstart (fsb s) := bit_set (V (sb_bmapstart (fsb s))) (unat b), b := fill_bytes (V b) 0 BSIZE 0)) D"
proof -
  let ?m = "sb_bmapstart (fsb s)" and ?n = "unat (sb_size (fsb s))"
  note g = fs_geomD [OF assms(2,4)]
  have hm: "home s ?m" using assms(2) by (simp add: fs_geom_def)
  have bn: "unat b < ?n" using assms(4) by (simp add: word_less_nat_alt)
  have all: "bit_used (V ?m) j" if "j < unat b" for j
  proof -
    have "unat (word_of_nat j :: u32) = j" using that g(3) by (intro unat_of_nat_lt) simp
    then show ?thesis using assms(6) [of "word_of_nat j"] that by (simp add: used_def word_less_nat_alt)
  qed
  have "(\<forall>j. 0 \<le> j \<longrightarrow> j < unat b \<longrightarrow> bit_used (V ?m) j)" using all by simp
  moreover have "\<not> bit_used (V ?m) (unat b)" using assms(5) by (simp add: used_def)
  moreover have "unat b < 0 + BPB" using g(3) by (simp add: BPB_def BSIZE_def)
  ultimately have scan: "balloc_scan BPB 0 0 ?n (V ?m) = Some (unat b)"
    using bn by (subst balloc_scan_Some) simp
  have BB: "BBLOCK (word_of_nat 0) (fsb s) = ?m" by (simp add: BBLOCK_def)
  have r1: "room s bl 1" using assms(3) by (rule room_less) simp
  from fs_modify [OF assms(1) hm r1, of "bit_set (V ?m) (unat b)"] obtain p s1 s2 s3 where
    t: "fs_bread me ROOTDEV ?m s = Ok (p, s1)" "fs_data p s1 = V ?m" "same_above s s1"
    "fs_log_write p (fs_put p (bit_set (V ?m) (unat b)) s1) = Ok s2" "fs_brelse me p s2 = Ok s3" "same_above s s3"
    "fs_tx me s3 (absorb ?m bl) (V(?m := bit_set (V ?m) (unat b))) D" by blast
  have r2: "room s3 (absorb ?m bl) 1"
    using room_absorb [of s bl 1 ?m] assms(3) same_aboveD(6) [OF t(6)] by (simp add: numeral_2_eq_2)
  have hb: "home s3 b" using assms(7) same_aboveD(5) [OF t(6)] by simp
  from bzero_spec [OF t(7) hb r2] obtain u where
    u: "bzero me ROOTDEV b s3 = Ok u" "same_above s3 u"
    "fs_tx me u (absorb b (absorb ?m bl)) (V(?m := bit_set (V ?m) (unat b), b := fill_bytes (V b) 0 BSIZE 0)) D"
    using assms(8) by auto
  have "balloc me ROOTDEV s = Ok (b, u)"
    unfolding balloc_def balloc_from.simps(2) BB t(1) using bn t u(1) scan same_aboveD(2) [OF t(3)] by simp
  with u(2,3) same_above_trans [OF t(6) u(2)] show ?thesis by blast
qed

lemma balloc_full:
  assumes "fs_tx me s bl V D" "fs_geom s" "\<And>c. c < sb_size (fsb s) \<Longrightarrow> used s V c"
  shows "balloc me ROOTDEV s = Panic ''balloc: out of blocks''"
proof (cases "0 < unat (sb_size (fsb s))")
  case True
  let ?m = "sb_bmapstart (fsb s)" and ?n = "unat (sb_size (fsb s))"
  have n: "?n \<le> 1000" using assms(2) by (simp add: fs_geom_def FSSIZE_def word_le_nat_alt)
  have all: "bit_used (V ?m) j" if "j < ?n" for j
  proof -
    have "unat (word_of_nat j :: u32) = j" using that n by (intro unat_of_nat_lt) simp
    then show ?thesis using assms(3) [of "word_of_nat j"] that by (simp add: used_def word_less_nat_alt)
  qed
  have scan: "balloc_scan BPB 0 0 ?n (V ?m) = None"
    by (subst balloc_scan_None) (simp add: all)
  have hm: "?m < FSSIZE" using assms(2) by (simp add: fs_geom_def home_def)
  have BB: "BBLOCK (word_of_nat 0) (fsb s) = ?m" by (simp add: BBLOCK_def)
  from fs_read [OF assms(1) hm] obtain p s1 s2 where
    t: "fs_bread me ROOTDEV ?m s = Ok (p, s1)" "fs_data p s1 = V ?m" "same_above s s1"
      "fs_brelse me p s1 = Ok s2" "same_above s s2" by blast
  have "balloc_from k me ROOTDEV BPB s2 = Panic ''balloc: out of blocks''" for k
    using same_aboveD(2) [OF t(5)] n by (cases k) (simp_all add: BPB_def BSIZE_def)
  then show ?thesis
    unfolding balloc_def balloc_from.simps(2) BB t(1) using True t scan same_aboveD(2) [OF t(3)] by simp
next
  case False
  then show ?thesis by (simp add: balloc_def)
qed

lemma bfree_spec:
  assumes "fs_tx me s bl V D" "fs_geom s" "room s bl 1" "b < sb_size (fsb s)"
  shows "if used s V b
    then \<exists>t. bfree me ROOTDEV b s = Ok t \<and> same_above s t \<and> fs_tx me t (absorb (sb_bmapstart (fsb s)) bl)
        (V(sb_bmapstart (fsb s) := bit_clear (V (sb_bmapstart (fsb s))) (unat b))) D
    else bfree me ROOTDEV b s = Panic ''freeing free block''"
proof -
  let ?m = "sb_bmapstart (fsb s)"
  note g = fs_geomD [OF assms(2,4)]
  have hm: "home s ?m" using assms(2) by (simp add: fs_geom_def)
  from fs_modify [OF assms(1) hm assms(3), of "bit_clear (V ?m) (unat b)"] obtain p s1 s2 s3 where
    t: "fs_bread me ROOTDEV ?m s = Ok (p, s1)" "fs_data p s1 = V ?m" "same_above s s1"
    "fs_log_write p (fs_put p (bit_clear (V ?m) (unat b)) s1) = Ok s2" "fs_brelse me p s2 = Ok s3" "same_above s s3"
    "fs_tx me s3 (absorb ?m bl) (V(?m := bit_clear (V ?m) (unat b))) D" by blast
  show ?thesis
    using t by (simp add: bfree_def g used_def Let_def)
qed


text \<open>
  C32. The block allocator: \<open>balloc\<close> returns the least block whose bitmap bit is clear, zeroed and
  marked as used, and changes no other block; \<open>bfree\<close> of that block restores the bitmap exactly,
  and freeing it a second time panics.
\<close>

theorem balloc_then_bfree:
  assumes "fs_tx me s bl V D" "fs_geom s" "room s bl 3" "b < sb_size (fsb s)" "\<not> used s V b"
    "\<And>c. c < b \<Longrightarrow> used s V c" "home s b" "b \<noteq> sb_bmapstart (fsb s)"
  shows "\<exists>t bl' V' u V''. balloc me ROOTDEV s = Ok (b, t) \<and> fs_tx me t bl' V' D
    \<and> (\<forall>c. c < sb_size (fsb s) \<longrightarrow> used t V' c = (c = b \<or> used s V c)) \<and> (\<forall>i < BSIZE. V' b i = 0)
    \<and> (\<forall>m. m \<noteq> b \<longrightarrow> m \<noteq> sb_bmapstart (fsb s) \<longrightarrow> V' m = V m)
    \<and> bfree me ROOTDEV b t = Ok u \<and> fs_tx me u (absorb (sb_bmapstart (fsb s)) bl') V'' D
    \<and> V'' = V'(sb_bmapstart (fsb s) := V (sb_bmapstart (fsb s)))
    \<and> bfree me ROOTDEV b u = Panic ''freeing free block''"
proof -
  let ?m = "sb_bmapstart (fsb s)"
  define V1 where "V1 = V(?m := bit_set (V ?m) (unat b), b := fill_bytes (V b) 0 BSIZE 0)"
  define V2 where "V2 = V1(?m := V ?m)"
  note g = fs_geomD [OF assms(2)]
  have "room s bl 2" using assms(3) by (rule room_less) simp
  from balloc_spec [OF assms(1,2) this assms(4-8)] obtain t where
    t: "balloc me ROOTDEV s = Ok (b, t)" "same_above s t" "fs_tx me t (absorb b (absorb ?m bl)) V1 D"
    unfolding V1_def by blast
  note a = same_aboveD [OF t(2)]
  have V1m: "V1 ?m = bit_set (V ?m) (unat b)" using assms(8) by (simp add: V1_def)
  have ub: "used t V1 b" by (simp add: used_def a V1m)
  have "room t (absorb b (absorb ?m bl)) 1"
    using assms(3) a(6) room_absorb [of s bl 2 ?m] room_absorb [of s "absorb ?m bl" 1 b] by (simp add: numeral_3_eq_3 numeral_2_eq_2)
  from bfree_spec [OF t(3) _ this, of b] assms(2,4) t(2) ub obtain u where
    u: "bfree me ROOTDEV b t = Ok u" "same_above t u"
      "fs_tx me u (absorb ?m (absorb b (absorb ?m bl))) (V1(?m := bit_clear (V1 ?m) (unat b))) D"
    using a same_above_geom [OF t(2)] by auto
  have "bit_clear (V1 ?m) (unat b) = V ?m"
    using assms(5) by (simp add: V1m bit_clear_set used_def)
  with u(3) have u3: "fs_tx me u (absorb ?m (absorb b (absorb ?m bl))) V2 D" by (simp only: V2_def)
  note au = same_aboveD [OF u(2)]
  have rm: "room u (absorb ?m (absorb b (absorb ?m bl))) 1"
  proof -
    have "length (absorb ?m (absorb b (absorb ?m bl))) = length (absorb b (absorb ?m bl))"
      by (auto simp: absorb_def)
    then show ?thesis using \<open>room t (absorb b (absorb ?m bl)) 1\<close> unfolding au(6) by (simp add: room_def)
  qed
  have "\<not> used u V2 b" using assms(5) by (simp add: used_def a au V2_def)
  with bfree_spec [OF u3 _ rm, of b] assms(2,4) a au
  have p: "bfree me ROOTDEV b u = Panic ''freeing free block''"
    using same_above_geom [OF t(2)] same_above_geom [OF u(2)] by simp
  have us: "used t V1 c = (c = b \<or> used s V c)" if "c < sb_size (fsb s)" for c
    by (auto simp: used_def a V1m)
  have z: "\<forall>i < BSIZE. V1 b i = 0" by (simp add: V1_def fill_bytes_def)
  have oth: "\<forall>m. m \<noteq> b \<longrightarrow> m \<noteq> ?m \<longrightarrow> V1 m = V m" by (simp add: V1_def)
  show ?thesis
    by (intro exI [of _ t] exI [of _ "absorb b (absorb ?m bl)"] exI [of _ V1] exI [of _ u] exI [of _ V2] conjI)
      (use t(1,3) us z oth u(1) u3 p in \<open>auto simp: V2_def\<close>)
qed

subsection \<open>The inode cache\<close>

definition hit :: "u32 \<Rightarrow> u32 \<Rightarrow> inode \<Rightarrow> bool" where
  "hit dev n i \<longleftrightarrow> 0 < iref i \<and> idev i = dev \<and> inum i = n"

lemma iget_scan_None: "fst (iget_scan dev n k fr xs) = None \<longleftrightarrow> (\<forall>i \<in> set xs. \<not> hit dev n i)"
  by (induction xs arbitrary: k fr) (auto simp: hit_def)

lemma iget_scan_Some:
  "fst (iget_scan dev n k fr xs) = Some p \<Longrightarrow> k \<le> p \<and> p < k + length xs \<and> hit dev n (xs ! (p - k))"
proof (induction xs arbitrary: k fr)
  case (Cons i xs)
  show ?case
  proof (cases "hit dev n i")
    case True
    then show ?thesis using Cons.prems by (simp add: hit_def)
  next
    case False
    then have "fst (iget_scan dev n (Suc k) (if fr = None \<and> iref i = 0 then Some k else fr) xs) = Some p"
      using Cons.prems by (auto simp: hit_def split: if_splits)
    from Cons.IH [OF this] have "Suc k \<le> p" "p < Suc k + length xs" "hit dev n (xs ! (p - Suc k))" by simp_all
    moreover from this(1) have "p - k = Suc (p - Suc k)" by simp
    ultimately show ?thesis by simp
  qed
qed simp

lemma iget_scan_keeps: "\<forall>i \<in> set xs. \<not> hit dev n i \<Longrightarrow> snd (iget_scan dev n k (Some e) xs) = Some e"
  by (induction xs arbitrary: k) (auto simp: hit_def)

lemma iget_scan_free:
  assumes "\<forall>i \<in> set xs. \<not> hit dev n i"
  shows "snd (iget_scan dev n k None xs) = None \<Longrightarrow> \<forall>i \<in> set xs. iref i \<noteq> 0"
    "snd (iget_scan dev n k None xs) = Some p \<Longrightarrow> k \<le> p \<and> p < k + length xs \<and> iref (xs ! (p - k)) = 0"
proof -
  show "snd (iget_scan dev n k None xs) = None \<Longrightarrow> \<forall>i \<in> set xs. iref i \<noteq> 0"
    using assms
  proof (induction xs arbitrary: k)
    case (Cons i xs)
    then show ?case using iget_scan_keeps [of xs] by (auto simp: hit_def split: if_splits)
  qed simp
  show "snd (iget_scan dev n k None xs) = Some p \<Longrightarrow> k \<le> p \<and> p < k + length xs \<and> iref (xs ! (p - k)) = 0"
    using assms
  proof (induction xs arbitrary: k)
    case (Cons i xs)
    have nh: "\<not> hit dev n i" "\<forall>i \<in> set xs. \<not> hit dev n i" using Cons.prems(2) by simp_all
    show ?case
    proof (cases "iref i = 0")
      case True
      then show ?thesis using Cons.prems(1) nh iget_scan_keeps [of xs] by (simp add: hit_def)
    next
      case False
      then have "snd (iget_scan dev n (Suc k) None xs) = Some p"
        using Cons.prems(1) nh by (auto simp: hit_def split: if_splits)
      from Cons.IH [OF this nh(2)] have "Suc k \<le> p" "p < Suc k + length xs" "iref (xs ! (p - Suc k)) = 0" by simp_all
      moreover from this(1) have "p - k = Suc (p - Suc k)" by simp
      ultimately show ?thesis by simp
    qed
  qed simp
qed


text \<open>The cache's invariant, and the number of references it holds to each inode.\<close>

definition icache_ok :: "'d fs \<Rightarrow> bool" where
  "icache_ok s \<longleftrightarrow> \<not> ic_lk s \<and> length (inodes s) = NINODE \<and> (\<forall>i \<in> set (inodes s). 0 \<le> iref i)
     \<and> (\<forall>a < NINODE. \<forall>b < NINODE. 0 < iref (inodes s ! a) \<longrightarrow> hit (idev (inodes s ! a)) (inum (inodes s ! a)) (inodes s ! b) \<longrightarrow> a = b)"

definition ref_of :: "u32 \<Rightarrow> u32 \<Rightarrow> inode \<Rightarrow> int" where
  "ref_of dev n i = (if hit dev n i then iref i else 0)"

definition refs :: "'d fs \<Rightarrow> u32 \<Rightarrow> u32 \<Rightarrow> int" where
  "refs s dev n = sum_list (map (ref_of dev n) (inodes s))"

lemma sum_list_change:
  fixes f :: "'a \<Rightarrow> int"
  shows "k < length xs \<Longrightarrow> sum_list (map f (xs[k := y])) = sum_list (map f xs) + (f y - f (xs ! k))"
proof (induction xs arbitrary: k)
  case (Cons x xs)
  then show ?case by (cases k) simp_all
qed simp

lemma sum_list_zero:
  fixes f :: "'a \<Rightarrow> int"
  shows "(\<And>x. x \<in> set xs \<Longrightarrow> 0 \<le> f x) \<Longrightarrow> sum_list (map f xs) = 0 \<longleftrightarrow> (\<forall>x \<in> set xs. f x = 0)"
proof (induction xs)
  case (Cons x xs)
  have "0 \<le> sum_list (map f xs)" by (rule sum_list_nonneg) (use Cons.prems in auto)
  moreover have "0 \<le> f x" using Cons.prems by simp
  ultimately show ?case using Cons by (auto simp: add_nonneg_eq_0_iff)
qed simp

lemma refs_zero: "icache_ok s \<Longrightarrow> refs s dev n = 0 \<longleftrightarrow> (\<forall>i \<in> set (inodes s). \<not> hit dev n i)"
  unfolding refs_def
  by (subst sum_list_zero) (auto simp: icache_ok_def ref_of_def hit_def)

lemma upd_inode_simps [simp]:
  "inodes (upd_inode ip f s) = (inodes s)[ip := f (inodes s ! ip)]" "ic_lk (upd_inode ip f s) = ic_lk s"
  "lg (upd_inode ip f s) = lg s" "fsb (upd_inode ip f s) = fsb s" "devs (upd_inode ip f s) = devs s"
  "(upd_inode ip f s)\<lparr>ic_lk := l\<rparr> = upd_inode ip f (s\<lparr>ic_lk := l\<rparr>)"
  by (simp_all add: upd_inode_def)

lemma ic_unlock_same [simp]: "\<not> ic_lk s \<Longrightarrow> s\<lparr>ic_lk := False\<rparr> = s"
  by (cases s) simp

lemma refs_upd:
  assumes "icache_ok s" "ip < NINODE"
  shows "refs (upd_inode ip f s) dev n
    = refs s dev n + (ref_of dev n (f (inodes s ! ip)) - ref_of dev n (inodes s ! ip))"
  using assms by (simp add: refs_def icache_ok_def sum_list_change)

lemma icache_ok_upd:
  assumes "icache_ok s" "ip < NINODE" "0 \<le> iref (f (inodes s ! ip))"
    "\<And>j. j < NINODE \<Longrightarrow> j \<noteq> ip \<Longrightarrow> 0 < iref (f (inodes s ! ip)) \<Longrightarrow>
       \<not> hit (idev (f (inodes s ! ip))) (inum (f (inodes s ! ip))) (inodes s ! j)"
  shows "icache_ok (upd_inode ip f s)"
proof -
  have l: "length (inodes s) = NINODE" using assms(1) by (simp add: icache_ok_def)
  have "\<forall>i \<in> set ((inodes s)[ip := f (inodes s ! ip)]). 0 \<le> iref i"
    using assms set_update_subset_insert [of "inodes s" ip "f (inodes s ! ip)"] by (auto simp: icache_ok_def)
  moreover have "a = b" if "a < NINODE" "b < NINODE" "0 < iref ((inodes s)[ip := f (inodes s ! ip)] ! a)"
    "hit (idev ((inodes s)[ip := f (inodes s ! ip)] ! a)) (inum ((inodes s)[ip := f (inodes s ! ip)] ! a)) ((inodes s)[ip := f (inodes s ! ip)] ! b)" for a b
  proof -
    consider "a = ip" "b = ip" | "a = ip" "b \<noteq> ip" | "a \<noteq> ip" "b = ip" | "a \<noteq> ip" "b \<noteq> ip" by blast
    then show ?thesis
    proof cases
      case 1 then show ?thesis by simp
    next
      case 2 then show ?thesis using that assms(4) [of b] l assms(2) by simp
    next
      case 3
      then have "hit (idev (inodes s ! a)) (inum (inodes s ! a)) (f (inodes s ! ip))" using that l assms(2) by simp
      moreover have "0 < iref (inodes s ! a)" using that 3 by simp
      ultimately show ?thesis using assms(4) [of a] that(1) 3 by (simp add: hit_def)
    next
      case 4 then show ?thesis using that assms(1) by (simp add: icache_ok_def)
    qed
  qed
  ultimately show ?thesis using assms(1) by (simp add: icache_ok_def)
qed

lemma iget_cached:
  assumes "icache_ok s" "ip < NINODE" "hit dev n (inodes s ! ip)"
  shows "iget dev n s = Ok (ip, upd_inode ip (\<lambda>i. i\<lparr>iref := iref i + 1\<rparr>) s)"
proof -
  have s: "\<not> ic_lk s" "length (inodes s) = NINODE" using assms(1) by (simp_all add: icache_ok_def)
  have "inodes s ! ip \<in> set (inodes s)" using assms(2) s(2) by simp
  then have "fst (iget_scan dev n 0 None (inodes s)) \<noteq> None"
    using assms(3) by (simp only: iget_scan_None) blast
  then obtain p where p: "fst (iget_scan dev n 0 None (inodes s)) = Some p" by blast
  from iget_scan_Some [OF this] have q: "p < NINODE" "hit dev n (inodes s ! p)" using s(2) by simp_all
  have "0 < iref (inodes s ! p)" "hit (idev (inodes s ! p)) (inum (inodes s ! p)) (inodes s ! ip)"
    using q(2) assms(3) by (simp_all add: hit_def)
  then have "p = ip" using assms(1,2) q(1) by (simp add: icache_ok_def)
  then obtain e where "iget_scan dev n 0 None (inodes s) = (Some ip, e)" using p by (metis prod.collapse)
  then show ?thesis using s(1) by (simp add: iget_def Let_def)
qed

lemma iget_new:
  assumes "icache_ok s" "\<forall>i \<in> set (inodes s). \<not> hit dev n i"
  shows "if \<forall>i \<in> set (inodes s). iref i \<noteq> 0 then iget dev n s = Panic ''iget: no inodes''
    else \<exists>ip < NINODE. iref (inodes s ! ip) = 0
      \<and> iget dev n s = Ok (ip, upd_inode ip (\<lambda>i. i\<lparr>idev := dev, inum := n, iref := 1, valid := False\<rparr>) s)"
proof -
  have s: "\<not> ic_lk s" "length (inodes s) = NINODE" using assms(1) by (simp_all add: icache_ok_def)
  have f: "fst (iget_scan dev n 0 None (inodes s)) = None" using assms(2) by (simp add: iget_scan_None)
  show ?thesis
  proof (cases "snd (iget_scan dev n 0 None (inodes s))")
    case None
    then have "\<forall>i \<in> set (inodes s). iref i \<noteq> 0" by (rule iget_scan_free(1) [OF assms(2)])
    moreover have "iget_scan dev n 0 None (inodes s) = (None, None)" using f None by (metis prod.collapse)
    ultimately show ?thesis using s(1) by (simp add: iget_def Let_def)
  next
    case (Some p)
    from iget_scan_free(2) [OF assms(2) this] have p: "p < NINODE" "iref (inodes s ! p) = 0" using s(2) by simp_all
    have sc: "iget_scan dev n 0 None (inodes s) = (None, Some p)" using f Some by (metis prod.collapse)
    have "inodes s ! p \<in> set (inodes s)" using p(1) s(2) by simp
    then have "\<not> (\<forall>i \<in> set (inodes s). iref i \<noteq> 0)" using p(2) by blast
    then show ?thesis using p s(1) sc by (auto simp: iget_def Let_def)
  qed
qed


lemma ref_of_bump:
  "0 < iref i \<Longrightarrow> 0 < k \<Longrightarrow> ref_of d m (i\<lparr>iref := k\<rparr>) - ref_of d m i = (if d = idev i \<and> m = inum i then k - iref i else 0)"
  by (auto simp: ref_of_def hit_def)

text \<open>
  The inode cache: \<open>iget\<close> returns an entry for the inode and adds one to the references held
  to it, and to no other inode; an inode that is already cached keeps its entry and its
  contents, a new one is marked as not yet read; the cache never holds an inode twice, and
  \<open>iget\<close> panics exactly when a new entry is needed and none is free.
\<close>

theorem iget_counts:
  assumes "icache_ok s"
  shows "if refs s dev n = 0 \<and> (\<forall>i \<in> set (inodes s). iref i \<noteq> 0) then iget dev n s = Panic ''iget: no inodes''
    else \<exists>ip t. iget dev n s = Ok (ip, t) \<and> ip < NINODE \<and> icache_ok t \<and> hit dev n (inodes t ! ip)
      \<and> (\<forall>d m. refs t d m = refs s d m + (if d = dev \<and> m = n then 1 else 0))
      \<and> valid (inodes t ! ip) = (refs s dev n \<noteq> 0 \<and> valid (inodes s ! ip))
      \<and> (\<forall>j < NINODE. j \<noteq> ip \<longrightarrow> inodes t ! j = inodes s ! j) \<and> lg t = lg s"
proof (cases "refs s dev n = 0")
  case False
  then obtain i where "i \<in> set (inodes s)" "hit dev n i" using refs_zero [OF assms] by blast
  moreover have l: "length (inodes s) = NINODE" using assms by (simp add: icache_ok_def)
  ultimately obtain ip where ip: "ip < NINODE" "hit dev n (inodes s ! ip)" by (metis in_set_conv_nth)
  let ?f = "\<lambda>i. i\<lparr>iref := iref i + 1\<rparr>"
  have r: "0 < iref (inodes s ! ip)" "idev (inodes s ! ip) = dev" "inum (inodes s ! ip) = n" using ip(2) by (simp_all add: hit_def)
  have ok: "icache_ok (upd_inode ip ?f s)"
  proof (rule icache_ok_upd [OF assms ip(1)])
    show "0 \<le> iref (?f (inodes s ! ip))" using r(1) by simp
    show "\<not> hit (idev (?f (inodes s ! ip))) (inum (?f (inodes s ! ip))) (inodes s ! j)" if "j < NINODE" "j \<noteq> ip" for j
      using assms that r(1) ip(1) by (auto simp: icache_ok_def)
  qed
  have "refs (upd_inode ip ?f s) d m = refs s d m + (if d = dev \<and> m = n then 1 else 0)" for d m
    using refs_upd [OF assms ip(1)] ref_of_bump [OF r(1), of "iref (inodes s ! ip) + 1" d m] r by simp
  with False ok ip l r show ?thesis
    by (simp add: iget_cached [OF assms ip]) (simp add: hit_def)
next
  case True
  then have nh: "\<forall>i \<in> set (inodes s). \<not> hit dev n i" using refs_zero [OF assms] by simp
  note nw = iget_new [OF assms nh]
  show ?thesis
  proof (cases "\<forall>i \<in> set (inodes s). iref i \<noteq> 0")
    case no: True
    then show ?thesis using nw True by simp
  next
    case some: False
    let ?f = "\<lambda>i. i\<lparr>idev := dev, inum := n, iref := 1, valid := False\<rparr>"
    obtain ip where ip: "ip < NINODE" "iref (inodes s ! ip) = 0" "iget dev n s = Ok (ip, upd_inode ip ?f s)"
      using nw unfolding if_not_P [OF some] by blast
    have l: "length (inodes s) = NINODE" using assms by (simp add: icache_ok_def)
    have "icache_ok (upd_inode ip ?f s)"
      by (rule icache_ok_upd [OF assms ip(1)]) (use nh l in auto)
    moreover have "ref_of d m (?f (inodes s ! ip)) - ref_of d m (inodes s ! ip) = (if d = dev \<and> m = n then 1 else 0)" for d m
      using ip(2) by (auto simp: ref_of_def hit_def)
    then have "refs (upd_inode ip ?f s) d m = refs s d m + (if d = dev \<and> m = n then 1 else 0)" for d m
      using refs_upd [OF assms ip(1), of ?f d m] by simp
    ultimately show ?thesis using True some ip l by (auto simp: hit_def)
  qed
qed

lemma iput_keep:
  assumes "icache_ok s" "ip < NINODE" "sl_free (ilk (inodes s ! ip))" "0 < iref (inodes s ! ip)"
    "valid (inodes s ! ip) \<longrightarrow> nlink (inodes s ! ip) = 0 \<longrightarrow> iref (inodes s ! ip) \<noteq> 1"
  shows "iput me ip s = Ok (upd_inode ip (\<lambda>i. i\<lparr>ilk := sl_released (sl_taken me (ilk i)), iref := iref i - 1\<rparr>) s)"
proof -
  have s: "\<not> ic_lk s" "length (inodes s) = NINODE" using assms(1) by (simp_all add: icache_ok_def)
  have h: "sl_held me (sl_taken me (ilk (inodes s ! ip)))" using assms(3) by simp
  note lk = acquiresleep_free [OF assms(3), of me] releasesleep_eq [OF h]
  show ?thesis
    using assms(2,5) s by (auto simp: iput_def Let_def lk upd_inode_def)
qed

text \<open>
  Reference counting: \<open>idup\<close> adds one reference to the inode, and \<open>iput\<close> gives it back without
  touching the disk, whatever the link count, since other references remain.
\<close>

theorem idup_iput_counts:
  assumes "icache_ok s" "ip < NINODE" "sl_free (ilk (inodes s ! ip))" "0 < iref (inodes s ! ip)"
  shows "\<exists>t u. idup (Some ip) s = Ok (Some ip, t) \<and> icache_ok t \<and> iput me ip t = Ok u \<and> icache_ok u
    \<and> (\<forall>d m. refs t d m = refs s d m + (if hit d m (inodes s ! ip) then 1 else 0) \<and> refs u d m = refs s d m)
    \<and> (\<forall>j < NINODE. j \<noteq> ip \<longrightarrow> inodes u ! j = inodes s ! j) \<and> lg u = lg s"
proof -
  have s: "\<not> ic_lk s" "length (inodes s) = NINODE" using assms(1) by (simp_all add: icache_ok_def)
  let ?f = "\<lambda>i. i\<lparr>iref := iref i + 1\<rparr>" let ?g = "\<lambda>i. i\<lparr>ilk := sl_released (sl_taken me (ilk i)), iref := iref i - 1\<rparr>"
  let ?t = "upd_inode ip ?f s"
  have uniq: "\<not> hit (idev (inodes s ! ip)) (inum (inodes s ! ip)) (inodes s ! j)" if "j < NINODE" "j \<noteq> ip" for j
    using assms that by (auto simp: icache_ok_def)
  have ok: "icache_ok ?t"
    by (rule icache_ok_upd [OF assms(1,2)]) (use assms(4) uniq in auto)
  have ti: "inodes ?t ! ip = ?f (inodes s ! ip)" using assms(2) s(2) by simp
  have ok2: "icache_ok (upd_inode ip ?g ?t)"
    by (rule icache_ok_upd [OF ok assms(2)]) (use assms(2,4) s(2) uniq in auto)
  have rt: "refs ?t d m = refs s d m + (if hit d m (inodes s ! ip) then 1 else 0)" for d m
    using refs_upd [OF assms(1,2), of ?f d m] ref_of_bump [OF assms(4), of "iref (inodes s ! ip) + 1" d m] assms(4)
    by (auto simp: hit_def)
  have "refs (upd_inode ip ?g ?t) d m = refs s d m" for d m
  proof -
    have "ref_of d m (?g (inodes ?t ! ip)) = ref_of d m (inodes s ! ip)"
      unfolding ti by (simp add: ref_of_def hit_def)
    moreover have "ref_of d m (inodes ?t ! ip) - ref_of d m (inodes s ! ip) = (if hit d m (inodes s ! ip) then 1 else 0)"
      unfolding ti using ref_of_bump [OF assms(4), of "iref (inodes s ! ip) + 1" d m] assms(4) by (auto simp: hit_def)
    ultimately show ?thesis using refs_upd [OF ok assms(2), of ?g d m] rt [of d m] by simp
  qed
  moreover have "iput me ip ?t = Ok (upd_inode ip ?g ?t)"
    by (rule iput_keep [OF ok assms(2)]) (use assms s in auto)
  moreover have "idup (Some ip) s = Ok (Some ip, ?t)" using s(1) by (simp add: idup_def Let_def)
  ultimately show ?thesis using ok ok2 rt by (intro exI [of _ ?t] exI [of _ "upd_inode ip ?g ?t"]) simp
qed


subsection \<open>Inodes on disk\<close>

lemma put_addrs_other: "j + 4 \<le> a \<or> a + 4 * length xs \<le> j \<Longrightarrow> rd32 (put_addrs d a xs) j = rd32 d j"
proof (induction xs arbitrary: d a)
  case (Cons x xs)
  have "rd32 (put_addrs (wr32 d a x) (a + 4) xs) j = rd32 (wr32 d a x) j"
    by (rule Cons.IH) (use Cons.prems in auto)
  also have "\<dots> = rd32 d j" by (rule rd32_wr32_other) (use Cons.prems in auto)
  finally show ?case by simp
qed simp

lemma put_addrs_outside: "j < a \<or> a + 4 * length xs \<le> j \<Longrightarrow> put_addrs d a xs j = d j"
proof (induction xs arbitrary: d a)
  case (Cons x xs)
  have "put_addrs (wr32 d a x) (a + 4) xs j = wr32 d a x j"
    by (rule Cons.IH) (use Cons.prems in auto)
  also have "\<dots> = d j" by (rule wr32_outside) (use Cons.prems in auto)
  finally show ?case by simp
qed simp

lemma put_addrs_at: "i < length xs \<Longrightarrow> rd32 (put_addrs d a xs) (a + 4 * i) = xs ! i"
proof (induction xs arbitrary: d a i)
  case (Cons x xs)
  show ?case
  proof (cases i)
    case 0
    have "rd32 (put_addrs (wr32 d a x) (a + 4) xs) a = rd32 (wr32 d a x) a"
      by (rule put_addrs_other) simp
    then show ?thesis using 0 by simp
  next
    case (Suc j)
    then show ?thesis using Cons.IH [of j "wr32 d a x" "a + 4"] Cons.prems by (simp add: algebra_simps)
  qed
qed simp

lemma get_put_addrs: "length xs = n \<Longrightarrow> get_addrs (put_addrs d a xs) a n = xs"
  by (rule nth_equalityI) (simp_all add: get_addrs_def put_addrs_at)

lemma rd16_wr32_other: "a + 4 \<le> b \<or> b + 2 \<le> a \<Longrightarrow> rd16 (wr32 m a w) b = rd16 m b"
  by (auto simp: rd16_def wr32_def)

lemma put_addrs_rd16: "j + 2 \<le> a \<Longrightarrow> rd16 (put_addrs d a xs) j = rd16 d j"
  by (simp add: rd16_def put_addrs_outside)

lemma get_put_dinode:
  assumes "length (addrs i) = NDIRECT + 1"
  shows "get_dinode (put_dinode i a d) a j
    = j\<lparr>itype := itype i, major := major i, minor := minor i, nlink := nlink i, isize := isize i, addrs := addrs i\<rparr>"
proof -
  have "get_addrs (put_dinode i a d) (a + 12) (NDIRECT + 1) = addrs i"
    unfolding put_dinode_def by (rule get_put_addrs) (rule assms)
  moreover have "rd32 (put_dinode i a d) (a + 8) = isize i"
    by (simp add: put_dinode_def put_addrs_other)
  moreover have "rd16 (put_dinode i a d) a = itype i" "rd16 (put_dinode i a d) (a + 2) = major i"
    "rd16 (put_dinode i a d) (a + 4) = minor i" "rd16 (put_dinode i a d) (a + 6) = nlink i"
    by (simp_all add: put_dinode_def put_addrs_rd16 rd16_wr32_other mem_simps)
  ultimately show ?thesis by (simp add: get_dinode_def)
qed

lemma put_dinode_outside:
  "length (addrs i) = NDIRECT + 1 \<Longrightarrow> j < a \<or> a + 64 \<le> j \<Longrightarrow> put_dinode i a d j = d j"
  by (auto simp: put_dinode_def put_addrs_outside NDIRECT_def wr32_def wr16_def)

lemma get_dinode_cong: "(\<And>j. a \<le> j \<Longrightarrow> j < a + 64 \<Longrightarrow> d j = e j) \<Longrightarrow> get_dinode d a i = get_dinode e a i"
  by (simp add: get_dinode_def get_addrs_def rd16_def rd32_def NDIRECT_def)


lemma iupdate_spec:
  assumes "fs_tx me s bl V D" "idev (inodes s ! ip) = ROOTDEV" "IBLOCK (inum (inodes s ! ip)) (fsb s) = B"
    "home s B" "room s bl 1"
  shows "\<exists>t. iupdate me ip s = Ok t \<and> same_above s t
    \<and> fs_tx me t (absorb B bl) (V(B := put_dinode (inodes s ! ip) (dinode_off (inum (inodes s ! ip))) (V B))) D"
proof -
  let ?d = "put_dinode (inodes s ! ip) (dinode_off (inum (inodes s ! ip))) (V B)"
  from fs_modify [OF assms(1,4,5), of ?d] obtain p s1 s2 s3 where
    t: "fs_bread me ROOTDEV B s = Ok (p, s1)" "fs_data p s1 = V B" "same_above s s1"
    "fs_log_write p (fs_put p ?d s1) = Ok s2" "fs_brelse me p s2 = Ok s3" "same_above s s3"
    "fs_tx me s3 (absorb B bl) (V(B := ?d)) D" by blast
  show ?thesis
    using t same_aboveD(1) [OF t(3)] assms(2,3) by (simp add: iupdate_def Let_def)
qed

lemma ilock_cached:
  assumes "0 < iref (inodes s ! ip)" "sl_free (ilk (inodes s ! ip))" "valid (inodes s ! ip)" "ip < length (inodes s)"
  shows "ilock me ip s = Ok (upd_inode ip (\<lambda>i. i\<lparr>ilk := sl_taken me (ilk i)\<rparr>) s)"
  using assms by (simp add: ilock_def acquiresleep_free Let_def upd_inode_def)

lemma ilock_spec:
  assumes "fs_tx me s bl V D" "idev (inodes s ! ip) = ROOTDEV" "IBLOCK (inum (inodes s ! ip)) (fsb s) = B"
    "B < FSSIZE" "0 < iref (inodes s ! ip)" "sl_free (ilk (inodes s ! ip))" "\<not> valid (inodes s ! ip)" "ip < length (inodes s)"
  defines "i \<equiv> (get_dinode (V B) (dinode_off (inum (inodes s ! ip))) (inodes s ! ip))\<lparr>ilk := sl_taken me (ilk (inodes s ! ip)), valid := True\<rparr>"
  shows "if itype i = 0 then ilock me ip s = Panic ''ilock: no type''
    else \<exists>t. ilock me ip s = Ok t \<and> fs_tx me t bl V D \<and> inodes t = (inodes s)[ip := i] \<and> same_above (s\<lparr>inodes := inodes t\<rparr>) t"
proof -
  let ?s = "upd_inode ip (\<lambda>i. i\<lparr>ilk := sl_taken me (ilk (inodes s ! ip))\<rparr>) s"
  have "fs_tx me ?s bl V D" using assms(1) by (simp add: fs_tx_def)
  from fs_read [OF this assms(4)] obtain p s1 s2 where
    t: "fs_bread me ROOTDEV B ?s = Ok (p, s1)" "fs_data p s1 = V B" "same_above ?s s1"
      "fs_brelse me p s1 = Ok s2" "same_above ?s s2" "fs_tx me s2 bl V D" by blast
  let ?g = "get_dinode (V B) (dinode_off (inum (inodes s ! ip)))"
  have b: "fs_brelse me p (upd_inode ip f s1) = Ok (upd_inode ip f s2)" for f
    using t(4) same_aboveD(1) [OF t(3)] same_aboveD(1) [OF t(5)]
    by (cases "brelse me p (bc (lg s1))") (auto simp: fs_brelse_def upd_inode_def)
  have i: "inodes s1 ! ip = (inodes s ! ip)\<lparr>ilk := sl_taken me (ilk (inodes s ! ip))\<rparr>" "inodes s2 = inodes s1"
    "inodes s1 = (inodes s)[ip := (inodes s ! ip)\<lparr>ilk := sl_taken me (ilk (inodes s ! ip))\<rparr>]"
    using same_aboveD(1) [OF t(3)] same_aboveD(1) [OF t(5)] assms(8) by simp_all
  let ?t = "upd_inode ip (\<lambda>i. i\<lparr>valid := True\<rparr>) (upd_inode ip ?g s2)"
  have di: "?g (j\<lparr>ilk := l\<rparr>) = (?g j)\<lparr>ilk := l\<rparr>" for j l by (simp add: get_dinode_def)
  have it: "inodes ?t = (inodes s)[ip := i]"
    using i assms(8) by (simp add: i_def di)
  have "ilock me ip s = panic_if (itype (inodes ?t ! ip) = 0) ''ilock: no type'' (Ok ?t)"
    using assms(2,3,5-8) t(1,2) b i by (simp add: ilock_def acquiresleep_free Let_def)
  moreover have "itype (inodes ?t ! ip) = itype i" using it assms(8) by simp
  moreover have "fs_tx me ?t bl V D" using t(6) by (simp add: fs_tx_def)
  moreover have "same_above (s\<lparr>inodes := inodes ?t\<rparr>) ?t"
    using t(5) by (cases s; cases s2) (simp add: same_above_def upd_inode_def)
  ultimately show ?thesis using it by auto
qed

lemma dinode_slots:
  assumes "IBLOCK m sb = IBLOCK n sb" "m \<noteq> n"
  shows "dinode_off m + 64 \<le> dinode_off n \<or> dinode_off n + 64 \<le> dinode_off m"
proof -
  have "m div word_of_nat IPB = n div word_of_nat IPB" using assms(1) by (simp add: IBLOCK_def)
  then have "unat (m div word_of_nat IPB) = unat (n div word_of_nat IPB)" by (simp only:)
  then have "unat m div 8 = unat n div 8"
    by (simp only: unat_div) (simp add: IPB_def BSIZE_def del: unat_eq_iff)
  moreover have "unat m \<noteq> unat n" using assms(2) by simp
  ultimately have "unat m mod 8 \<noteq> unat n mod 8" by (metis div_mult_mod_eq)
  then show ?thesis by (auto simp: dinode_off_def IPB_def BSIZE_def)
qed


text \<open>
  Inodes survive on disk: after \<open>iupdate\<close>, the first \<open>ilock\<close> of any cache entry for the same
  inode, in any later state with the same block contents, reads back exactly the type, device
  numbers, link count, size and addresses that were written, and no other inode changes, even
  one in the same block.
\<close>

theorem iupdate_then_ilock:
  assumes "fs_tx me s bl V D" "idev (inodes s ! ip) = ROOTDEV" "home s (IBLOCK (inum (inodes s ! ip)) (fsb s))"
    "room s bl 1" "length (addrs (inodes s ! ip)) = NDIRECT + 1" "itype (inodes s ! ip) \<noteq> 0"
  shows "\<exists>t bl' V'. iupdate me ip s = Ok t \<and> fs_tx me t bl' V' D
    \<and> (\<forall>m j. m \<noteq> inum (inodes s ! ip) \<longrightarrow>
        get_dinode (V' (IBLOCK m (fsb s))) (dinode_off m) j = get_dinode (V (IBLOCK m (fsb s))) (dinode_off m) j)
    \<and> (\<forall>u jp bl2 D2. fs_tx me u bl2 V' D2 \<longrightarrow> fsb u = fsb s \<longrightarrow> jp < length (inodes u) \<longrightarrow> \<not> valid (inodes u ! jp)
        \<longrightarrow> hit ROOTDEV (inum (inodes s ! ip)) (inodes u ! jp) \<longrightarrow> sl_free (ilk (inodes u ! jp)) \<longrightarrow>
        (\<exists>w. ilock me jp u = Ok w \<and> valid (inodes w ! jp) \<and> itype (inodes w ! jp) = itype (inodes s ! ip)
          \<and> major (inodes w ! jp) = major (inodes s ! ip) \<and> minor (inodes w ! jp) = minor (inodes s ! ip)
          \<and> nlink (inodes w ! jp) = nlink (inodes s ! ip) \<and> isize (inodes w ! jp) = isize (inodes s ! ip)
          \<and> addrs (inodes w ! jp) = addrs (inodes s ! ip)))"
proof -
  let ?i = "inodes s ! ip" let ?n = "inum ?i" let ?B = "IBLOCK ?n (fsb s)"
  define V1 where "V1 = V(?B := put_dinode ?i (dinode_off ?n) (V ?B))"
  from iupdate_spec [OF assms(1,2) refl assms(3,4)] obtain t where
    t: "iupdate me ip s = Ok t" "fs_tx me t (absorb ?B bl) V1 D" unfolding V1_def by blast
  have other: "get_dinode (V1 (IBLOCK m (fsb s))) (dinode_off m) j = get_dinode (V (IBLOCK m (fsb s))) (dinode_off m) j"
    if "m \<noteq> ?n" for m j
  proof (cases "IBLOCK m (fsb s) = ?B")
    case True
    have "put_dinode ?i (dinode_off ?n) (V ?B) x = V ?B x" if "dinode_off m \<le> x" "x < dinode_off m + 64" for x
      by (rule put_dinode_outside) (use assms(5) dinode_slots [OF True \<open>m \<noteq> ?n\<close>] that in auto)
    then show ?thesis unfolding V1_def True by (intro get_dinode_cong) simp
  next
    case False
    then show ?thesis by (simp add: V1_def)
  qed
  have lk: "\<exists>w. ilock me jp u = Ok w \<and> valid (inodes w ! jp) \<and> itype (inodes w ! jp) = itype ?i
          \<and> major (inodes w ! jp) = major ?i \<and> minor (inodes w ! jp) = minor ?i
          \<and> nlink (inodes w ! jp) = nlink ?i \<and> isize (inodes w ! jp) = isize ?i \<and> addrs (inodes w ! jp) = addrs ?i"
    if u: "fs_tx me u bl2 V1 D2" "fsb u = fsb s" "jp < length (inodes u)" "\<not> valid (inodes u ! jp)"
      "hit ROOTDEV ?n (inodes u ! jp)" "sl_free (ilk (inodes u ! jp))" for u jp bl2 D2
  proof -
    have h: "idev (inodes u ! jp) = ROOTDEV" "inum (inodes u ! jp) = ?n" "0 < iref (inodes u ! jp)"
      using u(5) by (simp_all add: hit_def)
    have B: "IBLOCK (inum (inodes u ! jp)) (fsb u) = ?B" "?B < FSSIZE" using h(2) u(2) assms(3) by (simp_all add: home_def)
    have "V1 ?B = put_dinode ?i (dinode_off ?n) (V ?B)" by (simp add: V1_def)
    then have g: "get_dinode (V1 ?B) (dinode_off (inum (inodes u ! jp))) (inodes u ! jp)
      = (inodes u ! jp)\<lparr>itype := itype ?i, major := major ?i, minor := minor ?i, nlink := nlink ?i, isize := isize ?i, addrs := addrs ?i\<rparr>"
      by (simp only: h get_put_dinode [OF assms(5)])
    show ?thesis
      using ilock_spec [OF u(1) h(1) B h(3) u(6,4,3)] u(3) assms(6) unfolding g by auto
  qed
  show ?thesis
    using t other lk by (intro exI [of _ t] exI [of _ "absorb ?B bl"] exI [of _ V1]) blast
qed

subsection \<open>File contents\<close>

definition blk_at :: "(u32 \<Rightarrow> bytes) \<Rightarrow> inode \<Rightarrow> nat \<Rightarrow> u32" where
  "blk_at V i k = (if k < NDIRECT then addrs i ! k else rd32 (V (addrs i ! NDIRECT)) (4 * (k - NDIRECT)))"

definition content :: "(u32 \<Rightarrow> bytes) \<Rightarrow> inode \<Rightarrow> nat \<Rightarrow> u8" where
  "content V i p = V (blk_at V i (p div BSIZE)) (p mod BSIZE)"

text \<open>Every block below the size of the file is allocated.\<close>

definition file_ok :: "(u32 \<Rightarrow> bytes) \<Rightarrow> inode \<Rightarrow> bool" where
  "file_ok V i \<longleftrightarrow> idev i = ROOTDEV \<and> length (addrs i) = NDIRECT + 1 \<and> unat (isize i) \<le> MAXFILE * BSIZE
     \<and> (\<forall>k. k * BSIZE < unat (isize i) \<longrightarrow> blk_at V i k \<noteq> 0 \<and> blk_at V i k < FSSIZE)
     \<and> (NDIRECT * BSIZE < unat (isize i) \<longrightarrow> addrs i ! NDIRECT \<noteq> 0 \<and> addrs i ! NDIRECT < FSSIZE)"

lemma bmap_spec:
  assumes "fs_tx me s bl V D" "file_ok V (inodes s ! ip)" "unat bn * BSIZE < unat (isize (inodes s ! ip))"
  shows "\<exists>t. bmap me ip bn s = Ok (blk_at V (inodes s ! ip) (unat bn), t) \<and> same_above s t \<and> fs_tx me t bl V D"
proof (cases "unat bn < NDIRECT")
  case True
  then have "blk_at V (inodes s ! ip) (unat bn) = addrs (inodes s ! ip) ! unat bn" by (simp add: blk_at_def)
  moreover have "blk_at V (inodes s ! ip) (unat bn) \<noteq> 0" using assms(2,3) by (simp add: file_ok_def)
  ultimately show ?thesis using True assms(1) by (simp add: bmap_def Let_def)
next
  case False
  let ?i = "inodes s ! ip" and ?k = "unat bn - NDIRECT"
  have bn: "unat bn < MAXFILE"
    using assms(2,3) by (simp add: file_ok_def) (metis le_less_trans less_le_trans mult_less_cancel2 not_less)
  have nd: "unat (word_of_nat NDIRECT :: u32) = NDIRECT" by (simp add: NDIRECT_def)
  have k: "unat (bn - word_of_nat NDIRECT) = ?k"
    using False nd by (subst unat_sub) (simp_all add: word_le_nat_alt del: unat_eq_iff)
  have kN: "?k < NINDIRECT" using bn False by (simp add: MAXFILE_def)
  have "NDIRECT * BSIZE \<le> unat bn * BSIZE" using False by simp
  then have "NDIRECT * BSIZE < unat (isize ?i)" using assms(3) by (rule le_less_trans)
  then have ia: "addrs ?i ! NDIRECT \<noteq> 0" "addrs ?i ! NDIRECT < FSSIZE" "idev ?i = ROOTDEV"
    using assms(2,3) by (auto simp: file_ok_def)
  have a: "blk_at V ?i (unat bn) = rd32 (V (addrs ?i ! NDIRECT)) (4 * ?k)" using False by (simp add: blk_at_def)
  have a0: "blk_at V ?i (unat bn) \<noteq> 0" using assms(2,3) by (simp add: file_ok_def)
  from fs_read [OF assms(1) ia(2)] obtain p s1 s2 where
    t: "fs_bread me ROOTDEV (addrs ?i ! NDIRECT) s = Ok (p, s1)" "fs_data p s1 = V (addrs ?i ! NDIRECT)"
      "fs_brelse me p s1 = Ok s2" "same_above s s2" "fs_tx me s2 bl V D" by blast
  show ?thesis
    using False k kN ia a a0 t by (simp add: bmap_def Let_def)
qed

lemma unat_chunk:
  fixes off tot n :: u32
  assumes "tot \<le> n"
  shows "unat (min (n - tot) (word_of_nat BSIZE - off mod word_of_nat BSIZE)) = min (unat n - unat tot) (BSIZE - unat off mod BSIZE)"
    "unat (off div word_of_nat BSIZE) = unat off div BSIZE" "unat (off mod word_of_nat BSIZE) = unat off mod BSIZE"
proof -
  have B: "unat (word_of_nat BSIZE :: u32) = BSIZE" by (simp add: BSIZE_def)
  show d: "unat (off div word_of_nat BSIZE) = unat off div BSIZE" "unat (off mod word_of_nat BSIZE) = unat off mod BSIZE"
    using B by (simp_all only: unat_div unat_mod)
  have "unat (off mod word_of_nat BSIZE) \<le> BSIZE" unfolding d by (simp add: BSIZE_def)
  then have "unat (word_of_nat BSIZE - off mod word_of_nat BSIZE) = BSIZE - unat off mod BSIZE"
    using B d by (subst unat_sub) (simp_all only: word_le_nat_alt)
  moreover have "unat (n - tot) = unat n - unat tot" using assms by (rule unat_sub)
  ultimately show "unat (min (n - tot) (word_of_nat BSIZE - off mod word_of_nat BSIZE)) = min (unat n - unat tot) (BSIZE - unat off mod BSIZE)"
    by (auto simp: min_def word_le_nat_alt)
qed


lemma div_mod_chunk:
  assumes "j < BSIZE - a mod BSIZE"
  shows "(a + j) div BSIZE = a div BSIZE" "(a + j) mod BSIZE = a mod BSIZE + j"
proof -
  have lt: "a mod BSIZE + j < BSIZE" using assms by simp
  have e: "a + j = a div BSIZE * BSIZE + (a mod BSIZE + j)" by simp
  show "(a + j) div BSIZE = a div BSIZE" by (subst e, subst div_mult_self3) (use lt in \<open>simp_all add: BSIZE_def\<close>)
  show "(a + j) mod BSIZE = a mod BSIZE + j" by (subst e, subst mod_mult_self3) (use lt in simp)
qed

lemma content_chunk:
  assumes "m \<le> BSIZE - a mod BSIZE"
  shows "bytes_at (V (blk_at V i (a div BSIZE))) (a mod BSIZE) m = map (content V i) [a..<a + m]"
proof (rule nth_equalityI)
  fix j assume "j < length (bytes_at (V (blk_at V i (a div BSIZE))) (a mod BSIZE) m)"
  then have j: "j < m" by (simp add: bytes_at_def)
  then have "j < BSIZE - a mod BSIZE" using assms by simp
  from div_mod_chunk [OF this] show "bytes_at (V (blk_at V i (a div BSIZE))) (a mod BSIZE) m ! j = map (content V i) [a..<a + m] ! j"
    using j by (simp add: bytes_at_def content_def)
qed (simp add: bytes_at_def)

lemma chunk_pos: "a mod BSIZE < BSIZE" "0 < BSIZE - a mod BSIZE"
  by (simp_all add: BSIZE_def)

lemma readi_from_spec:
  assumes "fs_tx me s bl V D" "file_ok V (inodes s ! ip)" "unat n - unat tot \<le> k" "tot \<le> n"
    "unat off + (unat n - unat tot) \<le> unat (isize (inodes s ! ip))"
  shows "\<exists>t. readi_from k me ip tot off n dst s
      = Ok (dst @ map (content V (inodes s ! ip)) [unat off..<unat off + (unat n - unat tot)], t)
    \<and> same_above s t \<and> fs_tx me t bl V D"
  using assms
proof (induction k arbitrary: tot off dst s)
  case 0
  then have "unat n - unat tot = 0" by simp
  then show ?case using 0(1) by simp
next
  case (Suc k)
  let ?i = "inodes s ! ip"
  show ?case
  proof (cases "tot < n")
    case False
    then have "unat n - unat tot = 0" by (simp add: word_less_nat_alt)
    then show ?thesis using False Suc.prems(1) by simp
  next
    case True
    define m where "m = min (n - tot) (word_of_nat BSIZE - off mod word_of_nat BSIZE)"
    note c = unat_chunk [OF Suc.prems(4), of off]
    have lt: "unat tot < unat n" using True by (simp add: word_less_nat_alt)
    have m: "unat m = min (unat n - unat tot) (BSIZE - unat off mod BSIZE)" using c(1) by (simp add: m_def)
    then have m0: "0 < unat m" "unat m \<le> unat n - unat tot" "unat m \<le> BSIZE - unat off mod BSIZE"
      using lt chunk_pos [of "unat off"] by simp_all
    have isz: "unat (isize ?i) < 4294967296" "unat n < 4294967296" by simp_all
    have "unat tot + unat m \<le> unat n" "unat off + unat m \<le> unat (isize ?i)" using m0(2) lt Suc.prems(5) by linarith+
    then have "unat tot + unat m < 4294967296" "unat off + unat m < 4294967296" using isz by linarith+
    then have tm: "unat (tot + m) = unat tot + unat m" "unat (off + m) = unat off + unat m"
      by (simp_all add: unat_add_lt)
    have "unat (off div word_of_nat BSIZE) * BSIZE \<le> unat off" unfolding c(2) by simp
    then have "unat (off div word_of_nat BSIZE) * BSIZE < unat (isize ?i)" using lt Suc.prems(5) by linarith
    from bmap_spec [OF Suc.prems(1,2) this] obtain s1 where
      b: "bmap me ip (off div word_of_nat BSIZE) s = Ok (blk_at V ?i (unat off div BSIZE), s1)" "same_above s s1" "fs_tx me s1 bl V D"
      unfolding c(2) by blast
    have "unat off div BSIZE * BSIZE < unat (isize ?i)"
      using \<open>unat (off div word_of_nat BSIZE) * BSIZE < unat (isize ?i)\<close> unfolding c(2) .
    then have "blk_at V ?i (unat off div BSIZE) < FSSIZE" and dv: "idev (inodes s1 ! ip) = ROOTDEV"
      using Suc.prems(2) same_aboveD(1) [OF b(2)] by (simp_all add: file_ok_def)
    from fs_read [OF b(3) this(1)] obtain p s2 s3 where
      r: "fs_bread me ROOTDEV (blk_at V ?i (unat off div BSIZE)) s1 = Ok (p, s2)" "fs_data p s2 = V (blk_at V ?i (unat off div BSIZE))"
      "fs_brelse me p s2 = Ok s3" "same_above s1 s3" "fs_tx me s3 bl V D" by blast
    have ab: "same_above s s3" using b(2) r(4) by (rule same_above_trans)
    let ?chunk = "map (content V ?i) [unat off..<unat off + unat m]"
    let ?rest = "unat n - unat (tot + m)"
    have "\<exists>t. readi_from k me ip (tot + m) (off + m) n (dst @ ?chunk) s3
      = Ok ((dst @ ?chunk) @ map (content V (inodes s3 ! ip)) [unat (off + m)..<unat (off + m) + ?rest], t)
      \<and> same_above s3 t \<and> fs_tx me t bl V D"
    proof (rule Suc.IH)
      show "fs_tx me s3 bl V D" by (rule r(5))
      show "file_ok V (inodes s3 ! ip)" using Suc.prems(2) same_aboveD(1) [OF ab] by simp
      show "unat n - unat (tot + m) \<le> k" using Suc.prems(3) tm m0 lt by simp
      show "tot + m \<le> n" using tm m0 lt by (simp add: word_le_nat_alt)
      show "unat (off + m) + (unat n - unat (tot + m)) \<le> unat (isize (inodes s3 ! ip))"
        using Suc.prems(5) tm m0 same_aboveD(1) [OF ab] by simp
    qed
    then obtain t where t: "readi_from k me ip (tot + m) (off + m) n (dst @ ?chunk) s3
      = Ok ((dst @ ?chunk) @ map (content V ?i) [unat (off + m)..<unat (off + m) + ?rest], t)"
      "same_above s3 t" "fs_tx me t bl V D" unfolding same_aboveD(1) [OF ab] by blast
    have split: "[unat off..<unat off + (unat n - unat tot)] = [unat off..<unat off + unat m] @ [unat (off + m)..<unat (off + m) + ?rest]"
      using upt_add_eq_append [of "unat off" "unat off + unat m" ?rest] tm m0 by simp
    have "readi_from (Suc k) me ip tot off n dst s = readi_from k me ip (tot + m) (off + m) n (dst @ ?chunk) s3"
      using True b(1) dv r(1-3) content_chunk [OF m0(3), of V ?i] c(3) by (simp add: m_def Let_def)
    then have "readi_from (Suc k) me ip tot off n dst s
      = Ok (dst @ map (content V ?i) [unat off..<unat off + (unat n - unat tot)], t)"
      unfolding split using t(1) by simp
    then show ?thesis using t(2,3) same_above_trans [OF ab t(2)] by blast
  qed
qed

end
