(* ===== verification/Inode_Data.thy ===== *)
theory Inode_Data
  imports Inode_Spec
begin

text \<open>
  Writing to a file and reading it back, over the abstraction of a file to its bytes, and a
  concrete file system on which the properties of the inode layer are exercised.
\<close>

text \<open>What writing needs: the file's blocks are outside the log and no block has two uses.\<close>

definition file_sep :: "'d fs \<Rightarrow> (u32 \<Rightarrow> bytes) \<Rightarrow> inode \<Rightarrow> bool" where
  "file_sep s V i \<longleftrightarrow> (\<forall>k. k * BSIZE < unat (isize i) \<longrightarrow> home s (blk_at V i k)
       \<and> (NDIRECT * BSIZE < unat (isize i) \<longrightarrow> blk_at V i k \<noteq> addrs i ! NDIRECT))
     \<and> (\<forall>k l. k * BSIZE < unat (isize i) \<longrightarrow> l * BSIZE < unat (isize i) \<longrightarrow> blk_at V i k = blk_at V i l \<longrightarrow> k = l)"

lemma blk_at_put:
  assumes "file_sep s V i" "k * BSIZE < unat (isize i)" "l * BSIZE < unat (isize i)"
  shows "blk_at (V(blk_at V i k := d)) i l = blk_at V i l"
proof (cases "l < NDIRECT")
  case False
  then have "NDIRECT * BSIZE \<le> l * BSIZE" by simp
  then have "NDIRECT * BSIZE < unat (isize i)" using assms(3) by (rule le_less_trans)
  then have "blk_at V i k \<noteq> addrs i ! NDIRECT" using assms(1,2) by (simp add: file_sep_def)
  then have "(V(blk_at V i k := d)) (addrs i ! NDIRECT) = V (addrs i ! NDIRECT)" by simp
  then show ?thesis using False by (simp only: blk_at_def if_False)
qed (simp add: blk_at_def)

lemma file_put:
  fixes d :: bytes
  assumes "file_sep s V i" "file_ok V i" "k * BSIZE < unat (isize i)"
  defines "V' \<equiv> V(blk_at V i k := d)"
  shows "file_sep s V' i" "file_ok V' i"
    "p < unat (isize i) \<Longrightarrow> content V' i p = (if p div BSIZE = k then d (p mod BSIZE) else content V i p)"
proof -
  note b = blk_at_put [OF assms(1,3), of _ d, folded V'_def]
  have "\<And>k. k * BSIZE < unat (isize i) \<Longrightarrow> home s (blk_at V i k) \<and> (NDIRECT * BSIZE < unat (isize i) \<longrightarrow> blk_at V i k \<noteq> addrs i ! NDIRECT)"
    "\<And>k l. k * BSIZE < unat (isize i) \<Longrightarrow> l * BSIZE < unat (isize i) \<Longrightarrow> blk_at V i k = blk_at V i l \<Longrightarrow> k = l"
    using assms(1) unfolding file_sep_def by blast+
  then show "file_sep s V' i" unfolding file_sep_def by (simp add: b)
  show "file_ok V' i" using assms(2) unfolding file_ok_def by (simp add: b)
  assume p: "p < unat (isize i)"
  have "p div BSIZE * BSIZE \<le> p" by simp
  then have "p div BSIZE * BSIZE < unat (isize i)" using p by (rule le_less_trans)
  moreover from this have "blk_at V i (p div BSIZE) = blk_at V i k \<longleftrightarrow> p div BSIZE = k"
    using assms(1,3) unfolding file_sep_def by blast
  ultimately show "content V' i p = (if p div BSIZE = k then d (p mod BSIZE) else content V i p)"
    by (simp add: content_def b) (simp add: V'_def)
qed

lemma content_put_chunk:
  assumes "file_sep s V i" "file_ok V i" "a < unat (isize i)" "length xs \<le> BSIZE - a mod BSIZE"
    "p < unat (isize i)"
  shows "content (V(blk_at V i (a div BSIZE) := put_bytes (V (blk_at V i (a div BSIZE))) (a mod BSIZE) xs)) i p
    = (if a \<le> p \<and> p < a + length xs then xs ! (p - a) else content V i p)"
proof -
  have "a div BSIZE * BSIZE \<le> a" by simp
  then have "a div BSIZE * BSIZE < unat (isize i)" using assms(3) by (rule le_less_trans)
  note f = file_put(3) [OF assms(1,2) this assms(5)]
  have in_chunk: "p div BSIZE = a div BSIZE \<and> p mod BSIZE = a mod BSIZE + (p - a)" if "a \<le> p" "p < a + length xs"
  proof -
    have "p - a < BSIZE - a mod BSIZE" using that assms(4) by linarith
    from div_mod_chunk [OF this] that(1) show ?thesis by simp
  qed
  have pp: "p = a div BSIZE * BSIZE + p mod BSIZE" if "p div BSIZE = a div BSIZE"
    using that div_mult_mod_eq [of p BSIZE] by simp
  have aa: "a = a div BSIZE * BSIZE + a mod BSIZE" by simp
  show ?thesis
  proof (cases "p div BSIZE = a div BSIZE")
    case True
    have e: "a mod BSIZE \<le> p mod BSIZE \<and> p mod BSIZE < a mod BSIZE + length xs \<longleftrightarrow> a \<le> p \<and> p < a + length xs"
      "p mod BSIZE - a mod BSIZE = p - a"
      using pp [OF True] aa by linarith+
    have "V (blk_at V i (a div BSIZE)) (p mod BSIZE) = content V i p" using True by (simp add: content_def)
    then show ?thesis using True e by (simp add: f put_bytes_def)
  next
    case False
    then show ?thesis using in_chunk by (auto simp: f)
  qed
qed

definition chunks :: "nat \<Rightarrow> nat \<Rightarrow> nat" where
  "chunks a n = (if n = 0 then 0 else (a mod BSIZE + n + (BSIZE - 1)) div BSIZE)"

lemma chunks_step:
  fixes a n :: nat
  assumes "0 < n"
  defines "m \<equiv> min n (BSIZE - a mod BSIZE)"
  shows "chunks a n = Suc (chunks (a + m) (n - m))"
proof (cases "n \<le> BSIZE - a mod BSIZE")
  case True
  have "a mod BSIZE < BSIZE" by (rule chunk_pos)
  then have "(a mod BSIZE + n + (BSIZE - 1)) div BSIZE = 1"
    using True assms(1) by (intro div_nat_eqI) (auto simp: BSIZE_def)
  then show ?thesis using True assms(1) by (simp add: chunks_def m_def)
next
  case False
  have am: "a mod BSIZE < BSIZE" by (rule chunk_pos)
  have m: "m = BSIZE - a mod BSIZE" using False by (simp add: m_def)
  have "a + m = a div BSIZE * BSIZE + BSIZE" using am div_mult_mod_eq [of a BSIZE] unfolding m by linarith
  then have "(a + m) mod BSIZE = 0" by simp
  moreover have "a mod BSIZE + n + (BSIZE - 1) = (n - m + (BSIZE - 1)) + BSIZE" using am False unfolding m by linarith
  moreover have "0 < n - m" using False m by simp
  ultimately show ?thesis using assms(1) by (simp add: chunks_def BSIZE_def)
qed


lemma length_absorb: "length (absorb n bl) \<le> Suc (length bl)"
  by (simp add: absorb_def)

lemma writei_from_spec:
  assumes "fs_tx me s bl V D" "file_ok V (inodes s ! ip)" "file_sep s V (inodes s ! ip)"
    "unat n - unat tot \<le> k" "tot \<le> n" "unat off + (unat n - unat tot) \<le> unat (isize (inodes s ! ip))"
    "length src = unat n - unat tot" "room s bl (chunks (unat off) (unat n - unat tot))"
  shows "\<exists>t bl' V'. writei_from k me ip tot off n src s = Ok (off + (n - tot), t) \<and> same_above s t
    \<and> fs_tx me t bl' V' D \<and> file_ok V' (inodes s ! ip) \<and> file_sep s V' (inodes s ! ip)
    \<and> (\<forall>p < unat (isize (inodes s ! ip)). content V' (inodes s ! ip) p =
        (if unat off \<le> p \<and> p < unat off + (unat n - unat tot) then src ! (p - unat off) else content V (inodes s ! ip) p))
    \<and> (\<forall>m. (\<forall>k. k * BSIZE < unat (isize (inodes s ! ip)) \<longrightarrow> m \<noteq> blk_at V (inodes s ! ip) k) \<longrightarrow> V' m = V m)"
  using assms
proof (induction k arbitrary: tot off src s bl V)
  case 0
  then have "unat n - unat tot = 0" "n = tot" by (auto simp: word_le_nat_alt intro: antisym)
  then show ?case using 0(1-3) by (intro exI [of _ s] exI [of _ bl] exI [of _ V]) auto
next
  case (Suc k)
  let ?i = "inodes s ! ip"
  show ?case
  proof (cases "tot < n")
    case False
    then have "n = tot" using Suc.prems(5) by simp
    then have "unat n - unat tot = 0" by simp
    then show ?thesis using Suc.prems(1-3) \<open>n = tot\<close> by (intro exI [of _ s] exI [of _ bl] exI [of _ V]) auto
  next
    case True
    define m where "m = min (n - tot) (word_of_nat BSIZE - off mod word_of_nat BSIZE)"
    note c = unat_chunk [OF Suc.prems(5), of off]
    have lt: "unat tot < unat n" using True by (simp add: word_less_nat_alt)
    have m: "unat m = min (unat n - unat tot) (BSIZE - unat off mod BSIZE)" using c(1) by (simp add: m_def)
    then have m0: "0 < unat m" "unat m \<le> unat n - unat tot" "unat m \<le> BSIZE - unat off mod BSIZE"
      using lt chunk_pos [of "unat off"] by simp_all
    have isz: "unat (isize ?i) < 4294967296" "unat n < 4294967296" by simp_all
    have "unat tot + unat m \<le> unat n" "unat off + unat m \<le> unat (isize ?i)" using m0(2) lt Suc.prems(6) by linarith+
    then have "unat tot + unat m < 4294967296" "unat off + unat m < 4294967296" using isz by linarith+
    then have tm: "unat (tot + m) = unat tot + unat m" "unat (off + m) = unat off + unat m"
      by (simp_all add: unat_add_lt)
    let ?k = "unat off div BSIZE" let ?b = "blk_at V ?i ?k"
    have "?k * BSIZE \<le> unat off" by simp
    then have kl: "?k * BSIZE < unat (isize ?i)" using lt Suc.prems(6) by linarith
    then have "unat (off div word_of_nat BSIZE) * BSIZE < unat (isize ?i)" unfolding c(2) .
    from bmap_spec [OF Suc.prems(1,2) this] obtain s1 where
      b: "bmap me ip (off div word_of_nat BSIZE) s = Ok (?b, s1)" "same_above s s1" "fs_tx me s1 bl V D"
      unfolding c(2) by blast
    have dv: "idev (inodes s1 ! ip) = ROOTDEV"
      using Suc.prems(2) same_aboveD(1) [OF b(2)] by (simp add: file_ok_def)
    have hb: "home s1 ?b" using Suc.prems(3) kl same_aboveD(5) [OF b(2)] by (simp add: file_sep_def)
    let ?rest = "unat n - unat (tot + m)"
    have rest: "?rest = (unat n - unat tot) - unat m" using tm by simp
    have chk: "chunks (unat off) (unat n - unat tot) = Suc (chunks (unat (off + m)) ?rest)"
      unfolding rest tm(2) m using lt by (intro chunks_step) simp
    have r1: "room s1 bl 1" unfolding same_aboveD(6) [OF b(2)] by (rule room_less [OF Suc.prems(8)]) (simp add: chk)
    let ?xs = "take (unat m) src" let ?d = "put_bytes (V ?b) (unat off mod BSIZE) ?xs"
    have lx: "length ?xs = unat m" using Suc.prems(7) m0(2) by simp
    from fs_modify [OF b(3) hb r1, of ?d] obtain p s2 s3 s4 where
      r: "fs_bread me ROOTDEV ?b s1 = Ok (p, s2)" "fs_data p s2 = V ?b" "fs_log_write p (fs_put p ?d s2) = Ok s3"
        "fs_brelse me p s3 = Ok s4" "same_above s1 s4" "fs_tx me s4 (absorb ?b bl) (V(?b := ?d)) D" by blast
    have ab: "same_above s s4" using b(2) r(5) by (rule same_above_trans)
    define V1 where "V1 = V(?b := ?d)"
    have f1: "file_sep s V1 ?i" "file_ok V1 ?i" unfolding V1_def by (rule file_put [OF Suc.prems(3,2) kl])+
    have alt: "unat off < unat (isize ?i)" using lt Suc.prems(6) by linarith
    have c1: "content V1 ?i q = (if unat off \<le> q \<and> q < unat off + unat m then src ! (q - unat off) else content V ?i q)"
      if "q < unat (isize ?i)" for q
      unfolding V1_def
      by (subst content_put_chunk [OF Suc.prems(3,2) alt _ that]) (use lx m0(3) in auto)
    have IH: "\<exists>t bl' V'. writei_from k me ip (tot + m) (off + m) n (drop (unat m) src) s4 = Ok ((off + m) + (n - (tot + m)), t)
      \<and> same_above s4 t \<and> fs_tx me t bl' V' D \<and> file_ok V' (inodes s4 ! ip) \<and> file_sep s4 V' (inodes s4 ! ip)
      \<and> (\<forall>p < unat (isize (inodes s4 ! ip)). content V' (inodes s4 ! ip) p =
        (if unat (off + m) \<le> p \<and> p < unat (off + m) + ?rest then drop (unat m) src ! (p - unat (off + m)) else content V1 (inodes s4 ! ip) p))
      \<and> (\<forall>q. (\<forall>k. k * BSIZE < unat (isize (inodes s4 ! ip)) \<longrightarrow> q \<noteq> blk_at V1 (inodes s4 ! ip) k) \<longrightarrow> V' q = V1 q)"
    proof (rule Suc.IH)
      show "fs_tx me s4 (absorb ?b bl) V1 D" unfolding V1_def by (rule r(6))
      show "file_ok V1 (inodes s4 ! ip)" using f1(2) same_aboveD(1) [OF ab] by simp
      show "file_sep s4 V1 (inodes s4 ! ip)" using f1(1) same_aboveD(1,5) [OF ab] by (simp add: file_sep_def)
      show "unat n - unat (tot + m) \<le> k" using Suc.prems(4) tm m0 lt by simp
      show "tot + m \<le> n" using tm m0 lt by (simp add: word_le_nat_alt)
      show "unat (off + m) + (unat n - unat (tot + m)) \<le> unat (isize (inodes s4 ! ip))"
        using Suc.prems(6) tm m0 same_aboveD(1) [OF ab] by simp
      show "length (drop (unat m) src) = unat n - unat (tot + m)" using Suc.prems(7) tm by simp
      show "room s4 (absorb ?b bl) (chunks (unat (off + m)) (unat n - unat (tot + m)))"
        unfolding same_aboveD(6) [OF ab] by (rule room_absorb) (use Suc.prems(8) chk in simp)
    qed
    then obtain t bl' V' where t: "writei_from k me ip (tot + m) (off + m) n (drop (unat m) src) s4 = Ok ((off + m) + (n - (tot + m)), t)"
      "same_above s4 t" "fs_tx me t bl' V' D" "file_ok V' ?i" "file_sep s V' ?i"
      "\<And>p. p < unat (isize ?i) \<Longrightarrow> content V' ?i p =
        (if unat (off + m) \<le> p \<and> p < unat (off + m) + ?rest then drop (unat m) src ! (p - unat (off + m)) else content V1 ?i p)"
      "\<And>q. (\<forall>k. k * BSIZE < unat (isize ?i) \<longrightarrow> q \<noteq> blk_at V1 ?i k) \<Longrightarrow> V' q = V1 q"
      unfolding same_aboveD(1) [OF ab] file_sep_def same_aboveD(5) [OF ab] by blast
    have "writei_from (Suc k) me ip tot off n src s = writei_from k me ip (tot + m) (off + m) n (drop (unat m) src) s4"
      using True b(1) dv r(1-4) c(3) by (simp add: m_def Let_def)
    moreover have "(off + m) + (n - (tot + m)) = off + (n - tot)" by (simp add: algebra_simps)
    ultimately have w: "writei_from (Suc k) me ip tot off n src s = Ok (off + (n - tot), t)" using t(1) by simp
    have cont: "content V' ?i p = (if unat off \<le> p \<and> p < unat off + (unat n - unat tot) then src ! (p - unat off) else content V ?i p)"
      if p: "p < unat (isize ?i)" for p
      unfolding t(6) [OF p] c1 [OF p] using tm m0 Suc.prems(7) by (auto simp: nth_drop)
    have oth: "V' q = V q" if q: "\<forall>k. k * BSIZE < unat (isize ?i) \<longrightarrow> q \<noteq> blk_at V ?i k" for q
    proof -
      have "\<forall>k. k * BSIZE < unat (isize ?i) \<longrightarrow> q \<noteq> blk_at V1 ?i k"
        using q blk_at_put [OF Suc.prems(3) kl, of _ ?d] unfolding V1_def by simp
      then have "V' q = V1 q" by (rule t(7))
      also have "\<dots> = V q" using q kl by (simp add: V1_def)
      finally show ?thesis .
    qed
    show ?thesis
      using w same_above_trans [OF ab t(2)] t(3-5) cont oth by blast
  qed
qed

text \<open>Reads and writes below the size of a file stay clear of every overflow check.\<close>

lemma file_range:
  assumes "file_ok V i" "unat a + unat b \<le> unat (isize i)"
  shows "\<not> isize i < a" "\<not> a + b < a" "\<not> word_of_nat (MAXFILE * BSIZE) < a + b" "\<not> isize i < a + b"
    "unat (a + b) = unat a + unat b" "sint b = int (unat b)"
proof -
  have mx: "unat (isize i) \<le> 71680" using assms(1) by (simp add: file_ok_def MAXFILE_def NDIRECT_def NINDIRECT_def BSIZE_def)
  show u: "unat (a + b) = unat a + unat b" using assms(2) mx by (intro unat_add_lt) simp
  show "sint b = int (unat b)" using assms(2) mx by (intro sint_eq_unat) simp
  have "unat (word_of_nat (MAXFILE * BSIZE) :: u32) = 71680"
    by (simp add: MAXFILE_def NDIRECT_def NINDIRECT_def BSIZE_def)
  then show "\<not> isize i < a" "\<not> a + b < a" "\<not> word_of_nat (MAXFILE * BSIZE) < a + b" "\<not> isize i < a + b"
    using assms(2) mx u by (simp_all add: word_less_nat_alt del: of_nat_mult)
qed

lemma writei_spec:
  assumes "fs_tx me s bl V D" "file_ok V (inodes s ! ip)" "file_sep s V (inodes s ! ip)" "itype (inodes s ! ip) \<noteq> T_DEV"
    "length src = unat n" "unat off + unat n \<le> unat (isize (inodes s ! ip))" "room s bl (chunks (unat off) (unat n))"
  shows "\<exists>t bl' V'. writei dv me ip src off n s = Ok (int (unat n), t) \<and> fs_tx me t bl' V' D \<and> same_above s t
    \<and> file_ok V' (inodes s ! ip) \<and> file_sep s V' (inodes s ! ip)
    \<and> (\<forall>p < unat (isize (inodes s ! ip)). content V' (inodes s ! ip) p =
        (if unat off \<le> p \<and> p < unat off + unat n then src ! (p - unat off) else content V (inodes s ! ip) p))
    \<and> (\<forall>m. (\<forall>k. k * BSIZE < unat (isize (inodes s ! ip)) \<longrightarrow> m \<noteq> blk_at V (inodes s ! ip) k) \<longrightarrow> V' m = V m)"
proof -
  let ?i = "inodes s ! ip"
  note sw = file_range [OF assms(2,6)]
  have a: "unat n - unat (0 :: u32) \<le> unat n" "(0 :: u32) \<le> n" "unat off + (unat n - unat (0 :: u32)) \<le> unat (isize ?i)"
    "length src = unat n - unat (0 :: u32)" "room s bl (chunks (unat off) (unat n - unat (0 :: u32)))"
    using assms(5-7) by simp_all
  from writei_from_spec [OF assms(1-3) a] obtain t bl' V' where
    t: "writei_from (unat n) me ip 0 off n src s = Ok (off + n, t)" "same_above s t" "fs_tx me t bl' V' D"
    "file_ok V' ?i" "file_sep s V' ?i"
    "\<forall>p < unat (isize ?i). content V' ?i p = (if unat off \<le> p \<and> p < unat off + unat n then src ! (p - unat off) else content V ?i p)"
    "\<forall>m. (\<forall>k. k * BSIZE < unat (isize ?i) \<longrightarrow> m \<noteq> blk_at V ?i k) \<longrightarrow> V' m = V m"
    by auto
  have "writei dv me ip src off n s = Ok (int (unat n), t)"
    using assms(4) sw t(1) same_aboveD(1) [OF t(2)] by (simp add: writei_def Let_def del: of_nat_mult)
  then show ?thesis using t(2-) by blast
qed

lemma readi_spec:
  assumes "fs_tx me s bl V D" "file_ok V (inodes s ! ip)" "itype (inodes s ! ip) \<noteq> T_DEV"
    "unat off + unat n \<le> unat (isize (inodes s ! ip))"
  shows "\<exists>u. readi dv me ip off n s = Ok (int (unat n), map (content V (inodes s ! ip)) [unat off..<unat off + unat n], u)
    \<and> fs_tx me u bl V D \<and> same_above s u"
proof -
  note sr = file_range [OF assms(2,4)]
  have a: "unat n - unat (0 :: u32) \<le> unat n" "(0 :: u32) \<le> n"
    "unat off + (unat n - unat (0 :: u32)) \<le> unat (isize (inodes s ! ip))" using assms(4) by simp_all
  from readi_from_spec [OF assms(1,2) a, of "[]"] obtain u where
    u: "readi_from (unat n) me ip 0 off n [] s = Ok (map (content V (inodes s ! ip)) [unat off..<unat off + unat n], u)"
      "same_above s u" "fs_tx me u bl V D" by auto
  then show ?thesis using assms(3) sr by (auto simp: readi_def Let_def)
qed

text \<open>
  C27. Read after write: inside a transaction with room for the blocks it touches, \<open>writei\<close> of \<open>n\<close>
  bytes below the size of a file succeeds, and every later \<open>readi\<close> below the size returns exactly
  the bytes written where it overlaps them and the old contents elsewhere, across block
  boundaries and the indirect block; blocks of other files do not change.
\<close>

theorem writei_then_readi:
  assumes "fs_tx me s bl V D" "file_ok V (inodes s ! ip)" "file_sep s V (inodes s ! ip)" "itype (inodes s ! ip) \<noteq> T_DEV"
    "length src = unat n" "unat off + unat n \<le> unat (isize (inodes s ! ip))" "room s bl (chunks (unat off) (unat n))"
  shows "\<exists>t bl' V'. writei dv me ip src off n s = Ok (int (unat n), t) \<and> fs_tx me t bl' V' D \<and> same_above s t
    \<and> (\<forall>o2 n2. unat o2 + unat n2 \<le> unat (isize (inodes s ! ip)) \<longrightarrow>
        (\<exists>u. readi dv me ip o2 n2 t = Ok (int (unat n2), map (\<lambda>p. if unat off \<le> p \<and> p < unat off + unat n
            then src ! (p - unat off) else content V (inodes s ! ip) p) [unat o2..<unat o2 + unat n2], u)
          \<and> fs_tx me u bl' V' D \<and> same_above t u))
    \<and> (\<forall>m. (\<forall>k. k * BSIZE < unat (isize (inodes s ! ip)) \<longrightarrow> m \<noteq> blk_at V (inodes s ! ip) k) \<longrightarrow> V' m = V m)"
proof -
  let ?i = "inodes s ! ip"
  from writei_spec [OF assms, of dv] obtain t bl' V' where
    t: "writei dv me ip src off n s = Ok (int (unat n), t)" "fs_tx me t bl' V' D" "same_above s t" "file_ok V' ?i"
    "\<And>p. p < unat (isize ?i) \<Longrightarrow> content V' ?i p = (if unat off \<le> p \<and> p < unat off + unat n then src ! (p - unat off) else content V ?i p)"
    "\<And>m. (\<forall>k. k * BSIZE < unat (isize ?i) \<longrightarrow> m \<noteq> blk_at V ?i k) \<Longrightarrow> V' m = V m" by blast
  have it: "inodes t ! ip = ?i" using same_aboveD(1) [OF t(3)] by simp
  have rd: "\<exists>u. readi dv me ip o2 n2 t = Ok (int (unat n2), map (\<lambda>p. if unat off \<le> p \<and> p < unat off + unat n
            then src ! (p - unat off) else content V ?i p) [unat o2..<unat o2 + unat n2], u)
          \<and> fs_tx me u bl' V' D \<and> same_above t u" if r: "unat o2 + unat n2 \<le> unat (isize ?i)" for o2 n2
  proof -
    have "map (content V' ?i) [unat o2..<unat o2 + unat n2] = map (\<lambda>p. if unat off \<le> p \<and> p < unat off + unat n
        then src ! (p - unat off) else content V ?i p) [unat o2..<unat o2 + unat n2]"
      by (rule map_cong [OF refl]) (use t(5) r in auto)
    with readi_spec [OF t(2), of ip o2 n2 dv] t(4) assms(4) r it show ?thesis by simp
  qed
  show ?thesis using t(1-3,6) rd by blast
qed

subsection \<open>A concrete file system\<close>

text \<open>An operation is running; entry 0 of the inode cache is a file of ten bytes in block 40.\<close>

definition demo_lock :: sleeplock where
  "demo_lock = \<lparr>sl_locked = False, slk = False, sl_name = ''inode'', sl_pid = 0, sl_wakeups = 0\<rparr>"

definition demo_file :: inode where
  "demo_file = \<lparr>idev = ROOTDEV, inum = 5, iref = 1, ilk = demo_lock, valid = True, itype = T_FILE,
     major = 0, minor = 0, nlink = 1, isize = 10, addrs = 40 # replicate NDIRECT 0\<rparr>"

definition demo_free :: inode where
  "demo_free = demo_file\<lparr>iref := 0, valid := False\<rparr>"

definition fs_demo :: "unit fs" where
  "fs_demo = \<lparr>lg = log_demo, ic_lk = False, inodes = demo_file # replicate (NINODE - 1) demo_free,
     fsb = \<lparr>sb_size = FSSIZE, sb_nblocks = 941, sb_ninodes = 200, sb_nlog = 30, sb_logstart = 2,
       sb_inodestart = 32, sb_bmapstart = 58\<rparr>, devs = ()\<rparr>"

definition demo_view :: "u32 \<Rightarrow> bytes" where
  "demo_view = (\<lambda>n. log_disk 1 (unat n))"

lemma demo_tx: "fs_tx me fs_demo [] demo_view demo_view"
  using log_demo_ok by (simp add: fs_tx_def fs_demo_def demo_view_def) (simp add: log_demo_def)

lemma demo_home: "home fs_demo n \<longleftrightarrow> unat n < 1000 \<and> \<not> (2 \<le> unat n \<and> unat n < 32) \<and> n \<noteq> 1"
  by (simp add: home_def fs_demo_def log_demo_def in_log_def word_less_nat_alt FSSIZE_def)

lemma demo_room: "k < NBUF \<Longrightarrow> room fs_demo [] k"
  by (simp add: room_def fs_demo_def log_demo_def NBUF_def MAXOPBLOCKS_def)

lemma demo_view_40: "demo_view 40 = (\<lambda>_. 0)" "demo_view 58 = (\<lambda>_. 0)"
  by (simp_all add: demo_view_def log_disk_def)

lemma demo_inodes: "inodes fs_demo ! 0 = demo_file" "length (inodes fs_demo) = NINODE"
  "0 < j \<Longrightarrow> j < NINODE \<Longrightarrow> inodes fs_demo ! j = demo_free"
  by (simp_all add: fs_demo_def NINODE_def nth_Cons' del: replicate_Suc)

lemma demo_icache: "icache_ok fs_demo"
proof -
  have "a = b" if "a < NINODE" "b < NINODE" "0 < iref (inodes fs_demo ! a)" "0 < iref (inodes fs_demo ! b)" for a b
    using that demo_inodes(3) [of a] demo_inodes(3) [of b] by (cases "a = 0"; cases "b = 0") (auto simp: demo_free_def)
  moreover have "\<forall>i \<in> set (inodes fs_demo). 0 \<le> iref i"
    by (auto simp: fs_demo_def demo_file_def demo_free_def)
  moreover have "\<not> ic_lk fs_demo" by (simp add: fs_demo_def)
  ultimately show ?thesis using demo_inodes(2) unfolding icache_ok_def hit_def by blast
qed

lemma demo_lock_free: "sl_free (ilk demo_file)"
  by (simp add: sl_free_def demo_file_def demo_lock_def)

theorem balloc_then_bfree_witness:
  "\<exists>t u. balloc 3 ROOTDEV fs_demo = Ok (0, t) \<and> bfree 3 ROOTDEV 0 t = Ok u
    \<and> bfree 3 ROOTDEV 0 u = Panic ''freeing free block''"
proof -
  have g: "fs_geom fs_demo" using demo_home [of 58] by (simp add: fs_geom_def) (simp add: fs_demo_def)
  have z: "0 < sb_size (fsb fs_demo)" "(0::u32) \<noteq> sb_bmapstart (fsb fs_demo)" "sb_bmapstart (fsb fs_demo) = 58"
    by (simp_all add: fs_demo_def FSSIZE_def)
  have n: "\<not> used fs_demo demo_view 0" unfolding used_def z(3) by (simp add: demo_view_40 bit_used_def)
  have h: "home fs_demo 0" by (simp add: demo_home)
  have r: "room fs_demo [] 3" by (rule demo_room) (simp add: NBUF_def MAXOPBLOCKS_def)
  from balloc_then_bfree [OF demo_tx g r z(1) n _ h z(2), of 3] show ?thesis by auto
qed

theorem iget_counts_witness:
  "\<exists>t. iget ROOTDEV 5 fs_demo = Ok (0, t) \<and> refs t ROOTDEV 5 = 2"
proof -
  have h: "hit ROOTDEV 5 (inodes fs_demo ! 0)" by (simp add: demo_inodes hit_def demo_file_def)
  have n: "(0::nat) < NINODE" by (simp add: NINODE_def)
  have r: "refs fs_demo ROOTDEV 5 = 1"
    by (simp add: refs_def fs_demo_def NINODE_def ref_of_def hit_def demo_file_def demo_free_def del: replicate_Suc)
      (simp add: sum_list_replicate)
  from iget_counts [OF demo_icache, of ROOTDEV 5] r
  obtain ip t where t: "iget ROOTDEV 5 fs_demo = Ok (ip, t)" "refs t ROOTDEV 5 = 2" by auto
  have "ip = 0" using iget_cached [OF demo_icache n h] t(1) by simp
  with t show ?thesis by blast
qed

theorem idup_iput_counts_witness:
  "\<exists>t u. idup (Some 0) fs_demo = Ok (Some 0, t) \<and> iput 3 0 t = Ok u \<and> icache_ok u"
proof -
  have n: "(0::nat) < NINODE" by (simp add: NINODE_def)
  have l: "sl_free (ilk (inodes fs_demo ! 0))" "0 < iref (inodes fs_demo ! 0)"
    unfolding demo_inodes using demo_lock_free by (simp_all add: demo_file_def)
  from idup_iput_counts [OF demo_icache n l, of 3] show ?thesis by blast
qed

theorem iupdate_then_ilock_witness: "\<exists>t. iupdate 3 0 fs_demo = Ok t"
proof -
  have i: "idev (inodes fs_demo ! 0) = ROOTDEV" "length (addrs (inodes fs_demo ! 0)) = NDIRECT + 1" "itype (inodes fs_demo ! 0) \<noteq> 0"
    by (simp_all add: demo_inodes demo_file_def T_FILE_def)
  have "IBLOCK (inum (inodes fs_demo ! 0)) (fsb fs_demo) = 32"
    unfolding demo_inodes by (simp add: demo_file_def fs_demo_def IBLOCK_def IPB_def BSIZE_def)
  then have h: "home fs_demo (IBLOCK (inum (inodes fs_demo ! 0)) (fsb fs_demo))" by (simp add: demo_home)
  have r: "room fs_demo [] 1" by (rule demo_room) (simp add: NBUF_def MAXOPBLOCKS_def)
  from iupdate_then_ilock [OF demo_tx i(1) h r i(2,3), of 3] show ?thesis by blast
qed

theorem writei_then_readi_witness:
  "\<exists>t u. writei [] 3 0 [7, 8, 9] 4 3 fs_demo = Ok (3, t)
    \<and> readi [] 3 0 3 5 t = Ok (5, [0, 7, 8, 9, 0], u)"
proof -
  have kk: "k * BSIZE < 10 \<longleftrightarrow> k = 0" for k by (auto simp: BSIZE_def)
  have b0: "blk_at demo_view demo_file 0 = 40" by (simp add: blk_at_def demo_file_def NDIRECT_def)
  have sz: "unat (isize demo_file) = 10" by (simp add: demo_file_def)
  have ok: "file_ok demo_view (inodes fs_demo ! 0)"
    unfolding demo_inodes file_ok_def sz kk using b0
    by (simp add: demo_file_def FSSIZE_def MAXFILE_def NDIRECT_def NINDIRECT_def BSIZE_def)
  have sep: "file_sep fs_demo demo_view (inodes fs_demo ! 0)"
    unfolding demo_inodes file_sep_def sz kk using b0 by (simp add: demo_home NDIRECT_def BSIZE_def)
  have ty: "itype (inodes fs_demo ! 0) \<noteq> T_DEV" by (simp add: demo_inodes demo_file_def T_FILE_def T_DEV_def)
  have ct: "content demo_view demo_file p = 0" if "p < 10" for p
    using that b0 by (simp add: content_def BSIZE_def demo_view_40)
  have l: "length [7 :: u8, 8, 9] = unat (3 :: u32)" by simp
  have o4: "unat (4 :: u32) + unat (3 :: u32) \<le> unat (isize (inodes fs_demo ! 0))" by (simp add: demo_inodes demo_file_def)
  have rm: "room fs_demo [] (chunks (unat (4 :: u32)) (unat (3 :: u32)))"
    by (rule demo_room) (simp add: chunks_def BSIZE_def NBUF_def MAXOPBLOCKS_def)
  from writei_then_readi [OF demo_tx ok sep ty l o4 rm, of "[]" 3] obtain t where
    t: "writei [] 3 0 [7, 8, 9] 4 3 fs_demo = Ok (int (unat (3 :: u32)), t)"
    "\<forall>o2 n2. unat o2 + unat n2 \<le> unat (isize (inodes fs_demo ! 0)) \<longrightarrow>
       (\<exists>u. readi [] 3 0 o2 n2 t = Ok (int (unat n2), map (\<lambda>p. if unat (4 :: u32) \<le> p \<and> p < unat (4 :: u32) + unat (3 :: u32)
            then [7, 8, 9] ! (p - unat (4 :: u32)) else content demo_view (inodes fs_demo ! 0) p) [unat o2..<unat o2 + unat n2], u))"
    by blast
  have "unat (3 :: u32) + unat (5 :: u32) \<le> unat (isize (inodes fs_demo ! 0))" by (simp add: demo_inodes demo_file_def)
  from t(2) [rule_format, OF this] t(1) show ?thesis by (simp add: demo_inodes upt_rec ct)
qed

end
