(* ===== verification/Pipe.thy ===== *)
theory Pipe
  imports Param
begin

text \<open>
  Pipes (\<open>pipe.c\<close>): a ring of \<open>PIPESIZE\<close> bytes between two counters that wrap at 32 bits.
  \<open>pwakes\<close> records the calls of \<open>wakeup\<close>, newest first.  A reader or writer that calls
  \<open>sleep\<close> gives up the lock and later continues where it stopped, so \<open>pipewrite_run\<close> and
  \<open>piperead_run\<close> run the code from such a point to the next one: they return either the
  result or the point at which the caller sleeps.  The theory shows that a pipe is a bounded
  first-in first-out queue under every interleaving of one reader and one writer, and that a
  sleeping process always has its wake-up coming.
\<close>

definition PIPESIZE :: nat where "PIPESIZE = 512"

datatype pchan = NReadChan | NWriteChan

record pipe =
  plock :: bool
  pdata :: "u8 list"
  nread :: u32
  nwrite :: u32
  readopen :: bool
  writeopen :: bool
  pwakes :: "pchan list"

subsection \<open>Operations\<close>

definition p_wakeup :: "pchan \<Rightarrow> pipe \<Rightarrow> pipe" where
  "p_wakeup c p = p\<lparr>pwakes := c # pwakes p\<rparr>"

definition p_acquire :: "pipe \<Rightarrow> pipe outcome" where
  "p_acquire p = bnd (lk_acquire (plock p)) (\<lambda>l. Ok (p\<lparr>plock := l\<rparr>))"

definition p_release :: "pipe \<Rightarrow> pipe outcome" where
  "p_release p = bnd (lk_release (plock p)) (\<lambda>l. Ok (p\<lparr>plock := l\<rparr>))"

text \<open>The initialisation in \<open>pipealloc\<close>, and \<open>pipeclose\<close>; the flag says that the page is freed.\<close>

definition pipe_init :: "pipe \<Rightarrow> pipe" where
  "pipe_init p = p\<lparr>readopen := True, writeopen := True, nwrite := 0, nread := 0, plock := False\<rparr>"

definition pipeclose_run :: "bool \<Rightarrow> pipe \<Rightarrow> (bool \<times> pipe) outcome" where
  "pipeclose_run writable p =
     bnd (p_acquire p) (\<lambda>p1.
       let p2 = (if writable then p_wakeup NReadChan (p1\<lparr>writeopen := False\<rparr>)
                 else p_wakeup NWriteChan (p1\<lparr>readopen := False\<rparr>))
       in bnd (p_release p2) (\<lambda>p3. Ok (\<not> readopen p2 \<and> \<not> writeopen p2, p3)))"

text \<open>What a run ends with: a return value, or asleep with the rest still to do.\<close>

datatype 'a run = Done int 'a | Asleep pchan 'a

definition pput :: "u8 \<Rightarrow> pipe \<Rightarrow> pipe" where
  "pput b p = p\<lparr>pdata := (pdata p)[unat (nwrite p) mod PIPESIZE := b], nwrite := nwrite p + 1\<rparr>"

definition pget :: "pipe \<Rightarrow> u8 \<times> pipe" where
  "pget p = (pdata p ! (unat (nread p) mod PIPESIZE), p\<lparr>nread := nread p + 1\<rparr>)"

text \<open>
  \<open>pipewrite\<close> after it has taken the lock: \<open>n\<close> is the byte count and \<open>bs\<close> the bytes not yet
  written.  \<open>piperead\<close> likewise, with \<open>k\<close> bytes still wanted and \<open>acc\<close> those already copied.
\<close>

fun pipewrite_loop :: "bool \<Rightarrow> int \<Rightarrow> u8 list \<Rightarrow> pipe \<Rightarrow> u8 list run \<times> pipe" where
  "pipewrite_loop killed n [] p = (Done n [], p_wakeup NReadChan p)"
| "pipewrite_loop killed n (b # bs) p =
     (if nwrite p = nread p + word_of_nat PIPESIZE
      then if \<not> readopen p \<or> killed then (Done (- 1) (b # bs), p)
           else (Asleep NWriteChan (b # bs), p_wakeup NReadChan p)
      else pipewrite_loop killed n bs (pput b p))"

definition pipewrite_run :: "bool \<Rightarrow> int \<Rightarrow> u8 list \<Rightarrow> pipe \<Rightarrow> (u8 list run \<times> pipe) outcome" where
  "pipewrite_run killed n bs p =
     bnd (p_acquire p) (\<lambda>p1.
       let (r, p2) = pipewrite_loop killed n bs p1
       in bnd (p_release p2) (\<lambda>p3. Ok (r, p3)))"

fun piperead_loop :: "nat \<Rightarrow> u8 list \<Rightarrow> pipe \<Rightarrow> u8 list \<times> pipe" where
  "piperead_loop 0 acc p = (acc, p)"
| "piperead_loop (Suc k) acc p =
     (if nread p = nwrite p then (acc, p)
      else let (b, p1) = pget p in piperead_loop k (acc @ [b]) p1)"

definition piperead_run :: "bool \<Rightarrow> int \<Rightarrow> pipe \<Rightarrow> (u8 list run \<times> pipe) outcome" where
  "piperead_run killed n p =
     bnd (p_acquire p) (\<lambda>p1.
       if nread p1 = nwrite p1 \<and> writeopen p1
       then if killed then bnd (p_release p1) (\<lambda>p2. Ok (Done (- 1) [], p2))
            else bnd (p_release p1) (\<lambda>p2. Ok (Asleep NReadChan [], p2))
       else let (bs, p2) = piperead_loop (nat n) [] p1; p3 = p_wakeup NWriteChan p2
         in bnd (p_release p3) (\<lambda>p4. Ok (Done (int (length bs)) bs, p4)))"

subsection \<open>A pipe is a bounded queue\<close>

text \<open>
  The interface the loops rely on: \<open>put\<close> and \<open>get\<close> of one byte over an abstraction of the
  buffer to the list of bytes in it.
\<close>

locale byte_queue =
  fixes put :: "u8 \<Rightarrow> 'p \<Rightarrow> 'p"
    and get :: "'p \<Rightarrow> u8 \<times> 'p"
    and full :: "'p \<Rightarrow> bool"
    and empty :: "'p \<Rightarrow> bool"
    and holds :: "'p \<Rightarrow> u8 list \<Rightarrow> bool"
    and cap :: nat
  assumes holds_cap: "holds p q \<Longrightarrow> length q \<le> cap"
    and full_iff: "holds p q \<Longrightarrow> full p \<longleftrightarrow> length q = cap"
    and empty_iff: "holds p q \<Longrightarrow> empty p \<longleftrightarrow> q = []"
    and put_ok: "holds p q \<Longrightarrow> length q < cap \<Longrightarrow> holds (put b p) (q @ [b])"
    and get_ok: "holds p (b # q) \<Longrightarrow> fst (get p) = b \<and> holds (snd (get p)) q"
begin

fun put_many :: "u8 list \<Rightarrow> 'p \<Rightarrow> 'p \<times> u8 list" where
  "put_many [] p = (p, [])"
| "put_many (b # bs) p = (if full p then (p, b # bs) else put_many bs (put b p))"

fun get_many :: "nat \<Rightarrow> u8 list \<Rightarrow> 'p \<Rightarrow> u8 list \<times> 'p" where
  "get_many 0 acc p = (acc, p)"
| "get_many (Suc k) acc p = (if empty p then (acc, p) else get_many k (acc @ [fst (get p)]) (snd (get p)))"

lemma put_many_ok:
  "holds p q \<Longrightarrow> put_many bs p = (p', rest) \<Longrightarrow>
     rest = drop (cap - length q) bs \<and> holds p' (q @ take (cap - length q) bs)"
proof (induction bs arbitrary: p q)
  case (Cons b bs)
  show ?case
  proof (cases "full p")
    case True
    then have "length q = cap" using full_iff [OF Cons.prems(1)] by simp
    then show ?thesis using Cons.prems True by auto
  next
    case False
    then have lt: "length q < cap" using full_iff [OF Cons.prems(1)] holds_cap [OF Cons.prems(1)] by simp
    have "put_many bs (put b p) = (p', rest)" using Cons.prems(2) False by simp
    from Cons.IH [OF put_ok [OF Cons.prems(1) lt, of b] this] lt show ?thesis
      by (simp add: drop_Cons' take_Cons')
  qed
qed simp

lemma get_many_ok:
  "holds p q \<Longrightarrow> get_many k acc p = (bs, p') \<Longrightarrow> bs = acc @ take k q \<and> holds p' (drop k q)"
proof (induction k arbitrary: acc p q)
  case (Suc k)
  show ?case
  proof (cases q)
    case Nil
    then have "empty p" using empty_iff [OF Suc.prems(1)] by simp
    then show ?thesis using Suc.prems Nil by simp
  next
    case (Cons b r)
    then have "\<not> empty p" using empty_iff [OF Suc.prems(1)] by simp
    then have "get_many k (acc @ [fst (get p)]) (snd (get p)) = (bs, p')" using Suc.prems(2) by simp
    moreover have g: "fst (get p) = b" "holds (snd (get p)) r" using get_ok Suc.prems(1) Cons by auto
    ultimately show ?thesis using Suc.IH [OF g(2), of "acc @ [fst (get p)]"] Cons by auto
  qed
qed simp

end

text \<open>The bytes in a pipe: \<open>nwrite - nread\<close> of them, from index \<open>nread\<close> around the ring.\<close>

definition pipe_q :: "pipe \<Rightarrow> u8 list" where
  "pipe_q p = map (\<lambda>j. pdata p ! ((unat (nread p) + j) mod PIPESIZE)) [0..<unat (nwrite p - nread p)]"

definition pipe_holds :: "pipe \<Rightarrow> u8 list \<Rightarrow> bool" where
  "pipe_holds p q \<longleftrightarrow> length (pdata p) = PIPESIZE \<and> unat (nwrite p - nread p) \<le> PIPESIZE \<and> q = pipe_q p"

lemma wrap_mod_512: "unat (w + 1) mod PIPESIZE = (unat w + 1) mod PIPESIZE" for w :: u32
proof -
  have "unat (w + 1) = (unat w + 1) mod 4294967296" by (simp add: unat_word_ariths)
  then show ?thesis by (simp add: PIPESIZE_def mod_mod_cancel)
qed

lemma length_pipe_q: "length (pipe_q p) = unat (nwrite p - nread p)"
  by (simp add: pipe_q_def)

lemma word_succ_diff: "unat (w - r) < 4294967295 \<Longrightarrow> unat (w + 1 - r) = unat (w - r) + 1" for w r :: u32
proof -
  assume "unat (w - r) < 4294967295"
  then have "unat ((w - r) + 1) = unat (w - r) + 1" by (subst unat_add_lt) simp_all
  then show ?thesis by (simp add: algebra_simps)
qed

lemma word32_len: "2 ^ LENGTH(32) = (4294967296 :: nat)"
  by simp

lemma write_index:
  "unat (nwrite p) mod PIPESIZE = (unat (nread p) + unat (nwrite p - nread p)) mod PIPESIZE"
proof -
  have "nwrite p = nread p + (nwrite p - nread p)" by simp
  then have "unat (nwrite p) = (unat (nread p) + unat (nwrite p - nread p)) mod 4294967296"
    by (metis unat_word_ariths(1) word32_len)
  then show ?thesis by (simp add: PIPESIZE_def mod_mod_cancel)
qed

lemma pput_holds:
  assumes "pipe_holds p q" "length q < PIPESIZE"
  shows "pipe_holds (pput b p) (q @ [b])"
proof -
  let ?d = "unat (nwrite p - nread p)"
  have d: "?d < PIPESIZE" "length (pdata p) = PIPESIZE" using assms by (simp_all add: pipe_holds_def length_pipe_q)
  then have d': "unat (nwrite p + 1 - nread p) = ?d + 1" by (intro word_succ_diff) (simp add: PIPESIZE_def)
  have ne: "(unat (nread p) + j) mod PIPESIZE \<noteq> unat (nwrite p) mod PIPESIZE" if "j < ?d" for j
  proof
    assume "(unat (nread p) + j) mod PIPESIZE = unat (nwrite p) mod PIPESIZE"
    then have "(unat (nread p) + ?d) mod PIPESIZE = (unat (nread p) + j) mod PIPESIZE"
      unfolding write_index by simp
    then have "PIPESIZE dvd (unat (nread p) + ?d) - (unat (nread p) + j)"
      using that by (subst mod_eq_dvd_iff_nat [symmetric]) simp_all
    then have "PIPESIZE dvd ?d - j" by (simp only: diff_add_inverse diff_cancel)
    then show False using that d(1) by (auto dest: dvd_imp_le)
  qed
  have e: "(unat (nread p) + ?d) mod PIPESIZE = unat (nwrite p) mod PIPESIZE" by (rule write_index [symmetric])
  have m: "unat (nwrite p) mod PIPESIZE < length (pdata p)" using d(2) by (simp add: PIPESIZE_def)
  have "pipe_q (pput b p) = map (\<lambda>j. (pdata p)[unat (nwrite p) mod PIPESIZE := b] ! ((unat (nread p) + j) mod PIPESIZE)) [0..<?d + 1]"
    unfolding pipe_q_def pput_def using d' by simp
  also have "\<dots> = map (\<lambda>j. pdata p ! ((unat (nread p) + j) mod PIPESIZE)) [0..<?d] @ [b]"
    using ne [symmetric] e m by simp
  finally have "pipe_q (pput b p) = q @ [b]" using assms(1) by (simp add: pipe_holds_def pipe_q_def)
  then show ?thesis using d d' by (simp add: pipe_holds_def) (simp add: pput_def PIPESIZE_def)
qed

lemma pget_holds:
  assumes "pipe_holds p (b # q)"
  shows "fst (pget p) = b \<and> pipe_holds (snd (pget p)) q"
proof -
  let ?d = "unat (nwrite p - nread p)"
  have d0: "length (pdata p) = PIPESIZE" "?d \<le> PIPESIZE" "b # q = pipe_q p"
    using assms by (simp_all add: pipe_holds_def)
  have "length (b # q) = ?d" unfolding d0(3) by (rule length_pipe_q)
  then have "?d = length q + 1" by simp
  note d = this d0
  have "nwrite p - nread p \<noteq> 0" using d(1) by auto
  then have d': "unat (nwrite p - (nread p + 1)) = length q"
    using d(1) unat_minus_one [of "nwrite p - nread p"] by (simp add: diff_diff_eq)
  have "b # q = map (\<lambda>j. pdata p ! ((unat (nread p) + j) mod PIPESIZE)) (0 # map Suc [0..<length q])"
    unfolding d(4) pipe_q_def d(1) by (simp add: upt_conv_Cons map_Suc_upt del: upt_Suc)
  then have bq: "b = pdata p ! (unat (nread p) mod PIPESIZE)"
    "q = map (\<lambda>j. pdata p ! ((unat (nread p) + Suc j) mod PIPESIZE)) [0..<length q]" by (simp_all add: comp_def)
  have "(unat (nread p + 1) + j) mod PIPESIZE = (unat (nread p) + Suc j) mod PIPESIZE" for j
    using wrap_mod_512 [of "nread p"] by (metis add_Suc_shift mod_add_left_eq Suc_eq_plus1 add.assoc add.commute)
  then have "pipe_q (snd (pget p)) = q"
    using bq(2) d' by (simp add: pipe_q_def pget_def)
  then show ?thesis using bq(1) d d' by (simp add: pipe_holds_def pget_def)
qed

lemma pipe_full_iff: "pipe_holds p q \<Longrightarrow> nwrite p = nread p + word_of_nat PIPESIZE \<longleftrightarrow> length q = PIPESIZE"
proof -
  assume "pipe_holds p q"
  then have "length q = unat (nwrite p - nread p)" by (simp add: pipe_holds_def length_pipe_q)
  moreover have "nwrite p = nread p + word_of_nat PIPESIZE \<longleftrightarrow> nwrite p - nread p = word_of_nat PIPESIZE"
    by (auto simp: algebra_simps)
  moreover have "unat (word_of_nat PIPESIZE :: u32) = PIPESIZE" by (simp add: PIPESIZE_def)
  ultimately show ?thesis by (metis unat_eq_iff)
qed

lemma pipe_empty_iff: "pipe_holds p q \<Longrightarrow> nread p = nwrite p \<longleftrightarrow> q = []"
proof -
  assume "pipe_holds p q"
  then have "length q = unat (nwrite p - nread p)" by (simp add: pipe_holds_def length_pipe_q)
  then have "q = [] \<longleftrightarrow> nwrite p - nread p = 0" by (metis length_0_conv unat_eq_0)
  then show ?thesis by auto
qed

interpretation pq: byte_queue pput pget "\<lambda>p. nwrite p = nread p + word_of_nat PIPESIZE"
  "\<lambda>p. nread p = nwrite p" pipe_holds PIPESIZE
proof unfold_locales
  show "pipe_holds p q \<Longrightarrow> length q \<le> PIPESIZE" for p q by (simp add: pipe_holds_def length_pipe_q)
qed (fact pipe_full_iff pipe_empty_iff pput_holds pget_holds)+

lemma pput_frame: "plock (pput b p) = plock p" "readopen (pput b p) = readopen p"
  "writeopen (pput b p) = writeopen p" "pwakes (pput b p) = pwakes p"
  by (simp_all add: pput_def)

definition same_ends :: "pipe \<Rightarrow> pipe \<Rightarrow> bool" where
  "same_ends p p' \<longleftrightarrow> plock p' = plock p \<and> readopen p' = readopen p \<and> writeopen p' = writeopen p"

lemma pipewrite_loop_queue:
  "\<exists>p1. pipewrite_loop killed n bs p =
     (if snd (pq.put_many bs p) = [] then (Done n [], p_wakeup NReadChan p1)
      else if \<not> readopen p \<or> killed then (Done (- 1) (snd (pq.put_many bs p)), p1)
      else (Asleep NWriteChan (snd (pq.put_many bs p)), p_wakeup NReadChan p1))
   \<and> p1 = fst (pq.put_many bs p) \<and> same_ends p p1 \<and> pwakes p1 = pwakes p"
  by (induction bs arbitrary: p) (auto simp: same_ends_def pput_frame)

lemma piperead_loop_queue:
  "piperead_loop k acc p = pq.get_many k acc p \<and> same_ends p (snd (pq.get_many k acc p))
     \<and> pwakes (snd (pq.get_many k acc p)) = pwakes p"
  by (induction k arbitrary: acc p) (auto simp: same_ends_def pget_def)

lemma pipe_holds_frame [simp]:
  "pipe_holds (p\<lparr>plock := l\<rparr>) q = pipe_holds p q" "pipe_holds (p_wakeup c p) q = pipe_holds p q"
  "pipe_holds (p\<lparr>pwakes := w\<rparr>) q = pipe_holds p q"
  by (simp_all add: pipe_holds_def pipe_q_def p_wakeup_def)

lemma pipewrite_run_spec:
  fixes bs :: "u8 list" and q :: "u8 list"
  assumes "pipe_holds p q" "\<not> plock p"
  defines "rest \<equiv> drop (PIPESIZE - length q) bs"
  shows "\<exists>p'. pipewrite_run killed n bs p = Ok
      (if rest = [] then Done n [] else if \<not> readopen p \<or> killed then Done (- 1) rest else Asleep NWriteChan rest, p')
    \<and> pipe_holds p' (q @ take (PIPESIZE - length q) bs) \<and> same_ends p p'
    \<and> pwakes p' = (if rest = [] \<or> readopen p \<and> \<not> killed then NReadChan # pwakes p else pwakes p)"
proof -
  let ?p = "p\<lparr>plock := True\<rparr>"
  obtain p1 r where pm: "pq.put_many bs ?p = (p1, r)" by (cases "pq.put_many bs ?p") blast
  have h: "pipe_holds ?p q" using assms(1) by simp
  have r: "r = rest" "pipe_holds p1 (q @ take (PIPESIZE - length q) bs)"
    using pq.put_many_ok [OF h pm] unfolding rest_def by blast+
  have a: "p_acquire p = Ok ?p" using assms(2) by (simp add: p_acquire_def)
  from pipewrite_loop_queue [of killed n bs ?p] pm r(1) have l: "pipewrite_loop killed n bs ?p =
     (if rest = [] then (Done n [], p_wakeup NReadChan p1)
      else if \<not> readopen p \<or> killed then (Done (- 1) rest, p1) else (Asleep NWriteChan rest, p_wakeup NReadChan p1))"
    "same_ends ?p p1" "pwakes p1 = pwakes p" by simp_all
  have rel: "p_release p2 = Ok (p2\<lparr>plock := False\<rparr>)" if "plock p2" for p2
    using that by (simp add: p_release_def)
  show ?thesis
    using l r(2) assms(2) by (auto simp: pipewrite_run_def a rel same_ends_def p_wakeup_def)
qed

lemma piperead_run_spec:
  assumes "pipe_holds p q" "\<not> plock p"
  shows "if q = [] \<and> writeopen p
    then piperead_run killed n p = Ok (if killed then Done (- 1) [] else Asleep NReadChan [], p)
    else \<exists>p'. piperead_run killed n p = Ok (Done (int (min (nat n) (length q))) (take (nat n) q), p')
      \<and> pipe_holds p' (drop (nat n) q) \<and> same_ends p p' \<and> pwakes p' = NWriteChan # pwakes p"
proof -
  let ?p = "p\<lparr>plock := True\<rparr>"
  have a: "p_acquire p = Ok ?p" using assms(2) by (simp add: p_acquire_def)
  have e: "nread p = nwrite p \<longleftrightarrow> q = []" by (rule pipe_empty_iff [OF assms(1)])
  have rel: "p_release p2 = Ok (p2\<lparr>plock := False\<rparr>)" if "plock p2" for p2
    using that by (simp add: p_release_def)
  obtain bs p1 where gm: "pq.get_many (nat n) [] ?p = (bs, p1)" by (cases "pq.get_many (nat n) [] ?p") blast
  have h: "pipe_holds ?p q" using assms(1) by simp
  from pq.get_many_ok [OF h gm] have g: "bs = take (nat n) q" "pipe_holds p1 (drop (nat n) q)" by simp_all
  have l: "piperead_loop (nat n) [] ?p = (bs, p1)" "same_ends ?p p1" "pwakes p1 = pwakes p"
    using piperead_loop_queue [of "nat n" "[]" ?p] gm by simp_all
  have idle: "p\<lparr>plock := False\<rparr> = p" using assms(2) by (cases p) simp
  show ?thesis
  proof (cases "q = [] \<and> writeopen p")
    case True
    then show ?thesis using e idle by (simp add: piperead_run_def a rel)
  next
    case False
    have "plock (p_wakeup NWriteChan p1)" using l(2) by (simp add: same_ends_def p_wakeup_def)
    moreover have "length bs = min (nat n) (length q)" using g(1) by simp
    ultimately have "piperead_run killed n p
        = Ok (Done (int (min (nat n) (length q))) (take (nat n) q), (p_wakeup NWriteChan p1)\<lparr>plock := False\<rparr>)"
      using False e l(1) g(1) by (auto simp: piperead_run_def a rel)
    then show ?thesis using False g(2) l(2,3) assms(2) by (simp add: same_ends_def) (simp add: p_wakeup_def)
  qed
qed

subsection \<open>A reader and a writer\<close>

text \<open>
  One process writes to the pipe and another reads from it, each call running from where it
  can run to the next point where it sleeps; the calls of \<open>wakeup\<close> that a run makes take
  effect on the other process.  \<open>sent\<close> and \<open>got\<close> are the bytes that have passed each end.
\<close>

datatype 'a thread = Idle | Ready 'a | Waiting 'a

record psys =
  pp :: pipe
  wst :: "(int \<times> u8 list) thread"
  rst :: "int thread"
  sent :: "u8 list"
  got :: "u8 list"

fun woken :: "bool \<Rightarrow> 'a thread \<Rightarrow> 'a thread" where
  "woken True (Waiting x) = Ready x"
| "woken b t = t"

definition quiet :: "pipe \<Rightarrow> pipe" where
  "quiet p = p\<lparr>pwakes := []\<rparr>"

inductive pipe_step :: "psys \<Rightarrow> psys \<Rightarrow> bool" where
  call_write: "wst s = Idle \<Longrightarrow> pipe_step s (s\<lparr>wst := Ready (int (length bs), bs)\<rparr>)"
| call_read: "rst s = Idle \<Longrightarrow> 0 < n \<Longrightarrow> pipe_step s (s\<lparr>rst := Ready n\<rparr>)"
| write_done: "wst s = Ready (n, bs) \<Longrightarrow> pipewrite_run False n bs (pp s) = Ok (Done r rest, p) \<Longrightarrow>
    pipe_step s (s\<lparr>pp := quiet p, wst := Idle, rst := woken (NReadChan \<in> set (pwakes p)) (rst s),
      sent := sent s @ take (length bs - length rest) bs\<rparr>)"
| write_sleeps: "wst s = Ready (n, bs) \<Longrightarrow> pipewrite_run False n bs (pp s) = Ok (Asleep c rest, p) \<Longrightarrow>
    pipe_step s (s\<lparr>pp := quiet p, wst := Waiting (n, rest), rst := woken (NReadChan \<in> set (pwakes p)) (rst s),
      sent := sent s @ take (length bs - length rest) bs\<rparr>)"
| read_done: "rst s = Ready n \<Longrightarrow> piperead_run False n (pp s) = Ok (Done r bs, p) \<Longrightarrow>
    pipe_step s (s\<lparr>pp := quiet p, rst := Idle, wst := woken (NWriteChan \<in> set (pwakes p)) (wst s),
      got := got s @ bs\<rparr>)"
| read_sleeps: "rst s = Ready n \<Longrightarrow> piperead_run False n (pp s) = Ok (Asleep c bs, p) \<Longrightarrow>
    pipe_step s (s\<lparr>pp := quiet p, rst := Waiting n, wst := woken (NWriteChan \<in> set (pwakes p)) (wst s)\<rparr>)"

text \<open>
  The invariant: the bytes read followed by those in the pipe are the bytes written; a
  sleeping writer faces a full pipe and has something to write, a sleeping reader an empty one.
\<close>

definition psys_ok :: "psys \<Rightarrow> bool" where
  "psys_ok s \<longleftrightarrow> \<not> plock (pp s) \<and> pwakes (pp s) = [] \<and> readopen (pp s) \<and> writeopen (pp s)
     \<and> (\<exists>q. pipe_holds (pp s) q \<and> sent s = got s @ q
        \<and> (\<forall>x. wst s = Waiting x \<longrightarrow> length q = PIPESIZE \<and> snd x \<noteq> [])
        \<and> (\<forall>n. rst s = Waiting n \<longrightarrow> q = []) \<and> (\<forall>n. rst s = Ready n \<or> rst s = Waiting n \<longrightarrow> 0 < n))"

lemma psys_okE:
  assumes "psys_ok s"
  obtains q where "\<not> plock (pp s)" "pwakes (pp s) = []" "readopen (pp s)" "writeopen (pp s)" "pipe_holds (pp s) q"
    "sent s = got s @ q" "\<And>x. wst s = Waiting x \<Longrightarrow> length q = PIPESIZE \<and> snd x \<noteq> []"
    "\<And>n. rst s = Waiting n \<Longrightarrow> q = []" "\<And>n. rst s = Ready n \<Longrightarrow> 0 < n" "\<And>n. rst s = Waiting n \<Longrightarrow> 0 < n"
  using assms unfolding psys_ok_def by blast

lemma psys_okI:
  assumes "\<not> plock (pp s)" "pwakes (pp s) = []" "readopen (pp s)" "writeopen (pp s)" "pipe_holds (pp s) q"
    "sent s = got s @ q" "\<And>x. wst s = Waiting x \<Longrightarrow> length q = PIPESIZE \<and> snd x \<noteq> []"
    "\<And>n. rst s = Waiting n \<Longrightarrow> q = []" "\<And>n. rst s = Ready n \<Longrightarrow> 0 < n" "\<And>n. rst s = Waiting n \<Longrightarrow> 0 < n"
  shows "psys_ok s"
  using assms unfolding psys_ok_def by blast

lemma woken_simps [simp]:
  "woken True t \<noteq> Waiting x" "woken True t = Ready x \<longleftrightarrow> t = Ready x \<or> t = Waiting x" "woken False t = t"
  by (cases t; simp)+

text \<open>What a run of the writer and of the reader does in a state of the invariant.\<close>

lemma psys_write:
  assumes "psys_ok s" "wst s = Ready (n, bs)"
  obtains q r p where "pipe_holds (pp s) q" "sent s = got s @ q" "pipewrite_run False n bs (pp s) = Ok (r, p)"
    "r = (if length bs \<le> PIPESIZE - length q then Done n [] else Asleep NWriteChan (drop (PIPESIZE - length q) bs))"
    "pipe_holds (quiet p) (q @ take (PIPESIZE - length q) bs)" "pwakes p = [NReadChan]"
    "\<not> plock (quiet p)" "readopen (quiet p)" "writeopen (quiet p)" "length q \<le> PIPESIZE"
proof -
  from psys_okE [OF assms(1)] obtain q where q: "\<not> plock (pp s)" "pwakes (pp s) = []" "readopen (pp s)"
    "writeopen (pp s)" "pipe_holds (pp s) q" "sent s = got s @ q" by metis
  have "length q \<le> PIPESIZE" by (rule pq.holds_cap [OF q(5)])
  moreover obtain p where "pipewrite_run False n bs (pp s)
      = Ok (if length bs \<le> PIPESIZE - length q then Done n [] else Asleep NWriteChan (drop (PIPESIZE - length q) bs), p)"
    "pipe_holds p (q @ take (PIPESIZE - length q) bs)" "same_ends (pp s) p" "pwakes p = [NReadChan]"
    using pipewrite_run_spec [OF q(5,1), of False n bs] q(2,3) by auto
  ultimately show ?thesis
    using q by (intro that [of q _ p]) (simp_all add: same_ends_def quiet_def)
qed

lemma psys_read:
  assumes "psys_ok s" "rst s = Ready n"
  obtains q where "pipe_holds (pp s) q" "sent s = got s @ q" "0 < n"
    "q = [] \<Longrightarrow> piperead_run False n (pp s) = Ok (Asleep NReadChan [], pp s)"
    "q \<noteq> [] \<Longrightarrow> \<exists>p. piperead_run False n (pp s) = Ok (Done (int (min (nat n) (length q))) (take (nat n) q), p)
      \<and> pipe_holds (quiet p) (drop (nat n) q) \<and> pwakes p = [NWriteChan] \<and> \<not> plock (quiet p)
      \<and> readopen (quiet p) \<and> writeopen (quiet p)"
proof -
  from psys_okE [OF assms(1)] obtain q where q: "\<not> plock (pp s)" "pwakes (pp s) = []" "readopen (pp s)"
    "writeopen (pp s)" "pipe_holds (pp s) q" "sent s = got s @ q" "\<And>n. rst s = Ready n \<Longrightarrow> 0 < n" by metis
  with piperead_run_spec [OF q(5,1), of False n] q(7) [OF assms(2)] show ?thesis
    by (intro that [of q]) (auto simp: same_ends_def quiet_def)
qed

lemma psys_step:
  assumes "pipe_step s t" "psys_ok s"
  shows "psys_ok t"
  using assms
proof (induction rule: pipe_step.induct)
  case (call_write s bs)
  from psys_okE [OF call_write(2)] obtain q where "\<not> plock (pp s)" "pwakes (pp s) = []" "readopen (pp s)" "writeopen (pp s)"
    "pipe_holds (pp s) q" "sent s = got s @ q" "\<And>n. rst s = Waiting n \<Longrightarrow> q = []"
    "\<And>n. rst s = Ready n \<Longrightarrow> 0 < n" "\<And>n. rst s = Waiting n \<Longrightarrow> 0 < n" by metis
  then show ?case by (intro psys_okI [where q = q]) auto
next
  case (call_read s n)
  from psys_okE [OF call_read(3)] obtain q where "\<not> plock (pp s)" "pwakes (pp s) = []" "readopen (pp s)" "writeopen (pp s)"
    "pipe_holds (pp s) q" "sent s = got s @ q" "\<And>x. wst s = Waiting x \<Longrightarrow> length q = PIPESIZE \<and> snd x \<noteq> []" by metis
  then show ?case using call_read(2) by (intro psys_okI [where q = q]) auto
next
  case (write_done s n bs r rest p)
  obtain q r' p' where q': "pipe_holds (pp s) q" "sent s = got s @ q" "pipewrite_run False n bs (pp s) = Ok (r', p')"
    "r' = (if length bs \<le> PIPESIZE - length q then Done n [] else Asleep NWriteChan (drop (PIPESIZE - length q) bs))"
    "pipe_holds (quiet p') (q @ take (PIPESIZE - length q) bs)" "pwakes p' = [NReadChan]"
    "\<not> plock (quiet p')" "readopen (quiet p')" "writeopen (quiet p')" "length q \<le> PIPESIZE"
    by (rule psys_write [OF write_done(3,1)])
  have "r' = Done r rest" "p' = p" using q'(3) write_done(2) by simp_all
  then have q: "sent s = got s @ q"
    "rest = []" "length bs \<le> PIPESIZE - length q" "pipe_holds (quiet p) (q @ take (PIPESIZE - length q) bs)" "pwakes p = [NReadChan]"
    "\<not> plock (quiet p)" "readopen (quiet p)" "writeopen (quiet p)" using q' by (simp_all split: if_splits)
  from psys_okE [OF write_done(3)] have n: "\<And>n. rst s = Ready n \<Longrightarrow> 0 < n" "\<And>n. rst s = Waiting n \<Longrightarrow> 0 < n" by metis+
  show ?case
    by (rule psys_okI [where q = "q @ bs"]) (use q n in \<open>auto simp: quiet_def\<close>)
next
  case (write_sleeps s n bs c rest p)
  obtain q r' p' where q': "pipe_holds (pp s) q" "sent s = got s @ q" "pipewrite_run False n bs (pp s) = Ok (r', p')"
    "r' = (if length bs \<le> PIPESIZE - length q then Done n [] else Asleep NWriteChan (drop (PIPESIZE - length q) bs))"
    "pipe_holds (quiet p') (q @ take (PIPESIZE - length q) bs)" "pwakes p' = [NReadChan]"
    "\<not> plock (quiet p')" "readopen (quiet p')" "writeopen (quiet p')" "length q \<le> PIPESIZE"
    by (rule psys_write [OF write_sleeps(3,1)])
  have "r' = Asleep c rest" "p' = p" using q'(3) write_sleeps(2) by simp_all
  then have q: "sent s = got s @ q" "rest = drop (PIPESIZE - length q) bs" "\<not> length bs \<le> PIPESIZE - length q"
    "pipe_holds (quiet p) (q @ take (PIPESIZE - length q) bs)" "pwakes p = [NReadChan]"
    "\<not> plock (quiet p)" "readopen (quiet p)" "writeopen (quiet p)" "length q \<le> PIPESIZE"
    using q' by (simp_all split: if_splits)
  from psys_okE [OF write_sleeps(3)] have n: "\<And>n. rst s = Ready n \<Longrightarrow> 0 < n" "\<And>n. rst s = Waiting n \<Longrightarrow> 0 < n" by metis+
  show ?case
    by (rule psys_okI [where q = "q @ take (PIPESIZE - length q) bs"]) (use q n in \<open>auto simp: quiet_def\<close>)
next
  case (read_done s n r bs p)
  from psys_read [OF read_done(3,1)] obtain q where q: "sent s = got s @ q" "0 < n" "q \<noteq> []" "bs = take (nat n) q"
    "pipe_holds (quiet p) (drop (nat n) q)" "pwakes p = [NWriteChan]" "\<not> plock (quiet p)" "readopen (quiet p)" "writeopen (quiet p)"
    unfolding read_done(2) by (metis Pair_inject outcome.inject run.distinct(1) run.inject(1))
  show ?case
    by (rule psys_okI [where q = "drop (nat n) q"]) (use q in \<open>auto simp: quiet_def\<close>)
next
  case (read_sleeps s n c bs p)
  from psys_read [OF read_sleeps(3,1)] obtain q where q: "pipe_holds (pp s) q" "sent s = got s @ q" "0 < n" "q = []" "p = pp s"
    unfolding read_sleeps(2) by (metis Pair_inject outcome.inject run.distinct(1))
  from psys_okE [OF read_sleeps(3)] obtain q' where q': "\<not> plock (pp s)" "pwakes (pp s) = []" "readopen (pp s)" "writeopen (pp s)"
    "pipe_holds (pp s) q'" "\<And>x. wst s = Waiting x \<Longrightarrow> length q' = PIPESIZE \<and> snd x \<noteq> []" by metis
  have "q' = q" using q(1) q'(5) by (simp add: pipe_holds_def)
  then have "wst s \<noteq> Waiting x" for x using q'(6) [of x] q(4) by (cases "wst s = Waiting x") (simp_all add: PIPESIZE_def)
  then show ?case
    by (intro psys_okI [where q = q]) (use q q' in \<open>auto simp: quiet_def\<close>)
qed

text \<open>
  C15. Pipes are first-in first-out and lose no wake-up: whatever the interleaving of the calls of
  a reader and a writer, and however the counters wrap, the bytes read are a prefix of the bytes
  written and at most \<open>PIPESIZE\<close> bytes are in between; the two never sleep at the same time;
  and the next run of the other process makes a sleeping one ready again.
\<close>

theorem pipe_fifo:
  assumes "pipe_step\<^sup>*\<^sup>* s t" "psys_ok s"
  shows "\<exists>q. sent t = got t @ q \<and> length q \<le> PIPESIZE \<and> pipe_holds (pp t) q
    \<and> (\<forall>x n. \<not> (wst t = Waiting x \<and> rst t = Waiting n))
    \<and> (\<forall>x n. wst t = Waiting x \<longrightarrow> rst t = Ready n \<longrightarrow> (\<exists>u. pipe_step t u \<and> wst u = Ready x \<and> rst u = Idle))
    \<and> (\<forall>x n. wst t = Ready x \<longrightarrow> rst t = Waiting n \<longrightarrow> (\<exists>u. pipe_step t u \<and> rst u = Ready n))"
proof -
  have ok: "psys_ok t" using assms by (induction rule: rtranclp_induct) (simp_all add: psys_step)
  from psys_okE [OF ok] obtain q where q: "pipe_holds (pp t) q" "sent t = got t @ q"
    "\<And>x. wst t = Waiting x \<Longrightarrow> length q = PIPESIZE \<and> snd x \<noteq> []" "\<And>n. rst t = Waiting n \<Longrightarrow> q = []" by metis
  have uq: "q' = q" if "pipe_holds (pp t) q'" for q' using that q(1) by (simp add: pipe_holds_def)
  have cap: "length q \<le> PIPESIZE" by (rule pq.holds_cap [OF q(1)])
  have both: "\<not> (wst t = Waiting x \<and> rst t = Waiting n)" for x n
    using q(3) [of x] q(4) [of n] by (auto simp: PIPESIZE_def)
  have wk: "\<exists>u. pipe_step t u \<and> wst u = Ready x \<and> rst u = Idle" if w: "wst t = Waiting x" "rst t = Ready n" for x n
  proof -
    have "q \<noteq> []" using q(3) [OF w(1)] by (auto simp: PIPESIZE_def)
    with psys_read [OF ok w(2)] uq obtain p r bs where
      "piperead_run False n (pp t) = Ok (Done r bs, p)" "pwakes p = [NWriteChan]" by metis
    from pipe_step.read_done [OF w(2) this(1)] this(2) w(1) show ?thesis by (intro exI conjI) auto
  qed
  have rk: "\<exists>u. pipe_step t u \<and> rst u = Ready n" if w: "wst t = Ready x" "rst t = Waiting n" for x n
  proof -
    obtain m bs where x: "x = (m, bs)" by (cases x)
    from psys_write [OF ok w(1) [unfolded x]] obtain r p where
      r: "pipewrite_run False m bs (pp t) = Ok (r, p)" "pwakes p = [NReadChan]" by metis
    show ?thesis
    proof (cases r)
      case (Done i rest)
      from pipe_step.write_done [OF w(1) [unfolded x] r(1) [unfolded Done]] r(2) w(2) show ?thesis
        by (intro exI conjI) auto
    next
      case (Asleep c rest)
      from pipe_step.write_sleeps [OF w(1) [unfolded x] r(1) [unfolded Asleep]] r(2) w(2) show ?thesis
        by (intro exI conjI) auto
    qed
  qed
  show ?thesis using q(1,2) cap both wk rk by blast
qed

text \<open>A pipe whose counters are about to wrap.\<close>

definition pipe_demo :: psys where
  "pipe_demo = \<lparr>pp = \<lparr>plock = False, pdata = replicate PIPESIZE 0, nread = - 1, nwrite = - 1, readopen = True,
     writeopen = True, pwakes = []\<rparr>, wst = Idle, rst = Idle, sent = [], got = []\<rparr>"

lemma pipe_demo_ok: "psys_ok pipe_demo"
  by (rule psys_okI [where q = "[]"])
    (simp_all add: pipe_demo_def pipe_holds_def pipe_q_def)

theorem pipe_fifo_witness: "\<exists>t q. pipe_step\<^sup>*\<^sup>* pipe_demo t \<and> wst t = Ready (2, [5, 6]) \<and> sent t = got t @ q"
proof -
  let ?t = "pipe_demo\<lparr>wst := Ready (int (length [5, 6 :: u8]), [5, 6])\<rparr>"
  have "wst pipe_demo = Idle" by (simp add: pipe_demo_def)
  then have st: "pipe_step\<^sup>*\<^sup>* pipe_demo ?t" by (intro r_into_rtranclp call_write)
  from pipe_fifo [OF st pipe_demo_ok] st show ?thesis by auto
qed

end
