(* ===== verification/CString.thy ===== *)
theory CString
  imports Prelude
begin

text \<open>
  The memory and string routines: \<open>string.c\<close> of the kernel and \<open>ulib.c\<close> of the user library.
  Pointers are natural-number addresses into a byte memory (objects do not wrap around the
  address space), and a loop that only a terminating NUL byte stops is a partial function that
  returns \<open>None\<close> when it runs forever.
\<close>

subsection \<open>\<open>x86.h\<close>: string stores\<close>

text \<open>\<open>rep stosb\<close> and \<open>rep stosl\<close>: store the low byte, or the whole word, \<open>cnt\<close> times.\<close>

fun stosb :: "bytes \<Rightarrow> nat \<Rightarrow> u32 \<Rightarrow> nat \<Rightarrow> bytes" where
  "stosb m addr data 0 = m"
| "stosb m addr data (Suc cnt) = stosb (m(addr := ucast data)) (addr + 1) data cnt"

fun stosl :: "bytes \<Rightarrow> nat \<Rightarrow> u32 \<Rightarrow> nat \<Rightarrow> bytes" where
  "stosl m addr data 0 = m"
| "stosl m addr data (Suc cnt) = stosl (wr32 m addr data) (addr + 4) data cnt"

subsection \<open>\<open>string.c\<close>\<close>

definition memset :: "bytes \<Rightarrow> nat \<Rightarrow> u32 \<Rightarrow> nat \<Rightarrow> bytes" where
  "memset m dst c n =
     (if dst mod 4 = 0 \<and> n mod 4 = 0
      then let c = c AND 0xFF
           in stosl m dst (((push_bit 24 c OR push_bit 16 c) OR push_bit 8 c) OR c) (n div 4)
      else stosb m dst c n)"

fun memcmp :: "bytes \<Rightarrow> nat \<Rightarrow> nat \<Rightarrow> nat \<Rightarrow> int" where
  "memcmp m s1 s2 0 = 0"
| "memcmp m s1 s2 (Suc n) =
     (if m s1 \<noteq> m s2 then uint (m s1) - uint (m s2) else memcmp m (s1 + 1) (s2 + 1) n)"

fun copy_down :: "bytes \<Rightarrow> nat \<Rightarrow> nat \<Rightarrow> nat \<Rightarrow> bytes" where
  "copy_down m d s 0 = m"
| "copy_down m d s (Suc n) = copy_down (m(d - 1 := m (s - 1))) (d - 1) (s - 1) n"

fun copy_up :: "bytes \<Rightarrow> nat \<Rightarrow> nat \<Rightarrow> nat \<Rightarrow> bytes" where
  "copy_up m d s 0 = m"
| "copy_up m d s (Suc n) = copy_up (m(d := m s)) (d + 1) (s + 1) n"

definition memmove :: "bytes \<Rightarrow> nat \<Rightarrow> nat \<Rightarrow> nat \<Rightarrow> bytes" where
  "memmove m dst src n =
     (if src < dst \<and> src + n > dst then copy_down m (dst + n) (src + n) n
      else copy_up m dst src n)"

definition memcpy :: "bytes \<Rightarrow> nat \<Rightarrow> nat \<Rightarrow> nat \<Rightarrow> bytes" where
  "memcpy m dst src n = memmove m dst src n"

fun strncmp :: "bytes \<Rightarrow> nat \<Rightarrow> nat \<Rightarrow> nat \<Rightarrow> int" where
  "strncmp m p q 0 = 0"
| "strncmp m p q (Suc n) =
     (if m p \<noteq> 0 \<and> m p = m q then strncmp m (p + 1) (q + 1) n
      else uint (m p) - uint (m q))"

text \<open>The first loop of \<open>strncpy\<close>: the memory, the next destination and the count that is left.\<close>

fun strncpy_copy :: "bytes \<Rightarrow> nat \<Rightarrow> nat \<Rightarrow> nat \<Rightarrow> bytes \<times> nat \<times> nat" where
  "strncpy_copy m s t 0 = (m, s, 0)"
| "strncpy_copy m s t (Suc n) =
     (if m t \<noteq> 0 then strncpy_copy (m(s := m t)) (s + 1) (t + 1) n else (m(s := m t), s + 1, n))"

fun strncpy_pad :: "bytes \<Rightarrow> nat \<Rightarrow> nat \<Rightarrow> bytes" where
  "strncpy_pad m s 0 = m"
| "strncpy_pad m s (Suc n) = strncpy_pad (m(s := 0)) (s + 1) n"

definition strncpy :: "bytes \<Rightarrow> nat \<Rightarrow> nat \<Rightarrow> int \<Rightarrow> bytes" where
  "strncpy m s t n = (case strncpy_copy m s t (nat n) of (m1, s1, n1) \<Rightarrow> strncpy_pad m1 s1 n1)"

definition safestrcpy :: "bytes \<Rightarrow> nat \<Rightarrow> nat \<Rightarrow> int \<Rightarrow> bytes" where
  "safestrcpy m s t n =
     (if n \<le> 0 then m
      else case strncpy_copy m s t (nat (n - 1)) of (m1, s1, _) \<Rightarrow> m1(s1 := 0))"

partial_function (option) strlen_from :: "bytes \<Rightarrow> nat \<Rightarrow> nat \<Rightarrow> nat option" where
  "strlen_from m s n = (if m (s + n) \<noteq> 0 then strlen_from m s (n + 1) else Some n)"

definition strlen :: "bytes \<Rightarrow> nat \<Rightarrow> nat option" where
  "strlen m s = strlen_from m s 0"

subsection \<open>\<open>ulib.c\<close>\<close>

partial_function (option) strcpy :: "bytes \<Rightarrow> nat \<Rightarrow> nat \<Rightarrow> bytes option" where
  "strcpy m s t = (if m t \<noteq> 0 then strcpy (m(s := m t)) (s + 1) (t + 1) else Some (m(s := m t)))"

partial_function (option) strcmp :: "bytes \<Rightarrow> nat \<Rightarrow> nat \<Rightarrow> int option" where
  "strcmp m p q =
     (if m p \<noteq> 0 \<and> m p = m q then strcmp m (p + 1) (q + 1) else Some (uint (m p) - uint (m q)))"

text \<open>\<open>Some 0\<close> is the null pointer \<open>strchr\<close> returns when \<open>c\<close> does not occur.\<close>

partial_function (option) strchr :: "bytes \<Rightarrow> nat \<Rightarrow> u8 \<Rightarrow> nat option" where
  "strchr m s c = (if m s = 0 then Some 0 else if m s = c then Some s else strchr m (s + 1) c)"

text \<open>The user library's \<open>memset\<close> and \<open>memmove\<close> are byte loops; \<open>n\<close> is a signed \<open>int\<close> there.\<close>

definition umemset :: "bytes \<Rightarrow> nat \<Rightarrow> u32 \<Rightarrow> nat \<Rightarrow> bytes" where
  "umemset m dst c n = stosb m dst c n"

definition umemmove :: "bytes \<Rightarrow> nat \<Rightarrow> nat \<Rightarrow> int \<Rightarrow> bytes" where
  "umemmove m dst src n = copy_up m dst src (nat n)"

text \<open>\<open>n * 10 + *s - '0'\<close> wraps around at 32 bits.\<close>

partial_function (option) atoi_from :: "bytes \<Rightarrow> nat \<Rightarrow> u32 \<Rightarrow> u32 option" where
  "atoi_from m s n =
     (if 48 \<le> m s \<and> m s \<le> 57 then atoi_from m (s + 1) (n * 10 + ucast (m s) - 48) else Some n)"

definition atoi :: "bytes \<Rightarrow> nat \<Rightarrow> u32 option" where
  "atoi m s = atoi_from m s 0"

text \<open>
  \<open>gets\<close>: \<open>rd\<close> is what each one-byte \<open>read(0, &c, 1)\<close> returns, the byte or nothing
  (\<open>cc < 1\<close>).  The result is the buffer and the number of bytes taken from the input.
\<close>

fun gets_loop :: "bytes \<Rightarrow> nat \<Rightarrow> int \<Rightarrow> nat \<Rightarrow> u8 option list \<Rightarrow> bytes \<times> nat" where
  "gets_loop m buf maxn i [] = (m, i)"
| "gets_loop m buf maxn i (r # rs) =
     (if int i + 1 < maxn then
        case r of None \<Rightarrow> (m, i)
        | Some c \<Rightarrow>
            let m' = m(buf + i := c)
            in if c = 10 \<or> c = 13 then (m', i + 1) else gets_loop m' buf maxn (i + 1) rs
      else (m, i))"

definition gets :: "bytes \<Rightarrow> nat \<Rightarrow> int \<Rightarrow> u8 option list \<Rightarrow> bytes" where
  "gets m buf maxn rd = (case gets_loop m buf maxn 0 rd of (m', i) \<Rightarrow> m'(buf + i := 0))"

subsection \<open>Filling memory\<close>

lemma fill_bytes_0 [simp]: "fill_bytes m a 0 v = m"
  by (auto simp: fill_bytes_def fun_eq_iff)

lemma fill_bytes_append: "fill_bytes (fill_bytes m a n v) (a + n) k v = fill_bytes m a (n + k) v"
  by (auto simp: fill_bytes_def fun_eq_iff)

lemma stosb_eq_fill: "stosb m a c n = fill_bytes m a n (ucast c)"
proof (induction n arbitrary: m a)
  case (Suc n)
  then show ?case by (auto simp: fill_bytes_def fun_eq_iff)
qed simp

lemma stosl_eq_fill:
  assumes "\<And>i. i < 4 \<Longrightarrow> byte_of w i = v"
  shows "stosl m a w n = fill_bytes m a (4 * n) v"
proof (induction n arbitrary: m a)
  case (Suc n)
  have "byte_of w 0 = v" "byte_of w 1 = v" "byte_of w 2 = v" "byte_of w 3 = v"
    using assms by simp_all
  then have "wr32 m a w = fill_bytes m a 4 v"
    by (auto simp: wr32_def fill_bytes_def fun_eq_iff)
  with Suc show ?case
    using fill_bytes_append [of m a 4 v "4 * n"] by simp
qed simp

lemma byte_of_bits: "byte_of w i = ucast (drop_bit (8 * i) w)"
proof -
  have "unat (drop_bit (8 * i) w) = drop_bit (8 * i) (unat w)"
    by (simp only: unsigned_drop_bit_eq unsigned_take_bit_eq take_bit_length_eq
        flip: unsigned_take_bit_eq)
  also have "\<dots> = unat w div 2 ^ (8 * i)"
    by (rule drop_bit_eq_div)
  finally have "unat w div 256 ^ i = unat (drop_bit (8 * i) w)"
    by (simp add: power_mult)
  then show ?thesis
    by (simp only: byte_of_def) simp
qed

lemma byte_of_replicated:
  fixes c :: u32
  assumes "i < 4"
  shows "byte_of (((push_bit 24 (c AND 0xFF) OR push_bit 16 (c AND 0xFF))
           OR push_bit 8 (c AND 0xFF)) OR (c AND 0xFF)) i = ucast c"
proof (rule bit_word_eqI)
  fix n assume n: "n < LENGTH(8)"
  have ff: "bit (255 :: u32) k \<longleftrightarrow> k < 8" for k
    using bit_mask_iff [of 8 k, where 'a = u32] by (auto simp: mask_numeral possible_bit_def)
  have "i = 0 \<or> i = 1 \<or> i = 2 \<or> i = 3" using assms by linarith
  then show "bit (byte_of (((push_bit 24 (c AND 0xFF) OR push_bit 16 (c AND 0xFF))
           OR push_bit 8 (c AND 0xFF)) OR (c AND 0xFF)) i) n = bit (ucast c :: u8) n"
    using n by (elim disjE)
      (simp_all only: byte_of_bits bit_unsigned_iff bit_drop_bit_eq bit_or_iff bit_push_bit_iff
        bit_and_iff ff comp_def, auto simp: possible_bit_def)
qed

lemma memset_eq_fill: "memset m dst c n = fill_bytes m dst n (ucast c)"
proof (cases "dst mod 4 = 0 \<and> n mod 4 = 0")
  case True
  then have "4 * (n div 4) = n" by auto
  then show ?thesis
    using True stosl_eq_fill [OF byte_of_replicated [of _ c], of m dst "n div 4"]
    by (simp add: memset_def Let_def)
next
  case False
  then show ?thesis by (auto simp: memset_def stosb_eq_fill)
qed

text \<open>
  \<open>memset\<close> stores the low byte of \<open>c\<close> in exactly the \<open>n\<close> bytes from \<open>dst\<close>, on the
  word-store path (aligned pointer and length) as on the byte-store path.
\<close>

theorem memset_correct:
  "memset m dst c n = (\<lambda>i. if dst \<le> i \<and> i < dst + n then ucast c else m i)"
  by (simp add: memset_eq_fill fill_bytes_def)

subsection \<open>Copying memory\<close>

definition copied :: "bytes \<Rightarrow> nat \<Rightarrow> nat \<Rightarrow> nat \<Rightarrow> bytes" where
  "copied m d s n = (\<lambda>i. if d \<le> i \<and> i < d + n then m (s + (i - d)) else m i)"

lemma copied_0 [simp]: "copied m d s 0 = m"
  by (auto simp: copied_def fun_eq_iff)

lemma copy_up_eq: "d \<le> s \<or> s + n \<le> d \<Longrightarrow> copy_up m d s n = copied m d s n"
proof (induction n arbitrary: m d s)
  case (Suc n)
  have "copy_up m d s (Suc n) = copy_up (m(d := m s)) (d + 1) (s + 1) n"
    by simp
  also have "\<dots> = copied (m(d := m s)) (d + 1) (s + 1) n"
    by (rule Suc.IH) (use Suc.prems in auto)
  also have "\<dots> = copied m d s (Suc n)"
    using Suc.prems by (auto simp: copied_def fun_eq_iff Suc_diff_Suc)
  finally show ?case .
qed simp

lemma copy_down_eq: "s < d \<Longrightarrow> copy_down m (d + n) (s + n) n = copied m d s n"
proof (induction n arbitrary: m)
  case (Suc n)
  then have "copy_down m (d + Suc n) (s + Suc n) (Suc n) = copied (m(d + n := m (s + n))) d s n"
    by simp
  also have "\<dots> = copied m d s (Suc n)"
    using Suc.prems by (auto simp: copied_def fun_eq_iff)
  finally show ?case .
qed simp

lemma memmove_eq_copied: "memmove m dst src n = copied m dst src n"
  by (auto simp: memmove_def copy_down_eq intro: copy_up_eq)

text \<open>
  \<open>memmove\<close> (and \<open>memcpy\<close>, which is the same function) leaves at \<open>dst\<close> the \<open>n\<close> bytes that
  were at \<open>src\<close> when it was called, however the two regions overlap, and changes no other byte.
\<close>

theorem memmove_correct:
  "bytes_at (memmove m dst src n) dst n = bytes_at m src n
   \<and> (\<forall>i. i < dst \<or> dst + n \<le> i \<longrightarrow> memmove m dst src n i = m i)
   \<and> memcpy m dst src n = memmove m dst src n"
  by (auto simp: memmove_eq_copied copied_def memcpy_def bytes_at_def)

theorem memmove_correct_witness:
  "bytes_at (memmove (\<lambda>i. word_of_nat i) 2 0 4) 2 4 = [0, 1, 2, 3 :: u8]
   \<and> memmove (\<lambda>i. word_of_nat i) 2 0 4 7 = (7 :: u8)"
  using memmove_correct [of "\<lambda>i. word_of_nat i" 2 0 4]
  by (auto simp: bytes_at_def upt_rec numeral_eq_Suc)

text \<open>The user library's forward loop is not a memmove when the destination is above the source.\<close>

lemma umemmove_overlap_differs:
  "bytes_at (umemmove (\<lambda>i. word_of_nat i) 1 0 3) 1 3 = [0, 0, 0 :: u8]"
  by (simp add: umemmove_def bytes_at_def upt_rec numeral_eq_Suc)

subsection \<open>Comparing\<close>

text \<open>The C string at \<open>p\<close>, cut off after \<open>n\<close> bytes.\<close>

definition cstr :: "bytes \<Rightarrow> nat \<Rightarrow> nat \<Rightarrow> u8 list" where
  "cstr m p n = takeWhile (\<lambda>b. b \<noteq> 0) (bytes_at m p n)"

lemma bytes_at_0 [simp]: "bytes_at m p 0 = []"
  by (simp add: bytes_at_def)

lemma bytes_at_Suc: "bytes_at m p (Suc n) = m p # bytes_at m (p + 1) n"
  by (rule nth_equalityI) (auto simp: nth_Cons split: nat.split)

lemma cstr_0 [simp]: "cstr m p 0 = []"
  by (simp add: cstr_def)

lemma cstr_Suc: "cstr m p (Suc n) = (if m p = 0 then [] else m p # cstr m (p + 1) n)"
  by (simp add: cstr_def bytes_at_Suc)

lemma memcmp_zero: "memcmp m a b n = 0 \<longleftrightarrow> bytes_at m a n = bytes_at m b n"
  by (induction n arbitrary: a b) (auto simp: bytes_at_Suc)

lemma strncmp_zero: "strncmp m p q n = 0 \<longleftrightarrow> cstr m p n = cstr m q n"
  by (induction n arbitrary: p q) (auto simp: cstr_Suc)

text \<open>
  \<open>memcmp\<close> returns 0 exactly when the two regions hold the same bytes, and \<open>strncmp\<close>
  returns 0 exactly when the two strings agree up to the first NUL or the \<open>n\<close>-th byte.
\<close>

theorem compare_zero_iff_equal:
  "(memcmp m a b n = 0 \<longleftrightarrow> bytes_at m a n = bytes_at m b n)
   \<and> (strncmp m p q n = 0 \<longleftrightarrow> cstr m p n = cstr m q n)"
  by (simp add: memcmp_zero strncmp_zero)

subsection \<open>Copying strings\<close>

lemma length_cstr: "length (cstr m t n) \<le> n"
  unfolding cstr_def by (metis length_bytes_at length_takeWhile_le)

lemma cstr_nonzero: "0 \<notin> set (cstr m t n)"
  unfolding cstr_def by (auto dest: set_takeWhileD)

lemma cstr_cong: "(\<And>i. t \<le> i \<Longrightarrow> i < t + n \<Longrightarrow> m i = m' i) \<Longrightarrow> cstr m t n = cstr m' t n"
  by (induction n arbitrary: t) (auto simp: cstr_Suc)

lemma put_bytes_Cons: "put_bytes m s (b # xs) = put_bytes (m(s := b)) (s + 1) xs"
  by (auto simp: put_bytes_def fun_eq_iff nth_Cons')

lemma strncpy_pad_eq: "strncpy_pad m s n = put_bytes m s (replicate n 0)"
  by (induction n arbitrary: m s) (auto simp: put_bytes_Cons)

text \<open>What the first loop leaves: the string, its NUL if there was room for it, and the count.\<close>

lemma strncpy_copy_eq:
  "s + n \<le> t \<or> t + n \<le> s \<Longrightarrow> strncpy_copy m s t n =
     (let cs = cstr m t n; k = length cs in
      if k < n then (put_bytes m s (cs @ [0]), s + k + 1, n - k - 1) else (put_bytes m s cs, s + k, 0))"
proof (induction n arbitrary: m s t)
  case (Suc n)
  show ?case
  proof (cases "m t = 0")
    case True
    then show ?thesis by (simp add: cstr_Suc put_bytes_Cons)
  next
    case False
    have c: "cstr (m(s := m t)) (t + 1) n = cstr m (t + 1) n"
      by (rule cstr_cong) (use Suc.prems in auto)
    have "strncpy_copy m s t (Suc n) = strncpy_copy (m(s := m t)) (s + 1) (t + 1) n"
      using False by simp
    also have "\<dots> = (let cs = cstr m (t + 1) n; k = length cs in
      if k < n then (put_bytes (m(s := m t)) (s + 1) (cs @ [0]), s + 1 + k + 1, n - k - 1)
      else (put_bytes (m(s := m t)) (s + 1) cs, s + 1 + k, 0))"
      by (subst Suc.IH) (use Suc.prems c in auto)
    finally show ?thesis using False by (simp add: cstr_Suc Let_def put_bytes_Cons)
  qed
qed simp

lemma put_bytes_append: "put_bytes m s (xs @ ys) = put_bytes (put_bytes m s xs) (s + length xs) ys"
  by (auto simp: put_bytes_def fun_eq_iff nth_append)

text \<open>
  \<open>strncpy\<close> fills exactly \<open>n\<close> bytes: the string, cut off after \<open>n\<close> bytes, then zeroes;
  so \<open>strncmp\<close> of the copy with the original is 0.
\<close>

theorem strncpy_then_compare:
  assumes "s + nat n \<le> t \<or> t + nat n \<le> s"
  shows "strncpy m s t n = put_bytes m s (cstr m t (nat n) @ replicate (nat n - length (cstr m t (nat n))) 0)
    \<and> strncmp (strncpy m s t n) s t (nat n) = 0"
proof -
  let ?n = "nat n" and ?cs = "cstr m t (nat n)"
  let ?xs = "?cs @ replicate (?n - length ?cs) 0"
  have eq: "strncpy m s t n = put_bytes m s ?xs"
  proof (cases "length ?cs < ?n")
    case True
    then have "replicate (?n - length ?cs) (0::u8) = 0 # replicate (?n - length ?cs - 1) 0"
      by (metis Suc_diff_Suc diff_Suc_1 replicate_Suc)
    then show ?thesis
      using True strncpy_copy_eq [OF assms, of m]
      by (simp add: strncpy_def Let_def strncpy_pad_eq put_bytes_append put_bytes_Cons add.assoc)
  next
    case False
    then show ?thesis
      using strncpy_copy_eq [OF assms, of m] length_cstr [of m t ?n]
      by (simp add: strncpy_def Let_def)
  qed
  have len: "length ?xs = ?n" using length_cstr [of m t ?n] by simp
  then have "bytes_at (put_bytes m s ?xs) s ?n = ?xs"
    using bytes_at_put_bytes [of m s ?xs] by simp
  then have "cstr (put_bytes m s ?xs) s ?n = ?cs"
    using cstr_nonzero [of m t ?n] by (auto simp: cstr_def [of "put_bytes m s ?xs"] takeWhile_append
        takeWhile_eq_all_conv)
  moreover have "cstr (put_bytes m s ?xs) t ?n = ?cs"
    by (rule cstr_cong) (use assms len in \<open>auto simp: put_bytes_def\<close>)
  ultimately show ?thesis using eq by (simp add: strncmp_zero)
qed

theorem strncpy_then_compare_witness:
  "strncmp (strncpy (\<lambda>i. if i < 3 then 65 else 0) 100 0 14) 100 0 14 = 0"
proof -
  have "(100 :: nat) + nat 14 \<le> 0 \<or> 0 + nat 14 \<le> (100 :: nat)" by simp
  from strncpy_then_compare [OF this] have "strncmp (strncpy (\<lambda>i. if i < 3 then 65 else 0) 100 0 14)
     100 0 (nat 14) = 0" by blast
  then show ?thesis by (simp only: nat_numeral)
qed

text \<open>
  \<open>safestrcpy\<close> into a buffer of \<open>n > 0\<close> bytes always leaves a NUL-terminated string there,
  the source cut off after \<open>n - 1\<close> bytes, and never writes outside the buffer.
\<close>

theorem safestrcpy_terminates_string:
  assumes "0 < n" "s + nat n \<le> t \<or> t + nat n \<le> s"
  shows "cstr (safestrcpy m s t n) s (nat n) = cstr m t (nat n - 1)
    \<and> (\<exists>i < nat n. safestrcpy m s t n (s + i) = 0)
    \<and> (\<forall>i. i < s \<or> s + nat n \<le> i \<longrightarrow> safestrcpy m s t n i = m i)"
proof -
  obtain k where n: "nat n = Suc k" "nat (n - 1) = k"
    using assms(1) by (metis Suc_nat_eq_nat_zadd1 diff_add_cancel nat_0_iff not0_implies_Suc
        nat_diff_distrib' nat_one_as_int not_less zless_nat_conj add.commute zle_diff1_eq)
  let ?cs = "cstr m t k"
  have le: "length ?cs \<le> k" by (rule length_cstr)
  have "s + k \<le> t \<or> t + k \<le> s" using assms(2) n by auto
  from strncpy_copy_eq [OF this, of m]
  have eq: "safestrcpy m s t n =
      (if length ?cs < k then (put_bytes m s (?cs @ [0]))(s + length ?cs + 1 := 0)
       else (put_bytes m s ?cs)(s + length ?cs := 0))"
    using assms(1) n by (simp add: safestrcpy_def Let_def)
  have at: "safestrcpy m s t n (s + i) = ?cs ! i" if "i < length ?cs" for i
    using that unfolding eq by (auto simp: put_bytes_def nth_append)
  have nul: "safestrcpy m s t n (s + length ?cs) = 0"
    unfolding eq by (auto simp: put_bytes_def nth_append)
  have out: "safestrcpy m s t n i = m i" if "i < s \<or> s + nat n \<le> i" for i
    using that le n unfolding eq by (auto simp: put_bytes_def)
  have split: "bytes_at (safestrcpy m s t n) s (nat n) =
      ?cs @ 0 # bytes_at (safestrcpy m s t n) (s + length ?cs + 1) (k - length ?cs)"
  proof (rule nth_equalityI)
    fix i assume "i < length (bytes_at (safestrcpy m s t n) s (nat n))"
    then show "bytes_at (safestrcpy m s t n) s (nat n) ! i =
        (?cs @ 0 # bytes_at (safestrcpy m s t n) (s + length ?cs + 1) (k - length ?cs)) ! i"
      using at [of i] nul le n by (cases "i = length ?cs") (auto simp: nth_append nth_Cons')
  qed (use le n in simp)
  have "cstr (safestrcpy m s t n) s (nat n) = ?cs"
    unfolding cstr_def [of "safestrcpy m s t n"] split
    using cstr_nonzero [of m t k] by (subst takeWhile_append) auto
  then show ?thesis using nul out n le by (auto intro!: exI [of _ "length ?cs"])
qed

theorem safestrcpy_terminates_string_witness:
  "\<exists>i < 16. safestrcpy (\<lambda>i. 66) 0 100 16 (0 + i) = 0"
  using safestrcpy_terminates_string [of 16 0 100 "\<lambda>i. 66"] by simp

end
