(* ===== verification/Mmu.thy ===== *)
theory Mmu
  imports Prelude
begin

text \<open>
  The address arithmetic of \<open>mmu.h\<close> and \<open>memlayout.h\<close> on 32-bit words: page directory and
  page table indices, rounding to pages, the fields of a page table entry, and the translation
  between physical and kernel virtual addresses.
\<close>

definition PGSIZE :: nat where "PGSIZE = 4096"
definition NPDENTRIES :: nat where "NPDENTRIES = 1024"

definition PDX :: "u32 \<Rightarrow> u32" where "PDX va = drop_bit 22 va AND 0x3FF"
definition PTX :: "u32 \<Rightarrow> u32" where "PTX va = drop_bit 12 va AND 0x3FF"
definition PGADDR :: "u32 \<Rightarrow> u32 \<Rightarrow> u32 \<Rightarrow> u32" where
  "PGADDR d t off = (push_bit 22 d OR push_bit 12 t) OR off"

definition PGROUNDUP :: "u32 \<Rightarrow> u32" where "PGROUNDUP s = (s + 4096 - 1) AND NOT (4096 - 1)"
definition PGROUNDDOWN :: "u32 \<Rightarrow> u32" where "PGROUNDDOWN a = a AND NOT (4096 - 1)"

definition PTE_P :: u32 where "PTE_P = 0x001"
definition PTE_W :: u32 where "PTE_W = 0x002"
definition PTE_U :: u32 where "PTE_U = 0x004"
definition PTE_A :: u32 where "PTE_A = 0x020"
definition PTE_PG :: u32 where "PTE_PG = 0x200"

definition PTE_ADDR :: "u32 \<Rightarrow> u32" where "PTE_ADDR pte = pte AND NOT 0xFFF"
definition PTE_FLAGS :: "u32 \<Rightarrow> u32" where "PTE_FLAGS pte = pte AND 0xFFF"

definition KERNBASE :: u32 where "KERNBASE = 0x80000000"
definition EXTMEM :: u32 where "EXTMEM = 0x100000"
definition PHYSTOP :: u32 where "PHYSTOP = 0xE000000"
definition DEVSPACE :: u32 where "DEVSPACE = 0xFE000000"
definition KERNLINK :: u32 where "KERNLINK = KERNBASE + EXTMEM"

definition V2P :: "u32 \<Rightarrow> u32" where "V2P a = a - KERNBASE"
definition P2V :: "u32 \<Rightarrow> u32" where "P2V a = a + KERNBASE"

named_theorems mmu_defs

lemmas mmu_constants [mmu_defs] =
  PTE_P_def PTE_W_def PTE_U_def PTE_A_def PTE_PG_def KERNBASE_def EXTMEM_def PHYSTOP_def
  DEVSPACE_def KERNLINK_def PGSIZE_def NPDENTRIES_def

subsection \<open>The arithmetic, over the natural numbers\<close>

lemma P2V_V2P [simp]: "P2V (V2P a) = a" "V2P (P2V a) = a"
  by (simp_all add: P2V_def V2P_def)

lemma mask_numerals: "(0xFFF :: u32) = mask 12" "(0x3FF :: u32) = mask 10" "(4096 - 1 :: u32) = mask 12"
  by (simp_all add: mask_eq_exp_minus_1)

lemma unat_PDX: "unat (PDX va) = unat va div 4194304"
proof -
  have "unat va div 4194304 < 1024" by (simp add: less_mult_imp_div_less)
  then show ?thesis by (simp add: PDX_def mask_numerals unat_and_mask unat_drop)
qed

lemma unat_PTX: "unat (PTX va) = unat va div 4096 mod 1024"
  by (simp add: PTX_def mask_numerals unat_and_mask unat_drop)

lemma unat_PGROUNDDOWN: "unat (PGROUNDDOWN a) = unat a div 4096 * 4096"
  unfolding PGROUNDDOWN_def mask_numerals unat_and_not_mask by simp

lemma unat_PTE_ADDR: "unat (PTE_ADDR a) = unat a div 4096 * 4096"
  unfolding PTE_ADDR_def mask_numerals unat_and_not_mask by simp

lemma unat_PTE_FLAGS: "unat (PTE_FLAGS a) = unat a mod 4096"
  unfolding PTE_FLAGS_def mask_numerals unat_and_mask by simp

lemma unat_PGROUNDUP:
  assumes "unat s + 4095 < 2 ^ 32"
  shows "unat (PGROUNDUP s) = (unat s + 4095) div 4096 * 4096"
proof -
  have "unat (s + 4095) = unat s + 4095"
    using assms unat_add_lt [of s 4095] by simp
  moreover have "s + 4096 - 1 = s + 4095" by simp
  ultimately show ?thesis
    unfolding PGROUNDUP_def mask_numerals unat_and_not_mask by (simp only:) simp
qed

end
