(* ===== verification/Kalloc.thy ===== *)
theory Kalloc
  imports CString Mmu
begin

text \<open>
  The physical page allocator \<open>kalloc.c\<close>.  The free list is linked through the first word of
  each free page, in the byte memory of the kernel's address space.  \<open>kend\<close> is the linker
  symbol \<open>end\<close>.  \<open>free_pages s xs\<close> is the abstraction: the list \<open>xs\<close> of free pages, in the
  order in which \<open>kalloc\<close> will return them.
\<close>

record kmem =
  kmlock :: bool
  use_lock :: bool
  freelist :: u32
  mem :: bytes
  kend :: u32

subsection \<open>Operations\<close>

definition km_acquire :: "kmem \<Rightarrow> kmem outcome" where
  "km_acquire s =
     (if use_lock s then bnd (lk_acquire (kmlock s)) (\<lambda>l. Ok (s\<lparr>kmlock := l\<rparr>)) else Ok s)"

definition km_release :: "kmem \<Rightarrow> kmem outcome" where
  "km_release s =
     (if use_lock s then bnd (lk_release (kmlock s)) (\<lambda>l. Ok (s\<lparr>kmlock := l\<rparr>)) else Ok s)"

definition kfree :: "u32 \<Rightarrow> kmem \<Rightarrow> kmem outcome" where
  "kfree v s =
     panic_if (unat v mod PGSIZE \<noteq> 0 \<or> v < kend s \<or> PHYSTOP \<le> V2P v) ''kfree''
      (bnd (km_acquire (s\<lparr>mem := memset (mem s) (unat v) 1 PGSIZE\<rparr>)) (\<lambda>s1.
         km_release (s1\<lparr>mem := wr32 (mem s1) (unat v) (freelist s1), freelist := v\<rparr>)))"

definition kalloc :: "kmem \<Rightarrow> (u32 \<times> kmem) outcome" where
  "kalloc s =
     bnd (km_acquire s) (\<lambda>s1.
       let r = freelist s1;
           s2 = (if r \<noteq> 0 then s1\<lparr>freelist := rd32 (mem s1) (unat r)\<rparr> else s1)
       in bnd (km_release s2) (\<lambda>s3. Ok (r, s3)))"

function freerange_from :: "nat \<Rightarrow> nat \<Rightarrow> kmem \<Rightarrow> kmem outcome" where
  "freerange_from p vend s =
     (if p + PGSIZE \<le> vend then bnd (kfree (word_of_nat p) s) (\<lambda>t. freerange_from (p + PGSIZE) vend t)
      else Ok s)"
  by pat_completeness auto
termination
  by (relation "measure (\<lambda>(p, vend, s). vend - p)") (auto simp: PGSIZE_def)

declare freerange_from.simps [simp del]

definition freerange :: "u32 \<Rightarrow> u32 \<Rightarrow> kmem \<Rightarrow> kmem outcome" where
  "freerange vstart vend s = freerange_from (unat (PGROUNDUP vstart)) (unat vend) s"

definition kinit1 :: "u32 \<Rightarrow> u32 \<Rightarrow> kmem \<Rightarrow> kmem outcome" where
  "kinit1 vstart vend s = freerange vstart vend (s\<lparr>kmlock := False, use_lock := False\<rparr>)"

definition kinit2 :: "u32 \<Rightarrow> u32 \<Rightarrow> kmem \<Rightarrow> kmem outcome" where
  "kinit2 vstart vend s = bnd (freerange vstart vend s) (\<lambda>s1. Ok (s1\<lparr>use_lock := True\<rparr>))"

subsection \<open>The free list\<close>

fun fl_path :: "bytes \<Rightarrow> u32 \<Rightarrow> u32 list \<Rightarrow> bool" where
  "fl_path m p [] \<longleftrightarrow> p = 0"
| "fl_path m p (x # xs) \<longleftrightarrow> p = x \<and> x \<noteq> 0 \<and> fl_path m (rd32 m (unat x)) xs"

text \<open>A page that may be freed: aligned, above the kernel image and inside physical memory.\<close>

definition page_ok :: "kmem \<Rightarrow> u32 \<Rightarrow> bool" where
  "page_ok s v \<longleftrightarrow> unat v mod PGSIZE = 0 \<and> kend s \<le> v \<and> V2P v < PHYSTOP"

definition free_pages :: "kmem \<Rightarrow> u32 list \<Rightarrow> bool" where
  "free_pages s xs \<longleftrightarrow> \<not> kmlock s \<and> 0 < kend s \<and> fl_path (mem s) (freelist s) xs \<and> distinct xs
     \<and> (\<forall>x \<in> set xs. page_ok s x)"

text \<open>The addresses of a page.\<close>

definition in_page :: "u32 \<Rightarrow> nat \<Rightarrow> bool" where
  "in_page v i \<longleftrightarrow> unat v \<le> i \<and> i < unat v + PGSIZE"

lemma aligned_disjoint:
  assumes "x mod 4096 = 0" "y mod 4096 = 0" "x \<noteq> (y::nat)"
  shows "x + 4096 \<le> y \<or> y + 4096 \<le> x"
proof -
  obtain a b where ab: "x = 4096 * a" "y = 4096 * b"
    using assms(1,2) by (auto simp: mod_eq_0_iff_dvd elim!: dvdE)
  with assms(3) have "a + 1 \<le> b \<or> b + 1 \<le> a" by auto
  then show ?thesis
  proof
    assume "a + 1 \<le> b"
    from mult_le_mono2 [OF this, of 4096] show ?thesis unfolding ab by simp
  next
    assume "b + 1 \<le> a"
    from mult_le_mono2 [OF this, of 4096] show ?thesis unfolding ab by simp
  qed
qed

lemma fl_path_cong:
  "(\<And>x i. x \<in> set xs \<Longrightarrow> unat x \<le> i \<Longrightarrow> i < unat x + 4 \<Longrightarrow> m i = m' i) \<Longrightarrow> fl_path m p xs = fl_path m' p xs"
proof (induction xs arbitrary: p)
  case (Cons x xs)
  have "rd32 m (unat x) = rd32 m' (unat x)"
    by (rule rd32_cong) (use Cons.prems in auto)
  with Cons show ?case by auto
qed simp

text \<open>The free list does not change when memory outside the free pages does.\<close>

lemma free_pages_frame:
  assumes "free_pages s xs" "\<And>x i. x \<in> set xs \<Longrightarrow> in_page x i \<Longrightarrow> m i = mem s i"
  shows "free_pages (s\<lparr>mem := m\<rparr>) xs"
proof -
  have "fl_path m (freelist s) xs = fl_path (mem s) (freelist s) xs"
    by (rule fl_path_cong) (use assms(2) in \<open>auto simp: in_page_def PGSIZE_def\<close>)
  then show ?thesis
    using assms(1) by (simp add: free_pages_def page_ok_def)
qed

lemma fl_path_nonzero: "fl_path m p xs \<Longrightarrow> x \<in> set xs \<Longrightarrow> x \<noteq> 0"
  by (induction xs arbitrary: p) auto

lemma km_acquire_free: "\<not> kmlock s \<Longrightarrow> km_acquire s = Ok (s\<lparr>kmlock := use_lock s\<rparr>)"
  by (simp add: km_acquire_def)

lemma km_release_held: "kmlock s = use_lock s \<Longrightarrow> km_release s = Ok (s\<lparr>kmlock := False\<rparr>)"
  by (auto simp: km_release_def)

lemma kalloc_empty: "free_pages s [] \<Longrightarrow> kalloc s = Ok (0, s)"
  by (auto simp: kalloc_def free_pages_def km_acquire_free km_release_held)

lemma kalloc_cons:
  assumes "free_pages s (x # xs)"
  shows "kalloc s = Ok (x, s\<lparr>freelist := rd32 (mem s) (unat x)\<rparr>)"
    and "free_pages (s\<lparr>freelist := rd32 (mem s) (unat x)\<rparr>) xs"
  using assms
  by (auto simp: kalloc_def free_pages_def km_acquire_free km_release_held Let_def page_ok_def)

lemma kfree_eq:
  assumes "\<not> kmlock s" "page_ok s v"
  shows "kfree v s = Ok (s\<lparr>mem := wr32 (fill_bytes (mem s) (unat v) PGSIZE 1) (unat v) (freelist s),
           freelist := v\<rparr>)"
proof -
  have "\<not> (unat v mod PGSIZE \<noteq> 0 \<or> v < kend s \<or> PHYSTOP \<le> V2P v)"
    using assms(2) by (auto simp: page_ok_def)
  then show ?thesis
    using assms(1) by (cases s) (simp add: kfree_def km_acquire_free km_release_held memset_eq_fill)
qed

lemma kfree_pushes:
  assumes "free_pages s xs" "page_ok s v" "v \<notin> set xs"
  shows "free_pages (s\<lparr>mem := wr32 (fill_bytes (mem s) (unat v) PGSIZE 1) (unat v) (freelist s),
           freelist := v\<rparr>) (v # xs)"
proof -
  let ?m = "wr32 (fill_bytes (mem s) (unat v) PGSIZE 1) (unat v) (freelist s)"
  have same: "?m i = mem s i" if "x \<in> set xs" "unat x \<le> i" "i < unat x + 4" for x i
  proof -
    have "unat x mod 4096 = 0" "unat v mod 4096 = 0" "x \<noteq> v"
      using that assms by (auto simp: free_pages_def page_ok_def PGSIZE_def)
    then have "unat x + 4096 \<le> unat v \<or> unat v + 4096 \<le> unat x"
      by (intro aligned_disjoint) auto
    with that show ?thesis
      by (auto simp: wr32_outside fill_bytes_def PGSIZE_def)
  qed
  have "fl_path ?m (freelist s) xs = fl_path (mem s) (freelist s) xs"
    by (rule fl_path_cong) (use same in auto)
  moreover have "v \<noteq> 0"
    using assms(1,2) by (auto simp: free_pages_def page_ok_def)
  ultimately show ?thesis
    using assms by (auto simp: free_pages_def page_ok_def)
qed

subsection \<open>The allocator's interface\<close>

text \<open>
  What the callers of an allocator rely on: it keeps a list of free pages, hands out its head,
  takes pages back, and says 0 when it has none.  \<open>take_pages\<close> is a client that allocates \<open>n\<close>
  pages in a row, as \<open>allocuvm\<close> and \<open>setupkvm\<close> do.
\<close>

fun take_pages :: "('s \<Rightarrow> (u32 \<times> 's) outcome) \<Rightarrow> nat \<Rightarrow> 's \<Rightarrow> (u32 list \<times> 's) outcome" where
  "take_pages alloc 0 s = Ok ([], s)"
| "take_pages alloc (Suc n) s =
     bnd (alloc s) (\<lambda>(p, t). bnd (take_pages alloc n t) (\<lambda>(ps, u). Ok (p # ps, u)))"

fun give_pages :: "(u32 \<Rightarrow> 's \<Rightarrow> 's outcome) \<Rightarrow> u32 list \<Rightarrow> 's \<Rightarrow> 's outcome" where
  "give_pages release [] s = Ok s"
| "give_pages release (p # ps) s = bnd (release p s) (\<lambda>t. give_pages release ps t)"

locale page_allocator =
  fixes alloc :: "'s \<Rightarrow> (u32 \<times> 's) outcome"
    and release :: "u32 \<Rightarrow> 's \<Rightarrow> 's outcome"
    and pages :: "'s \<Rightarrow> u32 list \<Rightarrow> bool"
    and valid :: "'s \<Rightarrow> u32 \<Rightarrow> bool"
  assumes alloc_none: "pages s [] \<Longrightarrow> alloc s = Ok (0, s)"
    and alloc_some: "pages s (x # xs) \<Longrightarrow> \<exists>t. alloc s = Ok (x, t) \<and> pages t xs \<and> valid t = valid s"
    and release_ok: "pages s xs \<Longrightarrow> valid s v \<Longrightarrow> v \<notin> set xs \<Longrightarrow>
        \<exists>t. release v s = Ok t \<and> pages t (v # xs) \<and> valid t = valid s"
    and pages_distinct: "pages s xs \<Longrightarrow> distinct xs"
    and pages_valid: "pages s xs \<Longrightarrow> v \<in> set xs \<Longrightarrow> valid s v \<and> v \<noteq> 0"
begin

lemma take_pages_ok:
  "pages s (xs @ ys) \<Longrightarrow> \<exists>t. take_pages alloc (length xs) s = Ok (xs, t) \<and> pages t ys \<and> valid t = valid s"
proof (induction xs arbitrary: s)
  case (Cons x xs)
  then obtain t where t: "alloc s = Ok (x, t)" "pages t (xs @ ys)" "valid t = valid s"
    using alloc_some [of s x "xs @ ys"] by auto
  from Cons.IH [OF t(2)] obtain u where
    "take_pages alloc (length xs) t = Ok (xs, u)" "pages u ys" "valid u = valid t" by blast
  with t show ?case by auto
qed auto

lemma give_pages_ok:
  "pages s ys \<Longrightarrow> (\<forall>x \<in> set xs. valid s x) \<Longrightarrow> distinct (xs @ ys) \<Longrightarrow>
   \<exists>t. give_pages release xs s = Ok t \<and> pages t (rev xs @ ys) \<and> valid t = valid s"
proof (induction xs arbitrary: s ys)
  case (Cons x xs)
  then obtain t where t: "release x s = Ok t" "pages t (x # ys)" "valid t = valid s"
    using release_ok [of s ys x] by auto
  with Cons.IH [of t "x # ys"] Cons.prems obtain u where
    "give_pages release xs t = Ok u" "pages u (rev xs @ x # ys)" "valid u = valid t" by auto
  with t show ?case by auto
qed auto

text \<open>Pages handed out one after another are distinct and none of them is on the free list.\<close>

lemma take_pages_fresh:
  assumes "pages s xs" "n \<le> length xs"
  shows "\<exists>ps t. take_pages alloc n s = Ok (ps, t) \<and> length ps = n \<and> distinct ps
    \<and> (\<exists>rest. pages t rest \<and> set ps \<inter> set rest = {}) \<and> 0 \<notin> set ps"
proof -
  have "pages s (take n xs @ drop n xs)" using assms(1) by simp
  moreover have len: "length (take n xs) = n" using assms(2) by simp
  ultimately obtain t where
    t: "take_pages alloc n s = Ok (take n xs, t)" "pages t (drop n xs)"
    using take_pages_ok [of s "take n xs" "drop n xs"] by auto
  have "set (take n xs) \<inter> set (drop n xs) = {}" "distinct (take n xs)"
    using pages_distinct [OF assms(1)] set_take_disj_set_drop_if_distinct [of xs n n] by auto
  moreover have "0 \<notin> set (take n xs)"
    using pages_valid [OF assms(1)] by (auto dest: in_set_takeD)
  ultimately show ?thesis using t len by blast
qed

text \<open>Taking pages and giving them back restores the set of free pages.\<close>

lemma take_give_roundtrip:
  assumes "pages s xs" "n \<le> length xs"
  shows "\<exists>ps t u ys. take_pages alloc n s = Ok (ps, t) \<and> give_pages release ps t = Ok u
    \<and> pages u ys \<and> set ys = set xs"
proof -
  have "pages s (take n xs @ drop n xs)" using assms(1) by simp
  moreover have "length (take n xs) = n" using assms(2) by simp
  ultimately obtain t where
    t: "take_pages alloc n s = Ok (take n xs, t)" "pages t (drop n xs)" "valid t = valid s"
    using take_pages_ok [of s "take n xs" "drop n xs"] by auto
  have "\<forall>x \<in> set (take n xs). valid t x"
    using pages_valid [OF assms(1)] t(3) by (auto dest: in_set_takeD)
  moreover have "distinct (take n xs @ drop n xs)"
    using pages_distinct [OF assms(1)] by simp
  ultimately obtain u where "give_pages release (take n xs) t = Ok u"
    "pages u (rev (take n xs) @ drop n xs)"
    using give_pages_ok [OF t(2)] by blast
  moreover have "set (rev (take n xs) @ drop n xs) = set xs"
    by (metis append_take_drop_id set_append set_rev)
  ultimately show ?thesis using t(1) by blast
qed

end

interpretation km: page_allocator kalloc kfree free_pages page_ok
proof unfold_locales
  fix s x xs assume "free_pages s (x # xs)"
  then show "\<exists>t. kalloc s = Ok (x, t) \<and> free_pages t xs \<and> page_ok t = page_ok s"
    using kalloc_cons [of s x xs] by (auto simp: page_ok_def fun_eq_iff)
next
  fix s xs v assume a: "free_pages s xs" "page_ok s v" "v \<notin> set xs"
  then have "kfree v s = Ok (s\<lparr>mem := wr32 (fill_bytes (mem s) (unat v) PGSIZE 1) (unat v) (freelist s),
      freelist := v\<rparr>)"
    by (intro kfree_eq) (auto simp: free_pages_def)
  with kfree_pushes [OF a]
  show "\<exists>t. kfree v s = Ok t \<and> free_pages t (v # xs) \<and> page_ok t = page_ok s"
    by (auto simp: page_ok_def fun_eq_iff)
next
  fix s xs v assume a: "free_pages s xs" "v \<in> set xs"
  then have "fl_path (mem s) (freelist s) xs" by (simp add: free_pages_def)
  with a show "page_ok s v \<and> v \<noteq> 0"
    using fl_path_nonzero [of _ _ xs v] by (auto simp: free_pages_def)
qed (auto simp: kalloc_empty free_pages_def)

text \<open>
  Pages that \<open>kalloc\<close> hands out one after another are all distinct, non-null and off the
  free list, and it does hand them out as long as the free list has enough of them.
\<close>

theorem kalloc_fresh_pages:
  assumes "free_pages s xs" "n \<le> length xs"
  shows "\<exists>ps t. take_pages kalloc n s = Ok (ps, t) \<and> length ps = n \<and> distinct ps
    \<and> (\<exists>rest. free_pages t rest \<and> set ps \<inter> set rest = {}) \<and> 0 \<notin> set ps"
  using assms by (rule km.take_pages_fresh)

text \<open>A small machine: two free pages above the kernel image.\<close>

definition kmem_demo :: kmem where
  "kmem_demo = \<lparr>kmlock = False, use_lock = True, freelist = 0x80401000,
     mem = wr32 (\<lambda>_. 0) 0x80401000 0x80400000, kend = 0x80200000\<rparr>"

lemma kmem_demo_free: "free_pages kmem_demo [0x80401000, 0x80400000]"
  by (auto simp: kmem_demo_def free_pages_def page_ok_def V2P_def mmu_constants
      rd32_wr32_other rd32_zero)

theorem kalloc_fresh_pages_witness:
  "\<exists>ps t. take_pages kalloc 2 kmem_demo = Ok (ps, t) \<and> distinct ps"
  using kalloc_fresh_pages [OF kmem_demo_free, of 2] by auto

text \<open>
  \<open>kfree\<close> of an aligned page of physical memory that is not free puts it at the head of
  the free list, so that the next \<open>kalloc\<close> returns it, changes no byte outside the page and
  leaves the lock free; on any other address it panics and changes nothing.
\<close>

theorem kfree_then_kalloc:
  assumes "free_pages s xs" "v \<notin> set xs"
  shows "if page_ok s v
    then \<exists>t u. kfree v s = Ok t \<and> kalloc t = Ok (v, u) \<and> free_pages u xs
      \<and> (\<forall>i. \<not> in_page v i \<longrightarrow> mem u i = mem s i)
    else kfree v s = Panic ''kfree''"
proof (cases "page_ok s v")
  case True
  let ?t = "s\<lparr>mem := wr32 (fill_bytes (mem s) (unat v) PGSIZE 1) (unat v) (freelist s), freelist := v\<rparr>"
  have free: "kfree v s = Ok ?t"
    using True assms(1) by (intro kfree_eq) (auto simp: free_pages_def)
  note kalloc_cons [OF kfree_pushes [OF assms(1) True assms(2)]]
  moreover have "\<forall>i. \<not> in_page v i \<longrightarrow> mem ?t i = mem s i"
    by (auto simp: in_page_def wr32_outside fill_bytes_def PGSIZE_def)
  ultimately show ?thesis using True free by fastforce
next
  case False
  then show ?thesis by (auto simp: kfree_def page_ok_def not_le not_less)
qed

theorem kfree_then_kalloc_witness:
  "\<exists>t u. kfree 0x80402000 kmem_demo = Ok t \<and> kalloc t = Ok (0x80402000, u)"
proof -
  have "page_ok kmem_demo 0x80402000"
    by (simp add: kmem_demo_def page_ok_def V2P_def mmu_constants)
  then show ?thesis using kfree_then_kalloc [OF kmem_demo_free, of "0x80402000"] by auto
qed

end
