(* ===== verification/File.thy ===== *)
theory File
  imports Inode_Data Pipe Kalloc
begin

text \<open>
  The file table (\<open>file.c\<close>) and \<open>pipealloc\<close>, \<open>pipeclose\<close> as the file layer calls them.
  \<open>kio\<close> is the kernel state under the file descriptors: the file system, the page allocator,
  the table of open files and the pipes, a pipe under the address of the page that holds it.
  A pointer to \<open>struct file\<close> is an index into \<open>ftable.file\<close>.
\<close>

datatype ftype = FD_NONE | FD_PIPE | FD_INODE

record struct_file =
  ftyp :: ftype
  fref :: int
  readable :: u8
  writable :: u8
  fpipe :: u32
  fip :: "nat option"
  foff :: u32

record 'd kio =
  kf :: "'d fs"
  kpg :: kmem
  ft_lk :: bool
  ftab :: "struct_file list"
  pipes :: "u32 \<Rightarrow> pipe"

definition upd_file :: "nat \<Rightarrow> (struct_file \<Rightarrow> struct_file) \<Rightarrow> 'd kio \<Rightarrow> 'd kio" where
  "upd_file f g s = s\<lparr>ftab := (ftab s)[f := g (ftab s ! f)]\<rparr>"

definition on_fs :: "('d fs \<Rightarrow> 'd fs outcome) \<Rightarrow> 'd kio \<Rightarrow> 'd kio outcome" where
  "on_fs g s = bnd (g (kf s)) (\<lambda>t. Ok (s\<lparr>kf := t\<rparr>))"

definition ft_acquire :: "'d kio \<Rightarrow> 'd kio outcome" where
  "ft_acquire s = bnd (lk_acquire (ft_lk s)) (\<lambda>l. Ok (s\<lparr>ft_lk := l\<rparr>))"

definition ft_release :: "'d kio \<Rightarrow> 'd kio outcome" where
  "ft_release s = bnd (lk_release (ft_lk s)) (\<lambda>l. Ok (s\<lparr>ft_lk := l\<rparr>))"

subsection \<open>Operations\<close>

definition fileinit :: "'d kio \<Rightarrow> 'd kio" where
  "fileinit s = s\<lparr>ft_lk := False\<rparr>"

fun falloc_scan :: "nat \<Rightarrow> struct_file list \<Rightarrow> nat option" where
  "falloc_scan f [] = None"
| "falloc_scan f (x # xs) = (if fref x = 0 then Some f else falloc_scan (Suc f) xs)"

definition filealloc :: "'d kio \<Rightarrow> (nat option \<times> 'd kio) outcome" where
  "filealloc s =
     bnd (ft_acquire s) (\<lambda>s1.
       case falloc_scan 0 (ftab s1) of
         Some f \<Rightarrow> bnd (ft_release (upd_file f (\<lambda>x. x\<lparr>fref := 1\<rparr>) s1)) (\<lambda>s2. Ok (Some f, s2))
       | None \<Rightarrow> bnd (ft_release s1) (\<lambda>s2. Ok (None, s2)))"

definition filedup :: "nat \<Rightarrow> 'd kio \<Rightarrow> (nat \<times> 'd kio) outcome" where
  "filedup f s =
     bnd (ft_acquire s) (\<lambda>s1.
       panic_if (fref (ftab s1 ! f) < 1) ''filedup''
       (bnd (ft_release (upd_file f (\<lambda>x. x\<lparr>fref := fref x + 1\<rparr>) s1)) (\<lambda>s2. Ok (f, s2))))"

definition pipeclose :: "u32 \<Rightarrow> bool \<Rightarrow> 'd kio \<Rightarrow> 'd kio outcome" where
  "pipeclose a w s =
     bnd (pipeclose_run w (pipes s a)) (\<lambda>(free, p).
       let s1 = s\<lparr>pipes := (pipes s)(a := p)\<rparr>
       in if free then bnd (kfree a (kpg s1)) (\<lambda>m. Ok (s1\<lparr>kpg := m\<rparr>)) else Ok s1)"

definition fileclose :: "int \<Rightarrow> nat \<Rightarrow> 'd kio \<Rightarrow> 'd kio outcome" where
  "fileclose me f s =
     bnd (ft_acquire s) (\<lambda>s1.
       panic_if (fref (ftab s1 ! f) < 1) ''fileclose''
       (let s2 = upd_file f (\<lambda>x. x\<lparr>fref := fref x - 1\<rparr>) s1 in
        if 0 < fref (ftab s2 ! f) then ft_release s2
        else let ff = ftab s2 ! f; s3 = upd_file f (\<lambda>x. x\<lparr>fref := 0, ftyp := FD_NONE\<rparr>) s2
          in bnd (ft_release s3) (\<lambda>s4.
             case ftyp ff of
               FD_PIPE \<Rightarrow> pipeclose (fpipe ff) (writable ff \<noteq> 0) s4
             | FD_INODE \<Rightarrow>
                 bnd (on_fs fs_begin_op s4) (\<lambda>s5.
                 case fip ff of
                   None \<Rightarrow> Fault
                 | Some ip \<Rightarrow> bnd (on_fs (iput me ip) s5) (on_fs (fs_end_op me)))
             | FD_NONE \<Rightarrow> Ok s4)))"

definition filestat :: "int \<Rightarrow> nat \<Rightarrow> 'd kio \<Rightarrow> (int \<times> stat option \<times> 'd kio) outcome" where
  "filestat me f s =
     (if ftyp (ftab s ! f) = FD_INODE
      then case fip (ftab s ! f) of
             None \<Rightarrow> Panic ''ilock''
           | Some ip \<Rightarrow>
               bnd (on_fs (ilock me ip) s) (\<lambda>s1.
               let st = stati ip (kf s1)
               in bnd (on_fs (iunlock me ip) s1) (\<lambda>s2. Ok (0, Some st, s2)))
      else Ok (- 1, None, s))"

text \<open>A pipe operation of the file layer: when it would sleep the caller waits.\<close>

definition piperead :: "bool \<Rightarrow> u32 \<Rightarrow> int \<Rightarrow> 'd kio \<Rightarrow> (int \<times> u8 list \<times> 'd kio) outcome" where
  "piperead killed a n s =
     bnd (piperead_run killed n (pipes s a)) (\<lambda>(r, p).
       case r of Done k bs \<Rightarrow> Ok (k, bs, s\<lparr>pipes := (pipes s)(a := p)\<rparr>) | Asleep c bs \<Rightarrow> Blocked)"

definition pipewrite :: "bool \<Rightarrow> u32 \<Rightarrow> u8 list \<Rightarrow> int \<Rightarrow> 'd kio \<Rightarrow> (int \<times> 'd kio) outcome" where
  "pipewrite killed a bs n s =
     bnd (pipewrite_run killed n (take (nat n) bs) (pipes s a)) (\<lambda>(r, p).
       case r of Done k rest \<Rightarrow> Ok (k, s\<lparr>pipes := (pipes s)(a := p)\<rparr>) | Asleep c rest \<Rightarrow> Blocked)"

definition fileread :: "'d devsw list \<Rightarrow> int \<Rightarrow> bool \<Rightarrow> nat \<Rightarrow> int \<Rightarrow> 'd kio \<Rightarrow> (int \<times> u8 list \<times> 'd kio) outcome" where
  "fileread dv me killed f n s =
     (let x = ftab s ! f in
      if readable x = 0 then Ok (- 1, [], s)
      else case ftyp x of
        FD_PIPE \<Rightarrow> piperead killed (fpipe x) n s
      | FD_INODE \<Rightarrow>
          (case fip x of
             None \<Rightarrow> Panic ''ilock''
           | Some ip \<Rightarrow>
               bnd (on_fs (ilock me ip) s) (\<lambda>s1.
               bnd (readi dv me ip (foff x) (word_of_int n) (kf s1)) (\<lambda>(r, bs, t).
               let s2 = s1\<lparr>kf := t\<rparr>;
                   s3 = (if 0 < r then upd_file f (\<lambda>y. y\<lparr>foff := foff y + word_of_int r\<rparr>) s2 else s2)
               in bnd (on_fs (iunlock me ip) s3) (\<lambda>s4. Ok (r, bs, s4)))))
      | FD_NONE \<Rightarrow> Panic ''fileread'')"

text \<open>
  The loop of \<open>filewrite\<close>: at most \<open>filewrite_max\<close> bytes to a transaction.  Every round that
  does not leave the loop writes at least one byte, so \<open>n\<close> rounds are enough.
\<close>

definition filewrite_max :: int where
  "filewrite_max = int ((MAXOPBLOCKS - 1 - 1 - 2) div 2 * 512)"

fun filewrite_loop :: "nat \<Rightarrow> 'd devsw list \<Rightarrow> int \<Rightarrow> nat \<Rightarrow> nat \<Rightarrow> u8 list \<Rightarrow> int \<Rightarrow> int \<Rightarrow> 'd kio \<Rightarrow> (int \<times> 'd kio) outcome" where
  "filewrite_loop 0 dv me f ip src i n s = Ok (if i = n then n else - 1, s)"
| "filewrite_loop (Suc k) dv me f ip src i n s =
     (if i < n
      then let n1 = (if filewrite_max < n - i then filewrite_max else n - i) in
        bnd (on_fs fs_begin_op s) (\<lambda>s1.
        bnd (on_fs (ilock me ip) s1) (\<lambda>s2.
        bnd (writei dv me ip (take (nat n1) (drop (nat i) src)) (foff (ftab s2 ! f)) (word_of_int n1) (kf s2)) (\<lambda>(r, t).
        let s3 = s2\<lparr>kf := t\<rparr>;
            s4 = (if 0 < r then upd_file f (\<lambda>y. y\<lparr>foff := foff y + word_of_int r\<rparr>) s3 else s3)
        in bnd (on_fs (iunlock me ip) s4) (\<lambda>s5.
           bnd (on_fs (fs_end_op me) s5) (\<lambda>s6.
           if r < 0 then Ok (if i = n then n else - 1, s6)
           else panic_if (r \<noteq> n1) ''short filewrite''
             (filewrite_loop k dv me f ip src (i + r) n s6))))))
      else Ok (if i = n then n else - 1, s))"

definition filewrite :: "'d devsw list \<Rightarrow> int \<Rightarrow> bool \<Rightarrow> nat \<Rightarrow> u8 list \<Rightarrow> int \<Rightarrow> 'd kio \<Rightarrow> (int \<times> 'd kio) outcome" where
  "filewrite dv me killed f src n s =
     (let x = ftab s ! f in
      if writable x = 0 then Ok (- 1, s)
      else case ftyp x of
        FD_PIPE \<Rightarrow> pipewrite killed (fpipe x) src n s
      | FD_INODE \<Rightarrow>
          (case fip x of
             None \<Rightarrow> if 0 < n then bnd (on_fs fs_begin_op s) (\<lambda>s1. Panic ''ilock'') else Ok (if 0 = n then n else - 1, s)
           | Some ip \<Rightarrow> filewrite_loop (nat n) dv me f ip src 0 n s)
      | FD_NONE \<Rightarrow> Panic ''filewrite'')"

subsection \<open>Allocating a pipe\<close>

definition pipe_bad :: "int \<Rightarrow> nat option \<Rightarrow> nat option \<Rightarrow> 'd kio \<Rightarrow> (int \<times> nat option \<times> nat option \<times> 'd kio) outcome" where
  "pipe_bad me f0 f1 s =
     bnd (case f0 of Some f \<Rightarrow> fileclose me f s | None \<Rightarrow> Ok s) (\<lambda>s1.
     bnd (case f1 of Some f \<Rightarrow> fileclose me f s1 | None \<Rightarrow> Ok s1) (\<lambda>s2. Ok (- 1, f0, f1, s2)))"

definition pipealloc :: "int \<Rightarrow> 'd kio \<Rightarrow> (int \<times> nat option \<times> nat option \<times> 'd kio) outcome" where
  "pipealloc me s =
     bnd (filealloc s) (\<lambda>(f0, s1).
     case f0 of
       None \<Rightarrow> pipe_bad me None None s1
     | Some a \<Rightarrow>
         bnd (filealloc s1) (\<lambda>(f1, s2).
         case f1 of
           None \<Rightarrow> pipe_bad me f0 None s2
         | Some b \<Rightarrow>
             bnd (kalloc (kpg s2)) (\<lambda>(p, m).
             let s3 = s2\<lparr>kpg := m\<rparr> in
             if p = 0 then pipe_bad me f0 f1 s3
             else let s4 = s3\<lparr>pipes := (pipes s3)(p := pipe_init (pipes s3 p))\<rparr>;
                      s5 = upd_file a (\<lambda>x. x\<lparr>ftyp := FD_PIPE, readable := 1, writable := 0, fpipe := p\<rparr>) s4;
                      s6 = upd_file b (\<lambda>x. x\<lparr>ftyp := FD_PIPE, readable := 0, writable := 1, fpipe := p\<rparr>) s5
               in Ok (0, f0, f1, s6))))"

end
