(* ===== verification/Dir.thy ===== *)
theory Dir
  imports File
begin

text \<open>
  Directories and path names (\<open>fs.c\<close>, the two upper layers) and \<open>itoa\<close>.  A C string is the list
  of its bytes before the terminating zero; a name in a directory entry is the list of its
  \<open>DIRSIZ\<close> bytes up to a zero, if there is one.
\<close>

type_synonym cstring = "u8 list"

definition SLASH :: u8 where "SLASH = 47"

definition ascii :: "string \<Rightarrow> cstring" where
  "ascii = map of_char"

subsection \<open>Names\<close>

text \<open>\<open>strncmp\<close> on strings as lists: the difference of the first bytes that differ.\<close>

fun lstrncmp :: "nat \<Rightarrow> cstring \<Rightarrow> cstring \<Rightarrow> int" where
  "lstrncmp 0 p q = 0"
| "lstrncmp (Suc n) [] [] = 0"
| "lstrncmp (Suc n) [] (y # q) = - uint y"
| "lstrncmp (Suc n) (x # p) [] = uint x"
| "lstrncmp (Suc n) (x # p) (y # q) = (if x = y then lstrncmp n p q else uint x - uint y)"

definition namecmp :: "cstring \<Rightarrow> cstring \<Rightarrow> int" where
  "namecmp s t = lstrncmp DIRSIZ s t"

text \<open>\<open>struct dirent\<close>: the inode number in two bytes, then the name.\<close>

definition de_inum :: "u8 list \<Rightarrow> u16" where
  "de_inum de = rd16 (\<lambda>i. de ! i) 0"

definition de_name :: "u8 list \<Rightarrow> cstring" where
  "de_name de = takeWhile (\<lambda>b. b \<noteq> 0) (take DIRSIZ (drop 2 de))"

definition mk_dirent :: "cstring \<Rightarrow> u32 \<Rightarrow> u8 list" where
  "mk_dirent name n = bytes_at (wr16 (\<lambda>_. 0) 0 (ucast n)) 0 2
     @ take DIRSIZ (name @ replicate DIRSIZ 0)"

definition DIRENT :: u32 where "DIRENT = 16"

subsection \<open>Directories\<close>

text \<open>The loops over the entries of a directory; \<open>k\<close> bounds the number of entries.\<close>

fun dirlookup_from :: "nat \<Rightarrow> 'd devsw list \<Rightarrow> int \<Rightarrow> nat \<Rightarrow> cstring \<Rightarrow> u32 \<Rightarrow> 'd fs \<Rightarrow> ((nat \<times> u32) option \<times> 'd fs) outcome" where
  "dirlookup_from 0 dv me dp name off s = Ok (None, s)"
| "dirlookup_from (Suc k) dv me dp name off s =
     (if off < isize (inodes s ! dp)
      then bnd (readi dv me dp off DIRENT s) (\<lambda>(r, de, s1).
        panic_if (r \<noteq> 16) ''dirlookup read''
        (if de_inum de = 0 then dirlookup_from k dv me dp name (off + DIRENT) s1
         else if namecmp name (de_name de) = 0
         then bnd (iget (idev (inodes s1 ! dp)) (ucast (de_inum de)) s1) (\<lambda>(ip, s2). Ok (Some (ip, off), s2))
         else dirlookup_from k dv me dp name (off + DIRENT) s1))
      else Ok (None, s))"

definition dirlookup :: "'d devsw list \<Rightarrow> int \<Rightarrow> nat \<Rightarrow> cstring \<Rightarrow> 'd fs \<Rightarrow> ((nat \<times> u32) option \<times> 'd fs) outcome" where
  "dirlookup dv me dp name s =
     panic_if (itype (inodes s ! dp) \<noteq> T_DIR) ''dirlookup not DIR''
     (dirlookup_from (Suc (unat (isize (inodes s ! dp)) div 16)) dv me dp name 0 s)"

fun dirlink_slot :: "nat \<Rightarrow> 'd devsw list \<Rightarrow> int \<Rightarrow> nat \<Rightarrow> u32 \<Rightarrow> 'd fs \<Rightarrow> (u32 \<times> 'd fs) outcome" where
  "dirlink_slot 0 dv me dp off s = Ok (off, s)"
| "dirlink_slot (Suc k) dv me dp off s =
     (if off < isize (inodes s ! dp)
      then bnd (readi dv me dp off DIRENT s) (\<lambda>(r, de, s1).
        panic_if (r \<noteq> 16) ''dirlink read''
        (if de_inum de = 0 then Ok (off, s1) else dirlink_slot k dv me dp (off + DIRENT) s1))
      else Ok (off, s))"

definition dirlink :: "'d devsw list \<Rightarrow> int \<Rightarrow> nat \<Rightarrow> cstring \<Rightarrow> u32 \<Rightarrow> 'd fs \<Rightarrow> (int \<times> 'd fs) outcome" where
  "dirlink dv me dp name n s =
     bnd (dirlookup dv me dp name s) (\<lambda>(r, s1).
     case r of
       Some (ip, off) \<Rightarrow> bnd (iput me ip s1) (\<lambda>s2. Ok (- 1, s2))
     | None \<Rightarrow>
         bnd (dirlink_slot (Suc (unat (isize (inodes s1 ! dp)) div 16)) dv me dp 0 s1) (\<lambda>(off, s2).
         bnd (writei dv me dp (mk_dirent name n) off DIRENT s2) (\<lambda>(w, s3).
         panic_if (w \<noteq> 16) ''dirlink'' (Ok (0, s3)))))"

subsection \<open>Paths\<close>

definition skipelem :: "cstring \<Rightarrow> (cstring \<times> cstring) option" where
  "skipelem path =
     (let p = dropWhile (\<lambda>c. c = SLASH) path in
      if p = [] then None
      else let s = takeWhile (\<lambda>c. c \<noteq> SLASH) p
        in Some (dropWhile (\<lambda>c. c = SLASH) (dropWhile (\<lambda>c. c \<noteq> SLASH) p),
                 if DIRSIZ \<le> length s then take DIRSIZ s else s))"

lemma skipelem_shorter: "skipelem path = Some (rest, name) \<Longrightarrow> length rest < length path"
proof -
  assume a: "skipelem path = Some (rest, name)"
  let ?p = "dropWhile (\<lambda>c. c = SLASH) path"
  have p: "?p \<noteq> []" "rest = dropWhile (\<lambda>c. c = SLASH) (dropWhile (\<lambda>c. c \<noteq> SLASH) ?p)"
    using a by (auto simp: skipelem_def Let_def split: if_splits)
  have "hd ?p \<noteq> SLASH" using p(1) by (rule hd_dropWhile)
  then have "length (dropWhile (\<lambda>c. c \<noteq> SLASH) ?p) < length ?p"
    using p(1) by (cases ?p) (auto simp: le_imp_less_Suc length_dropWhile_le)
  then show ?thesis
    using p(2) length_dropWhile_le [of "\<lambda>c. c = SLASH" "dropWhile (\<lambda>c. c \<noteq> SLASH) ?p"]
      length_dropWhile_le [of "\<lambda>c. c = SLASH" path] by simp
qed

text \<open>
  The walk of \<open>namex\<close>: each round takes one element off the path, so the length of the path
  bounds the number of rounds.  The result carries the name of the last element taken.
\<close>

fun namex_walk :: "nat \<Rightarrow> 'd devsw list \<Rightarrow> int \<Rightarrow> bool \<Rightarrow> nat \<Rightarrow> cstring \<Rightarrow> cstring \<Rightarrow> 'd fs \<Rightarrow> (nat option \<times> cstring \<times> 'd fs) outcome" where
  "namex_walk 0 dv me want ip path name s = Blocked"
| "namex_walk (Suc k) dv me want ip path name s =
     (case skipelem path of
        None \<Rightarrow> if want then bnd (iput me ip s) (\<lambda>s1. Ok (None, name, s1)) else Ok (Some ip, name, s)
      | Some (rest, name1) \<Rightarrow>
          bnd (ilock me ip s) (\<lambda>s1.
          if itype (inodes s1 ! ip) \<noteq> T_DIR
          then bnd (iunlockput me ip s1) (\<lambda>s2. Ok (None, name1, s2))
          else if want \<and> rest = []
          then bnd (iunlock me ip s1) (\<lambda>s2. Ok (Some ip, name1, s2))
          else bnd (dirlookup dv me ip name1 s1) (\<lambda>(r, s2).
            case r of
              None \<Rightarrow> bnd (iunlockput me ip s2) (\<lambda>s3. Ok (None, name1, s3))
            | Some (nxt, off) \<Rightarrow> bnd (iunlockput me ip s2) (namex_walk k dv me want nxt rest name1))))"

definition namex :: "'d devsw list \<Rightarrow> int \<Rightarrow> nat option \<Rightarrow> cstring \<Rightarrow> bool \<Rightarrow> 'd fs \<Rightarrow> (nat option \<times> cstring \<times> 'd fs) outcome" where
  "namex dv me cw path want s =
     (if path \<noteq> [] \<and> hd path = SLASH
      then bnd (iget ROOTDEV ROOTINO s) (\<lambda>(ip, s1). namex_walk (Suc (length path)) dv me want ip path [] s1)
      else bnd (idup cw s) (\<lambda>(ipo, s1).
        case ipo of None \<Rightarrow> Fault | Some ip \<Rightarrow> namex_walk (Suc (length path)) dv me want ip path [] s1))"

definition namei :: "'d devsw list \<Rightarrow> int \<Rightarrow> nat option \<Rightarrow> cstring \<Rightarrow> 'd fs \<Rightarrow> (nat option \<times> 'd fs) outcome" where
  "namei dv me cw path s = bnd (namex dv me cw path False s) (\<lambda>(r, name, s1). Ok (r, s1))"

definition nameiparent :: "'d devsw list \<Rightarrow> int \<Rightarrow> nat option \<Rightarrow> cstring \<Rightarrow> 'd fs \<Rightarrow> (nat option \<times> cstring \<times> 'd fs) outcome" where
  "nameiparent dv me cw path s = namex dv me cw path True s"

subsection \<open>Decimal numbers\<close>

definition digit :: "nat \<Rightarrow> u8" where
  "digit d = word_of_nat (48 + d)"

text \<open>
  The two loops of \<open>itoa\<close>: the first finds the width of the number, the second fills the
  digits in from the right.
\<close>

function itoa_width :: "nat \<Rightarrow> nat" where
  "itoa_width n = (if n div 10 = 0 then 1 else Suc (itoa_width (n div 10)))"
  by pat_completeness auto
termination by (relation "measure id") auto

declare itoa_width.simps [simp del]

function itoa_fill :: "nat \<Rightarrow> nat \<Rightarrow> u8 list \<Rightarrow> u8 list" where
  "itoa_fill p i b = (let b1 = b[p - 1 := digit (i mod 10)] in
     if i div 10 = 0 then b1 else itoa_fill (p - 1) (i div 10) b1)"
  by pat_completeness auto
termination by (relation "measure (\<lambda>(p, i, b). i)") auto

declare itoa_fill.simps [simp del]

definition itoa :: "int \<Rightarrow> cstring" where
  "itoa i = (let neg = i < 0; n = nat \<bar>i\<bar>; p = (if neg then 1 else 0); w = itoa_width n
     in itoa_fill (p + w) n ((if neg then [45] else []) @ replicate w 0))"

end
