(* ===== verification/Fsops.thy ===== *)
theory Fsops
  imports Dir
begin

text \<open>
  The bodies of the system calls on path names (\<open>sysfile.c\<close>): \<open>create\<close>, and what \<open>link\<close> and
  \<open>unlink\<close> do once their arguments are fetched.  \<open>cw\<close> is the current directory of the calling
  process and \<open>me\<close> its pid.  A label \<open>bad:\<close> of the source is the function its gotos call.
\<close>

definition O_RDONLY :: u32 where "O_RDONLY = 0x000"
definition O_WRONLY :: u32 where "O_WRONLY = 0x001"
definition O_RDWR :: u32 where "O_RDWR = 0x002"
definition O_CREATE :: u32 where "O_CREATE = 0x200"

definition DOT :: cstring where "DOT = [46]"
definition DOTDOT :: cstring where "DOTDOT = [46, 46]"

text \<open>The entries of a directory from offset \<open>off\<close> on; \<open>k\<close> bounds their number.\<close>

fun isdirempty_from :: "nat \<Rightarrow> 'd devsw list \<Rightarrow> int \<Rightarrow> nat \<Rightarrow> u32 \<Rightarrow> 'd fs \<Rightarrow> (bool \<times> 'd fs) outcome" where
  "isdirempty_from 0 dv me dp off s = Ok (True, s)"
| "isdirempty_from (Suc k) dv me dp off s =
     (if off < isize (inodes s ! dp)
      then bnd (readi dv me dp off DIRENT s) (\<lambda>(r, de, s1).
        panic_if (r \<noteq> 16) ''isdirempty: readi''
        (if de_inum de \<noteq> 0 then Ok (False, s1) else isdirempty_from k dv me dp (off + DIRENT) s1))
      else Ok (True, s))"

definition isdirempty :: "'d devsw list \<Rightarrow> int \<Rightarrow> nat \<Rightarrow> 'd fs \<Rightarrow> (bool \<times> 'd fs) outcome" where
  "isdirempty dv me dp s =
     isdirempty_from (Suc (unat (isize (inodes s ! dp)) div 16)) dv me dp (2 * DIRENT) s"

definition upd_nlink :: "(u16 \<Rightarrow> u16) \<Rightarrow> int \<Rightarrow> nat \<Rightarrow> 'd fs \<Rightarrow> 'd fs outcome" where
  "upd_nlink f me ip s = iupdate me ip (upd_inode ip (\<lambda>i. i\<lparr>nlink := f (nlink i)\<rparr>) s)"

definition create_dots :: "'d devsw list \<Rightarrow> int \<Rightarrow> nat \<Rightarrow> nat \<Rightarrow> 'd fs \<Rightarrow> 'd fs outcome" where
  "create_dots dv me ip dp s =
     bnd (dirlink dv me ip DOT (inum (inodes s ! ip)) s) (\<lambda>(r, s1).
     panic_if (r < 0) ''create dots''
     (bnd (dirlink dv me ip DOTDOT (inum (inodes s1 ! dp)) s1) (\<lambda>(r, s2).
      panic_if (r < 0) ''create dots'' (Ok s2))))"

definition create :: "'d devsw list \<Rightarrow> int \<Rightarrow> nat option \<Rightarrow> cstring \<Rightarrow> u16 \<Rightarrow> u16 \<Rightarrow> u16 \<Rightarrow> 'd fs \<Rightarrow> (nat option \<times> 'd fs) outcome" where
  "create dv me cw path typ maj mnr s =
     bnd (nameiparent dv me cw path s) (\<lambda>(dpo, name, s1).
     case dpo of
       None \<Rightarrow> Ok (None, s1)
     | Some dp \<Rightarrow>
         bnd (ilock me dp s1) (\<lambda>s2.
         bnd (dirlookup dv me dp name s2) (\<lambda>(r, s3).
         case r of
           Some (ip, off) \<Rightarrow>
             bnd (iunlockput me dp s3) (\<lambda>s4.
             bnd (ilock me ip s4) (\<lambda>s5.
             if typ = T_FILE \<and> itype (inodes s5 ! ip) = T_FILE then Ok (Some ip, s5)
             else bnd (iunlockput me ip s5) (\<lambda>s6. Ok (None, s6))))
         | None \<Rightarrow>
             bnd (ialloc me (idev (inodes s3 ! dp)) typ s3) (\<lambda>(ip, s4).
             bnd (ilock me ip s4) (\<lambda>s5.
             bnd (iupdate me ip (upd_inode ip (\<lambda>i. i\<lparr>major := maj, minor := mnr, nlink := 1\<rparr>) s5)) (\<lambda>s6.
             bnd (if typ = T_DIR
                  then bnd (upd_nlink (\<lambda>n. n + 1) me dp s6) (create_dots dv me ip dp)
                  else Ok s6) (\<lambda>s7.
             bnd (dirlink dv me dp name (inum (inodes s7 ! ip)) s7) (\<lambda>(r, s8).
             panic_if (r < 0) ''create: dirlink''
             (bnd (iunlockput me dp s8) (\<lambda>s9. Ok (Some ip, s9)))))))))))"

subsection \<open>\<open>link\<close>\<close>

definition end_with :: "int \<Rightarrow> 'r \<Rightarrow> 'd fs \<Rightarrow> ('r \<times> 'd fs) outcome" where
  "end_with me r s = bnd (fs_end_op me s) (\<lambda>t. Ok (r, t))"

definition link_bad :: "int \<Rightarrow> nat \<Rightarrow> 'd fs \<Rightarrow> (int \<times> 'd fs) outcome" where
  "link_bad me ip s =
     bnd (ilock me ip s) (\<lambda>s1.
     bnd (upd_nlink (\<lambda>n. n - 1) me ip s1) (\<lambda>s2.
     bnd (iunlockput me ip s2) (end_with me (- 1))))"

definition link_path :: "'d devsw list \<Rightarrow> int \<Rightarrow> nat option \<Rightarrow> cstring \<Rightarrow> cstring \<Rightarrow> 'd fs \<Rightarrow> (int \<times> 'd fs) outcome" where
  "link_path dv me cw old new s =
     bnd (fs_begin_op s) (\<lambda>s0.
     bnd (namei dv me cw old s0) (\<lambda>(ipo, s1).
     case ipo of
       None \<Rightarrow> end_with me (- 1) s1
     | Some ip \<Rightarrow>
         bnd (ilock me ip s1) (\<lambda>s2.
         if itype (inodes s2 ! ip) = T_DIR then bnd (iunlockput me ip s2) (end_with me (- 1))
         else
           bnd (upd_nlink (\<lambda>n. n + 1) me ip s2) (\<lambda>s3.
           bnd (iunlock me ip s3) (\<lambda>s4.
           bnd (nameiparent dv me cw new s4) (\<lambda>(dpo, name, s5).
           case dpo of
             None \<Rightarrow> link_bad me ip s5
           | Some dp \<Rightarrow>
               bnd (ilock me dp s5) (\<lambda>s6.
               bnd (if idev (inodes s6 ! dp) \<noteq> idev (inodes s6 ! ip) then Ok (- 1, s6)
                    else dirlink dv me dp name (inum (inodes s6 ! ip)) s6) (\<lambda>(r, s7).
               if r < 0 then bnd (iunlockput me dp s7) (link_bad me ip)
               else bnd (iunlockput me dp s7) (\<lambda>s8.
                    bnd (iput me ip s8) (end_with me 0))))))))))"

subsection \<open>\<open>unlink\<close>\<close>

definition unlink_bad :: "int \<Rightarrow> nat \<Rightarrow> 'd fs \<Rightarrow> (int \<times> 'd fs) outcome" where
  "unlink_bad me dp s = bnd (iunlockput me dp s) (end_with me (- 1))"

text \<open>From the cleared directory entry to the end of the call.\<close>

definition unlink_entry :: "'d devsw list \<Rightarrow> int \<Rightarrow> nat \<Rightarrow> nat \<Rightarrow> u32 \<Rightarrow> 'd fs \<Rightarrow> (int \<times> 'd fs) outcome" where
  "unlink_entry dv me dp ip off s =
     bnd (writei dv me dp (replicate 16 0) off DIRENT s) (\<lambda>(r, s1).
     panic_if (r \<noteq> 16) ''unlink: writei''
     (bnd (if itype (inodes s1 ! ip) = T_DIR then upd_nlink (\<lambda>n. n - 1) me dp s1 else Ok s1) (\<lambda>s2.
      bnd (iunlockput me dp s2) (\<lambda>s3.
      bnd (upd_nlink (\<lambda>n. n - 1) me ip s3) (\<lambda>s4.
      bnd (iunlockput me ip s4) (end_with me 0))))))"

definition unlink_path :: "'d devsw list \<Rightarrow> int \<Rightarrow> nat option \<Rightarrow> cstring \<Rightarrow> 'd fs \<Rightarrow> (int \<times> 'd fs) outcome" where
  "unlink_path dv me cw path s =
     bnd (fs_begin_op s) (\<lambda>s0.
     bnd (nameiparent dv me cw path s0) (\<lambda>(dpo, name, s1).
     case dpo of
       None \<Rightarrow> end_with me (- 1) s1
     | Some dp \<Rightarrow>
         bnd (ilock me dp s1) (\<lambda>s2.
         if namecmp name DOT = 0 \<or> namecmp name DOTDOT = 0 then unlink_bad me dp s2
         else bnd (dirlookup dv me dp name s2) (\<lambda>(r, s3).
         case r of
           None \<Rightarrow> unlink_bad me dp s3
         | Some (ip, off) \<Rightarrow>
             bnd (ilock me ip s3) (\<lambda>s4.
             panic_if (sint (nlink (inodes s4 ! ip)) < 1) ''unlink: nlink < 1''
             (bnd (if itype (inodes s4 ! ip) = T_DIR then isdirempty dv me ip s4 else Ok (True, s4)) (\<lambda>(e, s5).
              if \<not> e then bnd (iunlockput me ip s5) (unlink_bad me dp)
              else unlink_entry dv me dp ip off s5)))))))"

end
