(* ===== verification/Spinlock.thy ===== *)
theory Spinlock
  imports Ptypes Mmu
begin

text \<open>
  Spin-locks and interrupt nesting (\<open>spinlock.c\<close>, and \<open>mycpu\<close>, \<open>myproc\<close> of \<open>proc.c\<close>) on a
  machine of several CPUs.

  \<open>apic\<close> is the local APIC id of the executing CPU and \<open>iflag m apic\<close> its interrupt flag.  The
  theory shows that \<open>pushcli\<close>/\<open>popcli\<close> nest, that \<open>acquire\<close>/\<open>release\<close> refine the one-CPU
  locks of the prelude, and, on the step relation \<open>lk_step\<close> that interleaves the atomic steps
  of any number of CPUs, that the critical section is exclusive and no lock operation panics.
\<close>

record cpu =
  apicid :: nat
  ncli :: int
  intena :: bool
  cpuproc :: "nat option"

record machine =
  cpus :: "cpu list"
  iflag :: "nat \<Rightarrow> bool"

record spinlock =
  locked :: u32
  lname :: string
  lcpu :: "nat option"
  pcs :: "u32 list"

subsection \<open>Operations\<close>

definition initlock :: "string \<Rightarrow> spinlock \<Rightarrow> spinlock" where
  "initlock name lk = lk\<lparr>lname := name, locked := 0, lcpu := None\<rparr>"

fun find_cpu :: "nat \<Rightarrow> cpu list \<Rightarrow> nat \<Rightarrow> nat option" where
  "find_cpu apic [] i = None"
| "find_cpu apic (c # cs) i = (if apicid c = apic then Some i else find_cpu apic cs (Suc i))"

definition mycpu :: "nat \<Rightarrow> machine \<Rightarrow> nat outcome" where
  "mycpu apic m =
     panic_if (iflag m apic) ''mycpu called with interrupts enabled\<newline>''
      (case find_cpu apic (cpus m) 0 of None \<Rightarrow> Panic ''unknown apicid\<newline>'' | Some i \<Rightarrow> Ok i)"

definition cpuid :: "nat \<Rightarrow> machine \<Rightarrow> nat outcome" where
  "cpuid apic m = mycpu apic m"

definition set_iflag :: "nat \<Rightarrow> bool \<Rightarrow> machine \<Rightarrow> machine" where
  "set_iflag apic b m = m\<lparr>iflag := (iflag m)(apic := b)\<rparr>"

definition upd_cpu :: "nat \<Rightarrow> (cpu \<Rightarrow> cpu) \<Rightarrow> machine \<Rightarrow> machine" where
  "upd_cpu i f m = m\<lparr>cpus := (cpus m)[i := f (cpus m ! i)]\<rparr>"

definition pushcli :: "nat \<Rightarrow> machine \<Rightarrow> machine outcome" where
  "pushcli apic m =
     (let eflags = iflag m apic; m1 = set_iflag apic False m
      in bnd (mycpu apic m1) (\<lambda>i.
         let m2 = (if ncli (cpus m1 ! i) = 0 then upd_cpu i (\<lambda>c. c\<lparr>intena := eflags\<rparr>) m1 else m1)
         in Ok (upd_cpu i (\<lambda>c. c\<lparr>ncli := ncli c + 1\<rparr>) m2)))"

definition popcli :: "nat \<Rightarrow> machine \<Rightarrow> machine outcome" where
  "popcli apic m =
     panic_if (iflag m apic) ''popcli - interruptible''
      (bnd (mycpu apic m) (\<lambda>i.
         let m1 = upd_cpu i (\<lambda>c. c\<lparr>ncli := ncli c - 1\<rparr>) m
         in panic_if (ncli (cpus m1 ! i) < 0) ''popcli''
             (Ok (if ncli (cpus m1 ! i) = 0 \<and> intena (cpus m1 ! i) then set_iflag apic True m1 else m1))))"

definition myproc :: "nat \<Rightarrow> machine \<Rightarrow> (nat option \<times> machine) outcome" where
  "myproc apic m =
     bnd (pushcli apic m) (\<lambda>m1. bnd (mycpu apic m1) (\<lambda>i.
       bnd (popcli apic m1) (\<lambda>m2. Ok (cpuproc (cpus m1 ! i), m2))))"

definition holding :: "nat \<Rightarrow> spinlock \<Rightarrow> machine \<Rightarrow> (bool \<times> machine) outcome" where
  "holding apic lk m =
     bnd (pushcli apic m) (\<lambda>m1. bnd (mycpu apic m1) (\<lambda>i.
       bnd (popcli apic m1) (\<lambda>m2. Ok (locked lk \<noteq> 0 \<and> lcpu lk = Some i, m2))))"

definition xchg :: "u32 \<Rightarrow> u32 \<Rightarrow> u32 \<times> u32" where
  "xchg old newval = (old, newval)"

text \<open>
  \<open>getcallerpcs\<close> follows the chain of saved frame pointers in the kernel's memory, at most ten
  frames; \<open>v\<close> is the address of the caller's first argument.
\<close>

fun callerpcs_from :: "bytes \<Rightarrow> u32 \<Rightarrow> nat \<Rightarrow> u32 list" where
  "callerpcs_from mm ebp 0 = []"
| "callerpcs_from mm ebp (Suc n) =
     (if ebp = 0 \<or> ebp < KERNBASE \<or> ebp = 0xffffffff then replicate (Suc n) 0
      else rd32 mm (unat (ebp + 4)) # callerpcs_from mm (rd32 mm (unat ebp)) n)"

definition getcallerpcs :: "bytes \<Rightarrow> u32 \<Rightarrow> u32 list" where
  "getcallerpcs mm v = callerpcs_from mm (v - 8) 10"

definition acquire :: "nat \<Rightarrow> bytes \<Rightarrow> u32 \<Rightarrow> spinlock \<Rightarrow> machine \<Rightarrow> (spinlock \<times> machine) outcome" where
  "acquire apic mm v lk m =
     bnd (pushcli apic m) (\<lambda>m1.
       bnd (holding apic lk m1) (\<lambda>(h, m2).
         panic_if h ''acquire''
          (let (old, new) = xchg (locked lk) 1
           in if old \<noteq> 0 then Blocked
              else bnd (mycpu apic m2) (\<lambda>i.
                Ok (lk\<lparr>locked := new, lcpu := Some i, pcs := getcallerpcs mm v\<rparr>, m2)))))"

definition release :: "nat \<Rightarrow> spinlock \<Rightarrow> machine \<Rightarrow> (spinlock \<times> machine) outcome" where
  "release apic lk m =
     bnd (holding apic lk m) (\<lambda>(h, m1).
       panic_if (\<not> h) ''release''
        (bnd (popcli apic m1) (\<lambda>m2. Ok (lk\<lparr>pcs := (pcs lk)[0 := 0], lcpu := None, locked := 0\<rparr>, m2))))"

subsection \<open>Interrupt nesting\<close>

definition cpu_at :: "nat \<Rightarrow> machine \<Rightarrow> nat \<Rightarrow> bool" where
  "cpu_at apic m i \<longleftrightarrow> find_cpu apic (cpus m) 0 = Some i"

definition nest_ok :: "nat \<Rightarrow> machine \<Rightarrow> nat \<Rightarrow> bool" where
  "nest_ok apic m i \<longleftrightarrow> cpu_at apic m i \<and> 0 \<le> ncli (cpus m ! i) \<and> (iflag m apic \<longrightarrow> ncli (cpus m ! i) = 0)"

lemma find_cpu_bounds:
  "find_cpu apic cl k = Some i \<Longrightarrow> k \<le> i \<and> i < k + length cl \<and> apicid (cl ! (i - k)) = apic"
proof (induction cl arbitrary: k)
  case (Cons c cl)
  show ?case
  proof (cases "apicid c = apic")
    case False
    with Cons.prems have "find_cpu apic cl (Suc k) = Some i" by simp
    from Cons.IH [OF this] show ?thesis by (auto simp: nth_Cons')
  qed (use Cons.prems in auto)
qed simp

lemma find_cpu_cong: "map apicid cl = map apicid dl \<Longrightarrow> find_cpu apic cl k = find_cpu apic dl k"
proof (induction cl arbitrary: dl k)
  case (Cons c cl)
  then show ?case by (cases dl) auto
qed simp

lemma cpu_at_bound [dest]: "cpu_at apic m i \<Longrightarrow> i < length (cpus m) \<and> apicid (cpus m ! i) = apic"
  using find_cpu_bounds [of apic "cpus m" 0 i] by (simp add: cpu_at_def)

lemma cpu_at_iflag [simp]: "cpu_at apic (set_iflag b v m) i = cpu_at apic m i"
  by (simp add: cpu_at_def set_iflag_def)

lemma cpu_at_upd [simp]:
  assumes "\<And>c. apicid (f c) = apicid c"
  shows "cpu_at apic (upd_cpu k f m) i = cpu_at apic m i"
proof -
  have "map apicid (cpus (upd_cpu k f m)) = map apicid (cpus m)"
    using assms by (simp add: upd_cpu_def map_update list_update_same_conv del: list_update_id)
      (metis length_map list_update_beyond list_update_id map_update not_le nth_map)
  then show ?thesis by (simp add: cpu_at_def find_cpu_cong [of "cpus (upd_cpu k f m)" "cpus m"])
qed

lemma mycpu_at [simp]: "cpu_at apic m i \<Longrightarrow> \<not> iflag m apic \<Longrightarrow> mycpu apic m = Ok i"
  by (simp add: mycpu_def cpu_at_def)

lemma machine_upd_simps [simp]:
  "iflag (upd_cpu i f m) = iflag m"
  "cpus (set_iflag a b m) = cpus m"
  "iflag (set_iflag a b m) = (iflag m)(a := b)"
  "length (cpus (upd_cpu i f m)) = length (cpus m)"
  "i < length (cpus m) \<Longrightarrow> cpus (upd_cpu i f m) ! i = f (cpus m ! i)"
  "i \<noteq> k \<Longrightarrow> cpus (upd_cpu i f m) ! k = cpus m ! k"
  by (simp_all add: upd_cpu_def set_iflag_def)

text \<open>What one \<open>pushcli\<close> and one \<open>popcli\<close> do to the machine.\<close>

definition pushed :: "nat \<Rightarrow> nat \<Rightarrow> machine \<Rightarrow> machine" where
  "pushed apic i m = upd_cpu i (\<lambda>c. c\<lparr>
     intena := (if ncli c = 0 then iflag m apic else intena c), ncli := ncli c + 1\<rparr>) (set_iflag apic False m)"

definition popped :: "nat \<Rightarrow> nat \<Rightarrow> machine \<Rightarrow> machine" where
  "popped apic i m =
     (let m1 = upd_cpu i (\<lambda>c. c\<lparr>ncli := ncli c - 1\<rparr>) m
      in if ncli (cpus m ! i) = 1 \<and> intena (cpus m ! i) then set_iflag apic True m1 else m1)"

lemma pushcli_eq:
  assumes "cpu_at apic m i"
  shows "pushcli apic m = Ok (pushed apic i m)"
proof -
  have "i < length (cpus m)" using assms by auto
  with assms show ?thesis
    by (simp add: pushcli_def pushed_def Let_def upd_cpu_def set_iflag_def cpu_at_def mycpu_def)
qed

lemma popcli_eq:
  assumes "cpu_at apic m i" "\<not> iflag m apic" "0 < ncli (cpus m ! i)"
  shows "popcli apic m = Ok (popped apic i m)"
proof -
  have "i < length (cpus m)" using assms by auto
  with assms show ?thesis
    by (auto simp: popcli_def popped_def Let_def)
qed

lemma pushed_facts:
  assumes "nest_ok apic m i"
  shows "nest_ok apic (pushed apic i m) i" "\<not> iflag (pushed apic i m) apic"
    "ncli (cpus (pushed apic i m) ! i) = ncli (cpus m ! i) + 1"
    "k \<noteq> i \<Longrightarrow> cpus (pushed apic i m) ! k = cpus m ! k"
    "b \<noteq> apic \<Longrightarrow> iflag (pushed apic i m) b = iflag m b"
    "cpu_at b (pushed apic i m) j = cpu_at b m j"
proof -
  have "i < length (cpus m)" using assms by (auto simp: nest_ok_def)
  then show "nest_ok apic (pushed apic i m) i" "\<not> iflag (pushed apic i m) apic"
    "ncli (cpus (pushed apic i m) ! i) = ncli (cpus m ! i) + 1"
    "k \<noteq> i \<Longrightarrow> cpus (pushed apic i m) ! k = cpus m ! k"
    "b \<noteq> apic \<Longrightarrow> iflag (pushed apic i m) b = iflag m b"
    "cpu_at b (pushed apic i m) j = cpu_at b m j"
    using assms by (auto simp: pushed_def nest_ok_def)
qed

lemma popped_pushed:
  assumes "nest_ok apic m i"
  shows "ncli (cpus (popped apic i (pushed apic i m)) ! i) = ncli (cpus m ! i)"
    "iflag (popped apic i (pushed apic i m)) = iflag m"
    "cpu_at b (popped apic i (pushed apic i m)) j = cpu_at b m j"
    "k \<noteq> i \<Longrightarrow> cpus (popped apic i (pushed apic i m)) ! k = cpus m ! k"
    "cpuproc (cpus (popped apic i (pushed apic i m)) ! i) = cpuproc (cpus m ! i)"
    "nest_ok apic (popped apic i (pushed apic i m)) i"
proof -
  have "i < length (cpus m)" using assms by (auto simp: nest_ok_def)
  then show "ncli (cpus (popped apic i (pushed apic i m)) ! i) = ncli (cpus m ! i)"
    "iflag (popped apic i (pushed apic i m)) = iflag m"
    "cpu_at b (popped apic i (pushed apic i m)) j = cpu_at b m j"
    "k \<noteq> i \<Longrightarrow> cpus (popped apic i (pushed apic i m)) ! k = cpus m ! k"
    "cpuproc (cpus (popped apic i (pushed apic i m)) ! i) = cpuproc (cpus m ! i)"
    "nest_ok apic (popped apic i (pushed apic i m)) i"
    using assms by (auto simp: pushed_def popped_def nest_ok_def Let_def fun_eq_iff)
qed

fun iterate :: "nat \<Rightarrow> ('s \<Rightarrow> 's outcome) \<Rightarrow> 's \<Rightarrow> 's outcome" where
  "iterate 0 f s = Ok s"
| "iterate (Suc n) f s = bnd (f s) (iterate n f)"

text \<open>The machines \<open>m\<close> and \<open>t\<close> differ at most in what CPU \<open>i\<close>, with APIC id \<open>apic\<close>, owns.\<close>

definition only_cpu :: "nat \<Rightarrow> nat \<Rightarrow> machine \<Rightarrow> machine \<Rightarrow> bool" where
  "only_cpu apic i m t \<longleftrightarrow> (\<forall>k. k \<noteq> i \<longrightarrow> cpus t ! k = cpus m ! k)
     \<and> (\<forall>b. b \<noteq> apic \<longrightarrow> iflag t b = iflag m b) \<and> (\<forall>b j. cpu_at b t j = cpu_at b m j)"

lemma only_cpu_refl [simp]: "only_cpu apic i m m"
  by (simp add: only_cpu_def)

lemma only_cpu_trans: "only_cpu apic i m t \<Longrightarrow> only_cpu apic i t u \<Longrightarrow> only_cpu apic i m u"
  by (simp add: only_cpu_def)

lemma only_cpu_pushed: "nest_ok apic m i \<Longrightarrow> only_cpu apic i m (pushed apic i m)"
  by (simp add: only_cpu_def pushed_facts)

lemma only_cpu_popped: "only_cpu apic i m (popped apic i m)"
  by (auto simp: only_cpu_def popped_def Let_def)

lemma popped_facts:
  assumes "nest_ok apic m i" "\<not> iflag m apic" "0 < ncli (cpus m ! i)"
  shows "nest_ok apic (popped apic i m) i" "ncli (cpus (popped apic i m) ! i) = ncli (cpus m ! i) - 1"
    "iflag (popped apic i m) apic = (ncli (cpus m ! i) = 1 \<and> intena (cpus m ! i))"
    "intena (cpus (popped apic i m) ! i) = intena (cpus m ! i)"
    "cpuproc (cpus (popped apic i m) ! i) = cpuproc (cpus m ! i)"
proof -
  have "i < length (cpus m)" using assms by (auto simp: nest_ok_def)
  then show "nest_ok apic (popped apic i m) i" "ncli (cpus (popped apic i m) ! i) = ncli (cpus m ! i) - 1"
    "iflag (popped apic i m) apic = (ncli (cpus m ! i) = 1 \<and> intena (cpus m ! i))"
    "intena (cpus (popped apic i m) ! i) = intena (cpus m ! i)"
    "cpuproc (cpus (popped apic i m) ! i) = cpuproc (cpus m ! i)"
    using assms by (auto simp: popped_def nest_ok_def Let_def)
qed

lemma pushcli_iterate:
  "nest_ok apic m i \<Longrightarrow> \<exists>t. iterate n (pushcli apic) m = Ok t \<and> nest_ok apic t i \<and> only_cpu apic i m t
    \<and> ncli (cpus t ! i) = ncli (cpus m ! i) + int n
    \<and> (if n = 0 then t = m else \<not> iflag t apic
        \<and> intena (cpus t ! i) = (if ncli (cpus m ! i) = 0 then iflag m apic else intena (cpus m ! i)))"
proof (induction n arbitrary: m)
  case (Suc n)
  let ?p = "pushed apic i m"
  have i: "i < length (cpus m)" and at: "cpu_at apic m i" and nn: "0 \<le> ncli (cpus m ! i)"
    using Suc.prems by (auto simp: nest_ok_def)
  have int: "intena (cpus ?p ! i) = (if ncli (cpus m ! i) = 0 then iflag m apic else intena (cpus m ! i))"
    using i by (simp add: pushed_def)
  from Suc.IH [OF pushed_facts(1) [OF Suc.prems]] obtain t where
    t: "iterate n (pushcli apic) ?p = Ok t" "nest_ok apic t i" "only_cpu apic i ?p t"
      "ncli (cpus t ! i) = ncli (cpus ?p ! i) + int n"
      "if n = 0 then t = ?p else \<not> iflag t apic
        \<and> intena (cpus t ! i) = (if ncli (cpus ?p ! i) = 0 then iflag ?p apic else intena (cpus ?p ! i))"
    by blast
  have "ncli (cpus ?p ! i) = ncli (cpus m ! i) + 1" "\<not> iflag ?p apic"
    using pushed_facts [OF Suc.prems] by simp_all
  with t int nn show ?case
    using only_cpu_trans [OF only_cpu_pushed [OF Suc.prems] t(3)]
    by (auto simp: pushcli_eq [OF at] split: if_splits)
qed simp

lemma popcli_iterate:
  "nest_ok apic t i \<Longrightarrow> \<not> iflag t apic \<Longrightarrow> int n \<le> ncli (cpus t ! i) \<Longrightarrow>
   \<exists>u. iterate n (popcli apic) t = Ok u \<and> nest_ok apic u i \<and> only_cpu apic i t u
    \<and> ncli (cpus u ! i) = ncli (cpus t ! i) - int n
    \<and> iflag u apic = (n \<noteq> 0 \<and> ncli (cpus t ! i) = int n \<and> intena (cpus t ! i))"
proof (induction n arbitrary: t)
  case (Suc n)
  let ?p = "popped apic i t"
  have pos: "0 < ncli (cpus t ! i)" and at: "cpu_at apic t i"
    using Suc.prems by (auto simp: nest_ok_def)
  note pf = popped_facts [OF Suc.prems(1,2) pos]
  have step: "popcli apic t = Ok ?p"
    using Suc.prems pos at by (simp add: popcli_eq)
  show ?case
  proof (cases "iflag ?p apic")
    case True
    then have "n = 0" using pf Suc.prems by auto
    then show ?thesis using step pf only_cpu_popped [of apic i t] by auto
  next
    case False
    have "int n \<le> ncli (cpus ?p ! i)" using Suc.prems(3) pf(2) by simp
    from Suc.IH [OF pf(1) False this] obtain u where
      "iterate n (popcli apic) ?p = Ok u" "nest_ok apic u i" "only_cpu apic i ?p u"
      "ncli (cpus u ! i) = ncli (cpus ?p ! i) - int n"
      "iflag u apic = (n \<noteq> 0 \<and> ncli (cpus ?p ! i) = int n \<and> intena (cpus ?p ! i))" by blast
    with False pf step only_cpu_popped [of apic i t] show ?thesis
      by (auto intro: only_cpu_trans)
  qed
qed simp

text \<open>
  Interrupt nesting: after one or more \<open>pushcli\<close> calls the CPU's interrupts are off, and
  after the same number of \<open>popcli\<close> calls, none of which panics, its interrupt flag and nesting
  depth are what they were, whatever the depth at the start; no other CPU is affected.
\<close>

theorem pushcli_popcli_nest:
  assumes "nest_ok apic m i"
  shows "\<exists>t u. iterate (Suc n) (pushcli apic) m = Ok t \<and> \<not> iflag t apic
    \<and> ncli (cpus t ! i) = ncli (cpus m ! i) + int (Suc n)
    \<and> iterate (Suc n) (popcli apic) t = Ok u \<and> iflag u apic = iflag m apic
    \<and> ncli (cpus u ! i) = ncli (cpus m ! i) \<and> only_cpu apic i m u"
proof -
  from pushcli_iterate [OF assms, of "Suc n"] obtain t where
    t: "iterate (Suc n) (pushcli apic) m = Ok t" "nest_ok apic t i" "only_cpu apic i m t"
      "ncli (cpus t ! i) = ncli (cpus m ! i) + int (Suc n)" "\<not> iflag t apic"
      "intena (cpus t ! i) = (if ncli (cpus m ! i) = 0 then iflag m apic else intena (cpus m ! i))"
    by auto
  have nn: "0 \<le> ncli (cpus m ! i)" "iflag m apic \<longrightarrow> ncli (cpus m ! i) = 0"
    using assms by (simp_all add: nest_ok_def)
  then have "int (Suc n) \<le> ncli (cpus t ! i)" using t(4) by simp
  from popcli_iterate [OF t(2,5) this] obtain u where
    u: "iterate (Suc n) (popcli apic) t = Ok u" "only_cpu apic i t u"
      "ncli (cpus u ! i) = ncli (cpus t ! i) - int (Suc n)"
      "iflag u apic = (ncli (cpus t ! i) = int (Suc n) \<and> intena (cpus t ! i))" by auto
  have "iflag u apic = iflag m apic"
    using u(4) t(4,6) nn by auto
  then show ?thesis
    using t u only_cpu_trans [OF t(3) u(2)] by auto
qed

definition two_cpus :: machine where
  "two_cpus = \<lparr>cpus = [\<lparr>apicid = 0, ncli = 0, intena = False, cpuproc = None\<rparr>,
       \<lparr>apicid = 4, ncli = 0, intena = False, cpuproc = Some 7\<rparr>],
     iflag = \<lambda>_. True\<rparr>"

lemma two_cpus_ok: "nest_ok 4 two_cpus 1" "nest_ok 0 two_cpus 0"
  by (simp_all add: nest_ok_def cpu_at_def two_cpus_def)

theorem pushcli_popcli_nest_witness:
  "\<exists>t u. iterate 3 (pushcli 4) two_cpus = Ok t \<and> \<not> iflag t 4
    \<and> iterate 3 (popcli 4) t = Ok u \<and> iflag u 4 = iflag two_cpus 4"
  using pushcli_popcli_nest [OF two_cpus_ok(1), of 2] by (auto simp: eval_nat_numeral)

subsection \<open>Acquire and release on one CPU\<close>

lemma popped_pushed_same:
  assumes "nest_ok apic m i" "0 < ncli (cpus m ! i)"
  shows "popped apic i (pushed apic i m) = m"
proof -
  have "i < length (cpus m)" "\<not> iflag m apic"
    using assms by (auto simp: nest_ok_def)
  then show ?thesis
    using assms(2) by (simp add: pushed_def popped_def upd_cpu_def set_iflag_def Let_def fun_upd_idem)
qed

lemma holding_eq:
  assumes "nest_ok apic m i"
  shows "holding apic lk m = Ok (locked lk \<noteq> 0 \<and> lcpu lk = Some i, popped apic i (pushed apic i m))"
proof -
  have "cpu_at apic m i" "0 \<le> ncli (cpus m ! i)" using assms by (auto simp: nest_ok_def)
  then show ?thesis
    using pushed_facts [OF assms] by (simp add: holding_def pushcli_eq popcli_eq)
qed

lemma acquire_eq:
  assumes "nest_ok apic m i"
  shows "acquire apic mm v lk m =
    (if locked lk \<noteq> 0 then if lcpu lk = Some i then Panic ''acquire'' else Blocked
     else Ok (lk\<lparr>locked := 1, lcpu := Some i, pcs := getcallerpcs mm v\<rparr>, pushed apic i m))"
proof -
  have at: "cpu_at apic m i" using assms by (auto simp: nest_ok_def)
  note p = pushed_facts [OF assms]
  have "popped apic i (pushed apic i (pushed apic i m)) = pushed apic i m"
    using assms by (intro popped_pushed_same p) (auto simp: p nest_ok_def)
  then show ?thesis
    using p at by (simp add: acquire_def pushcli_eq holding_eq [OF p(1)] xchg_def panic_if_def)
qed

lemma release_eq:
  assumes "nest_ok apic m i" "0 < ncli (cpus m ! i)"
  shows "release apic lk m =
    (if locked lk \<noteq> 0 \<and> lcpu lk = Some i
     then Ok (lk\<lparr>pcs := (pcs lk)[0 := 0], lcpu := None, locked := 0\<rparr>, popped apic i m)
     else Panic ''release'')"
proof -
  have "cpu_at apic m i" "\<not> iflag m apic" using assms by (auto simp: nest_ok_def)
  then show ?thesis
    using assms by (simp add: release_def holding_eq popped_pushed_same popcli_eq panic_if_def)
qed

text \<open>
  Seen from one CPU, the locks are the flags the other theories use.  Let \<open>h\<close> be whether
  this CPU holds the lock, and let no other CPU hold it; then \<open>acquire\<close> and \<open>release\<close> return,
  panic and leave the lock held or free exactly as \<open>lk_acquire h\<close> and \<open>lk_release h\<close> do, with
  the same panic messages.
\<close>

theorem spinlock_refines_flag:
  assumes "nest_ok apic m i" "h = (lcpu lk = Some i)" "locked lk \<noteq> 0 \<longleftrightarrow> h"
    "h \<longrightarrow> 0 < ncli (cpus m ! i)"
  shows "bnd (acquire apic mm v lk m) (\<lambda>(lk', m'). Ok (locked lk' \<noteq> 0 \<and> lcpu lk' = Some i \<and> \<not> iflag m' apic))
      = lk_acquire h
    \<and> bnd (release apic lk m) (\<lambda>(lk', m'). Ok (locked lk' \<noteq> 0 \<or> lcpu lk' = Some i))
      = lk_release h" (is "?acq \<and> ?rel")
proof
  show ?acq using assms pushed_facts(2) [OF assms(1)] by (cases h) (auto simp: acquire_eq)
  show ?rel
  proof (cases h)
    case True
    then show ?thesis using assms by (auto simp: release_eq)
  next
    case False
    then show ?thesis using assms by (auto simp: release_def holding_eq [OF assms(1)])
  qed
qed

definition free_lock :: spinlock where
  "free_lock = \<lparr>locked = 0, lname = ''demo'', lcpu = None, pcs = replicate 10 0\<rparr>"

theorem spinlock_refines_flag_witness:
  "bnd (acquire 4 (\<lambda>_. 0) 16 free_lock two_cpus)
     (\<lambda>(lk', m'). Ok (locked lk' \<noteq> 0 \<and> lcpu lk' = Some 1 \<and> \<not> iflag m' 4)) = Ok True"
  using spinlock_refines_flag [OF two_cpus_ok(1), of False free_lock "\<lambda>_. 0" 16]
  by (simp add: free_lock_def)

subsection \<open>Many CPUs\<close>

text \<open>The atomic steps of \<open>acquire\<close> and \<open>release\<close>, in program order.\<close>

definition acq_enter :: "nat \<Rightarrow> spinlock \<Rightarrow> machine \<Rightarrow> machine outcome" where
  "acq_enter apic lk m =
     bnd (pushcli apic m) (\<lambda>m1. bnd (holding apic lk m1) (\<lambda>(h, m2). panic_if h ''acquire'' (Ok m2)))"

definition acq_try :: "spinlock \<Rightarrow> bool \<times> spinlock" where
  "acq_try lk = (let (old, new) = xchg (locked lk) 1 in (old = 0, lk\<lparr>locked := new\<rparr>))"

definition acq_own :: "nat \<Rightarrow> bytes \<Rightarrow> u32 \<Rightarrow> spinlock \<Rightarrow> machine \<Rightarrow> spinlock outcome" where
  "acq_own apic mm v lk m = bnd (mycpu apic m) (\<lambda>i. Ok (lk\<lparr>lcpu := Some i, pcs := getcallerpcs mm v\<rparr>))"

definition rel_clear :: "nat \<Rightarrow> spinlock \<Rightarrow> machine \<Rightarrow> (spinlock \<times> machine) outcome" where
  "rel_clear apic lk m = bnd (holding apic lk m) (\<lambda>(h, m1).
     panic_if (\<not> h) ''release'' (Ok (lk\<lparr>pcs := (pcs lk)[0 := 0], lcpu := None\<rparr>, m1)))"

definition rel_store :: "spinlock \<Rightarrow> spinlock" where
  "rel_store lk = lk\<lparr>locked := 0\<rparr>"

lemma acquire_split:
  "acquire apic mm v lk m = bnd (acq_enter apic lk m) (\<lambda>m1. case acq_try lk of
     (got, lk1) \<Rightarrow> if got then bnd (acq_own apic mm v lk1 m1) (\<lambda>lk2. Ok (lk2, m1)) else Blocked)"
  unfolding acquire_def acq_enter_def bnd_assoc
  by (intro bnd_cong refl)
    (auto simp: acq_try_def acq_own_def xchg_def Let_def bnd_assoc panic_if_def split: prod.splits)

lemma release_split:
  "release apic lk m = bnd (rel_clear apic lk m) (\<lambda>(lk1, m1).
     bnd (popcli apic m1) (\<lambda>m2. Ok (rel_store lk1, m2)))"
  unfolding release_def rel_clear_def bnd_assoc
  by (rule bnd_cong [OF refl]) (auto simp: rel_store_def panic_if_def split: prod.splits)

datatype phase = Outside | Spinning | Owning | Inside | Leaving | Popping | Crashed

record lkworld =
  wlock :: spinlock
  wmach :: machine
  phase_of :: "nat \<Rightarrow> phase"

definition goto :: "nat \<Rightarrow> phase \<Rightarrow> lkworld \<Rightarrow> lkworld" where
  "goto a p w = w\<lparr>phase_of := (phase_of w)(a := p)\<rparr>"

inductive lk_step :: "lkworld \<Rightarrow> lkworld \<Rightarrow> bool" where
  enter: "cpu_at a (wmach w) i \<Longrightarrow> phase_of w a = Outside \<Longrightarrow> acq_enter a (wlock w) (wmach w) = Ok m \<Longrightarrow>
    lk_step w (goto a Spinning (w\<lparr>wmach := m\<rparr>))"
| enter_panic: "cpu_at a (wmach w) i \<Longrightarrow> phase_of w a = Outside \<Longrightarrow> acq_enter a (wlock w) (wmach w) = Panic msg \<Longrightarrow>
    lk_step w (goto a Crashed w)"
| spin: "cpu_at a (wmach w) i \<Longrightarrow> phase_of w a = Spinning \<Longrightarrow> acq_try (wlock w) = (got, l) \<Longrightarrow>
    lk_step w (goto a (if got then Owning else Spinning) (w\<lparr>wlock := l\<rparr>))"
| own: "cpu_at a (wmach w) i \<Longrightarrow> phase_of w a = Owning \<Longrightarrow> acq_own a mm v (wlock w) (wmach w) = Ok l \<Longrightarrow>
    lk_step w (goto a Inside (w\<lparr>wlock := l\<rparr>))"
| own_panic: "cpu_at a (wmach w) i \<Longrightarrow> phase_of w a = Owning \<Longrightarrow> acq_own a mm v (wlock w) (wmach w) = Panic msg \<Longrightarrow>
    lk_step w (goto a Crashed w)"
| leave: "cpu_at a (wmach w) i \<Longrightarrow> phase_of w a = Inside \<Longrightarrow> rel_clear a (wlock w) (wmach w) = Ok (l, m) \<Longrightarrow>
    lk_step w (goto a Leaving (w\<lparr>wlock := l, wmach := m\<rparr>))"
| leave_panic: "cpu_at a (wmach w) i \<Longrightarrow> phase_of w a = Inside \<Longrightarrow> rel_clear a (wlock w) (wmach w) = Panic msg \<Longrightarrow>
    lk_step w (goto a Crashed w)"
| store: "cpu_at a (wmach w) i \<Longrightarrow> phase_of w a = Leaving \<Longrightarrow>
    lk_step w (goto a Popping (w\<lparr>wlock := rel_store (wlock w)\<rparr>))"
| pop: "cpu_at a (wmach w) i \<Longrightarrow> phase_of w a = Popping \<Longrightarrow> popcli a (wmach w) = Ok m \<Longrightarrow>
    lk_step w (goto a Outside (w\<lparr>wmach := m\<rparr>))"
| pop_panic: "cpu_at a (wmach w) i \<Longrightarrow> phase_of w a = Popping \<Longrightarrow> popcli a (wmach w) = Panic msg \<Longrightarrow>
    lk_step w (goto a Crashed w)"

definition has_lock :: "lkworld \<Rightarrow> nat \<Rightarrow> bool" where
  "has_lock w a \<longleftrightarrow> phase_of w a \<in> {Owning, Inside, Leaving}"

definition lk_start :: "lkworld \<Rightarrow> bool" where
  "lk_start w \<longleftrightarrow> locked (wlock w) = 0 \<and> lcpu (wlock w) = None \<and> (\<forall>a. phase_of w a = Outside)
     \<and> (\<forall>a i. cpu_at a (wmach w) i \<longrightarrow> nest_ok a (wmach w) i)"

definition mach_inv :: "machine \<Rightarrow> (nat \<Rightarrow> phase) \<Rightarrow> bool" where
  "mach_inv m ph \<longleftrightarrow> (\<forall>a i. cpu_at a m i \<longrightarrow>
     nest_ok a m i \<and> (ph a \<noteq> Outside \<longrightarrow> 0 < ncli (cpus m ! i)))"

definition lk_inv :: "lkworld \<Rightarrow> bool" where
  "lk_inv w \<longleftrightarrow> mach_inv (wmach w) (phase_of w)
     \<and> (\<forall>a. phase_of w a \<noteq> Crashed)
     \<and> (\<forall>a. has_lock w a \<longrightarrow> (\<exists>i. cpu_at a (wmach w) i))
     \<and> (locked (wlock w) \<noteq> 0 \<longleftrightarrow> (\<exists>a. has_lock w a))
     \<and> (\<forall>a b. has_lock w a \<longrightarrow> has_lock w b \<longrightarrow> a = b)
     \<and> (\<forall>i. lcpu (wlock w) = Some i \<longleftrightarrow> (\<exists>a. phase_of w a = Inside \<and> cpu_at a (wmach w) i))"

lemma cpu_at_fun: "cpu_at a m i \<Longrightarrow> cpu_at a m j \<Longrightarrow> i = j"
  by (simp add: cpu_at_def)

lemma cpu_at_inj: "cpu_at a m i \<Longrightarrow> cpu_at b m i \<Longrightarrow> a = b"
  by auto

lemma mach_inv_step:
  assumes "mach_inv m ph" "cpu_at a m i" "only_cpu a i m m'" "nest_ok a m' i"
    "p \<noteq> Outside \<longrightarrow> 0 < ncli (cpus m' ! i)"
  shows "mach_inv m' (ph(a := p))"
  unfolding mach_inv_def
proof (intro allI impI)
  fix b j assume "cpu_at b m' j"
  then have bj: "cpu_at b m j" using assms(3) by (simp add: only_cpu_def)
  show "nest_ok b m' j \<and> ((ph(a := p)) b \<noteq> Outside \<longrightarrow> 0 < ncli (cpus m' ! j))"
  proof (cases "b = a")
    case True
    then have "j = i" using bj cpu_at_fun [OF assms(2)] by auto
    then show ?thesis using assms(4,5) True by simp
  next
    case False
    then have "j \<noteq> i" using bj assms(2) cpu_at_inj by blast
    then have "cpus m' ! j = cpus m ! j" "iflag m' b = iflag m b" "cpu_at b m' j"
      using assms(3) False bj by (auto simp: only_cpu_def)
    moreover have "nest_ok b m j \<and> (ph b \<noteq> Outside \<longrightarrow> 0 < ncli (cpus m ! j))"
      using assms(1) bj by (simp add: mach_inv_def)
    ultimately show ?thesis using False by (simp add: nest_ok_def)
  qed
qed

lemma acq_enter_eq:
  assumes "nest_ok a m i"
  shows "acq_enter a lk m = (if locked lk \<noteq> 0 \<and> lcpu lk = Some i then Panic ''acquire'' else Ok (pushed a i m))"
proof -
  have at: "cpu_at a m i" using assms by (simp add: nest_ok_def)
  note p = pushed_facts [OF assms]
  have "popped a i (pushed a i (pushed a i m)) = pushed a i m"
    using assms by (intro popped_pushed_same p) (auto simp: p nest_ok_def)
  then show ?thesis by (simp add: acq_enter_def pushcli_eq [OF at] holding_eq [OF p(1)] panic_if_def)
qed

lemma rel_clear_eq:
  assumes "nest_ok a m i" "0 < ncli (cpus m ! i)"
  shows "rel_clear a lk m = (if locked lk \<noteq> 0 \<and> lcpu lk = Some i
     then Ok (lk\<lparr>pcs := (pcs lk)[0 := 0], lcpu := None\<rparr>, m) else Panic ''release'')"
  by (simp add: rel_clear_def holding_eq [OF assms(1)] popped_pushed_same [OF assms] panic_if_def)

lemma goto_simps [simp]:
  "phase_of (goto a p w) = (phase_of w)(a := p)"
  "wlock (goto a p w) = wlock w"
  "wmach (goto a p w) = wmach w"
  by (simp_all add: goto_def)

lemma lk_inv_machine:
  assumes "lk_inv w" "cpu_at a (wmach w) i"
  shows "nest_ok a (wmach w) i \<and> (phase_of w a \<noteq> Outside \<longrightarrow> 0 < ncli (cpus (wmach w) ! i) \<and> \<not> iflag (wmach w) a)"
proof -
  have "nest_ok a (wmach w) i \<and> (phase_of w a \<noteq> Outside \<longrightarrow> 0 < ncli (cpus (wmach w) ! i))"
    using assms by (simp add: lk_inv_def mach_inv_def)
  then show ?thesis by (auto simp: nest_ok_def)
qed

lemma lk_inv_frame:
  assumes "lk_inv w" "mach_inv (wmach w') (phase_of w')" "\<And>b. phase_of w' b \<noteq> Crashed"
    "\<And>b. has_lock w' b = has_lock w b" "\<And>b j. cpu_at b (wmach w') j = cpu_at b (wmach w) j"
    "\<And>b. phase_of w' b = Inside \<longleftrightarrow> phase_of w b = Inside"
    "locked (wlock w') \<noteq> 0 \<longleftrightarrow> locked (wlock w) \<noteq> 0" "lcpu (wlock w') = lcpu (wlock w)"
  shows "lk_inv w'"
  using assms(1) unfolding lk_inv_def assms(4-8) using assms(2,3) by blast

text \<open>A step that changes the machine only in what its CPU owns, and the phase only outside the
  region that owns the lock, keeps the invariant.\<close>

lemma lk_inv_quiet:
  assumes "lk_inv w" "cpu_at a (wmach w) i" "only_cpu a i (wmach w) m" "nest_ok a m i"
    "p \<noteq> Outside \<longrightarrow> 0 < ncli (cpus m ! i)" "\<not> has_lock w a" "p \<in> {Outside, Spinning, Popping}"
  shows "lk_inv (goto a p (w\<lparr>wmach := m\<rparr>))"
proof (rule lk_inv_frame [OF assms(1)])
  have "mach_inv (wmach w) (phase_of w)" using assms(1) by (simp add: lk_inv_def)
  from mach_inv_step [OF this assms(2-5)]
  show "mach_inv (wmach (goto a p (w\<lparr>wmach := m\<rparr>))) (phase_of (goto a p (w\<lparr>wmach := m\<rparr>)))" by simp
  show "\<And>b. phase_of (goto a p (w\<lparr>wmach := m\<rparr>)) b \<noteq> Crashed"
    using assms(1,7) by (auto simp: lk_inv_def)
qed (use assms(3,6,7) in \<open>auto simp: has_lock_def only_cpu_def\<close>)

lemma lk_inv_mach: "lk_inv w \<Longrightarrow> mach_inv (wmach w) (phase_of w)"
  by (simp add: lk_inv_def)

lemma lk_inv_lcpu: "lk_inv w \<Longrightarrow> lcpu (wlock w) = Some i \<longleftrightarrow> (\<exists>a. phase_of w a = Inside \<and> cpu_at a (wmach w) i)"
  by (simp add: lk_inv_def)

lemma lk_inv_locked: "lk_inv w \<Longrightarrow> locked (wlock w) \<noteq> 0 \<longleftrightarrow> (\<exists>a. has_lock w a)"
  by (simp add: lk_inv_def)

lemma lk_inv_unique: "lk_inv w \<Longrightarrow> has_lock w a \<Longrightarrow> has_lock w b \<Longrightarrow> a = b"
  by (simp add: lk_inv_def)

lemma lk_inv_not_crashed: "lk_inv w \<Longrightarrow> phase_of w a \<noteq> Crashed"
  by (simp add: lk_inv_def)

lemma inside_has_lock: "phase_of w a = Inside \<Longrightarrow> has_lock w a"
  by (simp add: has_lock_def)

text \<open>A step of the CPU that owns the lock, or takes or gives it up.\<close>

lemma lk_inv_owner:
  assumes "lk_inv w" "cpu_at a (wmach w) i" "p \<notin> {Outside, Crashed}" "phase_of w a \<noteq> Outside"
    "\<And>b. b \<noteq> a \<Longrightarrow> \<not> has_lock w b"
    "locked l \<noteq> 0 \<longleftrightarrow> p \<in> {Owning, Inside, Leaving}" "lcpu l = (if p = Inside then Some i else None)"
  shows "lk_inv (goto a p (w\<lparr>wlock := l\<rparr>))"
proof -
  have n: "nest_ok a (wmach w) i" "0 < ncli (cpus (wmach w) ! i)"
    using lk_inv_machine [OF assms(1,2)] assms(4) by auto
  have "mach_inv (wmach w) ((phase_of w)(a := p))"
    using mach_inv_step [OF lk_inv_mach [OF assms(1)] assms(2) only_cpu_refl n(1)] n(2) by blast
  moreover have h: "has_lock (goto a p (w\<lparr>wlock := l\<rparr>)) b \<longleftrightarrow> b = a \<and> p \<in> {Owning, Inside, Leaving}" for b
    using assms(5) [of b] by (auto simp: has_lock_def)
  moreover have ins: "phase_of (goto a p (w\<lparr>wlock := l\<rparr>)) b = Inside \<longleftrightarrow> b = a \<and> p = Inside" for b
    using assms(5) [of b] by (auto simp: has_lock_def)
  moreover have "phase_of (goto a p (w\<lparr>wlock := l\<rparr>)) b \<noteq> Crashed" for b
    using assms(3) lk_inv_not_crashed [OF assms(1)] by auto
  moreover have "lcpu l = Some j \<longleftrightarrow> p = Inside \<and> cpu_at a (wmach w) j" for j
    using assms(2,7) cpu_at_fun by auto
  ultimately show ?thesis
    unfolding lk_inv_def h ins using assms(2,6) by auto
qed

lemma lk_inv_step:
  assumes "lk_step w w'" "lk_inv w"
  shows "lk_inv w'"
  using assms(1)
proof (cases rule: lk_step.cases)
  case (enter a i m)
  have n: "nest_ok a (wmach w) i" using assms(2) enter lk_inv_machine by blast
  with enter have m: "m = pushed a i (wmach w)"
    by (auto simp: acq_enter_eq split: if_splits)
  have "0 \<le> ncli (cpus (wmach w) ! i)" using n by (simp add: nest_ok_def)
  with enter n m show ?thesis
    using assms(2) pushed_facts [OF n] only_cpu_pushed [OF n]
    by (auto intro!: lk_inv_quiet simp: has_lock_def)
next
  case (enter_panic a i msg)
  have n: "nest_ok a (wmach w) i" using assms(2) enter_panic lk_inv_machine by blast
  with enter_panic have "lcpu (wlock w) = Some i"
    by (auto simp: acq_enter_eq split: if_splits)
  then obtain b where "phase_of w b = Inside" "cpu_at b (wmach w) i"
    using assms(2) by (auto simp: lk_inv_lcpu)
  with enter_panic show ?thesis using cpu_at_inj by fastforce
next
  case (spin a i got l)
  then have l: "got = (locked (wlock w) = 0)" "l = (wlock w)\<lparr>locked := 1\<rparr>"
    by (auto simp: acq_try_def xchg_def Let_def)
  show ?thesis
  proof (cases got)
    case True
    then have none: "\<not> has_lock w b" for b
      using l lk_inv_locked [OF assms(2)] by auto
    then have "lcpu (wlock w) = None"
      using lk_inv_lcpu [OF assms(2)] inside_has_lock by (cases "lcpu (wlock w)") blast+
    then show ?thesis
      using spin True l none assms(2) by (auto intro!: lk_inv_owner)
  next
    case False
    have "phase_of w = (phase_of w)(a := Spinning)" using spin by auto
    then have "w' = w\<lparr>wlock := l\<rparr>" using spin False by (simp add: goto_def)
    then show ?thesis
      using False l lk_inv_mach [OF assms(2)] lk_inv_not_crashed [OF assms(2)]
      by (intro lk_inv_frame [OF assms(2)]) (auto simp: has_lock_def)
  qed
next
  case (own a i mm v l)
  have l: "l = (wlock w)\<lparr>lcpu := Some i, pcs := getcallerpcs mm v\<rparr>"
    using lk_inv_machine [OF assms(2), of a i] own by (auto simp: acq_own_def)
  have "has_lock w a" using own by (simp add: has_lock_def)
  then show ?thesis
    using own l lk_inv_unique [OF assms(2)] lk_inv_locked [OF assms(2)] assms(2)
    by (auto intro!: lk_inv_owner)
next
  case (own_panic a i mm v msg)
  then show ?thesis
    using lk_inv_machine [OF assms(2), of a i] by (auto simp: acq_own_def)
next
  case (leave a i l m)
  have n: "nest_ok a (wmach w) i" "0 < ncli (cpus (wmach w) ! i)"
    using lk_inv_machine [OF assms(2), of a i] leave by auto
  with leave have l: "l = (wlock w)\<lparr>pcs := (pcs (wlock w))[0 := 0], lcpu := None\<rparr>" "m = wmach w"
    by (auto simp: rel_clear_eq split: if_splits)
  have "has_lock w a" using leave by (simp add: has_lock_def)
  moreover have "w' = goto a Leaving (w\<lparr>wlock := l\<rparr>)" using leave l by simp
  ultimately show ?thesis
    using leave l lk_inv_unique [OF assms(2)] lk_inv_locked [OF assms(2)] assms(2)
    by (auto intro!: lk_inv_owner)
next
  case (leave_panic a i msg)
  have n: "nest_ok a (wmach w) i" "0 < ncli (cpus (wmach w) ! i)"
    using lk_inv_machine [OF assms(2), of a i] leave_panic by auto
  have "locked (wlock w) \<noteq> 0" "lcpu (wlock w) = Some i"
    using lk_inv_locked [OF assms(2)] lk_inv_lcpu [OF assms(2)] leave_panic inside_has_lock by blast+
  with n leave_panic show ?thesis by (simp add: rel_clear_eq)
next
  case (store a i)
  have h: "has_lock w a" using store by (simp add: has_lock_def)
  then have "phase_of w b \<noteq> Inside" for b
    using lk_inv_unique [OF assms(2) h, of b] inside_has_lock store by auto
  then have "lcpu (wlock w) = None"
    using lk_inv_lcpu [OF assms(2)] by (cases "lcpu (wlock w)") blast+
  then show ?thesis
    using store lk_inv_unique [OF assms(2) h] assms(2)
    by (auto intro!: lk_inv_owner simp: rel_store_def)
next
  case (pop a i m)
  have n: "nest_ok a (wmach w) i" "0 < ncli (cpus (wmach w) ! i)" "\<not> iflag (wmach w) a"
    using lk_inv_machine [OF assms(2), of a i] pop by auto
  with pop have m: "m = popped a i (wmach w)" by (simp add: popcli_eq nest_ok_def)
  show ?thesis
    using pop m n assms(2) popped_facts [OF n(1,3,2)] only_cpu_popped [of a i "wmach w"]
    by (auto intro!: lk_inv_quiet simp: has_lock_def)
next
  case (pop_panic a i msg)
  then show ?thesis
    using lk_inv_machine [OF assms(2), of a i] by (auto simp: popcli_eq)
qed

lemma lk_inv_start: "lk_start w \<Longrightarrow> lk_inv w"
  by (auto simp: lk_start_def lk_inv_def mach_inv_def has_lock_def)

lemma lk_inv_reachable: "lk_step\<^sup>*\<^sup>* w w' \<Longrightarrow> lk_inv w \<Longrightarrow> lk_inv w'"
  by (induction rule: rtranclp_induct) (auto intro: lk_inv_step)

text \<open>
  C26. Mutual exclusion: however the atomic steps of any number of CPUs that take and release a
  spin-lock interleave, at most one CPU is between its \<open>xchg\<close> and its store of 0, the lock word
  is set exactly then, interrupts are off on that CPU, \<open>lk->cpu\<close> names the CPU inside, and no
  \<open>acquire\<close>, \<open>release\<close>, \<open>mycpu\<close> or \<open>popcli\<close> panics.
\<close>

theorem spinlock_mutual_exclusion:
  assumes "lk_start w" "lk_step\<^sup>*\<^sup>* w w'"
  shows "(has_lock w' a \<and> has_lock w' b \<longrightarrow> a = b)
    \<and> (locked (wlock w') \<noteq> 0 \<longleftrightarrow> (\<exists>c. has_lock w' c))
    \<and> (has_lock w' a \<longrightarrow> \<not> iflag (wmach w') a)
    \<and> (phase_of w' a = Inside \<longrightarrow> (\<exists>i. cpu_at a (wmach w') i \<and> lcpu (wlock w') = Some i))
    \<and> phase_of w' a \<noteq> Crashed"
proof -
  have inv: "lk_inv w'" using assms lk_inv_start lk_inv_reachable by blast
  have "\<not> iflag (wmach w') a" if h: "has_lock w' a"
  proof -
    obtain i where "cpu_at a (wmach w') i" using inv h by (auto simp: lk_inv_def)
    with inv h show ?thesis using lk_inv_machine [of w' a i] by (auto simp: has_lock_def)
  qed
  moreover have "\<exists>i. cpu_at a (wmach w') i \<and> lcpu (wlock w') = Some i" if "phase_of w' a = Inside"
  proof -
    have "has_lock w' a" using that by (simp add: has_lock_def)
    then obtain i where "cpu_at a (wmach w') i" using inv by (auto simp: lk_inv_def)
    with that inv show ?thesis by (auto simp: lk_inv_def)
  qed
  ultimately show ?thesis using inv unfolding lk_inv_def by blast
qed

definition world_demo :: lkworld where
  "world_demo = \<lparr>wlock = free_lock, wmach = two_cpus, phase_of = \<lambda>_. Outside\<rparr>"

lemma world_demo_start: "lk_start world_demo"
  by (auto simp: lk_start_def world_demo_def free_lock_def nest_ok_def cpu_at_def two_cpus_def
      split: if_splits)

theorem spinlock_mutual_exclusion_witness:
  "\<exists>w'. lk_step\<^sup>*\<^sup>* world_demo w' \<and> phase_of w' 4 = Owning \<and> locked (wlock w') \<noteq> 0 \<and> \<not> iflag (wmach w') 4"
proof -
  let ?w1 = "goto 4 Spinning (world_demo\<lparr>wmach := pushed 4 1 two_cpus\<rparr>)"
  let ?w2 = "goto 4 Owning (?w1\<lparr>wlock := free_lock\<lparr>locked := 1\<rparr>\<rparr>)"
  have 1: "lk_step world_demo ?w1"
    using two_cpus_ok by (intro enter [of _ _ 1]) (auto simp: world_demo_def acq_enter_eq free_lock_def nest_ok_def)
  have "lk_step ?w1 (goto 4 (if True then Owning else Spinning) (?w1\<lparr>wlock := free_lock\<lparr>locked := 1\<rparr>\<rparr>))"
    using two_cpus_ok
    by (intro spin [of _ _ 1]) (auto simp: world_demo_def acq_try_def xchg_def free_lock_def nest_ok_def pushed_facts)
  then have "lk_step\<^sup>*\<^sup>* world_demo ?w2" using 1 by auto
  moreover have "has_lock ?w2 4" by (simp add: has_lock_def)
  moreover have "phase_of ?w2 4 = Owning" by simp
  ultimately show ?thesis
    using spinlock_mutual_exclusion [OF world_demo_start, of ?w2 4 4] by blast
qed

end
