(* ===== verification/Krn.thy ===== *)
theory Krn
  imports Fsops Pgtab Spinlock
begin

text \<open>
  The state of the paging kernel (\<open>Offline-04 my-xv6\<close>): \<open>struct page\<close>, \<open>struct PageInMemory\<close> and
  \<open>struct proc\<close> of \<open>proc.h\<close>, the process table, and the rest of the machine that the process
  layer touches.  A pointer to an element of \<open>pagingMetaData\<close> is its index, \<open>None\<close> when null.
  \<open>cr3\<close> and \<open>tss_esp0\<close> are registers of the executing CPU, \<open>apic\<close> its identity, and \<open>kfp\<close> the
  frame pointer \<open>acquire\<close> records for debugging.  \<open>kdata\<close> is the linker symbol \<open>data\<close>.
\<close>

definition MAX_TOTAL_PAGES :: nat where "MAX_TOTAL_PAGES = 30"
definition MAX_PSYC_PAGES :: nat where "MAX_PSYC_PAGES = 15"

datatype pagestate = NOTUSED | PHYSMEMORY | SWAPFILE

record page =
  virtualAddr :: u32
  num_times_accessed :: u32
  offset_in_file :: int
  pages_memory_index :: nat
  pgstate :: pagestate

record page_in_memory =
  pg :: page
  pnext :: "nat option"
  pprev :: "nat option"

record pproc = proc +
  swapFile :: "nat option"
  pagingMetaData :: "page_in_memory list"
  memoryPagesHead :: "nat option"
  num_pages_in_file :: u32
  num_pages_in_phys_mem :: u32
  number_of_pgFLTS :: u32

record 'd krn =
  io :: "'d kio"
  devtab :: "'d devsw list"
  ptlk :: spinlock
  ptab :: "pproc list"
  nextpid :: int
  initproc :: "nat option"
  mach :: machine
  apic :: nat
  kfp :: u32
  kdata :: u32
  kpgdir :: u32
  cr3 :: u32
  tss_esp0 :: u32
  ticklk :: spinlock
  kticks :: u32
  first_run :: bool

text \<open>\<open>c->proc\<close> of the executing CPU: what \<open>myproc()\<close> returns (\<open>Spinlock.myproc\<close>).\<close>

definition cur :: "'d krn \<Rightarrow> nat option" where
  "cur s = (case find_cpu (apic s) (cpus (mach s)) 0 of
     None \<Rightarrow> None | Some i \<Rightarrow> cpuproc (cpus (mach s) ! i))"

text \<open>A step on the current process, which must be there: the code follows the pointer.\<close>

definition with_cur :: "(nat \<Rightarrow> 'd krn \<Rightarrow> 'r outcome) \<Rightarrow> 'd krn \<Rightarrow> 'r outcome" where
  "with_cur f s = (case cur s of None \<Rightarrow> Fault | Some p \<Rightarrow> f p s)"

definition upd_pp :: "nat \<Rightarrow> (pproc \<Rightarrow> pproc) \<Rightarrow> 'd krn \<Rightarrow> 'd krn" where
  "upd_pp p f s = s\<lparr>ptab := (ptab s)[p := f (ptab s ! p)]\<rparr>"

definition kmem_of :: "'d krn \<Rightarrow> kmem" where
  "kmem_of s = kpg (io s)"

definition set_kmem :: "kmem \<Rightarrow> 'd krn \<Rightarrow> 'd krn" where
  "set_kmem m s = s\<lparr>io := (io s)\<lparr>kpg := m\<rparr>\<rparr>"

definition on_kmem :: "(kmem \<Rightarrow> kmem outcome) \<Rightarrow> 'd krn \<Rightarrow> 'd krn outcome" where
  "on_kmem f s = bnd (f (kmem_of s)) (\<lambda>m. Ok (set_kmem m s))"

definition in_kmem :: "(kmem \<Rightarrow> ('r \<times> kmem) outcome) \<Rightarrow> 'd krn \<Rightarrow> ('r \<times> 'd krn) outcome" where
  "in_kmem f s = bnd (f (kmem_of s)) (\<lambda>(r, m). Ok (r, set_kmem m s))"

definition on_io :: "('d kio \<Rightarrow> 'd kio outcome) \<Rightarrow> 'd krn \<Rightarrow> 'd krn outcome" where
  "on_io f s = bnd (f (io s)) (\<lambda>t. Ok (s\<lparr>io := t\<rparr>))"

definition in_fs :: "('d fs \<Rightarrow> ('r \<times> 'd fs) outcome) \<Rightarrow> 'd krn \<Rightarrow> ('r \<times> 'd krn) outcome" where
  "in_fs f s = bnd (f (kf (io s))) (\<lambda>(r, t). Ok (r, s\<lparr>io := (io s)\<lparr>kf := t\<rparr>\<rparr>))"

definition kfs :: "('d fs \<Rightarrow> 'd fs outcome) \<Rightarrow> 'd krn \<Rightarrow> 'd krn outcome" where
  "kfs f s = on_io (on_fs f) s"

text \<open>The page a process runs under, as the processor sees it.\<close>

definition udir :: "'d krn \<Rightarrow> u32" where
  "udir s = P2V (cr3 s)"

text \<open>\<open>getpid\<close> of the current process: the owner of the sleep-locks it takes.\<close>

definition mypid :: "'d krn \<Rightarrow> int" where
  "mypid s = (case cur s of None \<Rightarrow> 0 | Some p \<Rightarrow> pid (ptab s ! p))"

definition mycwd :: "'d krn \<Rightarrow> nat option" where
  "mycwd s = (case cur s of None \<Rightarrow> None | Some p \<Rightarrow> cwd (ptab s ! p))"

definition mykilled :: "'d krn \<Rightarrow> bool" where
  "mykilled s = (case cur s of None \<Rightarrow> False | Some p \<Rightarrow> killed (ptab s ! p))"

lemma upd_pp_simps [simp]:
  "cur (upd_pp p f s) = cur s"
  "io (upd_pp p f s) = io s"
  "length (ptab (upd_pp p f s)) = length (ptab s)"
  "p < length (ptab s) \<Longrightarrow> ptab (upd_pp p f s) ! p = f (ptab s ! p)"
  "q \<noteq> p \<Longrightarrow> ptab (upd_pp p f s) ! q = ptab s ! q"
  by (simp_all add: upd_pp_def cur_def cong: option.case_cong)

lemma set_kmem_simps [simp]:
  "cur (set_kmem m s) = cur s"
  "ptab (set_kmem m s) = ptab s"
  "kmem_of (set_kmem m s) = m"
  "kmem_of (upd_pp p f s) = kmem_of s"
  by (simp_all add: set_kmem_def cur_def kmem_of_def upd_pp_def cong: option.case_cong)

end
