(* ===== verification/Paging.thy ===== *)
theory Paging
  imports Krn
begin

text \<open>
  Demand paging (\<open>vm.c\<close> 345--652, the swap files of \<open>fs.c\<close>, \<open>ResetProcPagesData\<close> and
  \<open>CopyContentsOfCurrentProcStructs\<close> of \<open>proc.c\<close>).  The first group works on the page records of
  one process, the second on the kernel.  Following a pointer outside \<open>pagingMetaData\<close> is
  \<open>Fault\<close>; walking a list that has become cyclic never ends and is \<open>Blocked\<close>.
\<close>

subsection \<open>The page records of a process\<close>

definition upd_pim :: "nat \<Rightarrow> (page_in_memory \<Rightarrow> page_in_memory) \<Rightarrow> pproc \<Rightarrow> pproc" where
  "upd_pim i f p = p\<lparr>pagingMetaData := (pagingMetaData p)[i := f (pagingMetaData p ! i)]\<rparr>"

definition pim :: "pproc \<Rightarrow> nat \<Rightarrow> page_in_memory" where
  "pim p i = pagingMetaData p ! i"

text \<open>\<open>pagingMetaData[e->pg.pages_memory_index] = *e\<close>\<close>

definition sync_pim :: "nat \<Rightarrow> pproc \<Rightarrow> pproc outcome" where
  "sync_pim i p =
     (let k = pages_memory_index (pg (pim p i))
      in fault_if (length (pagingMetaData p) \<le> k) (Ok (upd_pim k (\<lambda>_. pim p i) p)))"

fun reset_pims :: "nat \<Rightarrow> page_in_memory list \<Rightarrow> page_in_memory list" where
  "reset_pims i [] = []"
| "reset_pims i (e # es) =
     \<lparr>pg = \<lparr>virtualAddr = 0xFFFFFFFF, num_times_accessed = 0, offset_in_file = - 1, pages_memory_index = i,
        pgstate = NOTUSED\<rparr>, pnext = None, pprev = None\<rparr> # reset_pims (Suc i) es"

definition ResetProcPagesData :: "pproc \<Rightarrow> pproc" where
  "ResetProcPagesData p = p\<lparr>num_pages_in_file := 0, num_pages_in_phys_mem := 0, memoryPagesHead := None,
     swapFile := None, pagingMetaData := reset_pims 0 (pagingMetaData p), number_of_pgFLTS := 0\<rparr>"

definition InitNewPhyPage :: "u32 \<Rightarrow> nat \<Rightarrow> nat \<Rightarrow> pproc \<Rightarrow> pproc" where
  "InitNewPhyPage addr i idx p =
     (let p1 = upd_pim i (\<lambda>e. e\<lparr>pg := \<lparr>virtualAddr = addr, num_times_accessed = 0, offset_in_file = - 1,
                  pages_memory_index = idx, pgstate = PHYSMEMORY\<rparr>, pnext := None\<rparr>) p;
          p2 = upd_pim idx (\<lambda>_. pim p1 i) p1
      in p2\<lparr>num_pages_in_phys_mem := num_pages_in_phys_mem p2 + 1\<rparr>)"

fun tail_of :: "nat \<Rightarrow> page_in_memory list \<Rightarrow> nat \<Rightarrow> nat outcome" where
  "tail_of 0 es i = Blocked"
| "tail_of (Suc k) es i =
     fault_if (length es \<le> i) (case pnext (es ! i) of None \<Rightarrow> Ok i | Some j \<Rightarrow> tail_of k es j)"

fun find_va :: "u32 \<Rightarrow> nat \<Rightarrow> page_in_memory list \<Rightarrow> nat option" where
  "find_va va i [] = None"
| "find_va va i (e # es) = (if virtualAddr (pg e) = va then Some i else find_va va (Suc i) es)"

fun find_state :: "pagestate \<Rightarrow> nat \<Rightarrow> page_in_memory list \<Rightarrow> nat option" where
  "find_state st i [] = None"
| "find_state st i (e # es) = (if pgstate (pg e) = st then Some i else find_state st (Suc i) es)"

text \<open>When neither loop finds a record, the code goes on with the one past the end of the array.\<close>

definition new_page_index :: "u32 \<Rightarrow> pproc \<Rightarrow> nat" where
  "new_page_index addr p =
     (case find_va (PTE_ADDR addr) 0 (pagingMetaData p) of
        Some i \<Rightarrow> i
      | None \<Rightarrow> (case find_state NOTUSED 0 (pagingMetaData p) of Some i \<Rightarrow> i | None \<Rightarrow> length (pagingMetaData p)))"

definition AddNewPageToPhysicalMemory :: "u32 \<Rightarrow> pproc \<Rightarrow> pproc outcome" where
  "AddNewPageToPhysicalMemory addr p =
     (case memoryPagesHead p of
        None \<Rightarrow> Ok (InitNewPhyPage addr 0 0 (p\<lparr>memoryPagesHead := Some 0\<rparr>))
      | Some h \<Rightarrow>
          bnd (tail_of (Suc (length (pagingMetaData p))) (pagingMetaData p) h) (\<lambda>t.
            let i = new_page_index addr p
            in fault_if (length (pagingMetaData p) \<le> i)
               (let p1 = upd_pim t (\<lambda>e. e\<lparr>pnext := Some i\<rparr>) p;
                    p2 = upd_pim i (\<lambda>e. e\<lparr>pprev := Some t\<rparr>) p1
                in bnd (sync_pim t p2) (\<lambda>p3. Ok (InitNewPhyPage addr i i p3)))))"

definition choosePageFromPhysMem :: "pproc \<Rightarrow> nat option" where
  "choosePageFromPhysMem p = memoryPagesHead p"

definition updateListPointers :: "nat \<Rightarrow> pproc \<Rightarrow> pproc outcome" where
  "updateListPointers i p =
     bnd (case pprev (pim p i) of
            Some b \<Rightarrow>
              fault_if (length (pagingMetaData p) \<le> b)
              (let p1 = upd_pim b (\<lambda>e. e\<lparr>pnext := pnext (pim p i)\<rparr>) p
               in bnd (case pnext (pim p1 i) of
                         None \<Rightarrow> Ok p1
                       | Some n \<Rightarrow> fault_if (length (pagingMetaData p1) \<le> n)
                           (sync_pim n (upd_pim n (\<lambda>e. e\<lparr>pprev := Some b\<rparr>) p1))) (sync_pim b))
          | None \<Rightarrow>
              (let p1 = p\<lparr>memoryPagesHead := pnext (pim p i)\<rparr>
               in case pnext (pim p1 i) of
                    None \<Rightarrow> Ok p1
                  | Some n \<Rightarrow> fault_if (length (pagingMetaData p1) \<le> n)
                      (sync_pim n (upd_pim n (\<lambda>e. e\<lparr>pprev := None\<rparr>) p1)))) (\<lambda>p2.
     sync_pim i (upd_pim i (\<lambda>e. e\<lparr>pprev := None, pnext := None\<rparr>) p2))"

text \<open>\<open>struct page\<close> of a record that is given up; its index stays.\<close>

definition forget_page :: "page \<Rightarrow> page" where
  "forget_page e = e\<lparr>virtualAddr := 0xFFFFFFFF, num_times_accessed := 0, offset_in_file := - 1, pgstate := NOTUSED\<rparr>"

subsection \<open>Swap files\<close>

definition DIGITS :: nat where "DIGITS = 14"

text \<open>The path \<open>/.swap<pid>\<close>, which must fit the 14 bytes of the local array with its NUL.\<close>

definition swap_path :: "int \<Rightarrow> cstring" where
  "swap_path n = ascii ''/.swap'' @ itoa n"

definition createSwapFile :: "nat \<Rightarrow> 'd krn \<Rightarrow> 'd krn outcome" where
  "createSwapFile p s =
     fault_if (DIGITS < length (swap_path (pid (ptab s ! p))) + 1)
     (bnd (kfs fs_begin_op s) (\<lambda>s1.
      bnd (in_fs (create (devtab s1) (mypid s1) (mycwd s1) (swap_path (pid (ptab s1 ! p))) T_FILE 0 0) s1) (\<lambda>(ino, s2).
      case ino of
        None \<Rightarrow> Panic ''iunlock''
      | Some ip \<Rightarrow>
          bnd (kfs (iunlock (mypid s2) ip) s2) (\<lambda>s3.
          bnd (filealloc (io s3)) (\<lambda>(f, t).
          let s4 = upd_pp p (\<lambda>q. q\<lparr>swapFile := f\<rparr>) (s3\<lparr>io := t\<rparr>) in
          case f of
            None \<Rightarrow> Panic ''no slot for files on /store''
          | Some f \<Rightarrow>
              bnd (on_io (\<lambda>t. Ok (upd_file f (\<lambda>x. x\<lparr>ftyp := FD_INODE, readable := ucast O_WRONLY,
                     writable := ucast O_RDWR, fip := Some ip, foff := 0\<rparr>) t)) s4) (\<lambda>s5.
              kfs (fs_end_op (mypid s5)) s5))))))"

definition removeSwapFile :: "nat \<Rightarrow> 'd krn \<Rightarrow> (int \<times> 'd krn) outcome" where
  "removeSwapFile p s =
     fault_if (DIGITS < length (swap_path (pid (ptab s ! p))) + 1)
     (case swapFile (ptab s ! p) of
        None \<Rightarrow> Ok (- 1, s)
      | Some f \<Rightarrow>
          bnd (on_io (fileclose (mypid s) f) s) (\<lambda>s1.
          in_fs (unlink_path (devtab s1) (mypid s1) (mycwd s1) (swap_path (pid (ptab s1 ! p)))) s1))"

definition seek_swap :: "nat \<Rightarrow> u32 \<Rightarrow> 'd krn \<Rightarrow> 'd krn" where
  "seek_swap f off s = s\<lparr>io := upd_file f (\<lambda>x. x\<lparr>foff := off\<rparr>) (io s)\<rparr>"

definition writeToSwapFile :: "nat \<Rightarrow> u8 list \<Rightarrow> u32 \<Rightarrow> u32 \<Rightarrow> 'd krn \<Rightarrow> (int \<times> 'd krn) outcome" where
  "writeToSwapFile p buf off n s =
     (case swapFile (ptab s ! p) of
        None \<Rightarrow> Fault
      | Some f \<Rightarrow>
          let s1 = seek_swap f off s
          in bnd (filewrite (devtab s1) (mypid s1) (mykilled s1) f buf (sint n) (io s1)) (\<lambda>(r, t).
             Ok (r, s1\<lparr>io := t\<rparr>)))"

definition readFromSwapFile :: "nat \<Rightarrow> u32 \<Rightarrow> u32 \<Rightarrow> 'd krn \<Rightarrow> (int \<times> u8 list \<times> 'd krn) outcome" where
  "readFromSwapFile p off n s =
     (case swapFile (ptab s ! p) of
        None \<Rightarrow> Fault
      | Some f \<Rightarrow>
          let s1 = seek_swap f off s
          in bnd (fileread (devtab s1) (mypid s1) (mykilled s1) f (sint n) (io s1)) (\<lambda>(r, bs, t).
             Ok (r, bs, s1\<lparr>io := t\<rparr>)))"

subsection \<open>Moving pages\<close>

definition on_pp :: "nat \<Rightarrow> (pproc \<Rightarrow> pproc outcome) \<Rightarrow> 'd krn \<Rightarrow> 'd krn outcome" where
  "on_pp p f s = bnd (f (ptab s ! p)) (\<lambda>q. Ok (upd_pp p (\<lambda>_. q) s))"

definition upd_pg :: "nat \<Rightarrow> nat \<Rightarrow> (page \<Rightarrow> page) \<Rightarrow> 'd krn \<Rightarrow> 'd krn" where
  "upd_pg p i f = upd_pp p (upd_pim i (\<lambda>e. e\<lparr>pg := f (pg e)\<rparr>))"

definition the_page :: "nat \<Rightarrow> nat \<Rightarrow> 'd krn \<Rightarrow> page" where
  "the_page p i s = pg (pim (ptab s ! p) i)"

text \<open>In the functions that follow \<open>p\<close> is \<open>myproc()\<close>.\<close>

definition WritePageToFile :: "nat \<Rightarrow> nat \<Rightarrow> 'd krn \<Rightarrow> (int \<times> 'd krn) outcome" where
  "WritePageToFile p i s =
     (let e = the_page p i s; fresh = 4096 * num_pages_in_file (ptab s ! p);
          off = (if - 1 < offset_in_file e then word_of_int (offset_in_file e) else fresh)
      in bnd (uread (kmem_of s) (udir s) (virtualAddr e) PGSIZE) (\<lambda>buf.
         bnd (writeToSwapFile p buf off 4096 s) (\<lambda>(r, s1).
         if r = - 1 then Ok (- 1, s1)
         else
           let s2 = (if - 1 < offset_in_file e then s1
                     else upd_pg p i (\<lambda>e. e\<lparr>offset_in_file := sint (4096 * num_pages_in_file (ptab s1 ! p))\<rparr>) s1);
               s3 = upd_pg p i (\<lambda>e. e\<lparr>num_times_accessed := 0, pgstate := SWAPFILE\<rparr>) s2
           in Ok (0, upd_pp p (\<lambda>q. q\<lparr>num_pages_in_file := num_pages_in_file q + 1\<rparr>) s3))))"

text \<open>The end of \<open>FileToMemory\<close>: the record goes to the tail of the list.\<close>

definition append_page :: "nat \<Rightarrow> pproc \<Rightarrow> pproc outcome" where
  "append_page i p =
     (case memoryPagesHead p of
        None \<Rightarrow> Fault
      | Some h \<Rightarrow>
          bnd (tail_of (Suc (length (pagingMetaData p))) (pagingMetaData p) h) (\<lambda>t.
          let p1 = upd_pim t (\<lambda>e. e\<lparr>pnext := Some i\<rparr>) p;
              p2 = upd_pim i (\<lambda>e. e\<lparr>pprev := Some t, pnext := None\<rparr>) p1
          in bnd (sync_pim t p2) (sync_pim i)))"

definition FileToMemory :: "nat \<Rightarrow> nat \<Rightarrow> 'd krn \<Rightarrow> (int \<times> 'd krn) outcome" where
  "FileToMemory p i s =
     (let off = offset_in_file (the_page p i s); dir = pgdir (ptab s ! p); va = virtualAddr (the_page p i s)
      in if off < 0 then Ok (- 1, s)
         else bnd (in_kmem kalloc s) (\<lambda>(m, s1).
           panic_if (m = 0) ''FileToMemory: out of memory\<newline>''
           (bnd (in_kmem (mappages dir va 4096 (V2P m) (PTE_W OR PTE_U)) s1) (\<lambda>(_, s2).
            bnd (readFromSwapFile p (word_of_int off) 4096 s2) (\<lambda>(r, bs, s3).
            let s4 = set_kmem ((kmem_of s3)\<lparr>mem := put_bytes (mem (kmem_of s3)) (unat m) bs\<rparr>) s3 in
            if r = - 1 then Ok (- 1, s4)
            else
              bnd (on_kmem (clear_pagedout dir va) s4) (\<lambda>s5.
              bnd (on_kmem (set_present dir va) s5) (\<lambda>s6.
              let s7 = upd_pp p (\<lambda>q. q\<lparr>num_pages_in_phys_mem := num_pages_in_phys_mem q + 1\<rparr>) s6;
                  s8 = upd_pg p i (\<lambda>e. e\<lparr>num_times_accessed := 0, offset_in_file := - 1, pgstate := PHYSMEMORY\<rparr>) s7;
                  s9 = upd_pp p (\<lambda>q. q\<lparr>num_pages_in_file := num_pages_in_file q - 1\<rparr>) s8
              in bnd (on_pp p (append_page i) s9) (\<lambda>s10. Ok (0, s10)))))))))"

definition MemoryToSwapFile :: "nat \<Rightarrow> nat option \<Rightarrow> 'd krn \<Rightarrow> (int \<times> 'd krn) outcome" where
  "MemoryToSwapFile p pageToSwap s =
     (case pageToSwap of
        None \<Rightarrow> Fault
      | Some i \<Rightarrow>
          let dir = pgdir (ptab s ! p); va = virtualAddr (the_page p i s)
          in bnd (in_kmem (walkpgdir dir va False) s) (\<lambda>(pte, s1).
             bnd (WritePageToFile p i s1) (\<lambda>(r, s2).
             if r = - 1 then Ok (- 1, s2)
             else
               bnd (on_pp p (updateListPointers i) s2) (\<lambda>s3.
               bnd (on_pp p (sync_pim i) s3) (\<lambda>s4.
               bnd (on_kmem (clear_present dir va) s4) (\<lambda>s5.
               bnd (on_kmem (set_pagedout dir va) s5) (\<lambda>s6.
               bnd (on_kmem (clear_PTE_A dir va) s6) (\<lambda>s7.
               fault_if (pte = 0)
               (bnd (on_kmem (kfree (P2V (PTE_ADDR (pte_get pte (kmem_of s7))))) s7) (\<lambda>s8.
                let s9 = upd_pp p (\<lambda>q. q\<lparr>num_pages_in_phys_mem := num_pages_in_phys_mem q - 1\<rparr>) s8
                in Ok (0, s9\<lparr>cr3 := V2P dir\<rparr>)))))))))))"

definition SwapPages :: "nat \<Rightarrow> u32 \<Rightarrow> 'd krn \<Rightarrow> (int \<times> 'd krn) outcome" where
  "SwapPages p virtAddr s =
     (let out = choosePageFromPhysMem (ptab s ! p)
      in case find_va virtAddr 0 (pagingMetaData (ptab s ! p)) of
           None \<Rightarrow> Ok (- 1, s)
         | Some i \<Rightarrow>
             (case out of
                None \<Rightarrow> Fault
              | Some k \<Rightarrow>
                  let s1 = upd_pg p k (\<lambda>e. e\<lparr>offset_in_file := offset_in_file (the_page p i s)\<rparr>) s
                  in bnd (FileToMemory p i s1) (\<lambda>(_, s2).
                     bnd (MemoryToSwapFile p (Some k) s2) (\<lambda>(_, s3).
                     bnd (on_kmem (set_PTE_A (pgdir (ptab s3 ! p)) (virtualAddr (the_page p i s3))) s3) (\<lambda>s4.
                     Ok (0, s4))))))"

definition DeletePage :: "nat \<Rightarrow> nat \<Rightarrow> 'd krn \<Rightarrow> 'd krn outcome" where
  "DeletePage p i s =
     (let s1 = upd_pp p (\<lambda>q. if 0 < num_pages_in_phys_mem q
                then q\<lparr>num_pages_in_phys_mem := num_pages_in_phys_mem q - 1\<rparr> else q) s;
          s2 = upd_pg p i forget_page s1
      in bnd (if 0 < num_pages_in_file (ptab s2 ! p)
              then (case find_state SWAPFILE 0 (pagingMetaData (ptab s2 ! p)) of
                      Some k \<Rightarrow> bnd (FileToMemory p k s2) (\<lambda>(_, s3). Ok s3)
                    | None \<Rightarrow> Ok s2)
              else Ok s2) (\<lambda>s4.
         bnd (on_pp p (updateListPointers i) s4) (on_pp p (sync_pim i))))"

subsection \<open>Copying the records to a child\<close>

text \<open>
  Pointers become pointers to the child's records with the same index.  A field of the child is
  overwritten only where the parent's pointer is not null.
\<close>

definition copy_pim :: "page_in_memory list \<Rightarrow> page_in_memory \<Rightarrow> page_in_memory \<Rightarrow> page_in_memory" where
  "copy_pim es e c =
     c\<lparr>pg := pg e,
       pnext := (case pnext e of None \<Rightarrow> pnext c | Some j \<Rightarrow> Some (pages_memory_index (pg (es ! j)))),
       pprev := (case pprev e of None \<Rightarrow> pprev c | Some j \<Rightarrow> Some (pages_memory_index (pg (es ! j))))\<rparr>"

definition copy_records :: "pproc \<Rightarrow> pproc \<Rightarrow> pproc" where
  "copy_records p c =
     c\<lparr>memoryPagesHead := (case memoryPagesHead p of None \<Rightarrow> memoryPagesHead c
          | Some h \<Rightarrow> Some (pages_memory_index (pg (pim p h)))),
       pagingMetaData := map2 (copy_pim (pagingMetaData p)) (pagingMetaData p) (pagingMetaData c)\<rparr>"

text \<open>
  The loop that reads the parent's swap file to its end; the buffer is thrown away.  The file
  holds at most \<open>MAXFILE\<close> blocks, so a read beyond it fails after \<open>rounds\<close> rounds.
\<close>

fun read_swap_pages :: "nat \<Rightarrow> nat \<Rightarrow> u32 \<Rightarrow> 'd krn \<Rightarrow> 'd krn outcome" where
  "read_swap_pages 0 p place s = Blocked"
| "read_swap_pages (Suc rounds) p place s =
     bnd (readFromSwapFile p (place * 4096) 4096 s) (\<lambda>(r, _, s1).
       if r \<noteq> - 1 then read_swap_pages rounds p (place + 1) s1 else Ok s1)"

definition CopyContentsOfCurrentProcStructs :: "nat \<Rightarrow> nat \<Rightarrow> 'd krn \<Rightarrow> 'd krn outcome" where
  "CopyContentsOfCurrentProcStructs p child s =
     (let me = ptab s ! p;
          s1 = upd_pp child (\<lambda>c. c\<lparr>num_pages_in_file := num_pages_in_file me,
                 num_pages_in_phys_mem := num_pages_in_phys_mem me\<rparr>) s
      in bnd (if 2 < pid me \<and> swapFile me \<noteq> None
              then bnd (if swapFile (ptab s1 ! child) = None then createSwapFile child s1 else Ok s1)
                     (read_swap_pages (MAXFILE * BSIZE div PGSIZE + 2) p 0)
              else Ok s1) (\<lambda>s2. Ok (upd_pp child (copy_records (ptab s2 ! p)) s2)))"

end
