(* ===== verification/Vm.thy ===== *)
theory Vm
  imports Paging
begin

text \<open>
  Address spaces (\<open>vm.c\<close>): the kernel mappings, growing and shrinking a process, freeing and
  copying an address space.  The descriptor tables of \<open>switchuvm\<close> are left out; its effect on the
  stack pointer of the task segment and on \<open>cr3\<close> is kept.
\<close>

subsection \<open>Freeing\<close>

definition drop_record :: "u32 \<Rightarrow> u32 \<Rightarrow> 'd krn \<Rightarrow> 'd krn outcome" where
  "drop_record dir a =
     with_cur (\<lambda>p s.
       if pgdir (ptab s ! p) = dir
       then (case find_va a 0 (pagingMetaData (ptab s ! p)) of Some i \<Rightarrow> DeletePage p i s | None \<Rightarrow> Ok s)
       else Ok s)"

definition drop_swapped :: "u32 \<Rightarrow> u32 \<Rightarrow> u32 \<Rightarrow> 'd krn \<Rightarrow> 'd krn outcome" where
  "drop_swapped dir a pte =
     with_cur (\<lambda>p s.
       if pgdir (ptab s ! p) = dir
       then let s1 = (case find_va (PTE_ADDR a) 0 (pagingMetaData (ptab s ! p)) of
                  Some i \<Rightarrow> upd_pg p i forget_page (upd_pp p (\<lambda>q. q\<lparr>num_pages_in_file := num_pages_in_file q - 1\<rparr>) s)
                | None \<Rightarrow> s)
         in Ok (set_kmem (pte_put pte 0 (kmem_of s1)) s1)
       else Ok s)"

text \<open>
  The loop of \<open>deallocuvm\<close>: every round goes up by at least a page, so the number of pages below
  \<open>oldsz\<close> bounds the rounds as long as the address does not wrap around.
\<close>

fun deallocuvm_loop :: "nat \<Rightarrow> u32 \<Rightarrow> u32 \<Rightarrow> u32 \<Rightarrow> 'd krn \<Rightarrow> 'd krn outcome" where
  "deallocuvm_loop 0 dir a oldsz s = Blocked"
| "deallocuvm_loop (Suc k) dir a oldsz s =
     (if a < oldsz
      then bnd (in_kmem (walkpgdir dir a False) s) (\<lambda>(pte, s1).
        if pte = 0 then deallocuvm_loop k dir (PGADDR (PDX a + 1) 0 0 - 4096 + 4096) oldsz s1
        else let e = pte_get pte (kmem_of s1) in
        if e AND PTE_P \<noteq> 0
        then panic_if (PTE_ADDR e = 0) ''kfree''
          (bnd (on_kmem (kfree (P2V (PTE_ADDR e))) s1) (\<lambda>s2.
           bnd (drop_record dir a (set_kmem (pte_put pte 0 (kmem_of s2)) s2))
             (deallocuvm_loop k dir (a + 4096) oldsz)))
        else if e AND PTE_PG \<noteq> 0
        then bnd (drop_swapped dir a pte s1) (deallocuvm_loop k dir (a + 4096) oldsz)
        else deallocuvm_loop k dir (a + 4096) oldsz s1)
      else Ok s)"

definition deallocuvm :: "u32 \<Rightarrow> u32 \<Rightarrow> u32 \<Rightarrow> 'd krn \<Rightarrow> (u32 \<times> 'd krn) outcome" where
  "deallocuvm dir oldsz newsz s =
     (if oldsz \<le> newsz then Ok (oldsz, s)
      else bnd (deallocuvm_loop (unat oldsz div PGSIZE + 2) dir (PGROUNDUP newsz) oldsz s) (\<lambda>s1. Ok (newsz, s1)))"

fun free_tables :: "nat \<Rightarrow> u32 \<Rightarrow> u32 \<Rightarrow> 'd krn \<Rightarrow> 'd krn outcome" where
  "free_tables 0 dir i s = Ok s"
| "free_tables (Suc k) dir i s =
     (let e = rd32 (mem (kmem_of s)) (unat (dir + 4 * i)) in
      bnd (if e AND PTE_P \<noteq> 0 then on_kmem (kfree (P2V (PTE_ADDR e))) s else Ok s)
        (free_tables k dir (i + 1)))"

definition freevm :: "u32 \<Rightarrow> 'd krn \<Rightarrow> 'd krn outcome" where
  "freevm dir s =
     panic_if (dir = 0) ''freevm: no pgdir''
     (bnd (deallocuvm dir KERNBASE 0 s) (\<lambda>(_, s1).
      bnd (free_tables NPDENTRIES dir 0 s1) (\<lambda>s2.
      on_kmem (kfree dir) s2)))"

subsection \<open>The kernel part\<close>

record kmap_entry =
  virt :: u32
  phys_start :: u32
  phys_end :: u32
  kperm :: u32

definition kmap :: "u32 \<Rightarrow> kmap_entry list" where
  "kmap d =
     [\<lparr>virt = KERNBASE, phys_start = 0, phys_end = EXTMEM, kperm = PTE_W\<rparr>,
      \<lparr>virt = KERNLINK, phys_start = V2P KERNLINK, phys_end = V2P d, kperm = 0\<rparr>,
      \<lparr>virt = d, phys_start = V2P d, phys_end = PHYSTOP, kperm = PTE_W\<rparr>,
      \<lparr>virt = DEVSPACE, phys_start = DEVSPACE, phys_end = 0, kperm = PTE_W\<rparr>]"

fun map_kernel :: "kmap_entry list \<Rightarrow> u32 \<Rightarrow> 'd krn \<Rightarrow> (u32 \<times> 'd krn) outcome" where
  "map_kernel [] dir s = Ok (dir, s)"
| "map_kernel (k # ks) dir s =
     bnd (in_kmem (mappages dir (virt k) (phys_end k - phys_start k) (phys_start k) (kperm k)) s) (\<lambda>(r, s1).
       if r < 0 then bnd (freevm dir s1) (\<lambda>s2. Ok (0, s2)) else map_kernel ks dir s1)"

definition setupkvm :: "'d krn \<Rightarrow> (u32 \<times> 'd krn) outcome" where
  "setupkvm s =
     bnd (in_kmem kalloc s) (\<lambda>(dir, s1).
       if dir = 0 then Ok (0, s1)
       else let m = kmem_of s1;
                s2 = set_kmem (m\<lparr>mem := memset (mem m) (unat dir) 0 PGSIZE\<rparr>) s1
         in panic_if (DEVSPACE < P2V PHYSTOP) ''PHYSTOP too high'' (map_kernel (kmap (kdata s2)) dir s2))"

definition switchkvm :: "'d krn \<Rightarrow> 'd krn" where
  "switchkvm s = s\<lparr>cr3 := V2P (kpgdir s)\<rparr>"

definition kvmalloc :: "'d krn \<Rightarrow> 'd krn outcome" where
  "kvmalloc s = bnd (setupkvm s) (\<lambda>(dir, s1). Ok (switchkvm (s1\<lparr>kpgdir := dir\<rparr>)))"

definition KSTACKSIZE :: u32 where "KSTACKSIZE = 4096"

definition on_mach :: "(machine \<Rightarrow> machine outcome) \<Rightarrow> 'd krn \<Rightarrow> 'd krn outcome" where
  "on_mach f s = bnd (f (mach s)) (\<lambda>m. Ok (s\<lparr>mach := m\<rparr>))"

definition switchuvm :: "nat option \<Rightarrow> 'd krn \<Rightarrow> 'd krn outcome" where
  "switchuvm po s =
     (case po of
        None \<Rightarrow> Panic ''switchuvm: no process''
      | Some p \<Rightarrow>
          panic_if (kstack (ptab s ! p) = 0) ''switchuvm: no kstack''
          (panic_if (pgdir (ptab s ! p) = 0) ''switchuvm: no pgdir''
           (bnd (on_mach (pushcli (apic s)) s) (\<lambda>s1.
              on_mach (popcli (apic s1))
                (s1\<lparr>tss_esp0 := kstack (ptab s1 ! p) + KSTACKSIZE, cr3 := V2P (pgdir (ptab s1 ! p))\<rparr>)))))"

subsection \<open>Loading and growing\<close>

fun loaduvm_loop :: "nat \<Rightarrow> u32 \<Rightarrow> u32 \<Rightarrow> nat \<Rightarrow> u32 \<Rightarrow> u32 \<Rightarrow> u32 \<Rightarrow> 'd krn \<Rightarrow> (int \<times> 'd krn) outcome" where
  "loaduvm_loop 0 dir addr ip off len i s = Ok (0, s)"
| "loaduvm_loop (Suc k) dir addr ip off len i s =
     (if i < len
      then bnd (in_kmem (walkpgdir dir (addr + i) False) s) (\<lambda>(pte, s1).
        panic_if (pte = 0) ''loaduvm: address should exist''
        (let pa = PTE_ADDR (pte_get pte (kmem_of s1));
             n = (if len - i < 4096 then len - i else 4096)
         in bnd (readi (devtab s1) (mypid s1) ip (off + i) n (kf (io s1))) (\<lambda>(r, bs, t).
            let s2 = s1\<lparr>io := (io s1)\<lparr>kf := t\<rparr>\<rparr>; m = kmem_of s2;
                s3 = set_kmem (m\<lparr>mem := put_bytes (mem m) (unat (P2V pa)) bs\<rparr>) s2
            in if word_of_int r \<noteq> n then Ok (- 1, s3)
               else loaduvm_loop k dir addr ip off len (i + 4096) s3)))
      else Ok (0, s))"

definition loaduvm :: "u32 \<Rightarrow> u32 \<Rightarrow> nat \<Rightarrow> u32 \<Rightarrow> u32 \<Rightarrow> 'd krn \<Rightarrow> (int \<times> 'd krn) outcome" where
  "loaduvm dir addr ip off len s =
     panic_if (unat addr mod PGSIZE \<noteq> 0) ''loaduvm: addr must be page aligned''
     (loaduvm_loop (Suc (unat len div PGSIZE)) dir addr ip off len 0 s)"

text \<open>Making room before a page is added: the oldest page goes to the swap file.\<close>

definition make_room :: "nat \<Rightarrow> 'd krn \<Rightarrow> (int \<times> 'd krn) outcome" where
  "make_room p s =
     (if 2 < pid (ptab s ! p) \<and> num_pages_in_phys_mem (ptab s ! p) = word_of_nat MAX_PSYC_PAGES
      then bnd (if num_pages_in_file (ptab s ! p) = word_of_nat (MAX_TOTAL_PAGES - MAX_PSYC_PAGES) then Ok s
                else if swapFile (ptab s ! p) = None then createSwapFile p s else Ok s) (\<lambda>s1.
           MemoryToSwapFile p (choosePageFromPhysMem (ptab s1 ! p)) s1)
      else Ok (0, s))"

fun allocuvm_loop :: "nat \<Rightarrow> u32 \<Rightarrow> u32 \<Rightarrow> u32 \<Rightarrow> u32 \<Rightarrow> 'd krn \<Rightarrow> (u32 \<times> 'd krn) outcome" where
  "allocuvm_loop 0 dir a oldsz newsz s = Blocked"
| "allocuvm_loop (Suc k) dir a oldsz newsz s =
     (if a < newsz
      then with_cur (\<lambda>p s.
        bnd (make_room p s) (\<lambda>(r, s1).
        if r = - 1 then Ok (0, s1)
        else bnd (in_kmem kalloc s1) (\<lambda>(m, s2).
        if m = 0 then bnd (deallocuvm dir newsz oldsz s2) (\<lambda>(_, s3). Ok (0, s3))
        else let km = kmem_of s2; s3 = set_kmem (km\<lparr>mem := memset (mem km) (unat m) 0 PGSIZE\<rparr>) s2 in
        bnd (in_kmem (mappages dir a 4096 (V2P m) (PTE_W OR PTE_U)) s3) (\<lambda>(r, s4).
        if r < 0
        then bnd (deallocuvm dir newsz oldsz s4) (\<lambda>(_, s5).
             bnd (on_kmem (kfree m) s5) (\<lambda>s6. Ok (0, s6)))
        else bnd (on_pp p (AddNewPageToPhysicalMemory a) s4)
               (allocuvm_loop k dir (a + 4096) oldsz newsz))))) s
      else Ok (newsz, s))"

definition allocuvm :: "u32 \<Rightarrow> u32 \<Rightarrow> u32 \<Rightarrow> 'd krn \<Rightarrow> (u32 \<times> 'd krn) outcome" where
  "allocuvm dir oldsz newsz s =
     (if KERNBASE \<le> newsz then Ok (0, s)
      else if newsz < oldsz then Ok (oldsz, s)
      else allocuvm_loop (unat newsz div PGSIZE + 2) dir (PGROUNDUP oldsz) oldsz newsz s)"

subsection \<open>Copying\<close>

definition copyuvm_bad :: "u32 \<Rightarrow> 'd krn \<Rightarrow> (u32 \<times> 'd krn) outcome" where
  "copyuvm_bad d s = bnd (freevm d s) (\<lambda>s1. Ok (0, s1))"

fun copyuvm_loop :: "nat \<Rightarrow> u32 \<Rightarrow> u32 \<Rightarrow> u32 \<Rightarrow> u32 \<Rightarrow> 'd krn \<Rightarrow> (u32 \<times> 'd krn) outcome" where
  "copyuvm_loop 0 dir d len i s = Ok (d, s)"
| "copyuvm_loop (Suc k) dir d len i s =
     (if i < len
      then bnd (in_kmem (walkpgdir dir i False) s) (\<lambda>(pte, s1).
        panic_if (pte = 0) ''copyuvm: pte should exist''
        (let e = pte_get pte (kmem_of s1) in
         panic_if (e AND PTE_P = 0) ''copyuvm: page not present''
         (if e AND PTE_PG = 0
          then bnd (in_kmem kalloc s1) (\<lambda>(m, s2).
            if m = 0 then copyuvm_bad d s2
            else let km = kmem_of s2;
                     s3 = set_kmem (km\<lparr>mem := memmove (mem km) (unat m) (unat (P2V (PTE_ADDR e))) PGSIZE\<rparr>) s2
              in bnd (in_kmem (mappages d i 4096 (V2P m) (PTE_FLAGS e)) s3) (\<lambda>(r, s4).
                 if r < 0 then bnd (on_kmem (kfree m) s4) (copyuvm_bad d)
                 else copyuvm_loop k dir d len (i + 4096) s4))
          else bnd (in_kmem (walkpgdir d i True) s1) (\<lambda>(q, s2).
            fault_if (q = 0)
             (copyuvm_loop k dir d len (i + 4096) (set_kmem (pte_put q (pte_get pte (kmem_of s2) AND 0xfff) (kmem_of s2)) s2))))))
      else Ok (d, s))"

definition copyuvm :: "u32 \<Rightarrow> u32 \<Rightarrow> 'd krn \<Rightarrow> (u32 \<times> 'd krn) outcome" where
  "copyuvm dir len s =
     bnd (setupkvm s) (\<lambda>(d, s1).
       if d = 0 then Ok (0, s1) else copyuvm_loop (Suc (unat len div PGSIZE)) dir d len 0 s1)"

end
