(* ===== verification/Proc.thy ===== *)
theory Proc
  imports Vm
begin

text \<open>
  Processes of the paging kernel (\<open>proc.c\<close>).  A context switch ends a function of the model:
  \<open>sched\<close> stops at its \<open>swtch\<close>, with the saved \<open>intena\<close> in the context of the process, and
  \<open>sched_back\<close> is what the scheduler does when a process has switched back to it.  The half of
  \<open>yield\<close>, \<open>sleep\<close> and \<open>forkret\<close> behind the switch is a function of its own (\<open>yield_resume\<close>,
  \<open>sleep_resume\<close>, \<open>forkret\<close>).
\<close>

subsection \<open>The locks of the process layer\<close>

definition pt_acquire :: "'d krn \<Rightarrow> 'd krn outcome" where
  "pt_acquire s = bnd (acquire (apic s) (mem (kmem_of s)) (kfp s) (ptlk s) (mach s)) (\<lambda>(l, m).
     Ok (s\<lparr>ptlk := l, mach := m\<rparr>))"

definition pt_release :: "'d krn \<Rightarrow> 'd krn outcome" where
  "pt_release s = bnd (release (apic s) (ptlk s) (mach s)) (\<lambda>(l, m). Ok (s\<lparr>ptlk := l, mach := m\<rparr>))"

definition tick_acquire :: "'d krn \<Rightarrow> 'd krn outcome" where
  "tick_acquire s = bnd (acquire (apic s) (mem (kmem_of s)) (kfp s) (ticklk s) (mach s)) (\<lambda>(l, m).
     Ok (s\<lparr>ticklk := l, mach := m\<rparr>))"

definition tick_release :: "'d krn \<Rightarrow> 'd krn outcome" where
  "tick_release s = bnd (release (apic s) (ticklk s) (mach s)) (\<lambda>(l, m). Ok (s\<lparr>ticklk := l, mach := m\<rparr>))"

definition pinit :: "'d krn \<Rightarrow> 'd krn" where
  "pinit s = s\<lparr>ptlk := initlock ''ptable'' (ptlk s)\<rparr>"

definition set_state :: "nat \<Rightarrow> procstate \<Rightarrow> 'd krn \<Rightarrow> 'd krn" where
  "set_state p st = upd_pp p (\<lambda>q. q\<lparr>state := st\<rparr>)"

subsection \<open>Creating processes\<close>

fun find_unused :: "nat \<Rightarrow> pproc list \<Rightarrow> nat option" where
  "find_unused i [] = None"
| "find_unused i (p # ps) = (if state p = UNUSED then Some i else find_unused (Suc i) ps)"

definition allocproc :: "'d krn \<Rightarrow> (nat option \<times> 'd krn) outcome" where
  "allocproc s =
     bnd (pt_acquire s) (\<lambda>s1.
     case find_unused 0 (ptab s1) of
       None \<Rightarrow> bnd (pt_release s1) (\<lambda>s2. Ok (None, s2))
     | Some p \<Rightarrow>
         bnd (pt_release (upd_pp p (\<lambda>q. q\<lparr>state := EMBRYO, pid := nextpid s1\<rparr>)
                (s1\<lparr>nextpid := wrap32 (nextpid s1 + 1)\<rparr>))) (\<lambda>s2.
         bnd (in_kmem kalloc s2) (\<lambda>(k, s3).
         let s4 = upd_pp p (\<lambda>q. q\<lparr>kstack := k\<rparr>) s3 in
         if k = 0 then Ok (None, set_state p UNUSED s4)
         else Ok (Some p, upd_pp p (\<lambda>q. ResetProcPagesData (q\<lparr>ctxt := Forkret\<rparr>)) s4))))"

definition initcode_tf :: trapframe where
  "initcode_tf = \<lparr>tf_eax = 0, tf_trapno = 0, tf_eip = 0, tf_cs = 0x1b, tf_ds = 0x23, tf_es = 0x23,
     tf_ss = 0x23, tf_eflags = 0x200, tf_esp = 4096\<rparr>"

text \<open>\<open>initcode\<close> is the program linked into the kernel.\<close>

definition userinit :: "u8 list \<Rightarrow> 'd krn \<Rightarrow> 'd krn outcome" where
  "userinit initcode s =
     bnd (allocproc s) (\<lambda>(po, s1).
     case po of
       None \<Rightarrow> Fault
     | Some p \<Rightarrow>
         bnd (setupkvm (s1\<lparr>initproc := Some p\<rparr>)) (\<lambda>(dir, s2).
         panic_if (dir = 0) ''userinit: out of memory?''
         (bnd (on_kmem (inituvm dir initcode (word_of_nat (length initcode)))
                 (upd_pp p (\<lambda>q. q\<lparr>pgdir := dir\<rparr>) s2)) (\<lambda>s3.
          bnd (in_fs (namei (devtab s3) (mypid s3) (mycwd s3) [SLASH]) s3) (\<lambda>(c, s4).
          bnd (pt_acquire (upd_pp p (\<lambda>q. q\<lparr>sz := 4096, tf := initcode_tf, pname := ''initcode'', cwd := c\<rparr>) s4)) (\<lambda>s5.
          pt_release (set_state p RUNNABLE s5)))))))"

definition growproc :: "int \<Rightarrow> 'd krn \<Rightarrow> (int \<times> 'd krn) outcome" where
  "growproc n =
     with_cur (\<lambda>p s.
       let old = sz (ptab s ! p); dir = pgdir (ptab s ! p)
       in bnd (if 0 < n then allocuvm dir old (old + word_of_int n) s
               else if n < 0 then deallocuvm dir old (old + word_of_int n) s
               else Ok (old, s)) (\<lambda>(r, s1).
          if n \<noteq> 0 \<and> r = 0 then Ok (- 1, s1)
          else bnd (switchuvm (Some p) (upd_pp p (\<lambda>q. q\<lparr>sz := r\<rparr>) s1)) (\<lambda>s2. Ok (0, s2))))"

fun fork_files :: "nat \<Rightarrow> nat \<Rightarrow> nat \<Rightarrow> nat \<Rightarrow> 'd krn \<Rightarrow> 'd krn outcome" where
  "fork_files 0 i p np s = Ok s"
| "fork_files (Suc k) i p np s =
     (case ofile (ptab s ! p) ! i of
        None \<Rightarrow> fork_files k (Suc i) p np s
      | Some f \<Rightarrow>
          bnd (filedup f (io s)) (\<lambda>(g, t).
          fork_files k (Suc i) p np (upd_pp np (\<lambda>q. q\<lparr>ofile := (ofile q)[i := Some g]\<rparr>) (s\<lparr>io := t\<rparr>))))"

definition fork :: "'d krn \<Rightarrow> (int \<times> 'd krn) outcome" where
  "fork =
     with_cur (\<lambda>p s.
       bnd (allocproc s) (\<lambda>(npo, s1).
       case npo of
         None \<Rightarrow> Ok (- 1, s1)
       | Some np \<Rightarrow>
           bnd (copyuvm (pgdir (ptab s1 ! p)) (sz (ptab s1 ! p)) s1) (\<lambda>(dir, s2).
           let s3 = upd_pp np (\<lambda>q. q\<lparr>pgdir := dir\<rparr>) s2 in
           if dir = 0
           then bnd (on_kmem (kfree (kstack (ptab s3 ! np))) s3) (\<lambda>s4.
                Ok (- 1, upd_pp np (\<lambda>q. q\<lparr>kstack := 0, state := UNUSED\<rparr>) s4))
           else
             let s4 = upd_pp np (\<lambda>q. q\<lparr>sz := sz (ptab s3 ! p), parent := Some p, tf := tf (ptab s3 ! p)\<rparr>) s3 in
             bnd (if 2 < pid (ptab s4 ! p) then CopyContentsOfCurrentProcStructs p np s4 else Ok s4) (\<lambda>s5.
             bnd (fork_files NOFILE 0 p np (upd_pp np (\<lambda>q. q\<lparr>tf := (tf q)\<lparr>tf_eax := 0\<rparr>\<rparr>) s5)) (\<lambda>s6.
             bnd (in_fs (idup (cwd (ptab s6 ! p))) s6) (\<lambda>(c, s7).
             let s8 = upd_pp np (\<lambda>q. q\<lparr>cwd := c, pname := pname (ptab s7 ! p)\<rparr>) s7; r = pid (ptab s8 ! np) in
             bnd (pt_acquire s8) (\<lambda>s9.
             bnd (pt_release (set_state np RUNNABLE s9)) (\<lambda>s10. Ok (r, s10)))))))))"

subsection \<open>Switching\<close>

text \<open>The context switch: the kernel stack of the process keeps where it was and its \<open>intena\<close>.\<close>

definition sched :: "'d krn \<Rightarrow> 'd krn outcome" where
  "sched =
     with_cur (\<lambda>p s.
       bnd (holding (apic s) (ptlk s) (mach s)) (\<lambda>(h, m).
       panic_if (\<not> h) ''sched ptable.lock''
       (bnd (mycpu (apic s) m) (\<lambda>c.
        panic_if (ncli (cpus m ! c) \<noteq> 1) ''sched locks''
        (panic_if (state (ptab s ! p) = RUNNING) ''sched running''
         (panic_if (iflag m (apic s)) ''sched interruptible''
          (Ok (upd_pp p (\<lambda>q. q\<lparr>ctxt := InKernel (intena (cpus m ! c))\<rparr>) (s\<lparr>mach := m\<rparr>)))))))))"

definition set_cpuproc :: "nat option \<Rightarrow> 'd krn \<Rightarrow> 'd krn outcome" where
  "set_cpuproc p s = bnd (mycpu (apic s) (mach s)) (\<lambda>c. Ok (s\<lparr>mach := upd_cpu c (\<lambda>x. x\<lparr>cpuproc := p\<rparr>) (mach s)\<rparr>))"

definition sched_resume :: "bool \<Rightarrow> 'd krn \<Rightarrow> 'd krn outcome" where
  "sched_resume b s = bnd (mycpu (apic s) (mach s)) (\<lambda>c. Ok (s\<lparr>mach := upd_cpu c (\<lambda>x. x\<lparr>intena := b\<rparr>) (mach s)\<rparr>))"

definition sched_dispatch :: "nat \<Rightarrow> 'd krn \<Rightarrow> 'd krn outcome" where
  "sched_dispatch p s =
     bnd (set_cpuproc (Some p) s) (\<lambda>s1. bnd (switchuvm (Some p) s1) (\<lambda>s2. Ok (set_state p RUNNING s2)))"

definition sched_back :: "'d krn \<Rightarrow> 'd krn outcome" where
  "sched_back s = set_cpuproc None (switchkvm s)"

text \<open>
  The loop over the process table.  \<open>run i\<close> is what process \<open>i\<close> does from the switch to it up to
  its switch back; the result lists the processes that ran.
\<close>

fun sched_loop :: "(nat \<Rightarrow> 'd krn \<Rightarrow> 'd krn outcome) \<Rightarrow> nat \<Rightarrow> nat \<Rightarrow> 'd krn \<Rightarrow> (nat list \<times> 'd krn) outcome" where
  "sched_loop run 0 i s = Ok ([], s)"
| "sched_loop run (Suc k) i s =
     (if state (ptab s ! i) \<noteq> RUNNABLE then sched_loop run k (Suc i) s
      else bnd (sched_dispatch i s) (\<lambda>s1.
           bnd (run i s1) (\<lambda>s2.
           bnd (sched_back s2) (\<lambda>s3.
           bnd (sched_loop run k (Suc i) s3) (\<lambda>(ran, s4). Ok (i # ran, s4))))))"

definition scheduler_start :: "'d krn \<Rightarrow> 'd krn outcome" where
  "scheduler_start s = set_cpuproc None s"

definition scheduler_pass :: "(nat \<Rightarrow> 'd krn \<Rightarrow> 'd krn outcome) \<Rightarrow> 'd krn \<Rightarrow> (nat list \<times> 'd krn) outcome" where
  "scheduler_pass run s =
     bnd (pt_acquire (s\<lparr>mach := set_iflag (apic s) True (mach s)\<rparr>)) (\<lambda>s1.
     bnd (sched_loop run (length (ptab s1)) 0 s1) (\<lambda>(ran, s2).
     bnd (pt_release s2) (\<lambda>s3. Ok (ran, s3))))"

definition yield_cpu :: "'d krn \<Rightarrow> 'd krn outcome" where
  "yield_cpu s = bnd (pt_acquire s) (with_cur (\<lambda>p s1. sched (set_state p RUNNABLE s1)))"

definition yield_resume :: "bool \<Rightarrow> 'd krn \<Rightarrow> 'd krn outcome" where
  "yield_resume b s = bnd (sched_resume b s) pt_release"

definition forkret :: "'d krn \<Rightarrow> 'd krn outcome" where
  "forkret s =
     bnd (pt_release s) (\<lambda>s1.
     if first_run s1
     then bnd (kfs (iinit (mypid s1) ROOTDEV) (s1\<lparr>first_run := False\<rparr>)) (\<lambda>s2.
          kfs (\<lambda>t. bnd (initlog (mypid s2) ROOTDEV (lg t)) (\<lambda>l. Ok (t\<lparr>lg := l\<rparr>))) s2)
     else Ok s1)"

subsection \<open>Sleeping and waking\<close>

datatype klock = PtLock | TickLock

fun kl_acquire :: "klock \<Rightarrow> 'd krn \<Rightarrow> 'd krn outcome" where
  "kl_acquire PtLock s = pt_acquire s"
| "kl_acquire TickLock s = tick_acquire s"

fun kl_release :: "klock \<Rightarrow> 'd krn \<Rightarrow> 'd krn outcome" where
  "kl_release PtLock s = pt_release s"
| "kl_release TickLock s = tick_release s"

definition sleep :: "channel \<Rightarrow> klock \<Rightarrow> 'd krn \<Rightarrow> 'd krn outcome" where
  "sleep ch lk s =
     (case cur s of
        None \<Rightarrow> Panic ''sleep''
      | Some p \<Rightarrow>
          bnd (if lk \<noteq> PtLock then bnd (pt_acquire s) (kl_release lk) else Ok s) (\<lambda>s1.
          sched (upd_pp p (\<lambda>q. q\<lparr>chan := ch, state := SLEEPING\<rparr>) s1)))"

definition sleep_resume :: "klock \<Rightarrow> bool \<Rightarrow> 'd krn \<Rightarrow> 'd krn outcome" where
  "sleep_resume lk b s =
     bnd (sched_resume b s) (with_cur (\<lambda>p s1.
       let s2 = upd_pp p (\<lambda>q. q\<lparr>chan := NullChan\<rparr>) s1
       in if lk \<noteq> PtLock then bnd (pt_release s2) (kl_acquire lk) else Ok s2))"

definition wake_one :: "channel \<Rightarrow> pproc \<Rightarrow> pproc" where
  "wake_one ch q = (if state q = SLEEPING \<and> chan q = ch then q\<lparr>state := RUNNABLE\<rparr> else q)"

definition wakeup1 :: "channel \<Rightarrow> 'd krn \<Rightarrow> 'd krn" where
  "wakeup1 ch s = s\<lparr>ptab := map (wake_one ch) (ptab s)\<rparr>"

definition wakeup :: "channel \<Rightarrow> 'd krn \<Rightarrow> 'd krn outcome" where
  "wakeup ch s = bnd (pt_acquire s) (\<lambda>s1. pt_release (wakeup1 ch s1))"

fun find_pid :: "int \<Rightarrow> nat \<Rightarrow> pproc list \<Rightarrow> nat option" where
  "find_pid n i [] = None"
| "find_pid n i (p # ps) = (if pid p = n then Some i else find_pid n (Suc i) ps)"

definition kill :: "int \<Rightarrow> 'd krn \<Rightarrow> (int \<times> 'd krn) outcome" where
  "kill n s =
     bnd (pt_acquire s) (\<lambda>s1.
     case find_pid n 0 (ptab s1) of
       Some i \<Rightarrow>
         bnd (pt_release (upd_pp i (\<lambda>q. q\<lparr>killed := True,
                state := (if state q = SLEEPING then RUNNABLE else state q)\<rparr>) s1)) (\<lambda>s2. Ok (0, s2))
     | None \<Rightarrow> bnd (pt_release s1) (\<lambda>s2. Ok (- 1, s2)))"

subsection \<open>Exiting and waiting\<close>

fun exit_files :: "nat \<Rightarrow> nat \<Rightarrow> nat \<Rightarrow> 'd krn \<Rightarrow> 'd krn outcome" where
  "exit_files 0 fd p s = Ok s"
| "exit_files (Suc k) fd p s =
     (case ofile (ptab s ! p) ! fd of
        None \<Rightarrow> exit_files k (Suc fd) p s
      | Some f \<Rightarrow>
          bnd (on_io (fileclose (mypid s) f) s) (\<lambda>s1.
          exit_files k (Suc fd) p (upd_pp p (\<lambda>q. q\<lparr>ofile := (ofile q)[fd := None]\<rparr>) s1)))"

definition proc_chan :: "nat option \<Rightarrow> channel" where
  "proc_chan po = (case po of None \<Rightarrow> NullChan | Some j \<Rightarrow> Chan_proc j)"

text \<open>The abandoned children, in the order of the table; \<open>ini\<close> is \<open>initproc\<close>.\<close>

fun reparent :: "nat \<Rightarrow> nat \<Rightarrow> nat \<Rightarrow> nat option \<Rightarrow> 'd krn \<Rightarrow> 'd krn" where
  "reparent 0 i p ini s = s"
| "reparent (Suc k) i p ini s =
     reparent k (Suc i) p ini
       (if parent (ptab s ! i) = Some p
        then let s1 = upd_pp i (\<lambda>q. q\<lparr>parent := ini\<rparr>) s
          in if state (ptab s1 ! i) = ZOMBIE
             then wakeup1 (proc_chan ini) s1 else s1
        else s)"

definition exit_proc :: "'d krn \<Rightarrow> 'd krn outcome" where
  "exit_proc =
     with_cur (\<lambda>p s.
       panic_if (Some p = initproc s) ''init exiting''
       (bnd (exit_files NOFILE 0 p s) (\<lambda>s1.
        bnd (kfs fs_begin_op s1) (\<lambda>s2.
        case cwd (ptab s2 ! p) of
          None \<Rightarrow> Fault
        | Some c \<Rightarrow>
            bnd (kfs (iput (mypid s2) c) s2) (\<lambda>s3.
            bnd (kfs (fs_end_op (mypid s3)) s3) (\<lambda>s4.
            let s5 = upd_pp p (\<lambda>q. q\<lparr>cwd := None\<rparr>) s4 in
            bnd (if swapFile (ptab s5 ! p) \<noteq> None
                 then bnd (removeSwapFile p s5) (\<lambda>(_, s6). Ok (upd_pp p (\<lambda>q. q\<lparr>swapFile := None\<rparr>) s6))
                 else Ok s5) (\<lambda>s7.
            bnd (pt_acquire s7) (\<lambda>s8.
            let s9 = wakeup1 (proc_chan (parent (ptab s8 ! p))) s8;
                s10 = reparent (length (ptab s9)) 0 p (initproc s9) s9
            in sched (set_state p ZOMBIE s10)))))))))"

text \<open>The scan of \<open>wait\<close>: whether there are children, and the first one that has exited.\<close>

fun wait_scan :: "nat \<Rightarrow> nat \<Rightarrow> bool \<Rightarrow> pproc list \<Rightarrow> bool \<times> nat option" where
  "wait_scan p i kids [] = (kids, None)"
| "wait_scan p i kids (q # qs) =
     (if parent q \<noteq> Some p then wait_scan p (Suc i) kids qs
      else if state q = ZOMBIE then (True, Some i) else wait_scan p (Suc i) True qs)"

datatype 'd waited = Returned int "'d krn" | Sleeping "'d krn"

definition reap :: "nat \<Rightarrow> 'd krn \<Rightarrow> (int \<times> 'd krn) outcome" where
  "reap i s =
     (let n = pid (ptab s ! i) in
      bnd (on_kmem (kfree (kstack (ptab s ! i))) s) (\<lambda>s1.
      bnd (freevm (pgdir (ptab s1 ! i)) (upd_pp i (\<lambda>q. q\<lparr>kstack := 0\<rparr>) s1)) (\<lambda>s2.
      bnd (pt_release (upd_pp i (\<lambda>q. q\<lparr>pid := 0, parent := None, pname := [], killed := False,
             state := UNUSED\<rparr>) s2)) (\<lambda>s3. Ok (n, s3)))))"

text \<open>One round of the loop of \<open>wait\<close>, entered with the lock held: it returns or goes to sleep.\<close>

definition wait_round :: "'d krn \<Rightarrow> 'd waited outcome" where
  "wait_round =
     with_cur (\<lambda>p s.
       case wait_scan p 0 False (ptab s) of
         (_, Some i) \<Rightarrow> bnd (reap i s) (\<lambda>(n, s1). Ok (Returned n s1))
       | (kids, None) \<Rightarrow>
           if \<not> kids \<or> killed (ptab s ! p) then bnd (pt_release s) (\<lambda>s1. Ok (Returned (- 1) s1))
           else bnd (sleep (Chan_proc p) PtLock s) (\<lambda>s1. Ok (Sleeping s1)))"

definition wait_proc :: "'d krn \<Rightarrow> 'd waited outcome" where
  "wait_proc s = bnd (pt_acquire s) wait_round"

definition wait_resume :: "bool \<Rightarrow> 'd krn \<Rightarrow> 'd waited outcome" where
  "wait_resume b s = bnd (sleep_resume PtLock b s) wait_round"

end
