(* ===== verification/Lottery_Proc.thy ===== *)
theory Lottery_Proc
  imports Lottery Proc
begin

text \<open>
  Processes of the scheduling tree (\<open>proc.c\<close>, \<open>vm.c\<close> and \<open>sysproc.c\<close> of
  \<open>Offline-03-Xv6-and-Scheduling/xv6-public\<close>): creating, ending and waking them, with their tickets.
  The page tables are those of \<open>Pgtab\<close>, whose code the two trees share; the address spaces here are
  the original ones, without a swap file.  A function that gives up the processor ends where it calls
  \<open>swtch\<close>, as in \<open>Proc\<close>; the checks \<open>sched\<close> makes on the CPU (\<open>ncli\<close> and the interrupt flag) have no
  counterpart in this state, nor has the first run of \<open>forkret\<close>, which reads the disk.
\<close>

subsection \<open>Address spaces\<close>

text \<open>
  A round of \<open>deallocuvm\<close> goes up by at least a page unless the address wraps around; \<open>d\<close> below is the
  linker symbol \<open>data\<close>.
\<close>

fun lv_dealloc_loop :: "nat \<Rightarrow> u32 \<Rightarrow> u32 \<Rightarrow> u32 \<Rightarrow> kmem \<Rightarrow> kmem outcome" where
  "lv_dealloc_loop 0 dir a oldsz s = Blocked"
| "lv_dealloc_loop (Suc k) dir a oldsz s =
     (if a < oldsz
      then bnd (walkpgdir dir a False s) (\<lambda>(pte, s1).
        if pte = 0 then lv_dealloc_loop k dir (PGADDR (PDX a + 1) 0 0 - 4096 + 4096) oldsz s1
        else let e = pte_get pte s1 in
        if e AND PTE_P \<noteq> 0
        then panic_if (PTE_ADDR e = 0) ''kfree''
          (bnd (kfree (P2V (PTE_ADDR e)) s1) (\<lambda>s2.
           lv_dealloc_loop k dir (a + 4096) oldsz (pte_put pte 0 s2)))
        else lv_dealloc_loop k dir (a + 4096) oldsz s1)
      else Ok s)"

definition lv_deallocuvm :: "u32 \<Rightarrow> u32 \<Rightarrow> u32 \<Rightarrow> kmem \<Rightarrow> (u32 \<times> kmem) outcome" where
  "lv_deallocuvm dir oldsz newsz s =
     (if oldsz \<le> newsz then Ok (oldsz, s)
      else bnd (lv_dealloc_loop (unat oldsz div PGSIZE + 2) dir (PGROUNDUP newsz) oldsz s) (\<lambda>s1. Ok (newsz, s1)))"

fun lv_free_tables :: "nat \<Rightarrow> u32 \<Rightarrow> u32 \<Rightarrow> kmem \<Rightarrow> kmem outcome" where
  "lv_free_tables 0 dir i s = Ok s"
| "lv_free_tables (Suc k) dir i s =
     (let e = rd32 (mem s) (unat (dir + 4 * i)) in
      bnd (if e AND PTE_P \<noteq> 0 then kfree (P2V (PTE_ADDR e)) s else Ok s) (lv_free_tables k dir (i + 1)))"

definition lv_freevm :: "u32 \<Rightarrow> kmem \<Rightarrow> kmem outcome" where
  "lv_freevm dir s =
     panic_if (dir = 0) ''freevm: no pgdir''
     (bnd (lv_deallocuvm dir KERNBASE 0 s) (\<lambda>(_, s1).
      bnd (lv_free_tables NPDENTRIES dir 0 s1) (kfree dir)))"

fun lv_map_kernel :: "kmap_entry list \<Rightarrow> u32 \<Rightarrow> kmem \<Rightarrow> (u32 \<times> kmem) outcome" where
  "lv_map_kernel [] dir s = Ok (dir, s)"
| "lv_map_kernel (k # ks) dir s =
     bnd (mappages dir (virt k) (phys_end k - phys_start k) (phys_start k) (kperm k) s) (\<lambda>(r, s1).
       if r < 0 then bnd (lv_freevm dir s1) (\<lambda>s2. Ok (0, s2)) else lv_map_kernel ks dir s1)"

definition lv_setupkvm :: "u32 \<Rightarrow> kmem \<Rightarrow> (u32 \<times> kmem) outcome" where
  "lv_setupkvm d s =
     bnd (kalloc s) (\<lambda>(dir, s1).
       if dir = 0 then Ok (0, s1)
       else panic_if (DEVSPACE < P2V PHYSTOP) ''PHYSTOP too high''
         (lv_map_kernel (kmap d) dir (s1\<lparr>mem := memset (mem s1) (unat dir) 0 PGSIZE\<rparr>)))"

fun lv_alloc_loop :: "nat \<Rightarrow> u32 \<Rightarrow> u32 \<Rightarrow> u32 \<Rightarrow> u32 \<Rightarrow> kmem \<Rightarrow> (u32 \<times> kmem) outcome" where
  "lv_alloc_loop 0 dir a oldsz newsz s = Blocked"
| "lv_alloc_loop (Suc k) dir a oldsz newsz s =
     (if a < newsz
      then bnd (kalloc s) (\<lambda>(m, s1).
        if m = 0 then bnd (lv_deallocuvm dir newsz oldsz s1) (\<lambda>(_, s2). Ok (0, s2))
        else bnd (mappages dir a 4096 (V2P m) (PTE_W OR PTE_U) (s1\<lparr>mem := memset (mem s1) (unat m) 0 PGSIZE\<rparr>)) (\<lambda>(r, s2).
          if r < 0
          then bnd (lv_deallocuvm dir newsz oldsz s2) (\<lambda>(_, s3). bnd (kfree m s3) (\<lambda>s4. Ok (0, s4)))
          else lv_alloc_loop k dir (a + 4096) oldsz newsz s2))
      else Ok (newsz, s))"

definition lv_allocuvm :: "u32 \<Rightarrow> u32 \<Rightarrow> u32 \<Rightarrow> kmem \<Rightarrow> (u32 \<times> kmem) outcome" where
  "lv_allocuvm dir oldsz newsz s =
     (if KERNBASE \<le> newsz then Ok (0, s)
      else if newsz < oldsz then Ok (oldsz, s)
      else lv_alloc_loop (unat newsz div PGSIZE + 2) dir (PGROUNDUP oldsz) oldsz newsz s)"

definition lv_copy_bad :: "u32 \<Rightarrow> kmem \<Rightarrow> (u32 \<times> kmem) outcome" where
  "lv_copy_bad d s = bnd (lv_freevm d s) (\<lambda>s1. Ok (0, s1))"

fun lv_copy_loop :: "nat \<Rightarrow> u32 \<Rightarrow> u32 \<Rightarrow> u32 \<Rightarrow> u32 \<Rightarrow> kmem \<Rightarrow> (u32 \<times> kmem) outcome" where
  "lv_copy_loop 0 dir d len i s = Ok (d, s)"
| "lv_copy_loop (Suc k) dir d len i s =
     (if i < len
      then bnd (walkpgdir dir i False s) (\<lambda>(pte, s1).
        panic_if (pte = 0) ''copyuvm: pte should exist''
        (let e = pte_get pte s1 in
         panic_if (e AND PTE_P = 0) ''copyuvm: page not present''
         (bnd (kalloc s1) (\<lambda>(m, s2).
            if m = 0 then lv_copy_bad d s2
            else bnd (mappages d i 4096 (V2P m) (PTE_FLAGS e)
                   (s2\<lparr>mem := memmove (mem s2) (unat m) (unat (P2V (PTE_ADDR e))) PGSIZE\<rparr>)) (\<lambda>(r, s3).
              if r < 0 then bnd (kfree m s3) (lv_copy_bad d)
              else lv_copy_loop k dir d len (i + 4096) s3)))))
      else Ok (d, s))"

definition lv_copyuvm :: "u32 \<Rightarrow> u32 \<Rightarrow> u32 \<Rightarrow> kmem \<Rightarrow> (u32 \<times> kmem) outcome" where
  "lv_copyuvm d0 dir len s =
     bnd (lv_setupkvm d0 s) (\<lambda>(d, s1).
       if d = 0 then Ok (0, s1) else lv_copy_loop (Suc (unat len div PGSIZE)) dir d len 0 s1)"

subsection \<open>State\<close>

record 'd lkrn =
  lst :: lstate
  lio :: "'d kio"
  lnextpid :: int
  linit :: "nat option"      \<comment> \<open>\<open>initproc\<close>\<close>
  ldata :: u32               \<comment> \<open>the linker symbol \<open>data\<close>\<close>
  lcr3 :: u32

definition l_proc :: "'d lkrn \<Rightarrow> nat \<Rightarrow> lproc" where
  "l_proc s p = procs (lst s) ! p"

definition l_upd :: "nat \<Rightarrow> (lproc \<Rightarrow> lproc) \<Rightarrow> 'd lkrn \<Rightarrow> 'd lkrn" where
  "l_upd p f s = s\<lparr>lst := upd_proc p f (lst s)\<rparr>"

definition l_with :: "(nat \<Rightarrow> 'd lkrn \<Rightarrow> 'r outcome) \<Rightarrow> 'd lkrn \<Rightarrow> 'r outcome" where
  "l_with f s = (case cproc (lst s) of None \<Rightarrow> Fault | Some p \<Rightarrow> f p s)"

definition l_acquire :: "'d lkrn \<Rightarrow> 'd lkrn outcome" where
  "l_acquire s = bnd (lk_acquire (ptable_lock (lst s))) (\<lambda>l. Ok (s\<lparr>lst := (lst s)\<lparr>ptable_lock := l\<rparr>\<rparr>))"

definition l_release :: "'d lkrn \<Rightarrow> 'd lkrn outcome" where
  "l_release s = bnd (lk_release (ptable_lock (lst s))) (\<lambda>l. Ok (s\<lparr>lst := (lst s)\<lparr>ptable_lock := l\<rparr>\<rparr>))"

definition l_mem :: "(kmem \<Rightarrow> kmem outcome) \<Rightarrow> 'd lkrn \<Rightarrow> 'd lkrn outcome" where
  "l_mem f s = bnd (f (kpg (lio s))) (\<lambda>m. Ok (s\<lparr>lio := (lio s)\<lparr>kpg := m\<rparr>\<rparr>))"

definition l_inmem :: "(kmem \<Rightarrow> ('r \<times> kmem) outcome) \<Rightarrow> 'd lkrn \<Rightarrow> ('r \<times> 'd lkrn) outcome" where
  "l_inmem f s = bnd (f (kpg (lio s))) (\<lambda>(r, m). Ok (r, s\<lparr>lio := (lio s)\<lparr>kpg := m\<rparr>\<rparr>))"

definition l_fs :: "('d fs \<Rightarrow> 'd fs outcome) \<Rightarrow> 'd lkrn \<Rightarrow> 'd lkrn outcome" where
  "l_fs f s = bnd (on_fs f (lio s)) (\<lambda>t. Ok (s\<lparr>lio := t\<rparr>))"

subsection \<open>Creating processes\<close>

fun l_unused :: "nat \<Rightarrow> lproc list \<Rightarrow> nat option" where
  "l_unused i [] = None"
| "l_unused i (p # ps) = (if state p = UNUSED then Some i else l_unused (Suc i) ps)"

definition l_allocproc :: "'d lkrn \<Rightarrow> (nat option \<times> 'd lkrn) outcome" where
  "l_allocproc s =
     bnd (l_acquire s) (\<lambda>s1.
     case l_unused 0 (procs (lst s1)) of
       None \<Rightarrow> bnd (l_release s1) (\<lambda>s2. Ok (None, s2))
     | Some p \<Rightarrow>
         bnd (l_release (l_upd p (\<lambda>q. q\<lparr>state := EMBRYO, pid := lnextpid s1, tickets := 1, ticks := 0, ticks1 := 0, ticks2 := 0\<rparr>)
                (s1\<lparr>lnextpid := wrap32 (lnextpid s1 + 1)\<rparr>))) (\<lambda>s2.
         bnd (l_inmem kalloc s2) (\<lambda>(k, s3).
         let s4 = l_upd p (\<lambda>q. q\<lparr>kstack := k\<rparr>) s3 in
         if k = 0 then Ok (None, l_upd p (\<lambda>q. q\<lparr>state := UNUSED\<rparr>) s4)
         else Ok (Some p, l_upd p (\<lambda>q. q\<lparr>ctxt := Forkret\<rparr>) s4))))"

text \<open>\<open>initcode\<close> is the program linked into the kernel.\<close>

definition l_userinit :: "'d devsw list \<Rightarrow> u8 list \<Rightarrow> 'd lkrn \<Rightarrow> 'd lkrn outcome" where
  "l_userinit dv initcode s =
     bnd (l_allocproc s) (\<lambda>(po, s1).
     case po of
       None \<Rightarrow> Fault
     | Some p \<Rightarrow>
         bnd (l_inmem (lv_setupkvm (ldata s1)) (s1\<lparr>linit := Some p\<rparr>)) (\<lambda>(dir, s2).
         panic_if (dir = 0) ''userinit: out of memory?''
         (bnd (l_mem (inituvm dir initcode (word_of_nat (length initcode))) (l_upd p (\<lambda>q. q\<lparr>pgdir := dir\<rparr>) s2)) (\<lambda>s3.
          bnd (namei dv 0 None [SLASH] (kf (lio s3))) (\<lambda>(c, t).
          bnd (l_acquire (l_upd p (\<lambda>q. q\<lparr>sz := 4096, tf := initcode_tf, pname := ''initcode'', cwd := c\<rparr>)
                 (s3\<lparr>lio := (lio s3)\<lparr>kf := t\<rparr>\<rparr>))) (\<lambda>s4.
          l_release (l_upd p (\<lambda>q. q\<lparr>state := RUNNABLE\<rparr>) s4)))))))"

definition l_switchuvm :: "nat \<Rightarrow> 'd lkrn \<Rightarrow> 'd lkrn outcome" where
  "l_switchuvm p s =
     panic_if (kstack (l_proc s p) = 0) ''switchuvm: no kstack''
     (panic_if (pgdir (l_proc s p) = 0) ''switchuvm: no pgdir'' (Ok (s\<lparr>lcr3 := V2P (pgdir (l_proc s p))\<rparr>)))"

definition l_growproc :: "int \<Rightarrow> 'd lkrn \<Rightarrow> (int \<times> 'd lkrn) outcome" where
  "l_growproc n =
     l_with (\<lambda>p s.
       let old = sz (l_proc s p); dir = pgdir (l_proc s p)
       in bnd (if 0 < n then l_inmem (lv_allocuvm dir old (old + word_of_int n)) s
               else if n < 0 then l_inmem (lv_deallocuvm dir old (old + word_of_int n)) s
               else Ok (old, s)) (\<lambda>(r, s1).
          if n \<noteq> 0 \<and> r = 0 then Ok (- 1, s1)
          else bnd (l_switchuvm p (l_upd p (\<lambda>q. q\<lparr>sz := r\<rparr>) s1)) (\<lambda>s2. Ok (0, s2))))"

fun l_fork_files :: "nat \<Rightarrow> nat \<Rightarrow> nat \<Rightarrow> nat \<Rightarrow> 'd lkrn \<Rightarrow> 'd lkrn outcome" where
  "l_fork_files 0 i p np s = Ok s"
| "l_fork_files (Suc k) i p np s =
     (case ofile (l_proc s p) ! i of
        None \<Rightarrow> l_fork_files k (Suc i) p np s
      | Some f \<Rightarrow>
          bnd (filedup f (lio s)) (\<lambda>(g, t).
          l_fork_files k (Suc i) p np (l_upd np (\<lambda>q. q\<lparr>ofile := (ofile q)[i := Some g]\<rparr>) (s\<lparr>lio := t\<rparr>))))"

definition l_fork :: "'d lkrn \<Rightarrow> (int \<times> 'd lkrn) outcome" where
  "l_fork =
     l_with (\<lambda>p s.
       bnd (l_allocproc s) (\<lambda>(npo, s1).
       case npo of
         None \<Rightarrow> Ok (- 1, s1)
       | Some np \<Rightarrow>
           bnd (l_inmem (lv_copyuvm (ldata s1) (pgdir (l_proc s1 p)) (sz (l_proc s1 p))) s1) (\<lambda>(dir, s2).
           let s3 = l_upd np (\<lambda>q. q\<lparr>pgdir := dir\<rparr>) s2 in
           if dir = 0
           then bnd (l_mem (kfree (kstack (l_proc s3 np))) s3) (\<lambda>s4.
                Ok (- 1, l_upd np (\<lambda>q. q\<lparr>kstack := 0, state := UNUSED\<rparr>) s4))
           else
             let s4 = l_upd np (\<lambda>q. q\<lparr>sz := sz (l_proc s3 p), parent := Some p, tf := tf (l_proc s3 p)\<rparr>) s3 in
             bnd (settickets np (tickets (l_proc s4 p)) (lst s4)) (\<lambda>(_, x).
             let s5 = l_upd np (\<lambda>q. q\<lparr>ticks := 0, tf := (tf q)\<lparr>tf_eax := 0\<rparr>\<rparr>) (s4\<lparr>lst := x\<rparr>) in
             bnd (l_fork_files NOFILE 0 p np s5) (\<lambda>s6.
             bnd (idup (cwd (l_proc s6 p)) (kf (lio s6))) (\<lambda>(c, t).
             let s7 = l_upd np (\<lambda>q. q\<lparr>cwd := c, pname := pname (l_proc s6 p)\<rparr>) (s6\<lparr>lio := (lio s6)\<lparr>kf := t\<rparr>\<rparr>);
                 r = pid (l_proc s7 np) in
             bnd (l_acquire s7) (\<lambda>s8.
             bnd (l_release (l_upd np (\<lambda>q. q\<lparr>state := RUNNABLE\<rparr>) s8)) (\<lambda>s9. Ok (r, s9)))))))))"

subsection \<open>Sleeping and waking\<close>

definition l_sched :: "'d lkrn \<Rightarrow> 'd lkrn outcome" where
  "l_sched =
     l_with (\<lambda>p s.
       panic_if (\<not> ptable_lock (lst s)) ''sched ptable.lock''
       (panic_if (state (l_proc s p) = RUNNING) ''sched running'' (Ok s)))"

definition l_yield :: "'d lkrn \<Rightarrow> 'd lkrn outcome" where
  "l_yield s = bnd (l_acquire s) (l_with (\<lambda>p s1. l_sched (l_upd p (\<lambda>q. q\<lparr>state := RUNNABLE\<rparr>) s1)))"

definition l_wake_one :: "channel \<Rightarrow> lproc \<Rightarrow> lproc" where
  "l_wake_one ch q = (if state q = SLEEPING \<and> chan q = ch then q\<lparr>state := RUNNABLE\<rparr> else q)"

definition l_wakeup1 :: "channel \<Rightarrow> 'd lkrn \<Rightarrow> 'd lkrn" where
  "l_wakeup1 ch s = s\<lparr>lst := (lst s)\<lparr>procs := map (l_wake_one ch) (procs (lst s))\<rparr>\<rparr>"

definition l_wakeup :: "channel \<Rightarrow> 'd lkrn \<Rightarrow> 'd lkrn outcome" where
  "l_wakeup ch s = bnd (l_acquire s) (\<lambda>s1. l_release (l_wakeup1 ch s1))"

text \<open>\<open>sleep\<close> on a channel with \<open>ptable.lock\<close> held, up to its switch, and the rest of it.\<close>

definition l_sleep :: "channel \<Rightarrow> 'd lkrn \<Rightarrow> 'd lkrn outcome" where
  "l_sleep ch s =
     (case cproc (lst s) of
        None \<Rightarrow> Panic ''sleep''
      | Some p \<Rightarrow> l_sched (l_upd p (\<lambda>q. q\<lparr>chan := ch, state := SLEEPING\<rparr>) s))"

definition l_sleep_resume :: "'d lkrn \<Rightarrow> 'd lkrn outcome" where
  "l_sleep_resume = l_with (\<lambda>p s. Ok (l_upd p (\<lambda>q. q\<lparr>chan := NullChan\<rparr>) s))"

fun l_find_pid :: "int \<Rightarrow> nat \<Rightarrow> lproc list \<Rightarrow> nat option" where
  "l_find_pid n i [] = None"
| "l_find_pid n i (p # ps) = (if pid p = n then Some i else l_find_pid n (Suc i) ps)"

definition l_kill :: "int \<Rightarrow> 'd lkrn \<Rightarrow> (int \<times> 'd lkrn) outcome" where
  "l_kill n s =
     bnd (l_acquire s) (\<lambda>s1.
     case l_find_pid n 0 (procs (lst s1)) of
       Some i \<Rightarrow>
         bnd (l_release (l_upd i (\<lambda>q. q\<lparr>killed := True,
                state := (if state q = SLEEPING then RUNNABLE else state q)\<rparr>) s1)) (\<lambda>s2. Ok (0, s2))
     | None \<Rightarrow> bnd (l_release s1) (\<lambda>s2. Ok (- 1, s2)))"

subsection \<open>Exiting and waiting\<close>

fun l_exit_files :: "nat \<Rightarrow> nat \<Rightarrow> nat \<Rightarrow> 'd lkrn \<Rightarrow> 'd lkrn outcome" where
  "l_exit_files 0 fd p s = Ok s"
| "l_exit_files (Suc k) fd p s =
     (case ofile (l_proc s p) ! fd of
        None \<Rightarrow> l_exit_files k (Suc fd) p s
      | Some f \<Rightarrow>
          bnd (fileclose (pid (l_proc s p)) f (lio s)) (\<lambda>t.
          l_exit_files k (Suc fd) p (l_upd p (\<lambda>q. q\<lparr>ofile := (ofile q)[fd := None]\<rparr>) (s\<lparr>lio := t\<rparr>))))"

fun l_reparent :: "nat \<Rightarrow> nat \<Rightarrow> nat \<Rightarrow> nat option \<Rightarrow> 'd lkrn \<Rightarrow> 'd lkrn" where
  "l_reparent 0 i p ini s = s"
| "l_reparent (Suc k) i p ini s =
     l_reparent k (Suc i) p ini
       (if parent (l_proc s i) = Some p
        then let s1 = l_upd i (\<lambda>q. q\<lparr>parent := ini\<rparr>) s
          in if state (l_proc s1 i) = ZOMBIE then l_wakeup1 (proc_chan ini) s1 else s1
        else s)"

definition l_exit :: "'d lkrn \<Rightarrow> 'd lkrn outcome" where
  "l_exit =
     l_with (\<lambda>p s.
       panic_if (Some p = linit s) ''init exiting''
       (bnd (l_exit_files NOFILE 0 p s) (\<lambda>s1.
        bnd (l_fs fs_begin_op s1) (\<lambda>s2.
        case cwd (l_proc s2 p) of
          None \<Rightarrow> Fault
        | Some c \<Rightarrow>
            bnd (l_fs (iput (pid (l_proc s2 p)) c) s2) (\<lambda>s3.
            bnd (l_fs (fs_end_op (pid (l_proc s3 p))) s3) (\<lambda>s4.
            bnd (l_acquire (l_upd p (\<lambda>q. q\<lparr>cwd := None\<rparr>) s4)) (\<lambda>s5.
            let s6 = l_wakeup1 (proc_chan (parent (l_proc s5 p))) s5;
                s7 = l_reparent (length (procs (lst s6))) 0 p (linit s6) s6
            in l_sched (l_upd p (\<lambda>q. q\<lparr>state := ZOMBIE\<rparr>) s7))))))))"

fun l_wait_scan :: "nat \<Rightarrow> nat \<Rightarrow> bool \<Rightarrow> lproc list \<Rightarrow> bool \<times> nat option" where
  "l_wait_scan p i kids [] = (kids, None)"
| "l_wait_scan p i kids (q # qs) =
     (if parent q \<noteq> Some p then l_wait_scan p (Suc i) kids qs
      else if state q = ZOMBIE then (True, Some i) else l_wait_scan p (Suc i) True qs)"

definition l_reap :: "nat \<Rightarrow> 'd lkrn \<Rightarrow> (int \<times> 'd lkrn) outcome" where
  "l_reap i s =
     (let n = pid (l_proc s i) in
      bnd (l_mem (kfree (kstack (l_proc s i))) s) (\<lambda>s1.
      bnd (l_mem (lv_freevm (pgdir (l_proc s1 i))) (l_upd i (\<lambda>q. q\<lparr>kstack := 0\<rparr>) s1)) (\<lambda>s2.
      bnd (l_release (l_upd i (\<lambda>q. q\<lparr>pid := 0, parent := None, pname := [], killed := False,
             state := UNUSED\<rparr>) s2)) (\<lambda>s3. Ok (n, s3)))))"

text \<open>A round of the loop of \<open>wait\<close>, with the lock held: a result, or asleep without one.\<close>

definition l_wait_round :: "'d lkrn \<Rightarrow> (int option \<times> 'd lkrn) outcome" where
  "l_wait_round =
     l_with (\<lambda>p s.
       case l_wait_scan p 0 False (procs (lst s)) of
         (_, Some i) \<Rightarrow> bnd (l_reap i s) (\<lambda>(n, s1). Ok (Some n, s1))
       | (kids, None) \<Rightarrow>
           if \<not> kids \<or> killed (l_proc s p) then bnd (l_release s) (\<lambda>s1. Ok (Some (- 1), s1))
           else bnd (l_sleep (Chan_proc p) s) (\<lambda>s1. Ok (None, s1)))"

definition l_wait :: "'d lkrn \<Rightarrow> (int option \<times> 'd lkrn) outcome" where
  "l_wait s = bnd (l_acquire s) l_wait_round"

definition l_wait_resume :: "'d lkrn \<Rightarrow> (int option \<times> 'd lkrn) outcome" where
  "l_wait_resume s = bnd (l_sleep_resume s) l_wait_round"

subsection \<open>System calls\<close>

text \<open>
  The results of \<open>argint\<close> and \<open>argptr\<close> are ignored: \<open>arg\<close> and \<open>target\<close> are what the local variables hold
  then, the argument if it could be fetched and whatever the stack held before if not; a target that
  is no writable memory faults.
\<close>

definition sys_settickets :: "u32 \<Rightarrow> 'd lkrn \<Rightarrow> (int \<times> 'd lkrn) outcome" where
  "sys_settickets arg = l_with (\<lambda>p s. bnd (settickets p arg (lst s)) (\<lambda>(r, x). Ok (r, s\<lparr>lst := x\<rparr>)))"

definition sys_getpinfo :: "pstat option \<Rightarrow> 'd lkrn \<Rightarrow> (int \<times> pstat \<times> 'd lkrn) outcome" where
  "sys_getpinfo target s =
     (case target of
        None \<Rightarrow> Fault
      | Some t \<Rightarrow> bnd (getpinfo t (lst s)) (\<lambda>(r, t1, x). Ok (r, t1, s\<lparr>lst := x\<rparr>)))"

end
