(* ===== verification/Lottery_Spec.thy ===== *)
theory Lottery_Spec
  imports Lottery_Proc
begin

text \<open>
  The processes of the scheduling tree and the lottery: what creating, ending, waking and waiting for
  processes do to the tickets and the ticks of the process table, and that a whole turn of a
  process keeps what the scheduler relies on.
\<close>

subsection \<open>Operations on the process table\<close>

definition table :: "'d lkrn \<Rightarrow> lproc list" where
  "table s = procs (lst s)"

text \<open>What every operation below leaves alone in the state of the scheduler.\<close>

definition same_sched :: "'d lkrn \<Rightarrow> 'd lkrn \<Rightarrow> bool" where
  "same_sched s t \<longleftrightarrow> cproc (lst t) = cproc (lst s) \<and> tickslock (lst t) = tickslock (lst s) \<and> gticks (lst t) = gticks (lst s)"

lemma same_sched_refl [simp]: "same_sched s s"
  by (simp add: same_sched_def)

lemma same_sched_trans: "same_sched s t \<Longrightarrow> same_sched t u \<Longrightarrow> same_sched s u"
  by (simp add: same_sched_def)

lemma same_cproc: "same_sched s t \<Longrightarrow> cproc (lst t) = cproc (lst s)"
  by (simp add: same_sched_def)

lemma l_acquire_Ok: "l_acquire s = Ok t \<longleftrightarrow> \<not> ptable_lock (lst s) \<and> t = s\<lparr>lst := (lst s)\<lparr>ptable_lock := True\<rparr>\<rparr>"
  by (auto simp: l_acquire_def outcome_simps)

lemma l_release_Ok: "l_release s = Ok t \<longleftrightarrow> ptable_lock (lst s) \<and> t = s\<lparr>lst := (lst s)\<lparr>ptable_lock := False\<rparr>\<rparr>"
  by (auto simp: l_release_def outcome_simps)

lemma l_with_Ok: "l_with f s = Ok t \<longleftrightarrow> (\<exists>p. cproc (lst s) = Some p \<and> f p s = Ok t)"
  by (simp add: l_with_def split: option.splits)

lemma l_inmem_Ok: "l_inmem f s = Ok (r, t) \<longleftrightarrow> (\<exists>m. f (kpg (lio s)) = Ok (r, m) \<and> t = s\<lparr>lio := (lio s)\<lparr>kpg := m\<rparr>\<rparr>)"
  by (auto simp: l_inmem_def outcome_simps)

lemma l_mem_Ok: "l_mem f s = Ok t \<longleftrightarrow> (\<exists>m. f (kpg (lio s)) = Ok m \<and> t = s\<lparr>lio := (lio s)\<lparr>kpg := m\<rparr>\<rparr>)"
  by (auto simp: l_mem_def outcome_simps)

lemmas l_Ok = l_acquire_Ok l_release_Ok l_with_Ok l_inmem_Ok l_mem_Ok

lemma table_simps [simp]:
  "table (l_upd p f s) = (table s)[p := f (table s ! p)]"
  "table (s\<lparr>lst := (lst s)\<lparr>ptable_lock := b\<rparr>\<rparr>) = table s" "table (s\<lparr>lio := x\<rparr>) = table s" "table (s\<lparr>lnextpid := n\<rparr>) = table s"
  "table (s\<lparr>lcr3 := a\<rparr>) = table s" "table (s\<lparr>linit := w\<rparr>) = table s"
  by (simp_all add: table_def l_upd_def upd_proc_def)

lemma table_lst: "table (s\<lparr>lst := x\<rparr>) = procs x"
  by (simp add: table_def)

lemma sched_simps [simp]:
  "same_sched s (l_upd p f t) = same_sched s t" "same_sched s (t\<lparr>lst := (lst t)\<lparr>ptable_lock := b\<rparr>\<rparr>) = same_sched s t"
  "same_sched s (t\<lparr>lio := x\<rparr>) = same_sched s t" "same_sched s (t\<lparr>lnextpid := n\<rparr>) = same_sched s t" "same_sched s (t\<lparr>lcr3 := a\<rparr>) = same_sched s t"
  by (simp_all add: same_sched_def l_upd_def upd_proc_def)

lemma lock_simps [simp]:
  "ptable_lock (lst (l_upd p f s)) = ptable_lock (lst s)" "lio (l_upd p f s) = lio s" "lnextpid (l_upd p f s) = lnextpid s"
  "cproc (lst (l_upd p f s)) = cproc (lst s)" "linit (l_upd p f s) = linit s"
  "tickslock (lst (l_upd p f s)) = tickslock (lst s)" "gticks (lst (l_upd p f s)) = gticks (lst s)"
  by (simp_all add: l_upd_def upd_proc_def)

lemma next_simps [simp]:
  "lnextpid (s\<lparr>lst := x\<rparr>) = lnextpid s" "lnextpid (s\<lparr>lio := y\<rparr>) = lnextpid s" "lnextpid (s\<lparr>lcr3 := a\<rparr>) = lnextpid s"
  by simp_all

lemma lst_l_upd: "lst (l_upd p f s) = (lst s)\<lparr>procs := (table s)[p := f (table s ! p)]\<rparr>"
  by (simp add: l_upd_def upd_proc_def table_def)

lemma l_proc_table: "l_proc s p = table s ! p"
  by (simp add: l_proc_def table_def)

lemma l_unused_Some: "l_unused i ps = Some p \<Longrightarrow> i \<le> p \<and> p < i + length ps \<and> state (ps ! (p - i)) = UNUSED"
proof (induction ps arbitrary: i)
  case (Cons q ps)
  show ?case
  proof (cases "state q = UNUSED")
    case False
    then have "l_unused (Suc i) ps = Some p" using Cons.prems by simp
    from Cons.IH [OF this] have h: "Suc i \<le> p" "p < Suc i + length ps" "state (ps ! (p - Suc i)) = UNUSED" by simp_all
    then have "p - i = Suc (p - Suc i)" by simp
    then show ?thesis using h by simp
  qed (use Cons.prems in simp)
qed simp

definition embryo :: "int \<Rightarrow> lproc \<Rightarrow> lproc" where
  "embryo n q = q\<lparr>state := EMBRYO, pid := n, tickets := 1, ticks := 0, ticks1 := 0, ticks2 := 0\<rparr>"

lemma l_allocproc_Some:
  assumes "l_allocproc s = Ok (Some np, t)"
  shows "np < length (table s)" "state (table s ! np) = UNUSED" "\<not> ptable_lock (lst s)" "\<not> ptable_lock (lst t)" "same_sched s t"
    "lnextpid t = wrap32 (lnextpid s + 1)"
    "\<exists>k. table t = (table s)[np := (embryo (lnextpid s) (table s ! np))\<lparr>kstack := k, ctxt := Forkret\<rparr>]"
proof -
  from assms obtain p where p: "l_unused 0 (table s) = Some p"
    by (auto simp: l_allocproc_def outcome_simps l_Ok table_def split: option.splits)
  have "np = p" "\<not> ptable_lock (lst s)" "\<not> ptable_lock (lst t)" "same_sched s t" "lnextpid t = wrap32 (lnextpid s + 1)"
    "\<exists>k. table t = (table s)[np := (embryo (lnextpid s) (table s ! np))\<lparr>kstack := k, ctxt := Forkret\<rparr>]"
    using assms p l_unused_Some [OF p]
    by (auto simp: l_allocproc_def outcome_simps l_Ok table_def [symmetric] Let_def embryo_def split: if_splits)
  with l_unused_Some [OF p] show "np < length (table s)" "state (table s ! np) = UNUSED" "\<not> ptable_lock (lst s)" "\<not> ptable_lock (lst t)"
    "same_sched s t" "lnextpid t = wrap32 (lnextpid s + 1)" "\<exists>k. table t = (table s)[np := (embryo (lnextpid s) (table s ! np))\<lparr>kstack := k, ctxt := Forkret\<rparr>]" by auto
qed

lemma l_allocproc_None:
  assumes "l_allocproc s = Ok (None, t)"
  shows "\<not> ptable_lock (lst s)" "\<not> ptable_lock (lst t)" "same_sched s t"
    "table t = table s \<or> (\<exists>p < length (table s). state (table s ! p) = UNUSED
       \<and> table t = (table s)[p := (embryo (lnextpid s) (table s ! p))\<lparr>kstack := 0, state := UNUSED\<rparr>])"
proof -
  show "\<not> ptable_lock (lst s)" using assms by (auto simp: l_allocproc_def outcome_simps l_Ok)
  have "\<not> ptable_lock (lst t) \<and> same_sched s t \<and> (table t = table s \<or> (\<exists>p < length (table s). state (table s ! p) = UNUSED
       \<and> table t = (table s)[p := (embryo (lnextpid s) (table s ! p))\<lparr>kstack := 0, state := UNUSED\<rparr>]))"
  proof (cases "l_unused 0 (table s)")
    case None
    then show ?thesis using assms by (auto simp: l_allocproc_def outcome_simps l_Ok table_def [symmetric])
  next
    case (Some p)
    from l_unused_Some [OF Some] have "p < length (table s)" "state (table s ! p) = UNUSED" by simp_all
    then show ?thesis
      using assms Some by (auto simp: l_allocproc_def outcome_simps l_Ok table_def [symmetric] Let_def embryo_def split: if_splits)
  qed
  then show "\<not> ptable_lock (lst t)" "same_sched s t" "table t = table s \<or> (\<exists>p < length (table s). state (table s ! p) = UNUSED
       \<and> table t = (table s)[p := (embryo (lnextpid s) (table s ! p))\<lparr>kstack := 0, state := UNUSED\<rparr>])" by blast+
qed

subsection \<open>Fork\<close>

lemma l_fork_files_table:
  assumes "l_fork_files k j i np s = Ok t" "np \<noteq> i" "np < length (table s)"
  shows "\<exists>w. table t = (table s)[np := (table s ! np)\<lparr>ofile := w\<rparr>] \<and> lst t = (lst s)\<lparr>procs := table t\<rparr> \<and> lnextpid t = lnextpid s"
  using assms
proof (induction k arbitrary: j s)
  case 0
  then have st: "t = s" by simp
  show ?case unfolding st by (rule exI [of _ "ofile (table s ! np)"]) (simp add: table_def)
next
  case (Suc k)
  show ?case
  proof (cases "ofile (l_proc s i) ! j")
    case None
    then show ?thesis using Suc by simp
  next
    case (Some f)
    then obtain g x where g: "filedup f (lio s) = Ok (g, x)"
      and r: "l_fork_files k (Suc j) i np (l_upd np (\<lambda>q. q\<lparr>ofile := (ofile q)[j := Some g]\<rparr>) (s\<lparr>lio := x\<rparr>)) = Ok t"
      using Suc.prems(1) by (auto simp: outcome_simps)
    from Suc.IH [OF r] Suc.prems(2,3) obtain w where
      "table t = ((table s)[np := (table s ! np)\<lparr>ofile := (ofile (table s ! np))[j := Some g]\<rparr>])[np := (table s ! np)\<lparr>ofile := w\<rparr>]"
      "lst t = (lst s)\<lparr>procs := table t\<rparr>" "lnextpid t = lnextpid s"
      by (auto simp: lst_l_upd)
    then show ?thesis by auto
  qed
qed

lemma settickets_Ok:
  assumes "settickets p n x = Ok (r, y)" "0 < sint n"
  shows "y = x\<lparr>ptable_lock := False, procs := (procs x)[p := (procs x ! p)\<lparr>tickets := n\<rparr>]\<rparr>" "\<not> ptable_lock x" "r = 0"
  using assms by (auto simp: settickets_def outcome_simps Let_def split: if_splits)

text \<open>What \<open>fork\<close> hands to a child: everything but its kernel stack, its pages and its open files.\<close>

definition forked :: "nat \<Rightarrow> int \<Rightarrow> lproc \<Rightarrow> lproc \<Rightarrow> bool" where
  "forked i n q c \<longleftrightarrow> state c = RUNNABLE \<and> pid c = n \<and> parent c = Some i \<and> tickets c = tickets q \<and> ticks c = 0 \<and> ticks1 c = 0
     \<and> sz c = sz q \<and> pgdir c \<noteq> 0 \<and> tf c = (tf q)\<lparr>tf_eax := 0\<rparr> \<and> ctxt c = Forkret \<and> cwd c = cwd q \<and> pname c = pname q"

text \<open>A failed \<open>fork\<close> leaves the table as it was, but for a slot that stays free; a successful one fills a free slot.\<close>

definition fork_failed :: "'d lkrn \<Rightarrow> 'd lkrn \<Rightarrow> bool" where
  "fork_failed s t \<longleftrightarrow> table t = table s \<or> (\<exists>p d. p < length (table s) \<and> state (table s ! p) = UNUSED \<and> state d = UNUSED
     \<and> table t = (table s)[p := d])"

definition fork_child :: "nat \<Rightarrow> 'd lkrn \<Rightarrow> 'd lkrn \<Rightarrow> bool" where
  "fork_child i s t \<longleftrightarrow> lnextpid t = wrap32 (lnextpid s + 1) \<and> (\<exists>p d. p < length (table s) \<and> state (table s ! p) = UNUSED
     \<and> forked i (lnextpid s) (table s ! i) d \<and> table t = (table s)[p := d])"

lemma fork_failedI:
  "table t = (table s)[p := d] \<Longrightarrow> p < length (table s) \<Longrightarrow> state (table s ! p) = UNUSED \<Longrightarrow> state d = UNUSED \<Longrightarrow> fork_failed s t"
  unfolding fork_failed_def by blast

lemma fork_childI:
  "table t = (table s)[p := d] \<Longrightarrow> p < length (table s) \<Longrightarrow> state (table s ! p) = UNUSED \<Longrightarrow> forked i (lnextpid s) (table s ! i) d
    \<Longrightarrow> lnextpid t = wrap32 (lnextpid s + 1) \<Longrightarrow> fork_child i s t"
  unfolding fork_child_def by blast

lemma idup_Ok: "idup c x = Ok (d, y) \<Longrightarrow> d = c"
  by (auto simp: idup_def outcome_simps Let_def split: option.splits)

lemma l_fork_spec:
  assumes f: "l_fork s = Ok (r, t)" and c: "cproc (lst s) = Some i" "i < length (table s)" "state (table s ! i) \<noteq> UNUSED"
    "0 < sint (tickets (table s ! i))"
  shows "\<not> ptable_lock (lst s) \<and> \<not> ptable_lock (lst t) \<and> same_sched s t
    \<and> (r = - 1 \<and> fork_failed s t \<or> r = lnextpid s \<and> fork_child i s t)"
proof -
  from f c(1) obtain npo s1 where a: "l_allocproc s = Ok (npo, s1)" by (auto simp: l_fork_def l_Ok outcome_simps)
  show ?thesis
  proof (cases npo)
    case None
    then have "r = - 1" "t = s1" using f c(1) a by (auto simp: l_fork_def l_with_def)
    note an = l_allocproc_None [OF a [unfolded None]]
    have "fork_failed s s1"
    proof (rule disjE [OF an(4)])
      assume "\<exists>p < length (table s). state (table s ! p) = UNUSED
        \<and> table s1 = (table s)[p := (embryo (lnextpid s) (table s ! p))\<lparr>kstack := 0, state := UNUSED\<rparr>]"
      then show ?thesis by (elim exE conjE) (erule fork_failedI, simp_all)
    qed (simp add: fork_failed_def)
    with an(1-3) show ?thesis unfolding \<open>t = s1\<close> using \<open>r = - 1\<close> by blast
  next
    case (Some p)
    note al = l_allocproc_Some [OF a [unfolded Some]]
    then obtain k where tb: "table s1 = (table s)[p := (embryo (lnextpid s) (table s ! p))\<lparr>kstack := k, ctxt := Forkret\<rparr>]" by blast
    have ne: "p \<noteq> i" using al(2) c(3) by blast
    have par: "table s1 ! i = table s ! i" using tb ne by simp
    from f c(1) a Some obtain dir m where m: "lv_copyuvm (ldata s1) (pgdir (l_proc s1 i)) (sz (l_proc s1 i)) (kpg (lio s1)) = Ok (dir, m)"
      by (auto simp: l_fork_def l_Ok outcome_simps)
    define s2 where "s2 = s1\<lparr>lio := (lio s1)\<lparr>kpg := m\<rparr>\<rparr>"
    have tb2: "table s2 = table s1" "same_sched s s2" "lnextpid s2 = wrap32 (lnextpid s + 1)" "lst s2 = lst s1" using al by (simp_all add: s2_def)
    define s3 where "s3 = l_upd p (\<lambda>q. q\<lparr>pgdir := dir\<rparr>) s2"
    have p3: "table s3 = (table s)[p := (embryo (lnextpid s) (table s ! p))\<lparr>kstack := k, ctxt := Forkret, pgdir := dir\<rparr>]"
      "same_sched s s3" "lnextpid s3 = wrap32 (lnextpid s + 1)" "\<not> ptable_lock (lst s3)" "cproc (lst s3) = Some i"
      using tb tb2 al c(1) same_cproc [OF tb2(2)] by (simp_all add: s3_def)
    show ?thesis
    proof (cases "dir = 0")
      case True
      then obtain m2 where "kfree (kstack (l_proc s3 p)) (kpg (lio s3)) = Ok m2" "r = - 1"
        "t = l_upd p (\<lambda>q. q\<lparr>kstack := 0, state := UNUSED\<rparr>) (s3\<lparr>lio := (lio s3)\<lparr>kpg := m2\<rparr>\<rparr>)"
        using f c(1) a Some m by (auto simp: l_fork_def l_with_def l_inmem_def s3_def s2_def outcome_simps Let_def l_mem_Ok)
      note t = this
      have "table t = (table s)[p := (embryo (lnextpid s) (table s ! p))\<lparr>ctxt := Forkret, pgdir := dir, kstack := 0, state := UNUSED\<rparr>]"
        using t(3) p3(1) al(1) by simp
      then have "fork_failed s t" by (rule fork_failedI) (simp_all add: al(1,2))
      then show ?thesis using t(2,3) p3 al by simp
    next
      case False
      define s4 where "s4 = l_upd p (\<lambda>q. q\<lparr>sz := sz (l_proc s3 i), parent := Some i, tf := tf (l_proc s3 i)\<rparr>) s3"
      obtain r0 x s5 s6 d y where st: "settickets p (tickets (l_proc s4 i)) (lst s4) = Ok (r0, x)"
        and s5: "s5 = l_upd p (\<lambda>q. q\<lparr>ticks := 0, tf := (tf q)\<lparr>tf_eax := 0\<rparr>\<rparr>) (s4\<lparr>lst := x\<rparr>)"
        and ff: "l_fork_files NOFILE 0 i p s5 = Ok s6" and dd: "idup (cwd (l_proc s6 i)) (kf (lio s6)) = Ok (d, y)"
        and rest: "(let s7 = l_upd p (\<lambda>q. q\<lparr>cwd := d, pname := pname (l_proc s6 i)\<rparr>) (s6\<lparr>lio := (lio s6)\<lparr>kf := y\<rparr>\<rparr>);
                 r1 = pid (l_proc s7 p) in
             bnd (l_acquire s7) (\<lambda>s8.
             bnd (l_release (l_upd p (\<lambda>q. q\<lparr>state := RUNNABLE\<rparr>) s8)) (\<lambda>s9. Ok (r1, s9)))) = Ok (r, t)"
        using f c(1) a Some m False unfolding l_fork_def l_with_def l_inmem_def s4_def s3_def s2_def
        by (simp add: outcome_simps Let_def) blast
      have p4: "table s4 = (table s)[p := (embryo (lnextpid s) (table s ! p))\<lparr>kstack := k, ctxt := Forkret, pgdir := dir,
            sz := sz (table s ! i), parent := Some i, tf := tf (table s ! i)\<rparr>]"
        "same_sched s s4" "lnextpid s4 = wrap32 (lnextpid s + 1)" "\<not> ptable_lock (lst s4)"
        using p3 ne al by (simp_all add: s4_def l_proc_table)
      define c4 where "c4 = (embryo (lnextpid s) (table s ! p))\<lparr>kstack := k, ctxt := Forkret, pgdir := dir,
            sz := sz (table s ! i), parent := Some i, tf := tf (table s ! i)\<rparr>"
      have tk: "tickets (l_proc s4 i) = tickets (table s ! i)" using p4(1) ne by (simp add: l_proc_table)
      from settickets_Ok [OF st] c(4) tk have x: "x = (lst s4)\<lparr>ptable_lock := False, procs := (table s4)[p := (table s4 ! p)\<lparr>tickets := tickets (table s ! i)\<rparr>]\<rparr>"
        by (simp add: table_def)
      have p5: "table s5 = (table s)[p := c4\<lparr>tickets := tickets (table s ! i), ticks := 0, tf := (tf (table s ! i))\<lparr>tf_eax := 0\<rparr>\<rparr>]"
        "same_sched s s5" "lnextpid s5 = wrap32 (lnextpid s + 1)" "\<not> ptable_lock (lst s5)"
        using p4 al(1) by (simp_all add: s5 x table_lst same_sched_def c4_def)
      from l_fork_files_table [OF ff ne] al(1) p5(1) obtain w where w: "table s6 = (table s5)[p := (table s5 ! p)\<lparr>ofile := w\<rparr>]"
        "lst s6 = (lst s5)\<lparr>procs := table s6\<rparr>" "lnextpid s6 = lnextpid s5" by auto
      define c6 where "c6 = c4\<lparr>tickets := tickets (table s ! i), ticks := 0, tf := (tf (table s ! i))\<lparr>tf_eax := 0\<rparr>, ofile := w\<rparr>"
      have p6: "table s6 = (table s)[p := c6]" "same_sched s s6" "lnextpid s6 = wrap32 (lnextpid s + 1)" "\<not> ptable_lock (lst s6)"
        using w p5 al(1) by (simp_all add: c6_def same_sched_def)
      have d: "d = cwd (table s ! i)" using idup_Ok [OF dd] p6(1) ne by (simp add: l_proc_table)
      have nm: "pname (l_proc s6 i) = pname (table s ! i)" using p6(1) ne by (simp add: l_proc_table)
      have end6: "table t = (table s)[p := c6\<lparr>cwd := d, pname := pname (table s ! i), state := RUNNABLE\<rparr>]" "r = pid c6"
        "same_sched s t" "lnextpid t = wrap32 (lnextpid s + 1)" "\<not> ptable_lock (lst t)"
        using rest p6 al(1) unfolding nm Let_def by (auto simp: outcome_simps l_Ok l_proc_table)
      have r: "r = lnextpid s" by (simp add: end6(2) c6_def c4_def embryo_def)
      have "fork_child i s t"
        by (rule fork_childI [OF end6(1) al(1,2) _ end6(4)])
          (use False in \<open>simp add: forked_def c6_def c4_def embryo_def d\<close>)
      then show ?thesis using end6 r al(3) by simp
    qed
  qed
qed

subsection \<open>What every operation keeps\<close>

definition used_slot :: "'d lkrn \<Rightarrow> nat \<Rightarrow> bool" where
  "used_slot s p \<longleftrightarrow> p < length (table s) \<and> state (table s ! p) \<noteq> UNUSED"

text \<open>The process table: processes hold a positive number of tickets.\<close>

definition ltab_ok :: "'d lkrn \<Rightarrow> bool" where
  "ltab_ok s \<longleftrightarrow> \<not> tickslock (lst s) \<and> (\<forall>p. used_slot s p \<longrightarrow> 0 < sint (tickets (table s ! p)))"

definition running_proc :: "nat \<Rightarrow> 'd lkrn \<Rightarrow> bool" where
  "running_proc i s \<longleftrightarrow> cproc (lst s) = Some i \<and> i < length (table s) \<and> state (table s ! i) = RUNNING"

text \<open>What the scheduler keeps about the process it runs: the fields that only it writes.\<close>

definition same_clock :: "nat \<Rightarrow> 'd lkrn \<Rightarrow> 'd lkrn \<Rightarrow> bool" where
  "same_clock i s t \<longleftrightarrow> cproc (lst t) = cproc (lst s) \<and> length (table t) = length (table s)
     \<and> ticks (table t ! i) = ticks (table s ! i) \<and> ticks1 (table t ! i) = ticks1 (table s ! i)"

lemma same_clock_refl: "same_clock i s s"
  by (simp add: same_clock_def)

lemma same_clock_trans: "same_clock i s t \<Longrightarrow> same_clock i t u \<Longrightarrow> same_clock i s u"
  by (simp add: same_clock_def)

text \<open>Most operations give no pid and no tickets, and no slot away: they change other fields.\<close>

definition slot_mild :: "lproc \<Rightarrow> lproc \<Rightarrow> bool" where
  "slot_mild q r \<longleftrightarrow> ticks r = ticks q \<and> ticks1 r = ticks1 q
     \<and> (state r = UNUSED \<longleftrightarrow> state q = UNUSED) \<and> (state q \<noteq> UNUSED \<longrightarrow> tickets r = tickets q \<and> pid r = pid q)"

definition mild :: "'d lkrn \<Rightarrow> 'd lkrn \<Rightarrow> bool" where
  "mild s t \<longleftrightarrow> cproc (lst t) = cproc (lst s) \<and> tickslock (lst t) = tickslock (lst s) \<and> lnextpid t = lnextpid s
     \<and> length (table t) = length (table s) \<and> (\<forall>p < length (table s). slot_mild (table s ! p) (table t ! p))"

lemma slot_mild_refl: "slot_mild q q"
  by (simp add: slot_mild_def)

lemma slot_mild_trans: "slot_mild q r \<Longrightarrow> slot_mild r w \<Longrightarrow> slot_mild q w"
  by (simp add: slot_mild_def)

lemma mild_refl [simp]: "mild s s"
  by (simp add: mild_def slot_mild_refl)

lemma mild_trans: "mild s t \<Longrightarrow> mild t u \<Longrightarrow> mild s u"
  unfolding mild_def by (auto intro: slot_mild_trans)

lemma mild_ltab_ok:
  assumes "mild s t" "ltab_ok s"
  shows "ltab_ok t"
proof -
  have "used_slot t p \<Longrightarrow> used_slot s p \<and> tickets (table t ! p) = tickets (table s ! p) \<and> pid (table t ! p) = pid (table s ! p)" for p
    using assms(1) by (auto simp: used_slot_def mild_def slot_mild_def)
  then show ?thesis using assms unfolding ltab_ok_def by (simp add: mild_def)
qed

lemma ltab_ok_shrink:
  assumes "ltab_ok s" "\<And>q. used_slot t q \<Longrightarrow> used_slot s q \<and> table t ! q = table s ! q" "same_sched s t"
  shows "ltab_ok t"
  using assms by (auto simp: ltab_ok_def same_sched_def)

lemma mild_same_clock: "mild s t \<Longrightarrow> i < length (table s) \<Longrightarrow> same_clock i s t"
  by (simp add: mild_def same_clock_def slot_mild_def)

lemma mild_frame [simp]:
  "mild s (t\<lparr>lio := x\<rparr>) = mild s t" "mild s (t\<lparr>lcr3 := a\<rparr>) = mild s t"
  "mild s (t\<lparr>linit := w\<rparr>) = mild s t" "mild s (t\<lparr>lst := (lst t)\<lparr>ptable_lock := b\<rparr>\<rparr>) = mild s t"
  by (simp_all add: mild_def)

lemma mild_upd:
  assumes "mild s t" "p < length (table s) \<Longrightarrow> slot_mild (table t ! p) (f (table t ! p))"
  shows "mild s (l_upd p f t)"
proof -
  have "slot_mild (table s ! k) (table (l_upd p f t) ! k)" if "k < length (table s)" for k
    using that assms slot_mild_trans [of "table s ! k" "table t ! k" "f (table t ! k)"]
    by (cases "k = p") (simp_all add: mild_def)
  then show ?thesis using assms(1) by (simp add: mild_def)
qed

lemma slot_mild_wake: "slot_mild q (l_wake_one ch q)"
  by (simp add: slot_mild_def l_wake_one_def)

lemma mild_wakeup1: "mild s t \<Longrightarrow> mild s (l_wakeup1 ch t)"
  by (auto simp: mild_def l_wakeup1_def table_def intro: slot_mild_trans slot_mild_wake)

text \<open>A call that comes back to the process.\<close>

definition back_ok :: "nat \<Rightarrow> 'd lkrn \<Rightarrow> 'd lkrn \<Rightarrow> bool" where
  "back_ok i s t \<longleftrightarrow> ltab_ok t \<and> running_proc i t \<and> same_clock i s t"

lemma back_ok_trans: "back_ok i s t \<Longrightarrow> back_ok i t u \<Longrightarrow> back_ok i s u"
  by (auto simp: back_ok_def intro: same_clock_trans)

lemma back_ok_refl: "ltab_ok s \<Longrightarrow> running_proc i s \<Longrightarrow> back_ok i s s"
  by (simp add: back_ok_def same_clock_refl)

lemma mild_back_ok: "mild s t \<Longrightarrow> ltab_ok s \<Longrightarrow> running_proc i s \<Longrightarrow> state (table t ! i) = RUNNING \<Longrightarrow> back_ok i s t"
  using mild_ltab_ok [of s t] mild_same_clock [of s t i] by (auto simp: back_ok_def running_proc_def mild_def)

lemma acquire_back: "l_acquire s = Ok t \<Longrightarrow> ltab_ok s \<Longrightarrow> running_proc i s \<Longrightarrow> back_ok i s t"
  by (rule mild_back_ok) (auto simp: l_Ok running_proc_def)

lemma release_back: "l_release s = Ok t \<Longrightarrow> ltab_ok s \<Longrightarrow> running_proc i s \<Longrightarrow> back_ok i s t"
  by (rule mild_back_ok) (auto simp: l_Ok running_proc_def)

text \<open>A free slot taken with positive tickets.\<close>

lemma ltab_ok_new:
  assumes ok: "ltab_ok s" and p: "p < length (table s)" "table t = (table s)[p := d]"
    and d: "0 < sint (tickets d)" and t: "same_sched s t"
  shows "ltab_ok t"
proof -
  have "0 < sint (tickets (table t ! q))" if q: "used_slot t q" for q
  proof (cases "q = p")
    case False
    then have "used_slot s q" "table t ! q = table s ! q" using q p by (simp_all add: used_slot_def)
    then show ?thesis using ok by (simp add: ltab_ok_def)
  qed (use p d in simp)
  then show ?thesis using ok t by (simp add: ltab_ok_def same_sched_def)
qed

lemma fork_back_ok:
  assumes f: "l_fork s = Ok (r, t)" and ok: "ltab_ok s" "running_proc i s"
  shows "back_ok i s t"
proof -
  have i: "cproc (lst s) = Some i" "i < length (table s)" "state (table s ! i) = RUNNING" "0 < sint (tickets (table s ! i))"
    using ok by (simp_all add: running_proc_def ltab_ok_def used_slot_def)
  have sp: "same_sched s t" "fork_failed s t \<or> fork_child i s t"
    using l_fork_spec [OF f i(1,2) _ i(4)] i(3) by auto
  consider (same) "table t = table s"
    | (slot) p d where "p < length (table s)" "state (table s ! p) = UNUSED" "state d = UNUSED" "table t = (table s)[p := d]"
    | (child) p d where "p < length (table s)" "state (table s ! p) = UNUSED" "forked i (lnextpid s) (table s ! i) d"
        "table t = (table s)[p := d]" "lnextpid t = wrap32 (lnextpid s + 1)"
    using sp(2) by (auto simp: fork_failed_def fork_child_def)
  then show ?thesis
  proof cases
    case same
    have "ltab_ok t" by (rule ltab_ok_shrink [OF ok(1) _ sp(1)]) (simp add: same used_slot_def)
    then show ?thesis using same i sp(1) by (simp add: back_ok_def running_proc_def same_clock_def same_sched_def)
  next
    case slot
    have "p \<noteq> i" using slot(2) i(3) by auto
    have u: "used_slot t q \<longleftrightarrow> used_slot s q" "used_slot t q \<Longrightarrow> table t ! q = table s ! q" for q
      using slot by (auto simp: used_slot_def nth_list_update)
    have "ltab_ok t" by (rule ltab_ok_shrink [OF ok(1) _ sp(1)]) (use u in blast)
    then show ?thesis using \<open>p \<noteq> i\<close> slot(4) i sp(1) by (simp add: back_ok_def running_proc_def same_clock_def same_sched_def)
  next
    case child
    have "p \<noteq> i" using child(2) i(3) by auto
    have d: "0 < sint (tickets d)" using child(3) i(4) by (simp add: forked_def)
    have "ltab_ok t" by (rule ltab_ok_new [OF ok(1) child(1,4) d sp(1)])
    then show ?thesis using \<open>p \<noteq> i\<close> child(4) i sp(1) by (simp add: back_ok_def running_proc_def same_clock_def same_sched_def)
  qed
qed

lemma grow_back_ok:
  assumes g: "l_growproc n s = Ok (r, t)" and ok: "ltab_ok s" "running_proc i s"
  shows "back_ok i s t"
proof -
  have i: "cproc (lst s) = Some i" "i < length (table s)" using ok(2) by (simp_all add: running_proc_def)
  have "mild s t \<and> state (table t ! i) = state (table s ! i)"
    using g i by (auto simp: l_growproc_def l_with_def l_switchuvm_def outcome_simps Let_def l_inmem_Ok slot_mild_def
      intro!: mild_upd split: if_splits)
  then show ?thesis using mild_back_ok [OF _ ok] ok(2) by (simp add: running_proc_def)
qed

lemma wakeup_back_ok:
  assumes "l_wakeup ch s = Ok t" "ltab_ok s" "running_proc i s"
  shows "back_ok i s t"
proof -
  have t: "t = (l_wakeup1 ch (s\<lparr>lst := (lst s)\<lparr>ptable_lock := True\<rparr>\<rparr>))\<lparr>lst := (lst (l_wakeup1 ch (s\<lparr>lst := (lst s)\<lparr>ptable_lock := True\<rparr>\<rparr>)))\<lparr>ptable_lock := False\<rparr>\<rparr>"
    using assms(1) by (auto simp: l_wakeup_def outcome_simps l_Ok)
  have "mild s t" unfolding t by (simp add: mild_wakeup1)
  moreover have "state (table t ! i) = RUNNING"
    using assms(3) unfolding t by (simp add: running_proc_def l_wakeup1_def l_wake_one_def table_def)
  ultimately show ?thesis using mild_back_ok assms(2,3) by blast
qed

lemma nth_upd: "k < length xs \<Longrightarrow> xs[j := x] ! k = (if j = k then x else xs ! k)"
  by (cases "j = k") simp_all

lemma kill_back_ok:
  assumes k: "l_kill n s = Ok (r, t)" and ok: "ltab_ok s" "running_proc i s"
  shows "back_ok i s t"
proof -
  have i: "i < length (table s)" "state (table s ! i) = RUNNING" using ok(2) by (simp_all add: running_proc_def)
  have "mild s t \<and> state (table t ! i) = RUNNING"
    using k i by (auto simp: l_kill_def outcome_simps l_Ok slot_mild_def nth_upd intro!: mild_upd split: option.splits)
  then show ?thesis using mild_back_ok [OF _ ok] by blast
qed

lemma settickets_back_ok:
  assumes k: "sys_settickets n s = Ok (r, t)" and ok: "ltab_ok s" "running_proc i s"
  shows "back_ok i s t"
proof -
  have i: "cproc (lst s) = Some i" "i < length (table s)" "state (table s ! i) = RUNNING" using ok(2) by (simp_all add: running_proc_def)
  obtain y where y: "settickets i n (lst s) = Ok (r, y)" "t = s\<lparr>lst := y\<rparr>"
    using k i(1) by (auto simp: sys_settickets_def l_with_def outcome_simps)
  show ?thesis
  proof (cases "0 < sint n")
    case False
    then have "t = s" using y by (simp add: settickets_def)
    then show ?thesis using back_ok_refl ok by blast
  next
    case True
    have t: "t = s\<lparr>lst := (lst s)\<lparr>ptable_lock := False, procs := (table s)[i := (table s ! i)\<lparr>tickets := n\<rparr>]\<rparr>\<rparr>"
      using settickets_Ok [OF y(1) True] y(2) by (simp add: table_def)
    have tt: "table t = (table s)[i := (table s ! i)\<lparr>tickets := n\<rparr>]" unfolding t by (simp add: table_lst)
    have u: "used_slot t p = used_slot s p"
      "tickets (table t ! p) = (if p = i then n else tickets (table s ! p))" for p
      using i(2) by (auto simp: used_slot_def tt nth_list_update)
    have "tickslock (lst t) = tickslock (lst s)" unfolding t by simp
    then have "ltab_ok t" using ok(1) True unfolding ltab_ok_def u by simp
    moreover have "cproc (lst t) = Some i" using i(1) unfolding t by simp
    ultimately show ?thesis using i by (simp add: back_ok_def running_proc_def same_clock_def tt)
  qed
qed

lemma getpinfo_back_ok:
  assumes "sys_getpinfo g s = Ok (r, h, t)" "ltab_ok s" "running_proc i s"
  shows "back_ok i s t"
proof -
  have "t = s\<lparr>lst := (lst s)\<lparr>ptable_lock := False\<rparr>\<rparr>"
    using assms(1) by (auto simp: sys_getpinfo_def getpinfo_def outcome_simps Let_def split: option.splits)
  then show ?thesis using mild_back_ok [of s t i] assms(2,3) by (simp add: running_proc_def)
qed

subsection \<open>Waiting\<close>

lemma l_wait_scan_zombie: "l_wait_scan p k kids ps = (b, Some j) \<Longrightarrow> k \<le> j \<and> j < k + length ps \<and> state (ps ! (j - k)) = ZOMBIE"
proof (induction ps arbitrary: k kids)
  case (Cons q ps)
  show ?case
  proof (cases "parent q = Some p \<and> state q = ZOMBIE")
    case False
    then obtain kk where "l_wait_scan p (Suc k) kk ps = (b, Some j)" using Cons.prems by (auto split: if_splits)
    from Cons.IH [OF this] have h: "Suc k \<le> j" "j < Suc k + length ps" "state (ps ! (j - Suc k)) = ZOMBIE" by simp_all
    then have "j - k = Suc (j - Suc k)" by simp
    then show ?thesis using h by simp
  qed (use Cons.prems in simp)
qed simp

lemma free_back_ok:
  assumes ok: "ltab_ok s" "running_proc i s" and f: "j \<noteq> i" "state (f (table s ! j)) = UNUSED"
  shows "back_ok i s (l_upd j f s)"
proof -
  have "ltab_ok (l_upd j f s)"
    by (rule ltab_ok_shrink [OF ok(1)]) (use f in \<open>auto simp: used_slot_def nth_upd split: if_splits\<close>)
  then show ?thesis using ok(2) f(1) by (simp add: back_ok_def running_proc_def same_clock_def)
qed

lemma reap_back_ok:
  assumes r: "l_reap j s = Ok (n, t)" and j: "state (table s ! j) = ZOMBIE" and ok: "ltab_ok s" "running_proc i s"
  shows "back_ok i s t"
proof -
  have i: "i < length (table s)" "state (table s ! i) = RUNNING" using ok(2) by (simp_all add: running_proc_def)
  then have ne: "j \<noteq> i" using j by auto
  obtain m ma where t: "l_release (l_upd j (\<lambda>q. q\<lparr>pid := 0, parent := None, pname := [], killed := False, state := UNUSED\<rparr>)
      (l_upd j (\<lambda>q. q\<lparr>kstack := 0\<rparr>) (s\<lparr>lio := (lio s)\<lparr>kpg := m\<rparr>\<rparr>)\<lparr>lio := (lio s)\<lparr>kpg := ma\<rparr>\<rparr>)) = Ok t"
    using r by (auto simp: l_reap_def outcome_simps l_mem_Ok Let_def)
  define s2 where "s2 = l_upd j (\<lambda>q. q\<lparr>kstack := 0\<rparr>) (s\<lparr>lio := (lio s)\<lparr>kpg := m\<rparr>\<rparr>)\<lparr>lio := (lio s)\<lparr>kpg := ma\<rparr>\<rparr>"
  note t = t [folded s2_def]
  have s2: "mild s s2" "state (table s2 ! i) = RUNNING"
    using i ne by (simp_all add: s2_def mild_upd slot_mild_def)
  from mild_back_ok [OF s2(1) ok s2(2)] have b: "back_ok i s s2" .
  then have "back_ok i s2 (l_upd j (\<lambda>q. q\<lparr>pid := 0, parent := None, pname := [], killed := False, state := UNUSED\<rparr>) s2)"
    using ne by (intro free_back_ok) (simp_all add: back_ok_def)
  note c = back_ok_trans [OF b this]
  have "back_ok i (l_upd j (\<lambda>q. q\<lparr>pid := 0, parent := None, pname := [], killed := False, state := UNUSED\<rparr>) s2) t"
    using c by (intro release_back [OF t]) (simp_all add: back_ok_def)
  then show ?thesis by (rule back_ok_trans [OF c])
qed

lemma sched_Ok: "l_sched s = Ok t \<Longrightarrow> t = s \<and> ptable_lock (lst s)"
  by (auto simp: l_sched_def l_Ok outcome_simps)

lemma wait_round_back:
  assumes r: "l_wait_round s = Ok (Some n, t)" and ok: "ltab_ok s" "running_proc i s"
  shows "back_ok i s t"
proof -
  have i: "cproc (lst s) = Some i" "i < length (table s)" "state (table s ! i) = RUNNING" using ok(2) by (simp_all add: running_proc_def)
  obtain kids jo where sc: "l_wait_scan i 0 False (table s) = (kids, jo)" by fastforce
  show ?thesis
  proof (cases jo)
    case None
    then have "t = s\<lparr>lst := (lst s)\<lparr>ptable_lock := False\<rparr>\<rparr>"
      using r i(1) sc by (auto simp: l_wait_round_def l_with_def table_def [symmetric] outcome_simps l_Ok split: if_splits)
    then show ?thesis using mild_back_ok [OF _ ok, of t] i by simp
  next
    case (Some j)
    then have "l_reap j s = Ok (n, t)"
      using r i(1) sc by (auto simp: l_wait_round_def l_with_def table_def [symmetric] outcome_simps)
    then show ?thesis using reap_back_ok [OF _ _ ok] l_wait_scan_zombie [OF sc [unfolded Some]] by simp
  qed
qed

subsection \<open>Giving up the processor\<close>

text \<open>A turn that is over: the lock is held for the scheduler.\<close>

definition over_ok :: "nat \<Rightarrow> 'd lkrn \<Rightarrow> 'd lkrn \<Rightarrow> bool" where
  "over_ok i s t \<longleftrightarrow> ltab_ok t \<and> same_clock i s t \<and> ptable_lock (lst t)"

lemma mild_over_ok: "mild s t \<Longrightarrow> ltab_ok s \<Longrightarrow> running_proc i s \<Longrightarrow> ptable_lock (lst t) \<Longrightarrow> over_ok i s t"
  using mild_ltab_ok [of s t] mild_same_clock [of s t i] by (simp add: over_ok_def running_proc_def)

lemma back_over_ok: "back_ok i s t \<Longrightarrow> over_ok i t u \<Longrightarrow> over_ok i s u"
  by (auto simp: back_ok_def over_ok_def intro: same_clock_trans)

lemma yield_over_ok:
  assumes "l_yield s = Ok t" "ltab_ok s" "running_proc i s"
  shows "over_ok i s t"
proof -
  have "mild s t \<and> ptable_lock (lst t)"
    using assms by (auto simp: l_yield_def outcome_simps l_Ok slot_mild_def running_proc_def dest!: sched_Ok intro!: mild_upd)
  then show ?thesis using mild_over_ok assms(2,3) by blast
qed

lemma sleep_over_ok:
  assumes "l_sleep ch s = Ok t" "ltab_ok s" "running_proc i s"
  shows "over_ok i s t"
proof -
  have "mild s t \<and> ptable_lock (lst t)"
    using assms by (auto simp: l_sleep_def slot_mild_def running_proc_def dest!: sched_Ok intro!: mild_upd split: option.splits)
  then show ?thesis using mild_over_ok assms(2,3) by blast
qed

lemma wait_round_over:
  assumes r: "l_wait_round s = Ok (None, t)" and ok: "ltab_ok s" "running_proc i s"
  shows "over_ok i s t"
proof -
  have i: "cproc (lst s) = Some i" using ok(2) by (simp add: running_proc_def)
  obtain kids jo where sc: "l_wait_scan i 0 False (table s) = (kids, jo)" by fastforce
  have "l_sleep (Chan_proc i) s = Ok t"
    using r i sc by (auto simp: l_wait_round_def l_with_def table_def [symmetric] outcome_simps split: option.splits if_splits)
  then show ?thesis using sleep_over_ok ok by blast
qed

lemma exit_files_mild: "l_exit_files k fd p s = Ok t \<Longrightarrow> mild s t"
proof (induction k arbitrary: fd s)
  case (Suc k)
  show ?case
  proof (cases "ofile (l_proc s p) ! fd")
    case None
    then show ?thesis using Suc by simp
  next
    case (Some f)
    then obtain x where r: "l_exit_files k (Suc fd) p (l_upd p (\<lambda>q. q\<lparr>ofile := (ofile q)[fd := None]\<rparr>) (s\<lparr>lio := x\<rparr>)) = Ok t"
      using Suc.prems by (auto simp: outcome_simps)
    have "mild s (l_upd p (\<lambda>q. q\<lparr>ofile := (ofile q)[fd := None]\<rparr>) (s\<lparr>lio := x\<rparr>))"
      by (rule mild_upd) (simp_all add: slot_mild_def)
    then show ?thesis using Suc.IH [OF r] mild_trans by blast
  qed
qed simp

lemma reparent_mild:
  fixes s :: "'d lkrn"
  shows "mild s (l_reparent k j p ini s) \<and> ptable_lock (lst (l_reparent k j p ini s)) = ptable_lock (lst s)"
proof (induction k arbitrary: j s)
  case (Suc k)
  define s1 where "s1 = (if parent (l_proc s j) = Some p
        then let s1 = l_upd j (\<lambda>q. q\<lparr>parent := ini\<rparr>) s
          in if state (l_proc s1 j) = ZOMBIE then l_wakeup1 (proc_chan ini) s1 else s1
        else s)"
  have "mild s s1" unfolding s1_def Let_def by (auto intro!: mild_wakeup1 mild_upd simp: slot_mild_def)
  moreover have "ptable_lock (lst s1) = ptable_lock (lst s)" by (simp add: s1_def Let_def l_wakeup1_def)
  moreover have "l_reparent (Suc k) j p ini s = l_reparent k (Suc j) p ini s1" by (simp add: s1_def)
  ultimately show ?case using Suc.IH [of s1 "Suc j"] mild_trans by metis
qed simp

lemma l_fs_Ok: "l_fs f s = Ok t \<Longrightarrow> \<exists>x. t = s\<lparr>lio := x\<rparr>"
  by (auto simp: l_fs_def outcome_simps)

lemma exit_over_ok:
  assumes e: "l_exit s = Ok t" and ok: "ltab_ok s" "running_proc i s"
  shows "over_ok i s t"
proof -
  have i: "cproc (lst s) = Some i" using ok(2) by (simp add: running_proc_def)
  obtain s1 s2 c s3 s4 s5 where ef: "l_exit_files NOFILE 0 i s = Ok s1" and bo: "l_fs fs_begin_op s1 = Ok s2"
    and ip: "l_fs (iput (pid (l_proc s2 i)) c) s2 = Ok s3" and eo: "l_fs (fs_end_op (pid (l_proc s3 i))) s3 = Ok s4"
    and ac: "l_acquire (l_upd i (\<lambda>q. q\<lparr>cwd := None\<rparr>) s4) = Ok s5"
    and rest: "(let s6 = l_wakeup1 (proc_chan (parent (l_proc s5 i))) s5;
                s7 = l_reparent (length (procs (lst s6))) 0 i (linit s6) s6
            in l_sched (l_upd i (\<lambda>q. q\<lparr>state := ZOMBIE\<rparr>) s7)) = Ok t"
    using e i unfolding l_exit_def l_with_def by (auto simp: outcome_simps split: option.splits)
  have "mild s s4" using exit_files_mild [OF ef] l_fs_Ok [OF bo] l_fs_Ok [OF ip] l_fs_Ok [OF eo] by auto
  then have "mild s (l_upd i (\<lambda>q. q\<lparr>cwd := None\<rparr>) s4)" by (rule mild_upd) (simp add: slot_mild_def)
  then have m5: "mild s s5" using ac by (auto simp: l_Ok)
  define s6 where "s6 = l_wakeup1 (proc_chan (parent (l_proc s5 i))) s5"
  define s7 where "s7 = l_reparent (length (procs (lst s6))) 0 i (linit s6) s6"
  have "mild s s6" unfolding s6_def by (rule mild_wakeup1 [OF m5])
  then have "mild s s7" using reparent_mild mild_trans unfolding s7_def by blast
  note m7 = this
  have "state (table s7 ! i) \<noteq> UNUSED" using m7 ok(2) by (simp add: mild_def slot_mild_def running_proc_def)
  then have "mild s (l_upd i (\<lambda>q. q\<lparr>state := ZOMBIE\<rparr>) s7)" using m7 by (intro mild_upd) (simp_all add: slot_mild_def)
  moreover have "t = l_upd i (\<lambda>q. q\<lparr>state := ZOMBIE\<rparr>) s7" "ptable_lock (lst t)"
    using rest sched_Ok unfolding Let_def s6_def [symmetric] s7_def [symmetric] by blast+
  ultimately show ?thesis using mild_over_ok [OF _ ok] by blast
qed

subsection \<open>A turn of a process\<close>

text \<open>
  What a process can do from the moment it has let go of \<open>ptable.lock\<close> until it takes it to give up the
  processor: system calls, also those of the rest of the kernel, which change only the files and the
  pages, and clock interrupts.
\<close>

inductive l_calls :: "'d lkrn \<Rightarrow> 'd lkrn \<Rightarrow> bool" where
  none: "l_calls s s"
| io: "l_calls s t \<Longrightarrow> l_calls s (t\<lparr>lio := x\<rparr>)"
| tick: "l_calls s t \<Longrightarrow> l_calls s (t\<lparr>lst := (lst t)\<lparr>gticks := gticks (lst t) + 1\<rparr>\<rparr>)"
| fork: "l_calls s t \<Longrightarrow> l_fork t = Ok (r, u) \<Longrightarrow> l_calls s u"
| grow: "l_calls s t \<Longrightarrow> l_growproc n t = Ok (r, u) \<Longrightarrow> l_calls s u"
| kill: "l_calls s t \<Longrightarrow> l_kill n t = Ok (r, u) \<Longrightarrow> l_calls s u"
| wakeup: "l_calls s t \<Longrightarrow> l_wakeup ch t = Ok u \<Longrightarrow> l_calls s u"
| settickets: "l_calls s t \<Longrightarrow> sys_settickets a t = Ok (r, u) \<Longrightarrow> l_calls s u"
| getpinfo: "l_calls s t \<Longrightarrow> sys_getpinfo g t = Ok (r, h, u) \<Longrightarrow> l_calls s u"
| wait: "l_calls s t \<Longrightarrow> l_wait t = Ok (Some n, u) \<Longrightarrow> l_calls s u"

text \<open>It starts behind its call of \<open>swtch\<close>: in \<open>forkret\<close> or \<open>yield\<close>, in \<open>sleep\<close>, in \<open>wait\<close>.\<close>

inductive l_begins :: "'d lkrn \<Rightarrow> 'd lkrn \<Rightarrow> bool" where
  release: "l_release s = Ok t \<Longrightarrow> l_begins s t"
| woken: "l_sleep_resume s = Ok t \<Longrightarrow> l_release t = Ok u \<Longrightarrow> l_begins s u"
| waited: "l_wait_resume s = Ok (Some n, t) \<Longrightarrow> l_begins s t"

inductive l_ends :: "'d lkrn \<Rightarrow> 'd lkrn \<Rightarrow> bool" where
  yield: "l_yield s = Ok t \<Longrightarrow> l_ends s t"
| sleep: "l_acquire s = Ok t \<Longrightarrow> l_sleep ch t = Ok u \<Longrightarrow> l_ends s u"
| wait: "l_wait s = Ok (None, t) \<Longrightarrow> l_ends s t"
| exit: "l_exit s = Ok t \<Longrightarrow> l_ends s t"

inductive l_turn :: "'d lkrn \<Rightarrow> 'd lkrn \<Rightarrow> bool" where
  run: "l_begins s t \<Longrightarrow> l_calls t u \<Longrightarrow> l_ends u v \<Longrightarrow> l_turn s v"
| again: "l_wait_resume s = Ok (None, t) \<Longrightarrow> l_turn s t"

lemma resume_back:
  assumes "l_sleep_resume s = Ok t" "ltab_ok s" "running_proc i s"
  shows "back_ok i s t"
proof (rule mild_back_ok [OF _ assms(2,3)])
  show "mild s t" using assms(1) by (auto simp: l_sleep_resume_def l_Ok slot_mild_def intro!: mild_upd)
  show "state (table t ! i) = RUNNING" using assms(1,3) by (auto simp: l_sleep_resume_def l_Ok running_proc_def)
qed

lemma back_step: "back_ok i s t \<Longrightarrow> (ltab_ok t \<Longrightarrow> running_proc i t \<Longrightarrow> back_ok i t u) \<Longrightarrow> back_ok i s u"
  using back_ok_trans by (auto simp: back_ok_def)

lemma tick_back: "ltab_ok s \<Longrightarrow> running_proc i s \<Longrightarrow> back_ok i s (s\<lparr>lst := (lst s)\<lparr>gticks := n\<rparr>\<rparr>)"
  by (rule mild_back_ok) (simp_all add: mild_def table_def running_proc_def slot_mild_refl)

lemma io_back: "ltab_ok s \<Longrightarrow> running_proc i s \<Longrightarrow> back_ok i s (s\<lparr>lio := x\<rparr>)"
  by (rule mild_back_ok) (simp_all add: running_proc_def)

lemma wait_back:
  assumes "l_wait s = Ok (Some n, t)" "ltab_ok s" "running_proc i s"
  shows "back_ok i s t"
proof -
  obtain u where u: "l_acquire s = Ok u" "l_wait_round u = Ok (Some n, t)" using assms(1) by (auto simp: l_wait_def outcome_simps)
  show ?thesis using back_step [OF acquire_back [OF u(1) assms(2,3)] wait_round_back [OF u(2)]] .
qed

lemma calls_back: "l_calls s t \<Longrightarrow> ltab_ok s \<Longrightarrow> running_proc i s \<Longrightarrow> back_ok i s t"
proof (induction rule: l_calls.induct)
  case (none s)
  then show ?case by (rule back_ok_refl)
next
  case (io s t x)
  show ?case using back_step [OF io.IH io_back] io.prems .
next
  case (tick s t)
  show ?case using back_step [OF tick.IH tick_back] tick.prems .
next
  case (fork s t r u)
  show ?case using back_step [OF fork.IH fork_back_ok [OF fork(2)]] fork.prems .
next
  case (grow s t n r u)
  show ?case using back_step [OF grow.IH grow_back_ok [OF grow(2)]] grow.prems .
next
  case (kill s t n r u)
  show ?case using back_step [OF kill.IH kill_back_ok [OF kill(2)]] kill.prems .
next
  case (wakeup s t ch u)
  show ?case using back_step [OF wakeup.IH wakeup_back_ok [OF wakeup(2)]] wakeup.prems .
next
  case (settickets s t a r u)
  show ?case using back_step [OF settickets.IH settickets_back_ok [OF settickets(2)]] settickets.prems .
next
  case (getpinfo s t g r h u)
  show ?case using back_step [OF getpinfo.IH getpinfo_back_ok [OF getpinfo(2)]] getpinfo.prems .
next
  case (wait s t n u)
  show ?case using back_step [OF wait.IH wait_back [OF wait(2)]] wait.prems .
qed

lemma begins_back: "l_begins s t \<Longrightarrow> ltab_ok s \<Longrightarrow> running_proc i s \<Longrightarrow> back_ok i s t"
proof (induction rule: l_begins.induct)
  case (release s t)
  then show ?case by (rule release_back)
next
  case (woken s t u)
  then show ?case using back_step [OF resume_back release_back] by blast
next
  case (waited s n t)
  then obtain u where u: "l_sleep_resume s = Ok u" "l_wait_round u = Ok (Some n, t)" by (auto simp: l_wait_resume_def outcome_simps)
  show ?case using back_step [OF resume_back [OF u(1) waited(2,3)] wait_round_back [OF u(2)]] .
qed

lemma over_step: "back_ok i s t \<Longrightarrow> (ltab_ok t \<Longrightarrow> running_proc i t \<Longrightarrow> over_ok i t u) \<Longrightarrow> over_ok i s u"
  using back_over_ok by (auto simp: back_ok_def)

lemma ends_over: "l_ends s t \<Longrightarrow> ltab_ok s \<Longrightarrow> running_proc i s \<Longrightarrow> over_ok i s t"
proof (induction rule: l_ends.induct)
  case (yield s t)
  then show ?case by (rule yield_over_ok)
next
  case (sleep s t ch u)
  show ?case using over_step [OF acquire_back [OF sleep(1,3,4)] sleep_over_ok [OF sleep(2)]] .
next
  case (wait s t)
  then obtain u where u: "l_acquire s = Ok u" "l_wait_round u = Ok (None, t)" by (auto simp: l_wait_def outcome_simps)
  show ?case using over_step [OF acquire_back [OF u(1) wait(2,3)] wait_round_over [OF u(2)]] .
next
  case (exit s t)
  then show ?case by (rule exit_over_ok)
qed

lemma turn_over: "l_turn s t \<Longrightarrow> ltab_ok s \<Longrightarrow> running_proc i s \<Longrightarrow> over_ok i s t"
proof (induction rule: l_turn.induct)
  case (run s t u v)
  note b = begins_back [OF run(1,4,5)]
  have c: "back_ok i s u" using back_step [OF b calls_back [OF run(2)]] .
  show ?case using over_step [OF c ends_over [OF run(3)]] .
next
  case (again s t)
  then obtain u where u: "l_sleep_resume s = Ok u" "l_wait_round u = Ok (None, t)" by (auto simp: l_wait_resume_def outcome_simps)
  show ?case using over_step [OF resume_back [OF u(1) again(2,3)] wait_round_over [OF u(2)]] .
qed

subsection \<open>The first process\<close>

lemma userinit_ltab_ok:
  assumes u: "l_userinit dv ic s = Ok t" and ok: "ltab_ok s"
  shows "ltab_ok t \<and> \<not> ptable_lock (lst t)"
proof -
  obtain p s1 where a: "l_allocproc s = Ok (Some p, s1)" using u by (auto simp: l_userinit_def outcome_simps split: option.splits)
  note al = l_allocproc_Some [OF a]
  obtain k where k: "table s1 = (table s)[p := (embryo (lnextpid s) (table s ! p))\<lparr>kstack := k, ctxt := Forkret\<rparr>]" using al(7) by blast
  have ok1: "ltab_ok s1"
    by (rule ltab_ok_new [OF ok al(1) k _ al(5)]) (simp_all add: embryo_def)
  have pn: "state (table s1 ! p) \<noteq> UNUSED" "p < length (table s1)" using k al(1) by (simp_all add: embryo_def)
  have "mild s1 t \<and> \<not> ptable_lock (lst t)"
    using u a pn by (auto simp: l_userinit_def outcome_simps l_Ok slot_mild_def intro!: mild_upd)
  then show ?thesis using mild_ltab_ok ok1 by blast
qed

subsection \<open>The scheduler\<close>

lemma scan_runnable: "lottery_scan ps k c w = Some j \<Longrightarrow> k \<le> j \<and> j < k + length ps \<and> state (ps ! (j - k)) = RUNNABLE"
proof (induction ps arbitrary: k c)
  case (Cons q ps)
  show ?case
  proof (cases "state q = RUNNABLE \<and> \<not> sint w > sint (c + tickets q)")
    case False
    then obtain c' where "lottery_scan ps (Suc k) c' w = Some j" using Cons.prems by (auto simp: Let_def split: if_splits)
    from Cons.IH [OF this] have h: "Suc k \<le> j" "j < Suc k + length ps" "state (ps ! (j - Suc k)) = RUNNABLE" by simp_all
    then have "j - k = Suc (j - Suc k)" by simp
    then show ?thesis using h by simp
  qed (use Cons.prems in \<open>simp add: Let_def\<close>)
qed simp

text \<open>The state in which the winner of a round resumes.\<close>

definition resumed :: "nat \<Rightarrow> lstate \<Rightarrow> lstate" where
  "resumed i x = dispatched i ((snd (rand x))\<lparr>ptable_lock := True\<rparr>)"

lemma round_Ok:
  assumes r: "scheduler_round run x = Ok (Some i, y)"
  shows "\<not> ptable_lock x \<and> \<not> tickslock x \<and> i < length (procs x) \<and> state (procs x ! i) = RUNNABLE
    \<and> y = upd_proc i (\<lambda>p. p\<lparr>ticks2 := gticks (run (resumed i x)), ticks := ticks p + (gticks (run (resumed i x)) - ticks1 p)\<rparr>)
        ((run (resumed i x))\<lparr>tickslock := False, cproc := None, ptable_lock := False\<rparr>)"
proof -
  have l: "\<not> ptable_lock x" using r by (auto simp: scheduler_round_def gettotalTickets_def outcome_simps)
  have x: "x\<lparr>ptable_lock := False\<rparr> = x" using l by simp
  obtain q s2 where q: "rand x = (q, s2)" by fastforce
  then have s2: "s2 = snd (rand x)" by simp
  have f: "procs s2 = procs x" "\<not> ptable_lock s2" "tickslock s2 = tickslock x" using l by (simp_all add: s2)
  then have x2: "s2\<lparr>ptable_lock := False\<rparr> = s2" by simp
  obtain w where sc: "lottery_scan (procs x) 0 0 w = Some i"
    and rest: "bnd (scheduler_dispatch run i (s2\<lparr>ptable_lock := True\<rparr>)) (\<lambda>s5.
                 bnd (lk_release (ptable_lock s5)) (\<lambda>l. Ok (Some i, s5\<lparr>ptable_lock := l\<rparr>))) = Ok (Some i, y)"
    using r l f unfolding scheduler_round_def gettotalTickets_eq [OF l] x
    by (auto simp: q gettotalTickets_eq [OF f(2)] x2 outcome_simps Let_def split: if_splits option.splits)
  from scan_runnable [OF sc] have i: "i < length (procs x)" "state (procs x ! i) = RUNNABLE" by simp_all
  have tl: "\<not> tickslock x" using rest f by (auto simp: scheduler_dispatch_def Let_def outcome_simps upd_proc_def)
  have "upd_proc i (\<lambda>p. p\<lparr>ticks1 := gticks s2\<rparr>) (upd_proc i (\<lambda>p. p\<lparr>state := RUNNING, inuse := 1\<rparr>)
      (s2\<lparr>ptable_lock := True, cproc := Some i\<rparr>)\<lparr>tickslock := True\<rparr>)\<lparr>tickslock := False\<rparr> = resumed i x"
    using i(1) tl f unfolding resumed_def s2 [symmetric] by (simp add: upd_proc_def dispatched_def)
  then show ?thesis
    using rest l tl i f unfolding scheduler_dispatch_def
    by (auto simp: Let_def outcome_simps upd_proc_def)
qed

text \<open>
  What happens to the system: the scheduler draws a winner that runs until it gives up the processor, it
  draws none, or an interrupt comes while it is between two rounds.
\<close>

inductive lottery_step :: "'d lkrn \<Rightarrow> 'd lkrn \<Rightarrow> bool" where
  turn: "l_turn (s\<lparr>lst := resumed i (lst s)\<rparr>) t \<Longrightarrow> scheduler_round (\<lambda>_. lst t) (lst s) = Ok (Some i, x)
    \<Longrightarrow> lottery_step s (t\<lparr>lst := x\<rparr>)"
| idle: "scheduler_round (\<lambda>y. y) (lst s) = Ok (None, x) \<Longrightarrow> lottery_step s (s\<lparr>lst := x\<rparr>)"
| clock: "lottery_step s (s\<lparr>lst := (lst s)\<lparr>gticks := gticks (lst s) + 1\<rparr>\<rparr>)"
| wakeup: "l_wakeup ch s = Ok t \<Longrightarrow> lottery_step s t"
| io: "lottery_step s (s\<lparr>lio := y\<rparr>)"

definition lsys_ok :: "'d lkrn \<Rightarrow> bool" where
  "lsys_ok s \<longleftrightarrow> \<not> ptable_lock (lst s) \<and> ltab_ok s"

lemma ltab_ok_fields:
  assumes "ltab_ok s" "\<not> tickslock (lst t)" "length (table t) = length (table s)"
    "\<And>p. p < length (table s) \<Longrightarrow> (state (table t ! p) = UNUSED \<longleftrightarrow> state (table s ! p) = UNUSED)
       \<and> tickets (table t ! p) = tickets (table s ! p)"
  shows "ltab_ok t"
proof -
  have "used_slot t p = used_slot s p" "used_slot s p \<Longrightarrow> tickets (table t ! p) = tickets (table s ! p)" for p
    using assms(3,4) by (auto simp: used_slot_def)
  then show ?thesis using assms(1,2) unfolding ltab_ok_def by simp
qed

lemma round_None:
  assumes r: "scheduler_round run x = Ok (None, y)"
  shows "\<not> ptable_lock x \<and> \<not> ptable_lock y \<and> procs y = procs x \<and> tickslock y = tickslock x"
proof -
  have l: "\<not> ptable_lock x" using r by (auto simp: scheduler_round_def gettotalTickets_def outcome_simps)
  have x: "x\<lparr>ptable_lock := False\<rparr> = x" using l by simp
  obtain q s2 where q: "rand x = (q, s2)" by fastforce
  then have s2: "s2 = snd (rand x)" by simp
  have f: "procs s2 = procs x" "\<not> ptable_lock s2" "tickslock s2 = tickslock x" using l by (simp_all add: s2)
  then have x2: "s2\<lparr>ptable_lock := False\<rparr> = s2" by simp
  have "y = x \<or> y = s2"
    using r l f x2 unfolding scheduler_round_def gettotalTickets_eq [OF l] x
    by (auto simp: q gettotalTickets_eq [OF f(2)] x2 outcome_simps Let_def split: if_splits option.splits)
  then show ?thesis using l f by auto
qed

lemma step_ok:
  fixes s u :: "'d lkrn"
  assumes "lottery_step s u" "lsys_ok s"
  shows "lsys_ok u \<and> length (table u) = length (table s)"
  using assms
proof (induction rule: lottery_step.induct)
  case (turn i s t x)
  note r = round_Ok [OF turn(2)]
  let ?s = "s\<lparr>lst := resumed i (lst s)\<rparr>"
  have tb: "table ?s = (table s)[i := (table s ! i)\<lparr>state := RUNNING, inuse := 1, ticks1 := gticks (lst s)\<rparr>]"
    by (simp add: table_lst resumed_def dispatched_def upd_proc_def table_def)
  have i: "i < length (table s)" "state (table s ! i) = RUNNABLE" using r by (simp_all add: table_def)
  have "ltab_ok ?s"
  proof (rule ltab_ok_fields)
    show "ltab_ok s" using turn(3) by (simp add: lsys_ok_def)
    show "\<not> tickslock (lst ?s)" by (simp add: resumed_def dispatched_def upd_proc_def)
  qed (use i in \<open>auto simp: tb nth_upd\<close>)
  moreover have "running_proc i ?s"
    using i by (simp add: running_proc_def tb) (simp add: resumed_def dispatched_def upd_proc_def)
  ultimately have o: "ltab_ok t" "same_clock i ?s t" using turn_over [OF turn(1)] by (simp_all add: over_ok_def)
  define f :: "lproc \<Rightarrow> lproc" where "f = (\<lambda>p. p\<lparr>ticks2 := gticks (lst t), ticks := ticks p + (gticks (lst t) - ticks1 p)\<rparr>)"
  have x: "x = upd_proc i f ((lst t)\<lparr>tickslock := False, cproc := None, ptable_lock := False\<rparr>)" using r by (simp add: f_def)
  have len: "length (table t) = length (table s)" using o(2) by (simp add: same_clock_def tb)
  have xt: "table (t\<lparr>lst := x\<rparr>) = (table t)[i := f (table t ! i)]" unfolding x by (simp add: table_lst upd_proc_def table_def)
  have "ltab_ok (t\<lparr>lst := x\<rparr>)"
  proof (rule ltab_ok_fields [OF o(1)])
    show "\<not> tickslock (lst (t\<lparr>lst := x\<rparr>))" unfolding x by (simp add: upd_proc_def)
  qed (unfold xt, simp_all add: nth_upd f_def)
  then show ?case using len unfolding lsys_ok_def xt by (simp add: x upd_proc_def)
next
  case (idle s x)
  note n = round_None [OF idle(1)]
  have "ltab_ok (s\<lparr>lst := x\<rparr>)"
    by (rule ltab_ok_fields [of s]) (use n idle(2) in \<open>simp_all add: lsys_ok_def ltab_ok_def table_lst table_def\<close>)
  then show ?case using n by (simp add: lsys_ok_def table_lst table_def)
next
  case (clock s)
  have "mild s (s\<lparr>lst := (lst s)\<lparr>gticks := gticks (lst s) + 1\<rparr>\<rparr>)" by (simp add: mild_def table_def slot_mild_refl)
  then show ?case using clock mild_ltab_ok by (auto simp: lsys_ok_def table_def)
next
  case (wakeup ch s t)
  have m: "mild s t" "\<not> ptable_lock (lst t)"
    using wakeup(1) by (auto simp: l_wakeup_def outcome_simps l_Ok intro!: mild_wakeup1)
  then show ?case using wakeup(2) mild_ltab_ok by (auto simp: lsys_ok_def mild_def)
next
  case (io s y)
  then show ?case using mild_ltab_ok [of s "s\<lparr>lio := y\<rparr>"] by (simp add: lsys_ok_def)
qed

text \<open>
  C25. Whatever the processes of the scheduling tree do, the lottery keeps what it rests on.  From a table
  in which every process has a positive number of tickets, any sequence of rounds of the
  scheduler (in each the winner makes any system calls, forks, grows, kills, waits, sets its tickets, while the
  clock ticks, and yields, sleeps or exits), of rounds without a winner and of interrupts leads to a state
  with both locks free, a table of the same size in which every process has a positive number of tickets, and
  one the next draw can be made from as
  long as the sum of the tickets fits an \<open>int\<close>.
\<close>

theorem lottery_keeps_tickets:
  assumes run: "lottery_step\<^sup>*\<^sup>* s u" and start: "\<not> ptable_lock (lst s)" "ltab_ok s"
  shows "\<not> ptable_lock (lst u) \<and> \<not> tickslock (lst u) \<and> length (procs (lst u)) = length (procs (lst s))
    \<and> (\<forall>p < length (procs (lst u)). state (procs (lst u) ! p) \<noteq> UNUSED \<longrightarrow>
         0 < sint (tickets (procs (lst u) ! p)))
    \<and> (tsum (procs (lst u)) < 2 ^ 31 \<longrightarrow> lottery_ok (procs (lst u)))"
proof -
  have ok: "lsys_ok u \<and> length (table u) = length (table s)"
    using run by (induction rule: rtranclp_induct) (use start step_ok in \<open>auto simp: lsys_ok_def\<close>)
  then have t: "ltab_ok u" "\<not> ptable_lock (lst u)" by (simp_all add: lsys_ok_def)
  have pos: "0 < sint (tickets q)" if "q \<in> set (table u)" "state q \<noteq> UNUSED" for q
    using that t(1) by (auto simp: ltab_ok_def used_slot_def in_set_conv_nth)
  have "tsum (table u) < 2 ^ 31 \<longrightarrow> lottery_ok (table u)" using pos unfolding lottery_ok_def by auto
  then show ?thesis using ok t unfolding ltab_ok_def used_slot_def table_def by auto
qed

definition lkrn_with :: "lproc list \<Rightarrow> 'd kio \<Rightarrow> 'd lkrn" where
  "lkrn_with ps x = \<lparr>lst = lstate_with ps, lio = x, lnextpid = 9, linit = Some 0, ldata = 0x80109000, lcr3 = 0\<rparr>"

text \<open>One process, which runs for a tick and yields.\<close>

lemma yield_step:
  fixes x :: "'d kio"
  defines "s \<equiv> lkrn_with [lproc_with 1 RUNNABLE 10] x"
  shows "\<exists>u. lottery_step s u \<and> ticks (procs (lst u) ! 0) = 1 \<and> length (procs (lst u)) = 1 \<and> state (procs (lst u) ! 0) = RUNNABLE"
proof -
  define q where "q = (lproc_with 1 RUNNING 10)\<lparr>inuse := 1, ticks1 := 7\<rparr>"
  obtain w b where wb: "rand (lst s) = (w, (lst s)\<lparr>lbit := b, lfsr := w\<rparr>)" by (auto simp: rand_def Let_def)
  define x0 where "x0 = (lstate_with [q])\<lparr>lbit := b, lfsr := w, cproc := Some 0\<rparr>"
  have r: "resumed 0 (lst s) = x0\<lparr>ptable_lock := True\<rparr>"
    by (simp add: resumed_def wb) (simp add: dispatched_def upd_proc_def s_def lkrn_with_def x0_def lstate_with_def lproc_with_def q_def)
  have q: "state q = RUNNING" "state (q\<lparr>state := RUNNABLE\<rparr>) = RUNNABLE" "ticks1 q = 7" "ticks q = 0" by (simp_all add: q_def lproc_with_def)
  have x0: "\<not> ptable_lock x0" "procs x0 = [q]" "cproc x0 = Some 0" "gticks x0 = 7" "\<not> tickslock x0"
    by (simp_all add: x0_def lstate_with_def)
  define t where "t = s\<lparr>lst := x0\<lparr>ptable_lock := True, gticks := 8, procs := [q\<lparr>state := RUNNABLE\<rparr>]\<rparr>\<rparr>"
  have tn: "l_turn (s\<lparr>lst := resumed 0 (lst s)\<rparr>) t"
  proof (rule l_turn.run)
    show "l_begins (s\<lparr>lst := resumed 0 (lst s)\<rparr>) (s\<lparr>lst := x0\<rparr>)"
      by (rule l_begins.release) (use x0(1) in \<open>simp add: l_Ok r\<close>)
    have "l_calls (s\<lparr>lst := x0\<rparr>) (s\<lparr>lst := x0\<rparr>\<lparr>lst := (lst (s\<lparr>lst := x0\<rparr>))\<lparr>gticks := gticks (lst (s\<lparr>lst := x0\<rparr>)) + 1\<rparr>\<rparr>)"
      by (intro l_calls.intros)
    then show "l_calls (s\<lparr>lst := x0\<rparr>) (s\<lparr>lst := x0\<lparr>gticks := 8\<rparr>\<rparr>)" using x0(4) by simp
    show "l_ends (s\<lparr>lst := x0\<lparr>gticks := 8\<rparr>\<rparr>) t"
      by (rule l_ends.yield)
        (use x0 in \<open>simp add: l_yield_def l_sched_def l_acquire_def l_with_def l_upd_def upd_proc_def l_proc_def q t_def\<close>)
  qed
  define p0 where "p0 = lproc_with 1 RUNNABLE 10"
  have ls: "\<not> ptable_lock (lst s)" "\<not> tickslock (lst s)" "procs (lst s) = [p0]" "gticks (lst s) = 7" "(lst s)\<lparr>ptable_lock := False\<rparr> = lst s"
    by (simp_all add: s_def lkrn_with_def p0_def lstate_with_def)
  have p0: "state p0 = RUNNABLE" "tickets p0 = 10" by (simp_all add: p0_def)
  have "lottery_ok [p0]" "unat w mod 10 < tsum [p0]" by (simp_all add: lottery_ok_def p0)
  from winner_exists [OF this] obtain i where "lottery_scan [p0] 0 0 (word_of_nat (unat w mod 10)) = Some i" by (auto simp: winner_def)
  moreover have "(word_of_nat (unat w mod 10) :: u32) = w mod 10" by (rule word_unat_eq_iff [THEN iffD2]) (simp add: unat_mod unsigned_of_nat take_bit_eq_mod)
  ultimately have sc: "lottery_scan [p0] 0 0 (w mod 10) = Some 0" using scan_runnable by fastforce
  have "scheduler_dispatch (\<lambda>_. lst t) 0 ((lst s)\<lparr>lbit := b, lfsr := w, ptable_lock := True\<rparr>)
      = Ok (upd_proc 0 (\<lambda>p. p\<lparr>ticks2 := 8, ticks := ticks p + (8 - ticks1 p)\<rparr>) ((lst t)\<lparr>tickslock := False, cproc := None\<rparr>))"
    using ls x0 by (simp add: scheduler_dispatch_def Let_def upd_proc_def t_def)
  note sc1 = this sc
  have g1: "gettotalTickets (lst s) = Ok (10, lst s)" using gettotalTickets_eq [OF ls(1)] ls(3,5) p0 by simp
  have "((lst s)\<lparr>lbit := b, lfsr := w\<rparr>)\<lparr>ptable_lock := False\<rparr> = (lst s)\<lparr>lbit := b, lfsr := w\<rparr>" using ls(1) by simp
  then have g2: "gettotalTickets ((lst s)\<lparr>lbit := b, lfsr := w\<rparr>) = Ok (10, (lst s)\<lparr>lbit := b, lfsr := w\<rparr>)"
    using gettotalTickets_eq [of "(lst s)\<lparr>lbit := b, lfsr := w\<rparr>"] ls(1,3) p0 by simp
  have "scheduler_round (\<lambda>_. lst t) (lst s) = Ok (Some 0, upd_proc 0 (\<lambda>p. p\<lparr>ticks2 := 8, ticks := ticks p + (8 - ticks1 p)\<rparr>)
      ((lst t)\<lparr>tickslock := False, cproc := None, ptable_lock := False\<rparr>))"
    using sc1 unfolding scheduler_round_def g1 by (simp add: wb g2 ls(1,3) Let_def upd_proc_def t_def)
  moreover have "procs (upd_proc 0 (\<lambda>p. p\<lparr>ticks2 := 8, ticks := ticks p + (8 - ticks1 p)\<rparr>)
      ((lst t)\<lparr>tickslock := False, cproc := None, ptable_lock := False\<rparr>)) = [q\<lparr>state := RUNNABLE, ticks2 := 8, ticks := 1\<rparr>]"
    using q by (simp add: upd_proc_def t_def)
  ultimately show ?thesis using lottery_step.turn [OF tn] by fastforce
qed

theorem lottery_keeps_tickets_witness:
  "\<forall>x :: 'd kio. \<exists>u. lottery_step\<^sup>*\<^sup>* (lkrn_with [lproc_with 1 RUNNABLE 10] x) u
     \<and> ticks (procs (lst u) ! 0) = 1 \<and> 0 < sint (tickets (procs (lst u) ! 0)) \<and> \<not> ptable_lock (lst u)"
proof
  fix x :: "'d kio"
  let ?s = "lkrn_with [lproc_with 1 RUNNABLE 10] x"
  obtain u where u: "lottery_step ?s u" "ticks (procs (lst u) ! 0) = 1" "length (procs (lst u)) = 1"
    "state (procs (lst u) ! 0) = RUNNABLE"
    using yield_step [of x] by blast
  have run: "lottery_step\<^sup>*\<^sup>* ?s u" using u(1) by blast
  have "\<not> ptable_lock (lst ?s)" "ltab_ok ?s" by (auto simp: lkrn_with_def ltab_ok_def used_slot_def table_def)
  from lottery_keeps_tickets [OF run this] have "0 < sint (tickets (procs (lst u) ! 0)) \<and> \<not> ptable_lock (lst u)"
    using u(3,4) by auto
  then show "\<exists>u. lottery_step\<^sup>*\<^sup>* ?s u \<and> ticks (procs (lst u) ! 0) = 1
      \<and> 0 < sint (tickets (procs (lst u) ! 0)) \<and> \<not> ptable_lock (lst u)"
    using run u(2) by blast
qed

end
