(* ===== verification/File_Spec.thy ===== *)
theory File_Spec
  imports File
begin

text \<open>
  The promises of the file layer, composed from those of the inode layer, the log, the pipes and
  the page allocator: a write to a file is durable when it returns, the file table counts its
  references, and a pipe lives from \<open>pipealloc\<close> to the second \<open>fileclose\<close>.
\<close>

subsection \<open>Writing a file through its descriptor\<close>

text \<open>No transaction is running and the log is empty: the disk holds the file system \<open>V\<close>.\<close>

definition fs_idle :: "int \<Rightarrow> 'd fs \<Rightarrow> (u32 \<Rightarrow> bytes) \<Rightarrow> bool" where
  "fs_idle me s V \<longleftrightarrow> log_inv me (lg s) [] V V \<and> outstanding (lg s) = 0 \<and> 6 \<le> unat (log_size (lg s))"

text \<open>A regular file at entry \<open>ip\<close>, in the cache and not locked.\<close>

definition file_at :: "'d fs \<Rightarrow> (u32 \<Rightarrow> bytes) \<Rightarrow> nat \<Rightarrow> inode \<Rightarrow> bool" where
  "file_at s V ip i \<longleftrightarrow> ip < length (inodes s) \<and> 0 < iref i \<and> valid i \<and> sl_free (ilk i) \<and> itype i \<noteq> T_DEV
     \<and> file_ok V i \<and> file_sep s V i \<and> (NDIRECT * BSIZE < unat (isize i) \<longrightarrow> home s (addrs i ! NDIRECT))"

lemma fs_idle_disk: "fs_idle me s V \<Longrightarrow> disk (ide (bc (lg s))) 1 (unat n) = V n"
  unfolding fs_idle_def using log_invD(12) [of me "lg s" "[]" V V] by (metis (full_types))

lemma begin_op_idle:
  assumes "fs_idle me s V"
  defines "t \<equiv> s\<lparr>lg := (lg s)\<lparr>outstanding := 1\<rparr>\<rparr>"
  shows "fs_begin_op s = Ok t" "fs_tx me t [] V V" "k \<le> 4 \<Longrightarrow> room t [] k" "home t n = home s n"
proof -
  have i: "log_inv me (lg s) [] V V" "outstanding (lg s) = 0" using assms(1) by (simp_all add: fs_idle_def)
  then have "\<not> log_lk (lg s)" "\<not> committing (lg s)" "lh_n (lg s) = 0" by (simp_all add: log_inv_def)
  with i(2) show "fs_begin_op s = Ok t"
    by (cases "lg s") (simp add: fs_begin_op_def begin_op_def t_def LOGSIZE_def MAXOPBLOCKS_def)
  show "fs_tx me t [] V V" using i by (simp add: fs_tx_def t_def log_inv_def)
  show "k \<le> 4 \<Longrightarrow> room t [] k" using assms(1) by (simp add: room_def t_def fs_idle_def NBUF_def MAXOPBLOCKS_def)
  show "home t n = home s n" by (simp add: home_def t_def)
qed

lemma end_op_idle:
  assumes "fs_tx me s bl V D" "outstanding (lg s) = 1" "6 \<le> unat (log_size (lg s))"
  shows "\<exists>t V'. fs_end_op me s = Ok t \<and> fs_idle me t V' \<and> t = s\<lparr>lg := lg t\<rparr> \<and> (\<forall>n. home s n \<longrightarrow> V' n = V n)
    \<and> (\<forall>n. home t n = home s n)"
proof -
  have "log_inv me (lg s) bl V D" using assms(1) by (simp add: fs_tx_def)
  from end_op_last [OF this assms(2)] obtain l V' where
    l: "end_op me (lg s) = Ok l" "log_inv me l [] V' V'" "outstanding l = 0" "log_start l = log_start (lg s)"
      "log_size l = log_size (lg s)" "\<forall>m. \<not> in_log (log_start (lg s)) (log_size (lg s)) m \<longrightarrow> V' m = V m" by blast
  then show ?thesis using assms(3)
    by (intro exI [of _ "s\<lparr>lg := l\<rparr>"] exI [of _ V']) (simp add: fs_end_op_def fs_idle_def home_def)
qed

lemma home_view_cong:
  assumes "file_at s V ip i" "\<And>n. home s n \<Longrightarrow> V' n = V n" "\<And>n. home t n = home s n"
  shows "k * BSIZE < unat (isize i) \<Longrightarrow> blk_at V' i k = blk_at V i k" "file_ok V' i" "file_sep t V' i"
    "p < unat (isize i) \<Longrightarrow> content V' i p = content V i p"
proof -
  show b: "blk_at V' i k = blk_at V i k" if "k * BSIZE < unat (isize i)" for k
  proof (cases "k < NDIRECT")
    case False
    then have "NDIRECT * BSIZE \<le> k * BSIZE" by simp
    then have "NDIRECT * BSIZE < unat (isize i)" using that by (rule le_less_trans)
    then have "V' (addrs i ! NDIRECT) = V (addrs i ! NDIRECT)" using assms(1,2) by (simp add: file_at_def)
    then show ?thesis by (simp add: blk_at_def)
  qed (simp add: blk_at_def)
  have f: "file_ok V i" "file_sep s V i" using assms(1) by (simp_all add: file_at_def)
  show "file_ok V' i" using f(1) by (simp add: file_ok_def b)
  show "file_sep t V' i" using f(2) unfolding file_sep_def by (simp add: b assms(3))
  assume p: "p < unat (isize i)"
  have "p div BSIZE * BSIZE \<le> p" by simp
  then have k: "p div BSIZE * BSIZE < unat (isize i)" using p by (rule le_less_trans)
  then have "home s (blk_at V i (p div BSIZE))" using f(2) by (simp add: file_sep_def)
  then show "content V' i p = content V i p" by (simp add: content_def b [OF k] assms(2))
qed

lemma chunks_1536: "n \<le> 1536 \<Longrightarrow> chunks a n \<le> 4"
proof -
  assume n: "n \<le> 1536"
  have "a mod BSIZE + n + (BSIZE - 1) < 5 * BSIZE" using n chunk_pos(1) [of a] by (simp add: BSIZE_def)
  then have "(a mod BSIZE + n + (BSIZE - 1)) div BSIZE < 5" by (simp add: less_mult_imp_div_less)
  then show ?thesis by (simp add: chunks_def)
qed

text \<open>The inode after a lock and an unlock.\<close>

abbreviation used_lock :: "int \<Rightarrow> inode \<Rightarrow> inode" where
  "used_lock me i \<equiv> i\<lparr>ilk := sl_released (sl_taken me (ilk i))\<rparr>"

lemma write_round:
  assumes "fs_idle me s V" "file_at s V ip (inodes s ! ip)" "length src = unat n" "unat n \<le> 1536"
    "unat off + unat n \<le> unat (isize (inodes s ! ip))"
  defines "i \<equiv> inodes s ! ip"
  shows "\<exists>s1 s2 t u v V'. fs_begin_op s = Ok s1 \<and> ilock me ip s1 = Ok s2 \<and> writei dv me ip src off n s2 = Ok (int (unat n), t)
    \<and> iunlock me ip t = Ok u \<and> fs_end_op me u = Ok v \<and> fs_idle me v V' \<and> inodes v = (inodes s)[ip := used_lock me i]
    \<and> file_at v V' ip (used_lock me i)
    \<and> (\<forall>p < unat (isize i). content V' i p = (if unat off \<le> p \<and> p < unat off + unat n then src ! (p - unat off) else content V i p))
    \<and> (\<forall>m. home s m \<longrightarrow> (\<forall>k. k * BSIZE < unat (isize i) \<longrightarrow> m \<noteq> blk_at V i k) \<longrightarrow> V' m = V m)
    \<and> (\<forall>m. home v m = home s m)"
proof -
  define s1 where "s1 = s\<lparr>lg := (lg s)\<lparr>outstanding := 1\<rparr>\<rparr>"
  note b = begin_op_idle [OF assms(1), folded s1_def]
  have f: "ip < length (inodes s)" "0 < iref i" "valid i" "sl_free (ilk i)" "itype i \<noteq> T_DEV" "file_ok V i" "file_sep s V i"
    using assms(2) by (simp_all add: file_at_def i_def)
  have i1: "inodes s1 = inodes s" by (simp add: s1_def)
  define s2 where "s2 = upd_inode ip (\<lambda>i. i\<lparr>ilk := sl_taken me (ilk i)\<rparr>) s1"
  have lk: "ilock me ip s1 = Ok s2"
    unfolding s2_def by (rule ilock_cached) (use f i1 in \<open>simp_all add: i_def\<close>)
  have i2: "inodes s2 ! ip = i\<lparr>ilk := sl_taken me (ilk i)\<rparr>" using f(1) i1 by (simp add: s2_def i_def)
  have h2: "home s2 m = home s m" for m using b(4) by (simp add: home_def s2_def)
  have t2: "fs_tx me s2 [] V V" using b(2) by (simp add: fs_tx_def s2_def)
  have fl: "file_ok W (i\<lparr>ilk := l\<rparr>) = file_ok W i" "file_sep x W (i\<lparr>ilk := l\<rparr>) = file_sep x W i"
    "content W (i\<lparr>ilk := l\<rparr>) = content W i" "blk_at W (i\<lparr>ilk := l\<rparr>) = blk_at W i" for W l and x :: "'a fs"
    by (simp_all add: file_ok_def file_sep_def content_def blk_at_def fun_eq_iff)
  have r: "room s2 [] (chunks (unat off) (unat n))"
    using b(3) [OF chunks_1536 [OF assms(4)]] by (simp add: room_def s2_def)
  have w1: "file_ok V (inodes s2 ! ip)" "file_sep s2 V (inodes s2 ! ip)" "itype (inodes s2 ! ip) \<noteq> T_DEV"
    "unat off + unat n \<le> unat (isize (inodes s2 ! ip))"
    using f h2 assms(5) unfolding i2 fl by (simp_all add: file_sep_def i_def)
  from writei_spec [OF t2 w1(1-3) assms(3) w1(4) r, of dv] obtain t bl' V1 where
    t: "writei dv me ip src off n s2 = Ok (int (unat n), t)" "fs_tx me t bl' V1 V" "same_above s2 t"
      "file_ok V1 i" "file_sep s2 V1 i"
      "\<forall>p < unat (isize i). content V1 i p = (if unat off \<le> p \<and> p < unat off + unat n then src ! (p - unat off) else content V i p)"
      "\<forall>m. (\<forall>k. k * BSIZE < unat (isize i) \<longrightarrow> m \<noteq> blk_at V i k) \<longrightarrow> V1 m = V m"
    unfolding i2 fl by auto
  have it: "inodes t ! ip = i\<lparr>ilk := sl_taken me (ilk i)\<rparr>" "inodes t = (inodes s)[ip := i\<lparr>ilk := sl_taken me (ilk i)\<rparr>]"
    using same_aboveD(1) [OF t(3)] f(1) i1 by (simp_all add: s2_def i_def)
  have held: "sl_held me (sl_taken me (ilk i))" using f(4) by simp
  define u where "u = upd_inode ip (\<lambda>j. j\<lparr>ilk := sl_released (sl_taken me (ilk i))\<rparr>) t"
  have un: "iunlock me ip t = Ok u"
    using it f(2) by (simp add: iunlock_def holdingsleep_eq(1) [OF held] releasesleep_eq [OF held] u_def)
  have tu: "fs_tx me u bl' V1 V" using t(2) by (simp add: fs_tx_def u_def)
  have ou: "outstanding (lg u) = 1" "6 \<le> unat (log_size (lg u))"
    using t(3) assms(1) by (simp_all add: same_above_def u_def s2_def s1_def fs_idle_def)
  have hu: "home u m = home s m" for m using same_aboveD(5) [OF t(3)] h2 by (simp add: home_def u_def)
  from end_op_idle [OF tu ou] obtain v V' where v: "fs_end_op me u = Ok v" "fs_idle me v V'" "v = u\<lparr>lg := lg v\<rparr>"
    "\<forall>n. home u n \<longrightarrow> V' n = V1 n" "\<forall>n. home v n = home u n" by blast
  have iv: "inodes v = (inodes s)[ip := used_lock me i]"
  proof -
    have "inodes v = inodes u" by (subst v(3)) simp
    then show ?thesis using it f(1) by (simp add: u_def)
  qed
  have at1: "file_at u V1 ip i"
    using assms(2) f t(4,5) hu h2 iv it(2) by (simp add: file_at_def file_sep_def u_def i_def)
  have hv: "\<And>n. home u n \<Longrightarrow> V' n = V1 n" "\<And>n. home v n = home u n" using v(4,5) by simp_all
  note cg = home_view_cong [OF at1 hv]
  have "file_at v V' ip (used_lock me i)"
    using at1 cg(2,3) f iv hv(2) sl_released_free [OF held] by (simp add: file_at_def fl)
  moreover have "\<forall>p < unat (isize i). content V' i p = (if unat off \<le> p \<and> p < unat off + unat n then src ! (p - unat off) else content V i p)"
    using t(6) cg(4) by simp
  moreover have "\<forall>m. home s m \<longrightarrow> (\<forall>k. k * BSIZE < unat (isize i) \<longrightarrow> m \<noteq> blk_at V i k) \<longrightarrow> V' m = V m"
    using t(7) hv(1) hu by simp
  ultimately show ?thesis
    using b(1) lk t(1) un v(1,2) iv hv(2) hu by blast
qed


lemma upd_file_simps [simp]:
  "kf (upd_file f g s) = kf s" "length (ftab (upd_file f g s)) = length (ftab s)"
  "f < length (ftab s) \<Longrightarrow> ftab (upd_file f g s) ! f = g (ftab s ! f)"
  "j \<noteq> f \<Longrightarrow> ftab (upd_file f g s) ! j = ftab s ! j"
  "(upd_file f g s)\<lparr>kf := t\<rparr> = upd_file f g (s\<lparr>kf := t\<rparr>)"
  by (simp_all add: upd_file_def)

lemma filewrite_loop_round:
  assumes "i < n" "m = word_of_int n1" "n1 = (if filewrite_max < n - i then filewrite_max else n - i)"
    "fs_begin_op (kf s) = Ok s1" "ilock me ip s1 = Ok s2"
    "writei dv me ip (take (nat n1) (drop (nat i) src)) (foff (ftab s ! f)) m s2 = Ok (int (unat m), t)"
    "iunlock me ip t = Ok u" "fs_end_op me u = Ok v" "int (unat m) = n1"
  shows "filewrite_loop (Suc k) dv me f ip src i n s
    = filewrite_loop k dv me f ip src (i + n1) n (upd_file f (\<lambda>y. y\<lparr>foff := foff y + m\<rparr>) (s\<lparr>kf := v\<rparr>))"
proof -
  have "filewrite_max = 1536" by (simp add: filewrite_max_def MAXOPBLOCKS_def)
  then have pos: "0 < n1" using assms(1,3) by simp
  show ?thesis
    using assms pos by (simp add: on_fs_def Let_def)
qed

text \<open>Writing to the data blocks of a file does not change which blocks those are.\<close>

lemma blk_at_kept:
  assumes "file_at s V ip i"
    "\<And>m. home s m \<Longrightarrow> (\<And>k. k * BSIZE < unat (isize i) \<Longrightarrow> m \<noteq> blk_at V i k) \<Longrightarrow> V' m = V m"
    "k * BSIZE < unat (isize i)"
  shows "blk_at V' i k = blk_at V i k"
proof (cases "k < NDIRECT")
  case False
  then have "NDIRECT * BSIZE \<le> k * BSIZE" by simp
  then have l: "NDIRECT * BSIZE < unat (isize i)" using assms(3) by (rule le_less_trans)
  have f: "file_sep s V i" "home s (addrs i ! NDIRECT)" using assms(1) l by (simp_all add: file_at_def)
  have "V' (addrs i ! NDIRECT) = V (addrs i ! NDIRECT)"
    by (rule assms(2) [OF f(2)]) (use f(1) l in \<open>auto simp: file_sep_def\<close>)
  then show ?thesis by (simp add: blk_at_def)
qed (simp add: blk_at_def)

lemma filewrite_loop_spec:
  assumes "fs_idle me (kf s) V" "file_at (kf s) V ip (inodes (kf s) ! ip)" "f < length (ftab s)" "0 \<le> i" "i \<le> n"
    "nat (n - i) \<le> k" "length src = nat n" "unat (foff (ftab s ! f)) + nat (n - i) \<le> unat (isize (inodes (kf s) ! ip))"
  shows "\<exists>t V'. filewrite_loop k dv me f ip src i n s = Ok (n, t) \<and> fs_idle me (kf t) V'
    \<and> file_at (kf t) V' ip (inodes (kf t) ! ip) \<and> addrs (inodes (kf t) ! ip) = addrs (inodes (kf s) ! ip)
    \<and> isize (inodes (kf t) ! ip) = isize (inodes (kf s) ! ip)
    \<and> (\<forall>j. j \<noteq> ip \<longrightarrow> inodes (kf t) ! j = inodes (kf s) ! j)
    \<and> ftab t = (ftab s)[f := (ftab s ! f)\<lparr>foff := foff (ftab s ! f) + word_of_int (n - i)\<rparr>]
    \<and> (\<forall>p < unat (isize (inodes (kf s) ! ip)). content V' (inodes (kf s) ! ip) p =
        (if unat (foff (ftab s ! f)) \<le> p \<and> p < unat (foff (ftab s ! f)) + nat (n - i)
         then src ! (nat i + (p - unat (foff (ftab s ! f)))) else content V (inodes (kf s) ! ip) p))
    \<and> (\<forall>m. home (kf s) m \<longrightarrow> (\<forall>k. k * BSIZE < unat (isize (inodes (kf s) ! ip)) \<longrightarrow> m \<noteq> blk_at V (inodes (kf s) ! ip) k) \<longrightarrow> V' m = V m)
    \<and> (\<forall>m. home (kf t) m = home (kf s) m)"
  using assms
proof (induction k arbitrary: i s V)
  case 0
  then have "i = n" by simp
  then show ?case using 0(1-3) by (intro exI [of _ s] exI [of _ V]) auto
next
  case (Suc k)
  let ?j = "inodes (kf s) ! ip" and ?off = "foff (ftab s ! f)"
  show ?case
  proof (cases "i < n")
    case False
    then have "i = n" using Suc.prems(5) by simp
    then show ?thesis using Suc.prems(1-3) by (intro exI [of _ s] exI [of _ V]) auto
  next
    case True
    define n1 where "n1 = (if filewrite_max < n - i then filewrite_max else n - i)"
    define m :: u32 where "m = word_of_int n1"
    let ?src = "take (nat n1) (drop (nat i) src)"
    have mx: "filewrite_max = 1536" by (simp add: filewrite_max_def MAXOPBLOCKS_def)
    have n1: "0 < n1" "n1 \<le> n - i" "n1 \<le> 1536" using True by (auto simp: n1_def mx)
    have um: "unat m = nat n1" "int (unat m) = n1"
    proof -
      have "unat m = nat (n1 mod 4294967296)" by (simp add: m_def unsigned_of_int take_bit_eq_mod)
      also have "n1 mod 4294967296 = n1" using n1 by simp
      finally show "unat m = nat n1" .
      then show "int (unat m) = n1" using n1(1) by simp
    qed
    have ls: "length ?src = unat m" "unat m \<le> 1536" using um n1 Suc.prems(4,7) True by simp_all
    have fit: "unat ?off + unat m \<le> unat (isize ?j)" using um n1 Suc.prems(8) by linarith
    from write_round [OF Suc.prems(1,2) ls fit, of dv] obtain s1 s2 t u v V1 where
      r: "fs_begin_op (kf s) = Ok s1" "ilock me ip s1 = Ok s2" "writei dv me ip ?src ?off m s2 = Ok (int (unat m), t)"
        "iunlock me ip t = Ok u" "fs_end_op me u = Ok v" "fs_idle me v V1" "inodes v = (inodes (kf s))[ip := used_lock me ?j]"
        "file_at v V1 ip (used_lock me ?j)"
        "\<forall>p < unat (isize ?j). content V1 ?j p = (if unat ?off \<le> p \<and> p < unat ?off + unat m then ?src ! (p - unat ?off) else content V ?j p)"
        "\<forall>m. home (kf s) m \<longrightarrow> (\<forall>k. k * BSIZE < unat (isize ?j) \<longrightarrow> m \<noteq> blk_at V ?j k) \<longrightarrow> V1 m = V m"
        "\<forall>m. home v m = home (kf s) m" by blast
    define s' where "s' = upd_file f (\<lambda>y. y\<lparr>foff := foff y + m\<rparr>) (s\<lparr>kf := v\<rparr>)"
    have step: "filewrite_loop (Suc k) dv me f ip src i n s = filewrite_loop k dv me f ip src (i + n1) n s'"
      unfolding s'_def by (rule filewrite_loop_round [OF True m_def n1_def r(1-5) um(2)])
    have ipl: "ip < length (inodes (kf s))" using Suc.prems(2) by (simp add: file_at_def)
    have kv: "kf s' = v" "ftab s' ! f = (ftab s ! f)\<lparr>foff := ?off + m\<rparr>" "inodes v ! ip = used_lock me ?j" "length (ftab s') = length (ftab s)"
      using Suc.prems(3) r(7) ipl by (simp_all add: s'_def)
    have uo: "unat (?off + m) = unat ?off + unat m"
      by (intro unat_add_lt) (rule le_less_trans [OF fit], simp)
    have fl: "content W (used_lock me ?j) = content W ?j" "blk_at W (used_lock me ?j) = blk_at W ?j" for W
      by (simp_all add: content_def blk_at_def fun_eq_iff)
    have bk: "k * BSIZE < unat (isize ?j) \<Longrightarrow> blk_at V1 ?j k = blk_at V ?j k" for k
      using blk_at_kept [OF Suc.prems(2)] r(10) by blast
    have kvi: "inodes (kf s') ! ip = used_lock me ?j" "foff (ftab s' ! f) = ?off + m"
      "isize (used_lock me ?j) = isize ?j" "addrs (used_lock me ?j) = addrs ?j"
      using kv by simp_all
    have pre: "fs_idle me (kf s') V1" "file_at (kf s') V1 ip (inodes (kf s') ! ip)" "f < length (ftab s')" "0 \<le> i + n1" "i + n1 \<le> n"
      "nat (n - (i + n1)) \<le> k" "unat (foff (ftab s' ! f)) + nat (n - (i + n1)) \<le> unat (isize (inodes (kf s') ! ip))"
      using r(6,8) Suc.prems n1 uo um kv kvi by simp_all
    from Suc.IH [OF pre(1-6) Suc.prems(7) pre(7)] obtain t' V' where
      t: "filewrite_loop k dv me f ip src (i + n1) n s' = Ok (n, t')" "fs_idle me (kf t') V'"
      "file_at (kf t') V' ip (inodes (kf t') ! ip)" "addrs (inodes (kf t') ! ip) = addrs ?j" "isize (inodes (kf t') ! ip) = isize ?j"
      "\<forall>j. j \<noteq> ip \<longrightarrow> inodes (kf t') ! j = inodes v ! j"
      "ftab t' = (ftab s')[f := (ftab s' ! f)\<lparr>foff := (?off + m) + word_of_int (n - (i + n1))\<rparr>]"
      "\<forall>p < unat (isize ?j). content V' ?j p =
        (if unat (?off + m) \<le> p \<and> p < unat (?off + m) + nat (n - (i + n1))
         then src ! (nat (i + n1) + (p - unat (?off + m))) else content V1 ?j p)"
      "\<forall>m. home v m \<longrightarrow> (\<forall>k. k * BSIZE < unat (isize ?j) \<longrightarrow> m \<noteq> blk_at V1 ?j k) \<longrightarrow> V' m = V1 m"
      "\<forall>m. home (kf t') m = home v m"
      unfolding kv(1,3) kvi fl by (elim exE conjE) (rule that; assumption)
    have ft: "ftab t' = (ftab s)[f := (ftab s ! f)\<lparr>foff := ?off + word_of_int (n - i)\<rparr>]"
    proof -
      have "m + word_of_int (n - (i + n1)) = word_of_int (n - i)"
        unfolding m_def of_int_add [symmetric] by (rule arg_cong [where f = word_of_int]) simp
      then show ?thesis unfolding t(7) kv(2) by (simp add: s'_def upd_file_def add.assoc)
    qed
    have il: "nat i \<le> length src" using Suc.prems(4,5,7) by simp
    have ct: "content V' ?j p = (if unat ?off \<le> p \<and> p < unat ?off + nat (n - i)
         then src ! (nat i + (p - unat ?off)) else content V ?j p)" if p: "p < unat (isize ?j)" for p
    proof -
      have "content V1 ?j p = (if unat ?off \<le> p \<and> p < unat ?off + unat m then src ! (nat i + (p - unat ?off)) else content V ?j p)"
        using r(9) p um n1 il by (auto simp: nth_drop)
      moreover have "nat (i + n1) + (p - unat (?off + m)) = nat i + (p - unat ?off)" if "unat (?off + m) \<le> p"
        using that uo um n1 Suc.prems(4) by (simp add: nat_add_distrib)
      ultimately show ?thesis using t(8) p uo um n1 by auto
    qed
    have ot: "V' q = V q" if "home (kf s) q" "\<forall>k. k * BSIZE < unat (isize ?j) \<longrightarrow> q \<noteq> blk_at V ?j k" for q
      using t(9) r(10,11) that bk by metis
    show ?thesis
      using step t(1-5) ft ct ot t(6,10) r(7,11) by (intro exI [of _ t'] exI [of _ V']) simp
  qed
qed

text \<open>
  C4. A write is on the disk when \<open>write\<close> returns.  For a regular file and a range below its size,
  \<open>filewrite\<close> splits the bytes into transactions that fit the log, commits each of them and
  returns \<open>n\<close>; then every byte of the file is on the disk, the written ones new and all others
  as before, no block of another file has changed, the log is empty and only the offset of this
  descriptor has moved.
\<close>

theorem filewrite_durable:
  assumes "fs_idle me (kf s) V" "file_at (kf s) V ip (inodes (kf s) ! ip)" "f < length (ftab s)"
    "ftyp (ftab s ! f) = FD_INODE" "writable (ftab s ! f) \<noteq> 0" "fip (ftab s ! f) = Some ip"
    "0 \<le> n" "length src = nat n" "unat (foff (ftab s ! f)) + nat n \<le> unat (isize (inodes (kf s) ! ip))"
  defines "i \<equiv> inodes (kf s) ! ip" and "a \<equiv> unat (foff (ftab s ! f))"
  shows "\<exists>t. filewrite dv me killed f src n s = Ok (n, t)
    \<and> (\<forall>p < unat (isize i). disk (ide (bc (lg (kf t)))) 1 (unat (blk_at V i (p div BSIZE))) (p mod BSIZE) =
        (if a \<le> p \<and> p < a + nat n then src ! (p - a) else content V i p))
    \<and> (\<forall>m. home (kf s) m \<longrightarrow> (\<forall>k. k * BSIZE < unat (isize i) \<longrightarrow> m \<noteq> blk_at V i k) \<longrightarrow>
        disk (ide (bc (lg (kf t)))) 1 (unat m) = V m)
    \<and> ftab t = (ftab s)[f := (ftab s ! f)\<lparr>foff := foff (ftab s ! f) + word_of_int n\<rparr>]
    \<and> lh_n (lg (kf t)) = 0 \<and> outstanding (lg (kf t)) = 0"
proof -
  have pre: "0 \<le> (0 :: int)" "0 \<le> n" "nat (n - 0) \<le> nat n" "unat (foff (ftab s ! f)) + nat (n - 0) \<le> unat (isize (inodes (kf s) ! ip))"
    using assms(7,9) by simp_all
  from filewrite_loop_spec [OF assms(1-3) pre(1-3) assms(8) pre(4), of dv] obtain t V' where
    t: "filewrite_loop (nat n) dv me f ip src 0 n s = Ok (n, t)" "fs_idle me (kf t) V'"
      "ftab t = (ftab s)[f := (ftab s ! f)\<lparr>foff := foff (ftab s ! f) + word_of_int n\<rparr>]"
      "\<forall>p < unat (isize i). content V' i p = (if a \<le> p \<and> p < a + nat n then src ! (p - a) else content V i p)"
      "\<forall>m. home (kf s) m \<longrightarrow> (\<forall>k. k * BSIZE < unat (isize i) \<longrightarrow> m \<noteq> blk_at V i k) \<longrightarrow> V' m = V m"
    unfolding i_def a_def by auto
  note dk = fs_idle_disk [OF t(2)]
  have "content V' i p = disk (ide (bc (lg (kf t)))) 1 (unat (blk_at V i (p div BSIZE))) (p mod BSIZE)" if p: "p < unat (isize i)" for p
  proof -
    have "p div BSIZE * BSIZE \<le> p" by simp
    then have "p div BSIZE * BSIZE < unat (isize i)" using p by (rule le_less_trans)
    then have "blk_at V' i (p div BSIZE) = blk_at V i (p div BSIZE)"
      using blk_at_kept [OF assms(2) _, of V'] t(5) unfolding i_def by blast
    then show ?thesis by (simp add: content_def dk del: One_nat_def)
  qed
  moreover have "filewrite dv me killed f src n s = Ok (n, t)"
    using assms(4-6) t(1) by (simp add: filewrite_def)
  moreover have "lh_n (lg (kf t)) = 0" "outstanding (lg (kf t)) = 0"
    using t(2) log_invD(4) [of me "lg (kf t)" "[]" V' V'] by (simp_all add: fs_idle_def)
  ultimately show ?thesis using t(3-5) by (auto simp: dk simp del: One_nat_def)
qed

subsection \<open>The file table\<close>

lemma falloc_scan_Some:
  "falloc_scan k xs = Some f \<longleftrightarrow> k \<le> f \<and> f < k + length xs \<and> fref (xs ! (f - k)) = 0 \<and> (\<forall>j. k \<le> j \<longrightarrow> j < f \<longrightarrow> fref (xs ! (j - k)) \<noteq> 0)"
proof (induction xs arbitrary: k)
  case (Cons x xs)
  show ?case
  proof (cases "fref x = 0")
    case True
    have "f = k" if "k \<le> f" "\<forall>j. k \<le> j \<longrightarrow> j < f \<longrightarrow> fref ((x # xs) ! (j - k)) \<noteq> 0"
      using that True by (metis diff_self_eq_0 le_neq_implies_less nth_Cons_0 order_refl)
    then show ?thesis using True by auto
  next
    case False
    have sh: "(x # xs) ! (j - k) = xs ! (j - Suc k)" if "Suc k \<le> j" for j
      using that by (simp add: nth_Cons' Suc_diff_le diff_Suc split: nat.splits)
    have le: "k \<le> j \<longleftrightarrow> j = k \<or> Suc k \<le> j" for j by auto
    have "falloc_scan k (x # xs) = falloc_scan (Suc k) xs" using False by simp
    also have "\<dots> = Some f \<longleftrightarrow> Suc k \<le> f \<and> f < Suc k + length xs \<and> fref (xs ! (f - Suc k)) = 0
      \<and> (\<forall>j. Suc k \<le> j \<longrightarrow> j < f \<longrightarrow> fref (xs ! (j - Suc k)) \<noteq> 0)" by (rule Cons.IH)
    finally show ?thesis using False by (auto simp: sh le)
  qed
qed auto

lemma falloc_scan_None: "falloc_scan k xs = None \<longleftrightarrow> (\<forall>x \<in> set xs. fref x \<noteq> 0)"
  by (induction xs arbitrary: k) auto

lemma ft_lock:
  "\<not> ft_lk s \<Longrightarrow> ft_acquire s = Ok (s\<lparr>ft_lk := True\<rparr>)"
  "ft_lk s \<Longrightarrow> ft_release s = Ok (s\<lparr>ft_lk := False\<rparr>)"
  by (simp_all add: ft_acquire_def ft_release_def)

lemma kio_unlock: "\<not> ft_lk s \<Longrightarrow> s\<lparr>ft_lk := False\<rparr> = s"
  by (cases s) simp

lemma upd_file_lk [simp]:
  "ft_lk (upd_file f g s) = ft_lk s" "(upd_file f g s)\<lparr>ft_lk := l\<rparr> = upd_file f g (s\<lparr>ft_lk := l\<rparr>)"
  "pipes (upd_file f g s) = pipes s" "kpg (upd_file f g s) = kpg s"
  by (simp_all add: upd_file_def)

lemma filealloc_eq:
  assumes "\<not> ft_lk s"
  shows "filealloc s = Ok (case falloc_scan 0 (ftab s) of Some f \<Rightarrow> (Some f, upd_file f (\<lambda>x. x\<lparr>fref := 1\<rparr>) s) | None \<Rightarrow> (None, s))"
  using assms by (auto simp: filealloc_def ft_lock kio_unlock split: option.splits)

text \<open>
  The file table: \<open>filealloc\<close> returns the first free entry with one reference and fails
  exactly when all are in use; \<open>filedup\<close> followed by \<open>fileclose\<close> restores the state exactly, and
  both panic on an entry that is not in use.
\<close>

theorem file_table_refs:
  assumes "\<not> ft_lk s"
  shows "(\<exists>r t. filealloc s = Ok (r, t) \<and> (case r of None \<Rightarrow> t = s \<and> (\<forall>x \<in> set (ftab s). fref x \<noteq> 0)
      | Some f \<Rightarrow> f < length (ftab s) \<and> fref (ftab s ! f) = 0 \<and> (\<forall>j < f. fref (ftab s ! j) \<noteq> 0)
          \<and> ftab t = (ftab s)[f := (ftab s ! f)\<lparr>fref := 1\<rparr>] \<and> kf t = kf s \<and> kpg t = kpg s \<and> pipes t = pipes s \<and> \<not> ft_lk t))
    \<and> (\<forall>f < length (ftab s). if fref (ftab s ! f) < 1
        then filedup f s = Panic ''filedup'' \<and> fileclose me f s = Panic ''fileclose''
        else \<exists>t. filedup f s = Ok (f, t) \<and> fref (ftab t ! f) = fref (ftab s ! f) + 1 \<and> fileclose me f t = Ok s)"
proof
  show "\<exists>r t. filealloc s = Ok (r, t) \<and> (case r of None \<Rightarrow> t = s \<and> (\<forall>x \<in> set (ftab s). fref x \<noteq> 0)
      | Some f \<Rightarrow> f < length (ftab s) \<and> fref (ftab s ! f) = 0 \<and> (\<forall>j < f. fref (ftab s ! j) \<noteq> 0)
          \<and> ftab t = (ftab s)[f := (ftab s ! f)\<lparr>fref := 1\<rparr>] \<and> kf t = kf s \<and> kpg t = kpg s \<and> pipes t = pipes s \<and> \<not> ft_lk t)"
  proof (cases "falloc_scan 0 (ftab s)")
    case None
    then show ?thesis using filealloc_eq [OF assms] falloc_scan_None [of 0 "ftab s"] by auto
  next
    case (Some f)
    from Some [unfolded falloc_scan_Some] have "f < length (ftab s)" "fref (ftab s ! f) = 0" "\<forall>j < f. fref (ftab s ! j) \<noteq> 0" by simp_all
    then show ?thesis using filealloc_eq [OF assms] Some assms
      by (intro exI [of _ "Some f"] exI [of _ "upd_file f (\<lambda>x. x\<lparr>fref := 1\<rparr>) s"]) (simp add: upd_file_def)
  qed
  show "\<forall>f < length (ftab s). if fref (ftab s ! f) < 1
        then filedup f s = Panic ''filedup'' \<and> fileclose me f s = Panic ''fileclose''
        else \<exists>t. filedup f s = Ok (f, t) \<and> fref (ftab t ! f) = fref (ftab s ! f) + 1 \<and> fileclose me f t = Ok s"
  proof (intro allI impI)
    fix f assume f: "f < length (ftab s)"
    let ?t = "upd_file f (\<lambda>x. x\<lparr>fref := fref x + 1\<rparr>) s"
    have undo: "upd_file f (\<lambda>x. x\<lparr>fref := fref x - 1\<rparr>) ?t = s"
      using f by (cases s) (simp add: upd_file_def)
    have "fileclose me f ?t = Ok s" if "\<not> fref (ftab s ! f) < 1"
      using that f assms undo by (simp add: fileclose_def ft_lock Let_def upd_file_def kio_unlock)
    then show "if fref (ftab s ! f) < 1
        then filedup f s = Panic ''filedup'' \<and> fileclose me f s = Panic ''fileclose''
        else \<exists>t. filedup f s = Ok (f, t) \<and> fref (ftab t ! f) = fref (ftab s ! f) + 1 \<and> fileclose me f t = Ok s"
      using f assms by (auto simp: filedup_def fileclose_def ft_lock kio_unlock)
  qed
qed

lemma pipe_init_holds: "length (pdata p) = PIPESIZE \<Longrightarrow> pipe_holds (pipe_init p) []"
  by (simp add: pipe_holds_def pipe_init_def pipe_q_def)

lemma close_pipe_end:
  assumes "\<not> ft_lk s" "f < length (ftab s)" "fref (ftab s ! f) = 1" "ftyp (ftab s ! f) = FD_PIPE"
    "\<not> plock (pipes s (fpipe (ftab s ! f)))"
  defines "w \<equiv> writable (ftab s ! f) \<noteq> 0" and "a \<equiv> fpipe (ftab s ! f)"
  defines "p \<equiv> (if w then p_wakeup NReadChan ((pipes s a)\<lparr>writeopen := False\<rparr>)
    else p_wakeup NWriteChan ((pipes s a)\<lparr>readopen := False\<rparr>))"
  defines "t \<equiv> (upd_file f (\<lambda>x. x\<lparr>ftyp := FD_NONE, fref := 0\<rparr>) s)\<lparr>pipes := (pipes s)(a := p)\<rparr>"
  shows "fileclose me f s = (if readopen p \<or> writeopen p then Ok t else bnd (kfree a (kpg s)) (\<lambda>m. Ok (t\<lparr>kpg := m\<rparr>)))"
proof -
  have run: "pipeclose_run w (pipes s a) = Ok (\<not> readopen p \<and> \<not> writeopen p, p)"
    using assms(5) by (cases "pipes s a") (auto simp: pipeclose_run_def p_acquire_def p_release_def p_wakeup_def p_def a_def)
  show ?thesis
    using assms(1-4) run
    by (cases "ftab s ! f")
      (auto simp: fileclose_def ft_lock Let_def pipeclose_def upd_file_def t_def w_def a_def kio_unlock)
qed


text \<open>
  C38. The life of a pipe: with two free file entries and a free page, \<open>pipealloc\<close> returns the read
  end and the write end; what is written to one end is read, in order and once, from the other,
  while reading the write end and writing the read end fail; and closing both ends gives both
  entries and the page back.
\<close>

theorem pipe_lifecycle:
  assumes "\<not> ft_lk s" "a < b" "b < length (ftab s)" "fref (ftab s ! a) = 0" "fref (ftab s ! b) = 0"
    "\<forall>j < b. j \<noteq> a \<longrightarrow> fref (ftab s ! j) \<noteq> 0" "free_pages (kpg s) (x # xs)"
    "length (pdata (pipes s x)) = PIPESIZE" "bs \<noteq> []" "length bs \<le> PIPESIZE"
  shows "\<exists>t u v y z. pipealloc me s = Ok (0, Some a, Some b, t)
    \<and> filewrite dv me False b bs (int (length bs)) t = Ok (int (length bs), u)
    \<and> fileread dv me False a (int m) u = Ok (int (min m (length bs)), take m bs, v)
    \<and> filewrite dv me False a bs (int (length bs)) u = Ok (- 1, u) \<and> fileread dv me False b (int m) u = Ok (- 1, [], u)
    \<and> fileclose me a v = Ok y \<and> fileclose me b y = Ok z
    \<and> fref (ftab z ! a) = 0 \<and> fref (ftab z ! b) = 0 \<and> free_pages (kpg z) (x # xs) \<and> kf z = kf s"
proof -
  have sa: "falloc_scan 0 (ftab s) = Some a" unfolding falloc_scan_Some using assms(2-6) by auto
  let ?s1 = "upd_file a (\<lambda>x. x\<lparr>fref := 1\<rparr>) s" let ?s2 = "upd_file b (\<lambda>x. x\<lparr>fref := 1\<rparr>) ?s1"
  have al: "a < length (ftab s)" using assms(2,3) by simp
  have sb: "falloc_scan 0 (ftab ?s1) = Some b"
    unfolding falloc_scan_Some using assms(2-6) by (auto simp: upd_file_def nth_list_update)
  have f1: "filealloc s = Ok (Some a, ?s1)" using filealloc_eq [OF assms(1)] sa by simp
  have "\<not> ft_lk ?s1" using assms(1) by simp
  from filealloc_eq [OF this] sb have f2: "filealloc ?s1 = Ok (Some b, ?s2)" by simp
  from km.alloc_some [OF assms(7)] obtain m1 where k: "kalloc (kpg s) = Ok (x, m1)" "free_pages m1 xs" "page_ok m1 = page_ok (kpg s)" by blast
  have x: "x \<noteq> 0" "page_ok (kpg s) x" "x \<notin> set xs"
    using km.pages_valid [OF assms(7)] km.pages_distinct [OF assms(7)] by simp_all
  let ?p0 = "pipe_init (pipes s x)"
  define fa where "fa = (ftab s ! a)\<lparr>ftyp := FD_PIPE, fref := 1, readable := 1, writable := 0, fpipe := x\<rparr>"
  define fb where "fb = (ftab s ! b)\<lparr>ftyp := FD_PIPE, fref := 1, readable := 0, writable := 1, fpipe := x\<rparr>"
  define t where "t = s\<lparr>kpg := m1, ftab := (ftab s)[a := fa, b := fb], pipes := (pipes s)(x := ?p0)\<rparr>"
  have pa: "pipealloc me s = Ok (0, Some a, Some b, t)"
    using assms(2,3) al k(1) x(1) f1 f2
    by (cases "ftab s ! a"; cases "ftab s ! b"; cases s)
      (auto simp: pipealloc_def Let_def t_def fa_def fb_def upd_file_def nth_list_update list_update_swap)
  have tf: "ftab t ! a = fa" "ftab t ! b = fb" "length (ftab t) = length (ftab s)" "pipes t x = ?p0" "\<not> ft_lk t"
    using assms(1-3) al by (simp_all add: t_def)
  have h0: "pipe_holds ?p0 []" "\<not> plock ?p0" "readopen ?p0" "writeopen ?p0"
    using pipe_init_holds [OF assms(8)] by (simp_all add: pipe_init_def)
  obtain p1 where p1: "pipewrite_run False (int (length bs)) bs ?p0 = Ok (Done (int (length bs)) [], p1)"
    "pipe_holds p1 bs" "same_ends ?p0 p1"
    using pipewrite_run_spec [OF h0(1,2), of False "int (length bs)" bs] assms(10) by auto
  define u where "u = t\<lparr>pipes := (pipes t)(x := p1)\<rparr>"
  have w: "filewrite dv me False b bs (int (length bs)) t = Ok (int (length bs), u)"
    using tf p1(1) by (simp add: filewrite_def Let_def pipewrite_def u_def fb_def)
  have uf: "ftab u = ftab t" "pipes u x = p1" "\<not> ft_lk u" using tf by (simp_all add: u_def)
  have l1: "\<not> plock p1" "readopen p1" "writeopen p1" using p1(3) h0 by (simp_all add: same_ends_def)
  obtain p2 where p2: "piperead_run False (int m) p1 = Ok (Done (int (min m (length bs))) (take m bs), p2)" "same_ends p1 p2"
    using piperead_run_spec [OF p1(2) l1(1), of False "int m"] assms(9) by auto
  define v where "v = u\<lparr>pipes := (pipes u)(x := p2)\<rparr>"
  have r: "fileread dv me False a (int m) u = Ok (int (min m (length bs)), take m bs, v)"
    using tf uf p2(1) by (simp add: fileread_def Let_def piperead_def v_def fa_def)
  have wr: "filewrite dv me False a bs (int (length bs)) u = Ok (- 1, u)" "fileread dv me False b (int m) u = Ok (- 1, [], u)"
    using tf uf by (simp_all add: filewrite_def fileread_def fa_def fb_def)
  have vf: "ftab v ! a = fa" "ftab v ! b = fb" "length (ftab v) = length (ftab s)" "pipes v x = p2" "\<not> ft_lk v" "kpg v = m1" "kf v = kf s"
    using tf uf by (simp_all add: v_def u_def t_def)
  have l2: "\<not> plock p2" "readopen p2" "writeopen p2" using p2(2) l1 by (simp_all add: same_ends_def)
  have ca: "fref (ftab v ! a) = 1" "ftyp (ftab v ! a) = FD_PIPE" "fpipe (ftab v ! a) = x" "writable (ftab v ! a) = 0"
    unfolding vf by (simp_all add: fa_def)
  define y where "y = (upd_file a (\<lambda>x. x\<lparr>ftyp := FD_NONE, fref := 0\<rparr>) v)\<lparr>pipes := (pipes v)(x := p_wakeup NWriteChan (p2\<lparr>readopen := False\<rparr>))\<rparr>"
  have cy: "fileclose me a v = Ok y"
    by (subst close_pipe_end) (use vf al ca l2 in \<open>simp_all add: y_def p_wakeup_def\<close>)
  have yf: "\<not> ft_lk y" "b < length (ftab y)" "ftab y ! b = fb" "ftab y ! a = fa\<lparr>ftyp := FD_NONE, fref := 0\<rparr>"
    "pipes y x = p_wakeup NWriteChan (p2\<lparr>readopen := False\<rparr>)" "kpg y = m1" "kf y = kf s"
    using vf al assms(2,3) by (simp_all add: y_def upd_file_def)
  from km.release_ok [OF k(2), of x] k(3) x obtain m2 where m2: "kfree x m1 = Ok m2" "free_pages m2 (x # xs)" by auto
  have cb: "fref (ftab y ! b) = 1" "ftyp (ftab y ! b) = FD_PIPE" "fpipe (ftab y ! b) = x" "writable (ftab y ! b) \<noteq> 0"
    unfolding yf by (simp_all add: fb_def)
  define z where "z = ((upd_file b (\<lambda>x. x\<lparr>ftyp := FD_NONE, fref := 0\<rparr>) y)\<lparr>pipes := (pipes y)(x :=
      p_wakeup NReadChan ((p_wakeup NWriteChan (p2\<lparr>readopen := False\<rparr>))\<lparr>writeopen := False\<rparr>))\<rparr>)\<lparr>kpg := m2\<rparr>"
  have z: "fileclose me b y = Ok z"
    by (subst close_pipe_end) (use yf cb l2 m2 in \<open>simp_all add: z_def p_wakeup_def\<close>)
  have zf: "fref (ftab z ! a) = 0" "fref (ftab z ! b) = 0" "kpg z = m2" "kf z = kf s"
    using yf assms(2) by (simp_all add: z_def upd_file_def)
  show ?thesis using pa w r wr cy z m2(2) zf(1,2,4) unfolding zf(3) [symmetric] by blast
qed

subsection \<open>A concrete kernel\<close>

text \<open>Descriptor 0 of the table is open for writing on the demonstration file, the rest is free.\<close>

definition demo_ofile :: struct_file where
  "demo_ofile = \<lparr>ftyp = FD_INODE, fref = 1, readable = 1, writable = 1, fpipe = 0, fip = Some 0, foff = 2\<rparr>"

definition demo_pipe :: pipe where
  "demo_pipe = \<lparr>plock = False, pdata = replicate PIPESIZE 0, nread = 0, nwrite = 0, readopen = False,
     writeopen = False, pwakes = []\<rparr>"

definition kio_demo :: "unit kio" where
  "kio_demo = \<lparr>kf = fs_demo\<lparr>lg := log_demo\<lparr>outstanding := 0\<rparr>\<rparr>, kpg = kmem_demo, ft_lk = False,
     ftab = demo_ofile # replicate (NFILE - 1) (demo_ofile\<lparr>ftyp := FD_NONE, fref := 0\<rparr>), pipes = (\<lambda>_. demo_pipe)\<rparr>"

lemma kio_demo_idle: "fs_idle me (kf kio_demo) demo_view"
  using log_demo_ok [of me]
  by (simp add: fs_idle_def kio_demo_def demo_view_def log_inv_def) (simp add: log_demo_def)

lemma kio_demo_inodes: "inodes (kf kio_demo) = inodes fs_demo"
  by (simp add: kio_demo_def)

lemma kio_demo_home: "home (kf kio_demo) n = home fs_demo n"
  by (simp add: kio_demo_def home_def fs_demo_def)

lemma kio_demo_file: "file_at (kf kio_demo) demo_view 0 (inodes (kf kio_demo) ! 0)"
proof -
  have kk: "k * BSIZE < 10 \<longleftrightarrow> k = 0" for k by (auto simp: BSIZE_def)
  have b0: "blk_at demo_view demo_file 0 = 40" by (simp add: blk_at_def demo_file_def NDIRECT_def)
  have sz: "unat (isize demo_file) = 10" by (simp add: demo_file_def)
  have ok: "file_ok demo_view demo_file"
    unfolding file_ok_def sz kk using b0
    by (simp add: demo_file_def FSSIZE_def MAXFILE_def NDIRECT_def NINDIRECT_def BSIZE_def)
  have sep: "file_sep (kf kio_demo) demo_view demo_file"
    unfolding file_sep_def sz kk using b0 by (simp add: kio_demo_home demo_home NDIRECT_def BSIZE_def)
  show ?thesis
    unfolding kio_demo_inodes demo_inodes file_at_def
    using ok sep demo_lock_free sz by (simp add: demo_inodes NINODE_def NDIRECT_def BSIZE_def) (simp add: demo_file_def T_FILE_def T_DEV_def)
qed

theorem filewrite_durable_witness:
  "\<exists>t. filewrite [] 3 False 0 [7, 8] 2 kio_demo = Ok (2, t) \<and> disk (ide (bc (lg (kf t)))) 1 40 3 = 8"
proof -
  have f: "0 < length (ftab kio_demo)" "ftyp (ftab kio_demo ! 0) = FD_INODE" "writable (ftab kio_demo ! 0) \<noteq> 0"
    "fip (ftab kio_demo ! 0) = Some 0" "(0 :: int) \<le> 2" "length [7 :: u8, 8] = nat 2"
    "unat (foff (ftab kio_demo ! 0)) + nat 2 \<le> unat (isize (inodes (kf kio_demo) ! 0))"
    unfolding kio_demo_inodes demo_inodes by (simp_all add: kio_demo_def demo_ofile_def demo_file_def)
  from filewrite_durable [OF kio_demo_idle kio_demo_file f, of "[]" 3 False] obtain t where
    t: "filewrite [] 3 False 0 [7, 8] 2 kio_demo = Ok (2, t)"
    "\<forall>p < unat (isize (inodes (kf kio_demo) ! 0)).
       disk (ide (bc (lg (kf t)))) 1 (unat (blk_at demo_view (inodes (kf kio_demo) ! 0) (p div BSIZE))) (p mod BSIZE) =
       (if unat (foff (ftab kio_demo ! 0)) \<le> p \<and> p < unat (foff (ftab kio_demo ! 0)) + nat 2
        then [7, 8] ! (p - unat (foff (ftab kio_demo ! 0))) else content demo_view (inodes (kf kio_demo) ! 0) p)" by blast
  have "3 < unat (isize (inodes (kf kio_demo) ! 0))" unfolding kio_demo_inodes demo_inodes by (simp add: demo_file_def)
  from t(2) [rule_format, OF this] have "disk (ide (bc (lg (kf t)))) 1 40 3 = 8"
    unfolding kio_demo_inodes demo_inodes
    by (simp add: kio_demo_def demo_ofile_def blk_at_def demo_file_def NDIRECT_def BSIZE_def)
  with t(1) show ?thesis by blast
qed

theorem file_table_refs_witness: "\<exists>r t. filealloc kio_demo = Ok (r, t) \<and> r = Some 1"
proof -
  have "\<not> ft_lk kio_demo" by (simp add: kio_demo_def)
  from file_table_refs [OF this, of 3] obtain r t where r: "filealloc kio_demo = Ok (r, t)"
    "case r of None \<Rightarrow> t = kio_demo \<and> (\<forall>x \<in> set (ftab kio_demo). fref x \<noteq> 0)
      | Some f \<Rightarrow> f < length (ftab kio_demo) \<and> fref (ftab kio_demo ! f) = 0 \<and> (\<forall>j < f. fref (ftab kio_demo ! j) \<noteq> 0)" 
    by (elim conjE exE) (auto split: option.splits)
  have z: "fref (ftab kio_demo ! 1) = 0" "1 < length (ftab kio_demo)" "fref (ftab kio_demo ! 0) = 1"
    by (simp_all add: kio_demo_def NFILE_def demo_ofile_def)
  show ?thesis
  proof (cases r)
    case None
    have "ftab kio_demo ! 1 \<in> set (ftab kio_demo)" using z(2) by (rule nth_mem)
    then show ?thesis using r(2) None z(1) by auto
  next
    case (Some f)
    then have f: "fref (ftab kio_demo ! f) = 0" "\<forall>j < f. fref (ftab kio_demo ! j) \<noteq> 0" using r(2) by simp_all
    have "f \<noteq> 0" using f(1) z(3) by (cases f) simp_all
    moreover have "\<not> 1 < f" using f(2) z(1) by auto
    ultimately have "f = 1" by simp
    then show ?thesis using r(1) Some by blast
  qed
qed

theorem pipe_lifecycle_witness:
  "\<exists>t u v. pipealloc 3 kio_demo = Ok (0, Some 1, Some 2, t) \<and> filewrite [] 3 False 2 [5, 6, 7] 3 t = Ok (3, u)
    \<and> fileread [] 3 False 1 2 u = Ok (2, [5, 6], v)"
proof -
  have a: "\<not> ft_lk kio_demo" "(1::nat) < 2" "2 < length (ftab kio_demo)" "fref (ftab kio_demo ! 1) = 0" "fref (ftab kio_demo ! 2) = 0"
    by (simp_all add: kio_demo_def NFILE_def)
  have b: "\<forall>j < 2. j \<noteq> 1 \<longrightarrow> fref (ftab kio_demo ! j) \<noteq> 0"
    by (auto simp: kio_demo_def demo_ofile_def nth_Cons' simp del: replicate_Suc)
  have p: "free_pages (kpg kio_demo) [0x80401000, 0x80400000]" using kmem_demo_free by (simp add: kio_demo_def)
  have l: "length (pdata (pipes kio_demo 0x80401000)) = PIPESIZE" "[5, 6, 7 :: u8] \<noteq> []" "length [5, 6, 7 :: u8] \<le> PIPESIZE"
    by (simp_all add: kio_demo_def demo_pipe_def PIPESIZE_def)
  from pipe_lifecycle [OF a b p l, of 3 "[]" 2] show ?thesis by auto
qed

end
