(* ===== verification/Dir_Spec.thy ===== *)
theory Dir_Spec
  imports Dir File_Spec
begin

text \<open>
  The promises of directories and path names: path parsing is splitting at slashes, looking up
  a name finds the first entry with it, a name that was linked is found again, and \<open>itoa\<close> writes
  the decimal digits that \<open>atoi\<close> reads.
\<close>

subsection \<open>Path elements\<close>

text \<open>The elements that the loop of \<open>namex\<close> takes off a path, one after the other.\<close>

function path_elems :: "cstring \<Rightarrow> cstring list" where
  "path_elems path = (case skipelem path of None \<Rightarrow> [] | Some (rest, name) \<Rightarrow> name # path_elems rest)"
  by pat_completeness auto
termination by (relation "measure length") (auto simp: skipelem_shorter)

declare path_elems.simps [simp del]

text \<open>The reference: split at the slashes, drop the empty parts, truncate the others.\<close>

fun split_at :: "cstring \<Rightarrow> cstring \<Rightarrow> cstring list" where
  "split_at acc [] = [acc]"
| "split_at acc (c # cs) = (if c = SLASH then acc # split_at [] cs else split_at (acc @ [c]) cs)"

definition split_path :: "cstring \<Rightarrow> cstring list" where
  "split_path path = map (take DIRSIZ) (filter (\<lambda>e. e \<noteq> []) (split_at [] path))"

lemma split_at_slashes: "split_path (dropWhile (\<lambda>c. c = SLASH) path) = split_path path"
  by (induction path) (simp_all add: split_path_def)

lemma split_at_elem:
  "split_at acc p = (acc @ takeWhile (\<lambda>c. c \<noteq> SLASH) p) #
     (case dropWhile (\<lambda>c. c \<noteq> SLASH) p of [] \<Rightarrow> [] | c # cs \<Rightarrow> split_at [] cs)"
  by (induction p arbitrary: acc) auto

lemma split_path_elem:
  assumes "p \<noteq> []" "hd p \<noteq> SLASH"
  shows "split_path p = take DIRSIZ (takeWhile (\<lambda>c. c \<noteq> SLASH) p) # split_path (dropWhile (\<lambda>c. c = SLASH) (dropWhile (\<lambda>c. c \<noteq> SLASH) p))"
proof -
  have t: "takeWhile (\<lambda>c. c \<noteq> SLASH) p \<noteq> []" using assms by (cases p) auto
  show ?thesis
  proof (cases "dropWhile (\<lambda>c. c \<noteq> SLASH) p")
    case Nil
    have "split_at [] p = [takeWhile (\<lambda>c. c \<noteq> SLASH) p]" using split_at_elem [of "[]" p] unfolding Nil by simp
    then show ?thesis unfolding Nil using t by (simp add: split_path_def)
  next
    case (Cons c cs)
    have "c = SLASH" using Cons hd_dropWhile [of "\<lambda>c. c \<noteq> SLASH" p] by auto
    then have "split_path p = take DIRSIZ (takeWhile (\<lambda>c. c \<noteq> SLASH) p) # split_path cs"
      using t split_at_elem [of "[]" p] Cons by (simp add: split_path_def)
    then show ?thesis using Cons \<open>c = SLASH\<close> split_at_slashes [of cs] by simp
  qed
qed

text \<open>
  Path parsing: taking elements off a path with \<open>skipelem\<close> until none is left gives exactly
  the parts between slashes, in order, without the empty ones and cut to \<open>DIRSIZ\<close> bytes, for
  every path; so the loop of \<open>namex\<close> terminates, and repeated, leading and trailing slashes do
  not matter.
\<close>

theorem skipelem_splits_path: "path_elems path = split_path path"
proof (induction path rule: path_elems.induct)
  case (1 path)
  let ?p = "dropWhile (\<lambda>c. c = SLASH) path"
  show ?case
  proof (cases "?p = []")
    case True
    have "split_path path = split_path []" using split_at_slashes [of path] unfolding True by (rule sym)
    then show ?thesis using True by (simp add: path_elems.simps [of path] skipelem_def split_path_def)
  next
    case False
    let ?s = "takeWhile (\<lambda>c. c \<noteq> SLASH) ?p"
    let ?r = "dropWhile (\<lambda>c. c = SLASH) (dropWhile (\<lambda>c. c \<noteq> SLASH) ?p)"
    have n: "(if DIRSIZ \<le> length ?s then take DIRSIZ ?s else ?s) = take DIRSIZ ?s" by simp
    have sk: "skipelem path = Some (?r, take DIRSIZ ?s)" using False by (simp add: skipelem_def Let_def)
    have "hd ?p \<noteq> SLASH" using False by (rule hd_dropWhile)
    from split_path_elem [OF False this] have "split_path path = take DIRSIZ ?s # split_path ?r"
      unfolding split_at_slashes [of path] .
    then show ?thesis using 1 [OF sk refl] by (simp add: path_elems.simps [of path] sk)
  qed
qed

subsection \<open>Names\<close>

lemma lstrncmp_zero:
  assumes "0 \<notin> set p" "0 \<notin> set q"
  shows "lstrncmp n p q = 0 \<longleftrightarrow> take n p = take n q"
  using assms by (induction n p q rule: lstrncmp.induct) auto

lemma namecmp_zero: "0 \<notin> set p \<Longrightarrow> 0 \<notin> set q \<Longrightarrow> namecmp p q = 0 \<longleftrightarrow> take DIRSIZ p = take DIRSIZ q"
  by (simp add: namecmp_def lstrncmp_zero)

lemma de_name_props: "0 \<notin> set (de_name de)" "length (de_name de) \<le> DIRSIZ"
proof -
  show "0 \<notin> set (de_name de)" by (auto simp: de_name_def dest: set_takeWhileD)
  have "length (de_name de) \<le> length (take DIRSIZ (drop 2 de))" unfolding de_name_def by (rule length_takeWhile_le)
  then show "length (de_name de) \<le> DIRSIZ" by simp
qed

lemma mk_dirent_props:
  assumes "0 \<notin> set name"
  shows "length (mk_dirent name n) = 16" "de_inum (mk_dirent name n) = ucast n" "de_name (mk_dirent name n) = take DIRSIZ name"
proof -
  let ?h = "bytes_at (wr16 (\<lambda>_. 0) 0 (ucast n)) 0 2" and ?t = "take DIRSIZ (name @ replicate DIRSIZ 0)"
  have lh: "length ?h = 2" by (simp add: bytes_at_def)
  show "length (mk_dirent name n) = 16" by (simp add: mk_dirent_def lh DIRSIZ_def)
  have "rd16 (\<lambda>i. (?h @ ?t) ! i) 0 = rd16 (wr16 (\<lambda>_. 0) 0 (ucast n)) 0"
    by (simp add: rd16_def nth_append lh bytes_at_def)
  then show "de_inum (mk_dirent name n) = ucast n" by (simp add: de_inum_def mk_dirent_def)
  have d: "drop 2 (?h @ ?t) = ?t" using lh by simp
  have "takeWhile (\<lambda>b. b \<noteq> 0) (take DIRSIZ ?t) = take DIRSIZ name"
  proof (cases "DIRSIZ \<le> length name")
    case True
    then have "take DIRSIZ ?t = take DIRSIZ name" by simp
    moreover have "\<And>b. b \<in> set (take DIRSIZ name) \<Longrightarrow> b \<noteq> 0" using assms by (auto dest: in_set_takeD)
    ultimately show ?thesis by (simp add: takeWhile_eq_all_conv)
  next
    case False
    then obtain k where k: "DIRSIZ = length name + Suc k" by (metis less_iff_Suc_add not_le add_Suc_right)
    have "take DIRSIZ ?t = name @ replicate (Suc k) 0" by (simp add: k)
    moreover have "\<And>b. b \<in> set name \<Longrightarrow> b \<noteq> 0" using assms by auto
    ultimately show ?thesis using False by (simp add: takeWhile_append2 k)
  qed
  then show "de_name (mk_dirent name n) = take DIRSIZ name" by (simp only: de_name_def mk_dirent_def d)
qed


subsection \<open>Looking up a name\<close>

text \<open>The entries of a directory, and the first one in use with a given name.\<close>

definition entry :: "(u32 \<Rightarrow> bytes) \<Rightarrow> inode \<Rightarrow> nat \<Rightarrow> u8 list" where
  "entry V i k = map (content V i) [16 * k..<16 * k + 16]"

definition names_it :: "cstring \<Rightarrow> u8 list \<Rightarrow> bool" where
  "names_it name de \<longleftrightarrow> de_inum de \<noteq> 0 \<and> de_name de = take DIRSIZ name"

fun find_from :: "nat \<Rightarrow> nat \<Rightarrow> (nat \<Rightarrow> bool) \<Rightarrow> nat option" where
  "find_from 0 k P = None"
| "find_from (Suc n) k P = (if P k then Some k else find_from n (Suc k) P)"

lemma find_from_Some: "find_from n k P = Some j \<longleftrightarrow> k \<le> j \<and> j < k + n \<and> P j \<and> (\<forall>l. k \<le> l \<longrightarrow> l < j \<longrightarrow> \<not> P l)"
proof (induction n arbitrary: k)
  case (Suc n)
  have le: "k \<le> l \<longleftrightarrow> l = k \<or> Suc k \<le> l" for l by auto
  show ?case
  proof (cases "P k")
    case True
    have "j = k" if "k \<le> j" "\<forall>l. k \<le> l \<longrightarrow> l < j \<longrightarrow> \<not> P l"
      using that True by (metis le_neq_implies_less order_refl)
    then show ?thesis using True by auto
  next
    case False
    then show ?thesis using Suc.IH [of "Suc k"] by (auto simp: le)
  qed
qed simp

lemma find_from_None: "find_from n k P = None \<longleftrightarrow> (\<forall>l. k \<le> l \<longrightarrow> l < k + n \<longrightarrow> \<not> P l)"
proof (induction n arbitrary: k)
  case (Suc n)
  have le: "k \<le> l \<longleftrightarrow> l = k \<or> Suc k \<le> l" for l by auto
  show ?case using Suc.IH [of "Suc k"] by (auto simp: le)
qed simp

definition dir_ok :: "(u32 \<Rightarrow> bytes) \<Rightarrow> inode \<Rightarrow> bool" where
  "dir_ok V i \<longleftrightarrow> file_ok V i \<and> itype i = T_DIR \<and> unat (isize i) mod 16 = 0"

lemma unat_slot: "16 * k \<le> n \<Longrightarrow> n \<le> 71680 \<Longrightarrow> unat (word_of_nat (16 * k) :: u32) = 16 * k"
  by (intro unat_of_nat_lt) simp

lemma dir_read:
  assumes "fs_tx me s bl V D" "dir_ok V (inodes s ! dp)" "k < unat (isize (inodes s ! dp)) div 16"
  shows "\<exists>t. readi dv me dp (word_of_nat (16 * k)) DIRENT s = Ok (16, entry V (inodes s ! dp) k, t)
    \<and> fs_tx me t bl V D \<and> same_above s t" "(word_of_nat (16 * k) :: u32) < isize (inodes s ! dp)"
proof -
  have f: "file_ok V (inodes s ! dp)" "itype (inodes s ! dp) \<noteq> T_DEV" "unat (isize (inodes s ! dp)) \<le> 71680"
    using assms(2) by (simp_all add: dir_ok_def T_DIR_def T_DEV_def file_ok_def MAXFILE_def NDIRECT_def NINDIRECT_def BSIZE_def)
  have k: "16 * k + 16 \<le> unat (isize (inodes s ! dp))" using assms(3) by linarith
  have u: "unat (word_of_nat (16 * k) :: u32) = 16 * k" using k f(3) by (intro unat_slot) simp_all
  have d: "unat DIRENT = 16" by (simp add: DIRENT_def)
  have r: "unat (word_of_nat (16 * k) :: u32) + unat DIRENT \<le> unat (isize (inodes s ! dp))" using u d k by simp
  from readi_spec [OF assms(1) f(1,2) r, of dv] show "\<exists>t. readi dv me dp (word_of_nat (16 * k)) DIRENT s = Ok (16, entry V (inodes s ! dp) k, t)
    \<and> fs_tx me t bl V D \<and> same_above s t" unfolding u d entry_def by simp
  show "(word_of_nat (16 * k) :: u32) < isize (inodes s ! dp)" using u k by (simp add: word_less_nat_alt)
qed

lemma slot_next: "word_of_nat (16 * k) + DIRENT = (word_of_nat (16 * Suc k) :: u32)"
  by (simp add: DIRENT_def)

lemma dirlookup_from_spec:
  assumes "fs_tx me s bl V D" "dir_ok V (inodes s ! dp)" "idev (inodes s ! dp) = ROOTDEV" "0 \<notin> set name"
    "k + n = unat (isize (inodes s ! dp)) div 16"
  shows "\<exists>t. same_above s t \<and> fs_tx me t bl V D \<and>
    dirlookup_from (Suc n) dv me dp name (word_of_nat (16 * k)) s =
      (case find_from n k (\<lambda>j. names_it name (entry V (inodes s ! dp) j)) of
         None \<Rightarrow> Ok (None, t)
       | Some j \<Rightarrow> bnd (iget ROOTDEV (ucast (de_inum (entry V (inodes s ! dp) j))) t)
           (\<lambda>(ip, u). Ok (Some (ip, word_of_nat (16 * j)), u)))"
  using assms
proof (induction n arbitrary: k s)
  case 0
  have "unat (isize (inodes s ! dp)) = 16 * k" using 0(2,5) by (auto simp: dir_ok_def)
  then have "\<not> (word_of_nat (16 * k) :: u32) < isize (inodes s ! dp)"
    by (metis less_irrefl unat_of_nat_lt unsigned_less word_less_nat_alt)
  then show ?case using 0(1) by (intro exI [of _ s]) simp
next
  case (Suc n)
  let ?i = "inodes s ! dp"
  have k: "k < unat (isize ?i) div 16" using Suc.prems(5) by simp
  note rd = dir_read [OF Suc.prems(1,2) k]
  from rd(1) [of dv] obtain s1 where r: "readi dv me dp (word_of_nat (16 * k)) DIRENT s = Ok (16, entry V ?i k, s1)"
    "fs_tx me s1 bl V D" "same_above s s1" by blast
  have i1: "inodes s1 ! dp = ?i" using same_aboveD(1) [OF r(3)] by simp
  have cmp: "namecmp name (de_name (entry V ?i k)) = 0 \<longleftrightarrow> de_name (entry V ?i k) = take DIRSIZ name"
    using namecmp_zero [OF Suc.prems(4) de_name_props(1)] de_name_props(2) [of "entry V ?i k"] by auto
  show ?case
  proof (cases "names_it name (entry V ?i k)")
    case True
    then have "de_inum (entry V ?i k) \<noteq> 0" "namecmp name (de_name (entry V ?i k)) = 0" using cmp by (simp_all add: names_it_def)
    then have "dirlookup_from (Suc (Suc n)) dv me dp name (word_of_nat (16 * k)) s
      = bnd (iget ROOTDEV (ucast (de_inum (entry V ?i k))) s1) (\<lambda>(ip, u). Ok (Some (ip, word_of_nat (16 * k)), u))"
      using rd(2) r(1) i1 Suc.prems(3) by (subst dirlookup_from.simps) simp
    then show ?thesis using True r(2,3) by (intro exI [of _ s1]) simp
  next
    case False
    then have "dirlookup_from (Suc (Suc n)) dv me dp name (word_of_nat (16 * k)) s
      = dirlookup_from (Suc n) dv me dp name (word_of_nat (16 * Suc k)) s1"
      using rd(2) r(1) cmp by (subst dirlookup_from.simps) (auto simp: names_it_def slot_next simp del: dirlookup_from.simps of_nat_mult of_nat_Suc)
    moreover have p: "dir_ok V (inodes s1 ! dp)" "idev (inodes s1 ! dp) = ROOTDEV" "Suc k + n = unat (isize (inodes s1 ! dp)) div 16"
      using Suc.prems i1 by simp_all
    ultimately show ?thesis using Suc.IH [OF r(2) p(1,2) Suc.prems(4) p(3)] False same_above_trans [OF r(3)] unfolding i1
      by (simp del: dirlookup_from.simps) blast
  qed
qed

lemma dirlookup_spec:
  assumes "fs_tx me s bl V D" "dir_ok V (inodes s ! dp)" "idev (inodes s ! dp) = ROOTDEV" "0 \<notin> set name"
  shows "\<exists>t. same_above s t \<and> fs_tx me t bl V D \<and> dirlookup dv me dp name s =
      (case find_from (unat (isize (inodes s ! dp)) div 16) 0 (\<lambda>j. names_it name (entry V (inodes s ! dp) j)) of
         None \<Rightarrow> Ok (None, t)
       | Some j \<Rightarrow> bnd (iget ROOTDEV (ucast (de_inum (entry V (inodes s ! dp) j))) t)
           (\<lambda>(ip, u). Ok (Some (ip, word_of_nat (16 * j)), u)))"
  using dirlookup_from_spec [OF assms, of 0 "unat (isize (inodes s ! dp)) div 16" dv] assms(2)
  by (simp add: dirlookup_def dir_ok_def del: dirlookup_from.simps)

text \<open>
  \<open>dirlookup\<close> finds the first entry of a directory that is in use and whose name agrees on
  the first \<open>DIRSIZ\<close> bytes: it returns a reference to that entry's inode and the offset of the
  entry, and null exactly when there is none; it changes nothing on the disk.
\<close>

theorem dirlookup_finds_first:
  assumes "fs_tx me s bl V D" "dir_ok V (inodes s ! dp)" "idev (inodes s ! dp) = ROOTDEV" "0 \<notin> set name"
  shows "\<exists>t. same_above s t \<and> fs_tx me t bl V D
    \<and> (\<forall>j < unat (isize (inodes s ! dp)) div 16. names_it name (entry V (inodes s ! dp) j) \<longrightarrow>
        (\<forall>l < j. \<not> names_it name (entry V (inodes s ! dp) l)) \<longrightarrow>
        dirlookup dv me dp name s = bnd (iget ROOTDEV (ucast (de_inum (entry V (inodes s ! dp) j))) t)
          (\<lambda>(ip, u). Ok (Some (ip, word_of_nat (16 * j)), u)))
    \<and> ((\<forall>j < unat (isize (inodes s ! dp)) div 16. \<not> names_it name (entry V (inodes s ! dp) j)) \<longrightarrow>
        dirlookup dv me dp name s = Ok (None, t))"
proof -
  let ?P = "\<lambda>j. names_it name (entry V (inodes s ! dp) j)" let ?n = "unat (isize (inodes s ! dp)) div 16"
  from dirlookup_spec [OF assms, of dv] obtain t where
    t: "same_above s t" "fs_tx me t bl V D" "dirlookup dv me dp name s = (case find_from ?n 0 ?P of
       None \<Rightarrow> Ok (None, t) | Some j \<Rightarrow> bnd (iget ROOTDEV (ucast (de_inum (entry V (inodes s ! dp) j))) t)
         (\<lambda>(ip, u). Ok (Some (ip, word_of_nat (16 * j)), u)))" by blast
  have "find_from ?n 0 ?P = Some j" if "j < ?n" "?P j" "\<forall>l < j. \<not> ?P l" for j
    using that by (subst find_from_Some) simp
  moreover have "find_from ?n 0 ?P = None" if "\<forall>j < ?n. \<not> ?P j"
    using that by (subst find_from_None) simp
  ultimately show ?thesis using t by (intro exI [of _ t]) (simp del: of_nat_mult)
qed

lemma dirlink_slot_spec:
  assumes "fs_tx me s bl V D" "dir_ok V (inodes s ! dp)" "k + n = unat (isize (inodes s ! dp)) div 16"
    "find_from n k (\<lambda>j. de_inum (entry V (inodes s ! dp) j) = 0) = Some j"
  shows "\<exists>t. same_above s t \<and> fs_tx me t bl V D \<and>
    dirlink_slot (Suc n) dv me dp (word_of_nat (16 * k)) s = Ok (word_of_nat (16 * j), t)"
  using assms
proof (induction n arbitrary: k s)
  case (Suc n)
  let ?i = "inodes s ! dp"
  have k: "k < unat (isize ?i) div 16" using Suc.prems(3) by simp
  note rd = dir_read [OF Suc.prems(1,2) k]
  from rd(1) [of dv] obtain s1 where r: "readi dv me dp (word_of_nat (16 * k)) DIRENT s = Ok (16, entry V ?i k, s1)"
    "fs_tx me s1 bl V D" "same_above s s1" by blast
  have i1: "inodes s1 ! dp = ?i" using same_aboveD(1) [OF r(3)] by simp
  show ?case
  proof (cases "de_inum (entry V ?i k) = 0")
    case True
    then have "j = k" using Suc.prems(4) by simp
    moreover have "dirlink_slot (Suc (Suc n)) dv me dp (word_of_nat (16 * k)) s = Ok (word_of_nat (16 * k), s1)"
      using rd(2) r(1) True by (subst dirlink_slot.simps) simp
    ultimately show ?thesis using r(2,3) by blast
  next
    case False
    then have "dirlink_slot (Suc (Suc n)) dv me dp (word_of_nat (16 * k)) s
      = dirlink_slot (Suc n) dv me dp (word_of_nat (16 * Suc k)) s1"
      using rd(2) r(1) by (subst dirlink_slot.simps) (simp add: slot_next del: dirlink_slot.simps of_nat_mult of_nat_Suc)
    moreover have p: "dir_ok V (inodes s1 ! dp)" "Suc k + n = unat (isize (inodes s1 ! dp)) div 16"
      "find_from n (Suc k) (\<lambda>j. de_inum (entry V (inodes s1 ! dp) j) = 0) = Some j"
      using Suc.prems i1 False by simp_all
    ultimately show ?thesis using Suc.IH [OF r(2) p(1-3)] same_above_trans [OF r(3)]
      by (simp del: dirlink_slot.simps) blast
  qed
qed simp

text \<open>
  C31. \<open>dirlink\<close> then \<open>dirlookup\<close>: linking a name that is not in the directory into its first free
  slot succeeds, changes only that entry, and a following lookup of the name returns a reference
  to exactly the inode number that was linked.
\<close>

theorem dirlink_then_dirlookup:
  assumes "fs_tx me s bl V D" "dir_ok V (inodes s ! dp)" "file_sep s V (inodes s ! dp)" "0 \<notin> set name" "room s bl 1"
    "\<And>l. l < unat (isize (inodes s ! dp)) div 16 \<Longrightarrow> \<not> names_it name (entry V (inodes s ! dp) l)"
    "j < unat (isize (inodes s ! dp)) div 16" "de_inum (entry V (inodes s ! dp) j) = 0"
    "\<And>l. l < j \<Longrightarrow> de_inum (entry V (inodes s ! dp) l) \<noteq> 0" "0 < n" "unat n < 65536"
  shows "\<exists>t bl' V' u. dirlink dv me dp name n s = Ok (0, t) \<and> same_above s t \<and> fs_tx me t bl' V' D
    \<and> entry V' (inodes s ! dp) j = mk_dirent name n
    \<and> (\<forall>l < unat (isize (inodes s ! dp)) div 16. l \<noteq> j \<longrightarrow> entry V' (inodes s ! dp) l = entry V (inodes s ! dp) l)
    \<and> same_above t u \<and> fs_tx me u bl' V' D
    \<and> dirlookup dv me dp name t = bnd (iget ROOTDEV n u) (\<lambda>(ip, v). Ok (Some (ip, word_of_nat (16 * j)), v))"
proof -
  let ?i = "inodes s ! dp" let ?n = "unat (isize ?i) div 16"
  have dev: "idev ?i = ROOTDEV" using assms(2) by (simp add: dir_ok_def file_ok_def)
  have none: "find_from ?n 0 (\<lambda>j. names_it name (entry V ?i j)) = None" by (subst find_from_None) (simp add: assms(6))
  from dirlookup_spec [OF assms(1,2) dev assms(4), of dv] obtain s1 where
    l: "same_above s s1" "fs_tx me s1 bl V D" "dirlookup dv me dp name s = Ok (None, s1)" unfolding none by auto
  have i1: "inodes s1 ! dp = ?i" using same_aboveD(1) [OF l(1)] by simp
  have sl: "find_from ?n 0 (\<lambda>j. de_inum (entry V (inodes s1 ! dp) j) = 0) = Some j"
    unfolding i1 by (subst find_from_Some) (simp add: assms(7-9))
  have d1: "dir_ok V (inodes s1 ! dp)" "0 + ?n = unat (isize (inodes s1 ! dp)) div 16" using assms(2) i1 by simp_all
  from dirlink_slot_spec [OF l(2) d1 sl, of dv] obtain s2 where
    f: "same_above s1 s2" "fs_tx me s2 bl V D"
      "dirlink_slot (Suc (unat (isize (inodes s1 ! dp)) div 16)) dv me dp 0 s1 = Ok (word_of_nat (16 * j), s2)"
    unfolding i1 by (auto simp del: dirlink_slot.simps of_nat_mult)
  have ab: "same_above s s2" using l(1) f(1) by (rule same_above_trans)
  have i2: "inodes s2 ! dp = ?i" using same_aboveD(1) [OF ab] by simp
  have sz: "unat (isize ?i) \<le> 71680" "itype ?i \<noteq> T_DEV" "file_ok V ?i"
    using assms(2) by (simp_all add: dir_ok_def T_DIR_def T_DEV_def file_ok_def MAXFILE_def NDIRECT_def NINDIRECT_def BSIZE_def)
  have j16: "16 * j + 16 \<le> unat (isize ?i)" using assms(7) by linarith
  have uj: "unat (word_of_nat (16 * j) :: u32) = 16 * j" using j16 sz(1) by (intro unat_slot) simp_all
  note md = mk_dirent_props [OF assms(4), of n]
  have dd: "unat DIRENT = 16" by (simp add: DIRENT_def)
  have ch: "chunks (16 * j) 16 = 1"
  proof -
    have "(16 * j) mod BSIZE = 16 * (j mod 32)" by (simp add: BSIZE_def mult_mod_right)
    moreover have "j mod 32 \<le> 31" by simp
    ultimately have "(16 * j) mod BSIZE \<le> 496" by linarith
    then have "((16 * j) mod BSIZE + 16 + (BSIZE - 1)) div BSIZE = 1"
      by (intro div_nat_eqI) (simp_all add: BSIZE_def)
    then show ?thesis by (simp add: chunks_def)
  qed
  have w: "file_ok V (inodes s2 ! dp)" "file_sep s2 V (inodes s2 ! dp)" "itype (inodes s2 ! dp) \<noteq> T_DEV"
    "length (mk_dirent name n) = unat DIRENT" "unat (word_of_nat (16 * j) :: u32) + unat DIRENT \<le> unat (isize (inodes s2 ! dp))"
    "room s2 bl (chunks (unat (word_of_nat (16 * j) :: u32)) (unat DIRENT))"
    using sz assms(3,5) same_aboveD(5,6) [OF ab] j16 unfolding i2 dd uj ch by (simp_all add: md file_sep_def)
  from writei_spec [OF f(2) w, of dv] obtain t bl' V' where
    t: "writei dv me dp (mk_dirent name n) (word_of_nat (16 * j)) DIRENT s2 = Ok (16, t)" "fs_tx me t bl' V' D" "same_above s2 t"
      "file_ok V' ?i" "\<forall>p < unat (isize ?i). content V' ?i p = (if 16 * j \<le> p \<and> p < 16 * j + 16 then mk_dirent name n ! (p - 16 * j) else content V ?i p)"
    unfolding i2 dd uj by auto
  have at: "same_above s t" using ab t(3) by (rule same_above_trans)
  have it: "inodes t ! dp = ?i" using same_aboveD(1) [OF at] by simp
  have dl: "dirlink dv me dp name n s = Ok (0, t)"
    using l(3) f(3) t(1) by (simp add: dirlink_def del: dirlink_slot.simps of_nat_mult)
  have ej: "entry V' ?i j = mk_dirent name n"
    by (rule nth_equalityI) (use t(5) j16 md(1) in \<open>simp_all add: entry_def\<close>)
  have el: "entry V' ?i l = entry V ?i l" if "l < ?n" "l \<noteq> j" for l
    unfolding entry_def by (rule map_cong [OF refl]) (use that t(5) in auto)
  have dt: "dir_ok V' (inodes t ! dp)" using assms(2) t(4) it by (simp add: dir_ok_def)
  have un: "ucast (ucast n :: u16) = n"
    using assms(11) by (subst unat_eq_iff [symmetric])
      (simp add: unsigned_ucast_eq unsigned_take_bit_eq take_bit_nat_eq_self del: unat_eq_iff)
  have hit: "names_it name (entry V' ?i j)"
  proof -
    have "(ucast n :: u16) \<noteq> 0" using un assms(10) by auto
    then show ?thesis unfolding ej names_it_def md by simp
  qed
  have nohit: "\<not> names_it name (entry V' ?i l)" if "l < j" for l using el [of l] assms(6,7) that by simp
  have some: "find_from ?n 0 (\<lambda>j. names_it name (entry V' ?i j)) = Some j"
    by (subst find_from_Some) (simp add: assms(7) hit nohit)
  have dvt: "idev (inodes t ! dp) = ROOTDEV" using dev it by simp
  from dirlookup_spec [OF t(2) dt dvt assms(4), of dv] obtain u where
    u: "same_above t u" "fs_tx me u bl' V' D"
      "dirlookup dv me dp name t = bnd (iget ROOTDEV (ucast (de_inum (entry V' ?i j))) u) (\<lambda>(ip, v). Ok (Some (ip, word_of_nat (16 * j)), v))"
    unfolding it some by auto
  have "ucast (de_inum (entry V' ?i j)) = n" unfolding ej md(2) by (rule un)
  then show ?thesis using dl at t(2) ej el u by (intro exI [of _ t] exI [of _ bl'] exI [of _ V'] exI [of _ u]) (simp del: of_nat_mult)
qed

subsection \<open>Decimal numbers\<close>

text \<open>The reference: the decimal digits of a number, most significant first.\<close>

fun dec :: "nat \<Rightarrow> cstring" where
  "dec n = (if n < 10 then [digit n] else dec (n div 10) @ [digit (n mod 10)])"

declare dec.simps [simp del]

lemma length_dec: "length (dec n) = itoa_width n"
proof (induction n rule: dec.induct)
  case (1 n)
  then show ?case by (subst dec.simps, subst itoa_width.simps) (auto simp: div_eq_0_iff)
qed

lemma itoa_fill_dec:
  "itoa_width i \<le> p \<Longrightarrow> p \<le> length b \<Longrightarrow> itoa_fill p i b = take (p - itoa_width i) b @ dec i @ drop p b"
proof (induction p i b rule: itoa_fill.induct)
  case (1 p i b)
  let ?b = "b[p - 1 := digit (i mod 10)]"
  have w: "itoa_width i = (if i < 10 then 1 else Suc (itoa_width (i div 10)))"
    by (subst itoa_width.simps) (auto simp: div_eq_0_iff)
  have p: "0 < p" using 1(2) w by (cases p) (auto split: if_splits)
  have dr: "drop (p - 1) ?b = digit (i mod 10) # drop p b"
  proof -
    have "p - 1 < length ?b" "Suc (p - 1) = p" using p 1(3) by simp_all
    then have "drop (p - 1) ?b = ?b ! (p - 1) # drop p ?b" using Cons_nth_drop_Suc [of "p - 1" ?b] by simp
    moreover have "drop p ?b = drop p b" using p by (intro drop_update_cancel) simp
    moreover have "?b ! (p - 1) = digit (i mod 10)" using p 1(3) by simp
    ultimately show ?thesis by (simp only:)
  qed
  show ?case
  proof (cases "i < 10")
    case True
    have "itoa_fill p i b = ?b" using True by (subst itoa_fill.simps) (simp add: Let_def div_eq_0_iff)
    also have "\<dots> = take (p - 1) ?b @ drop (p - 1) ?b" by (rule append_take_drop_id [symmetric])
    also have "\<dots> = take (p - 1) b @ digit i # drop p b" unfolding dr using True by simp
    finally show ?thesis using True w by (simp add: dec.simps [of i])
  next
    case False
    then have d: "i div 10 \<noteq> 0" by (simp add: div_eq_0_iff)
    have "itoa_fill p i b = itoa_fill (p - 1) (i div 10) ?b" using d by (subst itoa_fill.simps) (simp add: Let_def)
    also have "\<dots> = take (p - 1 - itoa_width (i div 10)) ?b @ dec (i div 10) @ drop (p - 1) ?b"
      by (rule 1(1) [OF refl d]) (use 1(2,3) w False in auto)
    also have "take (p - 1 - itoa_width (i div 10)) ?b = take (p - itoa_width i) b"
      using w False by (subst take_update_cancel) auto
    finally show ?thesis unfolding dr using False by (simp add: dec.simps [of i])
  qed
qed

lemma itoa_dec: "itoa i = (if i < 0 then [45] else []) @ dec (nat \<bar>i\<bar>)"
proof -
  let ?n = "nat \<bar>i\<bar>" let ?w = "itoa_width ?n" let ?pre = "(if i < 0 then [45] else []) :: cstring"
  have "itoa i = itoa_fill (length ?pre + ?w) ?n (?pre @ replicate ?w 0)" by (simp add: itoa_def Let_def)
  also have "\<dots> = take (length ?pre) (?pre @ replicate ?w 0) @ dec ?n @ drop (length ?pre + ?w) (?pre @ replicate ?w 0)"
    by (subst itoa_fill_dec) simp_all
  also have "\<dots> = ?pre @ dec ?n" by (auto split: if_splits)
  finally show ?thesis .
qed

lemma digit_range: "d < 10 \<Longrightarrow> 48 \<le> digit d \<and> digit d \<le> 57 \<and> ucast (digit d) = (48 + word_of_nat d :: u32)"
proof -
  assume d: "d < 10"
  then have u: "unat (digit d) = 48 + d" by (simp add: digit_def del: of_nat_add)
  have "ucast (digit d) = (word_of_nat (unat (digit d)) :: u32)" by (simp add: unsigned_of_nat word_of_nat_eq_iff)
  then show ?thesis using u d by (simp add: word_le_nat_alt)
qed

lemma dec_digits: "c \<in> set (dec n) \<Longrightarrow> 48 \<le> c \<and> c \<le> 57"
proof (induction n rule: dec.induct)
  case (1 n)
  then show ?case using digit_range [of n] digit_range [of "n mod 10"]
    by (subst (asm) dec.simps) (auto split: if_splits)
qed

definition atoi_step :: "u32 \<Rightarrow> u8 \<Rightarrow> u32" where
  "atoi_step n c = n * 10 + ucast c - 48"

lemma dec_value: "foldl atoi_step 0 (dec n) = word_of_nat n"
proof (induction n rule: dec.induct)
  case (1 n)
  show ?case
  proof (cases "n < 10")
    case True
    then show ?thesis using digit_range [of n] by (simp add: dec.simps [of n] atoi_step_def)
  next
    case False
    have "foldl atoi_step 0 (dec n) = atoi_step (word_of_nat (n div 10)) (digit (n mod 10))"
      using False 1 by (simp add: dec.simps [of n])
    also have "\<dots> = word_of_nat (n div 10) * 10 + word_of_nat (n mod 10)"
      using digit_range [of "n mod 10"] by (simp add: atoi_step_def)
    also have "\<dots> = word_of_nat (n div 10 * 10 + n mod 10)" by (simp only: of_nat_add of_nat_mult of_nat_numeral)
    finally show ?thesis by simp
  qed
qed

lemma atoi_from_digits:
  assumes "\<And>c. c \<in> set ds \<Longrightarrow> 48 \<le> c \<and> c \<le> 57" "bytes_at m s (length ds) = ds"
    "\<not> (48 \<le> m (s + length ds) \<and> m (s + length ds) \<le> 57)"
  shows "atoi_from m s n = Some (foldl atoi_step n ds)"
  using assms
proof (induction ds arbitrary: s n)
  case Nil
  then show ?case by (subst atoi_from.simps) auto
next
  case (Cons c ds)
  have c: "m s = c" "bytes_at m (s + 1) (length ds) = ds" using Cons.prems(2) by (simp_all add: bytes_at_Suc)
  have "atoi_from m s n = atoi_from m (s + 1) (atoi_step n c)"
    using Cons.prems(1) [of c] c(1) by (subst atoi_from.simps) (simp add: atoi_step_def)
  also have "\<dots> = Some (foldl atoi_step (atoi_step n c) ds)"
    by (rule Cons.IH) (use Cons.prems c(2) in auto)
  finally show ?case by simp
qed

text \<open>
  Numbers survive printing: for every number that is not negative, \<open>itoa\<close> produces its
  decimal digits without leading zeros, and the user library's \<open>atoi\<close> reads the number back
  from memory, modulo the size of an \<open>int\<close>.
\<close>

theorem itoa_atoi_roundtrip:
  "itoa (int n) = dec n \<and> (dec n = [48] \<or> hd (dec n) \<noteq> 48)
   \<and> atoi (put_bytes m p (itoa (int n) @ [0])) p = Some (word_of_nat n)"
proof -
  have it: "itoa (int n) = dec n" by (simp add: itoa_dec)
  have "n = 0 \<or> hd (dec n) \<noteq> 48"
  proof (induction n rule: dec.induct)
    case (1 n)
    show ?case
    proof (cases "n < 10")
      case True
      then have "n \<noteq> 0 \<longrightarrow> digit n \<noteq> 48"
        by (subst unat_eq_iff [symmetric]) (simp add: digit_def del: unat_eq_iff of_nat_add)
      then show ?thesis using True by (cases "n = 0") (simp_all add: dec.simps [of n])
    next
      case False
      then have "n div 10 \<noteq> 0" by (simp add: div_eq_0_iff)
      moreover have "dec (n div 10) \<noteq> []" by (subst dec.simps) simp
      ultimately have "dec (n div 10) \<noteq> []" "n div 10 \<noteq> 0" by simp_all
      then show ?thesis using 1 False by (simp add: dec.simps [of n])
    qed
  qed
  moreover have "dec 0 = [48]" by (simp add: dec.simps digit_def)
  ultimately have hd: "dec n = [48] \<or> hd (dec n) \<noteq> 48" by auto
  let ?m = "put_bytes m p (dec n @ [0])"
  have "bytes_at ?m p (length (dec n)) = dec n"
    by (rule nth_equalityI) (simp_all add: bytes_at_def put_bytes_def nth_append)
  moreover have "?m (p + length (dec n)) = 0" by (simp add: put_bytes_def)
  ultimately have "atoi_from ?m p 0 = Some (foldl atoi_step 0 (dec n))"
    by (intro atoi_from_digits) (simp_all add: dec_digits)
  then show ?thesis using it hd by (simp add: atoi_def dec_value)
qed

theorem itoa_atoi_roundtrip_witness:
  "itoa (int 307) = [51, 48, 55] \<and> atoi (put_bytes (\<lambda>_. 1) 16 (itoa (int 307) @ [0])) 16 = Some 307"
proof -
  have "dec 307 = [51, 48, 55]" by (simp add: dec.simps digit_def)
  then have "itoa (int 307) = [51, 48, 55]"
    using itoa_atoi_roundtrip [of 307 "\<lambda>_. 1" 16] by metis
  moreover have "atoi (put_bytes (\<lambda>_. 1) 16 (itoa (int 307) @ [0])) 16 = Some (word_of_nat 307)"
    using itoa_atoi_roundtrip [of 307 "\<lambda>_. 1" 16] by blast
  ultimately show ?thesis unfolding of_nat_numeral by (rule conjI)
qed

subsection \<open>A concrete directory\<close>

text \<open>Entry 0 of the inode cache as an empty directory of two slots in block 40.\<close>

definition dir_demo :: "unit fs" where
  "dir_demo = fs_demo\<lparr>inodes := (demo_file\<lparr>itype := T_DIR, isize := 32\<rparr>) # replicate (NINODE - 1) demo_free\<rparr>"

lemma dir_demo_facts:
  "fs_tx me dir_demo [] demo_view demo_view" "dir_ok demo_view (inodes dir_demo ! 0)" "idev (inodes dir_demo ! 0) = ROOTDEV"
  "file_sep dir_demo demo_view (inodes dir_demo ! 0)" "room dir_demo [] 1" "unat (isize (inodes dir_demo ! 0)) = 32"
  "l < 2 \<Longrightarrow> de_inum (entry demo_view (inodes dir_demo ! 0) l) = 0"
proof -
  let ?i = "inodes dir_demo ! 0"
  have i: "?i = demo_file\<lparr>itype := T_DIR, isize := 32\<rparr>" by (simp add: dir_demo_def)
  have kk: "k * BSIZE < 32 \<longleftrightarrow> k = 0" for k by (auto simp: BSIZE_def)
  have b0: "blk_at demo_view ?i 0 = 40" by (simp add: i blk_at_def demo_file_def NDIRECT_def)
  show sz: "unat (isize ?i) = 32" by (simp add: i)
  show "fs_tx me dir_demo [] demo_view demo_view" using demo_tx [of me] by (simp add: fs_tx_def dir_demo_def)
  show "idev ?i = ROOTDEV" by (simp add: i demo_file_def)
  show "dir_ok demo_view ?i"
    unfolding dir_ok_def file_ok_def sz kk using b0
    by (simp add: i demo_file_def FSSIZE_def MAXFILE_def NDIRECT_def NINDIRECT_def BSIZE_def)
  have hm: "home dir_demo n = home fs_demo n" for n by (simp add: home_def dir_demo_def)
  show "file_sep dir_demo demo_view ?i"
    unfolding file_sep_def sz kk using b0 by (simp add: hm demo_home NDIRECT_def BSIZE_def)
  show "room dir_demo [] 1" using demo_room [of 1] by (simp add: room_def dir_demo_def NBUF_def MAXOPBLOCKS_def)
  assume "l < 2"
  then have l: "l = 0 \<or> l = 1" by auto
  have "content demo_view ?i p = 0" if "p < 32" for p
    using that b0 by (simp add: content_def BSIZE_def demo_view_40)
  then have "entry demo_view ?i l = replicate 16 0"
    using l by (intro nth_equalityI) (auto simp: entry_def simp del: replicate_Suc)
  then show "de_inum (entry demo_view ?i l) = 0" by (simp add: de_inum_def rd16_def)
qed

theorem dirlookup_finds_first_witness: "\<exists>t. dirlookup [] 3 0 [97] dir_demo = Ok (None, t)"
proof -
  have n: "0 \<notin> set [97 :: u8]" by simp
  have "\<forall>j < unat (isize (inodes dir_demo ! 0)) div 16. \<not> names_it [97] (entry demo_view (inodes dir_demo ! 0) j)"
    unfolding dir_demo_facts(6) using dir_demo_facts(7) by (simp add: names_it_def)
  with dirlookup_finds_first [OF dir_demo_facts(1-3) n, of 3 "[]"] show ?thesis by blast
qed

theorem dirlink_then_dirlookup_witness: "\<exists>t. dirlink [] 3 0 [97] 7 dir_demo = Ok (0, t)"
proof -
  have n: "0 \<notin> set [97 :: u8]" "(0 :: u32) < 7" "unat (7 :: u32) < 65536" by simp_all
  have e: "l < unat (isize (inodes dir_demo ! 0)) div 16 \<Longrightarrow> \<not> names_it [97] (entry demo_view (inodes dir_demo ! 0) l)" for l
    unfolding dir_demo_facts(6) using dir_demo_facts(7) [of l] by (simp add: names_it_def)
  have j: "0 < unat (isize (inodes dir_demo ! 0)) div 16" "de_inum (entry demo_view (inodes dir_demo ! 0) 0) = 0"
    using dir_demo_facts(6) dir_demo_facts(7) [of 0] by simp_all
  from dirlink_then_dirlookup [OF dir_demo_facts(1,2,4) n(1) dir_demo_facts(5) e j _ n(2,3), of "[]" 3]
  show ?thesis by blast
qed

end
