(* ===== verification/Mkfs.thy ===== *)
theory Mkfs
  imports Dir_Spec
begin

text \<open>
  \<open>mkfs.c\<close>, the program that builds the disk image the kernel boots from.  The image file is an
  ordinary host file, a map from sectors to their bytes with its length \<open>isects\<close> in sectors; the
  host stops a write beyond \<open>icap\<close> sectors.  \<open>exit(1)\<close> and a failed \<open>assert\<close> are \<open>Panic\<close>.  The
  functions that clash with the kernel's carry the prefix \<open>mk_\<close>.
\<close>

subsection \<open>State and layout\<close>

record mkst =
  img :: "u32 \<Rightarrow> bytes"
  isects :: nat
  icap :: nat
  freeinode :: u32
  freeblock :: u32

definition NINODES :: nat where "NINODES = 200"
definition nbitmap :: nat where "nbitmap = unat FSSIZE div (BSIZE * 8) + 1"
definition ninodeblocks :: nat where "ninodeblocks = NINODES div IPB + 1"
definition nlog :: nat where "nlog = LOGSIZE"
definition nmeta :: nat where "nmeta = 2 + nlog + ninodeblocks + nbitmap"
definition nblocks :: nat where "nblocks = unat FSSIZE - nmeta"

text \<open>Conversion to Intel byte order, byte by byte; the host reads the bytes back as a word.\<close>

definition xshort :: "u16 \<Rightarrow> u16" where
  "xshort x = rd16 ((\<lambda>_. 0)(0 := ucast x, 1 := ucast (drop_bit 8 x))) 0"

definition xint :: "u32 \<Rightarrow> u32" where
  "xint x = rd32 ((\<lambda>_. 0)(0 := ucast x, 1 := ucast (drop_bit 8 x), 2 := ucast (drop_bit 16 x),
     3 := ucast (drop_bit 24 x))) 0"

definition mksb :: superblock where
  "mksb = \<lparr>sb_size = xint FSSIZE, sb_nblocks = xint (word_of_nat nblocks),
     sb_ninodes = xint (word_of_nat NINODES), sb_nlog = xint (word_of_nat nlog), sb_logstart = xint 2,
     sb_inodestart = xint (word_of_nat (2 + nlog)), sb_bmapstart = xint (word_of_nat (2 + nlog + ninodeblocks))\<rparr>"

text \<open>\<open>struct superblock\<close> in memory, as \<open>memmove\<close> copies it.\<close>

definition put_sb :: "superblock \<Rightarrow> bytes \<Rightarrow> bytes" where
  "put_sb sb d = put_addrs d 0 [sb_size sb, sb_nblocks sb, sb_ninodes sb, sb_nlog sb, sb_logstart sb,
     sb_inodestart sb, sb_bmapstart sb]"

subsection \<open>Sectors\<close>

text \<open>The offset \<open>sec * BSIZE\<close> is a 32-bit product.\<close>

definition sect_at :: "u32 \<Rightarrow> u32" where
  "sect_at sec = (sec * word_of_nat BSIZE) div word_of_nat BSIZE"

definition wsect :: "u32 \<Rightarrow> bytes \<Rightarrow> mkst \<Rightarrow> mkst outcome" where
  "wsect sec buf m =
     panic_if (icap m \<le> unat (sect_at sec)) ''write''
       (Ok (m\<lparr>img := (img m)(sect_at sec := buf), isects := max (isects m) (unat (sect_at sec) + 1)\<rparr>))"

definition rsect :: "u32 \<Rightarrow> mkst \<Rightarrow> bytes outcome" where
  "rsect sec m = panic_if (isects m \<le> unat (sect_at sec)) ''read'' (Ok (img m (sect_at sec)))"

subsection \<open>Inodes\<close>

text \<open>A zeroed \<open>struct dinode\<close>; the fields of \<open>inode\<close> that are not on disk are not used.\<close>

definition zero_din :: inode where
  "zero_din = \<lparr>idev = ROOTDEV, inum = 0, iref = 0,
     ilk = \<lparr>sl_locked = False, slk = False, sl_name = [], sl_pid = 0, sl_wakeups = 0\<rparr>,
     valid = False, itype = 0, major = 0, minor = 0, nlink = 0, isize = 0, addrs = replicate (NDIRECT + 1) 0\<rparr>"

definition winode :: "u32 \<Rightarrow> inode \<Rightarrow> mkst \<Rightarrow> mkst outcome" where
  "winode n din m =
     bnd (rsect (IBLOCK n mksb) m) (\<lambda>buf.
     wsect (IBLOCK n mksb) (put_dinode din (dinode_off n) buf) m)"

definition rinode :: "u32 \<Rightarrow> mkst \<Rightarrow> inode outcome" where
  "rinode n m = bnd (rsect (IBLOCK n mksb) m) (\<lambda>buf. Ok (get_dinode buf (dinode_off n) zero_din))"

definition mk_ialloc :: "u16 \<Rightarrow> mkst \<Rightarrow> (u32 \<times> mkst) outcome" where
  "mk_ialloc typ m =
     (let n = freeinode m; m1 = m\<lparr>freeinode := n + 1\<rparr>;
          din = zero_din\<lparr>itype := xshort typ, nlink := xshort 1, isize := xint 0\<rparr>
      in bnd (winode n din m1) (\<lambda>m2. Ok (n, m2)))"

subsection \<open>Appending to a file\<close>

definition next_block :: "mkst \<Rightarrow> u32 \<times> mkst" where
  "next_block m = (freeblock m, m\<lparr>freeblock := freeblock m + 1\<rparr>)"

text \<open>The block of index \<open>fbn\<close>, allocated when it has none: the body of the loop up to \<open>x\<close>.\<close>

definition append_block :: "u32 \<Rightarrow> inode \<Rightarrow> mkst \<Rightarrow> (u32 \<times> inode \<times> mkst) outcome" where
  "append_block fbn din m =
     (if unat fbn < NDIRECT then
        if xint (addrs din ! unat fbn) = 0
        then let (b, m1) = next_block m; din1 = din\<lparr>addrs := (addrs din)[unat fbn := xint b]\<rparr>
          in Ok (xint (addrs din1 ! unat fbn), din1, m1)
        else Ok (xint (addrs din ! unat fbn), din, m)
      else
        let (din1, m1) =
          (if xint (addrs din ! NDIRECT) = 0
           then let (b, m1) = next_block m in (din\<lparr>addrs := (addrs din)[NDIRECT := xint b]\<rparr>, m1)
           else (din, m));
          o' = 4 * (unat fbn - NDIRECT)
        in bnd (rsect (xint (addrs din1 ! NDIRECT)) m1) (\<lambda>indirect.
           if rd32 indirect o' = 0
           then let (b, m2) = next_block m1; ind1 = wr32 indirect o' (xint b)
             in bnd (wsect (xint (addrs din1 ! NDIRECT)) ind1 m2) (\<lambda>m3. Ok (xint (rd32 ind1 o'), din1, m3))
           else Ok (xint (rd32 indirect o'), din1, m1)))"

text \<open>Each round copies at least one byte, so \<open>n\<close> rounds are enough.\<close>

fun iappend_from :: "nat \<Rightarrow> u8 list \<Rightarrow> u32 \<Rightarrow> u32 \<Rightarrow> inode \<Rightarrow> mkst \<Rightarrow> (u32 \<times> inode \<times> mkst) outcome" where
  "iappend_from 0 p n off din m = Ok (off, din, m)"
| "iappend_from (Suc k) p n off din m =
     (if 0 < sint n then
        let fbn = off div word_of_nat BSIZE in
        panic_if (MAXFILE \<le> unat fbn) ''fbn < MAXFILE''
        (bnd (append_block fbn din m) (\<lambda>(x, din1, m1).
           let n1 = min n ((fbn + 1) * word_of_nat BSIZE - off)
           in bnd (rsect x m1) (\<lambda>buf.
              bnd (wsect x (put_bytes buf (unat (off - fbn * word_of_nat BSIZE)) (take (unat n1) p)) m1) (\<lambda>m2.
              iappend_from k (drop (unat n1) p) (n - n1) (off + n1) din1 m2))))
      else Ok (off, din, m))"

definition iappend :: "u32 \<Rightarrow> u8 list \<Rightarrow> u32 \<Rightarrow> mkst \<Rightarrow> mkst outcome" where
  "iappend n xp cnt m =
     bnd (rinode n m) (\<lambda>din.
     bnd (iappend_from (unat cnt) xp cnt (xint (isize din)) din m) (\<lambda>(off, din1, m1).
     winode n (din1\<lparr>isize := xint off\<rparr>) m1))"

subsection \<open>The bitmap\<close>

definition mk_balloc :: "u32 \<Rightarrow> mkst \<Rightarrow> mkst outcome" where
  "mk_balloc nused m =
     panic_if (int (BSIZE * 8) \<le> sint nused) ''used < BSIZE*8''
       (wsect (sb_bmapstart mksb) (fold (\<lambda>i d. bit_set d i) [0..<nat (sint nused)] (\<lambda>_. 0)) m)"

subsection \<open>The whole image\<close>

text \<open>\<open>hopen\<close> opens a file of the host: the results of the successive calls of \<open>read\<close>, each of at
  most \<open>BSIZE\<close> bytes.\<close>

fun wsect_zeroes :: "nat \<Rightarrow> nat \<Rightarrow> mkst \<Rightarrow> mkst outcome" where
  "wsect_zeroes 0 i m = Ok m"
| "wsect_zeroes (Suc k) i m = bnd (wsect (word_of_nat i) (\<lambda>_. 0) m) (wsect_zeroes k (Suc i))"

fun append_reads :: "u32 \<Rightarrow> u8 list list \<Rightarrow> mkst \<Rightarrow> mkst outcome" where
  "append_reads n [] m = Ok m"
| "append_reads n (buf # bs) m =
     (if buf = [] then Ok m
      else bnd (iappend n buf (word_of_nat (length buf)) m) (append_reads n bs))"

definition mk_name :: "cstring \<Rightarrow> cstring" where
  "mk_name a = (if a \<noteq> [] \<and> hd a = 95 then tl a else a)"

definition add_file :: "(cstring \<Rightarrow> u8 list list option) \<Rightarrow> cstring \<Rightarrow> mkst \<Rightarrow> mkst outcome" where
  "add_file hopen a m =
     panic_if (SLASH \<in> set a) ''index(argv[i], '/') == 0''
     (case hopen a of
        None \<Rightarrow> Panic ''perror''
      | Some bs \<Rightarrow>
          bnd (mk_ialloc T_FILE m) (\<lambda>(n, m1).
          bnd (iappend ROOTINO (mk_dirent (mk_name a) (ucast (xshort (ucast n)))) 16 m1) (append_reads n bs)))"

fun add_files :: "(cstring \<Rightarrow> u8 list list option) \<Rightarrow> cstring list \<Rightarrow> mkst \<Rightarrow> mkst outcome" where
  "add_files hopen [] m = Ok m"
| "add_files hopen (a # as) m = bnd (add_file hopen a m) (add_files hopen as)"

text \<open>The image up to the two entries of the root directory.\<close>

definition mk_start :: "nat \<Rightarrow> mkst outcome" where
  "mk_start cap =
     bnd (wsect_zeroes (unat FSSIZE) 0 \<lparr>img = \<lambda>_ _. 0, isects = 0, icap = cap, freeinode = 1,
       freeblock = word_of_nat nmeta\<rparr>) (\<lambda>m.
     bnd (wsect 1 (put_sb mksb (\<lambda>_. 0)) m) (\<lambda>m1.
     bnd (mk_ialloc T_DIR m1) (\<lambda>(rootino, m2).
     panic_if (rootino \<noteq> ROOTINO) ''rootino == ROOTINO''
     (bnd (iappend rootino (mk_dirent (ascii ''.'') (ucast (xshort (ucast rootino)))) 16 m2) (\<lambda>m3.
      iappend rootino (mk_dirent (ascii ''..'') (ucast (xshort (ucast rootino)))) 16 m3)))))"

text \<open>The end of \<open>main\<close>: the size of the root directory becomes a multiple of the block size.\<close>

definition mk_finish :: "mkst \<Rightarrow> mkst outcome" where
  "mk_finish m =
     bnd (rinode ROOTINO m) (\<lambda>din.
     let off = xint (isize din); off1 = (off div word_of_nat BSIZE + 1) * word_of_nat BSIZE
     in bnd (winode ROOTINO (din\<lparr>isize := xint off1\<rparr>) m) (\<lambda>m1. mk_balloc (freeblock m1) m1))"

definition mkfs :: "(cstring \<Rightarrow> u8 list list option) \<Rightarrow> nat option \<Rightarrow> cstring list \<Rightarrow> mkst outcome" where
  "mkfs hopen fimg argv =
     (if length argv < 2 then Panic ''Usage: mkfs fs.img files...''
      else case fimg of
        None \<Rightarrow> Panic ''perror''
      | Some cap \<Rightarrow>
          bnd (mk_start cap) (\<lambda>m. bnd (add_files hopen (drop 2 argv) m) mk_finish))"

end
