(* ===== verification/Mkfs_Alloc.thy ===== *)
theory Mkfs_Alloc
  imports Mkfs
begin

text \<open>
  How \<open>mkfs\<close> hands out blocks and appends to files.  The slots of an inode are its data blocks and
  its indirect block.  \<open>alloc_inv\<close> says that the blocks from the first data block up to \<open>freeblock\<close>
  and the slots of all inodes are in bijection, and that the blocks above are zero; \<open>file_holds\<close> says
  which bytes an inode holds.  \<open>append_block\<close> adds the slots it must, and \<open>iappend\<close> adds exactly
  its bytes, taking as many blocks as \<open>blocks_for\<close> counts.
\<close>

lemma shift_bytes: "ucast (drop_bit (8 * i) x) = byte_of x i"
  by (rule unat_eq_iff [THEN iffD1])
    (simp add: byte_of_def unat_drop unsigned_ucast_eq take_bit_eq_mod power_mult)

lemma xint_id [simp]: "xint x = x"
proof -
  have "(\<lambda>_. 0)(0 := ucast x, 1 := ucast (drop_bit 8 x), 2 := ucast (drop_bit 16 x), 3 := ucast (drop_bit 24 x))
    = wr32 (\<lambda>_. 0) 0 x"
    using shift_bytes [of 0 x] shift_bytes [of 1 x] shift_bytes [of 2 x] shift_bytes [of 3 x]
    by (simp add: wr32_def numeral_2_eq_2)
  then show ?thesis by (simp only: xint_def rd32_wr32_same)
qed

lemma xshort_id [simp]: "xshort x = x"
proof -
  have "(ucast x :: u8) = word_of_nat (unat x mod 256)" "(ucast (drop_bit 8 x) :: u8) = word_of_nat (unat x div 256)"
    by (rule unat_eq_iff [THEN iffD1], simp add: unat_drop unsigned_ucast_eq take_bit_eq_mod)+
  then have "(\<lambda>_. 0)(0 := ucast x, 1 := ucast (drop_bit 8 x)) = wr16 (\<lambda>_. 0) 0 x"
    by (simp add: wr16_def)
  then show ?thesis by (simp only: xshort_def rd16_wr16_same)
qed

lemmas layout_defs = NINODES_def nbitmap_def ninodeblocks_def nlog_def nmeta_def nblocks_def IPB_def LOGSIZE_def
  MAXOPBLOCKS_def BSIZE_def FSSIZE_def

lemma nmeta_eq [simp]: "nmeta = 59" by (simp add: layout_defs)

lemma mksb_eq: "mksb = \<lparr>sb_size = 1000, sb_nblocks = 941, sb_ninodes = 200, sb_nlog = 30, sb_logstart = 2,
    sb_inodestart = 32, sb_bmapstart = 58\<rparr>"
  by (simp add: mksb_def layout_defs)

lemma sect_at_small: "unat n < 8388608 \<Longrightarrow> sect_at n = n"
proof -
  assume a: "unat n < 8388608"
  have "unat (n * 512) = unat n * 512" using a by (simp add: unat_mult_lem [THEN iffD1])
  then have "unat (n * 512 div 512) = unat n" by (simp only: unat_div) simp
  then show ?thesis by (simp add: sect_at_def BSIZE_def del: unat_eq_iff) (simp only: unat_eq_iff)
qed

subsection \<open>The blocks of a file\<close>

text \<open>Slot \<open>j\<close> of an inode: its data block \<open>j\<close> for \<open>j < MAXFILE\<close>, its indirect block for
  \<open>j = MAXFILE\<close>; 0 when there is none.\<close>

definition slot :: "(u32 \<Rightarrow> bytes) \<Rightarrow> inode \<Rightarrow> nat \<Rightarrow> u32" where
  "slot V i j = (if j < NDIRECT then addrs i ! j else if j = MAXFILE then addrs i ! NDIRECT
     else if addrs i ! NDIRECT = 0 then 0 else rd32 (V (addrs i ! NDIRECT)) (4 * (j - NDIRECT)))"

definition slots :: "u32 set \<Rightarrow> (u32 \<Rightarrow> bytes) \<Rightarrow> (u32 \<Rightarrow> inode) \<Rightarrow> (u32 \<times> nat) set" where
  "slots N V I = {(n, j). n \<in> N \<and> j \<le> MAXFILE \<and> slot V (I n) j \<noteq> 0}"

text \<open>Every block from the first data block to \<open>freeblock\<close> has exactly one use, and the others are zero.\<close>

definition alloc_inv :: "(u32 \<Rightarrow> bytes) \<Rightarrow> u32 \<Rightarrow> u32 set \<Rightarrow> (u32 \<Rightarrow> inode) \<Rightarrow> bool" where
  "alloc_inv V fb N I \<longleftrightarrow> nmeta \<le> unat fb \<and> unat fb \<le> unat FSSIZE \<and> (\<forall>n \<in> N. length (addrs (I n)) = NDIRECT + 1)
     \<and> bij_betw (\<lambda>(n, j). slot V (I n) j) (slots N V I) {b. nmeta \<le> unat b \<and> unat b < unat fb}
     \<and> (\<forall>b. fb \<le> b \<longrightarrow> b < FSSIZE \<longrightarrow> V b = (\<lambda>_. 0))"

definition file_holds :: "(u32 \<Rightarrow> bytes) \<Rightarrow> inode \<Rightarrow> u8 list \<Rightarrow> bool" where
  "file_holds V i xs \<longleftrightarrow> length xs \<le> MAXFILE * BSIZE
     \<and> (\<forall>j < MAXFILE. slot V i j \<noteq> 0 \<longleftrightarrow> j * BSIZE < length xs) \<and> (slot V i MAXFILE \<noteq> 0 \<longleftrightarrow> NDIRECT * BSIZE < length xs)
     \<and> (\<forall>p. p div BSIZE * BSIZE < length xs \<longrightarrow>
          V (slot V i (p div BSIZE)) (p mod BSIZE) = (if p < length xs then xs ! p else 0))"

lemma alloc_inj:
  assumes "alloc_inv V fb N I" "n \<in> N" "m \<in> N" "j \<le> MAXFILE" "l \<le> MAXFILE" "slot V (I n) j = slot V (I m) l" "slot V (I n) j \<noteq> 0"
  shows "n = m \<and> j = l"
proof -
  have inj: "inj_on (\<lambda>(n, j). slot V (I n) j) (slots N V I)" using assms(1) by (simp add: alloc_inv_def bij_betw_def)
  have "(n, j) \<in> slots N V I" "(m, l) \<in> slots N V I" using assms by (simp_all add: slots_def)
  with inj_onD [OF inj, of "(n, j)" "(m, l)"] assms(6) show ?thesis by simp
qed

lemma alloc_range:
  assumes "alloc_inv V fb N I" "n \<in> N" "j \<le> MAXFILE" "slot V (I n) j \<noteq> 0"
  shows "59 \<le> unat (slot V (I n) j)" "unat (slot V (I n) j) < unat fb" "unat fb \<le> 1000"
proof -
  have "(n, j) \<in> slots N V I" using assms by (simp add: slots_def)
  moreover have "bij_betw (\<lambda>(n, j). slot V (I n) j) (slots N V I) {b. nmeta \<le> unat b \<and> unat b < unat fb}"
    using assms(1) by (simp only: alloc_inv_def)
  ultimately have "slot V (I n) j \<in> {b. nmeta \<le> unat b \<and> unat b < unat fb}" by (auto simp: bij_betw_def)
  then show "59 \<le> unat (slot V (I n) j)" "unat (slot V (I n) j) < unat fb" by simp_all
  show "unat fb \<le> 1000" using assms(1) by (simp add: alloc_inv_def FSSIZE_def)
qed

lemma alloc_fresh:
  assumes "alloc_inv V fb N I" "n \<in> N" "j \<le> MAXFILE" "slot V (I n) j = 0" "unat fb < 1000"
    "\<And>m l. m \<in> N \<Longrightarrow> l \<le> MAXFILE \<Longrightarrow> slot V' (I' m) l = (if m = n \<and> l = j then fb else slot V (I m) l)"
    "\<And>m. m \<in> N \<Longrightarrow> length (addrs (I' m)) = NDIRECT + 1" "\<And>b. fb < b \<Longrightarrow> b < FSSIZE \<Longrightarrow> V' b = V b"
  shows "alloc_inv V' (fb + 1) N I'" "unat (fb + 1) = unat fb + 1"
proof -
  have a: "59 \<le> unat fb" "bij_betw (\<lambda>(n, j). slot V (I n) j) (slots N V I) {b. 59 \<le> unat b \<and> unat b < unat fb}"
    "\<And>b. fb \<le> b \<Longrightarrow> b < FSSIZE \<Longrightarrow> V b = (\<lambda>_. 0)" using assms(1) by (simp_all add: alloc_inv_def)
  show u: "unat (fb + 1) = unat fb + 1" using assms(5) by (simp add: unat_add_lt)
  have f0: "fb \<noteq> 0" using a(1) by auto
  have s: "slots N V' I' = insert (n, j) (slots N V I)" using assms(2-4,6) f0 by (auto simp: slots_def split: if_splits)
  have nin: "(n, j) \<notin> slots N V I" using assms(4) by (simp add: slots_def)
  have im: "{b. 59 \<le> unat b \<and> unat b < unat (fb + 1)} = insert fb {b. 59 \<le> unat b \<and> unat b < unat fb}"
    using a(1) unfolding u by (auto simp: less_Suc_eq)
  have same: "slot V' (I' m) l = slot V (I m) l" if "(m, l) \<in> slots N V I" for m l
    using that nin assms(6) [of m l] by (auto simp: slots_def)
  have b1: "bij_betw (\<lambda>(n, j). slot V' (I' n) j) (slots N V I) {b. 59 \<le> unat b \<and> unat b < unat fb}"
    by (rule bij_betw_cong [THEN iffD1, OF _ a(2)]) (auto simp: same)
  have b2: "bij_betw (\<lambda>(n, j). slot V' (I' n) j) {(n, j)} {fb}"
    using assms(2,3,6) by (simp add: bij_betw_def)
  have "bij_betw (\<lambda>(n, j). slot V' (I' n) j) ({(n, j)} \<union> slots N V I) ({fb} \<union> {b. 59 \<le> unat b \<and> unat b < unat fb})"
    by (rule bij_betw_combine [OF b2 b1]) simp
  then have bij: "bij_betw (\<lambda>(n, j). slot V' (I' n) j) (slots N V' I') {b. 59 \<le> unat b \<and> unat b < unat (fb + 1)}"
    unfolding s im by simp
  have z: "V' b = (\<lambda>_. 0)" if "fb + 1 \<le> b" "b < FSSIZE" for b
  proof -
    have "fb < b" using that(1) u by (simp add: word_le_nat_alt word_less_nat_alt)
    then show ?thesis using assms(8) a(3) that(2) by simp
  qed
  show "alloc_inv V' (fb + 1) N I'"
    using bij z assms(5,7) a(1) u by (simp add: alloc_inv_def FSSIZE_def)
qed

lemma alloc_same:
  assumes "alloc_inv V fb N I" "\<And>m l. m \<in> N \<Longrightarrow> l \<le> MAXFILE \<Longrightarrow> slot V' (I' m) l = slot V (I m) l"
    "\<And>m. m \<in> N \<Longrightarrow> length (addrs (I' m)) = NDIRECT + 1" "\<And>b. fb \<le> b \<Longrightarrow> b < FSSIZE \<Longrightarrow> V' b = V b"
  shows "alloc_inv V' fb N I'"
proof -
  have a: "bij_betw (\<lambda>(n, j). slot V (I n) j) (slots N V I) {b. nmeta \<le> unat b \<and> unat b < unat fb}"
    using assms(1) by (simp only: alloc_inv_def)
  have s: "slots N V' I' = slots N V I" using assms(2) by (auto simp: slots_def)
  have "bij_betw (\<lambda>(n, j). slot V' (I' n) j) (slots N V I) {b. nmeta \<le> unat b \<and> unat b < unat fb}"
    by (rule bij_betw_cong [THEN iffD1, OF _ a]) (auto simp: slots_def assms(2))
  then show ?thesis using assms(1,3,4) s by (simp add: alloc_inv_def)
qed


lemma slot_direct:
  assumes "k < NDIRECT" "length (addrs i) = NDIRECT + 1"
  shows "slot V (i\<lparr>addrs := (addrs i)[k := b]\<rparr>) j = (if j = k then b else slot V i j)"
  using assms by (auto simp: slot_def nth_list_update MAXFILE_def)

lemma slot_indirect:
  assumes "slot V i MAXFILE = 0" "length (addrs i) = NDIRECT + 1" "V b = (\<lambda>_. 0)"
  shows "slot V (i\<lparr>addrs := (addrs i)[NDIRECT := b]\<rparr>) j = (if j = MAXFILE then b else slot V i j)"
  using assms by (auto simp: slot_def nth_list_update MAXFILE_def rd32_zero)

lemma slot_entry:
  assumes "NDIRECT \<le> k" "k < MAXFILE" "slot V i MAXFILE \<noteq> 0"
  defines "ia \<equiv> slot V i MAXFILE"
  shows "slot (V(ia := wr32 (V ia) (4 * (k - NDIRECT)) b)) i j = (if j = k then b else slot V i j)"
proof (cases "j < NDIRECT \<or> j = MAXFILE \<or> j = k")
  case True
  then show ?thesis using assms(1-3) by (auto simp: slot_def ia_def MAXFILE_def)
next
  case False
  then have "4 * (k - NDIRECT) + 4 \<le> 4 * (j - NDIRECT) \<or> 4 * (j - NDIRECT) + 4 \<le> 4 * (k - NDIRECT)"
    using assms(1) by linarith
  from rd32_wr32_other [OF this] False assms(3) show ?thesis by (simp add: slot_def ia_def MAXFILE_def)
qed

lemma slot_other: "x \<noteq> slot V i MAXFILE \<or> slot V i MAXFILE = 0 \<Longrightarrow> slot (V(x := d)) i j = slot V i j"
  by (auto simp: slot_def MAXFILE_def)

definition disk_ok :: "mkst \<Rightarrow> bool" where
  "disk_ok m \<longleftrightarrow> isects m = unat FSSIZE \<and> unat FSSIZE \<le> icap m"

lemma rsect_ok: "disk_ok m \<Longrightarrow> unat n < 1000 \<Longrightarrow> rsect n m = Ok (img m n)"
  by (simp add: rsect_def disk_ok_def FSSIZE_def sect_at_small)

lemma wsect_ok: "disk_ok m \<Longrightarrow> unat n < 1000 \<Longrightarrow> wsect n d m = Ok (m\<lparr>img := (img m)(n := d)\<rparr>)"
  by (cases m) (simp add: wsect_def disk_ok_def FSSIZE_def sect_at_small max_def)

text \<open>The number of blocks that \<open>append_block\<close> takes, and what it does: the inode gets the slot it
  lacked, a fresh zero block, and every other block and slot stays as it was.\<close>

definition news :: "(u32 \<Rightarrow> bytes) \<Rightarrow> inode \<Rightarrow> nat \<Rightarrow> nat" where
  "news V i k = (if slot V i k \<noteq> 0 then 0 else if NDIRECT \<le> k \<and> slot V i MAXFILE = 0 then 2 else 1)"

definition gains :: "u32 set \<Rightarrow> u32 \<Rightarrow> nat \<Rightarrow> (u32 \<Rightarrow> bytes) \<Rightarrow> (u32 \<Rightarrow> inode) \<Rightarrow> (u32 \<Rightarrow> bytes) \<Rightarrow> inode \<Rightarrow> bool" where
  "gains N n k V I V' i' \<longleftrightarrow> i' = (I n)\<lparr>addrs := addrs i'\<rparr> \<and> slot V' i' k \<noteq> 0
     \<and> (if slot V (I n) k = 0 then V' (slot V' i' k) = (\<lambda>_. 0) else slot V' i' k = slot V (I n) k)
     \<and> (\<forall>j < MAXFILE. j \<noteq> k \<longrightarrow> slot V' i' j = slot V (I n) j)
     \<and> (slot V' i' MAXFILE \<noteq> 0 \<longleftrightarrow> slot V (I n) MAXFILE \<noteq> 0 \<or> NDIRECT \<le> k)
     \<and> (\<forall>l \<in> N. l \<noteq> n \<longrightarrow> (\<forall>j \<le> MAXFILE. slot V' (I l) j = slot V (I l) j))
     \<and> (\<forall>b. b \<noteq> slot V' i' MAXFILE \<or> b = 0 \<longrightarrow> V' b = V b)"

lemma append_block_entry:
  assumes "alloc_inv (img m) (freeblock m) N I" "n \<in> N" "k < MAXFILE" "disk_ok m" "NDIRECT \<le> k"
    "slot (img m) (I n) MAXFILE \<noteq> 0" "slot (img m) (I n) k = 0" "unat (freeblock m) < 1000"
  defines "fb \<equiv> freeblock m" and "V \<equiv> img m"
  defines "ia \<equiv> slot V (I n) MAXFILE"
  defines "V' \<equiv> V(ia := wr32 (V ia) (4 * (k - NDIRECT)) fb)"
  shows "append_block (word_of_nat k) (I n) m = Ok (slot V' (I n) k, I n, m\<lparr>img := V', freeblock := fb + 1\<rparr>)"
    "alloc_inv V' (fb + 1) N I" "unat (fb + 1) = unat fb + 1" "gains N n k V I V' (I n)"
proof -
  note inv = assms(1) [folded V_def fb_def]
  have k: "unat (word_of_nat k :: u32) = k" using assms(3) by (intro unat_of_nat_lt) (simp add: MAXFILE_def NDIRECT_def NINDIRECT_def BSIZE_def)
  have ia0: "ia \<noteq> 0" "slot V (I n) k = 0" using assms(6,7) by (simp_all add: ia_def V_def)
  note r = alloc_range [OF inv assms(2) le_refl, folded ia_def, OF ia0(1)]
  have ia: "addrs (I n) ! NDIRECT = ia" by (simp add: ia_def slot_def MAXFILE_def)
  have rd: "rd32 (V ia) (4 * (k - NDIRECT)) = 0" using ia0 ia assms(3,5) by (simp add: slot_def split: if_splits)
  note e = slot_entry [OF assms(5,3), of V "I n" fb, folded ia_def, OF ia0(1), folded V'_def]
  have w: "wsect ia d (m\<lparr>freeblock := b\<rparr>) = Ok (m\<lparr>img := (img m)(ia := d), freeblock := b\<rparr>)" for b d
    using wsect_ok [of "m\<lparr>freeblock := b\<rparr>" ia d] assms(4) r by (simp add: disk_ok_def)
  have rs: "rsect ia m = Ok (V ia)" using rsect_ok [OF assms(4)] r by (simp add: V_def)
  show "append_block (word_of_nat k) (I n) m = Ok (slot V' (I n) k, I n, m\<lparr>img := V', freeblock := fb + 1\<rparr>)"
    unfolding e using assms(5) ia0 rd w rs ia by (simp add: append_block_def k Let_def next_block_def fb_def V'_def V_def)
  have oth: "slot V' (I l) j = slot V (I l) j" if "l \<in> N" "l \<noteq> n" for l j
  proof -
    have "ia \<noteq> slot V (I l) MAXFILE \<or> slot V (I l) MAXFILE = 0"
      using alloc_inj [OF inv assms(2) that(1) le_refl le_refl] that(2) ia0(1) unfolding ia_def by blast
    then show ?thesis unfolding V'_def by (rule slot_other)
  qed
  have sl: "slot V' (I l) j = (if l = n \<and> j = k then fb else slot V (I l) j)" if "l \<in> N" for l j
    using oth [OF that] e by (cases "l = n") simp_all
  have V'z: "V' b = V b" if "b \<noteq> ia" for b using that by (simp add: V'_def)
  have V'a: "V' b = V b" if "fb < b" for b
    by (rule V'z) (use that r(2) in \<open>auto simp: word_less_nat_alt\<close>)
  have len: "\<And>l. l \<in> N \<Longrightarrow> length (addrs (I l)) = NDIRECT + 1" using inv by (simp add: alloc_inv_def)
  show "alloc_inv V' (fb + 1) N I" "unat (fb + 1) = unat fb + 1"
    using alloc_fresh [OF inv assms(2) less_imp_le [OF assms(3)] ia0(2) _ sl] assms(8) V'a len
    by (simp_all add: fb_def)
  have fb0: "fb \<noteq> 0" "V fb = (\<lambda>_. 0)" "fb \<noteq> ia"
    using inv r assms(8) by (auto simp: alloc_inv_def fb_def FSSIZE_def word_less_nat_alt)
  show "gains N n k V I V' (I n)"
    unfolding gains_def using e oth ia0 fb0 V'z assms(3,5) by (auto simp: ia_def)
qed


lemma append_block_direct:
  assumes "alloc_inv (img m) (freeblock m) N I" "n \<in> N" "k < NDIRECT" "slot (img m) (I n) k = 0" "unat (freeblock m) < 1000"
  defines "i' \<equiv> (I n)\<lparr>addrs := (addrs (I n))[k := freeblock m]\<rparr>"
  shows "append_block (word_of_nat k) (I n) m = Ok (slot (img m) i' k, i', m\<lparr>freeblock := freeblock m + 1\<rparr>)"
    "alloc_inv (img m) (freeblock m + 1) N (I(n := i'))" "unat (freeblock m + 1) = unat (freeblock m) + 1"
    "gains N n k (img m) I (img m) i'"
proof -
  have k: "unat (word_of_nat k :: u32) = k" "k < MAXFILE" using assms(3) by (simp_all add: unat_of_nat_lt MAXFILE_def NDIRECT_def)
  have len: "\<And>l. l \<in> N \<Longrightarrow> length (addrs (I l)) = NDIRECT + 1" using assms(1) by (simp add: alloc_inv_def)
  note e = slot_direct [OF assms(3) len [OF assms(2)], of "img m" "freeblock m", folded i'_def]
  show "append_block (word_of_nat k) (I n) m = Ok (slot (img m) i' k, i', m\<lparr>freeblock := freeblock m + 1\<rparr>)"
    unfolding e using assms(3,4) len [OF assms(2)]
    by (simp add: append_block_def k next_block_def Let_def i'_def slot_def)
  have sl: "slot (img m) ((I(n := i')) l) j = (if l = n \<and> j = k then freeblock m else slot (img m) (I l) j)" for l j
    by (simp add: e)
  have li: "\<And>l. l \<in> N \<Longrightarrow> length (addrs ((I(n := i')) l)) = NDIRECT + 1" using len assms(2) by (simp add: i'_def)
  show a: "alloc_inv (img m) (freeblock m + 1) N (I(n := i'))" "unat (freeblock m + 1) = unat (freeblock m) + 1"
    using alloc_fresh [OF assms(1,2) _ assms(4,5) sl li] k(2) by (simp_all add: fun_upd_def)
  have "freeblock m \<noteq> 0" "img m (freeblock m) = (\<lambda>_. 0)"
    using assms(1,5) by (auto simp: alloc_inv_def FSSIZE_def word_less_nat_alt)
  then show "gains N n k (img m) I (img m) i'"
    unfolding gains_def using e assms(3,4) k(2) by (auto simp: i'_def)
qed

lemma append_block_indirect:
  assumes "alloc_inv (img m) (freeblock m) N I" "n \<in> N" "slot (img m) (I n) MAXFILE = 0" "unat (freeblock m) < 1000" "NDIRECT \<le> k" "k < MAXFILE"
  defines "i' \<equiv> (I n)\<lparr>addrs := (addrs (I n))[NDIRECT := freeblock m]\<rparr>"
  shows "append_block (word_of_nat k) (I n) m = append_block (word_of_nat k) i' (m\<lparr>freeblock := freeblock m + 1\<rparr>)"
    "alloc_inv (img m) (freeblock m + 1) N (I(n := i'))" "unat (freeblock m + 1) = unat (freeblock m) + 1"
    "slot (img m) i' j = (if j = MAXFILE then freeblock m else slot (img m) (I n) j)" "freeblock m \<noteq> 0"
proof -
  have k: "unat (word_of_nat k :: u32) = k" using assms(6) by (intro unat_of_nat_lt) (simp add: MAXFILE_def NDIRECT_def NINDIRECT_def BSIZE_def)
  have len: "\<And>l. l \<in> N \<Longrightarrow> length (addrs (I l)) = NDIRECT + 1" using assms(1) by (simp add: alloc_inv_def)
  show f: "freeblock m \<noteq> 0" using assms(1) by (auto simp: alloc_inv_def)
  have z: "img m (freeblock m) = (\<lambda>_. 0)" using assms(1,4) by (simp add: alloc_inv_def FSSIZE_def word_less_nat_alt)
  note e = slot_indirect [OF assms(3) len [OF assms(2)] z, folded i'_def]
  show "slot (img m) i' j = (if j = MAXFILE then freeblock m else slot (img m) (I n) j)" by (rule e)
  have "addrs (I n) ! NDIRECT = 0" "addrs i' ! NDIRECT = freeblock m"
    using assms(3) len [OF assms(2)] by (simp_all add: slot_def MAXFILE_def i'_def)
  then show "append_block (word_of_nat k) (I n) m = append_block (word_of_nat k) i' (m\<lparr>freeblock := freeblock m + 1\<rparr>)"
    using assms(5) f by (simp add: append_block_def k next_block_def Let_def i'_def)
  have sl: "slot (img m) ((I(n := i')) l) j = (if l = n \<and> j = MAXFILE then freeblock m else slot (img m) (I l) j)" for l j
    by (simp add: e)
  have li: "\<And>l. l \<in> N \<Longrightarrow> length (addrs ((I(n := i')) l)) = NDIRECT + 1" using len assms(2) by (simp add: i'_def)
  show "alloc_inv (img m) (freeblock m + 1) N (I(n := i'))" "unat (freeblock m + 1) = unat (freeblock m) + 1"
    using alloc_fresh [OF assms(1,2) le_refl assms(3,4) sl li] by (simp_all add: fun_upd_def)
qed

lemma append_block_spec:
  assumes "alloc_inv (img m) (freeblock m) N I" "n \<in> N" "k < MAXFILE" "disk_ok m" "unat (freeblock m) + news (img m) (I n) k \<le> 1000"
  shows "\<exists>V' fb' i'. append_block (word_of_nat k) (I n) m = Ok (slot V' i' k, i', m\<lparr>img := V', freeblock := fb'\<rparr>)
    \<and> alloc_inv V' fb' N (I(n := i')) \<and> unat fb' = unat (freeblock m) + news (img m) (I n) k \<and> gains N n k (img m) I V' i'"
proof -
  let ?V = "img m" and ?i = "I n"
  have k: "unat (word_of_nat k :: u32) = k" using assms(3) by (intro unat_of_nat_lt) (simp add: MAXFILE_def NDIRECT_def NINDIRECT_def BSIZE_def)
  consider (has) "slot ?V ?i k \<noteq> 0" | (direct) "slot ?V ?i k = 0" "k < NDIRECT"
    | (entry) "slot ?V ?i k = 0" "NDIRECT \<le> k" "slot ?V ?i MAXFILE \<noteq> 0"
    | (both) "slot ?V ?i k = 0" "NDIRECT \<le> k" "slot ?V ?i MAXFILE = 0" by linarith
  then show ?thesis
  proof cases
    case has
    have ia: "slot ?V ?i MAXFILE \<noteq> 0" if "NDIRECT \<le> k" using has that assms(3) by (auto simp: slot_def MAXFILE_def split: if_splits)
    have "append_block (word_of_nat k) ?i m = Ok (slot ?V ?i k, ?i, m)"
    proof (cases "k < NDIRECT")
      case True
      then show ?thesis using has by (simp add: append_block_def k slot_def)
    next
      case False
      then have a: "slot ?V ?i MAXFILE \<noteq> 0" "addrs ?i ! NDIRECT = slot ?V ?i MAXFILE" using ia by (simp_all add: slot_def MAXFILE_def)
      then have "rsect (slot ?V ?i MAXFILE) m = Ok (?V (slot ?V ?i MAXFILE))"
        using alloc_range [OF assms(1,2) le_refl a(1)] by (intro rsect_ok [OF assms(4)]) linarith
      then show ?thesis using False has a assms(3) by (simp add: append_block_def k slot_def [of _ _ k] Let_def)
    qed
    then show ?thesis using assms(1) has ia
      by (intro exI [of _ ?V] exI [of _ "freeblock m"] exI [of _ ?i]) (auto simp: news_def gains_def)
  next
    case direct
    then have "unat (freeblock m) < 1000" using assms(5) by (simp add: news_def)
    from append_block_direct [OF assms(1,2) direct(2,1) this] direct show ?thesis
      by (intro exI [of _ ?V] exI [of _ "freeblock m + 1"] exI [of _ "?i\<lparr>addrs := (addrs ?i)[k := freeblock m]\<rparr>"])
        (simp add: news_def)
  next
    case entry
    then have "unat (freeblock m) < 1000" using assms(5) by (simp add: news_def)
    from append_block_entry [OF assms(1-4) entry(2,3,1) this] entry show ?thesis by (auto simp: news_def)
  next
    case both
    then have b: "unat (freeblock m) + 2 \<le> 1000" using assms(5) by (simp add: news_def)
    then have fl: "unat (freeblock m) < 1000" by simp
    let ?i' = "?i\<lparr>addrs := (addrs ?i)[NDIRECT := freeblock m]\<rparr>" let ?m = "m\<lparr>freeblock := freeblock m + 1\<rparr>"
    note d = append_block_indirect [OF assms(1,2) both(3) fl both(2) assms(3)]
    have e: "alloc_inv (img ?m) (freeblock ?m) N (I(n := ?i'))" "slot (img ?m) ((I(n := ?i')) n) MAXFILE \<noteq> 0"
      "slot (img ?m) ((I(n := ?i')) n) k = 0" "unat (freeblock ?m) < 1000" "disk_ok ?m"
      using d both(1) b assms(3,4) by (simp_all add: disk_ok_def)
    note f = append_block_entry [OF e(1) assms(2,3) e(5) both(2) e(2,3,4)]
    let ?ia = "slot (img m) ?i' MAXFILE"
    let ?V' = "?V(?ia := wr32 (?V ?ia) (4 * (k - NDIRECT)) (freeblock m + 1))"
    have g: "gains N n k ?V I ?V' ?i'"
      using f(4) both d(4) assms(3) unfolding gains_def by simp
    show ?thesis
    proof (intro exI conjI)
      show "append_block (word_of_nat k) ?i m = Ok (slot ?V' ?i' k, ?i', m\<lparr>img := ?V', freeblock := freeblock m + 1 + 1\<rparr>)"
        using d(1) f(1) by simp
      show "alloc_inv ?V' (freeblock m + 1 + 1) N (I(n := ?i'))" using f(2) by (simp add: fun_upd_def)
      show "unat (freeblock m + 1 + 1) = unat (freeblock m) + news ?V ?i k"
        using d(3) f(3) both by (simp add: news_def)
    qed (rule g)
  qed
qed


text \<open>The number of blocks of a file of \<open>l\<close> bytes, with its indirect block.\<close>

definition blocks_for :: "nat \<Rightarrow> nat" where
  "blocks_for l = (l + (BSIZE - 1)) div BSIZE + (if NDIRECT * BSIZE < l then 1 else 0)"

lemma blocks_for_step:
  assumes "file_holds V i xs" "0 < c" "c \<le> BSIZE - length xs mod BSIZE" "length xs div BSIZE < MAXFILE"
  shows "blocks_for (length xs + c) = blocks_for (length xs) + news V i (length xs div BSIZE)"
proof -
  let ?a = "length xs"
  define k r where "k = ?a div 512" and "r = ?a mod 512"
  have a: "?a = 512 * k + r" "r < 512" by (simp_all add: k_def r_def)
  have c: "0 < c" "r + c \<le> 512" "?a div BSIZE = k" using assms(2,3) by (simp_all add: BSIZE_def k_def r_def)
  have kM: "k < MAXFILE" using assms(4) c(3) by simp
  have s: "slot V i k \<noteq> 0 \<longleftrightarrow> k * 512 < ?a" "slot V i MAXFILE \<noteq> 0 \<longleftrightarrow> 12 * 512 < ?a"
    using assms(1) kM by (simp_all add: file_holds_def BSIZE_def NDIRECT_def)
  have d: "(512 * k + r + c + 511) div 512 = Suc k" using c a(2) by (intro div_nat_eqI) simp_all
  show ?thesis
  proof (cases "r = 0")
    case True
    have e: "(512 * k + r + 511) div 512 = k" using True by (intro div_nat_eqI) simp_all
    show ?thesis unfolding blocks_for_def news_def c(3) using s a True d e c(1,2)
      by (simp add: BSIZE_def NDIRECT_def)
  next
    case False
    have e: "(512 * k + r + 511) div 512 = Suc k" using False a(2) by (intro div_nat_eqI) simp_all
    have "12 < Suc k" if "6144 < 512 * k + r + c" using that c(2) by linarith
    then have m: "6144 < 512 * k + r" if "6144 < 512 * k + r + c" using that False by fastforce
    show ?thesis unfolding blocks_for_def news_def c(3) using s m a False d e c(1,2)
      by (simp add: BSIZE_def NDIRECT_def)
  qed
qed

definition files_inv :: "(u32 \<Rightarrow> bytes) \<Rightarrow> u32 \<Rightarrow> u32 set \<Rightarrow> (u32 \<Rightarrow> inode) \<Rightarrow> (u32 \<Rightarrow> u8 list) \<Rightarrow> bool" where
  "files_inv V fb N I fc \<longleftrightarrow> alloc_inv V fb N I \<and> (\<forall>n \<in> N. file_holds V (I n) (fc n))"

text \<open>Writing a block of the file changes no slot.\<close>

lemma slot_put:
  assumes "alloc_inv V fb N I" "n \<in> N" "m \<in> N" "k < MAXFILE" "slot V (I n) k \<noteq> 0"
  shows "slot (V(slot V (I n) k := d)) (I m) j = slot V (I m) j"
proof (rule slot_other)
  show "slot V (I n) k \<noteq> slot V (I m) MAXFILE \<or> slot V (I m) MAXFILE = 0"
    using alloc_inj [OF assms(1-3) less_imp_le [OF assms(4)] le_refl] assms(4,5) by auto
qed

lemma alloc_put:
  assumes "alloc_inv V fb N I" "n \<in> N" "k < MAXFILE" "slot V (I n) k \<noteq> 0"
  shows "alloc_inv (V(slot V (I n) k := d)) fb N I"
proof (rule alloc_same [OF assms(1)])
  show "slot (V(slot V (I n) k := d)) (I m) l = slot V (I m) l" if "m \<in> N" for m l
    by (rule slot_put [OF assms(1,2) that assms(3,4)])
  show "length (addrs (I m)) = NDIRECT + 1" if "m \<in> N" for m using assms(1) that by (simp add: alloc_inv_def)
  show "(V(slot V (I n) k := d)) b = V b" if "fb \<le> b" for b
    using that alloc_range(2) [OF assms(1,2) less_imp_le [OF assms(3)] assms(4)] by (auto simp: word_le_nat_alt)
qed

lemma holds_other:
  assumes "file_holds V i xs" "\<And>j. j \<le> MAXFILE \<Longrightarrow> slot V' i j = slot V i j"
    "\<And>j. j < MAXFILE \<Longrightarrow> slot V i j \<noteq> 0 \<Longrightarrow> V' (slot V i j) = V (slot V i j)"
  shows "file_holds V' i xs"
proof -
  have l: "length xs \<le> MAXFILE * BSIZE" using assms(1) by (simp add: file_holds_def)
  have k: "p div BSIZE < MAXFILE \<and> slot V i (p div BSIZE) \<noteq> 0" if "p div BSIZE * BSIZE < length xs" for p
  proof -
    have "p div BSIZE * BSIZE < MAXFILE * BSIZE" using that l by linarith
    then have "p div BSIZE < MAXFILE" by simp
    then show ?thesis using assms(1) that by (simp add: file_holds_def)
  qed
  have v: "V' (slot V' i (p div BSIZE)) = V (slot V i (p div BSIZE))" if "p div BSIZE * BSIZE < length xs" for p
    using k [OF that] assms(2,3) by simp
  show ?thesis using assms(1) v unfolding file_holds_def by (simp add: assms(2))
qed


lemma gains_other_files:
  assumes "alloc_inv V fb N I" "n \<in> N" "k < MAXFILE" "gains N n k V I V1 i'" "alloc_inv V1 fb1 N (I(n := i'))"
    "l \<in> N" "l \<noteq> n" "file_holds V (I l) xs"
  shows "file_holds (V1(slot V1 i' k := d)) (I l) xs"
proof (rule holds_other [OF assms(8)])
  have s1: "slot V1 (I l) j = slot V (I l) j" if "j \<le> MAXFILE" for j using assms(4,6,7) that by (simp add: gains_def)
  have sk: "slot V1 i' k \<noteq> 0" using assms(4) by (simp add: gains_def)
  show "slot (V1(slot V1 i' k := d)) (I l) j = slot V (I l) j" if "j \<le> MAXFILE" for j
    using slot_put [OF assms(5,2,6,3), of d j] sk s1 [OF that] assms(7) by simp
  fix j assume j: "j < MAXFILE" "slot V (I l) j \<noteq> 0"
  have ne: "slot V (I l) j \<noteq> slot V1 i' q" if "q \<le> MAXFILE" for q
    using alloc_inj [OF assms(5,6,2) less_imp_le [OF j(1)] that] j s1 [of j] assms(7) by auto
  show "(V1(slot V1 i' k := d)) (slot V (I l) j) = V (slot V (I l) j)"
    using ne [of k] ne [of MAXFILE] assms(3,4) by (simp add: gains_def)
qed

lemma gains_file:
  assumes "n \<in> N" "gains N n k V I V1 i'" "alloc_inv V1 fb1 N (I(n := i'))" "file_holds V (I n) ys"
    "k = length ys div BSIZE" "k < MAXFILE" "0 < length xs" "length xs \<le> BSIZE - length ys mod BSIZE" "length ys + length xs \<le> MAXFILE * BSIZE"
  defines "x \<equiv> slot V1 i' k"
  shows "file_holds (V1(x := put_bytes (V1 x) (length ys mod BSIZE) xs)) i' (ys @ xs)"
proof -
  define V2 where "V2 = V1(x := put_bytes (V1 x) (length ys mod BSIZE) xs)"
  define r where "r = length ys mod 512"
  have len: "length ys = 512 * k + r" "r < 512" by (simp_all add: assms(5) r_def BSIZE_def)
  have r: "length ys mod BSIZE = r" by (simp add: r_def BSIZE_def)
  have "length xs \<le> 512 - r" using assms(8) unfolding r by (simp add: BSIZE_def)
  then have c: "0 < length xs" "r + length xs \<le> 512" "length ys mod BSIZE = r" using assms(7) len(2) r by simp_all
  have B: "BSIZE = 512" by (simp add: BSIZE_def)
  note g = conjunct2 [OF assms(2) [unfolded gains_def]]
  have h: "\<And>j. j < MAXFILE \<Longrightarrow> slot V (I n) j \<noteq> 0 \<longleftrightarrow> j * 512 < length ys" "slot V (I n) MAXFILE \<noteq> 0 \<longleftrightarrow> NDIRECT * 512 < length ys"
    "\<And>p. p div 512 * 512 < length ys \<Longrightarrow> V (slot V (I n) (p div 512)) (p mod 512) = (if p < length ys then ys ! p else 0)"
    using assms(4) by (simp_all add: file_holds_def B)
  have x0: "x \<noteq> 0" using g by (simp add: x_def)
  have s2: "slot V2 i' j = slot V1 i' j" for j
    using slot_put [OF assms(3,1,1,6), of _ j] x0 by (simp add: x_def V2_def)
  have s1: "slot V1 i' j = slot V (I n) j" if "j < MAXFILE" "j \<noteq> k" for j using g that by simp
  have inj: "slot V1 i' j \<noteq> x" if "j \<le> MAXFILE" "j \<noteq> k" for j
    using alloc_inj [OF assms(3,1,1) that(1) less_imp_le [OF assms(6)]] that x0 by (auto simp: x_def)
  have V2: "V2 x = put_bytes (V1 x) r xs" "\<And>b. b \<noteq> x \<Longrightarrow> V2 b = V1 b" by (simp_all add: V2_def r)
  have V1: "V1 b = V b" if "b \<noteq> slot V1 i' MAXFILE" for b using g that by simp
  have V1x: "V1 x = (if slot V (I n) k = 0 then (\<lambda>_. 0) else V (slot V (I n) k))"
    using g V1 [of x] inj [of MAXFILE] assms(6) by (auto simp: x_def)
  have below: "j * 512 < length ys + length xs \<longleftrightarrow> j * 512 < length ys" if "j \<noteq> k" for j
  proof (cases "j < k")
    case True
    then have "512 * Suc j \<le> 512 * k" by simp
    then have "j * 512 \<le> length ys" using len(1) by simp
    then show ?thesis using True len(1) c(1) by linarith
  next
    case False
    then have "512 * Suc k \<le> 512 * j" using that by simp
    then show ?thesis using len c(2) by simp
  qed
  have data: "slot V2 i' j \<noteq> 0 \<longleftrightarrow> j * 512 < length (ys @ xs)" if "j < MAXFILE" for j
  proof (cases "j = k")
    case True
    then show ?thesis using x0 len c by (simp add: s2 x_def [symmetric])
  next
    case False
    then show ?thesis using below s1 [OF that] h(1) [OF that] by (simp add: s2)
  qed
  have "NDIRECT * 512 < length ys \<or> NDIRECT \<le> k \<longleftrightarrow> NDIRECT * 512 < length ys + length xs"
  proof (cases "12 \<le> k")
    case True
    then have "6144 < length ys + length xs" using len(1) c(1) by linarith
    then show ?thesis using True by (simp add: NDIRECT_def)
  next
    case False
    then have "512 * Suc k \<le> 512 * 12" by simp
    then show ?thesis using len c(2) False by (simp add: NDIRECT_def)
  qed
  then have ind: "slot V2 i' MAXFILE \<noteq> 0 \<longleftrightarrow> NDIRECT * 512 < length (ys @ xs)" using g h(2) by (simp add: s2)
  have cont: "V2 (slot V2 i' (p div 512)) (p mod 512) = (if p < length (ys @ xs) then (ys @ xs) ! p else 0)"
    if p: "p div 512 * 512 < length (ys @ xs)" for p
  proof (cases "p div 512 = k")
    case True
    have pe: "p = 512 * k + p mod 512" using True by (metis mult_div_mod_eq)
    have old: "V1 x (p mod 512) = (if p < length ys then ys ! p else 0)"
    proof (cases "slot V (I n) k = 0")
      case True
      then have "\<not> p < length ys" using h(1) [OF assms(6)] len pe by auto
      then show ?thesis using V1x True by simp
    next
      case False
      then have "k * 512 < length ys" using h(1) [OF assms(6)] by simp
      then show ?thesis using h(3) [of p] \<open>p div 512 = k\<close> V1x False by simp
    qed
    have e: "r \<le> p mod 512 \<longleftrightarrow> \<not> p < length ys" "p mod 512 < r + length xs \<longleftrightarrow> p < length (ys @ xs)" "p mod 512 - r = p - length ys"
      using pe len by (simp_all, linarith+)
    show ?thesis unfolding s2 True using old e
      by (simp add: x_def [symmetric] V2 put_bytes_def nth_append)
  next
    case False
    then have q: "p div 512 * 512 < length ys" using below p by simp
    have pk: "p div 512 < k"
    proof (rule ccontr)
      assume "\<not> p div 512 < k"
      then have "512 * Suc k \<le> 512 * (p div 512)" using False by simp
      then show False using q len by simp
    qed
    then have "512 * Suc (p div 512) \<le> 512 * k" by simp
    moreover have "p < 512 * Suc (p div 512)" using dividend_less_times_div [of 512 p] by simp
    ultimately have pl: "p < length ys" using len by linarith
    have k: "p div 512 < MAXFILE" using pk assms(6) by simp
    have ne: "slot V1 i' (p div 512) \<noteq> x" "slot V1 i' (p div 512) \<noteq> slot V1 i' MAXFILE"
    proof -
      show "slot V1 i' (p div 512) \<noteq> x" using inj [OF less_imp_le [OF k] False] .
      have "slot V1 i' (p div 512) \<noteq> 0" using s1 [OF k False] h(1) [OF k] q by simp
      then show "slot V1 i' (p div 512) \<noteq> slot V1 i' MAXFILE"
        using alloc_inj [OF assms(3,1,1) less_imp_le [OF k] le_refl] k by auto
    qed
    show ?thesis unfolding s2 using ne V1 V2(2) s1 [OF k False] h(3) [OF q] pl by (simp add: nth_append)
  qed
  show ?thesis unfolding V2_def [symmetric] file_holds_def using assms(9) data ind cont by (simp add: B)
qed


subsection \<open>Appending\<close>

definition same_meta :: "mkst \<Rightarrow> mkst \<Rightarrow> bool" where
  "same_meta m m' \<longleftrightarrow> freeinode m' = freeinode m \<and> isects m' = isects m \<and> icap m' = icap m
     \<and> (\<forall>b. unat b < nmeta \<longrightarrow> img m' b = img m b)"

lemma same_meta_trans: "same_meta m m1 \<Longrightarrow> same_meta m1 m2 \<Longrightarrow> same_meta m m2"
  by (simp add: same_meta_def)

lemma same_meta_disk: "same_meta m m' \<Longrightarrow> disk_ok m \<Longrightarrow> disk_ok m'"
  by (simp add: same_meta_def disk_ok_def)

lemma append_round:
  assumes "disk_ok m" "files_inv (img m) (freeblock m) N I fc" "n \<in> N" "k = length (fc n) div BSIZE" "0 < length xs"
    "length xs \<le> BSIZE - length (fc n) mod BSIZE" "length (fc n) + length xs \<le> MAXFILE * BSIZE"
    "unat (freeblock m) + blocks_for (length (fc n) + length xs) \<le> 1000 + blocks_for (length (fc n))"
  shows "\<exists>x i' m1 m2. k < MAXFILE \<and> append_block (word_of_nat k) (I n) m = Ok (x, i', m1) \<and> rsect x m1 = Ok (img m1 x)
    \<and> wsect x (put_bytes (img m1 x) (length (fc n) mod BSIZE) xs) m1 = Ok m2 \<and> same_meta m m2
    \<and> files_inv (img m2) (freeblock m2) N (I(n := i')) (fc(n := fc n @ xs)) \<and> i' = (I n)\<lparr>addrs := addrs i'\<rparr>
    \<and> unat (freeblock m2) + blocks_for (length (fc n)) = unat (freeblock m) + blocks_for (length (fc n) + length xs)"
proof -
  let ?V = "img m" and ?l = "length (fc n)"
  have a: "alloc_inv ?V (freeblock m) N I" and h: "\<And>l. l \<in> N \<Longrightarrow> file_holds ?V (I l) (fc l)" using assms(2) by (simp_all add: files_inv_def)
  have "k * BSIZE \<le> ?l" by (simp add: assms(4))
  then have "k * BSIZE < MAXFILE * BSIZE" using assms(5,7) by linarith
  then have k: "k < MAXFILE" by simp
  have nd: "blocks_for (?l + length xs) = blocks_for ?l + news ?V (I n) k"
    using blocks_for_step [OF h [OF assms(3)] assms(5,6)] k by (simp add: assms(4))
  then have "unat (freeblock m) + news ?V (I n) k \<le> 1000" using assms(8) by linarith
  from append_block_spec [OF a assms(3) k assms(1) this] obtain V1 fb1 i' where
    b: "append_block (word_of_nat k) (I n) m = Ok (slot V1 i' k, i', m\<lparr>img := V1, freeblock := fb1\<rparr>)"
      "alloc_inv V1 fb1 N (I(n := i'))" "unat fb1 = unat (freeblock m) + news ?V (I n) k" "gains N n k ?V I V1 i'" by blast
  let ?x = "slot V1 i' k" let ?m1 = "m\<lparr>img := V1, freeblock := fb1\<rparr>"
  let ?d = "put_bytes (V1 ?x) (?l mod BSIZE) xs"
  note g = conjunct1 [OF b(4) [unfolded gains_def]] conjunct2 [OF b(4) [unfolded gains_def]]
  have d1: "disk_ok ?m1" using assms(1) by (simp add: disk_ok_def)
  have x0: "slot V1 ((I(n := i')) n) k \<noteq> 0" using g(2) by simp
  note rng = alloc_range [OF b(2) assms(3) less_imp_le [OF k] x0]
  then have x: "59 \<le> unat ?x" "unat ?x < 1000" by simp_all
  have all: "file_holds (V1(?x := ?d)) ((I(n := i')) l) ((fc(n := fc n @ xs)) l)" if "l \<in> N" for l
  proof (cases "l = n")
    case True
    then show ?thesis using gains_file [OF assms(3) b(4,2) h [OF assms(3)] assms(4) k assms(5-7)] by simp
  next
    case False
    from gains_other_files [OF a assms(3) k b(4,2) that False h [OF that]] False show ?thesis by simp
  qed
  have "alloc_inv (V1(?x := ?d)) fb1 N (I(n := i'))"
    using alloc_put [OF b(2) assms(3) k x0, of ?d] by (simp add: fun_upd_def)
  then have f: "files_inv (V1(?x := ?d)) fb1 N (I(n := i')) (fc(n := fc n @ xs))" unfolding files_inv_def using all by blast
  have meta: "V1 b = ?V b" if "unat b < 59" for b
  proof -
    have "b \<noteq> slot V1 i' MAXFILE \<or> b = 0"
      using alloc_range(1) [OF b(2) assms(3) le_refl] that by (cases "slot V1 i' MAXFILE = 0") auto
    then show ?thesis using g(2) by blast
  qed
  have sm: "same_meta m (?m1\<lparr>img := V1(?x := ?d)\<rparr>)" using meta x(1) by (auto simp: same_meta_def)
  have w: "wsect ?x ?d ?m1 = Ok (?m1\<lparr>img := V1(?x := ?d)\<rparr>)" "rsect ?x ?m1 = Ok (img ?m1 ?x)"
    using wsect_ok [OF d1 x(2)] rsect_ok [OF d1 x(2)] by simp_all
  show ?thesis
  proof (intro exI conjI)
    show "append_block (word_of_nat k) (I n) m = Ok (?x, i', ?m1)" by (rule b(1))
    show "same_meta m (?m1\<lparr>img := V1(?x := ?d)\<rparr>)" by (rule sm)
    show "wsect ?x (put_bytes (img ?m1 ?x) (?l mod BSIZE) xs) ?m1 = Ok (?m1\<lparr>img := V1(?x := ?d)\<rparr>)" using w(1) by simp
    show "files_inv (img (?m1\<lparr>img := V1(?x := ?d)\<rparr>)) (freeblock (?m1\<lparr>img := V1(?x := ?d)\<rparr>)) N (I(n := i')) (fc(n := fc n @ xs))"
      using f by simp
    show "unat (freeblock (?m1\<lparr>img := V1(?x := ?d)\<rparr>)) + blocks_for ?l = unat (freeblock m) + blocks_for (?l + length xs)"
      using b(3) nd by simp
  qed (rule k g(1) w(2))+
qed


lemma blocks_for_mono: "a \<le> b \<Longrightarrow> blocks_for a \<le> blocks_for b"
  unfolding blocks_for_def by (intro add_mono div_le_mono) auto

lemma append_words:
  fixes off cnt :: u32
  assumes "unat off = l" "l + unat cnt \<le> 71680"
  defines "fbn \<equiv> off div word_of_nat BSIZE"
  shows "fbn = word_of_nat (l div BSIZE)" "unat fbn = l div BSIZE" "unat (off - fbn * word_of_nat BSIZE) = l mod BSIZE"
    "unat (min cnt ((fbn + 1) * word_of_nat BSIZE - off)) = min (unat cnt) (BSIZE - l mod BSIZE)"
proof -
  have B: "unat (word_of_nat BSIZE :: u32) = BSIZE" by (simp add: BSIZE_def)
  show uf: "unat fbn = l div BSIZE" by (simp only: fbn_def unat_div B assms(1))
  then show "fbn = word_of_nat (l div BSIZE)" by (simp flip: uf)
  have k: "l div BSIZE * BSIZE + l mod BSIZE = l" "l mod BSIZE < BSIZE" by (simp_all add: BSIZE_def)
  have m1: "unat (fbn * word_of_nat BSIZE) = l div BSIZE * BSIZE"
    using unat_mult_lem [of fbn "word_of_nat BSIZE"] k assms(2) by (simp add: uf B)
  show "unat (off - fbn * word_of_nat BSIZE) = l mod BSIZE"
  proof -
    have "fbn * word_of_nat BSIZE \<le> off" using k(1) unfolding word_le_nat_alt m1 assms(1) by linarith
    from unat_sub [OF this] show ?thesis using k(1) unfolding m1 assms(1) by linarith
  qed
  have B5: "BSIZE = 512" by (simp add: BSIZE_def)
  have m2: "unat ((fbn + 1) * word_of_nat BSIZE) = l div BSIZE * BSIZE + BSIZE"
  proof -
    have "unat (fbn * word_of_nat BSIZE) + unat (word_of_nat BSIZE :: u32) < 2 ^ LENGTH(32)"
      using k assms(2) unfolding m1 B by (simp add: B5)
    from unat_add_lt [OF this] show ?thesis by (simp only: distrib_right mult_1 m1 B)
  qed
  have "unat ((fbn + 1) * word_of_nat BSIZE - off) = BSIZE - l mod BSIZE"
  proof -
    have "off \<le> (fbn + 1) * word_of_nat BSIZE" using k unfolding word_le_nat_alt m2 assms(1) by linarith
    from unat_sub [OF this] show ?thesis using k unfolding m2 assms(1) by linarith
  qed
  then show "unat (min cnt ((fbn + 1) * word_of_nat BSIZE - off)) = min (unat cnt) (BSIZE - l mod BSIZE)"
    by (simp add: min_def word_le_nat_alt)
qed

lemma iappend_from_spec:
  assumes "disk_ok m" "files_inv (img m) (freeblock m) N I fc" "n \<in> N" "off = word_of_nat (length (fc n))"
    "length p = unat cnt" "length (fc n) + length p \<le> MAXFILE * BSIZE" "unat cnt \<le> k"
    "unat (freeblock m) + blocks_for (length (fc n) + length p) \<le> 1000 + blocks_for (length (fc n))"
  shows "\<exists>i' m'. iappend_from k p cnt off (I n) m = Ok (word_of_nat (length (fc n) + length p), i', m') \<and> same_meta m m'
    \<and> files_inv (img m') (freeblock m') N (I(n := i')) (fc(n := fc n @ p)) \<and> i' = (I n)\<lparr>addrs := addrs i'\<rparr>
    \<and> unat (freeblock m') + blocks_for (length (fc n)) = unat (freeblock m) + blocks_for (length (fc n) + length p)"
  using assms
proof (induction k arbitrary: p cnt off m I fc)
  case 0
  then show ?case by (intro exI [of _ "I n"] exI [of _ m]) (simp add: same_meta_def)
next
  case (Suc k)
  let ?l = "length (fc n)"
  have mx: "?l + length p \<le> 71680" using Suc.prems(6) by (simp add: MAXFILE_def NDIRECT_def NINDIRECT_def BSIZE_def)
  have sc: "sint cnt = int (length p)" unfolding Suc.prems(5) by (rule sint_eq_unat) (use mx Suc.prems(5) in simp)
  have uo: "unat off = ?l" unfolding Suc.prems(4) by (rule unat_of_nat_lt) (use mx in simp)
  show ?case
  proof (cases "p = []")
    case True
    then show ?thesis using Suc.prems sc by (intro exI [of _ "I n"] exI [of _ m]) (simp add: same_meta_def)
  next
    case False
    define c where "c = min (length p) (BSIZE - ?l mod BSIZE)"
    define xs where "xs = take c p"
    have lx: "length xs = c" by (simp add: xs_def c_def)
    have c0: "0 < length xs" "length xs \<le> BSIZE - ?l mod BSIZE" "length xs \<le> length p"
      using False chunk_pos(2) [of ?l] unfolding lx by (simp_all add: c_def)
    have b1: "?l + length xs \<le> MAXFILE * BSIZE" using c0(3) Suc.prems(6) by linarith
    have "blocks_for (?l + length xs) \<le> blocks_for (?l + length p)" by (rule blocks_for_mono) (use c0(3) in simp)
    then have b2: "unat (freeblock m) + blocks_for (?l + length xs) \<le> 1000 + blocks_for ?l" using Suc.prems(8) by linarith
    from append_round [OF Suc.prems(1-3) refl c0(1,2) b1 b2] obtain x i1 m1 m2 where
      r: "?l div BSIZE < MAXFILE" "append_block (word_of_nat (?l div BSIZE)) (I n) m = Ok (x, i1, m1)" "rsect x m1 = Ok (img m1 x)"
        "wsect x (put_bytes (img m1 x) (?l mod BSIZE) xs) m1 = Ok m2" "same_meta m m2"
        "files_inv (img m2) (freeblock m2) N (I(n := i1)) (fc(n := fc n @ xs))" "i1 = (I n)\<lparr>addrs := addrs i1\<rparr>"
        "unat (freeblock m2) + blocks_for ?l = unat (freeblock m) + blocks_for (?l + length xs)" by blast
    have lt: "?l + unat cnt \<le> 71680" using mx Suc.prems(5) by simp
    note w = append_words [OF uo lt]
    define fbn where "fbn = off div word_of_nat BSIZE"
    define n1 where "n1 = min cnt ((fbn + 1) * word_of_nat BSIZE - off)"
    have n1: "unat n1 = c" using w(4) Suc.prems(5) by (simp add: n1_def fbn_def c_def)
    have cl: "c \<le> length p" "0 < c" using c0 lx by simp_all
    have rem: "unat (cnt - n1) = length p - c" using cl(1) n1 Suc.prems(5) by (subst unat_sub) (simp_all add: word_le_nat_alt)
    have off1: "off + n1 = word_of_nat (?l + c)" unfolding Suc.prems(4) n1 [symmetric] by simp
    have step: "iappend_from (Suc k) p cnt off (I n) m = iappend_from k (drop c p) (cnt - n1) (off + n1) i1 m2"
    proof -
      have wf: "append_block fbn (I n) m = Ok (x, i1, m1)" "unat fbn = ?l div BSIZE" "unat (off - fbn * word_of_nat BSIZE) = ?l mod BSIZE"
        using r(2) w unfolding fbn_def by simp_all
      have "iappend_from (Suc k) p cnt off (I n) m = iappend_from k (drop (unat n1) p) (cnt - n1) (off + n1) i1 m2"
        using r(1,3,4) sc False wf n1 by (simp add: Let_def fbn_def [symmetric] n1_def [symmetric] xs_def)
      then show ?thesis by (simp only: n1)
    qed
    let ?fc = "fc(n := fc n @ xs)"
    have l1: "length (?fc n) = ?l + c" using lx by simp
    have "\<exists>i' m'. iappend_from k (drop c p) (cnt - n1) (off + n1) ((I(n := i1)) n) m2
        = Ok (word_of_nat (length (?fc n) + length (drop c p)), i', m') \<and> same_meta m2 m'
      \<and> files_inv (img m') (freeblock m') N ((I(n := i1))(n := i')) (?fc(n := ?fc n @ drop c p))
      \<and> i' = ((I(n := i1)) n)\<lparr>addrs := addrs i'\<rparr>
      \<and> unat (freeblock m') + blocks_for (length (?fc n)) = unat (freeblock m2) + blocks_for (length (?fc n) + length (drop c p))"
    proof (rule Suc.IH)
      show "disk_ok m2" by (rule same_meta_disk [OF r(5) Suc.prems(1)])
      show "off + n1 = word_of_nat (length (?fc n))" using off1 l1 by simp
      show "length (drop c p) = unat (cnt - n1)" using rem by simp
      show "length (?fc n) + length (drop c p) \<le> MAXFILE * BSIZE" using l1 cl Suc.prems(6) by simp
      show "unat (cnt - n1) \<le> k" using rem cl Suc.prems(5,7) by simp
      show "unat (freeblock m2) + blocks_for (length (?fc n) + length (drop c p)) \<le> 1000 + blocks_for (length (?fc n))"
        using r(8) Suc.prems(8) l1 lx cl by simp
    qed (rule r(6) Suc.prems(3))+
    then obtain i' m' where t: "iappend_from k (drop c p) (cnt - n1) (off + n1) i1 m2 = Ok (word_of_nat (?l + length p), i', m')"
      "same_meta m2 m'" "files_inv (img m') (freeblock m') N (I(n := i')) (fc(n := fc n @ p))" "i' = i1\<lparr>addrs := addrs i'\<rparr>"
      "unat (freeblock m') + blocks_for (?l + c) = unat (freeblock m2) + blocks_for (?l + length p)"
      using l1 cl by (auto simp: xs_def)
    have "i' = (I n)\<lparr>addrs := addrs i'\<rparr>" by (subst t(4), subst r(7)) simp
    then show ?thesis
      using step t(1,3,5) r(8) lx same_meta_trans [OF r(5) t(2)] by (intro exI [of _ i'] exI [of _ m']) (simp del: iappend_from.simps add: fun_upd_def)
  qed
qed

end
