(* ===== verification/Mkfs_Image.thy ===== *)
theory Mkfs_Image
  imports Mkfs_Alloc
begin

text \<open>
  The inodes in the image and the steps of \<open>main\<close>: every step keeps \<open>mk_inv\<close>, that the inodes handed
  out so far hold the bytes \<open>fc\<close> records for them, and \<open>mkfs_image\<close> follows \<open>main\<close> to its end.
\<close>

subsection \<open>Inodes in the image\<close>

definition din_at :: "mkst \<Rightarrow> u32 \<Rightarrow> inode" where
  "din_at m n = get_dinode (img m (IBLOCK n mksb)) (dinode_off n) zero_din"

definition inums :: "mkst \<Rightarrow> u32 set" where
  "inums m = {n. n \<noteq> 0 \<and> n < freeinode m}"

text \<open>The inode blocks hold 208 inodes; from inode 208 on, \<open>IBLOCK\<close> is the bitmap block.\<close>

definition mk_inv :: "mkst \<Rightarrow> (u32 \<Rightarrow> u8 list) \<Rightarrow> bool" where
  "mk_inv m fc \<longleftrightarrow> disk_ok m \<and> unat (freeinode m) \<le> ninodeblocks * IPB
     \<and> files_inv (img m) (freeblock m) (inums m) (din_at m) fc
     \<and> (\<forall>n \<in> inums m. unat (isize (din_at m n)) = length (fc n))"

lemma IBLOCK_range:
  assumes "unat n < 208"
  shows "32 \<le> unat (IBLOCK n mksb)" "unat (IBLOCK n mksb) < 58"
proof -
  have "unat (n div 8) = unat n div 8" by (simp only: unat_div) simp
  moreover have "unat n div 8 < 26" using assms by simp
  ultimately have "unat (IBLOCK n mksb) = unat n div 8 + 32"
    using unat_add_lt [of "n div 8" 32] by (simp add: IBLOCK_def mksb_eq IPB_def BSIZE_def)
  then show "32 \<le> unat (IBLOCK n mksb)" "unat (IBLOCK n mksb) < 58" using \<open>unat n div 8 < 26\<close> by simp_all
qed

lemma mkfs_inode_overflow: "IBLOCK 208 mksb = sb_bmapstart mksb"
  by (simp add: IBLOCK_def mksb_eq IPB_def BSIZE_def)

lemma zero_din_get [simp]: "get_dinode d a (get_dinode e b j) = get_dinode d a j"
  by (simp add: get_dinode_def)

text \<open>Writing a block below the data blocks keeps every file.\<close>

lemma files_meta:
  assumes "files_inv V fb N I fc" "unat B < 59"
  shows "files_inv (V(B := d)) fb N I fc"
proof -
  have a: "alloc_inv V fb N I" and h: "\<And>n. n \<in> N \<Longrightarrow> file_holds V (I n) (fc n)" using assms(1) by (simp_all add: files_inv_def)
  have ne: "slot V (I n) j \<noteq> B" if "n \<in> N" "j \<le> MAXFILE" "slot V (I n) j \<noteq> 0" for n j
    using alloc_range(1) [OF a that] assms(2) by auto
  have s: "slot (V(B := d)) (I n) j = slot V (I n) j" if "n \<in> N" for n j
    by (rule slot_other) (use ne [OF that le_refl] in metis)
  have "alloc_inv (V(B := d)) fb N I"
  proof (rule alloc_same [OF a])
    show "slot (V(B := d)) (I m) l = slot V (I m) l" if "m \<in> N" for m l by (rule s [OF that])
    show "length (addrs (I m)) = NDIRECT + 1" if "m \<in> N" for m using a that by (simp add: alloc_inv_def)
    show "(V(B := d)) b = V b" if "fb \<le> b" for b
      using that a assms(2) by (auto simp: alloc_inv_def word_le_nat_alt)
  qed
  moreover have "file_holds (V(B := d)) (I n) (fc n)" if "n \<in> N" for n
    by (rule holds_other [OF h [OF that] s [OF that]]) (use ne [OF that] in auto)
  ultimately show ?thesis by (simp add: files_inv_def)
qed

lemma winode_ok:
  assumes "disk_ok m" "unat n < 208" "length (addrs i) = NDIRECT + 1"
  shows "\<exists>d. winode n i m = Ok (m\<lparr>img := (img m)(IBLOCK n mksb := d)\<rparr>)
    \<and> din_at (m\<lparr>img := (img m)(IBLOCK n mksb := d)\<rparr>) n
      = zero_din\<lparr>itype := itype i, major := major i, minor := minor i, nlink := nlink i, isize := isize i, addrs := addrs i\<rparr>
    \<and> (\<forall>l. l \<noteq> n \<longrightarrow> din_at (m\<lparr>img := (img m)(IBLOCK n mksb := d)\<rparr>) l = din_at m l)"
proof (intro exI conjI allI impI)
  let ?B = "IBLOCK n mksb" let ?d = "put_dinode i (dinode_off n) (img m ?B)"
  have b: "unat ?B < 1000" using IBLOCK_range [OF assms(2)] by simp
  show "winode n i m = Ok (m\<lparr>img := (img m)(?B := ?d)\<rparr>)"
    using rsect_ok [OF assms(1) b] wsect_ok [OF assms(1) b] by (simp add: winode_def)
  show "din_at (m\<lparr>img := (img m)(?B := ?d)\<rparr>) n
    = zero_din\<lparr>itype := itype i, major := major i, minor := minor i, nlink := nlink i, isize := isize i, addrs := addrs i\<rparr>"
    by (simp add: din_at_def get_put_dinode [OF assms(3)])
  fix l assume l: "l \<noteq> n"
  show "din_at (m\<lparr>img := (img m)(?B := ?d)\<rparr>) l = din_at m l"
  proof (cases "IBLOCK l mksb = ?B")
    case True
    have "put_dinode i (dinode_off n) (img m ?B) x = img m ?B x" if "dinode_off l \<le> x" "x < dinode_off l + 64" for x
      by (rule put_dinode_outside) (use assms(3) dinode_slots [OF True l] that in auto)
    then show ?thesis unfolding din_at_def mkst.simps True by (intro get_dinode_cong) simp
  next
    case False
    then show ?thesis by (simp add: din_at_def)
  qed
qed

lemma files_inv_cong:
  assumes "files_inv V fb N I fc" "\<And>n. n \<in> N \<Longrightarrow> addrs (J n) = addrs (I n)" "\<And>n. n \<in> N \<Longrightarrow> gc n = fc n"
  shows "files_inv V fb N J gc"
proof -
  have s: "slot V (J n) j = slot V (I n) j" if "n \<in> N" for n j using assms(2) [OF that] by (simp add: slot_def)
  have a: "alloc_inv V fb N I" and h: "\<And>n. n \<in> N \<Longrightarrow> file_holds V (I n) (fc n)" using assms(1) by (simp_all add: files_inv_def)
  have "alloc_inv V fb N J" by (rule alloc_same [OF a]) (use s assms(2) a in \<open>auto simp: alloc_inv_def\<close>)
  moreover have "file_holds V (J n) (gc n)" if "n \<in> N" for n
    using h [OF that] assms(3) [OF that] unfolding file_holds_def by (simp add: s [OF that])
  ultimately show ?thesis by (simp add: files_inv_def)
qed

lemma rinode_ok: "disk_ok m \<Longrightarrow> unat n < 208 \<Longrightarrow> rinode n m = Ok (din_at m n)"
  using IBLOCK_range [of n] by (simp add: rinode_def rsect_ok din_at_def)

lemma inums_small: "mk_inv m fc \<Longrightarrow> n \<in> inums m \<Longrightarrow> unat n < 208"
  by (simp add: mk_inv_def inums_def ninodeblocks_def NINODES_def IPB_def BSIZE_def word_less_nat_alt)

lemma iappend_spec:
  assumes "mk_inv m fc" "n \<in> inums m" "length p = unat cnt" "length (fc n) + length p \<le> MAXFILE * BSIZE"
    "unat (freeblock m) + blocks_for (length (fc n) + length p) \<le> unat FSSIZE + blocks_for (length (fc n))"
  shows "\<exists>m'. iappend n p cnt m = Ok m' \<and> mk_inv m' (fc(n := fc n @ p)) \<and> inums m' = inums m \<and> freeinode m' = freeinode m
    \<and> unat (freeblock m') + blocks_for (length (fc n)) = unat (freeblock m) + blocks_for (length (fc n) + length p)
    \<and> din_at m' n = (din_at m n)\<lparr>addrs := addrs (din_at m' n), isize := isize (din_at m' n)\<rparr>
    \<and> (\<forall>l. l \<noteq> n \<longrightarrow> unat l < 208 \<longrightarrow> din_at m' l = din_at m l)
    \<and> (\<forall>b. unat b < 32 \<longrightarrow> img m' b = img m b)"
proof -
  have i: "disk_ok m" "files_inv (img m) (freeblock m) (inums m) (din_at m) fc" "unat (isize (din_at m n)) = length (fc n)"
    using assms(1,2) by (simp_all add: mk_inv_def)
  have n: "unat n < 208" by (rule inums_small [OF assms(1,2)])
  have sz: "isize (din_at m n) = word_of_nat (length (fc n))" using i(3) by (simp flip: i(3))
  have b: "unat (freeblock m) + blocks_for (length (fc n) + length p) \<le> 1000 + blocks_for (length (fc n))" using assms(5) by (simp add: FSSIZE_def)
  from iappend_from_spec [OF i(1,2) assms(2) sz assms(3,4) le_refl b] obtain i' m1 where
    t: "iappend_from (unat cnt) p cnt (isize (din_at m n)) (din_at m n) m = Ok (word_of_nat (length (fc n) + length p), i', m1)"
      "same_meta m m1" "files_inv (img m1) (freeblock m1) (inums m) ((din_at m)(n := i')) (fc(n := fc n @ p))"
      "i' = (din_at m n)\<lparr>addrs := addrs i'\<rparr>"
      "unat (freeblock m1) + blocks_for (length (fc n)) = unat (freeblock m) + blocks_for (length (fc n) + length p)" by blast
  let ?B = "IBLOCK n mksb" let ?sz = "word_of_nat (length (fc n) + length p) :: u32"
  have d1: "disk_ok m1" by (rule same_meta_disk [OF t(2) i(1)])
  have len: "length (addrs i') = NDIRECT + 1" using t(3) assms(2) by (force simp: files_inv_def alloc_inv_def)
  then have len': "length (addrs (i'\<lparr>isize := ?sz\<rparr>)) = NDIRECT + 1" by simp
  from winode_ok [OF d1 n len'] obtain d where
    w: "winode n (i'\<lparr>isize := ?sz\<rparr>) m1 = Ok (m1\<lparr>img := (img m1)(?B := d)\<rparr>)"
      "din_at (m1\<lparr>img := (img m1)(?B := d)\<rparr>) n = zero_din\<lparr>itype := itype i', major := major i', minor := minor i',
         nlink := nlink i', isize := ?sz, addrs := addrs i'\<rparr>"
      "\<And>l. l \<noteq> n \<Longrightarrow> din_at (m1\<lparr>img := (img m1)(?B := d)\<rparr>) l = din_at m1 l" by auto
  let ?m = "m1\<lparr>img := (img m1)(?B := d)\<rparr>"
  have fi: "freeinode m1 = freeinode m" "\<And>b. unat b < 59 \<Longrightarrow> img m1 b = img m b" using t(2) by (simp_all add: same_meta_def)
  have oth: "din_at m1 l = din_at m l" if "unat l < 208" for l
    using fi(2) [of "IBLOCK l mksb"] IBLOCK_range [OF that] by (simp add: din_at_def)
  have in': "inums ?m = inums m" using fi by (simp add: inums_def)
  have sm: "unat l < 208" if "l \<in> inums m" for l by (rule inums_small [OF assms(1) that])
  have dn: "din_at ?m n = (din_at m n)\<lparr>addrs := addrs i', isize := ?sz\<rparr>"
    unfolding w(2) by (subst (1 2 3 4) t(4)) (simp add: din_at_def get_dinode_def)
  have f: "files_inv (img ?m) (freeblock ?m) (inums ?m) (din_at ?m) (fc(n := fc n @ p))"
  proof (rule files_inv_cong)
    show "files_inv (img ?m) (freeblock ?m) (inums ?m) ((din_at m)(n := i')) (fc(n := fc n @ p))"
      using files_meta [OF t(3), of ?B d] IBLOCK_range [OF n] in' by simp
    show "addrs (din_at ?m l) = addrs (((din_at m)(n := i')) l)" if "l \<in> inums ?m" for l
      using that w(2,3) oth [OF sm] in' by simp
  qed simp
  have usz: "unat ?sz = length (fc n) + length p"
    by (rule unat_of_nat_lt) (use assms(4) in \<open>simp add: MAXFILE_def NDIRECT_def NINDIRECT_def BSIZE_def\<close>)
  have szs: "unat (isize (din_at ?m l)) = length ((fc(n := fc n @ p)) l)" if "l \<in> inums ?m" for l
    using that in' w(2) w(3) [of l] oth [OF sm] usz assms(1) by (cases "l = n") (simp_all add: mk_inv_def)
  have inv: "mk_inv ?m (fc(n := fc n @ p))"
    using d1 f szs assms(1) fi by (simp add: mk_inv_def disk_ok_def)
  have "iappend n p cnt m = Ok ?m"
    using rinode_ok [OF i(1) n] t(1) w(1) by (simp add: iappend_def del: of_nat_add)
  then show ?thesis
  proof (intro exI [of _ ?m] conjI)
    show "\<forall>l. l \<noteq> n \<longrightarrow> unat l < 208 \<longrightarrow> din_at ?m l = din_at m l" using w(3) oth by simp
    show "\<forall>b. unat b < 32 \<longrightarrow> img ?m b = img m b" using IBLOCK_range [OF n] fi(2) by auto
    show "din_at ?m n = (din_at m n)\<lparr>addrs := addrs (din_at ?m n), isize := isize (din_at ?m n)\<rparr>" unfolding dn by simp
  qed (use inv in' fi t(5) in simp_all)
qed

subsection \<open>Building the image\<close>

text \<open>The attributes that survive appending, and the blocks before the inodes.\<close>

definition attrs :: "mkst \<Rightarrow> u32 \<Rightarrow> u16 \<times> u16" where
  "attrs m n = (itype (din_at m n), nlink (din_at m n))"

definition grows :: "mkst \<Rightarrow> mkst \<Rightarrow> bool" where
  "grows m m' \<longleftrightarrow> (\<forall>l. l \<noteq> 0 \<longrightarrow> l < freeinode m \<longrightarrow> attrs m' l = attrs m l)
     \<and> (\<forall>b. unat b < 32 \<longrightarrow> img m' b = img m b) \<and> freeinode m \<le> freeinode m'"

lemma grows_refl [simp]: "grows m m" by (simp add: grows_def)

lemma grows_trans [trans]: "grows m m1 \<Longrightarrow> grows m1 m2 \<Longrightarrow> grows m m2"
  by (auto simp: grows_def)

lemma iappend_grows:
  assumes "mk_inv m fc" "n \<in> inums m" "length p = unat cnt" "length (fc n) + length p \<le> MAXFILE * BSIZE"
    "unat (freeblock m) + blocks_for (length (fc n) + length p) \<le> unat FSSIZE + blocks_for (length (fc n))"
  shows "\<exists>m'. iappend n p cnt m = Ok m' \<and> mk_inv m' (fc(n := fc n @ p)) \<and> inums m' = inums m \<and> freeinode m' = freeinode m
    \<and> unat (freeblock m') + blocks_for (length (fc n)) = unat (freeblock m) + blocks_for (length (fc n) + length p) \<and> grows m m'"
proof -
  from iappend_spec [OF assms] obtain m' where
    t: "iappend n p cnt m = Ok m'" "mk_inv m' (fc(n := fc n @ p))" "inums m' = inums m" "freeinode m' = freeinode m"
    "unat (freeblock m') + blocks_for (length (fc n)) = unat (freeblock m) + blocks_for (length (fc n) + length p)"
    "din_at m' n = (din_at m n)\<lparr>addrs := addrs (din_at m' n), isize := isize (din_at m' n)\<rparr>"
    "\<forall>l. l \<noteq> n \<longrightarrow> unat l < 208 \<longrightarrow> din_at m' l = din_at m l" "\<forall>b. unat b < 32 \<longrightarrow> img m' b = img m b" by blast
  have "attrs m' l = attrs m l" if "l \<noteq> 0" "l < freeinode m" for l
  proof (cases "l = n")
    case True
    have "itype (din_at m' n) = itype (din_at m n)" by (subst t(6)) simp
    moreover have "nlink (din_at m' n) = nlink (din_at m n)" by (subst t(6)) simp
    ultimately show ?thesis using True by (simp add: attrs_def)
  next
    case False
    have "unat l < 208" using inums_small [OF assms(1), of l] that by (simp add: inums_def)
    then show ?thesis using t(7) False by (simp add: attrs_def)
  qed
  then have "grows m m'" using t(4,8) by (simp add: grows_def)
  then show ?thesis using t(1-5) by blast
qed

lemma blocks_for_0 [simp]: "blocks_for 0 = 0" by (simp add: blocks_for_def BSIZE_def)

lemma append_reads_spec:
  assumes "mk_inv m fc" "n \<in> inums m" "\<forall>b \<in> set bs. b \<noteq> [] \<and> length b \<le> BSIZE"
    "length (fc n) + length (concat bs) \<le> MAXFILE * BSIZE"
    "unat (freeblock m) + blocks_for (length (fc n) + length (concat bs)) \<le> unat FSSIZE + blocks_for (length (fc n))"
  shows "\<exists>m'. append_reads n bs m = Ok m' \<and> mk_inv m' (fc(n := fc n @ concat bs)) \<and> freeinode m' = freeinode m
    \<and> unat (freeblock m') + blocks_for (length (fc n)) = unat (freeblock m) + blocks_for (length (fc n) + length (concat bs)) \<and> grows m m'"
  using assms
proof (induction bs arbitrary: m fc)
  case (Cons b bs)
  let ?l = "length (fc n)"
  have b: "b \<noteq> []" "length b = unat (word_of_nat (length b) :: u32)" "?l + length b \<le> MAXFILE * BSIZE"
    using Cons.prems(3,4) by (simp_all add: unat_of_nat_lt BSIZE_def)
  have "blocks_for (?l + length b) \<le> blocks_for (?l + length (concat (b # bs)))" by (rule blocks_for_mono) simp
  then have "unat (freeblock m) + blocks_for (?l + length b) \<le> unat FSSIZE + blocks_for ?l" using Cons.prems(5) by linarith
  from iappend_grows [OF Cons.prems(1,2) b(2,3) this] obtain m1 where
    t: "iappend n b (word_of_nat (length b)) m = Ok m1" "mk_inv m1 (fc(n := fc n @ b))" "inums m1 = inums m" "freeinode m1 = freeinode m"
      "unat (freeblock m1) + blocks_for ?l = unat (freeblock m) + blocks_for (?l + length b)" "grows m m1" by blast
  let ?fc = "fc(n := fc n @ b)"
  have "\<exists>m'. append_reads n bs m1 = Ok m' \<and> mk_inv m' (?fc(n := ?fc n @ concat bs)) \<and> freeinode m' = freeinode m1
    \<and> unat (freeblock m') + blocks_for (length (?fc n)) = unat (freeblock m1) + blocks_for (length (?fc n) + length (concat bs)) \<and> grows m1 m'"
    by (rule Cons.IH [OF t(2)]) (use Cons.prems(2-5) t(3,5) in \<open>simp_all add: add.assoc\<close>)
  then obtain m' where "append_reads n bs m1 = Ok m'" "mk_inv m' (fc(n := fc n @ b @ concat bs))" "freeinode m' = freeinode m1"
    "unat (freeblock m') + blocks_for (?l + length b) = unat (freeblock m1) + blocks_for (?l + (length b + length (concat bs)))" "grows m1 m'"
    by (auto simp: add.assoc)
  then show ?case using t b(1) grows_trans [OF t(6)] by (intro exI [of _ m']) (simp add: fun_upd_def)
qed simp

lemma mk_ialloc_spec:
  assumes "mk_inv m fc" "unat (freeinode m) < 208" "freeinode m \<noteq> 0"
  defines "n \<equiv> freeinode m"
  shows "\<exists>m'. mk_ialloc typ m = Ok (n, m') \<and> mk_inv m' (fc(n := [])) \<and> inums m' = insert n (inums m) \<and> freeinode m' = n + 1
    \<and> freeblock m' = freeblock m \<and> attrs m' n = (typ, 1) \<and> grows m m'"
proof -
  let ?m = "m\<lparr>freeinode := n + 1\<rparr>" let ?i = "zero_din\<lparr>itype := typ, nlink := 1, isize := 0\<rparr>" let ?B = "IBLOCK n mksb"
  have i: "disk_ok m" "files_inv (img m) (freeblock m) (inums m) (din_at m) fc" using assms(1) by (simp_all add: mk_inv_def)
  have d: "disk_ok ?m" "length (addrs ?i) = NDIRECT + 1" using i(1) by (simp_all add: disk_ok_def zero_din_def)
  from winode_ok [OF d(1) _ d(2), of n] assms(2) obtain d where
    w: "winode n ?i ?m = Ok (?m\<lparr>img := (img ?m)(?B := d)\<rparr>)"
      "din_at (?m\<lparr>img := (img ?m)(?B := d)\<rparr>) n = ?i"
      "\<And>l. l \<noteq> n \<Longrightarrow> din_at (?m\<lparr>img := (img ?m)(?B := d)\<rparr>) l = din_at ?m l"
    by (auto simp: n_def zero_din_def)
  define m' where "m' = ?m\<lparr>img := (img ?m)(?B := d)\<rparr>"
  note w = w [folded m'_def]
  have m': "img m' = (img m)(?B := d)" "freeblock m' = freeblock m" "freeinode m' = n + 1" "disk_ok m'"
    using d(1) by (simp_all add: m'_def disk_ok_def)
  have n1: "unat (n + 1) = unat n + 1" using assms(2) by (simp add: n_def unat_add_lt)
  have ins: "inums m' = insert n (inums m)"
    using assms(3) n1 m'(3) by (auto simp: inums_def n_def word_less_nat_alt less_Suc_eq)
  have nin: "n \<notin> inums m" by (simp add: inums_def n_def)
  have dm: "din_at ?m l = din_at m l" for l by (simp add: din_at_def)
  have mt: "unat ?B < 59" "32 \<le> unat ?B" using IBLOCK_range [of n] assms(2) by (simp_all add: n_def)
  have f: "files_inv (img m') (freeblock m) (inums m) (din_at m') fc"
  proof (rule files_inv_cong)
    show "files_inv (img m') (freeblock m) (inums m) (din_at m) fc" using files_meta [OF i(2) mt(1), of d] m'(1) by simp
    show "addrs (din_at m' l) = addrs (din_at m l)" if "l \<in> inums m" for l using that nin w(3) [of l] dm by metis
  qed simp
  have az: "addrs ?i ! q = 0" if "q \<le> NDIRECT" for q
    using nth_replicate [of q "NDIRECT + 1" "0 :: u32"] that by (simp add: zero_din_def del: replicate.simps)
  have z: "slot V ?i j = 0" if "j \<le> MAXFILE" for V j
    using that az [of j] az [of NDIRECT] unfolding slot_def by simp
  have sl: "slots (inums m') V (din_at m') = slots (inums m) V (din_at m')" for V
    using z w(2) unfolding slots_def ins by auto
  have "alloc_inv (img m') (freeblock m) (inums m') (din_at m')"
    using f d(2) w(2) unfolding files_inv_def alloc_inv_def sl by (simp add: ins)
  moreover have "file_holds (img m') (din_at m' n) []" unfolding w(2) file_holds_def using z by simp
  then have "\<forall>l \<in> inums m'. file_holds (img m') (din_at m' l) ((fc(n := [])) l)"
    using f nin unfolding files_inv_def ins by auto
  ultimately have fi: "files_inv (img m') (freeblock m') (inums m') (din_at m') (fc(n := []))" using m'(2) by (simp add: files_inv_def)
  have "\<forall>l \<in> inums m'. unat (isize (din_at m' l)) = length ((fc(n := [])) l)"
    using assms(1) nin w(2,3) dm unfolding ins by (auto simp: mk_inv_def)
  then have inv: "mk_inv m' (fc(n := []))"
    using fi m' n1 assms(2) by (simp add: mk_inv_def n_def ninodeblocks_def NINODES_def IPB_def BSIZE_def)
  have "attrs m' l = attrs m l" if "l < freeinode m" for l
    using w(3) [of l] dm that by (auto simp: attrs_def n_def)
  then have g: "grows m m'" using mt(2) n1 m' by (auto simp: grows_def n_def word_le_nat_alt)
  have "mk_ialloc typ m = Ok (n, m')" using w(1) by (simp add: mk_ialloc_def Let_def n_def)
  then show ?thesis using inv ins g w(2) m' by (intro exI [of _ m']) (simp add: attrs_def)
qed


definition contents :: "(cstring \<Rightarrow> u8 list list option) \<Rightarrow> cstring \<Rightarrow> u8 list" where
  "contents hopen a = (case hopen a of None \<Rightarrow> [] | Some bs \<Rightarrow> concat bs)"

text \<open>A file that \<open>mkfs\<close> can add: its name has no slash and its bytes fit in one inode.\<close>

definition file_arg :: "(cstring \<Rightarrow> u8 list list option) \<Rightarrow> cstring \<Rightarrow> bool" where
  "file_arg hopen a \<longleftrightarrow> SLASH \<notin> set a \<and> hopen a \<noteq> None \<and> (\<forall>b \<in> set (the (hopen a)). b \<noteq> [] \<and> length b \<le> BSIZE)
     \<and> length (contents hopen a) \<le> MAXFILE * BSIZE"

lemma length_mk_dirent: "length (mk_dirent name n) = 16"
  by (simp add: mk_dirent_def bytes_at_def DIRSIZ_def)

lemma mk_dirent_ucast: "mk_dirent name (ucast (xshort (ucast n))) = mk_dirent name n"
proof -
  have "(ucast (ucast (ucast n :: u16) :: u32) :: u16) = ucast n" by (rule bit_word_eqI) (simp add: bit_simps)
  then show ?thesis by (simp add: mk_dirent_def)
qed

lemma add_file_spec:
  assumes "mk_inv m fc" "ROOTINO \<in> inums m" "unat (freeinode m) < 208" "file_arg hopen a"
    "length (fc ROOTINO) + 16 \<le> MAXFILE * BSIZE"
    "unat (freeblock m) + blocks_for (length (fc ROOTINO) + 16) + blocks_for (length (contents hopen a)) \<le> unat FSSIZE + blocks_for (length (fc ROOTINO))"
  defines "n \<equiv> freeinode m"
  shows "\<exists>m'. add_file hopen a m = Ok m' \<and> mk_inv m' (fc(ROOTINO := fc ROOTINO @ mk_dirent (mk_name a) n, n := contents hopen a))
    \<and> freeinode m' = n + 1 \<and> attrs m' n = (T_FILE, 1) \<and> grows m m'
    \<and> unat (freeblock m') + blocks_for (length (fc ROOTINO)) = unat (freeblock m) + blocks_for (length (fc ROOTINO) + 16) + blocks_for (length (contents hopen a))"
proof -
  obtain bs where bs: "hopen a = Some bs" "\<forall>b \<in> set bs. b \<noteq> [] \<and> length b \<le> BSIZE" "contents hopen a = concat bs"
    using assms(4) by (auto simp: file_arg_def contents_def)
  have n0: "freeinode m \<noteq> 0" "n \<noteq> ROOTINO" using assms(2) by (auto simp: inums_def n_def word_less_nat_alt)
  from mk_ialloc_spec [OF assms(1,3) n0(1), of T_FILE, folded n_def] obtain m1 where
    t: "mk_ialloc T_FILE m = Ok (n, m1)" "mk_inv m1 (fc(n := []))" "inums m1 = insert n (inums m)" "freeinode m1 = n + 1"
      "freeblock m1 = freeblock m" "attrs m1 n = (T_FILE, 1)" "grows m m1" by blast
  let ?de = "mk_dirent (mk_name a) n" let ?fc1 = "fc(n := [])" let ?fc2 = "?fc1(ROOTINO := fc ROOTINO @ ?de)"
  have r1: "ROOTINO \<in> inums m1" "length ?de = unat (16 :: u32)" "length (?fc1 ROOTINO) + length ?de \<le> MAXFILE * BSIZE"
    "unat (freeblock m1) + blocks_for (length (?fc1 ROOTINO) + length ?de) \<le> unat FSSIZE + blocks_for (length (?fc1 ROOTINO))"
    using assms(2,5,6) t(3,5) n0(2) by (simp_all add: length_mk_dirent)
  have e1: "?fc1 ROOTINO = fc ROOTINO" using n0(2) by simp
  from iappend_grows [OF t(2) r1, unfolded e1 length_mk_dirent] obtain m2 where
    u: "iappend ROOTINO ?de 16 m1 = Ok m2" "mk_inv m2 ?fc2" "inums m2 = inums m1" "freeinode m2 = freeinode m1"
      "unat (freeblock m2) + blocks_for (length (fc ROOTINO)) = unat (freeblock m) + blocks_for (length (fc ROOTINO) + 16)" "grows m1 m2"
    unfolding t(5) by blast
  have f2: "?fc2 n = []" using n0(2) by simp
  have r2: "n \<in> inums m2" "length (?fc2 n) + length (concat bs) \<le> MAXFILE * BSIZE"
    "unat (freeblock m2) + blocks_for (length (?fc2 n) + length (concat bs)) \<le> unat FSSIZE + blocks_for (length (?fc2 n))"
    unfolding f2 using u(3,5) t(3) assms(4,6) bs(3) by (simp_all add: file_arg_def)
  from append_reads_spec [OF u(2) r2(1) bs(2) r2(2,3), unfolded f2 append_Nil list.size(3) add_0 blocks_for_0 add_0_right] obtain m3 where
    v: "append_reads n bs m2 = Ok m3" "mk_inv m3 (?fc2(n := concat bs))" "freeinode m3 = freeinode m2"
      "unat (freeblock m3) = unat (freeblock m2) + blocks_for (length (concat bs))" "grows m2 m3" by blast
  have "attrs m3 n = attrs m1 n"
  proof -
    have "n \<noteq> 0" "n < freeinode m1" using n0(1) t(4) assms(3) by (auto simp: n_def word_less_nat_alt unat_add_lt)
    then show ?thesis using grows_trans [OF u(6) v(5)] by (simp add: grows_def)
  qed
  moreover have "fc(ROOTINO := fc ROOTINO @ ?de, n := contents hopen a) = ?fc2(n := concat bs)"
    using n0(2) bs(3) by auto
  moreover have "add_file hopen a m = Ok m3"
    using assms(4) bs(1) t(1) u(1) v(1) mk_dirent_ucast [of "mk_name a" n] by (simp add: add_file_def file_arg_def)
  ultimately show ?thesis
    using t(6) u(4) v(2-4) t(4) u(5) bs(3) grows_trans [OF t(7) grows_trans [OF u(6) v(5)]] by (intro exI [of _ m3]) simp
qed

fun mk_files :: "(cstring \<Rightarrow> u8 list list option) \<Rightarrow> cstring list \<Rightarrow> u32 \<Rightarrow> (u32 \<Rightarrow> u8 list) \<Rightarrow> u32 \<Rightarrow> u8 list" where
  "mk_files hopen [] n fc = fc"
| "mk_files hopen (a # as) n fc =
     mk_files hopen as (n + 1) (fc(ROOTINO := fc ROOTINO @ mk_dirent (mk_name a) n, n := contents hopen a))"

definition data_need :: "(cstring \<Rightarrow> u8 list list option) \<Rightarrow> cstring list \<Rightarrow> nat" where
  "data_need hopen as = sum_list (map (\<lambda>a. blocks_for (length (contents hopen a))) as)"

lemma add_files_spec:
  assumes "mk_inv m fc" "ROOTINO \<in> inums m" "unat (freeinode m) + length as \<le> 208" "\<forall>a \<in> set as. file_arg hopen a"
    "length (fc ROOTINO) + 16 * length as \<le> MAXFILE * BSIZE"
    "unat (freeblock m) + blocks_for (length (fc ROOTINO) + 16 * length as) + data_need hopen as \<le> unat FSSIZE + blocks_for (length (fc ROOTINO))"
  shows "\<exists>m'. add_files hopen as m = Ok m' \<and> mk_inv m' (mk_files hopen as (freeinode m) fc)
    \<and> unat (freeinode m') = unat (freeinode m) + length as \<and> grows m m'
    \<and> (\<forall>l. freeinode m \<le> l \<longrightarrow> l < freeinode m' \<longrightarrow> attrs m' l = (T_FILE, 1))"
  using assms
proof (induction as arbitrary: m fc)
  case (Cons a as)
  let ?l = "length (fc ROOTINO)" let ?n = "freeinode m"
  let ?fc = "fc(ROOTINO := fc ROOTINO @ mk_dirent (mk_name a) ?n, ?n := contents hopen a)"
  have "blocks_for (?l + 16) \<le> blocks_for (?l + 16 * length (a # as))" by (rule blocks_for_mono) simp
  then have r: "unat ?n < 208" "file_arg hopen a" "?l + 16 \<le> MAXFILE * BSIZE"
    "unat (freeblock m) + blocks_for (?l + 16) + blocks_for (length (contents hopen a)) \<le> unat FSSIZE + blocks_for ?l"
    using Cons.prems(3-6) by (simp_all add: data_need_def)
  from add_file_spec [OF Cons.prems(1,2) r] obtain m1 where
    t: "add_file hopen a m = Ok m1" "mk_inv m1 ?fc" "freeinode m1 = ?n + 1" "attrs m1 ?n = (T_FILE, 1)" "grows m m1"
      "unat (freeblock m1) + blocks_for ?l = unat (freeblock m) + blocks_for (?l + 16) + blocks_for (length (contents hopen a))" by blast
  have n: "?n \<noteq> 0" "?n \<noteq> ROOTINO" using Cons.prems(2) by (auto simp: inums_def word_less_nat_alt)
  have n1: "unat (?n + 1) = unat ?n + 1" using r(1) by (simp add: unat_add_lt)
  have f1: "length (?fc ROOTINO) = ?l + 16" using n(2) by (simp add: length_mk_dirent)
  have "\<exists>m'. add_files hopen as m1 = Ok m' \<and> mk_inv m' (mk_files hopen as (freeinode m1) ?fc)
    \<and> unat (freeinode m') = unat (freeinode m1) + length as \<and> grows m1 m'
    \<and> (\<forall>l. freeinode m1 \<le> l \<longrightarrow> l < freeinode m' \<longrightarrow> attrs m' l = (T_FILE, 1))"
  proof (rule Cons.IH [OF t(2)])
    show "ROOTINO \<in> inums m1" using Cons.prems(2) n1 by (auto simp: inums_def t(3) word_less_nat_alt)
    show "unat (freeblock m1) + blocks_for (length (?fc ROOTINO) + 16 * length as) + data_need hopen as \<le> unat FSSIZE + blocks_for (length (?fc ROOTINO))"
      using Cons.prems(6) t(6) unfolding f1 by (simp add: data_need_def add.assoc)
    show "length (?fc ROOTINO) + 16 * length as \<le> MAXFILE * BSIZE" using Cons.prems(5) unfolding f1 by simp
  qed (use Cons.prems(3,4) n1 t(3) in simp_all)
  then obtain m' where u: "add_files hopen as m1 = Ok m'" "mk_inv m' (mk_files hopen as (?n + 1) ?fc)"
    "unat (freeinode m') = unat ?n + 1 + length as" "grows m1 m'"
    "\<And>l. ?n + 1 \<le> l \<Longrightarrow> l < freeinode m' \<Longrightarrow> attrs m' l = (T_FILE, 1)" unfolding t(3) n1 by blast
  have "attrs m' l = (T_FILE, 1)" if "?n \<le> l" "l < freeinode m'" for l
  proof (cases "l = ?n")
    case True
    have "?n < freeinode m1" using n1 by (simp add: t(3) word_less_nat_alt)
    then show ?thesis using True n(1) u(4) t(4) by (simp add: grows_def)
  next
    case False
    then have "?n < l" using that(1) by (rule le_neq_trans [OF _ not_sym, rotated])
    then have "?n + 1 \<le> l" using n1 by (simp add: word_less_nat_alt word_le_nat_alt)
    then show ?thesis using u(5) that(2) by blast
  qed
  then show ?case using t(1) u(1-3) grows_trans [OF t(5) u(4)] by (intro exI [of _ m']) simp
qed (auto dest: leD)

lemma wsect_zeroes_ok:
  "img m = (\<lambda>_ _. 0) \<Longrightarrow> isects m = i \<Longrightarrow> i + k \<le> 1000 \<Longrightarrow> i + k \<le> icap m \<Longrightarrow> wsect_zeroes k i m = Ok (m\<lparr>isects := i + k\<rparr>)"
proof (induction k arbitrary: i m)
  case (Suc k)
  have i: "unat (word_of_nat i :: u32) = i" using Suc.prems(3) by (intro unat_of_nat_lt) simp
  then have "sect_at (word_of_nat i) = word_of_nat i" using Suc.prems(3) by (intro sect_at_small) simp
  then have "wsect (word_of_nat i) (\<lambda>_. 0) m = Ok (m\<lparr>isects := Suc i\<rparr>)"
    using Suc.prems i by (cases m) (simp add: wsect_def fun_eq_iff)
  then show ?case using Suc.IH [of "m\<lparr>isects := Suc i\<rparr>" "Suc i"] Suc.prems by simp
qed simp

lemma sb_of_put: "sb_of (put_sb sb d) = sb"
  by (cases sb) (simp add: sb_of_def put_sb_def rd32_wr32_other)

definition root_start :: "u8 list" where
  "root_start = mk_dirent (ascii ''.'') ROOTINO @ mk_dirent (ascii ''..'') ROOTINO"

lemma mk_start_spec:
  assumes "unat FSSIZE \<le> cap"
  shows "\<exists>m. mk_start cap = Ok m \<and> mk_inv m ((\<lambda>_. [])(ROOTINO := root_start)) \<and> freeinode m = 2 \<and> unat (freeblock m) = 60
    \<and> attrs m ROOTINO = (T_DIR, 1) \<and> sb_of (img m 1) = mksb \<and> (\<forall>b. unat b < 32 \<longrightarrow> b \<noteq> 1 \<longrightarrow> img m b = (\<lambda>_. 0))"
proof -
  let ?m0 = "\<lparr>img = \<lambda>_ _. 0, isects = 0, icap = cap, freeinode = 1, freeblock = word_of_nat nmeta\<rparr>"
  let ?m1 = "?m0\<lparr>isects := 1000\<rparr>"
  have z: "wsect_zeroes (unat FSSIZE) 0 ?m0 = Ok ?m1"
    using wsect_zeroes_ok [of ?m0 0 1000] assms by (simp add: FSSIZE_def)
  have d1: "disk_ok ?m1" using assms by (simp add: disk_ok_def FSSIZE_def)
  define m2 where "m2 = ?m1\<lparr>img := (\<lambda>_ _. 0)(1 := put_sb mksb (\<lambda>_. 0))\<rparr>"
  have w: "wsect 1 (put_sb mksb (\<lambda>_. 0)) ?m1 = Ok m2" using wsect_ok [OF d1, of 1] by (simp add: m2_def)
  have e: "inums m2 = {}" "freeinode m2 = 1" "freeblock m2 = 59" "disk_ok m2"
    using d1 by (simp_all add: m2_def inums_def disk_ok_def)
  have "alloc_inv (img m2) (freeblock m2) (inums m2) (din_at m2)"
    unfolding e by (auto simp: alloc_inv_def FSSIZE_def slots_def bij_betw_def m2_def word_le_nat_alt)
  then have "mk_inv m2 (\<lambda>_. [])" using e by (simp add: mk_inv_def files_inv_def ninodeblocks_def NINODES_def IPB_def BSIZE_def)
  have fe: "((\<lambda>_. [])(1 := [])) = (\<lambda>_ :: u32. [] :: u8 list)" by auto
  from mk_ialloc_spec [OF \<open>mk_inv m2 (\<lambda>_. [])\<close>, of T_DIR, unfolded e(2) fe] e obtain m3 where
    t: "mk_ialloc T_DIR m2 = Ok (1, m3)" "mk_inv m3 (\<lambda>_. [])" "inums m3 = {1}" "freeinode m3 = 2" "freeblock m3 = 59"
      "attrs m3 1 = (T_DIR, 1)" "grows m2 m3" by auto
  have n16: "blocks_for 16 = 1" "blocks_for 32 = 1" by (simp_all add: blocks_for_def BSIZE_def NDIRECT_def)
  have mx: "MAXFILE * BSIZE = 71680" by (simp add: MAXFILE_def NDIRECT_def NINDIRECT_def BSIZE_def)
  let ?d1 = "mk_dirent (ascii ''.'') 1" and ?d2 = "mk_dirent (ascii ''..'') 1"
  have "\<exists>m'. iappend 1 ?d1 16 m3 = Ok m' \<and> mk_inv m' ((\<lambda>_. [])(1 := [] @ ?d1)) \<and> inums m' = inums m3 \<and> freeinode m' = freeinode m3
    \<and> unat (freeblock m') + blocks_for (length ([] :: u8 list)) = unat (freeblock m3) + blocks_for (length ([] :: u8 list) + length ?d1) \<and> grows m3 m'"
    by (rule iappend_grows [OF t(2)]) (simp_all add: t(3,5) length_mk_dirent mx n16 FSSIZE_def)
  then obtain m4 where u: "iappend 1 ?d1 16 m3 = Ok m4" "mk_inv m4 ((\<lambda>_. [])(1 := ?d1))" "inums m4 = {1}" "freeinode m4 = 2"
    "unat (freeblock m4) = 60" "grows m3 m4" using t(3-5) by (auto simp: length_mk_dirent n16)
  let ?fc = "((\<lambda>_. [])(1 := ?d1)) :: u32 \<Rightarrow> u8 list"
  have "\<exists>m'. iappend 1 ?d2 16 m4 = Ok m' \<and> mk_inv m' (?fc(1 := ?fc 1 @ ?d2)) \<and> inums m' = inums m4 \<and> freeinode m' = freeinode m4
    \<and> unat (freeblock m') + blocks_for (length (?fc 1)) = unat (freeblock m4) + blocks_for (length (?fc 1) + length ?d2) \<and> grows m4 m'"
    by (rule iappend_grows [OF u(2)]) (simp_all add: u(3,5) length_mk_dirent mx n16 FSSIZE_def)
  then obtain m5 where v: "iappend 1 ?d2 16 m4 = Ok m5" "mk_inv m5 ((\<lambda>_. [])(1 := ?d1 @ ?d2))" "freeinode m5 = 2"
    "unat (freeblock m5) = 60" "grows m4 m5" using u(3-5) by (auto simp: length_mk_dirent n16)
  have g: "grows m2 m5" "grows m3 m5" using grows_trans [OF t(7) grows_trans [OF u(6) v(5)]] grows_trans [OF u(6) v(5)] by simp_all
  have b: "img m5 b = img m2 b" if "unat b < 32" for b using g(1) that by (simp add: grows_def)
  have at: "attrs m5 1 = (T_DIR, 1)" using g(2) t(4,6) by (simp add: grows_def word_less_nat_alt)
  have sb: "sb_of (img m5 1) = mksb" using b [of 1] by (simp add: m2_def sb_of_put)
  have zb: "\<forall>b. unat b < 32 \<longrightarrow> b \<noteq> 1 \<longrightarrow> img m5 b = (\<lambda>_. 0)" using b by (simp add: m2_def)
  have de: "mk_dirent name (ucast (ucast (1 :: u32) :: u16)) = mk_dirent name 1" for name by simp
  have "mk_start cap = Ok m5"
    unfolding mk_start_def z using w t(1) u(1) v(1) by (simp add: ROOTINO_def de)
  then show ?thesis using v(2-4) at sb zb by (intro exI [of _ m5]) (simp add: ROOTINO_def root_start_def)
qed

lemma fold_bit_set: "bit_used (fold (\<lambda>i d. bit_set d i) is d) j \<longleftrightarrow> j \<in> set is \<or> bit_used d j"
  by (induction "is" arbitrary: d) auto

lemma mk_finish_spec:
  assumes "mk_inv m fc" "ROOTINO \<in> inums m" "length (fc ROOTINO) + BSIZE \<le> MAXFILE * BSIZE"
  shows "\<exists>m'. mk_finish m = Ok m' \<and> disk_ok m' \<and> files_inv (img m') (freeblock m) (inums m) (din_at m') fc
    \<and> (\<forall>l \<in> inums m. unat (isize (din_at m' l)) = (if l = ROOTINO then (length (fc l) div BSIZE + 1) * BSIZE else length (fc l)))
    \<and> (\<forall>l \<in> inums m. attrs m' l = attrs m l) \<and> (\<forall>b. unat b < 32 \<longrightarrow> img m' b = img m b)
    \<and> (\<forall>j. bit_used (img m' (sb_bmapstart mksb)) j \<longleftrightarrow> j < unat (freeblock m)) \<and> inums m' = inums m"
proof -
  let ?n = "length (fc ROOTINO)" let ?d = "din_at m ROOTINO"
  have i: "disk_ok m" "files_inv (img m) (freeblock m) (inums m) (din_at m) fc" "unat (isize ?d) = ?n"
    using assms(1,2) by (simp_all add: mk_inv_def)
  have r: "unat ROOTINO < 208" by (simp add: ROOTINO_def)
  define off where "off = (isize ?d div word_of_nat BSIZE + 1) * word_of_nat BSIZE"
  have uoff: "unat off = (?n div BSIZE + 1) * BSIZE"
  proof -
    have q: "unat (isize ?d div 512) = ?n div 512" by (simp only: unat_div i(3)) simp
    have nn: "?n div 512 < 140" using assms(3) by (simp add: MAXFILE_def NDIRECT_def NINDIRECT_def BSIZE_def less_mult_imp_div_less)
    then have p: "unat (isize ?d div 512 + 1) = ?n div 512 + 1" using unat_add_lt [of "isize ?d div 512" 1] q by simp
    have "unat (isize ?d div 512 + 1) * unat (512 :: u32) < 2 ^ LENGTH(32)" unfolding p using nn by simp
    then have "unat ((isize ?d div 512 + 1) * 512) = unat (isize ?d div 512 + 1) * unat (512 :: u32)" by (simp only: unat_mult_lem)
    then show ?thesis unfolding off_def p by (simp add: BSIZE_def)
  qed
  let ?i = "?d\<lparr>isize := off\<rparr>"
  have len: "length (addrs ?i) = NDIRECT + 1" using i(2) assms(2) by (simp add: files_inv_def alloc_inv_def)
  from winode_ok [OF i(1) r len] obtain d where
    w: "winode ROOTINO ?i m = Ok (m\<lparr>img := (img m)(IBLOCK ROOTINO mksb := d)\<rparr>)"
      "din_at (m\<lparr>img := (img m)(IBLOCK ROOTINO mksb := d)\<rparr>) ROOTINO = ?i"
      "\<And>l. l \<noteq> ROOTINO \<Longrightarrow> din_at (m\<lparr>img := (img m)(IBLOCK ROOTINO mksb := d)\<rparr>) l = din_at m l"
    by (auto simp: din_at_def get_dinode_def)
  define m1 where "m1 = m\<lparr>img := (img m)(IBLOCK ROOTINO mksb := d)\<rparr>"
  note w = w [folded m1_def]
  have d1: "disk_ok m1" "freeblock m1 = freeblock m" using i(1) by (simp_all add: m1_def disk_ok_def)
  have fb: "unat (freeblock m) \<le> 1000" using i(2) by (simp add: files_inv_def alloc_inv_def FSSIZE_def)
  then have sfb: "sint (freeblock m) = int (unat (freeblock m))" by (intro sint_eq_unat) simp
  let ?bm = "fold (\<lambda>i d. bit_set d i) [0..<unat (freeblock m)] (\<lambda>_. 0)"
  define m2 where "m2 = m1\<lparr>img := (img m1)(58 := ?bm)\<rparr>"
  have nb: "\<not> int (BSIZE * 8) \<le> sint (freeblock m)" "nat (sint (freeblock m)) = unat (freeblock m)"
    unfolding sfb of_nat_le_iff using fb by (simp_all add: BSIZE_def)
  have bal: "mk_balloc (freeblock m1) m1 = Ok m2"
    using wsect_ok [OF d1(1), of 58 ?bm] nb unfolding mk_balloc_def d1(2) by (simp add: mksb_eq m2_def)
  have fin: "mk_finish m = Ok m2"
    using rinode_ok [OF i(1) r] w(1) bal by (simp add: mk_finish_def Let_def off_def)
  have I: "unat (IBLOCK ROOTINO mksb) < 58" "32 \<le> unat (IBLOCK ROOTINO mksb)" using IBLOCK_range [OF r] by simp_all
  have din2: "din_at m2 l = din_at m1 l" if "unat l < 208" for l
  proof -
    have "IBLOCK l mksb \<noteq> 58" using IBLOCK_range(2) [OF that] by auto
    then show ?thesis by (simp add: din_at_def m2_def)
  qed
  have din: "din_at m2 l = (if l = ROOTINO then ?i else din_at m l)" if "l \<in> inums m" for l
    using din2 [OF inums_small [OF assms(1) that]] w(2,3) by simp
  have "files_inv (img m2) (freeblock m) (inums m) (din_at m) fc"
    using files_meta [OF files_meta [OF i(2), of "IBLOCK ROOTINO mksb" d], of 58 ?bm] I by (simp add: m2_def m1_def)
  then have f: "files_inv (img m2) (freeblock m) (inums m) (din_at m2) fc"
    by (rule files_inv_cong) (simp_all add: din)
  have bm: "bit_used (img m2 (sb_bmapstart mksb)) j \<longleftrightarrow> j < unat (freeblock m)" for j
    by (simp add: mksb_eq m2_def fold_bit_set) (simp add: bit_used_def)
  have "disk_ok m2" using d1(1) by (simp add: m2_def disk_ok_def)
  moreover have "\<forall>l \<in> inums m. unat (isize (din_at m2 l)) = (if l = ROOTINO then (length (fc l) div BSIZE + 1) * BSIZE else length (fc l))"
    using uoff assms(1) by (auto simp: din mk_inv_def)
  moreover have "\<forall>l \<in> inums m. attrs m2 l = attrs m l" by (simp add: attrs_def din)
  moreover have "\<forall>b. unat b < 32 \<longrightarrow> img m2 b = img m b" using I by (auto simp: m2_def m1_def)
  moreover have "inums m2 = inums m" by (simp add: inums_def m2_def m1_def)
  ultimately show ?thesis using fin f bm by blast
qed

subsection \<open>The contents of the image\<close>

definition root_dir :: "cstring list \<Rightarrow> u8 list" where
  "root_dir files = root_start @ concat (map (\<lambda>i. mk_dirent (mk_name (files ! i)) (word_of_nat (i + 2))) [0..<length files])"

lemma mk_files_other:
  "k + length as \<le> 1000 \<Longrightarrow> unat l < k \<Longrightarrow> l \<noteq> ROOTINO \<Longrightarrow> mk_files hopen as (word_of_nat k) fc l = fc l"
proof (induction as arbitrary: k fc)
  case (Cons a as)
  have "unat (word_of_nat k :: u32) = k" using Cons.prems(1) by (intro unat_of_nat_lt) simp
  then have "l \<noteq> word_of_nat k" using Cons.prems(2) by auto
  then show ?case using Cons.IH [of "Suc k"] Cons.prems by (simp add: add.commute)
qed simp

lemma mk_files_at:
  "1 < k \<Longrightarrow> k + length as \<le> 1000 \<Longrightarrow> i < length as \<Longrightarrow> mk_files hopen as (word_of_nat k) fc (word_of_nat (k + i)) = contents hopen (as ! i)"
proof (induction as arbitrary: k fc i)
  case (Cons a as)
  let ?n = "word_of_nat k :: u32"
  have u: "unat ?n = k" using Cons.prems(2) by (intro unat_of_nat_lt) simp
  show ?case
  proof (cases i)
    case 0
    have "?n \<noteq> ROOTINO" using u Cons.prems(1) by (auto simp: ROOTINO_def)
    then show ?thesis using mk_files_other [of "Suc k" as ?n hopen] Cons.prems(2) u 0 by (simp add: add.commute)
  next
    case (Suc j)
    then show ?thesis using Cons.IH [of "Suc k" j] Cons.prems by (simp add: add.commute add.left_commute)
  qed
qed simp

lemma mk_files_root:
  "1 < k \<Longrightarrow> k + length as \<le> 1000 \<Longrightarrow> mk_files hopen as (word_of_nat k) fc ROOTINO
    = fc ROOTINO @ concat (map (\<lambda>i. mk_dirent (mk_name (as ! i)) (word_of_nat (k + i))) [0..<length as])"
proof (induction as arbitrary: k fc)
  case (Cons a as)
  let ?n = "word_of_nat k :: u32"
  have u: "unat ?n = k" using Cons.prems(2) by (intro unat_of_nat_lt) simp
  then have r: "?n \<noteq> ROOTINO" using Cons.prems(1) by (auto simp: ROOTINO_def)
  have up: "[0..<length (a # as)] = 0 # map Suc [0..<length as]" by (simp add: map_Suc_upt upt_conv_Cons del: upt_Suc)
  show ?case unfolding up using Cons.IH [of "Suc k"] Cons.prems r by (simp add: comp_def ac_simps)
qed simp

lemma slot_blk_at: "j < MAXFILE \<Longrightarrow> slot V i j \<noteq> 0 \<Longrightarrow> blk_at V i j = slot V i j"
  by (simp add: slot_def blk_at_def split: if_splits)

lemma file_holds_content:
  assumes "file_holds V i xs" "p < length xs"
  shows "content V i p = xs ! p"
proof -
  have "p div BSIZE * BSIZE \<le> p" by simp
  then have q: "p div BSIZE * BSIZE < length xs" using assms(2) by (rule le_less_trans)
  moreover have "length xs \<le> MAXFILE * BSIZE" using assms(1) by (simp add: file_holds_def)
  ultimately have "p div BSIZE * BSIZE < MAXFILE * BSIZE" by linarith
  then have k: "p div BSIZE < MAXFILE" by simp
  then have "slot V i (p div BSIZE) \<noteq> 0" using assms(1) q by (simp add: file_holds_def)
  from slot_blk_at [OF k this] show ?thesis using assms q by (simp add: content_def file_holds_def)
qed

lemma file_holds_ok:
  assumes "files_inv V fb N I fc" "n \<in> N" "idev (I n) = ROOTDEV"
    "\<And>j. j * BSIZE < unat (isize (I n)) \<longleftrightarrow> j * BSIZE < length (fc n)"
  shows "file_ok V (I n)"
proof -
  have a: "alloc_inv V fb N I" and h: "file_holds V (I n) (fc n)" using assms(1,2) by (simp_all add: files_inv_def)
  have l: "length (fc n) \<le> MAXFILE * BSIZE" using h by (simp add: file_holds_def)
  have small: "unat (slot V (I n) j) < 1000" if "j \<le> MAXFILE" "slot V (I n) j \<noteq> 0" for j
    using alloc_range [OF a assms(2) that] by simp
  have blk: "blk_at V (I n) k \<noteq> 0 \<and> blk_at V (I n) k < FSSIZE" if "k * BSIZE < unat (isize (I n))" for k
  proof -
    have k: "k * BSIZE < length (fc n)" using that assms(4) by simp
    then have "k * BSIZE < MAXFILE * BSIZE" using l by linarith
    then have kM: "k < MAXFILE" by simp
    then have "slot V (I n) k \<noteq> 0" using h k by (simp add: file_holds_def)
    then show ?thesis using small [of k] slot_blk_at [OF kM] kM by (simp add: FSSIZE_def word_less_nat_alt)
  qed
  have ind: "addrs (I n) ! NDIRECT \<noteq> 0 \<and> addrs (I n) ! NDIRECT < FSSIZE" if "NDIRECT * BSIZE < unat (isize (I n))"
  proof -
    have "slot V (I n) MAXFILE \<noteq> 0" using that assms(4) h by (simp add: file_holds_def)
    then show ?thesis using small [of MAXFILE] by (simp add: slot_def MAXFILE_def FSSIZE_def word_less_nat_alt)
  qed
  have sz: "unat (isize (I n)) \<le> MAXFILE * BSIZE"
  proof (rule ccontr)
    assume "\<not> unat (isize (I n)) \<le> MAXFILE * BSIZE"
    then have "MAXFILE * BSIZE < length (fc n)" using assms(4) [of MAXFILE] by simp
    then show False using l by simp
  qed
  have "length (addrs (I n)) = NDIRECT + 1" using a assms(2) by (simp add: alloc_inv_def)
  then show ?thesis using assms(3) sz blk ind by (simp add: file_ok_def)
qed

text \<open>The room that the files and the root directory need on the disk.\<close>

definition fits :: "(cstring \<Rightarrow> u8 list list option) \<Rightarrow> cstring list \<Rightarrow> bool" where
  "fits hopen files \<longleftrightarrow> (\<forall>a \<in> set files. file_arg hopen a) \<and> length files \<le> 206
     \<and> nmeta + blocks_for (16 * (length files + 2)) + data_need hopen files \<le> unat FSSIZE"

lemma length_root_dir: "length (root_dir files) = 16 * (length files + 2)"
  by (simp add: root_dir_def root_start_def length_mk_dirent length_concat comp_def sum_list_triv)

lemma used_blocks:
  assumes "alloc_inv V fb N I"
  shows "unat b < unat fb \<longleftrightarrow> unat b < nmeta \<or> (\<exists>n \<in> N. \<exists>j \<le> MAXFILE. slot V (I n) j = b \<and> b \<noteq> 0)"
proof
  assume l: "unat b < unat fb"
  show "unat b < nmeta \<or> (\<exists>n \<in> N. \<exists>j \<le> MAXFILE. slot V (I n) j = b \<and> b \<noteq> 0)"
  proof (cases "unat b < nmeta")
    case False
    then have "b \<in> {b. nmeta \<le> unat b \<and> unat b < unat fb}" using l by simp
    then have "b \<in> (\<lambda>(n, j). slot V (I n) j) ` slots N V I" using assms by (simp add: alloc_inv_def bij_betw_def)
    then show ?thesis unfolding slots_def by auto
  qed simp
next
  assume "unat b < nmeta \<or> (\<exists>n \<in> N. \<exists>j \<le> MAXFILE. slot V (I n) j = b \<and> b \<noteq> 0)"
  moreover have "nmeta \<le> unat fb" using assms by (simp add: alloc_inv_def)
  ultimately show "unat b < unat fb" using alloc_range(2) [OF assms] by fastforce
qed

lemma mkfs_image:
  assumes "fits hopen files" "unat FSSIZE \<le> cap"
  defines "fc \<equiv> mk_files hopen files 2 ((\<lambda>_. [])(ROOTINO := root_start))"
  shows "\<exists>m fb. mkfs hopen (Some cap) (prog # out # files) = Ok m \<and> files_inv (img m) fb (inums m) (din_at m) fc
    \<and> inums m = {l. l \<noteq> 0 \<and> unat l < length files + 2} \<and> sb_of (img m 1) = mksb
    \<and> (\<forall>l \<in> inums m. unat (isize (din_at m l)) = (if l = ROOTINO then (length (fc l) div BSIZE + 1) * BSIZE else length (fc l)))
    \<and> (\<forall>l \<in> inums m. attrs m l = (if l = ROOTINO then T_DIR else T_FILE, 1))
    \<and> (\<forall>j. bit_used (img m (sb_bmapstart mksb)) j \<longleftrightarrow> j < unat fb) \<and> (\<forall>b. unat b < 32 \<longrightarrow> b \<noteq> 1 \<longrightarrow> img m b = (\<lambda>_. 0))"
proof -
  have ft: "\<forall>a \<in> set files. file_arg hopen a" "length files \<le> 206"
    "nmeta + blocks_for (16 * (length files + 2)) + data_need hopen files \<le> unat FSSIZE" using assms(1) by (simp_all add: fits_def)
  from mk_start_spec [OF assms(2)] obtain m0 where
    s: "mk_start cap = Ok m0" "mk_inv m0 ((\<lambda>_. [])(ROOTINO := root_start))" "freeinode m0 = 2" "unat (freeblock m0) = 60"
      "attrs m0 ROOTINO = (T_DIR, 1)" "sb_of (img m0 1) = mksb" "\<forall>b. unat b < 32 \<longrightarrow> b \<noteq> 1 \<longrightarrow> img m0 b = (\<lambda>_. 0)" by blast
  have lr: "length root_start = 32" by (simp add: root_start_def length_mk_dirent)
  have n32: "blocks_for 32 = 1" by (simp add: blocks_for_def BSIZE_def NDIRECT_def)
  have mx: "MAXFILE * BSIZE = 71680" by (simp add: MAXFILE_def NDIRECT_def NINDIRECT_def BSIZE_def)
  let ?f0 = "((\<lambda>_. [])(ROOTINO := root_start)) :: u32 \<Rightarrow> u8 list"
  have "\<exists>m'. add_files hopen files m0 = Ok m' \<and> mk_inv m' (mk_files hopen files (freeinode m0) ?f0)
    \<and> unat (freeinode m') = unat (freeinode m0) + length files \<and> grows m0 m'
    \<and> (\<forall>l. freeinode m0 \<le> l \<longrightarrow> l < freeinode m' \<longrightarrow> attrs m' l = (T_FILE, 1))"
  proof (rule add_files_spec [OF s(2)])
    show "ROOTINO \<in> inums m0" by (simp add: inums_def s(3) ROOTINO_def)
    have e: "length (?f0 ROOTINO) + 16 * length files = 16 * (length files + 2)" using lr by simp
    show "unat (freeblock m0) + blocks_for (length (?f0 ROOTINO) + 16 * length files) + data_need hopen files \<le> unat FSSIZE + blocks_for (length (?f0 ROOTINO))"
      using ft(3) unfolding e by (simp add: s(4) lr n32)
    show "length (?f0 ROOTINO) + 16 * length files \<le> MAXFILE * BSIZE" unfolding e using ft(2) by (simp add: mx)
  qed (use ft s(3) in simp_all)
  then obtain m1 where t: "add_files hopen files m0 = Ok m1" "mk_inv m1 fc" "unat (freeinode m1) = length files + 2" "grows m0 m1"
    "\<And>l. 2 \<le> l \<Longrightarrow> l < freeinode m1 \<Longrightarrow> attrs m1 l = (T_FILE, 1)" unfolding s(3) fc_def by auto
  have ins: "inums m1 = {l. l \<noteq> 0 \<and> unat l < length files + 2}" by (simp add: inums_def word_less_nat_alt t(3))
  have "fc ROOTINO = root_dir files"
    using mk_files_root [of 2 files hopen ?f0] ft(2) unfolding fc_def root_dir_def by (simp add: add.commute)
  then have lfr: "length (fc ROOTINO) = 16 * (length files + 2)" by (simp only: length_root_dir)
  have ri: "ROOTINO \<in> inums m1" by (simp add: ins ROOTINO_def)
  have rl: "length (fc ROOTINO) + BSIZE \<le> MAXFILE * BSIZE" unfolding lfr using ft(2) by (simp add: mx) (simp add: BSIZE_def)
  from mk_finish_spec [OF t(2) ri rl] obtain m2 where
    u: "mk_finish m1 = Ok m2" "files_inv (img m2) (freeblock m1) (inums m1) (din_at m2) fc"
      "\<forall>l \<in> inums m1. unat (isize (din_at m2 l)) = (if l = ROOTINO then (length (fc l) div BSIZE + 1) * BSIZE else length (fc l))"
      "\<forall>l \<in> inums m1. attrs m2 l = attrs m1 l" "\<forall>b. unat b < 32 \<longrightarrow> img m2 b = img m1 b"
      "\<forall>j. bit_used (img m2 (sb_bmapstart mksb)) j \<longleftrightarrow> j < unat (freeblock m1)" "inums m2 = inums m1" by blast
  have at: "attrs m2 l = (if l = ROOTINO then T_DIR else T_FILE, 1)" if "l \<in> inums m1" for l
  proof (cases "l = ROOTINO")
    case True
    have "ROOTINO \<noteq> 0" "ROOTINO < freeinode m0" by (simp_all add: s(3) ROOTINO_def)
    then show ?thesis using True u(4) that t(4) s(5) by (simp add: grows_def)
  next
    case False
    have "2 \<le> l" "l < freeinode m1"
    proof -
      have "l \<noteq> 0" "l \<noteq> 1" "l < freeinode m1" using that False by (simp_all add: inums_def ROOTINO_def)
      then have "unat l \<noteq> unat (0 :: u32)" "unat l \<noteq> unat (1 :: u32)" unfolding unat_eq_iff by simp_all
      then show "2 \<le> l" by (simp add: word_le_nat_alt)
      show "l < freeinode m1" by fact
    qed
    then show ?thesis using False u(4) that t(5) by simp
  qed
  have b32: "img m2 b = img m0 b" if "unat b < 32" for b using u(5) t(4) that by (simp add: grows_def)
  have "mkfs hopen (Some cap) (prog # out # files) = Ok m2" using s(1) t(1) u(1) by (simp add: mkfs_def)
  then show ?thesis using u(2,3,6,7) ins at b32 s(6,7) by (intro exI [of _ m2] exI [of _ "freeblock m1"]) simp
qed

end
