(* ===== verification/Mkfs_Spec.thy ===== *)
theory Mkfs_Spec
  imports Mkfs_Image
begin

text \<open>
  What the finished image holds, and what a kernel that boots from it reads: the composition of
  \<open>mkfs\<close> with the buffer cache, the log and the inodes of the kernel.
\<close>

text \<open>What the image says of a regular file.\<close>

definition stored :: "mkst \<Rightarrow> u32 \<Rightarrow> u8 list \<Rightarrow> bool" where
  "stored m n xs \<longleftrightarrow> itype (din_at m n) = T_FILE \<and> nlink (din_at m n) = 1 \<and> unat (isize (din_at m n)) = length xs
     \<and> file_ok (img m) (din_at m n) \<and> (\<forall>p < length xs. content (img m) (din_at m n) p = xs ! p)"

lemma din_at_dev [simp]: "idev (din_at m n) = ROOTDEV"
  by (simp add: din_at_def get_dinode_def zero_din_def)

lemma round_up_blocks:
  assumes "n mod BSIZE \<noteq> 0"
  shows "j * BSIZE < (n div BSIZE + 1) * BSIZE \<longleftrightarrow> j * BSIZE < n"
proof -
  have e: "n = n div BSIZE * BSIZE + n mod BSIZE" "n mod BSIZE < BSIZE" by (simp_all add: BSIZE_def)
  show ?thesis
  proof (cases "j \<le> n div BSIZE")
    case True
    then have "j * BSIZE \<le> n div BSIZE * BSIZE" by (rule mult_le_mono1)
    moreover have "0 < n mod BSIZE" using assms by simp
    ultimately have "j * BSIZE < n" using e(1) by linarith
    then show ?thesis using True by (simp add: BSIZE_def)
  next
    case False
    then have "(n div BSIZE + 1) * BSIZE \<le> j * BSIZE" by (intro mult_le_mono1) simp
    then show ?thesis using e by (simp add: BSIZE_def)
  qed
qed

lemma mkfs_facts:
  assumes "fits hopen files" "unat FSSIZE \<le> cap"
  shows "\<exists>m fb. mkfs hopen (Some cap) (prog # out # files) = Ok m \<and> sb_of (img m 1) = mksb
    \<and> (\<forall>i < length files. stored m (word_of_nat (i + 2)) (contents hopen (files ! i)))
    \<and> (\<forall>b. unat b < 32 \<longrightarrow> b \<noteq> 1 \<longrightarrow> img m b = (\<lambda>_. 0)) \<and> alloc_inv (img m) fb (inums m) (din_at m)
    \<and> (\<forall>j. bit_used (img m (sb_bmapstart mksb)) j \<longleftrightarrow> j < unat fb)
    \<and> itype (din_at m ROOTINO) = T_DIR \<and> file_holds (img m) (din_at m ROOTINO) (root_dir files)
    \<and> unat (isize (din_at m ROOTINO)) = (16 * (length files + 2) div BSIZE + 1) * BSIZE
    \<and> (16 * (length files + 2) mod BSIZE \<noteq> 0 \<longrightarrow> file_ok (img m) (din_at m ROOTINO))"
proof -
  let ?fc = "mk_files hopen files 2 ((\<lambda>_. [])(ROOTINO := root_start))"
  have len: "length files \<le> 206" using assms(1) by (simp add: fits_def)
  from mkfs_image [OF assms] obtain m fb where
    t: "mkfs hopen (Some cap) (prog # out # files) = Ok m" "files_inv (img m) fb (inums m) (din_at m) ?fc"
    "inums m = {l. l \<noteq> 0 \<and> unat l < length files + 2}" "sb_of (img m 1) = mksb"
    "\<forall>l \<in> inums m. unat (isize (din_at m l)) = (if l = ROOTINO then (length (?fc l) div BSIZE + 1) * BSIZE else length (?fc l))"
    "\<forall>l \<in> inums m. attrs m l = (if l = ROOTINO then T_DIR else T_FILE, 1)"
    "\<forall>j. bit_used (img m (sb_bmapstart mksb)) j \<longleftrightarrow> j < unat fb" "\<forall>b. unat b < 32 \<longrightarrow> b \<noteq> 1 \<longrightarrow> img m b = (\<lambda>_. 0)" by blast
  have h: "file_holds (img m) (din_at m l) (?fc l)" if "l \<in> inums m" for l using t(2) that by (simp add: files_inv_def)
  have "?fc ROOTINO = root_dir files"
    using mk_files_root [of 2 files hopen "(\<lambda>_. [])(ROOTINO := root_start)"] len unfolding root_dir_def by (simp add: add.commute)
  note r = this length_root_dir [of files]
  have ri: "ROOTINO \<in> inums m" by (simp add: t(3) ROOTINO_def)
  have rs: "unat (isize (din_at m ROOTINO)) = (16 * (length files + 2) div BSIZE + 1) * BSIZE"
    using t(5) ri by (simp only: r) simp
  have ro: "file_ok (img m) (din_at m ROOTINO)" if "16 * (length files + 2) mod BSIZE \<noteq> 0"
    by (rule file_holds_ok [OF t(2) ri]) (simp, simp only: rs r round_up_blocks [OF that])
  have st: "stored m (word_of_nat (i + 2)) (contents hopen (files ! i))" if i: "i < length files" for i
  proof -
    let ?n = "word_of_nat (i + 2) :: u32"
    have u: "unat ?n = i + 2" using i len by (intro unat_of_nat_lt) simp
    have "unat ?n \<noteq> unat (0 :: u32)" "unat ?n \<noteq> unat ROOTINO" unfolding u ROOTINO_def by simp_all
    then have n: "?n \<in> inums m" "?n \<noteq> ROOTINO" using u i unfolding t(3) unat_eq_iff by auto
    have f: "?fc ?n = contents hopen (files ! i)"
      using mk_files_at [of 2 files i hopen "(\<lambda>_. [])(ROOTINO := root_start)"] i len by (simp add: add.commute)
    have sz: "unat (isize (din_at m ?n)) = length (contents hopen (files ! i))" using t(5) n f by (simp del: of_nat_add)
    have "file_ok (img m) (din_at m ?n)" by (rule file_holds_ok [OF t(2) n(1)]) (simp, simp only: sz f)
    then show ?thesis
      using t(6) n sz file_holds_content [OF h [OF n(1), unfolded f]] by (simp add: stored_def attrs_def del: of_nat_add)
  qed
  have "itype (din_at m ROOTINO) = T_DIR" using t(6) ri by (simp add: attrs_def)
  moreover have "file_holds (img m) (din_at m ROOTINO) (root_dir files)" using h [OF ri] by (simp only: r)
  moreover have "alloc_inv (img m) fb (inums m) (din_at m)" using t(2) by (simp add: files_inv_def)
  ultimately show ?thesis using t(1,4,7,8) st rs ro by blast
qed

text \<open>The block that rounding adds to a root directory whose entries fill their last block.\<close>

lemma root_hole:
  assumes "file_holds (img m) (din_at m ROOTINO) (root_dir files)"
    "unat (isize (din_at m ROOTINO)) = (16 * (length files + 2) div BSIZE + 1) * BSIZE"
    "16 * (length files + 2) mod BSIZE = 0" "length files \<le> 206"
  shows "\<not> file_ok (img m) (din_at m ROOTINO)"
proof
  assume ok: "file_ok (img m) (din_at m ROOTINO)"
  let ?k = "16 * (length files + 2) div BSIZE"
  have k: "?k < NDIRECT" using assms(4) by (simp add: BSIZE_def NDIRECT_def)
  have "?k * BSIZE = 16 * (length files + 2)" using assms(3) div_mult_mod_eq [of "16 * (length files + 2)" BSIZE] by linarith
  then have "\<not> ?k * BSIZE < length (root_dir files)" unfolding length_root_dir by (simp only: less_irrefl not_False_eq_True)
  moreover have "?k < MAXFILE" using k by (simp only: MAXFILE_def trans_less_add1)
  ultimately have "slot (img m) (din_at m ROOTINO) ?k = 0" using assms(1) unfolding file_holds_def by blast
  then have "blk_at (img m) (din_at m ROOTINO) ?k = 0" using k by (simp add: slot_def blk_at_def)
  moreover have "?k * BSIZE < unat (isize (din_at m ROOTINO))" unfolding assms(2) by (simp add: BSIZE_def)
  ultimately show False using ok by (simp add: file_ok_def)
qed

text \<open>
  C7. \<open>mkfs\<close> builds the image it is asked for: given files that fit on the disk, it succeeds;
  the superblock reads back as the layout; inode \<open>i + 2\<close> is a regular file with one link whose
  bytes are exactly those of the \<open>i\<close>th argument, however \<open>read\<close> cut them into pieces; the root
  directory holds \<open>.\<close>, \<open>..\<close> and one entry for each file in order (and is a well-formed file
  unless its entries fill its last block); and the bitmap marks exactly the blocks below the first data
  block and the data and indirect blocks of the inodes.
\<close>

theorem mkfs_builds_image:
  assumes "fits hopen files" "unat FSSIZE \<le> cap"
  shows "\<exists>m. mkfs hopen (Some cap) (prog # out # files) = Ok m \<and> sb_of (img m 1) = mksb
    \<and> (\<forall>i < length files. stored m (word_of_nat (i + 2)) (contents hopen (files ! i)))
    \<and> itype (din_at m ROOTINO) = T_DIR
    \<and> (\<forall>p < 16 * (length files + 2). content (img m) (din_at m ROOTINO) p = root_dir files ! p)
    \<and> unat (isize (din_at m ROOTINO)) = (16 * (length files + 2) div BSIZE + 1) * BSIZE
    \<and> (file_ok (img m) (din_at m ROOTINO) \<longleftrightarrow> 16 * (length files + 2) mod BSIZE \<noteq> 0)
    \<and> (\<forall>b. bit_used (img m (sb_bmapstart mksb)) (unat b) \<longleftrightarrow>
         unat b < nmeta \<or> (\<exists>n \<in> inums m. \<exists>j \<le> MAXFILE. slot (img m) (din_at m n) j = b \<and> b \<noteq> 0))"
proof -
  from mkfs_facts [OF assms, of prog out] obtain m fb where
    t: "mkfs hopen (Some cap) (prog # out # files) = Ok m" "sb_of (img m 1) = mksb"
    "\<forall>i < length files. stored m (word_of_nat (i + 2)) (contents hopen (files ! i))" "alloc_inv (img m) fb (inums m) (din_at m)"
    "\<forall>j. bit_used (img m (sb_bmapstart mksb)) j \<longleftrightarrow> j < unat fb" "itype (din_at m ROOTINO) = T_DIR"
    "file_holds (img m) (din_at m ROOTINO) (root_dir files)"
    "unat (isize (din_at m ROOTINO)) = (16 * (length files + 2) div BSIZE + 1) * BSIZE"
    "16 * (length files + 2) mod BSIZE \<noteq> 0 \<longrightarrow> file_ok (img m) (din_at m ROOTINO)" by blast
  have "\<not> file_ok (img m) (din_at m ROOTINO)" if "16 * (length files + 2) mod BSIZE = 0"
    by (rule root_hole [OF t(7,8) that]) (use assms(1) in \<open>simp add: fits_def\<close>)
  then show ?thesis
    using t(1-3,5,6,8,9) used_blocks [OF t(4)] file_holds_content [OF t(7)] length_root_dir [of files]
    by (intro exI [of _ m]) auto
qed



text \<open>Two files: the second is longer than twelve blocks, so it needs an indirect block.\<close>

definition demo_host :: "cstring \<Rightarrow> u8 list list option" where
  "demo_host a = (if a = ascii ''_cat'' then Some [[127, 69], [76]]
     else if a = ascii ''README'' then Some (replicate 13 (replicate 512 7)) else None)"

lemma demo_fits: "fits demo_host [ascii ''_cat'', ascii ''README'']"
proof -
  have c: "contents demo_host (ascii ''_cat'') = [127, 69, 76]" "length (contents demo_host (ascii ''README'')) = 6656"
    by (simp_all add: contents_def demo_host_def ascii_def length_concat sum_list_replicate del: replicate.simps)
  have "file_arg demo_host (ascii ''_cat'')" "file_arg demo_host (ascii ''README'')"
    using c by (simp_all add: file_arg_def) (auto simp: demo_host_def ascii_def SLASH_def BSIZE_def MAXFILE_def NDIRECT_def NINDIRECT_def of_char_def)
  then show ?thesis using c by (simp add: fits_def data_need_def blocks_for_def BSIZE_def NDIRECT_def FSSIZE_def)
qed

theorem mkfs_builds_image_witness:
  "\<exists>m. mkfs demo_host (Some 1000) [ascii ''mkfs'', ascii ''fs.img'', ascii ''_cat'', ascii ''README''] = Ok m
    \<and> stored m 2 [127, 69, 76] \<and> bit_used (img m 58) 0"
proof -
  have "unat FSSIZE \<le> 1000" by (simp add: FSSIZE_def)
  from mkfs_builds_image [OF demo_fits this, of "ascii ''mkfs''" "ascii ''fs.img''"] obtain m where
    t: "mkfs demo_host (Some 1000) [ascii ''mkfs'', ascii ''fs.img'', ascii ''_cat'', ascii ''README''] = Ok m"
    "\<forall>i < 2. stored m (word_of_nat (i + 2)) (contents demo_host ([ascii ''_cat'', ascii ''README''] ! i))"
    "\<And>b. bit_used (img m (sb_bmapstart mksb)) (unat b) \<longleftrightarrow>
         unat b < nmeta \<or> (\<exists>n \<in> inums m. \<exists>j \<le> MAXFILE. slot (img m) (din_at m n) j = b \<and> b \<noteq> 0)"
    by auto
  have "contents demo_host (ascii ''_cat'') = [127, 69, 76]" by (simp add: contents_def demo_host_def)
  then show ?thesis using t(1) t(2) [rule_format, of 0] t(3) [of 0] by (simp add: mksb_eq)
qed

subsection \<open>Booting from the image\<close>

text \<open>A machine before the first process runs: the buffer cache is initialised over a disk that reads as
  \<open>V\<close>, and no inode is in use.\<close>

definition cold :: "'d fs \<Rightarrow> (u32 \<Rightarrow> bytes) \<Rightarrow> bool" where
  "cold s V \<longleftrightarrow> (\<exists>b. bc (lg s) = binit b \<and> bio_boot b \<and> V = (\<lambda>n. disk (ide b) 1 (unat n)))
     \<and> outstanding (lg s) = 0 \<and> \<not> committing (lg s) \<and> length (inodes s) = NINODE \<and> (\<forall>i \<in> set (inodes s). iref i = 0)"

text \<open>What \<open>forkret\<close> does first, then a read of inode \<open>n\<close> from its start.\<close>

definition boot_read :: "'d devsw list \<Rightarrow> int \<Rightarrow> u32 \<Rightarrow> u32 \<Rightarrow> 'd fs \<Rightarrow> (int \<times> u8 list \<times> 'd fs) outcome" where
  "boot_read dv me n len s =
     bnd (iinit me ROOTDEV s) (\<lambda>s1.
     bnd (initlog me ROOTDEV (lg s1)) (\<lambda>l.
     bnd (fs_begin_op (s1\<lparr>lg := l\<rparr>)) (\<lambda>s2.
     bnd (iget ROOTDEV n s2) (\<lambda>(ip, s3).
     bnd (ilock me ip s3) (\<lambda>s4. readi dv me ip 0 len s4)))))"

lemma readsb_spec:
  assumes "bio me s V V {} {} W"
  shows "\<exists>u. readsb me ROOTDEV s = Ok (sb_of (V 1), u) \<and> bio me u V V {} {} W"
proof -
  have one: "1 < FSSIZE" by (simp add: FSSIZE_def)
  have room: "1 \<in> {} \<or> card ({} \<union> {} :: u32 set) < NBUF" by (simp add: NBUF_def MAXOPBLOCKS_def)
  from bc.read_block [OF assms one _ room] obtain b t u where
    t: "bread me ROOTDEV 1 s = Ok (b, t)" "get_data b t = V 1" "brelse me b t = Ok u" "bio me u V V {} {} W" by auto
  then show ?thesis by (simp add: readsb_def Let_def)
qed

lemma recovered_clean: "V st = (\<lambda>_. 0) \<Longrightarrow> recovered st [] V = V"
  by (auto simp: recovered_def home_writes_def head_of_def wr32_def byte_of_def fun_eq_iff)

text \<open>After booting from a clean image a transaction runs over exactly its blocks.\<close>

lemma boot_ok:
  assumes "cold s V" "sb_of (V 1) = mksb" "V 2 = (\<lambda>_. 0)"
  shows "\<exists>s1 l s2. iinit me ROOTDEV s = Ok s1 \<and> initlog me ROOTDEV (lg s1) = Ok l \<and> fs_begin_op (s1\<lparr>lg := l\<rparr>) = Ok s2
    \<and> fs_tx me s2 [] V V \<and> fsb s2 = mksb \<and> icache_ok s2 \<and> (\<forall>i \<in> set (inodes s2). iref i = 0 \<and> sl_free (ilk i))"
proof -
  obtain b where b: "bc (lg s) = binit b" "bio_boot b" "V = (\<lambda>n. disk (ide b) 1 (unat n))"
    and c: "outstanding (lg s) = 0" "\<not> committing (lg s)" "length (inodes s) = NINODE" "\<forall>i \<in> set (inodes s). iref i = 0"
    using assms(1) by (auto simp: cold_def)
  have bio: "bio me (bc (lg s)) V V {} {} (dtrace (ide b))" using binit_ok [OF b(2), of me] b(1,3) by simp
  from readsb_spec [OF bio] obtain u where u: "readsb me ROOTDEV (bc (lg s)) = Ok (sb_of (V 1), u)" "bio me u V V {} {} (dtrace (ide b))" by blast
  define s1 where "s1 = s\<lparr>ic_lk := False, inodes := map (\<lambda>i. i\<lparr>ilk := initsleeplock ''inode'' (ilk i)\<rparr>) (inodes s),
    lg := (lg s)\<lparr>bc := u\<rparr>, fsb := mksb\<rparr>"
  have i1: "iinit me ROOTDEV s = Ok s1" using u(1) assms(2) by (simp add: iinit_def Let_def s1_def)
  have geo: "tx_ok 2 30 []" by (simp add: tx_ok_def log_geom_def NBUF_def MAXOPBLOCKS_def FSSIZE_def)
  have nm: "names (V 2) []" unfolding assms(3) by (simp add: names_def rd32_zero)
  have "bio me (bc (lg s1)) V V {} {} (dtrace (ide b))" using u(2) by (simp add: s1_def)
  from initlog_spec [OF this _ _ geo nm, unfolded recovered_clean [where st = 2 and V = V, OF assms(3)]] obtain l W' where
    l: "initlog me ROOTDEV (lg s1) = Ok l" "bio me (bc l) V V {} {} W'" "lh_n l = 0" "log_start l = 2" "log_size l = 30"
      "log_dev l = ROOTDEV" "\<not> log_lk l" "outstanding l = outstanding (lg s1)" "committing l = committing (lg s1)"
      "length (lh_block l) = LOGSIZE" by (auto simp: assms(2) mksb_eq)
  have o: "outstanding l = 0" "\<not> committing l" using l(8,9) c(1,2) by (simp_all add: s1_def)
  let ?s2 = "s1\<lparr>lg := l\<lparr>outstanding := 1\<rparr>\<rparr>"
  have bg: "fs_begin_op (s1\<lparr>lg := l\<rparr>) = Ok ?s2"
    using l(3,7) o by (simp add: fs_begin_op_def begin_op_def Let_def LOGSIZE_def MAXOPBLOCKS_def)
  have "W' = dtrace (ide (bc l))" using bio_trace [OF l(2)] .
  then have tx: "fs_tx me ?s2 [] V V"
    using l o geo nm assms(2) by (simp add: fs_tx_def log_inv_def mksb_eq)
  have in2: "inodes ?s2 = map (\<lambda>i. i\<lparr>ilk := initsleeplock ''inode'' (ilk i)\<rparr>) (inodes s)" by (simp add: s1_def)
  have free: "\<forall>i \<in> set (inodes ?s2). iref i = 0 \<and> sl_free (ilk i)"
    unfolding in2 using c(4) by (auto simp: initsleeplock_def sl_free_def)
  have l2: "length (inodes ?s2) = NINODE" unfolding in2 using c(3) by (simp only: length_map)
  have z: "iref (inodes ?s2 ! a) = 0" if "a < NINODE" for a
    using free nth_mem [of a "inodes ?s2"] that unfolding l2 by blast
  have ic: "icache_ok ?s2" unfolding icache_ok_def l2
  proof (intro conjI allI impI ballI)
    show "\<not> ic_lk ?s2" by (simp add: s1_def)
    show "0 \<le> iref i" if "i \<in> set (inodes ?s2)" for i using free that by fastforce
    show "a = b" if "a < NINODE" "0 < iref (inodes ?s2 ! a)" for a b using z [OF that(1)] that(2) by linarith
  qed (rule refl)
  have "fsb ?s2 = mksb" by (simp add: s1_def)
  then show ?thesis using i1 l(1) bg tx free ic by blast
qed

lemma file_ok_cong:
  "idev j = idev i \<Longrightarrow> addrs j = addrs i \<Longrightarrow> isize j = isize i \<Longrightarrow> file_ok V j = file_ok V i"
  "addrs j = addrs i \<Longrightarrow> content V j = content V i"
  by (simp_all add: file_ok_def content_def blk_at_def fun_eq_iff)

text \<open>
  C5. From the host to the kernel: a kernel that boots from the image \<open>mkfs\<close> built recovers its
  (empty) log, starts a transaction, finds inode \<open>i + 2\<close> on the disk and reads back exactly the
  bytes of the \<open>i\<close>th file that \<open>mkfs\<close> was given.
\<close>

theorem mkfs_boots:
  assumes "fits hopen files" "unat FSSIZE \<le> cap" "mkfs hopen (Some cap) (prog # out # files) = Ok m" "cold s (img m)"
    "i < length files"
  defines "c \<equiv> contents hopen (files ! i)"
  shows "\<exists>t. boot_read dv me (word_of_nat (i + 2)) (word_of_nat (length c)) s = Ok (int (length c), c, t)"
proof -
  let ?n = "word_of_nat (i + 2) :: u32" let ?V = "img m"
  from mkfs_facts [OF assms(1,2), of prog out] assms(3,5) have
    f: "sb_of (?V 1) = mksb" "stored m ?n c" "?V 2 = (\<lambda>_. 0)" unfolding c_def by auto
  from boot_ok [OF assms(4) f(1,3), of me] obtain s1 l s2 where
    b: "iinit me ROOTDEV s = Ok s1" "initlog me ROOTDEV (lg s1) = Ok l" "fs_begin_op (s1\<lparr>lg := l\<rparr>) = Ok s2"
      "fs_tx me s2 [] ?V ?V" "fsb s2 = mksb" "icache_ok s2" "\<forall>i \<in> set (inodes s2). iref i = 0 \<and> sl_free (ilk i)" by blast
  have len: "length (inodes s2) = NINODE" using b(6) by (simp add: icache_ok_def)
  have nh: "\<forall>i \<in> set (inodes s2). \<not> hit ROOTDEV ?n i" using b(7) by (simp add: hit_def)
  have "inodes s2 ! 0 \<in> set (inodes s2)" using len by (simp add: NINODE_def)
  then have "\<not> (\<forall>i \<in> set (inodes s2). iref i \<noteq> 0)" using b(7) by blast
  with iget_new [OF b(6) nh] obtain ip where
    g: "ip < NINODE" "iget ROOTDEV ?n s2 = Ok (ip, upd_inode ip (\<lambda>i. i\<lparr>idev := ROOTDEV, inum := ?n, iref := 1, valid := False\<rparr>) s2)" by auto
  define s3 where "s3 = upd_inode ip (\<lambda>i. i\<lparr>idev := ROOTDEV, inum := ?n, iref := 1, valid := False\<rparr>) s2"
  have ipin: "inodes s2 ! ip \<in> set (inodes s2)" using g(1) len by simp
  have e3: "fs_tx me s3 [] ?V ?V" "fsb s3 = mksb" "ip < length (inodes s3)"
    "inodes s3 ! ip = (inodes s2 ! ip)\<lparr>idev := ROOTDEV, inum := ?n, iref := 1, valid := False\<rparr>"
    using b(4,5) g(1) len by (simp_all add: s3_def upd_inode_def fs_tx_def)
  have sm: "unat ?n < 208"
  proof -
    have "length files \<le> 206" using assms(1) by (simp add: fits_def)
    then have "unat ?n = i + 2" using assms(5) by (intro unat_of_nat_lt) simp
    then show ?thesis using assms(5) \<open>length files \<le> 206\<close> by simp
  qed
  have B: "IBLOCK (inum (inodes s3 ! ip)) (fsb s3) = IBLOCK ?n mksb" "IBLOCK ?n mksb < FSSIZE"
    using e3(2,4) IBLOCK_range(2) [OF sm] by (simp_all add: FSSIZE_def word_less_nat_alt)
  define j where "j = (get_dinode (?V (IBLOCK ?n mksb)) (dinode_off (inum (inodes s3 ! ip))) (inodes s3 ! ip))
    \<lparr>ilk := sl_taken me (ilk (inodes s3 ! ip)), valid := True\<rparr>"
  have dj: "itype j = itype (din_at m ?n)" "isize j = isize (din_at m ?n)" "addrs j = addrs (din_at m ?n)" "idev j = ROOTDEV"
    using e3(4) by (simp_all add: j_def din_at_def get_dinode_def)
  have jt: "itype j \<noteq> 0" "itype j \<noteq> T_DEV" using f(2) dj(1) by (simp_all add: stored_def T_FILE_def T_DEV_def)
  have il: "0 < iref (inodes s3 ! ip)" "sl_free (ilk (inodes s3 ! ip))" "\<not> valid (inodes s3 ! ip)" "idev (inodes s3 ! ip) = ROOTDEV"
    using e3(4) b(7) ipin by simp_all
  from ilock_spec [OF e3(1) il(4) B il(1-3) e3(3), folded j_def] jt(1) obtain s4 where
    k: "ilock me ip s3 = Ok s4" "fs_tx me s4 [] ?V ?V" "inodes s4 = (inodes s3)[ip := j]" by auto
  have j4: "inodes s4 ! ip = j" using k(3) e3(3) by simp
  have st: "unat (isize j) = length c" "file_ok ?V j" "\<And>p. p < length c \<Longrightarrow> content ?V j p = c ! p"
    using f(2) dj file_ok_cong(1) [of j "din_at m ?n" ?V] file_ok_cong(2) [of j "din_at m ?n" ?V] by (simp_all add: stored_def)
  have wl: "unat (word_of_nat (length c) :: u32) = length c" by (simp flip: st(1))
  have "map (content ?V j) [0..<length c] = c" using st(3) by (intro nth_equalityI) simp_all
  then have "\<exists>t. readi dv me ip 0 (word_of_nat (length c)) s4 = Ok (int (length c), c, t)"
    using readi_spec [OF k(2), of ip 0 "word_of_nat (length c)" dv] st(1,2) jt(2) unfolding j4 by (auto simp: wl)
  then show ?thesis using b(1-3) g(2) k(1) by (simp add: boot_read_def s3_def)
qed


theorem mkfs_boots_witness:
  "\<exists>m (s :: unit fs) t. mkfs demo_host (Some 1000) [ascii ''mkfs'', ascii ''fs.img'', ascii ''_cat'', ascii ''README''] = Ok m
    \<and> cold s (img m) \<and> boot_read [] 3 2 3 s = Ok (3, [127, 69, 76], t)"
proof -
  have F: "unat FSSIZE \<le> 1000" by (simp add: FSSIZE_def)
  from mkfs_facts [OF demo_fits this, of "ascii ''mkfs''" "ascii ''fs.img''"] obtain m where
    m: "mkfs demo_host (Some 1000) [ascii ''mkfs'', ascii ''fs.img'', ascii ''_cat'', ascii ''README''] = Ok m" by blast
  let ?b = "bio_demo\<lparr>ide := ide bio_demo\<lparr>disk := \<lambda>d k. img m (word_of_nat k)\<rparr>\<rparr>"
  let ?s = "fs_demo\<lparr>lg := log_demo\<lparr>outstanding := 0, bc := binit ?b\<rparr>, inodes := replicate NINODE demo_free\<rparr>"
  have "bio_boot ?b" by (simp add: bio_boot_def bio_demo_def bufs_def fresh_buf_def buf_new_def ide_demo_def del: replicate_Suc)
  moreover have "img m = (\<lambda>n. disk (ide ?b) 1 (unat n))" by simp
  moreover have "outstanding (lg ?s) = 0" "\<not> committing (lg ?s)" "length (inodes ?s) = NINODE" "\<forall>i \<in> set (inodes ?s). iref i = 0"
    by (simp_all add: log_demo_def demo_free_def)
  ultimately have c: "cold ?s (img m)" unfolding cold_def by fastforce
  have i: "0 < length [ascii ''_cat'', ascii ''README'']" by simp
  have ct: "contents demo_host ([ascii ''_cat'', ascii ''README''] ! 0) = [127, 69, 76]" by (simp add: contents_def demo_host_def)
  from mkfs_boots [OF demo_fits F m c i, of "[]" 3] obtain t where "boot_read [] 3 2 3 ?s = Ok (3, [127, 69, 76], t)"
    unfolding ct by auto
  then show ?thesis using m c by blast
qed

end
