(* ===== verification/Uaccess.thy ===== *)
theory Uaccess
  imports Proc
begin

text \<open>
  How the kernel reaches the memory of the current process: the page-fault case of \<open>trap\<close>, and
  the argument fetching of \<open>syscall.c\<close>.  A kernel access to a page that is not present raises
  trap 14; the handler brings a swapped page back and the access is repeated, and in every other
  case the trap comes from kernel code and panics.
\<close>

subsection \<open>The page-fault case of \<open>trap\<close>\<close>

text \<open>\<open>True\<close>: the page is back.  \<open>False\<close>: \<open>goto pf\<close>.\<close>

definition page_fault :: "u32 \<Rightarrow> 'd krn \<Rightarrow> (bool \<times> 'd krn) outcome" where
  "page_fault cr2 =
     with_cur (\<lambda>p s.
       if pid (ptab s ! p) \<le> 2 then Ok (False, s)
       else
         let s1 = upd_pp p (\<lambda>q. q\<lparr>number_of_pgFLTS := number_of_pgFLTS q + 1\<rparr>) s;
             faultAddr = PGROUNDDOWN cr2
         in bnd (in_kmem (walkpgdir (pgdir (ptab s1 ! p)) faultAddr False) s1) (\<lambda>(pte, s2).
            fault_if (pte = 0)
            (if pte_get pte (kmem_of s2) AND PTE_PG = 0 then Ok (False, s2)
             else bnd (SwapPages p faultAddr s2) (\<lambda>(r, s3). Ok (r \<noteq> - 1, s3)))))"

text \<open>One access: the physical place of a virtual address, after at most one page fault.\<close>

definition kaccess :: "u32 \<Rightarrow> 'd krn \<Rightarrow> (u32 \<times> 'd krn) outcome" where
  "kaccess va s =
     (case mmu_addr (kmem_of s) (udir s) va of
        Some a \<Rightarrow> Ok (a, s)
      | None \<Rightarrow>
          bnd (page_fault va s) (\<lambda>(ok, s1).
          panic_if (\<not> ok) ''trap''
          (case mmu_addr (kmem_of s1) (udir s1) va of Some a \<Rightarrow> Ok (a, s1) | None \<Rightarrow> Fault)))"

definition get_user :: "u32 \<Rightarrow> 'd krn \<Rightarrow> (u8 \<times> 'd krn) outcome" where
  "get_user va s = bnd (kaccess va s) (\<lambda>(a, s1). Ok (mem (kmem_of s1) (unat a), s1))"

fun get_bytes :: "u32 \<Rightarrow> nat \<Rightarrow> 'd krn \<Rightarrow> (u8 list \<times> 'd krn) outcome" where
  "get_bytes va 0 s = Ok ([], s)"
| "get_bytes va (Suc n) s =
     bnd (get_user va s) (\<lambda>(b, s1). bnd (get_bytes (va + 1) n s1) (\<lambda>(bs, s2). Ok (b # bs, s2)))"

fun put_user :: "u32 \<Rightarrow> u8 list \<Rightarrow> 'd krn \<Rightarrow> 'd krn outcome" where
  "put_user va [] s = Ok s"
| "put_user va (b # bs) s =
     bnd (kaccess va s) (\<lambda>(a, s1).
       let m = kmem_of s1 in put_user (va + 1) bs (set_kmem (m\<lparr>mem := (mem m)(unat a := b)\<rparr>) s1))"

definition word_of_bytes :: "u8 list \<Rightarrow> u32" where
  "word_of_bytes bs = rd32 (\<lambda>i. bs ! i) 0"

definition bytes_of_word :: "u32 \<Rightarrow> u8 list" where
  "bytes_of_word w = [byte_of w 0, byte_of w 1, byte_of w 2, byte_of w 3]"

definition get_user32 :: "u32 \<Rightarrow> 'd krn \<Rightarrow> (u32 \<times> 'd krn) outcome" where
  "get_user32 va s = bnd (get_bytes va 4 s) (\<lambda>(bs, s1). Ok (word_of_bytes bs, s1))"

subsection \<open>Fetching arguments\<close>

text \<open>A failed fetch is \<open>None\<close>.  A string is fetched as its bytes before the NUL.\<close>

definition fetchint :: "u32 \<Rightarrow> 'd krn \<Rightarrow> (u32 option \<times> 'd krn) outcome" where
  "fetchint addr =
     with_cur (\<lambda>p s.
       if sz (ptab s ! p) \<le> addr \<or> sz (ptab s ! p) < addr + 4 then Ok (None, s)
       else bnd (get_user32 addr s) (\<lambda>(w, s1). Ok (Some w, s1)))"

fun fetchstr_loop :: "nat \<Rightarrow> u32 \<Rightarrow> u32 \<Rightarrow> 'd krn \<Rightarrow> (cstring option \<times> 'd krn) outcome" where
  "fetchstr_loop 0 a ep s = Ok (None, s)"
| "fetchstr_loop (Suc k) a ep s =
     (if a < ep
      then bnd (get_user a s) (\<lambda>(b, s1).
        if b = 0 then Ok (Some [], s1)
        else bnd (fetchstr_loop k (a + 1) ep s1) (\<lambda>(r, s2). Ok (map_option ((#) b) r, s2)))
      else Ok (None, s))"

definition fetchstr :: "u32 \<Rightarrow> 'd krn \<Rightarrow> (cstring option \<times> 'd krn) outcome" where
  "fetchstr addr =
     with_cur (\<lambda>p s.
       if sz (ptab s ! p) \<le> addr then Ok (None, s)
       else fetchstr_loop (unat (sz (ptab s ! p))) addr (sz (ptab s ! p)) s)"

definition argint :: "nat \<Rightarrow> 'd krn \<Rightarrow> (u32 option \<times> 'd krn) outcome" where
  "argint n = with_cur (\<lambda>p s. fetchint (tf_esp (tf (ptab s ! p)) + 4 + 4 * word_of_nat n) s)"

definition argptr :: "nat \<Rightarrow> u32 \<Rightarrow> 'd krn \<Rightarrow> (u32 option \<times> 'd krn) outcome" where
  "argptr n len =
     with_cur (\<lambda>p s.
       bnd (argint n s) (\<lambda>(i, s1).
       case i of
         None \<Rightarrow> Ok (None, s1)
       | Some i \<Rightarrow>
           if sint len < 0 \<or> sz (ptab s1 ! p) \<le> i \<or> sz (ptab s1 ! p) < i + len then Ok (None, s1)
           else Ok (Some i, s1)))"

definition argstr :: "nat \<Rightarrow> 'd krn \<Rightarrow> (cstring option \<times> 'd krn) outcome" where
  "argstr n s = bnd (argint n s) (\<lambda>(a, s1). case a of None \<Rightarrow> Ok (None, s1) | Some a \<Rightarrow> fetchstr a s1)"

definition argfd :: "nat \<Rightarrow> 'd krn \<Rightarrow> ((nat \<times> nat) option \<times> 'd krn) outcome" where
  "argfd n =
     with_cur (\<lambda>p s.
       bnd (argint n s) (\<lambda>(i, s1).
       case i of
         None \<Rightarrow> Ok (None, s1)
       | Some i \<Rightarrow>
           if sint i < 0 \<or> int NOFILE \<le> sint i then Ok (None, s1)
           else Ok (map_option (\<lambda>f. (unat i, f)) (ofile (ptab s1 ! p) ! unat i), s1)))"

fun free_fd :: "nat \<Rightarrow> nat option list \<Rightarrow> nat option" where
  "free_fd fd [] = None"
| "free_fd fd (x # xs) = (if x = None then Some fd else free_fd (Suc fd) xs)"

definition fdalloc :: "nat \<Rightarrow> 'd krn \<Rightarrow> (nat option \<times> 'd krn) outcome" where
  "fdalloc f =
     with_cur (\<lambda>p s.
       case free_fd 0 (ofile (ptab s ! p)) of
         None \<Rightarrow> Ok (None, s)
       | Some fd \<Rightarrow> Ok (Some fd, upd_pp p (\<lambda>q. q\<lparr>ofile := (ofile q)[fd := Some f]\<rparr>) s))"

text \<open>The result of a call: the value for \<open>eax\<close> and the state.\<close>

definition need :: "('a option \<times> 'd krn) outcome \<Rightarrow> ('a \<Rightarrow> 'd krn \<Rightarrow> (int \<times> 'd krn) outcome) \<Rightarrow> (int \<times> 'd krn) outcome" where
  "need m f = bnd m (\<lambda>(r, s). case r of None \<Rightarrow> Ok (- 1, s) | Some x \<Rightarrow> f x s)"

lemma need_cong [fundef_cong]: "m = m' \<Longrightarrow> (\<And>x s. m' = Ok (Some x, s) \<Longrightarrow> f x s = g x s) \<Longrightarrow> need m f = need m' g"
  unfolding need_def by (rule bnd_cong) (auto split: option.split)

end
