(* ===== verification/Exec.thy ===== *)
theory Exec
  imports Uaccess
begin

text \<open>
  \<open>exec\<close> (\<open>exec.c\<close>): it builds the new address space beside the old one and commits at the end.
  The label \<open>bad:\<close> is \<open>exec_bad\<close>; the inode is unlocked there only while the transaction is open.
  The argument strings are the bytes that \<open>sys_exec\<close> has fetched.
\<close>

definition ELF_MAGIC :: u32 where "ELF_MAGIC = 0x464C457F"
definition ELF_PROG_LOAD :: u32 where "ELF_PROG_LOAD = 1"

text \<open>The fields of \<open>struct elfhdr\<close> (52 bytes) and \<open>struct proghdr\<close> (32 bytes) that are used.\<close>

definition elf_word :: "u8 list \<Rightarrow> nat \<Rightarrow> u32" where
  "elf_word bs o' = rd32 (\<lambda>i. bs ! i) o'"

definition elf_half :: "u8 list \<Rightarrow> nat \<Rightarrow> u16" where
  "elf_half bs o' = rd16 (\<lambda>i. bs ! i) o'"

definition exec_bad :: "u32 \<Rightarrow> nat option \<Rightarrow> 'd krn \<Rightarrow> (int \<times> 'd krn) outcome" where
  "exec_bad dir ipo s =
     bnd (if dir \<noteq> 0 then freevm dir s else Ok s) (\<lambda>s1.
     case ipo of
       None \<Rightarrow> Ok (- 1, s1)
     | Some ip \<Rightarrow>
         bnd (kfs (iunlockput (mypid s1) ip) s1) (\<lambda>s2.
         bnd (kfs (fs_end_op (mypid s2)) s2) (\<lambda>s3. Ok (- 1, s3))))"

text \<open>A step of \<open>exec\<close>: go on with a value, or leave through \<open>bad\<close>.\<close>

definition orbad :: "('a option \<times> 'd krn) outcome \<Rightarrow> u32 \<Rightarrow> nat option \<Rightarrow> ('a \<Rightarrow> 'd krn \<Rightarrow> (int \<times> 'd krn) outcome) \<Rightarrow> (int \<times> 'd krn) outcome" where
  "orbad m dir ipo f = bnd m (\<lambda>(r, s). case r of None \<Rightarrow> exec_bad dir ipo s | Some x \<Rightarrow> f x s)"

definition kreadi :: "nat \<Rightarrow> u32 \<Rightarrow> u32 \<Rightarrow> 'd krn \<Rightarrow> (u8 list option \<times> 'd krn) outcome" where
  "kreadi ip off n s =
     bnd (readi (devtab s) (mypid s) ip off n (kf (io s))) (\<lambda>(r, bs, t).
       Ok (if word_of_int r = n then Some bs else None, s\<lparr>io := (io s)\<lparr>kf := t\<rparr>\<rparr>))"

text \<open>The loop over the program headers: the new size, or \<open>None\<close> for \<open>goto bad\<close>.\<close>

fun exec_load :: "nat \<Rightarrow> u32 \<Rightarrow> nat \<Rightarrow> u32 \<Rightarrow> u32 \<Rightarrow> 'd krn \<Rightarrow> (u32 option \<times> 'd krn) outcome" where
  "exec_load 0 dir ip off len s = Ok (Some len, s)"
| "exec_load (Suc k) dir ip off len s =
     bnd (kreadi ip off 32 s) (\<lambda>(r, s1).
     case r of
       None \<Rightarrow> Ok (None, s1)
     | Some ph \<Rightarrow>
         let typ = elf_word ph 0; poff = elf_word ph 4; vaddr = elf_word ph 8;
             filesz = elf_word ph 16; memsz = elf_word ph 20 in
         if typ \<noteq> ELF_PROG_LOAD then exec_load k dir ip (off + 32) len s1
         else if memsz < filesz then Ok (None, s1)
         else if vaddr + memsz < vaddr then Ok (None, s1)
         else bnd (allocuvm dir len (vaddr + memsz) s1) (\<lambda>(len1, s2).
           if len1 = 0 then Ok (None, s2)
           else if unat vaddr mod PGSIZE \<noteq> 0 then Ok (None, s2)
           else bnd (loaduvm dir vaddr ip poff filesz s2) (\<lambda>(r, s3).
             if r < 0 then Ok (None, s3) else exec_load k dir ip (off + 32) len1 s3)))"

text \<open>Pushing the argument strings: the stack pointer and the addresses of the strings.\<close>

fun push_args :: "nat \<Rightarrow> u32 \<Rightarrow> cstring list \<Rightarrow> u32 \<Rightarrow> 'd krn \<Rightarrow> ((u32 \<times> u32 list) option \<times> 'd krn) outcome" where
  "push_args argc dir [] sp s = Ok (Some (sp, []), s)"
| "push_args argc dir (a # as) sp s =
     (if MAXARG \<le> argc then Ok (None, s)
      else let n = word_of_nat (length a + 1); sp1 = (sp - n) AND NOT 3
        in bnd (in_kmem (copyout dir sp1 (a @ [0]) n) s) (\<lambda>(r, s1).
           if r < 0 then Ok (None, s1)
           else bnd (push_args (Suc argc) dir as sp1 s1) (\<lambda>(r, s2).
                Ok (map_option (\<lambda>(sp2, ptrs). (sp2, sp1 # ptrs)) r, s2))))"

definition ustack :: "u32 \<Rightarrow> u32 list \<Rightarrow> u32 list" where
  "ustack sp ptrs =
     (let argc = word_of_nat (length ptrs)
      in [0xffffffff, argc, sp - (argc + 1) * 4] @ ptrs @ [0])"

definition last_component :: "cstring \<Rightarrow> cstring" where
  "last_component path = rev (takeWhile (\<lambda>c. c \<noteq> SLASH) (rev path))"

definition exec_commit :: "nat \<Rightarrow> cstring \<Rightarrow> u32 \<Rightarrow> u32 \<Rightarrow> u32 \<Rightarrow> u32 \<Rightarrow> 'd krn \<Rightarrow> (int \<times> 'd krn) outcome" where
  "exec_commit p path dir len entry sp s =
     (let olddir = pgdir (ptab s ! p);
          s1 = upd_pp p (\<lambda>q. q\<lparr>pname := map (\<lambda>c. char_of (unat c)) (take 15 (last_component path)), pgdir := dir, sz := len,
                 tf := (tf q)\<lparr>tf_eip := entry, tf_esp := sp\<rparr>\<rparr>) s
      in bnd (if swapFile (ptab s1 ! p) \<noteq> None
              then bnd (removeSwapFile p s1) (\<lambda>(_, s2). createSwapFile p s2) else Ok s1) (\<lambda>s3.
         bnd (switchuvm (Some p) (upd_pp p ResetProcPagesData s3)) (\<lambda>s4.
         bnd (freevm olddir s4) (\<lambda>s5. Ok (0, s5)))))"

definition exec_stack :: "nat \<Rightarrow> cstring \<Rightarrow> cstring list \<Rightarrow> u32 \<Rightarrow> u32 \<Rightarrow> u32 \<Rightarrow> 'd krn \<Rightarrow> (int \<times> 'd krn) outcome" where
  "exec_stack p path argv dir len0 entry s =
     (let base = PGROUNDUP len0 in
      bnd (allocuvm dir base (base + 2 * 4096) s) (\<lambda>(len, s1).
      if len = 0 then exec_bad dir None s1
      else
        bnd (on_kmem (clearpteu dir (len - 2 * 4096)) s1) (\<lambda>s2.
        orbad (push_args 0 dir argv len s2) dir None (\<lambda>(sp, ptrs) s3.
        let ws = ustack sp ptrs; n = word_of_nat (4 * length ws); sp1 = sp - n in
        bnd (in_kmem (copyout dir sp1 (concat (map bytes_of_word ws)) n) s3) (\<lambda>(r, s4).
        if r < 0 then exec_bad dir None s4 else exec_commit p path dir len entry sp1 s4)))))"

definition exec_prog :: "cstring \<Rightarrow> cstring list \<Rightarrow> 'd krn \<Rightarrow> (int \<times> 'd krn) outcome" where
  "exec_prog path argv =
     with_cur (\<lambda>p s.
       bnd (kfs fs_begin_op s) (\<lambda>s1.
       bnd (in_fs (namei (devtab s1) (mypid s1) (mycwd s1) path) s1) (\<lambda>(ipo, s2).
       case ipo of
         None \<Rightarrow> bnd (kfs (fs_end_op (mypid s2)) s2) (\<lambda>s3. Ok (- 1, s3))
       | Some ip \<Rightarrow>
           bnd (kfs (ilock (mypid s2) ip) s2) (\<lambda>s3.
           orbad (kreadi ip 0 52 s3) 0 ipo (\<lambda>elf s4.
           if elf_word elf 0 \<noteq> ELF_MAGIC then exec_bad 0 ipo s4
           else
             bnd (setupkvm s4) (\<lambda>(dir, s5).
             if dir = 0 then exec_bad 0 ipo s5
             else
               orbad (exec_load (unat (elf_half elf 44)) dir ip (elf_word elf 28) 0 s5) dir ipo (\<lambda>len s6.
               bnd (kfs (iunlockput (mypid s6) ip) s6) (\<lambda>s7.
               bnd (kfs (fs_end_op (mypid s7)) s7) (\<lambda>s8.
               exec_stack p path argv dir len (elf_word elf 24) s8)))))))))"

end
