(* ===== verification/Syscall.thy ===== *)
theory Syscall
  imports Exec
begin

text \<open>
  The system calls (\<open>sysfile.c\<close>, \<open>sysproc.c\<close>), their dispatch (\<open>syscall.c\<close>) and \<open>trap\<close>.  A call
  returns the value for \<open>eax\<close>; a call that gives the CPU away ends in \<open>Sleeping\<close> with the
  state at the context switch.  A failed argument check is the value -1 (\<open>need\<close>).
\<close>

subsection \<open>Files\<close>

definition sys_dup :: "'d krn \<Rightarrow> (int \<times> 'd krn) outcome" where
  "sys_dup s =
     need (argfd 0 s) (\<lambda>(_, f) s1.
     need (fdalloc f s1) (\<lambda>fd s2.
     bnd (filedup f (io s2)) (\<lambda>(_, t). Ok (int fd, s2\<lparr>io := t\<rparr>))))"

definition sys_read :: "'d krn \<Rightarrow> (int \<times> 'd krn) outcome" where
  "sys_read s =
     need (argfd 0 s) (\<lambda>(_, f) s1.
     need (argint 2 s1) (\<lambda>n s2.
     need (argptr 1 n s2) (\<lambda>a s3.
     bnd (fileread (devtab s3) (mypid s3) (mykilled s3) f (sint n) (io s3)) (\<lambda>(r, bs, t).
     bnd (put_user a bs (s3\<lparr>io := t\<rparr>)) (\<lambda>s4. Ok (r, s4))))))"

definition sys_write :: "'d krn \<Rightarrow> (int \<times> 'd krn) outcome" where
  "sys_write s =
     need (argfd 0 s) (\<lambda>(_, f) s1.
     need (argint 2 s1) (\<lambda>n s2.
     need (argptr 1 n s2) (\<lambda>a s3.
     bnd (get_bytes a (unat n) s3) (\<lambda>(bs, s4).
     bnd (filewrite (devtab s4) (mypid s4) (mykilled s4) f bs (sint n) (io s4)) (\<lambda>(r, t).
     Ok (r, s4\<lparr>io := t\<rparr>))))))"

definition sys_close :: "'d krn \<Rightarrow> (int \<times> 'd krn) outcome" where
  "sys_close s =
     need (argfd 0 s) (\<lambda>(fd, f).
     with_cur (\<lambda>p s1.
     bnd (on_io (fileclose (mypid s1) f) (upd_pp p (\<lambda>q. q\<lparr>ofile := (ofile q)[fd := None]\<rparr>) s1)) (\<lambda>s2.
     Ok (0, s2))))"

text \<open>\<open>struct stat\<close> in memory: two shorts are padded to four bytes.\<close>

definition stat_bytes :: "stat \<Rightarrow> u8 list" where
  "stat_bytes st =
     bytes_of_word (ucast (st_type st)) @ bytes_of_word (st_dev st) @ bytes_of_word (st_ino st) @
     bytes_of_word (ucast (st_nlink st)) @ bytes_of_word (st_size st)"

definition sys_fstat :: "'d krn \<Rightarrow> (int \<times> 'd krn) outcome" where
  "sys_fstat s =
     need (argfd 0 s) (\<lambda>(_, f) s1.
     need (argptr 1 20 s1) (\<lambda>a s2.
     bnd (filestat (mypid s2) f (io s2)) (\<lambda>(r, st, t).
     case st of
       None \<Rightarrow> Ok (r, s2\<lparr>io := t\<rparr>)
     | Some st \<Rightarrow> bnd (put_user a (stat_bytes st) (s2\<lparr>io := t\<rparr>)) (\<lambda>s3. Ok (r, s3)))))"

definition sys_link :: "'d krn \<Rightarrow> (int \<times> 'd krn) outcome" where
  "sys_link s =
     need (argstr 0 s) (\<lambda>old s1.
     need (argstr 1 s1) (\<lambda>new s2.
     in_fs (link_path (devtab s2) (mypid s2) (mycwd s2) old new) s2))"

definition sys_unlink :: "'d krn \<Rightarrow> (int \<times> 'd krn) outcome" where
  "sys_unlink s =
     need (argstr 0 s) (\<lambda>path s1. in_fs (unlink_path (devtab s1) (mypid s1) (mycwd s1) path) s1)"

text \<open>\<open>end_op(); return r\<close>, and the same behind an \<open>iunlockput(ip)\<close>\<close>

definition finish :: "int \<Rightarrow> 'd krn \<Rightarrow> (int \<times> 'd krn) outcome" where
  "finish r s = bnd (kfs (fs_end_op (mypid s)) s) (\<lambda>s1. Ok (r, s1))"

definition put_finish :: "nat \<Rightarrow> int \<Rightarrow> 'd krn \<Rightarrow> (int \<times> 'd krn) outcome" where
  "put_finish ip r s = bnd (kfs (iunlockput (mypid s) ip) s) (finish r)"

text \<open>The second half of \<open>sys_open\<close>: a file and a descriptor for the locked inode.\<close>

definition open_file :: "u32 \<Rightarrow> nat \<Rightarrow> 'd krn \<Rightarrow> (int \<times> 'd krn) outcome" where
  "open_file omode ip s =
     bnd (filealloc (io s)) (\<lambda>(fo, t).
     let s1 = s\<lparr>io := t\<rparr> in
     case fo of
       None \<Rightarrow> put_finish ip (- 1) s1
     | Some f \<Rightarrow>
         bnd (fdalloc f s1) (\<lambda>(fdo, s2).
         case fdo of
           None \<Rightarrow> bnd (on_io (fileclose (mypid s2) f) s2) (put_finish ip (- 1))
         | Some fd \<Rightarrow>
             bnd (kfs (iunlock (mypid s2) ip) s2) (\<lambda>s3.
             bnd (kfs (fs_end_op (mypid s3)) s3) (\<lambda>s4.
             Ok (int fd, s4\<lparr>io := upd_file f (\<lambda>x. x\<lparr>ftyp := FD_INODE,
               readable := (if omode AND O_WRONLY = 0 then 1 else 0),
               writable := (if omode AND O_WRONLY \<noteq> 0 \<or> omode AND O_RDWR \<noteq> 0 then 1 else 0),
               fip := Some ip, foff := 0\<rparr>) (io s4)\<rparr>)))))"

definition sys_open :: "'d krn \<Rightarrow> (int \<times> 'd krn) outcome" where
  "sys_open s =
     need (argstr 0 s) (\<lambda>path s1.
     need (argint 1 s1) (\<lambda>omode s2.
     bnd (kfs fs_begin_op s2) (\<lambda>s3.
     if omode AND O_CREATE \<noteq> 0
     then bnd (in_fs (create (devtab s3) (mypid s3) (mycwd s3) path T_FILE 0 0) s3) (\<lambda>(ipo, s4).
          case ipo of None \<Rightarrow> finish (- 1) s4 | Some ip \<Rightarrow> open_file omode ip s4)
     else bnd (in_fs (namei (devtab s3) (mypid s3) (mycwd s3) path) s3) (\<lambda>(ipo, s4).
          case ipo of
            None \<Rightarrow> finish (- 1) s4
          | Some ip \<Rightarrow>
              bnd (kfs (ilock (mypid s4) ip) s4) (\<lambda>s5.
              if itype (inodes (kf (io s5)) ! ip) = T_DIR \<and> omode \<noteq> O_RDONLY then put_finish ip (- 1) s5
              else open_file omode ip s5)))))"

text \<open>\<open>mkdir\<close> and \<open>mknod\<close> open the transaction before they fetch their arguments.\<close>

definition make_node :: "cstring \<Rightarrow> u16 \<Rightarrow> u16 \<Rightarrow> u16 \<Rightarrow> 'd krn \<Rightarrow> (int \<times> 'd krn) outcome" where
  "make_node path typ maj mnr s =
     bnd (in_fs (create (devtab s) (mypid s) (mycwd s) path typ maj mnr) s) (\<lambda>(ipo, s1).
     case ipo of None \<Rightarrow> finish (- 1) s1 | Some ip \<Rightarrow> put_finish ip 0 s1)"

definition sys_mkdir :: "'d krn \<Rightarrow> (int \<times> 'd krn) outcome" where
  "sys_mkdir s =
     bnd (kfs fs_begin_op s) (\<lambda>s1.
     bnd (argstr 0 s1) (\<lambda>(path, s2).
     case path of None \<Rightarrow> finish (- 1) s2 | Some path \<Rightarrow> make_node path T_DIR 0 0 s2))"

definition sys_mknod :: "'d krn \<Rightarrow> (int \<times> 'd krn) outcome" where
  "sys_mknod s =
     bnd (kfs fs_begin_op s) (\<lambda>s1.
     bnd (argstr 0 s1) (\<lambda>(path, s2).
     case path of
       None \<Rightarrow> finish (- 1) s2
     | Some path \<Rightarrow>
         bnd (argint 1 s2) (\<lambda>(maj, s3).
         case maj of
           None \<Rightarrow> finish (- 1) s3
         | Some maj \<Rightarrow>
             bnd (argint 2 s3) (\<lambda>(mnr, s4).
             case mnr of
               None \<Rightarrow> finish (- 1) s4
             | Some mnr \<Rightarrow> make_node path T_DEV (ucast maj) (ucast mnr) s4))))"

definition sys_chdir :: "'d krn \<Rightarrow> (int \<times> 'd krn) outcome" where
  "sys_chdir =
     with_cur (\<lambda>p s.
     bnd (kfs fs_begin_op s) (\<lambda>s1.
     bnd (argstr 0 s1) (\<lambda>(path, s2).
     case path of
       None \<Rightarrow> finish (- 1) s2
     | Some path \<Rightarrow>
         bnd (in_fs (namei (devtab s2) (mypid s2) (mycwd s2) path) s2) (\<lambda>(ipo, s3).
         case ipo of
           None \<Rightarrow> finish (- 1) s3
         | Some ip \<Rightarrow>
             bnd (kfs (ilock (mypid s3) ip) s3) (\<lambda>s4.
             if itype (inodes (kf (io s4)) ! ip) \<noteq> T_DIR then put_finish ip (- 1) s4
             else
               bnd (kfs (iunlock (mypid s4) ip) s4) (\<lambda>s5.
               case cwd (ptab s5 ! p) of
                 None \<Rightarrow> Fault
               | Some c \<Rightarrow>
                   bnd (kfs (iput (mypid s5) c) s5) (\<lambda>s6.
                   bnd (kfs (fs_end_op (mypid s6)) s6) (\<lambda>s7.
                   Ok (0, upd_pp p (\<lambda>q. q\<lparr>cwd := Some ip\<rparr>) s7)))))))))"

text \<open>The loop of \<open>sys_exec\<close> over \<open>argv\<close>: at most \<open>MAXARG\<close> strings, then a null pointer.\<close>

fun fetch_argv :: "nat \<Rightarrow> u32 \<Rightarrow> 'd krn \<Rightarrow> (cstring list option \<times> 'd krn) outcome" where
  "fetch_argv 0 uargv s = Ok (None, s)"
| "fetch_argv (Suc k) uargv s =
     bnd (fetchint uargv s) (\<lambda>(uarg, s1).
     case uarg of
       None \<Rightarrow> Ok (None, s1)
     | Some uarg \<Rightarrow>
         if uarg = 0 then Ok (Some [], s1)
         else bnd (fetchstr uarg s1) (\<lambda>(a, s2).
           case a of
             None \<Rightarrow> Ok (None, s2)
           | Some a \<Rightarrow>
               bnd (fetch_argv k (uargv + 4) s2) (\<lambda>(r, s3). Ok (map_option ((#) a) r, s3))))"

definition sys_exec :: "'d krn \<Rightarrow> (int \<times> 'd krn) outcome" where
  "sys_exec s =
     need (argstr 0 s) (\<lambda>path s1.
     need (argint 1 s1) (\<lambda>uargv s2.
     need (fetch_argv MAXARG uargv s2) (\<lambda>argv s3. exec_prog path argv s3)))"

definition sys_pipe :: "'d krn \<Rightarrow> (int \<times> 'd krn) outcome" where
  "sys_pipe s =
     need (argptr 0 8 s) (\<lambda>a.
     with_cur (\<lambda>p s1.
     bnd (pipealloc (mypid s1) (io s1)) (\<lambda>(r, rf, wr, t).
     let s2 = s1\<lparr>io := t\<rparr> in
     case (rf, wr) of
       (Some rf, Some wr) \<Rightarrow>
         if r < 0 then Ok (- 1, s2)
         else
           bnd (fdalloc rf s2) (\<lambda>(fd0, s3).
           bnd (case fd0 of None \<Rightarrow> Ok (None, s3) | Some _ \<Rightarrow> fdalloc wr s3) (\<lambda>(fd1, s4).
           case (fd0, fd1) of
             (Some fd0, Some fd1) \<Rightarrow>
               bnd (put_user a (bytes_of_word (word_of_nat fd0) @ bytes_of_word (word_of_nat fd1)) s4) (\<lambda>s5. Ok (0, s5))
           | _ \<Rightarrow>
               let s5 = (case fd0 of None \<Rightarrow> s4 | Some fd0 \<Rightarrow> upd_pp p (\<lambda>q. q\<lparr>ofile := (ofile q)[fd0 := None]\<rparr>) s4) in
               bnd (on_io (fileclose (mypid s5) rf) s5) (\<lambda>s6.
               bnd (on_io (fileclose (mypid s6) wr) s6) (\<lambda>s7. Ok (- 1, s7)))))
     | _ \<Rightarrow> Ok (- 1, s2))))"

subsection \<open>Processes\<close>

definition sys_kill :: "'d krn \<Rightarrow> (int \<times> 'd krn) outcome" where
  "sys_kill s = need (argint 0 s) (\<lambda>n s1. kill (sint n) s1)"

definition sys_getpid :: "'d krn \<Rightarrow> (int \<times> 'd krn) outcome" where
  "sys_getpid = with_cur (\<lambda>p s. Ok (pid (ptab s ! p), s))"

definition sys_sbrk :: "'d krn \<Rightarrow> (int \<times> 'd krn) outcome" where
  "sys_sbrk s =
     need (argint 0 s) (\<lambda>n.
     with_cur (\<lambda>p s1.
       let addr = sz (ptab s1 ! p)
       in bnd (growproc (sint n) s1) (\<lambda>(r, s2). Ok (if r < 0 then - 1 else sint addr, s2))))"

definition sys_uptime :: "'d krn \<Rightarrow> (int \<times> 'd krn) outcome" where
  "sys_uptime s = bnd (tick_acquire s) (\<lambda>s1. bnd (tick_release s1) (\<lambda>s2. Ok (sint (kticks s1), s2)))"

text \<open>One round of the loop of \<open>sys_sleep\<close>, with \<open>tickslock\<close> held; \<open>ticks0\<close> is when it began.\<close>

definition sleep_round :: "u32 \<Rightarrow> u32 \<Rightarrow> 'd krn \<Rightarrow> 'd waited outcome" where
  "sleep_round ticks0 n s =
     (if kticks s - ticks0 < n
      then with_cur (\<lambda>p s1.
        if killed (ptab s1 ! p) then bnd (tick_release s1) (\<lambda>s2. Ok (Returned (- 1) s2))
        else bnd (sleep Chan_ticks TickLock s1) (\<lambda>s2. Ok (Sleeping s2))) s
      else bnd (tick_release s) (\<lambda>s1. Ok (Returned 0 s1)))"

definition sys_sleep :: "'d krn \<Rightarrow> 'd waited outcome" where
  "sys_sleep s =
     bnd (argint 0 s) (\<lambda>(n, s1).
     case n of
       None \<Rightarrow> Ok (Returned (- 1) s1)
     | Some n \<Rightarrow> bnd (tick_acquire s1) (\<lambda>s2. sleep_round (kticks s2) n s2))"

definition sys_sleep_resume :: "u32 \<Rightarrow> u32 \<Rightarrow> bool \<Rightarrow> 'd krn \<Rightarrow> 'd waited outcome" where
  "sys_sleep_resume ticks0 n b s = bnd (sleep_resume TickLock b s) (sleep_round ticks0 n)"

subsection \<open>Dispatch\<close>

definition returns :: "('d krn \<Rightarrow> (int \<times> 'd krn) outcome) \<Rightarrow> 'd krn \<Rightarrow> 'd waited outcome" where
  "returns f s = bnd (f s) (\<lambda>(r, s1). Ok (Returned r s1))"

definition sys_exit :: "'d krn \<Rightarrow> 'd waited outcome" where
  "sys_exit s = bnd (exit_proc s) (\<lambda>s1. Ok (Sleeping s1))"

definition syscalls :: "('d krn \<Rightarrow> 'd waited outcome) list" where
  "syscalls =
     [returns fork, sys_exit, wait_proc, returns sys_pipe, returns sys_read, returns sys_kill, returns sys_exec,
      returns sys_fstat, returns sys_chdir, returns sys_dup, returns sys_getpid, returns sys_sbrk, sys_sleep,
      returns sys_uptime, returns sys_open, returns sys_write, returns sys_mknod, returns sys_unlink,
      returns sys_link, returns sys_mkdir, returns sys_close]"

definition set_eax :: "nat \<Rightarrow> int \<Rightarrow> 'd krn \<Rightarrow> 'd krn" where
  "set_eax p r = upd_pp p (\<lambda>q. q\<lparr>tf := (tf q)\<lparr>tf_eax := word_of_int r\<rparr>\<rparr>)"

definition syscall :: "'d krn \<Rightarrow> 'd waited outcome" where
  "syscall =
     with_cur (\<lambda>p s.
       let num = sint (tf_eax (tf (ptab s ! p))); calls = syscalls in
       if 0 < num \<and> num < int (length calls) + 1
       then bnd ((calls ! nat (num - 1)) s) (\<lambda>w. case w of
              Returned r s1 \<Rightarrow> Ok (Returned r (set_eax p r s1))
            | Sleeping s1 \<Rightarrow> Ok (Sleeping s1))
       else Ok (Returned (- 1) (set_eax p (- 1) s)))"

subsection \<open>\<open>trap\<close>\<close>

definition T_SYSCALL :: u32 where "T_SYSCALL = 64"
definition T_PGFLT :: u32 where "T_PGFLT = 14"
definition T_IRQ0 :: u32 where "T_IRQ0 = 32"
definition IRQ_TIMER :: u32 where "IRQ_TIMER = 0"
definition IRQ_KBD :: u32 where "IRQ_KBD = 1"
definition IRQ_COM1 :: u32 where "IRQ_COM1 = 4"
definition IRQ_IDE :: u32 where "IRQ_IDE = 14"
definition IRQ_SPURIOUS :: u32 where "IRQ_SPURIOUS = 31"

definition user_mode :: "trapframe \<Rightarrow> bool" where
  "user_mode t \<longleftrightarrow> tf_cs t AND 3 = 3"

text \<open>The label \<open>pf:\<close>.  The second condition of the code is \<open>(tf->cs & 3) == 0\<close>.\<close>

definition bad_trap :: "trapframe \<Rightarrow> 'd krn \<Rightarrow> 'd krn outcome" where
  "bad_trap t s =
     (case cur s of
        None \<Rightarrow> Panic ''trap''
      | Some p \<Rightarrow> panic_if (tf_cs t AND 3 = 0) ''trap'' (Ok (upd_pp p (\<lambda>q. q\<lparr>killed := True\<rparr>) s)))"

definition timer_tick :: "'d krn \<Rightarrow> 'd krn outcome" where
  "timer_tick s =
     bnd (cpuid (apic s) (mach s)) (\<lambda>c.
     if c = 0
     then bnd (tick_acquire s) (\<lambda>s1.
          bnd (wakeup Chan_ticks (s1\<lparr>kticks := kticks s1 + 1\<rparr>)) tick_release)
     else Ok s)"

definition disk_intr :: "'d krn \<Rightarrow> 'd krn outcome" where
  "disk_intr = kfs (\<lambda>t. bnd (ideintr (ide (bc (lg t)))) (\<lambda>d. Ok (t\<lparr>lg := (lg t)\<lparr>bc := (bc (lg t))\<lparr>ide := d\<rparr>\<rparr>\<rparr>)))"

text \<open>
  The \<open>switch\<close> of \<open>trap\<close>.  \<open>kbdintr\<close> and \<open>uartintr\<close> are the argument \<open>dev_intr\<close>; \<open>cr2\<close> is the
  faulting address.
\<close>

definition trap_case :: "(u32 \<Rightarrow> 'd krn \<Rightarrow> 'd krn outcome) \<Rightarrow> u32 \<Rightarrow> trapframe \<Rightarrow> 'd krn \<Rightarrow> 'd krn outcome" where
  "trap_case dev_intr cr2 t s =
     (let n = tf_trapno t in
      if n = T_IRQ0 + IRQ_TIMER then timer_tick s
      else if n = T_IRQ0 + IRQ_IDE then disk_intr s
      else if n = T_IRQ0 + IRQ_IDE + 1 then Ok s
      else if n = T_IRQ0 + IRQ_KBD \<or> n = T_IRQ0 + IRQ_COM1 then dev_intr n s
      else if n = T_IRQ0 + 7 \<or> n = T_IRQ0 + IRQ_SPURIOUS then Ok s
      else if n = T_PGFLT then bnd (page_fault cr2 s) (\<lambda>(ok, s1). if ok then Ok s1 else bad_trap t s1)
      else bad_trap t s)"

text \<open>\<open>if(myproc() && myproc()->killed && (tf->cs&3) == DPL_USER) exit();\<close>\<close>

definition exit_if_killed :: "trapframe \<Rightarrow> 'd krn \<Rightarrow> 'd waited outcome" where
  "exit_if_killed t s =
     (if cur s \<noteq> None \<and> mykilled s \<and> user_mode t then sys_exit s else Ok (Returned 0 s))"

definition trap :: "(u32 \<Rightarrow> 'd krn \<Rightarrow> 'd krn outcome) \<Rightarrow> u32 \<Rightarrow> trapframe \<Rightarrow> 'd krn \<Rightarrow> 'd waited outcome" where
  "trap dev_intr cr2 t s =
     (if tf_trapno t = T_SYSCALL
      then with_cur (\<lambda>p s1.
        if killed (ptab s1 ! p) then sys_exit s1
        else bnd (syscall (upd_pp p (\<lambda>q. q\<lparr>tf := t\<rparr>) s1)) (\<lambda>w. case w of
               Sleeping s2 \<Rightarrow> Ok (Sleeping s2)
             | Returned r s2 \<Rightarrow> if killed (ptab s2 ! p) then sys_exit s2 else Ok (Returned r s2))) s
      else
        bnd (trap_case dev_intr cr2 t s) (\<lambda>s1.
        bnd (exit_if_killed t s1) (\<lambda>w. case w of
          Sleeping s2 \<Rightarrow> Ok (Sleeping s2)
        | Returned _ s2 \<Rightarrow>
            (case cur s2 of
               Some p \<Rightarrow>
                 if state (ptab s2 ! p) = RUNNING \<and> tf_trapno t = T_IRQ0 + IRQ_TIMER
                 then bnd (yield_cpu s2) (\<lambda>s3. Ok (Sleeping s3))
                 else exit_if_killed t s2
             | None \<Rightarrow> exit_if_killed t s2))))"

text \<open>Behind the \<open>yield\<close> of a timer tick.\<close>

definition trap_resume :: "trapframe \<Rightarrow> bool \<Rightarrow> 'd krn \<Rightarrow> 'd waited outcome" where
  "trap_resume t b s = bnd (yield_resume b s) (exit_if_killed t)"

end
