(* ===== verification/Paging_Spec.thy ===== *)
theory Paging_Spec
  imports Paging
begin

text \<open>
  What the page records of a process keep.  \<open>page_list p xs\<close> says that the doubly linked list that
  starts at \<open>memoryPagesHead\<close> runs through the records \<open>xs\<close>; \<open>resident p vs\<close> abstracts it to the
  virtual addresses of the resident pages, oldest first.  The interface \<open>page_queue\<close> is what the
  replacement policy promises; it is interpreted on the code's three list functions.
\<close>

text \<open>
  The list of resident pages as the code links it: a segment \<open>xs\<close> whose first record points back
  to \<open>prv\<close> and whose last record points on to \<open>nxt\<close>.
\<close>

fun dseg :: "page_in_memory list \<Rightarrow> nat option \<Rightarrow> nat list \<Rightarrow> nat option \<Rightarrow> bool" where
  "dseg es prv [] nxt \<longleftrightarrow> True"
| "dseg es prv (x # xs) nxt \<longleftrightarrow> x < length es \<and> pprev (es ! x) = prv
     \<and> pnext (es ! x) = (if xs = [] then nxt else Some (hd xs)) \<and> dseg es (Some x) xs nxt"

definition first_of :: "nat list \<Rightarrow> nat option" where
  "first_of xs = (if xs = [] then None else Some (hd xs))"

definition records_ok :: "pproc \<Rightarrow> bool" where
  "records_ok p \<longleftrightarrow> length (pagingMetaData p) = MAX_TOTAL_PAGES
     \<and> (\<forall>i < MAX_TOTAL_PAGES. pages_memory_index (pg (pim p i)) = i)"

definition page_list :: "pproc \<Rightarrow> nat list \<Rightarrow> bool" where
  "page_list p xs \<longleftrightarrow> records_ok p \<and> distinct xs \<and> memoryPagesHead p = first_of xs
     \<and> dseg (pagingMetaData p) None xs None
     \<and> (\<forall>i < MAX_TOTAL_PAGES. i \<notin> set xs \<longrightarrow> pnext (pim p i) = None \<and> pprev (pim p i) = None)"

lemma dseg_append:
  "dseg es prv (xs @ ys) nxt \<longleftrightarrow> dseg es prv xs (if ys = [] then nxt else Some (hd ys))
     \<and> dseg es (if xs = [] then prv else Some (last xs)) ys nxt"
  by (induction xs arbitrary: prv) auto

lemma dseg_bound: "dseg es prv xs nxt \<Longrightarrow> x \<in> set xs \<Longrightarrow> x < length es"
  by (induction xs arbitrary: prv) auto

lemma dseg_cong:
  "(\<And>x. x \<in> set xs \<Longrightarrow> pnext (es ! x) = pnext (fs ! x) \<and> pprev (es ! x) = pprev (fs ! x)) \<Longrightarrow>
   length es = length fs \<Longrightarrow> dseg es prv xs nxt = dseg fs prv xs nxt"
  by (induction xs arbitrary: prv) auto

lemma tail_of_dseg:
  "dseg es prv xs None \<Longrightarrow> xs \<noteq> [] \<Longrightarrow> length xs \<le> k \<Longrightarrow> tail_of k es (hd xs) = Ok (last xs)"
proof (induction xs arbitrary: prv k)
  case (Cons x xs)
  then obtain j where k: "k = Suc j" by (cases k) auto
  with Cons show ?case by (cases xs) auto
qed simp

lemma distinct_bound: "distinct xs \<Longrightarrow> \<forall>x \<in> set xs. x < n \<Longrightarrow> length xs \<le> n"
  by (metis atLeastLessThan_iff card_atLeastLessThan card_mono distinct_card finite_atLeastLessThan minus_nat.diff_0
      subsetI zero_le)

lemma page_list_bound: "page_list p xs \<Longrightarrow> x \<in> set xs \<Longrightarrow> x < MAX_TOTAL_PAGES"
  using dseg_bound [of "pagingMetaData p" None xs None x] by (simp add: page_list_def records_ok_def)

lemma page_list_tail:
  assumes "page_list p xs" "xs \<noteq> []"
  shows "memoryPagesHead p = Some (hd xs)"
    "tail_of (Suc (length (pagingMetaData p))) (pagingMetaData p) (hd xs) = Ok (last xs)"
proof -
  have "length xs \<le> MAX_TOTAL_PAGES"
    using assms page_list_bound by (intro distinct_bound) (auto simp: page_list_def)
  then show "tail_of (Suc (length (pagingMetaData p))) (pagingMetaData p) (hd xs) = Ok (last xs)"
    using assms by (intro tail_of_dseg [of _ None]) (auto simp: page_list_def records_ok_def)
  show "memoryPagesHead p = Some (hd xs)"
    using assms by (simp add: page_list_def first_of_def)
qed

text \<open>Reading and changing one record.\<close>

lemma pim_upd_pim:
  "i < length (pagingMetaData p) \<Longrightarrow> pim (upd_pim i f p) j = (if j = i then f (pim p i) else pim p j)"
  by (simp add: pim_def upd_pim_def)

lemma upd_pim_simps [simp]:
  "length (pagingMetaData (upd_pim i f p)) = length (pagingMetaData p)"
  "memoryPagesHead (upd_pim i f p) = memoryPagesHead p"
  "num_pages_in_phys_mem (upd_pim i f p) = num_pages_in_phys_mem p"
  "num_pages_in_file (upd_pim i f p) = num_pages_in_file p"
  by (simp_all add: upd_pim_def)

text \<open>As long as every record carries its own index, writing it back to its place changes nothing.\<close>

lemma sync_pim_same:
  assumes "i < length (pagingMetaData p)" "pages_memory_index (pg (pim p i)) = i"
  shows "sync_pim i p = Ok p"
  using assms by (cases p) (simp add: sync_pim_def upd_pim_def pim_def)

lemma upd_pim_id: "upd_pim i (\<lambda>_. pim p i) p = p"
  by (cases p) (simp add: upd_pim_def pim_def)


lemma pim_nth: "pagingMetaData p ! i = pim p i"
  by (simp add: pim_def)

lemma records_ok_upd:
  "records_ok p \<Longrightarrow> (\<And>e. pages_memory_index (pg (f e)) = pages_memory_index (pg e)) \<Longrightarrow> records_ok (upd_pim i f p)"
  by (cases "i < MAX_TOTAL_PAGES") (auto simp: records_ok_def pim_def upd_pim_def nth_list_update list_update_beyond)

lemma sync_pim_ok:
  "records_ok p \<Longrightarrow> i < MAX_TOTAL_PAGES \<Longrightarrow> sync_pim i p = Ok p"
  by (rule sync_pim_same) (auto simp: records_ok_def)

text \<open>A new page at the tail of the list.\<close>

definition page_of :: "nat \<Rightarrow> u32 \<Rightarrow> page" where
  "page_of i addr = \<lparr>virtualAddr = addr, num_times_accessed = 0, offset_in_file = - 1, pages_memory_index = i,
     pgstate = PHYSMEMORY\<rparr>"

lemma InitNewPhyPage_eq:
  assumes "i < length (pagingMetaData p)"
  shows "InitNewPhyPage addr i i p = (upd_pim i (\<lambda>e. e\<lparr>pg := page_of i addr, pnext := None\<rparr>) p)
     \<lparr>num_pages_in_phys_mem := num_pages_in_phys_mem p + 1\<rparr>"
proof -
  have "upd_pim i (\<lambda>_. pim q i) q = q" for q :: pproc by (rule upd_pim_id)
  then show ?thesis by (simp add: InitNewPhyPage_def Let_def page_of_def)
qed

definition next_slot :: "u32 \<Rightarrow> pproc \<Rightarrow> nat" where
  "next_slot addr p = (if memoryPagesHead p = None then 0 else new_page_index addr p)"

lemma add_page_spec:
  assumes p: "page_list p xs" and i: "next_slot addr p = i" "i < MAX_TOTAL_PAGES" "i \<notin> set xs"
  shows "\<exists>p'. AddNewPageToPhysicalMemory addr p = Ok p' \<and> page_list p' (xs @ [i])
    \<and> (\<forall>j. pg (pim p' j) = (if j = i then page_of i addr else pg (pim p j)))
    \<and> num_pages_in_phys_mem p' = num_pages_in_phys_mem p + 1 \<and> num_pages_in_file p' = num_pages_in_file p"
proof (cases "xs = []")
  case True
  let ?q = "p\<lparr>memoryPagesHead := Some 0\<rparr>"
  let ?p = "InitNewPhyPage addr 0 0 ?q"
  have len: "length (pagingMetaData p) = MAX_TOTAL_PAGES" using p by (simp add: page_list_def records_ok_def)
  have i0: "i = 0" using True p i(1) by (simp add: page_list_def first_of_def next_slot_def)
  have eq: "?p = (upd_pim 0 (\<lambda>e. e\<lparr>pg := page_of 0 addr, pnext := None\<rparr>) ?q)
     \<lparr>num_pages_in_phys_mem := num_pages_in_phys_mem ?q + 1\<rparr>"
    by (rule InitNewPhyPage_eq) (use len i0 i in simp)
  have pim: "pim ?p j = (if j = 0 then (pim p 0)\<lparr>pg := page_of 0 addr, pnext := None\<rparr> else pim p j)" for j
    unfolding eq using len i0 i by (simp add: pim_def upd_pim_def)
  have "AddNewPageToPhysicalMemory addr p = Ok ?p"
    using True p by (simp add: AddNewPageToPhysicalMemory_def page_list_def first_of_def)
  moreover have "page_list ?p [0]"
  proof -
    have "length (pagingMetaData ?p) = MAX_TOTAL_PAGES" "memoryPagesHead ?p = Some 0"
      using len by (simp_all add: eq)
    then show ?thesis
      using p True i i0 by (auto simp: page_list_def records_ok_def pim pim_nth first_of_def page_of_def)
  qed
  moreover have "num_pages_in_phys_mem ?p = num_pages_in_phys_mem p + 1" "num_pages_in_file ?p = num_pages_in_file p"
    by (simp_all add: eq)
  ultimately show ?thesis using True i0 by (auto simp: pim)
next
  case False
  define t where "t = last xs"
  have len: "length (pagingMetaData p) = MAX_TOTAL_PAGES" using p by (simp add: page_list_def records_ok_def)
  have t: "t \<in> set xs" unfolding t_def using False by simp
  with i(3) page_list_bound [OF p] have t: "t \<in> set xs" "t < MAX_TOTAL_PAGES" "t \<noteq> i" by auto
  have idx: "new_page_index addr p = i" using i page_list_tail(1) [OF p False] by (simp add: next_slot_def)
  let ?p1 = "upd_pim t (\<lambda>e. e\<lparr>pnext := Some i\<rparr>) p"
  let ?p2 = "upd_pim i (\<lambda>e. e\<lparr>pprev := Some t\<rparr>) ?p1"
  let ?p = "InitNewPhyPage addr i i ?p2"
  have r2: "records_ok ?p2" using p by (intro records_ok_upd) (auto simp: page_list_def)
  have eq: "?p = (upd_pim i (\<lambda>e. e\<lparr>pg := page_of i addr, pnext := None\<rparr>) ?p2)
     \<lparr>num_pages_in_phys_mem := num_pages_in_phys_mem ?p2 + 1\<rparr>"
    by (rule InitNewPhyPage_eq) (use len i in simp)
  have pim: "pim ?p j = (if j = i then (pim p i)\<lparr>pg := page_of i addr, pnext := None, pprev := Some t\<rparr>
      else if j = t then (pim p t)\<lparr>pnext := Some i\<rparr> else pim p j)" for j
    unfolding eq using len i t by (simp add: pim_def upd_pim_def nth_list_update)
  have run: "AddNewPageToPhysicalMemory addr p = Ok ?p"
    using page_list_tail [OF p False] idx i(2) len t
    by (simp add: AddNewPageToPhysicalMemory_def t_def [symmetric] sync_pim_ok [OF r2])
  obtain ys where xs: "xs = ys @ [t]" using False by (metis append_butlast_last_id t_def)
  have d: "dseg (pagingMetaData p) None (ys @ [t]) None" "distinct (ys @ [t])" "i \<notin> set ys"
    using p xs i by (auto simp: page_list_def)
  have "dseg (pagingMetaData ?p) None ys (Some t) = dseg (pagingMetaData p) None ys (Some t)"
  proof (rule dseg_cong)
    fix x assume "x \<in> set ys"
    then have "x \<noteq> i" "x \<noteq> t" using d by auto
    then show "pnext (pagingMetaData ?p ! x) = pnext (pagingMetaData p ! x)
        \<and> pprev (pagingMetaData ?p ! x) = pprev (pagingMetaData p ! x)" unfolding pim_nth pim by simp
  qed (simp add: eq)
  moreover have "length (pagingMetaData ?p) = MAX_TOTAL_PAGES" using len by (simp add: eq)
  ultimately have "dseg (pagingMetaData ?p) None (xs @ [i]) None"
    using d xs i t len by (auto simp: dseg_append pim_nth pim)
  moreover have "records_ok ?p"
  proof -
    have "length (pagingMetaData ?p) = MAX_TOTAL_PAGES" using len by (simp add: eq)
    then show ?thesis using p unfolding records_ok_def pim by (simp add: page_of_def page_list_def records_ok_def)
  qed
  moreover have "memoryPagesHead ?p = first_of (xs @ [i])"
    using p False by (simp add: eq page_list_def first_of_def)
  moreover have "distinct (xs @ [i])" using p i(3) by (simp add: page_list_def)
  moreover have "\<forall>j < MAX_TOTAL_PAGES. j \<notin> set (xs @ [i]) \<longrightarrow> pnext (pim ?p j) = None \<and> pprev (pim ?p j) = None"
  proof (intro allI impI)
    fix j assume "j < MAX_TOTAL_PAGES" "j \<notin> set (xs @ [i])"
    moreover from this have "j \<noteq> i" "j \<noteq> t" using t(1) by auto
    ultimately show "pnext (pim ?p j) = None \<and> pprev (pim ?p j) = None"
      unfolding pim using p by (simp add: page_list_def)
  qed
  ultimately have "page_list ?p (xs @ [i])" unfolding page_list_def by blast
  moreover have "num_pages_in_phys_mem ?p = num_pages_in_phys_mem p + 1" "num_pages_in_file ?p = num_pages_in_file p"
    by (simp_all add: eq)
  ultimately show ?thesis using run by (auto simp: pim)
qed

text \<open>Taking a page out of the list, wherever it stands.\<close>

lemma remove_page_spec:
  assumes p: "page_list p (as @ i # bs)"
  shows "\<exists>p'. updateListPointers i p = Ok p' \<and> page_list p' (as @ bs) \<and> (\<forall>j. pg (pim p' j) = pg (pim p j))
    \<and> num_pages_in_phys_mem p' = num_pages_in_phys_mem p \<and> num_pages_in_file p' = num_pages_in_file p"
proof -
  let ?clear = "\<lambda>e. e\<lparr>pprev := None, pnext := None\<rparr>" and ?M = MAX_TOTAL_PAGES
  have r: "records_ok p" and len: "length (pagingMetaData p) = ?M" and d: "distinct (as @ i # bs)"
    and head: "memoryPagesHead p = first_of (as @ i # bs)"
    and seg: "dseg (pagingMetaData p) None (as @ i # bs) None"
    and out: "\<And>j. j < ?M \<Longrightarrow> j \<notin> set (as @ i # bs) \<Longrightarrow> pnext (pim p j) = None \<and> pprev (pim p j) = None"
    using p by (auto simp: page_list_def records_ok_def)
  have lt: "x < ?M" if "x \<in> set (as @ i # bs)" for x using page_list_bound [OF p that] .
  have links: "pprev (pim p i) = (if as = [] then None else Some (last as))" "pnext (pim p i) = first_of bs"
    using seg by (auto simp: dseg_append pim_nth first_of_def)
  define q where "q = (if as = [] then p\<lparr>memoryPagesHead := first_of bs\<rparr>
     else upd_pim (last as) (\<lambda>e. e\<lparr>pnext := first_of bs\<rparr>) p)"
  define q2 where "q2 = (if bs = [] then q else upd_pim (hd bs) (\<lambda>e. e\<lparr>pprev := (if as = [] then None else Some (last as))\<rparr>) q)"
  have rq: "records_ok q" "records_ok q2" "records_ok (upd_pim i ?clear q2)"
    using r by (auto simp: q_def q2_def intro!: records_ok_upd) (auto simp: records_ok_def pim_def)
  have lens: "length (pagingMetaData q) = ?M" "length (pagingMetaData q2) = ?M"
    using len by (auto simp: q_def q2_def)
  have mem: "as \<noteq> [] \<Longrightarrow> last as < ?M \<and> last as \<noteq> i" "bs \<noteq> [] \<Longrightarrow> hd bs < ?M \<and> hd bs \<noteq> i"
    "i < ?M"
    using lt d last_in_set [of as] hd_in_set [of bs] by auto
  have "set as \<inter> set bs = {}" using d by simp
  then have apart: "hd bs \<noteq> last as" if "as \<noteq> []" "bs \<noteq> []"
    using that by (metis IntI empty_iff hd_in_set last_in_set)
  have pq: "pim q i = pim p i" using mem len by (cases "as = []") (simp_all add: q_def pim_def upd_pim_def)
  have run: "updateListPointers i p = Ok (upd_pim i ?clear q2)"
  proof (cases "as = []")
    case True
    then show ?thesis
      using links rq lens mem pq len
      by (cases "bs = []") (simp_all add: updateListPointers_def q_def q2_def first_of_def sync_pim_ok)
  next
    case False
    then show ?thesis
      using links rq lens mem pq len
      by (cases "bs = []") (simp_all add: updateListPointers_def q_def q2_def first_of_def sync_pim_ok)
  qed
  let ?p = "upd_pim i ?clear q2"
  have pim: "pim ?p j = (if j = i then ?clear (pim p i)
      else if as \<noteq> [] \<and> j = last as then (pim p j)\<lparr>pnext := first_of bs\<rparr>
      else if bs \<noteq> [] \<and> j = hd bs then (pim p j)\<lparr>pprev := (if as = [] then None else Some (last as))\<rparr>
      else pim p j)" for j
  proof -
    have "pim q k = (if as \<noteq> [] \<and> k = last as then (pim p k)\<lparr>pnext := first_of bs\<rparr> else pim p k)" for k
      using mem(1) len by (simp add: q_def pim_upd_pim) (simp add: pim_def)
    moreover have "pim q2 k = (if bs \<noteq> [] \<and> k = hd bs
        then (pim q k)\<lparr>pprev := (if as = [] then None else Some (last as))\<rparr> else pim q k)" for k
      using mem(2) lens by (simp add: q2_def pim_upd_pim)
    moreover have "pim ?p k = (if k = i then ?clear (pim q2 i) else pim q2 k)" for k
      using mem(3) lens by (simp add: pim_upd_pim)
    ultimately show ?thesis using mem apart by auto
  qed
  have flds: "length (pagingMetaData ?p) = ?M" "memoryPagesHead ?p = first_of (as @ bs)"
    "num_pages_in_phys_mem ?p = num_pages_in_phys_mem p" "num_pages_in_file ?p = num_pages_in_file p"
    using len head by (auto simp: q2_def q_def first_of_def)
  have "dseg (pagingMetaData ?p) None as (first_of bs)"
  proof (cases "as = []")
    case False
    then obtain zs where as: "as = zs @ [last as]" by (metis append_butlast_last_id)
    have "dseg (pagingMetaData p) None (zs @ [last as]) (Some i)"
      using seg as by (simp add: dseg_append)
    moreover have "dseg (pagingMetaData ?p) None zs (Some (last as)) = dseg (pagingMetaData p) None zs (Some (last as))"
    proof (rule dseg_cong)
      fix x assume "x \<in> set zs"
      moreover have "distinct (zs @ last as # i # bs)" using d as by (metis append.assoc append_Cons append_Nil)
      ultimately have "x \<noteq> i" "x \<noteq> last as" "bs \<noteq> [] \<Longrightarrow> x \<noteq> hd bs" by auto
      then show "pnext (pagingMetaData ?p ! x) = pnext (pagingMetaData p ! x)
          \<and> pprev (pagingMetaData ?p ! x) = pprev (pagingMetaData p ! x)" unfolding pim_nth pim by auto
    qed (simp only: flds len)
    ultimately have "dseg (pagingMetaData ?p) None (zs @ [last as]) (first_of bs)"
      using mem(1) False flds(1) apart unfolding dseg_append by (simp add: pim_nth pim)
    then show ?thesis using as by metis
  qed simp
  moreover have "dseg (pagingMetaData ?p) (if as = [] then None else Some (last as)) bs None"
  proof (cases bs)
    case (Cons b cs)
    have "dseg (pagingMetaData ?p) (Some b) cs None = dseg (pagingMetaData p) (Some b) cs None"
    proof (rule dseg_cong)
      fix x assume x: "x \<in> set cs"
      then have "x \<noteq> i" "x \<noteq> b" "x \<notin> set as" using d Cons by auto
      moreover from this have "as \<noteq> [] \<Longrightarrow> x \<noteq> last as" by (metis last_in_set)
      ultimately have "x \<noteq> i" "as \<noteq> [] \<Longrightarrow> x \<noteq> last as" "x \<noteq> b" by auto
      then show "pnext (pagingMetaData ?p ! x) = pnext (pagingMetaData p ! x)
          \<and> pprev (pagingMetaData ?p ! x) = pprev (pagingMetaData p ! x)" unfolding pim_nth pim using Cons by auto
    qed (simp only: flds len)
    moreover have "dseg (pagingMetaData p) (Some i) bs None" using seg by (simp add: dseg_append)
    ultimately show ?thesis using mem(2) apart Cons flds(1) by (auto simp: pim_nth pim)
  qed simp
  ultimately have "page_list ?p (as @ bs)"
    using rq(3) d flds out links unfolding page_list_def
    by (auto simp: dseg_append first_of_def pim split: if_splits)
  then show ?thesis using run flds by (auto simp: pim)
qed

subsection \<open>First in, first out\<close>

abbreviation va_of :: "pproc \<Rightarrow> nat \<Rightarrow> u32" where
  "va_of p i \<equiv> virtualAddr (pg (pim p i))"

abbreviation st_of :: "pproc \<Rightarrow> nat \<Rightarrow> pagestate" where
  "st_of p i \<equiv> pgstate (pg (pim p i))"

definition resident_at :: "pproc \<Rightarrow> nat list \<Rightarrow> bool" where
  "resident_at p xs \<longleftrightarrow> page_list p xs
     \<and> (\<forall>i < MAX_TOTAL_PAGES. st_of p i = PHYSMEMORY \<longleftrightarrow> i \<in> set xs)
     \<and> (\<forall>i < MAX_TOTAL_PAGES. st_of p i = NOTUSED \<longrightarrow> va_of p i = 0xFFFFFFFF)
     \<and> num_pages_in_phys_mem p = word_of_nat (length xs)"

text \<open>The resident pages \<open>vs\<close>, oldest first, and all pages on record \<open>us\<close>, swapped ones included.\<close>

definition resident :: "pproc \<Rightarrow> u32 list \<Rightarrow> u32 list \<Rightarrow> bool" where
  "resident p vs us \<longleftrightarrow> (\<exists>xs ks. resident_at p xs \<and> vs = map (va_of p) xs
     \<and> distinct ks \<and> set ks = {i. i < MAX_TOTAL_PAGES \<and> st_of p i \<noteq> NOTUSED} \<and> us = map (va_of p) ks)
     \<and> num_pages_in_file p + word_of_nat (length vs) = word_of_nat (length us)"

text \<open>A new page has room when its address is not on record, a record is free and, as long as
  nothing is resident, nothing is swapped out either.\<close>

definition has_room :: "pproc \<Rightarrow> u32 \<Rightarrow> bool" where
  "has_room p a \<longleftrightarrow> PTE_ADDR a = a \<and> (\<forall>i < MAX_TOTAL_PAGES. va_of p i \<noteq> a)
     \<and> (\<exists>i < MAX_TOTAL_PAGES. st_of p i = NOTUSED)
     \<and> (memoryPagesHead p = None \<longrightarrow> (\<forall>i < MAX_TOTAL_PAGES. st_of p i \<noteq> SWAPFILE))"

text \<open>What \<open>MemoryToSwapFile\<close> does to the records once the page is in the file.\<close>

definition swap_out_record :: "nat \<Rightarrow> pproc \<Rightarrow> pproc outcome" where
  "swap_out_record i p =
     (let off = (if - 1 < offset_in_file (pg (pim p i)) then offset_in_file (pg (pim p i))
                 else sint (4096 * num_pages_in_file p));
          p1 = upd_pim i (\<lambda>e. e\<lparr>pg := (pg e)\<lparr>offset_in_file := off, num_times_accessed := 0, pgstate := SWAPFILE\<rparr>\<rparr>) p;
          p2 = p1\<lparr>num_pages_in_file := num_pages_in_file p1 + 1\<rparr>
      in bnd (updateListPointers i p2) (\<lambda>p3. bnd (sync_pim i p3) (\<lambda>p4.
         Ok (p4\<lparr>num_pages_in_phys_mem := num_pages_in_phys_mem p4 - 1\<rparr>))))"

lemma counters_frame [simp]:
  "pim (p\<lparr>num_pages_in_phys_mem := n\<rparr>) i = pim p i"
  "page_list (p\<lparr>num_pages_in_phys_mem := n\<rparr>) xs = page_list p xs"
  "pim (p\<lparr>num_pages_in_file := n\<rparr>) i = pim p i"
  by (simp_all add: pim_def page_list_def records_ok_def)

lemma find_va_None: "find_va v k es = None \<longleftrightarrow> (\<forall>e \<in> set es. virtualAddr (pg e) \<noteq> v)"
  by (induction es arbitrary: k) auto

lemma find_state_Some:
  "find_state st k es = Some j \<Longrightarrow> k \<le> j \<and> j - k < length es \<and> pgstate (pg (es ! (j - k))) = st"
proof (induction es arbitrary: k)
  case (Cons e es)
  show ?case
  proof (cases "pgstate (pg e) = st")
    case False
    with Cons.prems Cons.IH [of "Suc k"] show ?thesis by (auto simp: nth_Cons')
  qed (use Cons.prems in auto)
qed simp

lemma find_state_None: "find_state st k es = None \<longleftrightarrow> (\<forall>e \<in> set es. pgstate (pg e) \<noteq> st)"
  by (induction es arbitrary: k) auto

lemma has_room_slot:
  assumes "resident_at p xs" "has_room p a"
  shows "next_slot a p < MAX_TOTAL_PAGES" "next_slot a p \<notin> set xs" "st_of p (next_slot a p) = NOTUSED"
proof -
  have len: "length (pagingMetaData p) = MAX_TOTAL_PAGES" using assms(1) by (simp add: resident_at_def page_list_def records_ok_def)
  have "next_slot a p < MAX_TOTAL_PAGES \<and> st_of p (next_slot a p) = NOTUSED"
  proof (cases "memoryPagesHead p = None")
    case True
    then have "xs = []" using assms(1) by (auto simp: resident_at_def page_list_def first_of_def split: if_splits)
    then show ?thesis
      using True assms by (cases "st_of p 0") (auto simp: next_slot_def has_room_def resident_at_def MAX_TOTAL_PAGES_def)
  next
    case False
    have "find_va (PTE_ADDR a) 0 (pagingMetaData p) = None"
      using assms(2) len by (auto simp: find_va_None has_room_def in_set_conv_nth pim_def)
    moreover have "find_state NOTUSED 0 (pagingMetaData p) \<noteq> None"
      using assms(2) len nth_mem [of _ "pagingMetaData p"] unfolding find_state_None
      by (auto simp: has_room_def pim_def)
    then obtain j where j: "find_state NOTUSED 0 (pagingMetaData p) = Some j"
      by blast
    ultimately have "next_slot a p = j" using False by (auto simp: next_slot_def new_page_index_def)
    with find_state_Some [OF j] len show ?thesis by (simp add: pim_def)
  qed
  then show "next_slot a p < MAX_TOTAL_PAGES" "st_of p (next_slot a p) = NOTUSED" by auto
  with assms(1) show "next_slot a p \<notin> set xs" by (auto simp: resident_at_def)
qed

lemma resident_room:
  assumes "resident p vs us" "PTE_ADDR a = a" "a \<notin> set us" "length us < MAX_TOTAL_PAGES" "vs = [] \<longrightarrow> us = []"
  shows "has_room p a"
proof -
  obtain xs ks where xs: "resident_at p xs" "vs = map (va_of p) xs" "distinct ks"
    "set ks = {i. i < MAX_TOTAL_PAGES \<and> st_of p i \<noteq> NOTUSED}" "us = map (va_of p) ks"
    using assms(1) unfolding resident_def by blast
  have "va_of p i \<noteq> a" if "i < MAX_TOTAL_PAGES" for i
  proof (cases "st_of p i = NOTUSED")
    case True
    then have "va_of p i = 0xFFFFFFFF" using xs(1) that by (simp add: resident_at_def)
    moreover have "PTE_ADDR 0xFFFFFFFF \<noteq> 0xFFFFFFFF" by (simp add: PTE_ADDR_def)
    ultimately show ?thesis using assms(2) by metis
  next
    case False
    then have "i \<in> set ks" using that xs(4) by simp
    then show ?thesis using assms(3) xs(5) by auto
  qed
  moreover have "\<exists>i < MAX_TOTAL_PAGES. st_of p i = NOTUSED"
  proof (rule ccontr)
    assume "\<not> ?thesis"
    then have "set ks = {0..<MAX_TOTAL_PAGES}" using xs(4) by auto
    then have "length ks = MAX_TOTAL_PAGES" using xs(3) distinct_card [of ks] by simp
    then show False using assms(4) xs(5) by simp
  qed
  moreover have "st_of p i \<noteq> SWAPFILE" if "memoryPagesHead p = None" "i < MAX_TOTAL_PAGES" for i
  proof -
    have "xs = []" using that(1) xs(1) by (auto simp: resident_at_def page_list_def first_of_def split: if_splits)
    then have "ks = []" using assms(5) xs(2,5) by simp
    then show ?thesis using that(2) xs(4) by auto
  qed
  ultimately show ?thesis using assms(2) by (auto simp: has_room_def)
qed

lemma add_resident:
  assumes "resident p vs us" "PTE_ADDR a = a" "a \<notin> set us" "length us < MAX_TOTAL_PAGES" "vs = [] \<longrightarrow> us = []"
  shows "\<exists>q. AddNewPageToPhysicalMemory a p = Ok q \<and> resident q (vs @ [a]) (us @ [a])"
proof -
  obtain xs ks where xs: "resident_at p xs" "vs = map (va_of p) xs" and ks: "distinct ks"
    "set ks = {i. i < MAX_TOTAL_PAGES \<and> st_of p i \<noteq> NOTUSED}" "us = map (va_of p) ks"
    using assms(1) unfolding resident_def by blast
  define i where "i = next_slot a p"
  note slot = has_room_slot [OF xs(1) resident_room [OF assms], folded i_def]
  obtain q where q: "AddNewPageToPhysicalMemory a p = Ok q" "page_list q (xs @ [i])"
    "\<And>j. pg (pim q j) = (if j = i then page_of i a else pg (pim p j))"
    "num_pages_in_phys_mem q = num_pages_in_phys_mem p + 1" "num_pages_in_file q = num_pages_in_file p"
    using add_page_spec [of p xs a i] xs slot by (auto simp: resident_at_def i_def)
  have "resident_at q (xs @ [i])"
    using q xs(1) slot by (auto simp: resident_at_def page_of_def)
  moreover have "vs @ [a] = map (va_of q) (xs @ [i])"
    using slot(2) by (auto simp: q(3) xs(2) page_of_def)
  moreover have "i \<notin> set ks" using slot ks(2) by simp
  then have "distinct (ks @ [i])" "us @ [a] = map (va_of q) (ks @ [i])"
    using ks by (auto simp: q(3) page_of_def)
  moreover have "set (ks @ [i]) = {i. i < MAX_TOTAL_PAGES \<and> st_of q i \<noteq> NOTUSED}"
    using ks(2) slot by (auto simp: q(3) page_of_def)
  moreover have "num_pages_in_file q + word_of_nat (length (vs @ [a])) = word_of_nat (length (us @ [a]))"
    using assms(1) q(5) by (simp add: resident_def algebra_simps)
  ultimately show ?thesis using q(1) unfolding resident_def by blast
qed

lemma evict_resident:
  assumes "resident p (v # vs) us"
  shows "\<exists>i q. choosePageFromPhysMem p = Some i \<and> va_of p i = v \<and> swap_out_record i p = Ok q \<and> resident q vs us"
proof -
  obtain i xs ks where xs: "resident_at p (i # xs)" "v = va_of p i" "vs = map (va_of p) xs" and ks: "distinct ks"
    "set ks = {i. i < MAX_TOTAL_PAGES \<and> st_of p i \<noteq> NOTUSED}" "us = map (va_of p) ks"
    using assms by (auto simp: resident_def)
  define f where "f = (\<lambda>e :: page. e\<lparr>offset_in_file := (if - 1 < offset_in_file (pg (pim p i)) then offset_in_file (pg (pim p i))
       else sint (4096 * num_pages_in_file p)), num_times_accessed := 0, pgstate := SWAPFILE\<rparr>)"
  define p2 where "p2 = (upd_pim i (\<lambda>e. e\<lparr>pg := f (pg e)\<rparr>) p)\<lparr>num_pages_in_file := num_pages_in_file p + 1\<rparr>"
  have i: "i < MAX_TOTAL_PAGES" "i \<notin> set xs" and len: "length (pagingMetaData p) = MAX_TOTAL_PAGES"
    using xs(1) page_list_bound [of p "i # xs" i] by (auto simp: resident_at_def page_list_def records_ok_def)
  have pg2: "pim p2 j = (if j = i then (pim p i)\<lparr>pg := f (pg (pim p i))\<rparr> else pim p j)" for j
    using i len by (simp add: p2_def pim_def upd_pim_def)
  have l2: "length (pagingMetaData p2) = MAX_TOTAL_PAGES" "memoryPagesHead p2 = memoryPagesHead p"
    "num_pages_in_phys_mem p2 = num_pages_in_phys_mem p" using len by (simp_all add: p2_def)
  have "dseg (pagingMetaData p2) None (i # xs) None = dseg (pagingMetaData p) None (i # xs) None"
    by (rule dseg_cong) (simp_all only: pim_nth pg2 l2 len, simp)
  then have "page_list p2 ([] @ i # xs)"
    using xs(1) l2 by (auto simp: resident_at_def page_list_def records_ok_def pg2 f_def)
  from remove_page_spec [OF this] obtain q where q: "updateListPointers i p2 = Ok q" "page_list q xs"
    "\<And>j. pg (pim q j) = pg (pim p2 j)" "num_pages_in_phys_mem q = num_pages_in_phys_mem p"
    "num_pages_in_file q = num_pages_in_file p + 1" using l2 by (auto simp: p2_def)
  let ?q = "q\<lparr>num_pages_in_phys_mem := num_pages_in_phys_mem q - 1\<rparr>"
  have "swap_out_record i p = bnd (updateListPointers i p2) (\<lambda>p3. bnd (sync_pim i p3) (\<lambda>p4.
      Ok (p4\<lparr>num_pages_in_phys_mem := num_pages_in_phys_mem p4 - 1\<rparr>)))"
    unfolding swap_out_record_def p2_def f_def Let_def by simp
  then have "swap_out_record i p = Ok ?q"
    using q(1) sync_pim_ok [of q i] q(2) i by (simp add: page_list_def)
  moreover have "resident_at ?q xs"
    using xs(1) q(2-4) i by (auto simp: resident_at_def pg2 f_def)
  moreover have "vs = map (va_of ?q) xs" "us = map (va_of ?q) ks" using i xs(3) ks(3) by (auto simp: q(3) pg2 f_def)
  moreover have "set ks = {i. i < MAX_TOTAL_PAGES \<and> st_of ?q i \<noteq> NOTUSED}"
    using ks(2) xs(1) i by (auto simp: q(3) pg2 f_def resident_at_def)
  moreover have "choosePageFromPhysMem p = Some i"
    using xs(1) by (simp add: choosePageFromPhysMem_def resident_at_def page_list_def first_of_def)
  moreover have "num_pages_in_file ?q + word_of_nat (length vs) = word_of_nat (length us)"
    using assms q(5) by (simp add: resident_def algebra_simps)
  ultimately show ?thesis using xs(2) ks(1) unfolding resident_def by blast
qed

subsection \<open>The policy as an interface\<close>

text \<open>A sequence of requests: \<open>Some a\<close> adds the page at \<open>a\<close>, \<open>None\<close> asks for a victim.\<close>

fun page_run :: "('a \<Rightarrow> 's \<Rightarrow> 's outcome) \<Rightarrow> ('s \<Rightarrow> 'k option) \<Rightarrow> ('k \<Rightarrow> 's \<Rightarrow> 's outcome) \<Rightarrow> ('s \<Rightarrow> 'k \<Rightarrow> 'a)
    \<Rightarrow> 'a option list \<Rightarrow> 's \<Rightarrow> ('a list \<times> 's) outcome" where
  "page_run add victim evict adr [] s = Ok ([], s)"
| "page_run add victim evict adr (Some a # os) s = bnd (add a s) (page_run add victim evict adr os)"
| "page_run add victim evict adr (None # os) s =
     (case victim s of
        None \<Rightarrow> Fault
      | Some k \<Rightarrow> bnd (evict k s) (\<lambda>t. bnd (page_run add victim evict adr os t) (\<lambda>(vs, u). Ok (adr s k # vs, u))))"

fun added :: "'a option list \<Rightarrow> 'a list" where
  "added [] = []"
| "added (Some a # os) = a # added os"
| "added (None # os) = added os"

text \<open>A victim is only asked for while two pages are resident.\<close>

fun requests_ok :: "nat \<Rightarrow> 'a option list \<Rightarrow> bool" where
  "requests_ok n [] \<longleftrightarrow> True"
| "requests_ok n (Some a # os) \<longleftrightarrow> requests_ok (Suc n) os"
| "requests_ok n (None # os) \<longleftrightarrow> 2 \<le> n \<and> requests_ok (n - 1) os"

locale page_queue =
  fixes add :: "'a \<Rightarrow> 's \<Rightarrow> 's outcome"
    and victim :: "'s \<Rightarrow> 'k option"
    and evict :: "'k \<Rightarrow> 's \<Rightarrow> 's outcome"
    and adr :: "'s \<Rightarrow> 'k \<Rightarrow> 'a"
    and queue :: "'s \<Rightarrow> 'a list \<Rightarrow> 'a list \<Rightarrow> bool"
    and okadr :: "'a \<Rightarrow> bool"
    and capacity :: nat
  assumes add_ok: "queue s vs us \<Longrightarrow> okadr a \<Longrightarrow> a \<notin> set us \<Longrightarrow> length us < capacity \<Longrightarrow>
        vs = [] \<longrightarrow> us = [] \<Longrightarrow> \<exists>t. add a s = Ok t \<and> queue t (vs @ [a]) (us @ [a])"
    and evict_ok: "queue s (v # vs) us \<Longrightarrow>
        \<exists>k t. victim s = Some k \<and> adr s k = v \<and> evict k s = Ok t \<and> queue t vs us"
begin

lemma run_fifo:
  "queue s vs us \<Longrightarrow> requests_ok (length vs) os \<Longrightarrow> vs = [] \<longrightarrow> us = [] \<Longrightarrow> distinct (us @ added os) \<Longrightarrow>
   length (us @ added os) \<le> capacity \<Longrightarrow> \<forall>a \<in> set (added os). okadr a \<Longrightarrow>
   \<exists>out rest t. page_run add victim evict adr os s = Ok (out, t) \<and> vs @ added os = out @ rest
     \<and> queue t rest (us @ added os)"
proof (induction os arbitrary: s vs us rule: added.induct)
  case (2 a os)
  obtain t where t: "add a s = Ok t" "queue t (vs @ [a]) (us @ [a])"
    using add_ok [OF 2(2), of a] 2 by auto
  from 2(1) [OF t(2)] 2 t(1) show ?case by auto
next
  case (3 os)
  then obtain v ws where vs: "vs = v # ws" by (cases vs) auto
  obtain k t where t: "victim s = Some k" "adr s k = v" "evict k s = Ok t" "queue t ws us"
    using evict_ok [of s v ws us] 3(2) vs by auto
  have ws: "ws \<noteq> []" using 3 vs by (cases ws) auto
  obtain out rest u where "page_run add victim evict adr os t = Ok (out, u)" "ws @ added os = out @ rest"
    "queue u rest (us @ added os)"
    using 3(1) [OF t(4)] 3 vs ws by auto
  with t show ?case by (intro exI [of _ "v # out"] exI [of _ rest] exI [of _ u]) (simp add: vs)
qed auto

end

interpretation pgq: page_queue AddNewPageToPhysicalMemory choosePageFromPhysMem swap_out_record va_of resident
  "\<lambda>a. PTE_ADDR a = a" MAX_TOTAL_PAGES
  by unfold_locales (rule add_resident, assumption+, rule evict_resident)

subsection \<open>The same policy in the kernel\<close>

text \<open>
  \<open>MemoryToSwapFile\<close> on the kernel: a write that fails leaves every process as it was, and one that succeeds
  changes the records of the process as \<open>swap_out_record\<close> does and no other process.
\<close>

lemma ptab_frame [simp]: "ptab (set_kmem m s) = ptab s" "ptab (seek_swap f off s) = ptab s"
  by (simp_all add: set_kmem_def seek_swap_def)

lemma on_kmem_ptab: "on_kmem f s = Ok t \<Longrightarrow> ptab t = ptab s"
  by (auto simp: on_kmem_def outcome_simps)

lemma in_kmem_ptab: "in_kmem f s = Ok (r, t) \<Longrightarrow> ptab t = ptab s"
  by (auto simp: in_kmem_def outcome_simps)

lemma writeToSwapFile_ptab: "writeToSwapFile p buf off n s = Ok (r, t) \<Longrightarrow> ptab t = ptab s"
  by (auto simp: writeToSwapFile_def Let_def outcome_simps split: option.splits)

definition written :: "nat \<Rightarrow> pproc \<Rightarrow> pproc" where
  "written i p =
     (let off = (if - 1 < offset_in_file (pg (pim p i)) then offset_in_file (pg (pim p i))
                 else sint (4096 * num_pages_in_file p));
          p1 = upd_pim i (\<lambda>e. e\<lparr>pg := (pg e)\<lparr>offset_in_file := off, num_times_accessed := 0, pgstate := SWAPFILE\<rparr>\<rparr>) p
      in p1\<lparr>num_pages_in_file := num_pages_in_file p1 + 1\<rparr>)"

lemma swap_out_written:
  "swap_out_record i p = bnd (updateListPointers i (written i p)) (\<lambda>p3. bnd (sync_pim i p3) (\<lambda>p4.
         Ok (p4\<lparr>num_pages_in_phys_mem := num_pages_in_phys_mem p4 - 1\<rparr>)))"
  by (simp add: swap_out_record_def written_def Let_def)

lemma upd_pim_twice: "upd_pim i f (upd_pim i g p) = upd_pim i (\<lambda>e. f (g e)) p"
  by (cases "i < length (pagingMetaData p)") (simp_all add: upd_pim_def list_update_beyond)

lemma upd_pim_cong: "f (pim p i) = g (pim p i) \<Longrightarrow> upd_pim i f p = upd_pim i g p"
  by (simp add: upd_pim_def pim_def)

lemma upd_pp_twice: "upd_pp p f (upd_pp p g s) = upd_pp p (\<lambda>q. f (g q)) s"
  by (cases "p < length (ptab s)") (simp_all add: upd_pp_def list_update_beyond)

lemma WritePageToFile_records:
  assumes w: "WritePageToFile p i s = Ok (r, t)" and p: "p < length (ptab s)"
  shows "r = - 1 \<and> ptab t = ptab s \<or> r = 0 \<and> ptab t = (ptab s)[p := written i (ptab s ! p)]"
proof -
  obtain buf n s1 where s1: "writeToSwapFile p buf (if - 1 < offset_in_file (the_page p i s) then word_of_int (offset_in_file (the_page p i s))
      else 4096 * num_pages_in_file (ptab s ! p)) 4096 s = Ok (n, s1)"
    and r: "(if n = - 1 then Ok (- 1, s1)
         else
           let s2 = (if - 1 < offset_in_file (the_page p i s) then s1
                     else upd_pg p i (\<lambda>e. e\<lparr>offset_in_file := sint (4096 * num_pages_in_file (ptab s1 ! p))\<rparr>) s1);
               s3 = upd_pg p i (\<lambda>e. e\<lparr>num_times_accessed := 0, pgstate := SWAPFILE\<rparr>) s2
           in Ok (0, upd_pp p (\<lambda>q. q\<lparr>num_pages_in_file := num_pages_in_file q + 1\<rparr>) s3)) = Ok (r, t)"
    using w by (auto simp: WritePageToFile_def Let_def outcome_simps)
  have e: "ptab s1 = ptab s" using writeToSwapFile_ptab [OF s1] .
  show ?thesis
  proof (cases "n = - 1")
    case True
    then show ?thesis using r e by simp
  next
    case False
    show ?thesis
    proof (cases "- 1 < offset_in_file (the_page p i s)")
      case True
      then have "r = 0" "t = upd_pp p (written i) s1"
        using r False e p
        by (auto simp: upd_pg_def upd_pp_twice the_page_def)
          (auto simp: upd_pp_def written_def pim_def upd_pim_def Let_def)
      then show ?thesis using e by (simp add: upd_pp_def)
    next
      case o: False
      then have "r = 0" "t = upd_pp p (written i) s1"
        using r False e p
        by (auto simp: upd_pg_def upd_pp_twice the_page_def upd_pim_twice)
          (auto simp: upd_pp_def written_def pim_def upd_pim_def Let_def)
      then show ?thesis using e by (simp add: upd_pp_def)
    qed
  qed
qed

lemma on_pp_Ok: "on_pp p f s = Ok t \<Longrightarrow> \<exists>q. f (ptab s ! p) = Ok q \<and> ptab t = (ptab s)[p := q]"
  by (auto simp: on_pp_def outcome_simps upd_pp_def)

lemma MemoryToSwapFile_records:
  assumes m: "MemoryToSwapFile p (Some i) s = Ok (r, t)" and p: "p < length (ptab s)"
  shows "r = - 1 \<and> ptab t = ptab s
    \<or> r = 0 \<and> (\<exists>q. swap_out_record i (ptab s ! p) = Ok q \<and> ptab t = (ptab s)[p := q])"
proof -
  obtain pte s1 n s2 where s1: "in_kmem (walkpgdir (pgdir (ptab s ! p)) (virtualAddr (the_page p i s)) False) s = Ok (pte, s1)"
    and s2: "WritePageToFile p i s1 = Ok (n, s2)"
    using m by (auto simp: MemoryToSwapFile_def Let_def outcome_simps)
  have e1: "ptab s1 = ptab s" using in_kmem_ptab [OF s1] .
  show ?thesis
  proof (cases "n = - 1")
    case True
    then have "r = - 1" "t = s2" using m s1 s2 by (auto simp: MemoryToSwapFile_def Let_def outcome_simps)
    then show ?thesis using WritePageToFile_records [OF s2] p e1 True by simp
  next
    case False
    then have e2: "ptab s2 = (ptab s)[p := written i (ptab s ! p)]" using WritePageToFile_records [OF s2] p e1 by auto
    obtain s3 s4 s5 s6 s7 s8 where st: "on_pp p (updateListPointers i) s2 = Ok s3" "on_pp p (sync_pim i) s3 = Ok s4"
      "on_kmem (clear_present (pgdir (ptab s ! p)) (virtualAddr (the_page p i s))) s4 = Ok s5"
      "on_kmem (set_pagedout (pgdir (ptab s ! p)) (virtualAddr (the_page p i s))) s5 = Ok s6"
      "on_kmem (clear_PTE_A (pgdir (ptab s ! p)) (virtualAddr (the_page p i s))) s6 = Ok s7"
      "on_kmem (kfree (P2V (PTE_ADDR (pte_get pte (kmem_of s7))))) s7 = Ok s8"
      "r = 0" "t = (upd_pp p (\<lambda>q. q\<lparr>num_pages_in_phys_mem := num_pages_in_phys_mem q - 1\<rparr>) s8)\<lparr>cr3 := V2P (pgdir (ptab s ! p))\<rparr>"
      using m s1 s2 False by (auto simp: MemoryToSwapFile_def Let_def outcome_simps)
    obtain q3 where q3: "updateListPointers i (written i (ptab s ! p)) = Ok q3" "ptab s3 = (ptab s)[p := q3]"
      using on_pp_Ok [OF st(1)] e2 p by auto
    obtain q4 where q4: "sync_pim i q3 = Ok q4" "ptab s4 = (ptab s)[p := q4]"
      using on_pp_Ok [OF st(2)] q3(2) p by auto
    have "ptab s8 = (ptab s)[p := q4]" using on_kmem_ptab st(3-6) q4(2) by metis
    then have "ptab t = (ptab s)[p := q4\<lparr>num_pages_in_phys_mem := num_pages_in_phys_mem q4 - 1\<rparr>]"
      using st(8) p by (simp add: upd_pp_def)
    then show ?thesis using st(7) q3(1) q4(1) by (simp add: swap_out_written)
  qed
qed

text \<open>
  The place of a page in the swap file is the number of pages in it, which is not always free: when a page that
  was swapped out early has been given up or brought back, the next page swapped out is written over one that
  is still there.
\<close>

lemma swap_slot_reused:
  assumes p: "page_list p (i # xs)" "offset_in_file (pg (pim p i)) = - 1"
    and j: "j \<noteq> i" "st_of p j = SWAPFILE" "offset_in_file (pg (pim p j)) = sint (4096 * num_pages_in_file p)"
  shows "\<exists>q. swap_out_record i p = Ok q \<and> st_of q i = SWAPFILE \<and> st_of q j = SWAPFILE
    \<and> offset_in_file (pg (pim q i)) = offset_in_file (pg (pim q j))"
proof -
  have i: "i < MAX_TOTAL_PAGES" and len: "length (pagingMetaData p) = MAX_TOTAL_PAGES"
    using p(1) page_list_bound [OF p(1), of i] by (simp_all add: page_list_def records_ok_def)
  have pg2: "pim (written i p) k = (if k = i then (pim p i)\<lparr>pg := (pg (pim p i))\<lparr>offset_in_file := sint (4096 * num_pages_in_file p),
      num_times_accessed := 0, pgstate := SWAPFILE\<rparr>\<rparr> else pim p k)" for k
    using i len p(2) by (simp add: written_def pim_def upd_pim_def)
  have l2: "length (pagingMetaData (written i p)) = MAX_TOTAL_PAGES" "memoryPagesHead (written i p) = memoryPagesHead p"
    using len by (simp_all add: written_def Let_def)
  have "dseg (pagingMetaData (written i p)) None (i # xs) None = dseg (pagingMetaData p) None (i # xs) None"
    by (rule dseg_cong) (simp_all only: pim_nth pg2 l2 len, simp)
  then have "page_list (written i p) ([] @ i # xs)"
    using p(1) l2 by (auto simp: page_list_def records_ok_def pg2)
  from remove_page_spec [OF this] obtain q where q: "updateListPointers i (written i p) = Ok q" "page_list q xs"
    "\<And>k. pg (pim q k) = pg (pim (written i p) k)" by auto
  have "swap_out_record i p = Ok (q\<lparr>num_pages_in_phys_mem := num_pages_in_phys_mem q - 1\<rparr>)"
    using q(1) sync_pim_ok [of q i] q(2) i by (simp add: swap_out_written page_list_def)
  then show ?thesis using j by (simp add: q(3) pg2)
qed

text \<open>A session of the running process in the kernel: it stops where the write to the swap file fails.\<close>

definition kernel_add :: "nat \<Rightarrow> u32 \<Rightarrow> 'd krn \<Rightarrow> 'd krn outcome" where
  "kernel_add p a = on_pp p (AddNewPageToPhysicalMemory a)"

definition kernel_victim :: "nat \<Rightarrow> 'd krn \<Rightarrow> nat option" where
  "kernel_victim p s = choosePageFromPhysMem (ptab s ! p)"

definition kernel_evict :: "nat \<Rightarrow> nat \<Rightarrow> 'd krn \<Rightarrow> 'd krn outcome" where
  "kernel_evict p i s = bnd (MemoryToSwapFile p (Some i) s) (\<lambda>(r, t). if r = - 1 then Fault else Ok t)"

definition kernel_session :: "nat \<Rightarrow> u32 option list \<Rightarrow> 'd krn \<Rightarrow> (u32 list \<times> 'd krn) outcome" where
  "kernel_session p = page_run (kernel_add p) (kernel_victim p) (kernel_evict p) (\<lambda>s. va_of (ptab s ! p))"

lemma kernel_session_records:
  "kernel_session p os s = Ok (out, t) \<Longrightarrow> p < length (ptab s) \<Longrightarrow>
   \<exists>q. page_run AddNewPageToPhysicalMemory choosePageFromPhysMem swap_out_record va_of os (ptab s ! p) = Ok (out, q)
     \<and> ptab t = (ptab s)[p := q]"
proof (induction os arbitrary: s out rule: added.induct)
  case 1
  then show ?case by (simp add: kernel_session_def)
next
  case (2 a os)
  then obtain s1 where s1: "kernel_add p a s = Ok s1" "kernel_session p os s1 = Ok (out, t)"
    by (auto simp: kernel_session_def outcome_simps)
  then obtain q where q: "AddNewPageToPhysicalMemory a (ptab s ! p) = Ok q" "ptab s1 = (ptab s)[p := q]"
    unfolding kernel_add_def using on_pp_Ok by blast
  show ?case using 2(1) [OF s1(2)] q 2(3) by simp
next
  case (3 os)
  then obtain i s1 out1 where s1: "choosePageFromPhysMem (ptab s ! p) = Some i" "kernel_evict p i s = Ok s1"
    "kernel_session p os s1 = Ok (out1, t)" "out = va_of (ptab s ! p) i # out1"
    by (auto simp: kernel_session_def kernel_victim_def outcome_simps split: option.splits)
  from s1(2) obtain r where "MemoryToSwapFile p (Some i) s = Ok (r, s1)" "r \<noteq> - 1"
    by (auto simp: kernel_evict_def outcome_simps split: if_splits)
  from MemoryToSwapFile_records [OF this(1) 3(3)] this(2)
  obtain q where q: "swap_out_record i (ptab s ! p) = Ok q" "ptab s1 = (ptab s)[p := q]" by auto
  show ?case using 3(1) [OF s1(3)] q s1(1,4) 3(3) by auto
qed

lemma reset_pims_nth:
  "i < length es \<Longrightarrow> reset_pims k es ! i = \<lparr>pg = \<lparr>virtualAddr = 0xFFFFFFFF, num_times_accessed = 0,
     offset_in_file = - 1, pages_memory_index = k + i, pgstate = NOTUSED\<rparr>, pnext = None, pprev = None\<rparr>"
  by (induction es arbitrary: k i) (auto simp: nth_Cons split: nat.splits)

lemma length_reset_pims [simp]: "length (reset_pims k es) = length es"
  by (induction es arbitrary: k) auto

lemma reset_resident:
  assumes "length (pagingMetaData p) = MAX_TOTAL_PAGES"
  shows "resident (ResetProcPagesData p) [] []"
proof -
  have "pim (ResetProcPagesData p) i = \<lparr>pg = \<lparr>virtualAddr = 0xFFFFFFFF, num_times_accessed = 0,
     offset_in_file = - 1, pages_memory_index = i, pgstate = NOTUSED\<rparr>, pnext = None, pprev = None\<rparr>"
    if "i < MAX_TOTAL_PAGES" for i
    using that assms by (simp add: pim_def ResetProcPagesData_def reset_pims_nth)
  then have "resident_at (ResetProcPagesData p) []"
    using assms by (auto simp: resident_at_def page_list_def records_ok_def first_of_def)
      (simp_all add: ResetProcPagesData_def)
  moreover have "{i. i < MAX_TOTAL_PAGES \<and> st_of (ResetProcPagesData p) i \<noteq> NOTUSED} = {}"
    using assms by (auto simp: pim_def ResetProcPagesData_def reset_pims_nth)
  ultimately show ?thesis by (simp add: resident_def) (simp add: ResetProcPagesData_def)
qed


text \<open>A process whose records have not been reset yet.\<close>

definition pproc_demo :: pproc where
  "pproc_demo = \<lparr>sz = 0, pgdir = 0, kstack = 0, state = EMBRYO, pid = 3, parent = Some 0,
     tf = \<lparr>tf_eax = 0, tf_trapno = 0, tf_eip = 0, tf_cs = 0, tf_ds = 0, tf_es = 0, tf_ss = 0, tf_eflags = 0,
       tf_esp = 0\<rparr>, ctxt = Forkret,
     chan = NullChan, killed = False, ofile = replicate NOFILE None, cwd = None, pname = [], swapFile = None,
     pagingMetaData = replicate MAX_TOTAL_PAGES \<lparr>pg = \<lparr>virtualAddr = 0, num_times_accessed = 0, offset_in_file = 0,
       pages_memory_index = 0, pgstate = SWAPFILE\<rparr>, pnext = Some 7, pprev = Some 7\<rparr>,
     memoryPagesHead = Some 7, num_pages_in_file = 9, num_pages_in_phys_mem = 9, number_of_pgFLTS = 0\<rparr>"


text \<open>
  Where the records end: with every record in use the code takes the one behind the array, and
  with an empty list it takes record 0 whatever that holds.
\<close>

lemma add_page_overflow:
  assumes "resident_at p xs" "xs \<noteq> []" "\<forall>i < MAX_TOTAL_PAGES. st_of p i \<noteq> NOTUSED \<and> va_of p i \<noteq> PTE_ADDR a"
  shows "AddNewPageToPhysicalMemory a p = Fault"
proof -
  have len: "length (pagingMetaData p) = MAX_TOTAL_PAGES" and pl: "page_list p xs"
    using assms(1) by (simp_all add: resident_at_def page_list_def records_ok_def)
  have "find_va (PTE_ADDR a) 0 (pagingMetaData p) = None" "find_state NOTUSED 0 (pagingMetaData p) = None"
    using assms(3) len by (auto simp: find_va_None find_state_None in_set_conv_nth pim_def)
  then show ?thesis
    using page_list_tail [OF pl assms(2)] len by (simp add: AddNewPageToPhysicalMemory_def new_page_index_def)
qed

lemma add_page_empty_list:
  assumes "page_list p []"
  shows "\<exists>q. AddNewPageToPhysicalMemory a p = Ok q \<and> pg (pim q 0) = page_of 0 a"
  using add_page_spec [OF assms, of a 0] assms
  by (auto simp: next_slot_def page_list_def first_of_def MAX_TOTAL_PAGES_def)

end
