(* ===== verification/Proc_Spec.thy ===== *)
theory Proc_Spec
  imports Proc File_Spec
begin

text \<open>
  The scheduler and the operations that give up or change the state of a process.  \<open>sched_inv\<close> is
  what holds whenever a process or the scheduler runs with \<open>ptable.lock\<close>, \<open>kernel_inv\<close> what holds
  while a process runs in the kernel without a lock.
\<close>

subsection \<open>The invariant\<close>

definition live :: "pproc \<Rightarrow> bool" where
  "live q \<longleftrightarrow> (state q \<in> {SLEEPING, RUNNABLE, RUNNING} \<longrightarrow> kstack q \<noteq> 0 \<and> pgdir q \<noteq> 0)"

definition cpu_depth :: "nat \<Rightarrow> int \<Rightarrow> 'd krn \<Rightarrow> bool" where
  "cpu_depth i d s \<longleftrightarrow> nest_ok (apic s) (mach s) i \<and> ncli (cpus (mach s) ! i) = d"

definition table_ok :: "'d krn \<Rightarrow> bool" where
  "table_ok s \<longleftrightarrow> (\<forall>q < length (ptab s). live (ptab s ! q)) \<and> locked (ticklk s) = 0 \<and> \<not> first_run s"

definition sched_inv :: "nat \<Rightarrow> 'd krn \<Rightarrow> bool" where
  "sched_inv i s \<longleftrightarrow> cpu_depth i 1 s \<and> locked (ptlk s) \<noteq> 0 \<and> lcpu (ptlk s) = Some i \<and> table_ok s"

definition kernel_inv :: "nat \<Rightarrow> 'd krn \<Rightarrow> bool" where
  "kernel_inv i s \<longleftrightarrow> cpu_depth i 0 s \<and> locked (ptlk s) = 0 \<and> table_ok s"

text \<open>
  What a step may do to the processes other than \<open>p\<close>: none leaves the runnable state, or changes the
  channel it has slept on.
\<close>

definition keeps :: "nat \<Rightarrow> 'd krn \<Rightarrow> 'd krn \<Rightarrow> bool" where
  "keeps p s t \<longleftrightarrow> length (ptab t) = length (ptab s) \<and>
     (\<forall>q < length (ptab s). q \<noteq> p \<longrightarrow> state (ptab s ! q) = RUNNABLE \<longrightarrow>
       state (ptab t ! q) = RUNNABLE \<and> chan (ptab t ! q) = chan (ptab s ! q))"

lemma keeps_trans: "keeps p s t \<Longrightarrow> keeps p t u \<Longrightarrow> keeps p s u"
  by (simp add: keeps_def)

text \<open>Process \<open>p\<close> on CPU \<open>i\<close>.\<close>

definition on_cpu :: "nat \<Rightarrow> nat option \<Rightarrow> 'd krn \<Rightarrow> bool" where
  "on_cpu i po s \<longleftrightarrow> cpuproc (cpus (mach s) ! i) = po"

lemma cur_on_cpu: "cpu_depth i d s \<Longrightarrow> on_cpu i po s \<Longrightarrow> cur s = po"
  by (simp add: cur_def cpu_depth_def nest_ok_def cpu_at_def on_cpu_def)

definition runs :: "nat \<Rightarrow> nat \<Rightarrow> 'd krn \<Rightarrow> bool" where
  "runs i p s \<longleftrightarrow> on_cpu i (Some p) s \<and> p < length (ptab s) \<and> state (ptab s ! p) = RUNNING"

text \<open>Taking and giving back a lock of the process layer.\<close>

lemma pt_acquire_free:
  assumes "cpu_depth i d s" "locked (ptlk s) = 0"
  shows "\<exists>l m. pt_acquire s = Ok (s\<lparr>ptlk := l, mach := m\<rparr>) \<and> cpu_depth i (d + 1) (s\<lparr>ptlk := l, mach := m\<rparr>)
    \<and> locked l \<noteq> 0 \<and> lcpu l = Some i \<and> on_cpu i (cpuproc (cpus (mach s) ! i)) (s\<lparr>ptlk := l, mach := m\<rparr>)"
proof -
  have n: "nest_ok (apic s) (mach s) i" using assms(1) by (simp add: cpu_depth_def)
  have "cpuproc (cpus (pushed (apic s) i (mach s)) ! i) = cpuproc (cpus (mach s) ! i)"
    using n by (auto simp: nest_ok_def pushed_def)
  then show ?thesis
    using assms pushed_facts(1,3) [OF n] unfolding pt_acquire_def acquire_eq [OF n] cpu_depth_def on_cpu_def
    by (intro exI) auto
qed

lemma tick_acquire_free:
  assumes "cpu_depth i d s" "locked (ticklk s) = 0"
  shows "\<exists>l m. tick_acquire s = Ok (s\<lparr>ticklk := l, mach := m\<rparr>) \<and> cpu_depth i (d + 1) (s\<lparr>ticklk := l, mach := m\<rparr>)
    \<and> locked l \<noteq> 0 \<and> lcpu l = Some i \<and> on_cpu i (cpuproc (cpus (mach s) ! i)) (s\<lparr>ticklk := l, mach := m\<rparr>)"
proof -
  have n: "nest_ok (apic s) (mach s) i" using assms(1) by (simp add: cpu_depth_def)
  have "cpuproc (cpus (pushed (apic s) i (mach s)) ! i) = cpuproc (cpus (mach s) ! i)"
    using n by (auto simp: nest_ok_def pushed_def)
  then show ?thesis
    using assms pushed_facts(1,3) [OF n] unfolding tick_acquire_def acquire_eq [OF n] cpu_depth_def on_cpu_def
    by (intro exI) auto
qed



lemma pt_release_held:
  assumes "cpu_depth i d s" "0 < d" "locked (ptlk s) \<noteq> 0" "lcpu (ptlk s) = Some i"
  shows "\<exists>l m. pt_release s = Ok (s\<lparr>ptlk := l, mach := m\<rparr>) \<and> cpu_depth i (d - 1) (s\<lparr>ptlk := l, mach := m\<rparr>)
    \<and> locked l = 0 \<and> on_cpu i (cpuproc (cpus (mach s) ! i)) (s\<lparr>ptlk := l, mach := m\<rparr>)"
proof -
  have n: "nest_ok (apic s) (mach s) i" and d: "0 < ncli (cpus (mach s) ! i)"
    using assms(1,2) by (simp_all add: cpu_depth_def)
  then have "\<not> iflag (mach s) (apic s)" by (auto simp: nest_ok_def)
  note p = popped_facts [OF n this d]
  show ?thesis
    using assms p(1,2,5) unfolding pt_release_def release_eq [OF n d] cpu_depth_def on_cpu_def
    by (intro exI) auto
qed

lemma tick_release_held:
  assumes "cpu_depth i d s" "0 < d" "locked (ticklk s) \<noteq> 0" "lcpu (ticklk s) = Some i"
  shows "\<exists>l m. tick_release s = Ok (s\<lparr>ticklk := l, mach := m\<rparr>) \<and> cpu_depth i (d - 1) (s\<lparr>ticklk := l, mach := m\<rparr>)
    \<and> locked l = 0 \<and> on_cpu i (cpuproc (cpus (mach s) ! i)) (s\<lparr>ticklk := l, mach := m\<rparr>)"
proof -
  have n: "nest_ok (apic s) (mach s) i" and d: "0 < ncli (cpus (mach s) ! i)"
    using assms(1,2) by (simp_all add: cpu_depth_def)
  then have "\<not> iflag (mach s) (apic s)" by (auto simp: nest_ok_def)
  note p = popped_facts [OF n this d]
  show ?thesis
    using assms p(1,2,5) unfolding tick_release_def release_eq [OF n d] cpu_depth_def on_cpu_def
    by (intro exI) auto
qed

text \<open>The switch away from a process and back to it.\<close>

lemma depth_no_int: "cpu_depth i 1 s \<Longrightarrow> \<not> iflag (mach s) (apic s)"
  by (auto simp: cpu_depth_def nest_ok_def)

lemma depth_update: "cpu_depth i d (s\<lparr>ptab := x\<rparr>) = cpu_depth i d s" "cpu_depth i d (s\<lparr>cr3 := w\<rparr>) = cpu_depth i d s"
    "cpu_depth i d (upd_pp q f s) = cpu_depth i d s" "on_cpu i po (upd_pp q f s) = on_cpu i po s"
  by (simp_all add: cpu_depth_def upd_pp_def on_cpu_def)

lemma sched_switches:
  assumes c: "cpu_depth i 1 s" "on_cpu i (Some p) s" and l: "locked (ptlk s) \<noteq> 0" "lcpu (ptlk s) = Some i"
    and st: "state (ptab s ! p) \<noteq> RUNNING"
  shows "\<exists>b. sched s = Ok (upd_pp p (\<lambda>q. q\<lparr>ctxt := InKernel b\<rparr>) s)"
proof -
  have n: "nest_ok (apic s) (mach s) i" using c(1) by (simp add: cpu_depth_def)
  have nf: "\<not> iflag (mach s) (apic s)" using depth_no_int [OF c(1)] .
  have "popped (apic s) i (pushed (apic s) i (mach s)) = mach s"
    using c(1) by (intro popped_pushed_same n) (simp add: cpu_depth_def)
  moreover have "mycpu (apic s) (mach s) = Ok i" using n nf by (simp add: nest_ok_def)
  ultimately show ?thesis
    using c nf l st cur_on_cpu [OF c]
    by (auto simp: sched_def with_cur_def holding_eq [OF n] cpu_depth_def upd_pp_def)
qed

lemma set_cpuproc_eq:
  assumes "cpu_depth i 1 s"
  shows "\<exists>m. set_cpuproc po s = Ok (s\<lparr>mach := m\<rparr>) \<and> cpu_depth i 1 (s\<lparr>mach := m\<rparr>) \<and> on_cpu i po (s\<lparr>mach := m\<rparr>)"
proof -
  have n: "nest_ok (apic s) (mach s) i" using assms by (simp add: cpu_depth_def)
  then have "i < length (cpus (mach s))" "mycpu (apic s) (mach s) = Ok i"
    using depth_no_int [OF assms] by (auto simp: nest_ok_def)
  then show ?thesis
    using assms n depth_no_int [OF assms] unfolding set_cpuproc_def cpu_depth_def on_cpu_def nest_ok_def
    by (intro exI) auto
qed

lemma sched_resume_eq:
  assumes "cpu_depth i 1 s" "on_cpu i po s"
  shows "\<exists>m. sched_resume b s = Ok (s\<lparr>mach := m\<rparr>) \<and> cpu_depth i 1 (s\<lparr>mach := m\<rparr>) \<and> on_cpu i po (s\<lparr>mach := m\<rparr>)"
proof -
  have n: "nest_ok (apic s) (mach s) i" using assms by (simp add: cpu_depth_def)
  then have "i < length (cpus (mach s))" "mycpu (apic s) (mach s) = Ok i"
    using depth_no_int [OF assms(1)] by (auto simp: nest_ok_def)
  then show ?thesis
    using assms n depth_no_int [OF assms(1)] unfolding sched_resume_def cpu_depth_def on_cpu_def nest_ok_def
    by (intro exI) auto
qed

lemma switchuvm_eq:
  assumes c: "cpu_depth i 1 s" "on_cpu i po s" and q: "kstack (ptab s ! p) \<noteq> 0" "pgdir (ptab s ! p) \<noteq> 0"
  shows "\<exists>a b. switchuvm (Some p) s = Ok (s\<lparr>tss_esp0 := a, cr3 := b\<rparr>)"
proof -
  have n: "nest_ok (apic s) (mach s) i" using c(1) by (simp add: cpu_depth_def)
  then have at: "cpu_at (apic s) (mach s) i" "cpu_at (apic s) (pushed (apic s) i (mach s)) i"
    by (simp_all add: nest_ok_def pushed_facts)
  have "popped (apic s) i (pushed (apic s) i (mach s)) = mach s"
    using c(1) by (intro popped_pushed_same n) (simp add: cpu_depth_def)
  moreover have "popcli (apic s) (pushed (apic s) i (mach s)) = Ok (popped (apic s) i (pushed (apic s) i (mach s)))"
    using at(2) pushed_facts(2,3) [OF n] c(1) by (intro popcli_eq) (simp_all add: cpu_depth_def)
  ultimately show ?thesis
    using q by (intro exI) (simp add: switchuvm_def on_mach_def pushcli_eq [OF at(1)])
qed


subsection \<open>Operations on the table\<close>

lemma length_upd_pp: "length (ptab (upd_pp p f s)) = length (ptab s)"
  by simp

lemma upd_pp_fields [simp]:
  "ptlk (upd_pp p f s) = ptlk s" "ticklk (upd_pp p f s) = ticklk s" "mach (upd_pp p f s) = mach s"
  "apic (upd_pp p f s) = apic s" "first_run (upd_pp p f s) = first_run s"
  by (simp_all add: upd_pp_def)

lemma table_ok_upd:
  "table_ok s \<Longrightarrow> (\<And>q. live q \<Longrightarrow> live (f q)) \<Longrightarrow> table_ok (upd_pp p f s)"
  by (cases "p < length (ptab s)") (auto simp: table_ok_def upd_pp_def nth_list_update)

lemma keeps_upd: "keeps p s (upd_pp p f s)"
  by (simp add: keeps_def)

lemma pt_release_kernel:
  assumes "sched_inv i s"
  shows "\<exists>t. pt_release s = Ok t \<and> kernel_inv i t \<and> ptab t = ptab s \<and> cpuproc (cpus (mach t) ! i) = cpuproc (cpus (mach s) ! i)"
proof -
  obtain l m where r: "pt_release s = Ok (s\<lparr>ptlk := l, mach := m\<rparr>)" "cpu_depth i 0 (s\<lparr>ptlk := l, mach := m\<rparr>)"
    "locked l = 0" "on_cpu i (cpuproc (cpus (mach s) ! i)) (s\<lparr>ptlk := l, mach := m\<rparr>)"
    using assms pt_release_held [of i 1 s] by (auto simp: sched_inv_def)
  then show ?thesis using assms
    by (intro exI [of _ "s\<lparr>ptlk := l, mach := m\<rparr>"]) (auto simp: kernel_inv_def sched_inv_def table_ok_def on_cpu_def)
qed

lemma pt_acquire_kernel:
  assumes "kernel_inv i s"
  shows "\<exists>t. pt_acquire s = Ok t \<and> sched_inv i t \<and> ptab t = ptab s \<and> cpuproc (cpus (mach t) ! i) = cpuproc (cpus (mach s) ! i)"
proof -
  obtain l m where r: "pt_acquire s = Ok (s\<lparr>ptlk := l, mach := m\<rparr>)" "cpu_depth i 1 (s\<lparr>ptlk := l, mach := m\<rparr>)"
    "locked l \<noteq> 0" "lcpu l = Some i" "on_cpu i (cpuproc (cpus (mach s) ! i)) (s\<lparr>ptlk := l, mach := m\<rparr>)"
    using assms pt_acquire_free [of i 0 s] by (auto simp: kernel_inv_def)
  then show ?thesis using assms
    by (intro exI [of _ "s\<lparr>ptlk := l, mach := m\<rparr>"]) (auto simp: kernel_inv_def sched_inv_def table_ok_def on_cpu_def)
qed

lemma runs_cong: "ptab t = ptab s \<Longrightarrow> cpuproc (cpus (mach t) ! i) = cpuproc (cpus (mach s) ! i) \<Longrightarrow> runs i p t = runs i p s"
  by (simp add: runs_def on_cpu_def)

lemma keeps_cong: "ptab t = ptab s \<Longrightarrow> keeps p s t"
  by (simp add: keeps_def)

lemma sched_inv_cur: "sched_inv i s \<Longrightarrow> runs i p s \<Longrightarrow> cur s = Some p"
  using cur_on_cpu by (auto simp: sched_inv_def runs_def)

lemma kernel_inv_cur: "kernel_inv i s \<Longrightarrow> runs i p s \<Longrightarrow> cur s = Some p"
  using cur_on_cpu by (auto simp: kernel_inv_def runs_def)

lemma resume_inv:
  assumes "sched_inv i s" "runs i p s"
  shows "\<exists>t. sched_resume b s = Ok t \<and> sched_inv i t \<and> runs i p t \<and> ptab t = ptab s"
proof -
  obtain m where "sched_resume b s = Ok (s\<lparr>mach := m\<rparr>)" "cpu_depth i 1 (s\<lparr>mach := m\<rparr>)" "on_cpu i (Some p) (s\<lparr>mach := m\<rparr>)"
    using assms sched_resume_eq [of i s "Some p" b] by (auto simp: sched_inv_def runs_def)
  then show ?thesis using assms
    by (intro exI [of _ "s\<lparr>mach := m\<rparr>"]) (auto simp: sched_inv_def runs_def table_ok_def)
qed

lemma tick_kernel:
  assumes "kernel_inv i s"
  shows "\<exists>t u. tick_acquire s = Ok t \<and> tick_release t = Ok u \<and> kernel_inv i u \<and> ptab u = ptab s
    \<and> cpuproc (cpus (mach u) ! i) = cpuproc (cpus (mach s) ! i)"
proof -
  obtain l m where a: "tick_acquire s = Ok (s\<lparr>ticklk := l, mach := m\<rparr>)" "cpu_depth i 1 (s\<lparr>ticklk := l, mach := m\<rparr>)"
    "locked l \<noteq> 0" "lcpu l = Some i" "on_cpu i (cpuproc (cpus (mach s) ! i)) (s\<lparr>ticklk := l, mach := m\<rparr>)"
    using assms tick_acquire_free [of i 0 s] by (auto simp: kernel_inv_def table_ok_def)
  let ?t = "s\<lparr>ticklk := l, mach := m\<rparr>"
  obtain l' m' where r: "tick_release ?t = Ok (?t\<lparr>ticklk := l', mach := m'\<rparr>)" "cpu_depth i 0 (?t\<lparr>ticklk := l', mach := m'\<rparr>)"
    "locked l' = 0" "on_cpu i (cpuproc (cpus (mach ?t) ! i)) (?t\<lparr>ticklk := l', mach := m'\<rparr>)"
    using a tick_release_held [of i 1 ?t] by auto
  then show ?thesis using assms a
    by (intro exI [of _ ?t] exI [of _ "?t\<lparr>ticklk := l', mach := m'\<rparr>"])
      (auto simp: kernel_inv_def table_ok_def on_cpu_def)
qed

lemma wakeup_ok:
  assumes s: "kernel_inv i s" "runs i p s"
  shows "\<exists>t. wakeup ch s = Ok t \<and> kernel_inv i t \<and> ptab t = map (wake_one ch) (ptab s)
    \<and> cpuproc (cpus (mach t) ! i) = cpuproc (cpus (mach s) ! i)"
proof -
  obtain t where t: "pt_acquire s = Ok t" "sched_inv i t" "ptab t = ptab s" "cpuproc (cpus (mach t) ! i) = cpuproc (cpus (mach s) ! i)"
    using pt_acquire_kernel [OF s(1)] by blast
  have "sched_inv i (wakeup1 ch t)"
    using t(2) by (auto simp: sched_inv_def wakeup1_def depth_update table_ok_def live_def wake_one_def)
  from pt_release_kernel [OF this] show ?thesis using t by (auto simp: wakeup_def wakeup1_def)
qed

lemma find_pid_Some: "find_pid n k ps = Some j \<Longrightarrow> k \<le> j \<and> j < k + length ps \<and> pid (ps ! (j - k)) = n"
proof (induction ps arbitrary: k)
  case (Cons q ps)
  show ?case
  proof (cases "pid q = n")
    case False
    then have "find_pid n (Suc k) ps = Some j" using Cons.prems by simp
    from Cons.IH [OF this] show ?thesis by (auto simp: nth_Cons')
  qed (use Cons.prems in auto)
qed simp

lemma find_pid_first: "find_pid n k ps = Some j \<Longrightarrow> q < j - k \<Longrightarrow> pid (ps ! q) \<noteq> n"
proof (induction ps arbitrary: k q)
  case (Cons p ps)
  show ?case
  proof (cases "pid p = n")
    case False
    then have f: "find_pid n (Suc k) ps = Some j" using Cons.prems by simp
    show ?thesis
    proof (cases q)
      case (Suc m)
      then have "m < j - Suc k" using Cons.prems(2) by simp
      then show ?thesis using Cons.IH [OF f] Suc by simp
    qed (use False in simp)
  qed (use Cons.prems in auto)
qed simp

lemma find_pid_None: "find_pid n k ps = None \<longleftrightarrow> (\<forall>q \<in> set ps. pid q \<noteq> n)"
  by (induction ps arbitrary: k) auto

definition kill_one :: "pproc \<Rightarrow> pproc" where
  "kill_one q = q\<lparr>killed := True, state := (if state q = SLEEPING then RUNNABLE else state q)\<rparr>"

lemma kill_ok:
  assumes s: "kernel_inv i s"
  shows "\<exists>t r. kill n s = Ok (r, t) \<and> kernel_inv i t \<and> cpuproc (cpus (mach t) ! i) = cpuproc (cpus (mach s) ! i)
    \<and> (case find_pid n 0 (ptab s) of None \<Rightarrow> r = - 1 \<and> ptab t = ptab s
       | Some j \<Rightarrow> r = 0 \<and> ptab t = (ptab s)[j := kill_one (ptab s ! j)])"
proof -
  obtain t where t: "pt_acquire s = Ok t" "sched_inv i t" "ptab t = ptab s" "cpuproc (cpus (mach t) ! i) = cpuproc (cpus (mach s) ! i)"
    using pt_acquire_kernel [OF s(1)] by blast
  show ?thesis
  proof (cases "find_pid n 0 (ptab s)")
    case None
    obtain u where "pt_release t = Ok u" "kernel_inv i u" "ptab u = ptab t" "cpuproc (cpus (mach u) ! i) = cpuproc (cpus (mach t) ! i)"
      using pt_release_kernel [OF t(2)] by blast
    then show ?thesis using t None by (simp add: kill_def)
  next
    case (Some j)
    let ?t = "upd_pp j kill_one t"
    have e: "ptab ?t = (ptab s)[j := kill_one (ptab s ! j)]" using t(3) by (simp add: upd_pp_def)
    have "sched_inv i ?t" using t(2)
      by (auto simp: sched_inv_def depth_update intro!: table_ok_upd) (auto simp: live_def kill_one_def split: if_splits)
    from pt_release_kernel [OF this] obtain u where
      "pt_release ?t = Ok u" "kernel_inv i u" "ptab u = ptab ?t" "cpuproc (cpus (mach u) ! i) = cpuproc (cpus (mach ?t) ! i)" by blast
    then show ?thesis using t Some e by (simp add: kill_def kill_one_def [abs_def])
  qed
qed

lemma sched_leaves:
  assumes s: "sched_inv i s" "on_cpu i (Some p) s" and st: "state (ptab s ! p) \<noteq> RUNNING"
  shows "\<exists>t. sched s = Ok t \<and> sched_inv i t \<and> keeps p s t \<and> state (ptab t ! p) = state (ptab s ! p)"
proof -
  obtain b where b: "sched s = Ok (upd_pp p (\<lambda>q. q\<lparr>ctxt := InKernel b\<rparr>) s)"
    using sched_switches [of i s p] s st by (auto simp: sched_inv_def)
  have "sched_inv i (upd_pp p (\<lambda>q. q\<lparr>ctxt := InKernel b\<rparr>) s)"
    using s(1) by (auto simp: sched_inv_def depth_update intro!: table_ok_upd) (auto simp: live_def)
  moreover have "state (ptab (upd_pp p (\<lambda>q. q\<lparr>ctxt := InKernel b\<rparr>) s) ! p) = state (ptab s ! p)"
    by (cases "p < length (ptab s)") (simp_all add: upd_pp_def list_update_beyond)
  ultimately show ?thesis using b keeps_upd by blast
qed

text \<open>Two processes, the second one new, on a machine of two CPUs.\<close>

definition proc_demo :: pproc where
  "proc_demo = \<lparr>sz = 4096, pgdir = 0x80402000, kstack = 0x80403000, state = RUNNABLE, pid = 1, parent = None,
     tf = initcode_tf, ctxt = InKernel True, chan = NullChan, killed = False, ofile = replicate 16 None,
     cwd = None, pname = ''init'', swapFile = None, pagingMetaData = [], memoryPagesHead = None,
     num_pages_in_file = 0, num_pages_in_phys_mem = 0, number_of_pgFLTS = 0\<rparr>"

definition free_slot :: pproc where
  "free_slot = proc_demo\<lparr>kstack := 0, pgdir := 0, state := UNUSED, pid := 0\<rparr>"

definition krn_demo :: "'d kio \<Rightarrow> 'd krn" where
  "krn_demo t = \<lparr>io = t, devtab = [], ptlk = free_lock, ptab = [proc_demo, proc_demo\<lparr>pid := 2, ctxt := Forkret\<rparr>, free_slot],
     nextpid = 3, initproc = Some 0, mach = two_cpus, apic = 4, kfp = 0, kdata = 0, kpgdir = 0x80404000, cr3 = 0,
     tss_esp0 = 0, ticklk = free_lock, kticks = 0, first_run = False\<rparr>"

lemma krn_demo_inv: "kernel_inv 1 (krn_demo t)"
proof -
  have "nest_ok (apic (krn_demo t)) (mach (krn_demo t)) 1" using two_cpus_ok(1) by (simp add: krn_demo_def)
  moreover have "ncli (cpus (mach (krn_demo t)) ! 1) = 0" by (simp add: krn_demo_def two_cpus_def)
  moreover have "table_ok (krn_demo t)"
    by (simp add: table_ok_def krn_demo_def free_lock_def live_def proc_demo_def free_slot_def less_Suc_eq nth_Cons')
  ultimately show ?thesis by (simp add: kernel_inv_def cpu_depth_def krn_demo_def free_lock_def)
qed

subsection \<open>Allocating a process\<close>

text \<open>The ids of the processes in the table: positive, below the next one and all different.\<close>

definition pids_ok :: "'d krn \<Rightarrow> bool" where
  "pids_ok s \<longleftrightarrow> 0 < nextpid s
     \<and> (\<forall>q < length (ptab s). state (ptab s ! q) \<noteq> UNUSED \<longrightarrow> 0 < pid (ptab s ! q) \<and> pid (ptab s ! q) < nextpid s)
     \<and> (\<forall>q < length (ptab s). \<forall>r < length (ptab s). state (ptab s ! q) \<noteq> UNUSED \<longrightarrow> state (ptab s ! r) \<noteq> UNUSED
          \<longrightarrow> pid (ptab s ! q) = pid (ptab s ! r) \<longrightarrow> q = r)"

lemma find_unused_Some:
  "find_unused k ps = Some j \<Longrightarrow> k \<le> j \<and> j < k + length ps \<and> state (ps ! (j - k)) = UNUSED"
proof (induction ps arbitrary: k)
  case (Cons q ps)
  show ?case
  proof (cases "state q = UNUSED")
    case False
    then have "find_unused (Suc k) ps = Some j" using Cons.prems by simp
    from Cons.IH [OF this] show ?thesis by (auto simp: nth_Cons')
  qed (use Cons.prems in auto)
qed simp

lemma find_unused_cong: "map state ps = map state qs \<Longrightarrow> find_unused k ps = find_unused k qs"
proof (induction ps arbitrary: qs k)
  case (Cons p ps)
  then show ?case by (cases qs) auto
qed simp

lemma reset_data_simps [simp]:
  "state (ResetProcPagesData q) = state q" "pid (ResetProcPagesData q) = pid q" "killed (ResetProcPagesData q) = killed q"
  "kstack (ResetProcPagesData q) = kstack q" "pgdir (ResetProcPagesData q) = pgdir q" "ctxt (ResetProcPagesData q) = ctxt q"
  by (simp_all add: ResetProcPagesData_def)

definition new_slot :: "int \<Rightarrow> pproc \<Rightarrow> pproc" where
  "new_slot n q = q\<lparr>state := EMBRYO, pid := n\<rparr>"

lemma kernel_inv_upd:
  "kernel_inv i s \<Longrightarrow> (\<And>q. live q \<Longrightarrow> live (f q)) \<Longrightarrow> kernel_inv i (upd_pp p f s)"
  by (simp add: kernel_inv_def depth_update table_ok_upd)

lemma kernel_inv_kmem: "kernel_inv i (set_kmem m s) = kernel_inv i s"
  by (simp add: kernel_inv_def set_kmem_def cpu_depth_def table_ok_def)

lemma claim_slot:
  assumes s: "kernel_inv i s" and j: "find_unused 0 (ptab s) = Some j"
  shows "\<exists>l m t. pt_acquire s = Ok (s\<lparr>ptlk := l, mach := m\<rparr>)
    \<and> pt_release (upd_pp j (new_slot (nextpid s)) (s\<lparr>ptlk := l, mach := m, nextpid := wrap32 (nextpid s + 1)\<rparr>)) = Ok t
    \<and> kernel_inv i t \<and> ptab t = (ptab s)[j := new_slot (nextpid s) (ptab s ! j)] \<and> nextpid t = wrap32 (nextpid s + 1) \<and> io t = io s
    \<and> cpuproc (cpus (mach t) ! i) = cpuproc (cpus (mach s) ! i)"
proof -
  obtain l m where a: "pt_acquire s = Ok (s\<lparr>ptlk := l, mach := m\<rparr>)" "cpu_depth i 1 (s\<lparr>ptlk := l, mach := m\<rparr>)"
    "locked l \<noteq> 0" "lcpu l = Some i" "on_cpu i (cpuproc (cpus (mach s) ! i)) (s\<lparr>ptlk := l, mach := m\<rparr>)"
    using s pt_acquire_free [of i 0 s] by (auto simp: kernel_inv_def)
  let ?t = "upd_pp j (new_slot (nextpid s)) (s\<lparr>ptlk := l, mach := m, nextpid := wrap32 (nextpid s + 1)\<rparr>)"
  have "cpu_depth i 1 ?t" using a(2) by (simp add: depth_update) (simp add: cpu_depth_def)
  then obtain l' m' where b: "pt_release ?t = Ok (?t\<lparr>ptlk := l', mach := m'\<rparr>)" "cpu_depth i 0 (?t\<lparr>ptlk := l', mach := m'\<rparr>)"
    "locked l' = 0" "on_cpu i (cpuproc (cpus (mach ?t) ! i)) (?t\<lparr>ptlk := l', mach := m'\<rparr>)"
    using a(3,4) pt_release_held [of i 1 ?t] by (auto simp: upd_pp_def)
  have "table_ok ?t" using s by (intro table_ok_upd) (auto simp: kernel_inv_def table_ok_def live_def new_slot_def)
  then have "kernel_inv i (?t\<lparr>ptlk := l', mach := m'\<rparr>)" using b(2,3) by (simp add: kernel_inv_def table_ok_def)
  then show ?thesis using a(1,5) b(1,4)
    by (intro exI [of _ l] exI [of _ m] exI [of _ "?t\<lparr>ptlk := l', mach := m'\<rparr>"]) (auto simp: upd_pp_def on_cpu_def)
qed

lemma allocproc_none:
  assumes s: "kernel_inv i s" and j: "find_unused 0 (ptab s) = None"
  shows "\<exists>t. allocproc s = Ok (None, t) \<and> kernel_inv i t \<and> ptab t = ptab s \<and> nextpid t = nextpid s"
proof -
  obtain l m where a: "pt_acquire s = Ok (s\<lparr>ptlk := l, mach := m\<rparr>)" "cpu_depth i 1 (s\<lparr>ptlk := l, mach := m\<rparr>)"
    "locked l \<noteq> 0" "lcpu l = Some i"
    using s pt_acquire_free [of i 0 s] by (auto simp: kernel_inv_def)
  let ?t = "s\<lparr>ptlk := l, mach := m\<rparr>"
  obtain l' m' where b: "pt_release ?t = Ok (?t\<lparr>ptlk := l', mach := m'\<rparr>)" "cpu_depth i 0 (?t\<lparr>ptlk := l', mach := m'\<rparr>)" "locked l' = 0"
    using a pt_release_held [of i 1 ?t] by auto
  then show ?thesis using a j s
    by (intro exI [of _ "?t\<lparr>ptlk := l', mach := m'\<rparr>"]) (auto simp: allocproc_def kernel_inv_def table_ok_def)
qed

lemma allocproc_slot:
  assumes s: "kernel_inv i s" and j: "find_unused 0 (ptab s) = Some j" and f: "free_pages (kmem_of s) xs"
  shows "\<exists>t r q. allocproc s = Ok (r, t) \<and> kernel_inv i t \<and> ptab t = (ptab s)[j := q] \<and> nextpid t = wrap32 (nextpid s + 1)
    \<and> cpuproc (cpus (mach t) ! i) = cpuproc (cpus (mach s) ! i) \<and> pid q = nextpid s \<and> killed q = killed (ptab s ! j)
    \<and> (case xs of [] \<Rightarrow> r = None \<and> state q = UNUSED
       | x # ys \<Rightarrow> r = Some j \<and> state q = EMBRYO \<and> kstack q = x \<and> ctxt q = Forkret \<and> free_pages (kmem_of t) ys)"
proof -
  obtain l m t where t: "pt_acquire s = Ok (s\<lparr>ptlk := l, mach := m\<rparr>)"
    "pt_release (upd_pp j (new_slot (nextpid s)) (s\<lparr>ptlk := l, mach := m, nextpid := wrap32 (nextpid s + 1)\<rparr>)) = Ok t"
    "kernel_inv i t" "ptab t = (ptab s)[j := new_slot (nextpid s) (ptab s ! j)]" "nextpid t = wrap32 (nextpid s + 1)" "io t = io s"
    "cpuproc (cpus (mach t) ! i) = cpuproc (cpus (mach s) ! i)"
    using claim_slot [OF s j] by blast
  have jl: "j < length (ptab s)" using find_unused_Some [OF j] by simp
  have start: "allocproc s = bnd (in_kmem kalloc t) (\<lambda>(k, s3).
         let s4 = upd_pp j (\<lambda>q. q\<lparr>kstack := k\<rparr>) s3 in
         if k = 0 then Ok (None, set_state j UNUSED s4)
         else Ok (Some j, upd_pp j (\<lambda>q. ResetProcPagesData (q\<lparr>ctxt := Forkret\<rparr>)) s4))"
    using t(1,2) j by (simp add: allocproc_def new_slot_def [abs_def])
  have km: "kmem_of t = kmem_of s" using t(6) by (simp add: kmem_of_def)
  show ?thesis
  proof (cases xs)
    case Nil
    obtain k where k: "kalloc (kmem_of t) = Ok (0, k)" using kalloc_empty f Nil unfolding km by blast
    let ?u = "set_state j UNUSED (upd_pp j (\<lambda>q. q\<lparr>kstack := 0\<rparr>) (set_kmem k t))"
    have "kernel_inv i (upd_pp j (\<lambda>q. q\<lparr>kstack := 0, state := UNUSED\<rparr>) (set_kmem k t))"
      using t(3) by (intro kernel_inv_upd) (auto simp: kernel_inv_kmem live_def)
    moreover have "?u = upd_pp j (\<lambda>q. q\<lparr>kstack := 0, state := UNUSED\<rparr>) (set_kmem k t)"
      using jl t(4) by (simp add: set_state_def upd_pp_def)
    ultimately show ?thesis
      using start k Nil jl t(4,5,7)
      by (intro exI [of _ ?u] exI [of _ None] exI [of _ "(new_slot (nextpid s) (ptab s ! j))\<lparr>kstack := 0, state := UNUSED\<rparr>"]) (auto simp: in_kmem_def upd_pp_def set_kmem_def new_slot_def)
  next
    case (Cons x ys)
    have fp: "free_pages (kmem_of t) (x # ys)" using f Cons km by simp
    then have x0: "x \<noteq> 0" by (auto simp: free_pages_def page_ok_def)
    define k where "k = (kmem_of t)\<lparr>freelist := rd32 (mem (kmem_of t)) (unat x)\<rparr>"
    have k: "kalloc (kmem_of t) = Ok (x, k)" "free_pages k ys" using kalloc_cons [OF fp] by (simp_all add: k_def)
    let ?f = "\<lambda>q. ResetProcPagesData (q\<lparr>kstack := x, ctxt := Forkret\<rparr>)"
    let ?u = "upd_pp j (\<lambda>q. ResetProcPagesData (q\<lparr>ctxt := Forkret\<rparr>)) (upd_pp j (\<lambda>q. q\<lparr>kstack := x\<rparr>) (set_kmem k t))"
    have e: "?u = upd_pp j ?f (set_kmem k t)" using jl t(4) by (simp add: upd_pp_def)
    have "kernel_inv i (upd_pp j ?f (set_kmem k t))"
      using t(3) x0 by (intro kernel_inv_upd) (auto simp: kernel_inv_kmem live_def)
    then have "kernel_inv i ?u" unfolding e .
    moreover have "ptab ?u = (ptab s)[j := ?f (new_slot (nextpid s) (ptab s ! j))]"
      unfolding e using jl t(4) by (simp add: upd_pp_def)
    moreover have "allocproc s = Ok (Some j, ?u)" using start k(1) x0 by (simp add: in_kmem_def)
    moreover have "nextpid ?u = wrap32 (nextpid s + 1)" "cpuproc (cpus (mach ?u) ! i) = cpuproc (cpus (mach s) ! i)" "kmem_of ?u = k"
      using t(5,7) by (simp_all add: upd_pp_def set_kmem_def kmem_of_def)
    ultimately show ?thesis using k(2) Cons
      by (intro exI [of _ ?u] exI [of _ "Some j"] exI [of _ "?f (new_slot (nextpid s) (ptab s ! j))"]) (auto simp: new_slot_def)
  qed
qed


text \<open>At the largest \<open>int\<close> the counter of ids wraps around, and ids become negative.\<close>

lemma allocproc_pid_wraps:
  assumes "kernel_inv i s" "find_unused 0 (ptab s) = Some j" "free_pages (kmem_of s) xs" "nextpid s = 2147483647"
  shows "\<exists>r t. allocproc s = Ok (r, t) \<and> nextpid t = - 2147483648"
  using allocproc_slot [OF assms(1-3)] assms(4) by (fastforce simp: wrap32_def)


lemma krn_demo_kmem: "kmem_of (krn_demo kio_demo) = kmem_demo"
  by (simp add: kmem_of_def krn_demo_def kio_demo_def)

lemma krn_demo_table: "ptab (krn_demo t) = [proc_demo, proc_demo\<lparr>pid := 2, ctxt := Forkret\<rparr>, free_slot]"
  by (simp add: krn_demo_def)

lemma krn_demo_pids: "pids_ok (krn_demo t)"
  unfolding pids_ok_def krn_demo_table
  by (simp add: krn_demo_def proc_demo_def free_slot_def less_Suc_eq nth_Cons')


end
