(* ===== verification/Sched_Spec.thy ===== *)
theory Sched_Spec
  imports Proc_Spec File_Spec
begin

text \<open>
  The scheduler and its clients: every process runs a burst of system calls of \<open>proc.c\<close> and of the rest of
  the kernel between two context switches.  \<open>calm\<close> is what the paging and file operations below them keep
  of the process table.
\<close>

subsection \<open>Operations below the process layer\<close>

definition sched_view :: "pproc \<Rightarrow> procstate \<times> u32 \<times> u32 \<times> channel \<times> resume" where
  "sched_view q = (state q, kstack q, pgdir q, chan q, ctxt q)"

definition calm :: "'d krn \<Rightarrow> 'd krn \<Rightarrow> bool" where
  "calm s t \<longleftrightarrow> mach t = mach s \<and> apic t = apic s \<and> ptlk t = ptlk s \<and> ticklk t = ticklk s \<and> first_run t = first_run s
     \<and> map sched_view (ptab t) = map sched_view (ptab s)"

lemma calm_refl [simp]: "calm s s"
  by (simp add: calm_def)

lemma calm_trans: "calm s t \<Longrightarrow> calm t u \<Longrightarrow> calm s u"
  by (simp add: calm_def)

lemma calm_frame [simp]:
  "calm s (t\<lparr>io := x\<rparr>) = calm s t" "calm s (t\<lparr>cr3 := w\<rparr>) = calm s t" "calm s (t\<lparr>initproc := y\<rparr>) = calm s t"
  "calm s (set_kmem m t) = calm s t"
  by (simp_all add: calm_def set_kmem_def)

lemma calm_upd:
  assumes "sched_view (f (ptab t ! p)) = sched_view (ptab t ! p)"
  shows "calm s (upd_pp p f t) = calm s t"
proof -
  have "map sched_view (ptab (upd_pp p f t)) = map sched_view (ptab t)"
    using assms by (cases "p < length (ptab t)") (auto simp: upd_pp_def map_update list_update_beyond list_update_same_conv)
  then show ?thesis by (simp add: calm_def)
qed

lemma calm_cur: "calm s t \<Longrightarrow> cur t = cur s"
  by (simp add: calm_def cur_def cong: option.case_cong)

lemma calm_length: "calm s t \<Longrightarrow> length (ptab t) = length (ptab s)"
  unfolding calm_def by (auto dest: map_eq_imp_length_eq)

lemma calm_nth:
  assumes "calm s t" "q < length (ptab s)"
  shows "sched_view (ptab t ! q) = sched_view (ptab s ! q)"
proof -
  have "map sched_view (ptab t) ! q = map sched_view (ptab s) ! q" using assms(1) by (simp add: calm_def)
  then show ?thesis using assms(2) calm_length [OF assms(1)] by simp
qed

lemma view_simps [simp]:
  "sched_view (upd_pim i f q) = sched_view q" "sched_view (q\<lparr>memoryPagesHead := h\<rparr>) = sched_view q"
  "sched_view (q\<lparr>num_pages_in_file := n\<rparr>) = sched_view q" "sched_view (q\<lparr>num_pages_in_phys_mem := n\<rparr>) = sched_view q"
  "sched_view (q\<lparr>swapFile := f'\<rparr>) = sched_view q" "sched_view (q\<lparr>sz := n\<rparr>) = sched_view q"
  "sched_view (q\<lparr>ofile := fs\<rparr>) = sched_view q" "sched_view (q\<lparr>cwd := c\<rparr>) = sched_view q"
  "sched_view (q\<lparr>parent := r\<rparr>) = sched_view q" "sched_view (q\<lparr>tf := x\<rparr>) = sched_view q" "sched_view (q\<lparr>pname := nm\<rparr>) = sched_view q"
  "sched_view (copy_records p q) = sched_view q"
  by (simp_all add: sched_view_def upd_pim_def copy_records_def)

lemma sync_pim_view: "sync_pim i q = Ok r \<Longrightarrow> sched_view r = sched_view q"
  by (auto simp: sync_pim_def Let_def outcome_simps)

lemma updateListPointers_view: "updateListPointers i q = Ok r \<Longrightarrow> sched_view r = sched_view q"
  by (auto simp: updateListPointers_def Let_def outcome_simps dest!: sync_pim_view split: option.splits)

lemma append_page_view: "append_page i q = Ok r \<Longrightarrow> sched_view r = sched_view q"
  by (auto simp: append_page_def Let_def outcome_simps dest!: sync_pim_view split: option.splits)

lemma InitNewPhyPage_view: "sched_view (InitNewPhyPage a i j q) = sched_view q"
  by (simp add: InitNewPhyPage_def Let_def)

lemma AddNewPage_view: "AddNewPageToPhysicalMemory a q = Ok r \<Longrightarrow> sched_view r = sched_view q"
  by (auto simp: AddNewPageToPhysicalMemory_def Let_def outcome_simps InitNewPhyPage_view dest!: sync_pim_view split: option.splits)

lemmas record_views = sync_pim_view updateListPointers_view append_page_view AddNewPage_view

lemma on_pp_calm:
  assumes "on_pp p f s = Ok t" "\<And>r. f (ptab s ! p) = Ok r \<Longrightarrow> sched_view r = sched_view (ptab s ! p)"
  shows "calm s t"
  using assms by (auto simp: on_pp_def outcome_simps calm_upd)

lemma upd_pg_calm [simp]: "calm s (upd_pg p i f t) = calm s t"
  by (simp add: upd_pg_def calm_upd)

lemma upd_calm [simp]:
  "calm s (upd_pp p (\<lambda>q. q\<lparr>num_pages_in_phys_mem := g q\<rparr>) t) = calm s t"
  "calm s (upd_pp p (\<lambda>q. q\<lparr>num_pages_in_file := g q\<rparr>) t) = calm s t"
  "calm s (upd_pp p (\<lambda>q. q\<lparr>swapFile := f\<rparr>) t) = calm s t"
  "calm s (upd_pp p (\<lambda>q. q\<lparr>cwd := c\<rparr>) t) = calm s t"
  "calm s (upd_pp p (\<lambda>q. q\<lparr>ofile := h q\<rparr>) t) = calm s t"
  "calm s (upd_pp p (copy_records e) t) = calm s t"
  by (simp_all add: calm_upd)

lemma kmem_calm:
  "on_kmem f s = Ok t \<Longrightarrow> calm s t" "in_kmem g s = Ok (r, t) \<Longrightarrow> calm s t" "on_io h s = Ok t \<Longrightarrow> calm s t"
  "in_fs k s = Ok (r', t) \<Longrightarrow> calm s t" "kfs l s = Ok t \<Longrightarrow> calm s t"
  by (auto simp: on_kmem_def in_kmem_def on_io_def in_fs_def kfs_def outcome_simps)

text \<open>
  The operations are put together from steps; \<open>calms s m g\<close> says that a step leaves what \<open>calm\<close> keeps when it
  returns, \<open>g\<close> being the state in its result.
\<close>

definition calms :: "'d krn \<Rightarrow> 'r outcome \<Rightarrow> ('r \<Rightarrow> 'd krn) \<Rightarrow> bool" where
  "calms s m g \<longleftrightarrow> (\<forall>x. m = Ok x \<longrightarrow> calm s (g x))"

lemma calmsD: "calms s m g \<Longrightarrow> m = Ok x \<Longrightarrow> calm s (g x)"
  by (simp add: calms_def)

lemma calms_simps [simp]:
  "calms s (Ok x) g = calm s (g x)" "calms s (Panic e) g" "calms s Fault g" "calms s Blocked g"
  by (simp_all add: calms_def)

lemma calms_state: "calms s m (\<lambda>t. t) \<Longrightarrow> (\<And>t. calm s t \<Longrightarrow> calms s (f t) g) \<Longrightarrow> calms s (bnd m f) g"
  by (auto simp: calms_def outcome_simps)

lemma calms_pair: "calms s m snd \<Longrightarrow> (\<And>a t. calm s t \<Longrightarrow> calms s (f a t) g) \<Longrightarrow> calms s (bnd m (\<lambda>(a, t). f a t)) g"
  by (auto simp: calms_def outcome_simps)

lemma calms_triple:
  "calms s m (\<lambda>x. snd (snd x)) \<Longrightarrow> (\<And>a b t. calm s t \<Longrightarrow> calms s (f a b t) g) \<Longrightarrow> calms s (bnd m (\<lambda>(a, b, t). f a b t)) g"
  by (auto simp: calms_def outcome_simps)

lemma calms_any: "(\<And>x. calms s (f x) g) \<Longrightarrow> calms s (bnd m f) g"
  by (auto simp: calms_def outcome_simps)

lemma calms_panic: "(\<not> c \<Longrightarrow> calms s m g) \<Longrightarrow> calms s (panic_if c e m) g"
  by (simp add: panic_if_def)

lemma calms_fault: "(\<not> c \<Longrightarrow> calms s m g) \<Longrightarrow> calms s (fault_if c m) g"
  by (simp add: fault_if_def)

lemma calms_if: "(c \<Longrightarrow> calms s m g) \<Longrightarrow> (\<not> c \<Longrightarrow> calms s n g) \<Longrightarrow> calms s (if c then m else n) g"
  by simp

lemma calms_option: "calms s m g \<Longrightarrow> (\<And>x. calms s (f x) g) \<Longrightarrow> calms s (case z of None \<Rightarrow> m | Some x \<Rightarrow> f x) g"
  by (simp split: option.split)

lemma calms_prod: "(\<And>a b. calms s (f a b) g) \<Longrightarrow> calms s (case z of (a, b) \<Rightarrow> f a b) g"
  by (simp split: prod.split)

lemma calms_cur: "(\<And>p. calms s (f p t) g) \<Longrightarrow> calms s (with_cur f t) g"
  by (simp add: with_cur_def split: option.split)

lemma calms_leaf:
  "calm s t \<Longrightarrow> calms s (on_kmem f t) (\<lambda>t. t)" "calm s t \<Longrightarrow> calms s (in_kmem h t) snd" "calm s t \<Longrightarrow> calms s (on_io k t) (\<lambda>t. t)"
  "calm s t \<Longrightarrow> calms s (in_fs l t) snd" "calm s t \<Longrightarrow> calms s (kfs e t) (\<lambda>t. t)"
  by (auto simp: calms_def dest!: kmem_calm intro: calm_trans)

lemma calms_on_pp:
  "calm s t \<Longrightarrow> (\<And>r. f (ptab t ! p) = Ok r \<Longrightarrow> sched_view r = sched_view (ptab t ! p)) \<Longrightarrow> calms s (on_pp p f t) (\<lambda>t. t)"
  unfolding calms_def using on_pp_calm calm_trans by blast

lemmas calms_rules = calms_state calms_pair calms_triple calms_panic calms_fault calms_if calms_option calms_cur calms_prod calms_leaf

lemma seek_calm [simp]: "calm s (seek_swap f off t) = calm s t"
  by (simp add: seek_swap_def)

text \<open>The paging operations, bottom up.\<close>

lemma writeToSwapFile_calms: "calm s t \<Longrightarrow> calms s (writeToSwapFile p buf off n t) snd"
  unfolding writeToSwapFile_def Let_def by ((rule calms_rules calms_any | simp)+)

lemma readFromSwapFile_calms: "calm s t \<Longrightarrow> calms s (readFromSwapFile p off n t) (\<lambda>x. snd (snd x))"
  unfolding readFromSwapFile_def Let_def by ((rule calms_rules calms_any | simp)+)

lemma createSwapFile_calms: "calm s t \<Longrightarrow> calms s (createSwapFile p t) (\<lambda>t. t)"
  unfolding createSwapFile_def Let_def by ((rule calms_rules calms_any | simp)+)

lemma removeSwapFile_calms: "calm s t \<Longrightarrow> calms s (removeSwapFile p t) snd"
  unfolding removeSwapFile_def Let_def by ((rule calms_rules calms_any | simp)+)

lemma WritePageToFile_calms: "calm s t \<Longrightarrow> calms s (WritePageToFile p i t) snd"
  unfolding WritePageToFile_def Let_def by ((rule writeToSwapFile_calms calms_rules calms_any | simp)+)

lemma FileToMemory_calms: "calm s t \<Longrightarrow> calms s (FileToMemory p i t) snd"
  unfolding FileToMemory_def Let_def
  by ((rule readFromSwapFile_calms calms_rules calms_on_pp | erule append_page_view | simp)+)

lemma MemoryToSwapFile_calms: "calm s t \<Longrightarrow> calms s (MemoryToSwapFile p z t) snd"
  unfolding MemoryToSwapFile_def Let_def
  by ((rule WritePageToFile_calms calms_rules calms_on_pp | erule record_views | simp)+)

lemma DeletePage_calms: "calm s t \<Longrightarrow> calms s (DeletePage p i t) (\<lambda>t. t)"
  unfolding DeletePage_def Let_def
  by ((rule FileToMemory_calms calms_rules calms_on_pp | erule record_views | simp add: calm_upd)+)

lemma read_swap_pages_calms: "calm s t \<Longrightarrow> calms s (read_swap_pages k p place t) (\<lambda>t. t)"
  by (induction k arbitrary: place t) ((simp | rule readFromSwapFile_calms calms_rules)+)

lemma CopyContents_calms: "calm s t \<Longrightarrow> calms s (CopyContentsOfCurrentProcStructs p c t) (\<lambda>t. t)"
  unfolding CopyContentsOfCurrentProcStructs_def Let_def
  by ((rule read_swap_pages_calms createSwapFile_calms calms_rules | simp add: calm_upd)+)

text \<open>Address spaces.\<close>

lemma drop_record_calms: "calm s t \<Longrightarrow> calms s (drop_record dir a t) (\<lambda>t. t)"
  unfolding drop_record_def by ((rule DeletePage_calms calms_rules | simp)+)

lemma drop_swapped_calms: "calm s t \<Longrightarrow> calms s (drop_swapped dir a pte t) (\<lambda>t. t)"
  unfolding drop_swapped_def Let_def by ((rule calms_rules | simp split: option.split)+)

lemma deallocuvm_loop_calms: "calm s t \<Longrightarrow> calms s (deallocuvm_loop k dir a old t) (\<lambda>t. t)"
proof (induction k arbitrary: a t)
  case (Suc k)
  show ?case
    unfolding deallocuvm_loop.simps Let_def
    by ((rule Suc.IH drop_record_calms drop_swapped_calms calms_rules | simp add: Suc.prems)+)
qed simp

lemma deallocuvm_calms: "calm s t \<Longrightarrow> calms s (deallocuvm dir old new t) snd"
  unfolding deallocuvm_def by ((rule deallocuvm_loop_calms calms_rules | simp)+)

lemma free_tables_calms: "calm s t \<Longrightarrow> calms s (free_tables k dir i t) (\<lambda>t. t)"
proof (induction k arbitrary: i t)
  case (Suc k)
  show ?case
    unfolding free_tables.simps Let_def by ((rule Suc.IH calms_rules | simp add: Suc.prems)+)
qed simp

lemma freevm_calms: "calm s t \<Longrightarrow> calms s (freevm dir t) (\<lambda>t. t)"
  unfolding freevm_def by ((rule deallocuvm_calms free_tables_calms calms_rules | simp)+)

lemma map_kernel_calms: "calm s t \<Longrightarrow> calms s (map_kernel ks dir t) snd"
proof (induction ks arbitrary: t)
  case (Cons k ks)
  show ?case
    unfolding map_kernel.simps by ((rule Cons.IH freevm_calms calms_rules | simp add: Cons.prems)+)
qed simp

lemma setupkvm_calms: "calm s t \<Longrightarrow> calms s (setupkvm t) snd"
  unfolding setupkvm_def Let_def by ((rule map_kernel_calms calms_rules | simp)+)

lemma make_room_calms: "calm s t \<Longrightarrow> calms s (make_room p t) snd"
  unfolding make_room_def by ((rule MemoryToSwapFile_calms createSwapFile_calms calms_rules | simp)+)

lemma allocuvm_loop_calms: "calm s t \<Longrightarrow> calms s (allocuvm_loop k dir a old new t) snd"
proof (induction k arbitrary: a t)
  case (Suc k)
  show ?case
    unfolding allocuvm_loop.simps Let_def
    by ((rule Suc.IH make_room_calms deallocuvm_calms calms_rules calms_on_pp | erule AddNewPage_view | simp add: Suc.prems)+)
qed simp

lemma allocuvm_calms: "calm s t \<Longrightarrow> calms s (allocuvm dir old new t) snd"
  unfolding allocuvm_def by ((rule allocuvm_loop_calms calms_rules | simp)+)

lemma copyuvm_loop_calms: "calm s t \<Longrightarrow> calms s (copyuvm_loop k dir d len i t) snd"
proof (induction k arbitrary: i t)
  case (Suc k)
  show ?case
    unfolding copyuvm_loop.simps copyuvm_bad_def Let_def
    by ((rule Suc.IH freevm_calms calms_rules | simp add: Suc.prems)+)
qed simp

lemma copyuvm_calms: "calm s t \<Longrightarrow> calms s (copyuvm dir len t) snd"
  unfolding copyuvm_def by ((rule setupkvm_calms copyuvm_loop_calms calms_rules | simp)+)

text \<open>The files of a process.\<close>

lemma fork_files_calms: "calm s t \<Longrightarrow> calms s (fork_files k i p np t) (\<lambda>t. t)"
proof (induction k arbitrary: i t)
  case (Suc k)
  show ?case
    unfolding fork_files.simps by ((rule Suc.IH calms_rules calms_any | simp add: Suc.prems)+)
qed simp

lemma exit_files_calms: "calm s t \<Longrightarrow> calms s (exit_files k fd p t) (\<lambda>t. t)"
proof (induction k arbitrary: fd t)
  case (Suc k)
  show ?case
    unfolding exit_files.simps by ((rule Suc.IH calms_rules | simp add: Suc.prems)+)
qed simp

subsection \<open>Creating processes\<close>

lemma calm_view: "calm s t \<Longrightarrow> q < length (ptab s) \<Longrightarrow> state (ptab t ! q) = state (ptab s ! q)
    \<and> kstack (ptab t ! q) = kstack (ptab s ! q) \<and> pgdir (ptab t ! q) = pgdir (ptab s ! q) \<and> chan (ptab t ! q) = chan (ptab s ! q)"
  using calm_nth [of s t q] by (simp add: sched_view_def)

lemma calm_table_ok: "calm s t \<Longrightarrow> table_ok s \<Longrightarrow> table_ok t"
  using calm_length [of s t] by (auto simp: table_ok_def live_def calm_view) (simp_all add: calm_def)

lemma calm_depth: "calm s t \<Longrightarrow> cpu_depth i d t = cpu_depth i d s"
  by (simp add: calm_def cpu_depth_def)

lemma calm_inv:
  assumes "calm s t"
  shows "kernel_inv i s \<Longrightarrow> kernel_inv i t" "sched_inv i s \<Longrightarrow> sched_inv i t" "runs i p s \<Longrightarrow> runs i p t" "keeps p s t"
    "cpuproc (cpus (mach t) ! i) = cpuproc (cpus (mach s) ! i)"
proof -
  have e: "ptlk t = ptlk s" "mach t = mach s" using assms by (simp_all add: calm_def)
  show "kernel_inv i s \<Longrightarrow> kernel_inv i t" "sched_inv i s \<Longrightarrow> sched_inv i t"
    using calm_table_ok [OF assms] calm_depth [OF assms] e by (auto simp: kernel_inv_def sched_inv_def)
  show "runs i p s \<Longrightarrow> runs i p t"
    using calm_view [OF assms] calm_length [OF assms] e by (simp add: runs_def on_cpu_def)
  show "keeps p s t" using calm_view [OF assms] calm_length [OF assms] by (simp add: keeps_def)
  show "cpuproc (cpus (mach t) ! i) = cpuproc (cpus (mach s) ! i)" by (simp add: e)
qed

text \<open>A step of process \<open>p\<close> in the kernel that comes back to it.\<close>

definition kstep :: "nat \<Rightarrow> nat \<Rightarrow> 'd krn \<Rightarrow> 'd krn \<Rightarrow> bool" where
  "kstep i p s t \<longleftrightarrow> kernel_inv i t \<and> runs i p t \<and> keeps p s t \<and> chan (ptab t ! p) = chan (ptab s ! p)"

lemma kstep_trans: "kstep i p s t \<Longrightarrow> kstep i p t u \<Longrightarrow> kstep i p s u"
  using keeps_trans by (auto simp: kstep_def)

lemma calm_kstep: "calm s t \<Longrightarrow> kernel_inv i s \<Longrightarrow> runs i p s \<Longrightarrow> kstep i p s t"
proof -
  assume a: "calm s t" "kernel_inv i s" "runs i p s"
  then have "p < length (ptab s)" by (simp add: runs_def)
  then show ?thesis using a calm_inv [OF a(1)] calm_view [OF a(1)] by (simp add: kstep_def)
qed

lemma upd_kstep:
  assumes "kernel_inv i s" "runs i p s" "q \<noteq> p" "state (ptab s ! q) \<noteq> RUNNABLE" "live (f (ptab s ! q))"
  shows "kstep i p s (upd_pp q f s)"
proof -
  have "table_ok (upd_pp q f s)"
    using assms(1,5) by (cases "q < length (ptab s)") (auto simp: kernel_inv_def table_ok_def upd_pp_def nth_list_update)
  then have "kernel_inv i (upd_pp q f s)" using assms(1) by (simp add: kernel_inv_def depth_update)
  moreover have "keeps p s (upd_pp q f s)"
    using assms(4) by (auto simp: keeps_def) (metis upd_pp_simps(5))+
  ultimately show ?thesis using assms(2,3) by (simp add: kstep_def runs_def depth_update)
qed

lemma allocproc_kstep:
  assumes s: "kernel_inv i s" "runs i p s" and a: "allocproc s = Ok (r, t)"
  shows "kstep i p s t \<and> (\<forall>np. r = Some np \<longrightarrow> np \<noteq> p \<and> np < length (ptab t) \<and> state (ptab t ! np) = EMBRYO \<and> kstack (ptab t ! np) \<noteq> 0)"
proof (cases "find_unused 0 (ptab s)")
  case None
  obtain u where u: "pt_acquire s = Ok u" "sched_inv i u" "ptab u = ptab s" "cpuproc (cpus (mach u) ! i) = cpuproc (cpus (mach s) ! i)"
    using pt_acquire_kernel [OF s(1)] by blast
  obtain v where v: "pt_release u = Ok v" "kernel_inv i v" "ptab v = ptab u" "cpuproc (cpus (mach v) ! i) = cpuproc (cpus (mach u) ! i)"
    using pt_release_kernel [OF u(2)] by blast
  have "r = None" "t = v" using a u(1,3) v(1) None by (auto simp: allocproc_def)
  then show ?thesis using u v s(2) runs_cong [of v s i p] keeps_cong [of v s p] by (simp add: kstep_def)
next
  case (Some j)
  obtain l m u where u: "pt_acquire s = Ok (s\<lparr>ptlk := l, mach := m\<rparr>)"
    "pt_release (upd_pp j (new_slot (nextpid s)) (s\<lparr>ptlk := l, mach := m, nextpid := wrap32 (nextpid s + 1)\<rparr>)) = Ok u"
    "kernel_inv i u" "ptab u = (ptab s)[j := new_slot (nextpid s) (ptab s ! j)]"
    "cpuproc (cpus (mach u) ! i) = cpuproc (cpus (mach s) ! i)"
    using claim_slot [OF s(1) Some] by blast
  have j: "j < length (ptab s)" "state (ptab s ! j) = UNUSED" using find_unused_Some [OF Some] by simp_all
  have jp: "j \<noteq> p" using s(2) j(2) by (auto simp: runs_def)
  have su: "kstep i p s u"
    using u(3-5) s(2) j jp by (auto simp: kstep_def runs_def on_cpu_def keeps_def nth_list_update)
  have eu: "state (ptab u ! j) = EMBRYO" using u(4) j(1) by (simp add: new_slot_def)
  obtain k v where k: "in_kmem kalloc u = Ok (k, v)"
    and res: "(let s4 = upd_pp j (\<lambda>q. q\<lparr>kstack := k\<rparr>) v in
         if k = 0 then Ok (None, set_state j UNUSED s4)
         else Ok (Some j, upd_pp j (\<lambda>q. ResetProcPagesData (q\<lparr>ctxt := Forkret\<rparr>)) s4)) = Ok (r, t)"
    using a Some u(1,2) by (auto simp: allocproc_def new_slot_def [abs_def] outcome_simps)
  have cv: "calm u v" using kmem_calm(2) [OF k] .
  have sv: "kstep i p s v" using su calm_kstep [OF cv] kstep_trans unfolding kstep_def by blast
  have jv: "j < length (ptab v)" "state (ptab v ! j) = EMBRYO"
    using calm_length [OF cv] calm_view [OF cv, of j] u(4) j(1) eu by simp_all
  have kv: "kernel_inv i v" "runs i p v" using sv by (simp_all add: kstep_def)
  show ?thesis
  proof (cases "k = 0")
    case True
    have "t = upd_pp j (\<lambda>q. q\<lparr>kstack := 0, state := UNUSED\<rparr>) v" "r = None"
      using res True jv(1) by (simp_all add: set_state_def upd_pp_def)
    moreover have "kstep i p v (upd_pp j (\<lambda>q. q\<lparr>kstack := 0, state := UNUSED\<rparr>) v)"
      by (rule upd_kstep [OF kv jp]) (use jv in \<open>simp_all add: live_def\<close>)
    ultimately show ?thesis using kstep_trans [OF sv] by simp
  next
    case False
    let ?f = "\<lambda>q. ResetProcPagesData (q\<lparr>kstack := k, ctxt := Forkret\<rparr>)"
    have "t = upd_pp j ?f v" "r = Some j" using res False jv(1) by (auto simp: upd_pp_def)
    moreover have "kstep i p v (upd_pp j ?f v)"
      by (rule upd_kstep [OF kv jp]) (use jv in \<open>simp_all add: live_def\<close>)
    ultimately show ?thesis using kstep_trans [OF sv] jp jv False by simp
  qed
qed

text \<open>\<open>switchuvm\<close> outside the lock: the interrupt state is as before.\<close>

lemma switchuvm_kstep:
  assumes s: "kernel_inv i s" "runs i p s" and w: "switchuvm (Some q) s = Ok t"
  shows "kstep i p s t"
proof -
  have n: "nest_ok (apic s) (mach s) i" "ncli (cpus (mach s) ! i) = 0" using s(1) by (simp_all add: kernel_inv_def cpu_depth_def)
  then have at: "cpu_at (apic s) (mach s) i" by (simp add: nest_ok_def)
  define m where "m = pushed (apic s) i (mach s)"
  have p: "nest_ok (apic s) m i" "ncli (cpus m ! i) = 1" "cpuproc (cpus m ! i) = cpuproc (cpus (mach s) ! i)"
    using pushed_facts [OF n(1)] n by (auto simp: m_def nest_ok_def pushed_def)
  have nf: "\<not> iflag m (apic s)" using p by (auto simp: nest_ok_def)
  have pp: "popcli (apic s) m = Ok (popped (apic s) i m)" using p nf by (intro popcli_eq) (simp_all add: nest_ok_def)
  note pf = popped_facts [OF p(1) nf]
  obtain a b where t: "t = s\<lparr>tss_esp0 := a, cr3 := b, mach := popped (apic s) i m\<rparr>"
    using w pp by (auto simp: switchuvm_def on_mach_def pushcli_eq [OF at] m_def [symmetric] outcome_simps)
  have "cpu_depth i 0 t" using pf p by (simp add: t cpu_depth_def)
  then have "kernel_inv i t" using s(1) by (auto simp: kernel_inv_def t table_ok_def)
  moreover have "runs i p t" using s(2) pf p by (simp add: runs_def on_cpu_def t)
  moreover have "keeps p s t" "chan (ptab t ! p) = chan (ptab s ! p)" by (simp_all add: keeps_def t)
  ultimately show ?thesis by (simp add: kstep_def)
qed

lemma calm_kernel:
  assumes "calm s t" "kernel_inv i s \<and> runs i p s"
  shows "kernel_inv i t \<and> runs i p t"
  using assms calm_inv by blast

lemma growproc_kstep:
  assumes s: "kernel_inv i s" "runs i p s" and g: "growproc n s = Ok (r, t)"
  shows "kstep i p s t"
proof -
  have c: "cur s = Some p" using kernel_inv_cur [OF s] .
  let ?old = "sz (ptab s ! p)" and ?dir = "pgdir (ptab s ! p)"
  obtain a s1 where a: "(if 0 < n then allocuvm ?dir ?old (?old + word_of_int n) s
               else if n < 0 then deallocuvm ?dir ?old (?old + word_of_int n) s
               else Ok (?old, s)) = Ok (a, s1)"
    and r: "(if n \<noteq> 0 \<and> a = 0 then Ok (- 1, s1)
          else bnd (switchuvm (Some p) (upd_pp p (\<lambda>q. q\<lparr>sz := a\<rparr>) s1)) (\<lambda>s2. Ok (0, s2))) = Ok (r, t)"
    using g c by (auto simp: growproc_def with_cur_def Let_def outcome_simps)
  have "calm s s1"
    using a calmsD [OF allocuvm_calms [OF calm_refl]] calmsD [OF deallocuvm_calms [OF calm_refl]] by (fastforce split: if_splits)
  then have s1: "kstep i p s s1" using calm_kstep s by blast
  show ?thesis
  proof (cases "n \<noteq> 0 \<and> a = 0")
    case True
    then show ?thesis using r s1 by simp
  next
    case False
    let ?u = "upd_pp p (\<lambda>q. q\<lparr>sz := a\<rparr>) s1"
    have "calm s1 ?u" by (simp add: calm_upd)
    then have u: "kstep i p s ?u" using s1 calm_kstep kstep_trans unfolding kstep_def by blast
    have "switchuvm (Some p) ?u = Ok t" using r False by (auto simp: outcome_simps)
    then show ?thesis using switchuvm_kstep u kstep_trans unfolding kstep_def by blast
  qed
qed

lemma kstep_calms: "kstep i p s t \<Longrightarrow> calms t m g \<Longrightarrow> m = Ok x \<Longrightarrow> kstep i p s (g x)"
  using calmsD [of t m g x] calm_kstep [of t "g x" i p] kstep_trans [of i p s t "g x"] by (auto simp: kstep_def)

lemma kstep_calm: "kstep i p s t \<Longrightarrow> calm t u \<Longrightarrow> kstep i p s u"
  using calm_kstep [of t u i p] kstep_trans [of i p s t u] by (auto simp: kstep_def)

lemma kstep_upd:
  assumes "kstep i p s t" "q \<noteq> p" "state (ptab t ! q) \<noteq> RUNNABLE" "live (f (ptab t ! q))"
  shows "kstep i p s (upd_pp q f t)"
proof -
  have "kstep i p t (upd_pp q f t)" by (rule upd_kstep) (use assms in \<open>simp_all add: kstep_def\<close>)
  then show ?thesis using kstep_trans [OF assms(1)] by blast
qed

text \<open>An embryo: the slot a fork is filling.\<close>

definition embryo_at :: "nat \<Rightarrow> nat \<Rightarrow> 'd krn \<Rightarrow> bool" where
  "embryo_at p q s \<longleftrightarrow> q \<noteq> p \<and> q < length (ptab s) \<and> state (ptab s ! q) = EMBRYO \<and> kstack (ptab s ! q) \<noteq> 0"

lemma embryo_calm: "embryo_at p q s \<Longrightarrow> calm s t \<Longrightarrow> embryo_at p q t"
  using calm_view [of s t q] calm_length [of s t] by (simp add: embryo_at_def)

lemma embryo_upd:
  assumes "kstep i p s t" "embryo_at p q t" "state (f (ptab t ! q)) = state (ptab t ! q)" "kstack (f (ptab t ! q)) = kstack (ptab t ! q)"
  shows "kstep i p s (upd_pp q f t) \<and> embryo_at p q (upd_pp q f t)"
  using kstep_upd [OF assms(1), of q f] assms by (simp add: embryo_at_def live_def)

lemma fork_kstep:
  assumes s: "kernel_inv i s" "runs i p s" and f: "fork s = Ok (r, t)"
  shows "kstep i p s t"
proof -
  have c: "cur s = Some p" using kernel_inv_cur [OF s] .
  obtain npo s1 where a: "allocproc s = Ok (npo, s1)" using f c by (auto simp: fork_def with_cur_def outcome_simps)
  note al = allocproc_kstep [OF s a]
  show ?thesis
  proof (cases npo)
    case None
    then show ?thesis using f c a al by (auto simp: fork_def with_cur_def)
  next
    case (Some np)
    have e1: "kstep i p s s1" "embryo_at p np s1" using al Some by (auto simp: embryo_at_def)
    obtain dir s2 where d: "copyuvm (pgdir (ptab s1 ! p)) (sz (ptab s1 ! p)) s1 = Ok (dir, s2)"
      using f c a Some by (auto simp: fork_def with_cur_def outcome_simps)
    have cm: "calm s1 s2" using calmsD [OF copyuvm_calms [OF calm_refl] d] by simp
    define s3 where "s3 = upd_pp np (\<lambda>q. q\<lparr>pgdir := dir\<rparr>) s2"
    have e3: "kstep i p s s3" "embryo_at p np s3"
      using embryo_upd [OF kstep_calm [OF e1(1) cm] embryo_calm [OF e1(2) cm], of "\<lambda>q. q\<lparr>pgdir := dir\<rparr>"] by (simp_all add: s3_def)
    have pd: "pgdir (ptab s3 ! np) = dir" using e3(2) by (simp add: s3_def embryo_at_def)
    show ?thesis
    proof (cases "dir = 0")
      case True
      obtain s4 where s4: "on_kmem (kfree (kstack (ptab s3 ! np))) s3 = Ok s4"
        and t: "t = upd_pp np (\<lambda>q. q\<lparr>kstack := 0, state := UNUSED\<rparr>) s4"
        using f c a Some d True by (auto simp: fork_def with_cur_def outcome_simps Let_def s3_def)
      have "kstep i p s s4" "embryo_at p np s4"
        using kstep_calm [OF e3(1)] embryo_calm [OF e3(2)] kmem_calm(1) [OF s4] by blast+
      then show ?thesis unfolding t by (intro kstep_upd) (simp_all add: embryo_at_def live_def)
    next
      case False
      define s4 where "s4 = upd_pp np (\<lambda>q. q\<lparr>sz := sz (ptab s3 ! p), parent := Some p, tf := tf (ptab s3 ! p)\<rparr>) s3"
      obtain s5 s6 d7 s7 where s5: "(if 2 < pid (ptab s4 ! p) then CopyContentsOfCurrentProcStructs p np s4 else Ok s4) = Ok s5"
        and s6: "fork_files NOFILE 0 p np (upd_pp np (\<lambda>q. q\<lparr>tf := (tf q)\<lparr>tf_eax := 0\<rparr>\<rparr>) s5) = Ok s6"
        and s7: "in_fs (idup (cwd (ptab s6 ! p))) s6 = Ok (d7, s7)"
        and rest: "(let s8 = upd_pp np (\<lambda>q. q\<lparr>cwd := d7, pname := pname (ptab s7 ! p)\<rparr>) s7; r = pid (ptab s8 ! np) in
             bnd (pt_acquire s8) (\<lambda>s9. bnd (pt_release (set_state np RUNNABLE s9)) (\<lambda>s10. Ok (r, s10)))) = Ok (r, t)"
        using f c a Some d False unfolding fork_def with_cur_def s4_def s3_def by (simp add: outcome_simps Let_def) blast
      have c4: "calm s3 s4" by (simp add: s4_def calm_upd)
      have "calm s4 s5" using s5 calmsD [OF CopyContents_calms [OF calm_refl]] by (auto split: if_splits)
      then have "calm s3 (upd_pp np (\<lambda>q. q\<lparr>tf := (tf q)\<lparr>tf_eax := 0\<rparr>\<rparr>) s5)" using calm_trans [OF c4] by (simp add: calm_upd)
      then have "calm s3 s6" using calmsD [OF fork_files_calms s6] by simp
      then have "calm s3 s7" using kmem_calm(4) [OF s7] calm_trans by blast
      then have c8: "calm s3 (upd_pp np (\<lambda>q. q\<lparr>cwd := d7, pname := pname (ptab s7 ! p)\<rparr>) s7)" by (simp add: calm_upd)
      define s8 where "s8 = upd_pp np (\<lambda>q. q\<lparr>cwd := d7, pname := pname (ptab s7 ! p)\<rparr>) s7"
      have k8: "kstep i p s s8" "embryo_at p np s8"
        using kstep_calm [OF e3(1)] embryo_calm [OF e3(2)] c8 unfolding s8_def by blast+
      have pd8: "pgdir (ptab s8 ! np) \<noteq> 0" using calm_view [OF c8, of np] e3(2) pd False by (simp add: embryo_at_def s8_def)
      obtain s9 where s9: "pt_acquire s8 = Ok s9" "sched_inv i s9" "ptab s9 = ptab s8" "cpuproc (cpus (mach s9) ! i) = cpuproc (cpus (mach s8) ! i)"
        using pt_acquire_kernel k8(1) unfolding kstep_def by blast
      define s9' where "s9' = set_state np RUNNABLE s9"
      have "table_ok s9'"
        using s9(2,3) k8(2) pd8 by (auto simp: s9'_def set_state_def sched_inv_def table_ok_def upd_pp_def nth_list_update live_def embryo_at_def)
      then have i9: "sched_inv i s9'" using s9(2) by (simp add: s9'_def set_state_def sched_inv_def depth_update)
      obtain u where u: "pt_release s9' = Ok u" "kernel_inv i u" "ptab u = ptab s9'" "cpuproc (cpus (mach u) ! i) = cpuproc (cpus (mach s9') ! i)"
        using pt_release_kernel [OF i9] by blast
      have "t = u" using rest s9(1) u(1) unfolding Let_def s8_def [symmetric] s9'_def by (auto simp: outcome_simps)
      moreover have "runs i p u" using u(3,4) s9(3,4) k8 by (simp add: runs_def on_cpu_def kstep_def embryo_at_def s9'_def set_state_def)
      moreover have "keeps p s8 u"
        using u(3) s9(3) k8(2) unfolding keeps_def s9'_def set_state_def embryo_at_def
        by (auto simp: upd_pp_def nth_list_update)
      moreover have "chan (ptab u ! p) = chan (ptab s8 ! p)"
        using u(3) s9(3) k8(2) by (simp add: s9'_def set_state_def embryo_at_def)
      ultimately show ?thesis using u(2) k8(1) keeps_trans unfolding kstep_def by simp blast
    qed
  qed
qed

subsection \<open>Waking and killing\<close>

lemma wakeup_kstep:
  assumes s: "kernel_inv i s" "runs i p s"
  shows "\<exists>t. wakeup ch s = Ok t \<and> kstep i p s t \<and> map chan (ptab t) = map chan (ptab s)"
proof -
  obtain t where t: "wakeup ch s = Ok t" "kernel_inv i t" "ptab t = map (wake_one ch) (ptab s)"
    "cpuproc (cpus (mach t) ! i) = cpuproc (cpus (mach s) ! i)"
    using wakeup_ok [OF s] by blast
  have "chan \<circ> wake_one ch = chan" by (auto simp: wake_one_def)
  then show ?thesis using t s(2)
    by (intro exI [of _ t]) (auto simp: kstep_def runs_def on_cpu_def keeps_def wake_one_def)
qed

lemma kill_kstep:
  assumes s: "kernel_inv i s" "runs i p s"
  shows "\<exists>r t. kill n s = Ok (r, t) \<and> kstep i p s t \<and> map chan (ptab t) = map chan (ptab s)"
proof -
  obtain t r where t: "kill n s = Ok (r, t)" "kernel_inv i t" "cpuproc (cpus (mach t) ! i) = cpuproc (cpus (mach s) ! i)"
    "case find_pid n 0 (ptab s) of None \<Rightarrow> r = - 1 \<and> ptab t = ptab s
       | Some j \<Rightarrow> r = 0 \<and> ptab t = (ptab s)[j := kill_one (ptab s ! j)]"
    using kill_ok [OF s(1)] by blast
  show ?thesis
  proof (cases "find_pid n 0 (ptab s)")
    case None
    then show ?thesis using t s(2) by (intro exI [of _ r] exI [of _ t]) (auto simp: kstep_def runs_def on_cpu_def keeps_def)
  next
    case (Some j)
    then have j: "j < length (ptab s)" using find_pid_Some [OF Some] by simp
    have "map chan (ptab t) = map chan (ptab s)"
      using t(4) Some j by (simp add: map_update kill_one_def) (metis list_update_id map_update nth_map)
    then show ?thesis using t s(2) Some j
      by (intro exI [of _ r] exI [of _ t]) (auto simp: kstep_def runs_def on_cpu_def keeps_def nth_list_update kill_one_def)
  qed
qed

subsection \<open>Giving up the processor\<close>

text \<open>A burst that is over: the lock is held for the scheduler.\<close>

definition kover :: "nat \<Rightarrow> nat \<Rightarrow> 'd krn \<Rightarrow> 'd krn \<Rightarrow> bool" where
  "kover i p s t \<longleftrightarrow> sched_inv i t \<and> keeps p s t"

lemma kstep_kover: "kstep i p s t \<Longrightarrow> kover i p t u \<Longrightarrow> kover i p s u"
  using keeps_trans by (auto simp: kstep_def kover_def)

text \<open>A change of the running process before it switches.\<close>

lemma leave_with:
  assumes s: "sched_inv i s" "runs i p s" and f: "live (f (ptab s ! p))" "state (f (ptab s ! p)) \<noteq> RUNNING"
  shows "\<exists>t. sched (upd_pp p f s) = Ok t \<and> kover i p s t \<and> state (ptab t ! p) = state (f (ptab s ! p))
    \<and> map chan (ptab t) = map chan (ptab (upd_pp p f s))"
proof -
  let ?t = "upd_pp p f s"
  have p: "p < length (ptab s)" using s(2) by (simp add: runs_def)
  have "table_ok ?t" using s(1) f(1) p by (auto simp: sched_inv_def table_ok_def upd_pp_def nth_list_update)
  then have i: "sched_inv i ?t" using s(1) by (simp add: sched_inv_def depth_update)
  obtain b where b: "sched ?t = Ok (upd_pp p (\<lambda>q. q\<lparr>ctxt := InKernel b\<rparr>) ?t)"
    using sched_switches [of i ?t p] i f(2) s(2) p by (auto simp: sched_inv_def runs_def depth_update)
  have "sched_inv i (upd_pp p (\<lambda>q. q\<lparr>ctxt := InKernel b\<rparr>) ?t)"
    using i by (auto simp: sched_inv_def depth_update intro!: table_ok_upd) (auto simp: live_def)
  moreover have "keeps p s (upd_pp p (\<lambda>q. q\<lparr>ctxt := InKernel b\<rparr>) ?t)"
    using keeps_trans [OF keeps_upd keeps_upd] by blast
  moreover have "map chan (ptab (upd_pp p (\<lambda>q. q\<lparr>ctxt := InKernel b\<rparr>) ?t)) = map chan (ptab ?t)"
    using p by (simp add: upd_pp_def map_update)
  ultimately show ?thesis using b p by (simp add: kover_def)
qed

lemma running_live: "sched_inv i s \<Longrightarrow> runs i p s \<Longrightarrow> kstack (ptab s ! p) \<noteq> 0 \<and> pgdir (ptab s ! p) \<noteq> 0"
  by (simp add: sched_inv_def table_ok_def runs_def live_def)

lemma acquire_held:
  assumes "kernel_inv i s" "runs i p s"
  shows "\<exists>t. pt_acquire s = Ok t \<and> sched_inv i t \<and> runs i p t \<and> ptab t = ptab s"
  using pt_acquire_kernel [OF assms(1)] assms(2) runs_cong by blast

lemma yield_kover:
  assumes s: "kernel_inv i s" "runs i p s"
  shows "\<exists>t. yield_cpu s = Ok t \<and> kover i p s t \<and> state (ptab t ! p) = RUNNABLE \<and> map chan (ptab t) = map chan (ptab s)"
proof -
  obtain t where t: "pt_acquire s = Ok t" "sched_inv i t" "runs i p t" "ptab t = ptab s" using acquire_held [OF s] by blast
  obtain u where u: "sched (upd_pp p (\<lambda>q. q\<lparr>state := RUNNABLE\<rparr>) t) = Ok u" "kover i p t u" "state (ptab u ! p) = RUNNABLE"
    "map chan (ptab u) = map chan (ptab (upd_pp p (\<lambda>q. q\<lparr>state := RUNNABLE\<rparr>) t))"
    using leave_with [OF t(2,3), of "\<lambda>q. q\<lparr>state := RUNNABLE\<rparr>"] running_live [OF t(2,3)] by (auto simp: live_def)
  have "map chan (ptab u) = map chan (ptab s)"
    using u(4) t(4) by (simp add: upd_pp_def map_update) (metis list_update_id map_update)
  moreover have "kover i p s u" using u(2) t(4) by (simp add: kover_def keeps_def)
  moreover have "yield_cpu s = Ok u" using t u(1) sched_inv_cur [OF t(2,3)] by (simp add: yield_cpu_def with_cur_def set_state_def)
  ultimately show ?thesis using u(3) by blast
qed

text \<open>\<open>sleep\<close> with \<open>ptable.lock\<close> held, as \<open>wait\<close> calls it, and under the lock of the clock.\<close>

lemma sleep_held:
  assumes s: "sched_inv i s" "runs i p s"
  shows "\<exists>t. sleep ch PtLock s = Ok t \<and> kover i p s t \<and> map chan (ptab t) = (map chan (ptab s))[p := ch]"
proof -
  obtain u where u: "sched (upd_pp p (\<lambda>q. q\<lparr>chan := ch, state := SLEEPING\<rparr>) s) = Ok u" "kover i p s u"
    "map chan (ptab u) = map chan (ptab (upd_pp p (\<lambda>q. q\<lparr>chan := ch, state := SLEEPING\<rparr>) s))"
    using leave_with [OF s, of "\<lambda>q. q\<lparr>chan := ch, state := SLEEPING\<rparr>"] running_live [OF s] by (auto simp: live_def)
  then show ?thesis using sched_inv_cur [OF s] by (simp add: sleep_def upd_pp_def map_update)
qed

lemma tick_sleep_kover:
  assumes s: "kernel_inv i s" "runs i p s"
  shows "\<exists>t. bnd (tick_acquire s) (sleep ch TickLock) = Ok t \<and> kover i p s t \<and> map chan (ptab t) = (map chan (ptab s))[p := ch]"
proof -
  obtain l1 m1 where a: "tick_acquire s = Ok (s\<lparr>ticklk := l1, mach := m1\<rparr>)" "cpu_depth i 1 (s\<lparr>ticklk := l1, mach := m1\<rparr>)"
    "locked l1 \<noteq> 0" "lcpu l1 = Some i" "on_cpu i (cpuproc (cpus (mach s) ! i)) (s\<lparr>ticklk := l1, mach := m1\<rparr>)"
    using s tick_acquire_free [of i 0 s] by (auto simp: kernel_inv_def table_ok_def)
  let ?a = "s\<lparr>ticklk := l1, mach := m1\<rparr>"
  obtain l2 m2 where b: "pt_acquire ?a = Ok (?a\<lparr>ptlk := l2, mach := m2\<rparr>)" "cpu_depth i 2 (?a\<lparr>ptlk := l2, mach := m2\<rparr>)"
    "locked l2 \<noteq> 0" "lcpu l2 = Some i" "on_cpu i (cpuproc (cpus (mach ?a) ! i)) (?a\<lparr>ptlk := l2, mach := m2\<rparr>)"
    using a pt_acquire_free [of i 1 ?a] s(1) by (auto simp: kernel_inv_def)
  let ?b = "?a\<lparr>ptlk := l2, mach := m2\<rparr>"
  obtain l3 m3 where c: "tick_release ?b = Ok (?b\<lparr>ticklk := l3, mach := m3\<rparr>)" "cpu_depth i 1 (?b\<lparr>ticklk := l3, mach := m3\<rparr>)"
    "locked l3 = 0" "on_cpu i (cpuproc (cpus (mach ?b) ! i)) (?b\<lparr>ticklk := l3, mach := m3\<rparr>)"
    using b a tick_release_held [of i 2 ?b] by auto
  define c where "c = ?b\<lparr>ticklk := l3, mach := m3\<rparr>"
  have cc: "sched_inv i c" "runs i p c" "ptab c = ptab s"
    using c b a s by (auto simp: c_def sched_inv_def kernel_inv_def table_ok_def runs_def on_cpu_def)
  obtain u where u: "sleep ch PtLock c = Ok u" "kover i p c u" "map chan (ptab u) = (map chan (ptab c))[p := ch]"
    using sleep_held [OF cc(1,2)] by blast
  have "cur ?a = Some p" using cur_on_cpu [OF a(2,5)] s(2) by (simp add: runs_def on_cpu_def)
  then have "bnd (tick_acquire s) (sleep ch TickLock) = Ok u"
    using a(1) b(1) c(1) u(1) sched_inv_cur [OF cc(1,2)] by (simp add: sleep_def c_def)
  moreover have "kover i p s u" using u(2) cc(3) by (simp add: kover_def keeps_def)
  ultimately show ?thesis using u(3) cc(3) by auto
qed


subsection \<open>Waiting and exiting\<close>

text \<open>Steps with \<open>ptable.lock\<close> held.\<close>

definition held :: "nat \<Rightarrow> nat \<Rightarrow> 'd krn \<Rightarrow> 'd krn \<Rightarrow> bool" where
  "held i p s t \<longleftrightarrow> sched_inv i t \<and> runs i p t \<and> keeps p s t"

lemma held_trans: "held i p s t \<Longrightarrow> held i p t u \<Longrightarrow> held i p s u"
  using keeps_trans by (auto simp: held_def)

lemma held_calm: "held i p s t \<Longrightarrow> calm t u \<Longrightarrow> held i p s u"
  using calm_inv [of t u] keeps_trans unfolding held_def by blast

lemma held_upd:
  assumes h: "held i p s t" and q: "q \<noteq> p" "state (ptab t ! q) \<noteq> RUNNABLE" "live (f (ptab t ! q))"
  shows "held i p s (upd_pp q f t)"
proof -
  have "table_ok (upd_pp q f t)"
    using h q(3) by (cases "q < length (ptab t)") (auto simp: held_def sched_inv_def table_ok_def upd_pp_def nth_list_update)
  then have "sched_inv i (upd_pp q f t)" using h by (simp add: held_def sched_inv_def depth_update)
  moreover have "keeps p t (upd_pp q f t)"
    using q(2) by (auto simp: keeps_def) (metis upd_pp_simps(5))+
  ultimately show ?thesis using h q(1) keeps_trans by (fastforce simp: held_def runs_def depth_update)
qed

lemma held_refl: "sched_inv i s \<Longrightarrow> runs i p s \<Longrightarrow> held i p s s"
  by (simp add: held_def keeps_def)

lemma held_wakeup: "held i p s t \<Longrightarrow> held i p s (wakeup1 ch t)"
  by (auto simp: held_def sched_inv_def wakeup1_def cpu_depth_def table_ok_def live_def wake_one_def runs_def on_cpu_def keeps_def)

lemma held_release:
  assumes "held i p s t" "pt_release t = Ok u"
  shows "kernel_inv i u \<and> runs i p u \<and> keeps p s u \<and> ptab u = ptab t"
proof -
  obtain v where "pt_release t = Ok v" "kernel_inv i v" "ptab v = ptab t" "cpuproc (cpus (mach v) ! i) = cpuproc (cpus (mach t) ! i)"
    using assms(1) pt_release_kernel unfolding held_def by blast
  then show ?thesis using assms runs_cong [of v t i p] by (simp add: held_def keeps_def)
qed

lemma wait_scan_zombie_at: "wait_scan p k kids ps = (b, Some j) \<Longrightarrow> k \<le> j \<and> j < k + length ps \<and> state (ps ! (j - k)) = ZOMBIE"
proof (induction ps arbitrary: k kids)
  case (Cons q ps)
  show ?case
  proof (cases "parent q = Some p \<and> state q = ZOMBIE")
    case False
    then obtain kk where "wait_scan p (Suc k) kk ps = (b, Some j)" using Cons.prems by (auto split: if_splits)
    from Cons.IH [OF this] show ?thesis by (auto simp: nth_Cons')
  qed (use Cons.prems in simp)
qed simp

lemma reap_kstep:
  assumes s: "sched_inv i s" "runs i p s" and j: "state (ptab s ! j) = ZOMBIE" "j < length (ptab s)" and r: "reap j s = Ok (n, t)"
  shows "kernel_inv i t \<and> runs i p t \<and> keeps p s t"
proof -
  have jp: "j \<noteq> p" using s(2) j(1) by (auto simp: runs_def)
  obtain s1 s2 where s1: "on_kmem (kfree (kstack (ptab s ! j))) s = Ok s1"
    and s2: "freevm (pgdir (ptab s1 ! j)) (upd_pp j (\<lambda>q. q\<lparr>kstack := 0\<rparr>) s1) = Ok s2"
    and t: "pt_release (upd_pp j (\<lambda>q. q\<lparr>pid := 0, parent := None, pname := [], killed := False, state := UNUSED\<rparr>) s2) = Ok t"
    using r by (auto simp: reap_def Let_def outcome_simps)
  have c1: "calm s s1" using kmem_calm(1) [OF s1] .
  have h1: "held i p s s1" using held_calm [OF held_refl [OF s] c1] .
  have z1: "state (ptab s1 ! j) = ZOMBIE" "j < length (ptab s1)" using calm_view [OF c1 j(2)] calm_length [OF c1] j by simp_all
  let ?u = "upd_pp j (\<lambda>q. q\<lparr>kstack := 0\<rparr>) s1"
  have h2: "held i p s ?u" by (rule held_upd [OF h1 jp]) (use z1 in \<open>simp_all add: live_def\<close>)
  have z2: "state (ptab ?u ! j) = ZOMBIE" using z1 by simp
  have c2: "calm ?u s2" using calmsD [OF freevm_calms [OF calm_refl] s2] by simp
  have z3: "state (ptab s2 ! j) = ZOMBIE" using calm_view [OF c2, of j] z1 by simp
  have "held i p s (upd_pp j (\<lambda>q. q\<lparr>pid := 0, parent := None, pname := [], killed := False, state := UNUSED\<rparr>) s2)"
    by (rule held_upd [OF held_calm [OF h2 c2] jp]) (use z3 in \<open>simp_all add: live_def\<close>)
  from held_release [OF this t] show ?thesis by simp
qed

lemma wait_round_kstep:
  assumes s: "sched_inv i s" "runs i p s" and w: "wait_round s = Ok r"
  shows "case r of Returned n t \<Rightarrow> kernel_inv i t \<and> runs i p t \<and> keeps p s t | Sleeping t \<Rightarrow> kover i p s t"
proof -
  have c: "cur s = Some p" using sched_inv_cur [OF s] .
  obtain kids jo where sc: "wait_scan p 0 False (ptab s) = (kids, jo)" by fastforce
  show ?thesis
  proof (cases jo)
    case None
    show ?thesis
    proof (cases "\<not> kids \<or> killed (ptab s ! p)")
      case True
      then obtain t where "pt_release s = Ok t" "r = Returned (- 1) t"
        using w c sc None by (auto simp: wait_round_def with_cur_def outcome_simps)
      then show ?thesis using held_release [OF held_refl [OF s]] by simp
    next
      case False
      then obtain t where "sleep (Chan_proc p) PtLock s = Ok t" "r = Sleeping t"
        using w c sc None by (auto simp: wait_round_def with_cur_def outcome_simps)
      then show ?thesis using sleep_held [OF s, of "Chan_proc p"] by auto
    qed
  next
    case (Some j)
    then obtain n t where t: "reap j s = Ok (n, t)" "r = Returned n t"
      using w c sc by (auto simp: wait_round_def with_cur_def outcome_simps)
    have "state (ptab s ! j) = ZOMBIE" "j < length (ptab s)" using wait_scan_zombie_at [OF sc [unfolded Some]] by simp_all
    from reap_kstep [OF s this t(1)] show ?thesis by (simp add: t(2))
  qed
qed

lemma reparent_held:
  "held i p s t \<Longrightarrow> held i p s (reparent k j p ini t)"
proof (induction k arbitrary: j t)
  case (Suc k)
  let ?u = "upd_pp j (\<lambda>q. q\<lparr>parent := ini\<rparr>) t"
  have "calm t ?u" by (simp add: calm_upd)
  then have u: "held i p s ?u" using held_calm Suc.prems by blast
  have "held i p s (reparent k (Suc j) p ini (wakeup1 (proc_chan ini) ?u))" "held i p s (reparent k (Suc j) p ini ?u)"
    "held i p s (reparent k (Suc j) p ini t)"
    using Suc.IH held_wakeup [OF u] u Suc.prems by blast+
  then show ?case by (simp add: Let_def)
qed simp

lemma exit_kover:
  assumes s: "kernel_inv i s" "runs i p s" and e: "exit_proc s = Ok t"
  shows "kover i p s t"
proof -
  have c: "cur s = Some p" using kernel_inv_cur [OF s] .
  obtain s1 s2 c0 s3 s4 s7 s8 where ef: "exit_files NOFILE 0 p s = Ok s1" and bo: "kfs fs_begin_op s1 = Ok s2"
    and ip: "kfs (iput (mypid s2) c0) s2 = Ok s3" and eo: "kfs (fs_end_op (mypid s3)) s3 = Ok s4"
    and sw: "(let s5 = upd_pp p (\<lambda>q. q\<lparr>cwd := None\<rparr>) s4 in
            if swapFile (ptab s5 ! p) \<noteq> None
                 then bnd (removeSwapFile p s5) (\<lambda>(_, s6). Ok (upd_pp p (\<lambda>q. q\<lparr>swapFile := None\<rparr>) s6))
                 else Ok s5) = Ok s7"
    and ac: "pt_acquire s7 = Ok s8"
    and rest: "(let s9 = wakeup1 (proc_chan (parent (ptab s8 ! p))) s8;
                s10 = reparent (length (ptab s9)) 0 p (initproc s9) s9
            in sched (set_state p ZOMBIE s10)) = Ok t"
    using e c unfolding exit_proc_def with_cur_def by (auto simp: outcome_simps Let_def split: option.splits)
  have c4: "calm s s4"
    using calmsD [OF exit_files_calms [OF calm_refl] ef] kmem_calm(5) [OF bo] kmem_calm(5) [OF ip] kmem_calm(5) [OF eo] calm_trans by blast
  have "calm s s7"
    using sw c4 calmsD [OF removeSwapFile_calms [of s "upd_pp p (\<lambda>q. q\<lparr>cwd := None\<rparr>) s4"]]
    by (auto simp: Let_def outcome_simps split: if_splits)
  from calm_kernel [OF this] s have s7: "kernel_inv i s7" "runs i p s7" by auto
  obtain s8' where "pt_acquire s7 = Ok s8'" "sched_inv i s8'" "runs i p s8'" "ptab s8' = ptab s7" using acquire_held [OF s7] by blast
  then have s8: "sched_inv i s8" "runs i p s8" "ptab s8 = ptab s7" using ac by simp_all
  define s9 where "s9 = wakeup1 (proc_chan (parent (ptab s8 ! p))) s8"
  define s10 where "s10 = reparent (length (ptab s9)) 0 p (initproc s9) s9"
  have h: "held i p s8 s10" unfolding s10_def s9_def by (intro reparent_held held_wakeup held_refl s8(1,2))
  then have s10: "sched_inv i s10" "runs i p s10" by (simp_all add: held_def)
  obtain u where "sched (upd_pp p (\<lambda>q. q\<lparr>state := ZOMBIE\<rparr>) s10) = Ok u" "kover i p s10 u"
    using leave_with [OF s10, of "\<lambda>q. q\<lparr>state := ZOMBIE\<rparr>"] by (auto simp: live_def)
  then have t: "kover i p s10 t" using rest unfolding Let_def s9_def [symmetric] s10_def [symmetric] set_state_def by simp
  have "keeps p s s7" using calm_inv(4) [OF \<open>calm s s7\<close>] .
  then have "keeps p s s8" using s8(3) by (simp add: keeps_def)
  then show ?thesis using t h keeps_trans unfolding kover_def held_def by blast
qed

subsection \<open>Bursts\<close>

text \<open>
  What a process does between the switch to it and its switch back: it comes back from the switch it left by
  (a new process in \<open>forkret\<close>; one whose channel is its own in \<open>wait\<close>; any other one that slept in
  \<open>sleep\<close>, under the lock of the clock as \<open>sys_sleep\<close> calls it; else in \<open>yield\<close>), makes system calls and gives the
  processor up.  \<open>Does g\<close> is any work on files, pipes and pages; a call of \<open>wait\<close> that finds no child that has
  exited ends the burst.
\<close>

datatype 'd kop = Wakes channel | Kills int | Forks | Grows int | Waits | Does "'d kio \<Rightarrow> 'd kio"
datatype leave = Yields | SleepsOn channel | Exits
datatype 'd progress = Goes "'d krn" | Left "'d krn"

type_synonym 'd burst = "'d kop list \<times> leave"

definition after_wait :: "'d waited \<Rightarrow> 'd progress" where
  "after_wait w = (case w of Returned n t \<Rightarrow> Goes t | Sleeping t \<Rightarrow> Left t)"

definition come_back :: "nat \<Rightarrow> 'd krn \<Rightarrow> 'd progress outcome" where
  "come_back p s =
     (case ctxt (ptab s ! p) of
        Forkret \<Rightarrow> bnd (forkret s) (\<lambda>t. Ok (Goes t))
      | InKernel b \<Rightarrow>
          (case chan (ptab s ! p) of
             NullChan \<Rightarrow> bnd (yield_resume b s) (\<lambda>t. Ok (Goes t))
           | Chan_proc q \<Rightarrow> bnd (wait_resume b s) (\<lambda>w. Ok (after_wait w))
           | _ \<Rightarrow> bnd (bnd (sleep_resume TickLock b s) tick_release) (\<lambda>t. Ok (Goes t))))"

fun do_kop :: "'d kop \<Rightarrow> 'd krn \<Rightarrow> 'd progress outcome" where
  "do_kop (Wakes ch) s = bnd (wakeup ch s) (\<lambda>t. Ok (Goes t))"
| "do_kop (Kills n) s = bnd (kill n s) (\<lambda>(_, t). Ok (Goes t))"
| "do_kop Forks s = bnd (fork s) (\<lambda>(_, t). Ok (Goes t))"
| "do_kop (Grows n) s = bnd (growproc n s) (\<lambda>(_, t). Ok (Goes t))"
| "do_kop Waits s = bnd (wait_proc s) (\<lambda>w. Ok (after_wait w))"
| "do_kop (Does g) s = Ok (Goes (s\<lparr>io := g (io s)\<rparr>))"

fun do_kops :: "'d kop list \<Rightarrow> 'd krn \<Rightarrow> 'd progress outcome" where
  "do_kops [] s = Ok (Goes s)"
| "do_kops (k # ks) s = bnd (do_kop k s) (\<lambda>r. case r of Goes t \<Rightarrow> do_kops ks t | Left t \<Rightarrow> Ok (Left t))"

fun do_leave :: "leave \<Rightarrow> 'd krn \<Rightarrow> 'd krn outcome" where
  "do_leave Yields s = yield_cpu s"
| "do_leave (SleepsOn ch) s = bnd (tick_acquire s) (sleep ch TickLock)"
| "do_leave Exits s = exit_proc s"

definition run_burst :: "(nat \<Rightarrow> 'd burst) \<Rightarrow> nat \<Rightarrow> 'd krn \<Rightarrow> 'd krn outcome" where
  "run_burst acts p s =
     bnd (come_back p s) (\<lambda>r. case r of Left t \<Rightarrow> Ok t | Goes t \<Rightarrow>
     bnd (do_kops (fst (acts p)) t) (\<lambda>r. case r of Left u \<Rightarrow> Ok u | Goes u \<Rightarrow> do_leave (snd (acts p)) u))"

text \<open>A process that is not in the middle of \<open>wait\<close>, one that keeps yielding, and a burst nothing can stop.\<close>

definition no_wait :: "pproc \<Rightarrow> bool" where
  "no_wait q \<longleftrightarrow> (\<forall>r. chan q \<noteq> Chan_proc r)"

definition stays :: "'d burst \<Rightarrow> bool" where
  "stays b \<longleftrightarrow> snd b = Yields \<and> Waits \<notin> set (fst b)"

fun plain_op :: "'d kop \<Rightarrow> bool" where
  "plain_op (Wakes ch) \<longleftrightarrow> True"
| "plain_op (Kills n) \<longleftrightarrow> True"
| "plain_op (Does g) \<longleftrightarrow> True"
| "plain_op k \<longleftrightarrow> False"

definition plain_burst :: "'d burst \<Rightarrow> bool" where
  "plain_burst b \<longleftrightarrow> (\<forall>k \<in> set (fst b). plain_op k) \<and> (case snd b of Yields \<Rightarrow> True | SleepsOn ch \<Rightarrow> (\<forall>r. ch \<noteq> Chan_proc r) | Exits \<Rightarrow> False)"

text \<open>What a step of a burst leaves.\<close>

definition goes_on :: "nat \<Rightarrow> nat \<Rightarrow> 'd krn \<Rightarrow> 'd progress \<Rightarrow> bool" where
  "goes_on i p s r \<longleftrightarrow> (case r of Goes t \<Rightarrow> kernel_inv i t \<and> runs i p t \<and> keeps p s t | Left t \<Rightarrow> kover i p s t)"

lemma after_wait_goes: "wait_round s = Ok w \<Longrightarrow> sched_inv i s \<Longrightarrow> runs i p s \<Longrightarrow> goes_on i p s (after_wait w)"
  using wait_round_kstep [of i s p w] by (cases w) (simp_all add: after_wait_def goes_on_def)

lemma goes_on_keeps: "goes_on i p t r \<Longrightarrow> keeps p s t \<Longrightarrow> goes_on i p s r"
  using keeps_trans by (cases r) (auto simp: goes_on_def kover_def)

lemma resume_upd:
  assumes "sched_inv i s" "runs i p s"
  shows "\<exists>t. sched_resume b s = Ok t \<and> sched_inv i t \<and> runs i p t \<and> ptab t = ptab s
    \<and> held i p s (upd_pp p (\<lambda>q. q\<lparr>chan := NullChan\<rparr>) t)"
proof -
  obtain t where t: "sched_resume b s = Ok t" "sched_inv i t" "runs i p t" "ptab t = ptab s"
    using resume_inv [OF assms] by blast
  have "sched_inv i (upd_pp p (\<lambda>q. q\<lparr>chan := NullChan\<rparr>) t)" "runs i p (upd_pp p (\<lambda>q. q\<lparr>chan := NullChan\<rparr>) t)"
    using t(2,3) by (auto simp: sched_inv_def depth_update runs_def intro!: table_ok_upd) (simp add: live_def)
  moreover have "keeps p s (upd_pp p (\<lambda>q. q\<lparr>chan := NullChan\<rparr>) t)" using keeps_upd [of p t] t(4) by (simp add: keeps_def)
  ultimately show ?thesis using t by (auto simp: held_def)
qed

definition proc_chan_free :: "channel \<Rightarrow> bool" where
  "proc_chan_free c \<longleftrightarrow> (\<forall>r. c \<noteq> Chan_proc r)"

lemma no_wait_chan: "no_wait q \<longleftrightarrow> proc_chan_free (chan q)"
  by (simp add: no_wait_def proc_chan_free_def)

lemma come_back_plain:
  assumes s: "sched_inv i s" "runs i p s" and w: "no_wait (ptab s ! p)"
  shows "\<exists>t c. come_back p s = Ok (Goes t) \<and> kernel_inv i t \<and> runs i p t \<and> keeps p s t
    \<and> map chan (ptab t) = (map chan (ptab s))[p := c] \<and> proc_chan_free c"
proof -
  have p: "p < length (ptab s)" using s(2) by (simp add: runs_def)
  have same: "map chan (ptab t) = (map chan (ptab s))[p := chan (ptab s ! p)]" if "ptab t = ptab s" for t :: "'a krn"
    using that p by (metis list_update_id map_update)
  have wc: "proc_chan_free (chan (ptab s ! p))" using w by (simp add: no_wait_chan)
  show ?thesis
  proof (cases "ctxt (ptab s ! p)")
    case Forkret
    obtain t where t: "pt_release s = Ok t" "kernel_inv i t" "ptab t = ptab s" "cpuproc (cpus (mach t) ! i) = cpuproc (cpus (mach s) ! i)"
      using pt_release_kernel [OF s(1)] by blast
    moreover have "\<not> first_run t" using t(2) by (simp add: kernel_inv_def table_ok_def)
    ultimately have "come_back p s = Ok (Goes t)" "runs i p t" "keeps p s t"
      using s(2) Forkret by (simp_all add: come_back_def forkret_def runs_cong [of t s] keeps_cong)
    then show ?thesis using t(2) same [OF t(3)] wc by blast
  next
    case (InKernel b)
    obtain t where t: "sched_resume b s = Ok t" "sched_inv i t" "runs i p t" "ptab t = ptab s"
      "held i p s (upd_pp p (\<lambda>q. q\<lparr>chan := NullChan\<rparr>) t)"
      using resume_upd [OF s] by blast
    show ?thesis
    proof (cases "chan (ptab s ! p) = NullChan")
      case True
      obtain u where u: "pt_release t = Ok u" "kernel_inv i u" "ptab u = ptab t" "cpuproc (cpus (mach u) ! i) = cpuproc (cpus (mach t) ! i)"
        using pt_release_kernel [OF t(2)] by blast
      have "come_back p s = Ok (Goes u)" using True InKernel t(1) u(1) by (simp add: come_back_def yield_resume_def)
      moreover have "runs i p u" "keeps p s u" using runs_cong [OF u(3,4)] t(3,4) u(3) by (simp_all add: keeps_def)
      moreover have "ptab u = ptab s" using u(3) t(4) by simp
      ultimately show ?thesis using u(2) same wc by blast
    next
      case False
      let ?t = "upd_pp p (\<lambda>q. q\<lparr>chan := NullChan\<rparr>) t"
      obtain u where u: "pt_release ?t = Ok u" using pt_release_kernel t(5) unfolding held_def by blast
      note uk = held_release [OF t(5) u]
      obtain v x where x: "tick_acquire u = Ok v" "tick_release v = Ok x" "kernel_inv i x" "ptab x = ptab u"
        "cpuproc (cpus (mach x) ! i) = cpuproc (cpus (mach u) ! i)"
        using tick_kernel uk by blast
      have "come_back p s = Ok (Goes x)"
        using InKernel False w t(1) u x(1,2) sched_inv_cur [OF t(2,3)]
        by (auto simp: come_back_def sleep_resume_def with_cur_def no_wait_def split: channel.split)
      moreover have "runs i p x" using runs_cong [OF x(4,5)] uk by simp
      moreover have "keeps p s x" using keeps_trans [OF _ keeps_cong [OF x(4)]] uk by blast
      moreover have "map chan (ptab x) = (map chan (ptab s))[p := NullChan]" using x(4) uk t(4) by (simp add: upd_pp_def map_update)
      moreover have "proc_chan_free NullChan" by (simp add: proc_chan_free_def)
      ultimately show ?thesis using x(3) by blast
    qed
  qed
qed

lemma come_back_goes:
  assumes s: "sched_inv i s" "runs i p s" and r: "come_back p s = Ok r"
  shows "goes_on i p s r"
proof (cases "no_wait (ptab s ! p)")
  case True
  from come_back_plain [OF s True] r show ?thesis by (auto simp: goes_on_def)
next
  case False
  then obtain q where q: "chan (ptab s ! p) = Chan_proc q" by (auto simp: no_wait_def)
  show ?thesis
  proof (cases "ctxt (ptab s ! p)")
    case Forkret
    obtain t where t: "pt_release s = Ok t" "kernel_inv i t" "ptab t = ptab s" "cpuproc (cpus (mach t) ! i) = cpuproc (cpus (mach s) ! i)"
      using pt_release_kernel [OF s(1)] by blast
    moreover have "\<not> first_run t" using t(2) by (simp add: kernel_inv_def table_ok_def)
    ultimately show ?thesis using s(2) Forkret r
      by (auto simp: come_back_def forkret_def goes_on_def runs_cong [of t s] keeps_cong)
  next
    case (InKernel b)
    obtain t where t: "sched_resume b s = Ok t" "sched_inv i t" "runs i p t" "ptab t = ptab s"
      "held i p s (upd_pp p (\<lambda>q. q\<lparr>chan := NullChan\<rparr>) t)"
      using resume_upd [OF s] by blast
    let ?t = "upd_pp p (\<lambda>q. q\<lparr>chan := NullChan\<rparr>) t"
    obtain w where w: "wait_round ?t = Ok w" "r = after_wait w"
      using r InKernel q t(1) sched_inv_cur [OF t(2,3)]
      by (auto simp: come_back_def wait_resume_def sleep_resume_def with_cur_def outcome_simps)
    have "goes_on i p ?t r" using after_wait_goes [OF w(1)] t(5) w(2) by (simp add: held_def)
    then show ?thesis using goes_on_keeps t(5) by (auto simp: held_def)
  qed
qed

lemma kstep_goes: "kstep i p s t \<Longrightarrow> goes_on i p s (Goes t)"
  by (simp add: kstep_def goes_on_def)

lemma Does_kstep: "kernel_inv i s \<Longrightarrow> runs i p s \<Longrightarrow> kstep i p s (s\<lparr>io := x\<rparr>)"
  by (rule calm_kstep) simp_all

lemma do_kop_goes:
  assumes s: "kernel_inv i s" "runs i p s" and r: "do_kop k s = Ok r"
  shows "goes_on i p s r \<and> (k \<noteq> Waits \<longrightarrow> (\<exists>t. r = Goes t \<and> chan (ptab t ! p) = chan (ptab s ! p)))"
proof -
  have g: "goes_on i p s r \<and> (\<exists>t. r = Goes t \<and> chan (ptab t ! p) = chan (ptab s ! p))" if "r = Goes t" "kstep i p s t" for t
    using that kstep_goes by (auto simp: kstep_def)
  show ?thesis
  proof (cases k)
    case (Wakes ch)
    then show ?thesis using g r wakeup_kstep [OF s, of ch] by (auto simp: outcome_simps)
  next
    case (Kills n)
    then show ?thesis using g r kill_kstep [OF s, of n] by (auto simp: outcome_simps)
  next
    case Forks
    then show ?thesis using g r fork_kstep [OF s] by (auto simp: outcome_simps)
  next
    case (Grows n)
    then show ?thesis using g r growproc_kstep [OF s, of n] by (auto simp: outcome_simps)
  next
    case Waits
    obtain t where t: "pt_acquire s = Ok t" "sched_inv i t" "runs i p t" "ptab t = ptab s" using acquire_held [OF s] by blast
    then obtain w where w: "wait_round t = Ok w" "r = after_wait w" using r Waits by (auto simp: wait_proc_def outcome_simps)
    have "goes_on i p t r" using after_wait_goes [OF w(1) t(2,3)] w(2) by simp
    then show ?thesis using goes_on_keeps keeps_cong [OF t(4)] Waits by blast
  next
    case (Does f)
    then show ?thesis using g r Does_kstep [OF s] by auto
  qed
qed

lemma do_kops_goes:
  assumes "kernel_inv i s" "runs i p s" "do_kops ks s = Ok r"
  shows "goes_on i p s r \<and> (Waits \<notin> set ks \<longrightarrow> (\<exists>t. r = Goes t \<and> chan (ptab t ! p) = chan (ptab s ! p)))"
  using assms
proof (induction ks arbitrary: s)
  case Nil
  then show ?case by (auto simp: goes_on_def keeps_def)
next
  case (Cons k ks)
  obtain x where x: "do_kop k s = Ok x" using Cons.prems(3) by (auto simp: outcome_simps)
  note g = do_kop_goes [OF Cons.prems(1,2) x]
  show ?case
  proof (cases x)
    case (Left t)
    then show ?thesis using g x Cons.prems(3) by auto
  next
    case (Goes t)
    then have t: "kernel_inv i t" "runs i p t" "keeps p s t" "do_kops ks t = Ok r"
      using g x Cons.prems(3) by (auto simp: goes_on_def)
    from Cons.IH [OF t(1,2,4)] have h: "goes_on i p t r"
      "Waits \<notin> set ks \<longrightarrow> (\<exists>u. r = Goes u \<and> chan (ptab u ! p) = chan (ptab t ! p))" by blast+
    show ?thesis using goes_on_keeps [OF h(1) t(3)] h(2) g Goes by auto
  qed
qed

lemma do_kops_plain:
  "kernel_inv i s \<Longrightarrow> runs i p s \<Longrightarrow> \<forall>k \<in> set ks. plain_op k \<Longrightarrow>
    \<exists>t. do_kops ks s = Ok (Goes t) \<and> map chan (ptab t) = map chan (ptab s)"
proof (induction ks arbitrary: s)
  case (Cons k ks)
  have "\<exists>t. do_kop k s = Ok (Goes t) \<and> kstep i p s t \<and> map chan (ptab t) = map chan (ptab s)"
  proof (cases k)
    case (Wakes ch)
    then show ?thesis using wakeup_kstep [OF Cons.prems(1,2), of ch] by auto
  next
    case (Kills n)
    then show ?thesis using kill_kstep [OF Cons.prems(1,2), of n] by auto
  next
    case (Does f)
    then show ?thesis using Does_kstep [OF Cons.prems(1,2)] by simp
  qed (use Cons.prems(3) in simp_all)
  then show ?case using Cons.IH Cons.prems(3) by (fastforce simp: kstep_def)
qed simp

lemma do_leave_over:
  assumes s: "kernel_inv i s" "runs i p s" and r: "do_leave l s = Ok t"
  shows "kover i p s t \<and> (l = Yields \<longrightarrow> state (ptab t ! p) = RUNNABLE \<and> map chan (ptab t) = map chan (ptab s))"
proof (cases l)
  case Yields
  then show ?thesis using r yield_kover [OF s] by auto
next
  case (SleepsOn ch)
  then show ?thesis using r tick_sleep_kover [OF s, of ch] by auto
next
  case Exits
  then show ?thesis using r exit_kover [OF s] by auto
qed

lemma run_burst_over:
  assumes s: "sched_inv i s" "runs i p s" and r: "run_burst acts p s = Ok t"
  shows "kover i p s t \<and> (stays (acts p) \<longrightarrow> no_wait (ptab s ! p) \<longrightarrow> state (ptab t ! p) = RUNNABLE \<and> no_wait (ptab t ! p))"
proof -
  obtain x where x: "come_back p s = Ok x" using r by (auto simp: run_burst_def outcome_simps)
  note g = come_back_goes [OF s x]
  show ?thesis
  proof (cases x)
    case (Left u)
    moreover have "\<not> no_wait (ptab s ! p)" using come_back_plain [OF s] x Left by auto
    ultimately show ?thesis using g r x by (auto simp: run_burst_def goes_on_def)
  next
    case (Goes u)
    then have u: "kernel_inv i u" "runs i p u" "keeps p s u" using g by (simp_all add: goes_on_def)
    have nu: "no_wait (ptab u ! p)" if nw: "no_wait (ptab s ! p)"
    proof -
      obtain c where c: "map chan (ptab u) = (map chan (ptab s))[p := c]" "proc_chan_free c"
        using come_back_plain [OF s nw] x Goes by auto
      have "p < length (ptab u)" "p < length (ptab s)" using u(2) s(2) by (simp_all add: runs_def)
      then have "chan (ptab u ! p) = c" using arg_cong [OF c(1), of "\<lambda>xs. xs ! p"] by simp
      then show ?thesis using c(2) by (simp add: no_wait_chan)
    qed
    obtain y where y: "do_kops (fst (acts p)) u = Ok y" using r x Goes by (auto simp: run_burst_def outcome_simps)
    note gy = do_kops_goes [OF u(1,2) y]
    show ?thesis
    proof (cases y)
      case (Left v)
      then have "t = v" "kover i p u v" using gy r x y Goes by (auto simp: run_burst_def goes_on_def)
      moreover have "\<not> stays (acts p)" using gy Left by (auto simp: stays_def)
      ultimately show ?thesis using u(3) keeps_trans by (auto simp: kover_def)
    next
      case (Goes v)
      have v: "kernel_inv i v" "runs i p v" "keeps p u v" using gy Goes by (simp_all add: goes_on_def)
      have l: "do_leave (snd (acts p)) v = Ok t" using r x y Goes \<open>x = Goes u\<close> by (simp add: run_burst_def)
      note o = do_leave_over [OF v(1,2) l]
      have "kover i p s t" using o u(3) v(3) keeps_trans unfolding kover_def by blast
      moreover have "state (ptab t ! p) = RUNNABLE \<and> no_wait (ptab t ! p)" if st: "stays (acts p)" and nw: "no_wait (ptab s ! p)"
      proof -
        have st': "snd (acts p) = Yields" "Waits \<notin> set (fst (acts p))" using st by (simp_all add: stays_def)
        then have t: "state (ptab t ! p) = RUNNABLE" "map chan (ptab t) = map chan (ptab v)" using o by simp_all
        have lt: "p < length (ptab v)" using v(2) by (simp add: runs_def)
        then have "p < length (ptab t)" using t(2) map_eq_imp_length_eq by metis
        then have "chan (ptab t ! p) = chan (ptab v ! p)" using arg_cong [OF t(2), of "\<lambda>xs. xs ! p"] lt by simp
        also have "\<dots> = chan (ptab u ! p)" using gy Goes st'(2) by auto
        finally show ?thesis using t(1) nu [OF nw] by (simp add: no_wait_chan)
      qed
      ultimately show ?thesis by blast
    qed
  qed
qed

lemma run_burst_plain:
  assumes s: "sched_inv i s" "runs i p s" and w: "no_wait (ptab s ! p)" and a: "plain_burst (acts p)"
  shows "\<exists>t c. run_burst acts p s = Ok t \<and> map chan (ptab t) = (map chan (ptab s))[p := c] \<and> proc_chan_free c"
proof -
  obtain u c where u: "come_back p s = Ok (Goes u)" "kernel_inv i u" "runs i p u" "map chan (ptab u) = (map chan (ptab s))[p := c]" "proc_chan_free c"
    using come_back_plain [OF s w] by blast
  obtain v where v: "do_kops (fst (acts p)) u = Ok (Goes v)" "map chan (ptab v) = map chan (ptab u)"
    using do_kops_plain [OF u(2,3)] a by (auto simp: plain_burst_def)
  have kv: "kernel_inv i v" "runs i p v" using do_kops_goes [OF u(2,3) v(1)] by (simp_all add: goes_on_def)
  have "\<exists>t d. do_leave (snd (acts p)) v = Ok t \<and> map chan (ptab t) = (map chan (ptab s))[p := d] \<and> proc_chan_free d"
  proof (cases "snd (acts p)")
    case Yields
    then show ?thesis using yield_kover [OF kv] v(2) u(4,5) by auto
  next
    case (SleepsOn ch)
    then have "proc_chan_free ch" using a by (simp add: plain_burst_def proc_chan_free_def)
    then show ?thesis using tick_sleep_kover [OF kv, of ch] v(2) u(4) SleepsOn by auto
  next
    case Exits
    then show ?thesis using a by (simp add: plain_burst_def)
  qed
  then show ?thesis using u(1) v(1) by (auto simp: run_burst_def)
qed

subsection \<open>The scheduler and its clients\<close>

text \<open>The states in which a pass over the slots from \<open>j\<close> on hands the processor to a process.\<close>

inductive hands :: "(nat \<Rightarrow> 'd krn \<Rightarrow> 'd krn outcome) \<Rightarrow> nat \<Rightarrow> 'd krn \<Rightarrow> nat \<Rightarrow> 'd krn \<Rightarrow> bool" for run where
  hands_here: "state (ptab s ! j) = RUNNABLE \<Longrightarrow> sched_dispatch j s = Ok u \<Longrightarrow> hands run j s j u"
| hands_skip: "state (ptab s ! j) \<noteq> RUNNABLE \<Longrightarrow> hands run (Suc j) s q u \<Longrightarrow> hands run j s q u"
| hands_next: "state (ptab s ! j) = RUNNABLE \<Longrightarrow> sched_dispatch j s = Ok s1 \<Longrightarrow> run j s1 = Ok s2 \<Longrightarrow>
    sched_back s2 = Ok s3 \<Longrightarrow> hands run (Suc j) s3 q u \<Longrightarrow> hands run j s q u"

text \<open>A burst does not come back to the scheduler: an operation of the process panics or never returns.\<close>

definition stuck :: "nat \<Rightarrow> (nat \<Rightarrow> 'd krn \<Rightarrow> 'd krn outcome) \<Rightarrow> ('d krn \<Rightarrow> bool) \<Rightarrow> nat \<Rightarrow> 'd krn \<Rightarrow> bool" where
  "stuck i run J j s \<longleftrightarrow> (\<exists>q u. hands run j s q u \<and> sched_inv i u \<and> runs i q u \<and> J u \<and> (\<forall>t. run q u \<noteq> Ok t))"

definition stuck_pass :: "nat \<Rightarrow> (nat \<Rightarrow> 'd krn \<Rightarrow> 'd krn outcome) \<Rightarrow> ('d krn \<Rightarrow> bool) \<Rightarrow> 'd krn \<Rightarrow> bool" where
  "stuck_pass i run J s \<longleftrightarrow> (\<exists>s1. pt_acquire (s\<lparr>mach := set_iflag (apic s) True (mach s)\<rparr>) = Ok s1 \<and> stuck i run J 0 s1)"

lemma stuck_skip: "state (ptab s ! j) \<noteq> RUNNABLE \<Longrightarrow> stuck i run J (Suc j) s \<Longrightarrow> stuck i run J j s"
  unfolding stuck_def using hands_skip by blast

lemma stuck_next: "state (ptab s ! j) = RUNNABLE \<Longrightarrow> sched_dispatch j s = Ok s1 \<Longrightarrow> run j s1 = Ok s2 \<Longrightarrow>
    sched_back s2 = Ok s3 \<Longrightarrow> stuck i run J (Suc j) s3 \<Longrightarrow> stuck i run J j s"
  unfolding stuck_def using hands_next by blast

definition ready :: "'d krn \<Rightarrow> nat \<Rightarrow> bool" where
  "ready s q \<longleftrightarrow> state (ptab s ! q) = RUNNABLE \<and> no_wait (ptab s ! q)"

text \<open>
  What the scheduler needs of a process: when it switches back it has kept the invariant and has taken no
  other process off the runnable ones; \<open>steady p\<close> if it is runnable itself then, unless it had been
  waiting.  \<open>J\<close> is a property of the channels that bursts keep.
\<close>

locale processor_client =
  fixes i :: nat and run :: "nat \<Rightarrow> 'd krn \<Rightarrow> 'd krn outcome" and steady :: "nat \<Rightarrow> bool" and J :: "'d krn \<Rightarrow> bool"
  assumes burst: "sched_inv i s \<Longrightarrow> runs i p s \<Longrightarrow> run p s = Ok t \<Longrightarrow> sched_inv i t \<and> keeps p s t
      \<and> (steady p \<longrightarrow> no_wait (ptab s ! p) \<longrightarrow> state (ptab t ! p) = RUNNABLE \<and> no_wait (ptab t ! p)) \<and> (J s \<longrightarrow> J t)"
    and J_chan: "map chan (ptab t) = map chan (ptab s) \<Longrightarrow> J s \<Longrightarrow> J t"
begin

lemma dispatch:
  assumes s: "sched_inv i s" "p < length (ptab s)" "state (ptab s ! p) = RUNNABLE"
  shows "\<exists>t. sched_dispatch p s = Ok t \<and> sched_inv i t \<and> runs i p t \<and> keeps p s t \<and> map chan (ptab t) = map chan (ptab s)"
proof -
  have d: "cpu_depth i 1 s" using s(1) by (simp add: sched_inv_def)
  obtain m where m: "set_cpuproc (Some p) s = Ok (s\<lparr>mach := m\<rparr>)" "cpu_depth i 1 (s\<lparr>mach := m\<rparr>)" "on_cpu i (Some p) (s\<lparr>mach := m\<rparr>)"
    using set_cpuproc_eq [OF d] by blast
  have l: "kstack (ptab s ! p) \<noteq> 0" "pgdir (ptab s ! p) \<noteq> 0"
    using s by (simp_all add: sched_inv_def table_ok_def live_def)
  obtain a b where v: "switchuvm (Some p) (s\<lparr>mach := m\<rparr>) = Ok (s\<lparr>mach := m, tss_esp0 := a, cr3 := b\<rparr>)"
    using switchuvm_eq [OF m(2,3), of p] l by auto
  let ?v = "s\<lparr>mach := m, tss_esp0 := a, cr3 := b\<rparr>"
  let ?t = "set_state p RUNNING ?v"
  have "sched_inv i ?t"
    using s(1,2) m(2) l by (auto simp: sched_inv_def set_state_def table_ok_def upd_pp_def nth_list_update live_def cpu_depth_def)
  moreover have "runs i p ?t" "keeps p s ?t"
    using m(3) s(2) by (auto simp: runs_def on_cpu_def set_state_def keeps_def)
  moreover have "map chan (ptab ?t) = map chan (ptab s)"
    using s(2) by (simp add: set_state_def upd_pp_def map_update) (metis list_update_id map_update)
  ultimately show ?thesis using m(1) v by (intro exI [of _ ?t]) (simp add: sched_dispatch_def)
qed

lemma loop:
  "sched_inv i s \<Longrightarrow> J s \<Longrightarrow> j + k = length (ptab s) \<Longrightarrow>
   (\<exists>ran t. sched_loop run k j s = Ok (ran, t) \<and> sched_inv i t \<and> J t \<and> length (ptab t) = length (ptab s)
     \<and> sorted_wrt (<) ran \<and> (\<forall>q \<in> set ran. j \<le> q \<and> q < length (ptab s))
     \<and> (\<forall>q. j \<le> q \<longrightarrow> q < length (ptab s) \<longrightarrow> state (ptab s ! q) = RUNNABLE \<longrightarrow> q \<in> set ran)
     \<and> (\<forall>q < length (ptab s). steady q \<or> q < j \<longrightarrow> ready s q \<longrightarrow> ready t q))
   \<or> stuck i run J j s \<and> (\<forall>x. sched_loop run k j s \<noteq> Ok x)"
proof (induction k arbitrary: j s)
  case (Suc k)
  have jk: "Suc j + k = length (ptab s)" "j < length (ptab s)" using Suc.prems(3) by simp_all
  show ?case
  proof (cases "state (ptab s ! j) = RUNNABLE")
    case False
    then have run: "sched_loop run (Suc k) j s = sched_loop run k (Suc j) s" by simp
    consider ran t where "sched_loop run k (Suc j) s = Ok (ran, t)" "sched_inv i t" "J t" "length (ptab t) = length (ptab s)"
        "sorted_wrt (<) ran" "\<forall>q \<in> set ran. Suc j \<le> q \<and> q < length (ptab s)"
        "\<forall>q. Suc j \<le> q \<longrightarrow> q < length (ptab s) \<longrightarrow> state (ptab s ! q) = RUNNABLE \<longrightarrow> q \<in> set ran"
        "\<forall>q < length (ptab s). steady q \<or> q < Suc j \<longrightarrow> ready s q \<longrightarrow> ready t q"
      | "stuck i run J (Suc j) s" "\<forall>x. sched_loop run k (Suc j) s \<noteq> Ok x"
      using Suc.IH [OF Suc.prems(1,2) jk(1)] by blast
    then show ?thesis
    proof cases
      case t: 1
      have "q \<in> set ran" if "j \<le> q" "q < length (ptab s)" "state (ptab s ! q) = RUNNABLE" for q
        using t(7) that False by (cases "q = j") auto
      moreover have "\<forall>q \<in> set ran. j \<le> q \<and> q < length (ptab s)" using t(6) Suc_leD by blast
      moreover have "ready t q" if "q < length (ptab s)" "steady q \<or> q < j" "ready s q" for q
        using t(8) that less_SucI by blast
      ultimately show ?thesis using t(1-5) unfolding run by blast
    next
      case 2
      then show ?thesis using stuck_skip [of s j] False unfolding run by blast
    qed
  next
    case True
    obtain s1 where s1: "sched_dispatch j s = Ok s1" "sched_inv i s1" "runs i j s1" "keeps j s s1" "map chan (ptab s1) = map chan (ptab s)"
      using dispatch [OF Suc.prems(1) jk(2) True] by blast
    have J1: "J s1" using J_chan [OF s1(5) Suc.prems(2)] .
    show ?thesis
    proof (cases "\<exists>s2. run j s1 = Ok s2")
      case False
      then have "stuck i run J j s" using s1(2,3) J1 hands_here [OF True s1(1)] unfolding stuck_def by blast
      moreover have "sched_loop run (Suc k) j s \<noteq> Ok x" for x
        using False s1(1) True by (auto simp: outcome_simps)
      ultimately show ?thesis by blast
    next
      case ran1: True
      then obtain s2 where r2: "run j s1 = Ok s2" by blast
      have s2: "sched_inv i s2" "keeps j s1 s2" "J s2"
        "steady j \<longrightarrow> no_wait (ptab s1 ! j) \<longrightarrow> state (ptab s2 ! j) = RUNNABLE \<and> no_wait (ptab s2 ! j)"
        using burst [OF s1(2,3) r2] J1 by blast+
      have "cpu_depth i 1 (switchkvm s2)" using s2(1) by (simp add: switchkvm_def sched_inv_def depth_update)
      from set_cpuproc_eq [OF this, of None] obtain m where
        m: "sched_back s2 = Ok (switchkvm s2\<lparr>mach := m\<rparr>)" "cpu_depth i 1 (switchkvm s2\<lparr>mach := m\<rparr>)"
        by (auto simp: sched_back_def)
      define s3 where "s3 = switchkvm s2\<lparr>mach := m\<rparr>"
      have s3: "sched_back s2 = Ok s3" "sched_inv i s3" "ptab s3 = ptab s2"
        using m s2(1) by (auto simp: s3_def sched_inv_def switchkvm_def table_ok_def)
      have J3: "J s3" using J_chan [of s3 s2] s2(3) s3(3) by simp
      have k: "keeps j s s3" using keeps_trans [OF s1(4) s2(2)] s3(3) by (simp add: keeps_def)
      then have len: "length (ptab s3) = length (ptab s)" by (simp add: keeps_def)
      have nwj: "no_wait (ptab s1 ! j) = no_wait (ptab s ! j)"
      proof -
        have "length (ptab s1) = length (ptab s)" using s1(4) by (simp add: keeps_def)
        then have "chan (ptab s1 ! j) = chan (ptab s ! j)" using arg_cong [OF s1(5), of "\<lambda>xs. xs ! j"] jk(2) by simp
        then show ?thesis by (simp add: no_wait_def)
      qed
      have rdy: "ready s3 q" if "q < length (ptab s)" "steady q \<or> q \<noteq> j" "ready s q" for q
        using that k s2(4) s3(3) nwj by (cases "q = j") (auto simp: keeps_def ready_def no_wait_def)
      have run: "sched_loop run (Suc k) j s = bnd (sched_loop run k (Suc j) s3) (\<lambda>(ran, s4). Ok (j # ran, s4))"
        using True s1(1) r2 s3(1) by simp
      have jk3: "Suc j + k = length (ptab s3)" using jk(1) len by simp
      consider ran t where "sched_loop run k (Suc j) s3 = Ok (ran, t)" "sched_inv i t" "J t" "length (ptab t) = length (ptab s)"
          "sorted_wrt (<) ran" "\<forall>q \<in> set ran. Suc j \<le> q \<and> q < length (ptab s)"
          "\<forall>q. Suc j \<le> q \<longrightarrow> q < length (ptab s) \<longrightarrow> state (ptab s3 ! q) = RUNNABLE \<longrightarrow> q \<in> set ran"
          "\<forall>q < length (ptab s). steady q \<or> q < Suc j \<longrightarrow> ready s3 q \<longrightarrow> ready t q"
        | "stuck i run J (Suc j) s3" "\<forall>x. sched_loop run k (Suc j) s3 \<noteq> Ok x"
        using Suc.IH [OF s3(2) J3 jk3] unfolding len by blast
      then show ?thesis
      proof cases
        case t: 1
        have "q \<in> set (j # ran)" if "j \<le> q" "q < length (ptab s)" "state (ptab s ! q) = RUNNABLE" for q
          using t(7) that k by (cases "q = j") (auto simp: keeps_def)
        moreover have "ready t q" if "q < length (ptab s)" "steady q \<or> q < j" "ready s q" for q
        proof -
          have "ready s3 q" using rdy that by auto
          then show ?thesis using t(8) that(1,2) less_SucI by blast
        qed
        moreover have "\<forall>q \<in> set (j # ran). j \<le> q \<and> q < length (ptab s)" using t(6) jk(2) by auto
        moreover have "sorted_wrt (<) (j # ran)" using t(5,6) by auto
        moreover have "sched_loop run (Suc k) j s = Ok (j # ran, t)" using t(1) unfolding run by simp
        ultimately show ?thesis using t(2-4) by blast
      next
        case 2
        then have "stuck i run J j s" using stuck_next [of s j s1 run s2 s3] True s1(1) r2 s3(1) by blast
        with 2(2) show ?thesis unfolding run by (auto simp: outcome_simps)
      qed
    qed
  qed
qed simp

lemma whole_loop:
  assumes "sched_inv i s" "J s"
  shows "(\<exists>ran t. sched_loop run (length (ptab s)) 0 s = Ok (ran, t) \<and> sched_inv i t \<and> J t \<and> length (ptab t) = length (ptab s)
     \<and> sorted_wrt (<) ran \<and> (\<forall>q \<in> set ran. q < length (ptab s))
     \<and> (\<forall>q. q < length (ptab s) \<longrightarrow> state (ptab s ! q) = RUNNABLE \<longrightarrow> q \<in> set ran)
     \<and> (\<forall>q < length (ptab s). steady q \<longrightarrow> ready s q \<longrightarrow> ready t q))
   \<or> stuck i run J 0 s \<and> (\<forall>x. sched_loop run (length (ptab s)) 0 s \<noteq> Ok x)"
  using loop [OF assms, of 0 "length (ptab s)"] by simp

lemma pass:
  assumes s: "kernel_inv i s" "J s"
  shows "(\<exists>ran t. scheduler_pass run s = Ok (ran, t) \<and> kernel_inv i t \<and> J t \<and> length (ptab t) = length (ptab s)
      \<and> sorted_wrt (<) ran \<and> (\<forall>q < length (ptab s). state (ptab s ! q) = RUNNABLE \<longrightarrow> q \<in> set ran)
      \<and> (\<forall>q < length (ptab s). steady q \<longrightarrow> ready s q \<longrightarrow> ready t q))
    \<or> stuck_pass i run J s \<and> (\<forall>x. scheduler_pass run s \<noteq> Ok x)"
proof -
  let ?s = "s\<lparr>mach := set_iflag (apic s) True (mach s)\<rparr>"
  have "kernel_inv i ?s" using s(1) by (auto simp: kernel_inv_def cpu_depth_def nest_ok_def table_ok_def)
  from pt_acquire_kernel [OF this] obtain s1 where s1: "pt_acquire ?s = Ok s1" "sched_inv i s1" "ptab s1 = ptab s" by auto
  have J1: "J s1" using J_chan [of s1 s] s1(3) s(2) by simp
  have run: "scheduler_pass run s = bnd (sched_loop run (length (ptab s1)) 0 s1) (\<lambda>(ran, s2). bnd (pt_release s2) (\<lambda>s3. Ok (ran, s3)))"
    using s1(1) by (simp add: scheduler_pass_def)
  note lp = whole_loop [OF s1(2) J1]
  show ?thesis
  proof (cases "\<exists>x. sched_loop run (length (ptab s1)) 0 s1 = Ok x")
    case False
    then have "stuck_pass i run J s" using lp s1(1) unfolding stuck_pass_def by blast
    with False show ?thesis unfolding run by (auto simp: outcome_simps)
  next
    case True
    then obtain ran t where t: "sched_loop run (length (ptab s1)) 0 s1 = Ok (ran, t)" "sched_inv i t" "J t"
        "length (ptab t) = length (ptab s1)" "sorted_wrt (<) ran"
        "\<forall>q. q < length (ptab s1) \<longrightarrow> state (ptab s1 ! q) = RUNNABLE \<longrightarrow> q \<in> set ran"
        "\<forall>q < length (ptab s1). steady q \<longrightarrow> ready s1 q \<longrightarrow> ready t q"
      using lp by blast
    obtain u where u: "pt_release t = Ok u" "kernel_inv i u" "ptab u = ptab t" using pt_release_kernel [OF t(2)] by blast
    have "scheduler_pass run s = Ok (ran, u)" unfolding run using t(1) u(1) by simp
    moreover have "J u" using J_chan [of u t] t(3) u(3) by simp
    moreover have "length (ptab u) = length (ptab s)" using t(4) s1(3) u(3) by simp
    moreover have "\<forall>q < length (ptab s). state (ptab s ! q) = RUNNABLE \<longrightarrow> q \<in> set ran"
      using t(6) s1(3) by simp
    moreover have "\<forall>q < length (ptab s). steady q \<longrightarrow> ready s q \<longrightarrow> ready u q"
      using t(7) s1(3) u(3) by (simp add: ready_def)
    ultimately show ?thesis using u(2) t(5) by blast
  qed
qed

end

text \<open>With plain bursts nobody waits.\<close>

definition no_waits :: "(nat \<Rightarrow> 'd burst) \<Rightarrow> 'd krn \<Rightarrow> bool" where
  "no_waits acts s \<longleftrightarrow> (\<forall>q. plain_burst (acts q)) \<longrightarrow> (\<forall>c \<in> set (map chan (ptab s)). proc_chan_free c)"

lemma run_burst_client:
  "processor_client i (run_burst acts) (\<lambda>p. stays (acts p)) (no_waits acts)"
proof
  fix s t :: "'a krn" and p
  assume s: "sched_inv i s" "runs i p s" and r: "run_burst acts p s = Ok t"
  have "no_waits acts t" if q: "no_waits acts s"
    unfolding no_waits_def
  proof
    assume a: "\<forall>q. plain_burst (acts q)"
    then have ok: "\<forall>c \<in> set (map chan (ptab s)). proc_chan_free c" using q by (simp add: no_waits_def)
    have "p < length (ptab s)" using s(2) by (simp add: runs_def)
    then have w: "no_wait (ptab s ! p)" using ok by (simp add: no_wait_chan)
    have "plain_burst (acts p)" using a by blast
    with run_burst_plain [of i s p acts] s w obtain c where c: "map chan (ptab t) = (map chan (ptab s))[p := c]" "proc_chan_free c"
      using r by auto
    show "\<forall>c \<in> set (map chan (ptab t)). proc_chan_free c"
      using set_update_subset_insert [of "map chan (ptab s)" p c] ok c(2) unfolding c(1) by blast
  qed
  then show "sched_inv i t \<and> keeps p s t
      \<and> (stays (acts p) \<longrightarrow> no_wait (ptab s ! p) \<longrightarrow> state (ptab t ! p) = RUNNABLE \<and> no_wait (ptab t ! p))
      \<and> (no_waits acts s \<longrightarrow> no_waits acts t)"
    using run_burst_over [OF s r] by (simp add: kover_def)
qed (simp add: no_waits_def)

interpretation bursts: processor_client i "run_burst acts" "\<lambda>p. stays (acts p)" "no_waits acts" for i acts
  by (rule run_burst_client)

lemma run_burst_any: "processor_client i (run_burst acts) (\<lambda>p. stays (acts p)) (\<lambda>_. True)"
proof
  fix s t :: "'a krn" and p
  assume s: "sched_inv i s" "runs i p s" and r: "run_burst acts p s = Ok t"
  show "sched_inv i t \<and> keeps p s t
      \<and> (stays (acts p) \<longrightarrow> no_wait (ptab s ! p) \<longrightarrow> state (ptab t ! p) = RUNNABLE \<and> no_wait (ptab t ! p))
      \<and> (True \<longrightarrow> True)"
    using run_burst_over [OF s r] by (simp add: kover_def)
qed simp

interpretation any_bursts: processor_client i "run_burst acts" "\<lambda>p. stays (acts p)" "\<lambda>_. True" for i acts
  by (rule run_burst_any)

fun passes :: "(nat \<Rightarrow> 'd burst) list \<Rightarrow> 'd krn \<Rightarrow> (nat list list \<times> 'd krn) outcome" where
  "passes [] s = Ok ([], s)"
| "passes (acts # as) s =
     bnd (scheduler_pass (run_burst acts) s) (\<lambda>(ran, s1). bnd (passes as s1) (\<lambda>(rans, s2). Ok (ran # rans, s2)))"

text \<open>The rounds stop in a burst: it is reached from the first round's start, and does not come back.\<close>

fun stops :: "nat \<Rightarrow> (nat \<Rightarrow> 'd burst) list \<Rightarrow> 'd krn \<Rightarrow> bool" where
  "stops i [] s = False"
| "stops i (acts # as) s \<longleftrightarrow> stuck_pass i (run_burst acts) (\<lambda>_. True) s
     \<or> (\<exists>ran t. scheduler_pass (run_burst acts) s = Ok (ran, t) \<and> stops i as t)"

lemma passes_served:
  assumes "kernel_inv i s" "p < length (ptab s)" "ready s p" "\<forall>acts \<in> set as. stays (acts p)"
  shows "(\<exists>rans t. passes as s = Ok (rans, t) \<and> kernel_inv i t \<and> length rans = length as
      \<and> (\<forall>ran \<in> set rans. p \<in> set ran \<and> sorted_wrt (<) ran)
      \<and> (as \<noteq> [] \<longrightarrow> (\<forall>q < length (ptab s). state (ptab s ! q) = RUNNABLE \<longrightarrow> q \<in> set (hd rans))))
    \<or> stops i as s \<and> (\<forall>x. passes as s \<noteq> Ok x)"
  using assms
proof (induction as arbitrary: s)
  case (Cons acts as)
  show ?case
  proof (cases "\<exists>x. scheduler_pass (run_burst acts) s = Ok x")
    case False
    moreover have "stuck_pass i (run_burst acts) (\<lambda>_. True) s" using any_bursts.pass [OF Cons.prems(1), of acts] False by blast
    ultimately show ?thesis by (auto simp: outcome_simps)
  next
    case True
    then obtain ran t where t: "scheduler_pass (run_burst acts) s = Ok (ran, t)" "kernel_inv i t" "length (ptab t) = length (ptab s)"
      "sorted_wrt (<) ran" "\<forall>q < length (ptab s). state (ptab s ! q) = RUNNABLE \<longrightarrow> q \<in> set ran"
      "\<forall>q < length (ptab s). stays (acts q) \<longrightarrow> ready s q \<longrightarrow> ready t q"
      using any_bursts.pass [OF Cons.prems(1), of acts] by blast
    have pr: "p < length (ptab t)" "ready t p" "\<forall>acts \<in> set as. stays (acts p)" using t(3,6) Cons.prems(2-4) by simp_all
    have pin: "p \<in> set ran" using t(5) Cons.prems(2,3) by (simp add: ready_def)
    have run: "passes (acts # as) s = bnd (passes as t) (\<lambda>(rans, s2). Ok (ran # rans, s2))" using t(1) by simp
    show ?thesis
    proof (cases "\<exists>x. passes as t = Ok x")
      case False
      then have "stops i as t" using Cons.IH [OF t(2) pr] by blast
      then have "stops i (acts # as) s" using t(1) by auto
      moreover have "\<forall>x. passes (acts # as) s \<noteq> Ok x" using False unfolding run by (auto simp: outcome_simps)
      ultimately show ?thesis by blast
    next
      case True
      then obtain rans u where u: "passes as t = Ok (rans, u)" "kernel_inv i u" "length rans = length as"
        "\<forall>ran \<in> set rans. p \<in> set ran \<and> sorted_wrt (<) ran"
        using Cons.IH [OF t(2) pr] by blast
      have "passes (acts # as) s = Ok (ran # rans, u)" unfolding run using u(1) by simp
      then show ?thesis using u(2-4) t(4,5) pin by (intro disjI1 exI [of _ "ran # rans"] exI [of _ u]) simp
    qed
  qed
qed simp

lemma passes_plain:
  assumes "kernel_inv i s" "\<forall>c \<in> set (map chan (ptab s)). proc_chan_free c" "\<forall>acts \<in> set as. \<forall>q. plain_burst (acts q)"
  shows "\<exists>x. passes as s = Ok x"
  using assms
proof (induction as arbitrary: s)
  case (Cons acts as)
  have a: "\<forall>q. plain_burst (acts q)" and q: "no_waits acts s" using Cons.prems(2,3) by (simp_all add: no_waits_def)
  have "\<not> stuck_pass i (run_burst acts) (no_waits acts) s"
  proof
    assume "stuck_pass i (run_burst acts) (no_waits acts) s"
    then obtain k u where u: "sched_inv i u" "runs i k u" "no_waits acts u" "\<forall>t. run_burst acts k u \<noteq> Ok t"
      unfolding stuck_pass_def stuck_def by blast
    have "k < length (ptab u)" using u(2) by (simp add: runs_def)
    then have "no_wait (ptab u ! k)" using u(3) a by (simp add: no_waits_def no_wait_chan)
    then show False using run_burst_plain [OF u(1,2), of acts] a u(4) by blast
  qed
  then obtain ran t where t: "scheduler_pass (run_burst acts) s = Ok (ran, t)" "kernel_inv i t" "no_waits acts t"
    using bursts.pass [OF Cons.prems(1) q] by blast
  have "\<forall>c \<in> set (map chan (ptab t)). proc_chan_free c" using t(3) a by (simp add: no_waits_def)
  from Cons.IH [OF t(2) this] Cons.prems(3) obtain x where "passes as t = Ok x" by auto
  then show ?case using t(1) by (cases x) simp
qed simp

text \<open>
  C2. No process starves.  Whatever the processes do between two switches (fork, grow, wait for children,
  exit, wake sleepers on any channel, kill any process, work on files and pages, sleep with the lock of the clock
  or yield), a process that
  is runnable and keeps yielding, and does not wait for children, gets the processor exactly once in every
  round of the scheduler, every other process that is runnable when the first round starts runs in it, and the
  rounds end with the lock free.  The scheduler itself never fails: the rounds stop only when an operation of
  a process they have handed the processor to panics or does not return (\<open>stops\<close>), and they do not stop when
  the processes only wake, kill, work on files, sleep and yield.  One processor runs the rounds.
\<close>

theorem scheduler_no_starvation:
  assumes "kernel_inv i s" "p < length (ptab s)" "state (ptab s ! p) = RUNNABLE" "no_wait (ptab s ! p)"
    and "\<forall>acts \<in> set as. stays (acts p)"
  shows "(case passes as s of
      Ok (rans, t) \<Rightarrow> kernel_inv i t \<and> length rans = length as
        \<and> (\<forall>ran \<in> set rans. p \<in> set ran \<and> sorted_wrt (<) ran)
        \<and> (as \<noteq> [] \<longrightarrow> (\<forall>q < length (ptab s). state (ptab s ! q) = RUNNABLE \<longrightarrow> q \<in> set (hd rans)))
    | _ \<Rightarrow> stops i as s)
    \<and> ((\<forall>acts \<in> set as. \<forall>q. plain_burst (acts q)) \<longrightarrow> (\<forall>q < length (ptab s). no_wait (ptab s ! q)) \<longrightarrow>
        (\<exists>rans t. passes as s = Ok (rans, t)))"
proof
  have r: "ready s p" using assms(3,4) by (simp add: ready_def)
  from passes_served [OF assms(1,2) r assms(5)] show "case passes as s of
      Ok (rans, t) \<Rightarrow> kernel_inv i t \<and> length rans = length as
        \<and> (\<forall>ran \<in> set rans. p \<in> set ran \<and> sorted_wrt (<) ran)
        \<and> (as \<noteq> [] \<longrightarrow> (\<forall>q < length (ptab s). state (ptab s ! q) = RUNNABLE \<longrightarrow> q \<in> set (hd rans)))
    | _ \<Rightarrow> stops i as s"
    by (auto split: outcome.split)
  show "(\<forall>acts \<in> set as. \<forall>q. plain_burst (acts q)) \<longrightarrow> (\<forall>q < length (ptab s). no_wait (ptab s ! q)) \<longrightarrow>
        (\<exists>rans t. passes as s = Ok (rans, t))"
  proof (intro impI)
    assume a: "\<forall>acts \<in> set as. \<forall>q. plain_burst (acts q)" "\<forall>q < length (ptab s). no_wait (ptab s ! q)"
    then have "\<forall>c \<in> set (map chan (ptab s)). proc_chan_free c" by (auto simp: in_set_conv_nth no_wait_chan)
    from passes_plain [OF assms(1) this a(1)] show "\<exists>rans t. passes as s = Ok (rans, t)" by auto
  qed
qed

theorem scheduler_no_starvation_witness:
  "\<exists>r1 r2 t. passes [\<lambda>p. if p = 0 then ([], Yields) else ([Kills 1], SleepsOn (Chan_at 5)), \<lambda>_. ([Wakes (Chan_at 5)], Yields)]
      (krn_demo kio_demo) = Ok ([r1, r2], t) \<and> 0 \<in> set r1 \<and> 1 \<in> set r1 \<and> 0 \<in> set r2"
proof -
  let ?as = "[\<lambda>p :: nat. if p = 0 then ([], Yields) else ([Kills 1], SleepsOn (Chan_at 5)), \<lambda>_. ([Wakes (Chan_at 5)], Yields)]"
  have d: "ptab (krn_demo kio_demo) = [proc_demo, proc_demo\<lparr>pid := 2, ctxt := Forkret\<rparr>, free_slot]" by (simp add: krn_demo_def)
  have st: "state proc_demo = RUNNABLE" "chan proc_demo = NullChan" "chan free_slot = NullChan"
    by (simp_all add: proc_demo_def free_slot_def)
  have nw: "\<forall>q < length (ptab (krn_demo kio_demo)). no_wait (ptab (krn_demo kio_demo) ! q)"
    unfolding d by (simp add: no_wait_def st less_Suc_eq nth_Cons')
  have pl: "\<forall>acts \<in> set ?as. \<forall>q. plain_burst (acts q)" and sy: "\<forall>acts \<in> set ?as. stays (acts 0)"
    by (simp_all add: plain_burst_def stays_def)
  have p0: "0 < length (ptab (krn_demo kio_demo))" "state (ptab (krn_demo kio_demo) ! 0) = RUNNABLE" "no_wait (ptab (krn_demo kio_demo) ! 0)"
    using nw [rule_format, of 0] by (simp_all add: d st)
  note th = scheduler_no_starvation [OF krn_demo_inv p0 sy]
  obtain rans t where r: "passes ?as (krn_demo kio_demo) = Ok (rans, t)" using th pl nw by blast
  then have h: "length rans = 2" "\<forall>ran \<in> set rans. 0 \<in> set ran"
    "\<forall>q < 3. state (ptab (krn_demo kio_demo) ! q) = RUNNABLE \<longrightarrow> q \<in> set (hd rans)"
    using th unfolding d by (auto simp: numeral_3_eq_3)
  from h(1) obtain r1 r2 where "rans = [r1, r2]" by (metis One_nat_def Suc_1 length_0_conv length_Suc_conv)
  moreover have "1 \<in> set (hd rans)" using h(3) [rule_format, of 1] st(1) by (simp add: d)
  ultimately show ?thesis using r h(2) by simp
qed

end
