(* ===== verification/Pgtab_Spec.thy ===== *)
theory Pgtab_Spec
  imports Pgtab
begin

text \<open>
  Page tables as a map from virtual addresses to entries.  \<open>pte_of s dir va\<close> is the abstraction
  (0 where there is no table), \<open>pgdir_ok\<close> the invariant; \<open>walkpgdir\<close> leaves the map alone and
  \<open>mappages\<close> overrides it on a range, which is what the processor then translates by.
\<close>

text \<open>The directory entry of \<open>va\<close>, its table, and the page table entry itself.\<close>

definition pde_addr :: "u32 \<Rightarrow> u32 \<Rightarrow> u32" where
  "pde_addr dir va = dir + 4 * PDX va"

definition pde :: "kmem \<Rightarrow> u32 \<Rightarrow> u32 \<Rightarrow> u32" where
  "pde s dir va = rd32 (mem s) (unat (pde_addr dir va))"

definition has_table :: "kmem \<Rightarrow> u32 \<Rightarrow> u32 \<Rightarrow> bool" where
  "has_table s dir va \<longleftrightarrow> pde s dir va AND PTE_P \<noteq> 0"

definition table_of :: "kmem \<Rightarrow> u32 \<Rightarrow> u32 \<Rightarrow> u32" where
  "table_of s dir va = P2V (PTE_ADDR (pde s dir va))"

definition pte_of :: "kmem \<Rightarrow> u32 \<Rightarrow> u32 \<Rightarrow> u32" where
  "pte_of s dir va = (if has_table s dir va then pte_get (table_of s dir va + 4 * PTX va) s else 0)"

text \<open>
  The invariant: the directory and its tables are distinct pages outside the free list.  Addresses
  with the same directory index share their table.
\<close>

definition pgdir_ok :: "kmem \<Rightarrow> u32 \<Rightarrow> u32 list \<Rightarrow> bool" where
  "pgdir_ok s dir xs \<longleftrightarrow> free_pages s xs \<and> page_ok s dir \<and> dir \<notin> set xs
     \<and> (\<forall>va. has_table s dir va \<longrightarrow> page_ok s (table_of s dir va) \<and> table_of s dir va \<notin> set xs
          \<and> table_of s dir va \<noteq> dir)
     \<and> (\<forall>va vb. has_table s dir va \<longrightarrow> has_table s dir vb \<longrightarrow> table_of s dir va = table_of s dir vb \<longrightarrow> PDX va = PDX vb)"

lemma PDX_lt: "unat (PDX va) < 1024"
  using unsigned_less [of va] by (simp add: unat_PDX less_mult_imp_div_less)

lemma PTX_lt: "unat (PTX va) < 1024"
  by (simp add: unat_PTX)

text \<open>An entry of a page: its address does not wrap around.\<close>

lemma unat_pte_slot:
  fixes p i :: u32
  assumes "unat p mod PGSIZE = 0" "unat i < 1024"
  shows "unat (p + 4 * i) = unat p + 4 * unat i"
proof -
  obtain k where k: "unat p = 4096 * k" using assms(1) by (auto simp: PGSIZE_def elim: dvdE)
  have i4: "unat (4 * i) = 4 * unat i" using assms(2) by (simp add: unat_word_ariths)
  have "unat p < 4294967296" by simp
  then have "k < 1048576" using k by simp
  then have "unat p + 4096 \<le> 4294967296" using k by simp
  then show ?thesis using assms(2) i4 by (subst unat_add_lt) auto
qed

lemma nat_slot:
  fixes a b i j :: nat
  assumes "i < 1024" "j < 1024" "4096 * a + 4 * i = 4096 * b + 4 * j"
  shows "a = b \<and> i = j"
proof -
  have "1024 * a + i = 1024 * b + j" using assms(3) by simp
  then have "(1024 * a + i) div 1024 = (1024 * b + j) div 1024" "(1024 * a + i) mod 1024 = (1024 * b + j) mod 1024"
    by simp_all
  then show ?thesis using assms(1,2) by simp
qed

lemma slot_eq_iff:
  fixes p q i j :: u32
  assumes "unat p mod PGSIZE = 0" "unat q mod PGSIZE = 0" "unat i < 1024" "unat j < 1024"
  shows "p + 4 * i = q + 4 * j \<longleftrightarrow> p = q \<and> i = j"
proof
  assume "p + 4 * i = q + 4 * j"
  then have eq: "unat p + 4 * unat i = unat q + 4 * unat j"
    using unat_pte_slot assms by metis
  obtain a b where "unat p = 4096 * a" "unat q = 4096 * b" using assms(1,2) by (auto simp: PGSIZE_def elim!: dvdE)
  with nat_slot [of "unat i" "unat j" a b] eq assms(3,4) have "unat p = unat q" "unat i = unat j" by auto
  then show "p = q \<and> i = j" by simp
qed simp

text \<open>Two entries are the same or do not overlap.\<close>

lemma slot_apart:
  fixes p q i j :: u32
  assumes "unat p mod PGSIZE = 0" "unat q mod PGSIZE = 0" "unat i < 1024" "unat j < 1024" "p + 4 * i \<noteq> q + 4 * j"
  shows "unat (p + 4 * i) + 4 \<le> unat (q + 4 * j) \<or> unat (q + 4 * j) + 4 \<le> unat (p + 4 * i)"
proof -
  obtain a b where ab: "unat p = 4096 * a" "unat q = 4096 * b" using assms(1,2) by (auto simp: PGSIZE_def elim!: dvdE)
  have ne: "1024 * a + unat i \<noteq> 1024 * b + unat j"
  proof
    assume "1024 * a + unat i = 1024 * b + unat j"
    then have "unat (p + 4 * i) = unat (q + 4 * j)"
      unfolding unat_pte_slot [OF assms(1,3)] unat_pte_slot [OF assms(2,4)] ab by linarith
    then show False using assms(5) by simp
  qed
  then have "1024 * a + unat i + 1 \<le> 1024 * b + unat j \<or> 1024 * b + unat j + 1 \<le> 1024 * a + unat i" by linarith
  then show ?thesis
    unfolding unat_pte_slot [OF assms(1,3)] unat_pte_slot [OF assms(2,4)] ab by linarith
qed

subsection \<open>Walking\<close>

lemma walk_present:
  "has_table s dir va \<Longrightarrow> walkpgdir dir va alloc s = Ok (table_of s dir va + 4 * PTX va, s)"
  by (simp add: walkpgdir_def has_table_def pde_def pde_addr_def table_of_def)

lemma walk_absent: "\<not> has_table s dir va \<Longrightarrow> walkpgdir dir va False s = Ok (0, s)"
  by (simp add: walkpgdir_def has_table_def pde_def pde_addr_def)

lemma walk_full: "\<not> has_table s dir va \<Longrightarrow> free_pages s [] \<Longrightarrow> walkpgdir dir va True s = Ok (0, s)"
  by (simp add: walkpgdir_def has_table_def pde_def pde_addr_def kalloc_empty)

lemma same_index:
  "PDX va = PDX vb \<Longrightarrow> has_table s dir va = has_table s dir vb \<and> table_of s dir va = table_of s dir vb"
  by (simp add: has_table_def table_of_def pde_def pde_addr_def)

lemma dir_ok_aligned: "pgdir_ok s dir xs \<Longrightarrow> unat dir mod PGSIZE = 0"
  by (simp add: pgdir_ok_def page_ok_def)

lemma table_aligned: "pgdir_ok s dir xs \<Longrightarrow> has_table s dir va \<Longrightarrow> unat (table_of s dir va) mod PGSIZE = 0"
  by (auto simp: pgdir_ok_def page_ok_def)

lemma slot_nonzero:
  assumes ok: "pgdir_ok s dir xs" and t: "has_table s dir va"
  shows "table_of s dir va + 4 * PTX va \<noteq> 0"
proof -
  have "table_of s dir va \<noteq> 0" using ok t by (auto simp: pgdir_ok_def page_ok_def free_pages_def)
  then have "unat (table_of s dir va) \<noteq> 0" by (simp add: unat_eq_0)
  then show ?thesis using unat_pte_slot [OF table_aligned [OF ok t] PTX_lt, of va] by (metis add_is_0 unat_0)
qed

text \<open>Kernel virtual addresses of pages and the flags of an entry do not mix.\<close>

lemma low_bits:
  fixes x :: u32
  shows "unat x mod PGSIZE = 0 \<longleftrightarrow> x AND mask 12 = 0"
  using unat_and_mask [of x 12] by (simp add: PGSIZE_def word_unat_eq_iff)

lemma page_or_flags:
  fixes x f :: u32
  assumes "unat x mod PGSIZE = 0" "f AND NOT (mask 12) = 0"
  shows "PTE_ADDR (x OR f) = x" "PTE_FLAGS (x OR f) = f"
proof -
  have x: "x AND mask 12 = 0" by (rule iffD1 [OF low_bits assms(1)])
  have xb: "\<not> bit x n" if "n < 12" for n
  proof -
    have "\<not> bit (x AND mask 12) n" using x by simp
    then show ?thesis using that by (simp add: bit_simps)
  qed
  have fb: "\<not> bit f n" if "12 \<le> n" for n
  proof
    assume "bit f n"
    moreover from this have "n < 32" by (auto dest: bit_imp_le_length)
    moreover have "\<not> bit (f AND NOT (mask 12)) n" using assms(2) by simp
    ultimately show False using that by (simp add: bit_simps)
  qed
  show "PTE_ADDR (x OR f) = x"
  proof (rule bit_word_eqI)
    fix n assume "n < LENGTH(32)"
    then show "bit (PTE_ADDR (x OR f)) n = bit x n"
      using xb [of n] fb [of n] by (cases "n < 12") (simp_all add: PTE_ADDR_def mask_numerals bit_simps)
  qed
  show "PTE_FLAGS (x OR f) = f"
  proof (rule bit_word_eqI)
    fix n assume "n < LENGTH(32)"
    then show "bit (PTE_FLAGS (x OR f)) n = bit f n"
      using xb [of n] fb [of n] by (cases "n < 12") (simp_all add: PTE_FLAGS_def mask_numerals bit_simps)
  qed
qed

lemma V2P_aligned:
  assumes "unat v mod PGSIZE = 0"
  shows "unat (V2P v) mod PGSIZE = 0"
proof -
  have "(unat v + 2147483648) mod 4096 = 0" using assms by (simp add: PGSIZE_def mod_add_eq [symmetric])
  moreover have "V2P v = v + 2147483648" by (simp add: V2P_def KERNBASE_def)
  ultimately show ?thesis by (simp add: unat_word_ariths mod_mod_cancel PGSIZE_def)
qed

lemma aligned_PTE:
  assumes "unat v mod PGSIZE = 0"
  shows "PTE_ADDR (((V2P v OR PTE_P) OR PTE_W) OR PTE_U) = V2P v"
    "(((V2P v OR PTE_P) OR PTE_W) OR PTE_U) AND PTE_P \<noteq> 0"
proof -
  have f: "((PTE_P OR PTE_W) OR PTE_U) AND NOT (mask 12) = 0"
    by (simp add: mmu_constants mask_eq_exp_minus_1)
  show "PTE_ADDR (((V2P v OR PTE_P) OR PTE_W) OR PTE_U) = V2P v"
    using page_or_flags(1) [OF V2P_aligned [OF assms] f] by (simp add: or.assoc)
  show "(((V2P v OR PTE_P) OR PTE_W) OR PTE_U) AND PTE_P \<noteq> 0"
  proof
    assume "(((V2P v OR PTE_P) OR PTE_W) OR PTE_U) AND PTE_P = 0"
    then have "\<not> bit ((((V2P v OR PTE_P) OR PTE_W) OR PTE_U) AND PTE_P) 0" by simp
    then show False by (simp add: bit_simps PTE_P_def)
  qed
qed

lemma rd32_slot_other:
  fixes p q i j :: u32
  assumes "unat p mod PGSIZE = 0" "unat q mod PGSIZE = 0" "unat i < 1024" "unat j < 1024" "p + 4 * i \<noteq> q + 4 * j"
  shows "rd32 (wr32 m (unat (p + 4 * i)) w) (unat (q + 4 * j)) = rd32 m (unat (q + 4 * j))"
  by (rule rd32_wr32_other) (use slot_apart [OF assms] in auto)

text \<open>Writing an entry of a table that is there.\<close>

definition same_page :: "u32 \<Rightarrow> u32 \<Rightarrow> bool" where
  "same_page va vb \<longleftrightarrow> PDX va = PDX vb \<and> PTX va = PTX vb"

lemma free_pages_wr32:
  assumes "free_pages s xs" "unat p mod PGSIZE = 0" "unat i < 1024" "p \<notin> set xs"
  shows "free_pages (s\<lparr>mem := wr32 (mem s) (unat (p + 4 * i)) w\<rparr>) xs"
proof (rule free_pages_frame [OF assms(1)])
  fix x j assume x: "x \<in> set xs" "in_page x j"
  have "unat x mod PGSIZE = 0" "x \<noteq> p" using assms x by (auto simp: free_pages_def page_ok_def)
  then have "unat x + 4096 \<le> unat p \<or> unat p + 4096 \<le> unat x"
    using aligned_disjoint [of "unat x" "unat p"] assms(2) by (simp add: PGSIZE_def)
  then show "wr32 (mem s) (unat (p + 4 * i)) w j = mem s j"
    using x(2) assms(3) by (intro wr32_outside) (auto simp: unat_pte_slot [OF assms(2,3)] in_page_def PGSIZE_def)
qed

lemma pte_put_ok:
  fixes s s' :: kmem and v :: u32
  assumes ok: "pgdir_ok s dir xs" and t: "has_table s dir va"
  defines "s' \<equiv> pte_put (table_of s dir va + 4 * PTX va) v s"
  shows "pgdir_ok s' dir xs" "has_table s' dir vb = has_table s dir vb" "table_of s' dir vb = table_of s dir vb"
    "pte_of s' dir vb = (if same_page va vb then v else pte_of s dir vb)"
proof -
  have al: "unat dir mod PGSIZE = 0" "unat (table_of s dir va) mod PGSIZE = 0" "table_of s dir va \<noteq> dir" "table_of s dir va \<notin> set xs"
    using ok t by (auto simp: pgdir_ok_def page_ok_def)
  have pde: "pde s' dir vc = pde s dir vc" for vc
  proof -
    have "table_of s dir va + 4 * PTX va \<noteq> dir + 4 * PDX vc"
      using slot_eq_iff [OF al(2,1) PTX_lt PDX_lt] al(3) by simp
    from rd32_slot_other [OF al(2,1) PTX_lt PDX_lt this] show ?thesis
      unfolding pde_def s'_def pte_put_def pde_addr_def by simp
  qed
  have eqs: "has_table s' dir vc = has_table s dir vc" "table_of s' dir vc = table_of s dir vc" for vc
    by (simp_all add: has_table_def table_of_def pde)
  show "has_table s' dir vb = has_table s dir vb" "table_of s' dir vb = table_of s dir vb" by (fact eqs)+
  have "free_pages s' xs"
    using ok al PTX_lt unfolding s'_def pte_put_def by (intro free_pages_wr32) (auto simp: pgdir_ok_def)
  moreover have "page_ok s' = page_ok s" by (auto simp: page_ok_def s'_def pte_put_def fun_eq_iff)
  ultimately show "pgdir_ok s' dir xs" using ok unfolding pgdir_ok_def eqs by metis
  show "pte_of s' dir vb = (if same_page va vb then v else pte_of s dir vb)"
  proof (cases "has_table s dir vb")
    case True
    have alb: "unat (table_of s dir vb) mod PGSIZE = 0" using table_aligned [OF ok True] .
    have eqv: "table_of s dir va + 4 * PTX va = table_of s dir vb + 4 * PTX vb \<longleftrightarrow> same_page va vb"
    proof -
      have "table_of s dir va = table_of s dir vb \<longleftrightarrow> PDX va = PDX vb"
        using ok t True same_index [of va vb s dir] unfolding pgdir_ok_def by blast
      then show ?thesis unfolding same_page_def slot_eq_iff [OF al(2) alb PTX_lt PTX_lt] by simp
    qed
    have e: "pte_of s' dir vb = rd32 (mem s') (unat (table_of s dir vb + 4 * PTX vb))"
      "pte_of s dir vb = rd32 (mem s) (unat (table_of s dir vb + 4 * PTX vb))"
      using True by (simp_all add: pte_of_def eqs pte_get_def)
    have m: "mem s' = wr32 (mem s) (unat (table_of s dir va + 4 * PTX va)) v"
      by (simp add: s'_def pte_put_def)
    show ?thesis
    proof (cases "same_page va vb")
      case True
      with eqv have "table_of s dir va + 4 * PTX va = table_of s dir vb + 4 * PTX vb" by blast
      with True show ?thesis unfolding e m by (simp only: rd32_wr32_same if_True)
    next
      case False
      with eqv have ne: "table_of s dir va + 4 * PTX va \<noteq> table_of s dir vb + 4 * PTX vb" by blast
      from rd32_slot_other [OF al(2) alb PTX_lt PTX_lt ne] False show ?thesis unfolding e m by (simp only: if_False)
    qed
  next
    case False
    then have "\<not> same_page va vb" using t same_index unfolding same_page_def by metis
    with False show ?thesis by (simp add: pte_of_def eqs)
  qed
qed

text \<open>A table that is not there is allocated: all entries stay what they were.\<close>

lemma in_page_slot: "unat p mod PGSIZE = 0 \<Longrightarrow> unat i < 1024 \<Longrightarrow> unat (p + 4 * i) \<le> j \<Longrightarrow> j < unat (p + 4 * i) + 4 \<Longrightarrow> in_page p j"
  for p i :: u32
  by (auto simp: unat_pte_slot in_page_def PGSIZE_def)

lemma pages_apart: "unat p mod PGSIZE = 0 \<Longrightarrow> unat q mod PGSIZE = 0 \<Longrightarrow> p \<noteq> q \<Longrightarrow> in_page p j \<Longrightarrow> \<not> in_page q j"
  for p q :: u32
  using aligned_disjoint [of "unat p" "unat q"] by (auto simp: in_page_def PGSIZE_def)

lemma walk_alloc:
  assumes ok: "pgdir_ok s dir (x # xs)" and t: "\<not> has_table s dir va"
  shows "\<exists>s'. walkpgdir dir va True s = Ok (x + 4 * PTX va, s') \<and> pgdir_ok s' dir xs
    \<and> has_table s' dir va \<and> table_of s' dir va = x \<and> (\<forall>vb. pte_of s' dir vb = pte_of s dir vb)
    \<and> (\<forall>vb. PDX vb \<noteq> PDX va \<longrightarrow> has_table s' dir vb = has_table s dir vb \<and> table_of s' dir vb = table_of s dir vb)
    \<and> kend s' = kend s \<and> (\<forall>i. \<not> in_page x i \<longrightarrow> \<not> in_page dir i \<longrightarrow> mem s' i = mem s i)"
proof -
  have fp: "free_pages s (x # xs)" and dir: "page_ok s dir" "dir \<notin> set (x # xs)" and al: "unat dir mod PGSIZE = 0"
    and alx: "unat x mod PGSIZE = 0" and xd: "x \<noteq> dir"
    using ok by (auto simp: pgdir_ok_def page_ok_def free_pages_def)
  let ?s1 = "s\<lparr>freelist := rd32 (mem s) (unat x)\<rparr>"
  let ?w = "((V2P x OR PTE_P) OR PTE_W) OR PTE_U"
  define m where "m = fill_bytes (mem s) (unat x) PGSIZE 0"
  define s' where "s' = ?s1\<lparr>mem := wr32 m (unat (pde_addr dir va)) ?w\<rparr>"
  have run: "walkpgdir dir va True s = Ok (x + 4 * PTX va, s')"
    using t kalloc_cons(1) [OF fp] fp
    by (simp add: walkpgdir_def has_table_def pde_def pde_addr_def Let_def memset_eq_fill s'_def m_def free_pages_def)
  have mem: "mem s' i = mem s i" if "\<not> in_page x i" "\<not> in_page dir i" for i
  proof -
    have "i < unat (pde_addr dir va) \<or> unat (pde_addr dir va) + 4 \<le> i"
      using that(2) in_page_slot [OF al PDX_lt] unfolding pde_addr_def by (meson not_le)
    then show ?thesis using that(1) by (auto simp: s'_def m_def wr32_outside fill_bytes_def in_page_def)
  qed
  have pde': "pde s' dir vc = (if PDX vc = PDX va then ?w else pde s dir vc)" for vc
  proof (cases "PDX vc = PDX va")
    case True
    then have "pde_addr dir vc = pde_addr dir va" by (simp add: pde_addr_def)
    with True show ?thesis by (simp add: pde_def s'_def)
  next
    case False
    then have "dir + 4 * PDX va \<noteq> dir + 4 * PDX vc"
      using slot_eq_iff [OF al al PDX_lt PDX_lt] by metis
    then have "pde s' dir vc = rd32 m (unat (pde_addr dir vc))"
      unfolding pde_def s'_def pde_addr_def by (simp add: rd32_slot_other [OF al al PDX_lt PDX_lt])
    also have "\<dots> = rd32 (mem s) (unat (pde_addr dir vc))"
    proof (rule rd32_cong)
      fix j assume "unat (pde_addr dir vc) \<le> j" "j < unat (pde_addr dir vc) + 4"
      then have "in_page dir j" unfolding pde_addr_def by (rule in_page_slot [OF al PDX_lt])
      then have "\<not> in_page x j" by (rule pages_apart [OF al alx xd [symmetric]])
      then show "m j = mem s j" by (auto simp: m_def fill_bytes_def in_page_def)
    qed
    finally show ?thesis using False by (simp add: pde_def)
  qed
  have tab: "has_table s' dir vc \<longleftrightarrow> PDX vc = PDX va \<or> has_table s dir vc"
    "table_of s' dir vc = (if PDX vc = PDX va then x else table_of s dir vc)" for vc
    using aligned_PTE [OF alx] by (auto simp: has_table_def table_of_def pde')
  have pok: "page_ok s' = page_ok s" by (auto simp: page_ok_def s'_def fun_eq_iff)
  have "free_pages (?s1\<lparr>mem := mem s'\<rparr>) xs"
  proof (rule free_pages_frame [OF kalloc_cons(2) [OF fp]])
    fix y i assume y: "y \<in> set xs" "in_page y i"
    then have "unat y mod PGSIZE = 0" "y \<noteq> x" "y \<noteq> dir"
      using fp dir by (auto simp: free_pages_def page_ok_def)
    then have "\<not> in_page x i" "\<not> in_page dir i"
      using pages_apart [of y x i] pages_apart [of y dir i] y(2) al alx by auto
    then show "mem s' i = mem ?s1 i" using mem by simp
  qed
  then have fp': "free_pages s' xs" by (simp add: s'_def)
  have old: "page_ok s (table_of s dir vc)" "table_of s dir vc \<notin> set (x # xs)" "table_of s dir vc \<noteq> dir"
    if "has_table s dir vc" for vc using ok that unfolding pgdir_ok_def by blast+
  have ok': "pgdir_ok s' dir xs"
    unfolding pgdir_ok_def
  proof (intro conjI allI impI)
    show "free_pages s' xs" by (fact fp')
    show "page_ok s' dir" "dir \<notin> set xs" using dir pok by auto
    show "page_ok s' (table_of s' dir vc)" "table_of s' dir vc \<notin> set xs" "table_of s' dir vc \<noteq> dir"
      if "has_table s' dir vc" for vc
      using that old [of vc] fp xd unfolding tab pok by (auto simp: free_pages_def)
    show "PDX vc = PDX vd"
      if h: "has_table s' dir vc" "has_table s' dir vd" "table_of s' dir vc = table_of s' dir vd" for vc vd
    proof -
      have "PDX vc = PDX va \<longleftrightarrow> PDX vd = PDX va"
        using h old [of vc] old [of vd] unfolding tab by (metis list.set_intros(1))
      moreover have "PDX vc = PDX vd" if "PDX vc \<noteq> PDX va" "PDX vd \<noteq> PDX va"
        using ok h that unfolding tab pgdir_ok_def by metis
      ultimately show ?thesis by metis
    qed
  qed
  have "pte_of s' dir vb = pte_of s dir vb" for vb
  proof (cases "PDX vb = PDX va")
    case True
    have "rd32 (mem s') (unat (x + 4 * PTX vb)) = 0"
    proof (rule rd32_zero)
      fix j assume "unat (x + 4 * PTX vb) \<le> j" "j < unat (x + 4 * PTX vb) + 4"
      then have j: "in_page x j" by (rule in_page_slot [OF alx PTX_lt])
      then have "\<not> in_page dir j" by (rule pages_apart [OF alx al xd])
      then have "j < unat (pde_addr dir va) \<or> unat (pde_addr dir va) + 4 \<le> j"
        using in_page_slot [OF al PDX_lt] unfolding pde_addr_def by (meson not_le)
      then show "mem s' j = 0" using j by (simp add: s'_def m_def wr32_outside fill_bytes_def in_page_def)
    qed
    then show ?thesis using True t same_index [of vb va s dir] by (simp add: pte_of_def tab pte_get_def)
  next
    case False
    show ?thesis
    proof (cases "has_table s dir vb")
      case True
      have alb: "unat (table_of s dir vb) mod PGSIZE = 0" using old(1) [OF True] by (simp add: page_ok_def)
      have "rd32 (mem s') (unat (table_of s dir vb + 4 * PTX vb)) = rd32 (mem s) (unat (table_of s dir vb + 4 * PTX vb))"
      proof (rule rd32_cong)
        fix j assume "unat (table_of s dir vb + 4 * PTX vb) \<le> j" "j < unat (table_of s dir vb + 4 * PTX vb) + 4"
        then have "in_page (table_of s dir vb) j" by (rule in_page_slot [OF alb PTX_lt])
        then show "mem s' j = mem s j"
          using mem pages_apart [OF alb alx] pages_apart [OF alb al] old(2,3) [OF True] by auto
      qed
      then show ?thesis using True False by (simp add: pte_of_def tab pte_get_def)
    qed (use False in \<open>simp add: pte_of_def tab\<close>)
  qed
  then show ?thesis using run ok' mem tab by (auto simp: s'_def)
qed

subsection \<open>Mapping a range\<close>

definition page_no :: "u32 \<Rightarrow> nat" where
  "page_no va = unat va div 4096"

lemma same_page_no: "same_page va vb \<longleftrightarrow> page_no va = page_no vb"
proof -
  have "PDX va = PDX vb \<longleftrightarrow> page_no va div 1024 = page_no vb div 1024"
    using unat_PDX [of va] unat_PDX [of vb] by (simp add: page_no_def div_mult2_eq [symmetric] word_unat_eq_iff)
  moreover have "PTX va = PTX vb \<longleftrightarrow> page_no va mod 1024 = page_no vb mod 1024"
    using unat_PTX [of va] unat_PTX [of vb] by (simp add: page_no_def word_unat_eq_iff)
  ultimately show ?thesis unfolding same_page_def by (metis div_mult_mod_eq)
qed

text \<open>The directory indices of the tables that a range of \<open>n\<close> pages still lacks.\<close>

definition missing :: "kmem \<Rightarrow> u32 \<Rightarrow> u32 \<Rightarrow> nat \<Rightarrow> u32 set" where
  "missing s dir a n = PDX ` {va. (\<exists>i < n. va = a + 4096 * word_of_nat i) \<and> \<not> has_table s dir va}"

definition absent :: "kmem \<Rightarrow> u32 \<Rightarrow> u32 set" where
  "absent s dir = PDX ` {va. \<not> has_table s dir va}"

lemma absent_finite [simp]: "finite (absent s dir)"
  by simp

lemma missing_absent: "card (missing s dir a n) \<le> card (absent s dir)"
  by (intro card_mono) (auto simp: missing_def absent_def)

lemma absent_le: "card (absent s dir) \<le> 1024"
proof -
  have "absent s dir \<subseteq> word_of_nat ` {..<1024}"
  proof
    fix d assume "d \<in> absent s dir"
    then have "unat d < 1024" using PDX_lt by (auto simp: absent_def)
    moreover have "d = word_of_nat (unat d)" by simp
    ultimately show "d \<in> word_of_nat ` {..<1024}" by blast
  qed
  then have "card (absent s dir) \<le> card ((word_of_nat :: nat \<Rightarrow> u32) ` {..<1024})" by (intro card_mono) auto
  also have "\<dots> \<le> 1024" using card_image_le [of "{..<1024}" "word_of_nat :: nat \<Rightarrow> u32"] by simp
  finally show ?thesis .
qed

lemma finite_missing [simp]: "finite (missing s dir a n)"
proof -
  have "{va. (\<exists>i < n. va = a + 4096 * word_of_nat i) \<and> \<not> has_table s dir va}
      \<subseteq> (\<lambda>i. a + 4096 * word_of_nat i) ` {..<n}" by auto
  then show ?thesis unfolding missing_def by (meson finite_imageI finite_lessThan finite_subset)
qed

lemma page_step:
  fixes a :: u32
  assumes "unat a mod 4096 = 0" "unat a + 4096 * n \<le> 4294967296" "i < n"
  shows "unat (a + 4096 * word_of_nat i) = unat a + 4096 * i" "page_no (a + 4096 * word_of_nat i) = page_no a + i"
proof -
  have "unat (4096 * word_of_nat i :: u32) = 4096 * i"
    using assms(2,3) by (simp add: unat_word_ariths unsigned_of_nat take_bit_eq_mod)
  then show u: "unat (a + 4096 * word_of_nat i) = unat a + 4096 * i"
    using assms(2,3) by (subst unat_add_lt) auto
  show "page_no (a + 4096 * word_of_nat i) = page_no a + i"
    unfolding page_no_def u by simp
qed

text \<open>What \<open>mappages\<close> leaves: the entries of the range, over those that were there.\<close>

definition mapped :: "u32 \<Rightarrow> nat \<Rightarrow> u32 \<Rightarrow> u32 \<Rightarrow> (u32 \<Rightarrow> u32) \<Rightarrow> u32 \<Rightarrow> u32" where
  "mapped a n pa perm f va =
     (if page_no a \<le> page_no va \<and> page_no va < page_no a + n
      then ((pa + 4096 * word_of_nat (page_no va - page_no a)) OR perm) OR PTE_P else f va)"

text \<open>The bytes outside the directory, its tables and the pages taken from the allocator.\<close>

definition untouched :: "kmem \<Rightarrow> u32 \<Rightarrow> u32 list \<Rightarrow> nat \<Rightarrow> bool" where
  "untouched s dir zs i \<longleftrightarrow> \<not> in_page dir i \<and> (\<forall>z \<in> set zs. \<not> in_page z i)
     \<and> (\<forall>va. has_table s dir va \<longrightarrow> \<not> in_page (table_of s dir va) i)"

text \<open>The tables grow by the pages \<open>zs\<close>.\<close>

definition grown :: "kmem \<Rightarrow> u32 \<Rightarrow> u32 list \<Rightarrow> kmem \<Rightarrow> bool" where
  "grown s dir zs t \<longleftrightarrow>
     (\<forall>va. has_table t dir va \<longrightarrow> has_table s dir va \<and> table_of t dir va = table_of s dir va \<or> table_of t dir va \<in> set zs)
     \<and> (\<forall>va. has_table s dir va \<longrightarrow> has_table t dir va \<and> table_of t dir va = table_of s dir va)
     \<and> (\<forall>z \<in> set zs. \<exists>va. has_table t dir va \<and> table_of t dir va = z)
     \<and> card (absent t dir) + length zs \<le> card (absent s dir)"

lemma grown_refl: "grown s dir [] s"
  by (simp add: grown_def)

lemma grown_trans:
  assumes "grown s dir zs t" "grown t dir zs' u"
  shows "grown s dir (zs @ zs') u"
proof -
  have "has_table s dir va \<and> table_of u dir va = table_of s dir va \<or> table_of u dir va \<in> set (zs @ zs')" if "has_table u dir va" for va
    using assms that unfolding grown_def by (metis UnCI set_append)
  moreover have "has_table u dir va \<and> table_of u dir va = table_of s dir va" if "has_table s dir va" for va
    using assms that unfolding grown_def by metis
  moreover have "\<exists>va. has_table u dir va \<and> table_of u dir va = z" if "z \<in> set (zs @ zs')" for z
    using assms that unfolding grown_def by (metis UnE set_append)
  ultimately show ?thesis using assms unfolding grown_def by auto
qed

lemma grown_same:
  "grown s dir zs t \<Longrightarrow> (\<And>va. has_table u dir va = has_table t dir va) \<Longrightarrow> (\<And>va. table_of u dir va = table_of t dir va) \<Longrightarrow> grown s dir zs u"
  by (simp add: grown_def absent_def)

lemma walk_any:
  assumes ok: "pgdir_ok s dir xs" and room: "card (missing s dir a (Suc n)) \<le> length xs"
  shows "\<exists>s' ys zs. walkpgdir dir a True s = Ok (table_of s' dir a + 4 * PTX a, s') \<and> xs = zs @ ys \<and> pgdir_ok s' dir ys
    \<and> has_table s' dir a \<and> (\<forall>vb. pte_of s' dir vb = pte_of s dir vb) \<and> kend s' = kend s
    \<and> card (missing s' dir (a + 4096) n) \<le> length ys \<and> (\<forall>i. untouched s dir zs i \<longrightarrow> mem s' i = mem s i)
    \<and> grown s dir zs s'"
proof (cases "has_table s dir a")
  case True
  have "missing s dir (a + 4096) n \<subseteq> missing s dir a (Suc n)"
    unfolding missing_def
  proof (intro image_mono subsetI)
    fix va assume "va \<in> {va. (\<exists>i < n. va = a + 4096 + 4096 * word_of_nat i) \<and> \<not> has_table s dir va}"
    then obtain i where "i < n" "va = a + 4096 + 4096 * word_of_nat i" "\<not> has_table s dir va" by blast
    then have "Suc i < Suc n \<and> va = a + 4096 * word_of_nat (Suc i)" by (simp add: algebra_simps)
    with \<open>\<not> has_table s dir va\<close>
    show "va \<in> {va. (\<exists>i < Suc n. va = a + 4096 * word_of_nat i) \<and> \<not> has_table s dir va}" by blast
  qed
  then have "card (missing s dir (a + 4096) n) \<le> length xs"
    using room card_mono [OF finite_missing] by (meson le_trans)
  then show ?thesis using ok True walk_present [OF True] by (intro exI [of _ s] exI [of _ xs] exI [of _ "[]"]) (auto simp: grown_refl)
next
  case False
  have "PDX a \<in> missing s dir a (Suc n)"
    unfolding missing_def by (rule imageI) (use False in \<open>auto intro: exI [of _ 0]\<close>)
  then have c: "0 < card (missing s dir a (Suc n))" by (metis card_gt_0_iff empty_iff finite_missing)
  then obtain x ys where xs: "xs = x # ys" using room by (cases xs) auto
  obtain s' where s': "walkpgdir dir a True s = Ok (x + 4 * PTX a, s')" "pgdir_ok s' dir ys" "has_table s' dir a"
    "table_of s' dir a = x" "\<forall>vb. pte_of s' dir vb = pte_of s dir vb"
    "\<forall>vb. PDX vb \<noteq> PDX a \<longrightarrow> has_table s' dir vb = has_table s dir vb \<and> table_of s' dir vb = table_of s dir vb" "kend s' = kend s"
    "\<forall>i. \<not> in_page x i \<longrightarrow> \<not> in_page dir i \<longrightarrow> mem s' i = mem s i"
    using walk_alloc [OF ok [unfolded xs] False] by blast
  have tab: "has_table s' dir vb \<longleftrightarrow> PDX vb = PDX a \<or> has_table s dir vb"
    "table_of s' dir vb = (if PDX vb = PDX a then x else table_of s dir vb)" for vb
    using s'(3,4,6) same_index [of vb a s' dir] by metis+
  have "missing s' dir (a + 4096) n \<subseteq> missing s dir a (Suc n) - {PDX a}"
  proof
    fix d assume "d \<in> missing s' dir (a + 4096) n"
    then obtain i where i: "i < n" "d = PDX (a + 4096 + 4096 * word_of_nat i)" "\<not> has_table s' dir (a + 4096 + 4096 * word_of_nat i)"
      unfolding missing_def by blast
    have e: "a + 4096 + 4096 * word_of_nat i = a + 4096 * word_of_nat (Suc i)" by (simp add: algebra_simps)
    have "d \<noteq> PDX a" "\<not> has_table s dir (a + 4096 * word_of_nat (Suc i))"
      using i(2,3) unfolding tab e by auto
    moreover from this have "d \<in> missing s dir a (Suc n)"
      using i(1,2) unfolding missing_def e by blast
    ultimately show "d \<in> missing s dir a (Suc n) - {PDX a}" by blast
  qed
  then have "card (missing s' dir (a + 4096) n) \<le> card (missing s dir a (Suc n) - {PDX a})"
    by (intro card_mono) auto
  also have "\<dots> \<le> length ys"
    using room xs \<open>PDX a \<in> missing s dir a (Suc n)\<close> by simp
  finally have m: "card (missing s' dir (a + 4096) n) \<le> length ys" .
  have "PDX a \<in> absent s dir" using False by (auto simp: absent_def)
  then have "card (absent s dir - {PDX a}) + 1 \<le> card (absent s dir)"
    by (simp add: card_Suc_Diff1 del: card_Diff_insert)
  moreover have "card (absent s' dir) \<le> card (absent s dir - {PDX a})"
    by (intro card_mono) (auto simp: absent_def tab)
  ultimately have "card (absent s' dir) + length [x] \<le> card (absent s dir)" by simp
  moreover have "\<not> has_table s dir vb" if "PDX vb = PDX a" for vb using that False same_index by metis
  ultimately have g: "grown s dir [x] s'" unfolding grown_def using tab by auto
  have "mem s' i = mem s i" if "untouched s dir [x] i" for i using that s'(8) by (simp add: untouched_def)
  then show ?thesis
    using m s' xs g by (intro exI [of _ s'] exI [of _ ys] exI [of _ "[x]"]) simp
qed

text \<open>One round of the loop.\<close>

lemma map_one:
  assumes ok: "pgdir_ok s dir xs" and room: "card (missing s dir a (Suc n)) \<le> length xs"
  shows "\<exists>slot s1 s2 ys zs. walkpgdir dir a True s = Ok (slot, s1) \<and> slot \<noteq> 0 \<and> pte_get slot s1 = pte_of s dir a
    \<and> s2 = pte_put slot v s1 \<and> xs = zs @ ys \<and> pgdir_ok s2 dir ys
    \<and> (\<forall>vb. pte_of s2 dir vb = (if same_page a vb then v else pte_of s dir vb)) \<and> kend s2 = kend s
    \<and> card (missing s2 dir (a + 4096) n) \<le> length ys \<and> (\<forall>i. untouched s dir zs i \<longrightarrow> mem s2 i = mem s i)
    \<and> grown s dir zs s2"
proof -
  obtain s1 ys zs where w: "walkpgdir dir a True s = Ok (table_of s1 dir a + 4 * PTX a, s1)" "xs = zs @ ys" "pgdir_ok s1 dir ys"
    "has_table s1 dir a" "\<forall>vb. pte_of s1 dir vb = pte_of s dir vb" "kend s1 = kend s" "card (missing s1 dir (a + 4096) n) \<le> length ys"
    "\<forall>i. untouched s dir zs i \<longrightarrow> mem s1 i = mem s i"
    "grown s dir zs s1"
    using walk_any [OF ok room] by blast
  let ?slot = "table_of s1 dir a + 4 * PTX a" and ?s2 = "pte_put (table_of s1 dir a + 4 * PTX a) v s1"
  note put = pte_put_ok [OF w(3,4), of v]
  have al: "unat (table_of s1 dir a) mod PGSIZE = 0" using table_aligned [OF w(3,4)] .
  have nz: "?slot \<noteq> 0" using slot_nonzero [OF w(3,4)] .
  have same: "missing ?s2 dir (a + 4096) n = missing s1 dir (a + 4096) n" unfolding missing_def put ..
  have mem2: "mem ?s2 i = mem s i" if "untouched s dir zs i" for i
  proof -
    have "\<not> in_page (table_of s1 dir a) i" using w(4,9) that unfolding grown_def untouched_def by metis
    then have "i < unat ?slot \<or> unat ?slot + 4 \<le> i" using in_page_slot [OF al PTX_lt] by (meson not_le)
    then show ?thesis using w(8) that by (simp add: pte_put_def wr32_outside)
  qed
  have get: "pte_get ?slot s1 = pte_of s dir a" using w(4,5) by (metis pte_of_def)
  have kend: "kend ?s2 = kend s" using w(6) by (simp add: pte_put_def)
  have ent: "\<forall>vb. pte_of ?s2 dir vb = (if same_page a vb then v else pte_of s dir vb)" using put(4) w(5) by simp
  have gr: "grown s dir zs ?s2" using grown_same [OF w(9)] put by simp
  have card: "card (missing ?s2 dir (a + 4096) n) \<le> length ys" using w(7) unfolding same .
  show ?thesis using w(1,2) nz get put(1) ent kend card mem2 gr by blast
qed

lemma mappages_loop_spec:
  "pgdir_ok s dir xs \<Longrightarrow> unat a mod 4096 = 0 \<Longrightarrow> unat a + 4096 * Suc n \<le> 4294967296 \<Longrightarrow>
   last_page = a + 4096 * word_of_nat n \<Longrightarrow>
   \<forall>vb. page_no a \<le> page_no vb \<and> page_no vb \<le> page_no a + n \<longrightarrow> pte_of s dir vb AND PTE_P = 0 \<Longrightarrow>
   card (missing s dir a (Suc n)) \<le> length xs \<Longrightarrow>
   \<exists>s' ys zs. mappages_loop (Suc n) dir a last_page pa perm s = Ok (0, s') \<and> xs = zs @ ys \<and> pgdir_ok s' dir ys
    \<and> (\<forall>vb. pte_of s' dir vb = mapped a (Suc n) pa perm (pte_of s dir) vb) \<and> kend s' = kend s
    \<and> (\<forall>i. untouched s dir zs i \<longrightarrow> mem s' i = mem s i)
    \<and> grown s dir zs s'"
proof (induction n arbitrary: s xs a pa)
  case 0
  obtain slot s1 s2 ys zs where w: "walkpgdir dir a True s = Ok (slot, s1)" "slot \<noteq> 0" "pte_get slot s1 = pte_of s dir a"
    "s2 = pte_put slot ((pa OR perm) OR PTE_P) s1" "xs = zs @ ys" "pgdir_ok s2 dir ys"
    "\<forall>vb. pte_of s2 dir vb = (if same_page a vb then (pa OR perm) OR PTE_P else pte_of s dir vb)" "kend s2 = kend s"
    "\<forall>i. untouched s dir zs i \<longrightarrow> mem s2 i = mem s i"
    "grown s dir zs s2"
    using map_one [OF 0(1,6)] by blast
  have "pte_of s dir a AND PTE_P = 0" using 0(5) by simp
  then have "mappages_loop (Suc 0) dir a last_page pa perm s = Ok (0, s2)" using w(1-4) 0(4) by simp
  moreover have "pte_of s2 dir vb = mapped a (Suc 0) pa perm (pte_of s dir) vb" for vb
    using w(7) by (auto simp: mapped_def same_page_no)
  ultimately show ?case using w(5-10) by blast
next
  case (Suc n)
  obtain slot s1 s2 ys zs where w: "walkpgdir dir a True s = Ok (slot, s1)" "slot \<noteq> 0" "pte_get slot s1 = pte_of s dir a"
    "s2 = pte_put slot ((pa OR perm) OR PTE_P) s1" "xs = zs @ ys" "pgdir_ok s2 dir ys"
    "\<forall>vb. pte_of s2 dir vb = (if same_page a vb then (pa OR perm) OR PTE_P else pte_of s dir vb)" "kend s2 = kend s"
    "card (missing s2 dir (a + 4096) (Suc n)) \<le> length ys" "\<forall>i. untouched s dir zs i \<longrightarrow> mem s2 i = mem s i"
    "grown s dir zs s2"
    using map_one [OF Suc.prems(1,6)] by blast
  have st: "unat (a + 4096) = unat a + 4096" "page_no (a + 4096) = page_no a + 1"
    using page_step [OF Suc.prems(2,3), of 1] by auto
  have "page_no last_page = page_no a + Suc n"
    using page_step(2) [OF Suc.prems(2,3), of "Suc n"] Suc.prems(4) by simp
  then have ne: "a \<noteq> last_page" by auto
  have pre: "unat (a + 4096) mod 4096 = 0" "unat (a + 4096) + 4096 * Suc n \<le> 4294967296"
    "last_page = a + 4096 + 4096 * word_of_nat n"
    using Suc.prems(2-4) st by (simp_all add: algebra_simps)
  have absent: "\<forall>vb. page_no (a + 4096) \<le> page_no vb \<and> page_no vb \<le> page_no (a + 4096) + n \<longrightarrow> pte_of s2 dir vb AND PTE_P = 0"
    using Suc.prems(5) w(7) st by (auto simp: same_page_no)
  obtain s' ys' zs' where r: "mappages_loop (Suc n) dir (a + 4096) last_page (pa + 4096) perm s2 = Ok (0, s')"
    "ys = zs' @ ys'" "pgdir_ok s' dir ys'" "\<forall>vb. pte_of s' dir vb = mapped (a + 4096) (Suc n) (pa + 4096) perm (pte_of s2 dir) vb"
    "kend s' = kend s2" "\<forall>i. untouched s2 dir zs' i \<longrightarrow> mem s' i = mem s2 i"
    "grown s2 dir zs' s'"
    using Suc.IH [OF w(6) pre absent w(9)] by blast
  have "pte_of s dir a AND PTE_P = 0" using Suc.prems(5) by simp
  then have "mappages_loop (Suc (Suc n)) dir a last_page pa perm s = Ok (0, s')" using w(1-4) ne r(1) by simp
  moreover have "xs = (zs @ zs') @ ys'" using w(5) r(2) by simp
  moreover have "pte_of s' dir vb = mapped a (Suc (Suc n)) pa perm (pte_of s dir) vb" for vb
  proof -
    consider "page_no vb = page_no a" | "page_no a < page_no vb \<and> page_no vb < page_no a + Suc (Suc n)"
      | "page_no vb < page_no a \<or> page_no a + Suc (Suc n) \<le> page_no vb" by linarith
    then show ?thesis
    proof cases
      case 2
      then have "pa + 4096 + 4096 * word_of_nat (page_no vb - page_no (a + 4096)) = pa + 4096 * word_of_nat (page_no vb - page_no a)"
        using st by (simp add: algebra_simps Suc_diff_Suc [symmetric] flip: of_nat_Suc) (simp add: algebra_simps)
      with 2 show ?thesis using r(4) st by (simp add: mapped_def)
    qed (use r(4) w(7) st in \<open>auto simp: mapped_def same_page_no\<close>)
  qed
  moreover have "mem s' i = mem s i" if "untouched s dir (zs @ zs') i" for i
  proof -
    have "untouched s dir zs i" using that by (simp add: untouched_def)
    moreover have "untouched s2 dir zs' i" using that w(11) unfolding untouched_def grown_def by (metis UnCI set_append)
    ultimately show ?thesis using w(10) r(6) by simp
  qed
  moreover have "grown s dir (zs @ zs') s'" using grown_trans [OF w(11) r(7)] .
  moreover have "kend s' = kend s" using r(5) w(8) by simp
  ultimately show ?case using r(3) by blast
qed

subsection \<open>What the processor sees\<close>

lemma mmu_addr_entry:
  "mmu_addr s dir va = (if pte_of s dir va AND PTE_P = 0 then None
     else Some (P2V (PTE_ADDR (pte_of s dir va)) + (va AND 0xFFF)))"
  by (simp add: mmu_addr_def pte_of_def has_table_def pde_def pde_addr_def table_of_def pte_get_def Let_def)

lemma unat_page_base: "unat (PGROUNDDOWN va) = 4096 * page_no va"
  by (simp add: unat_PGROUNDDOWN page_no_def)

lemma page_no_base [simp]: "page_no (PGROUNDDOWN va) = page_no va"
  by (simp add: page_no_def unat_PGROUNDDOWN)

lemma flags_present: "((x OR f) OR PTE_P) AND PTE_P \<noteq> 0" for x f :: u32
proof
  assume "((x OR f) OR PTE_P) AND PTE_P = 0"
  then have "\<not> bit (((x OR f) OR PTE_P) AND PTE_P) 0" by simp
  then show False by (simp add: bit_simps PTE_P_def)
qed

lemma flags_low:
  fixes f :: u32
  assumes "f AND NOT 0xFFF = 0"
  shows "(f OR PTE_P) AND NOT (mask 12) = 0"
proof -
  have "PTE_P AND NOT (mask 12) = 0" by (simp add: PTE_P_def mask_eq_exp_minus_1)
  moreover have "f AND NOT (mask 12) = 0" using assms by (simp only: mask_numerals)
  ultimately show ?thesis by (simp only: bit.conj_disj_distrib2 or.left_neutral)
qed

lemma page_offset_aligned:
  fixes pa :: u32
  assumes "unat pa mod PGSIZE = 0"
  shows "unat (pa + 4096 * word_of_nat k) mod PGSIZE = 0"
proof -
  have "unat (pa + 4096 * word_of_nat k) = (unat pa + 4096 * k) mod 4294967296"
    by (simp add: unat_word_ariths unsigned_of_nat take_bit_eq_mod mod_simps)
  then show ?thesis using assms by (simp add: PGSIZE_def mod_mod_cancel)
qed

text \<open>The specification of \<open>mappages\<close>, with the entries it leaves and the tables it takes.\<close>

lemma mappages_spec:
  assumes ok: "pgdir_ok s dir xs" and len: "0 < len" "unat va + unat len \<le> 4294967296"
    and n: "n = page_no (va + len - 1) - page_no va + 1"
    and free: "\<forall>vb. page_no va \<le> page_no vb \<and> page_no vb < page_no va + n \<longrightarrow> pte_of s dir vb AND PTE_P = 0"
    and room: "card (missing s dir (PGROUNDDOWN va) n) \<le> length xs"
  shows "\<exists>s' ys zs. mappages dir va len pa perm s = Ok (0, s') \<and> xs = zs @ ys \<and> pgdir_ok s' dir ys
    \<and> (\<forall>vb. pte_of s' dir vb = (if page_no va \<le> page_no vb \<and> page_no vb < page_no va + n
          then ((pa + 4096 * word_of_nat (page_no vb - page_no va)) OR perm) OR PTE_P else pte_of s dir vb))
    \<and> kend s' = kend s \<and> (\<forall>i. untouched s dir zs i \<longrightarrow> mem s' i = mem s i)
    \<and> grown s dir zs s'"
proof -
  define a where "a = PGROUNDDOWN va"
  define m where "m = n - 1"
  have nm: "n = Suc m" using n by (simp add: m_def)
  have l0: "0 < unat len" using len(1) by (simp add: word_less_nat_alt)
  have l1: "unat (len - 1) = unat len - 1" using l0 by (simp add: unat_sub word_le_nat_alt)
  have "unat (va + (len - 1)) = unat va + (unat len - 1)"
    unfolding l1 [symmetric] by (rule unat_add_lt) (use l0 l1 len(2) in simp)
  then have "unat (va + len - 1) = unat va + unat len - 1"
    using l0 by (simp only: add_diff_eq [symmetric])
  then have "unat va \<le> unat (va + len - 1)" using l0 by linarith
  then have "page_no va \<le> page_no (va + len - 1)" unfolding page_no_def by (rule div_le_mono)
  then have last: "page_no (va + len - 1) = page_no va + m" using n unfolding m_def by linarith
  have lt: "page_no (va + len - 1) < 1048576"
    using unat_u32_lt [of "va + len - 1"] by (simp add: page_no_def less_mult_imp_div_less)
  have a: "unat a mod 4096 = 0" "unat a + 4096 * Suc m \<le> 4294967296"
    using lt last by (simp_all add: a_def unat_page_base)
  have lastp: "PGROUNDDOWN (va + len - 1) = a + 4096 * word_of_nat m"
  proof -
    have "unat (a + 4096 * word_of_nat m) = unat a + 4096 * m" using page_step(1) [OF a, of m] by simp
    then have "unat (PGROUNDDOWN (va + len - 1)) = unat (a + 4096 * word_of_nat m)"
      by (simp add: a_def unat_page_base last)
    then show ?thesis by simp
  qed
  have fuel: "unat (a + 4096 * word_of_nat m - a) div PGSIZE = m"
  proof -
    have "unat (4096 * word_of_nat m :: u32) = 4096 * m"
      using a(2) by (simp add: unat_word_ariths unsigned_of_nat take_bit_eq_mod)
    then show ?thesis by (simp add: PGSIZE_def)
  qed
  have absent: "\<forall>vb. page_no a \<le> page_no vb \<and> page_no vb \<le> page_no a + m \<longrightarrow> pte_of s dir vb AND PTE_P = 0"
    using free unfolding a_def nm by simp
  obtain s' ys zs where r: "mappages_loop (Suc m) dir a (a + 4096 * word_of_nat m) pa perm s = Ok (0, s')"
    "xs = zs @ ys" "pgdir_ok s' dir ys" "\<forall>vb. pte_of s' dir vb = mapped a (Suc m) pa perm (pte_of s dir) vb"
    "kend s' = kend s" "\<forall>i. untouched s dir zs i \<longrightarrow> mem s' i = mem s i"
    "grown s dir zs s'"
    using mappages_loop_spec [OF ok a refl absent] room unfolding nm a_def by blast
  have run: "mappages dir va len pa perm s = Ok (0, s')"
    unfolding mappages_def a_def [symmetric] lastp Let_def fuel by (fact r(1))
  have ent: "\<forall>vb. pte_of s' dir vb = (if page_no va \<le> page_no vb \<and> page_no vb < page_no va + n
          then ((pa + 4096 * word_of_nat (page_no vb - page_no va)) OR perm) OR PTE_P else pte_of s dir vb)"
    using r(4) unfolding mapped_def a_def nm page_no_base .
  show ?thesis using run r(2,3,5-7) ent by blast
qed

text \<open>
  C6. \<open>mappages\<close> installs exactly the range it is asked for.  With a well-formed directory, no page
  of the range mapped yet and enough free pages for the tables that are missing, it returns 0, the
  processor afterwards translates every address of the range to the corresponding physical page
  with the flags asked for and every other address as before, the tables stay well-formed, and no
  byte outside the directory, its tables and the pages taken from the allocator has changed.
\<close>

theorem mappages_installs:
  assumes ok: "pgdir_ok s dir xs" and len: "0 < len" "unat va + unat len \<le> 4294967296"
    and n: "n = page_no (va + len - 1) - page_no va + 1"
    and free: "\<forall>vb. page_no va \<le> page_no vb \<and> page_no vb < page_no va + n \<longrightarrow> mmu_addr s dir vb = None"
    and room: "card (missing s dir (PGROUNDDOWN va) n) \<le> length xs"
    and pa: "unat pa mod PGSIZE = 0" "perm AND NOT 0xFFF = 0"
  shows "\<exists>s' ys zs. mappages dir va len pa perm s = Ok (0, s') \<and> xs = zs @ ys \<and> pgdir_ok s' dir ys
    \<and> (\<forall>vb. mmu_addr s' dir vb = (if page_no va \<le> page_no vb \<and> page_no vb < page_no va + n
          then Some (P2V (pa + 4096 * word_of_nat (page_no vb - page_no va)) + (vb AND 0xFFF)) else mmu_addr s dir vb))
    \<and> (\<forall>vb. page_no va \<le> page_no vb \<and> page_no vb < page_no va + n \<longrightarrow> PTE_FLAGS (pte_of s' dir vb) = (perm OR PTE_P))
    \<and> (\<forall>i. untouched s dir zs i \<longrightarrow> mem s' i = mem s i)"
proof -
  have absent: "\<forall>vb. page_no va \<le> page_no vb \<and> page_no vb < page_no va + n \<longrightarrow> pte_of s dir vb AND PTE_P = 0"
    using free unfolding mmu_addr_entry by (auto split: if_splits)
  obtain s' ys zs where r: "mappages dir va len pa perm s = Ok (0, s')" "xs = zs @ ys" "pgdir_ok s' dir ys"
    "\<forall>vb. pte_of s' dir vb = (if page_no va \<le> page_no vb \<and> page_no vb < page_no va + n
          then ((pa + 4096 * word_of_nat (page_no vb - page_no va)) OR perm) OR PTE_P else pte_of s dir vb)"
    "\<forall>i. untouched s dir zs i \<longrightarrow> mem s' i = mem s i"
    using mappages_spec [OF ok len n absent room, of pa perm] by blast
  have ent: "PTE_ADDR (pte_of s' dir vb) = pa + 4096 * word_of_nat (page_no vb - page_no va)"
    "PTE_FLAGS (pte_of s' dir vb) = perm OR PTE_P" "pte_of s' dir vb AND PTE_P \<noteq> 0"
    if "page_no va \<le> page_no vb \<and> page_no vb < page_no va + n" for vb
  proof -
    define k where "k = page_no vb - page_no va"
    have e: "pte_of s' dir vb = (pa + 4096 * word_of_nat k) OR (perm OR PTE_P)"
      using that r(4) [rule_format, of vb] unfolding k_def [symmetric] or.assoc by simp
    note pf = page_or_flags [OF page_offset_aligned [OF pa(1)] flags_low [OF pa(2)], of k]
    show "PTE_ADDR (pte_of s' dir vb) = pa + 4096 * word_of_nat (page_no vb - page_no va)"
      "PTE_FLAGS (pte_of s' dir vb) = perm OR PTE_P"
      unfolding e k_def [symmetric] by (fact pf)+
    show "pte_of s' dir vb AND PTE_P \<noteq> 0" unfolding e using flags_present by (simp only: or.assoc not_False_eq_True)
  qed
  have other: "pte_of s' dir vb = pte_of s dir vb"
    if "\<not> (page_no va \<le> page_no vb \<and> page_no vb < page_no va + n)" for vb
    using r(4) [rule_format, of vb] unfolding if_not_P [OF that] .
  have "mmu_addr s' dir vb = (if page_no va \<le> page_no vb \<and> page_no vb < page_no va + n
      then Some (P2V (pa + 4096 * word_of_nat (page_no vb - page_no va)) + (vb AND 0xFFF)) else mmu_addr s dir vb)" for vb
  proof (cases "page_no va \<le> page_no vb \<and> page_no vb < page_no va + n")
    case True
    show ?thesis unfolding mmu_addr_entry if_P [OF True] if_not_P [OF ent(3) [OF True]] ent(1) [OF True] ..
  next
    case False
    show ?thesis unfolding mmu_addr_entry if_not_P [OF False] other [OF False] ..
  qed
  with r ent(2) show ?thesis by blast
qed

lemma missing_le: "card (missing s dir a n) \<le> n"
proof -
  have "missing s dir a n \<subseteq> (\<lambda>i. PDX (a + 4096 * word_of_nat i)) ` {..<n}"
    by (auto simp: missing_def)
  then have "card (missing s dir a n) \<le> card ((\<lambda>i. PDX (a + 4096 * word_of_nat i)) ` {..<n})"
    by (intro card_mono) auto
  also have "\<dots> \<le> n" using card_image_le [of "{..<n}"] by simp
  finally show ?thesis .
qed

text \<open>A directory without tables, on the machine with two free pages.\<close>

lemma demo_dir:
  "pgdir_ok kmem_demo 0x80402000 [0x80401000, 0x80400000]" "mmu_addr kmem_demo 0x80402000 va = None"
proof -
  have z: "\<not> has_table kmem_demo 0x80402000 vb" for vb
  proof -
    have "unat ((0x80402000 :: u32) + 4 * PDX vb) = 0x80402000 + 4 * unat (PDX vb)"
      using unat_pte_slot [of "0x80402000" "PDX vb"] PDX_lt by (simp add: PGSIZE_def)
    then have "pde kmem_demo 0x80402000 vb = 0"
      unfolding pde_def pde_addr_def kmem_demo_def by (simp add: rd32_wr32_other) (simp add: rd32_def)
    then show ?thesis by (simp add: has_table_def)
  qed
  show "pgdir_ok kmem_demo 0x80402000 [0x80401000, 0x80400000]"
    using kmem_demo_free z unfolding pgdir_ok_def by (auto simp: kmem_demo_def page_ok_def V2P_def mmu_constants)
  show "mmu_addr kmem_demo 0x80402000 va = None"
    unfolding mmu_addr_entry using z by (simp add: pte_of_def)
qed

theorem mappages_installs_witness:
  "\<exists>s'. mappages 0x80402000 0x3FF000 8192 0x5000 6 kmem_demo = Ok (0, s')
    \<and> mmu_addr s' 0x80402000 0x400123 = Some 0x80006123 \<and> mmu_addr s' 0x80402000 0x401000 = None"
proof -
  have pn: "page_no 0x3FF000 = 1023" "page_no (0x3FF000 + 8192 - 1) = 1024" "page_no 0x400123 = 1024" "page_no 0x401000 = 1025"
    by (simp_all add: page_no_def)
  have n: "2 = page_no (0x3FF000 + 8192 - 1) - page_no 0x3FF000 + 1" unfolding pn by simp
  have room: "card (missing kmem_demo 0x80402000 (PGROUNDDOWN 0x3FF000) 2) \<le> length [0x80401000 :: u32, 0x80400000]"
    using missing_le [of kmem_demo "0x80402000" "PGROUNDDOWN 0x3FF000" 2] by simp
  obtain s' where r: "mappages 0x80402000 0x3FF000 8192 0x5000 6 kmem_demo = Ok (0, s')"
    "\<forall>vb. mmu_addr s' 0x80402000 vb = (if page_no 0x3FF000 \<le> page_no vb \<and> page_no vb < page_no 0x3FF000 + 2
          then Some (P2V (0x5000 + 4096 * word_of_nat (page_no vb - page_no 0x3FF000)) + (vb AND 0xFFF)) else mmu_addr kmem_demo 0x80402000 vb)"
    using mappages_installs [OF demo_dir(1) _ _ n _ room, of "0x5000" 6] demo_dir(2)
    by (auto simp: PGSIZE_def mask_eq_exp_minus_1)
  have "mmu_addr s' 0x80402000 0x400123 = Some 0x80006123" "mmu_addr s' 0x80402000 0x401000 = None"
    unfolding r(2) [rule_format] pn using demo_dir(2) by (simp_all add: P2V_def KERNBASE_def)
  with r(1) show ?thesis by blast
qed

end
