(* ===== verification/Copyout_Spec.thy ===== *)
theory Copyout_Spec
  imports Pgtab_Spec
begin

text \<open>
  Copying out to user memory: the pages a page table maps for the user (\<open>user_page\<close>, \<open>data_page\<close>), their
  separation from the page tables and from each other (\<open>user_ok\<close>), the specification of a page of
  \<open>copyout\<close> (\<open>put_chunk\<close>) and of its loop (\<open>copyout_loop_spec\<close>), and what the user reads afterwards.
\<close>

definition user_page :: "kmem \<Rightarrow> u32 \<Rightarrow> u32 \<Rightarrow> bool" where
  "user_page s dir va \<longleftrightarrow> pte_of s dir va AND PTE_P \<noteq> 0 \<and> pte_of s dir va AND PTE_U \<noteq> 0"

definition data_page :: "kmem \<Rightarrow> u32 \<Rightarrow> u32 \<Rightarrow> u32" where
  "data_page s dir va = P2V (PTE_ADDR (pte_of s dir va))"

text \<open>The user's pages are pages in use, apart from the directory, from its tables and from each other.\<close>

definition user_ok :: "kmem \<Rightarrow> u32 \<Rightarrow> u32 list \<Rightarrow> bool" where
  "user_ok s dir xs \<longleftrightarrow>
     (\<forall>va. user_page s dir va \<longrightarrow> page_ok s (data_page s dir va) \<and> data_page s dir va \<notin> set xs \<and> data_page s dir va \<noteq> dir \<and> (\<forall>vb. has_table s dir vb \<longrightarrow> data_page s dir va \<noteq> table_of s dir vb))
     \<and> (\<forall>va vb. user_page s dir va \<longrightarrow> user_page s dir vb \<longrightarrow> data_page s dir va = data_page s dir vb \<longrightarrow> page_no va = page_no vb)"

text \<open>The place of a user byte in the memory.\<close>

definition upos :: "kmem \<Rightarrow> u32 \<Rightarrow> u32 \<Rightarrow> nat" where
  "upos s dir va = unat (data_page s dir va) + unat va mod 4096"

lemma data_aligned: "unat (data_page s dir va) mod PGSIZE = 0"
proof -
  have "unat (PTE_ADDR (pte_of s dir va)) mod 4096 = 0" by (simp add: unat_PTE_ADDR)
  then have "(unat (PTE_ADDR (pte_of s dir va)) + 2147483648) mod 4096 = 0" by (simp add: mod_add_eq [symmetric])
  then show ?thesis
    by (simp add: data_page_def P2V_def KERNBASE_def unat_word_ariths mod_mod_cancel PGSIZE_def)
qed

lemma unat_in_page:
  fixes p :: u32
  assumes "unat p mod PGSIZE = 0" "k < 4096"
  shows "unat p + k < 4294967296"
proof -
  obtain a where a: "unat p = 4096 * a" using assms(1) by (auto simp: PGSIZE_def elim: dvdE)
  moreover have "unat p < 4294967296" by simp
  ultimately show ?thesis using assms(2) by simp
qed

lemma unat_page_plus:
  fixes p x :: u32
  assumes "unat p mod PGSIZE = 0" "unat x < 4096"
  shows "unat (p + x) = unat p + unat x"
  using unat_in_page [OF assms] by (intro unat_add_lt) simp

lemma unat_low: "unat (va AND 0xFFF) = unat va mod 4096" for va :: u32
  by (simp only: mask_numerals unat_and_mask) simp

lemma mmu_user: "user_page s dir va \<Longrightarrow> \<exists>p. mmu_addr s dir va = Some p \<and> unat p = upos s dir va"
  using unat_page_plus [OF data_aligned, of "va AND 0xFFF"]
  by (simp add: mmu_addr_entry user_page_def upos_def data_page_def unat_low)

lemma upos_in_page: "in_page (data_page s dir va) (upos s dir va)"
  by (simp add: in_page_def upos_def PGSIZE_def)

text \<open>Writing into user pages changes no entry.\<close>

lemma entries_kept:
  assumes ok: "pgdir_ok s dir xs"
    and out: "\<And>i. in_page dir i \<Longrightarrow> m i = mem s i" "\<And>vb i. has_table s dir vb \<Longrightarrow> in_page (table_of s dir vb) i \<Longrightarrow> m i = mem s i"
  defines "s' \<equiv> s\<lparr>mem := m\<rparr>"
  shows "has_table s' dir va = has_table s dir va" "table_of s' dir va = table_of s dir va" "pte_of s' dir va = pte_of s dir va"
proof -
  have al: "unat dir mod PGSIZE = 0" using dir_ok_aligned [OF ok] .
  have pde: "pde s' dir vc = pde s dir vc" for vc
    unfolding pde_def
  proof (rule rd32_cong)
    fix j assume "unat (pde_addr dir vc) \<le> j" "j < unat (pde_addr dir vc) + 4"
    then have "in_page dir j" unfolding pde_addr_def by (rule in_page_slot [OF al PDX_lt])
    then show "mem s' j = mem s j" using out(1) by (simp add: s'_def)
  qed
  show t: "has_table s' dir va = has_table s dir va" "table_of s' dir va = table_of s dir va"
    by (simp_all add: has_table_def table_of_def pde)
  show "pte_of s' dir va = pte_of s dir va"
  proof (cases "has_table s dir va")
    case True
    have "rd32 (mem s') (unat (table_of s dir va + 4 * PTX va)) = rd32 (mem s) (unat (table_of s dir va + 4 * PTX va))"
    proof (rule rd32_cong)
      fix j assume "unat (table_of s dir va + 4 * PTX va) \<le> j" "j < unat (table_of s dir va + 4 * PTX va) + 4"
      then have "in_page (table_of s dir va) j" by (rule in_page_slot [OF table_aligned [OF ok True] PTX_lt])
      then show "mem s' j = mem s j" using out(2) [OF True] by (simp add: s'_def)
    qed
    then show ?thesis using True by (simp add: pte_of_def t pte_get_def)
  qed (simp add: pte_of_def t)
qed

text \<open>One round of \<open>copyout\<close>: at most the rest of a page.\<close>

lemma put_chunk:
  assumes ok: "pgdir_ok s dir xs" and u: "user_ok s dir xs" and va: "user_page s dir va"
    and fit: "unat va mod 4096 + length bs \<le> 4096"
  defines "s' \<equiv> s\<lparr>mem := put_bytes (mem s) (upos s dir va) bs\<rparr>"
  shows "has_table s' dir vb = has_table s dir vb" "table_of s' dir vb = table_of s dir vb" "pte_of s' dir vb = pte_of s dir vb"
    and "free_pages s' xs"
    and "user_page s dir vb \<Longrightarrow> mem s' (upos s dir vb) =
      (if unat va \<le> unat vb \<and> unat vb < unat va + length bs then bs ! (unat vb - unat va) else mem s (upos s dir vb))"
proof -
  let ?d = "data_page s dir va"
  have out: "mem s' i = mem s i" if "\<not> in_page ?d i" for i
    using that fit by (auto simp: s'_def put_bytes_def upos_def in_page_def PGSIZE_def)
  have dd: "?d \<noteq> dir" "\<And>vb. has_table s dir vb \<Longrightarrow> ?d \<noteq> table_of s dir vb"
    using u va unfolding user_ok_def by blast+
  have o1: "mem s' i = mem s i" if "in_page dir i" for i
    using out pages_apart [OF dir_ok_aligned [OF ok] data_aligned dd(1) [symmetric] that] .
  have o2: "mem s' i = mem s i" if "has_table s dir vb" "in_page (table_of s dir vb) i" for vb i
    using out pages_apart [OF table_aligned [OF ok that(1)] data_aligned dd(2) [OF that(1), symmetric] that(2)] .
  have s': "s' = s\<lparr>mem := mem s'\<rparr>" by (simp add: s'_def)
  show "has_table s' dir vb = has_table s dir vb" "table_of s' dir vb = table_of s dir vb" "pte_of s' dir vb = pte_of s dir vb"
    by (subst s', rule entries_kept [OF ok o1 o2], assumption+)+
  have "?d \<notin> set xs" using u va unfolding user_ok_def by blast
  then show "free_pages s' xs"
  proof (subst s', intro free_pages_frame)
    show "free_pages s xs" using ok by (simp add: pgdir_ok_def)
    fix x i assume x: "x \<in> set xs" "in_page x i"
    then have "x \<noteq> ?d" using \<open>?d \<notin> set xs\<close> by blast
    moreover have "unat x mod PGSIZE = 0" using ok x(1) by (simp add: pgdir_ok_def free_pages_def page_ok_def)
    ultimately show "mem s' i = mem s i" using out pages_apart [OF _ data_aligned] x(2) by metis
  qed
  assume ub: "user_page s dir vb"
  show "mem s' (upos s dir vb) =
      (if unat va \<le> unat vb \<and> unat vb < unat va + length bs then bs ! (unat vb - unat va) else mem s (upos s dir vb))"
  proof (cases "page_no va = page_no vb")
    case True
    then have "data_page s dir va = data_page s dir vb"
      using same_index [of va vb s dir] unfolding same_page_no [symmetric] same_page_def data_page_def pte_of_def
      by (auto split: if_splits)
    moreover have d: "unat va = 4096 * page_no va + unat va mod 4096" "unat vb = 4096 * page_no vb + unat vb mod 4096"
      by (simp_all add: page_no_def)
    moreover have "unat vb - unat va = unat vb mod 4096 - unat va mod 4096" using d True by linarith
    ultimately show ?thesis using True by (auto simp: s'_def put_bytes_def upos_def)
  next
    case False
    then have ne: "data_page s dir vb \<noteq> ?d" using u va ub unfolding user_ok_def by metis
    have "mem s' (upos s dir vb) = mem s (upos s dir vb)"
      using out pages_apart [OF data_aligned data_aligned ne upos_in_page] .
    moreover have "\<not> (unat va \<le> unat vb \<and> unat vb < unat va + length bs)"
    proof
      assume a: "unat va \<le> unat vb \<and> unat vb < unat va + length bs"
      then have "unat vb < unat va + length bs" by simp
      moreover have "unat va = 4096 * page_no va + unat va mod 4096" by (simp add: page_no_def)
      moreover have "unat va mod 4096 + length bs \<le> 4096" using fit .
      ultimately have "unat vb < 4096 * page_no va + 4096" by linarith
      then have "unat vb < (page_no va + 1) * 4096" by (simp only: distrib_right mult.commute mult_1_left)
      then have "page_no vb < page_no va + 1" unfolding page_no_def by (rule less_mult_imp_div_less)
      moreover have "page_no va \<le> page_no vb" using a by (simp add: page_no_def div_le_mono)
      ultimately show False using False by simp
    qed
    ultimately show ?thesis by (simp only: if_False)
  qed
qed

lemma user_same_page: "page_no va = page_no vb \<Longrightarrow> pte_of s dir va = pte_of s dir vb"
  using same_index [of va vb s dir] unfolding same_page_no [symmetric] same_page_def pte_of_def by simp

lemma uva2ka_user:
  assumes "pgdir_ok s dir xs" "user_page s dir va"
  shows "uva2ka dir va s = Ok (data_page s dir va)"
proof -
  have t: "has_table s dir va" using assms(2) by (auto simp: user_page_def pte_of_def split: if_splits)
  have "table_of s dir va + 4 * PTX va \<noteq> 0" using slot_nonzero [OF assms(1) t] .
  then show ?thesis
    using assms(2) t by (simp add: uva2ka_def walk_present user_page_def pte_of_def data_page_def)
qed

lemma page_rest:
  fixes va :: u32
  shows "unat (va - PGROUNDDOWN va) = unat va mod 4096" "unat (4096 - (va - PGROUNDDOWN va)) = 4096 - unat va mod 4096"
proof -
  have le: "PGROUNDDOWN va \<le> va" by (simp add: word_le_nat_alt unat_PGROUNDDOWN)
  show o: "unat (va - PGROUNDDOWN va) = unat va mod 4096"
    using unat_sub [OF le] by (simp add: unat_PGROUNDDOWN minus_div_mult_eq_mod)
  have "va - PGROUNDDOWN va \<le> 4096" by (simp add: word_le_nat_alt o less_imp_le)
  from unat_sub [OF this] show "unat (4096 - (va - PGROUNDDOWN va)) = 4096 - unat va mod 4096" by (simp add: o)
qed

lemma copyout_loop_spec:
  "pgdir_ok s dir xs \<Longrightarrow> user_ok s dir xs \<Longrightarrow> length buf = unat n \<Longrightarrow> unat n \<le> k \<Longrightarrow> unat va + unat n \<le> 4294967296 \<Longrightarrow>
   \<forall>vb. unat va \<le> unat vb \<and> unat vb < unat va + unat n \<longrightarrow> user_page s dir vb \<Longrightarrow>
   \<exists>s'. copyout_loop k dir va buf n s = Ok (0, s') \<and> (\<forall>vb. pte_of s' dir vb = pte_of s dir vb)
     \<and> (\<forall>vb. user_page s dir vb \<longrightarrow> mem s' (upos s dir vb) =
        (if unat va \<le> unat vb \<and> unat vb < unat va + unat n then buf ! (unat vb - unat va) else mem s (upos s dir vb)))"
proof (induction k arbitrary: s va buf n)
  case 0
  then have "n = 0" by (simp add: unat_eq_0)
  then show ?case by auto
next
  case (Suc k)
  show ?case
  proof (cases "n = 0")
    case True
    then show ?thesis by (intro exI [of _ s]) auto
  next
    case False
    define c where "c = (if n < 4096 - (va - PGROUNDDOWN va) then n else 4096 - (va - PGROUNDDOWN va))"
    have n0: "0 < unat n" using False by (simp add: unat_gt_0)
    have c: "unat c = min (unat n) (4096 - unat va mod 4096)" 
    proof -
      have "unat c = (if unat n < 4096 - unat va mod 4096 then unat n else 4096 - unat va mod 4096)"
        unfolding c_def word_less_nat_alt page_rest(2) by (simp only: if_distrib [of unat] page_rest(2))
      then show ?thesis by (simp add: min_def)
    qed
    have uva: "user_page s dir va" using Suc.prems(6) n0 by simp
    have ub: "user_page s dir (PGROUNDDOWN va)" "data_page s dir (PGROUNDDOWN va) = data_page s dir va"
      using uva user_same_page [of "PGROUNDDOWN va" va s dir] by (simp_all add: user_page_def data_page_def)
    have nz: "data_page s dir va \<noteq> 0"
      using Suc.prems(1,2) uva by (auto simp: user_ok_def pgdir_ok_def page_ok_def free_pages_def)
    let ?bs = "take (unat c) buf"
    define s1 where "s1 = s\<lparr>mem := put_bytes (mem s) (upos s dir va) ?bs\<rparr>"
    have pos: "unat (data_page s dir va + (va - PGROUNDDOWN va)) = upos s dir va"
      using unat_page_plus [OF data_aligned, of "va - PGROUNDDOWN va" s dir va] by (simp add: page_rest(1) upos_def)
    have lbs: "length ?bs = unat c" using Suc.prems(3) c by simp
    have fit: "unat va mod 4096 + length ?bs \<le> 4096" unfolding lbs c by simp
    note ch = put_chunk [OF Suc.prems(1,2) uva fit, folded s1_def]
    have run: "copyout_loop (Suc k) dir va buf n s = copyout_loop k dir (PGROUNDDOWN va + 4096) (drop (unat c) buf) (n - c) s1"
      using False nz uva2ka_user [OF Suc.prems(1) ub(1)] ub(2) pos
      by (simp add: word_gt_0 Let_def c_def s1_def)
    have ups: "upos s1 dir vb = upos s dir vb" "user_page s1 dir vb = user_page s dir vb" "data_page s1 dir vb = data_page s dir vb" for vb
      by (simp_all add: upos_def data_page_def user_page_def ch(3))
    have pok: "page_ok s1 = page_ok s" by (auto simp: page_ok_def s1_def fun_eq_iff)
    have ok1: "pgdir_ok s1 dir xs" using Suc.prems(1) ch(4) unfolding pgdir_ok_def ch(1,2) pok by blast
    have u1: "user_ok s1 dir xs" using Suc.prems(2) unfolding user_ok_def ch(1,2) pok ups .
    show ?thesis
    proof (cases "unat n = unat c")
      case True
      then have "n - c = 0" "?bs = buf" using Suc.prems(3) by simp_all
      moreover have "copyout_loop k dir w b 0 s1 = Ok (0, s1)" for w b by (cases k) auto
      ultimately have "copyout_loop (Suc k) dir va buf n s = Ok (0, s1)" using run by simp
      moreover have "length buf = unat c" using Suc.prems(3) True by simp
      ultimately show ?thesis using ch(3,5) \<open>?bs = buf\<close> True by (intro exI [of _ s1]) auto
    next
      case False
      then have cv: "unat c = 4096 - unat va mod 4096" "unat c < unat n" using c by auto
      have nc: "unat (n - c) = unat n - unat c" using cv(2) by (simp add: unat_sub word_le_nat_alt)
      have va1: "unat (PGROUNDDOWN va + 4096) = unat va + unat c"
      proof -
        have "unat (PGROUNDDOWN va) + 4096 = unat va + unat c"
          unfolding cv(1) unat_PGROUNDDOWN using div_mult_mod_eq [of "unat va" 4096] mod_less_divisor [of 4096 "unat va"] by linarith
        moreover have "unat va + unat c < 4294967296" using cv(2) Suc.prems(5) by simp
        ultimately show ?thesis by (subst unat_add_lt) auto
      qed
      have c1: "0 < unat c" unfolding cv(1) by simp
      have pre: "length (drop (unat c) buf) = unat (n - c)" "unat (n - c) \<le> k"
        "unat (PGROUNDDOWN va + 4096) + unat (n - c) \<le> 4294967296"
        "\<forall>vb. unat (PGROUNDDOWN va + 4096) \<le> unat vb \<and> unat vb < unat (PGROUNDDOWN va + 4096) + unat (n - c) \<longrightarrow> user_page s1 dir vb"
        using Suc.prems(3-6) cv(2) c1 unfolding nc va1 ups by auto
      obtain s' where s': "copyout_loop k dir (PGROUNDDOWN va + 4096) (drop (unat c) buf) (n - c) s1 = Ok (0, s')"
        "\<forall>vb. pte_of s' dir vb = pte_of s1 dir vb"
        "\<forall>vb. user_page s1 dir vb \<longrightarrow> mem s' (upos s1 dir vb) =
          (if unat (PGROUNDDOWN va + 4096) \<le> unat vb \<and> unat vb < unat (PGROUNDDOWN va + 4096) + unat (n - c)
           then drop (unat c) buf ! (unat vb - unat (PGROUNDDOWN va + 4096)) else mem s1 (upos s1 dir vb))"
        using Suc.IH [OF ok1 u1 pre] by blast
      have "mem s' (upos s dir vb) =
        (if unat va \<le> unat vb \<and> unat vb < unat va + unat n then buf ! (unat vb - unat va) else mem s (upos s dir vb))"
        if "user_page s dir vb" for vb
      proof -
        have e: "mem s' (upos s dir vb) = (if unat va + unat c \<le> unat vb \<and> unat vb < unat va + unat n
            then drop (unat c) buf ! (unat vb - (unat va + unat c)) else mem s1 (upos s dir vb))"
          using s'(3) [rule_format, of vb] that cv(2) unfolding ups nc va1 by simp
        show ?thesis
          using e ch(5) [OF that] cv(2) Suc.prems(3) unfolding lbs by (auto simp: nth_append)
      qed
      then show ?thesis using run s'(1,2) ch(3) by (intro exI [of _ s']) simp
    qed
  qed
qed


lemma uread_all:
  "(\<And>i. i < length bs \<Longrightarrow> \<exists>p. mmu_addr s dir (va + word_of_nat i) = Some p \<and> mem s (unat p) = bs ! i)
   \<Longrightarrow> uread s dir va (length bs) = Ok bs"
proof (induction bs arbitrary: va)
  case (Cons b bs)
  obtain p where "mmu_addr s dir va = Some p" "mem s (unat p) = b" using Cons.prems [of 0] by auto
  moreover have "uread s dir (va + 1) (length bs) = Ok bs"
    using Cons.prems [of "Suc i" for i] by (intro Cons.IH) (auto simp: algebra_simps)
  ultimately show ?case by simp
qed simp

text \<open>
  C11. Copying out to a user address range whose pages are all mapped for the user succeeds and is read
  back: after \<open>copyout(pgdir, va, buf, len)\<close> a user program that reads \<open>len\<close> bytes from \<open>va\<close> through
  the page table sees exactly \<open>buf\<close>, although the range may start and end inside pages that lie anywhere
  in memory; the copy changes no page-table entry and no byte of another user address.
\<close>

theorem copyout_then_uread:
  assumes ok: "pgdir_ok s dir xs" "user_ok s dir xs" and n: "length buf = unat n" "unat va + unat n \<le> 4294967296"
    and user: "\<forall>vb. unat va \<le> unat vb \<and> unat vb < unat va + unat n \<longrightarrow> user_page s dir vb"
  shows "\<exists>s'. copyout dir va buf n s = Ok (0, s') \<and> uread s' dir va (unat n) = Ok buf
    \<and> (\<forall>vb. mmu_addr s' dir vb = mmu_addr s dir vb)
    \<and> (\<forall>vb p. user_page s dir vb \<longrightarrow> \<not> (unat va \<le> unat vb \<and> unat vb < unat va + unat n)
         \<longrightarrow> mmu_addr s dir vb = Some p \<longrightarrow> mem s' (unat p) = mem s (unat p))"
proof -
  obtain s' where r: "copyout dir va buf n s = Ok (0, s')" and e: "\<And>vb. pte_of s' dir vb = pte_of s dir vb"
    and m: "\<And>vb. user_page s dir vb \<Longrightarrow> mem s' (upos s dir vb) =
        (if unat va \<le> unat vb \<and> unat vb < unat va + unat n then buf ! (unat vb - unat va) else mem s (upos s dir vb))"
    using copyout_loop_spec [OF ok n(1) order_refl n(2) user] unfolding copyout_def by blast
  have a: "mmu_addr s' dir vb = mmu_addr s dir vb" for vb by (simp add: mmu_addr_entry e)
  have "uread s' dir va (length buf) = Ok buf"
  proof (rule uread_all)
    fix i assume i: "i < length buf"
    then have w: "unat (va + word_of_nat i) = unat va + i"
    proof -
      have "i < 4294967296" using i n by linarith
      then have u: "unat (word_of_nat i :: u32) = i" by (intro unat_of_nat_lt) simp
      then show ?thesis using i n by (subst unat_add_lt) simp_all
    qed
    then have up: "user_page s dir (va + word_of_nat i)" using user i n(1) by simp
    then obtain p where p: "mmu_addr s dir (va + word_of_nat i) = Some p" "unat p = upos s dir (va + word_of_nat i)"
      using mmu_user by blast
    have "mem s' (unat p) = buf ! i" unfolding p(2) m [OF up] w using i n(1) by simp
    then show "\<exists>p. mmu_addr s' dir (va + word_of_nat i) = Some p \<and> mem s' (unat p) = buf ! i"
      using p(1) unfolding a by blast
  qed
  moreover have "mem s' (unat p) = mem s (unat p)"
    if "user_page s dir vb" "\<not> (unat va \<le> unat vb \<and> unat vb < unat va + unat n)" "mmu_addr s dir vb = Some p" for vb p
    using m [OF that(1)] that(2,3) mmu_user [OF that(1)] by (metis option.inject)
  ultimately show ?thesis using r a n(1) by (intro exI [of _ s']) simp
qed

text \<open>Two pages mapped for the user at the bottom of the address space.\<close>

definition user_demo :: kmem where
  "user_demo = kmem_demo\<lparr>mem := wr32 (wr32 (wr32 (mem kmem_demo) 0x80402000 0x403007) 0x80403000 0x405007) 0x80403004 0x404007\<rparr>"

lemma user_demo_pde: "pde user_demo 0x80402000 va = (if PDX va = 0 then 0x403007 else 0)"
proof -
  have u: "unat ((0x80402000 :: u32) + 4 * PDX va) = 0x80402000 + 4 * unat (PDX va)" "unat (PDX va) < 1024"
    using unat_pte_slot [of "0x80402000" "PDX va"] PDX_lt by (simp_all add: PGSIZE_def)
  show ?thesis
  proof (cases "PDX va = 0")
    case False
    then have "0 < unat (PDX va)" by (simp add: unat_gt_0)
    then show ?thesis using u False unfolding pde_def pde_addr_def user_demo_def kmem_demo_def
      by (simp add: rd32_wr32_other) (simp add: rd32_def)
  qed (simp add: pde_def pde_addr_def user_demo_def kmem_demo_def rd32_wr32_other)
qed

lemma user_demo_table:
  "has_table user_demo 0x80402000 va \<longleftrightarrow> PDX va = 0" "PDX va = 0 \<Longrightarrow> table_of user_demo 0x80402000 va = 0x80403000"
  by (simp_all add: has_table_def table_of_def user_demo_pde P2V_def KERNBASE_def PTE_ADDR_def PTE_P_def)

lemma user_demo_entry:
  "pte_of user_demo 0x80402000 va = (if PDX va = 0 \<and> PTX va = 0 then 0x405007 else if PDX va = 0 \<and> PTX va = 1 then 0x404007 else 0)"
proof -
  have u: "unat ((0x80403000 :: u32) + 4 * PTX va) = 0x80403000 + 4 * unat (PTX va)" "unat (PTX va) < 1024"
    using unat_pte_slot [of "0x80403000" "PTX va"] PTX_lt by (simp_all add: PGSIZE_def)
  consider "PTX va = 0" | "PTX va = 1" | "1 < unat (PTX va)"
    by (metis One_nat_def less_one linorder_neqE_nat unat_1 unat_eq_0 word_unat_eq_iff)
  then show ?thesis
  proof cases
    case 3
    then have "PTX va \<noteq> 0" "PTX va \<noteq> 1" by auto
    then show ?thesis using u 3 unfolding pte_of_def pte_get_def
      by (simp add: user_demo_table) (simp add: user_demo_def kmem_demo_def rd32_wr32_other, simp add: rd32_def)
  qed (simp_all add: pte_of_def pte_get_def user_demo_table, simp_all add: user_demo_def kmem_demo_def rd32_wr32_other)
qed

lemma user_demo_ok:
  "pgdir_ok user_demo 0x80402000 [0x80401000, 0x80400000]" "user_ok user_demo 0x80402000 [0x80401000, 0x80400000]"
proof -
  have "free_pages (kmem_demo\<lparr>mem := mem user_demo\<rparr>) [0x80401000, 0x80400000]"
    by (rule free_pages_frame [OF kmem_demo_free])
      (auto simp: user_demo_def kmem_demo_def in_page_def PGSIZE_def wr32_outside)
  moreover have e: "kmem_demo\<lparr>mem := mem user_demo\<rparr> = user_demo" by (simp add: user_demo_def)
  ultimately have f: "free_pages user_demo [0x80401000, 0x80400000]" by simp
  have po: "page_ok user_demo p \<longleftrightarrow> page_ok kmem_demo p" for p by (simp add: page_ok_def user_demo_def)
  show "pgdir_ok user_demo 0x80402000 [0x80401000, 0x80400000]"
    using f by (simp add: pgdir_ok_def po user_demo_table) (simp add: kmem_demo_def page_ok_def V2P_def mmu_constants)
  have d: "PDX va = 0" "PTX va = 0 \<and> data_page user_demo 0x80402000 va = 0x80405000 \<or>
      PTX va = 1 \<and> data_page user_demo 0x80402000 va = 0x80404000"
    if "user_page user_demo 0x80402000 va" for va
    using that by (simp_all add: user_page_def data_page_def user_demo_entry P2V_def KERNBASE_def PTE_ADDR_def split: if_splits)
  have k: "page_ok kmem_demo 0x80405000" "page_ok kmem_demo 0x80404000"
    by (simp_all add: kmem_demo_def page_ok_def V2P_def mmu_constants)
  show "user_ok user_demo 0x80402000 [0x80401000, 0x80400000]"
    unfolding user_ok_def po user_demo_table(1)
  proof (intro conjI allI impI)
    fix va assume "user_page user_demo 0x80402000 va"
    note q = d(2) [OF this]
    show "page_ok kmem_demo (data_page user_demo 0x80402000 va)" using q k by (elim disjE) simp_all
    show "data_page user_demo 0x80402000 va \<notin> set [0x80401000, 0x80400000]" using q by (elim disjE) simp_all
    show "data_page user_demo 0x80402000 va \<noteq> 0x80402000" using q by (elim disjE) simp_all
    show "data_page user_demo 0x80402000 va \<noteq> table_of user_demo 0x80402000 vb" if "PDX vb = 0" for vb
      using q unfolding user_demo_table(2) [OF that] by (elim disjE) simp_all
  next
    fix va vb
    assume u: "user_page user_demo 0x80402000 va" "user_page user_demo 0x80402000 vb"
      and e: "data_page user_demo 0x80402000 va = data_page user_demo 0x80402000 vb"
    have "PDX va = PDX vb" using d(1) [OF u(1)] d(1) [OF u(2)] by simp
    moreover have "PTX va = PTX vb"
      using d(2) [OF u(1)] d(2) [OF u(2)] unfolding e by (elim disjE conjE) simp_all
    ultimately show "page_no va = page_no vb" unfolding same_page_no [symmetric] same_page_def by simp
  qed
qed

theorem copyout_then_uread_witness:
  "\<exists>s'. copyout 0x80402000 0xFFE [1, 2, 3, 4] 4 user_demo = Ok (0, s') \<and> uread s' 0x80402000 0xFFE 4 = Ok [1, 2, 3, 4]"
proof -
  have "user_page user_demo 0x80402000 vb" if "unat (0xFFE :: u32) \<le> unat vb \<and> unat vb < unat (0xFFE :: u32) + unat (4 :: u32)" for vb
  proof -
    have b: "4094 \<le> unat vb" "unat vb < 4098" using that by simp_all
    then have "unat (PDX vb) = 0" "unat (PTX vb) = 0 \<or> unat (PTX vb) = 1"
      unfolding unat_PDX unat_PTX by (simp, auto)
    then have "PDX vb = 0" "PTX vb = 0 \<or> PTX vb = 1"
      by (auto simp: unat_eq_0) (metis unat_1 word_unat_eq_iff One_nat_def)
    then show ?thesis by (auto simp: user_page_def user_demo_entry PTE_P_def PTE_U_def)
  qed
  then show ?thesis
    using copyout_then_uread [OF user_demo_ok, of "[1, 2, 3, 4]" 4 "0xFFE"] by auto
qed
end
