(* ===== verification/Uaccess_Spec.thy ===== *)
theory Uaccess_Spec
  imports Uaccess Proc_Spec Copyout_Spec
begin

text \<open>
  The arguments of system calls.  \<open>ubyte\<close> is the byte a process has at an address; as long as the pages
  below its size are present, fetching an argument reads exactly those bytes and changes nothing.
\<close>

definition present_below :: "'d krn \<Rightarrow> u32 \<Rightarrow> bool" where
  "present_below s n \<longleftrightarrow> (\<forall>va. va < n \<longrightarrow> mmu_addr (kmem_of s) (udir s) va \<noteq> None)"

definition ubyte :: "'d krn \<Rightarrow> u32 \<Rightarrow> u8" where
  "ubyte s va = mem (kmem_of s) (unat (the (mmu_addr (kmem_of s) (udir s) va)))"

definition uword :: "'d krn \<Rightarrow> u32 \<Rightarrow> u32" where
  "uword s a = word_of_bytes [ubyte s a, ubyte s (a + 1), ubyte s (a + 2), ubyte s (a + 3)]"

definition ustr :: "'d krn \<Rightarrow> u32 \<Rightarrow> u32 \<Rightarrow> cstring option" where
  "ustr s a n = (let bs = map (\<lambda>i. ubyte s (word_of_nat i)) [unat a..<unat n]
     in if 0 \<in> set bs then Some (takeWhile (\<lambda>b. b \<noteq> 0) bs) else None)"

lemma get_user_present: "present_below s n \<Longrightarrow> va < n \<Longrightarrow> get_user va s = Ok (ubyte s va, s)"
  by (auto simp: get_user_def kaccess_def present_below_def ubyte_def)

lemma below_add:
  fixes a n :: u32
  assumes "unat a + k \<le> unat n" "j < k"
  shows "a + word_of_nat j < n"
proof -
  have "unat a + j < unat n" using assms by simp
  moreover have "j < 4294967296" using calculation unat_u32_lt [of n] by linarith
  moreover from this have "unat (word_of_nat j :: u32) = j" by (intro unat_of_nat_lt) simp
  moreover have "unat a + j < 4294967296" using assms unat_u32_lt [of n] by linarith
  ultimately show ?thesis by (simp add: word_less_nat_alt unat_add_lt)
qed

lemma get_user32_present:
  assumes "present_below s n" "unat a + 4 \<le> unat n"
  shows "get_user32 a s = Ok (uword s a, s)"
proof -
  have "a < n" "a + 1 < n" "a + 2 < n" "a + 3 < n"
    using below_add [OF assms(2), of 0] below_add [OF assms(2), of 1] below_add [OF assms(2), of 2] below_add [OF assms(2), of 3]
    by simp_all
  then show ?thesis
    by (simp add: get_user32_def numeral_eq_Suc get_user_present [OF assms(1)] uword_def add.assoc)
qed

lemma fetchint_present:
  assumes c: "cur s = Some p" "sz (ptab s ! p) \<le> 0x80000000" and pr: "present_below s (sz (ptab s ! p))"
  shows "fetchint a s = Ok (if unat a + 4 \<le> unat (sz (ptab s ! p)) then Some (uword s a) else None, s)"
proof -
  let ?n = "sz (ptab s ! p)"
  have n: "unat ?n \<le> 2147483648" using c(2) by (simp add: word_le_nat_alt)
  have "?n \<le> a \<or> ?n < a + 4 \<longleftrightarrow> \<not> unat a + 4 \<le> unat ?n"
  proof (cases "?n \<le> a")
    case False
    then have "unat a < unat ?n" by (simp add: word_le_nat_alt)
    then have "unat (a + 4) = unat a + 4" using n by (subst unat_add_lt) simp_all
    then show ?thesis using False by (auto simp: word_less_nat_alt word_le_nat_alt)
  qed (simp add: word_le_nat_alt)
  then show ?thesis using c(1) get_user32_present [OF pr, of a] by (simp add: fetchint_def with_cur_def)
qed

lemma sint_nonneg: "0 \<le> sint w \<Longrightarrow> unat w < 2147483648" for w :: u32
proof -
  assume w: "0 \<le> sint w"
  have l: "sint w < 2147483648" using sint_less [of w] by simp
  have "uint w = take_bit 32 (sint w)" using uint_sint [of w] by simp
  also have "\<dots> = sint w" using w l by (intro take_bit_int_eq_self) simp_all
  finally have "int (unat w) = sint w" by (simp add: unsigned_of_nat)
  then show ?thesis using l by linarith
qed

lemma fetchstr_loop_present:
  "present_below s n \<Longrightarrow> unat n - unat a \<le> k \<Longrightarrow> fetchstr_loop k a n s = Ok (ustr s a n, s)"
proof (induction k arbitrary: a)
  case (Suc k)
  show ?case
  proof (cases "a < n")
    case True
    then have l: "unat a < unat n" by (simp add: word_less_nat_alt)
    then have "unat a + 1 < 4294967296" using unat_u32_lt [of n] by linarith
    then have a1: "unat (a + 1) = unat a + 1" by (subst unat_add_lt) simp_all
    have "[unat a..<unat n] = unat a # [unat (a + 1)..<unat n]" using l a1 by (simp add: upt_conv_Cons)
    then have u: "ustr s a n = (if ubyte s a = 0 then Some [] else map_option ((#) (ubyte s a)) (ustr s (a + 1) n))"
      by (simp add: ustr_def Let_def)
    have "fetchstr_loop k (a + 1) n s = Ok (ustr s (a + 1) n, s)"
      using Suc.prems a1 l by (intro Suc.IH) simp_all
    then show ?thesis using True u get_user_present [OF Suc.prems(1) True] by simp
  next
    case False
    then show ?thesis by (simp add: ustr_def word_less_nat_alt)
  qed
qed (simp add: ustr_def)

text \<open>
  C16. No system call can make the kernel touch memory outside the process.  With the pages below the
  size of the process present and a size below \<open>KERNBASE\<close>, \<open>argptr\<close> accepts exactly the buffers that lie
  in \<open>[0, sz)\<close> from the first byte to the last, no sum wrapping around, and rejects every other pointer,
  every negative size and every argument slot outside the process; \<open>argstr\<close> returns exactly the bytes
  before the first NUL, and fails when there is none below the size.  Neither changes the state.
\<close>

theorem arguments_in_bounds:
  fixes s :: "'d krn" and p n len
  defines "lim \<equiv> sz (ptab s ! p)" and "slot \<equiv> tf_esp (tf (ptab s ! p)) + 4 + 4 * word_of_nat n"
  assumes c: "cur s = Some p" "lim \<le> 0x80000000" "present_below s lim"
  shows "argptr n len s = Ok (if unat slot + 4 \<le> unat lim \<and> 0 \<le> sint len \<and> uword s slot < lim
             \<and> unat (uword s slot) + unat len \<le> unat lim then Some (uword s slot) else None, s)
    \<and> argstr n s = Ok (if unat slot + 4 \<le> unat lim then ustr s (uword s slot) lim else None, s)"
proof
  have ai: "argint n s = Ok (if unat slot + 4 \<le> unat lim then Some (uword s slot) else None, s)"
    using fetchint_present [OF c(1), of slot] c unfolding lim_def slot_def by (simp add: argint_def with_cur_def)
  have t: "unat lim \<le> 2147483648" using c(2) by (simp add: word_le_nat_alt)
  have "sint len < 0 \<or> lim \<le> i \<or> lim < i + len \<longleftrightarrow> \<not> (0 \<le> sint len \<and> i < lim \<and> unat i + unat len \<le> unat lim)" for i
  proof (cases "0 \<le> sint len \<and> i < lim")
    case True
    then have "unat len < 2147483648" "unat i < unat lim" by (simp_all add: sint_nonneg word_less_nat_alt)
    then have "unat (i + len) = unat i + unat len" using t by (intro unat_add_lt) simp
    then show ?thesis using True by (auto simp: word_less_nat_alt word_le_nat_alt)
  qed auto
  then show "argptr n len s = Ok (if unat slot + 4 \<le> unat lim \<and> 0 \<le> sint len \<and> uword s slot < lim
             \<and> unat (uword s slot) + unat len \<le> unat lim then Some (uword s slot) else None, s)"
    using c(1) by (simp add: argptr_def with_cur_def ai lim_def [symmetric])
  show "argstr n s = Ok (if unat slot + 4 \<le> unat lim then ustr s (uword s slot) lim else None, s)"
  proof -
    have "fetchstr a s = Ok (ustr s a lim, s)" for a
      using c(1) fetchstr_loop_present [OF c(3), of a "unat lim"]
      by (cases "lim \<le> a") (auto simp: fetchstr_def with_cur_def lim_def [symmetric] ustr_def word_le_nat_alt)
    then show ?thesis by (simp add: argstr_def ai)
  qed
qed

text \<open>The first process of the demonstration, running with two pages.\<close>

definition arg_demo :: "unit krn" where
  "arg_demo = (krn_demo (kio_demo\<lparr>kpg := user_demo\<rparr>))
     \<lparr>ptab := [proc_demo\<lparr>sz := 8192, state := RUNNING, tf := initcode_tf\<lparr>tf_esp := 0xFF8\<rparr>\<rparr>],
      mach := upd_cpu 1 (\<lambda>c. c\<lparr>cpuproc := Some 0\<rparr>) two_cpus, cr3 := 0x402000\<rparr>"

lemma arg_demo_present: "present_below arg_demo 8192"
  unfolding present_below_def
proof (intro allI impI)
  fix va :: u32 assume "va < 8192"
  then have b: "unat va < 8192" by (simp add: word_less_nat_alt)
  then have "unat (PDX va) = 0" "unat (PTX va) = 0 \<or> unat (PTX va) = 1"
    unfolding unat_PDX unat_PTX by (simp, auto)
  then have "PDX va = 0" "PTX va = 0 \<or> PTX va = 1"
    by (auto simp: unat_eq_0) (metis unat_1 word_unat_eq_iff One_nat_def)
  moreover have "udir arg_demo = 0x80402000" "kmem_of arg_demo = user_demo"
    by (simp_all add: udir_def arg_demo_def P2V_def KERNBASE_def kmem_of_def krn_demo_def)
  ultimately show "mmu_addr (kmem_of arg_demo) (udir arg_demo) va \<noteq> None"
    by (auto simp: mmu_addr_entry user_demo_entry PTE_P_def)
qed

theorem arguments_in_bounds_witness:
  "argptr 0 8193 arg_demo = Ok (None, arg_demo) \<and> argptr 2000 1 arg_demo = Ok (None, arg_demo)"
proof -
  have c: "cur arg_demo = Some 0"
    by (simp add: cur_def arg_demo_def krn_demo_def upd_cpu_def two_cpus_def)
  have p: "sz (ptab arg_demo ! 0) = 8192" "tf_esp (tf (ptab arg_demo ! 0)) = 0xFF8"
    by (simp_all add: arg_demo_def)
  show ?thesis
    using arguments_in_bounds [OF c, unfolded p, OF _ arg_demo_present, of 0 8193]
      arguments_in_bounds [OF c, unfolded p, OF _ arg_demo_present, of 2000 1] by simp
qed
end
