(* ===== verification/Copyuvm_Spec.thy ===== *)
theory Copyuvm_Spec
  imports Copyout_Spec Vm Proc_Spec
begin

text \<open>
  The copy of an address space that \<open>fork\<close> makes.  \<open>child_inv\<close> relates the memory while the child is built
  to the memory before: the directory of the child and its tables are pages of the old free list, and no
  byte outside these pages has changed.  \<open>setupkvm_ok\<close> is the specification of \<open>setupkvm\<close>, \<open>copy_page\<close> that of
  a round of \<open>copyuvm\<close>, \<open>copied_upto\<close> the invariant of its loop.
\<close>

definition child_inv :: "kmem \<Rightarrow> u32 list \<Rightarrow> u32 \<Rightarrow> kmem \<Rightarrow> u32 list \<Rightarrow> nat \<Rightarrow> bool" where
  "child_inv s0 xs d s ys r \<longleftrightarrow>
     pgdir_ok s d ys \<and> set ys \<subseteq> set xs \<and> d \<in> set xs \<and> (\<forall>va. has_table s d va \<longrightarrow> table_of s d va \<in> set xs)
     \<and> kend s = kend s0 \<and> (\<forall>i. (\<forall>x \<in> set xs. \<not> in_page x i) \<longrightarrow> mem s i = mem s0 i)
     \<and> card (absent s d) + r \<le> length ys"

text \<open>Every page of \<open>xs\<close> is still free, the directory, one of its tables, a page of the user, or in \<open>E\<close>.\<close>

definition user_used :: "kmem \<Rightarrow> u32 \<Rightarrow> u32 \<Rightarrow> bool" where
  "user_used s d va \<longleftrightarrow> page_no va < 0x80000 \<and> pte_of s d va AND PTE_P \<noteq> 0"

definition accounted :: "u32 list \<Rightarrow> u32 \<Rightarrow> kmem \<Rightarrow> u32 list \<Rightarrow> u32 set \<Rightarrow> bool" where
  "accounted xs d s ys E \<longleftrightarrow> set xs \<subseteq>
     {d} \<union> set ys \<union> {table_of s d va | va. has_table s d va} \<union> {data_page s d va | va. user_used s d va} \<union> E"

lemma accounted_same:
  assumes "accounted xs d s ys E" "set ys \<subseteq> set ys' \<union> E'" "E \<subseteq> E'"
    "\<And>va. has_table t d va = has_table s d va" "\<And>va. table_of t d va = table_of s d va" "\<And>va. pte_of t d va = pte_of s d va"
  shows "accounted xs d t ys' E'"
proof -
  have "user_used t d = user_used s d" "data_page t d = data_page s d" using assms(6) by (auto simp: user_used_def data_page_def fun_eq_iff)
  then show ?thesis using assms(1-3) unfolding accounted_def assms(4,5) by auto
qed

lemma child_map:
  assumes inv: "child_inv s0 xs d s ys r" and len: "0 < len" "unat va + unat len \<le> 4294967296"
    and n: "n = page_no (va + len - 1) - page_no va + 1"
    and free: "\<forall>vb. page_no va \<le> page_no vb \<and> page_no vb < page_no va + n \<longrightarrow> pte_of s d vb AND PTE_P = 0"
  shows "\<exists>s' ys'. mappages d va len pa perm s = Ok (0, s') \<and> child_inv s0 xs d s' ys' r \<and> set ys' \<subseteq> set ys
    \<and> (\<forall>vb. pte_of s' d vb = (if page_no va \<le> page_no vb \<and> page_no vb < page_no va + n
          then ((pa + 4096 * word_of_nat (page_no vb - page_no va)) OR perm) OR PTE_P else pte_of s d vb))
    \<and> (\<forall>i. untouched s d ys i \<longrightarrow> mem s' i = mem s i)
    \<and> (\<forall>vb. has_table s' d vb \<longrightarrow> has_table s d vb \<and> table_of s' d vb = table_of s d vb \<or> table_of s' d vb \<in> set ys)
    \<and> (\<forall>E. accounted xs d s ys E \<longrightarrow> accounted xs d s' ys' E)"
proof -
  have i: "pgdir_ok s d ys" "set ys \<subseteq> set xs" "d \<in> set xs" "\<forall>va. has_table s d va \<longrightarrow> table_of s d va \<in> set xs"
    "kend s = kend s0" "\<forall>i. (\<forall>x \<in> set xs. \<not> in_page x i) \<longrightarrow> mem s i = mem s0 i" "card (absent s d) + r \<le> length ys"
    using inv unfolding child_inv_def by blast+
  have room: "card (missing s d (PGROUNDDOWN va) n) \<le> length ys"
    using missing_absent [of s d] i(7) by (meson add_leD1 le_trans)
  obtain s' ys' zs where m: "mappages d va len pa perm s = Ok (0, s')" "ys = zs @ ys'" "pgdir_ok s' d ys'"
    "\<forall>vb. pte_of s' d vb = (if page_no va \<le> page_no vb \<and> page_no vb < page_no va + n
          then ((pa + 4096 * word_of_nat (page_no vb - page_no va)) OR perm) OR PTE_P else pte_of s d vb)"
    "kend s' = kend s" "\<forall>i. untouched s d zs i \<longrightarrow> mem s' i = mem s i"
    "grown s d zs s'"
    using mappages_spec [OF i(1) len n free room, of pa perm] by blast
  have g: "\<forall>vb. has_table s' d vb \<longrightarrow> has_table s d vb \<and> table_of s' d vb = table_of s d vb \<or> table_of s' d vb \<in> set zs"
    "\<forall>vb. has_table s d vb \<longrightarrow> has_table s' d vb \<and> table_of s' d vb = table_of s d vb"
    "\<forall>z \<in> set zs. \<exists>vb. has_table s' d vb \<and> table_of s' d vb = z" "card (absent s' d) + length zs \<le> card (absent s d)"
    using m(7) unfolding grown_def by blast+
  have u: "untouched s d zs i" if "untouched s d ys i" for i using that m(2) by (simp add: untouched_def)
  have t: "table_of s' d vb \<in> set xs" if "has_table s' d vb" for vb
    using g(1) that i(2,4) m(2) by (metis UnCI set_append subsetD)
  have out: "mem s' i = mem s0 i" if "\<forall>x \<in> set xs. \<not> in_page x i" for i
  proof -
    have "untouched s d zs i" using that i(2-4) m(2) unfolding untouched_def by auto
    then show ?thesis using m(6) i(6) that by metis
  qed
  have "child_inv s0 xs d s' ys' r"
    using m(2,3,5) g(4) i(2,3,5,7) t out unfolding child_inv_def by auto
  moreover have "accounted xs d s' ys' E" if ac: "accounted xs d s ys E" for E
    unfolding accounted_def
  proof
    fix x assume "x \<in> set xs"
    then consider "x = d \<or> x \<in> E" | "x \<in> set ys" | va where "x = table_of s d va" "has_table s d va"
      | va where "x = data_page s d va" "user_used s d va"
      using ac unfolding accounted_def by blast
    then show "x \<in> {d} \<union> set ys' \<union> {table_of s' d va | va. has_table s' d va} \<union> {data_page s' d va | va. user_used s' d va} \<union> E"
    proof cases
      case 2
      then show ?thesis using m(2) g(3) by auto
    next
      case 3
      then show ?thesis using g(2) by fastforce
    next
      case 4
      then have "pte_of s' d va = pte_of s d va" using m(4) free by (auto simp: user_used_def)
      then have "x = data_page s' d va" "user_used s' d va" using 4 by (simp_all add: user_used_def data_page_def)
      then show ?thesis by blast
    qed auto
  qed
  ultimately show ?thesis using m g(1) u by (intro exI [of _ s'] exI [of _ ys']) auto
qed

lemma entries_mem: "mem s = mem t \<Longrightarrow> has_table s dir va = has_table t dir va \<and> table_of s dir va = table_of t dir va
    \<and> pte_of s dir va = pte_of t dir va"
  by (simp add: has_table_def table_of_def pte_of_def pde_def pte_get_def)

subsection \<open>The kernel part\<close>

lemma fresh_directory:
  assumes fp: "free_pages s (d # ys)"
  defines "s1 \<equiv> s\<lparr>freelist := rd32 (mem s) (unat d), mem := memset (mem s) (unat d) 0 PGSIZE\<rparr>"
  shows "kalloc s = Ok (d, s\<lparr>freelist := rd32 (mem s) (unat d)\<rparr>)" "d \<noteq> 0" "pte_of s1 d va = 0"
    "1024 + r \<le> length ys \<Longrightarrow> child_inv s (d # ys) d s1 ys r"
proof -
  let ?s0 = "s\<lparr>freelist := rd32 (mem s) (unat d)\<rparr>"
  show "kalloc s = Ok (d, ?s0)" "d \<noteq> 0" using kalloc_cons(1) [OF fp] fp by (auto simp: free_pages_def)
  have al: "unat d mod PGSIZE = 0" and pd: "page_ok s d" "d \<notin> set ys" using fp by (auto simp: free_pages_def page_ok_def)
  have m: "mem s1 = fill_bytes (mem s) (unat d) PGSIZE 0" by (simp add: s1_def memset_eq_fill)
  have z: "mem s1 i = 0" if "in_page d i" for i using that by (simp add: m fill_bytes_def in_page_def)
  have out: "mem s1 i = mem s i" if "\<not> in_page d i" for i using that by (auto simp: m fill_bytes_def in_page_def)
  have pde: "pde s1 d vb = 0" for vb
  proof -
    have "rd32 (mem s1) (unat (pde_addr d vb)) = rd32 (\<lambda>_. 0) (unat (pde_addr d vb))"
    proof (rule rd32_cong)
      fix j assume "unat (pde_addr d vb) \<le> j" "j < unat (pde_addr d vb) + 4"
      then have "in_page d j" unfolding pde_addr_def by (rule in_page_slot [OF al PDX_lt])
      then show "mem s1 j = 0" by (rule z)
    qed
    then show ?thesis by (simp add: pde_def rd32_zero)
  qed
  have nt: "\<not> has_table s1 d vb" for vb by (simp add: has_table_def pde)
  show "pte_of s1 d va = 0" by (simp add: pte_of_def nt)
  have "free_pages (?s0\<lparr>mem := mem s1\<rparr>) ys"
  proof (rule free_pages_frame [OF kalloc_cons(2) [OF fp]])
    fix y i assume y: "y \<in> set ys" "in_page y i"
    then have "unat y mod PGSIZE = 0" "y \<noteq> d" using fp pd by (auto simp: free_pages_def page_ok_def)
    then have "\<not> in_page d i" using pages_apart [of y d i] y(2) al by simp
    then show "mem s1 i = mem ?s0 i" using out by simp
  qed
  then have f: "free_pages s1 ys" by (simp add: s1_def)
  have p1: "page_ok s1 = page_ok s" by (auto simp: page_ok_def s1_def fun_eq_iff)
  assume "1024 + r \<le> length ys"
  moreover have "card (absent s1 d) \<le> 1024" by (rule absent_le)
  moreover have "pgdir_ok s1 d ys" using f pd nt by (simp add: pgdir_ok_def p1)
  ultimately show "child_inv s (d # ys) d s1 ys r"
    using nt out unfolding child_inv_def by (auto simp: s1_def)
qed

text \<open>The addresses of a mapping of the kernel, and one mapping.\<close>

lemma kernel_range:
  fixes va len :: u32
  assumes "unat va = 4096 * a" "unat len = 4096 * n" "0 < n" "unat va + unat len \<le> 4294967296"
  shows "0 < len" "n = page_no (va + len - 1) - page_no va + 1" "page_no va = a"
proof -
  show l: "0 < len" using assms(2,3) by (simp add: word_less_nat_alt)
  have l1: "unat (len - 1) = 4096 * n - 1" using l assms(2) by (simp add: unat_sub word_le_nat_alt word_less_nat_alt)
  have "unat (va + (len - 1)) = 4096 * a + (4096 * n - 1)"
    unfolding l1 [symmetric] assms(1) [symmetric] by (rule unat_add_lt) (use l1 assms in simp)
  then have "unat (va + len - 1) = 4096 * a + (4096 * n - 1)" by (simp only: add_diff_eq)
  also have "\<dots> = 4096 * (a + (n - 1)) + 4095" using assms(3) by (simp add: algebra_simps)
  finally have "page_no (va + len - 1) = a + (n - 1)" by (simp add: page_no_def)
  moreover show "page_no va = a" using assms(1) by (simp add: page_no_def)
  ultimately show "n = page_no (va + len - 1) - page_no va + 1" using assms(3) by simp
qed

lemma kernel_mapping:
  assumes inv: "child_inv s0 xs d s ys r"
    and k: "unat va = 4096 * a" "unat len = 4096 * n" "0 < n" "a + n \<le> 1048576"
    and free: "\<And>vb. a \<le> page_no vb \<Longrightarrow> page_no vb < a + n \<Longrightarrow> pte_of s d vb = 0"
  shows "\<exists>s' ys'. mappages d va len pa perm s = Ok (0, s') \<and> child_inv s0 xs d s' ys' r
    \<and> (\<forall>vb. page_no vb < a \<or> a + n \<le> page_no vb \<longrightarrow> pte_of s' d vb = pte_of s d vb)
    \<and> (accounted xs d s ys {} \<longrightarrow> accounted xs d s' ys' {})"
proof -
  have le: "unat va + unat len \<le> 4294967296" using k by simp
  note kr = kernel_range [OF k(1-3) le]
  obtain s' ys' where "mappages d va len pa perm s = Ok (0, s')" "child_inv s0 xs d s' ys' r"
    "\<forall>vb. pte_of s' d vb = (if a \<le> page_no vb \<and> page_no vb < a + n
          then ((pa + 4096 * word_of_nat (page_no vb - a)) OR perm) OR PTE_P else pte_of s d vb)"
    "accounted xs d s ys {} \<longrightarrow> accounted xs d s' ys' {}"
    using child_map [OF inv kr(1) le kr(2), of pa perm] free unfolding kr(3) by auto
  then show ?thesis by (intro exI [of _ s'] exI [of _ ys']) auto
qed

lemma krn_kmem_simps [simp]:
  "kmem_of (set_kmem m s) = m" "set_kmem m (set_kmem m' s) = set_kmem m s" "kdata (set_kmem m s) = kdata s" "set_kmem (kmem_of s) s = s"
  by (simp_all add: kmem_of_def set_kmem_def)

definition kdata_ok :: "u32 \<Rightarrow> bool" where
  "kdata_ok d \<longleftrightarrow> unat d mod 4096 = 0 \<and> 0x80100000 < unat d \<and> unat d < 0x8E000000"

text \<open>The four mappings cover disjoint ranges above \<open>KERNBASE\<close>.\<close>

lemma setupkvm_ok:
  assumes fp: "free_pages (kmem_of s) (d # ys)" and room: "1024 + r \<le> length ys" and kd: "kdata_ok (kdata s)"
  shows "\<exists>m zs. setupkvm s = Ok (d, set_kmem m s) \<and> child_inv (kmem_of s) (d # ys) d m zs r
    \<and> (\<forall>va. unat va < 0x80000000 \<longrightarrow> pte_of m d va = 0) \<and> accounted (d # ys) d m zs {}"
proof -
  define m0 where "m0 = kmem_of s\<lparr>freelist := rd32 (mem (kmem_of s)) (unat d), mem := memset (mem (kmem_of s)) (unat d) 0 PGSIZE\<rparr>"
  note f = fresh_directory [OF fp, folded m0_def]
  have i0: "child_inv (kmem_of s) (d # ys) d m0 ys r" using f(4) room .
  define e where "e = page_no (kdata s)"
  have e: "unat (kdata s) = 4096 * e" "0x80100 < e" "e < 0x8E000"
    using kd unfolding kdata_ok_def e_def page_no_def by auto
  have l1: "unat KERNBASE = 4096 * 0x80000" "unat EXTMEM = 4096 * 0x100" "unat KERNLINK = 4096 * 0x80100"
    "unat DEVSPACE = 4096 * 0xFE000" "unat (- DEVSPACE) = 4096 * 0x2000"
    by (simp_all add: mmu_constants)
  have l2: "unat (V2P (kdata s) - V2P KERNLINK) = 4096 * (e - 0x80100)"
  proof -
    have "V2P (kdata s) - V2P KERNLINK = kdata s - KERNLINK" by (simp add: V2P_def)
    then show ?thesis using e by (simp add: unat_sub word_le_nat_alt mmu_constants)
  qed
  have l3: "unat (PHYSTOP - V2P (kdata s)) = 4096 * (0x8E000 - e)"
  proof -
    have "PHYSTOP - V2P (kdata s) = 0x8E000000 - kdata s" by (simp add: V2P_def mmu_constants)
    then show ?thesis using e by (simp add: unat_sub word_le_nat_alt)
  qed
  obtain m1 y1 where 1: "mappages d KERNBASE EXTMEM 0 PTE_W m0 = Ok (0, m1)" "child_inv (kmem_of s) (d # ys) d m1 y1 r"
    "\<forall>vb. page_no vb < 0x80000 \<or> 0x80000 + 0x100 \<le> page_no vb \<longrightarrow> pte_of m1 d vb = pte_of m0 d vb"
    "accounted (d # ys) d m0 ys {} \<longrightarrow> accounted (d # ys) d m1 y1 {}"
    using kernel_mapping [OF i0 l1(1,2) _ _ f(3)] by force
  obtain m2 y2 where 2: "mappages d KERNLINK (V2P (kdata s) - V2P KERNLINK) (V2P KERNLINK) 0 m1 = Ok (0, m2)"
    "child_inv (kmem_of s) (d # ys) d m2 y2 r"
    "\<forall>vb. page_no vb < 0x80100 \<or> 0x80100 + (e - 0x80100) \<le> page_no vb \<longrightarrow> pte_of m2 d vb = pte_of m1 d vb"
    "accounted (d # ys) d m1 y1 {} \<longrightarrow> accounted (d # ys) d m2 y2 {}"
    using kernel_mapping [OF 1(2) l1(3) l2, of "V2P KERNLINK" 0] f(3) 1(3) e by force
  obtain m3 y3 where 3: "mappages d (kdata s) (PHYSTOP - V2P (kdata s)) (V2P (kdata s)) PTE_W m2 = Ok (0, m3)"
    "child_inv (kmem_of s) (d # ys) d m3 y3 r"
    "\<forall>vb. page_no vb < e \<or> e + (0x8E000 - e) \<le> page_no vb \<longrightarrow> pte_of m3 d vb = pte_of m2 d vb"
    "accounted (d # ys) d m2 y2 {} \<longrightarrow> accounted (d # ys) d m3 y3 {}"
    using kernel_mapping [OF 2(2) e(1) l3, of "V2P (kdata s)" PTE_W] f(3) 1(3) 2(3) e by force
  obtain m4 y4 where 4: "mappages d DEVSPACE (- DEVSPACE) DEVSPACE PTE_W m3 = Ok (0, m4)"
    "child_inv (kmem_of s) (d # ys) d m4 y4 r"
    "\<forall>vb. page_no vb < 0xFE000 \<or> 0xFE000 + 0x2000 \<le> page_no vb \<longrightarrow> pte_of m4 d vb = pte_of m3 d vb"
    "accounted (d # ys) d m3 y3 {} \<longrightarrow> accounted (d # ys) d m4 y4 {}"
    using kernel_mapping [OF 3(2) l1(4,5), of DEVSPACE PTE_W] f(3) 1(3) 2(3) 3(3) e by force
  have dev: "\<not> DEVSPACE < P2V PHYSTOP" by (simp add: mmu_constants P2V_def)
  have run: "setupkvm s = Ok (d, set_kmem m4 s)"
    using f(2) 1(1) 2(1) 3(1) 4(1) dev
    by (simp add: setupkvm_def in_kmem_def f(1) Let_def panic_if_def kmap_def m0_def [symmetric])
  have "pte_of m4 d va = 0" if "unat va < 0x80000000" for va
  proof -
    have "page_no va < 0x80000" using that by (simp add: page_no_def less_mult_imp_div_less)
    then show ?thesis using 1(3) 2(3) 3(3) 4(3) f(3) e by simp
  qed
  moreover have "accounted (d # ys) d m0 ys {}" by (auto simp: accounted_def)
  then have "accounted (d # ys) d m4 y4 {}" using 1(4) 2(4) 3(4) 4(4) by blast
  ultimately show ?thesis using run 4(2) by blast
qed


subsection \<open>Copying the pages\<close>

lemma child_outside:
  assumes inv: "child_inv s0 xs d s ys r" and fp: "free_pages s0 xs" and p: "unat p mod PGSIZE = 0" "p \<notin> set xs" "in_page p i"
  shows "mem s i = mem s0 i"
proof -
  have "\<not> in_page x i" if "x \<in> set xs" for x
  proof -
    have "unat x mod PGSIZE = 0" "p \<noteq> x" using fp that p(2) by (auto simp: free_pages_def page_ok_def)
    then show ?thesis using pages_apart [OF p(1), of x i] p(3) by simp
  qed
  then show ?thesis using inv unfolding child_inv_def by blast
qed

lemma parent_kept:
  assumes inv: "child_inv s0 xs d s ys r" and ok: "pgdir_ok s0 dir xs"
  shows "has_table s dir va = has_table s0 dir va" "table_of s dir va = table_of s0 dir va" "pte_of s dir va = pte_of s0 dir va"
proof -
  have fp: "free_pages s0 xs" and dir: "dir \<notin> set xs"
    and tab: "\<And>vb. has_table s0 dir vb \<Longrightarrow> table_of s0 dir vb \<notin> set xs"
    using ok by (auto simp: pgdir_ok_def)
  note k = entries_kept [OF ok, of "mem s"]
  have o1: "mem s i = mem s0 i" if "in_page dir i" for i
    using child_outside [OF inv fp dir_ok_aligned [OF ok] dir that] .
  have o2: "mem s i = mem s0 i" if "has_table s0 dir vb" "in_page (table_of s0 dir vb) i" for vb i
    using child_outside [OF inv fp table_aligned [OF ok that(1)] tab [OF that(1)] that(2)] .
  have e: "mem (s0\<lparr>mem := mem s\<rparr>) = mem s" by simp
  show "has_table s dir va = has_table s0 dir va" "table_of s dir va = table_of s0 dir va" "pte_of s dir va = pte_of s0 dir va"
    using k [OF o1 o2] entries_mem [OF e, of dir va] by auto
qed

lemma child_take:
  assumes inv: "child_inv s0 xs d s ys (Suc r)"
  shows "\<exists>m zs. ys = m # zs \<and> kalloc s = Ok (m, s\<lparr>freelist := rd32 (mem s) (unat m)\<rparr>) \<and> m \<noteq> 0
    \<and> child_inv s0 xs d (s\<lparr>freelist := rd32 (mem s) (unat m)\<rparr>) zs r
    \<and> m \<in> set xs \<and> m \<notin> set zs \<and> m \<noteq> d \<and> (\<forall>va. has_table s d va \<longrightarrow> table_of s d va \<noteq> m)"
proof -
  have i: "pgdir_ok s d ys" "set ys \<subseteq> set xs" "d \<in> set xs" "\<forall>va. has_table s d va \<longrightarrow> table_of s d va \<in> set xs"
    "kend s = kend s0" "\<forall>i. (\<forall>x \<in> set xs. \<not> in_page x i) \<longrightarrow> mem s i = mem s0 i" "card (absent s d) + Suc r \<le> length ys"
    using inv unfolding child_inv_def by blast+
  obtain m zs where ys: "ys = m # zs" using i(7) by (cases ys) auto
  have fp: "free_pages s (m # zs)" using i(1) ys by (simp add: pgdir_ok_def)
  let ?s = "s\<lparr>freelist := rd32 (mem s) (unat m)\<rparr>"
  have e: "has_table ?s d va = has_table s d va" "table_of ?s d va = table_of s d va" for va
    using entries_mem [of ?s s d va] by auto
  have p: "page_ok ?s = page_ok s" by (auto simp: page_ok_def fun_eq_iff)
  have ok: "pgdir_ok ?s d zs"
    unfolding pgdir_ok_def e p
  proof (intro conjI)
    show "free_pages ?s zs" by (fact kalloc_cons(2) [OF fp])
    show "page_ok s d" "d \<notin> set zs" using i(1) ys by (auto simp: pgdir_ok_def)
    show "\<forall>va. has_table s d va \<longrightarrow> page_ok s (table_of s d va) \<and> table_of s d va \<notin> set zs \<and> table_of s d va \<noteq> d"
      using i(1) unfolding pgdir_ok_def ys by (metis list.set_intros(2))
    show "\<forall>va vb. has_table s d va \<longrightarrow> has_table s d vb \<longrightarrow> table_of s d va = table_of s d vb \<longrightarrow> PDX va = PDX vb"
      using i(1) unfolding pgdir_ok_def by metis
  qed
  have a: "absent ?s d = absent s d" by (simp add: absent_def e)
  have "child_inv s0 xs d ?s zs r"
    using ok i(2-7) ys unfolding child_inv_def e a by auto
  moreover have "m \<notin> set zs" "m \<noteq> 0" using fp by (auto simp: free_pages_def)
  moreover have "m \<noteq> d" "\<forall>va. has_table s d va \<longrightarrow> table_of s d va \<noteq> m" using i(1) ys by (auto simp: pgdir_ok_def)
  ultimately show ?thesis using ys kalloc_cons(1) [OF fp] i(2) by auto
qed

lemma child_page_write:
  assumes inv: "child_inv s0 xs d s ys r" and p: "p \<in> set xs" "p \<notin> set ys" "p \<noteq> d" "\<forall>va. has_table s d va \<longrightarrow> table_of s d va \<noteq> p"
    and al: "unat p mod PGSIZE = 0" and m: "\<And>i. \<not> in_page p i \<Longrightarrow> m i = mem s i"
  defines "t \<equiv> s\<lparr>mem := m\<rparr>"
  shows "child_inv s0 xs d t ys r" "has_table t d va = has_table s d va" "table_of t d va = table_of s d va" "pte_of t d va = pte_of s d va"
proof -
  have ok: "pgdir_ok s d ys" using inv by (simp add: child_inv_def)
  have o1: "m i = mem s i" if "in_page d i" for i
    using m pages_apart [OF dir_ok_aligned [OF ok] al p(3) [symmetric] that] by simp
  have o2: "m i = mem s i" if h: "has_table s d vb" "in_page (table_of s d vb) i" for vb i
  proof -
    have "table_of s d vb \<noteq> p" using p(4) h(1) by blast
    from pages_apart [OF table_aligned [OF ok h(1)] al this h(2)] show ?thesis by (rule m)
  qed
  note k = entries_kept [OF ok o1 o2, folded t_def]
  show e: "has_table t d va = has_table s d va" "table_of t d va = table_of s d va" "pte_of t d va = pte_of s d va" for va
    using k by auto
  have fp: "free_pages s ys" using ok by (simp add: pgdir_ok_def)
  have "free_pages t ys"
    unfolding t_def
  proof (rule free_pages_frame [OF fp])
    fix x i assume x: "x \<in> set ys" "in_page x i"
    then have "unat x mod PGSIZE = 0" "x \<noteq> p" using fp p(2) by (auto simp: free_pages_def page_ok_def)
    then have "\<not> in_page p i" using pages_apart [of x p i] x(2) al by simp
    then show "m i = mem s i" by (rule m)
  qed
  moreover have "page_ok t = page_ok s" by (auto simp: page_ok_def t_def fun_eq_iff)
  ultimately have ok': "pgdir_ok t d ys" using ok unfolding pgdir_ok_def e by metis
  have a: "absent t d = absent s d" by (simp add: absent_def e)
  show "child_inv s0 xs d t ys r"
    using inv ok' p(1) m unfolding child_inv_def e a by (auto simp: t_def)
qed


definition parent_ok :: "kmem \<Rightarrow> u32 \<Rightarrow> u32 list \<Rightarrow> nat \<Rightarrow> bool" where
  "parent_ok s dir xs n \<longleftrightarrow> pgdir_ok s dir xs \<and> (\<forall>va. page_no va < n \<longrightarrow>
     pte_of s dir va AND PTE_P \<noteq> 0 \<and> pte_of s dir va AND PTE_PG = 0 \<and> data_page s dir va \<notin> set xs)"

definition page_copied :: "kmem \<Rightarrow> u32 \<Rightarrow> u32 list \<Rightarrow> u32 \<Rightarrow> kmem \<Rightarrow> u32 list \<Rightarrow> u32 \<Rightarrow> bool" where
  "page_copied s0 dir xs d s ys va \<longleftrightarrow>
     PTE_FLAGS (pte_of s d va) = PTE_FLAGS (pte_of s0 dir va)
     \<and> data_page s d va \<in> set xs \<and> data_page s d va \<notin> set ys \<and> data_page s d va \<noteq> d
     \<and> (\<forall>vb. has_table s d vb \<longrightarrow> table_of s d vb \<noteq> data_page s d va)
     \<and> (\<forall>j < 4096. mem s (unat (data_page s d va) + j) = mem s0 (unat (data_page s0 dir va) + j))"

definition copied_upto :: "kmem \<Rightarrow> u32 \<Rightarrow> u32 list \<Rightarrow> u32 \<Rightarrow> kmem \<Rightarrow> u32 list \<Rightarrow> nat \<Rightarrow> bool" where
  "copied_upto s0 dir xs d s ys k \<longleftrightarrow>
     (\<forall>va. page_no va < k \<longrightarrow> page_copied s0 dir xs d s ys va)
     \<and> (\<forall>va vb. page_no va < k \<longrightarrow> page_no vb < k \<longrightarrow> data_page s d va = data_page s d vb \<longrightarrow> page_no va = page_no vb)
     \<and> (\<forall>va. k \<le> page_no va \<longrightarrow> page_no va < 0x80000 \<longrightarrow> pte_of s d va = 0)
     \<and> accounted xs d s ys {}"

lemma flags_keep:
  fixes e :: u32
  assumes "e AND PTE_P \<noteq> 0"
  shows "PTE_FLAGS e OR PTE_P = PTE_FLAGS e" "PTE_FLAGS e AND NOT 0xFFF = 0"
proof -
  have "bit e 0"
  proof (rule ccontr)
    assume n: "\<not> bit e 0"
    have "e AND PTE_P = 0"
    proof (rule bit_word_eqI)
      fix i show "bit (e AND PTE_P) i = bit 0 i" using n by (cases i) (auto simp: PTE_P_def bit_simps)
    qed
    then show False using assms by simp
  qed
  then have b: "bit (PTE_FLAGS e) 0" by (simp add: PTE_FLAGS_def bit_simps)
  show "PTE_FLAGS e OR PTE_P = PTE_FLAGS e"
  proof (rule bit_word_eqI)
    fix i show "bit (PTE_FLAGS e OR PTE_P) i = bit (PTE_FLAGS e) i" using b by (cases i) (auto simp: PTE_P_def bit_simps)
  qed
  show "PTE_FLAGS e AND NOT 0xFFF = 0" by (simp add: PTE_FLAGS_def and.assoc)
qed

text \<open>One page: a fresh frame, its bytes, its entry.\<close>

lemma copy_page:
  assumes inv: "child_inv s0 xs d s ys (Suc r)" and par: "parent_ok s0 dir xs n" and cp: "copied_upto s0 dir xs d s ys k"
    and k: "k < n" "n \<le> 0x80000" "unat i = 4096 * k"
  defines "e \<equiv> pte_of s0 dir i"
  shows "\<exists>m s1 s3 zs. kalloc s = Ok (m, s1) \<and> m \<noteq> 0
    \<and> mappages d i 4096 (V2P m) (PTE_FLAGS e) (s1\<lparr>mem := memmove (mem s1) (unat m) (unat (P2V (PTE_ADDR e))) PGSIZE\<rparr>) = Ok (0, s3)
    \<and> child_inv s0 xs d s3 zs r \<and> copied_upto s0 dir xs d s3 zs (Suc k)"
proof -
  have pk: "page_no i = k" using k(3) by (simp add: page_no_def)
  have pok: "pgdir_ok s0 dir xs" using par by (simp add: parent_ok_def)
  then have fp: "free_pages s0 xs" by (simp add: pgdir_ok_def)
  have "page_no i < n" using k(1) pk by simp
  then have pe: "e AND PTE_P \<noteq> 0" "data_page s0 dir i \<notin> set xs" using par by (simp_all add: parent_ok_def e_def)
  obtain m zs where t: "ys = m # zs" "kalloc s = Ok (m, s\<lparr>freelist := rd32 (mem s) (unat m)\<rparr>)" "m \<noteq> 0"
    "child_inv s0 xs d (s\<lparr>freelist := rd32 (mem s) (unat m)\<rparr>) zs r" "m \<in> set xs" "m \<notin> set zs" "m \<noteq> d"
    "\<forall>va. has_table s d va \<longrightarrow> table_of s d va \<noteq> m"
    using child_take [OF inv] by blast
  define s1 where "s1 = s\<lparr>freelist := rd32 (mem s) (unat m)\<rparr>"
  define s2 where "s2 = s1\<lparr>mem := memmove (mem s1) (unat m) (unat (P2V (PTE_ADDR e))) PGSIZE\<rparr>"
  have e1: "has_table s1 d va = has_table s d va" "table_of s1 d va = table_of s d va" "pte_of s1 d va = pte_of s d va" for va
    using entries_mem [of s1 s d va] by (auto simp: s1_def)
  have al: "unat m mod PGSIZE = 0" using fp t(5) by (auto simp: free_pages_def page_ok_def)
  have m2: "mem s2 j = (if in_page m j then mem s (unat (data_page s0 dir i) + (j - unat m)) else mem s j)" for j
    by (simp add: s2_def s1_def memmove_eq_copied copied_def in_page_def data_page_def e_def)
  have out2: "memmove (mem s1) (unat m) (unat (P2V (PTE_ADDR e))) PGSIZE j = mem s1 j" if "\<not> in_page m j" for j
    using that by (auto simp: memmove_eq_copied copied_def in_page_def)
  have nt1: "\<forall>va. has_table s1 d va \<longrightarrow> table_of s1 d va \<noteq> m" using t(8) by (simp add: e1)
  note w = child_page_write [OF t(4) [folded s1_def] t(5-7) nt1 al out2, folded s2_def]
  have e2: "has_table s2 d va = has_table s d va" "table_of s2 d va = table_of s d va" "pte_of s2 d va = pte_of s d va" for va
    using w(2-4) e1 by auto
  have kr: "0 < (4096 :: u32)" "1 = page_no (i + 4096 - 1) - page_no i + 1" "unat i + unat (4096 :: u32) \<le> 4294967296"
    using kernel_range [of i k 4096 1] k by auto
  have free: "\<forall>vb. page_no i \<le> page_no vb \<and> page_no vb < page_no i + 1 \<longrightarrow> pte_of s2 d vb AND PTE_P = 0"
    using cp k pk unfolding copied_upto_def e2 by auto
  obtain s3 us where m3: "mappages d i 4096 (V2P m) (PTE_FLAGS e) s2 = Ok (0, s3)" "child_inv s0 xs d s3 us r" "set us \<subseteq> set zs"
    "\<forall>vb. pte_of s3 d vb = (if page_no i \<le> page_no vb \<and> page_no vb < page_no i + 1
          then ((V2P m + 4096 * word_of_nat (page_no vb - page_no i)) OR PTE_FLAGS e) OR PTE_P else pte_of s2 d vb)"
    "\<forall>j. untouched s2 d zs j \<longrightarrow> mem s3 j = mem s2 j"
    "\<forall>vb. has_table s3 d vb \<longrightarrow> has_table s2 d vb \<and> table_of s3 d vb = table_of s2 d vb \<or> table_of s3 d vb \<in> set zs"
    "\<forall>E. accounted xs d s2 zs E \<longrightarrow> accounted xs d s3 us E"
    using child_map [OF w(1) kr(1,3,2) free, of "V2P m" "PTE_FLAGS e"] by blast
  have ent: "pte_of s3 d vb = (if page_no vb = k then V2P m OR PTE_FLAGS e else pte_of s d vb)" for vb
    using m3(4) pk e2(3) flags_keep(1) [OF pe(1)] by (auto simp: or.assoc)
  have "PTE_FLAGS e AND NOT (mask 12) = 0" using flags_keep(2) [OF pe(1)] by (simp only: mask_numerals)
  note pf = page_or_flags [OF V2P_aligned [OF al] this]
  have dp: "data_page s3 d vb = (if page_no vb = k then m else data_page s d vb)"
    "PTE_FLAGS (pte_of s3 d vb) = (if page_no vb = k then PTE_FLAGS e else PTE_FLAGS (pte_of s d vb))" for vb
    using pf by (simp_all add: data_page_def ent P2V_def V2P_def)
  have zs: "\<forall>z \<in> set zs. unat z mod PGSIZE = 0 \<and> z \<noteq> m" using w(1) t(6) by (auto simp: child_inv_def pgdir_ok_def free_pages_def page_ok_def)
  have dok: "pgdir_ok s2 d zs" using w(1) by (simp add: child_inv_def)
  have keep: "mem s3 j = mem s2 j" if q: "unat q mod PGSIZE = 0" "q \<noteq> d" "q \<notin> set zs" "\<forall>vb. has_table s d vb \<longrightarrow> table_of s d vb \<noteq> q" "in_page q j" for q j
  proof -
    have "untouched s2 d zs j"
      unfolding untouched_def
    proof (intro conjI ballI allI impI)
      show "\<not> in_page d j" using pages_apart [OF q(1) dir_ok_aligned [OF dok] q(2,5)] .
      show "\<not> in_page z j" if "z \<in> set zs" for z
        using pages_apart [of q z j] q zs that by metis
      show "\<not> in_page (table_of s2 d va) j" if "has_table s2 d va" for va
        using pages_apart [OF q(1) table_aligned [OF dok that] _ q(5)] q(4) that e2 by metis
    qed
    then show ?thesis using m3(5) by blast
  qed
  have tab3: "table_of s3 d vb \<noteq> q" if "has_table s3 d vb" "q \<notin> set zs" "\<forall>vb. has_table s d vb \<longrightarrow> table_of s d vb \<noteq> q" for vb q
    using m3(6) that e2 by metis
  have new: "page_copied s0 dir xs d s3 us vb" if "page_no vb = k" for vb
  proof -
    have v: "data_page s0 dir vb = data_page s0 dir i" "pte_of s0 dir vb = e"
      using user_same_page [of vb i s0 dir] that pk by (simp_all add: data_page_def e_def)
    have "mem s3 (unat m + j) = mem s0 (unat (data_page s0 dir i) + j)" if "j < 4096" for j
    proof -
      have ip: "in_page m (unat m + j)" "in_page (data_page s0 dir i) (unat (data_page s0 dir i) + j)"
        using that by (simp_all add: in_page_def PGSIZE_def)
      have "mem s3 (unat m + j) = mem s2 (unat m + j)" using keep [OF al t(7,6,8) ip(1)] .
      also have "\<dots> = mem s (unat (data_page s0 dir i) + j)" using m2 ip(1) by simp
      also have "\<dots> = mem s0 (unat (data_page s0 dir i) + j)"
        using child_outside [OF inv fp data_aligned pe(2) ip(2)] .
      finally show ?thesis .
    qed
    then show ?thesis
      using that t(5-8) m3(3) tab3 unfolding page_copied_def dp v by auto
  qed
  have old: "page_copied s0 dir xs d s3 us vb" if "page_no vb < k" for vb
  proof -
    have c: "page_copied s0 dir xs d s ys vb" using cp that by (simp add: copied_upto_def)
    let ?q = "data_page s d vb"
    have q: "?q \<in> set xs" "?q \<notin> set zs" "?q \<noteq> m" "?q \<noteq> d" "\<forall>vb. has_table s d vb \<longrightarrow> table_of s d vb \<noteq> ?q"
      using c t(1) by (auto simp: page_copied_def)
    have "mem s3 (unat ?q + j) = mem s (unat ?q + j)" if "j < 4096" for j
    proof -
      have ip: "in_page ?q (unat ?q + j)" using that by (simp add: in_page_def PGSIZE_def)
      then have "\<not> in_page m (unat ?q + j)" using pages_apart [OF data_aligned al q(3)] by blast
      then show ?thesis using keep [OF data_aligned q(4,2,5) ip] m2 by simp
    qed
    then show ?thesis
      using c that q m3(3) tab3 unfolding page_copied_def dp by auto
  qed
  have "copied_upto s0 dir xs d s3 us (Suc k)"
    unfolding copied_upto_def
  proof (intro conjI allI impI)
    fix va assume "page_no va < Suc k"
    then show "page_copied s0 dir xs d s3 us va" using old new by (metis less_antisym)
  next
    fix va vb assume a: "page_no va < Suc k" "page_no vb < Suc k" "data_page s3 d va = data_page s3 d vb"
    have ne: "data_page s d vc \<noteq> m" if "page_no vc < k" for vc
      using cp that t(1) by (auto simp: copied_upto_def page_copied_def)
    show "page_no va = page_no vb"
      using a ne cp unfolding dp copied_upto_def by (metis less_antisym)
  next
    fix va assume "Suc k \<le> page_no va" "page_no va < 0x80000"
    then show "pte_of s3 d va = 0" using cp unfolding ent copied_upto_def by simp
  next
    have "accounted xs d s (m # zs) {}" using cp t(1) by (simp add: copied_upto_def)
    then have "accounted xs d s2 zs {m}" by (rule accounted_same) (use e2 in auto)
    then have "accounted xs d s3 us {m}" using m3(7) by blast
    moreover have "user_used s3 d i" "data_page s3 d i = m"
    proof -
      have "pte_of s3 d i = (V2P m OR PTE_FLAGS e) OR PTE_P"
        using ent [of i] flags_keep(1) [OF pe(1)] pk by (simp add: or.assoc)
      then have "pte_of s3 d i AND PTE_P \<noteq> 0" using flags_present by simp
      then show "user_used s3 d i" using pk k by (simp add: user_used_def)
      show "data_page s3 d i = m" using dp pk by simp
    qed
    ultimately show "accounted xs d s3 us {}" unfolding accounted_def by blast
  qed
  then show ?thesis using t(2,3) m3(1,2) unfolding s2_def s1_def by blast
qed


text \<open>A round of the loop: the entry it finds, the page it takes and the mapping it makes.\<close>

lemma copy_round:
  fixes k :: nat
  defines "i \<equiv> word_of_nat (4096 * k) :: u32"
  assumes par: "parent_ok s0 dir xs n" and n: "\<forall>k < n. 4096 * k < unat len" "n \<le> 0x80000"
    and inv: "child_inv s0 xs d s ys (Suc r)" and cp: "copied_upto s0 dir xs d s ys k" and k: "k < n"
  shows "\<exists>q e m s1 s3 zs. i < len \<and> walkpgdir dir i False s = Ok (q, s) \<and> q \<noteq> 0 \<and> pte_get q s = e
    \<and> e AND PTE_P \<noteq> 0 \<and> e AND PTE_PG = 0 \<and> kalloc s = Ok (m, s1) \<and> m \<noteq> 0
    \<and> mappages d i 4096 (V2P m) (PTE_FLAGS e) (s1\<lparr>mem := memmove (mem s1) (unat m) (unat (P2V (PTE_ADDR e))) PGSIZE\<rparr>) = Ok (0, s3)
    \<and> i + 4096 = word_of_nat (4096 * Suc k) \<and> child_inv s0 xs d s3 zs r \<and> copied_upto s0 dir xs d s3 zs (Suc k)"
proof -
  have ui: "unat i = 4096 * k" using k n(2) unfolding i_def by (intro unat_of_nat_lt) simp
  have lt: "i < len" using n(1) k unfolding word_less_nat_alt ui by blast
  have pk: "page_no i = k" unfolding page_no_def ui by simp
  have pok: "pgdir_ok s0 dir xs" using par by (simp add: parent_ok_def)
  define e where "e = pte_of s0 dir i"
  have pe: "e AND PTE_P \<noteq> 0" "e AND PTE_PG = 0" using par k pk by (simp_all add: parent_ok_def e_def)
  note kept = parent_kept [OF inv pok, of i]
  have h0: "has_table s0 dir i"
  proof (rule ccontr)
    assume "\<not> has_table s0 dir i"
    then have "e = 0" unfolding e_def pte_of_def by (rule if_not_P)
    then show False using pe(1) by simp
  qed
  then have h: "has_table s dir i" using kept(1) by simp
  let ?q = "table_of s dir i + 4 * PTX i"
  have w: "walkpgdir dir i False s = Ok (?q, s)" using walk_present [OF h] .
  have nz: "?q \<noteq> 0" unfolding kept(2) by (rule slot_nonzero [OF pok h0])
  have gt: "pte_get ?q s = e" using h kept(3) unfolding e_def by (simp add: pte_of_def)
  have step: "i + 4096 = word_of_nat (4096 * Suc k)" by (simp add: i_def algebra_simps)
  from copy_page [OF inv par cp k n(2) ui] show ?thesis
    using lt w nz gt pe step unfolding e_def by blast
qed

text \<open>Up to \<open>n\<close> pages that are in memory are copied, and the loop goes on behind them.\<close>

lemma copyuvm_loop_ok:
  assumes par: "parent_ok s0 dir xs n" and n: "\<forall>k < n. 4096 * k < unat len" "n \<le> 0x80000"
  shows "child_inv s0 xs d (kmem_of s) ys (g + r) \<Longrightarrow> copied_upto s0 dir xs d (kmem_of s) ys k \<Longrightarrow> k + g = n \<Longrightarrow>
    \<exists>m zs. copyuvm_loop (g + f) dir d len (word_of_nat (4096 * k)) s
        = copyuvm_loop f dir d len (word_of_nat (4096 * n)) (set_kmem m s)
      \<and> child_inv s0 xs d m zs r \<and> copied_upto s0 dir xs d m zs n"
proof (induction g arbitrary: s ys k)
  case 0
  then show ?case by (intro exI [of _ "kmem_of s"] exI [of _ ys]) simp
next
  case (Suc g)
  let ?i = "word_of_nat (4096 * k) :: u32"
  have inv: "child_inv s0 xs d (kmem_of s) ys (Suc (g + r))" "k < n" using Suc.prems(1,3) by simp_all
  obtain q e m s1 s3 zs where c: "?i < len" "walkpgdir dir ?i False (kmem_of s) = Ok (q, kmem_of s)" "q \<noteq> 0"
    "pte_get q (kmem_of s) = e" "e AND PTE_P \<noteq> 0" "e AND PTE_PG = 0" "kalloc (kmem_of s) = Ok (m, s1)" "m \<noteq> 0"
    "mappages d ?i 4096 (V2P m) (PTE_FLAGS e) (s1\<lparr>mem := memmove (mem s1) (unat m) (unat (P2V (PTE_ADDR e))) PGSIZE\<rparr>) = Ok (0, s3)"
    "?i + 4096 = word_of_nat (4096 * Suc k)" "child_inv s0 xs d s3 zs (g + r)" "copied_upto s0 dir xs d s3 zs (Suc k)"
    using copy_round [OF par n inv(1) Suc.prems(2) inv(2)] by blast
  let ?s = "set_kmem s3 s"
  obtain m' zs' where r: "copyuvm_loop (g + f) dir d len (word_of_nat (4096 * Suc k)) ?s
      = copyuvm_loop f dir d len (word_of_nat (4096 * n)) (set_kmem m' ?s)"
    "child_inv s0 xs d m' zs' r" "copied_upto s0 dir xs d m' zs' n"
    using Suc.IH [of ?s zs "Suc k"] c(11,12) Suc.prems(3) by auto
  have "copyuvm_loop (Suc g + f) dir d len ?i s = copyuvm_loop f dir d len (word_of_nat (4096 * n)) (set_kmem m' s)"
    using c(1-9) r(1) unfolding c(10) [symmetric] by (simp add: in_kmem_def panic_if_def Let_def)
  then show ?case using r(2,3) by blast
qed

text \<open>\<open>copyuvm\<close> when every page is in memory.\<close>

lemma copyuvm_ok:
  assumes par: "pgdir_ok (kmem_of s) dir (d # xs)" and len: "len \<le> 0x80000000" and kd: "kdata_ok (kdata s)"
    and pages: "\<forall>va. page_no va < n \<longrightarrow> pte_of (kmem_of s) dir va AND PTE_P \<noteq> 0 \<and> pte_of (kmem_of s) dir va AND PTE_PG = 0
      \<and> data_page (kmem_of s) dir va \<notin> set (d # xs)"
    and n: "n = (unat len + 4095) div 4096" and room: "1024 + n \<le> length xs"
  shows "\<exists>m zs. copyuvm dir len s = Ok (d, set_kmem m s)
    \<and> child_inv (kmem_of s) (d # xs) d m zs 0 \<and> copied_upto (kmem_of s) dir (d # xs) d m zs n"
proof -
  let ?s0 = "kmem_of s"
  have p: "parent_ok ?s0 dir (d # xs) n" using par pages unfolding parent_ok_def by blast
  have fp: "free_pages ?s0 (d # xs)" using par by (simp add: pgdir_ok_def)
  have nb: "n \<le> 0x80000" using len unfolding n word_le_nat_alt by simp
  obtain m0 ys where k: "setupkvm s = Ok (d, set_kmem m0 s)" "child_inv ?s0 (d # xs) d m0 ys n"
    "\<forall>va. unat va < 0x80000000 \<longrightarrow> pte_of m0 d va = 0" "accounted (d # xs) d m0 ys {}"
    using setupkvm_ok [OF fp room kd] by blast
  have c0: "copied_upto ?s0 dir (d # xs) d m0 ys 0"
    using k(3,4) by (auto simp: copied_upto_def page_no_def less_mult_imp_div_less)
  have lt: "\<forall>k < n. 4096 * k < unat len" unfolding n by auto
  define f where "f = Suc (unat len div PGSIZE) - n"
  have f: "Suc (unat len div PGSIZE) = n + f" unfolding f_def n PGSIZE_def by simp
  obtain m zs where r: "copyuvm_loop (n + f) dir d len 0 (set_kmem m0 s) = copyuvm_loop f dir d len (word_of_nat (4096 * n)) (set_kmem m s)"
    "child_inv ?s0 (d # xs) d m zs 0" "copied_upto ?s0 dir (d # xs) d m zs n"
    using copyuvm_loop_ok [OF p lt nb, of d "set_kmem m0 s" ys n 0 0 f] k(2) c0 by auto
  have "\<not> (word_of_nat (4096 * n) :: u32) < len"
  proof -
    have "unat (word_of_nat (4096 * n) :: u32) = 4096 * n" using nb by (intro unat_of_nat_lt) simp
    then show ?thesis unfolding word_less_nat_alt n by simp
  qed
  then have stop: "copyuvm_loop f dir d len (word_of_nat (4096 * n)) (set_kmem m s) = Ok (d, set_kmem m s)" by (cases f) simp_all
  have d0: "d \<noteq> 0" using fp by (auto simp: free_pages_def)
  have run: "copyuvm dir len s = Ok (d, set_kmem m s)"
    using r(1) k(1) d0 stop unfolding copyuvm_def f by simp
  show ?thesis using run r(2,3) by blast
qed

text \<open>
  C8. \<open>copyuvm\<close> gives the child of a fork its own copy of the memory of its parent.  If every page of the
  parent below \<open>len\<close> is in memory and there are pages enough, it returns a new page directory: every address
  below \<open>len\<close> is mapped in the child with the flags it has in the parent, to a frame taken from the free
  list, different pages to different frames, and the child reads there the bytes the parent has.  The user
  part of the child above \<open>len\<close> is unmapped, its page tables are well formed, and outside the frames taken
  from the free list no byte has changed, so the parent keeps its memory and its page tables.
\<close>

theorem copyuvm_copies:
  assumes par: "pgdir_ok (kmem_of s) dir (d # xs)" and len: "len \<le> 0x80000000" and kd: "kdata_ok (kdata s)"
    and pages: "\<forall>va. page_no va < n \<longrightarrow> pte_of (kmem_of s) dir va AND PTE_P \<noteq> 0 \<and> pte_of (kmem_of s) dir va AND PTE_PG = 0
      \<and> data_page (kmem_of s) dir va \<notin> set (d # xs)"
    and n: "n = (unat len + 4095) div 4096" and room: "1024 + n \<le> length xs"
  shows "\<exists>m ys. copyuvm dir len s = Ok (d, set_kmem m s) \<and> pgdir_ok m d ys \<and> set ys \<subseteq> set xs
    \<and> (\<forall>va. page_no va < n \<longrightarrow> PTE_FLAGS (pte_of m d va) = PTE_FLAGS (pte_of (kmem_of s) dir va)
        \<and> data_page m d va \<in> set xs - set ys \<and> mem m (upos m d va) = mem (kmem_of s) (upos (kmem_of s) dir va))
    \<and> (\<forall>va vb. page_no va < n \<longrightarrow> page_no vb < n \<longrightarrow> data_page m d va = data_page m d vb \<longrightarrow> page_no va = page_no vb)
    \<and> (\<forall>va. n \<le> page_no va \<longrightarrow> va < 0x80000000 \<longrightarrow> pte_of m d va = 0)
    \<and> (\<forall>va. pte_of m dir va = pte_of (kmem_of s) dir va)
    \<and> (\<forall>i. (\<forall>x \<in> set (d # xs). \<not> in_page x i) \<longrightarrow> mem m i = mem (kmem_of s) i)"
proof -
  let ?s0 = "kmem_of s"
  obtain m zs where run: "copyuvm dir len s = Ok (d, set_kmem m s)"
    and r: "child_inv ?s0 (d # xs) d m zs 0" "copied_upto ?s0 dir (d # xs) d m zs n"
    using copyuvm_ok [OF par len kd pages n room] by blast
  have i: "pgdir_ok m d zs" "set zs \<subseteq> set (d # xs)" "\<forall>i. (\<forall>x \<in> set (d # xs). \<not> in_page x i) \<longrightarrow> mem m i = mem ?s0 i"
    using r(1) unfolding child_inv_def by blast+
  have zs: "set zs \<subseteq> set xs" using i(1,2) by (auto simp: pgdir_ok_def)
  have pg: "PTE_FLAGS (pte_of m d va) = PTE_FLAGS (pte_of ?s0 dir va)
      \<and> data_page m d va \<in> set xs - set zs \<and> mem m (upos m d va) = mem ?s0 (upos ?s0 dir va)" if "page_no va < n" for va
  proof -
    have "page_copied ?s0 dir (d # xs) d m zs va" using r(2) that by (simp add: copied_upto_def)
    then show ?thesis unfolding page_copied_def upos_def by auto
  qed
  have inj: "\<forall>va vb. page_no va < n \<longrightarrow> page_no vb < n \<longrightarrow> data_page m d va = data_page m d vb \<longrightarrow> page_no va = page_no vb"
    using r(2) unfolding copied_upto_def by blast
  have high: "pte_of m d va = 0" if "n \<le> page_no va" "va < 0x80000000" for va
  proof -
    have "page_no va < 0x80000" using that(2) by (simp add: page_no_def less_mult_imp_div_less word_less_nat_alt)
    then show ?thesis using r(2) that(1) by (simp add: copied_upto_def)
  qed
  have "pte_of m dir va = pte_of ?s0 dir va" for va using parent_kept(3) [OF r(1) par] .
  then show ?thesis using run i(1,3) zs pg inj high by (intro exI [of _ m] exI [of _ zs]) simp
qed


text \<open>
  C33. \<open>fork\<close> of a process with a page in the swap file panics.  Taking a page out of memory clears the present
  bit of its entry, and \<open>copyuvm\<close> tests this bit before it looks whether the page is in the file: at the first
  such page below \<open>len\<close>, the ones before it being in memory, it stops the kernel.
\<close>

theorem copyuvm_swapped_panics:
  assumes par: "pgdir_ok (kmem_of s) dir (d # xs)" and len: "len \<le> 0x80000000" and kd: "kdata_ok (kdata s)"
    and pages: "\<forall>va. page_no va < n \<longrightarrow> pte_of (kmem_of s) dir va AND PTE_P \<noteq> 0 \<and> pte_of (kmem_of s) dir va AND PTE_PG = 0
      \<and> data_page (kmem_of s) dir va \<notin> set (d # xs)"
    and swapped: "va < len" "page_no va = n" "has_table (kmem_of s) dir va" "pte_of (kmem_of s) dir va AND PTE_P = 0"
    and room: "1024 + n \<le> length xs"
  shows "copyuvm dir len s = Panic ''copyuvm: page not present''"
proof -
  let ?s0 = "kmem_of s"
  have p: "parent_ok ?s0 dir (d # xs) n" using par pages unfolding parent_ok_def by blast
  have fp: "free_pages ?s0 (d # xs)" using par by (simp add: pgdir_ok_def)
  have vl: "unat va < unat len" "unat len \<le> 0x80000000" using swapped(1) len by (simp_all add: word_less_nat_alt word_le_nat_alt)
  have nv: "4096 * n \<le> unat va" using swapped(2) by (auto simp: page_no_def)
  then have nb: "n \<le> 0x80000" "4096 * n < unat len" using vl by auto
  obtain m0 ys where k: "setupkvm s = Ok (d, set_kmem m0 s)" "child_inv ?s0 (d # xs) d m0 ys n"
    "\<forall>va. unat va < 0x80000000 \<longrightarrow> pte_of m0 d va = 0" "accounted (d # xs) d m0 ys {}"
    using setupkvm_ok [OF fp room kd] by blast
  have c0: "copied_upto ?s0 dir (d # xs) d m0 ys 0"
    using k(3,4) by (auto simp: copied_upto_def page_no_def less_mult_imp_div_less)
  have lt: "\<forall>k < n. 4096 * k < unat len" using nb by auto
  define f where "f = unat len div PGSIZE - n"
  have f: "Suc (unat len div PGSIZE) = n + Suc f" using nb unfolding f_def PGSIZE_def by simp
  let ?i = "word_of_nat (4096 * n) :: u32"
  obtain m zs where r: "copyuvm_loop (n + Suc f) dir d len 0 (set_kmem m0 s) = copyuvm_loop (Suc f) dir d len ?i (set_kmem m s)"
    "child_inv ?s0 (d # xs) d m zs 0"
    using copyuvm_loop_ok [OF p lt nb(1), of d "set_kmem m0 s" ys n 0 0 "Suc f"] k(2) c0 by auto
  have ui: "unat ?i = 4096 * n" using nb by (intro unat_of_nat_lt) simp
  then have il: "?i < len" using nb unfolding word_less_nat_alt by simp
  have pn: "page_no ?i = page_no va" using ui swapped(2) by (simp add: page_no_def)
  then have "same_page va ?i" unfolding same_page_no by simp
  then have h0: "has_table ?s0 dir ?i" using swapped(3) same_index unfolding same_page_def by metis
  note kept = parent_kept [OF r(2) par, of ?i]
  have h: "has_table m dir ?i" using h0 kept(1) by simp
  let ?q = "table_of m dir ?i + 4 * PTX ?i"
  have w: "walkpgdir dir ?i False m = Ok (?q, m)" using walk_present [OF h] .
  have nz: "?q \<noteq> 0" unfolding kept(2) by (rule slot_nonzero [OF par h0])
  have g: "pte_get ?q m AND PTE_P = 0"
    using h kept(3) user_same_page [OF pn, of ?s0 dir] swapped(4) unfolding pte_of_def [of m] by simp
  have "copyuvm_loop (Suc f) dir d len ?i (set_kmem m s) = Panic ''copyuvm: page not present''"
    using il w nz g by (simp add: in_kmem_def panic_if_def Let_def)
  moreover have d0: "d \<noteq> 0" using fp by (auto simp: free_pages_def)
  ultimately show ?thesis using r(1) k(1) unfolding copyuvm_def f by simp
qed

subsection \<open>A parent of two pages, the second one in the swap file\<close>

text \<open>A memory whose free list is the given pages.\<close>

fun chain :: "u32 list \<Rightarrow> bytes" where
  "chain (x # y # xs) = wr32 (chain (y # xs)) (unat x) y"
| "chain xs = (\<lambda>_. 0)"

lemma chain_outside: "(\<And>x. x \<in> set xs \<Longrightarrow> \<not> in_page x i) \<Longrightarrow> chain xs i = 0"
proof (induction xs rule: chain.induct)
  case (1 x y xs)
  then have "chain (y # xs) i = 0" by simp
  moreover have "\<not> in_page x i" using 1 by simp
  ultimately show ?case by (auto simp: wr32_outside in_page_def PGSIZE_def not_le)
qed simp_all

lemma chain_path:
  "distinct xs \<Longrightarrow> \<forall>x \<in> set xs. unat x mod PGSIZE = 0 \<and> x \<noteq> 0 \<Longrightarrow> xs \<noteq> [] \<Longrightarrow> fl_path (chain xs) (hd xs) xs"
proof (induction xs rule: chain.induct)
  case (1 x y xs)
  have "fl_path (chain (x # y # xs)) y (y # xs) = fl_path (chain (y # xs)) y (y # xs)"
  proof (rule fl_path_cong)
    fix z i assume z: "z \<in> set (y # xs)" "unat z \<le> i" "i < unat z + 4"
    then have "in_page z i" "z \<noteq> x" "unat z mod PGSIZE = 0" "unat x mod PGSIZE = 0" using 1(2,3) by (auto simp: in_page_def PGSIZE_def)
    then have "\<not> in_page x i" using pages_apart [of z x i] by simp
    then show "chain (x # y # xs) i = chain (y # xs) i" by (auto simp: wr32_outside in_page_def PGSIZE_def not_le)
  qed
  then show ?case using 1 by simp
qed (simp_all add: rd32_def)

definition fork_pages :: "u32 list" where
  "fork_pages = map (\<lambda>i. word_of_nat (0x80800000 + 4096 * i)) [0 ..< 1027]"

definition fork_demo :: kmem where
  "fork_demo = \<lparr>kmlock = False, use_lock = True, freelist = 0x80800000,
     mem = wr32 (wr32 (wr32 (wr32 (chain fork_pages) 0x80402000 0x403007) 0x80403000 0x405007) 0x80403004 0x206) 0x80405000 42, kend = 0x80200000\<rparr>"

lemma fork_page:
  assumes "x \<in> set fork_pages"
  shows "\<exists>i < 1027. unat x = 0x80800000 + 4096 * i"
proof -
  obtain i where i: "i < 1027" "x = word_of_nat (0x80800000 + 4096 * i)" using assms by (auto simp: fork_pages_def)
  have "unat x = 0x80800000 + 4096 * i" unfolding i(2) by (rule unat_of_nat_lt) (use i(1) in simp)
  then show ?thesis using i(1) by blast
qed

lemma fork_pages_ok: "\<forall>x \<in> set fork_pages. unat x mod PGSIZE = 0 \<and> 0x80800000 \<le> unat x \<and> unat x < 0x80C03000"
proof
  fix x assume "x \<in> set fork_pages"
  then obtain i where "i < 1027" "unat x = 0x80800000 + 4096 * i" using fork_page by blast
  then show "unat x mod PGSIZE = 0 \<and> 0x80800000 \<le> unat x \<and> unat x < 0x80C03000" by (simp add: PGSIZE_def mod_mult_self1_is_0)
qed

lemma fork_pages_distinct: "distinct fork_pages"
proof -
  have "inj_on (\<lambda>i. word_of_nat (0x80800000 + 4096 * i) :: u32) (set [0 ..< 1027])"
  proof (rule inj_onI)
    fix i j :: nat
    assume a: "i \<in> set [0 ..< 1027]" "j \<in> set [0 ..< 1027]"
      "(word_of_nat (0x80800000 + 4096 * i) :: u32) = word_of_nat (0x80800000 + 4096 * j)"
    have "unat (word_of_nat (0x80800000 + 4096 * i) :: u32) = 0x80800000 + 4096 * i"
      by (rule unat_of_nat_lt) (use a(1) in simp)
    moreover have "unat (word_of_nat (0x80800000 + 4096 * j) :: u32) = 0x80800000 + 4096 * j"
      by (rule unat_of_nat_lt) (use a(2) in simp)
    ultimately have "0x80800000 + 4096 * i = 0x80800000 + 4096 * j" using a(3) by argo
    then show "i = j" by simp
  qed
  then show ?thesis by (simp add: fork_pages_def distinct_map)
qed

lemma fork_pages_cons: "fork_pages = 0x80800000 # tl fork_pages" "length (tl fork_pages) = 1026"
proof -
  have "[0 ..< 1027] = 0 # [Suc 0 ..< 1027]" by (rule upt_conv_Cons) simp
  then have h: "fork_pages = word_of_nat (0x80800000 + 4096 * 0) # map (\<lambda>i. word_of_nat (0x80800000 + 4096 * i)) [Suc 0 ..< 1027]"
    unfolding fork_pages_def by (simp only: list.map)
  have "fork_pages = word_of_nat (0x80800000 + 4096 * 0) # tl fork_pages" using h by (metis list.sel(3))
  then show "fork_pages = 0x80800000 # tl fork_pages" by (simp only: mult_0_right add_0_right of_nat_numeral)
  have "length (tl fork_pages) = 1027 - 0 - 1" unfolding fork_pages_def length_tl length_map length_upt ..
  then show "length (tl fork_pages) = 1026" by simp
qed

lemma fork_low: "mem fork_demo i = 0" if "i < 0x80800000" "\<not> (0x80402000 \<le> i \<and> i < 0x80402004)" "\<not> (0x80403000 \<le> i \<and> i < 0x80403008)"
    "\<not> (0x80405000 \<le> i \<and> i < 0x80405004)"
proof -
  have "chain fork_pages i = 0"
    using fork_pages_ok that(1) by (intro chain_outside) (fastforce simp: in_page_def)
  then show ?thesis using that by (auto simp: fork_demo_def wr32_outside)
qed

lemma fork_demo_free: "free_pages fork_demo fork_pages"
proof -
  let ?s = "fork_demo\<lparr>mem := chain fork_pages\<rparr>"
  have nz: "\<forall>x \<in> set fork_pages. unat x mod PGSIZE = 0 \<and> x \<noteq> 0" using fork_pages_ok by (metis unat_0 not_numeral_le_zero)
  have ne: "fork_pages \<noteq> []" using fork_pages_cons(1) by (metis list.distinct(1))
  have pok: "\<forall>x \<in> set fork_pages. page_ok ?s x"
  proof
    fix x assume x: "x \<in> set fork_pages"
    then have u: "unat x mod PGSIZE = 0" "0x80800000 \<le> unat x" "unat x < 0x80C03000" using fork_pages_ok by auto
    have "unat (V2P x) = unat x - 0x80000000"
      using u(2) unfolding V2P_def KERNBASE_def by (subst unat_sub) (simp_all add: word_le_nat_alt)
    then show "page_ok ?s x" using u by (simp add: page_ok_def fork_demo_def word_le_nat_alt word_less_nat_alt PHYSTOP_def)
  qed
  have "hd fork_pages = 0x80800000" using fork_pages_cons(1) by (metis list.sel(1))
  then have "free_pages ?s fork_pages"
    using chain_path [OF fork_pages_distinct nz ne] fork_pages_distinct pok by (simp add: free_pages_def) (simp add: fork_demo_def)
  then have "free_pages (?s\<lparr>mem := mem fork_demo\<rparr>) fork_pages"
  proof (rule free_pages_frame)
    fix x i assume "x \<in> set fork_pages" "in_page x i"
    then have "0x80800000 \<le> i" using fork_pages_ok by (fastforce simp: in_page_def)
    then show "mem fork_demo i = mem ?s i" by (simp add: fork_demo_def wr32_outside)
  qed
  then show ?thesis by simp
qed


lemma fork_demo_pde: "pde fork_demo 0x80402000 va = (if PDX va = 0 then 0x403007 else 0)"
proof -
  have u: "unat ((0x80402000 :: u32) + 4 * PDX va) = 0x80402000 + 4 * unat (PDX va)" "unat (PDX va) < 1024"
    using unat_pte_slot [of "0x80402000" "PDX va"] PDX_lt by (simp_all add: PGSIZE_def)
  show ?thesis
  proof (cases "PDX va = 0")
    case False
    then have "0 < unat (PDX va)" by (simp add: unat_gt_0)
    then have "pde fork_demo 0x80402000 va = 0"
      unfolding pde_def pde_addr_def u by (intro rd32_zero fork_low) (use u(2) in auto)
    then show ?thesis using False by simp
  next
    case True
    then have a: "unat (pde_addr 0x80402000 va) = 0x80402000" by (simp add: pde_addr_def)
    show ?thesis unfolding pde_def a using True by (simp add: fork_demo_def rd32_wr32_other)
  qed
qed

lemma fork_demo_table:
  "has_table fork_demo 0x80402000 va \<longleftrightarrow> PDX va = 0" "PDX va = 0 \<Longrightarrow> table_of fork_demo 0x80402000 va = 0x80403000"
  by (simp_all add: has_table_def table_of_def fork_demo_pde P2V_def KERNBASE_def PTE_ADDR_def PTE_P_def)

lemma fork_demo_entry: "page_no va = 0 \<Longrightarrow> pte_of fork_demo 0x80402000 va = 0x405007"
proof -
  assume "page_no va = 0"
  then have "unat va < 4096" by (simp add: page_no_def)
  then have "unat (PDX va) = 0" "unat (PTX va) = 0" unfolding unat_PDX unat_PTX by simp_all
  then have "PDX va = 0" "PTX va = 0" by (simp_all add: unat_eq_0)
  then show ?thesis by (simp add: pte_of_def pte_get_def fork_demo_table) (simp add: fork_demo_def rd32_wr32_other)
qed

lemma fork_demo_ok: "pgdir_ok fork_demo 0x80402000 fork_pages"
proof -
  have k: "page_ok fork_demo 0x80402000" "page_ok fork_demo 0x80403000"
    by (simp_all add: page_ok_def fork_demo_def V2P_def mmu_constants)
  have n: "(0x80402000 :: u32) \<notin> set fork_pages" "(0x80403000 :: u32) \<notin> set fork_pages"
    using fork_pages_ok by fastforce+
  show ?thesis
    unfolding pgdir_ok_def fork_demo_table(1)
    using fork_demo_free k n fork_demo_table(2) by (intro conjI allI impI) simp_all
qed

lemma fork_demo_swapped: "pte_of fork_demo 0x80402000 0x1000 = 0x206" "has_table fork_demo 0x80402000 0x1000"
proof -
  have "PDX (0x1000 :: u32) = 0" "PTX (0x1000 :: u32) = 1" by (simp_all add: PDX_def PTX_def)
  then show "has_table fork_demo 0x80402000 0x1000" "pte_of fork_demo 0x80402000 0x1000 = 0x206"
    by (simp_all add: pte_of_def pte_get_def fork_demo_table) (simp add: fork_demo_def rd32_wr32_other)
qed

lemma fork_krn:
  defines "s \<equiv> set_kmem fork_demo ((krn_demo kio_demo)\<lparr>kdata := 0x80109000\<rparr>)"
  shows "pgdir_ok (kmem_of s) 0x80402000 (0x80800000 # tl fork_pages)" "kdata_ok (kdata s)"
    "page_no va = 0 \<Longrightarrow> data_page fork_demo 0x80402000 va = 0x80405000"
    "\<forall>va. page_no va < 1 \<longrightarrow> pte_of (kmem_of s) 0x80402000 va AND PTE_P \<noteq> 0
      \<and> pte_of (kmem_of s) 0x80402000 va AND PTE_PG = 0 \<and> data_page (kmem_of s) 0x80402000 va \<notin> set (0x80800000 # tl fork_pages)"
proof -
  show "pgdir_ok (kmem_of s) 0x80402000 (0x80800000 # tl fork_pages)"
    using fork_demo_ok fork_pages_cons(1) by (simp add: s_def)
  show "kdata_ok (kdata s)" by (simp add: kdata_ok_def s_def)
  show dp: "data_page fork_demo 0x80402000 va = 0x80405000" if "page_no va = 0" for va
    using fork_demo_entry [OF that] by (simp add: data_page_def P2V_def KERNBASE_def PTE_ADDR_def)
  have "(0x80405000 :: u32) \<notin> set fork_pages" using fork_pages_ok by fastforce
  then show "\<forall>va. page_no va < 1 \<longrightarrow> pte_of (kmem_of s) 0x80402000 va AND PTE_P \<noteq> 0
      \<and> pte_of (kmem_of s) 0x80402000 va AND PTE_PG = 0 \<and> data_page (kmem_of s) 0x80402000 va \<notin> set (0x80800000 # tl fork_pages)"
    using fork_pages_cons(1) dp by (simp add: fork_demo_entry PTE_P_def PTE_PG_def s_def)
qed

theorem copyuvm_copies_witness:
  "\<exists>m. copyuvm 0x80402000 4096 (set_kmem fork_demo ((krn_demo kio_demo)\<lparr>kdata := 0x80109000\<rparr>))
      = Ok (0x80800000, set_kmem m ((krn_demo kio_demo)\<lparr>kdata := 0x80109000\<rparr>))
    \<and> mem m (upos m 0x80800000 0) = 42"
proof -
  let ?s = "set_kmem fork_demo ((krn_demo kio_demo)\<lparr>kdata := 0x80109000\<rparr>)"
  have room: "1024 + 1 \<le> length (tl fork_pages)" using fork_pages_cons(2) by simp
  obtain m where m: "copyuvm 0x80402000 4096 ?s = Ok (0x80800000, set_kmem m ?s)"
    "\<forall>va. page_no va < 1 \<longrightarrow> mem m (upos m 0x80800000 va) = mem (kmem_of ?s) (upos (kmem_of ?s) 0x80402000 va)"
    using copyuvm_copies [OF fork_krn(1) _ fork_krn(2,4) _ room, of 4096] by auto
  have z: "page_no 0 = 0" by (simp add: page_no_def)
  have "mem m (upos m 0x80800000 0) = mem (kmem_of ?s) (upos (kmem_of ?s) 0x80402000 0)" using m(2) z by simp
  also have "\<dots> = 42" unfolding upos_def by (simp add: fork_krn(3) z) (simp add: fork_demo_def wr32_def byte_of_def)
  finally show ?thesis using m(1) by (intro exI [of _ m]) simp
qed

theorem copyuvm_swapped_panics_witness:
  "copyuvm 0x80402000 8192 (set_kmem fork_demo ((krn_demo kio_demo)\<lparr>kdata := 0x80109000\<rparr>))
    = Panic ''copyuvm: page not present''"
proof -
  have room: "1024 + 1 \<le> length (tl fork_pages)" using fork_pages_cons(2) by simp
  have "page_no 0x1000 = 1" by (simp add: page_no_def)
  then show ?thesis
    using copyuvm_swapped_panics [OF fork_krn(1) _ fork_krn(2,4) _ _ _ _ room, of 8192 "0x1000"]
    by (simp add: fork_demo_swapped PTE_P_def)
qed

end
