(* ===== verification/Freevm_Spec.thy ===== *)
theory Freevm_Spec
  imports Copyuvm_Spec
begin

text \<open>
  Giving back an address space.  \<open>space_ok\<close> says that the user pages of a page directory are pages in use, apart
  from its tables and from each other; \<open>freed_upto\<close> is the invariant of the loop of \<open>deallocuvm\<close>,
  \<open>tables_upto\<close> that of the loop over the tables.  A space that \<open>copyuvm\<close> made and \<open>freevm\<close> gives back leaves
  the free list with the pages it had.
\<close>

lemma kfree_page:
  assumes "free_pages s xs" "page_ok s v" "v \<notin> set xs"
  shows "\<exists>t. kfree v s = Ok t \<and> free_pages t (v # xs) \<and> (\<forall>i. \<not> in_page v i \<longrightarrow> mem t i = mem s i) \<and> kend t = kend s"
proof -
  have "\<not> kmlock s" using assms(1) by (simp add: free_pages_def)
  then show ?thesis
    using kfree_eq [OF _ assms(2)] kfree_pushes [OF assms]
    by (auto simp: in_page_def PGSIZE_def fill_bytes_def wr32_outside not_le)
qed

text \<open>Freeing a page apart from the directory and its tables.\<close>

lemma kfree_data:
  assumes ok: "pgdir_ok s d xs" and p: "page_ok s p" "p \<notin> set xs" "p \<noteq> d" "\<forall>va. has_table s d va \<longrightarrow> table_of s d va \<noteq> p"
  shows "\<exists>t. kfree p s = Ok t \<and> pgdir_ok t d (p # xs) \<and> (\<forall>i. \<not> in_page p i \<longrightarrow> mem t i = mem s i) \<and> kend t = kend s
    \<and> (\<forall>va. has_table t d va = has_table s d va \<and> table_of t d va = table_of s d va \<and> pte_of t d va = pte_of s d va)"
proof -
  have fp: "free_pages s xs" using ok by (simp add: pgdir_ok_def)
  obtain t where t: "kfree p s = Ok t" "free_pages t (p # xs)" "\<forall>i. \<not> in_page p i \<longrightarrow> mem t i = mem s i" "kend t = kend s"
    using kfree_page [OF fp p(1,2)] by blast
  have al: "unat p mod PGSIZE = 0" using p(1) by (simp add: page_ok_def)
  have o1: "mem t i = mem s i" if "in_page d i" for i
    using t(3) pages_apart [OF dir_ok_aligned [OF ok] al p(3) [symmetric] that] by simp
  have o2: "mem t i = mem s i" if h: "has_table s d vb" "in_page (table_of s d vb) i" for vb i
  proof -
    have "table_of s d vb \<noteq> p" using p(4) h(1) by blast
    from pages_apart [OF table_aligned [OF ok h(1)] al this h(2)] show ?thesis using t(3) by blast
  qed
  have m: "mem (s\<lparr>mem := mem t\<rparr>) = mem t" by simp
  have e: "has_table t d va = has_table s d va" "table_of t d va = table_of s d va" "pte_of t d va = pte_of s d va" for va
    using entries_kept [OF ok o1 o2] entries_mem [OF m, of d va] by auto
  have pg: "page_ok t = page_ok s" using t(4) by (auto simp: page_ok_def fun_eq_iff)
  have "pgdir_ok t d (p # xs)"
    unfolding pgdir_ok_def e pg
  proof (intro conjI)
    show "free_pages t (p # xs)" by (fact t(2))
    show "page_ok s d" "d \<notin> set (p # xs)" using ok p(3) by (auto simp: pgdir_ok_def)
    show "\<forall>va. has_table s d va \<longrightarrow> page_ok s (table_of s d va) \<and> table_of s d va \<notin> set (p # xs) \<and> table_of s d va \<noteq> d"
      using ok p(4) unfolding pgdir_ok_def by (metis set_ConsD)
    show "\<forall>va vb. has_table s d va \<longrightarrow> has_table s d vb \<longrightarrow> table_of s d va = table_of s d vb \<longrightarrow> PDX va = PDX vb"
      using ok unfolding pgdir_ok_def by metis
  qed
  then show ?thesis using t e by blast
qed

subsection \<open>The pages of the user\<close>

text \<open>A space that can be freed: its user pages are pages in use, apart from its tables and from each other.\<close>

definition space_ok :: "kmem \<Rightarrow> u32 \<Rightarrow> u32 list \<Rightarrow> bool" where
  "space_ok s d xs \<longleftrightarrow> pgdir_ok s d xs \<and> KERNBASE < kend s
     \<and> (\<forall>va. user_used s d va \<longrightarrow> page_ok s (data_page s d va) \<and> data_page s d va \<notin> set xs \<and> data_page s d va \<noteq> d
          \<and> (\<forall>vb. has_table s d vb \<longrightarrow> table_of s d vb \<noteq> data_page s d va))
     \<and> (\<forall>va vb. user_used s d va \<longrightarrow> user_used s d vb \<longrightarrow> data_page s d va = data_page s d vb \<longrightarrow> page_no va = page_no vb)"

text \<open>The state of \<open>deallocuvm\<close> before page \<open>k\<close>.\<close>

definition freed_upto :: "kmem \<Rightarrow> u32 \<Rightarrow> u32 list \<Rightarrow> kmem \<Rightarrow> u32 list \<Rightarrow> nat \<Rightarrow> bool" where
  "freed_upto s0 d xs s ys k \<longleftrightarrow> pgdir_ok s d ys \<and> kend s = kend s0
     \<and> set ys = set xs \<union> {data_page s0 d va | va. user_used s0 d va \<and> page_no va < k}
     \<and> (\<forall>va. has_table s d va = has_table s0 d va \<and> table_of s d va = table_of s0 d va)
     \<and> (\<forall>va. k \<le> page_no va \<longrightarrow> pte_of s d va = pte_of s0 d va)
     \<and> (\<forall>i. untouched s0 d ys i \<longrightarrow> mem s i = mem s0 i)"

lemma next_table:
  fixes a :: u32
  assumes "a < KERNBASE"
  shows "unat (PGADDR (PDX a + 1) 0 0) = 4096 * ((page_no a div 1024 + 1) * 1024)"
proof -
  have "unat a < 0x80000000" using assms by (simp add: word_less_nat_alt KERNBASE_def)
  then have p: "unat (PDX a) < 512" by (simp add: unat_PDX less_mult_imp_div_less)
  have u: "unat (PDX a + 1) = unat (PDX a) + 1" using p by (subst unat_add_lt) auto
  have sh: "unat (push_bit 22 x) = unat x * 4194304 mod 4294967296" for x :: u32
    by (simp add: push_bit_eq_mult unat_word_ariths)
  have "unat (PGADDR (PDX a + 1) 0 0) = unat (push_bit 22 (PDX a + 1) :: u32)" by (simp add: PGADDR_def)
  also have "\<dots> = unat (PDX a + 1) * 4194304 mod 4294967296" by (rule sh)
  also have "\<dots> = (unat (PDX a) + 1) * 4194304 mod 4294967296" unfolding u ..
  also have "\<dots> = (unat (PDX a) + 1) * 4194304" using p by simp
  also have "\<dots> = 4096 * ((page_no a div 1024 + 1) * 1024)"
    by (simp add: unat_PDX page_no_def div_mult2_eq [symmetric])
  finally show ?thesis .
qed


lemma freed_skip:
  assumes f: "freed_upto s0 d xs s ys k" and k: "k \<le> j" and n: "\<And>va. k \<le> page_no va \<Longrightarrow> page_no va < j \<Longrightarrow> \<not> user_used s0 d va"
  shows "freed_upto s0 d xs s ys j"
proof -
  have "{data_page s0 d va | va. user_used s0 d va \<and> page_no va < k} = {data_page s0 d va | va. user_used s0 d va \<and> page_no va < j}"
    using k n by (metis (no_types, lifting) le_less_trans not_le order_less_le_trans)
  then show ?thesis using f k unfolding freed_upto_def by (metis (no_types, lifting) le_trans)
qed

lemma free_one:
  assumes f: "freed_upto s0 d xs s ys k" and sp: "space_ok s0 d xs" and a: "unat a = 4096 * k" "user_used s0 d a"
  shows "\<exists>t. kfree (data_page s0 d a) s = Ok t
    \<and> freed_upto s0 d xs (pte_put (table_of s d a + 4 * PTX a) 0 t) (data_page s0 d a # ys) (Suc k)"
proof -
  let ?p = "data_page s0 d a"
  have pk: "page_no a = k" using a(1) by (simp add: page_no_def)
  have s: "pgdir_ok s d ys" "kend s = kend s0" "set ys = set xs \<union> {data_page s0 d va | va. user_used s0 d va \<and> page_no va < k}"
    "\<And>va. has_table s d va = has_table s0 d va" "\<And>va. table_of s d va = table_of s0 d va"
    "\<And>va. k \<le> page_no va \<Longrightarrow> pte_of s d va = pte_of s0 d va" "\<And>i. untouched s0 d ys i \<Longrightarrow> mem s i = mem s0 i"
    using f unfolding freed_upto_def by blast+
  have p0: "page_ok s0 ?p" "?p \<notin> set xs" "?p \<noteq> d" "\<forall>vb. has_table s0 d vb \<longrightarrow> table_of s0 d vb \<noteq> ?p"
    using sp a(2) unfolding space_ok_def by blast+
  have inj: "\<And>va. user_used s0 d va \<Longrightarrow> data_page s0 d va = ?p \<Longrightarrow> page_no va = k"
    using sp a(2) pk unfolding space_ok_def by blast
  have pg: "page_ok s ?p" using p0(1) s(2) by (simp add: page_ok_def)
  have py: "?p \<notin> set ys" using s(3) p0(2) inj by auto
  have pt: "\<forall>va. has_table s d va \<longrightarrow> table_of s d va \<noteq> ?p" using p0(4) s(4,5) by simp
  obtain t where t: "kfree ?p s = Ok t" "pgdir_ok t d (?p # ys)" "\<forall>i. \<not> in_page ?p i \<longrightarrow> mem t i = mem s i" "kend t = kend s"
    "\<And>va. has_table t d va = has_table s d va" "\<And>va. table_of t d va = table_of s d va" "\<And>va. pte_of t d va = pte_of s d va"
    using kfree_data [OF s(1) pg py p0(3) pt] by blast
  have "has_table s0 d a" using a(2) by (auto simp: user_used_def pte_of_def split: if_splits)
  then have ht: "has_table t d a" using t(5) s(4) by simp
  let ?q = "table_of s d a + 4 * PTX a"
  note put = pte_put_ok [OF t(2) ht, of 0, unfolded t(6)]
  let ?u = "pte_put ?q 0 t"
  have al: "unat (table_of s d a) mod PGSIZE = 0" using table_aligned [OF t(2) ht] t(6) by simp
  have out: "mem ?u i = mem s0 i" if u: "untouched s0 d (?p # ys) i" for i
  proof -
    have "\<not> in_page (table_of s d a) i" using u ht t(5) s(4,5) unfolding untouched_def by metis
    then have "i < unat ?q \<or> unat ?q + 4 \<le> i" using in_page_slot [OF al PTX_lt] by (meson not_le)
    then have "mem ?u i = mem t i" by (simp add: pte_put_def wr32_outside)
    moreover have "untouched s0 d ys i" "\<not> in_page ?p i" using u by (simp_all add: untouched_def)
    ultimately show ?thesis using t(3) s(7) by simp
  qed
  have set: "set (?p # ys) = set xs \<union> {data_page s0 d va | va. user_used s0 d va \<and> page_no va < Suc k}"
  proof -
    have e: "data_page s0 d va = ?p" if "page_no va = k" for va
      using user_same_page [of va a s0 d] that pk by (simp add: data_page_def)
    have "{data_page s0 d va | va. user_used s0 d va \<and> page_no va < Suc k} = insert ?p {data_page s0 d va | va. user_used s0 d va \<and> page_no va < k}"
    proof (intro equalityI subsetI)
      fix x assume "x \<in> {data_page s0 d va | va. user_used s0 d va \<and> page_no va < Suc k}"
      then obtain va where "x = data_page s0 d va" "user_used s0 d va" "page_no va < k \<or> page_no va = k" by (auto simp: less_Suc_eq)
      then show "x \<in> insert ?p {data_page s0 d va | va. user_used s0 d va \<and> page_no va < k}" using e by blast
    next
      fix x assume "x \<in> insert ?p {data_page s0 d va | va. user_used s0 d va \<and> page_no va < k}"
      then show "x \<in> {data_page s0 d va | va. user_used s0 d va \<and> page_no va < Suc k}"
        using a(2) pk by (auto intro: less_SucI)
    qed
    then show ?thesis using s(3) by simp
  qed
  have ent: "pte_of ?u d va = pte_of s0 d va" if "Suc k \<le> page_no va" for va
  proof -
    have ns: "\<not> same_page a va" using that pk by (simp add: same_page_no)
    have "pte_of ?u d va = pte_of t d va" using put(4) [of va] unfolding if_not_P [OF ns] .
    also have "\<dots> = pte_of s d va" by (rule t(7))
    also have "\<dots> = pte_of s0 d va" using that by (intro s(6)) simp
    finally show ?thesis .
  qed
  have "freed_upto s0 d xs ?u (?p # ys) (Suc k)"
    unfolding freed_upto_def
  proof (intro conjI allI impI)
    show "pgdir_ok ?u d (?p # ys)" by (fact put(1))
    show "kend ?u = kend s0" using t(4) s(2) by (simp add: pte_put_def)
    show "set (?p # ys) = set xs \<union> {data_page s0 d va | va. user_used s0 d va \<and> page_no va < Suc k}" by (fact set)
    show "has_table ?u d va = has_table s0 d va" "table_of ?u d va = table_of s0 d va" for va
      using put(2,3) t(5,6) s(4,5) by simp_all
    show "pte_of ?u d va = pte_of s0 d va" if "Suc k \<le> page_no va" for va using ent [OF that] .
    show "mem ?u i = mem s0 i" if "untouched s0 d (?p # ys) i" for i using out [OF that] .
  qed
  then show ?thesis using t(1) by blast
qed

lemma deallocuvm_loop_ok:
  assumes sp: "space_ok s0 d xs" and c: "cur s = Some p" "pgdir (ptab s ! p) \<noteq> d"
  shows "freed_upto s0 d xs m ys k \<Longrightarrow> k \<le> 0x80000 \<Longrightarrow> unat a = 4096 * k \<Longrightarrow> 0x80000 - k < f \<Longrightarrow>
    \<exists>m' ys'. deallocuvm_loop f d a KERNBASE (set_kmem m s) = Ok (set_kmem m' s) \<and> freed_upto s0 d xs m' ys' 0x80000"
proof (induction f arbitrary: m ys k a)
  case (Suc f)
  show ?case
  proof (cases "k = 0x80000")
    case True
    then have "\<not> a < KERNBASE" using Suc.prems(3) by (simp add: word_less_nat_alt KERNBASE_def)
    then show ?thesis using Suc.prems(1) True by (intro exI [of _ m] exI [of _ ys]) simp
  next
    case False
    then have kl: "k < 0x80000" using Suc.prems(2) by simp
    then have lt: "a < KERNBASE" using Suc.prems(3) by (simp add: word_less_nat_alt KERNBASE_def)
    have pk: "page_no a = k" using Suc.prems(3) by (simp add: page_no_def)
    have next_a: "unat (a + 4096) = 4096 * Suc k" using Suc.prems(3) kl by (subst unat_add_lt) auto
    have fk: "0x80000 - Suc k < f" using Suc.prems(4) kl by simp
    have s: "pgdir_ok m d ys" "has_table m d a = has_table s0 d a" "pte_of m d a = pte_of s0 d a"
      using Suc.prems(1) pk unfolding freed_upto_def by simp_all
    show ?thesis
    proof (cases "has_table m d a")
      case False
      let ?j = "(k div 1024 + 1) * 1024" and ?b = "PGADDR (PDX a + 1) 0 0"
      have j: "unat ?b = 4096 * ?j" using next_table [OF lt] pk by simp
      have jk: "k < ?j" "?j \<le> 0x80000" using kl by simp_all
      have nu: "\<not> user_used s0 d va" if "k \<le> page_no va" "page_no va < ?j" for va
      proof -
        have "page_no va div 1024 = k div 1024"
          using that by (metis Suc_eq_plus1 div_le_mono le_antisym less_Suc_eq_le less_mult_imp_div_less)
        then have "unat (PDX va) = unat (PDX a)"
          using pk by (simp add: unat_PDX page_no_def div_mult2_eq [symmetric])
        then have "PDX va = PDX a" by simp
        then have "\<not> has_table s0 d va" using same_index False s(2) by metis
        then show ?thesis by (simp add: user_used_def pte_of_def)
      qed
      have "freed_upto s0 d xs m ys ?j" using freed_skip [OF Suc.prems(1) less_imp_le [OF jk(1)] nu] .
      moreover have "0x80000 - ?j < f" using jk Suc.prems(4) by linarith
      ultimately obtain m' ys' where
        "deallocuvm_loop f d ?b KERNBASE (set_kmem m s) = Ok (set_kmem m' s)" "freed_upto s0 d xs m' ys' 0x80000"
        using Suc.IH [OF _ jk(2) j] by blast
      then show ?thesis using lt walk_absent [OF False] by (intro exI [of _ m'] exI [of _ ys']) (simp add: in_kmem_def)
    next
      case True
      let ?q = "table_of m d a + 4 * PTX a"
      have w: "walkpgdir d a False m = Ok (?q, m)" using walk_present [OF True] .
      have nz: "?q \<noteq> 0" using slot_nonzero [OF s(1) True] .
      have g: "pte_get ?q m = pte_of s0 d a" using True s(3) by (simp add: pte_of_def)
      show ?thesis
      proof (cases "user_used s0 d a")
        case True
        then have P: "pte_of s0 d a AND PTE_P \<noteq> 0" by (simp add: user_used_def)
        have pz: "PTE_ADDR (pte_of s0 d a) \<noteq> 0"
        proof
          assume "PTE_ADDR (pte_of s0 d a) = 0"
          then have "data_page s0 d a = KERNBASE" by (simp add: data_page_def P2V_def)
          moreover have "page_ok s0 (data_page s0 d a)" "KERNBASE < kend s0" using sp True by (auto simp: space_ok_def)
          ultimately show False by (auto simp: page_ok_def)
        qed
        obtain t where t: "kfree (P2V (PTE_ADDR (pte_of s0 d a))) m = Ok t"
          "freed_upto s0 d xs (pte_put ?q 0 t) (data_page s0 d a # ys) (Suc k)"
          using free_one [OF Suc.prems(1) sp Suc.prems(3) True] unfolding data_page_def by blast
        have sk: "Suc k \<le> 0x80000" using kl by simp
        obtain m' ys' where "deallocuvm_loop f d (a + 4096) KERNBASE (set_kmem (pte_put ?q 0 t) s) = Ok (set_kmem m' s)"
          "freed_upto s0 d xs m' ys' 0x80000"
          using Suc.IH [OF t(2) sk next_a fk] by blast
        then show ?thesis
          using lt w nz g P pz t(1) c by (intro exI [of _ m'] exI [of _ ys'])
            (simp add: in_kmem_def on_kmem_def Let_def panic_if_def drop_record_def with_cur_def)
      next
        case False
        then have P: "pte_of s0 d a AND PTE_P = 0" using pk kl by (simp add: user_used_def)
        have "\<not> user_used s0 d va" if "k \<le> page_no va" "page_no va < Suc k" for va
          using False user_same_page [of va a s0 d] that pk by (simp add: user_used_def)
        then have fr: "freed_upto s0 d xs m ys (Suc k)" using freed_skip [OF Suc.prems(1)] by simp
        have sk: "Suc k \<le> 0x80000" using kl by simp
        obtain m' ys' where "deallocuvm_loop f d (a + 4096) KERNBASE (set_kmem m s) = Ok (set_kmem m' s)"
          "freed_upto s0 d xs m' ys' 0x80000"
          using Suc.IH [OF fr sk next_a fk] by blast
        then show ?thesis
          using lt w nz g P c by (intro exI [of _ m'] exI [of _ ys'])
            (simp add: in_kmem_def Let_def drop_swapped_def with_cur_def)
      qed
    qed
  qed
qed simp


subsection \<open>The tables\<close>

lemma PDX_of_index: "unat i < 1024 \<Longrightarrow> PDX (push_bit 22 i) = i"
proof -
  assume i: "unat i < 1024"
  have "unat (push_bit 22 i) = unat i * 4194304 mod 4294967296" by (simp add: push_bit_eq_mult unat_word_ariths)
  also have "\<dots> = unat i * 4194304" using i by simp
  finally have "unat (PDX (push_bit 22 i)) = unat i" by (simp add: unat_PDX)
  then show ?thesis by simp
qed

text \<open>The state of \<open>freevm\<close> before directory entry \<open>n\<close>.\<close>

definition tables_upto :: "kmem \<Rightarrow> u32 \<Rightarrow> u32 list \<Rightarrow> kmem \<Rightarrow> u32 list \<Rightarrow> nat \<Rightarrow> bool" where
  "tables_upto s0 d xs s ys n \<longleftrightarrow> free_pages s ys \<and> kend s = kend s0
     \<and> set ys = set xs \<union> {table_of s0 d va | va. has_table s0 d va \<and> unat (PDX va) < n}
     \<and> (\<forall>i. (\<forall>y \<in> set ys. \<not> in_page y i) \<longrightarrow> mem s i = mem s0 i)"

lemma free_tables_ok:
  assumes ok: "pgdir_ok s0 d xs"
  shows "tables_upto s0 d xs m ys n \<Longrightarrow> n + f = 1024 \<Longrightarrow>
    \<exists>m' ys'. free_tables f d (word_of_nat n) (set_kmem m s) = Ok (set_kmem m' s) \<and> tables_upto s0 d xs m' ys' 1024"
proof (induction f arbitrary: m ys n)
  case 0
  then show ?case by (intro exI [of _ m] exI [of _ ys]) simp
next
  case (Suc f)
  have n: "n < 1024" using Suc.prems(2) by simp
  define a :: u32 where "a = push_bit 22 (word_of_nat n)"
  have un: "unat (word_of_nat n :: u32) = n" by (rule unat_of_nat_lt) (use n in simp)
  have pa: "PDX a = word_of_nat n" unfolding a_def by (rule PDX_of_index) (use un n in simp)
  have t: "free_pages m ys" "kend m = kend s0" "set ys = set xs \<union> {table_of s0 d va | va. has_table s0 d va \<and> unat (PDX va) < n}"
    "\<And>i. \<forall>y \<in> set ys. \<not> in_page y i \<Longrightarrow> mem m i = mem s0 i"
    using Suc.prems(1) unfolding tables_upto_def by blast+
  have tab: "\<And>va. has_table s0 d va \<Longrightarrow> page_ok s0 (table_of s0 d va) \<and> table_of s0 d va \<notin> set xs \<and> table_of s0 d va \<noteq> d"
    "\<And>va vb. has_table s0 d va \<Longrightarrow> has_table s0 d vb \<Longrightarrow> table_of s0 d va = table_of s0 d vb \<Longrightarrow> PDX va = PDX vb"
    using ok unfolding pgdir_ok_def by blast+
  have "d \<notin> set xs" using ok by (simp add: pgdir_ok_def)
  then have dy: "d \<notin> set ys" unfolding t(3) using tab(1) by fastforce
  have al: "unat d mod PGSIZE = 0" using dir_ok_aligned [OF ok] .
  have "rd32 (mem m) (unat (pde_addr d a)) = rd32 (mem s0) (unat (pde_addr d a))"
  proof (rule rd32_cong)
    fix j assume "unat (pde_addr d a) \<le> j" "j < unat (pde_addr d a) + 4"
    then have j: "in_page d j" unfolding pde_addr_def by (rule in_page_slot [OF al PDX_lt])
    have "\<not> in_page y j" if "y \<in> set ys" for y
    proof -
      have "unat y mod PGSIZE = 0" "d \<noteq> y" using t(1) that dy by (auto simp: free_pages_def page_ok_def)
      then show ?thesis using pages_apart [OF al, of y j] j by simp
    qed
    then show "mem m j = mem s0 j" using t(4) by blast
  qed
  then have e: "rd32 (mem m) (unat (d + 4 * word_of_nat n)) = pde s0 d a" by (simp add: pde_def pde_addr_def pa)
  have step: "(word_of_nat n :: u32) + 1 = word_of_nat (Suc n)" by simp
  have idx: "PDX va = PDX a \<longleftrightarrow> unat (PDX va) = n" for va using pa un by (simp add: word_unat_eq_iff)
  have sn: "Suc n + f = 1024" using Suc.prems(2) by simp
  show ?case
  proof (cases "has_table s0 d a")
    case False
    have "{table_of s0 d va | va. has_table s0 d va \<and> unat (PDX va) < Suc n} = {table_of s0 d va | va. has_table s0 d va \<and> unat (PDX va) < n}"
      using False same_index idx unfolding less_Suc_eq by blast
    then have "tables_upto s0 d xs m ys (Suc n)" using Suc.prems(1) unfolding tables_upto_def by simp
    from Suc.IH [OF this sn] show ?thesis
      using False e unfolding has_table_def by (simp add: step [symmetric] del: of_nat_Suc)
  next
    case True
    let ?p = "table_of s0 d a"
    have pg: "page_ok m ?p" using tab(1) [OF True] t(2) by (simp add: page_ok_def)
    have py: "?p \<notin> set ys"
    proof
      assume "?p \<in> set ys"
      then obtain va where va: "?p = table_of s0 d va" "has_table s0 d va" "unat (PDX va) < n"
        using t(3) tab(1) [OF True] by auto
      then have "PDX va = PDX a" using tab(2) [OF va(2) True] by simp
      then show False using idx va(3) by simp
    qed
    obtain u where u: "kfree ?p m = Ok u" "free_pages u (?p # ys)" "\<forall>i. \<not> in_page ?p i \<longrightarrow> mem u i = mem m i" "kend u = kend m"
      using kfree_page [OF t(1) pg py] by blast
    have "{table_of s0 d va | va. has_table s0 d va \<and> unat (PDX va) < Suc n} = insert ?p {table_of s0 d va | va. has_table s0 d va \<and> unat (PDX va) < n}"
    proof -
      have "table_of s0 d va = ?p" if "unat (PDX va) = n" for va using that idx same_index by blast
      then show ?thesis using True idx [of a] unfolding less_Suc_eq by blast
    qed
    then have "tables_upto s0 d xs u (?p # ys) (Suc n)"
      using u(2-4) t(2-4) unfolding tables_upto_def by simp
    from Suc.IH [OF this sn] obtain m' ys' where
      r: "free_tables f d (word_of_nat (Suc n)) (set_kmem u s) = Ok (set_kmem m' s)" "tables_upto s0 d xs m' ys' 1024" by blast
    have "free_tables (Suc f) d (word_of_nat n) (set_kmem m s) = Ok (set_kmem m' s)"
      using True e u(1) r(1) unfolding has_table_def table_of_def step [symmetric]
      by (simp add: on_kmem_def del: of_nat_Suc)
    then show ?thesis using r(2) by blast
  qed
qed

text \<open>\<open>freevm\<close> of the space of another process.\<close>

lemma freevm_ok:
  assumes sp: "space_ok (kmem_of s) d xs" and c: "cur s = Some p" "pgdir (ptab s ! p) \<noteq> d"
  shows "\<exists>m ys. freevm d s = Ok (set_kmem m s) \<and> free_pages m ys
    \<and> set ys = set xs \<union> {data_page (kmem_of s) d va | va. user_used (kmem_of s) d va} \<union> {table_of (kmem_of s) d va | va. has_table (kmem_of s) d va} \<union> {d}
    \<and> (\<forall>i. (\<forall>y \<in> set ys. \<not> in_page y i) \<longrightarrow> mem m i = mem (kmem_of s) i)"
proof -
  let ?s0 = "kmem_of s"
  have ok: "pgdir_ok ?s0 d xs" using sp by (simp add: space_ok_def)
  have "freed_upto ?s0 d xs ?s0 xs 0" using ok by (simp add: freed_upto_def)
  moreover define f where "f = unat KERNBASE div PGSIZE + 2"
  moreover have "0x80000 - 0 < f" by (simp add: f_def mmu_constants)
  ultimately obtain m1 y1 where 1: "deallocuvm_loop f d 0 KERNBASE (set_kmem ?s0 s) = Ok (set_kmem m1 s)"
    "freed_upto ?s0 d xs m1 y1 0x80000"
    using deallocuvm_loop_ok [OF sp c, of ?s0 xs 0 0 f] by auto
  have ok1: "pgdir_ok m1 d y1" and k1: "kend m1 = kend ?s0"
    and y1: "set y1 = set xs \<union> {data_page ?s0 d va | va. user_used ?s0 d va}"
    and t1: "\<And>va. has_table m1 d va = has_table ?s0 d va" "\<And>va. table_of m1 d va = table_of ?s0 d va"
    and o1: "\<And>i. untouched ?s0 d y1 i \<Longrightarrow> mem m1 i = mem ?s0 i"
    using 1(2) unfolding freed_upto_def by (simp_all add: user_used_def cong: conj_cong)
  have "tables_upto m1 d y1 m1 y1 0" using ok1 by (simp add: tables_upto_def pgdir_ok_def)
  then obtain m2 y2 where 2: "free_tables NPDENTRIES d 0 (set_kmem m1 s) = Ok (set_kmem m2 s)" "tables_upto m1 d y1 m2 y2 1024"
    using free_tables_ok [OF ok1, of m1 y1 0 1024 s] by (auto simp: NPDENTRIES_def)
  have t2: "free_pages m2 y2" "kend m2 = kend ?s0" "set y2 = set y1 \<union> {table_of ?s0 d va | va. has_table ?s0 d va}"
    "\<And>i. \<forall>y \<in> set y2. \<not> in_page y i \<Longrightarrow> mem m2 i = mem m1 i"
    using 2(2) PDX_lt k1 unfolding tables_upto_def t1 by simp_all
  have pd: "page_ok m2 d" "d \<notin> set y2"
  proof -
    show "page_ok m2 d" using ok t2(2) by (simp add: pgdir_ok_def page_ok_def)
    have "d \<notin> set y1" using ok1 by (simp add: pgdir_ok_def)
    moreover have "table_of ?s0 d va \<noteq> d" if "has_table ?s0 d va" for va using ok that unfolding pgdir_ok_def by blast
    ultimately show "d \<notin> set y2" unfolding t2(3) by fastforce
  qed
  obtain m where m: "kfree d m2 = Ok m" "free_pages m (d # y2)" "\<forall>i. \<not> in_page d i \<longrightarrow> mem m i = mem m2 i"
    using kfree_page [OF t2(1) pd] by blast
  have d0: "d \<noteq> 0" using ok by (auto simp: pgdir_ok_def page_ok_def free_pages_def)
  have "deallocuvm d KERNBASE 0 s = Ok (0, set_kmem m1 s)"
    using 1(1) unfolding deallocuvm_def f_def by (simp add: mmu_constants PGROUNDUP_def)
  then have run: "freevm d s = Ok (set_kmem m s)"
    using d0 2(1) m(1) by (simp add: freevm_def panic_if_def on_kmem_def)
  have "mem m i = mem ?s0 i" if "\<forall>y \<in> set (d # y2). \<not> in_page y i" for i
  proof -
    have "untouched ?s0 d y1 i" using that t2(3) unfolding untouched_def by auto
    then show ?thesis using m(3) t2(4) o1 that by simp
  qed
  moreover have "set (d # y2) = set xs \<union> {data_page ?s0 d va | va. user_used ?s0 d va} \<union> {table_of ?s0 d va | va. has_table ?s0 d va} \<union> {d}"
    using t2(3) y1 by auto
  ultimately show ?thesis using run m(2) by blast
qed

text \<open>
  C9. \<open>freevm\<close> gives back every page of an address space, each of them once.  For a well-formed address space that
  is not that of the running process it returns, and the free list is then exactly the old one together with
  all user pages in memory, all page tables and the directory, without repetitions; outside free pages no
  byte has changed.
\<close>

theorem freevm_frees_all:
  assumes sp: "space_ok (kmem_of s) d xs" and c: "cur s = Some p" "pgdir (ptab s ! p) \<noteq> d"
  shows "\<exists>m ys. freevm d s = Ok (set_kmem m s) \<and> free_pages m ys
    \<and> set ys = set xs \<union> {data_page (kmem_of s) d va | va. user_used (kmem_of s) d va} \<union> {table_of (kmem_of s) d va | va. has_table (kmem_of s) d va} \<union> {d}
    \<and> (\<forall>i. (\<forall>y \<in> set ys. \<not> in_page y i) \<longrightarrow> mem m i = mem (kmem_of s) i)"
  by (rule freevm_ok [OF assms])


subsection \<open>Copying and giving back\<close>

lemma copied_space:
  assumes ch: "child_inv s0 xs d s ys 0" and cp: "copied_upto s0 dir xs d s ys n" and n: "n \<le> 0x80000"
    and fp: "free_pages s0 xs" and k: "KERNBASE < kend s0"
  shows "space_ok s d ys"
    "set ys \<union> {data_page s d va | va. user_used s d va} \<union> {table_of s d va | va. has_table s d va} \<union> {d} = set xs"
proof -
  have c: "pgdir_ok s d ys" "set ys \<subseteq> set xs" "d \<in> set xs" "\<And>va. has_table s d va \<Longrightarrow> table_of s d va \<in> set xs" "kend s = kend s0"
    using ch unfolding child_inv_def by blast+
  have below: "page_no va < n" if "user_used s d va" for va
  proof (rule ccontr)
    assume "\<not> page_no va < n"
    then have "pte_of s d va = 0" using that cp unfolding user_used_def copied_upto_def by (meson not_le)
    then show False using that by (simp add: user_used_def)
  qed
  have pg: "data_page s d va \<in> set xs" "data_page s d va \<notin> set ys" "data_page s d va \<noteq> d"
    "\<forall>vb. has_table s d vb \<longrightarrow> table_of s d vb \<noteq> data_page s d va" if "user_used s d va" for va
    using cp below [OF that] unfolding copied_upto_def page_copied_def by blast+
  have po: "page_ok s x" if "x \<in> set xs" for x using fp that c(5) by (simp add: free_pages_def page_ok_def)
  have inj: "page_no va = page_no vb" if "user_used s d va" "user_used s d vb" "data_page s d va = data_page s d vb" for va vb
    using cp below that unfolding copied_upto_def by blast
  have "KERNBASE < kend s" using k c(5) by simp
  then show "space_ok s d ys" using c(1) pg po inj unfolding space_ok_def by blast
  have "accounted xs d s ys {}" using cp by (simp add: copied_upto_def)
  then show "set ys \<union> {data_page s d va | va. user_used s d va} \<union> {table_of s d va | va. has_table s d va} \<union> {d} = set xs"
    using c(2-4) pg(1) unfolding accounted_def by blast
qed

text \<open>
  C17. Copying an address space and giving the copy back loses no page and keeps none twice: after \<open>copyuvm\<close>
  (as \<open>fork\<close> calls it) and \<open>freevm\<close> of the new directory (as \<open>wait\<close> calls it for the dead child) the free list
  holds exactly the pages it held before, and outside of them no byte of memory has changed.
\<close>

theorem copyuvm_freevm_roundtrip:
  assumes par: "pgdir_ok (kmem_of s) dir (d # xs)" and len: "len \<le> 0x80000000" and kd: "kdata_ok (kdata s)"
    and pages: "\<forall>va. page_no va < n \<longrightarrow> pte_of (kmem_of s) dir va AND PTE_P \<noteq> 0 \<and> pte_of (kmem_of s) dir va AND PTE_PG = 0
      \<and> data_page (kmem_of s) dir va \<notin> set (d # xs)"
    and n: "n = (unat len + 4095) div 4096" and room: "1024 + n \<le> length xs"
    and k: "KERNBASE < kend (kmem_of s)" and c: "cur s = Some p" "pgdir (ptab s ! p) \<noteq> d"
  shows "\<exists>m m' ys. copyuvm dir len s = Ok (d, set_kmem m s) \<and> freevm d (set_kmem m s) = Ok (set_kmem m' s)
    \<and> free_pages m' ys \<and> set ys = set (d # xs)
    \<and> (\<forall>i. (\<forall>x \<in> set (d # xs). \<not> in_page x i) \<longrightarrow> mem m' i = mem (kmem_of s) i)"
proof -
  let ?s0 = "kmem_of s"
  obtain m zs where r: "copyuvm dir len s = Ok (d, set_kmem m s)"
    "child_inv ?s0 (d # xs) d m zs 0" "copied_upto ?s0 dir (d # xs) d m zs n"
    using copyuvm_ok [OF par len kd pages n room] by blast
  have fp: "free_pages ?s0 (d # xs)" using par by (simp add: pgdir_ok_def)
  have nb: "n \<le> 0x80000" using len unfolding n word_le_nat_alt by simp
  note sp = copied_space [OF r(2,3) nb fp k]
  have "space_ok (kmem_of (set_kmem m s)) d zs" using sp(1) by simp
  from freevm_ok [OF this, of p] c obtain m' ys where f: "freevm d (set_kmem m s) = Ok (set_kmem m' s)" "free_pages m' ys"
    "set ys = set (d # xs)" "\<forall>i. (\<forall>y \<in> set ys. \<not> in_page y i) \<longrightarrow> mem m' i = mem m i"
    using sp(2) by auto
  have "\<forall>i. (\<forall>x \<in> set (d # xs). \<not> in_page x i) \<longrightarrow> mem m i = mem ?s0 i" using r(2) unfolding child_inv_def by blast
  then show ?thesis using r(1) f by auto
qed

definition free_krn :: "unit krn" where
  "free_krn = (krn_demo kio_demo)\<lparr>kdata := 0x80109000, ptab := [proc_demo, proc_demo\<lparr>pgdir := 0x80300000, pid := 2\<rparr>],
     mach := two_cpus\<lparr>cpus := [\<lparr>apicid = 4, ncli = 0, intena = False, cpuproc = Some 1\<rparr>]\<rparr>\<rparr>"

lemma free_krn_cur: "cur (set_kmem m free_krn) = Some 1" "pgdir (ptab (set_kmem m free_krn) ! 1) = 0x80300000" "kdata free_krn = 0x80109000"
  by (simp_all add: free_krn_def cur_def krn_demo_def set_kmem_def)

lemma fork_demo_used:
  assumes u: "user_used fork_demo 0x80402000 va"
  shows "page_no va = 0" "data_page fork_demo 0x80402000 va = 0x80405000"
proof -
  show z: "page_no va = 0"
  proof -
    have P: "pte_of fork_demo 0x80402000 va AND PTE_P \<noteq> 0" using u by (simp add: user_used_def)
    then have "has_table fork_demo 0x80402000 va" by (auto simp: pte_of_def split: if_splits)
    then have pd: "PDX va = 0" by (simp add: fork_demo_table)
    have sl: "unat ((0x80403000 :: u32) + 4 * PTX va) = 0x80403000 + 4 * unat (PTX va)" "unat (PTX va) < 1024"
      using unat_pte_slot [of "0x80403000" "PTX va"] PTX_lt by (simp_all add: PGSIZE_def)
    have e: "pte_of fork_demo 0x80402000 va = rd32 (mem fork_demo) (0x80403000 + 4 * unat (PTX va))"
      using pd sl(1) by (simp add: pte_of_def pte_get_def fork_demo_table)
    have "unat (PTX va) = 0"
    proof (rule ccontr)
      assume nz: "unat (PTX va) \<noteq> 0"
      show False
      proof (cases "unat (PTX va) = 1")
        case True
        then have "pte_of fork_demo 0x80402000 va = 0x206" unfolding e by (simp add: fork_demo_def rd32_wr32_other)
        then show False using P by (simp add: PTE_P_def)
      next
        case False
        have "rd32 (mem fork_demo) (0x80403000 + 4 * unat (PTX va)) = 0"
          by (intro rd32_zero fork_low) (use nz False sl(2) in auto)
        then show False using P e by simp
      qed
    qed
    moreover have "unat va div 4194304 = 0" using pd unat_PDX [of va] by simp
    ultimately show ?thesis by (simp add: unat_PTX page_no_def)
  qed
  show "data_page fork_demo 0x80402000 va = 0x80405000" by (rule fork_krn(3) [OF z])
qed

lemma fork_demo_space: "space_ok fork_demo 0x80402000 fork_pages"
proof -
  have k: "KERNBASE < kend fork_demo" "page_ok fork_demo 0x80405000"
    by (simp_all add: fork_demo_def page_ok_def V2P_def mmu_constants)
  have o1: "(0x80405000 :: u32) \<notin> set fork_pages" using fork_pages_ok by fastforce
  show ?thesis
    using fork_demo_ok k o1 fork_demo_table fork_demo_used unfolding space_ok_def by auto
qed

theorem freevm_frees_all_witness:
  "\<exists>m ys. freevm 0x80402000 (set_kmem fork_demo free_krn) = Ok (set_kmem m free_krn) \<and> free_pages m ys
    \<and> 0x80402000 \<in> set ys \<and> 0x80403000 \<in> set ys \<and> 0x80405000 \<in> set ys"
proof -
  let ?s = "set_kmem fork_demo free_krn"
  have sp: "space_ok (kmem_of ?s) 0x80402000 fork_pages" using fork_demo_space by simp
  have c: "cur ?s = Some 1" "pgdir (ptab ?s ! 1) \<noteq> 0x80402000" using free_krn_cur by simp_all
  obtain m ys where r: "freevm 0x80402000 ?s = Ok (set_kmem m ?s)" "free_pages m ys"
    "set ys = set fork_pages \<union> {data_page (kmem_of ?s) 0x80402000 va | va. user_used (kmem_of ?s) 0x80402000 va}
      \<union> {table_of (kmem_of ?s) 0x80402000 va | va. has_table (kmem_of ?s) 0x80402000 va} \<union> {0x80402000}"
    using freevm_frees_all [OF sp c] by blast
  have z: "page_no 0 = 0" "PDX (0 :: u32) = 0" by (simp_all add: page_no_def PDX_def)
  have "user_used fork_demo 0x80402000 0" using fork_demo_entry [OF z(1)] by (simp add: user_used_def z PTE_P_def)
  moreover have "data_page fork_demo 0x80402000 0 = 0x80405000" using fork_krn(3) [OF z(1)] .
  ultimately have "0x80405000 \<in> set ys" unfolding r(3) by force
  moreover have "0x80403000 \<in> set ys" unfolding r(3) using fork_demo_table [of 0] z by force
  moreover have "0x80402000 \<in> set ys" unfolding r(3) by simp
  ultimately show ?thesis using r(1,2) by (intro exI [of _ m] exI [of _ ys]) simp
qed

theorem copyuvm_freevm_roundtrip_witness:
  "\<exists>m m' ys. copyuvm 0x80402000 4096 (set_kmem fork_demo free_krn) = Ok (0x80800000, set_kmem m free_krn)
    \<and> freevm 0x80800000 (set_kmem m free_krn) = Ok (set_kmem m' free_krn) \<and> free_pages m' ys \<and> set ys = set fork_pages"
proof -
  let ?s = "set_kmem fork_demo free_krn"
  have f: "pgdir_ok (kmem_of ?s) 0x80402000 (0x80800000 # tl fork_pages)"
    "\<forall>va. page_no va < 1 \<longrightarrow> pte_of (kmem_of ?s) 0x80402000 va AND PTE_P \<noteq> 0
      \<and> pte_of (kmem_of ?s) 0x80402000 va AND PTE_PG = 0 \<and> data_page (kmem_of ?s) 0x80402000 va \<notin> set (0x80800000 # tl fork_pages)"
    using fork_krn(1,4) by simp_all
  have kd: "kdata_ok (kdata ?s)" by (simp add: free_krn_cur kdata_ok_def)
  have room: "1024 + 1 \<le> length (tl fork_pages)" using fork_pages_cons(2) by simp
  have k: "KERNBASE < kend (kmem_of ?s)" by (simp add: fork_demo_def KERNBASE_def)
  have c: "cur ?s = Some 1" "pgdir (ptab ?s ! 1) \<noteq> 0x80800000" using free_krn_cur by simp_all
  obtain m m' ys where r: "copyuvm 0x80402000 4096 ?s = Ok (0x80800000, set_kmem m ?s)"
    "freevm 0x80800000 (set_kmem m ?s) = Ok (set_kmem m' ?s)" "free_pages m' ys" "set ys = set (0x80800000 # tl fork_pages)"
    using copyuvm_freevm_roundtrip [OF f(1) _ kd f(2) _ room k c, of 4096] by auto
  show ?thesis
    using r fork_pages_cons(1) by (intro exI [of _ m] exI [of _ m'] exI [of _ ys]) (metis krn_kmem_simps(2))
qed

end
