(* ===== verification/Wait_Spec.thy ===== *)
theory Wait_Spec
  imports Freevm_Spec
begin

text \<open>
  \<open>wait\<close> and the child that has exited: what the scan of the table finds, and that reaping the child gives back
  its kernel stack and its whole address space and leaves a free slot.
\<close>

subsection \<open>The scan\<close>

text \<open>The first child of \<open>p\<close> that has exited, when there is one.\<close>

definition first_zombie :: "nat \<Rightarrow> pproc list \<Rightarrow> nat \<Rightarrow> bool" where
  "first_zombie p ps j \<longleftrightarrow> j < length ps \<and> parent (ps ! j) = Some p \<and> state (ps ! j) = ZOMBIE
     \<and> (\<forall>k < j. parent (ps ! k) = Some p \<longrightarrow> state (ps ! k) \<noteq> ZOMBIE)"

lemma wait_scan_zombie: "first_zombie p ps j \<Longrightarrow> \<exists>b. wait_scan p i kids ps = (b, Some (i + j))"
proof (induction ps arbitrary: i j kids)
  case (Cons q ps)
  show ?case
  proof (cases j)
    case 0
    then show ?thesis using Cons.prems by (auto simp: first_zombie_def)
  next
    case (Suc k)
    then have "first_zombie p ps k" using Cons.prems unfolding first_zombie_def by fastforce
    moreover have "parent q = Some p \<longrightarrow> state q \<noteq> ZOMBIE" using Cons.prems Suc unfolding first_zombie_def by fastforce
    ultimately show ?thesis using Cons.IH [of k "Suc i"] Suc by auto
  qed
qed (simp add: first_zombie_def)

lemma wait_scan_none:
  "\<forall>q \<in> set ps. parent q = Some p \<longrightarrow> state q \<noteq> ZOMBIE \<Longrightarrow>
    wait_scan p i kids ps = (kids \<or> (\<exists>q \<in> set ps. parent q = Some p), None)"
  by (induction ps arbitrary: i kids) auto

subsection \<open>Reaping\<close>

definition reaped :: "pproc \<Rightarrow> pproc" where
  "reaped q = q\<lparr>kstack := 0, pid := 0, parent := None, pname := [], killed := False, state := UNUSED\<rparr>"

text \<open>The kernel stack of a process: a page in use, apart from its address space.\<close>

definition stack_apart :: "kmem \<Rightarrow> u32 \<Rightarrow> u32 list \<Rightarrow> u32 \<Rightarrow> bool" where
  "stack_apart s d xs k \<longleftrightarrow> page_ok s k \<and> k \<notin> set xs \<and> k \<noteq> d \<and> (\<forall>va. has_table s d va \<longrightarrow> table_of s d va \<noteq> k)
     \<and> (\<forall>va. user_used s d va \<longrightarrow> data_page s d va \<noteq> k)"

text \<open>The pages of an address space.\<close>

definition space_pages :: "kmem \<Rightarrow> u32 \<Rightarrow> u32 set" where
  "space_pages s d = {data_page s d va | va. user_used s d va} \<union> {table_of s d va | va. has_table s d va} \<union> {d}"

lemma kfree_stack:
  assumes sp: "space_ok s d xs" and k: "stack_apart s d xs k"
  shows "\<exists>t. kfree k s = Ok t \<and> space_ok t d (k # xs) \<and> space_pages t d = space_pages s d
    \<and> (\<forall>i. \<not> in_page k i \<longrightarrow> mem t i = mem s i)"
proof -
  have ok: "pgdir_ok s d xs" using sp by (simp add: space_ok_def)
  have a: "page_ok s k" "k \<notin> set xs" "k \<noteq> d" "\<forall>va. has_table s d va \<longrightarrow> table_of s d va \<noteq> k"
    "\<And>va. user_used s d va \<Longrightarrow> data_page s d va \<noteq> k" using k by (auto simp: stack_apart_def)
  obtain t where t: "kfree k s = Ok t" "pgdir_ok t d (k # xs)" "\<forall>i. \<not> in_page k i \<longrightarrow> mem t i = mem s i" "kend t = kend s"
    "\<And>va. has_table t d va = has_table s d va" "\<And>va. table_of t d va = table_of s d va" "\<And>va. pte_of t d va = pte_of s d va"
    using kfree_data [OF ok a(1-4)] by blast
  have u: "user_used t d = user_used s d" "data_page t d = data_page s d"
    using t(7) by (auto simp: user_used_def data_page_def fun_eq_iff)
  have pg: "page_ok t = page_ok s" using t(4) by (auto simp: page_ok_def fun_eq_iff)
  have "space_ok t d (k # xs)"
    unfolding space_ok_def u pg t(4-6)
  proof (intro conjI)
    show "pgdir_ok t d (k # xs)" by (fact t(2))
    show "KERNBASE < kend s" using sp by (simp add: space_ok_def)
    show "\<forall>va. user_used s d va \<longrightarrow> page_ok s (data_page s d va) \<and> data_page s d va \<notin> set (k # xs) \<and> data_page s d va \<noteq> d
        \<and> (\<forall>vb. has_table s d vb \<longrightarrow> table_of s d vb \<noteq> data_page s d va)"
      using sp a(5) unfolding space_ok_def set_simps insert_iff by blast
    show "\<forall>va vb. user_used s d va \<longrightarrow> user_used s d vb \<longrightarrow> data_page s d va = data_page s d vb \<longrightarrow> page_no va = page_no vb"
      using sp unfolding space_ok_def by blast
  qed
  moreover have "space_pages t d = space_pages s d" unfolding space_pages_def u t(5,6) ..
  ultimately show ?thesis using t(1,3) by blast
qed

lemma lock_kmem:
  "pt_acquire s = Ok t \<Longrightarrow> kmem_of t = kmem_of s"
  "pt_release s = Ok t \<Longrightarrow> kmem_of t = kmem_of s"
  by (auto simp: pt_acquire_def pt_release_def bnd_eq_Ok kmem_of_def)

lemma reap_ok:
  assumes inv: "sched_inv i s" and c: "on_cpu i (Some p) s" "p \<noteq> j" "j < length (ptab s)" "pgdir (ptab s ! p) \<noteq> pgdir (ptab s ! j)"
    and sp: "space_ok (kmem_of s) (pgdir (ptab s ! j)) xs" and k: "stack_apart (kmem_of s) (pgdir (ptab s ! j)) xs (kstack (ptab s ! j))"
  shows "\<exists>t ys. reap j s = Ok (pid (ptab s ! j), t) \<and> kernel_inv i t \<and> on_cpu i (Some p) t
    \<and> ptab t = (ptab s)[j := reaped (ptab s ! j)] \<and> free_pages (kmem_of t) ys
    \<and> set ys = set xs \<union> {kstack (ptab s ! j)} \<union> space_pages (kmem_of s) (pgdir (ptab s ! j))
    \<and> (\<forall>x. (\<forall>y \<in> set ys. \<not> in_page y x) \<longrightarrow> mem (kmem_of t) x = mem (kmem_of s) x)"
proof -
  let ?q = "ptab s ! j" and ?d = "pgdir (ptab s ! j)" and ?k = "kstack (ptab s ! j)"
  obtain m where m: "kfree ?k (kmem_of s) = Ok m" "space_ok m ?d (?k # xs)" "space_pages m ?d = space_pages (kmem_of s) ?d"
    "\<forall>x. \<not> in_page ?k x \<longrightarrow> mem m x = mem (kmem_of s) x"
    using kfree_stack [OF sp k] by blast
  let ?s = "upd_pp j (\<lambda>q. q\<lparr>kstack := 0\<rparr>) (set_kmem m s)"
  have cur: "cur ?s = Some p" using cur_on_cpu [of i 1 s "Some p"] inv c(1) by (simp add: sched_inv_def)
  have "space_ok (kmem_of ?s) ?d (?k # xs)" "pgdir (ptab ?s ! p) \<noteq> ?d" using m(2) c(2,4) by simp_all
  from freevm_ok [OF this(1) cur this(2)] obtain m2 ys where f: "freevm ?d ?s = Ok (set_kmem m2 ?s)" "free_pages m2 ys"
    "set ys = set (?k # xs) \<union> space_pages m ?d" "\<forall>x. (\<forall>y \<in> set ys. \<not> in_page y x) \<longrightarrow> mem m2 x = mem m x"
    unfolding space_pages_def by (auto simp: Un_assoc)
  let ?t = "upd_pp j (\<lambda>q. q\<lparr>pid := 0, parent := None, pname := [], killed := False, state := UNUSED\<rparr>) (set_kmem m2 ?s)"
  have pt: "ptab ?t = (ptab s)[j := reaped ?q]" using c(3) by (simp add: upd_pp_def reaped_def)
  have "sched_inv i ?t"
  proof -
    have "table_ok ?t" using inv c(3) unfolding sched_inv_def table_ok_def pt
      by (auto simp: nth_list_update live_def reaped_def set_kmem_def)
    then show ?thesis using inv by (simp add: sched_inv_def depth_update cpu_depth_def set_kmem_def)
  qed
  then obtain t where t: "pt_release ?t = Ok t" "kernel_inv i t" "ptab t = ptab ?t"
    "cpuproc (cpus (mach t) ! i) = cpuproc (cpus (mach ?t) ! i)"
    using pt_release_kernel [of i ?t] by blast
  have km: "kmem_of t = kmem_of ?t" by (rule lock_kmem(2) [OF t(1)])
  have "reap j s = Ok (pid ?q, t)"
    using m(1) f(1) t(1) c(3) by (simp add: reap_def on_kmem_def)
  moreover have "on_cpu i (Some p) t" using t(4) c(1) by (simp add: on_cpu_def set_kmem_def)
  moreover have "free_pages (kmem_of t) ys" using f(2) km by simp
  moreover have "mem (kmem_of t) x = mem (kmem_of s) x" if "\<forall>y \<in> set ys. \<not> in_page y x" for x
    using that f(3,4) m(4) km by simp
  moreover have "set ys = set xs \<union> {?k} \<union> space_pages (kmem_of s) ?d" using f(3) m(3) by auto
  ultimately show ?thesis using t(2,3) pt by metis
qed

text \<open>
  C18. \<open>wait\<close> reaps.  When the caller has a child that has exited, \<open>wait\<close> returns the id of the first one in the
  table without sleeping; the slot of the child is then free and unlinked from its parent, every other slot is
  unchanged, \<open>ptable.lock\<close> is free again, and the free list has gained exactly the kernel stack, the user pages
  in memory, the page tables and the directory of the child; outside of free pages no byte has changed.
\<close>

theorem wait_reaps_child:
  assumes inv: "kernel_inv i s" and c: "on_cpu i (Some p) s" and z: "first_zombie p (ptab s) j"
    and d: "pgdir (ptab s ! p) \<noteq> pgdir (ptab s ! j)"
    and sp: "space_ok (kmem_of s) (pgdir (ptab s ! j)) xs" "stack_apart (kmem_of s) (pgdir (ptab s ! j)) xs (kstack (ptab s ! j))"
  shows "\<exists>t ys. wait_proc s = Ok (Returned (pid (ptab s ! j)) t) \<and> kernel_inv i t \<and> on_cpu i (Some p) t
    \<and> ptab t = (ptab s)[j := reaped (ptab s ! j)] \<and> free_pages (kmem_of t) ys
    \<and> set ys = set xs \<union> {kstack (ptab s ! j)} \<union> space_pages (kmem_of s) (pgdir (ptab s ! j))
    \<and> (\<forall>x. (\<forall>y \<in> set ys. \<not> in_page y x) \<longrightarrow> mem (kmem_of t) x = mem (kmem_of s) x)"
proof -
  obtain s1 where s1: "pt_acquire s = Ok s1" "sched_inv i s1" "ptab s1 = ptab s" "cpuproc (cpus (mach s1) ! i) = cpuproc (cpus (mach s) ! i)"
    using pt_acquire_kernel [OF inv] by blast
  have km: "kmem_of s1 = kmem_of s" by (rule lock_kmem(1) [OF s1(1)])
  have c1: "on_cpu i (Some p) s1" using c s1(4) by (simp add: on_cpu_def)
  then have cur: "cur s1 = Some p" using cur_on_cpu s1(2) unfolding sched_inv_def by blast
  have j: "j < length (ptab s)" "p \<noteq> j" using z d by (auto simp: first_zombie_def)
  obtain b where "wait_scan p 0 False (ptab s) = (b, Some j)" using wait_scan_zombie [OF z, of 0 False] by auto
  then have "wait_proc s = bnd (reap j s1) (\<lambda>(n, t). Ok (Returned n t))"
    using s1(1,3) cur by (simp add: wait_proc_def wait_round_def with_cur_def)
  moreover obtain t ys where "reap j s1 = Ok (pid (ptab s ! j), t)" "kernel_inv i t" "on_cpu i (Some p) t"
    "ptab t = (ptab s)[j := reaped (ptab s ! j)]" "free_pages (kmem_of t) ys"
    "set ys = set xs \<union> {kstack (ptab s ! j)} \<union> space_pages (kmem_of s) (pgdir (ptab s ! j))"
    "\<forall>x. (\<forall>y \<in> set ys. \<not> in_page y x) \<longrightarrow> mem (kmem_of t) x = mem (kmem_of s) x"
    using reap_ok [OF s1(2) c1 j(2), unfolded s1(3) km, OF j(1) d sp] by blast
  ultimately show ?thesis by (intro exI [of _ t] exI [of _ ys]) simp
qed

text \<open>Without such a child: \<open>-1\<close> when there is no child at all or the caller has been killed, else it sleeps on itself.\<close>

lemma wait_without_zombie:
  assumes inv: "kernel_inv i s" and c: "runs i p s"
    and z: "\<forall>q \<in> set (ptab s). parent q = Some p \<longrightarrow> state q \<noteq> ZOMBIE"
  shows "if (\<forall>q \<in> set (ptab s). parent q \<noteq> Some p) \<or> killed (ptab s ! p)
    then \<exists>t. wait_proc s = Ok (Returned (- 1) t) \<and> kernel_inv i t \<and> ptab t = ptab s
    else \<exists>t b. wait_proc s = Ok (Sleeping t) \<and> sched_inv i t
      \<and> ptab t = (ptab s)[p := (ptab s ! p)\<lparr>chan := Chan_proc p, state := SLEEPING, ctxt := InKernel b\<rparr>]"
proof -
  obtain s1 where s1: "pt_acquire s = Ok s1" "sched_inv i s1" "ptab s1 = ptab s" "cpuproc (cpus (mach s1) ! i) = cpuproc (cpus (mach s) ! i)"
    using pt_acquire_kernel [OF inv] by blast
  have c1: "runs i p s1" using c runs_cong [OF s1(3,4)] by simp
  have cur: "cur s1 = Some p" by (rule sched_inv_cur [OF s1(2) c1])
  note run = wait_proc_def wait_round_def with_cur_def wait_scan_none [OF z]
  show ?thesis
  proof (cases "(\<forall>q \<in> set (ptab s). parent q \<noteq> Some p) \<or> killed (ptab s ! p)")
    case True
    obtain t where "pt_release s1 = Ok t" "kernel_inv i t" "ptab t = ptab s1" using pt_release_kernel [OF s1(2)] by blast
    then show ?thesis using True s1(1,3) cur by (auto simp: run)
  next
    case False
    let ?u = "upd_pp p (\<lambda>q. q\<lparr>chan := Chan_proc p, state := SLEEPING\<rparr>) s1"
    have p: "p < length (ptab s)" using c by (simp add: runs_def)
    have u: "sched_inv i ?u" "on_cpu i (Some p) ?u" "state (ptab ?u ! p) \<noteq> RUNNING"
      using s1(2) c1 by (auto simp: sched_inv_def depth_update table_ok_def upd_pp_def nth_list_update live_def runs_def cpu_depth_def on_cpu_def)
    then obtain b where b: "sched ?u = Ok (upd_pp p (\<lambda>q. q\<lparr>ctxt := InKernel b\<rparr>) ?u)"
      using sched_switches [of i ?u p] by (auto simp: sched_inv_def)
    let ?t = "upd_pp p (\<lambda>q. q\<lparr>ctxt := InKernel b\<rparr>) ?u"
    have "wait_proc s = Ok (Sleeping ?t)" using False s1(1,3) cur b by (auto simp: run sleep_def)
    moreover have "sched_inv i ?t"
      using u(1) by (auto simp: sched_inv_def depth_update intro!: table_ok_upd) (auto simp: live_def)
    moreover have "ptab ?t = (ptab s)[p := (ptab s ! p)\<lparr>chan := Chan_proc p, state := SLEEPING, ctxt := InKernel b\<rparr>]"
      using s1(3) p by (simp add: upd_pp_def)
    ultimately show ?thesis unfolding if_not_P [OF False] by blast
  qed
qed

text \<open>The machine of the witness: process 1 runs on CPU 1, its child 0 has exited.\<close>

definition wait_krn :: "unit krn" where
  "wait_krn = (krn_demo kio_demo)\<lparr>ptab := [proc_demo\<lparr>pid := 3, parent := Some 1, kstack := 0x80406000, state := ZOMBIE\<rparr>,
       proc_demo\<lparr>pgdir := 0x80300000, pid := 2, state := RUNNING\<rparr>],
     mach := two_cpus\<lparr>cpus := (cpus two_cpus)[1 := \<lparr>apicid = 4, ncli = 0, intena = False, cpuproc = Some 1\<rparr>]\<rparr>\<rparr>"

lemma wait_krn_inv: "kernel_inv 1 (set_kmem m wait_krn)" "runs 1 1 (set_kmem m wait_krn)"
    "first_zombie 1 (ptab (set_kmem m wait_krn)) 0"
  by (auto simp: wait_krn_def kernel_inv_def cpu_depth_def nest_ok_def cpu_at_def two_cpus_def krn_demo_def set_kmem_def
      table_ok_def free_lock_def live_def proc_demo_def less_Suc_eq runs_def on_cpu_def first_zombie_def)

theorem wait_reaps_child_witness:
  "\<exists>t ys. wait_proc (set_kmem fork_demo wait_krn) = Ok (Returned 3 t) \<and> state (ptab t ! 0) = UNUSED
    \<and> free_pages (kmem_of t) ys \<and> 0x80406000 \<in> set ys \<and> 0x80402000 \<in> set ys"
proof -
  let ?s = "set_kmem fork_demo wait_krn"
  have q: "pgdir (ptab ?s ! 0) = 0x80402000" "kstack (ptab ?s ! 0) = 0x80406000" "pid (ptab ?s ! 0) = 3"
    "pgdir (ptab ?s ! 1) = 0x80300000" "0 < length (ptab ?s)"
    by (simp_all add: wait_krn_def proc_demo_def)
  have "(0x80406000 :: u32) \<notin> set fork_pages" using fork_pages_ok by fastforce
  moreover have "page_ok fork_demo 0x80406000" by (simp add: fork_demo_def page_ok_def V2P_def mmu_constants)
  ultimately have k: "stack_apart fork_demo 0x80402000 fork_pages 0x80406000"
    using fork_demo_used fork_demo_table by (auto simp: stack_apart_def)
  have c: "on_cpu 1 (Some 1) ?s" using wait_krn_inv(2) by (simp add: runs_def)
  have d: "pgdir (ptab ?s ! 1) \<noteq> pgdir (ptab ?s ! 0)" unfolding q by simp
  have sp: "space_ok (kmem_of ?s) (pgdir (ptab ?s ! 0)) fork_pages"
    "stack_apart (kmem_of ?s) (pgdir (ptab ?s ! 0)) fork_pages (kstack (ptab ?s ! 0))"
    unfolding q using fork_demo_space k by simp_all
  obtain t ys where r: "wait_proc ?s = Ok (Returned 3 t)" "ptab t = (ptab ?s)[0 := reaped (ptab ?s ! 0)]" "free_pages (kmem_of t) ys"
    "set ys = set fork_pages \<union> {0x80406000} \<union> space_pages (kmem_of ?s) 0x80402000"
    using wait_reaps_child [OF wait_krn_inv(1) c wait_krn_inv(3) d sp] unfolding q by blast
  have "state (ptab t ! 0) = UNUSED" using r(2) q(5) by (simp add: reaped_def)
  then show ?thesis using r(1,3,4) by (intro exI [of _ t] exI [of _ ys]) (simp add: space_pages_def)
qed

end
