(* ===== verification/Grep.thy ===== *)
theory Grep
  imports CString
begin

text \<open>
  The user program \<open>grep\<close> (\<open>grep.c\<close>): the regular expressions of Kernighan and Pike with
  \<open>^\<close>, \<open>.\<close>, \<open>*\<close> and \<open>$\<close>, and the loop that cuts the input into lines in a buffer of 1024
  bytes.  A C string is the list of its bytes before the NUL, so the empty list stands for a pointer to
  a NUL.  Files are reached through the parameters \<open>rd\<close> (\<open>read\<close>: at most so many bytes, \<open>None\<close> on an
  error) and \<open>op\<close> (\<open>open\<close>).  The theory shows that the matcher decides the language of the
  expression, and which lines \<open>grep\<close> prints.
\<close>

definition NL :: u8 where "NL = 10"
definition CARET :: u8 where "CARET = 94"
definition DOTC :: u8 where "DOTC = 46"
definition STAR :: u8 where "STAR = 42"
definition DOLLAR :: u8 where "DOLLAR = 36"

lemmas grep_chars = CARET_def DOTC_def STAR_def DOLLAR_def NL_def

subsection \<open>Matching\<close>

function matchhere :: "u8 list \<Rightarrow> u8 list \<Rightarrow> bool"
  and matchstar :: "u8 \<Rightarrow> u8 list \<Rightarrow> u8 list \<Rightarrow> bool" where
  "matchhere re text =
     (if re = [] then True
      else if tl re \<noteq> [] \<and> hd (tl re) = STAR then matchstar (hd re) (drop 2 re) text
      else if hd re = DOLLAR \<and> tl re = [] then text = []
      else if text \<noteq> [] \<and> (hd re = DOTC \<or> hd re = hd text) then matchhere (tl re) (tl text)
      else False)"
| "matchstar c re text =
     (if matchhere re text then True
      else if text \<noteq> [] \<and> (hd text = c \<or> c = DOTC) then matchstar c re (tl text)
      else False)"
  by pat_completeness auto
termination
  by (relation "measure (\<lambda>x. case x of Inl (re, t) \<Rightarrow> 2 * length re + length t
        | Inr (c, re, t) \<Rightarrow> 2 * length re + length t + 1)")
    (auto simp: neq_Nil_conv)

declare matchhere.simps [simp del] matchstar.simps [simp del]

text \<open>The loop of \<open>match\<close> over the suffixes of the text, the empty one included.\<close>

fun match_any :: "u8 list \<Rightarrow> u8 list \<Rightarrow> bool" where
  "match_any re [] = matchhere re []"
| "match_any re (c # text) = (if matchhere re (c # text) then True else match_any re text)"

definition match :: "u8 list \<Rightarrow> u8 list \<Rightarrow> bool" where
  "match re text =
     (if re \<noteq> [] \<and> hd re = CARET then matchhere (tl re) text else match_any re text)"

subsection \<open>The lines of a file\<close>

text \<open>\<open>strchr(p, '\n')\<close>: the text before the newline and behind it, null when a NUL comes first.\<close>

definition next_line :: "u8 list \<Rightarrow> (u8 list \<times> u8 list) option" where
  "next_line p =
     (if NL \<in> set (takeWhile (\<lambda>c. c \<noteq> 0) p)
      then Some (takeWhile (\<lambda>c. c \<noteq> NL) p, tl (dropWhile (\<lambda>c. c \<noteq> NL) p)) else None)"

lemma next_line_shorter: "next_line p = Some (l, q) \<Longrightarrow> length q < length p"
proof -
  assume "next_line p = Some (l, q)"
  then have "NL \<in> set p" "q = tl (dropWhile (\<lambda>c. c \<noteq> NL) p)"
    by (auto simp: next_line_def dest: set_takeWhileD split: if_splits)
  moreover from this(1) have "dropWhile (\<lambda>c. c \<noteq> NL) p \<noteq> []" by simp
  ultimately show ?thesis
    using length_dropWhile_le [of "\<lambda>c. c \<noteq> NL" p] by (cases "dropWhile (\<lambda>c. c \<noteq> NL) p") auto
qed

text \<open>The lines in the buffer: what is written, and what is left behind the last newline.\<close>

function scan_lines :: "u8 list \<Rightarrow> u8 list \<Rightarrow> u8 list \<times> u8 list" where
  "scan_lines pat p =
     (case next_line p of
        None \<Rightarrow> ([], p)
      | Some (l, q) \<Rightarrow>
          let (out, r) = scan_lines pat q in ((if match pat l then l @ [NL] else []) @ out, r))"
  by pat_completeness auto
termination
  by (relation "measure (\<lambda>(_, p). length p)") (auto dest: next_line_shorter)

declare scan_lines.simps [simp del]

definition GREPBUF :: nat where "GREPBUF = 1024"

text \<open>
  The loop of \<open>grep\<close>; \<open>held\<close> is \<open>buf[0..m)\<close>.  \<open>None\<close> when the fuel runs out before \<open>read\<close>
  reports the end.
\<close>

fun grep_loop :: "(nat \<Rightarrow> 'i \<Rightarrow> u8 list option \<times> 'i) \<Rightarrow> nat \<Rightarrow> u8 list \<Rightarrow> u8 list \<Rightarrow> 'i \<Rightarrow> (u8 list \<times> 'i) option" where
  "grep_loop rd 0 pat held i = None"
| "grep_loop rd (Suc k) pat held i =
     (case rd (GREPBUF - length held - 1) i of
        (None, j) \<Rightarrow> Some ([], j)
      | (Some [], j) \<Rightarrow> Some ([], j)
      | (Some bs, j) \<Rightarrow>
          let p = held @ bs; (out, r) = scan_lines pat p;
              held' = (if length r = length p then [] else r)
          in map_option (\<lambda>(o', j'). (out @ o', j')) (grep_loop rd k pat held' j))"

definition grep :: "(nat \<Rightarrow> 'i \<Rightarrow> u8 list option \<times> 'i) \<Rightarrow> nat \<Rightarrow> u8 list \<Rightarrow> 'i \<Rightarrow> (u8 list \<times> 'i) option" where
  "grep rd k pat i = grep_loop rd k pat [] i"

text \<open>The main program: what it writes, with the descriptor.\<close>

definition bytes_of :: "string \<Rightarrow> u8 list" where
  "bytes_of s = map (\<lambda>c. word_of_nat (of_char c)) s"

fun grep_files :: "(nat \<Rightarrow> 'i \<Rightarrow> u8 list option \<times> 'i) \<Rightarrow> (u8 list \<Rightarrow> 'i option) \<Rightarrow> nat \<Rightarrow> u8 list \<Rightarrow> u8 list list
    \<Rightarrow> (nat \<times> u8 list) list option" where
  "grep_files rd op k pat [] = Some []"
| "grep_files rd op k pat (f # fs) =
     (case op f of
        None \<Rightarrow> Some [(1, bytes_of ''grep: cannot open '' @ f @ [NL])]
      | Some i \<Rightarrow>
          (case grep rd k pat i of
             None \<Rightarrow> None
           | Some (out, _) \<Rightarrow> map_option (\<lambda>rest. (1, out) # rest) (grep_files rd op k pat fs)))"

definition grep_main :: "(nat \<Rightarrow> 'i \<Rightarrow> u8 list option \<times> 'i) \<Rightarrow> (u8 list \<Rightarrow> 'i option) \<Rightarrow> 'i \<Rightarrow> nat \<Rightarrow> u8 list list
    \<Rightarrow> (nat \<times> u8 list) list option" where
  "grep_main rd op stdin k argv =
     (if length argv \<le> 1 then Some [(2, bytes_of ''usage: grep pattern [file ...]'' @ [NL])]
      else if length argv \<le> 2 then map_option (\<lambda>(out, _). [(1, out)]) (grep rd k (argv ! 1) stdin)
      else grep_files rd op k (argv ! 1) (drop 2 argv))"

subsection \<open>What a pattern means\<close>

text \<open>
  The grammar: items that match one character or any number of them, and whether the match must reach
  the end.  The language of a list of items is given without the matcher.
\<close>

datatype item = One u8 | Many u8

definition char_ok :: "u8 \<Rightarrow> u8 \<Rightarrow> bool" where
  "char_ok c x \<longleftrightarrow> c = DOTC \<or> c = x"

fun items :: "u8 list \<Rightarrow> item list \<times> bool" where
  "items [] = ([], False)"
| "items [c] = (if c = DOLLAR then ([], True) else ([One c], False))"
| "items (c # d # re) =
     (if d = STAR then (Many c # fst (items re), snd (items re))
      else (One c # fst (items (d # re)), snd (items (d # re))))"

fun lang :: "item list \<Rightarrow> u8 list set" where
  "lang [] = {[]}"
| "lang (One c # is) = {x # w | x w. char_ok c x \<and> w \<in> lang is}"
| "lang (Many c # is) = {u @ w | u w. list_all (char_ok c) u \<and> w \<in> lang is}"

text \<open>The strings whose beginning is in the language, all of it if the pattern ends with \<open>$\<close>.\<close>

definition outside :: "bool \<Rightarrow> u8 list set" where
  "outside anchored = (if anchored then {[]} else UNIV)"

definition begins :: "u8 list \<Rightarrow> u8 list \<Rightarrow> bool" where
  "begins re t \<longleftrightarrow> (\<exists>w v. t = w @ v \<and> w \<in> lang (fst (items re)) \<and> v \<in> outside (snd (items re)))"

lemma begins_Nil: "begins [] t"
  by (simp add: begins_def outside_def)

lemma begins_star: "begins (c # STAR # re) t \<longleftrightarrow> (\<exists>u t'. t = u @ t' \<and> list_all (char_ok c) u \<and> begins re t')"
proof
  assume "begins (c # STAR # re) t"
  then obtain u w v where "t = (u @ w) @ v" "list_all (char_ok c) u" "w \<in> lang (fst (items re))"
    "v \<in> outside (snd (items re))"
    unfolding begins_def by auto
  then show "\<exists>u t'. t = u @ t' \<and> list_all (char_ok c) u \<and> begins re t'"
    unfolding begins_def by (intro exI [of _ u] exI [of _ "w @ v"]) auto
next
  assume "\<exists>u t'. t = u @ t' \<and> list_all (char_ok c) u \<and> begins re t'"
  then obtain u w v where "t = (u @ w) @ v" "list_all (char_ok c) u" "w \<in> lang (fst (items re))"
    "v \<in> outside (snd (items re))"
    by (auto simp: begins_def)
  then show "begins (c # STAR # re) t" unfolding begins_def by (intro exI [of _ "u @ w"] exI [of _ v]) auto
qed

lemma begins_dollar: "begins [DOLLAR] t \<longleftrightarrow> t = []"
  by (auto simp: begins_def outside_def)

lemma begins_one:
  assumes "\<not> (re \<noteq> [] \<and> hd re = STAR)" "\<not> (c = DOLLAR \<and> re = [])"
  shows "begins (c # re) t \<longleftrightarrow> (\<exists>x t'. t = x # t' \<and> char_ok c x \<and> begins re t')"
proof -
  have i: "items (c # re) = (One c # fst (items re), snd (items re))"
    using assms by (cases re) auto
  show ?thesis
  proof
    assume "begins (c # re) t"
    then show "\<exists>x t'. t = x # t' \<and> char_ok c x \<and> begins re t'"
      unfolding begins_def i by (auto, blast)
  next
    assume "\<exists>x t'. t = x # t' \<and> char_ok c x \<and> begins re t'"
    then obtain x w v where "t = (x # w) @ v" "char_ok c x" "w \<in> lang (fst (items re))"
      "v \<in> outside (snd (items re))" by (auto simp: begins_def)
    then show "begins (c # re) t" unfolding begins_def i by (intro exI [of _ "x # w"] exI [of _ v]) auto
  qed
qed

lemma begins_step:
  "(\<exists>u t'. t = u @ t' \<and> list_all (char_ok c) u \<and> P t') \<longleftrightarrow>
   P t \<or> (t \<noteq> [] \<and> char_ok c (hd t) \<and> (\<exists>u t'. tl t = u @ t' \<and> list_all (char_ok c) u \<and> P t'))"
proof
  assume "\<exists>u t'. t = u @ t' \<and> list_all (char_ok c) u \<and> P t'"
  then obtain u t' where "t = u @ t'" "list_all (char_ok c) u" "P t'" by blast
  then show "P t \<or> (t \<noteq> [] \<and> char_ok c (hd t) \<and> (\<exists>u t'. tl t = u @ t' \<and> list_all (char_ok c) u \<and> P t'))"
    by (cases u) auto
next
  assume "P t \<or> (t \<noteq> [] \<and> char_ok c (hd t) \<and> (\<exists>u t'. tl t = u @ t' \<and> list_all (char_ok c) u \<and> P t'))"
  then show "\<exists>u t'. t = u @ t' \<and> list_all (char_ok c) u \<and> P t'"
  proof
    assume "P t"
    then show ?thesis by (intro exI [of _ "[]"] exI [of _ t]) simp
  next
    assume "t \<noteq> [] \<and> char_ok c (hd t) \<and> (\<exists>u t'. tl t = u @ t' \<and> list_all (char_ok c) u \<and> P t')"
    then obtain u t' where "t \<noteq> []" "char_ok c (hd t)" "tl t = u @ t'" "list_all (char_ok c) u" "P t'" by blast
    then show ?thesis by (intro exI [of _ "hd t # u"] exI [of _ t']) (cases t, auto)
  qed
qed

lemma matchhere_begins:
  "matchhere re t \<longleftrightarrow> begins re t"
  "matchstar c re t \<longleftrightarrow> (\<exists>u t'. t = u @ t' \<and> list_all (char_ok c) u \<and> begins re t')"
proof (induction re t and c re t rule: matchhere_matchstar.induct)
  case (1 re t)
  consider "re = []" | c r where "re = c # STAR # r" | "re = [DOLLAR]"
    | c r where "re = c # r" "\<not> (r \<noteq> [] \<and> hd r = STAR)" "\<not> (c = DOLLAR \<and> r = [])"
    by (metis list.collapse)
  then show ?case
  proof cases
    case 1
    then show ?thesis by (simp add: matchhere.simps begins_Nil)
  next
    case (2 c r)
    then have "matchhere re t = matchstar c r t" by (subst matchhere.simps) simp
    then show ?thesis using 1(1) 2 by (simp add: begins_star)
  next
    case 3
    then show ?thesis by (subst matchhere.simps) (simp add: begins_dollar)
  next
    case (4 c r)
    have m: "matchhere re t \<longleftrightarrow> t \<noteq> [] \<and> char_ok c (hd t) \<and> matchhere r (tl t)"
      using 4 by (subst matchhere.simps) (auto simp: char_ok_def)
    have "matchhere r (tl t) \<longleftrightarrow> begins r (tl t)" if "t \<noteq> []" "char_ok c (hd t)"
      using 1(2) 4 that by (auto simp: char_ok_def)
    then show ?thesis unfolding m unfolding 4(1) begins_one [OF 4(2,3)] by (cases t) auto
  qed
next
  case (2 c re t)
  have m: "matchstar c re t \<longleftrightarrow> matchhere re t \<or> t \<noteq> [] \<and> char_ok c (hd t) \<and> matchstar c re (tl t)"
    by (subst matchstar.simps) (auto simp: char_ok_def)
  have "matchstar c re (tl t) \<longleftrightarrow> (\<exists>u t'. tl t = u @ t' \<and> list_all (char_ok c) u \<and> begins re t')"
    if "\<not> matchhere re t" "t \<noteq> []" "char_ok c (hd t)"
  proof (rule 2(2))
    show "t \<noteq> [] \<and> (hd t = c \<or> c = DOTC)" using that(2,3) by (auto simp: char_ok_def)
  qed (rule that(1))
  then show ?case unfolding m begins_step [of t c] 2(1) [symmetric] by blast
qed

lemma match_any_begins: "match_any re t \<longleftrightarrow> (\<exists>u t'. t = u @ t' \<and> begins re t')"
proof (induction t)
  case (Cons x t)
  have "(\<exists>u t'. x # t = u @ t' \<and> begins re t') \<longleftrightarrow> begins re (x # t) \<or> (\<exists>u t'. t = u @ t' \<and> begins re t')"
    by (auto simp: Cons_eq_append_conv)
  then show ?case using Cons by (simp add: matchhere_begins)
qed (simp add: matchhere_begins)

text \<open>
  C14. The matcher decides its language.  A pattern denotes a list of items (a character, any character,
  and either of them repeated with \<open>*\<close>), anchored at the start by \<open>^\<close> and at the end by \<open>$\<close>;
  \<open>match\<close> says yes exactly when the text splits into a beginning (empty if anchored), a string of the
  language of the items and a rest (empty if anchored).  The backtracking search always terminates and
  misses nothing.
\<close>

theorem match_decides_language:
  "match re text \<longleftrightarrow>
   (let anchored = (re \<noteq> [] \<and> hd re = CARET); (is, at_end) = items (if anchored then tl re else re)
    in \<exists>u w v. text = u @ w @ v \<and> w \<in> lang is \<and> u \<in> outside anchored \<and> v \<in> outside at_end)"
proof (cases "re \<noteq> [] \<and> hd re = CARET")
  case True
  then have "match re text \<longleftrightarrow> begins (tl re) text" by (simp add: match_def matchhere_begins)
  then show ?thesis using True by (simp add: begins_def outside_def [of True] split_beta)
next
  case False
  then have "match re text \<longleftrightarrow> (\<exists>u t'. text = u @ t' \<and> begins re t')"
    unfolding match_def match_any_begins by (simp only: if_False)
  also have "\<dots> \<longleftrightarrow> (\<exists>u w v. text = u @ w @ v \<and> w \<in> lang (fst (items re)) \<and> v \<in> outside (snd (items re)))"
    unfolding begins_def by blast
  finally show ?thesis using False by (simp only: if_False Let_def split_beta) (simp add: outside_def [of False])
qed

subsection \<open>What \<open>grep\<close> prints\<close>

text \<open>A file on disk: \<open>read\<close> returns as much as it is asked for while there is something left.\<close>

definition file_read :: "nat \<Rightarrow> u8 list \<Rightarrow> u8 list option \<times> u8 list" where
  "file_read n i = (Some (take n i), drop n i)"

definition plain :: "u8 list \<Rightarrow> bool" where
  "plain l \<longleftrightarrow> NL \<notin> set l \<and> 0 \<notin> set l"

definition as_text :: "u8 list list \<Rightarrow> u8 list" where
  "as_text ls = concat (map (\<lambda>l. l @ [NL]) ls)"

lemma as_text_simps [simp]: "as_text [] = []" "as_text (l # ls) = l @ NL # as_text ls" "as_text (ls @ ms) = as_text ls @ as_text ms"
  by (simp_all add: as_text_def)

lemma next_line_text:
  assumes "plain l"
  shows "next_line (l @ NL # t) = Some (l, t)"
proof -
  have "takeWhile (\<lambda>c. c \<noteq> 0) (l @ NL # t) = l @ takeWhile (\<lambda>c. c \<noteq> 0) (NL # t)"
    using assms by (intro takeWhile_append2) (auto simp: plain_def)
  moreover have "takeWhile (\<lambda>c. c \<noteq> NL) (l @ NL # t) = l" "dropWhile (\<lambda>c. c \<noteq> NL) (l @ NL # t) = NL # t"
    using assms by (simp_all add: plain_def takeWhile_append dropWhile_append)
  ultimately show ?thesis by (simp add: next_line_def NL_def)
qed

lemma next_line_none: "NL \<notin> set p \<Longrightarrow> next_line p = None"
  by (auto simp: next_line_def dest: set_takeWhileD)

lemma scan_lines_text:
  "list_all plain ls \<Longrightarrow> NL \<notin> set q \<Longrightarrow> scan_lines pat (as_text ls @ q) = (as_text (filter (match pat) ls), q)"
proof (induction ls)
  case Nil
  then show ?case by (subst scan_lines.simps) (simp add: next_line_none)
next
  case (Cons l ls)
  then show ?case by (subst scan_lines.simps) (simp add: next_line_text)
qed

lemma cut_text:
  "list_all plain ls \<Longrightarrow> plain r \<Longrightarrow> \<exists>pre todo q. ls = pre @ todo \<and> take n (as_text ls @ r) = as_text pre @ q
    \<and> NL \<notin> set q \<and> q @ drop n (as_text ls @ r) = as_text todo @ r"
proof (induction ls arbitrary: n)
  case Nil
  then show ?case by (intro exI [of _ "[]"] exI [of _ "take n r"]) (auto simp: plain_def dest: in_set_takeD)
next
  case (Cons l ls)
  show ?case
  proof (cases "n \<le> length l")
    case True
    have "NL \<notin> set (take n l)" using Cons.prems(1) by (auto simp: plain_def dest: in_set_takeD)
    then show ?thesis using True by (intro exI [of _ "[]"] exI [of _ "l # ls"] exI [of _ "take n l"]) simp
  next
    case False
    then obtain m where m: "n = length l + Suc m" by (metis less_imp_Suc_add not_le add_Suc_right)
    obtain pre todo q where "ls = pre @ todo" "take m (as_text ls @ r) = as_text pre @ q"
      "NL \<notin> set q" "q @ drop m (as_text ls @ r) = as_text todo @ r"
      using Cons.IH [of m] Cons.prems by auto
    then show ?thesis using m by (intro exI [of _ "l # pre"] exI [of _ todo] exI [of _ q]) simp
  qed
qed

lemma grep_loop_text:
  "length i < k \<Longrightarrow> held @ i = as_text ls @ r \<Longrightarrow> list_all plain ls \<Longrightarrow> plain r \<Longrightarrow> NL \<notin> set held \<Longrightarrow> length held < 1023 \<Longrightarrow>
   \<forall>l \<in> set ls. length l < 1023 \<Longrightarrow> length r < 1023 \<Longrightarrow>
   grep_loop file_read k pat held i = Some (as_text (filter (match pat) ls), [])"
proof (induction k arbitrary: held i ls)
  case (Suc k)
  show ?case
  proof (cases "i = []")
    case True
    have "ls = []" using Suc.prems(2,5) True by (cases ls) auto
    then show ?thesis using True by (simp add: file_read_def)
  next
    case False
    let ?n = "GREPBUF - length held - 1" and ?p = "take 1023 (as_text ls @ r)"
    have n: "?n = 1023 - length held" "0 < ?n" using Suc.prems(6) by (simp_all add: GREPBUF_def)
    have p: "held @ take ?n i = ?p" "drop ?n i = drop 1023 (as_text ls @ r)"
      using Suc.prems(6) unfolding Suc.prems(2) [symmetric] n(1) by simp_all
    obtain pre todo q where c: "ls = pre @ todo" "?p = as_text pre @ q" "NL \<notin> set q"
      "q @ drop 1023 (as_text ls @ r) = as_text todo @ r"
      using cut_text [OF Suc.prems(3,4)] by blast
    have scan: "scan_lines pat ?p = (as_text (filter (match pat) pre), q)"
      unfolding c(2) using Suc.prems(3) c(1,3) by (intro scan_lines_text) simp_all
    have bs: "take ?n i \<noteq> []" using False n(2) by simp
    have lp: "length ?p \<le> 1023" by simp
    have step: "grep_loop file_read (Suc k) pat held i =
       map_option (\<lambda>(o', j'). (as_text (filter (match pat) pre) @ o', j'))
         (grep_loop file_read k pat (if length q = length ?p then [] else q) (drop ?n i))"
    proof -
      obtain b bs' where b: "take ?n i = b # bs'" using bs by (cases "take ?n i") auto
      define P where "P = ?p"
      have "scan_lines pat P = (as_text (filter (match pat) pre), q)" "held @ b # bs' = P"
        using scan p(1) unfolding P_def b by simp_all
      moreover from this(2) have "length P = Suc (length held + length bs')" by (metis add_Suc_right length_Cons length_append)
      ultimately show ?thesis unfolding P_def [symmetric] using b by (simp add: file_read_def Let_def)
    qed
    have shorter: "length (drop ?n i) < k" 
    proof -
      have "0 < length i" using False by simp
      then have "length i - ?n < length i" using n(2) by (rule diff_less [rotated])
      then show ?thesis using Suc.prems(1) unfolding length_drop by linarith
    qed
    show ?thesis
    proof (cases "length q = length ?p")
      case True
      then have q: "pre = []" "q = ?p" using c(2) by (cases "pre"; simp)+
      have ls: "ls = []"
      proof (cases ls)
        case (Cons l ms)
        then have "length l < 1023" using Suc.prems(7) by simp
        then have "NL \<in> set ?p" unfolding Cons by (auto simp: take_Cons' Suc_diff_le)
        then show ?thesis using c(3) q(2) by simp
      qed
      then have "drop ?n i = []" using Suc.prems(8) p(2) by simp
      moreover have "grep_loop file_read k pat [] [] = Some ([], [])"
        using shorter by (cases k) (simp_all add: file_read_def)
      ultimately show ?thesis using step True ls q(1) by simp
    next
      case False
      have "length ?p = length (as_text pre) + length q" using c(2) by (metis length_append)
      then have lq: "length q < 1023" using False lp by linarith
      have "grep_loop file_read k pat q (drop ?n i) = Some (as_text (filter (match pat) todo), [])"
        using Suc.prems c lq p(2) by (intro Suc.IH [OF shorter]) auto
      then show ?thesis using step False c(1) by simp
    qed
  qed
qed simp

text \<open>
  C29. \<open>grep\<close> on a file.  For a file whose lines are shorter than 1023 bytes and hold no NUL, \<open>grep\<close>
  reaches the end and prints exactly the lines that match, in order and each with its newline, although
  the lines lie across the reads of its buffer; a last line that no newline ends is never printed, even
  if it matches.
\<close>

theorem grep_prints_matching_lines:
  assumes "list_all plain ls" "\<forall>l \<in> set ls. length l < 1023" "plain r" "length r < 1023"
    and "length (as_text ls @ r) < k"
  shows "grep file_read k pat (as_text ls @ r) = Some (as_text (filter (match pat) ls), [])"
  unfolding grep_def using assms by (intro grep_loop_text) simp_all

theorem grep_prints_matching_lines_witness:
  "grep file_read 20 [97, STAR, 98, DOLLAR] (as_text [[97, 98], [98, 97], [99, 98]] @ [98]) = Some (as_text [[97, 98], [99, 98]], [])"
proof -
  have "filter (match [97, STAR, 98, DOLLAR]) [[97, 98], [98, 97], [99, 98]] = [[97, 98], [99, 98]]"
    by (simp add: match_def matchhere.simps matchstar.simps grep_chars)
  then show ?thesis
    using grep_prints_matching_lines [of "[[97, 98], [98, 97], [99, 98]]" "[98]" 20 "[97, STAR, 98, DOLLAR]"]
    by (simp add: plain_def NL_def)
qed

end
