(* ===== verification/Printf.thy ===== *)
theory Printf
  imports Grep
begin

text \<open>
  Formatted output: \<open>printint\<close> and \<open>printf\<close> of the user library (\<open>printf.c\<close>).  The output is the list
  of bytes handed to \<open>putc\<close>.  \<open>ap j\<close> is the \<open>j\<close>-th word on the stack above the format, \<open>m\<close> the
  memory of the program.  The digits are collected in a buffer of 16 bytes; writing behind it is \<open>None\<close>,
  and so is a string that never ends.  The theory shows that integers are printed as their numerals.
\<close>

definition DIGITBUF :: nat where "DIGITBUF = 16"

definition digits :: "u8 list" where
  "digits = bytes_of ''0123456789ABCDEF''"

text \<open>
  The loop that stores the digits, last one first; \<open>k\<close> places are left in the buffer and \<open>tab\<close> is the
  table of digits.
\<close>

fun digits_loop :: "u8 list \<Rightarrow> nat \<Rightarrow> u32 \<Rightarrow> u32 \<Rightarrow> u8 list option" where
  "digits_loop tab 0 x b = None"
| "digits_loop tab (Suc k) x b =
     (let x' = x div b in
      if x' \<noteq> 0 then map_option ((#) (tab ! unat (x mod b))) (digits_loop tab k x' b)
      else Some [tab ! unat (x mod b)])"

definition printint :: "u32 \<Rightarrow> u32 \<Rightarrow> bool \<Rightarrow> u8 list option" where
  "printint xx b sg =
     (let neg = (sg \<and> sint xx < 0); x = (if neg then - xx else xx)
      in case digits_loop digits DIGITBUF x b of
           None \<Rightarrow> None
         | Some ds \<Rightarrow> if neg then if length ds < DIGITBUF then Some (rev (ds @ [45])) else None
                      else Some (rev ds))"

partial_function (option) put_string :: "bytes \<Rightarrow> u32 \<Rightarrow> u8 list option" where
  "put_string m s =
     (if m (unat s) = 0 then Some []
      else Option.bind (put_string m (s + 1)) (\<lambda>r. Some (m (unat s) # r)))"

text \<open>The loop over the format: \<open>pct\<close> is \<open>state == '%'\<close>, \<open>j\<close> how many arguments are used up.\<close>

fun printf_from :: "bytes \<Rightarrow> (nat \<Rightarrow> u32) \<Rightarrow> bool \<Rightarrow> nat \<Rightarrow> u8 list \<Rightarrow> u8 list option" where
  "printf_from m ap pct j [] = Some []"
| "printf_from m ap pct j (c # fmt) =
     (if \<not> pct
      then if c = 37 then printf_from m ap True j fmt
           else map_option ((#) c) (printf_from m ap False j fmt)
      else if c = 100
      then Option.bind (printint (ap j) 10 True) (\<lambda>o1. map_option ((@) o1) (printf_from m ap False (Suc j) fmt))
      else if c = 120 \<or> c = 112
      then Option.bind (printint (ap j) 16 False) (\<lambda>o1. map_option ((@) o1) (printf_from m ap False (Suc j) fmt))
      else if c = 115
      then Option.bind (if ap j = 0 then Some (bytes_of ''(null)'') else put_string m (ap j))
             (\<lambda>o1. map_option ((@) o1) (printf_from m ap False (Suc j) fmt))
      else if c = 99 then map_option ((#) (ucast (ap j))) (printf_from m ap False (Suc j) fmt)
      else if c = 37 then map_option ((#) c) (printf_from m ap False j fmt)
      else map_option (\<lambda>r. 37 # c # r) (printf_from m ap False j fmt))"

definition printf :: "bytes \<Rightarrow> (nat \<Rightarrow> u32) \<Rightarrow> u8 list \<Rightarrow> u8 list option" where
  "printf m ap fmt = printf_from m ap False 0 fmt"

subsection \<open>Numerals\<close>

text \<open>The numeral of a number to a base, and the value of a list of digits.\<close>

fun numeral_of :: "nat \<Rightarrow> nat \<Rightarrow> nat list" where
  "numeral_of b n = (if n < b \<or> b < 2 then [n] else numeral_of b (n div b) @ [n mod b])"

declare numeral_of.simps [simp del]

definition value_of :: "nat \<Rightarrow> nat list \<Rightarrow> nat" where
  "value_of b ds = foldl (\<lambda>a d. b * a + d) 0 ds"

lemma numeral_value: "value_of b (numeral_of b n) = n"
proof (induction b n rule: numeral_of.induct)
  case (1 b n)
  then show ?case
    by (cases "n < b \<or> b < 2") (simp_all add: numeral_of.simps [of b n] value_of_def)
qed

lemma numeral_digits: "2 \<le> b \<Longrightarrow> \<forall>d \<in> set (numeral_of b n). d < b"
proof (induction b n rule: numeral_of.induct)
  case (1 b n)
  then show ?case by (cases "n < b") (simp_all add: numeral_of.simps [of b n])
qed

lemma numeral_length: "2 \<le> b \<Longrightarrow> n < b ^ Suc k \<Longrightarrow> length (numeral_of b n) \<le> Suc k"
proof (induction k arbitrary: n)
  case 0
  then show ?case by (simp add: numeral_of.simps [of b n])
next
  case (Suc k)
  show ?case
  proof (cases "n < b")
    case False
    have "n div b < b ^ Suc k" using Suc.prems by (intro less_mult_imp_div_less) (simp add: mult.commute)
    then show ?thesis using False Suc by (simp add: numeral_of.simps [of b n])
  qed (simp add: numeral_of.simps [of b n])
qed

lemma digits_loop_numeral:
  "2 \<le> unat b \<Longrightarrow> unat x < unat b ^ k \<Longrightarrow> 0 < k \<Longrightarrow>
   digits_loop tab k x b = Some (rev (map ((!) tab) (numeral_of (unat b) (unat x))))"
proof (induction k arbitrary: x)
  case (Suc k)
  have d: "tab ! unat (x mod b) = tab ! (unat x mod unat b)" by (simp add: unat_mod)
  show ?case
  proof (cases "unat x < unat b")
    case True
    then have "x div b = 0" by (simp add: unat_eq_iff [symmetric] unat_div del: unat_eq_iff)
    then show ?thesis using True d by (simp add: numeral_of.simps [of _ "unat x"])
  next
    case False
    then have z: "x div b \<noteq> 0"
      using Suc.prems(1) by (simp add: unat_eq_iff [symmetric] unat_div div_eq_0_iff del: unat_eq_iff)
    have k0: "0 < k" using False Suc.prems(2) by (cases k) auto
    have "unat (x div b) < unat b ^ k"
      using Suc.prems(2) by (simp add: unat_div) (intro less_mult_imp_div_less, simp add: mult.commute)
    from Suc.IH [OF Suc.prems(1) this k0] show ?thesis
      using False z d Suc.prems(1) by (simp add: numeral_of.simps [of _ "unat x"] unat_div Let_def)
  qed
qed simp

lemma unat_abs_sint: "unat (if sint xx < 0 then - xx else xx) = nat \<bar>sint xx\<bar>" for xx :: u32
proof -
  have r: "- 2147483648 \<le> sint xx" "sint xx < 2147483648" using sint_ge [of xx] sint_less [of xx] by simp_all
  have u: "uint xx = sint xx mod 4294967296" using uint_sint [of xx] by (simp add: take_bit_eq_mod)
  show ?thesis
  proof (cases "sint xx < 0")
    case True
    have "sint xx mod 4294967296 = (sint xx + 4294967296) mod 4294967296" by simp
    also have "\<dots> = sint xx + 4294967296" using r True by (intro mod_pos_pos_trivial) simp_all
    finally have up: "uint xx = sint xx + 4294967296" using u by simp
    have "uint (- xx) = - sint xx"
    proof -
      have "uint (- xx) = (- uint xx) mod 4294967296" using uint_word_ariths(4) [of xx] by simp
      also have "\<dots> = (- sint xx - 4294967296) mod 4294967296" unfolding up by simp
      also have "\<dots> = (- sint xx) mod 4294967296" by simp
      also have "\<dots> = - sint xx" using r True by (intro mod_pos_pos_trivial) simp_all
      finally show ?thesis .
    qed
    then have "int (unat (- xx)) = - sint xx" by simp
    then have "unat (- xx) = nat (- sint xx)" by (metis nat_int)
    then show ?thesis using True by simp
  next
    case False
    then have "uint xx = sint xx" using u r by simp
    then have "int (unat xx) = sint xx" by simp
    then have "unat xx = nat (sint xx)" by (metis nat_int)
    then show ?thesis using False by simp
  qed
qed

text \<open>
  C36. Integers are printed as their numerals.  For every 32-bit word, the smallest negative number
  included, \<open>%d\<close> prints a minus sign if it is negative and the decimal numeral of its absolute value,
  \<open>%x\<close> and \<open>%p\<close> its hexadecimal numeral as an unsigned number; the value of the numeral is the number,
  and the digits and the sign never reach the end of the buffer of 16 bytes.
\<close>

theorem printint_prints_numeral:
  "(let n = nat \<bar>sint xx\<bar> in
     printint xx 10 True = Some ((if sint xx < 0 then [45] else []) @ map ((!) digits) (numeral_of 10 n))
     \<and> value_of 10 (numeral_of 10 n) = n \<and> length (numeral_of 10 n) < DIGITBUF)
   \<and> printint xx 16 False = Some (map ((!) digits) (numeral_of 16 (unat xx)))
   \<and> value_of 16 (numeral_of 16 (unat xx)) = unat xx \<and> length (numeral_of 16 (unat xx)) < DIGITBUF"
proof -
  define x where "x = (if sint xx < 0 then - xx else xx)"
  have ux: "unat x = nat \<bar>sint xx\<bar>" unfolding x_def by (rule unat_abs_sint)
  have u: "unat x < 4294967296" "unat xx < 4294967296" by simp_all
  have l: "unat x < 10 ^ 16" "unat xx < 16 ^ 16" "unat x < 10 ^ Suc 9" "unat xx < 16 ^ Suc 7"
    using u(1) less_trans [OF u(1), of "10 ^ 16"] less_trans [OF u(2), of "16 ^ 16"] less_trans [OF u(1), of "10 ^ Suc 9"]
      by simp_all
  have l10: "length (numeral_of 10 (unat x)) \<le> Suc 9" by (rule numeral_length [OF _ l(3)]) simp
  have l16: "length (numeral_of 16 (unat xx)) \<le> Suc 7" by (rule numeral_length [OF _ l(4)]) simp
  have d10: "digits_loop digits DIGITBUF x 10 = Some (rev (map ((!) digits) (numeral_of 10 (unat x))))"
    using digits_loop_numeral [of 10 x 16 digits] l(1) by (simp add: DIGITBUF_def)
  have d16: "digits_loop digits DIGITBUF xx 16 = Some (rev (map ((!) digits) (numeral_of 16 (unat xx))))"
    using digits_loop_numeral [of 16 xx 16 digits] l(2) by (simp add: DIGITBUF_def)
  have "printint xx 10 True = Some ((if sint xx < 0 then [45] else []) @ map ((!) digits) (numeral_of 10 (unat x)))"
    using d10 l10 unfolding x_def by (cases "sint xx < 0") (simp_all add: printint_def Let_def DIGITBUF_def)
  moreover have "printint xx 16 False = Some (map ((!) digits) (numeral_of 16 (unat xx)))"
    using d16 by (simp add: printint_def)
  ultimately show ?thesis using l10 l16 ux by (simp add: numeral_value DIGITBUF_def)
qed

end
