(* ===== verification/Console.thy ===== *)
theory Console
  imports Printf Inode
begin

text \<open>
  The console (\<open>console.c\<close>), the keyboard driver (\<open>kbd.c\<close>, \<open>kbd.h\<close>) and the output of the serial port
  (\<open>uart.c\<close>).  The screen is the memory of the display and its cursor register; the bytes sent to the
  serial port are kept oldest first, \<open>uart\<close> says whether there is one.  \<open>cwakes\<close> counts the calls of
  \<open>wakeup(&input.r)\<close>.  A frozen console (\<open>panicked\<close>) never returns: \<open>Blocked\<close>.
\<close>

definition INPUT_BUF :: nat where "INPUT_BUF = 128"
definition BACKSPACE :: u32 where "BACKSPACE = 0x100"

record console =
  clock_lk :: bool
  locking :: bool
  panicked :: bool
  crt :: "u16 list"
  cursor :: nat
  uart :: bool
  serial :: "u8 list"
  cbuf :: "u8 list"
  in_r :: u32
  in_w :: u32
  in_e :: u32
  cwakes :: nat

subsection \<open>Output\<close>

definition uartputc :: "u32 \<Rightarrow> console \<Rightarrow> console" where
  "uartputc c s = (if \<not> uart s then s else s\<lparr>serial := serial s @ [ucast c]\<rparr>)"

text \<open>The colour of a character on the screen: black on white.\<close>

definition cell :: "u32 \<Rightarrow> u16" where
  "cell c = ucast (c AND 0xff) OR 0x0700"

definition SCREEN :: nat where "SCREEN = 2000"

text \<open>
  \<open>crt\<close> is the memory of the display from its first cell on; \<open>memmove\<close> moves 23 rows up and \<open>memset\<close>
  clears what is left of the first 24 rows.
\<close>

definition scroll_up :: "u16 list \<Rightarrow> nat \<Rightarrow> u16 list" where
  "scroll_up m pos = (let m1 = take 1840 (drop 80 m) @ drop 1840 m
     in take pos m1 @ replicate (1920 - pos) 0 @ drop (pos + (1920 - pos)) m1)"

definition cgaputc :: "u32 \<Rightarrow> console \<Rightarrow> console outcome" where
  "cgaputc c s =
     (let pos = cursor s;
          (pos1, m1) = (if c = 10 then (pos + (80 - pos mod 80), crt s)
                        else if c = BACKSPACE then (if 0 < pos then pos - 1 else pos, crt s)
                        else (pos + 1, (crt s)[pos := cell c]))
      in panic_if (25 * 80 < pos1) ''pos under/overflow''
          (let (pos2, m2) = (if 24 \<le> pos1 div 80 then (pos1 - 80, scroll_up m1 (pos1 - 80)) else (pos1, m1))
           in Ok (s\<lparr>cursor := pos2, crt := m2[pos2 := cell 32]\<rparr>)))"

definition consputc :: "u32 \<Rightarrow> console \<Rightarrow> console outcome" where
  "consputc c s =
     (if panicked s then Blocked
      else cgaputc c (if c = BACKSPACE then uartputc 8 (uartputc 32 (uartputc 8 s)) else uartputc c s))"

fun consputs :: "u8 list \<Rightarrow> console \<Rightarrow> console outcome" where
  "consputs [] s = Ok s"
| "consputs (c # cs) s = bnd (consputc (ucast c) s) (consputs cs)"

definition cdigits :: "u8 list" where
  "cdigits = bytes_of ''0123456789abcdef''"

text \<open>\<open>printint\<close> of the kernel: the bytes it prints.\<close>

definition cprintint :: "u32 \<Rightarrow> u32 \<Rightarrow> bool \<Rightarrow> u8 list option" where
  "cprintint xx b sg =
     (let neg = (sg \<and> sint xx < 0); x = (if neg then - xx else xx)
      in case digits_loop cdigits DIGITBUF x b of
           None \<Rightarrow> None
         | Some ds \<Rightarrow> if neg then if length ds < DIGITBUF then Some (rev (ds @ [45])) else None
                      else Some (rev ds))"

definition put_opt :: "u8 list option \<Rightarrow> console \<Rightarrow> console outcome" where
  "put_opt o1 s = (case o1 of None \<Rightarrow> Fault | Some bs \<Rightarrow> consputs bs s)"

text \<open>The loop of \<open>cprintf\<close> over the format; \<open>m\<close> is the memory the string arguments point to.\<close>

fun cprintf_from :: "bytes \<Rightarrow> (nat \<Rightarrow> u32) \<Rightarrow> nat \<Rightarrow> u8 list \<Rightarrow> console \<Rightarrow> console outcome" where
  "cprintf_from m ap j [] s = Ok s"
| "cprintf_from m ap j [c] s = (if c \<noteq> 37 then consputc (ucast c) s else Ok s)"
| "cprintf_from m ap j (c # d # fmt) s =
     (if c \<noteq> 37 then bnd (consputc (ucast c) s) (cprintf_from m ap j (d # fmt))
      else if d = 100 then bnd (put_opt (cprintint (ap j) 10 True) s) (cprintf_from m ap (Suc j) fmt)
      else if d = 120 \<or> d = 112 then bnd (put_opt (cprintint (ap j) 16 False) s) (cprintf_from m ap (Suc j) fmt)
      else if d = 115
      then bnd (put_opt (if ap j = 0 then Some (bytes_of ''(null)'') else put_string m (ap j)) s)
             (cprintf_from m ap (Suc j) fmt)
      else if d = 37 then bnd (consputc 37 s) (cprintf_from m ap j fmt)
      else bnd (consputc 37 s) (\<lambda>s1. bnd (consputc (ucast d) s1) (cprintf_from m ap j fmt)))"

definition cons_acquire :: "console \<Rightarrow> console outcome" where
  "cons_acquire s = bnd (lk_acquire (clock_lk s)) (\<lambda>l. Ok (s\<lparr>clock_lk := l\<rparr>))"

definition cons_release :: "console \<Rightarrow> console outcome" where
  "cons_release s = bnd (lk_release (clock_lk s)) (\<lambda>l. Ok (s\<lparr>clock_lk := l\<rparr>))"

text \<open>A null format is \<open>None\<close>.\<close>

definition cprintf :: "bytes \<Rightarrow> (nat \<Rightarrow> u32) \<Rightarrow> u8 list option \<Rightarrow> console \<Rightarrow> console outcome" where
  "cprintf m ap fmt s =
     bnd (if locking s then cons_acquire s else Ok s) (\<lambda>s1.
       case fmt of
         None \<Rightarrow> Panic ''null fmt''
       | Some f \<Rightarrow>
           bnd (cprintf_from m ap 0 f s1) (\<lambda>s2. if locking s then cons_release s2 else Ok s2))"

subsection \<open>Input\<close>

definition ring_at :: "u32 \<Rightarrow> nat" where
  "ring_at i = unat (i mod 128)"

lemma consputc_shape:
  assumes "consputc c s = Ok t"
  shows "\<exists>p m o1. t = s\<lparr>cursor := p, crt := m, serial := o1\<rparr>"
proof -
  have cga: "\<exists>p m. t = u\<lparr>cursor := p, crt := m\<rparr>" if "cgaputc c u = Ok t" for u
    using that unfolding cgaputc_def Let_def split_beta panic_if_eq_Ok by blast
  have out: "\<exists>o1. uartputc x u = u\<lparr>serial := o1\<rparr>" for x u
    by (cases "uart u") (auto simp: uartputc_def, metis console.surjective console.update_convs(7))
  let ?u = "if c = BACKSPACE then uartputc 8 (uartputc 32 (uartputc 8 s)) else uartputc c s"
  have "cgaputc c ?u = Ok t" using assms unfolding consputc_def by (simp split: if_splits)
  then obtain p m where t: "t = ?u\<lparr>cursor := p, crt := m\<rparr>" using cga by blast
  obtain o1 o2 o3 o4 where "uartputc 8 s = s\<lparr>serial := o1\<rparr>" "uartputc 32 (s\<lparr>serial := o1\<rparr>) = s\<lparr>serial := o1, serial := o2\<rparr>"
    "uartputc 8 (s\<lparr>serial := o2\<rparr>) = s\<lparr>serial := o2, serial := o3\<rparr>" "uartputc c s = s\<lparr>serial := o4\<rparr>"
    using out by metis
  then obtain o5 where e: "?u = s\<lparr>serial := o5\<rparr>" by (cases "c = BACKSPACE") auto
  show ?thesis unfolding t e by (intro exI [of _ p] exI [of _ m] exI [of _ o5]) simp
qed

lemma consputc_frame:
  assumes "consputc c s = Ok t"
  shows "in_e t = in_e s" "in_w t = in_w s" "in_r t = in_r s" "cbuf t = cbuf s" "cwakes t = cwakes s" "clock_lk t = clock_lk s"
    "panicked t = panicked s"
  using consputc_shape [OF assms] by auto

text \<open>The loop that kills the line, and one character of \<open>consoleintr\<close>; \<open>wake\<close> is \<open>wakeup(&input.r)\<close>.\<close>

function kill_line :: "console \<Rightarrow> console outcome" where
  "kill_line s =
     (if in_e s \<noteq> in_w s \<and> cbuf s ! ring_at (in_e s - 1) \<noteq> 10
      then bnd (consputc BACKSPACE (s\<lparr>in_e := in_e s - 1\<rparr>)) kill_line
      else Ok s)"
  by pat_completeness auto
termination
proof (relation "measure (\<lambda>s. unat (in_e s - in_w s))")
  fix s t :: console
  assume "in_e s \<noteq> in_w s \<and> cbuf s ! ring_at (in_e s - 1) \<noteq> 10" "consputc BACKSPACE (s\<lparr>in_e := in_e s - 1\<rparr>) = Ok t"
  then have "in_e s - in_w s \<noteq> 0" "in_e t - in_w t = in_e s - in_w s - 1" using consputc_frame by auto
  then show "(t, s) \<in> measure (\<lambda>s. unat (in_e s - in_w s))" by (simp add: unat_minus_one word_gt_0 unat_gt_0)
qed simp

declare kill_line.simps [simp del]

definition backspace :: "console \<Rightarrow> console outcome" where
  "backspace s = (if in_e s \<noteq> in_w s then consputc BACKSPACE (s\<lparr>in_e := in_e s - 1\<rparr>) else Ok s)"

definition put_char :: "u32 \<Rightarrow> console \<Rightarrow> console outcome" where
  "put_char c s =
     (if c \<noteq> 0 \<and> in_e s - in_r s < 128
      then let c' = (if c = 13 then 10 else c)
        in bnd (consputc c' (s\<lparr>cbuf := (cbuf s)[ring_at (in_e s) := ucast c'], in_e := in_e s + 1\<rparr>)) (\<lambda>t.
           if c' = 10 \<or> c' = 4 \<or> in_e t = in_r t + 128
           then Ok (t\<lparr>in_w := in_e t, cwakes := cwakes t + 1\<rparr>) else Ok t)
      else Ok s)"

definition cons_char :: "u32 \<Rightarrow> console \<Rightarrow> console outcome" where
  "cons_char c s =
     (if c = 16 then Ok s
      else if c = 21 then kill_line s
      else if c = 8 \<or> c = 0x7f then backspace s
      else put_char c s)"

fun cons_chars :: "u32 list \<Rightarrow> console \<Rightarrow> console outcome" where
  "cons_chars [] s = Ok s"
| "cons_chars (c # cs) s = bnd (cons_char c s) (cons_chars cs)"

text \<open>
  \<open>consoleintr\<close> on the characters \<open>getc\<close> delivers before it returns a negative number; the flag says
  that \<open>procdump\<close> is to be called.
\<close>

definition consoleintr :: "u32 list \<Rightarrow> console \<Rightarrow> (bool \<times> console) outcome" where
  "consoleintr cs s =
     bnd (cons_acquire s) (\<lambda>s1. bnd (cons_chars cs s1) (\<lambda>s2. bnd (cons_release s2) (\<lambda>s3. Ok (16 \<in> set cs, s3))))"

text \<open>
  The loop of \<open>consoleread\<close> with the lock held: the bytes it returns, or the bytes so far and how many
  are still wanted when it goes to sleep.
\<close>

datatype cread = CDone "u8 list" | CSleep "u8 list" nat

fun consoleread_loop :: "nat \<Rightarrow> u8 list \<Rightarrow> console \<Rightarrow> cread \<times> console" where
  "consoleread_loop 0 acc s = (CDone acc, s)"
| "consoleread_loop (Suc n) acc s =
     (if in_r s = in_w s then (CSleep acc (Suc n), s)
      else let c = cbuf s ! ring_at (in_r s); s1 = s\<lparr>in_r := in_r s + 1\<rparr> in
        if c = 4 then (CDone acc, if acc \<noteq> [] then s1\<lparr>in_r := in_r s1 - 1\<rparr> else s1)
        else if c = 10 then (CDone (acc @ [c]), s1)
        else consoleread_loop n (acc @ [c]) s1)"

text \<open>One run of the reader, from taking the lock until it returns or sleeps (which gives the lock up).\<close>

definition consoleread_run :: "bool \<Rightarrow> nat \<Rightarrow> u8 list \<Rightarrow> console \<Rightarrow> (cread option \<times> console) outcome" where
  "consoleread_run killed n acc s =
     bnd (cons_acquire s) (\<lambda>s1.
       let (r, s2) = consoleread_loop n acc s1 in
       bnd (cons_release s2) (\<lambda>s3.
         Ok (case r of CDone bs \<Rightarrow> Some r | CSleep bs k \<Rightarrow> if killed then None else Some r, s3)))"

text \<open>
  The device functions in \<open>devsw[CONSOLE]\<close>, which work on the file system the console is a device of:
  they give up the inode while they wait.  A reader that has to sleep is \<open>Blocked\<close>; it goes on with
  \<open>consoleread_run\<close>.
\<close>

definition consoleread :: "int \<Rightarrow> bool \<Rightarrow> nat \<Rightarrow> u32 \<Rightarrow> console fs \<Rightarrow> (int \<times> u8 list \<times> console fs) outcome" where
  "consoleread me killed ip n s =
     bnd (iunlock me ip s) (\<lambda>s1.
     bnd (consoleread_run killed (nat (sint n)) [] (devs s1)) (\<lambda>(r, d).
     let s2 = s1\<lparr>devs := d\<rparr> in
     case r of
       None \<Rightarrow> bnd (ilock me ip s2) (\<lambda>s3. Ok (- 1, [], s3))
     | Some (CDone bs) \<Rightarrow> bnd (ilock me ip s2) (\<lambda>s3. Ok (int (length bs), bs, s3))
     | Some (CSleep bs k) \<Rightarrow> Blocked))"

definition consolewrite :: "int \<Rightarrow> nat \<Rightarrow> u8 list \<Rightarrow> u32 \<Rightarrow> console fs \<Rightarrow> (int \<times> console fs) outcome" where
  "consolewrite me ip bs n s =
     bnd (iunlock me ip s) (\<lambda>s1.
     bnd (cons_acquire (devs s1)) (\<lambda>d1.
     bnd (consputs (take (nat (sint n)) bs) d1) (\<lambda>d2.
     bnd (cons_release d2) (\<lambda>d3.
     bnd (ilock me ip (s1\<lparr>devs := d3\<rparr>)) (\<lambda>s2. Ok (sint n, s2))))))"

definition CONSOLE :: nat where "CONSOLE = 1"

definition consoleinit :: "int \<Rightarrow> bool \<Rightarrow> console devsw list \<Rightarrow> console \<Rightarrow> console devsw list \<times> console" where
  "consoleinit me killed dv s =
     (dv[CONSOLE := \<lparr>dev_read = Some (consoleread me killed), dev_write = Some (consolewrite me)\<rparr>],
      s\<lparr>clock_lk := False, locking := True\<rparr>)"

subsection \<open>The keyboard\<close>

definition SHIFT :: u32 where "SHIFT = 1"
definition CTL :: u32 where "CTL = 2"
definition ALT :: u32 where "ALT = 4"
definition CAPSLOCK :: u32 where "CAPSLOCK = 8"
definition NUMLOCK :: u32 where "NUMLOCK = 16"
definition SCROLLLOCK :: u32 where "SCROLLLOCK = 32"
definition E0ESC :: u32 where "E0ESC = 64"

text \<open>A table of 256 characters: its first entries, and the others one by one.\<close>

definition key_table :: "u32 list \<Rightarrow> (nat \<times> u32) list \<Rightarrow> nat \<Rightarrow> u32" where
  "key_table base others d =
     (case map_of others d of Some c \<Rightarrow> c | None \<Rightarrow> if d < length base then base ! d else 0)"

definition shiftcode :: "nat \<Rightarrow> u32" where
  "shiftcode = key_table [] [(0x1D, CTL), (0x2A, SHIFT), (0x36, SHIFT), (0x38, ALT), (0x9D, CTL), (0xB8, ALT)]"

definition togglecode :: "nat \<Rightarrow> u32" where
  "togglecode = key_table [] [(0x3A, CAPSLOCK), (0x45, NUMLOCK), (0x46, SCROLLLOCK)]"

definition key_codes :: "(nat \<times> u32) list" where
  "key_codes = [(0xC8, 0xE2), (0xD0, 0xE3), (0xC9, 0xE6), (0xD1, 0xE7), (0xCB, 0xE4), (0xCD, 0xE5),
     (0x97, 0xE0), (0xCF, 0xE1), (0xD2, 0xE8), (0xD3, 0xE9)]"

definition chars :: "string \<Rightarrow> u32 list" where
  "chars s = map (\<lambda>c. word_of_nat (of_char c)) s"

definition normalmap :: "nat \<Rightarrow> u32" where
  "normalmap = key_table
     ([0, 27] @ chars ''1234567890-='' @ [8, 9] @ chars ''qwertyuiop[]'' @ [10, 0] @ chars ''asdfghjkl;'' @ [39] @ chars ''`''
      @ [0, 92] @ chars ''zxcvbnm,./'' @ [0] @ chars ''*'' @ [0, 32] @ replicate 13 0 @ chars ''789-456+1230.'' @ [0, 0, 0, 0])
     ([(0x9C, 10), (0xB5, 47)] @ key_codes)"

definition shiftmap :: "nat \<Rightarrow> u32" where
  "shiftmap = key_table
     ([0, 27] @ chars ''!@#$%^&*()_+'' @ [8, 9] @ chars ''QWERTYUIOP{}'' @ [10, 0] @ chars ''ASDFGHJKL:'' @ [34] @ chars ''~''
      @ [0] @ chars ''|ZXCVBNM<>?'' @ [0] @ chars ''*'' @ [0, 32] @ replicate 13 0 @ chars ''789-456+1230.'' @ [0, 0, 0, 0])
     ([(0x9C, 10), (0xB5, 47)] @ key_codes)"

text \<open>\<open>C(x)\<close> is \<open>x - '@'\<close>, stored in an unsigned byte.\<close>

definition ctl_chars :: "string \<Rightarrow> u32 list" where
  "ctl_chars s = map (\<lambda>c. (c - 64) AND 0xff) (chars s)"

definition ctlmap :: "nat \<Rightarrow> u32" where
  "ctlmap = key_table
     (replicate 16 0 @ ctl_chars ''QWERTYUIOP'' @ [0, 0, 13, 0] @ ctl_chars ''ASDFGHJKL'' @ [0, 0, 0, 0] @ [28]
      @ ctl_chars ''ZXCVBNM'' @ [0, 0] @ ctl_chars ''/'' @ [0, 0])
     ([(0x9C, 13), (0xB5, 0xEF)] @ key_codes)"

definition charcode :: "u32 \<Rightarrow> nat \<Rightarrow> u32" where
  "charcode k = (if k = 0 then normalmap else if k = 1 then shiftmap else ctlmap)"

text \<open>
  \<open>kbdgetc\<close> on what the controller has: \<open>None\<close> when its status says that there is no data.  The result is
  the character, \<open>None\<close> for -1, and the new shift state.
\<close>

definition kbdgetc :: "u8 option \<Rightarrow> u32 \<Rightarrow> u32 option \<times> u32" where
  "kbdgetc inp shift =
     (case inp of
        None \<Rightarrow> (None, shift)
      | Some b \<Rightarrow>
          let data = (ucast b :: u32) in
          if data = 0xE0 then (Some 0, shift OR E0ESC)
          else if data AND 0x80 \<noteq> 0
          then let d = (if shift AND E0ESC \<noteq> 0 then data else data AND 0x7F)
            in (Some 0, shift AND NOT (shiftcode (unat d) OR E0ESC))
          else
            let (d, sh) = (if shift AND E0ESC \<noteq> 0 then (data OR 0x80, shift AND NOT E0ESC) else (data, shift));
                sh1 = (sh OR shiftcode (unat d)) XOR togglecode (unat d);
                c = charcode (sh1 AND (CTL OR SHIFT)) (unat d);
                c1 = (if sh1 AND CAPSLOCK \<noteq> 0
                      then if 97 \<le> c \<and> c \<le> 122 then c - 32 else if 65 \<le> c \<and> c \<le> 90 then c + 32 else c
                      else c)
            in (Some c1, sh1))"

text \<open>What the keyboard interrupt hands to \<open>consoleintr\<close>: the characters of all pending scan codes.\<close>

fun kbd_chars :: "u8 list \<Rightarrow> u32 \<Rightarrow> u32 list \<times> u32" where
  "kbd_chars [] shift = ([], shift)"
| "kbd_chars (b # bs) shift =
     (case kbdgetc (Some b) shift of
        (None, sh) \<Rightarrow> ([], sh)
      | (Some c, sh) \<Rightarrow> let (cs, sh') = kbd_chars bs sh in (c # cs, sh'))"

definition kbdintr :: "u8 list \<Rightarrow> u32 \<Rightarrow> console \<Rightarrow> (bool \<times> u32 \<times> console) outcome" where
  "kbdintr codes shift s =
     (let (cs, sh) = kbd_chars codes shift in bnd (consoleintr cs s) (\<lambda>(d, t). Ok (d, sh, t)))"

end
