(* ===== verification/Console_Spec.thy ===== *)
theory Console_Spec
  imports Console
begin

text \<open>
  The console: what is printed stays on the screen and never makes the driver panic, and the line
  discipline refines two lists, the bytes that can be read and the line being edited.
\<close>

subsection \<open>The screen\<close>

definition screen_ok :: "console \<Rightarrow> bool" where
  "screen_ok s \<longleftrightarrow> length (crt s) = SCREEN \<and> cursor s < 1920 \<and> \<not> panicked s"

lemma length_scroll_up: "length m = 2000 \<Longrightarrow> p \<le> 1920 \<Longrightarrow> length (scroll_up m p) = 2000"
  by (simp add: scroll_up_def Let_def)

lemma cgaputc_ok:
  assumes "screen_ok s"
  shows "\<exists>t. cgaputc c s = Ok t \<and> screen_ok t"
proof -
  have l: "length (crt s) = 2000" "cursor s < 1920" "\<not> panicked s"
    using assms by (simp_all add: screen_ok_def SCREEN_def)
  define pm where "pm = (if c = 10 then (cursor s + (80 - cursor s mod 80), crt s)
                        else if c = BACKSPACE then (if 0 < cursor s then cursor s - 1 else cursor s, crt s)
                        else (cursor s + 1, (crt s)[cursor s := cell c]))"
  have "cursor s + (80 - cursor s mod 80) \<le> 1920"
  proof -
    have "cursor s div 80 < 24" using l(2) by (simp add: div_less_iff_less_mult)
    moreover have "cursor s = 80 * (cursor s div 80) + cursor s mod 80" by simp
    moreover have "cursor s mod 80 < 80" by simp
    ultimately show ?thesis by linarith
  qed
  then have pm: "fst pm \<le> 1920" "length (snd pm) = 2000" using l by (auto simp: pm_def)
  then have "\<not> 25 * 80 < fst pm" by simp
  then show ?thesis
    using pm l(3) unfolding cgaputc_def Let_def pm_def [symmetric] split_beta
    by (auto simp: screen_ok_def SCREEN_def length_scroll_up div_le_mono)
qed

lemma uartputc_ok [simp]: "screen_ok (uartputc c s) = screen_ok s"
  by (simp add: uartputc_def screen_ok_def)

lemma consputc_ok:
  assumes "screen_ok s"
  shows "\<exists>t. consputc c s = Ok t \<and> screen_ok t"
proof -
  have "\<not> panicked s" using assms by (simp add: screen_ok_def)
  then show ?thesis using cgaputc_ok assms by (simp add: consputc_def)
qed

lemma cgaputc_serial: "cgaputc c s = Ok t \<Longrightarrow> serial t = serial s \<and> uart t = uart s"
  unfolding cgaputc_def Let_def split_beta panic_if_eq_Ok by auto

lemma byte_word_byte [simp]: "ucast (ucast b :: u32) = (b :: u8)"
  by (rule bit_word_eqI) (auto simp: bit_simps)

text \<open>
  C30. Output to the console never panics and stays on the screen.  With the cursor inside the first 24 rows,
  printing any bytes returns, keeps the cursor in these rows (the screen scrolls up by a row when a line
  leaves them, so that no write reaches behind the 25 rows of the display) and sends exactly these bytes, in
  order, to the serial port if there is one.
\<close>

theorem console_output_total:
  assumes "screen_ok s"
  shows "\<exists>t. consputs bs s = Ok t \<and> screen_ok t \<and> serial t = serial s @ (if uart s then bs else [])"
  using assms
proof (induction bs arbitrary: s)
  case (Cons b bs)
  have b: "ucast b \<noteq> BACKSPACE"
  proof -
    have "unat (ucast b :: u32) < 256" proof -
      have "unat b < 256" by (rule less_le_trans [OF unsigned_less]) simp
      then show ?thesis by (simp add: unsigned_ucast_eq take_bit_nat_eq_self)
    qed
    then show ?thesis by (auto simp: BACKSPACE_def)
  qed
  have cp: "consputc (ucast b) s = cgaputc (ucast b) (uartputc (ucast b) s)"
    using b Cons.prems by (simp add: consputc_def screen_ok_def)
  obtain t where t: "cgaputc (ucast b) (uartputc (ucast b) s) = Ok t" "screen_ok t"
    using cgaputc_ok [of "uartputc (ucast b) s"] Cons.prems by auto
  have "serial t = serial s @ (if uart s then [b] else [])" "uart t = uart s"
    using cgaputc_serial [OF t(1)] by (simp_all add: uartputc_def)
  moreover obtain u where "consputs bs t = Ok u" "screen_ok u" "serial u = serial t @ (if uart t then bs else [])"
    using Cons.IH [OF t(2)] by blast
  ultimately show ?case using t(1) cp by simp
qed simp

definition console_demo :: console where
  "console_demo = \<lparr>clock_lk = False, locking = True, panicked = False, crt = replicate 2000 0, cursor = 1919, uart = True,
     serial = [], cbuf = replicate 128 0, in_r = 0xFFFFFFFF, in_w = 0xFFFFFFFF, in_e = 0xFFFFFFFF, cwakes = 0\<rparr>"

lemma console_demo_screen: "screen_ok console_demo"
  by (simp add: screen_ok_def console_demo_def SCREEN_def)

theorem console_output_total_witness:
  "\<exists>t. consputs [104, 105, 10] console_demo = Ok t \<and> cursor t < 1920 \<and> serial t = [104, 105, 10]"
proof -
  have "serial console_demo = []" "uart console_demo" by (simp_all add: console_demo_def)
  then show ?thesis
    using console_output_total [OF console_demo_screen, of "[104, 105, 10]"] unfolding screen_ok_def by simp blast
qed

subsection \<open>The line discipline\<close>

definition cons_holds :: "console \<Rightarrow> u8 list \<Rightarrow> u8 list \<Rightarrow> bool" where
  "cons_holds c rd ed \<longleftrightarrow> length (cbuf c) = 128 \<and> length rd + length ed \<le> 128
     \<and> in_w c = in_r c + word_of_nat (length rd) \<and> in_e c = in_w c + word_of_nat (length ed)
     \<and> (\<forall>k < length rd + length ed. cbuf c ! ring_at (in_r c + word_of_nat k) = (rd @ ed) ! k)
     \<and> 10 \<notin> set ed \<and> 4 \<notin> set ed"

text \<open>The editor on the two lists, one key after the other, and reading from the finished part.\<close>

definition edit :: "u32 \<Rightarrow> u8 list \<times> u8 list \<Rightarrow> u8 list \<times> u8 list" where
  "edit c q = (let (rd, ed) = q in
     if c = 16 then (rd, ed)
     else if c = 21 then (rd, [])
     else if c = 8 \<or> c = 127 then (rd, butlast ed)
     else if c \<noteq> 0 \<and> length rd + length ed < 128
     then let b = ucast (if c = 13 then 10 else c)
       in if b = 10 \<or> b = 4 \<or> length rd + length ed = 127 then (rd @ ed @ [b], []) else (rd, ed @ [b])
     else (rd, ed))"

definition edit_all :: "u32 list \<Rightarrow> u8 list \<times> u8 list \<Rightarrow> u8 list \<times> u8 list" where
  "edit_all cs q = fold edit cs q"

fun take_line :: "nat \<Rightarrow> u8 list \<Rightarrow> u8 list \<Rightarrow> cread \<times> u8 list" where
  "take_line 0 acc q = (CDone acc, q)"
| "take_line (Suc n) acc [] = (CSleep acc (Suc n), [])"
| "take_line (Suc n) acc (b # q) =
     (if b = 4 then (CDone acc, if acc \<noteq> [] then b # q else q)
      else if b = 10 then (CDone (acc @ [b]), q)
      else take_line n (acc @ [b]) q)"

lemma ring_add:
  assumes "k < 256"
  shows "ring_at (i + word_of_nat k) = (unat i + k) mod 128"
proof -
  have "unat (word_of_nat k :: u32) = k" using assms by (intro unat_of_nat_lt) simp
  then show ?thesis by (simp add: ring_at_def unat_mod unat_word_ariths mod_mod_cancel)
qed

lemma ring_distinct:
  assumes "j < 128" "k < 128"
  shows "ring_at (i + word_of_nat j) = ring_at (i + word_of_nat k) \<longleftrightarrow> j = k"
proof -
  have m: "(a + x) mod 128 = (if a mod 128 + x < 128 then a mod 128 + x else a mod 128 + x - 128)" if "x < 128" for a x :: nat
  proof -
    define r where "r = a mod 128"
    have r: "r < 128" "(a + x) mod 128 = (r + x) mod 128" by (simp_all add: r_def mod_add_left_eq)
    show ?thesis
    proof (cases "r + x < 128")
      case True
      then show ?thesis using r(2) unfolding r_def [symmetric] by simp
    next
      case False
      then have "(r + x) mod 128 = (r + x - 128) mod 128" by (intro le_mod_geq) simp
      also have "\<dots> = r + x - 128" using r(1) that by simp
      finally show ?thesis using r(2) False unfolding r_def [symmetric] by simp
    qed
  qed
  have "(a + j) mod 128 = (a + k) mod 128 \<longleftrightarrow> j = k" for a :: nat
  proof -
    have "a mod 128 < 128" by simp
    then show ?thesis unfolding m [OF assms(1)] m [OF assms(2)] using assms by (auto split: if_splits)
  qed
  then show ?thesis using assms by (simp add: ring_add)
qed

lemma word_len_inj:
  assumes "j \<le> 128" "k \<le> 128"
  shows "(word_of_nat j :: u32) = word_of_nat k \<longleftrightarrow> j = k"
proof -
  have "unat (word_of_nat j :: u32) = j" "unat (word_of_nat k :: u32) = k" using assms by (auto intro!: unat_of_nat_lt)
  then show ?thesis by metis
qed

text \<open>The indices of the ring in terms of the two lists.\<close>

lemma holds_index:
  assumes "cons_holds s rd ed"
  shows "in_e s = in_r s + word_of_nat (length rd + length ed)"
    "in_e s \<noteq> in_w s \<longleftrightarrow> ed \<noteq> []" "in_r s = in_w s \<longleftrightarrow> rd = []"
    "in_e s - in_r s < 128 \<longleftrightarrow> length rd + length ed < 128"
    "in_e s + 1 = in_r s + 128 \<longleftrightarrow> length rd + length ed = 127"
proof -
  have l: "length rd + length ed \<le> 128" and w: "in_w s = in_r s + word_of_nat (length rd)" "in_e s = in_w s + word_of_nat (length ed)"
    using assms by (simp_all add: cons_holds_def)
  show e: "in_e s = in_r s + word_of_nat (length rd + length ed)" using w by (simp add: add.assoc)
  have "in_e s \<noteq> in_w s \<longleftrightarrow> (word_of_nat (length ed) :: u32) \<noteq> word_of_nat 0" using w(2) by simp
  then show "in_e s \<noteq> in_w s \<longleftrightarrow> ed \<noteq> []" using l word_len_inj [of "length ed" 0] by simp
  have "in_r s = in_w s \<longleftrightarrow> (word_of_nat (length rd) :: u32) = word_of_nat 0" using w(1) by simp
  then show "in_r s = in_w s \<longleftrightarrow> rd = []" using l word_len_inj [of "length rd" 0] by simp
  have "unat (word_of_nat (length rd + length ed) :: u32) = length rd + length ed" using l by (intro unat_of_nat_lt) simp
  then show "in_e s - in_r s < 128 \<longleftrightarrow> length rd + length ed < 128" unfolding e by (simp add: word_less_nat_alt del: of_nat_add)
  have "in_e s + 1 = in_r s + 128 \<longleftrightarrow> (word_of_nat (length rd + length ed) :: u32) = word_of_nat 127"
    unfolding e by (simp add: algebra_simps del: of_nat_add)
  then show "in_e s + 1 = in_r s + 128 \<longleftrightarrow> length rd + length ed = 127" using l word_len_inj [of "length rd + length ed" 127] by simp
qed

lemma holds_frame:
  "in_e t = in_e s \<Longrightarrow> in_w t = in_w s \<Longrightarrow> in_r t = in_r s \<Longrightarrow> cbuf t = cbuf s \<Longrightarrow> cons_holds t rd ed = cons_holds s rd ed"
  by (simp add: cons_holds_def)

lemma holds_drop_last:
  assumes "cons_holds s rd (ed @ [b])"
  shows "cons_holds (s\<lparr>in_e := in_e s - 1\<rparr>) rd ed" "cbuf s ! ring_at (in_e s - 1) = b"
proof -
  have e: "in_e s - 1 = in_r s + word_of_nat (length rd + length ed)" using holds_index(1) [OF assms] by simp
  show "cons_holds (s\<lparr>in_e := in_e s - 1\<rparr>) rd ed"
  proof -
    have "\<forall>k < length rd + length ed. cbuf s ! ring_at (in_r s + word_of_nat k) = (rd @ ed) ! k"
    proof (intro allI impI)
      fix k assume k: "k < length rd + length ed"
      then have "cbuf s ! ring_at (in_r s + word_of_nat k) = ((rd @ ed) @ [b]) ! k"
        using assms by (simp add: cons_holds_def del: of_nat_add)
      then show "cbuf s ! ring_at (in_r s + word_of_nat k) = (rd @ ed) ! k"
        using k unfolding nth_append [of "rd @ ed"] by simp
    qed
    then show ?thesis using assms by (simp add: cons_holds_def)
  qed
  have "cbuf s ! ring_at (in_r s + word_of_nat (length rd + length ed)) = (rd @ ed @ [b]) ! (length rd + length ed)"
    using assms by (simp add: cons_holds_def del: of_nat_add)
  then show "cbuf s ! ring_at (in_e s - 1) = b" unfolding e by (simp add: nth_append)
qed

definition same_cons :: "console \<Rightarrow> console \<Rightarrow> bool" where
  "same_cons s t \<longleftrightarrow> screen_ok t \<and> clock_lk t = clock_lk s"

lemma put_screen:
  assumes "screen_ok s"
  shows "\<exists>t. consputc c s = Ok t \<and> same_cons s t \<and> cwakes t = cwakes s \<and> (\<forall>rd ed. cons_holds t rd ed = cons_holds s rd ed)
    \<and> in_e t = in_e s \<and> in_r t = in_r s"
proof -
  obtain t where t: "consputc c s = Ok t" "screen_ok t" using consputc_ok [OF assms] by blast
  have "cons_holds t rd ed = cons_holds s rd ed" for rd ed
    by (rule holds_frame) (simp_all add: consputc_frame [OF t(1)])
  then show ?thesis using consputc_frame [OF t(1)] t by (auto simp: same_cons_def)
qed

lemma backspace_holds:
  assumes "cons_holds s rd ed" "screen_ok s"
  shows "\<exists>t. backspace s = Ok t \<and> same_cons s t \<and> cwakes t = cwakes s \<and> cons_holds t rd (butlast ed)"
proof (cases ed rule: rev_cases)
  case Nil
  then show ?thesis using assms holds_index(2) [OF assms(1)] by (simp add: backspace_def same_cons_def)
next
  case (snoc ys y)
  note h = holds_drop_last [OF assms(1) [unfolded snoc]]
  have "screen_ok (s\<lparr>in_e := in_e s - 1\<rparr>)" using assms(2) by (simp add: screen_ok_def)
  from put_screen [OF this] obtain t where "consputc BACKSPACE (s\<lparr>in_e := in_e s - 1\<rparr>) = Ok t" "same_cons (s\<lparr>in_e := in_e s - 1\<rparr>) t"
    "cwakes t = cwakes s" "cons_holds t rd ys" using h(1) by force
  then show ?thesis using holds_index(2) [OF assms(1)] snoc by (auto simp: backspace_def same_cons_def)
qed

lemma kill_line_holds:
  "cons_holds s rd ed \<Longrightarrow> screen_ok s \<Longrightarrow> \<exists>t. kill_line s = Ok t \<and> same_cons s t \<and> cwakes t = cwakes s \<and> cons_holds t rd []"
proof (induction ed arbitrary: s rule: rev_induct)
  case Nil
  then show ?case using holds_index(2) [OF Nil.prems(1)] by (subst kill_line.simps) (simp add: same_cons_def)
next
  case (snoc y ys)
  note h = holds_drop_last [OF snoc.prems(1)]
  have "y \<noteq> 10" using snoc.prems(1) by (auto simp: cons_holds_def)
  then have run: "kill_line s = bnd (consputc BACKSPACE (s\<lparr>in_e := in_e s - 1\<rparr>)) kill_line"
    using holds_index(2) [OF snoc.prems(1)] h(2) by (subst kill_line.simps) simp
  have "screen_ok (s\<lparr>in_e := in_e s - 1\<rparr>)" using snoc.prems(2) by (simp add: screen_ok_def)
  from put_screen [OF this] obtain t where t: "consputc BACKSPACE (s\<lparr>in_e := in_e s - 1\<rparr>) = Ok t" "same_cons (s\<lparr>in_e := in_e s - 1\<rparr>) t"
    "cwakes t = cwakes s" "cons_holds t rd ys" using h(1) by force
  obtain u where "kill_line t = Ok u" "same_cons t u" "cwakes u = cwakes t" "cons_holds u rd []"
    using snoc.IH [OF t(4)] t(2) by (auto simp: same_cons_def)
  then show ?case using run t by (auto simp: same_cons_def)
qed

lemma ucast_control:
  fixes c :: u32
  assumes "c < 256"
  shows "(ucast c :: u8) = 10 \<longleftrightarrow> c = 10" "(ucast c :: u8) = 4 \<longleftrightarrow> c = 4"
proof -
  have "unat (ucast c :: u8) = unat c"
    using assms by (simp add: unsigned_ucast_eq take_bit_nat_eq_self word_less_nat_alt)
  then have "(ucast c :: u8) = word_of_nat n \<longleftrightarrow> c = word_of_nat n" if "n < 256" for n
  proof -
    have "unat (word_of_nat n :: u8) = n" "unat (word_of_nat n :: u32) = n" using that by (auto intro!: unat_of_nat_lt)
    then show ?thesis using \<open>unat (ucast c :: u8) = unat c\<close> by (metis unat_eq_iff)
  qed
  from this [of 10] this [of 4] show "(ucast c :: u8) = 10 \<longleftrightarrow> c = 10" "(ucast c :: u8) = 4 \<longleftrightarrow> c = 4" by simp_all
qed

text \<open>One more byte at the edit index.\<close>

lemma holds_store:
  fixes b :: u8
  assumes "cons_holds s rd ed" "length rd + length ed < 128"
  defines "t \<equiv> s\<lparr>cbuf := (cbuf s)[ring_at (in_e s) := b], in_e := in_e s + 1\<rparr>"
  shows "length (cbuf t) = 128"
    "\<forall>k < length rd + length ed + 1. cbuf t ! ring_at (in_r t + word_of_nat k) = (rd @ ed @ [b]) ! k"
    "in_e t = in_r t + word_of_nat (length rd + length ed + 1)"
proof -
  note e = holds_index(1) [OF assms(1)]
  have l: "length (cbuf s) = 128" using assms(1) by (simp add: cons_holds_def)
  then show "length (cbuf t) = 128" by (simp add: t_def)
  show "in_e t = in_r t + word_of_nat (length rd + length ed + 1)" using e by (simp add: t_def)
  show "\<forall>k < length rd + length ed + 1. cbuf t ! ring_at (in_r t + word_of_nat k) = (rd @ ed @ [b]) ! k"
  proof (intro allI impI)
    fix k assume k: "k < length rd + length ed + 1"
    have r: "ring_at (in_e s) < 128" by (simp add: ring_at_def unat_mod)
    show "cbuf t ! ring_at (in_r t + word_of_nat k) = (rd @ ed @ [b]) ! k"
    proof (cases "k = length rd + length ed")
      case True
      then have "in_r t + word_of_nat k = in_e s" using e by (simp add: t_def)
      then show ?thesis using r l True by (simp add: t_def nth_append)
    next
      case False
      then have k': "k < length rd + length ed" using k by simp
      then have "ring_at (in_r s + word_of_nat k) \<noteq> ring_at (in_e s)"
        unfolding e using assms(2) ring_distinct [of k "length rd + length ed"] by simp
      then have "cbuf t ! ring_at (in_r t + word_of_nat k) = cbuf s ! ring_at (in_r s + word_of_nat k)"
        by (simp add: t_def)
      also have "\<dots> = (rd @ ed) ! k" using assms(1) k' by (simp add: cons_holds_def)
      also have "\<dots> = ((rd @ ed) @ [b]) ! k" using k' unfolding nth_append [of "rd @ ed"] by simp
      finally show ?thesis by simp
    qed
  qed
qed

lemma put_char_holds:
  assumes h: "cons_holds s rd ed" and s: "screen_ok s" and c: "c < 256" "c \<noteq> 16" "c \<noteq> 21" "c \<noteq> 8" "c \<noteq> 127"
  shows "\<exists>t. put_char c s = Ok t \<and> same_cons s t \<and> cons_holds t (fst (edit c (rd, ed))) (snd (edit c (rd, ed)))
    \<and> cwakes t = cwakes s + (if fst (edit c (rd, ed)) = rd then 0 else 1)"
proof (cases "c \<noteq> 0 \<and> length rd + length ed < 128")
  case False
  then have "\<not> (c \<noteq> 0 \<and> in_e s - in_r s < 128)" using holds_index(4) [OF h] by blast
  then have "put_char c s = Ok s" unfolding put_char_def by (simp only: if_False)
  moreover have "edit c (rd, ed) = (rd, ed)" using False c by (auto simp: edit_def)
  ultimately show ?thesis using h s by (simp add: same_cons_def)
next
  case True
  define c' where "c' = (if c = 13 then 10 else c)"
  define s1 where "s1 = s\<lparr>cbuf := (cbuf s)[ring_at (in_e s) := ucast c'], in_e := in_e s + 1\<rparr>"
  have "screen_ok s1" using s by (simp add: s1_def screen_ok_def)
  from consputc_ok [OF this] obtain t where t: "consputc c' s1 = Ok t" "screen_ok t" by blast
  note fr = consputc_frame [OF t(1)]
  have c': "c' < 256" using c(1) by (simp add: c'_def)
  have f: "in_e t = in_e s + 1" "in_r t = in_r s" "in_w t = in_w s" "cwakes t = cwakes s" "clock_lk t = clock_lk s" "cbuf t = cbuf s1"
    using fr by (simp_all add: s1_def)
  note st = holds_store [OF h _, of "ucast c'", folded s1_def]
  have st': "length (cbuf t) = 128" "\<forall>k < length rd + length ed + 1. cbuf t ! ring_at (in_r t + word_of_nat k) = (rd @ ed @ [ucast c']) ! k"
    using st True f by (simp_all add: s1_def)
  have run: "put_char c s = (if c' = 10 \<or> c' = 4 \<or> length rd + length ed = 127
      then Ok (t\<lparr>in_w := in_e t, cwakes := cwakes t + 1\<rparr>) else Ok t)"
    using True t(1) holds_index(4,5) [OF h] f(1,2) unfolding put_char_def Let_def c'_def [symmetric] s1_def [symmetric] by simp
  have ed: "edit c (rd, ed) = (if c' = 10 \<or> c' = 4 \<or> length rd + length ed = 127 then (rd @ ed @ [ucast c'], []) else (rd, ed @ [ucast c']))"
    using True c ucast_control [OF c'] by (simp add: edit_def Let_def c'_def [symmetric])
  show ?thesis
  proof (cases "c' = 10 \<or> c' = 4 \<or> length rd + length ed = 127")
    case yes: True
    let ?u = "t\<lparr>in_w := in_e t, cwakes := cwakes t + 1\<rparr>"
    have "cons_holds ?u (rd @ ed @ [ucast c']) []"
      using st' True f st(3) holds_index(1) [OF h] by (simp add: cons_holds_def)
    moreover have "screen_ok ?u" using t(2) by (simp add: screen_ok_def)
    ultimately show ?thesis using yes run ed f by (simp add: same_cons_def)
  next
    case no: False
    have "cons_holds t rd (ed @ [ucast c'])"
      using st' True f h no ucast_control [OF c'] by (simp add: cons_holds_def add.assoc)
    then show ?thesis using no run ed f t(2) by (simp add: same_cons_def)
  qed
qed

lemma cons_chars_hold:
  "cons_holds s rd ed \<Longrightarrow> screen_ok s \<Longrightarrow> \<forall>c \<in> set cs. c < 256 \<Longrightarrow>
   \<exists>t. cons_chars cs s = Ok t \<and> same_cons s t \<and> cons_holds t (fst (edit_all cs (rd, ed))) (snd (edit_all cs (rd, ed)))
     \<and> cwakes s \<le> cwakes t \<and> (fst (edit_all cs (rd, ed)) = rd \<or> cwakes s < cwakes t)"
proof (induction cs arbitrary: s rd ed)
  case Nil
  then show ?case by (simp add: edit_all_def same_cons_def)
next
  case (Cons c cs)
  have "\<exists>t. cons_char c s = Ok t \<and> same_cons s t \<and> cons_holds t (fst (edit c (rd, ed))) (snd (edit c (rd, ed)))
    \<and> cwakes t = cwakes s + (if fst (edit c (rd, ed)) = rd then 0 else 1)"
  proof -
    consider "c = 16" | "c = 21" | "c = 8 \<or> c = 127" | "c \<noteq> 16" "c \<noteq> 21" "c \<noteq> 8" "c \<noteq> 127" by blast
    then show ?thesis
    proof cases
      case 1
      then show ?thesis using Cons.prems by (simp add: cons_char_def edit_def same_cons_def)
    next
      case 2
      then show ?thesis using kill_line_holds [OF Cons.prems(1,2)] by (auto simp: cons_char_def edit_def)
    next
      case 3
      then show ?thesis using backspace_holds [OF Cons.prems(1,2)] by (auto simp: cons_char_def edit_def)
    next
      case 4
      then show ?thesis using put_char_holds [OF Cons.prems(1,2)] Cons.prems(3) by (simp add: cons_char_def)
    qed
  qed
  then obtain t where t: "cons_char c s = Ok t" "same_cons s t" "cons_holds t (fst (edit c (rd, ed))) (snd (edit c (rd, ed)))"
    "cwakes t = cwakes s + (if fst (edit c (rd, ed)) = rd then 0 else 1)" by blast
  have st: "screen_ok t" using t(2) by (simp add: same_cons_def)
  have e: "edit_all (c # cs) (rd, ed) = edit_all cs (fst (edit c (rd, ed)), snd (edit c (rd, ed)))"
    by (simp add: edit_all_def)
  have "\<forall>c \<in> set cs. c < 256" using Cons.prems(3) by simp
  from Cons.IH [OF t(3) st this, folded e] obtain u where u: "cons_chars cs t = Ok u" "same_cons t u"
    "cons_holds u (fst (edit_all (c # cs) (rd, ed))) (snd (edit_all (c # cs) (rd, ed)))" "cwakes t \<le> cwakes u"
    "fst (edit_all (c # cs) (rd, ed)) = fst (edit c (rd, ed)) \<or> cwakes t < cwakes u" by blast
  have "cwakes s \<le> cwakes u" using t(4) u(4) by (simp split: if_splits)
  moreover have "fst (edit_all (c # cs) (rd, ed)) = rd \<or> cwakes s < cwakes u"
    using t(4) u(4,5) by (cases "fst (edit c (rd, ed)) = rd") auto
  ultimately show ?case using t(1,2) u(1-3) by (auto simp: same_cons_def)
qed

lemma holds_take_first:
  assumes h: "cons_holds s (b # rd) ed"
  shows "cbuf s ! ring_at (in_r s) = b" "cons_holds (s\<lparr>in_r := in_r s + 1\<rparr>) rd ed"
proof -
  have a: "\<forall>k < length (b # rd) + length ed. cbuf s ! ring_at (in_r s + word_of_nat k) = ((b # rd) @ ed) ! k"
    using h unfolding cons_holds_def by blast
  from a [rule_format, of 0] show "cbuf s ! ring_at (in_r s) = b" by simp
  have "\<forall>k < length rd + length ed. cbuf s ! ring_at (in_r s + 1 + word_of_nat k) = (rd @ ed) ! k"
  proof (intro allI impI)
    fix k assume "k < length rd + length ed"
    then have "cbuf s ! ring_at (in_r s + word_of_nat (Suc k)) = ((b # rd) @ ed) ! Suc k"
      using a [rule_format, of "Suc k"] by simp
    then show "cbuf s ! ring_at (in_r s + 1 + word_of_nat k) = (rd @ ed) ! k" by (simp add: add.assoc)
  qed
  then show "cons_holds (s\<lparr>in_r := in_r s + 1\<rparr>) rd ed"
    using h by (simp add: cons_holds_def algebra_simps)
qed

lemma consoleread_holds:
  "cons_holds s rd ed \<Longrightarrow> \<exists>t. consoleread_loop n acc s = (fst (take_line n acc rd), t)
     \<and> cons_holds t (snd (take_line n acc rd)) ed \<and> clock_lk t = clock_lk s \<and> (screen_ok t \<longleftrightarrow> screen_ok s)"
proof (induction n acc rd arbitrary: s rule: take_line.induct)
  case (2 n acc)
  then show ?case using holds_index(3) [OF 2] by simp
next
  case (3 n acc b q)
  note h = holds_take_first [OF 3(2)]
  have ne: "in_r s \<noteq> in_w s" using holds_index(3) [OF 3(2)] by simp
  consider "b = 4" | "b = 10" | "b \<noteq> 4" "b \<noteq> 10" by blast
  then show ?case
  proof cases
    case 1
    then show ?thesis using ne h 3(2) by (auto simp: Let_def screen_ok_def)
  next
    case 2
    then show ?thesis using ne h by (auto simp: Let_def screen_ok_def)
  next
    case c: 3
    obtain t where "consoleread_loop n (acc @ [b]) (s\<lparr>in_r := in_r s + 1\<rparr>) = (fst (take_line n (acc @ [b]) q), t)"
      "cons_holds t (snd (take_line n (acc @ [b]) q)) ed" "clock_lk t = clock_lk s" "screen_ok t \<longleftrightarrow> screen_ok s"
      using 3(1) [OF c h(2)] by (auto simp: screen_ok_def)
    then show ?thesis using ne h(1) c by (simp add: Let_def)
  qed
qed simp

text \<open>
  C12. The line discipline.  The ring of 128 bytes with its three wrapping indices holds two lists, the bytes
  that can be read and the line being edited.  For any keys, \<open>consoleintr\<close> acts on them as the editor
  does: a key goes to the end of the line, backspace takes the last byte of the line off (never one that
  can already be read), control-U all of it, and return, control-D or a full ring hand the line over to the
  readers with a wake-up.  \<open>consoleread\<close> then takes bytes off the front as far as the end of a line, and
  an end-of-file mark behind other bytes is left for the next call.  Nothing panics, both give the lock back.
\<close>

theorem console_line_discipline:
  assumes "cons_holds s rd ed" "screen_ok s" "\<not> clock_lk s" "\<forall>c \<in> set cs. c < 256"
  shows "\<exists>t. consoleintr cs s = Ok (16 \<in> set cs, t) \<and> \<not> clock_lk t \<and> screen_ok t
    \<and> cons_holds t (fst (edit_all cs (rd, ed))) (snd (edit_all cs (rd, ed)))
    \<and> (fst (edit_all cs (rd, ed)) = rd \<or> cwakes s < cwakes t)
    \<and> (\<exists>u. consoleread_run killed n [] t =
         Ok (case fst (take_line n [] (fst (edit_all cs (rd, ed)))) of
               CDone bs \<Rightarrow> Some (CDone bs) | CSleep bs k \<Rightarrow> if killed then None else Some (CSleep bs k), u)
       \<and> \<not> clock_lk u \<and> cons_holds u (snd (take_line n [] (fst (edit_all cs (rd, ed))))) (snd (edit_all cs (rd, ed))))"
proof -
  let ?rd = "fst (edit_all cs (rd, ed))" and ?ed = "snd (edit_all cs (rd, ed))"
  let ?s = "s\<lparr>clock_lk := True\<rparr>"
  have "cons_holds ?s rd ed" "screen_ok ?s" using assms(1,2) by (simp_all add: cons_holds_def screen_ok_def)
  from cons_chars_hold [OF this assms(4)] obtain t where t: "cons_chars cs ?s = Ok t" "screen_ok t" "clock_lk t"
    "cons_holds t ?rd ?ed" "?rd = rd \<or> cwakes s < cwakes t"
    by (auto simp: same_cons_def)
  let ?t = "t\<lparr>clock_lk := False\<rparr>"
  have ct: "consoleintr cs s = Ok (16 \<in> set cs, ?t)"
    using t(1,3) assms(3) by (simp add: consoleintr_def cons_acquire_def cons_release_def)
  have h: "cons_holds ?t ?rd ?ed" using t(4) by (simp add: cons_holds_def)
  have "cons_holds (?t\<lparr>clock_lk := True\<rparr>) ?rd ?ed" using h by (simp add: cons_holds_def)
  from consoleread_holds [OF this, of n "[]"] obtain u where
    u: "consoleread_loop n [] (?t\<lparr>clock_lk := True\<rparr>) = (fst (take_line n [] ?rd), u)"
      "cons_holds u (snd (take_line n [] ?rd)) ?ed" "clock_lk u" by auto
  have "consoleread_run killed n [] ?t =
      Ok (case fst (take_line n [] ?rd) of
               CDone bs \<Rightarrow> Some (CDone bs) | CSleep bs k \<Rightarrow> if killed then None else Some (CSleep bs k), u\<lparr>clock_lk := False\<rparr>)"
    using u(1,3) by (simp add: consoleread_run_def cons_acquire_def cons_release_def split: cread.split)
  moreover have "cons_holds (u\<lparr>clock_lk := False\<rparr>) (snd (take_line n [] ?rd)) ?ed" using u(2) by (simp add: cons_holds_def)
  ultimately show ?thesis using ct h t(2,5) by (intro exI [of _ ?t]) (auto simp: screen_ok_def)
qed

theorem console_line_discipline_witness:
  "\<exists>t u. consoleintr [97, 98, 8, 99, 13, 100] console_demo = Ok (False, t)
    \<and> consoleread_run False 10 [] t = Ok (Some (CDone [97, 99, 10]), u) \<and> cons_holds u [] [100]"
proof -
  have e: "edit_all [97, 98, 8, 99, 13, 100] ([], []) = ([97, 99, 10], [100])"
    by code_simp
  have l: "take_line 10 [] [97, 99, 10] = (CDone [97, 99, 10], [])" by code_simp
  have "cons_holds console_demo [] []" "\<not> clock_lk console_demo" by (simp_all add: cons_holds_def console_demo_def)
  then show ?thesis
    using console_line_discipline [of console_demo "[]" "[]" "[97, 98, 8, 99, 13, 100]" False 10, unfolded e fst_conv snd_conv l]
      console_demo_screen by auto
qed
end
