(* ===== verification/Sh.thy ===== *)
theory Sh
  imports Grep Fsops
begin

unbundle bit_operations_syntax

text \<open>
  The shell (\<open>sh.c\<close>): its tokens, its recursive-descent parser and the constructors of its commands.
  The text from \<open>*ps\<close> to \<open>es\<close> is a list of bytes without NUL, so that \<open>*s\<close> is NUL exactly at \<open>es\<close>.
  A counted string (\<open>q\<close> up to \<open>eq\<close>) is the list of its bytes; \<open>nulterminate\<close>, which later writes a NUL
  behind each of them, does not change what it denotes.  \<open>panic\<close> of the shell prints the message and
  exits: \<open>Panic\<close>.  The recursive functions carry fuel, \<open>Blocked\<close> when it runs out; \<open>Sh_Spec\<close> shows
  that the fuel of \<open>parsecmd\<close> is always enough.
\<close>

definition MAXARGS :: nat where "MAXARGS = 10"

datatype cmd =
    Exec "u8 list list"
  | Redir cmd "u8 list" u32 nat
  | PipeC cmd cmd
  | ListC cmd cmd
  | Back cmd

definition whitespace :: "u8 list" where "whitespace = [32, 9, 13, 10, 11]"
definition symbols :: "u8 list" where "symbols = [60, 124, 62, 38, 59, 40, 41]"

subsection \<open>Tokens\<close>

definition skip_space :: "u8 list \<Rightarrow> u8 list" where
  "skip_space s = dropWhile (\<lambda>c. c \<in> set whitespace) s"

definition word_char :: "u8 \<Rightarrow> bool" where
  "word_char c \<longleftrightarrow> c \<notin> set whitespace \<and> c \<notin> set symbols"

text \<open>\<open>gettoken\<close>: the code of the token (0 at the end, 97 for a word, 43 for \<open>>>\<close>), the token, the rest.\<close>

definition gettoken :: "u8 list \<Rightarrow> u8 \<times> u8 list \<times> u8 list" where
  "gettoken s =
     (case skip_space s of
        [] \<Rightarrow> (0, [], [])
      | c # r \<Rightarrow>
          if c \<in> {124, 40, 41, 59, 38, 60} then (c, [c], skip_space r)
          else if c = 62
          then (if r \<noteq> [] \<and> hd r = 62 then (43, [c, 62], skip_space (tl r)) else (c, [c], skip_space r))
          else (97, takeWhile word_char (c # r), skip_space (dropWhile word_char (c # r))))"

definition peek :: "u8 list \<Rightarrow> u8 list \<Rightarrow> bool \<times> u8 list" where
  "peek s toks = (let s1 = skip_space s in (s1 \<noteq> [] \<and> hd s1 \<in> set toks, s1))"

lemma skip_space_le: "length (skip_space s) \<le> length s"
  by (simp add: skip_space_def length_dropWhile_le)

lemma skip_space_head: "skip_space s = c # r \<Longrightarrow> c \<notin> set whitespace"
  unfolding skip_space_def by (metis hd_dropWhile list.distinct(1) list.sel(1))

lemma gettoken_less:
  assumes "gettoken s = (t, w, r)" "skip_space s \<noteq> []"
  shows "length r < length s"
proof -
  obtain c u where c: "skip_space s = c # u" using assms(2) by (cases "skip_space s") auto
  have l: "Suc (length u) \<le> length s" using skip_space_le [of s] c by simp
  have "\<exists>v. r = skip_space v \<and> length v \<le> length u"
  proof (cases "c \<in> {124, 40, 41, 59, 38, 60}")
    case True
    then have "r = skip_space u" using assms(1) unfolding gettoken_def c by simp
    then show ?thesis by blast
  next
    case False
    show ?thesis
    proof (cases "c = 62")
      case True
      then have "r = skip_space u \<or> r = skip_space (tl u)"
        using assms(1) False unfolding gettoken_def c by (simp split: if_splits)
      then show ?thesis by (metis diff_le_self length_tl order_refl)
    next
      case c62: False
      have "word_char c" using False c62 skip_space_head [OF c] by (simp add: word_char_def symbols_def)
      then have "r = skip_space (dropWhile word_char u)"
        using assms(1) False c62 unfolding gettoken_def c by simp
      then show ?thesis using length_dropWhile_le by blast
    qed
  qed
  then show ?thesis using l skip_space_le le_trans by (metis Suc_le_lessD le_imp_less_Suc less_le_trans)
qed

lemma gettoken_le: "gettoken s = (t, w, r) \<Longrightarrow> length r \<le> length s"
  using gettoken_less [of s t w r] by (cases "skip_space s = []") (simp_all add: gettoken_def)

lemma peek_le: "peek s toks = (b, r) \<Longrightarrow> length r \<le> length s"
  using skip_space_le [of s] by (auto simp: peek_def Let_def)

lemma peek_token:
  assumes "peek s toks = (True, r)" "gettoken r = (t, w, u)"
  shows "length u < length s"
proof -
  have r: "r = skip_space s" "r \<noteq> []" using assms(1) by (auto simp: peek_def Let_def)
  have "skip_space r = r" unfolding r(1) skip_space_def by (simp add: dropWhile_idem)
  then show ?thesis using gettoken_less [OF assms(2)] r skip_space_le [of s] by simp
qed

lemma peek_two_tokens:
  "peek s toks = (True, r) \<Longrightarrow> gettoken r = (t, w, u) \<Longrightarrow> gettoken u = (t', w', v) \<Longrightarrow> length v < length s"
  using peek_token gettoken_le le_less_trans by blast

subsection \<open>The parser\<close>

text \<open>\<open>parseredirs\<close>: the redirections it wraps around the command, innermost first: file, mode, descriptor.\<close>

function redirs :: "u8 list \<Rightarrow> ((u8 list \<times> u32 \<times> nat) list \<times> u8 list) outcome" where
  "redirs s =
     (case peek s [60, 62] of
        (False, s1) \<Rightarrow> Ok ([], s1)
      | (True, s1) \<Rightarrow>
          (case gettoken s1 of (tok, _, s2) \<Rightarrow>
            (case gettoken s2 of (t2, file, s3) \<Rightarrow>
              panic_if (t2 \<noteq> 97) ''missing file for redirection''
              (bnd (redirs s3) (\<lambda>(rs, s4).
                Ok ((if tok = 60 then [(file, O_RDONLY, 0)]
                     else if tok = 62 then [(file, O_WRONLY OR O_CREATE, 1)]
                     else if tok = 43 then [(file, O_WRONLY OR O_CREATE, 1)] else []) @ rs, s4))))))"
  by pat_completeness auto
termination
  by (relation "measure length") (auto intro: peek_two_tokens [OF sym sym sym])

declare redirs.simps [simp del]

definition wrap :: "cmd \<Rightarrow> (u8 list \<times> u32 \<times> nat) list \<Rightarrow> cmd" where
  "wrap c rs = foldl (\<lambda>c (f, m, fd). Redir c f m fd) c rs"

text \<open>The loop of \<open>parseexec\<close> over the arguments and the redirections between them.\<close>

function exec_args :: "u8 list list \<Rightarrow> (u8 list \<times> u32 \<times> nat) list \<Rightarrow> u8 list \<Rightarrow> (cmd \<times> u8 list) outcome" where
  "exec_args args rs s =
     (case peek s [124, 41, 38, 59] of
        (True, s1) \<Rightarrow> Ok (wrap (Exec args) rs, s1)
      | (False, s1) \<Rightarrow>
          (case gettoken s1 of (tok, w, s2) \<Rightarrow>
             if tok = 0 then Ok (wrap (Exec args) rs, s2)
             else panic_if (tok \<noteq> 97) ''syntax''
               (panic_if (MAXARGS \<le> length args + 1) ''too many args''
                 (bnd (redirs s2) (\<lambda>(r, s3). exec_args (args @ [w]) (rs @ r) s3)))))"
  by pat_completeness auto
termination
  by (relation "measure (\<lambda>(args, _, _). MAXARGS - length args)") auto

declare exec_args.simps [simp del]

text \<open>The loop of \<open>parseline\<close> over the ampersands.\<close>

function amps :: "cmd \<Rightarrow> u8 list \<Rightarrow> cmd \<times> u8 list" where
  "amps c s =
     (case peek s [38] of
        (True, s1) \<Rightarrow> (case gettoken s1 of (_, _, s2) \<Rightarrow> amps (Back c) s2)
      | (False, s1) \<Rightarrow> (c, s1))"
  by pat_completeness auto
termination
  by (relation "measure (\<lambda>(_, s). length s)") (auto intro: peek_token [OF sym sym])

declare amps.simps [simp del]

fun parseline :: "nat \<Rightarrow> u8 list \<Rightarrow> (cmd \<times> u8 list) outcome"
  and parsepipe :: "nat \<Rightarrow> u8 list \<Rightarrow> (cmd \<times> u8 list) outcome"
  and parseexec :: "nat \<Rightarrow> u8 list \<Rightarrow> (cmd \<times> u8 list) outcome"
  and parseblock :: "nat \<Rightarrow> u8 list \<Rightarrow> (cmd \<times> u8 list) outcome" where
  "parseline 0 s = Blocked"
| "parseline (Suc k) s =
     bnd (parsepipe k s) (\<lambda>(c, s1).
       case amps c s1 of (c2, s2) \<Rightarrow>
       (case peek s2 [59] of
          (True, s3) \<Rightarrow> (case gettoken s3 of (_, _, s4) \<Rightarrow>
             bnd (parseline k s4) (\<lambda>(d, s5). Ok (ListC c2 d, s5)))
        | (False, s3) \<Rightarrow> Ok (c2, s3)))"
| "parsepipe 0 s = Blocked"
| "parsepipe (Suc k) s =
     bnd (parseexec k s) (\<lambda>(c, s1).
       case peek s1 [124] of
         (True, s2) \<Rightarrow> (case gettoken s2 of (_, _, s3) \<Rightarrow>
            bnd (parsepipe k s3) (\<lambda>(d, s4). Ok (PipeC c d, s4)))
       | (False, s2) \<Rightarrow> Ok (c, s2))"
| "parseexec 0 s = Blocked"
| "parseexec (Suc k) s =
     (case peek s [40] of
        (True, s1) \<Rightarrow> parseblock k s1
      | (False, s1) \<Rightarrow> bnd (redirs s1) (\<lambda>(rs, s2). exec_args [] rs s2))"
| "parseblock 0 s = Blocked"
| "parseblock (Suc k) s =
     (case peek s [40] of
        (False, s1) \<Rightarrow> Panic ''parseblock''
      | (True, s1) \<Rightarrow>
          (case gettoken s1 of (_, _, s2) \<Rightarrow>
             bnd (parseline k s2) (\<lambda>(c, s3).
               case peek s3 [41] of
                 (False, s4) \<Rightarrow> Panic ''syntax - missing )''
               | (True, s4) \<Rightarrow>
                   (case gettoken s4 of (_, _, s5) \<Rightarrow>
                      bnd (redirs s5) (\<lambda>(rs, s6). Ok (wrap c rs, s6))))))"

definition parsecmd :: "u8 list \<Rightarrow> cmd outcome" where
  "parsecmd s =
     bnd (parseline (5 * (length s + 1)) s) (\<lambda>(c, s1).
       let (_, s2) = peek s1 [] in panic_if (s2 \<noteq> []) ''syntax'' (Ok c))"

end
