(* ===== verification/Sh_Spec.thy ===== *)
theory Sh_Spec
  imports Sh
begin

text \<open>
  The shell's parser: it always finishes and builds only well-formed commands (\<open>cmd_ok\<close>), and it reads
  back the text of every well-formed command.
\<close>

subsection \<open>Well-formed commands\<close>

definition is_word :: "u8 list \<Rightarrow> bool" where
  "is_word w \<longleftrightarrow> w \<noteq> [] \<and> list_all word_char w"

definition redir_ok :: "u8 list \<times> u32 \<times> nat \<Rightarrow> bool" where
  "redir_ok r = (case r of (f, m, fd) \<Rightarrow> is_word f \<and> (m = O_RDONLY \<and> fd = 0 \<or> m = O_WRONLY OR O_CREATE \<and> fd = 1))"

fun cmd_ok :: "cmd \<Rightarrow> bool" where
  "cmd_ok (Exec ws) = (length ws < MAXARGS \<and> list_all is_word ws)"
| "cmd_ok (Redir c f m fd) = (cmd_ok c \<and> redir_ok (f, m, fd))"
| "cmd_ok (PipeC l r) = (cmd_ok l \<and> cmd_ok r)"
| "cmd_ok (ListC l r) = (cmd_ok l \<and> cmd_ok r)"
| "cmd_ok (Back c) = cmd_ok c"

lemma gettoken_word:
  assumes "gettoken s = (97, w, r)"
  shows "is_word w"
proof -
  obtain c u where c: "skip_space s = c # u" using assms by (cases "skip_space s") (auto simp: gettoken_def)
  have n: "c \<notin> {124, 40, 41, 59, 38, 60}" "c \<noteq> 62" using assms by (auto simp: gettoken_def c split: if_splits)
  then have "word_char c" using skip_space_head [OF c] by (simp add: word_char_def symbols_def)
  moreover have "w = takeWhile word_char (c # u)" using assms n by (simp add: gettoken_def c)
  ultimately show ?thesis by (auto simp: is_word_def list_all_iff dest: set_takeWhileD)
qed

subsection \<open>The parser finishes\<close>

text \<open>What may come out of a parsing function: a well-formed command and a rest, or a syntax error.\<close>

definition parse_ok :: "u8 list \<Rightarrow> (cmd \<times> u8 list) outcome \<Rightarrow> bool" where
  "parse_ok s x = (case x of Ok (c, r) \<Rightarrow> cmd_ok c \<and> length r \<le> length s | Panic _ \<Rightarrow> True | _ \<Rightarrow> False)"

lemma parse_ok_simps [simp]:
  "parse_ok s (Ok (c, r)) \<longleftrightarrow> cmd_ok c \<and> length r \<le> length s" "parse_ok s (Panic m)" "\<not> parse_ok s Blocked" "\<not> parse_ok s Fault"
  by (simp_all add: parse_ok_def)

lemma parse_ok_bnd:
  "parse_ok s1 m \<Longrightarrow> (\<And>c r. m = Ok (c, r) \<Longrightarrow> cmd_ok c \<Longrightarrow> length r \<le> length s1 \<Longrightarrow> parse_ok s (f (c, r))) \<Longrightarrow> parse_ok s (bnd m f)"
  by (cases m) (auto simp: parse_ok_def)

lemma redirs_ok:
  "case redirs s of Ok (rs, r) \<Rightarrow> list_all redir_ok rs \<and> length r \<le> length s | Panic _ \<Rightarrow> True | _ \<Rightarrow> False"
proof (induction s rule: length_induct)
  case (1 s)
  obtain b s1 where p: "peek s [60, 62] = (b, s1)" by force
  show ?case
  proof (cases b)
    case False
    then show ?thesis using p peek_le [OF p] by (subst redirs.simps) simp
  next
    case True
    obtain t w s2 where g: "gettoken s1 = (t, w, s2)" using prod_cases3 by blast
    obtain t2 f s3 where g2: "gettoken s2 = (t2, f, s3)" using prod_cases3 by blast
    have l: "length s3 < length s" using peek_two_tokens p True g g2 by simp
    show ?thesis
    proof (cases "t2 = 97")
      case False
      then show ?thesis using p True g g2 by (subst redirs.simps) (simp add: panic_if_def)
    next
      case w: True
      have "case redirs s3 of Ok (rs, r) \<Rightarrow> list_all redir_ok rs \<and> length r \<le> length s3 | Panic _ \<Rightarrow> True | _ \<Rightarrow> False"
        using 1 l by blast
      moreover have "is_word f" using gettoken_word g2 w by blast
      ultimately show ?thesis using p True g g2 w l
        by (subst redirs.simps) (cases "redirs s3", auto simp: redir_ok_def panic_if_def)
    qed
  qed
qed

lemma wrap_ok: "cmd_ok c \<Longrightarrow> list_all redir_ok rs \<Longrightarrow> cmd_ok (wrap c rs)"
  unfolding wrap_def by (induction rs arbitrary: c) (auto simp: split_beta)

lemma parse_ok_redirs:
  "(\<And>rs r. redirs s1 = Ok (rs, r) \<Longrightarrow> list_all redir_ok rs \<Longrightarrow> length r \<le> length s1 \<Longrightarrow> parse_ok s (f (rs, r))) \<Longrightarrow> parse_ok s (bnd (redirs s1) f)"
  using redirs_ok [of s1] by (cases "redirs s1") auto

lemma exec_args_ok:
  "list_all is_word args \<Longrightarrow> length args < MAXARGS \<Longrightarrow> list_all redir_ok rs \<Longrightarrow> parse_ok s (exec_args args rs s)"
proof (induction "MAXARGS - length args" arbitrary: args rs s rule: less_induct)
  case less
  obtain b s1 where p: "peek s [124, 41, 38, 59] = (b, s1)" by force
  have l1: "length s1 \<le> length s" using peek_le [OF p] .
  have e: "cmd_ok (wrap (Exec args) rs)" using less(2-4) by (intro wrap_ok) simp_all
  show ?case
  proof (cases b)
    case True
    then show ?thesis using p e l1 by (subst exec_args.simps) simp
  next
    case False
    obtain t w s2 where g: "gettoken s1 = (t, w, s2)" using prod_cases3 by blast
    have l2: "length s2 \<le> length s" using gettoken_le [OF g] l1 by simp
    consider "t = 0" | "t \<noteq> 0" "t \<noteq> 97" | "t = 97" "MAXARGS \<le> length args + 1" | "t = 97" "length args + 1 < MAXARGS" by linarith
    then show ?thesis
    proof cases
      case 4
      have w: "is_word w" using gettoken_word g 4 by blast
      have "parse_ok s (bnd (redirs s2) (\<lambda>(r, s3). exec_args (args @ [w]) (rs @ r) s3))"
      proof (rule parse_ok_redirs)
        fix r s3 assume r: "redirs s2 = Ok (r, s3)" "list_all redir_ok r" "length s3 \<le> length s2"
        have "parse_ok s3 (exec_args (args @ [w]) (rs @ r) s3)"
          using less(2-4) r w 4 by (intro less(1)) auto
        then show "parse_ok s ((\<lambda>(r, s3). exec_args (args @ [w]) (rs @ r) s3) (r, s3))"
          using r(3) l2 by (auto simp: parse_ok_def split: outcome.splits)
      qed
      then show ?thesis using p False g 4 by (subst exec_args.simps) (simp add: panic_if_def)
    qed (use p False g e l2 in \<open>subst exec_args.simps, simp add: panic_if_def\<close>)+
  qed
qed

lemma amps_ok: "cmd_ok c \<Longrightarrow> amps c s = (d, r) \<Longrightarrow> cmd_ok d \<and> length r \<le> length s"
proof (induction "length s" arbitrary: c s rule: less_induct)
  case less
  obtain b s1 where p: "peek s [38] = (b, s1)" by force
  show ?case
  proof (cases b)
    case False
    then show ?thesis using less(2,3) p peek_le [OF p] by (subst (asm) amps.simps) simp
  next
    case True
    obtain t w s2 where g: "gettoken s1 = (t, w, s2)" using prod_cases3 by blast
    have l: "length s2 < length s" using peek_token p True g by simp
    have "amps (Back c) s2 = (d, r)" using less(3) p True g by (subst (asm) amps.simps) simp
    then have "cmd_ok d \<and> length r \<le> length s2" using l less(2) by (intro less(1)) auto
    then show ?thesis using l by simp
  qed
qed

lemma parser_ok:
  "4 * length s + 4 \<le> k \<Longrightarrow> parse_ok s (parseline k s)"
  "4 * length s + 3 \<le> k \<Longrightarrow> parse_ok s (parsepipe k s)"
  "4 * length s + 2 \<le> k \<Longrightarrow> parse_ok s (parseexec k s)"
  "4 * length s + 1 \<le> k \<Longrightarrow> parse_ok s (parseblock k s)"
proof (induction k arbitrary: s)
  case (Suc k)
  { case 1
    have "parse_ok s (parsepipe k s)" using 1 by (intro Suc.IH(2)) simp
    then show ?case unfolding parseline.simps
    proof (rule parse_ok_bnd, unfold prod.case)
      fix c and s1 :: "u8 list" assume c: "cmd_ok c" "length s1 \<le> length s"
      obtain c2 s2 where a: "amps c s1 = (c2, s2)" using prod.exhaust by blast
      obtain b s3 where p: "peek s2 [59] = (b, s3)" by force
      obtain t w s4 where g: "gettoken s3 = (t, w, s4)" using prod_cases3 by blast
      have c2: "cmd_ok c2" "length s2 \<le> length s" using amps_ok [OF c(1) a] c(2) by simp_all
      show "parse_ok s (case amps c s1 of (c2, s2) \<Rightarrow> case peek s2 [59] of
          (True, s3) \<Rightarrow> (case gettoken s3 of (_, _, s4) \<Rightarrow> bnd (parseline k s4) (\<lambda>(d, s5). Ok (ListC c2 d, s5)))
        | (False, s3) \<Rightarrow> Ok (c2, s3))"
      proof (cases b)
        case True
        have l: "length s4 < length s" using peek_token p True g c2 by fastforce
        then have "parse_ok s4 (parseline k s4)" using 1 by (intro Suc.IH(1)) simp
        then have "parse_ok s (bnd (parseline k s4) (\<lambda>(d, s5). Ok (ListC c2 d, s5)))"
          using l c2 by (rule_tac parse_ok_bnd) auto
        then show ?thesis using a p g True by simp
      qed (use a p c2 peek_le [OF p] in simp)
    qed
  next
    case 2
    have "parse_ok s (parseexec k s)" using 2 by (intro Suc.IH(3)) simp
    then show ?case unfolding parsepipe.simps
    proof (rule parse_ok_bnd, unfold prod.case)
      fix c and s1 :: "u8 list" assume c: "cmd_ok c" "length s1 \<le> length s"
      obtain b s3 where p: "peek s1 [124] = (b, s3)" by force
      obtain t w s4 where g: "gettoken s3 = (t, w, s4)" using prod_cases3 by blast
      show "parse_ok s (case peek s1 [124] of
          (True, s2) \<Rightarrow> (case gettoken s2 of (_, _, s3) \<Rightarrow> bnd (parsepipe k s3) (\<lambda>(d, s4). Ok (PipeC c d, s4)))
        | (False, s2) \<Rightarrow> Ok (c, s2))"
      proof (cases b)
        case True
        have l: "length s4 < length s" using peek_token p True g c by fastforce
        then have "parse_ok s4 (parsepipe k s4)" using 2 by (intro Suc.IH(2)) simp
        then have "parse_ok s (bnd (parsepipe k s4) (\<lambda>(d, s5). Ok (PipeC c d, s5)))"
          using l c by (rule_tac parse_ok_bnd) auto
        then show ?thesis using p g True by simp
      qed (use p c peek_le [OF p] in simp)
    qed
  next
    case 3
    obtain b s1 where p: "peek s [40] = (b, s1)" by force
    have l: "length s1 \<le> length s" using peek_le [OF p] .
    show ?case
    proof (cases b)
      case True
      have "parse_ok s1 (parseblock k s1)" using 3 l by (intro Suc.IH(4)) simp
      then show ?thesis using p True l by (auto simp: parse_ok_def split: outcome.splits)
    next
      case False
      have "parse_ok s (bnd (redirs s1) (\<lambda>(rs, s2). exec_args [] rs s2))"
      proof (rule parse_ok_redirs)
        fix rs and r :: "u8 list" assume "list_all redir_ok rs" "length r \<le> length s1"
        then show "parse_ok s ((\<lambda>(rs, s2). exec_args [] rs s2) (rs, r))"
          using exec_args_ok [of "[]" rs r] l by (auto simp: MAXARGS_def parse_ok_def split: outcome.splits)
      qed
      then show ?thesis using p False by simp
    qed
  next
    case 4
    obtain b s1 where p: "peek s [40] = (b, s1)" by force
    obtain t w s2 where g: "gettoken s1 = (t, w, s2)" using prod_cases3 by blast
    show ?case
    proof (cases b)
      case True
      have l: "length s2 < length s" using peek_token p True g by simp
      then have "parse_ok s2 (parseline k s2)" using 4 by (intro Suc.IH(1)) simp
      then have "parse_ok s (bnd (parseline k s2) (\<lambda>(c, s3).
               case peek s3 [41] of
                 (False, s4) \<Rightarrow> Panic ''syntax - missing )''
               | (True, s4) \<Rightarrow> (case gettoken s4 of (_, _, s5) \<Rightarrow> bnd (redirs s5) (\<lambda>(rs, s6). Ok (wrap c rs, s6)))))"
      proof (rule parse_ok_bnd, unfold prod.case)
        fix c and s3 :: "u8 list" assume c: "cmd_ok c" "length s3 \<le> length s2"
        obtain b' s4 where p': "peek s3 [41] = (b', s4)" by force
        obtain t' w' s5 where g': "gettoken s4 = (t', w', s5)" using prod_cases3 by blast
        have "length s5 \<le> length s" using gettoken_le [OF g'] peek_le [OF p'] c l by simp
        then have "parse_ok s (bnd (redirs s5) (\<lambda>(rs, s6). Ok (wrap c rs, s6)))"
          using c(1) wrap_ok by (intro parse_ok_redirs) auto
        then show "parse_ok s (case peek s3 [41] of
                 (False, s4) \<Rightarrow> Panic ''syntax - missing )''
               | (True, s4) \<Rightarrow> (case gettoken s4 of (_, _, s5) \<Rightarrow> bnd (redirs s5) (\<lambda>(rs, s6). Ok (wrap c rs, s6))))"
          using p' g' by (cases b') simp_all
      qed
      then show ?thesis using p g True by simp
    qed (use p in simp)
  }
qed simp_all

text \<open>
  C22. The parser of the shell finishes on every input, however its parentheses, operators and blanks lie:
  it returns a command or stops with a syntax error, and never runs out of its fuel, which is linear in
  the length of the line.
\<close>

theorem parser_terminates:
  "(\<exists>c. parsecmd s = Ok c) \<or> (\<exists>m. parsecmd s = Panic m)"
proof -
  have "parse_ok s (parseline (5 * (length s + 1)) s)" by (rule parser_ok(1)) simp
  then show ?thesis
    by (cases "parseline (5 * (length s + 1)) s") (auto simp: parsecmd_def peek_def Let_def panic_if_def split: if_splits)
qed

text \<open>
  C35. Every command the parser returns is well formed: at most nine arguments, so that the terminating null
  pointer still lies in the array of ten, every argument and file name a non-empty word without blanks or
  operators, and every redirection either descriptor 0 for reading or descriptor 1 for writing.
\<close>

theorem parser_well_formed:
  assumes "parsecmd s = Ok c"
  shows "cmd_ok c"
proof -
  have "parse_ok s (parseline (5 * (length s + 1)) s)" by (rule parser_ok(1)) simp
  then show ?thesis
    using assms by (cases "parseline (5 * (length s + 1)) s") (auto simp: parsecmd_def peek_def Let_def panic_if_def split: if_splits)
qed

theorem parser_well_formed_witness:
  "cmd_ok (Redir (Exec [[108, 115], [97]]) [102] (O_WRONLY OR O_CREATE) 1)"
  by (rule parser_well_formed [of "[32, 108, 115, 32, 62, 32, 102, 32, 97]"]) code_simp

subsection \<open>The text of a command\<close>

text \<open>
  \<open>prt n c\<close> writes the command with no more parentheses than the grammar needs at level \<open>n\<close>:
  0 a line, 1 what may be followed by an ampersand, 2 a pipeline, 3 a block or a simple command.
\<close>

definition paren :: "bool \<Rightarrow> u8 list \<Rightarrow> u8 list" where
  "paren b s = (if b then 40 # s @ [41] else s)"

definition word_text :: "u8 list list \<Rightarrow> u8 list" where
  "word_text ws = concat (map (\<lambda>w. w @ [32]) ws)"

definition redir_text :: "u8 list \<times> u32 \<times> nat \<Rightarrow> u8 list" where
  "redir_text r = (case r of (f, m, fd) \<Rightarrow> (if fd = 0 then 60 else 62) # f @ [32])"

fun prt :: "nat \<Rightarrow> cmd \<Rightarrow> u8 list" where
  "prt n (Exec ws) = word_text ws"
| "prt n (Redir c f m fd) = prt 3 c @ redir_text (f, m, fd)"
| "prt n (PipeC l r) = paren (2 < n) (prt 3 l @ 124 # prt 2 r)"
| "prt n (Back c) = paren (1 < n) (prt 1 c @ [38])"
| "prt n (ListC l r) = paren (0 < n) (prt 1 l @ 59 # prt 0 r)"

definition follow :: "u8 list \<Rightarrow> u8 list \<Rightarrow> bool" where
  "follow cs s \<longleftrightarrow> s = [] \<or> hd s \<in> set cs"

definition clean :: "u8 list \<Rightarrow> bool" where
  "clean s \<longleftrightarrow> s = [] \<or> hd s \<notin> set whitespace"

lemma skip_clean [simp]: "clean s \<Longrightarrow> skip_space s = s"
  by (cases s) (auto simp: clean_def skip_space_def)

lemma clean_Cons [simp]: "clean (c # s) \<longleftrightarrow> c \<notin> set whitespace"
  by (simp add: clean_def)

lemma clean_Nil [simp]: "clean []"
  by (simp add: clean_def)

lemma peek_clean: "clean s \<Longrightarrow> peek s toks = (s \<noteq> [] \<and> hd s \<in> set toks, s)"
  by (simp add: peek_def Let_def)

lemma peek_Cons: "c \<notin> set whitespace \<Longrightarrow> peek (c # s) toks = (c \<in> set toks, c # s)"
  by (simp add: peek_clean)

lemma follow_clean: "follow cs s \<Longrightarrow> set cs \<inter> set whitespace = {} \<Longrightarrow> clean s"
  by (auto simp: follow_def clean_def)

lemma gettoken_sym:
  "c \<in> {124, 40, 41, 59, 38, 60} \<Longrightarrow> clean s \<Longrightarrow> gettoken (c # s) = (c, [c], s)"
  by (auto simp: gettoken_def whitespace_def)

lemma is_word_head: "is_word w \<Longrightarrow> w \<noteq> [] \<and> word_char (hd w)"
  by (cases w) (auto simp: is_word_def)

lemma gettoken_word_text:
  assumes "is_word w" "clean s"
  shows "gettoken (w @ 32 # s) = (97, w, s)"
proof -
  obtain c u where w: "w = c # u" using assms(1) by (cases w) (auto simp: is_word_def)
  have c: "word_char c" using assms(1) w by (simp add: is_word_def)
  have all: "\<forall>x\<in>set w. word_char x" using assms(1) by (simp add: is_word_def list_all_iff)
  have s: "\<not> word_char 32" by (simp add: word_char_def whitespace_def)
  have t: "takeWhile word_char (w @ 32 # s) = w" "dropWhile word_char (w @ 32 # s) = 32 # s"
    using all s by (simp_all add: takeWhile_append2 dropWhile_append2)
  have sp: "skip_space (w @ 32 # s) = c # u @ 32 # s" using c w by (simp add: skip_space_def word_char_def)
  have n: "c \<notin> {124, 40, 41, 59, 38, 60}" "c \<noteq> 62" using c by (auto simp: word_char_def symbols_def)
  have e: "skip_space (32 # s) = s" using assms(2) skip_clean [OF assms(2)] by (simp add: skip_space_def whitespace_def)
  have "gettoken (w @ 32 # s) = (97, takeWhile word_char (c # u @ 32 # s), skip_space (dropWhile word_char (c # u @ 32 # s)))"
    unfolding gettoken_def sp using n by simp
  then show ?thesis using t e w by simp
qed

lemma word_clean: "is_word w \<Longrightarrow> clean (w @ s)"
  using is_word_head [of w] by (cases w) (auto simp: word_char_def)

lemma word_not_sym: "is_word w \<Longrightarrow> c \<in> set symbols \<Longrightarrow> hd (w @ s) \<noteq> c"
  using is_word_head [of w] by (cases w) (auto simp: word_char_def)

lemma redir_head: "redir_ok r \<Longrightarrow> \<exists>c f. redir_text r = c # f @ [32] \<and> c \<in> {60, 62} \<and> is_word f"
  by (cases r) (auto simp: redir_ok_def redir_text_def)

lemma gettoken_redir:
  assumes "redir_ok (f, m, fd)"
  shows "gettoken (redir_text (f, m, fd) @ s) = (if fd = 0 then 60 else 62, [if fd = 0 then 60 else 62], f @ 32 # s)"
proof -
  have f: "is_word f" using assms by (simp add: redir_ok_def)
  then obtain c u where w: "f = c # u" by (cases f) (auto simp: is_word_def)
  have "word_char c" using f w by (simp add: is_word_def)
  then have "c \<noteq> 62" "clean (f @ 32 # s)" using word_clean [OF f] by (auto simp: word_char_def symbols_def)
  then show ?thesis using w by (auto simp: gettoken_def redir_text_def skip_space_def whitespace_def clean_def)
qed

lemma rest_plain:
  assumes "follow [124, 41, 38, 59] s \<or> (\<exists>w u. s = w @ u \<and> is_word w)"
  shows "clean s" "s = [] \<or> hd s \<notin> {60, 62}"
  using assms
proof -
  show "clean s" using assms word_clean by (auto simp: follow_def whitespace_def clean_def)
  show "s = [] \<or> hd s \<notin> {60, 62}" using assms word_not_sym by (fastforce simp: follow_def symbols_def)
qed

lemma redirs_text:
  assumes "list_all redir_ok rs" "follow [124, 41, 38, 59] s \<or> (\<exists>w u. s = w @ u \<and> is_word w)"
  shows "redirs (concat (map redir_text rs) @ s) = Ok (rs, s)"
  using assms(1)
proof (induction rs)
  case Nil
  show ?case using rest_plain [OF assms(2)] by (subst redirs.simps) (auto simp: peek_clean)
next
  case (Cons r rs)
  obtain f m fd where r: "r = (f, m, fd)" by (cases r)
  let ?s = "concat (map redir_text rs) @ s"
  have ok: "redir_ok (f, m, fd)" "is_word f" using Cons.prems r by (auto simp: redir_ok_def)
  have p: "peek (redir_text r @ ?s) [60, 62] = (True, redir_text r @ ?s)"
    by (auto simp: r redir_text_def peek_Cons whitespace_def)
  have cl: "clean ?s"
    using rest_plain(1) [OF assms(2)] Cons.prems redir_head by (cases rs) (fastforce simp: whitespace_def)+
  have g: "gettoken (f @ 32 # ?s) = (97, f, ?s)" using ok cl by (simp add: gettoken_word_text)
  have "redirs (redir_text r @ ?s) = Ok (r # rs, s)"
    using Cons p g gettoken_redir [OF ok(1), of ?s] ok(1)
    by (subst redirs.simps) (auto simp: panic_if_def r redir_ok_def)
  then show ?case by simp
qed

lemma exec_args_end:
  assumes "follow [124, 41, 38, 59] s"
  shows "exec_args args rs s = Ok (wrap (Exec args) rs, s)"
proof (cases "s = []")
  case True
  then show ?thesis by (subst exec_args.simps) (simp add: peek_clean gettoken_def)
next
  case False
  then have "hd s \<in> set [124, 41, 38, 59]" "clean s" using assms rest_plain(1) by (auto simp: follow_def)
  then show ?thesis using False by (subst exec_args.simps) (simp add: peek_clean)
qed

lemma word_text_head: "list_all is_word (w # ws) \<Longrightarrow> \<exists>u. word_text (w # ws) @ s = w @ u \<and> is_word w"
  by (auto simp: word_text_def)

lemma redir_texts_clean: "list_all redir_ok rs \<Longrightarrow> clean s \<Longrightarrow> clean (concat (map redir_text rs) @ s)"
  using redir_head by (cases rs) (fastforce simp: whitespace_def)+

lemma exec_args_text:
  "ws \<noteq> [] \<Longrightarrow> list_all is_word ws \<Longrightarrow> list_all redir_ok rs \<Longrightarrow> length args + length ws < MAXARGS \<Longrightarrow>
   follow [124, 41, 38, 59] s \<Longrightarrow>
   exec_args args [] (word_text ws @ concat (map redir_text rs) @ s) = Ok (wrap (Exec (args @ ws)) rs, s)"
proof (induction ws arbitrary: args)
  case (Cons w ws)
  let ?t = "word_text ws @ concat (map redir_text rs) @ s"
  let ?s = "word_text (w # ws) @ concat (map redir_text rs) @ s"
  have w: "is_word w" using Cons.prems by simp
  have s: "?s = w @ 32 # ?t" by (simp add: word_text_def)
  have c: "clean ?t"
    using Cons.prems rest_plain(1) word_clean redir_texts_clean by (cases ws) (auto simp: word_text_def)
  have p: "peek (w @ 32 # ?t) [124, 41, 38, 59] = (False, w @ 32 # ?t)"
    using word_clean [OF w] word_not_sym [OF w] is_word_head [OF w] by (simp add: peek_clean symbols_def)
  have g: "gettoken (w @ 32 # ?t) = (97, w, ?t)" using w c by (rule gettoken_word_text)
  have "bnd (redirs ?t) (\<lambda>(r, s3). exec_args (args @ [w]) ([] @ r) s3) = Ok (wrap (Exec (args @ w # ws)) rs, s)"
  proof (cases ws)
    case Nil
    then show ?thesis using redirs_text [of rs s] Cons.prems by (simp add: word_text_def exec_args_end)
  next
    case (Cons w' ws')
    have "redirs ?t = Ok ([], ?t)"
      using redirs_text [of "[]" ?t] word_text_head [of w' ws'] Cons Cons.prems by simp blast
    then show ?thesis using Cons.IH [of "args @ [w]"] Cons Cons.prems by simp
  qed
  then show ?case unfolding s using p g Cons.prems by (subst exec_args.simps) (simp add: panic_if_def)
qed simp

lemma parseexec_simple:
  assumes "list_all is_word ws" "length ws < MAXARGS" "list_all redir_ok rs" "follow [124, 41, 38, 59] s"
  shows "parseexec (Suc k) (word_text ws @ concat (map redir_text rs) @ s) = Ok (wrap (Exec ws) rs, s)"
proof (cases ws)
  case Nil
  let ?t = "concat (map redir_text rs) @ s"
  have "clean ?t" using assms(3,4) rest_plain(1) by (simp add: redir_texts_clean)
  moreover have "?t = [] \<or> hd ?t \<noteq> 40"
    using assms(3,4) redir_head by (cases rs) (fastforce simp: follow_def)+
  ultimately have "peek ?t [40] = (False, ?t)" by (auto simp: peek_clean)
  then show ?thesis using redirs_text [of rs s] assms Nil by (simp add: exec_args_end word_text_def)
next
  case (Cons w ws')
  let ?t = "word_text ws @ concat (map redir_text rs) @ s"
  obtain u where u: "?t = w @ u" "is_word w" using word_text_head [of w ws'] assms Cons by blast
  have "peek ?t [40] = (False, ?t)"
    using word_clean [OF u(2)] word_not_sym [OF u(2)] is_word_head [OF u(2)] u(1) by (simp add: peek_clean symbols_def)
  moreover have "redirs ?t = Ok ([], ?t)" using redirs_text [of "[]" ?t] u by auto
  ultimately show ?thesis using exec_args_text [of ws rs "[]" s] assms Cons by simp
qed

text \<open>A command is a base, which is no redirection, under a list of redirections.\<close>

fun strip :: "cmd \<Rightarrow> cmd \<times> (u8 list \<times> u32 \<times> nat) list" where
  "strip (Redir c f m fd) = (fst (strip c), snd (strip c) @ [(f, m, fd)])"
| "strip c = (c, [])"

lemma strip_wrap: "wrap (fst (strip c)) (snd (strip c)) = c"
  by (induction c rule: strip.induct) (simp_all add: wrap_def)

lemma strip_size: "size (fst (strip c)) \<le> size c"
  by (induction c rule: strip.induct) simp_all

lemma strip_ok: "cmd_ok c \<Longrightarrow> cmd_ok (fst (strip c)) \<and> list_all redir_ok (snd (strip c))"
  by (induction c rule: strip.induct) simp_all

lemma strip_prt: "prt 3 c = prt 3 (fst (strip c)) @ concat (map redir_text (snd (strip c)))"
  by (induction c rule: strip.induct) simp_all

lemma strip_base: "fst (strip c) \<noteq> Redir d f m fd"
  by (induction c rule: strip.induct) simp_all

lemma prt_clean: "cmd_ok c \<Longrightarrow> clean s \<Longrightarrow> clean (prt n c @ s)"
proof (induction c arbitrary: n s)
  case (Exec ws)
  then show ?case using word_clean by (cases ws) (auto simp: word_text_def)
next
  case (Redir c f m fd)
  then have "clean (redir_text (f, m, fd) @ s)" by (simp add: redir_text_def whitespace_def)
  then show ?case using Redir by simp
qed (simp_all add: paren_def whitespace_def)

definition reads_exec :: "cmd \<Rightarrow> bool" where
  "reads_exec c \<longleftrightarrow> (\<forall>k s. follow [124, 41, 38, 59] s \<longrightarrow> 4 * length (prt 3 c @ s) + 2 \<le> k \<longrightarrow>
     parseexec k (prt 3 c @ s) = Ok (c, s))"

definition reads_pipe :: "cmd \<Rightarrow> bool" where
  "reads_pipe c \<longleftrightarrow> (\<forall>k s. follow [41, 38, 59] s \<longrightarrow> 4 * length (prt 2 c @ s) + 3 \<le> k \<longrightarrow>
     parsepipe k (prt 2 c @ s) = Ok (c, s))"

definition reads_amps :: "cmd \<Rightarrow> bool" where
  "reads_amps c \<longleftrightarrow> (\<forall>k s. follow [41, 38, 59] s \<longrightarrow> 4 * length (prt 1 c @ s) + 3 \<le> k \<longrightarrow>
     (\<exists>d u. parsepipe k (prt 1 c @ s) = Ok (d, u) \<and> amps d u = amps c s))"

definition reads_line :: "cmd \<Rightarrow> bool" where
  "reads_line c \<longleftrightarrow> (\<forall>k s. follow [41] s \<longrightarrow> 4 * length (prt 0 c @ s) + 4 \<le> k \<longrightarrow>
     parseline k (prt 0 c @ s) = Ok (c, s))"

lemma amps_stop: "follow [41, 59] s \<Longrightarrow> amps c s = (c, s)"
  by (subst amps.simps) (auto simp: peek_clean follow_def clean_def whitespace_def)

lemma amps_amp: "clean s \<Longrightarrow> amps c (38 # s) = amps (Back c) s"
  by (subst amps.simps) (simp add: peek_Cons whitespace_def gettoken_sym)

lemma parsepipe_stop:
  assumes "parseexec k t = Ok (c, s)" "follow [41, 38, 59] s"
  shows "parsepipe (Suc k) t = Ok (c, s)"
proof -
  have "clean s" "s = [] \<or> hd s \<noteq> 124" using assms(2) by (auto simp: follow_def clean_def whitespace_def)
  then show ?thesis using assms(1) by (auto simp: peek_clean)
qed

lemma reads_pipe_exec: "reads_exec c \<Longrightarrow> prt 2 c = prt 3 c \<Longrightarrow> reads_pipe c"
  unfolding reads_pipe_def
proof (intro allI impI)
  fix k s assume a: "reads_exec c" "prt 2 c = prt 3 c" "follow [41, 38, 59] s" "4 * length (prt 2 c @ s) + 3 \<le> k"
  then obtain k' where k: "k = Suc k'" by (cases k) auto
  have "follow [124, 41, 38, 59] s" using a(3) by (auto simp: follow_def)
  then have "parseexec k' (prt 2 c @ s) = Ok (c, s)" using a k by (simp add: reads_exec_def)
  then show "parsepipe k (prt 2 c @ s) = Ok (c, s)" using parsepipe_stop a(3) k by blast
qed

lemma reads_amps_pipe: "reads_pipe c \<Longrightarrow> prt 1 c = prt 2 c \<Longrightarrow> reads_amps c"
  by (fastforce simp: reads_pipe_def reads_amps_def)

lemma parseline_stop:
  assumes "parsepipe k t = Ok (d, u)" "amps d u = amps c s" "follow [41] s"
  shows "parseline (Suc k) t = Ok (c, s)"
proof -
  have s: "clean s" "s = [] \<or> hd s \<noteq> 59" "follow [41, 59] s" using assms(3) by (auto simp: follow_def clean_def whitespace_def)
  have "amps d u = (c, s)" using assms(2) amps_stop [OF s(3)] by simp
  then show ?thesis using assms(1) s by (auto simp: peek_clean)
qed

lemma reads_line_amps: "reads_amps c \<Longrightarrow> prt 0 c = prt 1 c \<Longrightarrow> reads_line c"
  unfolding reads_line_def
proof (intro allI impI)
  fix k s assume a: "reads_amps c" "prt 0 c = prt 1 c" "follow [41] s" "4 * length (prt 0 c @ s) + 4 \<le> k"
  then obtain k' where k: "k = Suc k'" by (cases k) auto
  have "follow [41, 38, 59] s" using a(3) by (auto simp: follow_def)
  moreover have "4 * length (prt 1 c @ s) + 3 \<le> k'" using a(2,4) k by simp
  ultimately obtain d u where "parsepipe k' (prt 1 c @ s) = Ok (d, u)" "amps d u = amps c s"
    using a(1) unfolding reads_amps_def by blast
  then show "parseline k (prt 0 c @ s) = Ok (c, s)" using parseline_stop a(2,3) k by metis
qed

lemma parse_paren:
  assumes "reads_line c" "cmd_ok c" "list_all redir_ok rs" "follow [124, 41, 38, 59] s"
    "4 * length (40 # prt 0 c @ 41 # concat (map redir_text rs) @ s) + 2 \<le> k"
  shows "parseexec k (40 # prt 0 c @ 41 # concat (map redir_text rs) @ s) = Ok (wrap c rs, s)"
proof -
  let ?u = "concat (map redir_text rs) @ s"
  let ?t = "prt 0 c @ 41 # ?u"
  have k2: "4 * length ?t + 4 + 2 \<le> k" using assms(5) by simp
  define k' where "k' = k - 2"
  have k: "k = Suc (Suc k')" using k2 by (simp add: k'_def)
  have "clean s" using assms(4) rest_plain(1) by blast
  then have cu: "clean ?u" using assms(3) by (simp add: redir_texts_clean)
  have ct: "clean ?t" using assms(2) by (rule prt_clean) (simp add: whitespace_def)
  have "follow [41] (41 # ?u)" by (simp add: follow_def)
  moreover have "4 * length ?t + 4 \<le> k'" using k2 k by simp
  ultimately have l: "parseline k' ?t = Ok (c, 41 # ?u)"
    using assms(1) unfolding reads_line_def by blast
  have r: "redirs ?u = Ok (rs, s)" using assms(3,4) redirs_text by blast
  show ?thesis using l r ct cu by (simp add: k peek_Cons whitespace_def gettoken_sym)
qed

lemma reads_exec_line:
  assumes "reads_line c" "cmd_ok c" "prt 3 c = paren True (prt 0 c)"
  shows "reads_exec c"
  unfolding reads_exec_def
proof (intro allI impI)
  fix k s assume a: "follow [124, 41, 38, 59] s" "4 * length (prt 3 c @ s) + 2 \<le> k"
  show "parseexec k (prt 3 c @ s) = Ok (c, s)"
    using parse_paren [OF assms(1,2) _ a(1), of "[]" k] a(2) assms(3) by (simp add: paren_def wrap_def)
qed

lemma exec_to_line: "reads_exec c \<Longrightarrow> prt 2 c = prt 3 c \<Longrightarrow> prt 1 c = prt 2 c \<Longrightarrow> prt 0 c = prt 1 c \<Longrightarrow>
    reads_exec c \<and> reads_pipe c \<and> reads_amps c \<and> reads_line c"
  using reads_pipe_exec reads_amps_pipe reads_line_amps by blast

lemma reads_pipeC:
  assumes "reads_exec l" "reads_pipe r" "cmd_ok r"
  shows "reads_pipe (PipeC l r)"
  unfolding reads_pipe_def
proof (intro allI impI)
  fix k s assume a: "follow [41, 38, 59] s" "4 * length (prt 2 (PipeC l r) @ s) + 3 \<le> k"
  let ?r = "prt 2 r @ s"
  obtain k' where k: "k = Suc k'" using a(2) by (cases k) auto
  have n: "4 * length (prt 3 l @ 124 # ?r) + 3 \<le> k" using a(2) by (simp add: paren_def)
  have "follow [124, 41, 38, 59] (124 # ?r)" by (simp add: follow_def)
  moreover have "4 * length (prt 3 l @ 124 # ?r) + 2 \<le> k'" using n k by simp
  ultimately have l: "parseexec k' (prt 3 l @ 124 # ?r) = Ok (l, 124 # ?r)"
    using assms(1) unfolding reads_exec_def by blast
  have "4 * length ?r + 3 \<le> k'" using n k by simp
  then have r: "parsepipe k' ?r = Ok (r, s)" using assms(2) a(1) unfolding reads_pipe_def by blast
  have "clean s" using a(1) by (auto simp: follow_def clean_def whitespace_def)
  then have "clean ?r" using assms(3) by (simp add: prt_clean)
  then show "parsepipe k (prt 2 (PipeC l r) @ s) = Ok (PipeC l r, s)"
    using l r by (simp add: k paren_def peek_Cons whitespace_def gettoken_sym)
qed

lemma reads_back:
  assumes "reads_amps c"
  shows "reads_amps (Back c)"
  unfolding reads_amps_def
proof (intro allI impI)
  fix k s assume a: "follow [41, 38, 59] s" "4 * length (prt 1 (Back c) @ s) + 3 \<le> k"
  have "follow [41, 38, 59] (38 # s)" by (simp add: follow_def)
  moreover have "4 * length (prt 1 c @ 38 # s) + 3 \<le> k" using a(2) by (simp add: paren_def)
  ultimately obtain d u where "parsepipe k (prt 1 c @ 38 # s) = Ok (d, u)" "amps d u = amps c (38 # s)"
    using assms unfolding reads_amps_def by blast
  moreover have "clean s" using a(1) by (auto simp: follow_def clean_def whitespace_def)
  ultimately show "\<exists>d u. parsepipe k (prt 1 (Back c) @ s) = Ok (d, u) \<and> amps d u = amps (Back c) s"
    by (simp add: paren_def amps_amp)
qed

lemma reads_listC:
  assumes "reads_amps l" "reads_line r" "cmd_ok r"
  shows "reads_line (ListC l r)"
  unfolding reads_line_def
proof (intro allI impI)
  fix k s assume a: "follow [41] s" "4 * length (prt 0 (ListC l r) @ s) + 4 \<le> k"
  let ?r = "prt 0 r @ s"
  obtain k' where k: "k = Suc k'" using a(2) by (cases k) auto
  have n: "4 * length (prt 1 l @ 59 # ?r) + 4 \<le> k" using a(2) by (simp add: paren_def)
  have "follow [41, 38, 59] (59 # ?r)" by (simp add: follow_def)
  moreover have "4 * length (prt 1 l @ 59 # ?r) + 3 \<le> k'" using n k by simp
  ultimately obtain d u where l: "parsepipe k' (prt 1 l @ 59 # ?r) = Ok (d, u)" "amps d u = amps l (59 # ?r)"
    using assms(1) unfolding reads_amps_def by blast
  have stop: "amps l (59 # ?r) = (l, 59 # ?r)" by (rule amps_stop) (simp add: follow_def)
  have "4 * length ?r + 4 \<le> k'" using n k by simp
  then have r: "parseline k' ?r = Ok (r, s)" using assms(2) a(1) unfolding reads_line_def by blast
  have "clean s" using a(1) by (auto simp: follow_def clean_def whitespace_def)
  then have "clean ?r" using assms(3) by (simp add: prt_clean)
  then show "parseline k (prt 0 (ListC l r) @ s) = Ok (ListC l r, s)"
    using l r stop by (simp add: k paren_def peek_Cons whitespace_def gettoken_sym)
qed

lemma reads_simple:
  assumes "strip c = (Exec ws, rs)" "cmd_ok c"
  shows "reads_exec c"
  unfolding reads_exec_def
proof (intro allI impI)
  fix k s assume a: "follow [124, 41, 38, 59] s" "4 * length (prt 3 c @ s) + 2 \<le> k"
  then obtain k' where k: "k = Suc k'" by (cases k) auto
  have "list_all is_word ws" "length ws < MAXARGS" "list_all redir_ok rs"
    using strip_ok [OF assms(2)] assms(1) by auto
  from parseexec_simple [OF this a(1), of k']
  show "parseexec k (prt 3 c @ s) = Ok (c, s)"
    using strip_prt [of c] strip_wrap [of c] assms(1) k by simp
qed

lemma reads_block:
  assumes "strip c = (b, rs)" "cmd_ok c" "reads_line b" "prt 3 b = paren True (prt 0 b)"
  shows "reads_exec c"
  unfolding reads_exec_def
proof (intro allI impI)
  fix k s assume a: "follow [124, 41, 38, 59] s" "4 * length (prt 3 c @ s) + 2 \<le> k"
  have ok: "cmd_ok b" "list_all redir_ok rs" using strip_ok [OF assms(2)] assms(1) by auto
  have e: "prt 3 c @ s = 40 # prt 0 b @ 41 # concat (map redir_text rs) @ s" "wrap b rs = c"
    using strip_prt [of c] strip_wrap [of c] assms(1,4) by (simp_all add: paren_def)
  show "parseexec k (prt 3 c @ s) = Ok (c, s)"
    using parse_paren [OF assms(3) ok(1,2) a(1), of k] a(2) unfolding e by simp
qed

lemma reads_all: "cmd_ok c \<Longrightarrow> reads_exec c \<and> reads_pipe c \<and> reads_amps c \<and> reads_line c"
proof (induction c rule: measure_induct_rule [of size])
  case (less c)
  show ?case
  proof (cases c)
    case (Exec ws)
    then show ?thesis using less.prems reads_simple [of c ws "[]"] by (intro exec_to_line) simp_all
  next
    case (Redir d f m fd)
    obtain b rs where b: "strip c = (b, rs)" by force
    have "size b < size c" using strip_size [of d] b Redir by auto
    moreover have "cmd_ok b" using strip_ok [OF less.prems] b by simp
    ultimately have l: "reads_line b" using less.IH by blast
    have "(\<exists>ws. b = Exec ws) \<or> prt 3 b = paren True (prt 0 b)"
      using strip_base [of c] b by (cases b) (auto simp: paren_def)
    then have "reads_exec c" using reads_simple reads_block b less.prems l by blast
    then show ?thesis using Redir by (intro exec_to_line) simp_all
  next
    case (PipeC l r)
    have "reads_pipe c" using less.IH [of l] less.IH [of r] less.prems PipeC reads_pipeC by simp
    then have l: "reads_amps c" "reads_line c"
      using reads_amps_pipe reads_line_amps PipeC by (simp_all add: paren_def)
    moreover have "reads_exec c" using l less.prems PipeC by (intro reads_exec_line) (simp_all add: paren_def)
    ultimately show ?thesis using \<open>reads_pipe c\<close> by blast
  next
    case (ListC l r)
    have l: "reads_line c" using less.IH [of l] less.IH [of r] less.prems ListC reads_listC by simp
    have "reads_exec c" using l less.prems ListC by (intro reads_exec_line) (simp_all add: paren_def)
    moreover from this have "reads_pipe c" using ListC by (intro reads_pipe_exec) (simp_all add: paren_def)
    ultimately show ?thesis using l ListC reads_amps_pipe [of c] by (simp add: paren_def)
  next
    case (Back d)
    have a: "reads_amps c" using less.IH [of d] less.prems Back reads_back by simp
    then have l: "reads_line c" using Back reads_line_amps by (simp add: paren_def)
    have "reads_exec c" using l less.prems Back by (intro reads_exec_line) (simp_all add: paren_def)
    moreover from this have "reads_pipe c" using Back by (intro reads_pipe_exec) (simp_all add: paren_def)
    ultimately show ?thesis using l a by blast
  qed
qed

text \<open>
  C13. The parser reads back every well-formed command from its text, written with no more parentheses than
  the grammar needs: a pipe binds tighter than an ampersand, an ampersand tighter than a semicolon, pipes
  and semicolons associate to the right, and redirections apply to the simple command or block before them.
\<close>

theorem parse_print_roundtrip:
  assumes "cmd_ok c"
  shows "parsecmd (prt 0 c) = Ok c"
proof -
  have "follow [41] []" by (simp add: follow_def)
  moreover have "4 * length (prt 0 c @ []) + 4 \<le> 5 * (length (prt 0 c) + 1)" by simp
  ultimately have "parseline (5 * (length (prt 0 c) + 1)) (prt 0 c @ []) = Ok (c, [])"
    using reads_all [OF assms] unfolding reads_line_def by blast
  then show ?thesis by (simp add: parsecmd_def peek_def panic_if_def skip_space_def)
qed

theorem parse_print_roundtrip_witness:
  "parsecmd (prt 0 (ListC (Back (PipeC (Redir (Exec [[99, 97, 116]]) [102] O_RDONLY 0) (Exec [[119, 99], [45, 108]]))) (Exec [[108, 115]])))
     = Ok (ListC (Back (PipeC (Redir (Exec [[99, 97, 116]]) [102] O_RDONLY 0) (Exec [[119, 99], [45, 108]]))) (Exec [[108, 115]]))"
  by (rule parse_print_roundtrip)
     (simp add: MAXARGS_def is_word_def redir_ok_def word_char_def whitespace_def symbols_def)

end
