(* ===== verification/Umalloc.thy ===== *)
theory Umalloc
  imports Prelude
begin

text \<open>
  The allocator of the user library (\<open>umalloc.c\<close>).  Its blocks start with a header of eight bytes, the pointer
  to the next free block and the size of the block in headers; the free blocks form a ring through the
  static header \<open>base\<close>, at address \<open>hb\<close>.  Headers lie in the byte memory of the process.  The two loops may
  not end on a broken ring, so they are partial functions; \<open>None\<close> is a loop that does not end.
\<close>

record uheap =
  hmem :: bytes
  freep :: u32
  brk :: u32

definition hptr :: "uheap \<Rightarrow> u32 \<Rightarrow> u32" where
  "hptr s p = rd32 (hmem s) (unat p)"

definition hsize :: "uheap \<Rightarrow> u32 \<Rightarrow> u32" where
  "hsize s p = rd32 (hmem s) (unat (p + 4))"

definition set_hptr :: "u32 \<Rightarrow> u32 \<Rightarrow> uheap \<Rightarrow> uheap" where
  "set_hptr p v s = s\<lparr>hmem := wr32 (hmem s) (unat p) v\<rparr>"

definition set_hsize :: "u32 \<Rightarrow> u32 \<Rightarrow> uheap \<Rightarrow> uheap" where
  "set_hsize p v s = s\<lparr>hmem := wr32 (hmem s) (unat (p + 4)) v\<rparr>"

subsection \<open>Free\<close>

text \<open>The loop of \<open>free\<close>: the free block after which \<open>bp\<close> belongs.\<close>

partial_function (option) find_place :: "u32 \<Rightarrow> u32 \<Rightarrow> uheap \<Rightarrow> u32 option" where
  "find_place bp p s =
     (if p < bp \<and> bp < hptr s p then Some p
      else if hptr s p \<le> p \<and> (p < bp \<or> bp < hptr s p) then Some p
      else find_place bp (hptr s p) s)"

definition join_above :: "u32 \<Rightarrow> u32 \<Rightarrow> uheap \<Rightarrow> uheap" where
  "join_above bp p s =
     (if bp + 8 * hsize s bp = hptr s p
      then let s1 = set_hsize bp (hsize s bp + hsize s (hptr s p)) s in set_hptr bp (hptr s1 (hptr s1 p)) s1
      else set_hptr bp (hptr s p) s)"

definition join_below :: "u32 \<Rightarrow> u32 \<Rightarrow> uheap \<Rightarrow> uheap" where
  "join_below bp p s =
     (if p + 8 * hsize s p = bp
      then let s1 = set_hsize p (hsize s p + hsize s bp) s in set_hptr p (hptr s1 bp) s1
      else set_hptr p bp s)"

definition free :: "u32 \<Rightarrow> uheap \<Rightarrow> uheap option" where
  "free ap s =
     (let bp = ap - 8 in
      case find_place bp (freep s) s of
        None \<Rightarrow> None
      | Some p \<Rightarrow> Some ((join_below bp p (join_above bp p s))\<lparr>freep := p\<rparr>))"

subsection \<open>Malloc\<close>

text \<open>
  The system call \<open>sbrk\<close> as the process sees it: the old size of the process, or \<open>-1\<close> and no change; \<open>grow\<close> says
  whether the kernel finds the memory.  The new bytes are zero.
\<close>

definition sbrk :: "(u32 \<Rightarrow> int \<Rightarrow> bool) \<Rightarrow> int \<Rightarrow> uheap \<Rightarrow> u32 \<times> uheap" where
  "sbrk grow n s =
     (if grow (brk s) n
      then (brk s, s\<lparr>brk := brk s + word_of_int n,
              hmem := \<lambda>i. if unat (brk s) \<le> i \<and> i < unat (brk s) + nat n then 0 else hmem s i\<rparr>)
      else (- 1, s))"

definition morecore :: "(u32 \<Rightarrow> int \<Rightarrow> bool) \<Rightarrow> u32 \<Rightarrow> uheap \<Rightarrow> (u32 \<times> uheap) option" where
  "morecore grow nu0 s =
     (let nu = (if nu0 < 4096 then 4096 else nu0); (p, s1) = sbrk grow (sint (nu * 8)) s in
      if p = - 1 then Some (0, s1)
      else case free (p + 8) (set_hsize p nu s1) of None \<Rightarrow> None | Some s2 \<Rightarrow> Some (freep s2, s2))"

text \<open>Taking \<open>nunits\<close> headers off the free block \<open>p\<close>, from its end when it is larger.\<close>

definition take_block :: "u32 \<Rightarrow> u32 \<Rightarrow> u32 \<Rightarrow> uheap \<Rightarrow> u32 \<times> uheap" where
  "take_block nunits prevp p s =
     (let (q, s1) = (if hsize s p = nunits then (p, set_hptr prevp (hptr s p) s)
        else let s' = set_hsize p (hsize s p - nunits) s; q = p + 8 * hsize s' p in (q, set_hsize q nunits s'))
      in (q + 8, s1\<lparr>freep := prevp\<rparr>))"

partial_function (option) malloc_loop ::
    "(u32 \<Rightarrow> int \<Rightarrow> bool) \<Rightarrow> u32 \<Rightarrow> u32 \<Rightarrow> u32 \<Rightarrow> uheap \<Rightarrow> (u32 \<times> uheap) option" where
  "malloc_loop grow nunits prevp p s =
     (if nunits \<le> hsize s p then Some (take_block nunits prevp p s)
      else if p = freep s
      then (case morecore grow nunits s of
              None \<Rightarrow> None
            | Some (q, s1) \<Rightarrow> if q = 0 then Some (0, s1) else malloc_loop grow nunits q (hptr s1 q) s1)
      else malloc_loop grow nunits p (hptr s p) s)"

definition malloc_units :: "u32 \<Rightarrow> u32" where
  "malloc_units nbytes = (nbytes + 8 - 1) div 8 + 1"

definition malloc_init :: "u32 \<Rightarrow> uheap \<Rightarrow> uheap" where
  "malloc_init hb s = (if freep s = 0 then set_hsize hb 0 ((set_hptr hb hb s)\<lparr>freep := hb\<rparr>) else s)"

definition malloc :: "u32 \<Rightarrow> (u32 \<Rightarrow> int \<Rightarrow> bool) \<Rightarrow> u32 \<Rightarrow> uheap \<Rightarrow> (u32 \<times> uheap) option" where
  "malloc hb grow nbytes s =
     (let s1 = malloc_init hb s; prevp = freep s1
      in malloc_loop grow (malloc_units nbytes) prevp (hptr s1 prevp) s1)"

subsection \<open>Headers\<close>

text \<open>The headers at two addresses share no byte.\<close>

definition hdr_apart :: "u32 \<Rightarrow> u32 \<Rightarrow> bool" where
  "hdr_apart a c \<longleftrightarrow> unat a + 8 \<le> unat c \<or> unat c + 8 \<le> unat a"

definition hdr_in :: "u32 \<Rightarrow> bool" where
  "hdr_in a \<longleftrightarrow> unat a + 8 \<le> 2 ^ 32"

lemma hdr_apart_sym: "hdr_apart a c = hdr_apart c a"
  by (auto simp: hdr_apart_def)

lemma unat_hdr: "hdr_in a \<Longrightarrow> unat (a + 4) = unat a + 4"
  by (subst unat_add_lt) (auto simp: hdr_in_def)

lemma hdr_write [simp]:
  assumes "hdr_in a"
  shows "hptr (set_hptr a v s) a = v" "hsize (set_hptr a v s) a = hsize s a"
    "hsize (set_hsize a v s) a = v" "hptr (set_hsize a v s) a = hptr s a"
  using unat_hdr [OF assms] by (simp_all add: hptr_def hsize_def set_hptr_def set_hsize_def rd32_wr32_other)

lemma hdr_write_other:
  assumes "hdr_in a" "hdr_in c" "hdr_apart a c"
  shows "hptr (set_hptr a v s) c = hptr s c" "hsize (set_hptr a v s) c = hsize s c"
    "hsize (set_hsize a v s) c = hsize s c" "hptr (set_hsize a v s) c = hptr s c"
  using unat_hdr [OF assms(1)] unat_hdr [OF assms(2)] assms(3)
  by (auto simp: hptr_def hsize_def set_hptr_def set_hsize_def rd32_wr32_other hdr_apart_def)

lemma hdr_fields [simp]:
  "freep (set_hptr a v s) = freep s" "freep (set_hsize a v s) = freep s"
  "brk (set_hptr a v s) = brk s" "brk (set_hsize a v s) = brk s"
  "hptr (s\<lparr>freep := p\<rparr>) = hptr s" "hsize (s\<lparr>freep := p\<rparr>) = hsize s"
  by (simp_all add: set_hptr_def set_hsize_def hptr_def hsize_def fun_eq_iff)

lemma hdr_mem_other:
  assumes "hdr_in a" "i < unat a \<or> unat a + 8 \<le> i"
  shows "hmem (set_hptr a v s) i = hmem s i" "hmem (set_hsize a v s) i = hmem s i"
  using assms unat_hdr [OF assms(1)] by (auto simp: set_hptr_def set_hsize_def wr32_outside)

end
