(* ===== verification/Umalloc_Spec.thy ===== *)
theory Umalloc_Spec
  imports Umalloc
begin

text \<open>
  The ring of free blocks as a list and what \<open>malloc\<close> and \<open>free\<close> do to it.  \<open>heap_ok\<close> is the invariant: the
  list is ascending from \<open>base\<close>, its blocks neither overlap nor touch, and \<open>freep\<close> is one of them.
\<close>

subsection \<open>The ring\<close>

fun lnk :: "uheap \<Rightarrow> u32 list \<Rightarrow> u32 \<Rightarrow> bool" where
  "lnk s [] e = True"
| "lnk s (a # as) e = (hptr s a = hd (as @ [e]) \<and> lnk s as e)"

lemma lnk_append [simp]: "lnk s (as @ bs) e = (lnk s as (hd (bs @ [e])) \<and> lnk s bs e)"
  by (induction as) (auto simp: hd_append)

lemma lnk_cong: "(\<And>a. a \<in> set as \<Longrightarrow> hptr t a = hptr s a) \<Longrightarrow> lnk t as e = lnk s as e"
  by (induction as) auto

text \<open>Block \<open>a\<close> ends before \<open>c\<close>, and so does the header of \<open>a\<close>.\<close>

definition before :: "uheap \<Rightarrow> u32 \<Rightarrow> u32 \<Rightarrow> bool" where
  "before s a c \<longleftrightarrow> unat a + 8 \<le> unat c \<and> unat a + 8 * unat (hsize s a) < unat c"

lemma sorted_cong:
  "(\<And>a. a \<in> set as \<Longrightarrow> hsize t a = hsize s a) \<Longrightarrow> sorted_wrt (before t) as = sorted_wrt (before s) as"
  by (induction as) (auto simp: before_def)

definition within :: "uheap \<Rightarrow> u32 \<Rightarrow> bool" where
  "within s a \<longleftrightarrow> unat a + 8 \<le> unat (brk s) \<and> unat a + 8 * unat (hsize s a) \<le> unat (brk s)"

definition heap_ok :: "u32 \<Rightarrow> uheap \<Rightarrow> u32 list \<Rightarrow> bool" where
  "heap_ok hb s as \<longleftrightarrow> as \<noteq> [] \<and> hd as = hb \<and> hb \<noteq> 0 \<and> hsize s hb = 0 \<and> lnk s as hb \<and> sorted_wrt (before s) as
     \<and> (\<forall>a \<in> set as. within s a) \<and> (\<forall>a \<in> set as. a \<noteq> hb \<longrightarrow> hsize s a \<noteq> 0) \<and> freep s \<in> set as \<and> unat (brk s) \<le> 2 ^ 31"

definition extent :: "uheap \<Rightarrow> u32 \<Rightarrow> nat set" where
  "extent s a = {unat a ..< unat a + 8 * unat (hsize s a)}"

definition free_extents :: "uheap \<Rightarrow> u32 list \<Rightarrow> nat set" where
  "free_extents s as = (\<Union>a \<in> set as. extent s a)"

lemma unat_end: "unat a + 8 * unat n \<le> 2 ^ 31 \<Longrightarrow> unat (a + 8 * n :: u32) = unat a + 8 * unat n"
  by (simp add: unat_word_ariths)

lemma before_apart: "before s a c \<Longrightarrow> hdr_apart a c"
  by (simp add: before_def hdr_apart_def)

text \<open>A block in use at \<open>b\<close>, apart from the free ones and from \<open>base\<close>.\<close>

definition used_block :: "u32 \<Rightarrow> uheap \<Rightarrow> u32 list \<Rightarrow> u32 \<Rightarrow> bool" where
  "used_block hb s as b \<longleftrightarrow> hsize s b \<noteq> 0 \<and> unat hb + 8 \<le> unat b \<and> within s b \<and> extent s b \<inter> free_extents s as = {}"

lemma used_apart:
  assumes h: "heap_ok hb s as" and u: "used_block hb s as b" and a: "a \<in> set as"
  shows "unat a + 8 \<le> unat b \<and> unat a + 8 * unat (hsize s a) \<le> unat b \<or> unat b + 8 * unat (hsize s b) \<le> unat a"
proof (cases "a = hb")
  case True
  then show ?thesis using h u by (simp add: heap_ok_def used_block_def)
next
  case False
  then have "hsize s a \<noteq> 0" using h a by (simp add: heap_ok_def)
  then have n: "0 < unat (hsize s a)" "0 < unat (hsize s b)" using u by (simp_all add: used_block_def unat_gt_0)
  have d: "extent s b \<inter> extent s a = {}" using u a by (auto simp: used_block_def free_extents_def)
  have "unat a \<notin> extent s b" "unat b \<notin> extent s a" using d n by (auto simp: extent_def)
  then show ?thesis using n by (auto simp: extent_def)
qed

text \<open>The place of a block in the ring.\<close>

lemma split_at:
  assumes h: "heap_ok hb s as" and u: "used_block hb s as b"
  shows "\<exists>xs p ys. as = xs @ p # ys \<and> (\<forall>a \<in> set (xs @ [p]). unat a < unat b) \<and> (\<forall>a \<in> set ys. unat b < unat a)"
proof -
  let ?P = "\<lambda>a. unat a < unat b"
  define zs where "zs = takeWhile ?P as"
  define ys where "ys = dropWhile ?P as"
  have hb: "hd as = hb" "as \<noteq> []" "?P hb" using h u by (auto simp: heap_ok_def used_block_def)
  then have "zs \<noteq> []" by (cases as) (auto simp: zs_def)
  then obtain xs p where zs: "zs = xs @ [p]" by (metis rev_exhaust)
  have as: "as = zs @ ys" by (simp add: zs_def ys_def)
  have "\<forall>a \<in> set ys. unat b < unat a"
  proof (cases ys)
    case (Cons y r)
    then have "\<not> ?P y" unfolding ys_def by (metis dropWhile_eq_Cons_conv)
    moreover have "y \<in> set as" using as Cons by simp
    moreover have "0 < unat (hsize s b)" using u by (simp add: used_block_def unat_gt_0)
    ultimately have "unat b < unat y" using used_apart [OF h u, of y] by linarith
    moreover have "\<forall>a \<in> set r. unat y < unat a" using h as Cons by (auto simp: heap_ok_def sorted_wrt_append before_def)
    ultimately show ?thesis using Cons by auto
  qed simp
  moreover have "\<forall>a \<in> set (xs @ [p]). ?P a" unfolding zs [symmetric] zs_def by (meson set_takeWhileD)
  ultimately show ?thesis using as zs by (metis append_Cons append_Nil append_assoc)
qed

lemma find_place_here:
  assumes "lnk s (p # ys) hb" "unat p < unat b" "\<forall>a \<in> set ys. unat b < unat a" "unat hb \<le> unat p"
  shows "find_place b p s = Some p"
  using assms by (cases ys) (auto simp: find_place.simps [of b p s] word_less_nat_alt word_le_nat_alt)

lemma find_place_below:
  assumes "lnk s (xs @ p # ys) hb" "sorted_wrt (before s) (xs @ [p])" "\<forall>a \<in> set (xs @ [p]). unat a < unat b"
    "\<forall>a \<in> set ys. unat b < unat a" "\<forall>a \<in> set (xs @ [p]). unat hb \<le> unat a"
  shows "find_place b (hd (xs @ [p])) s = Some p"
  using assms
proof (induction xs)
  case Nil
  then show ?case using find_place_here [of s p ys hb b] by simp
next
  case (Cons x xs)
  have n: "hptr s x = hd (xs @ [p])" using Cons.prems(1) by (cases xs) auto
  have m: "hd (xs @ [p]) \<in> set (xs @ [p])" by (cases xs) auto
  then have "unat x < unat (hd (xs @ [p]))" "unat (hd (xs @ [p])) < unat b"
    using Cons.prems(2,3) by (auto simp: before_def)
  then have "find_place b x s = find_place b (hd (xs @ [p])) s"
    using n Cons.prems(3) by (subst find_place.simps) (auto simp: word_less_nat_alt word_le_nat_alt)
  then show ?case using Cons by simp
qed

lemma find_place_above:
  assumes "lnk s zs hb" "sorted_wrt (before s) zs" "zs \<noteq> []" "\<forall>a \<in> set zs. unat b < unat a" "unat hb < unat b"
  shows "find_place b (hd zs) s = find_place b hb s"
  using assms
proof (induction zs)
  case (Cons z zs)
  show ?case
  proof (cases zs)
    case Nil
    then show ?thesis using Cons.prems
      by (subst find_place.simps) (auto simp: word_less_nat_alt word_le_nat_alt)
  next
    case (Cons y r)
    then have "find_place b z s = find_place b y s" using Cons.prems
      by (subst find_place.simps) (auto simp: word_less_nat_alt word_le_nat_alt before_def)
    then show ?thesis using Cons Cons.IH Cons.prems by simp
  qed
qed simp

lemma find_place_ok:
  assumes h: "heap_ok hb s as" and as: "as = xs @ p # ys" and b: "\<forall>a \<in> set (xs @ [p]). unat a < unat b"
    "\<forall>a \<in> set ys. unat b < unat a" and f: "f \<in> set as"
  shows "find_place b f s = Some p"
proof -
  have l: "lnk s (xs @ p # ys) hb" "sorted_wrt (before s) (xs @ p # ys)" "hd (xs @ [p]) = hb"
    using h as by (cases xs; auto simp: heap_ok_def)+
  have ge: "\<forall>a \<in> set (xs @ [p]). unat hb \<le> unat a"
    using l(2,3) by (cases xs) (auto simp: sorted_wrt_append before_def dest: add_leD1)
  have low: "find_place b g s = Some p" if g: "g \<in> set (xs @ [p])" for g
  proof -
    obtain us vs where s: "xs @ [p] = us @ g # vs" using split_list [OF g] by blast
    obtain ws where ws: "xs = us @ ws" "g = hd (ws @ [p])"
    proof (cases vs rule: rev_cases)
      case Nil
      then show ?thesis using s that by auto
    next
      case (snoc vs' v)
      then show ?thesis using s that [of "g # vs'"] by auto
    qed
    show ?thesis unfolding ws(2)
      using l(1,2) b ge ws(1) by (intro find_place_below [of s ws p ys hb b]) (auto simp: sorted_wrt_append)
  qed
  show ?thesis
  proof (cases "f \<in> set (xs @ [p])")
    case False
    then have "f \<in> set ys" using f as by auto
    then obtain us vs where ys: "ys = us @ f # vs" using split_list by metis
    have "unat hb < unat b" using b(1) l(3) by (cases xs) auto
    then have "find_place b (hd (f # vs)) s = find_place b hb s"
      using l(1,2) b(2) ys by (intro find_place_above) (auto simp: sorted_wrt_append)
    moreover have "hb \<in> set (xs @ [p])" using l(3) by (cases xs) auto
    ultimately show ?thesis using low by simp
  qed (rule low)
qed

subsection \<open>Giving a block back\<close>

lemma freep_update [simp]:
  "lnk (s\<lparr>freep := p\<rparr>) as e = lnk s as e" "before (s\<lparr>freep := p\<rparr>) = before s" "within (s\<lparr>freep := p\<rparr>) = within s"
  "extent (s\<lparr>freep := p\<rparr>) = extent s" "free_extents (s\<lparr>freep := p\<rparr>) as = free_extents s as"
  by (auto simp: before_def within_def extent_def free_extents_def fun_eq_iff intro!: lnk_cong)

lemma within_hdr: "within s a \<Longrightarrow> unat (brk s) \<le> 2 ^ 31 \<Longrightarrow> hdr_in a"
  by (simp add: within_def hdr_in_def)

lemma free_extents_simps [simp]: "free_extents s [] = {}" "free_extents s (a # as) = extent s a \<union> free_extents s as"
    "free_extents s (as @ bs) = free_extents s as \<union> free_extents s bs"
  by (auto simp: free_extents_def)

lemma free_extents_cong: "(\<And>a. a \<in> set as \<Longrightarrow> hsize t a = hsize s a) \<Longrightarrow> free_extents t as = free_extents s as"
  by (auto simp: free_extents_def extent_def)

lemma used_hdr:
  assumes h: "heap_ok hb s as" and u: "used_block hb s as b"
  shows "hdr_in b" "a \<in> set as \<Longrightarrow> hdr_in a" "a \<in> set as \<Longrightarrow> hdr_apart b a"
proof -
  have k: "unat (brk s) \<le> 2 ^ 31" "\<forall>a \<in> set as. within s a" using h by (simp_all add: heap_ok_def)
  show "hdr_in b" using u k(1) within_hdr by (auto simp: used_block_def)
  show "hdr_in a" if "a \<in> set as" using that k within_hdr by blast
  have "0 < unat (hsize s b)" using u by (simp add: used_block_def unat_gt_0)
  then show "hdr_apart b a" if "a \<in> set as" using used_apart [OF h u that] by (auto simp: hdr_apart_def)
qed

text \<open>What the writes to one header keep.\<close>

definition same_but :: "u32 \<Rightarrow> uheap \<Rightarrow> uheap \<Rightarrow> bool" where
  "same_but b s t \<longleftrightarrow> freep t = freep s \<and> brk t = brk s \<and> (\<forall>c. hdr_in c \<longrightarrow> hdr_apart b c \<longrightarrow> hptr t c = hptr s c \<and> hsize t c = hsize s c)
     \<and> (\<forall>i. i < unat b \<or> unat b + 8 \<le> i \<longrightarrow> hmem t i = hmem s i)"

lemma same_but_writes [intro]:
  "hdr_in b \<Longrightarrow> same_but b s (set_hptr b v s)" "hdr_in b \<Longrightarrow> same_but b s (set_hsize b v s)"
  by (auto simp: same_but_def hdr_write_other hdr_mem_other)

lemma same_but_trans: "same_but b s t \<Longrightarrow> same_but b t u \<Longrightarrow> same_but b s u"
  unfolding same_but_def by metis

lemma unat_sum_size:
  assumes "unat a + 8 * (unat n + unat m) \<le> 2 ^ 31"
  shows "unat (n + m :: u32) = unat n + unat m"
  using assms by (subst unat_add_lt) auto

lemma join_above_ok:
  assumes h: "heap_ok hb s (xs @ p # ys)" and u: "used_block hb s (xs @ p # ys) b" and b: "\<forall>a \<in> set ys. unat b < unat a"
  defines "t \<equiv> join_above b p s"
  shows "same_but b s t \<and> (\<exists>zs. hptr t b = hd (zs @ [hb]) \<and> lnk s zs hb \<and> set zs \<subseteq> set ys \<and> sorted_wrt (before s) zs
    \<and> (\<forall>a \<in> set zs. before t b a) \<and> within t b \<and> unat (hsize s b) \<le> unat (hsize t b) \<and> extent t b \<union> free_extents s zs = extent s b \<union> free_extents s ys)"
proof -
  have f: "hptr s p = hd (ys @ [hb])" "lnk s ys hb" "sorted_wrt (before s) ys" "unat (brk s) \<le> 2 ^ 31" "\<forall>a \<in> set ys. within s a"
    using h by (auto simp: heap_ok_def sorted_wrt_append)
  have hi: "hdr_in b" using used_hdr(1) [OF h u] .
  have n: "0 < unat (hsize s b)" "unat b + 8 * unat (hsize s b) \<le> unat (brk s)" "unat b + 8 \<le> unat (brk s)" "unat hb < unat b"
    using u by (auto simp: used_block_def within_def unat_gt_0)
  have e: "unat (b + 8 * hsize s b) = unat b + 8 * unat (hsize s b)" using n(2) f(4) by (intro unat_end) simp
  have ap: "unat b + 8 * unat (hsize s b) \<le> unat a" if "a \<in> set ys" for a using used_apart [OF h u, of a] b that by auto
  show ?thesis
  proof (cases "b + 8 * hsize s b = hptr s p")
    case False
    then have t: "t = set_hptr b (hptr s p) s" by (simp add: t_def join_above_def)
    have lt: "before s b a" if "a \<in> set ys" for a
    proof (cases ys)
      case (Cons y r)
      have "unat (b + 8 * hsize s b) \<noteq> unat y" using False f(1) Cons by (metis append_Cons list.sel(1) word_unat_eq_iff)
      then have "unat b + 8 * unat (hsize s b) < unat y" using ap [of y] e Cons by simp
      moreover have "unat y \<le> unat a" using that f(3) Cons by (auto simp: before_def)
      ultimately show ?thesis using n(1) by (simp add: before_def)
    qed (use that in simp)
    show ?thesis using hi f(1-3) n lt unfolding t
      by (intro conjI exI [of _ ys] same_but_writes) (auto simp: before_def within_def extent_def)
  next
    case True
    obtain y r where ys: "ys = y # r"
    proof (cases ys)
      case Nil
      then have "unat hb = unat b + 8 * unat (hsize s b)" using True f(1) e by simp
      then show ?thesis using n(4) by simp
    qed
    then have y: "hptr s p = y" "unat y = unat b + 8 * unat (hsize s b)" "hptr s y = hd (r @ [hb])"
      "unat y + 8 * unat (hsize s y) \<le> unat (brk s)" using f(1,2,5) True e by (auto simp: within_def)
    have ph: "hptr (set_hsize b v s) p = y" for v
      using used_hdr [OF h u] y(1) by (subst hdr_write_other) auto
    have yh: "hptr (set_hsize b v s) y = hd (r @ [hb])" for v
      using used_hdr [OF h u] y(3) ys by (subst hdr_write_other) auto
    have t: "t = set_hptr b (hd (r @ [hb])) (set_hsize b (hsize s b + hsize s y) s)"
      using True y(1) by (simp add: t_def join_above_def ph yh)
    have sz: "unat (hsize s b + hsize s y) = unat (hsize s b) + unat (hsize s y)"
      by (rule unat_sum_size [of b]) (use y(2,4) f(4) in simp)
    have st: "same_but b s t" unfolding t using hi by (intro same_but_trans [OF same_but_writes(2) same_but_writes(1)])
    have ht: "hptr t b = hd (r @ [hb])" "hsize t b = hsize s b + hsize s y" "brk t = brk s" using hi by (simp_all add: t)
    have "unat b + 8 * unat (hsize t b) < unat a" "unat b + 8 \<le> unat a" if "a \<in> set r" for a
      using that f(3) ys y(2) n(1) sz ht(2) by (auto simp: before_def)
    then show ?thesis using st ht f(2,3) ys n y(2,4) sz
      by (intro conjI exI [of _ r]) (auto simp: before_def within_def extent_def)
  qed
qed


lemma join_below_ok:
  assumes "hdr_in p" "hdr_in b" "hdr_apart p b"
  shows "same_but p s (join_below b p s)"
    "p + 8 * hsize s p = b \<Longrightarrow> hptr (join_below b p s) p = hptr s b \<and> hsize (join_below b p s) p = hsize s p + hsize s b"
    "p + 8 * hsize s p \<noteq> b \<Longrightarrow> hptr (join_below b p s) p = b \<and> hsize (join_below b p s) p = hsize s p"
  using assms by (auto simp: join_below_def hdr_write_other intro: same_but_trans [OF same_but_writes(2) same_but_writes(1)])

lemma free_ok:
  assumes h: "heap_ok hb s as" and u: "used_block hb s as b"
  shows "\<exists>t bs. free (b + 8) s = Some t \<and> heap_ok hb t bs \<and> free_extents t bs = free_extents s as \<union> extent s b \<and> brk t = brk s
    \<and> (\<forall>i. i \<notin> free_extents s as \<union> extent s b \<longrightarrow> i < unat hb \<or> unat hb + 8 \<le> i \<longrightarrow> hmem t i = hmem s i)
    \<and> (\<exists>c \<in> set bs. hsize s b \<le> hsize t c)"
proof -
  obtain xs p ys where as: "as = xs @ p # ys" and b: "\<forall>a \<in> set (xs @ [p]). unat a < unat b" "\<forall>a \<in> set ys. unat b < unat a"
    using split_at [OF h u] by blast
  have fp: "find_place b (freep s) s = Some p" using h by (intro find_place_ok [OF h as b]) (simp add: heap_ok_def)
  define s1 where "s1 = join_above b p s"
  obtain zs where s1: "same_but b s s1" "hptr s1 b = hd (zs @ [hb])" "lnk s zs hb" "set zs \<subseteq> set ys" "sorted_wrt (before s) zs"
    "\<forall>a \<in> set zs. before s1 b a" "within s1 b" "unat (hsize s b) \<le> unat (hsize s1 b)" "extent s1 b \<union> free_extents s zs = extent s b \<union> free_extents s ys"
    using join_above_ok [OF h [unfolded as] u [unfolded as] b(2)] unfolding s1_def by blast
  define t where "t = join_below b p s1"
  have hdr: "hdr_in b" "\<And>a. a \<in> set as \<Longrightarrow> hdr_in a \<and> hdr_apart b a" using used_hdr [OF h u] by blast+
  have keep1: "hptr s1 a = hptr s a" "hsize s1 a = hsize s a" if "a \<in> set as" for a
    using s1(1) hdr(2) [OF that] by (simp_all add: same_but_def)
  have k: "lnk s (xs @ p # ys) hb" "sorted_wrt (before s) (xs @ p # ys)" "hd (xs @ p # ys) = hb" "hsize s hb = 0" "hb \<noteq> 0"
    "unat (brk s) \<le> 2 ^ 31" "\<And>a. a \<in> set as \<Longrightarrow> within s a" "\<And>a. a \<in> set as \<Longrightarrow> a \<noteq> hb \<Longrightarrow> hsize s a \<noteq> 0"
    using h unfolding as heap_ok_def by auto
  have pin: "p \<in> set as" and pb: "hdr_in p" "hdr_apart p b" using as hdr(2) hdr_apart_sym by auto
  note jb = join_below_ok [OF pb(1) hdr(1) pb(2), of s1, folded t_def]
  have apart: "hdr_apart p a" if "a \<in> set xs \<union> set ys" for a
    using that k(2) before_apart hdr_apart_sym by (fastforce simp: sorted_wrt_append)
  have keep: "hptr t a = hptr s a" "hsize t a = hsize s a" if "a \<in> set xs \<union> set ys" for a
    using jb(1) apart [OF that] hdr(2) [of a] keep1 [of a] that as by (auto simp: same_but_def)
  have keepb: "hptr t b = hptr s1 b" "hsize t b = hsize s1 b" using jb(1) pb hdr(1) by (auto simp: same_but_def)
  have brk: "brk t = brk s" "brk s1 = brk s" using jb(1) s1(1) by (auto simp: same_but_def)
  have fr: "free (b + 8) s = Some (t\<lparr>freep := p\<rparr>)" by (simp add: free_def fp t_def s1_def)
  have mem: "hmem t i = hmem s i" if i: "i \<notin> free_extents s as \<union> extent s b" "i < unat hb \<or> unat hb + 8 \<le> i" for i
  proof -
    have "i < unat b \<or> unat b + 8 \<le> i" using i(1) u by (auto simp: used_block_def extent_def unat_gt_0 [symmetric])
    moreover have "i < unat p \<or> unat p + 8 \<le> i"
    proof (cases "p = hb")
      case False
      then have "0 < unat (hsize s p)" using k(8) pin by (simp add: unat_gt_0)
      then show ?thesis using i(1) as by (auto simp: extent_def)
    qed (use i(2) in simp)
    ultimately show ?thesis using s1(1) jb(1) unfolding same_but_def by metis
  qed
  have kz: "hptr t a = hptr s a" "hsize t a = hsize s a" if "a \<in> set zs" for a using keep [of a] that s1(4) by auto
  have kx: "hptr t a = hptr s a" "hsize t a = hsize s a" if "a \<in> set xs" for a using keep [of a] that by auto
  have lz: "lnk t xs p" "lnk t zs hb" "sorted_wrt (before t) xs" "sorted_wrt (before t) zs" "free_extents t xs = free_extents s xs" "free_extents t zs = free_extents s zs"
    using lnk_cong [of xs t s p, OF kx(1)] lnk_cong [of zs t s hb, OF kz(1)] sorted_cong [of xs t s, OF kx(2)] sorted_cong [of zs t s, OF kz(2)]
      free_extents_cong [of xs t s, OF kx(2)] free_extents_cong [of zs t s, OF kz(2)] k(1,2) s1(3,5) by (simp_all add: sorted_wrt_append)
  have bf: "before t a = before s a" "within t a = within s a" if "a \<in> set xs \<union> set ys" for a
    using keep(2) [OF that] brk by (auto simp: before_def within_def fun_eq_iff)
  have xp: "\<forall>a \<in> set xs. before t a p \<and> (\<forall>c \<in> set zs. before t a c)" using k(2) s1(4) bf by (auto simp: sorted_wrt_append)
  have xb: "\<forall>a \<in> set xs. before t a b" using xp b(1) by (auto simp: before_def)
  have pz: "\<forall>c \<in> set zs. before s p c" using k(2) s1(4) by (auto simp: sorted_wrt_append)
  have wx: "\<forall>a \<in> set xs \<union> set zs. within t a \<and> (a \<noteq> hb \<longrightarrow> hsize t a \<noteq> 0)" using k(7,8) bf keep as s1(4) by auto
  have nb: "unat (hsize s b) \<le> unat (hsize t b)" "0 < unat (hsize s b)" using s1(8) keepb u by (simp_all add: used_block_def unat_gt_0)
  have h0: "hsize t hb = 0" if "hb \<noteq> p" using that keep(2) [of hb] k(3,4) by (cases xs) auto
  have bys: "extent t b \<union> free_extents s zs = extent s b \<union> free_extents s ys" using s1(9) keepb by (simp add: extent_def)
  have wp: "within s p" using k(7) pin .
  then have e: "unat (p + 8 * hsize s p) = unat p + 8 * unat (hsize s p)" using k(6) by (intro unat_end) (auto simp: within_def)
  have wb: "within t b" "\<forall>a \<in> set zs. before t b a" using s1(6,7) keepb brk by (auto simp: within_def before_def)
  show ?thesis
  proof (cases "p + 8 * hsize s1 p = b")
    case False
    then have j: "hptr t p = b" "hsize t p = hsize s p" "p + 8 * hsize s p \<noteq> b" using jb(3) keep1 [OF pin] by auto
    then have "unat p + 8 * unat (hsize s p) \<noteq> unat b" using e by (metis word_unat_eq_iff)
    moreover have "unat p + 8 \<le> unat b \<and> unat p + 8 * unat (hsize s p) \<le> unat b"
      using used_apart [OF h u pin] b(1) nb(2) by auto
    ultimately have pbf: "before t p b" "before t p = before s p" "within t p" using j wp brk by (auto simp: before_def within_def fun_eq_iff)
    have bz: "before t p c" if "c \<in> set zs" for c using pz that pbf(2) by simp
    have h0': "hsize t hb = 0" using h0 j(2) k(4) by (cases "hb = p") auto
    have "heap_ok hb (t\<lparr>freep := p\<rparr>) (xs @ p # b # zs)"
      unfolding heap_ok_def using lz j(1) keepb(1) s1(2) k(3,5,6) brk pbf wx wb nb xp xb bz h0' k(8) [OF pin] j(2)
      by (cases xs) (auto simp: sorted_wrt_append hd_append)
    moreover have "free_extents t (xs @ p # b # zs) = free_extents s as \<union> extent s b"
      using bys lz(5,6) j(2) as by (auto simp: extent_def)
    moreover have "hsize s b \<le> hsize t b" using nb(1) by (simp add: word_le_nat_alt)
    ultimately show ?thesis using fr brk mem by (intro exI [of _ "t\<lparr>freep := p\<rparr>"] exI [of _ "xs @ p # b # zs"]) simp
  next
    case True
    then have j: "hptr t p = hd (zs @ [hb])" "hsize t p = hsize s p + hsize t b" "p + 8 * hsize s p = b" using jb(2) keep1 [OF pin] s1(2) keepb by auto
    then have pe: "unat b = unat p + 8 * unat (hsize s p)" using e by metis
    have "p \<noteq> hb" using pe k(4) u by (auto simp: used_block_def)
    have le: "unat b + 8 * unat (hsize t b) \<le> unat (brk s)" using wb(1) brk by (simp add: within_def)
    have sz: "unat (hsize t p) = unat (hsize s p) + unat (hsize t b)"
      unfolding j(2) by (rule unat_sum_size [of p]) (use pe le k(6) in simp)
    have bp: "extent t p = extent s p \<union> extent t b" using sz pe by (auto simp: extent_def)
    have pbf: "within t p" "\<forall>c \<in> set zs. before t p c"
      using wb sz pe wp brk by (auto simp: within_def before_def)
    have "heap_ok hb (t\<lparr>freep := p\<rparr>) (xs @ p # zs)"
      unfolding heap_ok_def using lz j(1) k(3,5,6) brk pbf wx xp h0 \<open>p \<noteq> hb\<close> sz nb
      by (cases xs) (auto simp: sorted_wrt_append hd_append)
    moreover have "free_extents t (xs @ p # zs) = free_extents s as \<union> extent s b"
      using bys lz(5,6) bp as by auto
    moreover have "hsize s b \<le> hsize t p" using nb(1) sz by (simp add: word_le_nat_alt)
    ultimately show ?thesis using fr brk mem by (intro exI [of _ "t\<lparr>freep := p\<rparr>"] exI [of _ "xs @ p # zs"]) simp
  qed
qed

end
