(* ===== verification/Malloc_Spec.thy ===== *)
theory Malloc_Spec
  imports Umalloc_Spec
begin

text \<open>
  \<open>malloc\<close> on the ring of free blocks: the search, taking a block or the end of a larger one, and \<open>morecore\<close>.
  \<open>allocated\<close> is what a call has done when it returns.
\<close>

subsection \<open>Searching the ring\<close>

fun path :: "uheap \<Rightarrow> u32 \<Rightarrow> u32 list \<Rightarrow> bool" where
  "path s p [] = True"
| "path s p (z # zs) = (hptr s p = z \<and> path s z zs)"

lemma path_append [simp]: "path s p (us @ vs) = (path s p us \<and> path s (last (p # us)) vs)"
  by (induction us arbitrary: p) auto

lemma lnk_path: "lnk s (p # zs) e \<Longrightarrow> path s p (zs @ [e])"
  by (induction zs arbitrary: p) auto

lemma heap_distinct: "heap_ok hb s as \<Longrightarrow> distinct as"
proof -
  have "sorted_wrt (before s) as \<Longrightarrow> distinct as" by (induction as) (auto simp: before_def)
  then show "heap_ok hb s as \<Longrightarrow> distinct as" by (simp add: heap_ok_def)
qed

text \<open>The ring as it is met from \<open>f\<close> on.\<close>

lemma ring_path:
  assumes "heap_ok hb s (xs @ f # ys)"
  shows "path s f (ys @ xs @ [f])"
proof -
  have l: "lnk s (xs @ f # ys) hb" "hd (xs @ f # ys) = hb" using assms by (auto simp: heap_ok_def)
  have y: "path s f (ys @ [hb])" using l(1) by (intro lnk_path) simp
  show ?thesis
  proof (cases xs)
    case (Cons x r)
    then have "lnk s (hb # r) f" using l by (cases r) (auto simp: hd_append)
    then have "path s hb (r @ [f])" by (rule lnk_path)
    then show ?thesis using y Cons l(2) by simp
  qed (use y l(2) in \<open>cases ys; simp\<close>)
qed

lemma walk_small:
  "path s p (us @ [z]) \<Longrightarrow> \<forall>u \<in> set us. hsize s u < n \<Longrightarrow> freep s \<notin> set us \<Longrightarrow>
    malloc_loop grow n p (hd (us @ [z])) s = malloc_loop grow n (last (p # us)) z s"
proof (induction us arbitrary: p)
  case (Cons u us)
  have h: "hptr s u = hd (us @ [z])" using Cons.prems(1) by (cases us) auto
  have "malloc_loop grow n p u s = malloc_loop grow n u (hptr s u) s"
    using Cons.prems(2,3) by (subst malloc_loop.simps) auto
  also have "\<dots> = malloc_loop grow n (last (u # us)) z s"
    unfolding h using Cons.prems by (intro Cons.IH) auto
  finally show ?case by simp
qed simp

lemma heap_split: "heap_ok hb s as \<Longrightarrow> \<exists>xs ys. as = xs @ freep s # ys"
  by (meson heap_ok_def split_list)

text \<open>A block that is large enough is found.\<close>

lemma malloc_found:
  assumes h: "heap_ok hb s as" and c: "c \<in> set as" "n \<le> hsize s c" and n: "n \<noteq> 0"
  shows "\<exists>xs p z ys. as = xs @ p # z # ys \<and> n \<le> hsize s z
    \<and> malloc_loop grow n (freep s) (hptr s (freep s)) s = Some (take_block n p z s)"
proof -
  let ?f = "freep s"
  obtain xs ys where as: "as = xs @ ?f # ys" using heap_split [OF h] by blast
  define order where "order = ys @ xs @ [?f]"
  have o: "path s ?f order" "set order = set as" "distinct order" "last order = ?f"
    using ring_path [OF h [unfolded as]] as heap_distinct [OF h] by (auto simp: order_def)
  obtain us z vs where sp: "order = us @ z # vs" "n \<le> hsize s z" "\<forall>u \<in> set us. \<not> n \<le> hsize s u"
    using split_list_first_prop [of order "\<lambda>u. n \<le> hsize s u"] c o(2) by blast
  have "?f \<in> set (z # vs)" using o(4) sp(1) by (metis last_appendR last_in_set list.distinct(1))
  then have nf: "?f \<notin> set us" using o(3) sp(1) by auto
  have pz: "path s ?f (us @ [z])" using o(1) sp(1) by simp
  define p where "p = last (?f # us)"
  have "p \<in> set (?f # us)" unfolding p_def by (rule last_in_set) simp
  moreover have "set (?f # us) \<subseteq> set as" using o(2) sp(1) h by (auto simp: heap_ok_def)
  ultimately have p: "p \<in> set as" by blast
  have pn: "hptr s p = z" using pz unfolding p_def path_append by simp
  have small: "\<forall>u \<in> set us. hsize s u < n" using sp(3) by (simp add: not_le)
  have "malloc_loop grow n ?f (hd (us @ [z])) s = malloc_loop grow n p z s"
    unfolding p_def by (rule walk_small [OF pz small nf])
  also have "\<dots> = Some (take_block n p z s)" using sp(2) by (subst malloc_loop.simps) simp
  finally have run: "malloc_loop grow n ?f (hptr s ?f) s = Some (take_block n p z s)" using pz by (cases us) simp_all
  have zh: "z \<noteq> hb" using sp(2) n h by (auto simp: heap_ok_def)
  obtain us' vs' where a: "as = us' @ p # vs'" using split_list [OF p] by blast
  have "z = hd (vs' @ [hb])" using h pn unfolding a heap_ok_def by simp
  then obtain vs'' where "vs' = z # vs''" using zh by (cases vs') auto
  then show ?thesis using a run sp(2) by blast
qed

lemma malloc_not_found:
  assumes h: "heap_ok hb s as" and c: "\<forall>c \<in> set as. \<not> n \<le> hsize s c"
  shows "malloc_loop grow n (freep s) (hptr s (freep s)) s =
    (case morecore grow n s of None \<Rightarrow> None
     | Some (q, s1) \<Rightarrow> if q = 0 then Some (0, s1) else malloc_loop grow n q (hptr s1 q) s1)"
proof -
  let ?f = "freep s"
  obtain xs ys where as: "as = xs @ ?f # ys" using heap_split [OF h] by blast
  have p: "path s ?f ((ys @ xs) @ [?f])" using ring_path [OF h [unfolded as]] by simp
  have "?f \<notin> set (ys @ xs)" using heap_distinct [OF h] as by (metis distinct_append Un_iff disjoint_iff distinct.simps(2) list.set_intros(1) set_append)
  moreover have "set (ys @ xs) \<subseteq> set as" by (subst as) auto
  then have "\<forall>u \<in> set (ys @ xs). hsize s u < n" using c by (auto simp: not_le)
  ultimately have w: "malloc_loop grow n ?f (hd ((ys @ xs) @ [?f])) s = malloc_loop grow n (last (?f # ys @ xs)) ?f s"
    using walk_small [OF p] by blast
  have n: "hptr s ?f = hd ((ys @ xs) @ [?f])" using p by (cases "ys @ xs") auto
  have "?f \<in> set as" using as by (metis in_set_conv_decomp)
  then show ?thesis unfolding n w using c by (subst malloc_loop.simps) simp
qed

subsection \<open>Taking a block\<close>

lemma heap_order:
  assumes h: "heap_ok hb s as" and a: "a \<in> set as" "c \<in> set as" "a \<noteq> c"
  shows "before s a c \<or> before s c a"
proof -
  have s: "sorted_wrt (before s) as" using h by (simp add: heap_ok_def)
  obtain i j where ij: "i < length as" "as ! i = a" "j < length as" "as ! j = c" using a(1,2) by (metis in_set_conv_nth)
  then have "i < j \<or> j < i" using a(3) by (metis linorder_neqE_nat)
  then show ?thesis using ij sorted_wrt_nth_less [OF s] by blast
qed

lemma heap_hdr:
  assumes h: "heap_ok hb s as" and a: "a \<in> set as"
  shows "hdr_in a" "c \<in> set as \<Longrightarrow> a \<noteq> c \<Longrightarrow> hdr_apart a c"
proof -
  show "hdr_in a" using h a within_hdr by (auto simp: heap_ok_def)
  show "hdr_apart a c" if "c \<in> set as" "a \<noteq> c" using heap_order [OF h a that] before_apart hdr_apart_sym by blast
qed

lemma heap_above: "heap_ok hb s as \<Longrightarrow> a \<in> set as \<Longrightarrow> a \<noteq> hb \<Longrightarrow> unat hb + 8 \<le> unat a"
  by (cases as) (auto simp: heap_ok_def before_def)

text \<open>The whole block: it is unlinked.\<close>

lemma take_exact:
  assumes h: "heap_ok hb s (xs @ p # z # ys)" and n: "hsize s z \<noteq> 0"
  defines "t \<equiv> (set_hptr p (hptr s z) s)\<lparr>freep := p\<rparr>"
  shows "heap_ok hb t (xs @ p # ys)" "used_block hb t (xs @ p # ys) z" "hsize t z = hsize s z"
    "free_extents t (xs @ p # ys) \<union> extent t z = free_extents s (xs @ p # z # ys)" "brk t = brk s"
    "i \<notin> free_extents s (xs @ p # z # ys) \<Longrightarrow> i < unat hb \<or> unat hb + 8 \<le> i \<Longrightarrow> hmem t i = hmem s i"
proof -
  let ?as = "xs @ p # z # ys"
  have k: "lnk s xs p" "hptr s p = z" "hptr s z = hd (ys @ [hb])" "lnk s ys hb" "sorted_wrt (before s) ?as" "hd ?as = hb" "hb \<noteq> 0" "hsize s hb = 0"
    "\<And>a. a \<in> set ?as \<Longrightarrow> within s a" "\<And>a. a \<in> set ?as \<Longrightarrow> a \<noteq> hb \<Longrightarrow> hsize s a \<noteq> 0" "unat (brk s) \<le> 2 ^ 31"
    using h by (auto simp: heap_ok_def)
  have hp: "hdr_in p" by (rule heap_hdr(1) [OF h]) simp
  have ne: "p \<notin> set xs \<union> set ys" "p \<noteq> z" using heap_distinct [OF h] by auto
  have ptr: "hptr t a = hptr s a" if "a \<in> set xs \<union> set ys" for a
    using hdr_write_other(1) [OF hp heap_hdr(1) [OF h, of a] heap_hdr(2) [OF h, of p a]] that ne by (auto simp: t_def)
  have sz: "hsize t a = hsize s a" if "a \<in> set ?as" for a
    using hdr_write_other(2) [OF hp heap_hdr(1) [OF h that] heap_hdr(2) [OF h, of p a]] that hp by (cases "a = p") (auto simp: t_def)
  have pp: "hptr t p = hd (ys @ [hb])" using hp k(3) by (simp add: t_def)
  show br: "brk t = brk s" by (simp add: t_def)
  have bf: "before t a = before s a" "within t a = within s a" "extent t a = extent s a" if "a \<in> set ?as" for a
    using sz [OF that] br by (auto simp: before_def within_def extent_def fun_eq_iff)
  have fx: "free_extents t xs = free_extents s xs" "free_extents t ys = free_extents s ys" "sorted_wrt (before t) xs = sorted_wrt (before s) xs"
    "sorted_wrt (before t) ys = sorted_wrt (before s) ys" "lnk t xs p = lnk s xs p" "lnk t ys hb = lnk s ys hb"
    by (intro free_extents_cong sorted_cong lnk_cong; use sz ptr in simp)+
  have z0: "z \<noteq> hb" using n k(8) by auto
  show "hsize t z = hsize s z" using sz by simp
  show "heap_ok hb t (xs @ p # ys)"
    unfolding heap_ok_def using k fx pp bf sz br by (cases xs) (auto simp: sorted_wrt_append hd_append t_def)
  show fe: "free_extents t (xs @ p # ys) \<union> extent t z = free_extents s ?as" using fx(1,2) bf(3) by auto
  have "unat hb + 8 \<le> unat z" using heap_above [OF h _ z0] by simp
  moreover have "extent s z \<inter> extent s a = {}" if "a \<in> set xs \<union> set ys \<union> {p}" for a
    using that k(5) by (auto simp: sorted_wrt_append extent_def before_def)
  then have "extent s z \<inter> free_extents s (xs @ p # ys) = {}" by (auto simp: free_extents_def)
  moreover have "free_extents t (xs @ p # ys) = free_extents s (xs @ p # ys)" using fx(1,2) bf(3) by simp
  ultimately show "used_block hb t (xs @ p # ys) z" using n sz bf k(9) by (simp add: used_block_def)
  show "hmem t i = hmem s i" if i: "i \<notin> free_extents s ?as" "i < unat hb \<or> unat hb + 8 \<le> i"
  proof -
    have "i < unat p \<or> unat p + 8 \<le> i"
    proof (cases "p = hb")
      case False
      then have "0 < unat (hsize s p)" using k(10) by (simp add: unat_gt_0)
      then show ?thesis using i(1) by (auto simp: extent_def)
    qed (use i(2) in simp)
    then show ?thesis using hdr_mem_other(1) [OF hp] by (simp add: t_def)
  qed
qed

text \<open>The end of a larger block: the rest stays in the ring.\<close>

lemma take_tail:
  assumes h: "heap_ok hb s as" and z: "z \<in> set as" and p: "p \<in> set as" and n: "n < hsize s z" "n \<noteq> 0"
  defines "q \<equiv> z + 8 * (hsize s z - n)"
  defines "t \<equiv> (set_hsize q n (set_hsize z (hsize s z - n) s))\<lparr>freep := p\<rparr>"
  shows "heap_ok hb t as" "used_block hb t as q" "hsize t q = n" "free_extents t as \<union> extent t q = free_extents s as" "brk t = brk s"
    "i \<notin> free_extents s as \<Longrightarrow> hmem t i = hmem s i"
proof -
  have k: "lnk s as hb" "sorted_wrt (before s) as" "as \<noteq> []" "hd as = hb" "hb \<noteq> 0" "hsize s hb = 0"
    "\<And>a. a \<in> set as \<Longrightarrow> within s a" "\<And>a. a \<in> set as \<Longrightarrow> a \<noteq> hb \<Longrightarrow> hsize s a \<noteq> 0" "unat (brk s) \<le> 2 ^ 31"
    using h by (auto simp: heap_ok_def)
  have un: "unat (hsize s z - n) = unat (hsize s z) - unat n" "0 < unat n" "unat n < unat (hsize s z)"
    using n by (simp_all add: unat_sub word_less_nat_alt unat_gt_0 less_imp_le)
  have wz: "unat z + 8 * unat (hsize s z) \<le> unat (brk s)" using k(7) [OF z] by (simp add: within_def)
  have uq: "unat q = unat z + 8 * (unat (hsize s z) - unat n)"
    unfolding q_def un(1) [symmetric] by (rule unat_end) (use un wz k(9) in simp)
  have qe: "unat q + 8 * unat n = unat z + 8 * unat (hsize s z)" using uq un(3) by simp
  have hq: "hdr_in q" using qe un wz k(9) by (simp add: hdr_in_def)
  have hz: "hdr_in z" by (rule heap_hdr(1) [OF h z])
  have zh: "z \<noteq> hb" using n(1) k(6) by auto
  have rel: "before s a z \<or> before s z a" if "a \<in> set as" "a \<noteq> z" for a using heap_order [OF h that(1) z that(2)] .
  have qa: "hdr_apart q a" if "a \<in> set as" for a
    using rel [OF that] qe uq un by (cases "a = z") (auto simp: hdr_apart_def before_def)
  have ptr: "hptr t a = hptr s a" if "a \<in> set as" for a
    using hdr_write_other(4) [OF hq heap_hdr(1) [OF h that] qa [OF that]] hz
      hdr_write_other(4) [OF hz heap_hdr(1) [OF h that] heap_hdr(2) [OF h z that]] by (cases "a = z") (auto simp: t_def)
  have szq: "hsize t q = n" using hq by (simp add: t_def)
  have szz: "hsize t z = hsize s z - n" using hdr_write_other(3) [OF hq hz qa [OF z]] hz by (simp add: t_def)
  have sz: "hsize t a = hsize s a" if "a \<in> set as" "a \<noteq> z" for a
    using hdr_write_other(3) [OF hq heap_hdr(1) [OF h that(1)] qa [OF that(1)]]
      hdr_write_other(3) [OF hz heap_hdr(1) [OF h that(1)] heap_hdr(2) [OF h z that(1)]] that by (auto simp: t_def)
  show br: "brk t = brk s" by (simp add: t_def)
  have bf: "before s a c \<Longrightarrow> before t a c" if "a \<in> set as" for a c
    using sz [OF that] szz un by (cases "a = z") (auto simp: before_def)
  have wi: "within t a" if "a \<in> set as" for a
    using k(7) [OF that] sz [OF that] szz un br by (cases "a = z") (auto simp: within_def)
  have ez: "extent t z \<union> extent t q = extent s z" using szq szz uq qe un by (auto simp: extent_def)
  have ea: "extent t a = extent s a" if "a \<in> set as" "a \<noteq> z" for a using sz [OF that] by (simp add: extent_def)
  show fe: "free_extents t as \<union> extent t q = free_extents s as"
    using ez ea z unfolding free_extents_def by blast
  show "hsize t q = n" by (fact szq)
  have nz: "hsize t a \<noteq> 0" if "a \<in> set as" "a \<noteq> hb" for a
  proof (cases "a = z")
    case True
    then show ?thesis using szz un by (metis less_nat_zero_code unat_0 zero_less_diff)
  qed (use sz k(8) that in auto)
  have "sorted_wrt (before t) as" using k(2) bf by (rule sorted_wrt_mono_rel [rotated])
  then show "heap_ok hb t as"
    unfolding heap_ok_def using k lnk_cong [of as t s hb, OF ptr] wi nz sz [of hb] zh p br by (auto simp: t_def)
  have "extent t q \<inter> extent t a = {}" if a: "a \<in> set as" for a
  proof -
    have "unat a + 8 * unat (hsize t a) \<le> unat q \<or> unat q + 8 * unat n \<le> unat a"
    proof (cases "a = z")
      case False
      then show ?thesis using rel [OF a False] uq qe unfolding before_def sz [OF a False] by linarith
    qed (simp add: szz un uq)
    then show ?thesis unfolding extent_def szq by auto
  qed
  then have "extent t q \<inter> free_extents t as = {}" by (auto simp: free_extents_def)
  then show "used_block hb t as q"
  proof -
    have "unat hb + 8 \<le> unat q" using heap_above [OF h z zh] uq by simp
    moreover have "unat q + 8 \<le> unat (brk s)" "unat q + 8 * unat n \<le> unat (brk s)" using qe wz un(2) by simp_all
    ultimately show ?thesis using \<open>extent t q \<inter> free_extents t as = {}\<close> n(2) unfolding used_block_def within_def szq br by blast
  qed
  show "hmem t i = hmem s i" if "i \<notin> free_extents s as"
  proof -
    have "i \<notin> extent s z" using that z by (auto simp: free_extents_def)
    then have "i < unat z \<or> unat z + 8 \<le> i" "i < unat q \<or> unat q + 8 \<le> i" using uq qe un by (auto simp: extent_def)
    then show ?thesis using hdr_mem_other(2) [OF hq] hdr_mem_other(2) [OF hz] by (simp add: t_def)
  qed
qed

lemma take_ok:
  assumes h: "heap_ok hb s (xs @ p # z # ys)" and n: "n \<le> hsize s z" "n \<noteq> 0"
  shows "\<exists>b t bs. take_block n p z s = (b + 8, t) \<and> heap_ok hb t bs \<and> used_block hb t bs b \<and> hsize t b = n
    \<and> free_extents t bs \<union> extent t b = free_extents s (xs @ p # z # ys) \<and> brk t = brk s
    \<and> (\<forall>i. i \<notin> free_extents s (xs @ p # z # ys) \<longrightarrow> i < unat hb \<or> unat hb + 8 \<le> i \<longrightarrow> hmem t i = hmem s i)"
proof (cases "hsize s z = n")
  case True
  then have "take_block n p z s = (z + 8, (set_hptr p (hptr s z) s)\<lparr>freep := p\<rparr>)" by (simp add: take_block_def)
  moreover have "hsize s z \<noteq> 0" using True n(2) by simp
  note take_exact [OF h this]
  ultimately show ?thesis using True by blast
next
  case False
  then have lt: "n < hsize s z" using n(1) by simp
  have hz: "hdr_in z" by (rule heap_hdr(1) [OF h]) simp
  have "take_block n p z s = (z + 8 * (hsize s z - n) + 8,
      (set_hsize (z + 8 * (hsize s z - n)) n (set_hsize z (hsize s z - n) s))\<lparr>freep := p\<rparr>)"
    using False hz by (simp add: take_block_def Let_def)
  moreover have "z \<in> set (xs @ p # z # ys)" "p \<in> set (xs @ p # z # ys)" by simp_all
  note take_tail [OF h this lt n(2)]
  ultimately show ?thesis by blast
qed

subsection \<open>More memory\<close>

text \<open>What the kernel grants: memory below \<open>KERNBASE\<close>.\<close>

definition grants :: "(u32 \<Rightarrow> int \<Rightarrow> bool) \<Rightarrow> bool" where
  "grants grow \<longleftrightarrow> (\<forall>b n. grow b n \<longrightarrow> 0 \<le> n \<and> int (unat b) + n \<le> 2 ^ 31)"

lemma heap_nonzero: "heap_ok hb s as \<Longrightarrow> a \<in> set as \<Longrightarrow> a \<noteq> 0"
  using heap_above [of hb s as a] by (cases "a = hb") (auto simp: heap_ok_def)

text \<open>The ring only depends on its headers.\<close>

lemma heap_frame_hdr:
  assumes h: "heap_ok hb s as" and e: "\<forall>a \<in> set as. hptr t a = hptr s a \<and> hsize t a = hsize s a"
    and f: "freep t = freep s" "unat (brk s) \<le> unat (brk t)" "unat (brk t) \<le> 2 ^ 31"
  shows "heap_ok hb t as" "free_extents t as = free_extents s as"
proof -
  have b: "before t a = before s a" "within t a" if "a \<in> set as" for a
    using e h f(2) that by (auto simp: before_def within_def heap_ok_def fun_eq_iff)
  show "free_extents t as = free_extents s as" by (rule free_extents_cong) (use e in blast)
  have "lnk t as hb = lnk s as hb" "sorted_wrt (before t) as = sorted_wrt (before s) as"
    using e by (intro lnk_cong sorted_cong; simp)+
  moreover have "hb \<in> set as" using h by (cases as) (auto simp: heap_ok_def)
  ultimately show "heap_ok hb t as" using h e b f unfolding heap_ok_def by auto
qed

lemma hdr_same:
  assumes "hdr_in a" "\<forall>i. unat a \<le> i \<longrightarrow> i < unat a + 8 \<longrightarrow> hmem t i = hmem s i"
  shows "hptr t a = hptr s a" "hsize t a = hsize s a"
  using unat_hdr [OF assms(1)] assms(2) by (auto simp: hptr_def hsize_def intro!: rd32_cong)

lemma heap_frame:
  assumes h: "heap_ok hb s as" and m: "\<forall>i < unat (brk s). hmem t i = hmem s i"
    and f: "freep t = freep s" "unat (brk s) \<le> unat (brk t)" "unat (brk t) \<le> 2 ^ 31"
  shows "heap_ok hb t as" "free_extents t as = free_extents s as"
proof -
  have "hptr t a = hptr s a \<and> hsize t a = hsize s a" if a: "a \<in> set as" for a
  proof -
    have "within s a" using h a by (simp add: heap_ok_def)
    then have "\<forall>i. unat a \<le> i \<longrightarrow> i < unat a + 8 \<longrightarrow> hmem t i = hmem s i" using m by (auto simp: within_def)
    then show ?thesis using hdr_same [OF heap_hdr(1) [OF h a]] by blast
  qed
  then show "heap_ok hb t as" "free_extents t as = free_extents s as" using heap_frame_hdr [OF h _ f] by blast+
qed

lemma morecore_ok:
  assumes h: "heap_ok hb s as" and g: "grants grow" and n: "n \<noteq> 0" "8 * unat n < 2 ^ 31"
  shows "morecore grow n s = Some (0, s) \<or> (\<exists>t bs. morecore grow n s = Some (freep t, t) \<and> heap_ok hb t bs
    \<and> unat (brk s) \<le> unat (brk t) \<and> free_extents t bs = free_extents s as \<union> {unat (brk s) ..< unat (brk t)}
    \<and> (\<exists>c \<in> set bs. n \<le> hsize t c)
    \<and> (\<forall>i. i \<notin> free_extents s as \<longrightarrow> i < unat hb \<or> unat hb + 8 \<le> i \<longrightarrow> i < unat (brk s) \<longrightarrow> hmem t i = hmem s i))"
proof -
  define nu where "nu = (if n < 4096 then 4096 else n)"
  have nu: "n \<le> nu" "8 * unat nu < 2 ^ 31" "0 < unat nu" using n by (auto simp: nu_def unat_gt_0 not_less)
  have "unat (nu * 8) = 8 * unat nu" using nu(2) by (simp add: unat_word_ariths)
  then have si: "sint (nu * 8) = int (8 * unat nu)" using nu(2) by (subst sint_eq_unat) simp_all
  let ?p = "brk s" and ?k = "int (8 * unat nu)"
  have mc: "morecore grow n s = (case sbrk grow ?k s of (p, s1) \<Rightarrow> if p = - 1 then Some (0, s1)
      else case free (p + 8) (set_hsize p nu s1) of None \<Rightarrow> None | Some s2 \<Rightarrow> Some (freep s2, s2))"
    unfolding morecore_def Let_def nu_def [symmetric] si ..
  show ?thesis
  proof (cases "grow ?p ?k")
    case False
    then show ?thesis by (simp add: mc sbrk_def)
  next
    case True
    then have "int (unat ?p) + ?k \<le> 2 ^ 31" using g unfolding grants_def by blast
    then have le: "unat ?p + 8 * unat nu \<le> 2 ^ 31" by (metis of_nat_add of_nat_le_iff of_nat_numeral of_nat_power)
    define s1 where "s1 = snd (sbrk grow ?k s)"
    have sb: "sbrk grow ?k s = (?p, s1)" using True by (simp add: s1_def sbrk_def)
    have ub: "unat (brk s1) = unat ?p + 8 * unat nu"
    proof -
      have "brk s1 = ?p + 8 * nu" using True by (simp add: s1_def sbrk_def)
      then show ?thesis using unat_end [OF le] by simp
    qed
    have f1: "freep s1 = freep s" "hmem s1 i = hmem s i" if "i < unat ?p" for i
      using True that by (simp_all add: s1_def sbrk_def)
    have fr1: "freep s1 = freep s" using True by (simp add: s1_def sbrk_def)
    define s2 where "s2 = set_hsize ?p nu s1"
    have hp: "hdr_in ?p" using le nu(3) by (simp add: hdr_in_def)
    have m2: "\<forall>i < unat ?p. hmem s2 i = hmem s i"
      using hdr_mem_other(2) [OF hp, of _ nu s1] f1(2) by (simp add: s2_def)
    have b2: "brk s2 = brk s1" "freep s2 = freep s" using fr1 by (simp_all add: s2_def)
    have le2: "unat (brk s) \<le> unat (brk s2)" "unat (brk s2) \<le> 2 ^ 31" using ub b2 le by simp_all
    note fr = heap_frame [OF h m2 b2(2) le2]
    have sz: "hsize s2 ?p = nu" using hp by (simp add: s2_def)
    have hb: "hb \<in> set as" "\<And>a. a \<in> set as \<Longrightarrow> within s a" using h by (cases as; auto simp: heap_ok_def)+
    have below: "extent s a \<subseteq> {..< unat ?p}" if "a \<in> set as" for a using hb(2) [OF that] by (auto simp: within_def extent_def)
    have "free_extents s2 as \<subseteq> {..< unat ?p}" unfolding fr(2) using below unfolding free_extents_def by blast
    then have "extent s2 ?p \<inter> free_extents s2 as = {}" unfolding extent_def by fastforce
    moreover have "unat hb + 8 \<le> unat ?p" using hb(2) [OF hb(1)] by (simp add: within_def)
    moreover have "nu \<noteq> 0" "Suc 0 \<le> unat nu" using nu(3) by auto
    ultimately have u: "used_block hb s2 as ?p"
      using sz ub b2(1) by (simp add: used_block_def within_def)
    have ext: "extent s2 ?p = {unat ?p ..< unat (brk s1)}" by (simp add: extent_def sz ub)
    obtain t bs where t: "free (?p + 8) s2 = Some t" "heap_ok hb t bs" "free_extents t bs = free_extents s as \<union> {unat ?p ..< unat (brk s1)}"
      "brk t = brk s2" "\<And>i. i \<notin> free_extents s as \<union> {unat ?p ..< unat (brk s1)} \<Longrightarrow> i < unat hb \<or> unat hb + 8 \<le> i \<Longrightarrow> hmem t i = hmem s2 i"
      "\<exists>c \<in> set bs. nu \<le> hsize t c"
      using free_ok [OF fr(1) u] unfolding fr(2) ext sz by blast
    have "unat (- 1 :: u32) = 2 ^ 32 - 1" by (simp add: unat_eq_nat_uint uint_word_ariths)
    then have "?p \<noteq> - 1" using le by auto
    then have run: "morecore grow n s = Some (freep t, t)" using t(1) unfolding mc sb s2_def by simp
    have "\<exists>c \<in> set bs. n \<le> hsize t c" using t(6) nu(1) by force
    moreover have "hmem t i = hmem s i" if "i \<notin> free_extents s as" "i < unat hb \<or> unat hb + 8 \<le> i" "i < unat ?p" for i
      using t(5) [of i] that m2 by simp
    ultimately show ?thesis using run t(2-4) b2(1) ub by auto
  qed
qed

subsection \<open>Malloc\<close>

text \<open>The heap before its first use has no ring yet.\<close>

definition heap_pre :: "u32 \<Rightarrow> uheap \<Rightarrow> u32 list \<Rightarrow> bool" where
  "heap_pre hb s as \<longleftrightarrow> (if freep s = 0 then as = [] \<and> hb \<noteq> 0 \<and> unat hb + 8 \<le> unat (brk s) \<and> unat (brk s) \<le> 2 ^ 31 else heap_ok hb s as)"

lemma heap_pre_ok: "heap_ok hb s as \<Longrightarrow> heap_pre hb s as"
  using heap_nonzero [of hb s as "freep s"] by (auto simp: heap_pre_def heap_ok_def)

lemma malloc_init_ok:
  assumes "heap_pre hb s as"
  shows "\<exists>bs. heap_ok hb (malloc_init hb s) bs \<and> free_extents (malloc_init hb s) bs = free_extents s as \<and> brk (malloc_init hb s) = brk s
    \<and> (\<forall>i. i < unat hb \<or> unat hb + 8 \<le> i \<longrightarrow> hmem (malloc_init hb s) i = hmem s i)"
proof (cases "freep s = 0")
  case True
  then have k: "as = []" "hb \<noteq> 0" "unat hb + 8 \<le> unat (brk s)" "unat (brk s) \<le> 2 ^ 31" using assms by (auto simp: heap_pre_def)
  then have hh: "hdr_in hb" by (simp add: hdr_in_def)
  let ?t = "malloc_init hb s"
  have t: "?t = set_hsize hb 0 ((set_hptr hb hb s)\<lparr>freep := hb\<rparr>)" using True by (simp add: malloc_init_def)
  have f: "hptr ?t hb = hb" "hsize ?t hb = 0" "freep ?t = hb" "brk ?t = brk s" using hh by (simp_all add: t)
  have "heap_ok hb ?t [hb]" using f k by (simp add: heap_ok_def within_def)
  moreover have "free_extents ?t [hb] = free_extents s as" using f k(1) by (simp add: extent_def)
  moreover have "hmem ?t i = hmem s i" if "i < unat hb \<or> unat hb + 8 \<le> i" for i
    using hdr_mem_other [OF hh that] by (simp add: t)
  ultimately show ?thesis using f(4) by blast
next
  case False
  then show ?thesis using assms by (auto simp: heap_pre_def malloc_init_def)
qed

lemma malloc_units_eq:
  assumes "unat n \<le> 2 ^ 31 - 24"
  shows "unat (malloc_units n) = (unat n + 7) div 8 + 1" "malloc_units n \<noteq> 0" "8 * unat (malloc_units n) < 2 ^ 31"
    "unat n + 8 \<le> 8 * unat (malloc_units n)"
proof -
  have "unat (n + 7) = unat n + 7" using assms by (subst unat_add_lt) auto
  then have d: "unat ((n + 7) div 8) = (unat n + 7) div 8" by (simp add: unat_div)
  show e: "unat (malloc_units n) = (unat n + 7) div 8 + 1"
  proof -
    have "unat ((n + 7) div 8 + 1) = unat ((n + 7) div 8) + 1" by (subst unat_add_lt) (use d assms in auto)
    moreover have "malloc_units n = (n + 7) div 8 + 1" by (simp add: malloc_units_def add.commute)
    ultimately show ?thesis using d by simp
  qed
  then show "malloc_units n \<noteq> 0" by (metis add_is_0 unat_0 zero_neq_one)
  have "8 * ((unat n + 7) div 8) \<le> unat n + 7" "unat n \<le> 8 * ((unat n + 7) div 8)" by linarith+
  then show "8 * unat (malloc_units n) < 2 ^ 31" "unat n + 8 \<le> 8 * unat (malloc_units n)" unfolding e using assms by simp_all
qed

text \<open>A run of \<open>malloc\<close> on a heap with a ring.\<close>

definition allocated :: "u32 \<Rightarrow> u32 \<Rightarrow> uheap \<Rightarrow> u32 list \<Rightarrow> u32 \<Rightarrow> uheap \<Rightarrow> u32 list \<Rightarrow> bool" where
  "allocated hb n s as r t bs \<longleftrightarrow> heap_ok hb t bs \<and> unat (brk s) \<le> unat (brk t)
     \<and> (\<forall>i. i \<notin> free_extents s as \<longrightarrow> i < unat hb \<or> unat hb + 8 \<le> i \<longrightarrow> i < unat (brk s) \<longrightarrow> hmem t i = hmem s i)
     \<and> (if r = 0 then free_extents t bs = free_extents s as \<and> brk t = brk s
        else used_block hb t bs (r - 8) \<and> hsize t (r - 8) = n
          \<and> free_extents t bs \<union> extent t (r - 8) = free_extents s as \<union> {unat (brk s) ..< unat (brk t)})"

lemma used_nonzero: "used_block hb s as b \<Longrightarrow> unat (brk s) \<le> 2 ^ 31 \<Longrightarrow> b + 8 \<noteq> 0"
proof
  assume u: "used_block hb s as b" "unat (brk s) \<le> 2 ^ 31" and z: "b + 8 = 0"
  have "unat (b + 8) = unat b + 8" using u by (subst unat_add_lt) (auto simp: used_block_def within_def)
  then show False using z by simp
qed

lemma take_allocated:
  assumes h: "heap_ok hb s as" and c: "c \<in> set as" "n \<le> hsize s c" and n: "n \<noteq> 0"
  shows "\<exists>r t bs. malloc_loop grow n (freep s) (hptr s (freep s)) s = Some (r, t) \<and> r \<noteq> 0 \<and> brk t = brk s \<and> allocated hb n s as r t bs"
proof -
  obtain xs p z ys where as: "as = xs @ p # z # ys" and z: "n \<le> hsize s z"
    and run: "malloc_loop grow n (freep s) (hptr s (freep s)) s = Some (take_block n p z s)"
    using malloc_found [OF h c n] by blast
  obtain b t bs where t: "take_block n p z s = (b + 8, t)" "heap_ok hb t bs" "used_block hb t bs b" "hsize t b = n"
    "free_extents t bs \<union> extent t b = free_extents s as" "brk t = brk s"
    "\<forall>i. i \<notin> free_extents s as \<longrightarrow> i < unat hb \<or> unat hb + 8 \<le> i \<longrightarrow> hmem t i = hmem s i"
    using take_ok [OF h [unfolded as] z n] unfolding as by blast
  have "b + 8 \<noteq> 0" using used_nonzero [OF t(3)] t(2) by (simp add: heap_ok_def)
  then show ?thesis using run t by (intro exI [of _ "b + 8"] exI [of _ t] exI [of _ bs]) (simp add: allocated_def)
qed

lemma malloc_loop_ok:
  assumes h: "heap_ok hb s as" and g: "grants grow" and n: "n \<noteq> 0" "8 * unat n < 2 ^ 31"
  shows "\<exists>r t bs. malloc_loop grow n (freep s) (hptr s (freep s)) s = Some (r, t) \<and> allocated hb n s as r t bs"
proof (cases "\<exists>c \<in> set as. n \<le> hsize s c")
  case True
  then show ?thesis using take_allocated [OF h _ _ n(1)] by blast
next
  case False
  then have loop: "malloc_loop grow n (freep s) (hptr s (freep s)) s =
    (case morecore grow n s of None \<Rightarrow> None
     | Some (q, s1) \<Rightarrow> if q = 0 then Some (0, s1) else malloc_loop grow n q (hptr s1 q) s1)"
    using malloc_not_found [OF h] by blast
  from morecore_ok [OF h g n] show ?thesis
  proof (elim disjE exE conjE)
    assume "morecore grow n s = Some (0, s)"
    then show ?thesis using loop h by (intro exI [of _ 0] exI [of _ s] exI [of _ as]) (simp add: allocated_def)
  next
    fix t bs
    assume m: "morecore grow n s = Some (freep t, t)" "heap_ok hb t bs" "unat (brk s) \<le> unat (brk t)"
      "free_extents t bs = free_extents s as \<union> {unat (brk s) ..< unat (brk t)}" "\<exists>c \<in> set bs. n \<le> hsize t c"
      "\<forall>i. i \<notin> free_extents s as \<longrightarrow> i < unat hb \<or> unat hb + 8 \<le> i \<longrightarrow> i < unat (brk s) \<longrightarrow> hmem t i = hmem s i"
    obtain r u cs where u: "malloc_loop grow n (freep t) (hptr t (freep t)) t = Some (r, u)" "r \<noteq> 0" "allocated hb n t bs r u cs"
      using take_allocated [OF m(2) _ _ n(1)] m(5) by blast
    have "freep t \<noteq> 0" using heap_nonzero [OF m(2)] m(2) by (simp add: heap_ok_def)
    then have run: "malloc_loop grow n (freep s) (hptr s (freep s)) s = Some (r, u)" using loop m(1) u(1) by simp
    have un: "free_extents s as \<union> {unat (brk s) ..< unat (brk t)} \<union> {unat (brk t) ..< unat (brk u)} = free_extents s as \<union> {unat (brk s) ..< unat (brk u)}"
      using u(3) m(3) by (auto simp: allocated_def)
    have "hmem u i = hmem s i" if "i \<notin> free_extents s as" "i < unat hb \<or> unat hb + 8 \<le> i" "i < unat (brk s)" for i
      using u(3) m(3,4,6) that unfolding allocated_def by auto
    then have "allocated hb n s as r u cs" using u(2,3) m(3,4) un unfolding allocated_def by auto
    then show ?thesis using run by blast
  qed
qed

lemma malloc_ok:
  assumes h: "heap_pre hb s as" and g: "grants grow" and n: "unat n \<le> 2 ^ 31 - 24"
  shows "\<exists>r t bs. malloc hb grow n s = Some (r, t) \<and> allocated hb (malloc_units n) s as r t bs"
proof -
  let ?s = "malloc_init hb s"
  obtain cs where i: "heap_ok hb ?s cs" "free_extents ?s cs = free_extents s as" "brk ?s = brk s"
    "\<forall>i. i < unat hb \<or> unat hb + 8 \<le> i \<longrightarrow> hmem ?s i = hmem s i"
    using malloc_init_ok [OF h] by blast
  obtain r t bs where t: "malloc_loop grow (malloc_units n) (freep ?s) (hptr ?s (freep ?s)) ?s = Some (r, t)"
    "allocated hb (malloc_units n) ?s cs r t bs"
    using malloc_loop_ok [OF i(1) g malloc_units_eq(2,3) [OF n]] by blast
  have "malloc hb grow n s = Some (r, t)" using t(1) by (simp add: malloc_def Let_def)
  moreover have "allocated hb (malloc_units n) s as r t bs" using t(2) i(2-4) unfolding allocated_def by simp
  ultimately show ?thesis by blast
qed

end
