(* ===== verification/Malloc_Use.thy ===== *)
theory Malloc_Use
  imports Malloc_Spec
begin

text \<open>
  Programs that allocate.  The locale \<open>allocator\<close> is the contract between \<open>malloc\<close>, \<open>free\<close> and a program: what the
  program has written to a block it still has is there.  It is interpreted on the model of \<open>umalloc.c\<close>.
\<close>

subsection \<open>Programs that allocate\<close>

text \<open>
  What a program does with the heap: it allocates \<open>n\<close> bytes, frees the \<open>k\<close>-th block it still has, or writes byte
  \<open>i\<close> of it.  Beside the heap runs what the program knows: its blocks in the order it got them, each with
  its address, its length and the bytes written to it since.
\<close>

datatype hop = Mallocs u32 | Frees nat | Writes nat nat u8

type_synonym known = "(u32 \<times> nat \<times> (nat \<Rightarrow> u8 option)) list"

fun hstep :: "(u32 \<Rightarrow> 'h \<Rightarrow> (u32 \<times> 'h) option) \<Rightarrow> (u32 \<Rightarrow> 'h \<Rightarrow> 'h option) \<Rightarrow> (nat \<Rightarrow> u8 \<Rightarrow> 'h \<Rightarrow> 'h) \<Rightarrow>
    hop \<Rightarrow> 'h \<times> known \<Rightarrow> ('h \<times> known) option" where
  "hstep al de po (Mallocs n) (h, bl) =
     (case al n h of None \<Rightarrow> None | Some (r, t) \<Rightarrow> Some (t, if r = 0 then bl else bl @ [(r, unat n, Map.empty)]))"
| "hstep al de po (Frees k) (h, bl) =
     (if k < length bl
      then (case de (fst (bl ! k)) h of None \<Rightarrow> None | Some t \<Rightarrow> Some (t, take k bl @ drop (Suc k) bl))
      else Some (h, bl))"
| "hstep al de po (Writes k i v) (h, bl) =
     (if k < length bl
      then (case bl ! k of (a, m, g) \<Rightarrow>
        if i < m then Some (po (unat a + i) v h, bl[k := (a, m, g(i \<mapsto> v))]) else Some (h, bl))
      else Some (h, bl))"

fun hsteps :: "(u32 \<Rightarrow> 'h \<Rightarrow> (u32 \<times> 'h) option) \<Rightarrow> (u32 \<Rightarrow> 'h \<Rightarrow> 'h option) \<Rightarrow> (nat \<Rightarrow> u8 \<Rightarrow> 'h \<Rightarrow> 'h) \<Rightarrow>
    hop list \<Rightarrow> 'h \<times> known \<Rightarrow> ('h \<times> known) option" where
  "hsteps al de po [] c = Some c"
| "hsteps al de po (p # ps) c = (case hstep al de po p c of None \<Rightarrow> None | Some d \<Rightarrow> hsteps al de po ps d)"

definition blocks :: "known \<Rightarrow> (u32 \<times> nat) list" where
  "blocks bl = map (\<lambda>(a, m, g). (a, m)) bl"

lemma blocks_simps [simp]: "blocks [] = []" "blocks ((a, m, g) # bl) = (a, m) # blocks bl" "blocks (bl @ cl) = blocks bl @ blocks cl"
    "length (blocks bl) = length bl"
  by (simp_all add: blocks_def)

lemma in_blocks: "(a, m, g) \<in> set bl \<Longrightarrow> (a, m) \<in> set (blocks bl)"
  by (force simp: blocks_def)

definition small_op :: "hop \<Rightarrow> bool" where
  "small_op p \<longleftrightarrow> (\<forall>n. p = Mallocs n \<longrightarrow> unat n \<le> 2 ^ 31 - 24)"

text \<open>
  The contract of an allocator.  \<open>good h bl\<close> says that the blocks \<open>bl\<close> are in use in heap \<open>h\<close>; no operation
  changes a byte of a block that stays in use, and blocks in use do not overlap.
\<close>

locale allocator =
  fixes al :: "u32 \<Rightarrow> 'h \<Rightarrow> (u32 \<times> 'h) option"
    and de :: "u32 \<Rightarrow> 'h \<Rightarrow> 'h option"
    and po :: "nat \<Rightarrow> u8 \<Rightarrow> 'h \<Rightarrow> 'h"
    and pe :: "'h \<Rightarrow> nat \<Rightarrow> u8"
    and good :: "'h \<Rightarrow> (u32 \<times> nat) list \<Rightarrow> bool"
  assumes alloc: "good h bl \<Longrightarrow> unat n \<le> 2 ^ 31 - 24 \<Longrightarrow> \<exists>r t. al n h = Some (r, t) \<and> good t (if r = 0 then bl else bl @ [(r, unat n)])
        \<and> (\<forall>(a, m) \<in> set bl. \<forall>i < m. pe t (unat a + i) = pe h (unat a + i))"
    and dealloc: "good h (bl @ (a, m) # cl) \<Longrightarrow> \<exists>t. de a h = Some t \<and> good t (bl @ cl)
        \<and> (\<forall>(b, k) \<in> set (bl @ cl). \<forall>i < k. pe t (unat b + i) = pe h (unat b + i))"
    and poke: "good h bl \<Longrightarrow> (a, m) \<in> set bl \<Longrightarrow> i < m \<Longrightarrow> good (po (unat a + i) v h) bl"
    and peek: "pe (po j v h) k = (if k = j then v else pe h k)"
    and apart: "good h bl \<Longrightarrow> k < l \<Longrightarrow> l < length bl \<Longrightarrow> i < snd (bl ! k) \<Longrightarrow> j < snd (bl ! l) \<Longrightarrow>
        unat (fst (bl ! k)) + i \<noteq> unat (fst (bl ! l)) + j"
begin

text \<open>What the program knows is true: the bytes it wrote are there.\<close>

definition knows :: "'h \<Rightarrow> known \<Rightarrow> bool" where
  "knows h bl \<longleftrightarrow> good h (blocks bl) \<and> (\<forall>(a, m, g) \<in> set bl. \<forall>i v. g i = Some v \<longrightarrow> i < m \<and> pe h (unat a + i) = v)"

lemma knows_kept:
  assumes k: "knows h bl" and g: "good t (blocks cl)"
    and s: "\<And>a m g. (a, m, g) \<in> set cl \<Longrightarrow> g = Map.empty \<or> (a, m, g) \<in> set bl \<and> (\<forall>i < m. pe t (unat a + i) = pe h (unat a + i))"
  shows "knows t cl"
proof -
  have "i < m \<and> pe t (unat a + i) = v" if e: "(a, m, g) \<in> set cl" "g i = Some v" for a m g i v
  proof -
    have b: "(a, m, g) \<in> set bl" "\<forall>i < m. pe t (unat a + i) = pe h (unat a + i)" using s [OF e(1)] e(2) by auto
    then have "i < m \<and> pe h (unat a + i) = v" using k e(2) unfolding knows_def by fast
    then show ?thesis using b(2) by simp
  qed
  then show ?thesis using g unfolding knows_def by blast
qed

lemma step_knows:
  assumes k: "knows h bl" and p: "small_op p"
  shows "\<exists>t cl. hstep al de po p (h, bl) = Some (t, cl) \<and> knows t cl"
proof (cases p)
  case (Mallocs n)
  then have u: "unat n \<le> 2 ^ 31 - 24" using p by (simp add: small_op_def)
  have g: "good h (blocks bl)" using k by (simp add: knows_def)
  obtain r t where t: "al n h = Some (r, t)" "good t (if r = 0 then blocks bl else blocks bl @ [(r, unat n)])"
    "\<forall>(a, m) \<in> set (blocks bl). \<forall>i < m. pe t (unat a + i) = pe h (unat a + i)"
    using alloc [OF g u] by blast
  have kept: "g = Map.empty \<or> (a, m, g) \<in> set bl \<and> (\<forall>i < m. pe t (unat a + i) = pe h (unat a + i))"
    if "(a, m, g) \<in> set (if r = 0 then bl else bl @ [(r, unat n, Map.empty)])" for a m g
  proof -
    have "(a, m, g) \<in> set bl \<or> g = Map.empty" using that by (cases "r = 0") auto
    then show ?thesis using bspec [OF t(3) in_blocks] by fastforce
  qed
  have "good t (blocks (if r = 0 then bl else bl @ [(r, unat n, Map.empty)]))" using t(2) by (cases "r = 0") simp_all
  from knows_kept [OF k this kept] have "knows t (if r = 0 then bl else bl @ [(r, unat n, Map.empty)])" .
  then show ?thesis using t(1) Mallocs by auto
next
  case (Frees k)
  show ?thesis
  proof (cases "k < length bl")
    case True
    then obtain a m g where b: "bl ! k = (a, m, g)" "bl = take k bl @ (a, m, g) # drop (Suc k) bl"
      using id_take_nth_drop [OF True] by (metis prod_cases3)
    define xs ys where "xs = take k bl" and "ys = drop (Suc k) bl"
    have bl: "bl = xs @ (a, m, g) # ys" using b(2) by (simp add: xs_def ys_def)
    obtain t where t: "de a h = Some t" "good t (blocks xs @ blocks ys)"
      "\<forall>(b, k) \<in> set (blocks xs @ blocks ys). \<forall>i < k. pe t (unat b + i) = pe h (unat b + i)"
      using dealloc [of h "blocks xs" a m "blocks ys"] k unfolding knows_def bl by auto
    have kept: "g = Map.empty \<or> (a, m, g) \<in> set bl \<and> (\<forall>i < m. pe t (unat a + i) = pe h (unat a + i))"
      if "(a, m, g) \<in> set (xs @ ys)" for a m g
      using that bspec [OF t(3) [folded blocks_simps(3)] in_blocks] unfolding bl by fastforce
    have "good t (blocks (xs @ ys))" using t(2) by simp
    from knows_kept [OF k this kept] have "knows t (xs @ ys)" .
    then show ?thesis using t(1) True b(1) Frees by (simp add: xs_def ys_def)
  qed (use k Frees in simp)
next
  case (Writes k i v)
  show ?thesis
  proof (cases "k < length bl \<and> i < fst (snd (bl ! k))")
    case True
    obtain a m g where b: "bl ! k = (a, m, g)" by (metis prod_cases3)
    let ?bl = "bl[k := (a, m, g(i \<mapsto> v))]" and ?t = "po (unat a + i) v h"
    have bs: "blocks ?bl = blocks bl" using True b by (intro nth_equalityI) (auto simp: blocks_def nth_list_update)
    have nb: "blocks bl ! k = (a, m)" using True b by (simp add: blocks_def)
    have g: "good h (blocks bl)" using k by (simp add: knows_def)
    have im: "i < m" using True b by simp
    have "(a, m) \<in> set (blocks bl)" using nb True by (metis blocks_simps(4) nth_mem)
    then have "good ?t (blocks ?bl)" using poke [OF g _ im] bs by simp
    moreover have "f j = Some w \<longrightarrow> j < n \<and> pe ?t (unat c + j) = w" if e: "(c, n, f) \<in> set ?bl" for c n f j w
    proof -
      obtain l where l: "l < length bl" "?bl ! l = (c, n, f)" using e by (metis in_set_conv_nth length_list_update)
      have old: "\<forall>i v. g i = Some v \<longrightarrow> i < m \<and> pe h (unat a + i) = v" if "l < length bl" "bl ! l = (a, m, g)" for l a m g
      proof -
        have "(a, m, g) \<in> set bl" using nth_mem [OF that(1)] unfolding that(2) .
        then show ?thesis using k unfolding knows_def by blast
      qed
      show ?thesis
      proof (cases "l = k")
        case True
        then show ?thesis using l b old [OF l(1)] im by (auto simp: peek)
      next
        case False
        then have bc: "bl ! l = (c, n, f)" "blocks bl ! l = (c, n)" using l by (simp_all add: blocks_def)
        have "unat c + j \<noteq> unat a + i" if "j < n"
          using apart [OF g, of k l i j] apart [OF g, of l k j i] nb bc(2) im that False True l(1) by (cases "k < l") auto
        then show ?thesis using old [OF l(1) bc(1)] by (auto simp: peek)
      qed
    qed
    ultimately have "knows ?t ?bl" unfolding knows_def by blast
    then show ?thesis using True b Writes by auto
  qed (use k Writes in \<open>auto split: prod.splits\<close>)
qed

lemma steps_known: "knows h bl \<Longrightarrow> \<forall>p \<in> set ps. small_op p \<Longrightarrow> \<exists>t cl. hsteps al de po ps (h, bl) = Some (t, cl) \<and> knows t cl"
proof (induction ps arbitrary: h bl)
  case (Cons p ps)
  obtain t cl where t: "hstep al de po p (h, bl) = Some (t, cl)" "knows t cl"
    using step_knows [OF Cons.prems(1), of p] Cons.prems(2) by (metis list.set_intros(1))
  then show ?case using Cons.IH [OF t(2)] Cons.prems(2) by simp
qed simp

lemma session:
  assumes "good h []" "\<forall>p \<in> set ps. small_op p"
  shows "\<exists>t cl. hsteps al de po ps (h, []) = Some (t, cl) \<and> good t (blocks cl)
    \<and> (\<forall>(a, m, g) \<in> set cl. \<forall>i v. g i = Some v \<longrightarrow> i < m \<and> pe t (unat a + i) = v)"
  using steps_known [of h "[]" ps] assms unfolding knows_def by simp

end

subsection \<open>The allocator keeps the contract\<close>

definition upoke :: "nat \<Rightarrow> u8 \<Rightarrow> uheap \<Rightarrow> uheap" where
  "upoke j v s = s\<lparr>hmem := (hmem s)(j := v)\<rparr>"

text \<open>The kernel gives memory below \<open>KERNBASE\<close> only, and may refuse that too.\<close>

definition granted :: "(u32 \<Rightarrow> int \<Rightarrow> bool) \<Rightarrow> u32 \<Rightarrow> int \<Rightarrow> bool" where
  "granted grow b n \<longleftrightarrow> 0 \<le> n \<and> int (unat b) + n \<le> 2 ^ 31 \<and> grow b n"

lemma granted_grants: "grants (granted grow)"
  by (simp add: grants_def granted_def)

definition heap_good :: "u32 \<Rightarrow> uheap \<Rightarrow> (u32 \<times> nat) list \<Rightarrow> bool" where
  "heap_good hb s bl \<longleftrightarrow> (\<exists>as. heap_pre hb s as \<and> (freep s = 0 \<longrightarrow> bl = [])
     \<and> (\<forall>(a, m) \<in> set bl. used_block hb s as (a - 8) \<and> m + 8 \<le> 8 * unat (hsize s (a - 8)))
     \<and> sorted_wrt (\<lambda>x y. extent s (fst x - 8) \<inter> extent s (fst y - 8) = {}) bl)"

lemma used_payload:
  assumes "used_block hb s as (a - 8)" "unat (brk s) \<le> 2 ^ 31"
  shows "unat a = unat (a - 8) + 8"
proof -
  have "unat (a - 8 + 8) = unat (a - 8) + 8" using assms by (subst unat_add_lt) (auto simp: used_block_def within_def)
  then show ?thesis by simp
qed

lemma pre_brk: "heap_pre hb s as \<Longrightarrow> unat (brk s) \<le> 2 ^ 31"
  by (auto simp: heap_pre_def heap_ok_def split: if_splits)

text \<open>A block in use stays in use when its bytes stay and no free block reaches into it.\<close>

lemma used_frame:
  assumes u: "used_block hb s as c" and k: "unat (brk s) \<le> 2 ^ 31" "unat (brk s) \<le> unat (brk t)"
    and m: "\<forall>i \<in> extent s c. hmem t i = hmem s i" and d: "free_extents t bs \<inter> extent s c = {}"
  shows "used_block hb t bs c" "hsize t c = hsize s c" "extent t c = extent s c"
proof -
  have w: "within s c" "unat hb + 8 \<le> unat c" "hsize s c \<noteq> 0" using u by (simp_all add: used_block_def)
  then have "\<forall>i. unat c \<le> i \<longrightarrow> i < unat c + 8 \<longrightarrow> i \<in> extent s c" by (auto simp: extent_def simp flip: unat_gt_0)
  then show sz: "hsize t c = hsize s c" using hdr_same(2) [OF within_hdr [OF w(1) k(1)], of t s] m by blast
  then show e: "extent t c = extent s c" by (simp add: extent_def)
  show "used_block hb t bs c" using w sz e k(2) d by (auto simp: used_block_def within_def)
qed

lemma heap_good_frame:
  assumes L: "\<forall>(a, m) \<in> set bl. used_block hb s as (a - 8) \<and> m + 8 \<le> 8 * unat (hsize s (a - 8))"
    and S: "sorted_wrt (\<lambda>x y. extent s (fst x - 8) \<inter> extent s (fst y - 8) = {}) bl"
    and k: "unat (brk s) \<le> 2 ^ 31" "unat (brk s) \<le> unat (brk t)"
    and m: "\<forall>(a, m) \<in> set bl. \<forall>i \<in> extent s (a - 8). hmem t i = hmem s i \<and> i \<notin> free_extents t bs"
  shows "\<forall>(a, m) \<in> set bl. used_block hb t bs (a - 8) \<and> m + 8 \<le> 8 * unat (hsize t (a - 8))"
    "sorted_wrt (\<lambda>x y. extent t (fst x - 8) \<inter> extent t (fst y - 8) = {}) bl"
    "\<forall>(a, m) \<in> set bl. \<forall>i < m. hmem t (unat a + i) = hmem s (unat a + i)"
    "\<forall>(a, m) \<in> set bl. extent t (a - 8) = extent s (a - 8)"
proof -
  have *: "used_block hb t bs (a - 8) \<and> hsize t (a - 8) = hsize s (a - 8) \<and> extent t (a - 8) = extent s (a - 8)
      \<and> n + 8 \<le> 8 * unat (hsize s (a - 8)) \<and> (\<forall>i < n. hmem t (unat a + i) = hmem s (unat a + i))" if e: "(a, n) \<in> set bl" for a n
  proof -
    have u: "used_block hb s as (a - 8)" "n + 8 \<le> 8 * unat (hsize s (a - 8))" using L e by auto
    have mm: "\<forall>i \<in> extent s (a - 8). hmem t i = hmem s i" "free_extents t bs \<inter> extent s (a - 8) = {}" using m e by auto
    have "unat a + i \<in> extent s (a - 8)" if "i < n" for i
      using that u(2) used_payload [OF u(1) k(1)] by (simp add: extent_def)
    then show ?thesis using used_frame [OF u(1) k mm] u(2) mm(1) by blast
  qed
  show "\<forall>(a, m) \<in> set bl. used_block hb t bs (a - 8) \<and> m + 8 \<le> 8 * unat (hsize t (a - 8))"
    "\<forall>(a, m) \<in> set bl. \<forall>i < m. hmem t (unat a + i) = hmem s (unat a + i)"
    "\<forall>(a, m) \<in> set bl. extent t (a - 8) = extent s (a - 8)" using * by fastforce+
  show "sorted_wrt (\<lambda>x y. extent t (fst x - 8) \<inter> extent t (fst y - 8) = {}) bl"
    using S by (rule sorted_wrt_mono_rel [rotated]) (use * in fastforce)
qed

text \<open>A byte of a block in use is no byte of a free block and none of \<open>base\<close>.\<close>

lemma used_byte:
  assumes "used_block hb s as c" "i \<in> extent s c"
  shows "i \<notin> free_extents s as" "i < unat hb \<or> unat hb + 8 \<le> i" "i < unat (brk s)"
  using assms by (auto simp: used_block_def extent_def within_def)

lemma malloc_good:
  assumes g: "heap_good hb s bl" and n: "unat n \<le> 2 ^ 31 - 24"
  shows "\<exists>r t. malloc hb (granted grow) n s = Some (r, t) \<and> heap_good hb t (if r = 0 then bl else bl @ [(r, unat n)])
    \<and> (\<forall>(a, m) \<in> set bl. \<forall>i < m. hmem t (unat a + i) = hmem s (unat a + i))"
proof -
  obtain as where h: "heap_pre hb s as" and z: "freep s = 0 \<longrightarrow> bl = []"
    and L: "\<forall>(a, m) \<in> set bl. used_block hb s as (a - 8) \<and> m + 8 \<le> 8 * unat (hsize s (a - 8))"
    and S: "sorted_wrt (\<lambda>x y. extent s (fst x - 8) \<inter> extent s (fst y - 8) = {}) bl"
    using g unfolding heap_good_def by blast
  obtain r t bs where r: "malloc hb (granted grow) n s = Some (r, t)" "allocated hb (malloc_units n) s as r t bs"
    using malloc_ok [OF h granted_grants n] by blast
  have t: "heap_ok hb t bs" "unat (brk s) \<le> unat (brk t)" and mem: "\<And>i. i \<notin> free_extents s as \<Longrightarrow> i < unat hb \<or> unat hb + 8 \<le> i \<Longrightarrow> i < unat (brk s) \<Longrightarrow> hmem t i = hmem s i"
    and fe: "free_extents t bs \<subseteq> free_extents s as \<union> {unat (brk s) ..< unat (brk t)}"
    and new: "r \<noteq> 0 \<Longrightarrow> used_block hb t bs (r - 8) \<and> hsize t (r - 8) = malloc_units n \<and> extent t (r - 8) \<subseteq> free_extents s as \<union> {unat (brk s) ..< unat (brk t)}"
    using r(2) unfolding allocated_def by (auto split: if_splits)
  have m: "hmem t i = hmem s i \<and> i \<notin> free_extents t bs" "i \<notin> free_extents s as \<union> {unat (brk s) ..< unat (brk t)}"
    if e: "(a, m) \<in> set bl" "i \<in> extent s (a - 8)" for a m i
  proof -
    have "used_block hb s as (a - 8)" using L e(1) by auto
    note u = used_byte [OF this e(2)]
    show "hmem t i = hmem s i \<and> i \<notin> free_extents t bs" "i \<notin> free_extents s as \<union> {unat (brk s) ..< unat (brk t)}"
      using mem [OF u] u(1,3) fe by fastforce+
  qed
  have "\<forall>(a, m) \<in> set bl. \<forall>i \<in> extent s (a - 8). hmem t i = hmem s i \<and> i \<notin> free_extents t bs" using m(1) by blast
  note F = heap_good_frame [OF L S pre_brk [OF h] t(2) this]
  have f0: "freep t \<noteq> 0" using heap_nonzero [OF t(1)] t(1) by (auto simp: heap_ok_def)
  have "heap_good hb t (if r = 0 then bl else bl @ [(r, unat n)])"
  proof (cases "r = 0")
    case True
    then show ?thesis using heap_pre_ok [OF t(1)] f0 F(1,2) unfolding heap_good_def by auto
  next
    case False
    have "extent t (a - 8) \<inter> extent t (r - 8) = {}" if "(a, m) \<in> set bl" for a m
      using F(4) new [OF False] m(2) [OF that] that by fastforce
    then have "sorted_wrt (\<lambda>x y. extent t (fst x - 8) \<inter> extent t (fst y - 8) = {}) (bl @ [(r, unat n)])"
      using F(2) by (fastforce simp: sorted_wrt_append)
    moreover have "unat n + 8 \<le> 8 * unat (hsize t (r - 8))" using new [OF False] malloc_units_eq(4) [OF n] by simp
    ultimately show ?thesis using False heap_pre_ok [OF t(1)] f0 F(1) new unfolding heap_good_def by (intro exI [of _ bs]) auto
  qed
  then show ?thesis using r(1) F(3) by blast
qed

lemma free_good:
  assumes g: "heap_good hb s (bl @ (a, m) # cl)"
  shows "\<exists>t. free a s = Some t \<and> heap_good hb t (bl @ cl)
    \<and> (\<forall>(b, k) \<in> set (bl @ cl). \<forall>i < k. hmem t (unat b + i) = hmem s (unat b + i))"
proof -
  obtain as where h: "heap_pre hb s as" and z: "freep s \<noteq> 0"
    and L: "\<forall>(a, m) \<in> set (bl @ (a, m) # cl). used_block hb s as (a - 8) \<and> m + 8 \<le> 8 * unat (hsize s (a - 8))"
    and S: "sorted_wrt (\<lambda>x y. extent s (fst x - 8) \<inter> extent s (fst y - 8) = {}) (bl @ (a, m) # cl)"
    using g unfolding heap_good_def by blast
  have ok: "heap_ok hb s as" using h z by (simp add: heap_pre_def)
  have u: "used_block hb s as (a - 8)" using L by simp
  obtain t bs where t: "free a s = Some t" "heap_ok hb t bs" "free_extents t bs = free_extents s as \<union> extent s (a - 8)" "brk t = brk s"
    "\<And>i. i \<notin> free_extents s as \<union> extent s (a - 8) \<Longrightarrow> i < unat hb \<or> unat hb + 8 \<le> i \<Longrightarrow> hmem t i = hmem s i"
    using free_ok [OF ok u] by auto
  have L': "\<forall>(a, m) \<in> set (bl @ cl). used_block hb s as (a - 8) \<and> m + 8 \<le> 8 * unat (hsize s (a - 8))" using L by auto
  have S': "sorted_wrt (\<lambda>x y. extent s (fst x - 8) \<inter> extent s (fst y - 8) = {}) (bl @ cl)" using S by (simp add: sorted_wrt_append)
  have m: "hmem t i = hmem s i \<and> i \<notin> free_extents t bs" if e: "(b, k) \<in> set (bl @ cl)" "i \<in> extent s (b - 8)" for b k i
  proof -
    have "used_block hb s as (b - 8)" using L' e(1) by auto
    note ub = used_byte [OF this e(2)]
    have "extent s (b - 8) \<inter> extent s (a - 8) = {}" using S e(1) by (fastforce simp: sorted_wrt_append)
    then show ?thesis using t(3) t(5) [of i] ub e(2) by auto
  qed
  have "\<forall>(a, m) \<in> set (bl @ cl). \<forall>i \<in> extent s (a - 8). hmem t i = hmem s i \<and> i \<notin> free_extents t bs" using m by blast
  note F = heap_good_frame [OF L' S' pre_brk [OF h] eq_refl [OF arg_cong [OF t(4) [symmetric], of unat]] this]
  have f0: "freep t \<noteq> 0" using heap_nonzero [OF t(2)] t(2) by (auto simp: heap_ok_def)
  have "heap_good hb t (bl @ cl)" using heap_pre_ok [OF t(2)] f0 F(1,2) unfolding heap_good_def by blast
  then show ?thesis using t(1) F(3) by blast
qed

lemma upoke_good:
  assumes g: "heap_good hb s bl" and e: "(a, m) \<in> set bl" "i < m"
  shows "heap_good hb (upoke (unat a + i) v s) bl"
proof -
  obtain as where h: "heap_pre hb s as" and z: "freep s \<noteq> 0"
    and L: "\<forall>(a, m) \<in> set bl. used_block hb s as (a - 8) \<and> m + 8 \<le> 8 * unat (hsize s (a - 8))"
    and S: "sorted_wrt (\<lambda>x y. extent s (fst x - 8) \<inter> extent s (fst y - 8) = {}) bl"
    using g e(1) unfolding heap_good_def by fastforce
  let ?t = "upoke (unat a + i) v s"
  have ok: "heap_ok hb s as" using h z by (simp add: heap_pre_def)
  have u: "used_block hb s as (a - 8)" "m + 8 \<le> 8 * unat (hsize s (a - 8))" using L e(1) by auto
  have pay: "unat a = unat (a - 8) + 8" by (rule used_payload [OF u(1) pre_brk [OF h]])
  have inx: "unat a + i \<in> extent s (a - 8)" using pay e(2) u(2) by (simp add: extent_def)
  have off: "hmem ?t j = hmem s j" if "j \<noteq> unat a + i" for j using that by (simp add: upoke_def)
  have hd0: "hptr ?t c = hptr s c \<and> hsize ?t c = hsize s c" if "hdr_in c" "unat a + i < unat c \<or> unat c + 8 \<le> unat a + i" for c
    using hdr_same [OF that(1), of ?t s] off that(2) by fastforce
  have "hptr ?t c = hptr s c \<and> hsize ?t c = hsize s c" if "c \<in> set as" for c
  proof (rule hd0 [OF heap_hdr(1) [OF ok that]])
    show "unat a + i < unat c \<or> unat c + 8 \<le> unat a + i"
      using used_apart [OF ok u(1) that] pay e(2) u(2) by auto
  qed
  then have fr: "heap_ok hb ?t as" "free_extents ?t as = free_extents s as"
    using heap_frame_hdr [OF ok, of ?t] pre_brk [OF h] by (auto simp: upoke_def)
  have blk: "hsize ?t (b - 8) = hsize s (b - 8)" if b: "(b, k) \<in> set bl" for b k
  proof -
    have ub: "used_block hb s as (b - 8)" using L b by auto
    then have hi: "hdr_in (b - 8)" using within_hdr pre_brk [OF h] by (auto simp: used_block_def)
    have "unat a + i < unat (b - 8) \<or> unat (b - 8) + 8 \<le> unat a + i"
    proof (cases "b = a")
      case False
      have "extent s (b - 8) \<inter> extent s (a - 8) = {}"
      proof -
        obtain xs ys where "bl = xs @ (a, m) # ys" using e(1) split_list by metis
        then show ?thesis using S b False by (fastforce simp: sorted_wrt_append)
      qed
      then have "unat a + i \<notin> extent s (b - 8)" using inx by blast
      moreover have "0 < unat (hsize s (b - 8))" using ub by (simp add: used_block_def unat_gt_0)
      ultimately show ?thesis by (auto simp: extent_def)
    qed (use pay in simp)
    then show ?thesis using hd0 [OF hi] by blast
  qed
  have ext: "extent ?t (b - 8) = extent s (b - 8)" if "(b, k) \<in> set bl" for b k using blk [OF that] by (simp add: extent_def)
  have "sorted_wrt (\<lambda>x y. extent ?t (fst x - 8) \<inter> extent ?t (fst y - 8) = {}) bl"
    using S by (rule sorted_wrt_mono_rel [rotated]) (use ext in fastforce)
  moreover have "brk ?t = brk s" "freep ?t = freep s" by (simp_all add: upoke_def)
  then have "used_block hb ?t as (b - 8) \<and> k + 8 \<le> 8 * unat (hsize ?t (b - 8))" if "(b, k) \<in> set bl" for b k
    using L that blk [OF that] ext [OF that] fr(2) by (auto simp: used_block_def within_def)
  ultimately show ?thesis using heap_pre_ok [OF fr(1)] z by (auto simp: heap_good_def upoke_def intro!: exI [of _ as])
qed

lemma good_apart:
  assumes g: "heap_good hb s bl" and k: "k < l" "l < length bl" "i < snd (bl ! k)" "j < snd (bl ! l)"
  shows "unat (fst (bl ! k)) + i \<noteq> unat (fst (bl ! l)) + j"
proof -
  obtain as where h: "heap_pre hb s as" and L: "\<forall>(a, m) \<in> set bl. used_block hb s as (a - 8) \<and> m + 8 \<le> 8 * unat (hsize s (a - 8))"
    and S: "sorted_wrt (\<lambda>x y. extent s (fst x - 8) \<inter> extent s (fst y - 8) = {}) bl"
    using g unfolding heap_good_def by blast
  have inx: "unat (fst (bl ! q)) + p \<in> extent s (fst (bl ! q) - 8)" if "q < length bl" "p < snd (bl ! q)" for q p
  proof -
    have uq: "used_block hb s as (fst (bl ! q) - 8)" "snd (bl ! q) + 8 \<le> 8 * unat (hsize s (fst (bl ! q) - 8))"
      using bspec [OF L nth_mem [OF that(1)]] by (simp_all add: case_prod_unfold)
    then show ?thesis using that(2) used_payload [OF uq(1) pre_brk [OF h]] by (simp add: extent_def)
  qed
  have "extent s (fst (bl ! k) - 8) \<inter> extent s (fst (bl ! l) - 8) = {}" using sorted_wrt_nth_less [OF S k(1,2)] .
  then show ?thesis using inx [of k i] inx [of l j] k by auto
qed

lemma good_range:
  assumes g: "heap_good hb s bl" and e: "(a, m) \<in> set bl"
  shows "unat hb + 16 \<le> unat a \<and> unat a + m \<le> unat (brk s)"
proof -
  obtain as where h: "heap_pre hb s as" and u: "used_block hb s as (a - 8)" "m + 8 \<le> 8 * unat (hsize s (a - 8))"
    using g e unfolding heap_good_def by blast
  then show ?thesis using used_payload [OF u(1) pre_brk [OF h]] by (auto simp: used_block_def within_def)
qed

interpretation user_heap: allocator "malloc hb (granted grow)" free upoke hmem "heap_good hb" for hb grow
proof unfold_locales
  fix h bl and n :: u32
  assume "heap_good hb h bl" "unat n \<le> 2 ^ 31 - 24"
  then show "\<exists>r t. malloc hb (granted grow) n h = Some (r, t) \<and> heap_good hb t (if r = 0 then bl else bl @ [(r, unat n)])
      \<and> (\<forall>(a, m) \<in> set bl. \<forall>i < m. hmem t (unat a + i) = hmem h (unat a + i))" by (rule malloc_good)
qed (auto simp: upoke_def intro: upoke_good [unfolded upoke_def] dest: free_good good_apart)


text \<open>
  C10. Programs that allocate.  Starting with the unused heap, every sequence of allocations of less than two
  gigabytes, frees of blocks the program still has and writes inside them runs to its end, whatever memory the
  kernel grants.  Then the blocks in use lie between \<open>base\<close> and the break and do not overlap, and every byte
  the program has written to a block it still has is still there.
\<close>

theorem malloc_session:
  assumes start: "freep s = 0" "hb \<noteq> 0" "unat hb + 8 \<le> unat (brk s)" "unat (brk s) \<le> 2 ^ 31"
    and ops: "\<forall>p \<in> set ps. small_op p"
  shows "\<exists>t cl. hsteps (malloc hb (granted grow)) free upoke ps (s, []) = Some (t, cl)
    \<and> (\<forall>(a, m, g) \<in> set cl. unat hb + 16 \<le> unat a \<and> unat a + m \<le> unat (brk t)
         \<and> (\<forall>i v. g i = Some v \<longrightarrow> i < m \<and> hmem t (unat a + i) = v))
    \<and> (\<forall>k l i j. k < l \<and> l < length cl \<and> i < fst (snd (cl ! k)) \<and> j < fst (snd (cl ! l)) \<longrightarrow> unat (fst (cl ! k)) + i \<noteq> unat (fst (cl ! l)) + j)"
proof -
  have "heap_good hb s []" using start by (auto simp: heap_good_def heap_pre_def)
  from user_heap.session [OF this ops] obtain t cl where t: "hsteps (malloc hb (granted grow)) free upoke ps (s, []) = Some (t, cl)"
    "heap_good hb t (blocks cl)" "\<forall>(a, m, g) \<in> set cl. \<forall>i v. g i = Some v \<longrightarrow> i < m \<and> hmem t (unat a + i) = v" by blast
  have "unat hb + 16 \<le> unat a \<and> unat a + m \<le> unat (brk t)" if "(a, m, g) \<in> set cl" for a m g
    by (rule good_range [OF t(2) in_blocks [OF that]])
  moreover have "unat (fst (cl ! k)) + i \<noteq> unat (fst (cl ! l)) + j"
    if "k < l" "l < length cl" "i < fst (snd (cl ! k))" "j < fst (snd (cl ! l))" for k l i j
    using user_heap.apart [OF t(2), of k l i j] that by (simp add: blocks_def case_prod_unfold)
  ultimately show ?thesis using t(1,3) by blast
qed

text \<open>The bytes between \<open>base\<close> and the break, as a machine whose program starts.\<close>

definition heap_demo :: uheap where
  "heap_demo = \<lparr>hmem = \<lambda>_. 0, freep = 0, brk = 0x4000\<rparr>"

theorem malloc_session_witness:
  "\<exists>t cl. hsteps (malloc 0x2F00 (granted (\<lambda>_ _. True))) free upoke [Mallocs 10, Writes 0 3 7, Mallocs 5000, Frees 1, Mallocs 20] (heap_demo, []) = Some (t, cl)
    \<and> (\<forall>(a, m, g) \<in> set cl. \<forall>i v. g i = Some v \<longrightarrow> hmem t (unat a + i) = v)"
proof -
  have "freep heap_demo = 0" "(0x2F00 :: u32) \<noteq> 0" "unat (0x2F00 :: u32) + 8 \<le> unat (brk heap_demo)" "unat (brk heap_demo) \<le> 2 ^ 31"
    by (simp_all add: heap_demo_def)
  moreover have "\<forall>p \<in> set [Mallocs 10, Writes 0 3 7, Mallocs 5000, Frees 1, Mallocs 20]. small_op p" by (simp add: small_op_def)
  ultimately show ?thesis
    using malloc_session [of heap_demo "0x2F00" "[Mallocs 10, Writes 0 3 7, Mallocs 5000, Frees 1, Mallocs 20]" "\<lambda>_ _. True"] by fast
qed

text \<open>
  C21. Nothing is lost.  When a free block is large enough, \<open>malloc\<close> returns a block that holds the bytes asked for, and
  giving it back at once leaves a well-formed ring over exactly the free bytes there were before.
\<close>

theorem malloc_free_roundtrip:
  assumes h: "heap_ok hb s as" and n: "unat n \<le> 2 ^ 31 - 24" and c: "c \<in> set as" "malloc_units n \<le> hsize s c"
  shows "\<exists>r t u bs. malloc hb grow n s = Some (r, t) \<and> r \<noteq> 0 \<and> unat n + 8 \<le> 8 * unat (hsize t (r - 8))
    \<and> {unat (r - 8) ..< unat r + unat n} \<subseteq> free_extents s as
    \<and> free r t = Some u \<and> heap_ok hb u bs \<and> free_extents u bs = free_extents s as \<and> brk u = brk s"
proof -
  obtain r t cs where r: "malloc_loop grow (malloc_units n) (freep s) (hptr s (freep s)) s = Some (r, t)" "r \<noteq> 0" "brk t = brk s"
    "allocated hb (malloc_units n) s as r t cs"
    using take_allocated [OF h c malloc_units_eq(2) [OF n]] by blast
  have t: "heap_ok hb t cs" "used_block hb t cs (r - 8)" "hsize t (r - 8) = malloc_units n"
    "free_extents t cs \<union> extent t (r - 8) = free_extents s as"
    using r(2-4) by (simp_all add: allocated_def)
  have "freep s \<noteq> 0" using heap_nonzero [OF h] h by (auto simp: heap_ok_def)
  then have run: "malloc hb grow n s = Some (r, t)" using r(1) by (simp add: malloc_def malloc_init_def Let_def)
  have le: "unat n + 8 \<le> 8 * unat (hsize t (r - 8))" unfolding t(3) by (rule malloc_units_eq(4) [OF n])
  have pay: "unat r = unat (r - 8) + 8" using used_payload [OF t(2)] t(1) by (simp add: heap_ok_def)
  obtain u bs where u: "free (r - 8 + 8) t = Some u" "heap_ok hb u bs" "free_extents u bs = free_extents t cs \<union> extent t (r - 8)" "brk u = brk t"
    using free_ok [OF t(1,2)] by blast
  have "{unat (r - 8) ..< unat r + unat n} \<subseteq> extent t (r - 8)" using le pay by (auto simp: extent_def)
  then show ?thesis using run r(2,3) le u t(4) by (intro exI [of _ r] exI [of _ t] exI [of _ u] exI [of _ bs]) auto
qed

text \<open>A ring of \<open>base\<close> and one page of free memory.\<close>

definition page_heap :: uheap where
  "page_heap = \<lparr>hmem = wr32 (wr32 (wr32 (\<lambda>_. 0) 0x2F00 0x3000) 0x3000 0x2F00) 0x3004 512, freep = 0x2F00, brk = 0x4000\<rparr>"

lemma page_heap_ok: "heap_ok 0x2F00 page_heap [0x2F00, 0x3000]" "hsize page_heap 0x3000 = 512"
proof -
  have h: "hptr page_heap 0x2F00 = 0x3000" "hsize page_heap 0x2F00 = 0" "hptr page_heap 0x3000 = 0x2F00" "hsize page_heap 0x3000 = 512"
    by (simp_all add: page_heap_def hptr_def hsize_def rd32_wr32_other rd32_zero)
  then show "heap_ok 0x2F00 page_heap [0x2F00, 0x3000]" "hsize page_heap 0x3000 = 512"
    by (simp_all add: heap_ok_def before_def within_def page_heap_def)
qed

theorem malloc_free_roundtrip_witness:
  "\<exists>r t u. malloc 0x2F00 (\<lambda>_ _. False) 100 page_heap = Some (r, t) \<and> r \<noteq> 0 \<and> free r t = Some u"
proof -
  have "malloc_units 100 = 14" by (simp add: malloc_units_def)
  then have "malloc_units 100 \<le> hsize page_heap 0x3000" using page_heap_ok(2) by simp
  then show ?thesis using malloc_free_roundtrip [OF page_heap_ok(1), of 100 "0x3000" "\<lambda>_ _. False"] by auto
qed

text \<open>
  C39. The size of a request wraps around.  A request for \<open>2\<^sup>3\<^sup>2 - 1\<close> bytes is not refused: with any free block in the ring,
  \<open>malloc\<close> returns a pointer to a block that consists of its header alone, so the first byte the program stores
  there is outside of what it was given.
\<close>

theorem malloc_wraps:
  assumes h: "heap_ok hb s as" and c: "c \<in> set as" "c \<noteq> hb"
  shows "\<exists>r t bs. malloc hb grow (- 1) s = Some (r, t) \<and> r \<noteq> 0 \<and> heap_ok hb t bs \<and> extent t (r - 8) = {unat r - 8 ..< unat r}"
proof -
  have u: "malloc_units (- 1) = 1" by (simp add: malloc_units_def)
  have "hsize s c \<noteq> 0" using h c by (auto simp: heap_ok_def)
  then have "malloc_units (- 1) \<le> hsize s c" unfolding u by (simp add: word_le_nat_alt flip: unat_gt_0)
  from take_allocated [OF h c(1) this, where grow = grow] obtain r t cs where
    r: "malloc_loop grow 1 (freep s) (hptr s (freep s)) s = Some (r, t)" "r \<noteq> 0" "allocated hb 1 s as r t cs" unfolding u by auto
  have t: "heap_ok hb t cs" "used_block hb t cs (r - 8)" "hsize t (r - 8) = 1" using r(2,3) by (simp_all add: allocated_def)
  have "freep s \<noteq> 0" using heap_nonzero [OF h] h by (auto simp: heap_ok_def)
  then have run: "malloc hb grow (- 1) s = Some (r, t)" using r(1) u by (simp add: malloc_def malloc_init_def Let_def)
  have "unat r = unat (r - 8) + 8" using used_payload [OF t(2)] t(1) by (simp add: heap_ok_def)
  then have "extent t (r - 8) = {unat r - 8 ..< unat r}" using t(3) by (simp add: extent_def)
  then show ?thesis using run r(2) t(1) by blast
qed

theorem malloc_wraps_witness:
  "\<exists>r t. malloc 0x2F00 (\<lambda>_ _. False) (- 1) page_heap = Some (r, t) \<and> r \<noteq> 0 \<and> extent t (r - 8) = {unat r - 8 ..< unat r}"
  using malloc_wraps [OF page_heap_ok(1), of "0x3000" "\<lambda>_ _. False"] by auto

end
