(* ===== verification/Xsys.thy ===== *)
theory Xsys
  imports Prelude "HOL-Library.Signed_Division"
begin

text \<open>
  The system calls added in \<open>src/Xv6/xv6-public\<close> (\<open>sysproc.c\<close>, \<open>sysfile.c\<close>) and the fetching of arguments of that
  kernel (\<open>syscall.c\<close>).  A process is its size, its stack pointer and its address space: the bytes at
  virtual addresses and which of them are mapped, the kernel's half included, as the kernel sees them
  when it runs for the process.  A variable that stays unset when an argument is refused is a parameter.
\<close>

record xproc =
  xsz :: u32
  xesp :: u32
  xmem :: bytes
  xmapped :: "nat \<Rightarrow> bool"

definition xload :: "u32 \<Rightarrow> xproc \<Rightarrow> u32 outcome" where
  "xload a p = fault_if (\<exists>i < 4. \<not> xmapped p (unat a + i)) (Ok (rd32 (xmem p) (unat a)))"

definition xfetchint :: "u32 \<Rightarrow> xproc \<Rightarrow> u32 option outcome" where
  "xfetchint addr p =
     (if xsz p \<le> addr \<or> xsz p < addr + 4 then Ok None else bnd (xload addr p) (\<lambda>v. Ok (Some v)))"

definition xargint :: "u32 \<Rightarrow> xproc \<Rightarrow> u32 option outcome" where
  "xargint n p = xfetchint (xesp p + 4 + 4 * n) p"

definition xargptr :: "u32 \<Rightarrow> u32 \<Rightarrow> xproc \<Rightarrow> u32 option outcome" where
  "xargptr n len p =
     bnd (xargint n p) (\<lambda>a. case a of
       None \<Rightarrow> Ok None
     | Some i \<Rightarrow> if sint len < 0 \<or> xsz p \<le> i \<or> xsz p < i + len then Ok None else Ok (Some i))"

subsection \<open>The system calls\<close>

definition xsys_getsize :: "xproc \<Rightarrow> u32" where "xsys_getsize p = xsz p"
definition xsys_kawshik :: u32 where "xsys_kawshik = 1705043"

definition paul_step :: "u32 \<Rightarrow> u32" where
  "paul_step x = word_of_int (sint (5 * x + 11) smod 1705043)"

fun paul_loop :: "nat \<Rightarrow> u32 \<Rightarrow> u32" where
  "paul_loop 0 x = x"
| "paul_loop (Suc k) x = paul_loop k (paul_step x)"

definition xsys_paul :: u32 where "xsys_paul = paul_loop 500 1705043"

definition xsys_incrementnum :: "u32 \<Rightarrow> xproc \<Rightarrow> u32 outcome" where
  "xsys_incrementnum num0 p = bnd (xargint 0 p) (\<lambda>a. Ok ((case a of None \<Rightarrow> num0 | Some n \<Rightarrow> n) + 1))"

text \<open>\<open>struct mystat\<close> at \<open>ct\<close>: the pointer \<open>nums\<close>, then the count \<open>sz\<close>; both are read again in every round.\<close>

fun addmul_loop :: "nat \<Rightarrow> u32 \<Rightarrow> u32 \<Rightarrow> u32 \<Rightarrow> xproc \<Rightarrow> u32 outcome" where
  "addmul_loop 0 ct i s p = Blocked"
| "addmul_loop (Suc k) ct i s p =
     bnd (xload (ct + 4) p) (\<lambda>sz.
     if sint i < sint sz
     then bnd (xload ct p) (\<lambda>nums.
          bnd (xload (nums + 4 * i) p) (\<lambda>v. addmul_loop k ct (i + 1) (s + v) p))
     else Ok s)"

definition xsys_addmultiplenum :: "u32 \<Rightarrow> xproc \<Rightarrow> u32 outcome" where
  "xsys_addmultiplenum ct0 p =
     bnd (xargptr 0 8 p) (\<lambda>a. addmul_loop (2 ^ 31) (case a of None \<Rightarrow> ct0 | Some ct \<Rightarrow> ct) 0 0 p)"

definition xsys_b1addition :: "u32 \<Rightarrow> u32 \<Rightarrow> xproc \<Rightarrow> u32 outcome" where
  "xsys_b1addition m0 n0 p =
     bnd (xargint 0 p) (\<lambda>a. bnd (xargint 1 p) (\<lambda>b.
     Ok ((case a of None \<Rightarrow> m0 | Some m \<Rightarrow> m) + (case b of None \<Rightarrow> n0 | Some n \<Rightarrow> n))))"

subsection \<open>The random number of \<open>paul\<close>\<close>

lemma paul_step_eq:
  assumes "unat x \<le> 1705043"
  shows "unat (paul_step x) = (5 * unat x + 11) mod 1705043" "unat (paul_step x) < 1705043"
proof -
  have u: "unat (5 * x + 11) = 5 * unat x + 11" using assms by (simp add: unat_word_ariths)
  have "sint (5 * x + 11) = int (5 * unat x + 11)" using u assms by (subst sint_eq_unat) simp_all
  moreover have "int k smod 1705043 = int (k mod 1705043)" for k :: nat
    by (cases "k = 0") (simp_all add: signed_modulo_int_def zmod_int)
  ultimately have "sint (5 * x + 11) smod 1705043 = int ((5 * unat x + 11) mod 1705043)" by metis
  then have "paul_step x = word_of_nat ((5 * unat x + 11) mod 1705043)" by (simp add: paul_step_def)
  moreover have "(5 * unat x + 11) mod 1705043 < 1705043" by simp
  ultimately show "unat (paul_step x) = (5 * unat x + 11) mod 1705043" "unat (paul_step x) < 1705043"
    by (simp_all add: unat_of_nat_lt)
qed

lemma paul_loop_eq: "unat x \<le> 1705043 \<Longrightarrow> k \<noteq> 0 \<or> unat x < 1705043 \<Longrightarrow> unat (paul_loop k x) = (5 ^ k * unat x + 11 * (\<Sum>i < k. 5 ^ i)) mod 1705043"
proof (induction k arbitrary: x)
  case (Suc k)
  note st = paul_step_eq [OF Suc.prems(1)]
  have "unat (paul_loop (Suc k) x) = (5 ^ k * unat (paul_step x) + 11 * (\<Sum>i < k. 5 ^ i)) mod 1705043"
    using Suc.IH [of "paul_step x"] st(2) by simp
  also have "\<dots> = (5 ^ k * (5 * unat x + 11) + 11 * (\<Sum>i < k. 5 ^ i)) mod 1705043"
    unfolding st(1) by (metis mod_add_left_eq mod_mult_right_eq)
  also have "5 ^ k * (5 * unat x + 11) + 11 * (\<Sum>i < k. 5 ^ i) = 5 ^ Suc k * unat x + 11 * (\<Sum>i < Suc k. 5 ^ i)"
    by (simp add: algebra_simps)
  finally show ?case .
qed simp

lemma sum_powers5: "4 * (\<Sum>i < k. 5 ^ i) + 1 = (5 :: nat) ^ k"
  by (induction k) simp_all

text \<open>The last number by repeated powers modulo four times the modulus.\<close>

lemma paul_power: "11 * ((5 ^ 500 - 1) div 4) mod 1705043 = (537642 :: nat)"
proof -
  have p: "(a ^ k) mod 6820172 = (b ^ k) mod 6820172" if "a mod 6820172 = b" for a b k :: nat
    using that power_mod [of a 6820172 k] by simp
  have a: "(5 ^ 5) ^ 5 mod 6820172 = (3497937 :: nat)" by simp
  have "((5 ^ 5) ^ 5) ^ 5 mod 6820172 = (3497937 :: nat) ^ 5 mod 6820172" by (rule p [OF a])
  also have "\<dots> = 4963777" by simp
  finally have b: "((5 ^ 5) ^ 5) ^ 5 mod 6820172 = (4963777 :: nat)" .
  have "(((5 ^ 5) ^ 5) ^ 5) ^ 4 mod 6820172 = (4963777 :: nat) ^ 4 mod 6820172" by (rule p [OF b])
  also have "\<dots> = 3915601" by simp
  finally have c: "(((5 ^ 5) ^ 5) ^ 5) ^ 4 mod 6820172 = (3915601 :: nat)" .
  have n: "(500 :: nat) = 5 * 5 * 5 * 4" by simp
  have "(5 :: nat) ^ 500 = (((5 ^ 5) ^ 5) ^ 5) ^ 4" unfolding n power_mult ..
  then have m: "(5 :: nat) ^ 500 mod 6820172 = 3915601" using c by (simp only:)
  define P :: nat where "P = 5 ^ 500"
  have "P mod 6820172 = 3915601" unfolding P_def by (rule m)
  then obtain q where "P = 6820172 * q + 3915601" by (metis mult_div_mod_eq)
  then have "(P - 1) div 4 = 1705043 * q + 978900" by simp
  then have "11 * ((P - 1) div 4) = 1705043 * (11 * q) + 10767900" by simp
  then have "11 * ((P - 1) div 4) mod 1705043 = (10767900 :: nat) mod 1705043" by (simp only: mod_mult_self4)
  also have "(10767900 :: nat) mod 1705043 = 537642" by simp
  finally show ?thesis unfolding P_def .
qed

text \<open>
  The random number of \<open>paul\<close>.  The linear congruential generator never leaves the range of \<open>int\<close>, and from the seed
  the \<open>k\<close>-th number is a closed expression in \<open>k\<close>; the system call always returns 537642.
\<close>

theorem paul_closed_form:
  "unat (paul_loop (Suc k) 1705043) = 11 * ((5 ^ Suc k - 1) div 4) mod 1705043 \<and> xsys_paul = 537642"
proof -
  have *: "unat (paul_loop (Suc k) 1705043) = 11 * ((5 ^ Suc k - 1) div 4) mod 1705043" for k
  proof -
    have s: "(\<Sum>i < Suc k. 5 ^ i) = ((5 :: nat) ^ Suc k - 1) div 4" using sum_powers5 [of "Suc k"] by linarith
    have "unat (paul_loop (Suc k) 1705043) = (5 ^ Suc k * 1705043 + 11 * (\<Sum>i < Suc k. 5 ^ i)) mod 1705043"
      by (subst paul_loop_eq) simp_all
    also have "\<dots> = 11 * (\<Sum>i < Suc k. 5 ^ i) mod 1705043" by (simp only: mod_mult_self3)
    finally show ?thesis unfolding s .
  qed
  have e: "(500 :: nat) = Suc 499" by simp
  have "unat xsys_paul = 11 * ((5 ^ Suc 499 - 1) div 4) mod 1705043"
    unfolding xsys_paul_def e by (rule *)
  also have "\<dots> = 537642" unfolding e [symmetric] by (rule paul_power)
  finally have "unat xsys_paul = unat (537642 :: u32)" by simp
  then show ?thesis using * by (simp only: word_unat_eq_iff)
qed

subsection \<open>Adding the numbers of a structure\<close>

definition mapped4 :: "xproc \<Rightarrow> u32 \<Rightarrow> bool" where
  "mapped4 p a \<longleftrightarrow> (\<forall>i < 4. xmapped p (unat a + i))"

lemma xload_mapped: "mapped4 p a \<Longrightarrow> xload a p = Ok (rd32 (xmem p) (unat a))"
  by (auto simp: xload_def mapped4_def fault_if_def)

lemma addmul_loop_eq:
  assumes m: "mapped4 p ct" "mapped4 p (ct + 4)" and nums: "nums = rd32 (xmem p) (unat ct)" and n: "int n = sint (rd32 (xmem p) (unat (ct + 4)))"
    and v: "\<forall>j < n. mapped4 p (nums + 4 * word_of_nat j)"
  shows "j \<le> n \<Longrightarrow> n - j < f \<Longrightarrow> addmul_loop f ct (word_of_nat j) s p =
    Ok (s + (\<Sum>i = j ..< n. rd32 (xmem p) (unat (nums + 4 * word_of_nat i))))"
proof (induction f arbitrary: j s)
  case (Suc f)
  have n31: "n < 2 ^ 31" using n sint_less [of "rd32 (xmem p) (unat (ct + 4))"] by simp
  have si: "sint (word_of_nat j :: u32) = int j"
    using Suc.prems(1) n31 by (subst sint_eq_unat) (simp_all add: unat_of_nat_lt)
  show ?case
  proof (cases "j = n")
    case True
    then show ?thesis using xload_mapped [OF m(2)] n si by simp
  next
    case False
    then have lt: "j < n" using Suc.prems(1) by simp
    have "addmul_loop (Suc f) ct (word_of_nat j) s p = addmul_loop f ct (word_of_nat (Suc j)) (s + rd32 (xmem p) (unat (nums + 4 * word_of_nat j))) p"
      using xload_mapped [OF m(1)] xload_mapped [OF m(2)] xload_mapped [OF v [rule_format, OF lt]] n nums si lt
      by (simp add: add.commute)
    also have "\<dots> = Ok (s + rd32 (xmem p) (unat (nums + 4 * word_of_nat j)) + (\<Sum>i = Suc j ..< n. rd32 (xmem p) (unat (nums + 4 * word_of_nat i))))"
      using Suc.IH [of "Suc j"] lt Suc.prems(2) by simp
    also have "\<dots> = Ok (s + (\<Sum>i = j ..< n. rd32 (xmem p) (unat (nums + 4 * word_of_nat i))))"
      using lt by (simp add: sum.atLeast_Suc_lessThan add.assoc)
    finally show ?thesis .
  qed
qed simp

text \<open>
  C19. \<open>addmultiplenum\<close> adds whatever the structure points to.  When the structure lies in the process, the result is the
  sum modulo \<open>2\<^sup>3\<^sup>2\<close> of the \<open>sz\<close> words from \<open>nums\<close> on; nothing asks that \<open>nums\<close> lies in the process, so a process
  that stores an address of the kernel there gets the kernel's memory word by word.
\<close>

theorem addmultiplenum_adds_anything:
  assumes a: "xargptr 0 8 p = Ok (Some ct)" and m: "mapped4 p ct" "mapped4 p (ct + 4)"
    and nums: "nums = rd32 (xmem p) (unat ct)" and n: "int n = sint (rd32 (xmem p) (unat (ct + 4)))"
    and v: "\<forall>j < n. mapped4 p (nums + 4 * word_of_nat j)"
  shows "xsys_addmultiplenum ct0 p = Ok (\<Sum>i < n. rd32 (xmem p) (unat (nums + 4 * word_of_nat i)))"
proof -
  have "n < 2 ^ 31" using n sint_less [of "rd32 (xmem p) (unat (ct + 4))"] by simp
  then have "addmul_loop (2 ^ 31) ct (word_of_nat 0) 0 p = Ok (0 + (\<Sum>i = 0 ..< n. rd32 (xmem p) (unat (nums + 4 * word_of_nat i))))"
    by (intro addmul_loop_eq [OF m nums n v]) simp_all
  then show ?thesis using a by (simp add: xsys_addmultiplenum_def atLeast0LessThan)
qed

text \<open>A process that asks for the word at \<open>0x80100000\<close>, in the kernel.\<close>

definition spy :: xproc where
  "spy = \<lparr>xsz = 0x3000, xesp = 0x2000,
     xmem = wr32 (wr32 (wr32 (wr32 (\<lambda>_. 0) 0x2004 0x1000) 0x1000 0x80100000) 0x1004 1) 0x80100000 0xC0FFEE, xmapped = \<lambda>_. True\<rparr>"

theorem addmultiplenum_adds_anything_witness: "xsys_addmultiplenum 0 spy = Ok 0xC0FFEE"
proof -
  have r: "rd32 (xmem spy) 0x2004 = 0x1000" "rd32 (xmem spy) 0x1000 = 0x80100000" "rd32 (xmem spy) 0x1004 = 1" "rd32 (xmem spy) 0x80100000 = 0xC0FFEE"
    by (simp_all add: spy_def rd32_wr32_other)
  have m: "mapped4 spy a" for a by (simp add: mapped4_def spy_def)
  have "xsz spy = 0x3000" "xesp spy = 0x2000" by (simp_all add: spy_def)
  then have a: "xargptr 0 8 spy = Ok (Some 0x1000)"
    using r(1) xload_mapped [OF m] by (simp add: xargptr_def xargint_def xfetchint_def)
  have "xsys_addmultiplenum 0 spy = Ok (\<Sum>i < 1. rd32 (xmem spy) (unat (0x80100000 + 4 * word_of_nat i :: u32)))"
    by (rule addmultiplenum_adds_anything [OF a m m]) (use r m in simp_all)
  then show ?thesis using r(4) by simp
qed

end
