(* ===== verification/Utils.thy ===== *)
theory Utils
  imports Grep
begin

text \<open>
  The small user programs \<open>wc\<close>, \<open>cat\<close>, \<open>echo\<close>, \<open>kill\<close>, \<open>ln\<close>, \<open>mkdir\<close>, \<open>rm\<close> and \<open>ls\<close>.  A program is what it writes and
  calls, in order; \<open>printf\<close> appears with its descriptor, its format and its arguments (\<open>Printf\<close> models the
  routine).  System calls are parameters, as in \<open>Grep\<close>; \<open>None\<close> is fuel that runs out.
\<close>

datatype parg = D u32 | S "u8 list"
datatype event = Prints nat "u8 list" "parg list" | Wrote "u8 list" | Kill u32

definition line :: "string \<Rightarrow> u8 list" where
  "line s = bytes_of s @ [NL]"

definition UBUF :: nat where "UBUF = 512"

subsection \<open>\<open>wc\<close>\<close>

record counts =
  cl :: u32
  cw :: u32
  cc :: u32
  inword :: bool

definition blank :: "u8 \<Rightarrow> bool" where
  "blank b \<longleftrightarrow> b \<in> set [32, 13, 9, 10, 11]"

definition wc_char :: "u8 \<Rightarrow> counts \<Rightarrow> counts" where
  "wc_char b s =
     (let s1 = s\<lparr>cc := cc s + 1, cl := (if b = NL then cl s + 1 else cl s)\<rparr>
      in if blank b then s1\<lparr>inword := False\<rparr>
         else if \<not> inword s1 then s1\<lparr>cw := cw s1 + 1, inword := True\<rparr> else s1)"

fun wc_loop :: "(nat \<Rightarrow> 'i \<Rightarrow> u8 list option \<times> 'i) \<Rightarrow> nat \<Rightarrow> counts \<Rightarrow> 'i \<Rightarrow> counts option option" where
  "wc_loop rd 0 s i = None"
| "wc_loop rd (Suc k) s i =
     (case rd UBUF i of
        (None, _) \<Rightarrow> Some None
      | (Some [], _) \<Rightarrow> Some (Some s)
      | (Some bs, j) \<Rightarrow> wc_loop rd k (fold wc_char bs s) j)"

text \<open>The result says whether the program goes on.\<close>

definition wc :: "(nat \<Rightarrow> 'i \<Rightarrow> u8 list option \<times> 'i) \<Rightarrow> nat \<Rightarrow> 'i \<Rightarrow> u8 list \<Rightarrow> (event list \<times> bool) option" where
  "wc rd k i name =
     (case wc_loop rd k \<lparr>cl = 0, cw = 0, cc = 0, inword = False\<rparr> i of
        None \<Rightarrow> None
      | Some None \<Rightarrow> Some ([Prints 1 (line ''wc: read error'') []], False)
      | Some (Some s) \<Rightarrow> Some ([Prints 1 (line ''%d %d %d %s'') [D (cl s), D (cw s), D (cc s), S name]], True))"

text \<open>The loop over the arguments, the same in \<open>wc\<close> and \<open>cat\<close>: \<open>run\<close> is the function called on each file.\<close>

fun each_file :: "('i \<Rightarrow> u8 list \<Rightarrow> (event list \<times> bool) option) \<Rightarrow> (u8 list \<Rightarrow> 'i option) \<Rightarrow> string \<Rightarrow> u8 list list \<Rightarrow> event list option" where
  "each_file run op msg [] = Some []"
| "each_file run op msg (f # fs) =
     (case op f of
        None \<Rightarrow> Some [Prints 1 (line msg) [S f]]
      | Some i \<Rightarrow>
          (case run i f of
             None \<Rightarrow> None
           | Some (ev, goes_on) \<Rightarrow>
               if goes_on then map_option (\<lambda>r. ev @ r) (each_file run op msg fs) else Some ev))"

definition wc_main :: "(nat \<Rightarrow> 'i \<Rightarrow> u8 list option \<times> 'i) \<Rightarrow> nat \<Rightarrow> (u8 list \<Rightarrow> 'i option) \<Rightarrow> 'i \<Rightarrow> u8 list list \<Rightarrow> event list option" where
  "wc_main rd k op stdin argv =
     (if length argv \<le> 1 then map_option fst (wc rd k stdin [])
      else each_file (wc rd k) op ''wc: cannot open %s'' (tl argv))"

subsection \<open>\<open>cat\<close>\<close>

text \<open>\<open>wr\<close> is how many bytes \<open>write\<close> says it has written.\<close>

fun cat_loop :: "(nat \<Rightarrow> 'i \<Rightarrow> u8 list option \<times> 'i) \<Rightarrow> (u8 list \<Rightarrow> int) \<Rightarrow> nat \<Rightarrow> 'i \<Rightarrow> (event list \<times> bool) option" where
  "cat_loop rd wr 0 i = None"
| "cat_loop rd wr (Suc k) i =
     (case rd UBUF i of
        (None, _) \<Rightarrow> Some ([Prints 1 (line ''cat: read error'') []], False)
      | (Some [], _) \<Rightarrow> Some ([], True)
      | (Some bs, j) \<Rightarrow>
          if wr bs \<noteq> int (length bs) then Some ([Wrote bs, Prints 1 (line ''cat: write error'') []], False)
          else map_option (\<lambda>(ev, b). (Wrote bs # ev, b)) (cat_loop rd wr k j))"

definition cat_main :: "(nat \<Rightarrow> 'i \<Rightarrow> u8 list option \<times> 'i) \<Rightarrow> (u8 list \<Rightarrow> int) \<Rightarrow> nat \<Rightarrow> (u8 list \<Rightarrow> 'i option) \<Rightarrow> 'i \<Rightarrow> u8 list list \<Rightarrow> event list option" where
  "cat_main rd wr k op stdin argv =
     (if length argv \<le> 1 then map_option fst (cat_loop rd wr k stdin)
      else each_file (\<lambda>i _. cat_loop rd wr k i) op ''cat: cannot open %s'' (tl argv))"

subsection \<open>Programs that only call\<close>

fun echo_loop :: "u8 list list \<Rightarrow> event list" where
  "echo_loop [] = []"
| "echo_loop (a # as) = Prints 1 (bytes_of ''%s%s'') [S a, S (if as \<noteq> [] then bytes_of '' '' else [NL])] # echo_loop as"

definition echo_main :: "u8 list list \<Rightarrow> event list" where
  "echo_main argv = echo_loop (tl argv)"

definition kill_main :: "(u8 list \<Rightarrow> u32) \<Rightarrow> u8 list list \<Rightarrow> event list" where
  "kill_main num argv =
     (if length argv < 2 then [Prints 2 (line ''usage: kill pid...'') []] else map (\<lambda>a. Kill (num a)) (tl argv))"

definition ln_main :: "(u8 list \<Rightarrow> u8 list \<Rightarrow> 's \<Rightarrow> int \<times> 's) \<Rightarrow> u8 list list \<Rightarrow> 's \<Rightarrow> event list \<times> 's" where
  "ln_main link argv s =
     (if length argv \<noteq> 3 then ([Prints 2 (line ''Usage: ln old new'') []], s)
      else let (r, t) = link (argv ! 1) (argv ! 2) s
        in (if r < 0 then [Prints 2 (line ''link %s %s: failed'') [S (argv ! 1), S (argv ! 2)]] else [], t))"

text \<open>\<open>mkdir\<close> and \<open>rm\<close>: one call for each argument up to the first that fails.\<close>

fun each_call :: "(u8 list \<Rightarrow> 's \<Rightarrow> int \<times> 's) \<Rightarrow> string \<Rightarrow> u8 list list \<Rightarrow> 's \<Rightarrow> event list \<times> 's" where
  "each_call call msg [] s = ([], s)"
| "each_call call msg (a # as) s =
     (let (r, t) = call a s in if r < 0 then ([Prints 2 (line msg) [S a]], t) else each_call call msg as t)"

definition mkdir_main :: "(u8 list \<Rightarrow> 's \<Rightarrow> int \<times> 's) \<Rightarrow> u8 list list \<Rightarrow> 's \<Rightarrow> event list \<times> 's" where
  "mkdir_main mkdir argv s =
     (if length argv < 2 then ([Prints 2 (line ''Usage: mkdir files...'') []], s)
      else each_call mkdir ''mkdir: %s failed to create'' (tl argv) s)"

definition rm_main :: "(u8 list \<Rightarrow> 's \<Rightarrow> int \<times> 's) \<Rightarrow> u8 list list \<Rightarrow> 's \<Rightarrow> event list \<times> 's" where
  "rm_main unlink argv s =
     (if length argv < 2 then ([Prints 2 (line ''Usage: rm files...'') []], s)
      else each_call unlink ''rm: %s failed to delete'' (tl argv) s)"

subsection \<open>\<open>ls\<close>\<close>

definition UDIRSIZ :: nat where "UDIRSIZ = 14"
definition SLASHC :: u8 where "SLASHC = 47"

text \<open>The text behind the last slash, and the name padded with blanks.\<close>

definition after_slash :: "u8 list \<Rightarrow> u8 list" where
  "after_slash path = rev (takeWhile (\<lambda>c. c \<noteq> SLASHC) (rev path))"

definition fmtname :: "u8 list \<Rightarrow> u8 list" where
  "fmtname path =
     (let p = after_slash path in if UDIRSIZ \<le> length p then p else p @ replicate (UDIRSIZ - length p) 32)"

record ustat =
  st_type :: u32
  st_ino :: u32
  st_size :: u32

definition ls_line :: "u8 list \<Rightarrow> ustat \<Rightarrow> event" where
  "ls_line path st = Prints 1 (line ''%s %d %d %d'') [S (fmtname path), D (st_type st), D (st_ino st), D (st_size st)]"

text \<open>The entries of a directory: 16 bytes each, of which the first two are the inode number.\<close>

fun ls_dir :: "(nat \<Rightarrow> 'i \<Rightarrow> u8 list option \<times> 'i) \<Rightarrow> (u8 list \<Rightarrow> ustat option) \<Rightarrow> nat \<Rightarrow> u8 list \<Rightarrow> 'i \<Rightarrow> event list option" where
  "ls_dir rd stat 0 path i = None"
| "ls_dir rd stat (Suc k) path i =
     (case rd 16 i of
        (None, _) \<Rightarrow> Some []
      | (Some de, j) \<Rightarrow>
          if length de \<noteq> 16 then Some []
          else if de ! 0 = 0 \<and> de ! 1 = 0 then ls_dir rd stat k path j
          else let buf = path @ [SLASHC] @ takeWhile (\<lambda>c. c \<noteq> 0) (drop 2 de);
                   ev = (case stat buf of None \<Rightarrow> Prints 1 (line ''ls: cannot stat %s'') [S buf] | Some st \<Rightarrow> ls_line buf st)
               in map_option ((#) ev) (ls_dir rd stat k path j))"

definition ls :: "(nat \<Rightarrow> 'i \<Rightarrow> u8 list option \<times> 'i) \<Rightarrow> (u8 list \<Rightarrow> 'i option) \<Rightarrow> ('i \<Rightarrow> ustat option) \<Rightarrow> (u8 list \<Rightarrow> ustat option) \<Rightarrow>
    nat \<Rightarrow> u8 list \<Rightarrow> event list option" where
  "ls rd op fstat stat k path =
     (case op path of
        None \<Rightarrow> Some [Prints 2 (line ''ls: cannot open %s'') [S path]]
      | Some i \<Rightarrow>
          (case fstat i of
             None \<Rightarrow> Some [Prints 2 (line ''ls: cannot stat %s'') [S path]]
           | Some st \<Rightarrow>
               if st_type st = 2 then Some [ls_line path st]
               else if st_type st = 1
               then if 512 < length path + 1 + UDIRSIZ + 1 then Some [Prints 1 (line ''ls: path too long'') []]
                    else ls_dir rd stat k path i
               else Some []))"

fun ls_all :: "(u8 list \<Rightarrow> event list option) \<Rightarrow> u8 list list \<Rightarrow> event list option" where
  "ls_all run [] = Some []"
| "ls_all run (p # ps) = Option.bind (run p) (\<lambda>ev. map_option ((@) ev) (ls_all run ps))"

definition ls_main :: "(u8 list \<Rightarrow> event list option) \<Rightarrow> u8 list list \<Rightarrow> event list option" where
  "ls_main run argv = (if length argv < 2 then run (bytes_of ''.'') else ls_all run (tl argv))"

subsection \<open>Reading a file in pieces\<close>

text \<open>\<open>read\<close> delivers the bytes in non-empty pieces of any length and then says that it is at the end.\<close>

inductive delivers :: "(nat \<Rightarrow> 'i \<Rightarrow> u8 list option \<times> 'i) \<Rightarrow> nat \<Rightarrow> 'i \<Rightarrow> u8 list \<Rightarrow> bool" for rd n where
  at_end: "rd n i = (Some [], j) \<Longrightarrow> delivers rd n i []"
| piece: "rd n i = (Some bs, j) \<Longrightarrow> bs \<noteq> [] \<Longrightarrow> delivers rd n j cs \<Longrightarrow> delivers rd n i (bs @ cs)"

text \<open>The words of a text: a byte that is no blank starts one when no such byte is before it.\<close>

fun words :: "bool \<Rightarrow> u8 list \<Rightarrow> nat" where
  "words inw [] = 0"
| "words inw (b # bs) = (if \<not> blank b \<and> \<not> inw then 1 else 0) + words (\<not> blank b) bs"

definition lines_of :: "u8 list \<Rightarrow> nat" where
  "lines_of bs = length (filter (\<lambda>b. b = NL) bs)"

text \<open>Counted by positions.\<close>

lemma words_positions:
  "words inw bs = card {i. i < length bs \<and> \<not> blank (bs ! i) \<and> (if i = 0 then \<not> inw else blank (bs ! (i - 1)))}"
proof (induction bs arbitrary: inw)
  case (Cons b bs)
  let ?P = "\<lambda>inw bs i. \<not> blank (bs ! i) \<and> (if i = 0 then \<not> inw else blank (bs ! (i - 1)))"
  have "{i. i < length (b # bs) \<and> ?P inw (b # bs) i} =
      {i. i = 0 \<and> ?P inw (b # bs) 0} \<union> Suc ` {i. i < length bs \<and> ?P (\<not> blank b) bs i}"
  proof (intro set_eqI iffI)
    fix i assume i: "i \<in> {i. i < length (b # bs) \<and> ?P inw (b # bs) i}"
    show "i \<in> {i. i = 0 \<and> ?P inw (b # bs) 0} \<union> Suc ` {i. i < length bs \<and> ?P (\<not> blank b) bs i}"
    proof (cases i)
      case (Suc j)
      then show ?thesis using i by (cases j) auto
    qed (use i in auto)
  next
    fix i assume "i \<in> {i. i = 0 \<and> ?P inw (b # bs) 0} \<union> Suc ` {i. i < length bs \<and> ?P (\<not> blank b) bs i}"
    then show "i \<in> {i. i < length (b # bs) \<and> ?P inw (b # bs) i}"
      by (auto split: if_splits simp: nth_Cons')
  qed
  moreover have "{i. i = 0 \<and> ?P inw (b # bs) 0} = (if \<not> blank b \<and> \<not> inw then {0} else {})" by auto
  moreover have "finite (Suc ` {i. i < length bs \<and> ?P (\<not> blank b) bs i})" by simp
  ultimately show ?case using Cons.IH [of "\<not> blank b"] by (simp add: card_image)
qed simp

lemma wc_fold:
  "fold wc_char bs s = \<lparr>cl = cl s + word_of_nat (lines_of bs), cw = cw s + word_of_nat (words (inword s) bs),
     cc = cc s + word_of_nat (length bs), inword = (if bs = [] then inword s else \<not> blank (last bs))\<rparr>"
proof (induction bs arbitrary: s)
  case (Cons b bs)
  have "inword (wc_char b s) = (\<not> blank b)" by (simp add: wc_char_def Let_def)
  moreover have "cl (wc_char b s) = cl s + (if b = NL then 1 else 0)" "cc (wc_char b s) = cc s + 1"
    "cw (wc_char b s) = cw s + (if \<not> blank b \<and> \<not> inword s then 1 else 0)" by (simp_all add: wc_char_def Let_def)
  ultimately show ?case using Cons.IH [of "wc_char b s"] by (simp add: lines_of_def)
qed (simp add: lines_of_def)

lemma wc_loop_text:
  "delivers rd UBUF i bs \<Longrightarrow> length bs < k \<Longrightarrow> wc_loop rd k s i = Some (Some (fold wc_char bs s))"
proof (induction arbitrary: k s rule: delivers.induct)
  case (at_end i j)
  then show ?case by (cases k) auto
next
  case (piece i bs j cs)
  obtain k' where k: "k = Suc k'" using piece.prems by (cases k) auto
  have "length cs < k'" using piece.prems piece.hyps(2) k by (cases bs) auto
  then show ?case using piece.IH [of k' "fold wc_char bs s"] piece.hyps(1,2) k by (cases bs) simp_all
qed

lemma word_starts: "card {i. i < length bs \<and> \<not> blank (bs ! i) \<and> (i \<noteq> 0 \<longrightarrow> blank (bs ! (i - 1)))} = words False bs"
proof -
  have "{i. i < length bs \<and> \<not> blank (bs ! i) \<and> (if i = 0 then \<not> False else blank (bs ! (i - 1)))} =
    {i. i < length bs \<and> \<not> blank (bs ! i) \<and> (i \<noteq> 0 \<longrightarrow> blank (bs ! (i - 1)))}" by auto
  then show ?thesis using words_positions [of False bs] by simp
qed

text \<open>
  \<open>wc\<close> counts.  However \<open>read\<close> cuts the file into pieces, \<open>wc\<close> prints the number of its newlines, of its words and of
  its bytes (modulo \<open>2\<^sup>3\<^sup>2\<close>); a word begins at every byte that is no blank and has a blank or nothing before
  it, also when it lies across two reads.
\<close>

theorem wc_counts:
  assumes "delivers rd UBUF i bs" "length bs < k"
  shows "wc rd k i name = Some ([Prints 1 (line ''%d %d %d %s'')
    [D (word_of_nat (lines_of bs)),
     D (word_of_nat (card {i. i < length bs \<and> \<not> blank (bs ! i) \<and> (i \<noteq> 0 \<longrightarrow> blank (bs ! (i - 1)))})),
     D (word_of_nat (length bs)), S name]], True)"
  using wc_loop_text [OF assms] by (simp only: word_starts) (simp add: wc_def wc_fold)

text \<open>A file that is delivered in given pieces.\<close>

fun chunk_read :: "nat \<Rightarrow> u8 list list \<Rightarrow> u8 list option \<times> u8 list list" where
  "chunk_read n [] = (Some [], [])"
| "chunk_read n (c # cs) = (Some c, cs)"

lemma chunk_delivers: "\<forall>c \<in> set cs. c \<noteq> [] \<Longrightarrow> delivers chunk_read n cs (concat cs)"
proof (induction cs)
  case Nil
  then show ?case using at_end [of chunk_read n "[]" "[]"] by simp
next
  case (Cons c cs)
  then show ?case using piece [of chunk_read n "c # cs" c cs "concat cs"] by simp
qed

theorem wc_counts_witness:
  "wc chunk_read 10 [[97, 98], [99, 32, 32], [100, 10]] [120] = Some ([Prints 1 (line ''%d %d %d %s'') [D 1, D 2, D 7, S [120]]], True)"
proof -
  have d: "delivers chunk_read UBUF [[97, 98], [99, 32, 32], [100, 10]] [97, 98, 99, 32, 32, 100, 10]"
    using chunk_delivers [of "[[97, 98], [99, 32, 32], [100, 10]]" UBUF] by simp
  show ?thesis
    using wc_counts [OF d, of 10 "[120]"] by (simp only: word_starts) (simp add: lines_of_def NL_def blank_def)
qed

subsection \<open>Copying\<close>

fun wrote :: "event list \<Rightarrow> u8 list" where
  "wrote [] = []"
| "wrote (Wrote bs # ev) = bs @ wrote ev"
| "wrote (e # ev) = wrote ev"

text \<open>
  \<open>cat\<close> copies.  When every write writes all it is given, \<open>cat\<close> reaches the end of the file and writes exactly its bytes
  in their order, and prints nothing else.
\<close>

lemma cat_copies:
  assumes "delivers rd UBUF i bs" "length bs < k" "\<forall>cs. wr cs = int (length cs)"
  shows "\<exists>ev. cat_loop rd wr k i = Some (ev, True) \<and> wrote ev = bs \<and> (\<forall>e \<in> set ev. \<exists>cs. e = Wrote cs)"
  using assms
proof (induction arbitrary: k rule: delivers.induct)
  case (at_end i j)
  then show ?case by (cases k) auto
next
  case (piece i bs j cs)
  obtain k' where k: "k = Suc k'" using piece.prems by (cases k) auto
  have "length cs < k'" using piece.prems piece.hyps(2) k by (cases bs) auto
  then obtain ev where "cat_loop rd wr k' j = Some (ev, True)" "wrote ev = cs" "\<forall>e \<in> set ev. \<exists>cs. e = Wrote cs"
    using piece.IH piece.prems(2) by blast
  then show ?case using piece.hyps(1,2) spec [OF piece.prems(2), of bs] k by (intro exI [of _ "Wrote bs # ev"]) (cases bs; simp)
qed

subsection \<open>Names\<close>

text \<open>
  The columns of \<open>ls\<close>: the padded name is at least \<open>DIRSIZ\<close> long, holds no slash, and is the last part of the path
  followed by blanks.
\<close>

lemma fmtname_pads:
  "\<exists>u p n. path = u @ p \<and> SLASHC \<notin> set p \<and> (u = [] \<or> last u = SLASHC) \<and> fmtname path = p @ replicate n 32 \<and> UDIRSIZ \<le> length p + n"
proof -
  let ?p = "after_slash path"
  define u where "u = rev (dropWhile (\<lambda>c. c \<noteq> SLASHC) (rev path))"
  have a: "path = u @ ?p" unfolding u_def after_slash_def by (metis rev_append rev_rev_ident takeWhile_dropWhile_id)
  have b: "SLASHC \<notin> set ?p" unfolding after_slash_def by (auto dest: set_takeWhileD)
  have c: "u = [] \<or> last u = SLASHC"
    unfolding u_def using hd_dropWhile [of "\<lambda>c. c \<noteq> SLASHC" "rev path"] by (auto simp: last_rev)
  have "fmtname path = ?p @ replicate (UDIRSIZ - length ?p) 32" by (simp add: fmtname_def Let_def)
  then show ?thesis using a b c by (intro exI [of _ u] exI [of _ ?p] exI [of _ "UDIRSIZ - length ?p"]) auto
qed

end
